(* ===== verification/Prelude.thy ===== *)
theory Prelude
  imports Main "HOL-Library.Char_ord" "HOL-Library.List_Lexorder"
begin

text \<open>
  Shared vocabulary of the development: how panics, errors and short-circuiting iterator
  adaptors of the Rust code are represented, the third-party iterator adaptors the code is
  parameterised over, and the list and map lemmas the components share.

  Conventions. A function that may panic (\<open>panic!\<close>, a failed \<open>assert!\<close>, an index out of
  bounds, \<open>unwrap\<close> of \<open>None\<close>) returns an \<open>option\<close>, with \<open>None\<close> for "does not return".
  A function that returns Rust's \<open>Result\<close> returns \<open>'e + 'a\<close>, with \<open>Inl\<close> for \<open>Err\<close>; one that
  can do both returns \<open>('e + 'a) option\<close>. \<open>usize\<close> values are unbounded \<open>nat\<close>s: they are
  indices, cardinalities and counters that are bounded by the sizes of data structures in memory.
\<close>

named_theorems sem_simps \<open>semantics of the connectives, as rewrite rules\<close>
named_theorems doc_simps \<open>consequences of the documented behaviour of third-party code\<close>

declare One_nat_def [simp del]

section \<open>Panics, errors and lazy iteration\<close>

text \<open>\<open>iter.all(f)\<close> and \<open>iter.any(f)\<close> stop at the first element that decides the result, so a
  panic of a later element is not reached.\<close>

fun all_p :: "bool option list \<Rightarrow> bool option" where
  "all_p [] = Some True"
| "all_p (None # xs) = None"
| "all_p (Some b # xs) = (if b then all_p xs else Some False)"

fun any_p :: "bool option list \<Rightarrow> bool option" where
  "any_p [] = Some False"
| "any_p (None # xs) = None"
| "any_p (Some b # xs) = (if b then Some True else any_p xs)"

text \<open>\<open>iter.collect::<Result<Vec<_>, _>>()\<close>: the first error wins and later elements are not
  computed.\<close>

fun collect_result :: "('e + 'a) list \<Rightarrow> 'e + 'a list" where
  "collect_result [] = Inr []"
| "collect_result (Inl e # xs) = Inl e"
| "collect_result (Inr x # xs) =
     (case collect_result xs of Inl e \<Rightarrow> Inl e | Inr ys \<Rightarrow> Inr (x # ys))"

fun collect_presult :: "('e + 'a) option list \<Rightarrow> ('e + 'a list) option" where
  "collect_presult [] = Some (Inr [])"
| "collect_presult (None # xs) = None"
| "collect_presult (Some (Inl e) # xs) = Some (Inl e)"
| "collect_presult (Some (Inr x) # xs) =
     (case collect_presult xs of
        None \<Rightarrow> None | Some (Inl e) \<Rightarrow> Some (Inl e) | Some (Inr ys) \<Rightarrow> Some (Inr (x # ys)))"

text \<open>The \<open>?\<close> operator on a computation that may also panic.\<close>

definition bind_pr :: "('e + 'a) option \<Rightarrow> ('a \<Rightarrow> ('e + 'b) option) \<Rightarrow> ('e + 'b) option" where
  "bind_pr r f = (case r of None \<Rightarrow> None | Some (Inl e) \<Rightarrow> Some (Inl e) | Some (Inr x) \<Rightarrow> f x)"

lemma bind_pr_simps [simp]:
  "bind_pr None f = None" "bind_pr (Some (Inl e)) f = Some (Inl e)" "bind_pr (Some (Inr x)) f = f x"
  by (simp_all add: bind_pr_def)

lemma bind_pr_Inr: "bind_pr r f = Some (Inr y) \<longleftrightarrow> (\<exists>x. r = Some (Inr x) \<and> f x = Some (Inr y))"
  by (auto simp: bind_pr_def split: option.splits sum.splits)

text \<open>The \<open>?\<close> operator on a computation that does not panic.\<close>

definition bind_r :: "'e + 'a \<Rightarrow> ('a \<Rightarrow> 'e + 'b) \<Rightarrow> 'e + 'b" where
  "bind_r r f = (case r of Inl e \<Rightarrow> Inl e | Inr x \<Rightarrow> f x)"

lemma bind_r_simps [simp]: "bind_r (Inl e) f = Inl e" "bind_r (Inr x) f = f x"
  by (simp_all add: bind_r_def)

lemma bind_r_Inr: "bind_r r f = Inr y \<longleftrightarrow> (\<exists>x. r = Inr x \<and> f x = Inr y)"
  by (cases r) simp_all

text \<open>Evaluating a result whose error type has no decidable equality.\<close>

definition returns :: "('e + 'a) option \<Rightarrow> 'a \<Rightarrow> bool" where
  "returns r y = (case r of Some (Inr x) \<Rightarrow> x = y | _ \<Rightarrow> False)"

lemma returns_iff: "returns r y \<longleftrightarrow> r = Some (Inr y)"
  by (auto simp: returns_def split: option.split sum.split)

text \<open>\<open>iter.filter(f)\<close> where the predicate may panic.\<close>

fun filter_p :: "('a \<Rightarrow> bool option) \<Rightarrow> 'a list \<Rightarrow> 'a list option" where
  "filter_p f [] = Some []"
| "filter_p f (x # xs) =
     (case f x of None \<Rightarrow> None | Some b \<Rightarrow>
      map_option (\<lambda>ys. if b then x # ys else ys) (filter_p f xs))"

lemma filter_p_SomeI: "(\<And>x. x \<in> set xs \<Longrightarrow> f x = Some (g x)) \<Longrightarrow> filter_p f xs = Some (filter g xs)"
  by (induction xs) auto

lemma filter_p_SomeD:
  "\<lbrakk> filter_p f xs = Some ys; \<And>x b. x \<in> set xs \<Longrightarrow> f x = Some b \<Longrightarrow> b = g x \<rbrakk> \<Longrightarrow> ys = filter g xs"
  by (induction xs arbitrary: ys) (auto split: option.splits)

text \<open>A \<open>for\<close> loop whose body may panic.\<close>

fun fold_p :: "('a \<Rightarrow> 'b \<Rightarrow> 'b option) \<Rightarrow> 'a list \<Rightarrow> 'b \<Rightarrow> 'b option" where
  "fold_p f [] s = Some s"
| "fold_p f (x # xs) s = (case f x s of None \<Rightarrow> None | Some s' \<Rightarrow> fold_p f xs s')"

lemma fold_p_invariant:
  assumes "fold_p f xs s = Some s'" and "P s"
    and "\<And>x s s'. x \<in> set xs \<Longrightarrow> P s \<Longrightarrow> f x s = Some s' \<Longrightarrow> P s'"
  shows "P s'"
  using assms
proof (induction xs arbitrary: s)
  case Nil
  then show ?case by simp
next
  case (Cons x xs)
  from Cons.prems(1) obtain s1 where step: "f x s = Some s1" and rest: "fold_p f xs s1 = Some s'"
    by (auto split: option.splits)
  have "P s1" by (rule Cons.prems(3) [OF _ Cons.prems(2) step]) simp
  show ?case
    by (rule Cons.IH [OF rest \<open>P s1\<close>]) (rule Cons.prems(3), simp_all)
qed

lemma fold_p_total:
  "\<lbrakk> P s; \<And>x s. x \<in> set xs \<Longrightarrow> P s \<Longrightarrow> \<exists>s'. f x s = Some s' \<and> P s' \<rbrakk>
   \<Longrightarrow> \<exists>s'. fold_p f xs s = Some s' \<and> P s'"
proof (induction xs arbitrary: s)
  case Nil
  then show ?case by simp
next
  case (Cons x xs)
  from Cons.prems obtain s1 where "f x s = Some s1" and "P s1" by fastforce
  moreover from Cons.IH [OF \<open>P s1\<close>] Cons.prems(2)
  obtain s2 where "fold_p f xs s1 = Some s2" and "P s2" by auto
  ultimately show ?case by auto
qed

lemma fold_p_Some:
  "(\<And>x s. x \<in> set xs \<Longrightarrow> f x s = Some (g x s)) \<Longrightarrow> fold_p f xs s = Some (fold g xs s)"
  by (induction xs arbitrary: s) auto

lemma fold_p_SomeD:
  "\<lbrakk> fold_p f xs s = Some t; \<And>x s s'. x \<in> set xs \<Longrightarrow> f x s = Some s' \<Longrightarrow> s' = g x s \<rbrakk>
   \<Longrightarrow> t = fold g xs s"
  by (induction xs arbitrary: s) (fastforce split: option.splits)+

lemma all_p_Some [simp]: "all_p (map Some bs) = Some (list_all id bs)"
  by (induction bs) auto

lemma any_p_Some [simp]: "any_p (map Some bs) = Some (list_ex id bs)"
  by (induction bs) auto

lemma all_p_map_Some [simp]: "all_p (map (\<lambda>x. Some (f x)) xs) = Some (\<forall>x\<in>set xs. f x)"
  by (induction xs) auto

lemma any_p_map_Some [simp]: "any_p (map (\<lambda>x. Some (f x)) xs) = Some (\<exists>x\<in>set xs. f x)"
  by (induction xs) auto

lemma all_p_eq_SomeI:
  "(\<And>x. x \<in> set xs \<Longrightarrow> f x = Some (g x)) \<Longrightarrow> all_p (map f xs) = Some (\<forall>x\<in>set xs. g x)"
  by (induction xs) auto

lemma any_p_eq_SomeI:
  "(\<And>x. x \<in> set xs \<Longrightarrow> f x = Some (g x)) \<Longrightarrow> any_p (map f xs) = Some (\<exists>x\<in>set xs. g x)"
  by (induction xs) auto

lemma all_p_Cons:
  "all_p (v # vs) = (case v of None \<Rightarrow> None | Some b \<Rightarrow> if b then all_p vs else Some False)"
  by (cases v) auto

lemma any_p_Cons:
  "any_p (v # vs) = (case v of None \<Rightarrow> None | Some b \<Rightarrow> if b then Some True else any_p vs)"
  by (cases v) auto

lemma all_p_SomeD:
  assumes "all_p (map f xs) = Some b" and "\<And>x v. x \<in> set xs \<Longrightarrow> f x = Some v \<Longrightarrow> v = g x"
  shows "b = (\<forall>x\<in>set xs. g x)"
  using assms
proof (induction xs)
  case Nil
  then show ?case by simp
next
  case (Cons x xs)
  from Cons.prems(1) obtain v where v: "f x = Some v"
    by (auto simp: all_p_Cons split: option.splits)
  with Cons.prems(2) have g: "v = g x" by simp
  show ?case
  proof (cases v)
    case True
    with Cons.prems v have "b = (\<forall>y\<in>set xs. g y)"
      by (intro Cons.IH) (simp_all add: all_p_Cons)
    with True g show ?thesis by simp
  next
    case False
    with Cons.prems(1) v g show ?thesis by (simp add: all_p_Cons)
  qed
qed

lemma any_p_SomeD:
  assumes "any_p (map f xs) = Some b" and "\<And>x v. x \<in> set xs \<Longrightarrow> f x = Some v \<Longrightarrow> v = g x"
  shows "b = (\<exists>x\<in>set xs. g x)"
  using assms
proof (induction xs)
  case Nil
  then show ?case by simp
next
  case (Cons x xs)
  from Cons.prems(1) obtain v where v: "f x = Some v"
    by (auto simp: any_p_Cons split: option.splits)
  with Cons.prems(2) have g: "v = g x" by simp
  show ?case
  proof (cases v)
    case False
    with Cons.prems v have "b = (\<exists>y\<in>set xs. g y)"
      by (intro Cons.IH) (simp_all add: any_p_Cons)
    with False g show ?thesis by simp
  next
    case True
    with Cons.prems(1) v g show ?thesis by (simp add: any_p_Cons)
  qed
qed

lemma those_map_SomeI:
  "(\<And>x. x \<in> set xs \<Longrightarrow> f x = Some (g x)) \<Longrightarrow> those (map f xs) = Some (map g xs)"
  by (induction xs) auto

lemma those_SomeD: "those xs = Some ys \<Longrightarrow> xs = map Some ys"
  by (induction xs arbitrary: ys) (auto split: option.splits)

lemma those_map_SomeD:
  assumes "those (map f xs) = Some ys"
  shows "length ys = length xs" and "\<And>i. i < length xs \<Longrightarrow> f (xs ! i) = Some (ys ! i)"
proof -
  from assms have eq: "map f xs = map Some ys" by (rule those_SomeD)
  then show len: "length ys = length xs" by (metis length_map)
  fix i assume "i < length xs"
  with eq len show "f (xs ! i) = Some (ys ! i)" by (metis nth_map)
qed

lemma those_map_ex: "(\<And>x. x \<in> set xs \<Longrightarrow> \<exists>y. f x = Some y) \<Longrightarrow> \<exists>ys. those (map f xs) = Some ys"
  by (induction xs) fastforce+

lemma those_map_eq_SomeD:
  "\<lbrakk> those (map f xs) = Some ys; \<And>x v. x \<in> set xs \<Longrightarrow> f x = Some v \<Longrightarrow> v = g x \<rbrakk>
   \<Longrightarrow> ys = map g xs"
  by (induction xs arbitrary: ys) (auto split: option.splits)

lemma collect_result_InrD:
  "collect_result xs = Inr ys \<Longrightarrow> xs = map Inr ys"
  by (induction xs arbitrary: ys rule: collect_result.induct) (auto split: sum.splits)

lemma collect_presult_Cons:
  "collect_presult (r # rs) =
     bind_pr r (\<lambda>x. bind_pr (collect_presult rs) (\<lambda>xs. Some (Inr (x # xs))))"
  by (cases r rule: option.exhaust; cases "the r") (auto simp: bind_pr_def split: option.splits sum.splits)

lemma collect_presult_InrD:
  "collect_presult xs = Some (Inr ys) \<Longrightarrow> xs = map (\<lambda>y. Some (Inr y)) ys"
  by (induction xs arbitrary: ys rule: collect_presult.induct)
    (auto split: option.splits sum.splits)

lemma collect_presult_map_InrD:
  "collect_presult (map f xs) = Some (Inr ys) \<Longrightarrow> list_all2 (\<lambda>x y. f x = Some (Inr y)) xs ys"
  by (induction xs arbitrary: ys) (auto simp: collect_presult_Cons bind_pr_Inr)

lemma collect_presult_map_InrI:
  "(\<And>x. x \<in> set xs \<Longrightarrow> \<exists>y. f x = Some (Inr y)) \<Longrightarrow> \<exists>ys. collect_presult (map f xs) = Some (Inr ys)"
  by (induction xs) (fastforce simp: collect_presult_Cons)+

lemma collect_presult_InrI [simp]: "collect_presult (map (\<lambda>y. Some (Inr y)) ys) = Some (Inr ys)"
  by (induction ys) auto

lemma map_eq_map_nth:
  assumes "map f xs = map g ys"
  shows "length xs = length ys" and "\<And>i. i < length xs \<Longrightarrow> f (xs ! i) = g (ys ! i)"
proof -
  show len: "length xs = length ys" using assms by (rule map_eq_imp_length_eq)
  fix i assume "i < length xs"
  with assms len show "f (xs ! i) = g (ys ! i)" by (metis nth_map)
qed

section \<open>The iterator adaptors of \<open>itertools\<close>\<close>

text \<open>
  The code takes \<open>multi_cartesian_product\<close> and \<open>combinations\<close> from the \<open>itertools\<close> crate. They
  are parameters of the model: one record of functions, at the element types the code uses them
  at. \<open>itertools_doc\<close> states their documented behaviour: the product is in lexicographic order
  with the last component changing fastest (the order of the crate's own example, which
  \<open>ouritertools.rs\<close> repeats as a test), and \<open>combinations(2)\<close> yields the pairs in index order.
  Nothing is said about the product of an empty sequence of iterators: that is the case
  \<open>ouritertools.rs\<close> exists for.
\<close>

definition pairs_in_order :: "'a list \<Rightarrow> 'a list list" where
  "pairs_in_order xs =
     concat (map (\<lambda>i. map (\<lambda>j. [xs ! i, xs ! j]) [Suc i..<length xs]) [0..<length xs])"

lemma set_pairs_in_order:
  "set (pairs_in_order xs) = {[xs ! i, xs ! j] |i j. i < j \<and> j < length xs}"
  by (fastforce simp: pairs_in_order_def Suc_le_eq image_iff)

text \<open>The permutations of \<open>0..<n\<close>, in lexicographic order; \<open>permutations\<close> is only assumed to yield
  the same set.\<close>

definition index_permutations :: "nat \<Rightarrow> nat list list" where
  "index_permutations n = filter distinct (product_lists (replicate n [0..<n]))"

lemma set_index_permutations: "set (index_permutations n) = {p. distinct p \<and> set p = {0..<n}}"
proof -
  have "p \<in> set (product_lists (replicate n [0..<n])) \<longleftrightarrow> length p = n \<and> (\<forall>i<length p. p ! i < n)" for p
    by (auto simp: product_lists_set list_all2_conv_all_nth)
  moreover have "(\<forall>i<length p. p ! i < n) \<longleftrightarrow> set p \<subseteq> {0..<n}" for p :: "nat list"
    by (auto simp: subset_iff in_set_conv_nth)
  ultimately have "p \<in> set (product_lists (replicate n [0..<n])) \<longleftrightarrow> length p = n \<and> set p \<subseteq> {0..<n}" for p
    by simp
  moreover have "length p = n \<and> set p \<subseteq> {0..<n} \<longleftrightarrow> set p = {0..<n}" if "distinct p" for p
  proof
    assume "length p = n \<and> set p \<subseteq> {0..<n}"
    then show "set p = {0..<n}" using distinct_card [OF that] by (intro card_subset_eq) simp_all
  next
    assume p: "set p = {0..<n}"
    then have "length p = n" using distinct_card [OF that] by simp
    with p show "length p = n \<and> set p \<subseteq> {0..<n}" by simp
  qed
  ultimately have "distinct p \<and> p \<in> set (product_lists (replicate n [0..<n]))
      \<longleftrightarrow> distinct p \<and> set p = {0..<n}" for p by blast
  then show ?thesis unfolding index_permutations_def by fastforce
qed

lemma product_lists_Cons_set:
  "ys \<in> set (product_lists xss) \<longleftrightarrow> list_all2 (\<lambda>y xs. y \<in> set xs) ys xss"
  by (auto simp: product_lists_set)

section \<open>Strings\<close>

text \<open>\<open>str::trim_end_matches('\<^verbatim>\<open>\\\<close>'')\<close>: drop the trailing primes of a name.\<close>

abbreviation prime_char :: char where
  "prime_char \<equiv> CHR 0x27"

definition trim_end_primes :: "string \<Rightarrow> string" where
  "trim_end_primes s = rev (dropWhile (\<lambda>c. c = prime_char) (rev s))"

lemma dropWhile_idem: "dropWhile P (dropWhile P xs) = dropWhile P xs"
  by (induction xs) auto

lemma trim_end_primes_idem [simp]: "trim_end_primes (trim_end_primes s) = trim_end_primes s"
  by (simp add: trim_end_primes_def dropWhile_idem)

lemma trim_end_primes_append [simp]:
  "trim_end_primes (s @ replicate n prime_char) = trim_end_primes s"
proof -
  have "dropWhile (\<lambda>c. c = prime_char) (replicate n prime_char @ r)
      = dropWhile (\<lambda>c. c = prime_char) r" for r
    by (induction n) auto
  then show ?thesis by (simp add: trim_end_primes_def)
qed

section \<open>Lists and sums\<close>

lemma size_list_member [simp]: "x \<in> set xs \<Longrightarrow> f x < Suc (size_list f xs)"
  by (induction xs) auto

lemma sum_list_member_le: "x \<in> set xs \<Longrightarrow> (f x :: nat) \<le> sum_list (map f xs)"
  by (induction xs) auto

lemma sum_list_member_less [simp]: "x \<in> set xs \<Longrightarrow> (f x :: nat) < Suc (sum_list (map f xs))"
  using sum_list_member_le[of x xs f] by simp

lemma list_all2_nth_iff:
  "list_all2 P xs ys \<longleftrightarrow> length xs = length ys \<and> (\<forall>i<length xs. P (xs ! i) (ys ! i))"
  by (simp add: list_all2_conv_all_nth)

section \<open>Derived orders and simplified n-ary connectives\<close>

text \<open>\<open>#[derive(Ord)]\<close>: a strict order that is irreflexive, total and transitive is a linear order.\<close>

lemma derived_order:
  fixes lt :: "'a \<Rightarrow> 'a \<Rightarrow> bool"
  assumes "\<And>x y. lt x y \<Longrightarrow> x \<noteq> y" and "\<And>x y. x \<noteq> y \<Longrightarrow> lt x y \<or> lt y x"
    and "\<And>x y z. lt x y \<Longrightarrow> lt y z \<Longrightarrow> lt x z"
  shows "lt x y \<longleftrightarrow> (x = y \<or> lt x y) \<and> \<not> (y = x \<or> lt y x)"
    and "x = x \<or> lt x x"
    and "x = y \<or> lt x y \<Longrightarrow> y = z \<or> lt y z \<Longrightarrow> x = z \<or> lt x z"
    and "x = y \<or> lt x y \<Longrightarrow> y = x \<or> lt y x \<Longrightarrow> x = y"
    and "(x = y \<or> lt x y) \<or> (y = x \<or> lt y x)"
  using assms by blast+

lemma singleton_last: "length xs = 1 \<Longrightarrow> set xs = {last xs}"
  by (cases xs) (auto simp: One_nat_def)

text \<open>The conjunctions and disjunctions of the checkers are flattened, sorted, freed of duplicates and
  collapsed to the absorbing constant \<open>bad\<close> or to their only member. \<open>P\<close> is truth for
  conjunctions, falsity for disjunctions.\<close>

lemma simplified_nary:
  assumes get: "\<And>f. (\<forall>e\<in>set (get f). P e) \<longleftrightarrow> P f" and bad: "\<not> P bad"
    and mk: "\<And>xs. P (mk xs) \<longleftrightarrow> (\<forall>x\<in>set xs. P x)"
  shows "P (let terms = remdups_adj (List.sort (concat (map get fs))) in
            if list_ex (\<lambda>t. t = bad) terms then bad
            else if length terms = 1 then last terms else mk terms)
    \<longleftrightarrow> (\<forall>f\<in>set fs. P f)"
proof -
  define ts where "ts = remdups_adj (List.sort (concat (map get fs)))"
  have ts: "(\<forall>e\<in>set ts. P e) \<longleftrightarrow> (\<forall>f\<in>set fs. P f)"
    using get by (auto simp: ts_def)
  show ?thesis
    using bad mk ts singleton_last [of ts]
    by (auto simp: Let_def ts_def [symmetric] list_ex_iff)
qed

end
