(* ===== verification/Fly_Itertools.thy ===== *)
theory Fly_Itertools
  imports Prelude
begin

text \<open>
  Model of \<^verbatim>\<open>fly/src/ouritertools.rs\<close>: the wrapper around \<open>itertools\<close>' cartesian product that
  handles the product of an empty sequence. The wrapped iterator is third-party code; it is the
  parameter \<open>mcp\<close>, which gives the items the underlying iterator still has to yield.
\<close>

datatype 'a mpf_state = EmptySource bool | UnderlyingIter "'a list list"

definition multi_cartesian_product_fixed ::
  "('a list list \<Rightarrow> 'a list list) \<Rightarrow> 'a list list \<Rightarrow> 'a mpf_state" where
  "multi_cartesian_product_fixed mcp xss =
     (if xss = [] then EmptySource False else UnderlyingIter (mcp xss))"

fun mpf_next :: "'a mpf_state \<Rightarrow> 'a list option \<times> 'a mpf_state" where
  "mpf_next (EmptySource done) =
     (if done then (None, EmptySource done) else (Some [], EmptySource True))"
| "mpf_next (UnderlyingIter []) = (None, UnderlyingIter [])"
| "mpf_next (UnderlyingIter (x # xs)) = (Some x, UnderlyingIter xs)"

text \<open>Draining the iterator (\<open>collect\<close>, \<open>for\<close>) calls \<open>next\<close> until it answers \<open>None\<close>.\<close>

fun mpf_remaining :: "'a mpf_state \<Rightarrow> nat" where
  "mpf_remaining (EmptySource done) = (if done then 0 else 1)"
| "mpf_remaining (UnderlyingIter xs) = length xs"

lemma mpf_next_remaining:
  "mpf_next s = (Some x, s') \<Longrightarrow> mpf_remaining s = Suc (mpf_remaining s')"
  by (cases s rule: mpf_next.cases) (auto split: if_splits)

function mpf_collect :: "'a mpf_state \<Rightarrow> 'a list list" where
  "mpf_collect s = (case mpf_next s of (None, _) \<Rightarrow> [] | (Some x, s') \<Rightarrow> x # mpf_collect s')"
  by pat_completeness auto
termination
  by (relation "measure mpf_remaining") (auto dest!: mpf_next_remaining [OF sym])

declare mpf_collect.simps [simp del]

definition mcp_fixed :: "('a list list \<Rightarrow> 'a list list) \<Rightarrow> 'a list list \<Rightarrow> 'a list list" where
  "mcp_fixed mcp xss = mpf_collect (multi_cartesian_product_fixed mcp xss)"

lemma mpf_collect_EmptySource [simp]:
  "mpf_collect (EmptySource done) = (if done then [] else [[]])"
  by (simp add: mpf_collect.simps)

lemma mpf_collect_UnderlyingIter [simp]: "mpf_collect (UnderlyingIter xs) = xs"
  by (induction xs) (simp_all add: mpf_collect.simps [of "UnderlyingIter _"])

lemma mcp_fixed_eq: "mcp_fixed mcp xss = (if xss = [] then [[]] else mcp xss)"
  by (simp add: mcp_fixed_def multi_cartesian_product_fixed_def)

text \<open>The documented behaviour of the wrapped adaptor, on the sequences it is called with.\<close>

definition mcp_doc :: "('a list list \<Rightarrow> 'a list list) \<Rightarrow> bool" where
  "mcp_doc mcp \<longleftrightarrow> (\<forall>xss. xss \<noteq> [] \<longrightarrow> mcp xss = product_lists xss)"

lemma mcp_doc_product_lists [simp]: "mcp_doc product_lists"
  by (simp add: mcp_doc_def)

lemma mcp_fixed_doc [doc_simps]: "mcp_doc mcp \<Longrightarrow> mcp_fixed mcp xss = product_lists xss"
  by (simp add: mcp_fixed_eq mcp_doc_def)

text \<open>With the documented behaviour of the wrapped adaptor, draining the fixed product yields
  exactly the tuples that take one element from each source, once each when the sources repeat
  nothing, and a single empty tuple (not nothing at all) when there are no sources.\<close>

theorem mcp_fixed_tuples:
  assumes "mcp_doc mcp" and "list_all distinct xss"
  shows "set (mcp_fixed mcp xss) = {ys. list_all2 (\<lambda>y xs. y \<in> set xs) ys xss}
    \<and> distinct (mcp_fixed mcp xss)
    \<and> length (mcp_fixed mcp xss) = prod_list (map length xss)
    \<and> mcp_fixed mcp [] = [[]]"
proof -
  have eq: "mcp_fixed mcp xss = product_lists xss" using assms by (simp add: doc_simps)
  have "set (mcp_fixed mcp xss) = {ys. list_all2 (\<lambda>y xs. y \<in> set xs) ys xss}"
    by (simp add: eq product_lists_set)
  moreover have "length (mcp_fixed mcp xss) = prod_list (map length xss)"
    unfolding eq by (induction xss) (simp_all add: length_concat comp_def sum_list_triv)
  moreover have "mcp_fixed mcp [] = [[]]" by (simp add: mcp_fixed_eq)
  moreover have "distinct (product_lists xss)"
    using assms(2) by (simp add: distinct_product_lists list_all_iff)
  ultimately show ?thesis by (simp add: eq)
qed

theorem mcp_fixed_tuples_witness:
  "set (mcp_fixed product_lists [[0, 2], [4, 5::nat]]) = {[0, 4], [0, 5], [2, 4], [2, 5]}
   \<and> distinct (mcp_fixed product_lists [[0, 2], [4, 5::nat]])"
proof -
  have "distinct (mcp_fixed product_lists [[0, 2], [4, 5::nat]])"
    using mcp_fixed_tuples [of product_lists "[[0, 2], [4, 5::nat]]"] by simp
  moreover have "set (mcp_fixed product_lists [[0, 2], [4, 5::nat]]) = {[0, 4], [0, 5], [2, 4], [2, 5]}"
    by (auto simp: mcp_fixed_eq)
  ultimately show ?thesis by simp
qed

end
