(* ===== verification/Fly_Syntax.thy ===== *)
theory Fly_Syntax
  imports Fly_Itertools
begin

text \<open>
  Model of \<^verbatim>\<open>fly/src/syntax.rs\<close>: sorts, terms with their smart constructors, signatures and
  modules. Constructors keep the source's names; \<open>UOp::Not\<close> is \<open>NotOp\<close>. The smart constructor
  \<open>Term::f\<close> of the source is \<open>term_f\<close> here.
\<close>

section \<open>Sorts, operators and terms\<close>

datatype sort = Bool | Uninterpreted string

definition sort_uninterpreted :: "string \<Rightarrow> sort" where
  "sort_uninterpreted name = Uninterpreted name"

definition sort_unknown :: sort where
  "sort_unknown = sort_uninterpreted []"

definition sort_display :: "sort \<Rightarrow> string" where
  "sort_display s = (case s of Bool \<Rightarrow> ''bool'' | Uninterpreted i \<Rightarrow> i)"

record fbinder =
  b_name :: string
  b_sort :: sort

definition binder_new :: "string \<Rightarrow> sort \<Rightarrow> fbinder" where
  "binder_new name srt = \<lparr>b_name = name, b_sort = srt\<rparr>"

datatype uop = NotOp | Prime | Always | Eventually | Next | Previous

datatype binop = Equals | NotEquals | Implies | Iff | Until | Since

datatype nop = And | Or

datatype quantifier = Forall | Exists

datatype fterm =
  Literal bool
| Id string
| App string nat "fterm list"
| UnaryOp uop fterm
| BinOp binop fterm fterm
| NAryOp nop "fterm list"
| Ite fterm fterm fterm
| Quantified quantifier "fbinder list" fterm

section \<open>Smart constructors\<close>

definition term_literal :: "bool \<Rightarrow> fterm" where
  "term_literal value = Literal value"

definition term_true :: fterm where
  "term_true = Literal True"

definition term_false :: fterm where
  "term_false = Literal False"

definition term_id :: "string \<Rightarrow> fterm" where
  "term_id name = Id name"

definition term_app :: "string \<Rightarrow> nat \<Rightarrow> fterm list \<Rightarrow> fterm" where
  "term_app f n_primes args = App f n_primes args"

fun term_not :: "fterm \<Rightarrow> fterm" where
  "term_not (UnaryOp NotOp body) = body"
| "term_not (BinOp Equals lhs rhs) = BinOp NotEquals lhs rhs"
| "term_not (BinOp NotEquals lhs rhs) = BinOp Equals lhs rhs"
| "term_not t = UnaryOp NotOp t"

definition term_prime :: "fterm \<Rightarrow> fterm" where
  "term_prime t = UnaryOp Prime t"

definition term_always :: "fterm \<Rightarrow> fterm" where
  "term_always t = UnaryOp Always t"

definition term_eventually :: "fterm \<Rightarrow> fterm" where
  "term_eventually t = UnaryOp Eventually t"

definition term_next :: "fterm \<Rightarrow> fterm" where
  "term_next t = UnaryOp Next t"

definition term_previous :: "fterm \<Rightarrow> fterm" where
  "term_previous t = UnaryOp Previous t"

definition term_equals :: "fterm \<Rightarrow> fterm \<Rightarrow> fterm" where
  "term_equals lhs rhs = BinOp Equals lhs rhs"

definition term_not_equals :: "fterm \<Rightarrow> fterm \<Rightarrow> fterm" where
  "term_not_equals lhs rhs = BinOp NotEquals lhs rhs"

definition term_implies :: "fterm \<Rightarrow> fterm \<Rightarrow> fterm" where
  "term_implies lhs rhs = BinOp Implies lhs rhs"

definition term_iff :: "fterm \<Rightarrow> fterm \<Rightarrow> fterm" where
  "term_iff lhs rhs = BinOp Iff lhs rhs"

definition term_until :: "fterm \<Rightarrow> fterm \<Rightarrow> fterm" where
  "term_until lhs rhs = BinOp Until lhs rhs"

definition term_since :: "fterm \<Rightarrow> fterm \<Rightarrow> fterm" where
  "term_since lhs rhs = BinOp Since lhs rhs"

definition flatten_terms_of_op :: "fterm list \<Rightarrow> nop \<Rightarrow> fterm list" where
  "flatten_terms_of_op ts op =
     concat (map (\<lambda>t. case t of NAryOp op2 ts2 \<Rightarrow> if op = op2 then ts2 else [t] | _ \<Rightarrow> [t]) ts)"

definition term_and :: "fterm list \<Rightarrow> fterm" where
  "term_and ts =
     (if ts = [] then term_true
      else if length ts = 1 then last ts
      else NAryOp And (flatten_terms_of_op ts And))"

definition term_or :: "fterm list \<Rightarrow> fterm" where
  "term_or ts =
     (if ts = [] then term_false
      else if length ts = 1 then last ts
      else NAryOp Or (flatten_terms_of_op ts Or))"

definition term_ite :: "fterm \<Rightarrow> fterm \<Rightarrow> fterm \<Rightarrow> fterm" where
  "term_ite cond thn els = Ite cond thn els"

text \<open>The \<open>debug_assert!\<close> of \<open>quantify\<close> (it panics in debug builds only): the binders have
  distinct names.\<close>

definition quantify_debug_assert :: "fbinder list \<Rightarrow> bool" where
  "quantify_debug_assert binders = distinct (map b_name binders)"

definition quantify :: "quantifier \<Rightarrow> fbinder list \<Rightarrow> fterm \<Rightarrow> fterm" where
  "quantify q binders body =
     (if binders = [] then body
      else (case body of
          Quantified q2 binders2 body2 \<Rightarrow>
            if q = q2
            then Quantified q
                   (filter (\<lambda>b. list_all (\<lambda>b2. b_name b \<noteq> b_name b2) binders2) binders @ binders2)
                   body2
            else Quantified q binders body
        | _ \<Rightarrow> Quantified q binders body))"

definition term_forall :: "fbinder list \<Rightarrow> fterm \<Rightarrow> fterm" where
  "term_forall binders body = quantify Forall binders body"

definition term_exists :: "fbinder list \<Rightarrow> fterm \<Rightarrow> fterm" where
  "term_exists binders body = quantify Exists binders body"

definition term_negate :: "fterm \<Rightarrow> fterm" where
  "term_negate t = UnaryOp NotOp t"

text \<open>\<open>negate_and_simplify\<close> panics (\<open>None\<close>) on the operators it does not support.\<close>

fun negate_and_simplify :: "fterm \<Rightarrow> fterm option" where
  "negate_and_simplify (Literal b) = Some (Literal (\<not> b))"
| "negate_and_simplify (UnaryOp op t) = (if op = NotOp then Some t else None)"
| "negate_and_simplify (BinOp NotEquals lhs rhs) = Some (BinOp Equals lhs rhs)"
| "negate_and_simplify (BinOp Equals lhs rhs) = Some (BinOp NotEquals lhs rhs)"
| "negate_and_simplify (NAryOp Or ts) =
     map_option (NAryOp And) (those (map negate_and_simplify ts))"
| "negate_and_simplify (NAryOp And ts) =
     map_option (NAryOp Or) (those (map negate_and_simplify ts))"
| "negate_and_simplify (Id s) = Some (term_negate (Id s))"
| "negate_and_simplify (App f p xs) = Some (term_negate (App f p xs))"
| "negate_and_simplify (Quantified Forall binders body) =
     map_option (Quantified Exists binders) (negate_and_simplify body)"
| "negate_and_simplify _ = None"

section \<open>Signatures\<close>

record relation_decl =
  rd_mutable :: bool
  rd_name :: string
  rd_args :: "sort list"
  rd_sort :: sort

record signature =
  sig_sorts :: "string list"
  sig_relations :: "relation_decl list"

text \<open>\<open>iter().position(p)\<close>: the index of the first element that satisfies \<open>p\<close>.\<close>

fun position :: "('a \<Rightarrow> bool) \<Rightarrow> 'a list \<Rightarrow> nat option" where
  "position p [] = None"
| "position p (x # xs) = (if p x then Some 0 else map_option Suc (position p xs))"

definition sort_idx :: "signature \<Rightarrow> sort \<Rightarrow> nat option" where
  "sort_idx sig srt =
     (case srt of Bool \<Rightarrow> None | Uninterpreted s \<Rightarrow> position (\<lambda>x. x = s) (sig_sorts sig))"

definition contains_sort :: "signature \<Rightarrow> string \<Rightarrow> bool" where
  "contains_sort sig name = list_ex (\<lambda>s. s = name) (sig_sorts sig)"

definition relation_decl_of :: "signature \<Rightarrow> string \<Rightarrow> relation_decl option" where
  "relation_decl_of sig name =
     (let name = trim_end_primes name in find (\<lambda>x. rd_name x = name) (sig_relations sig))"

definition is_immutable :: "signature \<Rightarrow> string \<Rightarrow> bool" where
  "is_immutable sig name =
     (let name = trim_end_primes name in
      case find (\<lambda>x. rd_name x = name) (sig_relations sig) of
        Some decl \<Rightarrow> \<not> rd_mutable decl
      | None \<Rightarrow> False)"

definition relation_idx :: "signature \<Rightarrow> string \<Rightarrow> nat option" where
  "relation_idx sig name = position (\<lambda>x. rd_name x = name) (sig_relations sig)"

definition contains_relation :: "signature \<Rightarrow> string \<Rightarrow> bool" where
  "contains_relation sig name =
     (let symbol_no_primes = trim_end_primes name in
      list_ex (\<lambda>r. rd_name r = symbol_no_primes) (sig_relations sig))"

lemma position_SomeD:
  "position p xs = Some i \<Longrightarrow> i < length xs \<and> p (xs ! i) \<and> (\<forall>j<i. \<not> p (xs ! j))"
proof (induction xs arbitrary: i)
  case Nil
  then show ?case by simp
next
  case (Cons x xs)
  then show ?case by (auto simp: nth_Cons split: if_splits nat.splits)
qed

lemma position_None_iff: "position p xs = None \<longleftrightarrow> (\<forall>x\<in>set xs. \<not> p x)"
  by (induction xs) auto

lemma position_Some_ex: "x \<in> set xs \<Longrightarrow> p x \<Longrightarrow> \<exists>i. position p xs = Some i"
  by (cases "position p xs") (auto simp: position_None_iff)

lemma position_distinct:
  "\<lbrakk> distinct (map f xs); i < length xs \<rbrakk> \<Longrightarrow> position (\<lambda>x. f x = f (xs ! i)) xs = Some i"
proof (induction xs arbitrary: i)
  case Nil
  then show ?case by simp
next
  case (Cons x xs)
  then show ?case by (cases i) (auto simp: nth_Cons)
qed

lemma find_eq_position:
  "find p xs = map_option (nth xs) (position p xs)"
  by (induction xs) (auto simp: option.map_comp comp_def)

section \<open>Modules\<close>

record definition_decl =
  d_name :: string
  d_binders :: "fbinder list"
  d_ret_sort :: sort
  d_body :: fterm

record span =
  sp_start :: nat
  sp_end :: nat

record 'a spanned =
  sp_x :: 'a
  sp_span :: "span option"

record proof_decl =
  p_assert :: "fterm spanned"
  p_invariants :: "fterm spanned list"

datatype thm_stmt = Assume fterm | Assert proof_decl

record fmodule =
  mod_signature :: signature
  mod_defs :: "definition_decl list"
  mod_statements :: "thm_stmt list"

section \<open>Terms of a signature\<close>

text \<open>The third-party iterator adaptors, at the element types the code uses them at, and their
  documented behaviour.\<close>

record itertools =
  mcp_nat :: "nat list list \<Rightarrow> nat list list"
  mcp_bool :: "bool list list \<Rightarrow> bool list list"
  mcp_term :: "fterm list list \<Rightarrow> fterm list list"
  comb2_nat :: "nat list \<Rightarrow> nat list list"
  comb2_term :: "fterm list \<Rightarrow> fterm list list"
  mcp_perm :: "nat list list list \<Rightarrow> nat list list list"
  permutations_nat :: "nat \<Rightarrow> nat list list"

definition itertools_doc :: "itertools \<Rightarrow> bool" where
  "itertools_doc it \<longleftrightarrow> mcp_doc (mcp_nat it) \<and> mcp_doc (mcp_bool it) \<and> mcp_doc (mcp_term it)
     \<and> comb2_nat it = pairs_in_order \<and> comb2_term it = pairs_in_order
     \<and> mcp_doc (mcp_perm it)
     \<and> (\<forall>n. set (permutations_nat it n) = set (index_permutations n))"

definition itertools_ref :: itertools where
  "itertools_ref = \<lparr>mcp_nat = product_lists, mcp_bool = product_lists, mcp_term = product_lists,
     comb2_nat = pairs_in_order, comb2_term = pairs_in_order,
     mcp_perm = product_lists, permutations_nat = index_permutations\<rparr>"

lemma itertools_doc_ref [simp]: "itertools_doc itertools_ref"
  by (simp add: itertools_doc_def itertools_ref_def)

lemma itertools_docD [doc_simps]:
  assumes "itertools_doc it"
  shows "mcp_fixed (mcp_nat it) xs = product_lists xs"
    and "mcp_fixed (mcp_bool it) bs = product_lists bs"
    and "mcp_fixed (mcp_term it) ts = product_lists ts"
    and "comb2_nat it = pairs_in_order"
    and "comb2_term it = pairs_in_order"
    and "mcp_fixed (mcp_perm it) ps = product_lists ps"
    and "set (permutations_nat it n) = {p. distinct p \<and> set p = {0..<n}}"
  using assms by (simp_all add: itertools_doc_def mcp_fixed_doc set_index_permutations)

text \<open>\<open>Signature::terms_by_sort\<close>, step by step: \<open>sort_slot\<close> is its closure \<open>sort_idx\<close>;
  \<open>tbs_vars\<close> and \<open>tbs_const\<close> seed \<open>new_terms\<close>; \<open>tbs_ind\<close> and \<open>tbs_rel\<close> are the body of the loop
  over the relations, \<open>tbs_loop\<close> the outer loop. With \<open>depth = None\<close> that loop may not stop, so
  \<open>None\<close> stands for "panics or does not return".\<close>

definition sort_slot :: "signature \<Rightarrow> sort \<Rightarrow> nat option" where
  "sort_slot sig srt = (case srt of Bool \<Rightarrow> Some (length (sig_sorts sig)) | _ \<Rightarrow> sort_idx sig srt)"

definition push_all :: "nat \<Rightarrow> 'a list \<Rightarrow> 'a list list \<Rightarrow> 'a list list option" where
  "push_all i xs xss =
     (if xs = [] then Some xss else if i < length xss then Some (xss[i := xss ! i @ xs]) else None)"

definition tbs_vars :: "string list list \<Rightarrow> fterm list list \<Rightarrow> fterm list list option" where
  "tbs_vars sorted_vars new_terms =
     fold_p (\<lambda>(i, names). push_all i (map Id names)) (enumerate 0 sorted_vars) new_terms"

definition tbs_const :: "signature \<Rightarrow> relation_decl \<Rightarrow> fterm list list \<Rightarrow> fterm list list option" where
  "tbs_const sig rel new_terms =
     (if rd_args rel = []
      then (case sort_slot sig (rd_sort rel) of
              None \<Rightarrow> None | Some k \<Rightarrow> push_all k [Id (rd_name rel)] new_terms)
      else Some new_terms)"

definition tbs_ind ::
  "itertools \<Rightarrow> signature \<Rightarrow> fterm list list \<Rightarrow> fterm list list \<Rightarrow> relation_decl \<Rightarrow> bool list
   \<Rightarrow> fterm list option" where
  "tbs_ind it sig terms new_terms rel new_ind =
     (if \<not> list_ex id new_ind then Some []
      else (case those (map (sort_slot sig) (rd_args rel)) of
          None \<Rightarrow> None
        | Some slots \<Rightarrow>
            let arg_terms = map (\<lambda>i. (if new_ind ! i then new_terms else terms) ! (slots ! i))
                              [0..<length (rd_args rel)]
            in if list_ex (\<lambda>v. v = []) arg_terms then Some []
               else Some (map (App (rd_name rel) 0) (mcp_fixed (mcp_term it) arg_terms))))"

definition tbs_rel ::
  "itertools \<Rightarrow> signature \<Rightarrow> fterm list list \<Rightarrow> fterm list list \<Rightarrow> relation_decl \<Rightarrow> fterm list list
   \<Rightarrow> fterm list list option" where
  "tbs_rel it sig terms new_terms rel new_new_terms =
     (if rd_args rel = [] then Some new_new_terms
      else (case those (map (tbs_ind it sig terms new_terms rel)
                   (mcp_fixed (mcp_bool it) (replicate (length (rd_args rel)) [False, True]))) of
          None \<Rightarrow> None
        | Some tss \<Rightarrow>
            (if concat tss = [] then Some new_new_terms
             else (case sort_slot sig (rd_sort rel) of
                     None \<Rightarrow> None | Some k \<Rightarrow> push_all k (concat tss) new_new_terms))))"

definition append_slots :: "'a list list \<Rightarrow> 'a list list \<Rightarrow> 'a list list" where
  "append_slots terms new_terms = map2 (@) terms new_terms"

definition tbs_round ::
  "itertools \<Rightarrow> signature \<Rightarrow> fterm list list \<Rightarrow> fterm list list \<Rightarrow> fterm list list option" where
  "tbs_round it sig terms new_terms =
     fold_p (tbs_rel it sig terms new_terms) (sig_relations sig)
       (replicate (Suc (length (sig_sorts sig))) [])"

definition tbs_continue :: "fterm list list \<Rightarrow> nat option \<Rightarrow> bool" where
  "tbs_continue new_terms depth \<longleftrightarrow>
     \<not> list_all (\<lambda>v. v = []) new_terms \<and> (case depth of None \<Rightarrow> 1 | Some n \<Rightarrow> n) > (0::nat)"

partial_function (option) tbs_loop ::
  "itertools \<Rightarrow> signature \<Rightarrow> fterm list list \<Rightarrow> fterm list list \<Rightarrow> nat option
   \<Rightarrow> (fterm list list \<times> fterm list list) option" where
  "tbs_loop it sig terms new_terms depth =
     (if tbs_continue new_terms depth
      then Option.bind (tbs_round it sig terms new_terms)
             (\<lambda>new_new_terms. tbs_loop it sig (append_slots terms new_terms) new_new_terms
                (map_option (\<lambda>n. n - 1) depth))
      else Some (terms, new_terms))"

declare tbs_loop.simps [code]

definition eq_terms :: "itertools \<Rightarrow> fterm list \<Rightarrow> fterm list" where
  "eq_terms it ts = map (\<lambda>v. BinOp Equals (v ! 0) (v ! 1)) (comb2_term it ts)"

definition terms_by_sort ::
  "itertools \<Rightarrow> signature \<Rightarrow> string list list \<Rightarrow> nat option \<Rightarrow> bool \<Rightarrow> fterm list list option" where
  "terms_by_sort it sig sorted_vars depth include_eq =
     (let n = length (sig_sorts sig); empty = replicate (Suc n) [] in
      Option.bind (tbs_vars sorted_vars empty) (\<lambda>new_terms.
      Option.bind (fold_p (tbs_const sig) (sig_relations sig) new_terms) (\<lambda>new_terms.
      Option.bind (tbs_loop it sig empty new_terms depth) (\<lambda>(terms, new_terms).
        let terms = append_slots terms new_terms in
        Some (if include_eq
              then terms[n := terms ! n @ concat (map (eq_terms it) (take n terms))]
              else terms)))))"

end
