(* ===== verification/Fly_Semantics.thy ===== *)
theory Fly_Semantics
  imports Fly_Syntax
begin

text \<open>
  Model of \<^verbatim>\<open>fly/src/semantics.rs\<close>: interpretations as tables over a finite universe, models,
  and the evaluator \<open>eval_assign\<close>, with its short-circuiting and its panics. Elements are
  \<open>nat\<close>s; \<open>0\<close> and \<open>1\<close> are the booleans. An assignment is a map from names to elements.
\<close>

section \<open>Interpretations\<close>

type_synonym element = nat

type_synonym universe = "nat list"

type_synonym assignment = "string \<rightharpoonup> element"

record finterp =
  in_shape :: "nat list"
  in_data :: "element list"

text \<open>The loop of \<open>get\<close> over \<open>args.zip(shape)\<close>.\<close>

fun interp_index :: "nat \<Rightarrow> element list \<Rightarrow> nat list \<Rightarrow> nat option" where
  "interp_index index (a # args) (s # shape) =
     (if a < s then interp_index (index * s + a) args shape else None)"
| "interp_index index [] shape = Some index"
| "interp_index index args [] = Some index"

definition interp_get :: "finterp \<Rightarrow> element list \<Rightarrow> element option" where
  "interp_get itp args =
     (if in_shape itp \<noteq> [] \<and> length (in_shape itp) - 1 = length args
      then (case interp_index 0 args (in_shape itp) of
              None \<Rightarrow> None
            | Some index \<Rightarrow>
                (if index < length (in_data itp) \<and> in_data itp ! index < last (in_shape itp)
                 then Some (in_data itp ! index) else None))
      else None)"

definition upto_lists :: "nat list \<Rightarrow> nat list list" where
  "upto_lists cards = map (\<lambda>card. [0..<card]) cards"

definition interp_new ::
  "itertools \<Rightarrow> nat list \<Rightarrow> (element list \<Rightarrow> element option) \<Rightarrow> finterp option" where
  "interp_new it shape f =
     (if shape = [] then None
      else
        let args = butlast shape; ret_card = last shape;
            f' = (\<lambda>args. case f args of
                    None \<Rightarrow> None | Some y \<Rightarrow> if y < ret_card then Some y else None)
        in map_option (\<lambda>data. \<lparr>in_shape = shape, in_data = data\<rparr>)
             (those (map f' (mcp_fixed (mcp_nat it) (upto_lists args)))))"

section \<open>Models\<close>

record model =
  m_signature :: signature
  m_universe :: universe
  m_interp :: "finterp list"

definition cardinality :: "model \<Rightarrow> sort \<Rightarrow> nat option" where
  "cardinality m srt =
     (case srt of
        Bool \<Rightarrow> Some 2
      | _ \<Rightarrow> (case sort_idx (m_signature m) srt of
               None \<Rightarrow> None
             | Some i \<Rightarrow> if i < length (m_universe m) then Some (m_universe m ! i) else None))"

text \<open>\<open>Model::wf\<close> returns or panics; as a predicate it says that it returns.\<close>

definition interp_wf :: "model \<Rightarrow> relation_decl \<Rightarrow> finterp \<Rightarrow> bool" where
  "interp_wf m rel itp \<longleftrightarrow>
     in_shape itp \<noteq> []
     \<and> length (rd_args rel) = length (in_shape itp) - 1
     \<and> Some (last (in_shape itp)) = cardinality m (rd_sort rel)
     \<and> (\<forall>j<length (rd_args rel). cardinality m (rd_args rel ! j) = Some (in_shape itp ! j))"

definition model_wf :: "model \<Rightarrow> bool" where
  "model_wf m \<longleftrightarrow>
     length (m_universe m) = length (sig_sorts (m_signature m))
     \<and> length (m_interp m) = length (sig_relations (m_signature m))
     \<and> (\<forall>i<length (m_interp m).
          interp_wf m (sig_relations (m_signature m) ! i) (m_interp m ! i))"

definition model_new :: "signature \<Rightarrow> universe \<Rightarrow> finterp list \<Rightarrow> model option" where
  "model_new sig universe interp =
     (let m = \<lparr>m_signature = sig, m_universe = universe, m_interp = interp\<rparr> in
      if model_wf m then Some m else None)"

section \<open>Evaluation\<close>

text \<open>\<open>self.interp[self.signature.relation_idx(f)]\<close>.\<close>

definition lookup_interp :: "model \<Rightarrow> string \<Rightarrow> finterp option" where
  "lookup_interp m f =
     (case relation_idx (m_signature m) f of
        None \<Rightarrow> None
      | Some i \<Rightarrow> if i < length (m_interp m) then Some (m_interp m ! i) else None)"

definition is_nullary :: "model \<Rightarrow> string \<Rightarrow> bool" where
  "is_nullary m f =
     (case relation_idx (m_signature m) f of
        None \<Rightarrow> False | Some i \<Rightarrow> rd_args (sig_relations (m_signature m) ! i) = [])"

text \<open>Extending an assignment with the variables of a quantifier, one \<open>insert\<close> after the other.\<close>

definition assign_all :: "assignment \<Rightarrow> string list \<Rightarrow> element list \<Rightarrow> assignment" where
  "assign_all a names elements = a(names [\<mapsto>] elements)"

text \<open>\<open>NotEquals\<close> evaluates the negation of \<open>Equals\<close>, a bigger term, so the recursion needs a
  weight of its own.\<close>

fun eval_weight :: "fterm \<Rightarrow> nat" where
  "eval_weight (Literal b) = 1"
| "eval_weight (Id s) = 1"
| "eval_weight (App f p args) = Suc (sum_list (map eval_weight args))"
| "eval_weight (UnaryOp op t) = Suc (eval_weight t)"
| "eval_weight (BinOp op lhs rhs) =
     (if op = NotEquals then 3 else 1) + eval_weight lhs + eval_weight rhs"
| "eval_weight (NAryOp op ts) = Suc (sum_list (map eval_weight ts))"
| "eval_weight (Ite c t e) = Suc (eval_weight c + eval_weight t + eval_weight e)"
| "eval_weight (Quantified q bs body) = Suc (eval_weight body)"

definition eval_bool :: "bool \<Rightarrow> element" where
  "eval_bool b = (if b then 1 else 0)"

function eval_assign :: "itertools \<Rightarrow> model \<Rightarrow> fterm \<Rightarrow> assignment \<Rightarrow> element option" where
  "eval_assign it m (Literal b) a = Some (if b then 1 else 0)"
| "eval_assign it m (Id name) a =
     (case a name of
        Some v \<Rightarrow> Some v
      | None \<Rightarrow>
          (if is_nullary m name
           then Option.bind (lookup_interp m name) (\<lambda>itp. interp_get itp []) else None))"
| "eval_assign it m (App f p args) a =
     (case those (map (\<lambda>t. eval_assign it m t a) args) of
        None \<Rightarrow> None
      | Some vs \<Rightarrow>
          (if p \<noteq> 0 then None
           else Option.bind (lookup_interp m f) (\<lambda>itp. interp_get itp vs)))"
| "eval_assign it m (UnaryOp op t) a =
     (if op = NotOp
      then (case eval_assign it m t a of
              None \<Rightarrow> None | Some v \<Rightarrow> if v = 0 \<or> v = 1 then Some (1 - v) else None)
      else None)"
| "eval_assign it m (BinOp NotEquals lhs rhs) a =
     eval_assign it m (term_negate (BinOp Equals lhs rhs)) a"
| "eval_assign it m (BinOp Equals lhs rhs) a =
     (case eval_assign it m lhs a of None \<Rightarrow> None | Some x \<Rightarrow>
      (case eval_assign it m rhs a of None \<Rightarrow> None | Some y \<Rightarrow> Some (if x = y then 1 else 0)))"
| "eval_assign it m (BinOp Iff lhs rhs) a =
     (case eval_assign it m lhs a of None \<Rightarrow> None | Some x \<Rightarrow>
      (case eval_assign it m rhs a of None \<Rightarrow> None | Some y \<Rightarrow> Some (if x = y then 1 else 0)))"
| "eval_assign it m (BinOp Implies lhs rhs) a =
     (case eval_assign it m lhs a of None \<Rightarrow> None | Some x \<Rightarrow>
      (case eval_assign it m rhs a of None \<Rightarrow> None | Some y \<Rightarrow> Some (if x \<le> y then 1 else 0)))"
| "eval_assign it m (BinOp Until lhs rhs) a = None"
| "eval_assign it m (BinOp Since lhs rhs) a = None"
| "eval_assign it m (NAryOp And ts) a =
     map_option eval_bool
       (all_p (map (\<lambda>t. map_option (\<lambda>v. v = 1) (eval_assign it m t a)) ts))"
| "eval_assign it m (NAryOp Or ts) a =
     map_option eval_bool
       (any_p (map (\<lambda>t. map_option (\<lambda>v. v = 1) (eval_assign it m t a)) ts))"
| "eval_assign it m (Ite c t e) a =
     (case eval_assign it m c a of None \<Rightarrow> None | Some v \<Rightarrow>
      if v = 1 then eval_assign it m t a else eval_assign it m e a)"
| "eval_assign it m (Quantified q binders body) a =
     (if binders = [] then eval_assign it m body a
      else
        (case those (map (\<lambda>b. cardinality m (b_sort b)) binders) of
           None \<Rightarrow> None
         | Some shape \<Rightarrow>
             let names = map b_name binders;
                 values = map (\<lambda>elements. map_option (\<lambda>v. v = 1)
                            (eval_assign it m body (assign_all a names elements)))
                          (mcp_fixed (mcp_nat it) (upto_lists shape))
             in map_option eval_bool
                  (case q of Forall \<Rightarrow> all_p values | Exists \<Rightarrow> any_p values)))"
  by pat_completeness auto
termination
  by (relation "measure (\<lambda>(it, m, t, a). eval_weight t)") (auto simp: term_negate_def)

definition eval :: "itertools \<Rightarrow> model \<Rightarrow> fterm \<Rightarrow> element option" where
  "eval it m t = eval_assign it m t Map.empty"

definition flip_to_sat ::
  "itertools \<Rightarrow> model \<Rightarrow> fterm list \<Rightarrow> assignment \<Rightarrow> fterm list option" where
  "flip_to_sat it m terms a =
     those (map (\<lambda>t. case eval_assign it m t a of
                   None \<Rightarrow> None | Some v \<Rightarrow> Some (if v = 0 then term_negate t else t)) terms)"

end
