(* ===== verification/Fly_Trace.thy ===== *)
theory Fly_Trace
  imports Fly_Semantics
begin

text \<open>
  The meaning of terms, as the documentation of \<open>Term\<close> in \<^verbatim>\<open>fly/src/syntax.rs\<close> states it: a
  term is interpreted at a time point of an infinite sequence of states over a shared universe.
  This is the abstract specification that the evaluator, the smart constructors and the term
  transformations are proved against; it models no code itself. It comes with the sort discipline
  of \<^verbatim>\<open>fly/src/sorts.rs\<close> for fully annotated terms, and the theorem that the executable evaluator
  \<open>eval_assign\<close> never panics on well-sorted first-order terms and computes their meaning.
\<close>

section \<open>Traces and the meaning of terms\<close>

record fo_trace =
  tr_card :: "sort \<Rightarrow> nat"
  tr_fun :: "nat \<Rightarrow> string \<Rightarrow> element list \<Rightarrow> element"

definition tuples :: "nat list \<Rightarrow> element list set" where
  "tuples cards = set (product_lists (upto_lists cards))"

fun quant_over :: "quantifier \<Rightarrow> 'a set \<Rightarrow> ('a \<Rightarrow> bool) \<Rightarrow> bool" where
  "quant_over Forall S P = (\<forall>x\<in>S. P x)"
| "quant_over Exists S P = (\<exists>x\<in>S. P x)"

lemma quant_over_cong [fundef_cong, cong]:
  "\<lbrakk> q = q'; S = S'; \<And>x. x \<in> S' \<Longrightarrow> P x = P' x \<rbrakk> \<Longrightarrow> quant_over q S P = quant_over q' S' P'"
  by (cases q) auto

fun teval :: "fo_trace \<Rightarrow> nat \<Rightarrow> assignment \<Rightarrow> fterm \<Rightarrow> element" where
  "teval tr i a (Literal b) = of_bool b"
| "teval tr i a (Id x) = (case a x of Some v \<Rightarrow> v | None \<Rightarrow> tr_fun tr i x [])"
| "teval tr i a (App f p args) = tr_fun tr (i + p) f (map (teval tr i a) args)"
| "teval tr i a (UnaryOp NotOp t) = 1 - teval tr i a t"
| "teval tr i a (UnaryOp Prime t) = teval tr (Suc i) a t"
| "teval tr i a (UnaryOp Next t) = teval tr (Suc i) a t"
| "teval tr i a (UnaryOp Always t) = of_bool (\<forall>j\<ge>i. teval tr j a t = 1)"
| "teval tr i a (UnaryOp Eventually t) = of_bool (\<exists>j\<ge>i. teval tr j a t = 1)"
| "teval tr i a (UnaryOp Previous t) = of_bool (0 < i \<and> teval tr (i - 1) a t = 1)"
| "teval tr i a (BinOp Equals x y) = of_bool (teval tr i a x = teval tr i a y)"
| "teval tr i a (BinOp NotEquals x y) = of_bool (teval tr i a x \<noteq> teval tr i a y)"
| "teval tr i a (BinOp Iff x y) = of_bool (teval tr i a x = teval tr i a y)"
| "teval tr i a (BinOp Implies x y) = of_bool (teval tr i a x = 1 \<longrightarrow> teval tr i a y = 1)"
| "teval tr i a (BinOp Until x y) =
     of_bool (\<exists>k\<ge>i. teval tr k a y = 1 \<and> (\<forall>j. i \<le> j \<and> j < k \<longrightarrow> teval tr j a x = 1))"
| "teval tr i a (BinOp Since x y) =
     of_bool (\<exists>k\<le>i. teval tr k a y = 1 \<and> (\<forall>j. k < j \<and> j \<le> i \<longrightarrow> teval tr j a x = 1))"
| "teval tr i a (NAryOp And ts) = of_bool (\<forall>t\<in>set ts. teval tr i a t = 1)"
| "teval tr i a (NAryOp Or ts) = of_bool (\<exists>t\<in>set ts. teval tr i a t = 1)"
| "teval tr i a (Ite c t e) = (if teval tr i a c = 1 then teval tr i a t else teval tr i a e)"
| "teval tr i a (Quantified q bs body) =
     of_bool (quant_over q (tuples (map (\<lambda>b. tr_card tr (b_sort b)) bs))
       (\<lambda>vs. teval tr i (assign_all a (map b_name bs) vs) body = 1))"

text \<open>\<open>holds\<close>: a formula is true at a time point.\<close>

abbreviation holds :: "fo_trace \<Rightarrow> nat \<Rightarrow> assignment \<Rightarrow> fterm \<Rightarrow> bool" where
  "holds tr i a t \<equiv> teval tr i a t = 1"

section \<open>Sorts of annotated terms\<close>

definition decl_of :: "signature \<Rightarrow> string \<Rightarrow> relation_decl option" where
  "decl_of sig f = map_option (nth (sig_relations sig)) (relation_idx sig f)"

definition sort_exists :: "signature \<Rightarrow> sort \<Rightarrow> bool" where
  "sort_exists sig srt = (case srt of Bool \<Rightarrow> True | Uninterpreted n \<Rightarrow> contains_sort sig n)"

type_synonym sort_context = "string \<rightharpoonup> sort"

fun term_sort :: "signature \<Rightarrow> sort_context \<Rightarrow> fterm \<Rightarrow> sort option" where
  "term_sort sig \<Gamma> (Literal b) = Some Bool"
| "term_sort sig \<Gamma> (Id x) =
     (case \<Gamma> x of
        Some s \<Rightarrow> Some s
      | None \<Rightarrow> (case decl_of sig x of
                 None \<Rightarrow> None | Some d \<Rightarrow> if rd_args d = [] then Some (rd_sort d) else None))"
| "term_sort sig \<Gamma> (App f p args) =
     (case decl_of sig f of
        None \<Rightarrow> None
      | Some d \<Rightarrow> if those (map (term_sort sig \<Gamma>) args) = Some (rd_args d)
                  then Some (rd_sort d) else None)"
| "term_sort sig \<Gamma> (UnaryOp op t) =
     (if op = Prime then term_sort sig \<Gamma> t
      else if term_sort sig \<Gamma> t = Some Bool then Some Bool else None)"
| "term_sort sig \<Gamma> (BinOp op x y) =
     (if op = Equals \<or> op = NotEquals
      then (if term_sort sig \<Gamma> x \<noteq> None \<and> term_sort sig \<Gamma> x = term_sort sig \<Gamma> y
            then Some Bool else None)
      else (if term_sort sig \<Gamma> x = Some Bool \<and> term_sort sig \<Gamma> y = Some Bool
            then Some Bool else None))"
| "term_sort sig \<Gamma> (NAryOp op ts) =
     (if \<forall>t\<in>set ts. term_sort sig \<Gamma> t = Some Bool then Some Bool else None)"
| "term_sort sig \<Gamma> (Ite c t e) =
     (if term_sort sig \<Gamma> c = Some Bool \<and> term_sort sig \<Gamma> t = term_sort sig \<Gamma> e
      then term_sort sig \<Gamma> t else None)"
| "term_sort sig \<Gamma> (Quantified q bs body) =
     (if (\<forall>b\<in>set bs. sort_exists sig (b_sort b))
         \<and> term_sort sig (\<Gamma>(map b_name bs [\<mapsto>] map b_sort bs)) body = Some Bool
      then Some Bool else None)"

definition trace_ok :: "signature \<Rightarrow> fo_trace \<Rightarrow> bool" where
  "trace_ok sig tr \<longleftrightarrow>
     tr_card tr Bool = 2
     \<and> (\<forall>i f d vs. decl_of sig f = Some d
           \<longrightarrow> list_all2 (\<lambda>v s. v < tr_card tr s) vs (rd_args d)
           \<longrightarrow> tr_fun tr i f vs < tr_card tr (rd_sort d))"

definition assign_ok :: "fo_trace \<Rightarrow> sort_context \<Rightarrow> assignment \<Rightarrow> bool" where
  "assign_ok tr \<Gamma> a \<longleftrightarrow>
     dom a = dom \<Gamma> \<and> (\<forall>x s v. \<Gamma> x = Some s \<longrightarrow> a x = Some v \<longrightarrow> v < tr_card tr s)"

lemma assign_ok_empty [simp]: "assign_ok tr Map.empty Map.empty"
  by (simp add: assign_ok_def)

lemma tuples_iff: "vs \<in> tuples cards \<longleftrightarrow> list_all2 (<) vs cards"
  by (auto simp: tuples_def product_lists_set upto_lists_def list_all2_conv_all_nth)

lemma tuples_length: "vs \<in> tuples cards \<Longrightarrow> length vs = length cards"
  by (simp add: tuples_iff list_all2_lengthD)

lemma assign_ok_upd:
  "\<lbrakk> assign_ok tr \<Gamma> a; v < tr_card tr s \<rbrakk> \<Longrightarrow> assign_ok tr (\<Gamma>(x \<mapsto> s)) (a(x \<mapsto> v))"
  by (auto simp: assign_ok_def)

lemma assign_ok_upds:
  "\<lbrakk> assign_ok tr \<Gamma> a; list_all2 (\<lambda>v s. v < tr_card tr s) vs ss; length ns = length ss \<rbrakk>
   \<Longrightarrow> assign_ok tr (\<Gamma>(ns [\<mapsto>] ss)) (a(ns [\<mapsto>] vs))"
proof (induction ns arbitrary: \<Gamma> a vs ss)
  case Nil
  then show ?case by simp
next
  case (Cons n ns)
  then obtain s ss' where ss: "ss = s # ss'" by (cases ss) auto
  with Cons.prems obtain v vs' where vs: "vs = v # vs'" and "v < tr_card tr s"
    and rest: "list_all2 (\<lambda>v s. v < tr_card tr s) vs' ss'"
    by (auto simp: list_all2_Cons2)
  then have "assign_ok tr (\<Gamma>(n \<mapsto> s)) (a(n \<mapsto> v))"
    using Cons.prems(1) by (intro assign_ok_upd)
  then have "assign_ok tr ((\<Gamma>(n \<mapsto> s))(ns [\<mapsto>] ss')) ((a(n \<mapsto> v))(ns [\<mapsto>] vs'))"
    using rest by (rule Cons.IH) (use Cons.prems(3) ss in simp)
  then show ?case unfolding ss vs map_upds_Cons .
qed

lemma assign_ok_binders:
  assumes "assign_ok tr \<Gamma> a" and "vs \<in> tuples (map (\<lambda>b. tr_card tr (b_sort b)) bs)"
  shows "assign_ok tr (\<Gamma>(map b_name bs [\<mapsto>] map b_sort bs)) (assign_all a (map b_name bs) vs)"
  using assms by (auto simp: assign_all_def tuples_iff list_all2_map2 intro!: assign_ok_upds)

lemma those_term_sortD:
  assumes "those (map (term_sort sig \<Gamma>) args) = Some ss"
  shows "list_all2 (\<lambda>t s. term_sort sig \<Gamma> t = Some s) args ss"
  using those_map_SomeD [OF assms] by (simp add: list_all2_conv_all_nth)

lemma trace_ok_bool [simp]: "trace_ok sig tr \<Longrightarrow> tr_card tr Bool = 2"
  by (simp add: trace_ok_def)

lemma trace_ok_fun:
  "\<lbrakk> trace_ok sig tr; decl_of sig f = Some d; list_all2 (\<lambda>v s. v < tr_card tr s) vs (rd_args d) \<rbrakk>
   \<Longrightarrow> tr_fun tr i f vs < tr_card tr (rd_sort d)"
  by (simp add: trace_ok_def)

lemma term_sort_BoolD:
  assumes "term_sort sig \<Gamma> (BinOp op x y) = Some s"
  shows "s = Bool"
  using assms by (auto split: if_splits)

text \<open>Meanings are in the range of the sort.\<close>

lemma teval_sound:
  assumes "trace_ok sig tr"
  shows "term_sort sig \<Gamma> t = Some s \<Longrightarrow> assign_ok tr \<Gamma> a \<Longrightarrow> teval tr i a t < tr_card tr s"
proof (induction t arbitrary: \<Gamma> a s i)
  case (Id x)
  then show ?case
    using trace_ok_fun [OF assms, of x _ "[]"]
    by (fastforce simp: assign_ok_def split: option.splits if_splits)
next
  case (App f p args)
  then obtain d where d: "decl_of sig f = Some d" and s: "s = rd_sort d"
    and sorts: "those (map (term_sort sig \<Gamma>) args) = Some (rd_args d)"
    by (auto split: option.splits if_splits)
  have "list_all2 (\<lambda>v s. v < tr_card tr s) (map (teval tr i a) args) (rd_args d)"
    using those_term_sortD [OF sorts] App.IH App.prems(2)
    by (auto simp: list_all2_conv_all_nth)
  then show ?case using d s trace_ok_fun [OF assms] by simp
next
  case (UnaryOp op t)
  from UnaryOp.prems UnaryOp.IH [of \<Gamma> s a] UnaryOp.IH [of \<Gamma> Bool a] assms show ?case
    by (cases op) (fastforce split: if_splits simp: less_Suc_eq)+
next
  case (BinOp op x y)
  then have "s = Bool" by (auto split: if_splits)
  with assms show ?case by (cases op) auto
next
  case (NAryOp op ts)
  then have "s = Bool" by (auto split: if_splits)
  with assms show ?case by (cases op) auto
next
  case (Ite c t e)
  then show ?case by (auto split: if_splits)
qed (use assms in \<open>auto split: if_splits\<close>)

lemma teval_bool:
  assumes "trace_ok sig tr" and "term_sort sig \<Gamma> t = Some Bool" and "assign_ok tr \<Gamma> a"
  shows "teval tr i a t = of_bool (teval tr i a t = 1)"
  using teval_sound [OF assms, of i] assms(1) by (auto simp: less_2_cases_iff)

lemma teval_bool01:
  assumes "trace_ok sig tr" and "assign_ok tr \<Gamma> a" and "term_sort sig \<Gamma> t = Some Bool"
  shows "teval tr i a t = 0 \<or> teval tr i a t = 1"
  using teval_sound [OF assms(1,3,2), of i] assms(1) by (auto simp: less_2_cases_iff)

end
