(* ===== verification/Fly_Eval.thy ===== *)
theory Fly_Eval
  imports Fly_Trace
begin

text \<open>
  The evaluator of \<^verbatim>\<open>fly/src/semantics.rs\<close> against the meaning of terms: tables are read and
  written consistently, and on well-sorted first-order terms \<open>eval_assign\<close> returns (no panic is
  reached) the element the term means.
\<close>

section \<open>Tables\<close>

fun rank :: "element list \<Rightarrow> nat list \<Rightarrow> nat" where
  "rank (a # args) (c # cards) = a * prod_list cards + rank args cards"
| "rank _ _ = 0"

lemma rank_less: "list_all2 (<) args cards \<Longrightarrow> rank args cards < prod_list cards"
proof (induction args cards rule: list_all2_induct)
  case Nil
  then show ?case by simp
next
  case (Cons a args c cards)
  then have "a * prod_list cards + rank args cards < Suc a * prod_list cards" by simp
  also have "\<dots> \<le> c * prod_list cards" using Cons.hyps(1) by (intro mult_le_mono1) simp
  finally show ?case by simp
qed

lemma interp_index_rank:
  "list_all2 (<) args cards
   \<Longrightarrow> interp_index k args (cards @ rest) = Some (k * prod_list cards + rank args cards)"
  by (induction args cards arbitrary: k rule: list_all2_induct) (auto simp: algebra_simps)

lemma nth_concat_uniform:
  assumes "\<And>x. x < n \<Longrightarrow> length (f x) = l" and "a < n" and "r < l"
  shows "concat (map f [0..<n]) ! (a * l + r) = f a ! r"
  using assms
proof (induction n)
  case 0
  then show ?case by simp
next
  case (Suc n)
  have "map (\<lambda>x. length (f x)) [0..<n] = map (\<lambda>_. l) [0..<n]"
    using Suc.prems(1) by simp
  then have len: "length (concat (map f [0..<n])) = n * l"
    by (simp add: length_concat comp_def sum_list_triv del: map_eq_conv)
  show ?case
  proof (cases "a < n")
    case True
    have "a * l + r < Suc a * l" using Suc.prems(3) by simp
    also have "\<dots> \<le> n * l" using True by (intro mult_le_mono1) simp
    finally show ?thesis using Suc True len by (simp add: nth_append)
  next
    case False
    then have "a = n" using Suc.prems(2) by simp
    with len show ?thesis by (simp add: nth_append)
  qed
qed

lemma length_product_upto: "length (product_lists (upto_lists cards)) = prod_list cards"
  by (induction cards) (simp_all add: upto_lists_def length_concat comp_def sum_list_triv)

lemma nth_product_upto:
  "list_all2 (<) args cards \<Longrightarrow> product_lists (upto_lists cards) ! rank args cards = args"
proof (induction args cards rule: list_all2_induct)
  case Nil
  then show ?case by (simp add: upto_lists_def)
next
  case (Cons a args c cards)
  have len: "length (product_lists (upto_lists cards)) = prod_list cards"
    by (rule length_product_upto)
  have "product_lists (upto_lists (c # cards)) ! (a * prod_list cards + rank args cards)
      = map (Cons a) (product_lists (upto_lists cards)) ! rank args cards"
    using Cons.hyps rank_less [OF Cons.hyps(2)] len
    by (simp add: upto_lists_def) (subst nth_concat_uniform [where l = "prod_list cards"], simp_all)
  then show ?case using Cons len rank_less [OF Cons.hyps(2)] by simp
qed

lemma interp_get_rank:
  assumes "in_shape itp = cards @ [c]" and "list_all2 (<) args cards"
    and "rank args cards < length (in_data itp)" and "in_data itp ! rank args cards < c"
  shows "interp_get itp args = Some (in_data itp ! rank args cards)"
  using assms interp_index_rank [of args cards 0 "[c]"]
  by (simp add: interp_get_def list_all2_lengthD)

lemma interp_new_table:
  assumes doc: "itertools_doc it"
    and range: "\<And>args. list_all2 (<) args cards \<Longrightarrow> \<exists>y<c. f args = Some y"
  shows "\<exists>itp. interp_new it (cards @ [c]) f = Some itp \<and> in_shape itp = cards @ [c]
    \<and> (\<forall>args. interp_get itp args = (if list_all2 (<) args cards then f args else None))"
proof -
  define tab where "tab = product_lists (upto_lists cards)"
  define itp where "itp = \<lparr>in_shape = cards @ [c], in_data = map (\<lambda>args. the (f args)) tab\<rparr>"
  let ?f = "\<lambda>args. case f args of None \<Rightarrow> None | Some y \<Rightarrow> if y < c then Some y else None"
  have tab: "list_all2 (<) args cards" if "args \<in> set tab" for args
    using that by (simp flip: tuples_iff add: tuples_def tab_def)
  have "those (map ?f tab) = Some (map (\<lambda>args. the (f args)) tab)"
    by (rule those_map_SomeI) (use range tab in fastforce)
  then have new: "interp_new it (cards @ [c]) f = Some itp"
    using doc by (simp add: interp_new_def doc_simps itp_def tab_def)
  have get: "interp_get itp args = f args" if args: "list_all2 (<) args cards" for args
  proof -
    from range [OF args] obtain y where y: "f args = Some y" "y < c" by blast
    have "rank args cards < length tab"
      using rank_less [OF args] by (simp add: tab_def length_product_upto)
    moreover have "tab ! rank args cards = args" using args by (simp add: tab_def nth_product_upto)
    ultimately show ?thesis
      using interp_get_rank [of itp cards c args] args y by (simp add: itp_def)
  qed
  have bad: "interp_get itp args = None" if "\<not> list_all2 (<) args cards" for args
  proof (rule ccontr)
    assume "interp_get itp args \<noteq> None"
    then have len: "length args = length cards" and idx: "interp_index 0 args (cards @ [c]) \<noteq> None"
      by (auto simp: interp_get_def itp_def split: if_splits option.splits)
    from len have "interp_index k args (cards @ [c]) \<noteq> None \<Longrightarrow> list_all2 (<) args cards" for k
      by (induction args cards arbitrary: k rule: list_induct2) (auto split: if_splits)
    with idx that show False by blast
  qed
  from new get bad show ?thesis by (auto simp: itp_def)
qed

text \<open>C38: \<open>Interpretation::new\<close> tabulates a function and \<open>Interpretation::get\<close> reads it back:
  for every shape and every function whose values stay below the output cardinality, \<open>new\<close>
  returns a table, \<open>get\<close> on any in-range argument tuple returns the function's value, and \<open>get\<close>
  on any other argument list panics.\<close>

theorem interp_new_get:
  assumes "itertools_doc it" and "\<And>args. list_all2 (<) args cards \<Longrightarrow> \<exists>y<c. f args = Some y"
  shows "\<exists>itp. interp_new it (cards @ [c]) f = Some itp
    \<and> (\<forall>args. interp_get itp args = (if list_all2 (<) args cards then f args else None))"
  using interp_new_table [OF assms(1), of cards c f] assms(2) by blast

theorem interp_new_get_witness:
  "\<exists>itp. interp_new itertools_ref [3, 2, 4] (\<lambda>es. Some (es ! 0 + es ! 1)) = Some itp
     \<and> interp_get itp [2, 1] = Some 3 \<and> interp_get itp [3, 1] = None"
proof -
  have "\<exists>itp. interp_new itertools_ref ([3, 2] @ [4]) (\<lambda>es. Some (es ! 0 + es ! 1)) = Some itp
    \<and> (\<forall>args. interp_get itp args
         = (if list_all2 (<) args [3, 2] then Some (args ! 0 + args ! 1) else None))"
    by (rule interp_new_get) (auto simp: list_all2_Cons2)
  then show ?thesis by force
qed

section \<open>Models as constant traces\<close>

definition model_trace :: "model \<Rightarrow> fo_trace" where
  "model_trace m =
     \<lparr>tr_card = (\<lambda>s. case cardinality m s of None \<Rightarrow> 0 | Some c \<Rightarrow> c),
      tr_fun = (\<lambda>_ f vs. case lookup_interp m f of
                   None \<Rightarrow> 0
                 | Some itp \<Rightarrow> (case interp_get itp vs of None \<Rightarrow> 0 | Some v \<Rightarrow> v))\<rparr>"

text \<open>\<open>Model::wf\<close> does not look at the tables; \<open>tables_ok\<close> says that they are full and in range,
  as the tables of \<open>Interpretation::new\<close> are.\<close>

definition table_ok :: "finterp \<Rightarrow> bool" where
  "table_ok itp \<longleftrightarrow>
     length (in_data itp) = prod_list (butlast (in_shape itp))
     \<and> (\<forall>v\<in>set (in_data itp). v < last (in_shape itp))"

definition model_ok :: "model \<Rightarrow> bool" where
  "model_ok m \<longleftrightarrow> model_wf m \<and> list_all table_ok (m_interp m)"

fun no_temporal :: "fterm \<Rightarrow> bool" where
  "no_temporal (App f p args) \<longleftrightarrow> p = 0 \<and> list_all no_temporal args"
| "no_temporal (UnaryOp op t) \<longleftrightarrow> op = NotOp \<and> no_temporal t"
| "no_temporal (BinOp op x y) \<longleftrightarrow> op \<noteq> Until \<and> op \<noteq> Since \<and> no_temporal x \<and> no_temporal y"
| "no_temporal (NAryOp op ts) \<longleftrightarrow> list_all no_temporal ts"
| "no_temporal (Ite c t e) \<longleftrightarrow> no_temporal c \<and> no_temporal t \<and> no_temporal e"
| "no_temporal (Quantified q bs body) \<longleftrightarrow> no_temporal body"
| "no_temporal (Literal b) \<longleftrightarrow> True"
| "no_temporal (Id x) \<longleftrightarrow> True"

lemma interp_get_ok:
  assumes "interp_wf m d itp" and "table_ok itp"
    and "list_all2 (\<lambda>v s. \<exists>c. cardinality m s = Some c \<and> v < c) vs (rd_args d)"
  shows "\<exists>v c. interp_get itp vs = Some v \<and> cardinality m (rd_sort d) = Some c \<and> v < c"
proof -
  define cards where "cards = butlast (in_shape itp)"
  define c where "c = last (in_shape itp)"
  from assms(1) have shape: "in_shape itp = cards @ [c]"
    by (simp add: interp_wf_def cards_def c_def)
  from assms(1) have len: "length (rd_args d) = length cards"
    and last: "cardinality m (rd_sort d) = Some c"
    and args: "\<forall>j<length (rd_args d). cardinality m (rd_args d ! j) = Some (in_shape itp ! j)"
    by (simp_all add: interp_wf_def cards_def c_def)
  from assms(3) args len have "list_all2 (<) vs cards"
    by (auto simp: list_all2_conv_all_nth shape nth_append)
  moreover from this have "rank vs cards < length (in_data itp)"
    using assms(2) rank_less by (simp add: table_ok_def shape)
  moreover from this have "in_data itp ! rank vs cards < c"
    using assms(2) by (simp add: table_ok_def shape)
  ultimately show ?thesis using interp_get_rank [OF shape] last by auto
qed

lemma lookup_ok:
  assumes "model_ok m" and "decl_of (m_signature m) f = Some d"
  shows "\<exists>itp. lookup_interp m f = Some itp \<and> interp_wf m d itp \<and> table_ok itp"
proof -
  from assms(2) obtain i where i: "relation_idx (m_signature m) f = Some i"
    and d: "d = sig_relations (m_signature m) ! i"
    by (auto simp: decl_of_def)
  from i have "i < length (sig_relations (m_signature m))"
    by (auto simp: relation_idx_def dest: position_SomeD)
  with assms(1) have "i < length (m_interp m)" and "interp_wf m d (m_interp m ! i)"
    and "table_ok (m_interp m ! i)"
    by (simp_all add: model_ok_def model_wf_def d list_all_length)
  with i show ?thesis by (auto simp: lookup_interp_def)
qed

lemma model_trace_card_less:
  "v < tr_card (model_trace m) s \<longleftrightarrow> (\<exists>c. cardinality m s = Some c \<and> v < c)"
  by (auto simp: model_trace_def split: option.splits)

lemma model_trace_apply:
  assumes "model_ok m" and "decl_of (m_signature m) f = Some d"
    and "list_all2 (\<lambda>v s. v < tr_card (model_trace m) s) vs (rd_args d)"
  shows "Option.bind (lookup_interp m f) (\<lambda>itp. interp_get itp vs)
       = Some (tr_fun (model_trace m) i f vs)"
    and "tr_fun (model_trace m) i f vs < tr_card (model_trace m) (rd_sort d)"
proof -
  from lookup_ok [OF assms(1,2)] obtain itp where itp: "lookup_interp m f = Some itp"
    and ok: "interp_wf m d itp" "table_ok itp" by blast
  from assms(3) have "list_all2 (\<lambda>v s. \<exists>c. cardinality m s = Some c \<and> v < c) vs (rd_args d)"
    by (simp add: model_trace_card_less)
  from interp_get_ok [OF ok this] obtain v c where v: "interp_get itp vs = Some v"
    "cardinality m (rd_sort d) = Some c" "v < c" by blast
  with itp show "Option.bind (lookup_interp m f) (\<lambda>itp. interp_get itp vs)
       = Some (tr_fun (model_trace m) i f vs)"
    and "tr_fun (model_trace m) i f vs < tr_card (model_trace m) (rd_sort d)"
    by (simp_all add: model_trace_def)
qed

lemma model_trace_ok: "model_ok m \<Longrightarrow> trace_ok (m_signature m) (model_trace m)"
  by (auto simp: trace_ok_def model_trace_apply) (simp add: model_trace_def cardinality_def)

lemma is_nullary_iff:
  "is_nullary m f \<longleftrightarrow> (\<exists>d. decl_of (m_signature m) f = Some d \<and> rd_args d = [])"
  by (auto simp: is_nullary_def decl_of_def split: option.splits)

lemma cardinality_exists:
  assumes "model_ok m" and "sort_exists (m_signature m) s"
  shows "cardinality m s = Some (tr_card (model_trace m) s)"
proof (cases s)
  case Bool
  then show ?thesis by (simp add: model_trace_def cardinality_def)
next
  case (Uninterpreted n)
  with assms(2) obtain i where i: "sort_idx (m_signature m) s = Some i"
    using position_Some_ex [of n "sig_sorts (m_signature m)" "\<lambda>x. x = n"]
    by (auto simp: sort_exists_def contains_sort_def sort_idx_def list_ex_iff)
  then have "i < length (sig_sorts (m_signature m))"
    by (auto simp: sort_idx_def Uninterpreted dest: position_SomeD)
  with assms(1) i show ?thesis
    by (simp add: cardinality_def model_trace_def model_ok_def model_wf_def Uninterpreted)
qed

section \<open>The evaluator computes the meaning\<close>

lemma eval_weight_pos [simp]: "0 < eval_weight t"
  by (induction t) auto

text \<open>The evaluator on \<open>NotEquals\<close>, unfolded.\<close>

lemma eval_NotEquals:
  "eval_assign it m (BinOp NotEquals lhs rhs) a =
     (case eval_assign it m lhs a of None \<Rightarrow> None | Some x \<Rightarrow>
      (case eval_assign it m rhs a of None \<Rightarrow> None | Some y \<Rightarrow> Some (if x = y then 0 else 1)))"
  by (auto simp: term_negate_def split: option.splits)

declare eval_assign.simps(5) [simp del] eval_NotEquals [simp]

lemma eval_assign_teval:
  assumes doc: "itertools_doc it" and ok: "model_ok m"
    and srt: "term_sort (m_signature m) \<Gamma> t = Some s" and nt: "no_temporal t"
    and asg: "assign_ok (model_trace m) \<Gamma> a"
  shows "eval_assign it m t a = Some (teval (model_trace m) i a t)"
  using srt nt asg
proof (induction t arbitrary: \<Gamma> a s)
  case (Id x)
  then show ?case
    using model_trace_apply(1) [OF ok, of x _ "[]"]
    by (fastforce simp: assign_ok_def is_nullary_iff split: option.splits if_splits)
next
  case (App f p args)
  then obtain d where d: "decl_of (m_signature m) f = Some d"
    and sorts: "those (map (term_sort (m_signature m) \<Gamma>) args) = Some (rd_args d)"
    by (auto split: option.splits if_splits)
  let ?vs = "map (teval (model_trace m) i a) args"
  from those_term_sortD [OF sorts] have l: "length args = length (rd_args d)"
    and each: "\<And>j. j < length args \<Longrightarrow> term_sort (m_signature m) \<Gamma> (args ! j) = Some (rd_args d ! j)"
    by (simp_all add: list_all2_conv_all_nth)
  have "those (map (\<lambda>t. eval_assign it m t a) args) = Some ?vs"
  proof (rule those_map_SomeI)
    fix t assume t: "t \<in> set args"
    then obtain j where "j < length args" and "t = args ! j" by (auto simp: in_set_conv_nth)
    with App.IH [OF t] each App.prems t show "eval_assign it m t a = Some (teval (model_trace m) i a t)"
      by (auto simp: list_all_iff)
  qed
  moreover have "list_all2 (\<lambda>v s. v < tr_card (model_trace m) s) ?vs (rd_args d)"
    unfolding list_all2_conv_all_nth
  proof (intro conjI allI impI)
    fix j assume "j < length ?vs"
    then show "?vs ! j < tr_card (model_trace m) (rd_args d ! j)"
      using each teval_sound [OF model_trace_ok [OF ok] _ App.prems(3)] by simp
  qed (simp add: l)
  ultimately show ?case
    using App.prems(2) model_trace_apply(1) [OF ok d] by simp
next
  case (UnaryOp op t)
  then have "op = NotOp" and t: "term_sort (m_signature m) \<Gamma> t = Some Bool"
    by (auto split: if_splits)
  moreover have "teval (model_trace m) i a t = 0 \<or> teval (model_trace m) i a t = 1"
    using teval_bool [OF model_trace_ok [OF ok] t UnaryOp.prems(3), of i]
    by (cases "teval (model_trace m) i a t = 1") auto
  ultimately show ?case using UnaryOp.IH [OF t] UnaryOp.prems by simp
next
  case (BinOp op x y)
  let ?v = "\<lambda>t. teval (model_trace m) i a t"
  from BinOp.prems obtain sx sy where sx: "term_sort (m_signature m) \<Gamma> x = Some sx"
    and sy: "term_sort (m_signature m) \<Gamma> y = Some sy"
    and bool: "op \<noteq> Equals \<and> op \<noteq> NotEquals \<Longrightarrow> sx = Bool \<and> sy = Bool"
    by (cases "term_sort (m_signature m) \<Gamma> x"; cases "term_sort (m_signature m) \<Gamma> y")
      (auto split: if_splits)
  have ev: "eval_assign it m x a = Some (?v x)" "eval_assign it m y a = Some (?v y)"
    using BinOp.IH(1) [OF sx] BinOp.IH(2) [OF sy] BinOp.prems(2,3) by simp_all
  have leq: "?v x \<le> ?v y \<longleftrightarrow> (?v x = 1 \<longrightarrow> ?v y = 1)" if "op = Implies"
    using bool that teval_sound [OF model_trace_ok [OF ok] sx BinOp.prems(3), of i]
      teval_sound [OF model_trace_ok [OF ok] sy BinOp.prems(3), of i] model_trace_ok [OF ok]
    by auto
  show ?case
    by (cases op) (use ev leq BinOp.prems(2) in auto)
next
  case (NAryOp op ts)
  have each: "map_option (\<lambda>v. v = 1) (eval_assign it m t a)
      = Some (teval (model_trace m) i a t = 1)" if t: "t \<in> set ts" for t
    using NAryOp.IH [OF t, of \<Gamma> Bool a] NAryOp.prems t by (auto simp: list_all_iff split: if_splits)
  show ?case
    by (cases op)
      (simp_all add: all_p_eq_SomeI [OF each] any_p_eq_SomeI [OF each] eval_bool_def)
next
  case (Ite c t e)
  then have "term_sort (m_signature m) \<Gamma> c = Some Bool"
    and "term_sort (m_signature m) \<Gamma> t = Some s" and "term_sort (m_signature m) \<Gamma> e = Some s"
    by (simp_all split: if_splits)
  with Ite show ?case by simp
next
  case (Quantified q bs body)
  let ?shape = "map (\<lambda>b. tr_card (model_trace m) (b_sort b)) bs"
  let ?names = "map b_name bs"
  from Quantified.prems have body: "term_sort (m_signature m) (\<Gamma>(?names [\<mapsto>] map b_sort bs)) body
      = Some Bool" and ex: "\<forall>b\<in>set bs. sort_exists (m_signature m) (b_sort b)"
    by (auto split: if_splits)
  have shape: "those (map (\<lambda>b. cardinality m (b_sort b)) bs) = Some ?shape"
    by (rule those_map_SomeI) (use ex cardinality_exists [OF ok] in auto)
  have each: "map_option (\<lambda>v. v = 1) (eval_assign it m body (assign_all a ?names vs))
      = Some (teval (model_trace m) i (assign_all a ?names vs) body = 1)"
    if "vs \<in> set (product_lists (upto_lists ?shape))" for vs
  proof -
    have "assign_ok (model_trace m) (\<Gamma>(?names [\<mapsto>] map b_sort bs)) (assign_all a ?names vs)"
      by (rule assign_ok_binders [OF Quantified.prems(3)]) (use that in \<open>simp add: tuples_def\<close>)
    then show ?thesis using Quantified.IH [OF body] Quantified.prems(2) by simp
  qed
  show ?case
  proof (cases "bs = []")
    case True
    with Quantified.IH [OF body] Quantified.prems
      teval_bool [OF model_trace_ok [OF ok] body, of a i]
    show ?thesis by (cases q) (auto simp: tuples_def upto_lists_def assign_all_def)
  next
    case False
    then show ?thesis
      by (cases q)
        (simp_all add: shape doc_simps doc all_p_eq_SomeI [OF each] any_p_eq_SomeI [OF each]
          eval_bool_def tuples_def)
  qed
qed simp

text \<open>C12: on a well-formed model whose tables are full, evaluating a well-sorted first-order
  term under an assignment that fits its context never panics: \<open>eval_assign\<close> returns, and the
  element it returns is the meaning of the term in the constant trace of the model.\<close>

theorem eval_assign_correct:
  assumes doc: "itertools_doc it" and ok: "model_ok m"
    and srt: "term_sort (m_signature m) \<Gamma> t = Some s" and nt: "no_temporal t"
    and asg: "assign_ok (model_trace m) \<Gamma> a"
  shows "eval_assign it m t a = Some (teval (model_trace m) i a t)"
  by (rule eval_assign_teval [OF assms])

text \<open>The signature and model of the source's own test \<open>test_eval\<close>: sorts \<open>T1\<close>, \<open>T2\<close> of sizes 2
  and 3, a relation, a function and two constants. Witnesses evaluate on it.\<close>

definition ex_sig :: signature where
  "ex_sig = \<lparr>sig_sorts = [''T1'', ''T2''],
     sig_relations =
       [\<lparr>rd_mutable = True, rd_name = ''r1'',
          rd_args = [Uninterpreted ''T2'', Uninterpreted ''T1''], rd_sort = Bool\<rparr>,
        \<lparr>rd_mutable = True, rd_name = ''r2'',
          rd_args = [Uninterpreted ''T1''], rd_sort = Uninterpreted ''T2''\<rparr>,
        \<lparr>rd_mutable = True, rd_name = ''c1'', rd_args = [], rd_sort = Uninterpreted ''T1''\<rparr>,
        \<lparr>rd_mutable = True, rd_name = ''c2'', rd_args = [], rd_sort = Uninterpreted ''T2''\<rparr>]\<rparr>"

definition ex_model :: model where
  "ex_model = \<lparr>m_signature = ex_sig, m_universe = [2, 3],
     m_interp =
       [\<lparr>in_shape = [3, 2, 2], in_data = [0, 1, 1, 0, 1, 0]\<rparr>,
        \<lparr>in_shape = [2, 3], in_data = [1, 2]\<rparr>,
        \<lparr>in_shape = [2], in_data = [1]\<rparr>,
        \<lparr>in_shape = [3], in_data = [2]\<rparr>]\<rparr>"

definition ex_formula :: fterm where
  "ex_formula =
     Quantified Exists [binder_new ''x'' (Uninterpreted ''T1'')]
       (NAryOp And
          [App ''r1'' 0 [App ''r2'' 0 [Id ''x''], Id ''x''],
           BinOp NotEquals (Id ''x'') (Id ''c1'')])"

lemma ex_model_ok: "model_ok ex_model" "m_signature ex_model = ex_sig"
  by code_simp (simp add: ex_model_def)

theorem eval_assign_correct_witness:
  "eval_assign itertools_ref ex_model ex_formula Map.empty = Some 1
   \<and> eval_assign itertools_ref ex_model ex_formula Map.empty
     = Some (teval (model_trace ex_model) 0 Map.empty ex_formula)"
proof -
  have srt: "term_sort (m_signature ex_model) Map.empty ex_formula = Some Bool" by code_simp
  have nt: "no_temporal ex_formula" by code_simp
  have "eval_assign itertools_ref ex_model ex_formula Map.empty = Some 1" by code_simp
  with eval_assign_correct [OF itertools_doc_ref ex_model_ok(1) srt nt, of Map.empty 0]
  show ?thesis by simp
qed

end
