(* ===== verification/Fly_Smart.thy ===== *)
theory Fly_Smart
  imports Fly_Eval
begin

text \<open>
  The smart constructors of \<^verbatim>\<open>fly/src/syntax.rs\<close> against the meaning of terms: flattening,
  double negation and the merging of nested quantifiers do not change what a term means.
\<close>

section \<open>Flattening of conjunctions and disjunctions\<close>

lemma flatten_And_holds:
  "(\<forall>t\<in>set (flatten_terms_of_op ts And). holds tr i a t) \<longleftrightarrow> (\<forall>t\<in>set ts. holds tr i a t)"
proof -
  have "(\<forall>t'\<in>set (case t of NAryOp op2 ts2 \<Rightarrow> if And = op2 then ts2 else [t] | _ \<Rightarrow> [t]).
          holds tr i a t') \<longleftrightarrow> holds tr i a t" for t
    by (cases t) (auto split: nop.splits)
  then show ?thesis by (auto simp: flatten_terms_of_op_def)
qed

lemma flatten_Or_holds:
  "(\<exists>t\<in>set (flatten_terms_of_op ts Or). holds tr i a t) \<longleftrightarrow> (\<exists>t\<in>set ts. holds tr i a t)"
proof -
  have "(\<exists>t'\<in>set (case t of NAryOp op2 ts2 \<Rightarrow> if Or = op2 then ts2 else [t] | _ \<Rightarrow> [t]).
          holds tr i a t') \<longleftrightarrow> holds tr i a t" for t
    by (cases t) (auto split: nop.splits)
  then show ?thesis by (fastforce simp: flatten_terms_of_op_def)
qed

text \<open>Truth of the built terms needs no sorts; these carry the uses of \<open>Term::and\<close> and \<open>Term::or\<close>
  in the other components.\<close>

lemma holds_term_and [sem_simps]: "holds tr i a (term_and ts) \<longleftrightarrow> (\<forall>t\<in>set ts. holds tr i a t)"
proof (cases ts)
  case (Cons t ts')
  then show ?thesis
    using flatten_And_holds [of ts tr i a]
    by (cases ts') (simp_all add: term_and_def)
qed (simp add: term_and_def term_true_def)

lemma holds_term_or [sem_simps]: "holds tr i a (term_or ts) \<longleftrightarrow> (\<exists>t\<in>set ts. holds tr i a t)"
proof (cases ts)
  case (Cons t ts')
  then show ?thesis
    using flatten_Or_holds [of ts tr i a]
    by (cases ts') (simp_all add: term_or_def)
qed (simp add: term_or_def term_false_def)

section \<open>Negation\<close>

lemma holds_term_negate [sem_simps]: "holds tr i a (term_negate t) \<longleftrightarrow> teval tr i a t = 0"
  by (auto simp: term_negate_def)

lemma teval_term_not:
  assumes "trace_ok sig tr" and "assign_ok tr \<Gamma> a" and "term_sort sig \<Gamma> t = Some Bool"
  shows "teval tr i a (term_not t) = 1 - teval tr i a t"
proof (cases t rule: term_not.cases)
  case (1 body)
  with assms have "term_sort sig \<Gamma> body = Some Bool" by (auto split: if_splits)
  then have "teval tr i a body = of_bool (holds tr i a body)"
    by (rule teval_bool [OF assms(1) _ assms(2)])
  then show ?thesis by (cases "holds tr i a body") (simp_all add: 1)
qed simp_all

lemma term_sort_not: "term_sort sig \<Gamma> t = Some Bool \<Longrightarrow> term_sort sig \<Gamma> (term_not t) = Some Bool"
  by (cases t rule: term_not.cases) (auto split: if_splits)

lemma term_sort_flatten:
  assumes "\<forall>t\<in>set ts. term_sort sig \<Gamma> t = Some Bool"
  shows "\<forall>t\<in>set (flatten_terms_of_op ts op). term_sort sig \<Gamma> t = Some Bool"
proof -
  have "\<forall>t'\<in>set (case t of NAryOp op2 ts2 \<Rightarrow> if op = op2 then ts2 else [t] | _ \<Rightarrow> [t]).
      term_sort sig \<Gamma> t' = Some Bool" if "term_sort sig \<Gamma> t = Some Bool" for t
    using that by (cases t) (auto split: if_splits)
  with assms show ?thesis by (auto simp: flatten_terms_of_op_def)
qed

lemma term_sort_and_or:
  assumes "\<forall>t\<in>set ts. term_sort sig \<Gamma> t = Some Bool"
  shows "term_sort sig \<Gamma> (term_and ts) = Some Bool" "term_sort sig \<Gamma> (term_or ts) = Some Bool"
  using assms term_sort_flatten [OF assms]
  by (auto simp: term_and_def term_or_def term_true_def term_false_def)

text \<open>C37: \<open>Term::and\<close>, \<open>Term::or\<close> and \<open>Term::not\<close>, which flatten nested connectives, collapse lists
  of length 0 and 1, cancel double negation and flip (dis)equalities, build well-sorted terms with
  the same meaning as the plain operator nodes.\<close>

theorem smart_connectives_correct:
  assumes "trace_ok sig tr" and "assign_ok tr \<Gamma> a"
    and "\<forall>t\<in>set ts. term_sort sig \<Gamma> t = Some Bool"
  shows "teval tr i a (term_and ts) = teval tr i a (NAryOp And ts)
    \<and> teval tr i a (term_or ts) = teval tr i a (NAryOp Or ts)
    \<and> (\<forall>t\<in>set ts. teval tr i a (term_not t) = teval tr i a (UnaryOp NotOp t) \<and> term_sort sig \<Gamma> (term_not t) = Some Bool)
    \<and> term_sort sig \<Gamma> (term_and ts) = Some Bool \<and> term_sort sig \<Gamma> (term_or ts) = Some Bool"
proof (intro conjI ballI)
  note srt = term_sort_and_or [OF assms(3)]
  show "term_sort sig \<Gamma> (term_and ts) = Some Bool" "term_sort sig \<Gamma> (term_or ts) = Some Bool"
    using srt by simp_all
  show "teval tr i a (term_and ts) = teval tr i a (NAryOp And ts)"
    using teval_bool01 [OF assms(1,2) srt(1), of i] holds_term_and [of tr i a ts] by fastforce
  show "teval tr i a (term_or ts) = teval tr i a (NAryOp Or ts)"
    using teval_bool01 [OF assms(1,2) srt(2), of i] holds_term_or [of tr i a ts] by fastforce
  fix t assume "t \<in> set ts"
  with assms(3) show "teval tr i a (term_not t) = teval tr i a (UnaryOp NotOp t)" "term_sort sig \<Gamma> (term_not t) = Some Bool"
    using teval_term_not [OF assms(1,2)] term_sort_not by simp_all
qed

definition ex_conjuncts :: "fterm list" where
  "ex_conjuncts = [NAryOp And [ex_formula, Literal True], UnaryOp NotOp (Literal False),
     BinOp Equals (Id ''c1'') (Id ''c1'')]"

lemma ex_trace_ok: "trace_ok ex_sig (model_trace ex_model)"
  using model_trace_ok [OF ex_model_ok(1)] ex_model_ok(2) by simp

theorem smart_connectives_correct_witness:
  "term_and ex_conjuncts = NAryOp And [ex_formula, Literal True, UnaryOp NotOp (Literal False),
     BinOp Equals (Id ''c1'') (Id ''c1'')]
   \<and> teval (model_trace ex_model) 0 Map.empty (term_and ex_conjuncts)
     = teval (model_trace ex_model) 0 Map.empty (NAryOp And ex_conjuncts)"
proof -
  have "\<forall>t\<in>set ex_conjuncts. term_sort ex_sig Map.empty t = Some Bool" by code_simp
  from smart_connectives_correct [OF ex_trace_ok assign_ok_empty this]
  show ?thesis
    by (simp add: ex_conjuncts_def term_and_def flatten_terms_of_op_def ex_formula_def)
qed

lemma those_map_option_cong:
  assumes "those (map f xs) = Some ys"
  shows "list_all2 (\<lambda>x y. f x = Some y) xs ys"
  using those_map_SomeD [OF assms] by (simp add: list_all2_conv_all_nth)

text \<open>Wherever \<open>negate_and_simplify\<close> returns (it panics on operators it does not support), the
  term it builds means the negation of its argument, for every trace, time point and assignment
  at which the argument is a boolean.\<close>

theorem negate_and_simplify_correct:
  assumes "trace_ok sig tr" and "assign_ok tr \<Gamma> a" and "term_sort sig \<Gamma> t = Some Bool"
    and "negate_and_simplify t = Some t'"
  shows "teval tr i a t' = 1 - teval tr i a t"
  using assms(2-4)
proof (induction t arbitrary: \<Gamma> a t')
  case (UnaryOp op t)
  then have t: "term_sort sig \<Gamma> t = Some Bool" and "op = NotOp" and "t' = t"
    by (auto split: if_splits)
  then show ?case
    using teval_bool [OF assms(1) t UnaryOp.prems(1), of i]
    by (cases "holds tr i a t") simp_all
next
  case (BinOp op x y)
  then show ?case by (cases op) auto
next
  case (NAryOp op ts)
  from NAryOp.prems(3) obtain ts' where ts': "those (map negate_and_simplify ts) = Some ts'"
    by (cases op) auto
  have each: "teval tr i a t' = 1 - teval tr i a t"
    if "t \<in> set ts" and "negate_and_simplify t = Some t'" for t t'
    using NAryOp.IH [OF that(1) NAryOp.prems(1) _ that(2)] NAryOp.prems(2) that(1)
    by (auto split: if_splits)
  have bool: "holds tr i a t \<longleftrightarrow> teval tr i a t \<noteq> 0" if "t \<in> set ts" for t
  proof -
    have "term_sort sig \<Gamma> t = Some Bool" using that NAryOp.prems(2) by (auto split: if_splits)
    from teval_bool [OF assms(1) this NAryOp.prems(1), of i] show ?thesis
      by (cases "holds tr i a t") auto
  qed
  have flip: "holds tr i a t' \<longleftrightarrow> \<not> holds tr i a t"
    if "t \<in> set ts" and "negate_and_simplify t = Some t'" for t t'
    using each [OF that] bool [OF that(1)] by auto
  have rel: "list_all2 (\<lambda>t t'. holds tr i a t' \<longleftrightarrow> \<not> holds tr i a t) ts ts'"
    using those_map_option_cong [OF ts'] by (rule list.rel_mono_strong) (rule flip)
  then have "(\<forall>t'\<in>set ts'. holds tr i a t') \<longleftrightarrow> \<not> (\<exists>t\<in>set ts. holds tr i a t)"
    and "(\<exists>t'\<in>set ts'. holds tr i a t') \<longleftrightarrow> \<not> (\<forall>t\<in>set ts. holds tr i a t)"
    by (induction rule: list_all2_induct) auto
  then show ?case using NAryOp.prems(3) ts' by (cases op) auto
next
  case (Quantified q bs body)
  then obtain body' where q: "q = Forall" and body': "negate_and_simplify body = Some body'"
    and t': "t' = Quantified Exists bs body'"
    by (cases q) auto
  from Quantified.prems have srt: "term_sort sig (\<Gamma>(map b_name bs [\<mapsto>] map b_sort bs)) body = Some Bool"
    by (auto split: if_splits)
  have "holds tr i (assign_all a (map b_name bs) vs) body'
      \<longleftrightarrow> \<not> holds tr i (assign_all a (map b_name bs) vs) body"
    if "vs \<in> tuples (map (\<lambda>b. tr_card tr (b_sort b)) bs)" for vs
  proof -
    note asg = assign_ok_binders [OF Quantified.prems(1) that]
    from teval_bool01 [OF assms(1) asg srt, of i] Quantified.IH [OF asg srt body'] show ?thesis
      by auto
  qed
  then show ?case by (simp add: q t')
qed (auto simp: term_negate_def)

definition ex_negatable :: fterm where
  "ex_negatable =
     Quantified Forall [binder_new ''x'' (Uninterpreted ''T1'')]
       (NAryOp Or [BinOp Equals (Id ''x'') (Id ''c1''), App ''r1'' 0 [Id ''c2'', Id ''x'']])"

theorem negate_and_simplify_correct_witness:
  "\<exists>t'. negate_and_simplify ex_negatable = Some t'
     \<and> teval (model_trace ex_model) 0 Map.empty t'
       = 1 - teval (model_trace ex_model) 0 Map.empty ex_negatable"
proof -
  have srt: "term_sort ex_sig Map.empty ex_negatable = Some Bool" by code_simp
  have "negate_and_simplify ex_negatable \<noteq> None" by code_simp
  then obtain t' where t': "negate_and_simplify ex_negatable = Some t'" by blast
  with negate_and_simplify_correct [OF ex_trace_ok assign_ok_empty srt t'] show ?thesis by blast
qed

section \<open>Quantifiers\<close>

lemma tuples_Nil [simp]: "tuples [] = {[]}"
  by (simp add: tuples_def upto_lists_def)

lemma quant_over_tuples_Cons:
  "quant_over q (tuples (c # cs)) P
   \<longleftrightarrow> quant_over q {..<c} (\<lambda>v. quant_over q (tuples cs) (\<lambda>vs. P (v # vs)))"
  by (cases q) (fastforce simp: tuples_iff list_all2_Cons2)+

lemma quant_over_tuples_append:
  "quant_over q (tuples (cs @ ds)) P
   \<longleftrightarrow> quant_over q (tuples cs) (\<lambda>vs. quant_over q (tuples ds) (\<lambda>ws. P (vs @ ws)))"
  by (induction cs arbitrary: P) (cases q, simp_all add: quant_over_tuples_Cons)

lemma quant_over_const: "S \<noteq> {} \<Longrightarrow> quant_over q S (\<lambda>_. P) \<longleftrightarrow> P"
  by (cases q) auto

lemma assign_all_outside:
  assumes "\<And>x. x \<notin> set ns \<Longrightarrow> a x = a' x" and "length vs = length ns"
  shows "assign_all a ns vs = assign_all a' ns vs"
proof
  fix x
  show "assign_all a ns vs x = assign_all a' ns vs x"
    using assms
  proof (induction ns arbitrary: a a' vs)
    case Nil
    then show ?case by (simp add: assign_all_def)
  next
    case (Cons n ns)
    then obtain v vs' where vs: "vs = v # vs'" by (cases vs) auto
    with Cons.prems have "assign_all (a(n \<mapsto> v)) ns vs' x = assign_all (a'(n \<mapsto> v)) ns vs' x"
      by (intro Cons.IH) auto
    then show ?case by (simp add: assign_all_def vs)
  qed
qed

lemma assign_all_append:
  "length vs = length ns \<Longrightarrow> assign_all a (ns @ ms) (vs @ ws) = assign_all (assign_all a ns vs) ms ws"
  by (simp add: assign_all_def map_upds_append1 [symmetric] del: map_upds_append1)
    (induction ns arbitrary: a vs; case_tac vs; simp add: assign_all_def)

lemma quantify_shadow:
  assumes "\<And>a a'. (\<And>x. x \<notin> N \<Longrightarrow> a x = a' x) \<Longrightarrow> F a = F a'"
    and "\<And>b. b \<in> set bs \<Longrightarrow> b_name b \<in> N \<Longrightarrow> 0 < crd (b_sort b)"
  shows "quant_over q (tuples (map (\<lambda>b. crd (b_sort b)) (filter (\<lambda>b. b_name b \<notin> N) bs)))
      (\<lambda>vs. F (assign_all a (map b_name (filter (\<lambda>b. b_name b \<notin> N) bs)) vs))
    \<longleftrightarrow> quant_over q (tuples (map (\<lambda>b. crd (b_sort b)) bs))
      (\<lambda>vs. F (assign_all a (map b_name bs) vs))"
  using assms(2)
proof (induction bs arbitrary: a)
  case Nil
  then show ?case by simp
next
  case (Cons b bs)
  let ?kept = "filter (\<lambda>b. b_name b \<notin> N) bs"
  let ?Q = "\<lambda>bs a. quant_over q (tuples (map (\<lambda>b. crd (b_sort b)) bs))
      (\<lambda>vs. F (assign_all a (map b_name bs) vs))"
  have step: "?Q (b # bs) a \<longleftrightarrow> quant_over q {..<crd (b_sort b)} (\<lambda>v. ?Q bs (a(b_name b \<mapsto> v)))"
    for b bs a by (simp add: quant_over_tuples_Cons assign_all_def)
  have IH: "?Q ?kept a \<longleftrightarrow> ?Q bs a" for a using Cons by simp
  show ?case
  proof (cases "b_name b \<in> N")
    case False
    then show ?thesis using IH by (simp only: filter.simps step simp_thms if_True if_False)
  next
    case True
    have upd: "assign_all (a(b_name b \<mapsto> v)) ns vs x = assign_all a ns vs x"
      if "x \<notin> N" for v ns vs x
    proof -
      have "b_name b \<noteq> x" using True that by blast
      then show ?thesis by (cases "x \<in> set ns") (auto simp: assign_all_def map_upds_def map_add_def split: option.splits)
    qed
    then have "?Q bs (a(b_name b \<mapsto> v)) \<longleftrightarrow> ?Q bs a" for v
      by (intro quant_over_cong refl assms(1)) simp
    moreover have "{..<crd (b_sort b)} \<noteq> {}" using Cons.prems [of b] True by auto
    ultimately have "?Q (b # bs) a \<longleftrightarrow> ?Q bs a" by (simp only: step quant_over_const not_False_eq_True)
    then show ?thesis using IH True by simp
  qed
qed

text \<open>The smart constructors \<open>forall\<close> and \<open>exists\<close> build a term with the meaning of the plain
  quantifier node, also when they merge it with a nested quantifier of the same kind and drop the
  outer binders that the inner ones shadow. Dropping a binder is only sound when its sort has an
  element; the theorem needs that for the dropped binders, and for no others.\<close>

theorem quantify_correct:
  assumes "\<And>q2 bs2 body2 b b2. \<lbrakk> body = Quantified q2 bs2 body2; q = q2; b \<in> set bs; b2 \<in> set bs2;
      b_name b = b_name b2 \<rbrakk> \<Longrightarrow> 0 < tr_card tr (b_sort b)"
    and "bs = [] \<Longrightarrow> teval tr i a body \<le> 1"
  shows "teval tr i a (quantify q bs body) = teval tr i a (Quantified q bs body)"
proof (cases "bs = []")
  case True
  with assms(2) show ?thesis
    by (cases q) (auto simp: quantify_def assign_all_def of_bool_def)
next
  case bs: False
  show ?thesis
  proof (cases "\<exists>bs2 body2. body = Quantified q bs2 body2")
    case False
    with bs show ?thesis by (auto simp: quantify_def split: fterm.splits)
  next
    case True
    then obtain bs2 body2 where body: "body = Quantified q bs2 body2" by blast
    define N where "N = b_name ` set bs2"
    let ?cards = "map (\<lambda>b. tr_card tr (b_sort b))"
    let ?F = "\<lambda>a. quant_over q (tuples (?cards bs2))
        (\<lambda>vs. holds tr i (assign_all a (map b_name bs2) vs) body2)"
    have filter_eq: "filter (\<lambda>b. list_all (\<lambda>b2. b_name b \<noteq> b_name b2) bs2) bs
        = filter (\<lambda>b. b_name b \<notin> N) bs"
      by (rule filter_cong) (auto simp: N_def list_all_iff)
    have local: "?F a = ?F a'" if "\<And>x. x \<notin> N \<Longrightarrow> a x = a' x" for a a'
    proof (rule quant_over_cong)
      fix vs assume "vs \<in> tuples (?cards bs2)"
      then have "assign_all a (map b_name bs2) vs = assign_all a' (map b_name bs2) vs"
        using that by (intro assign_all_outside) (simp_all add: N_def tuples_length)
      then show "holds tr i (assign_all a (map b_name bs2) vs) body2
          \<longleftrightarrow> holds tr i (assign_all a' (map b_name bs2) vs) body2" by simp
    qed simp_all
    have split: "quant_over q (tuples (?cards (kept @ bs2)))
          (\<lambda>vs. holds tr i (assign_all a (map b_name (kept @ bs2)) vs) body2)
        \<longleftrightarrow> quant_over q (tuples (?cards kept)) (\<lambda>vs. ?F (assign_all a (map b_name kept) vs))" for kept
      unfolding map_append quant_over_tuples_append
      by (intro quant_over_cong refl) (simp add: assign_all_append tuples_length)
    have "quant_over q (tuples (?cards (filter (\<lambda>b. b_name b \<notin> N) bs)))
          (\<lambda>vs. ?F (assign_all a (map b_name (filter (\<lambda>b. b_name b \<notin> N) bs)) vs))
        \<longleftrightarrow> quant_over q (tuples (?cards bs)) (\<lambda>vs. ?F (assign_all a (map b_name bs) vs))"
      by (rule quantify_shadow [OF local]) (use assms(1) [OF body refl] in \<open>auto simp: N_def\<close>)
    then show ?thesis
      using bs split [of "filter (\<lambda>b. b_name b \<notin> N) bs"]
      by (simp add: quantify_def body filter_eq of_bool_def)
  qed
qed

definition ex_nested :: fterm where
  "ex_nested = Quantified Exists
     [binder_new ''x'' (Uninterpreted ''T1''), binder_new ''z'' (Uninterpreted ''T2'')]
     (BinOp Equals (Id ''x'') (Id ''c1''))"

theorem quantify_correct_witness:
  "quantify Exists [binder_new ''x'' (Uninterpreted ''T2''), binder_new ''y'' (Uninterpreted ''T1'')]
     ex_nested
   = Quantified Exists [binder_new ''y'' (Uninterpreted ''T1''), binder_new ''x'' (Uninterpreted ''T1''),
       binder_new ''z'' (Uninterpreted ''T2'')] (BinOp Equals (Id ''x'') (Id ''c1''))
   \<and> teval (model_trace ex_model) 0 Map.empty (quantify Exists
       [binder_new ''x'' (Uninterpreted ''T2''), binder_new ''y'' (Uninterpreted ''T1'')] ex_nested)
     = teval (model_trace ex_model) 0 Map.empty (Quantified Exists
       [binder_new ''x'' (Uninterpreted ''T2''), binder_new ''y'' (Uninterpreted ''T1'')] ex_nested)"
proof -
  have card: "0 < tr_card (model_trace ex_model) (Uninterpreted ''T2'')" 
    "0 < tr_card (model_trace ex_model) (Uninterpreted ''T1'')" by code_simp+
  have "teval (model_trace ex_model) 0 Map.empty (quantify Exists
       [binder_new ''x'' (Uninterpreted ''T2''), binder_new ''y'' (Uninterpreted ''T1'')] ex_nested)
     = teval (model_trace ex_model) 0 Map.empty (Quantified Exists
       [binder_new ''x'' (Uninterpreted ''T2''), binder_new ''y'' (Uninterpreted ''T1'')] ex_nested)"
    by (rule quantify_correct) (use card in \<open>auto simp: binder_new_def\<close>)
  moreover have "quantify Exists
      [binder_new ''x'' (Uninterpreted ''T2''), binder_new ''y'' (Uninterpreted ''T1'')] ex_nested
    = Quantified Exists [binder_new ''y'' (Uninterpreted ''T1''), binder_new ''x'' (Uninterpreted ''T1''),
       binder_new ''z'' (Uninterpreted ''T2'')] (BinOp Equals (Id ''x'') (Id ''c1''))"
    by code_simp
  ultimately show ?thesis by simp
qed

end
