(* ===== verification/Fly_Prime.thy ===== *)
theory Fly_Prime
  imports Fly_Smart
begin

text \<open>
  Model of \<^verbatim>\<open>fly/src/term/prime.rs\<close>: pushing primes down to the symbols. The set of bound names
  is a set of strings; \<open>with_next\<close> recurses exactly as the source does. The theorems: the result
  means the same as the input at the shifted time point, has primes only on mutable free names,
  and is a fixed point of the normalisation.
\<close>

fun with_primes :: "fterm \<Rightarrow> nat \<Rightarrow> fterm" where
  "with_primes t 0 = t"
| "with_primes t (Suc n) = with_primes (UnaryOp Prime t) n"

fun with_next :: "signature \<Rightarrow> fterm \<Rightarrow> string set \<Rightarrow> nat \<Rightarrow> fterm" where
  "with_next sig (Id s) bound next =
     with_primes (Id s) (if s \<in> bound \<or> is_immutable sig s then 0 else next)"
| "with_next sig (App f p xs) bound next =
     App f (if is_immutable sig f then 0 else p + next) (map (\<lambda>t. with_next sig t bound next) xs)"
| "with_next sig (Literal b) bound next = Literal b"
| "with_next sig (UnaryOp op t) bound next =
     (if op = Prime then with_next sig t bound (Suc next)
      else UnaryOp op (with_next sig t bound next))"
| "with_next sig (BinOp op lhs rhs) bound next =
     BinOp op (with_next sig lhs bound next) (with_next sig rhs bound next)"
| "with_next sig (NAryOp op xs) bound next =
     NAryOp op (map (\<lambda>t. with_next sig t bound next) xs)"
| "with_next sig (Ite c t e) bound next =
     Ite (with_next sig c bound next) (with_next sig t bound next) (with_next sig e bound next)"
| "with_next sig (Quantified q binders body) bound next =
     Quantified q binders (with_next sig body (bound \<union> set (map b_name binders)) next)"

text \<open>\<open>clear_next\<close> panics on \<open>Ite\<close>.\<close>

fun clear_next :: "fterm \<Rightarrow> fterm option" where
  "clear_next (UnaryOp op t) =
     (if op = Prime then clear_next t else map_option (UnaryOp op) (clear_next t))"
| "clear_next (App f p xs) = map_option (App f 0) (those (map clear_next xs))"
| "clear_next (Literal b) = Some (Literal b)"
| "clear_next (BinOp op lhs rhs) =
     (case clear_next lhs of None \<Rightarrow> None | Some l \<Rightarrow>
      (case clear_next rhs of None \<Rightarrow> None | Some r \<Rightarrow> Some (BinOp op l r)))"
| "clear_next (NAryOp op ts) = map_option (NAryOp op) (those (map clear_next ts))"
| "clear_next (Quantified q binders body) =
     map_option (Quantified q binders) (clear_next body)"
| "clear_next (Id s) = Some (Id s)"
| "clear_next (Ite c t e) = None"

text \<open>The methods of \<open>struct Next\<close>, whose only field is the signature.\<close>

definition next_normalize :: "signature \<Rightarrow> fterm \<Rightarrow> fterm" where
  "next_normalize sig t = with_next sig t {} 0"

definition next_prime :: "signature \<Rightarrow> fterm \<Rightarrow> fterm" where
  "next_prime sig t = next_normalize sig (UnaryOp Prime t)"

section \<open>Meaning\<close>

fun no_past :: "fterm \<Rightarrow> bool" where
  "no_past (App f p xs) \<longleftrightarrow> list_all no_past xs"
| "no_past (UnaryOp op t) \<longleftrightarrow> op \<noteq> Previous \<and> no_past t"
| "no_past (BinOp op x y) \<longleftrightarrow> op \<noteq> Since \<and> no_past x \<and> no_past y"
| "no_past (NAryOp op ts) \<longleftrightarrow> list_all no_past ts"
| "no_past (Ite c t e) \<longleftrightarrow> no_past c \<and> no_past t \<and> no_past e"
| "no_past (Quantified q bs body) \<longleftrightarrow> no_past body"
| "no_past (Literal b) \<longleftrightarrow> True"
| "no_past (Id x) \<longleftrightarrow> True"

text \<open>Immutable symbols keep their value along a trace.\<close>

definition immutable_frame :: "signature \<Rightarrow> fo_trace \<Rightarrow> bool" where
  "immutable_frame sig tr \<longleftrightarrow> (\<forall>f i j. is_immutable sig f \<longrightarrow> tr_fun tr i f = tr_fun tr j f)"

lemma teval_with_primes: "teval tr i a (with_primes t n) = teval tr (i + n) a t"
  by (induction n arbitrary: t) simp_all

lemma all_ge_shift: "(\<forall>j\<ge>i. P (j + n)) \<longleftrightarrow> (\<forall>j\<ge>i + n. P j)" for i n :: nat
  by (metis add_le_cancel_right le_add_diff_inverse2 le_add2 le_trans)

lemma ex_ge_shift: "(\<exists>j\<ge>i. P (j + n)) \<longleftrightarrow> (\<exists>j\<ge>i + n. P j)" for i n :: nat
  using all_ge_shift [of i "\<lambda>j. \<not> P j" n] by blast

lemma until_shift:
  "(\<exists>k\<ge>i. Q (k + n) \<and> (\<forall>j. i \<le> j \<and> j < k \<longrightarrow> P (j + n)))
   \<longleftrightarrow> (\<exists>k\<ge>i + n. Q k \<and> (\<forall>j. i + n \<le> j \<and> j < k \<longrightarrow> P j))" for i n :: nat
proof -
  have "(\<forall>j. i \<le> j \<and> j < k \<longrightarrow> P (j + n)) \<longleftrightarrow> (\<forall>j. i + n \<le> j \<and> j < k + n \<longrightarrow> P j)" for k
    using all_ge_shift [of i "\<lambda>j. j < k + n \<longrightarrow> P j" n] by auto
  then show ?thesis
    using ex_ge_shift [of i "\<lambda>k. Q k \<and> (\<forall>j. i + n \<le> j \<and> j < k \<longrightarrow> P j)" n] by simp
qed

lemma dom_assign_all:
  "length vs = length ns \<Longrightarrow> dom (assign_all a ns vs) = dom a \<union> set ns"
  by (auto simp: assign_all_def dom_map_upds)

lemma immutable_frameD:
  "immutable_frame sig tr \<Longrightarrow> is_immutable sig f \<Longrightarrow> tr_fun tr i f = tr_fun tr j f"
  by (auto simp: immutable_frame_def)

lemma teval_with_next:
  assumes frame: "immutable_frame sig tr"
  shows "no_past t \<Longrightarrow> teval tr i a (with_next sig t (dom a) n) = teval tr (i + n) a t"
proof (induction t arbitrary: i a n)
  case (Id x)
  show ?case
    by (cases "x \<in> dom a")
      (auto simp: teval_with_primes immutable_frameD [OF frame, of x i "i + n"] split: option.splits)
next
  case (App f p xs)
  have "map (teval tr i a) (map (\<lambda>t. with_next sig t (dom a) n) xs) = map (teval tr (i + n) a) xs"
    using App by (auto simp: list_all_iff)
  then show ?case
    by (simp add: add_ac comp_def immutable_frameD [OF frame, of f i "i + (n + p)"] cong: map_cong)
next
  case (UnaryOp op t)
  have IH: "teval tr j a (with_next sig t (dom a) k) = teval tr (j + k) a t" for j k
    using UnaryOp by simp
  show ?case
    using UnaryOp.prems all_ge_shift [of i "\<lambda>j. holds tr j a t" n]
      ex_ge_shift [of i "\<lambda>j. holds tr j a t" n]
    by (cases op) (simp_all add: IH)
next
  case (BinOp op x y)
  have IH: "teval tr j a (with_next sig x (dom a) n) = teval tr (j + n) a x"
    "teval tr j a (with_next sig y (dom a) n) = teval tr (j + n) a y" for j
    using BinOp by simp_all
  show ?case
    using BinOp.prems until_shift [of i "\<lambda>k. holds tr k a y" n "\<lambda>j. holds tr j a x"]
    by (cases op) (simp_all add: IH)
next
  case (NAryOp op ts)
  then show ?case by (cases op) (simp_all add: list_all_iff)
next
  case (Quantified q bs body)
  have "teval tr i (assign_all a (map b_name bs) vs)
        (with_next sig body (dom a \<union> b_name ` set bs) n)
      = teval tr (i + n) (assign_all a (map b_name bs) vs) body"
    if "vs \<in> tuples (map (\<lambda>b. tr_card tr (b_sort b)) bs)" for vs
    using Quantified.IH [of i "assign_all a (map b_name bs) vs" n] Quantified.prems
      dom_assign_all [of vs "map b_name bs" a] tuples_length [OF that] by simp
  then show ?case by (simp cong: quant_over_cong)
qed simp_all

text \<open>C31: on traces that keep immutable symbols fixed, normalising primes does not change the
  meaning of a closed term without past operators, and \<open>prime\<close> shifts it by one step. (The two
  past operators do not commute with primes at time 0.)\<close>

theorem next_normalize_correct:
  assumes "immutable_frame sig tr" and "no_past t"
  shows "teval tr i Map.empty (next_normalize sig t) = teval tr i Map.empty t
    \<and> teval tr i Map.empty (next_prime sig t) = teval tr (Suc i) Map.empty t"
  using teval_with_next [OF assms, of i Map.empty] by (simp add: next_normalize_def next_prime_def)

text \<open>A two-relation signature, one relation mutable, and a trace in which it alternates.\<close>

definition pq_sig :: signature where
  "pq_sig = \<lparr>sig_sorts = [],
     sig_relations = [\<lparr>rd_mutable = True, rd_name = ''p'', rd_args = [], rd_sort = Bool\<rparr>,
                      \<lparr>rd_mutable = False, rd_name = ''q'', rd_args = [], rd_sort = Bool\<rparr>]\<rparr>"

definition pq_trace :: fo_trace where
  "pq_trace = \<lparr>tr_card = (\<lambda>_. 2), tr_fun = (\<lambda>i f vs. if f = ''p'' then i mod 2 else 1)\<rparr>"

lemma pq_frame: "immutable_frame pq_sig pq_trace"
proof -
  have "f \<noteq> ''p''" if "is_immutable pq_sig f" for f
  proof
    assume "f = ''p''"
    moreover have "\<not> is_immutable pq_sig ''p''" by code_simp
    ultimately show False using that by simp
  qed
  then show ?thesis by (auto simp: immutable_frame_def pq_trace_def fun_eq_iff)
qed

theorem next_normalize_correct_witness:
  "next_prime pq_sig (NAryOp And [Id ''p'', UnaryOp Prime (Id ''q'')])
     = NAryOp And [UnaryOp Prime (Id ''p''), Id ''q'']
   \<and> teval pq_trace 0 Map.empty (NAryOp And [UnaryOp Prime (Id ''p''), Id ''q'']) = 1
   \<and> teval pq_trace (Suc 0) Map.empty (NAryOp And [Id ''p'', UnaryOp Prime (Id ''q'')]) = 1"
proof -
  let ?t = "NAryOp And [Id ''p'', UnaryOp Prime (Id ''q'')]"
  have eq: "next_prime pq_sig ?t = NAryOp And [UnaryOp Prime (Id ''p''), Id ''q'']" by code_simp
  have "no_past ?t" by simp
  from next_normalize_correct [OF pq_frame this, of 0]
  have "teval pq_trace 0 Map.empty (NAryOp And [UnaryOp Prime (Id ''p''), Id ''q''])
      = teval pq_trace (Suc 0) Map.empty ?t" by (simp only: eq)
  moreover have "teval pq_trace (Suc 0) Map.empty ?t = 1" by (simp add: pq_trace_def)
  ultimately show ?thesis using eq by simp
qed

section \<open>Normal form\<close>

fun primed_name :: "signature \<Rightarrow> string set \<Rightarrow> fterm \<Rightarrow> bool" where
  "primed_name sig bound (UnaryOp op t) \<longleftrightarrow> op = Prime \<and> primed_name sig bound t"
| "primed_name sig bound (Id s) \<longleftrightarrow> s \<notin> bound \<and> \<not> is_immutable sig s"
| "primed_name sig bound _ \<longleftrightarrow> False"

text \<open>Primes occur only on mutable names that are not bound, and immutable functions are not
  primed.\<close>

fun primes_at_names :: "signature \<Rightarrow> string set \<Rightarrow> fterm \<Rightarrow> bool" where
  "primes_at_names sig bound (UnaryOp op t) \<longleftrightarrow>
     (if op = Prime then primed_name sig bound t else primes_at_names sig bound t)"
| "primes_at_names sig bound (App f p xs) \<longleftrightarrow>
     (is_immutable sig f \<longrightarrow> p = 0) \<and> list_all (primes_at_names sig bound) xs"
| "primes_at_names sig bound (BinOp op x y) \<longleftrightarrow>
     primes_at_names sig bound x \<and> primes_at_names sig bound y"
| "primes_at_names sig bound (NAryOp op ts) \<longleftrightarrow> list_all (primes_at_names sig bound) ts"
| "primes_at_names sig bound (Ite c t e) \<longleftrightarrow>
     primes_at_names sig bound c \<and> primes_at_names sig bound t \<and> primes_at_names sig bound e"
| "primes_at_names sig bound (Quantified q bs body) \<longleftrightarrow>
     primes_at_names sig (bound \<union> set (map b_name bs)) body"
| "primes_at_names sig bound (Literal b) \<longleftrightarrow> True"
| "primes_at_names sig bound (Id s) \<longleftrightarrow> True"

lemma with_primes_Prime: "with_primes (UnaryOp Prime t) n = UnaryOp Prime (with_primes t n)"
  by (induction n arbitrary: t) simp_all

lemma primed_name_with_primes:
  "\<lbrakk> s \<notin> bound; \<not> is_immutable sig s \<rbrakk> \<Longrightarrow> primed_name sig bound (with_primes (Id s) n)"
  by (induction n) (simp_all add: with_primes_Prime)

lemma primes_at_names_with_next: "primes_at_names sig bound (with_next sig t bound n)"
proof (induction t arbitrary: bound n)
  case (Id s)
  then show ?case
    by (cases n) (simp_all add: with_primes_Prime primed_name_with_primes)
next
  case (App f p xs)
  then show ?case by (simp add: list_all_iff)
next
  case (NAryOp op ts)
  then show ?case by (simp add: list_all_iff)
qed simp_all

lemma with_next_primed_name:
  "primed_name sig bound t \<Longrightarrow> with_next sig t bound n = with_primes t n"
  by (induction t arbitrary: n) auto

lemma with_next_normal: "primes_at_names sig bound t \<Longrightarrow> with_next sig t bound 0 = t"
proof (induction t arbitrary: bound)
  case (App f p xs)
  then show ?case by (auto simp: list_all_iff intro: map_idI)
next
  case (NAryOp op ts)
  then show ?case by (auto simp: list_all_iff intro: map_idI)
next
  case (UnaryOp op t)
  then show ?case by (auto simp: with_next_primed_name split: if_splits)
qed simp_all

text \<open>C32: the normal form: after \<open>normalize\<close> and \<open>prime\<close>, primes occur only on mutable names that no
  quantifier binds, and normalising again changes nothing.\<close>

theorem next_normalize_normal_form:
  "primes_at_names sig {} (next_normalize sig t)
   \<and> primes_at_names sig {} (next_prime sig t)
   \<and> next_normalize sig (next_normalize sig t) = next_normalize sig t
   \<and> next_normalize sig (next_prime sig t) = next_prime sig t"
  by (simp add: next_prime_def next_normalize_def primes_at_names_with_next with_next_normal)

end
