(* ===== verification/Fly_Fo.thy ===== *)
theory Fly_Fo
  imports Fly_Prime
begin

text \<open>
  Model of \<^verbatim>\<open>fly/src/term/fo.rs\<close>: how many steps into the future a term looks. The computation
  panics on past operators it meets (not on those below a temporal operator, which it does not
  enter).
\<close>

datatype unrolling = Finite nat | Infinite

fun unrolling_is_finite :: "unrolling \<Rightarrow> bool" where
  "unrolling_is_finite (Finite n) = True"
| "unrolling_is_finite Infinite = False"

fun unrolling_add :: "unrolling \<Rightarrow> unrolling \<Rightarrow> unrolling" where
  "unrolling_add Infinite _ = Infinite"
| "unrolling_add _ Infinite = Infinite"
| "unrolling_add (Finite n) (Finite m) = Finite (n + m)"

fun unrolling_bitand :: "unrolling \<Rightarrow> unrolling \<Rightarrow> unrolling" where
  "unrolling_bitand Infinite _ = Infinite"
| "unrolling_bitand _ Infinite = Infinite"
| "unrolling_bitand (Finite n) (Finite m) = Finite (max n m)"

definition bitand_p :: "unrolling option \<Rightarrow> unrolling option \<Rightarrow> unrolling option" where
  "bitand_p x y = (case x of None \<Rightarrow> None | Some u \<Rightarrow>
     (case y of None \<Rightarrow> None | Some v \<Rightarrow> Some (unrolling_bitand u v)))"

definition max_unrolling :: "unrolling option list \<Rightarrow> unrolling option" where
  "max_unrolling us = foldl bitand_p (Some (Finite 0)) us"

fun term_unrolling :: "fterm \<Rightarrow> unrolling option" where
  "term_unrolling (Literal b) = Some (Finite 0)"
| "term_unrolling (Id s) = Some (Finite 0)"
| "term_unrolling (App f p xs) = bitand_p (Some (Finite p)) (max_unrolling (map term_unrolling xs))"
| "term_unrolling (UnaryOp Always t) = Some Infinite"
| "term_unrolling (UnaryOp Eventually t) = Some Infinite"
| "term_unrolling (UnaryOp NotOp t) = term_unrolling t"
| "term_unrolling (UnaryOp Prime t) = map_option (unrolling_add (Finite 1)) (term_unrolling t)"
| "term_unrolling (UnaryOp Next t) = map_option (unrolling_add (Finite 1)) (term_unrolling t)"
| "term_unrolling (UnaryOp Previous t) = None"
| "term_unrolling (BinOp Since lhs rhs) = None"
| "term_unrolling (BinOp Until lhs rhs) = Some Infinite"
| "term_unrolling (BinOp op lhs rhs) = bitand_p (term_unrolling lhs) (term_unrolling rhs)"
| "term_unrolling (NAryOp op ts) = max_unrolling (map term_unrolling ts)"
| "term_unrolling (Ite c t e) = bitand_p (bitand_p (term_unrolling c) (term_unrolling t)) (term_unrolling e)"
| "term_unrolling (Quantified q bs body) = term_unrolling body"

text \<open>\<open>FirstOrder::new\<close> (panics unless finite) and \<open>FirstOrder::unrolling\<close>, whose \<open>Option\<close> result is
  the inner option.\<close>

definition first_order_new :: "fterm \<Rightarrow> fterm option" where
  "first_order_new t =
     (case term_unrolling t of None \<Rightarrow> None | Some u \<Rightarrow> if unrolling_is_finite u then Some t else None)"

definition first_order_unrolling :: "fterm \<Rightarrow> nat option option" where
  "first_order_unrolling t =
     map_option (\<lambda>u. case u of Finite n \<Rightarrow> Some n | Infinite \<Rightarrow> None) (term_unrolling t)"

lemma bitand_p_Finite:
  "bitand_p x y = Some (Finite n)
   \<longleftrightarrow> (\<exists>i j. x = Some (Finite i) \<and> y = Some (Finite j) \<and> n = max i j)"
proof -
  have "unrolling_bitand u v = Finite n \<longleftrightarrow> (\<exists>i j. u = Finite i \<and> v = Finite j \<and> n = max i j)"
    for u v by (cases u; cases v) auto
  then show ?thesis by (auto simp: bitand_p_def split: option.splits)
qed

lemma foldl_bitand_p_Finite:
  "foldl bitand_p x us = Some (Finite n)
   \<Longrightarrow> (\<exists>k\<le>n. x = Some (Finite k)) \<and> (\<forall>u\<in>set us. \<exists>k\<le>n. u = Some (Finite k))"
proof (induction us arbitrary: x)
  case Nil
  then show ?case by simp
next
  case (Cons u us)
  then have "\<exists>k\<le>n. bitand_p x u = Some (Finite k)"
    and rest: "\<forall>u\<in>set us. \<exists>k\<le>n. u = Some (Finite k)" by simp_all
  then obtain i j where "x = Some (Finite i)" "u = Some (Finite j)" "max i j \<le> n"
    by (auto simp: bitand_p_Finite)
  with rest show ?case by auto
qed

lemma max_unrolling_Finite:
  "max_unrolling us = Some (Finite n) \<Longrightarrow> \<forall>u\<in>set us. \<exists>k\<le>n. u = Some (Finite k)"
  using foldl_bitand_p_Finite by (auto simp: max_unrolling_def)

lemma map_unrolling_add_Finite:
  "map_option (unrolling_add (Finite m)) x = Some (Finite n) \<longleftrightarrow> m \<le> n \<and> x = Some (Finite (n - m))"
proof -
  have "unrolling_add (Finite m) u = Finite n \<longleftrightarrow> m \<le> n \<and> u = Finite (n - m)" for u
    by (cases u) auto
  then show ?thesis by (auto simp: map_option_case split: option.splits)
qed

text \<open>Two traces agree on a window of time points, each seen from its own start.\<close>

definition same_window :: "fo_trace \<Rightarrow> nat \<Rightarrow> fo_trace \<Rightarrow> nat \<Rightarrow> nat \<Rightarrow> bool" where
  "same_window tr i tr' j n \<longleftrightarrow>
     tr_card tr = tr_card tr' \<and> (\<forall>k\<le>n. tr_fun tr (i + k) = tr_fun tr' (j + k))"

lemma same_window_mono: "same_window tr i tr' j n \<Longrightarrow> m \<le> n \<Longrightarrow> same_window tr i tr' j m"
  by (auto simp: same_window_def)

lemma same_window_shift:
  "same_window tr i tr' j (Suc n) \<Longrightarrow> same_window tr (Suc i) tr' (Suc j) n"
  unfolding same_window_def using add_Suc_shift by (metis Suc_le_mono)

lemma teval_window:
  "term_unrolling t = Some (Finite n) \<Longrightarrow> same_window tr i tr' j n \<Longrightarrow> teval tr i a t = teval tr' j a t"
proof (induction t arbitrary: n i j a)
  case (Id x)
  then show ?case by (fastforce simp: same_window_def split: option.splits)
next
  case (App f p xs)
  then obtain m where xs: "max_unrolling (map term_unrolling xs) = Some (Finite m)" and "m \<le> n" "p \<le> n"
    by (auto simp: bitand_p_Finite)
  have "map (teval tr i a) xs = map (teval tr' j a) xs"
  proof (rule map_cong [OF refl])
    fix t assume t: "t \<in> set xs"
    with max_unrolling_Finite [OF xs] obtain k where "k \<le> m" "term_unrolling t = Some (Finite k)" by auto
    with App.IH [OF t] same_window_mono [OF App.prems(2)] \<open>m \<le> n\<close>
    show "teval tr i a t = teval tr' j a t" by (meson le_trans)
  qed
  with App.prems(2) \<open>p \<le> n\<close> show ?case
    by (simp only: teval.simps) (simp add: same_window_def)
next
  case (UnaryOp op t)
  then show ?case
    using same_window_shift [of tr i tr' j "n - 1"]
    by (cases op) (auto simp: map_unrolling_add_Finite simp del: map_option_eq_Some)
next
  case (BinOp op x y)
  then obtain k l where "op \<noteq> Since" "op \<noteq> Until" and k: "term_unrolling x = Some (Finite k)" "k \<le> n"
    and l: "term_unrolling y = Some (Finite l)" "l \<le> n"
    by (cases op) (auto simp: bitand_p_Finite)
  with BinOp.IH(1) [OF k(1) same_window_mono [OF BinOp.prems(2) k(2)]]
    BinOp.IH(2) [OF l(1) same_window_mono [OF BinOp.prems(2) l(2)]]
  show ?case by (cases op) simp_all
next
  case (NAryOp op ts)
  have "teval tr i a t = teval tr' j a t" if t: "t \<in> set ts" for t
  proof -
    from NAryOp.prems(1) t obtain k where "k \<le> n" "term_unrolling t = Some (Finite k)"
      using max_unrolling_Finite [of "map term_unrolling ts" n] by fastforce
    with NAryOp.IH [OF t] same_window_mono [OF NAryOp.prems(2)] show ?thesis by blast
  qed
  then show ?case by (cases op) simp_all
next
  case (Ite c t e)
  then obtain k l m where k: "term_unrolling c = Some (Finite k)" "k \<le> n"
    and l: "term_unrolling t = Some (Finite l)" "l \<le> n" and m: "term_unrolling e = Some (Finite m)" "m \<le> n"
    by (auto simp: bitand_p_Finite)
  from Ite.IH(1) [OF k(1) same_window_mono [OF Ite.prems(2) k(2)]]
    Ite.IH(2) [OF l(1) same_window_mono [OF Ite.prems(2) l(2)]]
    Ite.IH(3) [OF m(1) same_window_mono [OF Ite.prems(2) m(2)]]
  show ?case by simp
next
  case (Quantified q bs body)
  then have "teval tr i a' body = teval tr' j a' body" for a' by simp
  with Quantified.prems(2) show ?case by (simp add: same_window_def)
qed simp_all

text \<open>C33: the number \<open>unrolling\<close> computes bounds how far a term looks ahead: if it answers
  \<open>Some n\<close>, the meaning of the term at a time point depends on that state and the \<open>n\<close> states after
  it, and on nothing else.\<close>

theorem unrolling_bounds_lookahead:
  assumes "first_order_unrolling t = Some (Some n)"
    and "tr_card tr = tr_card tr'" and "\<forall>k\<le>n. tr_fun tr (i + k) = tr_fun tr' (j + k)"
  shows "teval tr i a t = teval tr' j a t"
proof -
  from assms(1) have "term_unrolling t = Some (Finite n)"
    by (cases "term_unrolling t") (simp_all add: first_order_unrolling_def split: unrolling.split_asm)
  moreover have "same_window tr i tr' j n" using assms(2,3) by (simp add: same_window_def)
  ultimately show ?thesis by (rule teval_window)
qed

theorem unrolling_bounds_lookahead_witness:
  "first_order_unrolling (BinOp Iff (Id ''p'') (UnaryOp Prime (Id ''p''))) = Some (Some 1)
   \<and> teval pq_trace 3 Map.empty (BinOp Iff (Id ''p'') (UnaryOp Prime (Id ''p'')))
     = teval pq_trace 5 Map.empty (BinOp Iff (Id ''p'') (UnaryOp Prime (Id ''p'')))"
proof -
  let ?t = "BinOp Iff (Id ''p'') (UnaryOp Prime (Id ''p''))"
  have u: "first_order_unrolling ?t = Some (Some 1)" by code_simp
  have "(5 + k) mod 2 = (3 + k) mod (2::nat)" for k by presburger
  then have "\<forall>k\<le>1. tr_fun pq_trace (3 + k) = tr_fun pq_trace (5 + k)"
    by (simp add: pq_trace_def fun_eq_iff)
  from unrolling_bounds_lookahead [OF u refl this] u show ?thesis by blast
qed

end
