(* ===== verification/Fly_Subst.thy ===== *)
theory Fly_Subst
  imports Fly_Fo
begin

text \<open>
  Model of \<^verbatim>\<open>fly/src/term/subst.rs\<close>: substitution of terms for names in quantifier-free terms. A
  \<open>Substitution\<close> is a map. The source's last match arm panics; besides quantified terms that arm
  also catches literals.
\<close>

type_synonym substitution = "string \<rightharpoonup> fterm"

fun substitute_qf :: "fterm \<Rightarrow> substitution \<Rightarrow> fterm option" where
  "substitute_qf (Id s) sub = Some (case sub s of Some t \<Rightarrow> t | None \<Rightarrow> Id s)"
| "substitute_qf (App f p args) sub =
     map_option (App f p) (those (map (\<lambda>a. substitute_qf a sub) args))"
| "substitute_qf (UnaryOp op arg) sub = map_option (UnaryOp op) (substitute_qf arg sub)"
| "substitute_qf (BinOp op arg1 arg2) sub =
     (case substitute_qf arg1 sub of None \<Rightarrow> None | Some x \<Rightarrow>
      (case substitute_qf arg2 sub of None \<Rightarrow> None | Some y \<Rightarrow> Some (BinOp op x y)))"
| "substitute_qf (NAryOp op args) sub =
     map_option (NAryOp op) (those (map (\<lambda>a. substitute_qf a sub) args))"
| "substitute_qf (Ite c t e) sub =
     (case substitute_qf c sub of None \<Rightarrow> None | Some x \<Rightarrow>
      (case substitute_qf t sub of None \<Rightarrow> None | Some y \<Rightarrow>
       (case substitute_qf e sub of None \<Rightarrow> None | Some z \<Rightarrow> Some (Ite x y z))))"
| "substitute_qf (Literal b) sub = None"
| "substitute_qf (Quantified q bs body) sub = None"

text \<open>The terms it accepts, and those whose subterms are all read at one time point.\<close>

fun qf_no_literal :: "fterm \<Rightarrow> bool" where
  "qf_no_literal (Literal b) \<longleftrightarrow> False"
| "qf_no_literal (Id x) \<longleftrightarrow> True"
| "qf_no_literal (App f p xs) \<longleftrightarrow> list_all qf_no_literal xs"
| "qf_no_literal (UnaryOp op t) \<longleftrightarrow> qf_no_literal t"
| "qf_no_literal (BinOp op x y) \<longleftrightarrow> qf_no_literal x \<and> qf_no_literal y"
| "qf_no_literal (NAryOp op ts) \<longleftrightarrow> list_all qf_no_literal ts"
| "qf_no_literal (Ite c t e) \<longleftrightarrow> qf_no_literal c \<and> qf_no_literal t \<and> qf_no_literal e"
| "qf_no_literal (Quantified q bs body) \<longleftrightarrow> False"

fun one_instant :: "fterm \<Rightarrow> bool" where
  "one_instant (App f p xs) \<longleftrightarrow> list_all one_instant xs"
| "one_instant (UnaryOp op t) \<longleftrightarrow> op = NotOp \<and> one_instant t"
| "one_instant (BinOp op x y) \<longleftrightarrow> op \<noteq> Until \<and> op \<noteq> Since \<and> one_instant x \<and> one_instant y"
| "one_instant (NAryOp op ts) \<longleftrightarrow> list_all one_instant ts"
| "one_instant (Ite c t e) \<longleftrightarrow> one_instant c \<and> one_instant t \<and> one_instant e"
| "one_instant (Quantified q bs body) \<longleftrightarrow> one_instant body"
| "one_instant (Literal b) \<longleftrightarrow> True"
| "one_instant (Id x) \<longleftrightarrow> True"

lemma those_map_eq_None_iff: "those (map f xs) = None \<longleftrightarrow> (\<exists>x\<in>set xs. f x = None)"
  by (induction xs) (auto split: option.splits)

lemma substitute_qf_None: "substitute_qf t sub = None \<longleftrightarrow> \<not> qf_no_literal t"
  by (induction t)
    (auto simp: those_map_eq_None_iff list_all_iff split: option.splits)

definition assign_subst :: "fo_trace \<Rightarrow> nat \<Rightarrow> assignment \<Rightarrow> substitution \<Rightarrow> assignment" where
  "assign_subst tr i a sub x =
     (case sub x of Some t \<Rightarrow> Some (teval tr i a t) | None \<Rightarrow> a x)"

lemma those_substD:
  assumes "those (map f xs) = Some ys"
    and "\<And>x y. x \<in> set xs \<Longrightarrow> f x = Some y \<Longrightarrow> g y = h x"
  shows "map g ys = map h xs"
proof -
  note len = those_map_SomeD(1) [OF assms(1)]
  have "g (ys ! i) = h (xs ! i)" if "i < length xs" for i
    using assms(2) that those_map_SomeD(2) [OF assms(1) that] by simp
  then show ?thesis by (simp add: list_eq_iff_nth_eq len)
qed

lemma teval_substitute_qf:
  assumes "substitute_qf t sub = Some t'" and "one_instant t"
  shows "teval tr i a t' = teval tr i (assign_subst tr i a sub) t"
  using assms
proof (induction t arbitrary: t')
  case (Id x)
  then show ?case by (auto simp: assign_subst_def split: option.splits)
next
  case (App f p xs)
  then obtain ys where ys: "those (map (\<lambda>a. substitute_qf a sub) xs) = Some ys"
    and t': "t' = App f p ys" by auto
  have "map (teval tr i a) ys = map (teval tr i (assign_subst tr i a sub)) xs"
    using App.IH App.prems(2) by (intro those_substD [OF ys]) (simp add: list_all_iff)
  then show ?case unfolding t' by (simp only: teval.simps)
next
  case (NAryOp op ts)
  then obtain ys where ys: "those (map (\<lambda>a. substitute_qf a sub) ts) = Some ys"
    and t': "t' = NAryOp op ys" by auto
  have "map (teval tr i a) ys = map (teval tr i (assign_subst tr i a sub)) ts"
    using NAryOp.IH NAryOp.prems(2) by (intro those_substD [OF ys]) (simp add: list_all_iff)
  from this [THEN arg_cong, of set] have "teval tr i a ` set ys
      = teval tr i (assign_subst tr i a sub) ` set ts" by simp
  then have "(\<forall>y\<in>set ys. holds tr i a y) \<longleftrightarrow> (\<forall>t\<in>set ts. holds tr i (assign_subst tr i a sub) t)"
    and "(\<exists>y\<in>set ys. holds tr i a y) \<longleftrightarrow> (\<exists>t\<in>set ts. holds tr i (assign_subst tr i a sub) t)"
    by (metis (no_types, lifting) image_iff)+
  then show ?case unfolding t' by (cases op) simp_all
next
  case (BinOp op x y)
  then show ?case by (cases op) (auto split: option.splits)
qed (auto split: option.splits)

text \<open>C36: substitution in quantifier-free terms: it returns exactly on the quantifier-free terms
  without literals (on a literal the code panics, which its documentation does not say). When the term is about
  one instant (\<open>one_instant\<close>: no temporal operators and no primes as operators; primes of relation symbols are
  allowed), the meaning of the result is the meaning of the term under the assignment that gives every
  substituted name the value of its replacement at that instant.\<close>

theorem substitute_qf_correct:
  shows "(substitute_qf t sub = None \<longleftrightarrow> \<not> qf_no_literal t)
    \<and> (\<forall>t'. one_instant t \<longrightarrow> substitute_qf t sub = Some t' \<longrightarrow>
          teval tr i a t' = teval tr i (assign_subst tr i a sub) t)"
  using substitute_qf_None [of t sub] teval_substitute_qf by auto

theorem substitute_qf_correct_witness:
  "substitute_qf (BinOp Equals (Id ''x'') (Id ''c1'')) [''x'' \<mapsto> Id ''y'']
     = Some (BinOp Equals (Id ''y'') (Id ''c1''))
   \<and> substitute_qf (Literal True) Map.empty = None
   \<and> teval (model_trace ex_model) 0 [''y'' \<mapsto> 1] (BinOp Equals (Id ''y'') (Id ''c1''))
     = teval (model_trace ex_model) 0
         (assign_subst (model_trace ex_model) 0 [''y'' \<mapsto> 1] [''x'' \<mapsto> Id ''y''])
         (BinOp Equals (Id ''x'') (Id ''c1''))"
proof -
  have one: "one_instant (BinOp Equals (Id ''x'') (Id ''c1''))" "one_instant (Literal True)"
    by simp_all
  have "substitute_qf (BinOp Equals (Id ''x'') (Id ''c1'')) [''x'' \<mapsto> Id ''y'']
     = Some (BinOp Equals (Id ''y'') (Id ''c1''))" by simp
  with substitute_qf_correct [of "BinOp Equals (Id ''x'') (Id ''c1'')" "[''x'' \<mapsto> Id ''y'']" "model_trace ex_model" 0 "[''y'' \<mapsto> 1]"]
    substitute_qf_correct [of "Literal True" Map.empty] one
  show ?thesis by simp
qed

end
