(* ===== verification/Fly_Cnf.thy ===== *)
theory Fly_Cnf
  imports Fly_Subst
begin

text \<open>
  Model of \<^verbatim>\<open>fly/src/term/cnf.rs\<close>: conjunctive normal form. The checks \<open>not_and\<close>,
  \<open>flat_disjunction\<close> and \<open>cnf\<close> return or panic; they are predicates that say that they return.
\<close>

section \<open>Definitions\<close>

definition not_and :: "fterm \<Rightarrow> bool" where
  "not_and t = (case t of NAryOp op ts \<Rightarrow> op \<noteq> And | _ \<Rightarrow> True)"

definition flat_disjunction :: "fterm \<Rightarrow> bool" where
  "flat_disjunction t =
     (case t of NAryOp op terms \<Rightarrow> op = And \<and> list_all not_and terms | _ \<Rightarrow> False)"

definition cnf :: "fterm \<Rightarrow> bool" where
  "cnf t =
     (case t of
        NAryOp _ _ \<Rightarrow> flat_disjunction t
      | UnaryOp op t2 \<Rightarrow> op = Always \<and> flat_disjunction t2
      | _ \<Rightarrow> False)"

fun get_always :: "fterm \<Rightarrow> fterm option" where
  "get_always (UnaryOp op t) =
     (if op = Always
      then Some (case get_always t of Some body \<Rightarrow> body | None \<Rightarrow> t)
      else None)"
| "get_always _ = None"

fun conjuncts :: "fterm \<Rightarrow> fterm list" where
  "conjuncts (NAryOp op ts) = (if op = And then concat (map conjuncts ts) else [NAryOp op ts])"
| "conjuncts t = [t]"

fun cartesian_product :: "'a list list \<Rightarrow> 'a list list" where
  "cartesian_product [] = [[]]"
| "cartesian_product (v # vs) =
     concat (map (\<lambda>i. map (\<lambda>rest. i # rest) (cartesian_product vs)) v)"

text \<open>Negations are pushed towards the leaves, which may double them first; \<open>clause_cost\<close> counts
  the calls that can still follow at each polarity.\<close>

fun clause_cost :: "fterm \<Rightarrow> bool \<Rightarrow> nat" where
  "clause_cost (UnaryOp op t) n = 1 + clause_cost t (\<not> n)"
| "clause_cost (BinOp op x y) n =
     (if op = Implies
      then (if n then clause_cost x False + clause_cost y True + 7
            else clause_cost x True + clause_cost y False + 4)
      else if op = Iff
      then clause_cost x False + clause_cost x True + clause_cost y False + clause_cost y True + 24
      else 1)"
| "clause_cost (NAryOp op ts) n =
     (if n then 3 + sum_list (map (\<lambda>t. 1 + clause_cost t True) ts)
      else 1 + sum_list (map (\<lambda>t. clause_cost t False) ts))"
| "clause_cost t n = 1"

function body_to_clauses :: "fterm \<Rightarrow> bool \<Rightarrow> fterm list option" where
  "body_to_clauses (Literal b) is_negated = Some [Literal (b \<noteq> (\<not> is_negated))]"
| "body_to_clauses (UnaryOp op t) is_negated =
     (if op = NotOp then body_to_clauses t (\<not> is_negated) else None)"
| "body_to_clauses (BinOp NotEquals lhs rhs) is_negated =
     (if is_negated then Some [BinOp Equals lhs rhs] else Some [BinOp NotEquals lhs rhs])"
| "body_to_clauses (BinOp Equals lhs rhs) is_negated =
     (if \<not> is_negated then Some [BinOp Equals lhs rhs] else Some [BinOp NotEquals lhs rhs])"
| "body_to_clauses (BinOp Implies lhs rhs) is_negated =
     body_to_clauses (NAryOp Or [term_negate lhs, rhs]) is_negated"
| "body_to_clauses (BinOp Iff lhs rhs) is_negated =
     body_to_clauses
       (NAryOp And [NAryOp Or [term_negate lhs, rhs], NAryOp Or [term_negate rhs, lhs]]) is_negated"
| "body_to_clauses (BinOp Until lhs rhs) is_negated = None"
| "body_to_clauses (BinOp Since lhs rhs) is_negated = None"
| "body_to_clauses (NAryOp And terms) is_negated =
     (if is_negated then body_to_clauses (NAryOp Or (map term_negate terms)) False
      else map_option concat (those (map (\<lambda>t. body_to_clauses t False) terms)))"
| "body_to_clauses (NAryOp Or terms) is_negated =
     (if is_negated then body_to_clauses (NAryOp And (map term_negate terms)) False
      else map_option (\<lambda>sub_formulas. map (NAryOp Or) (cartesian_product sub_formulas))
             (those (map (\<lambda>t. body_to_clauses t False) terms)))"
| "body_to_clauses (Id s) is_negated = Some [if is_negated then term_negate (Id s) else Id s]"
| "body_to_clauses (App f p xs) is_negated =
     Some [if is_negated then term_negate (App f p xs) else App f p xs]"
| "body_to_clauses (Ite c t e) is_negated = None"
| "body_to_clauses (Quantified q bs body) is_negated = None"
  by pat_completeness auto
termination
  by (relation "measure (\<lambda>(t, n). clause_cost t n)")
    (auto simp: term_negate_def comp_def numeral_eq_Suc One_nat_def
      sum_list_member_less [where f = "\<lambda>t. clause_cost t False"])

definition term_to_cnf_clauses :: "fterm \<Rightarrow> fterm list option" where
  "term_to_cnf_clauses t =
     (case t of
        Quantified q binders body \<Rightarrow>
          (if q = Forall then map_option (map (Quantified Forall binders)) (body_to_clauses body False)
           else body_to_clauses t False)
      | _ \<Rightarrow> body_to_clauses t False)"

definition cnf_new :: "fterm \<Rightarrow> fterm option" where
  "cnf_new t =
     (let t = (case get_always t of
                 Some body \<Rightarrow> UnaryOp Always body
               | None \<Rightarrow> NAryOp And (conjuncts t))
      in if cnf t then Some t else None)"


section \<open>Clauses\<close>

text \<open>The terms the conversion accepts, and the shape of the clauses it returns.\<close>

fun clausal :: "fterm \<Rightarrow> bool" where
  "clausal (UnaryOp op t) \<longleftrightarrow> op = NotOp \<and> clausal t"
| "clausal (BinOp op x y) \<longleftrightarrow>
     op \<noteq> Until \<and> op \<noteq> Since \<and> (op = Implies \<or> op = Iff \<longrightarrow> clausal x \<and> clausal y)"
| "clausal (NAryOp op ts) \<longleftrightarrow> list_all clausal ts"
| "clausal (Ite c t e) \<longleftrightarrow> False"
| "clausal (Quantified q bs body) \<longleftrightarrow> False"
| "clausal t \<longleftrightarrow> True"

fun literal_free :: "fterm \<Rightarrow> bool" where
  "literal_free (Literal b) \<longleftrightarrow> False"
| "literal_free (UnaryOp op t) \<longleftrightarrow> literal_free t"
| "literal_free (BinOp op x y) \<longleftrightarrow> (op = Implies \<or> op = Iff \<longrightarrow> literal_free x \<and> literal_free y)"
| "literal_free (NAryOp op ts) \<longleftrightarrow> list_all literal_free ts"
| "literal_free t \<longleftrightarrow> True"

fun is_clause :: "fterm \<Rightarrow> bool" where
  "is_clause (NAryOp op ts) \<longleftrightarrow> op = Or \<and> list_all is_clause ts"
| "is_clause (UnaryOp op t) \<longleftrightarrow> op = NotOp \<and> (case t of Id s \<Rightarrow> True | App f p xs \<Rightarrow> True | _ \<Rightarrow> False)"
| "is_clause (BinOp op x y) \<longleftrightarrow> op = Equals \<or> op = NotEquals"
| "is_clause (Ite c t e) \<longleftrightarrow> False"
| "is_clause (Quantified q bs body) \<longleftrightarrow> False"
| "is_clause t \<longleftrightarrow> True"

lemma cartesian_product_eq: "cartesian_product vs = product_lists vs"
  by (induction vs) simp_all

lemma clausal_negate [simp]: "clausal (term_negate t) = clausal t"
  "literal_free (term_negate t) = literal_free t"
  by (simp_all add: term_negate_def)

lemma body_to_clauses_None: "body_to_clauses t n = None \<longleftrightarrow> \<not> clausal t"
proof (induction t n rule: body_to_clauses.induct)
  case (9 terms n)
  then show ?case
    by (cases n) (auto simp: those_map_eq_None_iff list_all_iff)
next
  case (10 terms n)
  then show ?case
    by (cases n) (auto simp: those_map_eq_None_iff list_all_iff)
qed auto

lemma those_map_set:
  assumes "those (map f xs) = Some ys"
  shows "set ys = {y. \<exists>x\<in>set xs. f x = Some y}"
  using assms by (induction xs arbitrary: ys) (auto split: option.splits)

lemma body_to_clauses_is_clause:
  "body_to_clauses t n = Some cs \<Longrightarrow> list_all is_clause cs"
proof (induction t n arbitrary: cs rule: body_to_clauses.induct)
  case (9 terms n)
  then show ?case
    by (cases n) (auto simp: list_all_iff dest!: those_map_set)
next
  case (10 terms n)
  show ?case
  proof (cases n)
    case True
    with 10 show ?thesis by simp
  next
    case False
    with 10(3) obtain css where css: "those (map (\<lambda>t. body_to_clauses t False) terms) = Some css"
      and cs: "cs = map (NAryOp Or) (cartesian_product css)" by auto
    have "list_all is_clause c" if "c \<in> set css" for c
      using that 10(2) [OF False] those_map_set [OF css] by blast
    then have "list_all is_clause ts" if "ts \<in> set (product_lists css)" for ts
      using that by (fastforce simp: product_lists_set list_all2_conv_all_nth list_all_iff in_set_conv_nth)
    then show ?thesis by (simp add: cs cartesian_product_eq list_all_iff)
  qed
qed (auto simp: term_negate_def split: if_splits)

lemma product_lists_ex_all:
  "(\<forall>ts\<in>set (product_lists css). \<exists>t\<in>set ts. P t) \<longleftrightarrow> (\<exists>cs\<in>set css. \<forall>c\<in>set cs. P c)"
  by (induction css) auto

lemma those_map_all_ex:
  assumes "those (map f xs) = Some yss" and "\<And>x ys. x \<in> set xs \<Longrightarrow> f x = Some ys \<Longrightarrow> A ys \<longleftrightarrow> B x"
  shows "(\<forall>ys\<in>set yss. A ys) \<longleftrightarrow> (\<forall>x\<in>set xs. B x)" "(\<exists>ys\<in>set yss. A ys) \<longleftrightarrow> (\<exists>x\<in>set xs. B x)"
proof -
  have "list_all2 (\<lambda>x ys. A ys \<longleftrightarrow> B x) xs yss"
    using those_map_option_cong [OF assms(1)] by (rule list.rel_mono_strong) (rule assms(2))
  then show "(\<forall>ys\<in>set yss. A ys) \<longleftrightarrow> (\<forall>x\<in>set xs. B x)" "(\<exists>ys\<in>set yss. A ys) \<longleftrightarrow> (\<exists>x\<in>set xs. B x)"
    by (induction rule: list_all2_induct) auto
qed

lemma holds_negated_list:
  assumes "trace_ok sig tr" "assign_ok tr \<Gamma> a" and "\<forall>t\<in>set ts. term_sort sig \<Gamma> t = Some Bool"
  shows "holds tr i a (NAryOp Or (map term_negate ts)) \<longleftrightarrow> \<not> holds tr i a (NAryOp And ts)"
    and "holds tr i a (NAryOp And (map term_negate ts)) \<longleftrightarrow> \<not> holds tr i a (NAryOp Or ts)"
proof -
  have neg: "holds tr i a (term_negate t) \<longleftrightarrow> \<not> holds tr i a t" if "t \<in> set ts" for t
    using teval_bool01 [OF assms(1,2), of t i] assms(3) that by (auto simp: term_negate_def)
  have "(\<exists>t\<in>set ts. holds tr i a (term_negate t)) \<longleftrightarrow> \<not> (\<forall>t\<in>set ts. holds tr i a t)"
    "(\<forall>t\<in>set ts. holds tr i a (term_negate t)) \<longleftrightarrow> \<not> (\<exists>t\<in>set ts. holds tr i a t)"
    using neg by auto
  then show "holds tr i a (NAryOp Or (map term_negate ts)) \<longleftrightarrow> \<not> holds tr i a (NAryOp And ts)"
    "holds tr i a (NAryOp And (map term_negate ts)) \<longleftrightarrow> \<not> holds tr i a (NAryOp Or ts)"
    by simp_all
qed

lemma body_to_clauses_holds:
  assumes ok: "trace_ok sig tr" "assign_ok tr \<Gamma> a"
  shows "\<lbrakk> body_to_clauses t n = Some cs; literal_free t; term_sort sig \<Gamma> t = Some Bool \<rbrakk>
    \<Longrightarrow> (\<forall>c\<in>set cs. holds tr i a c) \<longleftrightarrow> holds tr i a t \<noteq> n"
proof (induction t n arbitrary: cs rule: body_to_clauses.induct)
  case (9 terms n)
  have srt: "\<forall>t\<in>set terms. term_sort sig \<Gamma> t = Some Bool" using 9(5) by (auto split: if_splits)
  show ?case
  proof (cases n)
    case True
    then have "(\<forall>c\<in>set cs. holds tr i a c) \<longleftrightarrow> holds tr i a (NAryOp Or (map term_negate terms))"
      using 9(1) [OF True, of cs] 9(3,4) srt by (simp add: list_all_iff term_negate_def)
    with True holds_negated_list [OF ok srt, of i] show ?thesis by simp
  next
    case False
    with 9(3) obtain css where css: "those (map (\<lambda>t. body_to_clauses t False) terms) = Some css"
      and cs: "cs = concat css" by auto
    have "(\<forall>c\<in>set cs. holds tr i a c) \<longleftrightarrow> holds tr i a t"
      if "t \<in> set terms" and "body_to_clauses t False = Some cs" for t cs
      using 9(2) [OF False that] 9(4) srt that(1) by (simp add: list_all_iff)
    then have "(\<forall>cs\<in>set css. \<forall>c\<in>set cs. holds tr i a c) \<longleftrightarrow> (\<forall>t\<in>set terms. holds tr i a t)"
      by (rule those_map_all_ex(1) [OF css])
    with False show ?thesis by (simp add: cs)
  qed
next
  case (10 terms n)
  have srt: "\<forall>t\<in>set terms. term_sort sig \<Gamma> t = Some Bool" using 10(5) by (auto split: if_splits)
  show ?case
  proof (cases n)
    case True
    then have "(\<forall>c\<in>set cs. holds tr i a c) \<longleftrightarrow> holds tr i a (NAryOp And (map term_negate terms))"
      using 10(1) [OF True, of cs] 10(3,4) srt by (simp add: list_all_iff term_negate_def)
    with True holds_negated_list [OF ok srt, of i] show ?thesis by simp
  next
    case False
    with 10(3) obtain css where css: "those (map (\<lambda>t. body_to_clauses t False) terms) = Some css"
      and cs: "cs = map (NAryOp Or) (cartesian_product css)" by auto
    have "(\<forall>c\<in>set cs. holds tr i a c) \<longleftrightarrow> holds tr i a t"
      if "t \<in> set terms" and "body_to_clauses t False = Some cs" for t cs
      using 10(2) [OF False that] 10(4) srt that(1) by (simp add: list_all_iff)
    then have "(\<exists>cs\<in>set css. \<forall>c\<in>set cs. holds tr i a c) \<longleftrightarrow> (\<exists>t\<in>set terms. holds tr i a t)"
      by (rule those_map_all_ex(2) [OF css])
    with False show ?thesis by (simp add: cs cartesian_product_eq product_lists_ex_all)
  qed
next
  case (2 op t n)
  then have op: "op = NotOp" and srt: "term_sort sig \<Gamma> t = Some Bool"
    by (auto split: if_splits)
  with 2 have "(\<forall>c\<in>set cs. holds tr i a c) \<longleftrightarrow> holds tr i a t \<noteq> (\<not> n)" by simp
  with op teval_bool01 [OF ok srt, of i] show ?case by auto
next
  case (5 x y n)
  then have srt: "term_sort sig \<Gamma> x = Some Bool" "term_sort sig \<Gamma> y = Some Bool"
    by (auto split: if_splits)
  with 5 have "(\<forall>c\<in>set cs. holds tr i a c) \<longleftrightarrow> holds tr i a (NAryOp Or [term_negate x, y]) \<noteq> n"
    by (simp add: term_negate_def)
  with teval_bool01 [OF ok srt(1), of i] show ?case by (auto simp: term_negate_def)
next
  case (6 x y n)
  then have srt: "term_sort sig \<Gamma> x = Some Bool" "term_sort sig \<Gamma> y = Some Bool"
    by (auto split: if_splits)
  with 6 have "(\<forall>c\<in>set cs. holds tr i a c)
      \<longleftrightarrow> holds tr i a (NAryOp And [NAryOp Or [term_negate x, y], NAryOp Or [term_negate y, x]]) \<noteq> n"
    by (simp add: term_negate_def)
  with teval_bool01 [OF ok srt(1), of i] teval_bool01 [OF ok srt(2), of i] show ?case
    by (auto simp: term_negate_def)
next
  case (11 x n)
  with teval_bool01 [OF ok 11(3), of i] show ?case by (auto simp: term_negate_def)
next
  case (12 f p xs n)
  with teval_bool01 [OF ok 12(3), of i] show ?case by (auto simp: term_negate_def)
qed (auto split: if_splits)

lemma body_to_clauses_correct:
  assumes "trace_ok sig tr" and "assign_ok tr \<Gamma> a" and "term_sort sig \<Gamma> t = Some Bool"
    and "clausal t" and "literal_free t"
  shows "\<exists>cs. body_to_clauses t False = Some cs \<and> list_all is_clause cs
    \<and> ((\<forall>c\<in>set cs. holds tr i a c) \<longleftrightarrow> holds tr i a t)"
proof -
  obtain cs where cs: "body_to_clauses t False = Some cs"
    using body_to_clauses_None [of t False] assms(4) by auto
  with body_to_clauses_is_clause [OF cs]
    body_to_clauses_holds [OF assms(1,2) cs assms(5,3), of i]
  show ?thesis by auto
qed

definition clause_under :: "fterm \<Rightarrow> fterm \<Rightarrow> bool" where
  "clause_under t c =
     (case t of
        Quantified q bs body \<Rightarrow>
          (if q = Forall then (\<exists>d. c = Quantified Forall bs d \<and> is_clause d) else is_clause c)
      | _ \<Rightarrow> is_clause c)"

definition matrix :: "fterm \<Rightarrow> fterm" where
  "matrix t = (case t of Quantified q bs body \<Rightarrow> if q = Forall then body else t | _ \<Rightarrow> t)"

text \<open>C34: on well-sorted terms without literals, universally quantified or not,
  \<open>term_to_cnf_clauses\<close> returns clauses (disjunctions of possibly negated atoms, under the
  quantifier of the term) that together hold exactly where the term holds.\<close>

theorem term_to_cnf_clauses_correct:
  assumes "trace_ok sig tr" and "assign_ok tr \<Gamma> a" and "term_sort sig \<Gamma> t = Some Bool"
    and "clausal (matrix t)" and "literal_free (matrix t)"
  shows "\<exists>cs. term_to_cnf_clauses t = Some cs \<and> list_all (clause_under t) cs
    \<and> ((\<forall>c\<in>set cs. holds tr i a c) \<longleftrightarrow> holds tr i a t)"
proof (cases "\<exists>bs body. t = Quantified Forall bs body")
  case False
  then have m: "matrix t = t" and eq: "term_to_cnf_clauses t = body_to_clauses t False"
    and "clause_under t = is_clause"
    by (auto simp: matrix_def term_to_cnf_clauses_def clause_under_def fun_eq_iff
        split: fterm.splits quantifier.splits)
  with body_to_clauses_correct [OF assms(1-3), of i] assms(4,5) show ?thesis by simp
next
  case True
  then obtain bs body where t: "t = Quantified Forall bs body" by blast
  let ?G = "\<Gamma>(map b_name bs [\<mapsto>] map b_sort bs)"
  have srt: "term_sort sig ?G body = Some Bool" using assms(3) by (auto simp: t split: if_splits)
  have body: "clausal body" "literal_free body" using assms(4,5) by (simp_all add: t matrix_def)
  then obtain cs where cs: "body_to_clauses body False = Some cs"
    using body_to_clauses_None [of body False] by auto
  have each: "(\<forall>c\<in>set cs. holds tr i (assign_all a (map b_name bs) vs) c)
      \<longleftrightarrow> holds tr i (assign_all a (map b_name bs) vs) body"
    if "vs \<in> tuples (map (\<lambda>b. tr_card tr (b_sort b)) bs)" for vs
    using body_to_clauses_correct [OF assms(1) assign_ok_binders [OF assms(2) that] srt body, of i] cs
    by simp
  have "list_all (clause_under t) (map (Quantified Forall bs) cs)"
    using body_to_clauses_is_clause [OF cs] by (simp add: list_all_iff t clause_under_def)
  moreover have "(\<forall>c\<in>set (map (Quantified Forall bs) cs). holds tr i a c) \<longleftrightarrow> holds tr i a t"
    using each by (auto simp: t)
  ultimately show ?thesis by (simp add: t term_to_cnf_clauses_def cs)
qed

definition ex_cnf :: fterm where
  "ex_cnf = Quantified Forall [binder_new ''x'' (Uninterpreted ''T1'')]
     (BinOp Implies (BinOp Equals (Id ''x'') (Id ''c1''))
        (UnaryOp NotOp (NAryOp Or [App ''r1'' 0 [Id ''c2'', Id ''x''],
           BinOp NotEquals (Id ''x'') (Id ''c1'')])))"

theorem term_to_cnf_clauses_correct_witness:
  "\<exists>cs. term_to_cnf_clauses ex_cnf = Some cs \<and> length cs = 2
    \<and> ((\<forall>c\<in>set cs. holds (model_trace ex_model) 0 Map.empty c)
        \<longleftrightarrow> holds (model_trace ex_model) 0 Map.empty ex_cnf)"
proof -
  have srt: "term_sort ex_sig Map.empty ex_cnf = Some Bool" by code_simp
  have m: "clausal (matrix ex_cnf)" "literal_free (matrix ex_cnf)" by code_simp+
  have "map_option length (term_to_cnf_clauses ex_cnf) = Some 2" by code_simp
  with term_to_cnf_clauses_correct [OF ex_trace_ok assign_ok_empty srt m, of 0] show ?thesis
    by auto
qed

text \<open>Literals come out with the wrong polarity: a conjunction with the literal \<open>true\<close> turns
  into clauses that no state satisfies, and a disjunction with the literal \<open>false\<close> into clauses
  that every state satisfies.\<close>

theorem cnf_literal_inverted:
  assumes "list_all clausal ts"
  shows "\<exists>cs ds. body_to_clauses (NAryOp And (Literal True # ts)) False = Some cs
    \<and> body_to_clauses (NAryOp Or (Literal False # ts)) False = Some ds
    \<and> \<not> (\<forall>c\<in>set cs. holds tr i a c) \<and> (\<forall>d\<in>set ds. holds tr i a d)"
proof -
  obtain css where "those (map (\<lambda>t. body_to_clauses t False) ts) = Some css"
    using assms by (metis body_to_clauses_None list_all_iff not_None_eq those_map_eq_None_iff)
  then show ?thesis by (auto simp: cartesian_product_eq)
qed

theorem cnf_literal_inverted_witness:
  "body_to_clauses (NAryOp And [Literal True, Id ''p'']) False = Some [Literal False, Id ''p'']
   \<and> (\<exists>cs. body_to_clauses (NAryOp And [Literal True, Id ''p'']) False = Some cs
        \<and> \<not> (\<forall>c\<in>set cs. holds pq_trace 0 Map.empty c))"
  using cnf_literal_inverted [of "[Id ''p'']" pq_trace 0 Map.empty] by simp

section \<open>Flat conjunctions\<close>

lemma conjuncts_not_and: "list_all not_and (conjuncts t)"
  by (induction t) (auto simp: not_and_def list_all_iff)

lemma conjuncts_holds: "(\<forall>c\<in>set (conjuncts t). holds tr i a c) \<longleftrightarrow> holds tr i a t"
proof (induction t)
  case (NAryOp op ts)
  then show ?case by (cases op) auto
qed auto

lemma get_always_teval:
  "get_always t = Some body \<Longrightarrow> teval tr i a t = teval tr i a (UnaryOp Always body)"
proof (induction t arbitrary: body i)
  case (UnaryOp op t)
  then have op: "op = Always" by (auto split: if_splits)
  show ?case
  proof (cases "get_always t")
    case None
    with UnaryOp op show ?thesis by simp
  next
    case (Some b)
    with UnaryOp op have b: "body = b" by simp
    have "teval tr j a t = teval tr j a (UnaryOp Always body)" for j
      using UnaryOp.IH Some b by blast
    then show ?thesis unfolding op by (auto intro: le_trans)
  qed
qed auto

text \<open>C35: \<open>Cnf::new\<close>. A term that is not an \<open>always\<close> becomes a flat conjunction with the same
  truth. For an \<open>always\<close> term it collapses nested \<open>always\<close> operators but does not flatten the
  body, so it panics (against its documentation) unless the body is a flat conjunction already.\<close>

theorem cnf_new_correct:
  "case get_always t of
     None \<Rightarrow> \<exists>ts. cnf_new t = Some (NAryOp And ts) \<and> list_all not_and ts
       \<and> (holds tr i a (NAryOp And ts) \<longleftrightarrow> holds tr i a t)
   | Some body \<Rightarrow> cnf_new t = (if flat_disjunction body then Some (UnaryOp Always body) else None)
       \<and> teval tr i a (UnaryOp Always body) = teval tr i a t"
proof (cases "get_always t")
  case None
  have "cnf (NAryOp And (conjuncts t))"
    using conjuncts_not_and by (simp add: cnf_def flat_disjunction_def)
  with None conjuncts_not_and [of t] conjuncts_holds [of t tr i a] show ?thesis
    by (auto simp: cnf_new_def)
next
  case (Some body)
  with get_always_teval [OF Some] show ?thesis by (simp add: cnf_new_def cnf_def)
qed

end
