(* ===== verification/Fly_Transitions.thy ===== *)
theory Fly_Transitions
  imports Fly_Cnf
begin

text \<open>
  Model of \<^verbatim>\<open>fly/src/transitions.rs\<close>: the first-order transition system of a module. \<open>extract\<close>
  runs the loops of the source one after the other; each may panic (in \<open>FirstOrder::unrolling\<close>)
  or stop with an error. The theorems relate the extracted parts to the statements of the module,
  read over traces.
\<close>

section \<open>Definitions\<close>

record safety_proof =
  sf_safety :: "fterm spanned"
  sf_invariants :: "fterm spanned list"

record destructured_module =
  dm_inits :: "fterm list"
  dm_transitions :: "fterm list"
  dm_axioms :: "fterm list"
  dm_proofs :: "safety_proof list"

datatype extraction_error =
  OutOfOrderStatement thm_stmt
| AnyFuture fterm
| TooFuture fterm
| AssertWithoutAlways fterm

fun split_statements ::
  "thm_stmt list \<Rightarrow> fterm list \<Rightarrow> proof_decl list
   \<Rightarrow> extraction_error + (fterm list \<times> proof_decl list)" where
  "split_statements [] assumes asserts = Inr (assumes, asserts)"
| "split_statements (Assert p # stmts) assumes asserts =
     split_statements stmts assumes (asserts @ [p])"
| "split_statements (Assume t # stmts) assumes asserts =
     (if asserts = [] then split_statements stmts (assumes @ [t]) asserts
      else Inl (OutOfOrderStatement (Assume t)))"

text \<open>The body of the loop over the assumptions, with the three vectors it fills.\<close>

definition extract_assume ::
  "fterm \<Rightarrow> fterm list \<times> fterm list \<times> fterm list
   \<Rightarrow> (extraction_error + fterm list \<times> fterm list \<times> fterm list) option" where
  "extract_assume assume_term = (\<lambda>(inits, transitions, axioms).
     (case assume_term of
        UnaryOp Always t \<Rightarrow>
          map_option (\<lambda>u. if u = Some 0 then Inr (inits, transitions, axioms @ [t])
                        else if u = Some 1 then Inr (inits, transitions @ [t], axioms)
                        else Inl (TooFuture t))
            (first_order_unrolling t)
      | t \<Rightarrow>
          map_option (\<lambda>u. if u = Some 0 then Inr (inits @ [t], transitions, axioms)
                        else Inl (AnyFuture t))
            (first_order_unrolling t)))"

fun extract_assumes ::
  "fterm list \<Rightarrow> fterm list \<times> fterm list \<times> fterm list
   \<Rightarrow> (extraction_error + fterm list \<times> fterm list \<times> fterm list) option" where
  "extract_assumes [] acc = Some (Inr acc)"
| "extract_assumes (t # ts) acc =
     (case extract_assume t acc of
        None \<Rightarrow> None | Some (Inl e) \<Rightarrow> Some (Inl e) | Some (Inr acc') \<Rightarrow> extract_assumes ts acc')"

definition extract_safety :: "fterm \<Rightarrow> (extraction_error + fterm) option" where
  "extract_safety assertion =
     (case assertion of
        UnaryOp Always t \<Rightarrow>
          map_option (\<lambda>u. if u = Some 0 then Inr t else Inl (AnyFuture t)) (first_order_unrolling t)
      | _ \<Rightarrow> Some (Inl (AssertWithoutAlways assertion)))"

definition extract_invariant :: "fterm spanned \<Rightarrow> (extraction_error + fterm spanned) option" where
  "extract_invariant iv =
     map_option (\<lambda>u. if u = Some 0 then Inr iv else Inl (AnyFuture (sp_x iv)))
       (first_order_unrolling (sp_x iv))"

definition extract_proof :: "proof_decl \<Rightarrow> (extraction_error + safety_proof) option" where
  "extract_proof p =
     (case extract_safety (sp_x (p_assert p)) of
        None \<Rightarrow> None
      | Some (Inl e) \<Rightarrow> Some (Inl e)
      | Some (Inr safety) \<Rightarrow>
          (case collect_presult (map extract_invariant (p_invariants p)) of
             None \<Rightarrow> None
           | Some (Inl e) \<Rightarrow> Some (Inl e)
           | Some (Inr invs) \<Rightarrow>
               Some (Inr \<lparr>sf_safety = \<lparr>sp_x = safety, sp_span = sp_span (p_assert p)\<rparr>,
                          sf_invariants = invs\<rparr>)))"

definition normalize_proof :: "signature \<Rightarrow> safety_proof \<Rightarrow> safety_proof" where
  "normalize_proof sig p =
     \<lparr>sf_safety = (sf_safety p)\<lparr>sp_x := next_normalize sig (sp_x (sf_safety p))\<rparr>,
      sf_invariants = map (\<lambda>iv. iv\<lparr>sp_x := next_normalize sig (sp_x iv)\<rparr>) (sf_invariants p)\<rparr>"

definition extract_module :: "fmodule \<Rightarrow> (extraction_error + destructured_module) option" where
  "extract_module m =
     (case split_statements (mod_statements m) [] [] of
        Inl e \<Rightarrow> Some (Inl e)
      | Inr (assumes, asserts) \<Rightarrow>
          (case extract_assumes assumes ([], [], []) of
             None \<Rightarrow> None
           | Some (Inl e) \<Rightarrow> Some (Inl e)
           | Some (Inr (inits, transitions, axioms)) \<Rightarrow>
               (case collect_presult (map extract_proof asserts) of
                  None \<Rightarrow> None
                | Some (Inl e) \<Rightarrow> Some (Inl e)
                | Some (Inr proofs) \<Rightarrow>
                    (let norm = next_normalize (mod_signature m) in
                     Some (Inr \<lparr>dm_inits = map norm inits,
                                dm_transitions = map norm transitions,
                                dm_axioms = map norm axioms,
                                dm_proofs = map (normalize_proof (mod_signature m)) proofs\<rparr>)))))"

fun contains_mutable_relations :: "fterm \<Rightarrow> relation_decl list \<Rightarrow> bool" where
  "contains_mutable_relations (Literal b) relations = False"
| "contains_mutable_relations (Id name) relations =
     list_ex (\<lambda>r. rd_name r = name \<and> rd_mutable r) relations"
| "contains_mutable_relations (App name p xs) relations =
     (list_ex (\<lambda>r. rd_name r = name \<and> rd_mutable r) relations
      \<or> list_ex (\<lambda>x. contains_mutable_relations x relations) xs)"
| "contains_mutable_relations (UnaryOp op x) relations = contains_mutable_relations x relations"
| "contains_mutable_relations (BinOp op x y) relations =
     (contains_mutable_relations x relations \<or> contains_mutable_relations y relations)"
| "contains_mutable_relations (NAryOp op xs) relations =
     list_ex (\<lambda>x. contains_mutable_relations x relations) xs"
| "contains_mutable_relations (Ite c t e) relations =
     (contains_mutable_relations c relations \<or> contains_mutable_relations t relations
      \<or> contains_mutable_relations e relations)"
| "contains_mutable_relations (Quantified q bs body) relations =
     contains_mutable_relations body relations"

definition mutable_axioms :: "destructured_module \<Rightarrow> relation_decl list \<Rightarrow> fterm list" where
  "mutable_axioms d relations =
     filter (\<lambda>t. contains_mutable_relations t relations) (dm_axioms d)"

section \<open>The extracted parts mean the statements\<close>

lemma unrolling_no_past: "term_unrolling t = Some (Finite n) \<Longrightarrow> no_past t"
proof (induction t arbitrary: n)
  case (App f p xs)
  then show ?case
    using max_unrolling_Finite [of "map term_unrolling xs"]
    by (fastforce simp: bitand_p_Finite list_all_iff)
next
  case (UnaryOp op t)
  then show ?case
    by (cases op) (auto simp: map_unrolling_add_Finite simp del: map_option_eq_Some)
next
  case (BinOp op x y)
  then show ?case by (cases op) (auto simp: bitand_p_Finite)
next
  case (NAryOp op ts)
  then show ?case
    using max_unrolling_Finite [of "map term_unrolling ts"] by (fastforce simp: list_all_iff)
qed (auto simp: bitand_p_Finite)

lemma first_order_unrolling_eq:
  "first_order_unrolling t = Some (Some n) \<longleftrightarrow> term_unrolling t = Some (Finite n)"
  by (cases "term_unrolling t") (simp_all add: first_order_unrolling_def split: unrolling.split)

text \<open>A state formula (or a transition formula), as a closed normalised term: it looks at one
  state (or at two).\<close>

definition looks_ahead :: "nat \<Rightarrow> fterm \<Rightarrow> bool" where
  "looks_ahead n t \<longleftrightarrow> term_unrolling t = Some (Finite n)"

lemma looks_ahead_normalize:
  assumes "immutable_frame sig tr" and "looks_ahead n t"
  shows "teval tr i Map.empty (next_normalize sig t) = teval tr i Map.empty t"
  using teval_with_next [OF assms(1) unrolling_no_past, of t n i Map.empty 0] assms(2)
  by (simp add: looks_ahead_def next_normalize_def)

lemma split_statements_Inr:
  "split_statements stmts assumes asserts = Inr (assumes', asserts')
   \<Longrightarrow> (\<exists>xs ys. assumes' = assumes @ xs \<and> asserts' = asserts @ ys
       \<and> (if asserts = [] then stmts = map Assume xs @ map Assert ys
          else xs = [] \<and> stmts = map Assert ys))"
proof (induction stmts "assumes" asserts rule: split_statements.induct)
  case (2 p stmts tms prfs)
  then show ?case by fastforce
next
  case (3 t stmts tms prfs)
  then have "prfs = []" by (auto split: if_splits)
  with 3 obtain xs ys where "assumes' = tms @ t # xs" "asserts' = ys"
    "stmts = map Assume xs @ map Assert ys" by auto
  with \<open>prfs = []\<close> show ?case by (intro exI [of _ "t # xs"] exI [of _ ys]) simp
qed auto

definition assumed :: "fo_trace \<Rightarrow> fterm list \<times> fterm list \<times> fterm list \<Rightarrow> bool" where
  "assumed tr = (\<lambda>(inits, transitions, axioms).
     (\<forall>t\<in>set inits. holds tr 0 Map.empty t)
     \<and> (\<forall>t\<in>set transitions. \<forall>j. holds tr j Map.empty t)
     \<and> (\<forall>t\<in>set axioms. \<forall>j. holds tr j Map.empty t))"

definition assumed_ok :: "fterm list \<times> fterm list \<times> fterm list \<Rightarrow> bool" where
  "assumed_ok = (\<lambda>(inits, transitions, axioms).
     list_all (looks_ahead 0) inits \<and> list_all (looks_ahead 1) transitions
     \<and> list_all (looks_ahead 0) axioms)"

lemma extract_assume_Inr:
  assumes "extract_assume t acc = Some (Inr acc')"
  shows "assumed tr acc' \<longleftrightarrow> assumed tr acc \<and> holds tr 0 Map.empty t"
    and "assumed_ok acc \<Longrightarrow> assumed_ok acc'"
proof -
  obtain inits transitions axioms where acc: "acc = (inits, transitions, axioms)"
    by (cases acc) auto
  consider
    (always) u where "t = UnaryOp Always u"
      "first_order_unrolling u = Some (Some 0) \<and> acc' = (inits, transitions, axioms @ [u])
       \<or> first_order_unrolling u = Some (Some 1) \<and> acc' = (inits, transitions @ [u], axioms)"
  | (init) "first_order_unrolling t = Some (Some 0)" "acc' = (inits @ [t], transitions, axioms)"
    using assms by (auto simp: extract_assume_def acc split: fterm.splits uop.splits if_splits)
  then have "(assumed tr acc' \<longleftrightarrow> assumed tr acc \<and> holds tr 0 Map.empty t)
      \<and> (assumed_ok acc \<longrightarrow> assumed_ok acc')"
    by cases (auto simp: acc assumed_def assumed_ok_def looks_ahead_def first_order_unrolling_eq)
  then show "assumed tr acc' \<longleftrightarrow> assumed tr acc \<and> holds tr 0 Map.empty t"
    and "assumed_ok acc \<Longrightarrow> assumed_ok acc'" by auto
qed

lemma extract_assumes_Inr:
  "extract_assumes ts acc = Some (Inr acc')
   \<Longrightarrow> (assumed tr acc' \<longleftrightarrow> assumed tr acc \<and> (\<forall>t\<in>set ts. holds tr 0 Map.empty t))
     \<and> (assumed_ok acc \<longrightarrow> assumed_ok acc')"
  using extract_assume_Inr
  by (induction ts arbitrary: acc) (fastforce split: option.splits sum.splits)+

lemma extract_proof_Inr:
  assumes "extract_proof p = Some (Inr sf)"
  shows "(\<forall>tr. holds tr 0 Map.empty (sp_x (p_assert p))
           \<longleftrightarrow> (\<forall>j. holds tr j Map.empty (sp_x (sf_safety sf))))
    \<and> looks_ahead 0 (sp_x (sf_safety sf))
    \<and> sf_invariants sf = p_invariants p \<and> (\<forall>iv\<in>set (p_invariants p). looks_ahead 0 (sp_x iv))"
proof -
  from assms obtain safety invs where s: "extract_safety (sp_x (p_assert p)) = Some (Inr safety)"
    and invs: "collect_presult (map extract_invariant (p_invariants p)) = Some (Inr invs)"
    and sf: "sf = \<lparr>sf_safety = \<lparr>sp_x = safety, sp_span = sp_span (p_assert p)\<rparr>, sf_invariants = invs\<rparr>"
    by (auto simp: extract_proof_def split: option.splits sum.splits)
  from s have "sp_x (p_assert p) = UnaryOp Always safety" and "looks_ahead 0 safety"
    by (auto simp: extract_safety_def looks_ahead_def first_order_unrolling_eq
        split: fterm.splits uop.splits if_splits)
  moreover have "invs = p_invariants p \<and> (\<forall>iv\<in>set (p_invariants p). looks_ahead 0 (sp_x iv))"
  proof -
    have "list_all2 (\<lambda>iv iv'. extract_invariant iv = Some (Inr iv')) (p_invariants p) invs"
      using map_eq_map_nth [OF collect_presult_InrD [OF invs]] by (simp add: list_all2_conv_all_nth)
    then show ?thesis
      by (induction rule: list_all2_induct)
        (auto simp: extract_invariant_def looks_ahead_def first_order_unrolling_eq split: if_splits)
  qed
  ultimately show ?thesis by (simp add: sf)
qed

lemma extract_module_Inr:
  assumes "extract_module m = Some (Inr d)"
  obtains xs ys inits transitions axioms proofs
  where "mod_statements m = map Assume xs @ map Assert ys"
    and "extract_assumes xs ([], [], []) = Some (Inr (inits, transitions, axioms))"
    and "list_all2 (\<lambda>p sf. extract_proof p = Some (Inr sf)) ys proofs"
    and "dm_inits d = map (next_normalize (mod_signature m)) inits"
    and "dm_transitions d = map (next_normalize (mod_signature m)) transitions"
    and "dm_axioms d = map (next_normalize (mod_signature m)) axioms"
    and "dm_proofs d = map (normalize_proof (mod_signature m)) proofs"
proof -
  from assms obtain xs ys inits transitions axioms proofs
    where split: "split_statements (mod_statements m) [] [] = Inr (xs, ys)"
      and assumes_ok: "extract_assumes xs ([], [], []) = Some (Inr (inits, transitions, axioms))"
      and proofs_ok: "collect_presult (map extract_proof ys) = Some (Inr proofs)"
      and d: "d = \<lparr>dm_inits = map (next_normalize (mod_signature m)) inits,
        dm_transitions = map (next_normalize (mod_signature m)) transitions,
        dm_axioms = map (next_normalize (mod_signature m)) axioms,
        dm_proofs = map (normalize_proof (mod_signature m)) proofs\<rparr>"
    by (auto simp: extract_module_def Let_def split: sum.splits option.splits)
  have "list_all2 (\<lambda>p sf. extract_proof p = Some (Inr sf)) ys proofs"
    using map_eq_map_nth [OF collect_presult_InrD [OF proofs_ok]]
    by (simp add: list_all2_conv_all_nth)
  with that split_statements_Inr [OF split] assumes_ok show thesis by (simp add: d)
qed

definition statements_assumed :: "fo_trace \<Rightarrow> fmodule \<Rightarrow> bool" where
  "statements_assumed tr m \<longleftrightarrow> (\<forall>t. Assume t \<in> set (mod_statements m) \<longrightarrow> holds tr 0 Map.empty t)"

definition statements_asserted :: "fo_trace \<Rightarrow> fmodule \<Rightarrow> bool" where
  "statements_asserted tr m \<longleftrightarrow>
     (\<forall>p. Assert p \<in> set (mod_statements m) \<longrightarrow> holds tr 0 Map.empty (sp_x (p_assert p)))"

definition system_trace :: "destructured_module \<Rightarrow> fo_trace \<Rightarrow> bool" where
  "system_trace d tr \<longleftrightarrow>
     (\<forall>t\<in>set (dm_inits d). holds tr 0 Map.empty t)
     \<and> (\<forall>t\<in>set (dm_transitions d). \<forall>j. holds tr j Map.empty t)
     \<and> (\<forall>t\<in>set (dm_axioms d). \<forall>j. holds tr j Map.empty t)"

lemma extract_module_statements:
  assumes "extract_module m = Some (Inr d)" and "immutable_frame (mod_signature m) tr"
  shows "(statements_assumed tr m \<longleftrightarrow> system_trace d tr)
    \<and> (statements_asserted tr m
        \<longleftrightarrow> (\<forall>sf\<in>set (dm_proofs d). \<forall>j. holds tr j Map.empty (sp_x (sf_safety sf))))"
proof -
  from assms(1) obtain xs ys inits transitions axioms proofs
    where stmts: "mod_statements m = map Assume xs @ map Assert ys"
      and xs: "extract_assumes xs ([], [], []) = Some (Inr (inits, transitions, axioms))"
      and ys: "list_all2 (\<lambda>p sf. extract_proof p = Some (Inr sf)) ys proofs"
      and d: "dm_inits d = map (next_normalize (mod_signature m)) inits"
        "dm_transitions d = map (next_normalize (mod_signature m)) transitions"
        "dm_axioms d = map (next_normalize (mod_signature m)) axioms"
        "dm_proofs d = map (normalize_proof (mod_signature m)) proofs"
    by (rule extract_module_Inr)
  note norm = looks_ahead_normalize [OF assms(2)]
  have parts: "assumed tr (inits, transitions, axioms) \<longleftrightarrow> (\<forall>t\<in>set xs. holds tr 0 Map.empty t)"
    and ok: "assumed_ok (inits, transitions, axioms)"
    using extract_assumes_Inr [OF xs, of tr] by (simp_all add: assumed_def assumed_ok_def)
  have "system_trace d tr \<longleftrightarrow> assumed tr (inits, transitions, axioms)"
    using ok
    by (simp add: system_trace_def assumed_def assumed_ok_def d list_all_iff norm [of 0] norm [of 1])
  moreover have "statements_assumed tr m \<longleftrightarrow> (\<forall>t\<in>set xs. holds tr 0 Map.empty t)"
    by (auto simp: statements_assumed_def stmts)
  moreover have "statements_asserted tr m \<longleftrightarrow> (\<forall>p\<in>set ys. holds tr 0 Map.empty (sp_x (p_assert p)))"
    by (auto simp: statements_asserted_def stmts)
  moreover have "(\<forall>p\<in>set ys. holds tr 0 Map.empty (sp_x (p_assert p)))
      \<longleftrightarrow> (\<forall>sf\<in>set (dm_proofs d). \<forall>j. holds tr j Map.empty (sp_x (sf_safety sf)))"
    using ys unfolding d(4)
    by (induction rule: list_all2_induct)
      (auto simp: normalize_proof_def norm dest!: extract_proof_Inr)
  ultimately show ?thesis using parts by blast
qed

text \<open>C19: on traces that keep immutable symbols fixed, a module's assumptions hold exactly when
  the trace starts in the extracted initial states, satisfies the extracted axioms everywhere and
  takes extracted transitions at every step; and its assertions hold exactly when the extracted
  safety properties hold at every time point.\<close>

theorem extract_module_correct:
  assumes "extract_module m = Some (Inr d)" and "immutable_frame (mod_signature m) tr"
  shows "(statements_assumed tr m \<longleftrightarrow> system_trace d tr)
    \<and> (statements_asserted tr m
        \<longleftrightarrow> (\<forall>sf\<in>set (dm_proofs d). \<forall>j. holds tr j Map.empty (sp_x (sf_safety sf))))"
  using extract_module_statements [OF assms] .

definition pq_module :: fmodule where
  "pq_module =
     \<lparr>mod_signature = pq_sig, mod_defs = [],
      mod_statements =
        [Assume (UnaryOp NotOp (Id ''p'')),
         Assume (UnaryOp Always (Id ''q'')),
         Assume (UnaryOp Always (BinOp Iff (UnaryOp Prime (NAryOp And [Id ''p'', Id ''q'']))
                   (UnaryOp NotOp (Id ''p'')))),
         Assert \<lparr>p_assert = \<lparr>sp_x = UnaryOp Always (NAryOp Or [Id ''q'', Id ''p'']), sp_span = None\<rparr>,
                 p_invariants = [\<lparr>sp_x = Id ''q'', sp_span = None\<rparr>]\<rparr>]\<rparr>"

definition pq_destructured :: destructured_module where
  "pq_destructured =
     \<lparr>dm_inits = [UnaryOp NotOp (Id ''p'')],
      dm_transitions = [BinOp Iff (NAryOp And [UnaryOp Prime (Id ''p''), Id ''q'']) (UnaryOp NotOp (Id ''p''))],
      dm_axioms = [Id ''q''],
      dm_proofs = [\<lparr>sf_safety = \<lparr>sp_x = NAryOp Or [Id ''q'', Id ''p''], sp_span = None\<rparr>,
                    sf_invariants = [\<lparr>sp_x = Id ''q'', sp_span = None\<rparr>]\<rparr>]\<rparr>"

lemma pq_extract: "extract_module pq_module = Some (Inr pq_destructured)"
  by code_simp

theorem extract_module_correct_witness:
  "extract_module pq_module = Some (Inr pq_destructured)
   \<and> (statements_assumed pq_trace pq_module \<longleftrightarrow> system_trace pq_destructured pq_trace)
   \<and> statements_asserted pq_trace pq_module"
proof -
  have "immutable_frame (mod_signature pq_module) pq_trace" using pq_frame by (simp add: pq_module_def)
  from extract_module_correct [OF pq_extract this]
  have "statements_assumed pq_trace pq_module \<longleftrightarrow> system_trace pq_destructured pq_trace"
    and "statements_asserted pq_trace pq_module
      \<longleftrightarrow> (\<forall>sf\<in>set (dm_proofs pq_destructured). \<forall>j. holds pq_trace j Map.empty (sp_x (sf_safety sf)))"
    by simp_all
  then show ?thesis using pq_extract by (simp add: pq_destructured_def pq_trace_def)
qed

section \<open>Extracted formulas look at one state, or at two\<close>

lemma max_unrollingI:
  "\<forall>u\<in>set us. \<exists>k\<le>n. u = Some (Finite k) \<Longrightarrow> \<exists>m\<le>n. max_unrolling us = Some (Finite m)"
proof -
  have "\<forall>u\<in>set us. \<exists>k\<le>n. u = Some (Finite k) \<Longrightarrow> j \<le> n
      \<Longrightarrow> \<exists>m\<le>n. foldl bitand_p (Some (Finite j)) us = Some (Finite m)" for j
    by (induction us arbitrary: j) (auto simp: bitand_p_def)
  then show "\<forall>u\<in>set us. \<exists>k\<le>n. u = Some (Finite k) \<Longrightarrow> ?thesis"
    by (simp add: max_unrolling_def)
qed

lemma with_primes_unrolling:
  "term_unrolling t = Some (Finite m) \<Longrightarrow> term_unrolling (with_primes t n) = Some (Finite (m + n))"
  by (induction n arbitrary: t m) auto

lemma with_next_unrolling:
  "term_unrolling t = Some (Finite n)
   \<Longrightarrow> \<exists>m\<le>n + k. term_unrolling (with_next sig t B k) = Some (Finite m)"
proof (induction t arbitrary: n k B)
  case (Id x)
  then show ?case using with_primes_unrolling [of "Id x" 0] by auto
next
  case (App f p xs)
  then obtain m where xs: "max_unrolling (map term_unrolling xs) = Some (Finite m)"
    and "m \<le> n" "p \<le> n"
    by (auto simp: bitand_p_Finite)
  have "\<exists>j\<le>m + k. term_unrolling (with_next sig x B k) = Some (Finite j)" if "x \<in> set xs" for x
  proof -
    have "\<exists>j\<le>m. term_unrolling x = Some (Finite j)"
      using max_unrolling_Finite [OF xs] that by simp
    then obtain j where "j \<le> m" "term_unrolling x = Some (Finite j)" by blast
    with App.IH [OF that, of j k B] show ?thesis by (meson add_le_mono1 le_trans)
  qed
  then have "\<exists>j\<le>m + k. max_unrolling (map term_unrolling (map (\<lambda>t. with_next sig t B k) xs))
      = Some (Finite j)"
    by (intro max_unrollingI) auto
  with \<open>m \<le> n\<close> \<open>p \<le> n\<close> show ?case by (auto simp: bitand_p_def comp_def)
next
  case (UnaryOp op t)
  show ?case
  proof (cases "op = Prime")
    case True
    with UnaryOp.prems obtain j where "n = Suc j" "term_unrolling t = Some (Finite j)"
      by (cases n) (auto simp: map_unrolling_add_Finite simp del: map_option_eq_Some)
    with UnaryOp.IH [of j "Suc k" B] True show ?thesis by simp
  next
    case False
    show ?thesis
    proof (cases "op = Next")
      case True
      with UnaryOp.prems obtain j where "n = Suc j" "term_unrolling t = Some (Finite j)"
        by (cases n) (auto simp: map_unrolling_add_Finite simp del: map_option_eq_Some)
      with UnaryOp.IH [of j k B] True show ?thesis by auto
    next
      case False
      with \<open>op \<noteq> Prime\<close> UnaryOp show ?thesis by (cases op) auto
    qed
  qed
next
  case (BinOp op x y)
  then obtain i j where "op \<noteq> Since" "op \<noteq> Until" and i: "term_unrolling x = Some (Finite i)" "i \<le> n"
    and j: "term_unrolling y = Some (Finite j)" "j \<le> n"
    by (cases op) (auto simp: bitand_p_Finite)
  obtain i' j' where "term_unrolling (with_next sig x B k) = Some (Finite i')" "i' \<le> i + k"
    "term_unrolling (with_next sig y B k) = Some (Finite j')" "j' \<le> j + k"
    using BinOp.IH(1) [OF i(1), of k B] BinOp.IH(2) [OF j(1), of k B] by blast
  with i(2) j(2) \<open>op \<noteq> Since\<close> \<open>op \<noteq> Until\<close> show ?case by (cases op) (auto simp: bitand_p_def)
next
  case (NAryOp op ts)
  have "\<exists>j\<le>n + k. term_unrolling (with_next sig x B k) = Some (Finite j)" if "x \<in> set ts" for x
  proof -
    have "\<exists>j\<le>n. term_unrolling x = Some (Finite j)"
      using max_unrolling_Finite [of "map term_unrolling ts" n] NAryOp.prems that by simp
    then obtain j where "j \<le> n" "term_unrolling x = Some (Finite j)" by blast
    with NAryOp.IH [OF that, of j k B] show ?thesis by (meson add_le_mono1 le_trans)
  qed
  then have "\<exists>j\<le>n + k. max_unrolling (map term_unrolling (map (\<lambda>t. with_next sig t B k) ts))
      = Some (Finite j)"
    by (intro max_unrollingI) auto
  then show ?case by (simp add: comp_def)
next
  case (Ite c t e)
  then obtain x y z where x: "term_unrolling c = Some (Finite x)" "x \<le> n"
    and y: "term_unrolling t = Some (Finite y)" "y \<le> n" and z: "term_unrolling e = Some (Finite z)" "z \<le> n"
    by (auto simp: bitand_p_Finite)
  obtain x' y' z' where "term_unrolling (with_next sig c B k) = Some (Finite x')" "x' \<le> x + k"
    "term_unrolling (with_next sig t B k) = Some (Finite y')" "y' \<le> y + k"
    "term_unrolling (with_next sig e B k) = Some (Finite z')" "z' \<le> z + k"
    using Ite.IH(1) [OF x(1), of k B] Ite.IH(2) [OF y(1), of k B] Ite.IH(3) [OF z(1), of k B] by blast
  with x(2) y(2) z(2) show ?case by (auto simp: bitand_p_def)
qed auto

lemma looks_ahead_normalized:
  assumes "looks_ahead n t"
  shows "\<exists>m\<le>n. looks_ahead m (next_normalize sig t)"
  using with_next_unrolling [of t n 0 sig "{}"] assms
  by (simp add: looks_ahead_def next_normalize_def)

lemma extract_module_unrollings:
  assumes "extract_module m = Some (Inr d)"
  shows "(\<forall>t\<in>set (dm_inits d) \<union> set (dm_axioms d). first_order_unrolling t = Some (Some 0))
    \<and> (\<forall>t\<in>set (dm_transitions d). \<exists>n\<le>1. first_order_unrolling t = Some (Some n))
    \<and> (\<forall>sf\<in>set (dm_proofs d). \<forall>f\<in>insert (sf_safety sf) (set (sf_invariants sf)).
          first_order_unrolling (sp_x f) = Some (Some 0))"
proof -
  from assms obtain xs ys inits transitions axioms proofs
    where xs: "extract_assumes xs ([], [], []) = Some (Inr (inits, transitions, axioms))"
      and ys: "list_all2 (\<lambda>p sf. extract_proof p = Some (Inr sf)) ys proofs"
      and d: "dm_inits d = map (next_normalize (mod_signature m)) inits"
        "dm_transitions d = map (next_normalize (mod_signature m)) transitions"
        "dm_axioms d = map (next_normalize (mod_signature m)) axioms"
        "dm_proofs d = map (normalize_proof (mod_signature m)) proofs"
    by (rule extract_module_Inr)
  have norm: "\<exists>j\<le>n. first_order_unrolling (next_normalize (mod_signature m) t) = Some (Some j)"
    if "looks_ahead n t" for n t
    using looks_ahead_normalized [OF that] by (simp add: first_order_unrolling_eq looks_ahead_def)
  have "assumed_ok (inits, transitions, axioms)"
    using extract_assumes_Inr [OF xs, of undefined] by (simp add: assumed_ok_def)
  then have "\<forall>t\<in>set (dm_inits d) \<union> set (dm_axioms d). first_order_unrolling t = Some (Some 0)"
    and "\<forall>t\<in>set (dm_transitions d). \<exists>n\<le>1. first_order_unrolling t = Some (Some n)"
    using norm [of 0] norm [of 1] by (auto simp: assumed_ok_def list_all_iff d)
  moreover have "\<forall>sf\<in>set (dm_proofs d). \<forall>f\<in>insert (sf_safety sf) (set (sf_invariants sf)).
      first_order_unrolling (sp_x f) = Some (Some 0)"
    using ys unfolding d(4)
    by (induction rule: list_all2_induct)
      (use norm [of 0] in \<open>auto simp: normalize_proof_def dest!: extract_proof_Inr\<close>)
  ultimately show ?thesis by blast
qed

text \<open>C20: whatever module it is given, \<open>extract\<close> only ever returns initial conditions, axioms,
  safety properties and invariants without primes, and transitions with at most one: after
  normalisation too, the number of unrolled steps is 0, and 0 or 1.\<close>

theorem extract_module_lookahead:
  assumes "extract_module m = Some (Inr d)"
  shows "(\<forall>t\<in>set (dm_inits d) \<union> set (dm_axioms d). first_order_unrolling t = Some (Some 0))
    \<and> (\<forall>t\<in>set (dm_transitions d). \<exists>n\<le>1. first_order_unrolling t = Some (Some n))
    \<and> (\<forall>sf\<in>set (dm_proofs d). \<forall>f\<in>insert (sf_safety sf) (set (sf_invariants sf)).
          first_order_unrolling (sp_x f) = Some (Some 0))"
  using extract_module_unrollings [OF assms] .

theorem extract_module_lookahead_witness:
  "extract_module pq_module = Some (Inr pq_destructured)
   \<and> (\<exists>n\<le>1. first_order_unrolling (hd (dm_transitions pq_destructured)) = Some (Some n))
   \<and> dm_transitions pq_destructured \<noteq> []"
  using extract_module_lookahead [OF pq_extract] pq_extract by (simp add: pq_destructured_def)

lemma flatten_preserves:
  assumes "\<forall>t\<in>set ts. P t" and "\<And>op ts. P (NAryOp op ts) \<Longrightarrow> \<forall>t\<in>set ts. P t"
  shows "\<forall>t\<in>set (flatten_terms_of_op ts op). P t"
proof -
  have "\<forall>t'\<in>set (case t of NAryOp op2 ts2 \<Rightarrow> if op = op2 then ts2 else [t] | _ \<Rightarrow> [t]). P t'"
    if "P t" for t
    using that assms(2) by (cases t) (auto split: if_splits)
  with assms(1) show ?thesis by (auto simp: flatten_terms_of_op_def)
qed

lemma term_and_no_past: "\<forall>t\<in>set ts. no_past t \<Longrightarrow> no_past (term_and ts)"
  using flatten_preserves [of ts no_past And]
  by (auto simp: term_and_def term_true_def list_all_iff)

section \<open>Axioms about immutable relations\<close>

text \<open>Only mutable relations change along a trace.\<close>

definition relation_frame :: "relation_decl list \<Rightarrow> fo_trace \<Rightarrow> bool" where
  "relation_frame relations tr \<longleftrightarrow>
     (\<forall>f i j. \<not> list_ex (\<lambda>r. rd_name r = f \<and> rd_mutable r) relations \<longrightarrow> tr_fun tr i f = tr_fun tr j f)"

lemma immutable_term_constant:
  assumes frame: "relation_frame relations tr"
  shows "\<lbrakk> \<not> contains_mutable_relations t relations; no_past t \<rbrakk> \<Longrightarrow> teval tr i a t = teval tr j a t"
proof (induction t arbitrary: i j a)
  case (Id x)
  then have "tr_fun tr i x = tr_fun tr j x" using frame by (simp add: relation_frame_def)
  then show ?case by (simp split: option.split)
next
  case (App f p xs)
  have "map (teval tr i a) xs = map (teval tr j a) xs"
    by (rule map_cong [OF refl], rule App.IH) (use App.prems in \<open>auto simp: list_ex_iff list_all_iff\<close>)
  moreover have "tr_fun tr (i + p) f = tr_fun tr (j + p) f"
    using frame App.prems by (auto simp: relation_frame_def)
  ultimately show ?case by (simp only: teval.simps)
next
  case (UnaryOp op t)
  then obtain v where "teval tr k a t = v" for k by fastforce
  with UnaryOp.prems show ?case by (cases op) auto
next
  case (BinOp op x y)
  then obtain v where x: "teval tr k a x = v" for k by fastforce
  from BinOp obtain w where y: "teval tr k a y = w" for k by fastforce
  from x y BinOp.prems show ?case by (cases op) auto
next
  case (NAryOp op ts)
  have "teval tr i a t = teval tr j a t" if "t \<in> set ts" for t
    using NAryOp that by (auto simp: list_ex_iff list_all_iff)
  then show ?case by (cases op) auto
next
  case (Ite c t e)
  then have "teval tr i a c = teval tr j a c" "teval tr i a t = teval tr j a t"
    "teval tr i a e = teval tr j a e" by auto
  then show ?case by simp
next
  case (Quantified q bs body)
  then have "teval tr i a' body = teval tr j a' body" for a' by simp
  then show ?case by simp
qed simp

text \<open>The axioms that \<open>mutable_axioms\<close> leaves out need to be checked in the first state only:
  if only mutable relations change along a trace, then all axioms hold at every time point exactly
  when all axioms hold at time 0 and the mutable ones hold at every time point.\<close>

theorem mutable_axioms_suffice:
  assumes "relation_frame relations tr" and "\<forall>t\<in>set (dm_axioms d). no_past t"
  shows "(\<forall>t\<in>set (dm_axioms d). \<forall>j. holds tr j Map.empty t)
    \<longleftrightarrow> (\<forall>t\<in>set (dm_axioms d). holds tr 0 Map.empty t)
      \<and> (\<forall>t\<in>set (mutable_axioms d relations). \<forall>j. holds tr j Map.empty t)"
proof -
  have const: "holds tr j Map.empty t"
    if "t \<in> set (dm_axioms d)" "holds tr 0 Map.empty t" "\<not> contains_mutable_relations t relations" for t j
    using immutable_term_constant [OF assms(1) that(3), of j Map.empty 0] assms(2) that by simp
  show ?thesis
  proof
    assume "(\<forall>t\<in>set (dm_axioms d). holds tr 0 Map.empty t)
      \<and> (\<forall>t\<in>set (mutable_axioms d relations). \<forall>j. holds tr j Map.empty t)"
    then show "\<forall>t\<in>set (dm_axioms d). \<forall>j. holds tr j Map.empty t"
      using const unfolding mutable_axioms_def set_filter by blast
  qed (auto simp: mutable_axioms_def)
qed

theorem mutable_axioms_suffice_witness:
  "mutable_axioms pq_destructured (sig_relations pq_sig) = []
   \<and> holds pq_trace 5 Map.empty (hd (dm_axioms pq_destructured))"
proof -
  have none: "mutable_axioms pq_destructured (sig_relations pq_sig) = []" by code_simp
  have "relation_frame (sig_relations pq_sig) pq_trace"
    by (auto simp: relation_frame_def pq_sig_def pq_trace_def fun_eq_iff)
  moreover have "\<forall>t\<in>set (dm_axioms pq_destructured). no_past t" by (simp add: pq_destructured_def)
  ultimately show ?thesis
    using mutable_axioms_suffice [of "sig_relations pq_sig" pq_trace pq_destructured] none
    by (simp add: pq_destructured_def pq_trace_def)
qed

end
