(* ===== verification/Fly_Defs.thy ===== *)
theory Fly_Defs
  imports Fly_Transitions
begin

text \<open>
  Model of \<^verbatim>\<open>fly/src/defs.rs\<close>: inlining the definitions of a module. The code replaces calls in place;
  here the new term is returned. The lemmas state when the replacement keeps the meaning of a term
  in every trace that interprets the definitions: the code does not rename bound variables.
\<close>

section \<open>Definitions\<close>

fun subst_term :: "(string \<rightharpoonup> fterm) \<Rightarrow> fterm \<Rightarrow> fterm" where
  "subst_term repl (Literal b) = Literal b"
| "subst_term repl (Id s) = (case repl s of Some y \<Rightarrow> y | None \<Rightarrow> Id s)"
| "subst_term repl (App f p xs) = App f p (map (subst_term repl) xs)"
| "subst_term repl (UnaryOp op x) = UnaryOp op (subst_term repl x)"
| "subst_term repl (BinOp op lhs rhs) = BinOp op (subst_term repl lhs) (subst_term repl rhs)"
| "subst_term repl (NAryOp op args) = NAryOp op (map (subst_term repl) args)"
| "subst_term repl (Ite c t e) = Ite (subst_term repl c) (subst_term repl t) (subst_term repl e)"
| "subst_term repl (Quantified q bs body) = Quantified q bs (subst_term repl body)"

text \<open>\<open>zip\<close> stops at the shorter list, and later entries of the hash map replace earlier ones.\<close>

definition subst_binders :: "fterm \<Rightarrow> fbinder list \<Rightarrow> fterm list \<Rightarrow> fterm" where
  "subst_binders t xs ts = subst_term (Map.empty(map b_name xs [\<mapsto>] ts)) t"

text \<open>\<open>None\<close>: the assertion on the arity of a definition used without arguments fails.\<close>

fun inline_def_term :: "definition_decl \<Rightarrow> fterm \<Rightarrow> fterm option" where
  "inline_def_term def (Literal b) = Some (Literal b)"
| "inline_def_term def (Id s) =
     (if s = d_name def then (if d_binders def = [] then Some (d_body def) else None) else Some (Id s))"
| "inline_def_term def (App f p ts) =
     Some (if f = d_name def then subst_binders (d_body def) (d_binders def) ts else App f p ts)"
| "inline_def_term def (UnaryOp op x) = map_option (UnaryOp op) (inline_def_term def x)"
| "inline_def_term def (BinOp op lhs rhs) =
     (case inline_def_term def lhs of None \<Rightarrow> None | Some lhs \<Rightarrow> map_option (BinOp op lhs) (inline_def_term def rhs))"
| "inline_def_term def (NAryOp op args) = map_option (NAryOp op) (those (map (inline_def_term def) args))"
| "inline_def_term def (Ite c t e) =
     (case inline_def_term def c of None \<Rightarrow> None | Some c \<Rightarrow>
      (case inline_def_term def t of None \<Rightarrow> None | Some t \<Rightarrow> map_option (Ite c t) (inline_def_term def e)))"
| "inline_def_term def (Quantified q bs body) =
     (if list_ex (\<lambda>b. b_name b = d_name def) bs then Some (Quantified q bs body)
      else map_option (Quantified q bs) (inline_def_term def body))"

definition inline_other_def :: "definition_decl \<Rightarrow> definition_decl \<Rightarrow> definition_decl option" where
  "inline_other_def def other = map_option (\<lambda>body. other\<lparr>d_body := body\<rparr>) (inline_def_term def (d_body other))"

definition inline_spanned :: "definition_decl \<Rightarrow> fterm spanned \<Rightarrow> fterm spanned option" where
  "inline_spanned def x = map_option (\<lambda>t. x\<lparr>sp_x := t\<rparr>) (inline_def_term def (sp_x x))"

fun inline_statement :: "definition_decl \<Rightarrow> thm_stmt \<Rightarrow> thm_stmt option" where
  "inline_statement def (Assume e) = map_option Assume (inline_def_term def e)"
| "inline_statement def (Assert p) =
     (case inline_spanned def (p_assert p) of None \<Rightarrow> None | Some a \<Rightarrow>
        map_option (\<lambda>invs. Assert (p\<lparr>p_assert := a, p_invariants := invs\<rparr>))
          (those (map (inline_spanned def) (p_invariants p))))"

text \<open>Inlining one definition in the others and in the statements, then all of them in order.\<close>

definition inline_def :: "definition_decl \<Rightarrow> definition_decl list \<Rightarrow> thm_stmt list \<Rightarrow> (definition_decl list \<times> thm_stmt list) option" where
  "inline_def def defs statements =
     (case those (map (inline_other_def def) defs) of None \<Rightarrow> None | Some defs \<Rightarrow>
        map_option (Pair defs) (those (map (inline_statement def) statements)))"

function inline_all :: "definition_decl list \<Rightarrow> thm_stmt list \<Rightarrow> thm_stmt list option" where
  "inline_all [] statements = Some statements"
| "inline_all (def # defs) statements =
     (case inline_def def defs statements of None \<Rightarrow> None | Some (defs, statements) \<Rightarrow> inline_all defs statements)"
  by pat_completeness auto

lemma inline_def_length: "inline_def def defs sts = Some (defs', sts') \<Longrightarrow> length defs' = length defs"
  using those_map_SomeD(1) by (fastforce simp: inline_def_def split: option.splits)

termination inline_all
  by (relation "measure (\<lambda>(defs, sts). length defs)") (auto dest: inline_def_length)

definition inline_defs :: "fmodule \<Rightarrow> fmodule option" where
  "inline_defs m = map_option (\<lambda>sts. m\<lparr>mod_defs := [], mod_statements := sts\<rparr>) (inline_all (mod_defs m) (mod_statements m))"

section \<open>Names\<close>

fun id_names :: "fterm \<Rightarrow> string set" where
  "id_names (Literal b) = {}"
| "id_names (Id x) = {x}"
| "id_names (App f p xs) = \<Union> (set (map id_names xs))"
| "id_names (UnaryOp op x) = id_names x"
| "id_names (BinOp op x y) = id_names x \<union> id_names y"
| "id_names (NAryOp op xs) = \<Union> (set (map id_names xs))"
| "id_names (Ite c t e) = id_names c \<union> id_names t \<union> id_names e"
| "id_names (Quantified q bs body) = id_names body"

fun bound_names :: "fterm \<Rightarrow> string set" where
  "bound_names (Literal b) = {}"
| "bound_names (Id x) = {}"
| "bound_names (App f p xs) = \<Union> (set (map bound_names xs))"
| "bound_names (UnaryOp op x) = bound_names x"
| "bound_names (BinOp op x y) = bound_names x \<union> bound_names y"
| "bound_names (NAryOp op xs) = \<Union> (set (map bound_names xs))"
| "bound_names (Ite c t e) = bound_names c \<union> bound_names t \<union> bound_names e"
| "bound_names (Quantified q bs body) = set (map b_name bs) \<union> bound_names body"

lemma teval_names: "\<forall>x\<in>id_names t. a x = a' x \<Longrightarrow> teval tr i a t = teval tr i a' t"
proof (induction t arbitrary: i a a')
  case (App f p xs)
  then have "map (teval tr i a) xs = map (teval tr i a') xs" by auto
  then show ?case by (simp del: map_eq_conv)
next
  case (UnaryOp op x)
  then have "teval tr j a x = teval tr j a' x" for j by simp
  then show ?case by (cases op) simp_all
next
  case (BinOp op x y)
  then have "teval tr j a x = teval tr j a' x" "teval tr j a y = teval tr j a' y" for j by simp_all
  then show ?case by (cases op) simp_all
next
  case (NAryOp op xs)
  then have "\<forall>x\<in>set xs. teval tr i a x = teval tr i a' x" by auto
  then show ?case by (cases op) auto
next
  case (Ite c x y)
  then have "teval tr i a c = teval tr i a' c" "teval tr i a x = teval tr i a' x" "teval tr i a y = teval tr i a' y"
    by simp_all
  then show ?case by simp
next
  case (Quantified q bs body)
  have "teval tr i (assign_all a (map b_name bs) vs) body = teval tr i (assign_all a' (map b_name bs) vs) body" for vs
    by (rule Quantified.IH) (use Quantified.prems in \<open>auto simp: assign_all_def map_upds_def map_add_def split: option.split\<close>)
  then show ?case by simp
qed (simp_all split: option.split)

section \<open>Substitution\<close>

definition subst_assignment :: "fo_trace \<Rightarrow> nat \<Rightarrow> assignment \<Rightarrow> (string \<rightharpoonup> fterm) \<Rightarrow> assignment" where
  "subst_assignment tr i a repl = (\<lambda>x. case repl x of Some y \<Rightarrow> Some (teval tr i a y) | None \<Rightarrow> a x)"

text \<open>Replacements whose meaning does not depend on the time.\<close>

definition time_stable :: "fo_trace \<Rightarrow> assignment \<Rightarrow> (string \<rightharpoonup> fterm) \<Rightarrow> bool" where
  "time_stable tr a repl \<longleftrightarrow> (\<forall>x y j k. repl x = Some y \<longrightarrow> teval tr j a y = teval tr k a y)"

lemma subst_assignment_stable: "time_stable tr a repl \<Longrightarrow> subst_assignment tr j a repl = subst_assignment tr i a repl"
  unfolding subst_assignment_def time_stable_def by (rule ext) (auto split: option.split)

lemma assign_all_untouched: "x \<notin> set names \<Longrightarrow> assign_all a names vs x = a x"
  by (simp add: assign_all_def)

lemma teval_subst:
  "\<lbrakk> dom repl \<inter> bound_names t = {}; \<forall>y\<in>ran repl. id_names y \<inter> bound_names t = {}; no_temporal t \<or> time_stable tr a repl \<rbrakk>
   \<Longrightarrow> teval tr i a (subst_term repl t) = teval tr i (subst_assignment tr i a repl) t"
proof (induction t arbitrary: i a)
  case (Id x)
  then show ?case by (simp add: subst_assignment_def split: option.split)
next
  case (App f p xs)
  have "teval tr i a (subst_term repl x) = teval tr i (subst_assignment tr i a repl) x" if x: "x \<in> set xs" for x
    by (rule App.IH [OF x]) (use App.prems x in \<open>fastforce simp: list_all_iff\<close>)+
  then have "map (teval tr i a) (map (subst_term repl) xs) = map (teval tr i (subst_assignment tr i a repl)) xs" by simp
  then show ?case by (simp del: map_eq_conv)
next
  case (UnaryOp op x)
  show ?case
  proof (cases "op = NotOp")
    case True
    with UnaryOp show ?thesis by simp
  next
    case False
    with UnaryOp.prems(3) have st: "time_stable tr a repl" by simp
    have "teval tr j a (subst_term repl x) = teval tr j (subst_assignment tr i a repl) x" for j
      using UnaryOp.IH [of a j] UnaryOp.prems st subst_assignment_stable [OF st, of j i] by simp
    then show ?thesis by (cases op) simp_all
  qed
next
  case (BinOp op x y)
  show ?case
  proof (cases "op = Until \<or> op = Since")
    case True
    with BinOp.prems(3) have st: "time_stable tr a repl" by auto
    have "teval tr j a (subst_term repl x) = teval tr j (subst_assignment tr i a repl) x"
      "teval tr j a (subst_term repl y) = teval tr j (subst_assignment tr i a repl) y" for j
      using BinOp.IH(1) [of a j] BinOp.IH(2) [of a j] BinOp.prems st subst_assignment_stable [OF st, of j i] by auto
    then show ?thesis by (cases op) simp_all
  next
    case False
    with BinOp.prems BinOp.IH(1) [of a i] BinOp.IH(2) [of a i]
    have "teval tr i a (subst_term repl x) = teval tr i (subst_assignment tr i a repl) x"
      "teval tr i a (subst_term repl y) = teval tr i (subst_assignment tr i a repl) y" by auto
    with False show ?thesis by (cases op) simp_all
  qed
next
  case (NAryOp op xs)
  have "teval tr i a (subst_term repl x) = teval tr i (subst_assignment tr i a repl) x" if x: "x \<in> set xs" for x
    by (rule NAryOp.IH [OF x]) (use NAryOp.prems x in \<open>fastforce simp: list_all_iff\<close>)+
  then show ?case by (cases op) auto
next
  case (Ite c x y)
  have "teval tr i a (subst_term repl c) = teval tr i (subst_assignment tr i a repl) c"
    "teval tr i a (subst_term repl x) = teval tr i (subst_assignment tr i a repl) x"
    "teval tr i a (subst_term repl y) = teval tr i (subst_assignment tr i a repl) y"
    by (rule Ite.IH; use Ite.prems in auto)+
  then show ?case by simp
next
  case (Quantified q bs body)
  let ?names = "map b_name bs"
  have outside: "x \<notin> set ?names" if "x \<in> dom repl" for x using Quantified.prems(1) that by auto
  have same: "teval tr j (assign_all a ?names vs) y = teval tr j a y" if y: "y \<in> ran repl" for y vs j
  proof (rule teval_names, intro ballI assign_all_untouched)
    show "x \<notin> set ?names" if "x \<in> id_names y" for x using bspec [OF Quantified.prems(2) y] that by auto
  qed
  have "teval tr i (assign_all a ?names vs) (subst_term repl body)
      = teval tr i (assign_all (subst_assignment tr i a repl) ?names vs) body" for vs
  proof -
    have "subst_assignment tr i (assign_all a ?names vs) repl x = assign_all (subst_assignment tr i a repl) ?names vs x" for x
    proof (cases "repl x")
      case None
      then show ?thesis by (simp add: subst_assignment_def assign_all_def map_upds_def map_add_def split: option.split)
    next
      case (Some y)
      then have "y \<in> ran repl" "x \<in> dom repl" by (auto simp: ran_def)
      with same outside Some show ?thesis by (simp add: subst_assignment_def assign_all_untouched)
    qed
    then have eq: "subst_assignment tr i (assign_all a ?names vs) repl = assign_all (subst_assignment tr i a repl) ?names vs" ..
    have "time_stable tr (assign_all a ?names vs) repl" if "time_stable tr a repl"
      using that same unfolding time_stable_def by (metis ranI)
    with Quantified.prems have "teval tr i (assign_all a ?names vs) (subst_term repl body)
      = teval tr i (subst_assignment tr i (assign_all a ?names vs) repl) body"
      by (intro Quantified.IH) auto
    then show ?thesis by (simp only: eq)
  qed
  then show ?case by simp
qed simp

section \<open>Inlining keeps the meaning\<close>

text \<open>Terms that only mention bound variables and immutable symbols mean the same at all times.\<close>

fun rigid :: "signature \<Rightarrow> string set \<Rightarrow> fterm \<Rightarrow> bool" where
  "rigid sig B (Literal b) = True"
| "rigid sig B (Id x) = (x \<in> B \<or> is_immutable sig x)"
| "rigid sig B (App f p xs) = (is_immutable sig f \<and> list_all (rigid sig B) xs)"
| "rigid sig B (UnaryOp op x) = (op = NotOp \<and> rigid sig B x)"
| "rigid sig B (BinOp op x y) = (op \<noteq> Until \<and> op \<noteq> Since \<and> rigid sig B x \<and> rigid sig B y)"
| "rigid sig B (NAryOp op xs) = list_all (rigid sig B) xs"
| "rigid sig B (Ite c x y) = (rigid sig B c \<and> rigid sig B x \<and> rigid sig B y)"
| "rigid sig B (Quantified q bs body) = rigid sig (B \<union> set (map b_name bs)) body"

lemma teval_rigid:
  assumes frame: "immutable_frame sig tr"
  shows "rigid sig B t \<Longrightarrow> B \<subseteq> dom a \<Longrightarrow> teval tr j a t = teval tr k a t"
proof (induction t arbitrary: a B)
  case (Id x)
  then show ?case using immutable_frameD [OF frame, of x j k] by (auto split: option.split)
next
  case (App f p xs)
  then have "map (teval tr j a) xs = map (teval tr k a) xs" by (auto simp: list_all_iff)
  with App.prems immutable_frameD [OF frame, of f "j + p" "k + p"] show ?case by (simp del: map_eq_conv)
next
  case (UnaryOp op x)
  then have "op = NotOp" "teval tr j a x = teval tr k a x" by auto
  then show ?case by simp
next
  case (BinOp op x y)
  then have "teval tr j a x = teval tr k a x" "teval tr j a y = teval tr k a y" by auto
  with BinOp.prems show ?case by (cases op) simp_all
next
  case (NAryOp op xs)
  then have "\<forall>x\<in>set xs. teval tr j a x = teval tr k a x" by (auto simp: list_all_iff)
  then show ?case by (cases op) auto
next
  case (Ite c x y)
  then have "teval tr j a c = teval tr k a c" "teval tr j a x = teval tr k a x" "teval tr j a y = teval tr k a y" by auto
  then show ?case by simp
next
  case (Quantified q bs body)
  have "teval tr j (assign_all a (map b_name bs) vs) body = teval tr k (assign_all a (map b_name bs) vs) body"
    if "vs \<in> tuples (map (\<lambda>b. tr_card tr (b_sort b)) bs)" for vs
    by (rule Quantified.IH) (use Quantified.prems tuples_length [OF that] in \<open>auto simp: assign_all_def\<close>)
  then show ?case by (simp cong: quant_over_cong)
qed simp

text \<open>A trace interprets a definition when its symbol has the value of the body at every time.\<close>

definition def_holds :: "fo_trace \<Rightarrow> definition_decl \<Rightarrow> bool" where
  "def_holds tr def \<longleftrightarrow> (\<forall>i vs. length vs = length (d_binders def) \<longrightarrow>
     tr_fun tr i (d_name def) vs = teval tr i (assign_all Map.empty (map b_name (d_binders def)) vs) (d_body def))"

text \<open>No variable is captured: the variables bound around a call are not free in the body, and the
  variables bound in the body are neither parameters nor in the arguments. Arguments of a body with
  temporal operators do not change over time.\<close>

definition call_safe :: "signature \<Rightarrow> definition_decl \<Rightarrow> string set \<Rightarrow> fterm list \<Rightarrow> bool" where
  "call_safe sig def B ts \<longleftrightarrow> length ts = length (d_binders def) \<and> distinct (map b_name (d_binders def))
     \<and> B \<inter> id_names (d_body def) \<subseteq> set (map b_name (d_binders def))
     \<and> set (map b_name (d_binders def)) \<inter> bound_names (d_body def) = {}
     \<and> (\<forall>t\<in>set ts. id_names t \<inter> bound_names (d_body def) = {})
     \<and> (no_temporal (d_body def) \<or> list_all (rigid sig B) ts)"

fun inline_safe :: "signature \<Rightarrow> definition_decl \<Rightarrow> string set \<Rightarrow> fterm \<Rightarrow> bool" where
  "inline_safe sig def B (Literal b) = True"
| "inline_safe sig def B (Id s) = (s = d_name def \<longrightarrow> call_safe sig def B [])"
| "inline_safe sig def B (App f p ts) = (f = d_name def \<longrightarrow> p = 0 \<and> call_safe sig def B ts)"
| "inline_safe sig def B (UnaryOp op x) = inline_safe sig def B x"
| "inline_safe sig def B (BinOp op x y) = (inline_safe sig def B x \<and> inline_safe sig def B y)"
| "inline_safe sig def B (NAryOp op xs) = list_all (inline_safe sig def B) xs"
| "inline_safe sig def B (Ite c x y) = (inline_safe sig def B c \<and> inline_safe sig def B x \<and> inline_safe sig def B y)"
| "inline_safe sig def B (Quantified q bs body) =
     (d_name def \<in> set (map b_name bs) \<or> inline_safe sig def (B \<union> set (map b_name bs)) body)"

lemma map_upds_map_option:
  "length xs = length ts \<Longrightarrow> (Map.empty(xs [\<mapsto>] map f ts)) x = map_option f ((Map.empty(xs [\<mapsto>] ts)) x)"
proof (induction xs ts rule: list_induct2')
  case (4 y ys t ts)
  then show ?case by (auto simp: map_upds_def map_add_def map_of_append split: option.splits)
qed auto

lemma call_value:
  assumes frame: "immutable_frame sig tr" and d: "def_holds tr def" and safe: "call_safe sig def B ts" and B: "dom a = B"
  shows "teval tr i a (subst_binders (d_body def) (d_binders def) ts) = tr_fun tr i (d_name def) (map (teval tr i a) ts)"
proof -
  let ?names = "map b_name (d_binders def)"
  let ?repl = "Map.empty(?names [\<mapsto>] ts)"
  have len: "length ?names = length ts" using safe by (simp add: call_safe_def)
  have dom: "dom ?repl = set ?names" using len by simp
  have ran: "ran ?repl \<subseteq> set ts"
    using len by (auto simp: ran_def map_upds_def dest!: map_of_SomeD set_zip_rightD)
  have "no_temporal (d_body def) \<or> time_stable tr a ?repl"
  proof (cases "no_temporal (d_body def)")
    case False
    with safe have rigid: "\<forall>t\<in>set ts. rigid sig B t" by (simp add: call_safe_def list_all_iff)
    have "teval tr j a y = teval tr k a y" if "?repl x = Some y" for x y j k
      using teval_rigid [OF frame, of B y a j k] rigid ran that B by (auto simp: ran_def)
    then show ?thesis unfolding time_stable_def by blast
  qed simp
  then have "teval tr i a (subst_binders (d_body def) (d_binders def) ts) = teval tr i (subst_assignment tr i a ?repl) (d_body def)"
    unfolding subst_binders_def by (intro teval_subst) (use safe dom ran in \<open>auto simp: call_safe_def\<close>)
  also have "\<dots> = teval tr i (assign_all Map.empty ?names (map (teval tr i a) ts)) (d_body def)"
  proof (rule teval_names, rule ballI)
    fix x assume x: "x \<in> id_names (d_body def)"
    show "subst_assignment tr i a ?repl x = assign_all Map.empty ?names (map (teval tr i a) ts) x"
    proof (cases "x \<in> set ?names")
      case True
      then obtain y where "?repl x = Some y" using dom by blast
      then show ?thesis
        using map_upds_map_option [OF len, of "teval tr i a" x] by (simp add: subst_assignment_def assign_all_def)
    next
      case False
      with x safe B have "a x = None" "?repl x = None" using dom by (auto simp: call_safe_def domIff)
      with False show ?thesis by (simp add: subst_assignment_def assign_all_untouched)
    qed
  qed
  also have "\<dots> = tr_fun tr i (d_name def) (map (teval tr i a) ts)"
    using d len by (simp add: def_holds_def)
  finally show ?thesis .
qed

lemma those_map_teval:
  assumes "those (map f xs) = Some ys" and "\<And>x y. x \<in> set xs \<Longrightarrow> f x = Some y \<Longrightarrow> teval tr i a y = teval tr i a x"
  shows "map (teval tr i a) ys = map (teval tr i a) xs"
proof (rule nth_equalityI)
  show len: "length (map (teval tr i a) ys) = length (map (teval tr i a) xs)" using those_map_SomeD(1) [OF assms(1)] by simp
  fix j assume "j < length (map (teval tr i a) ys)"
  then show "map (teval tr i a) ys ! j = map (teval tr i a) xs ! j"
    using len assms(2) those_map_SomeD(2) [OF assms(1), of j] by simp
qed

lemma inline_def_term_teval:
  assumes frame: "immutable_frame sig tr" and d: "def_holds tr def"
  shows "\<lbrakk> inline_def_term def t = Some t'; inline_safe sig def B t; dom a = B; d_name def \<notin> B \<rbrakk>
   \<Longrightarrow> teval tr i a t' = teval tr i a t"
proof (induction t arbitrary: i a B t')
  case (Id s)
  show ?case
  proof (cases "s = d_name def")
    case True
    with Id have none: "d_binders def = []" "t' = d_body def" and safe: "call_safe sig def B []" by (auto split: if_splits)
    from call_value [OF frame d safe Id.prems(3), of i] none
    have "teval tr i a (subst_term Map.empty (d_body def)) = tr_fun tr i (d_name def) []" by (simp add: subst_binders_def)
    moreover have "subst_term Map.empty t = t" for t by (induction t) (simp_all add: map_idI)
    moreover have "a s = None" using Id.prems(3,4) True by blast
    ultimately show ?thesis using True none by simp
  qed (use Id in simp)
next
  case (App f p ts)
  show ?case
  proof (cases "f = d_name def")
    case True
    with App.prems have "t' = subst_binders (d_body def) (d_binders def) ts" "p = 0" "call_safe sig def B ts" by auto
    with call_value [OF frame d _ App.prems(3)] True show ?thesis by simp
  qed (use App.prems in simp)
next
  case (UnaryOp op x)
  then obtain x' where t': "t' = UnaryOp op x'" and x': "inline_def_term def x = Some x'" by auto
  have "teval tr j a x' = teval tr j a x" for j
    by (rule UnaryOp.IH [OF x' _ UnaryOp.prems(3,4)]) (use UnaryOp.prems(2) in simp)
  then show ?case unfolding t' by (cases op) simp_all
next
  case (BinOp op x y)
  then obtain x' y' where t': "t' = BinOp op x' y'" and r: "inline_def_term def x = Some x'" "inline_def_term def y = Some y'"
    by (auto split: option.splits)
  have "teval tr j a x' = teval tr j a x" "teval tr j a y' = teval tr j a y" for j
    using BinOp.prems(2) BinOp.IH(1) [OF r(1) _ BinOp.prems(3,4)] BinOp.IH(2) [OF r(2) _ BinOp.prems(3,4)] by simp_all
  then show ?case unfolding t' by (cases op) simp_all
next
  case (NAryOp op xs)
  from NAryOp.prems(1) obtain ys where t': "t' = NAryOp op ys" and ys: "those (map (inline_def_term def) xs) = Some ys" by auto
  have "map (teval tr i a) ys = map (teval tr i a) xs"
    by (rule those_map_teval [OF ys], rule NAryOp.IH [OF _ _ _ NAryOp.prems(3,4)])
      (use NAryOp.prems(2) in \<open>simp_all add: list_all_iff\<close>)
  then have "teval tr i a ` set ys = teval tr i a ` set xs" by (metis set_map)
  then have "(\<forall>y\<in>set ys. holds tr i a y) = (\<forall>x\<in>set xs. holds tr i a x)" "(\<exists>y\<in>set ys. holds tr i a y) = (\<exists>x\<in>set xs. holds tr i a x)"
    by (metis (no_types, lifting) image_iff)+
  then show ?case unfolding t' by (cases op) simp_all
next
  case (Ite c x y)
  then obtain c' x' y' where t': "t' = Ite c' x' y'" and r: "inline_def_term def c = Some c'"
    "inline_def_term def x = Some x'" "inline_def_term def y = Some y'" by (auto split: option.splits)
  have "teval tr i a c' = teval tr i a c" "teval tr i a x' = teval tr i a x" "teval tr i a y' = teval tr i a y"
    using Ite.prems(2) Ite.IH(1) [OF r(1) _ Ite.prems(3,4)] Ite.IH(2) [OF r(2) _ Ite.prems(3,4)]
      Ite.IH(3) [OF r(3) _ Ite.prems(3,4)] by simp_all
  then show ?case unfolding t' by simp
next
  case (Quantified q bs body)
  show ?case
  proof (cases "d_name def \<in> set (map b_name bs)")
    case True
    with Quantified.prems(1) show ?thesis by (auto simp: list_ex_iff split: if_splits)
  next
    case False
    then have no: "\<not> list_ex (\<lambda>b. b_name b = d_name def) bs" by (force simp: list_ex_iff)
    with Quantified.prems(1) obtain body' where t': "t' = Quantified q bs body'" and body': "inline_def_term def body = Some body'"
      by auto
    have safe: "inline_safe sig def (B \<union> set (map b_name bs)) body" using Quantified.prems(2) False by simp
    have "teval tr i (assign_all a (map b_name bs) vs) body' = teval tr i (assign_all a (map b_name bs) vs) body"
      if "vs \<in> tuples (map (\<lambda>b. tr_card tr (b_sort b)) bs)" for vs
      by (rule Quantified.IH [OF body' safe])
        (use Quantified.prems(3,4) False tuples_length [OF that] in \<open>auto simp: assign_all_def\<close>)
    then show ?thesis unfolding t' by (simp cong: quant_over_cong)
  qed
qed simp_all

section \<open>Modules\<close>

fun statement_terms :: "thm_stmt \<Rightarrow> fterm list" where
  "statement_terms (Assume e) = [e]"
| "statement_terms (Assert p) = sp_x (p_assert p) # map sp_x (p_invariants p)"

definition statement_values :: "fo_trace \<Rightarrow> nat \<Rightarrow> thm_stmt \<Rightarrow> bool \<times> nat list" where
  "statement_values tr i s = (case s of Assume e \<Rightarrow> True | Assert p \<Rightarrow> False, map (teval tr i Map.empty) (statement_terms s))"

definition statement_safe :: "signature \<Rightarrow> definition_decl \<Rightarrow> thm_stmt \<Rightarrow> bool" where
  "statement_safe sig def s \<longleftrightarrow> list_all (inline_safe sig def {}) (statement_terms s)"

definition other_safe :: "signature \<Rightarrow> definition_decl \<Rightarrow> definition_decl \<Rightarrow> bool" where
  "other_safe sig def other \<longleftrightarrow> d_name def \<notin> set (map b_name (d_binders other))
     \<and> inline_safe sig def (set (map b_name (d_binders other))) (d_body other)"

text \<open>Every call that \<open>inline_all\<close> replaces, in the terms as they are at that point, is free of capture.\<close>

function all_safe :: "signature \<Rightarrow> definition_decl list \<Rightarrow> thm_stmt list \<Rightarrow> bool" where
  "all_safe sig [] statements = True"
| "all_safe sig (def # defs) statements =
     (list_all (other_safe sig def) defs \<and> list_all (statement_safe sig def) statements
      \<and> (case inline_def def defs statements of None \<Rightarrow> True | Some (defs, statements) \<Rightarrow> all_safe sig defs statements))"
  by pat_completeness auto
termination all_safe
  by (relation "measure (\<lambda>(sig, defs, sts). length defs)") (auto dest: inline_def_length)

lemma those_list_all:
  assumes "those (map f xs) = Some ys" "list_all P xs" "\<And>x y. \<lbrakk> x \<in> set xs; f x = Some y; P x \<rbrakk> \<Longrightarrow> Q y"
  shows "list_all Q ys"
  unfolding list_all_length using those_map_SomeD [OF assms(1)] assms(2) [unfolded list_all_length] assms(3)
  by (metis nth_mem)

lemma those_map_eq:
  assumes "those (map f xs) = Some ys" "list_all P xs" "\<And>x y. \<lbrakk> x \<in> set xs; f x = Some y; P x \<rbrakk> \<Longrightarrow> g y = h x"
  shows "map g ys = map h xs"
  using those_map_SomeD [OF assms(1)] assms(2,3) by (auto simp: list_all_length intro!: nth_equalityI)

lemma inline_other_def_holds:
  assumes frame: "immutable_frame sig tr" and d: "def_holds tr def" and safe: "other_safe sig def other"
    and inl: "inline_other_def def other = Some other'" and other: "def_holds tr other"
  shows "def_holds tr other'"
proof -
  let ?names = "map b_name (d_binders other)"
  from inl obtain body where body: "inline_def_term def (d_body other) = Some body" and o: "other' = other\<lparr>d_body := body\<rparr>"
    by (auto simp: inline_other_def_def)
  have "teval tr i (assign_all Map.empty ?names vs) body = teval tr i (assign_all Map.empty ?names vs) (d_body other)"
    if "length vs = length (d_binders other)" for i vs
    by (rule inline_def_term_teval [OF frame d body, where B = "set ?names"])
      (use safe that in \<open>simp_all add: other_safe_def assign_all_def\<close>)
  with other show ?thesis by (simp add: def_holds_def o)
qed

lemma inline_statement_values:
  assumes frame: "immutable_frame sig tr" and d: "def_holds tr def" and safe: "statement_safe sig def s"
    and inl: "inline_statement def s = Some s'"
  shows "statement_values tr i s' = statement_values tr i s"
proof -
  have same: "teval tr i Map.empty t' = teval tr i Map.empty t" if "inline_safe sig def {} t" "inline_def_term def t = Some t'" for t t'
    by (rule inline_def_term_teval [OF frame d that(2) that(1)]) simp_all
  show ?thesis
  proof (cases s)
    case (Assume e)
    with inl safe same show ?thesis by (auto simp: statement_values_def statement_safe_def)
  next
    case (Assert p)
    from inl [unfolded Assert] obtain a invs where a: "inline_spanned def (p_assert p) = Some a"
      and invs: "those (map (inline_spanned def) (p_invariants p)) = Some invs"
      and s': "s' = Assert (p\<lparr>p_assert := a, p_invariants := invs\<rparr>)"
      by (auto split: option.splits)
    have one: "teval tr i Map.empty (sp_x y) = teval tr i Map.empty (sp_x x)"
      if "inline_spanned def x = Some y" "inline_safe sig def {} (sp_x x)" for x y
      using that same by (auto simp: inline_spanned_def)
    have "map (\<lambda>y. teval tr i Map.empty (sp_x y)) invs = map (\<lambda>x. teval tr i Map.empty (sp_x x)) (p_invariants p)"
      by (rule those_map_eq [OF invs, where P = "\<lambda>x. inline_safe sig def {} (sp_x x)"])
        (use safe one Assert in \<open>simp_all add: statement_safe_def list_all_iff\<close>)
    moreover have "teval tr i Map.empty (sp_x a) = teval tr i Map.empty (sp_x (p_assert p))"
      by (rule one [OF a]) (use safe Assert in \<open>simp add: statement_safe_def\<close>)
    ultimately show ?thesis by (simp add: statement_values_def s' Assert comp_def del: map_eq_conv)
  qed
qed

lemma inline_all_values:
  assumes frame: "immutable_frame sig tr"
  shows "\<lbrakk> inline_all defs sts = Some sts'; all_safe sig defs sts; list_all (def_holds tr) defs \<rbrakk>
    \<Longrightarrow> map (statement_values tr i) sts' = map (statement_values tr i) sts"
proof (induction defs sts arbitrary: sts' rule: inline_all.induct)
  case (2 def defs sts)
  from "2.prems"(1) obtain defs2 sts2 where inl: "inline_def def defs sts = Some (defs2, sts2)" and rest: "inline_all defs2 sts2 = Some sts'"
    by (auto split: option.splits)
  from inl have ds: "those (map (inline_other_def def) defs) = Some defs2" and ss: "those (map (inline_statement def) sts) = Some sts2"
    by (auto simp: inline_def_def split: option.splits)
  from "2.prems"(2) inl have safe: "list_all (other_safe sig def) defs" "list_all (statement_safe sig def) sts" "all_safe sig defs2 sts2"
    by simp_all
  from "2.prems"(3) have d: "def_holds tr def" and others: "\<forall>e\<in>set defs. def_holds tr e" by (simp_all add: list_all_iff)
  have "list_all (def_holds tr) defs2"
    by (rule those_list_all [OF ds safe(1)]) (use inline_other_def_holds [OF frame d] others in blast)
  from "2.IH" [OF inl refl rest safe(3) this] have "map (statement_values tr i) sts' = map (statement_values tr i) sts2" .
  also have "\<dots> = map (statement_values tr i) sts"
    by (rule those_map_eq [OF ss safe(2)]) (rule inline_statement_values [OF frame d])
  finally show ?case .
qed simp

lemma statement_values_assumed:
  assumes "map (statement_values tr 0) (mod_statements m') = map (statement_values tr 0) (mod_statements m)"
  shows "statements_assumed tr m' = statements_assumed tr m" "statements_asserted tr m' = statements_asserted tr m"
proof -
  have "statements_assumed tr m \<longleftrightarrow> (\<forall>v\<in>set (map (statement_values tr 0) (mod_statements m)). fst v \<longrightarrow> hd (snd v) = 1)" for m
    unfolding statements_assumed_def statement_values_def
    by (auto split: thm_stmt.splits)
  with assms show "statements_assumed tr m' = statements_assumed tr m" by (simp del: set_map)
  have "statements_asserted tr m \<longleftrightarrow> (\<forall>v\<in>set (map (statement_values tr 0) (mod_statements m)). \<not> fst v \<longrightarrow> hd (snd v) = 1)" for m
    unfolding statements_asserted_def statement_values_def
    by (auto split: thm_stmt.splits)
  with assms show "statements_asserted tr m' = statements_asserted tr m" by (simp del: set_map)
qed

section \<open>Results\<close>

text \<open>C21: inlining the definitions of a module (\<^verbatim>\<open>inline_defs\<close>) deletes all of them and keeps the
  meaning of the module: in every trace that interprets the definitions, every assumption, assertion
  and proof invariant has the same value at every time as before, so the same traces satisfy the
  assumptions and the assertions. The calls have to be safe (\<open>all_safe\<close>): a call has no primes (the code drops
  them, \<open>primed_call_loses_primes\<close> below) and as many arguments as the definition has binders, which are
  distinct; no argument and no free name of the body is captured by a quantifier; and when the body has
  temporal operators or primes, the arguments have the same value at all times.\<close>

theorem inline_defs_correct:
  assumes "inline_defs m = Some m'"
    and "all_safe (mod_signature m) (mod_defs m) (mod_statements m)"
    and "immutable_frame (mod_signature m) tr" "list_all (def_holds tr) (mod_defs m)"
  shows "mod_defs m' = [] \<and> mod_signature m' = mod_signature m
    \<and> map (statement_values tr i) (mod_statements m') = map (statement_values tr i) (mod_statements m)
    \<and> statements_assumed tr m' = statements_assumed tr m
    \<and> statements_asserted tr m' = statements_asserted tr m"
proof -
  obtain sts where sts: "inline_all (mod_defs m) (mod_statements m) = Some sts" and m': "m' = m\<lparr>mod_defs := [], mod_statements := sts\<rparr>"
    using assms(1) by (auto simp: inline_defs_def)
  have vals: "map (statement_values tr i) (mod_statements m') = map (statement_values tr i) (mod_statements m)" for i
    using inline_all_values [OF assms(3) sts assms(2,4), of i] unfolding m' by simp
  have "mod_defs m' = []" "mod_signature m' = mod_signature m" unfolding m' by simp_all
  with vals [of i] statement_values_assumed [OF vals [of 0]] show ?thesis by blast
qed

definition defs_sig :: signature where
  "defs_sig = \<lparr>sig_sorts = [''s''], sig_relations =
     [\<lparr>rd_mutable = True, rd_name = ''r'', rd_args = [Uninterpreted ''s''], rd_sort = Bool\<rparr>]\<rparr>"

definition defs_module :: fmodule where
  "defs_module = \<lparr>mod_signature = defs_sig,
     mod_defs =
       [\<lparr>d_name = ''d'', d_binders = [\<lparr>b_name = ''X'', b_sort = Uninterpreted ''s''\<rparr>], d_ret_sort = Bool,
          d_body = UnaryOp NotOp (App ''r'' 0 [Id ''X''])\<rparr>,
        \<lparr>d_name = ''e'', d_binders = [], d_ret_sort = Bool,
          d_body = Quantified Forall [\<lparr>b_name = ''Y'', b_sort = Uninterpreted ''s''\<rparr>] (App ''d'' 0 [Id ''Y''])\<rparr>],
     mod_statements =
       [Assume (Id ''e''),
        Assert \<lparr>p_assert = \<lparr>sp_x = UnaryOp Always (Quantified Forall [\<lparr>b_name = ''Z'', b_sort = Uninterpreted ''s''\<rparr>] (App ''d'' 0 [Id ''Z''])),
                  sp_span = None\<rparr>,
                p_invariants = []\<rparr>]\<rparr>"

definition defs_inlined :: "thm_stmt list" where
  "defs_inlined =
     [Assume (Quantified Forall [\<lparr>b_name = ''Y'', b_sort = Uninterpreted ''s''\<rparr>] (UnaryOp NotOp (App ''r'' 0 [Id ''Y'']))),
      Assert \<lparr>p_assert = \<lparr>sp_x = UnaryOp Always (Quantified Forall [\<lparr>b_name = ''Z'', b_sort = Uninterpreted ''s''\<rparr>]
                  (UnaryOp NotOp (App ''r'' 0 [Id ''Z'']))), sp_span = None\<rparr>, p_invariants = []\<rparr>]"

text \<open>Element 1 of two satisfies \<open>r\<close> from time 1 on.\<close>

definition defs_trace :: fo_trace where
  "defs_trace = \<lparr>tr_card = (\<lambda>_. 2), tr_fun = (\<lambda>i f vs.
     if f = ''r'' then (if 0 < i \<and> vs = [1] then 1 else 0)
     else if f = ''d'' then (if 0 < i \<and> vs = [1] then 0 else 1)
     else if f = ''e'' then (if 0 < i then 0 else 1) else 0)\<rparr>"

lemma defs_module_inlined: "inline_defs defs_module = Some (defs_module\<lparr>mod_defs := [], mod_statements := defs_inlined\<rparr>)"
  by code_simp

lemma defs_module_safe: "all_safe (mod_signature defs_module) (mod_defs defs_module) (mod_statements defs_module)"
  by code_simp

lemma defs_trace_holds: "list_all (def_holds defs_trace) (mod_defs defs_module)"
  by (auto simp: defs_module_def def_holds_def defs_trace_def assign_all_def length_Suc_conv tuples_def upto_lists_def upt_rec)

lemma defs_trace_frame: "immutable_frame (mod_signature defs_module) defs_trace"
  by (auto simp: immutable_frame_def is_immutable_def Let_def defs_module_def defs_sig_def split: option.splits if_splits)

theorem inline_defs_correct_witness:
  "statements_assumed defs_trace (defs_module\<lparr>mod_defs := [], mod_statements := defs_inlined\<rparr>)
     = statements_assumed defs_trace defs_module
   \<and> statements_asserted defs_trace (defs_module\<lparr>mod_defs := [], mod_statements := defs_inlined\<rparr>)
     = statements_asserted defs_trace defs_module"
  using inline_defs_correct [OF defs_module_inlined defs_module_safe defs_trace_frame defs_trace_holds] by blast

text \<open>The primes of a call are dropped: \<open>d'(Y)\<close> becomes the unprimed body.\<close>

lemma primed_call_loses_primes:
  "inline_defs (defs_module\<lparr>mod_statements := [Assume (App ''d'' 1 [Id ''Y''])]\<rparr>)
   = Some (defs_module\<lparr>mod_defs := [], mod_statements := [Assume (UnaryOp NotOp (App ''r'' 0 [Id ''Y'']))]\<rparr>)"
  by code_simp

text \<open>A call in an argument of an application stays, although its definition is deleted.\<close>

lemma nested_call_stays:
  "inline_defs (defs_module\<lparr>mod_statements := [Assume (App ''g'' 0 [Id ''e''])]\<rparr>)
   = Some (defs_module\<lparr>mod_defs := [], mod_statements := [Assume (App ''g'' 0 [Id ''e''])]\<rparr>)"
  by code_simp

end
