(* ===== verification/Bounded_Quant_Enum.thy ===== *)
theory Bounded_Quant_Enum
  imports Fly_Transitions
begin

text \<open>
  Model of \<^verbatim>\<open>bounded/src/quant_enum.rs\<close>: translating terms into quantifier-free formulas over a
  finite universe. The order that \<open>#[derive(Ord)]\<close> gives \<open>Enumerated\<close> is written out
  (\<open>enum_lt\<close>: constructors in the order of the declaration, then the fields from left to right,
  vectors lexicographically) and makes the type a linear order, so that \<open>sorted\<close> is HOL's
  \<open>sort\<close>; \<open>Vec::dedup\<close> is \<open>remdups_adj\<close>.
\<close>

section \<open>Formulas and their order\<close>

datatype enumerated =
  EAnd "enumerated list"
| EOr "enumerated list"
| ENot enumerated
| EEq enumerated enumerated
| EApp string nat "element list"

fun enum_tag :: "enumerated \<Rightarrow> nat" where
  "enum_tag (EAnd xs) = 0"
| "enum_tag (EOr xs) = 1"
| "enum_tag (ENot x) = 2"
| "enum_tag (EEq a b) = 3"
| "enum_tag (EApp f p es) = 4"

fun enum_lt :: "enumerated \<Rightarrow> enumerated \<Rightarrow> bool"
and enums_lt :: "enumerated list \<Rightarrow> enumerated list \<Rightarrow> bool" where
  "enum_lt (EAnd xs) (EAnd ys) = enums_lt xs ys"
| "enum_lt (EOr xs) (EOr ys) = enums_lt xs ys"
| "enum_lt (ENot x) (ENot y) = enum_lt x y"
| "enum_lt (EEq a b) (EEq c d) = (enum_lt a c \<or> a = c \<and> enum_lt b d)"
| "enum_lt (EApp f p es) (EApp g q fs) = (f < g \<or> f = g \<and> (p < q \<or> p = q \<and> es < fs))"
| "enum_lt x y = (enum_tag x < enum_tag y)"
| "enums_lt [] [] = False"
| "enums_lt [] (y # ys) = True"
| "enums_lt (x # xs) [] = False"
| "enums_lt (x # xs) (y # ys) = (enum_lt x y \<or> x = y \<and> enums_lt xs ys)"

lemma enum_lt_neq: "enum_lt x y \<Longrightarrow> x \<noteq> y" "enums_lt xs ys \<Longrightarrow> xs \<noteq> ys"
  by (induction x y and xs ys rule: enum_lt_enums_lt.induct) auto

lemma enum_lt_total:
  "x \<noteq> y \<Longrightarrow> enum_lt x y \<or> enum_lt y x" "xs \<noteq> ys \<Longrightarrow> enums_lt xs ys \<or> enums_lt ys xs"
  by (induction x y and xs ys rule: enum_lt_enums_lt.induct) auto

lemma enum_lt_trans:
  "enum_lt x y \<Longrightarrow> enum_lt y z \<Longrightarrow> enum_lt x z"
  "enums_lt xs ys \<Longrightarrow> enums_lt ys zs \<Longrightarrow> enums_lt xs zs"
  by (induction x y and xs ys arbitrary: z and zs rule: enum_lt_enums_lt.induct)
    (case_tac z; force | case_tac zs; force)+

instantiation enumerated :: linorder
begin

definition less_enumerated :: "enumerated \<Rightarrow> enumerated \<Rightarrow> bool" where
  "less_enumerated x y = enum_lt x y"

definition less_eq_enumerated :: "enumerated \<Rightarrow> enumerated \<Rightarrow> bool" where
  "less_eq_enumerated x y = (x = y \<or> enum_lt x y)"

instance
  by standard
    (unfold less_enumerated_def less_eq_enumerated_def,
      (rule derived_order [of enum_lt, OF enum_lt_neq(1) enum_lt_total(1) enum_lt_trans(1)]; assumption)+)

end

section \<open>Simplifying constructors\<close>

definition always_true :: enumerated where
  "always_true = EAnd []"

definition always_false :: enumerated where
  "always_false = EOr []"

fun get_and :: "enumerated \<Rightarrow> enumerated list" where
  "get_and (EAnd terms) = terms"
| "get_and t = [t]"

fun get_or :: "enumerated \<Rightarrow> enumerated list" where
  "get_or (EOr terms) = terms"
| "get_or t = [t]"

definition enum_and :: "enumerated list \<Rightarrow> enumerated" where
  "enum_and terms =
     (let terms = remdups_adj (List.sort (concat (map get_and terms))) in
      if list_ex (\<lambda>t. t = always_false) terms then always_false
      else if length terms = 1 then last terms
      else EAnd terms)"

definition enum_or :: "enumerated list \<Rightarrow> enumerated" where
  "enum_or terms =
     (let terms = remdups_adj (List.sort (concat (map get_or terms))) in
      if list_ex (\<lambda>t. t = always_true) terms then always_true
      else if length terms = 1 then last terms
      else EOr terms)"

fun enum_not :: "enumerated \<Rightarrow> enumerated" where
  "enum_not (EAnd terms) = enum_or (map enum_not terms)"
| "enum_not (EOr terms) = enum_and (map enum_not terms)"
| "enum_not (ENot t) = t"
| "enum_not t = ENot t"

fun enum_prime :: "enumerated \<Rightarrow> nat \<Rightarrow> enumerated" where
  "enum_prime (EAnd terms) depth = EAnd (map (\<lambda>t. enum_prime t depth) terms)"
| "enum_prime (EOr terms) depth = EOr (map (\<lambda>t. enum_prime t depth) terms)"
| "enum_prime (ENot t) depth = ENot (enum_prime t depth)"
| "enum_prime (EEq a b) depth = EEq (enum_prime a depth) (enum_prime b depth)"
| "enum_prime (EApp relation primes elements) depth = EApp relation (primes + depth) elements"

section \<open>Enumerating quantifiers\<close>

type_synonym universe_bounds = "string \<rightharpoonup> nat"

definition bounds_cardinality :: "universe_bounds \<Rightarrow> sort \<Rightarrow> nat option" where
  "bounds_cardinality universe srt =
     (case srt of Bool \<Rightarrow> Some 2 | Uninterpreted name \<Rightarrow> universe name)"

datatype enumeration_error =
  TemporalOperator fterm
| TooManyPrimes fterm
| UnknownId fterm
| NotAnElement fterm

fun nullary_id_to_app :: "fterm \<Rightarrow> relation_decl list \<Rightarrow> fterm" where
  "nullary_id_to_app (Id i) rs = (if list_ex (\<lambda>r. rd_name r = i) rs then App i 0 [] else Id i)"
| "nullary_id_to_app (Literal b) rs = Literal b"
| "nullary_id_to_app (App name primes args) rs =
     App name primes (map (\<lambda>t. nullary_id_to_app t rs) args)"
| "nullary_id_to_app (UnaryOp op x) rs = UnaryOp op (nullary_id_to_app x rs)"
| "nullary_id_to_app (BinOp op x y) rs =
     BinOp op (nullary_id_to_app x rs) (nullary_id_to_app y rs)"
| "nullary_id_to_app (NAryOp op xs) rs = NAryOp op (map (\<lambda>t. nullary_id_to_app t rs) xs)"
| "nullary_id_to_app (Ite c t e) rs =
     Ite (nullary_id_to_app c rs) (nullary_id_to_app t rs) (nullary_id_to_app e rs)"
| "nullary_id_to_app (Quantified q binders body) rs =
     Quantified q binders (nullary_id_to_app body rs)"

text \<open>The closure \<open>element\<close>; \<open>r\<close> is the recursive call on its argument, which is not made for an
  identifier.\<close>

definition enum_element ::
  "fterm \<Rightarrow> assignment \<Rightarrow> (enumeration_error + enumerated) option
   \<Rightarrow> (enumeration_error + element) option" where
  "enum_element t assignments r =
     (case t of
        Id i \<Rightarrow> (case assignments i of
                  Some x \<Rightarrow> Some (Inr x) | None \<Rightarrow> Some (Inl (UnknownId t)))
      | _ \<Rightarrow> (case r of
               None \<Rightarrow> None
             | Some (Inl e) \<Rightarrow> Some (Inl (NotAnElement t))
             | Some (Inr formula) \<Rightarrow>
                 Some (if formula = always_true then Inr 1
                       else if formula = always_false then Inr 0
                       else Inl (NotAnElement t))))"

text \<open>The result of the equality case, from the two calls of \<open>element\<close> and the two of \<open>go\<close>.\<close>

definition enum_equals ::
  "(enumeration_error + element) option \<Rightarrow> (enumeration_error + element) option
   \<Rightarrow> (enumeration_error + enumerated) option \<Rightarrow> (enumeration_error + enumerated) option
   \<Rightarrow> (enumeration_error + enumerated) option" where
  "enum_equals ea eb ra rb =
     (case ea of None \<Rightarrow> None | Some va \<Rightarrow>
     (case eb of None \<Rightarrow> None | Some vb \<Rightarrow>
     (case (va, vb) of
        (Inr x, Inr y) \<Rightarrow> Some (Inr (if x = y then always_true else always_false))
      | _ \<Rightarrow> bind_pr ra (\<lambda>a. bind_pr rb (\<lambda>b. Some (Inr (EEq a b)))))))"

function term_to_enumerated ::
  "itertools \<Rightarrow> fterm \<Rightarrow> universe_bounds \<Rightarrow> assignment \<Rightarrow> (enumeration_error + enumerated) option" where
  "term_to_enumerated it (Literal b) u a = Some (Inr (if b then always_true else always_false))"
| "term_to_enumerated it (Id x) u a =
     bind_pr (enum_element (Id x) a None)
       (\<lambda>v. if v = 1 then Some (Inr always_true)
            else if v = 0 then Some (Inr always_false) else None)"
| "term_to_enumerated it (App name primes args) u a =
     (if primes > 1 then Some (Inl (TooManyPrimes (App name primes args)))
      else bind_pr (collect_presult (map (\<lambda>t. enum_element t a (term_to_enumerated it t u a)) args))
             (\<lambda>args. Some (Inr (EApp name primes args))))"
| "term_to_enumerated it (UnaryOp op t) u a =
     (if op = NotOp then bind_pr (term_to_enumerated it t u a) (\<lambda>e. Some (Inr (enum_not e)))
      else Some (Inl (TemporalOperator (UnaryOp op t))))"
| "term_to_enumerated it (BinOp Equals x y) u a =
     enum_equals (enum_element x a (term_to_enumerated it x u a))
       (enum_element y a (term_to_enumerated it y u a))
       (term_to_enumerated it x u a) (term_to_enumerated it y u a)"
| "term_to_enumerated it (BinOp Iff x y) u a =
     enum_equals (enum_element x a (term_to_enumerated it x u a))
       (enum_element y a (term_to_enumerated it y u a))
       (term_to_enumerated it x u a) (term_to_enumerated it y u a)"
| "term_to_enumerated it (BinOp NotEquals x y) u a =
     bind_pr (term_to_enumerated it (BinOp Equals x y) u a) (\<lambda>e. Some (Inr (enum_not e)))"
| "term_to_enumerated it (BinOp Implies x y) u a =
     (case enum_element x a (term_to_enumerated it x u a) of
        None \<Rightarrow> None
      | Some v \<Rightarrow>
          (if v = Inr 1 then term_to_enumerated it y u a
           else if v = Inr 0 then Some (Inr always_true)
           else bind_pr (term_to_enumerated it x u a) (\<lambda>e.
                bind_pr (term_to_enumerated it y u a) (\<lambda>f.
                  Some (Inr (enum_or [enum_not e, f]))))))"
| "term_to_enumerated it (BinOp Until x y) u a = Some (Inl (TemporalOperator (BinOp Until x y)))"
| "term_to_enumerated it (BinOp Since x y) u a = Some (Inl (TemporalOperator (BinOp Since x y)))"
| "term_to_enumerated it (NAryOp op ts) u a =
     bind_pr (collect_presult (map (\<lambda>t. term_to_enumerated it t u a) ts))
       (\<lambda>es. Some (Inr (case op of And \<Rightarrow> enum_and es | Or \<Rightarrow> enum_or es)))"
| "term_to_enumerated it (Ite c t e) u a =
     bind_pr (term_to_enumerated it c u a) (\<lambda>c1.
     bind_pr (term_to_enumerated it t u a) (\<lambda>t1.
     bind_pr (term_to_enumerated it c u a) (\<lambda>c2.
     bind_pr (term_to_enumerated it e u a) (\<lambda>e1.
       Some (Inr (enum_or [enum_and [c1, t1], enum_and [enum_not c2, e1]]))))))"
| "term_to_enumerated it (Quantified q bs body) u a =
     (case those (map (\<lambda>b. bounds_cardinality u (b_sort b)) bs) of
        None \<Rightarrow> None
      | Some cards \<Rightarrow>
          bind_pr (collect_presult
              (map (\<lambda>elements.
                  if length elements = length bs
                  then term_to_enumerated it body u (assign_all a (map b_name bs) elements)
                  else None)
                (mcp_fixed (mcp_nat it) (upto_lists cards))))
            (\<lambda>es. Some (Inr (case q of Forall \<Rightarrow> enum_and es | Exists \<Rightarrow> enum_or es))))"
  by pat_completeness auto
termination
  by (relation "measure (\<lambda>(it, t, u, a). eval_weight t)") auto

definition enumerate_quantifiers ::
  "itertools \<Rightarrow> fterm \<Rightarrow> signature \<Rightarrow> universe_bounds \<Rightarrow> (enumeration_error + enumerated) option" where
  "enumerate_quantifiers it t sig universe =
     (let t = nullary_id_to_app t (sig_relations sig);
          t = next_normalize sig t
      in term_to_enumerated it t universe Map.empty)"

section \<open>Meaning of the simplifying constructors\<close>

text \<open>Several formula types of the program come with their own simplifying connectives. What
  their clients rely on is that the connectives mean what they say.\<close>

locale formula_ops =
  fixes ev :: "'v \<Rightarrow> 'f \<Rightarrow> bool"
    and conj :: "'f list \<Rightarrow> 'f"
    and disj :: "'f list \<Rightarrow> 'f"
    and neg :: "'f \<Rightarrow> 'f"
  assumes ev_conj: "ev v (conj fs) \<longleftrightarrow> (\<forall>f\<in>set fs. ev v f)"
    and ev_disj: "ev v (disj fs) \<longleftrightarrow> (\<exists>f\<in>set fs. ev v f)"
    and ev_neg: "ev v (neg f) \<longleftrightarrow> \<not> ev v f"
begin

lemma ev_implies: "ev v (disj [neg f, g]) \<longleftrightarrow> (ev v f \<longrightarrow> ev v g)"
  by (auto simp: ev_disj ev_neg)

lemma ev_ite: "ev v (disj [conj [c, f], conj [neg c, g]]) \<longleftrightarrow> (if ev v c then ev v f else ev v g)"
  by (auto simp: ev_disj ev_conj ev_neg)

lemma ev_de_morgan: "ev v (neg (conj fs)) \<longleftrightarrow> ev v (disj (map neg fs))"
  by (auto simp: ev_disj ev_conj ev_neg)

end

type_synonym enum_valuation = "string \<Rightarrow> nat \<Rightarrow> element list \<Rightarrow> bool"

fun eeval :: "enum_valuation \<Rightarrow> enumerated \<Rightarrow> bool" where
  "eeval v (EAnd es) = list_all (eeval v) es"
| "eeval v (EOr es) = list_ex (eeval v) es"
| "eeval v (ENot e) = (\<not> eeval v e)"
| "eeval v (EEq e f) = (eeval v e = eeval v f)"
| "eeval v (EApp f p es) = v f p es"

lemma get_and_eeval: "(\<forall>e\<in>set (get_and f). eeval v e) \<longleftrightarrow> eeval v f"
  by (cases f) (auto simp: list_all_iff)

lemma get_or_eeval: "(\<forall>e\<in>set (get_or f). \<not> eeval v e) \<longleftrightarrow> \<not> eeval v f"
  by (cases f) (auto simp: list_ex_iff)

lemma eeval_enum_and [sem_simps]: "eeval v (enum_and es) \<longleftrightarrow> (\<forall>e\<in>set es. eeval v e)"
  unfolding enum_and_def
  by (rule simplified_nary) (simp_all add: get_and_eeval always_false_def list_all_iff)

lemma eeval_enum_or [sem_simps]: "eeval v (enum_or es) \<longleftrightarrow> (\<exists>e\<in>set es. eeval v e)"
proof -
  have "\<not> eeval v (enum_or es) \<longleftrightarrow> (\<forall>e\<in>set es. \<not> eeval v e)"
    unfolding enum_or_def
    by (rule simplified_nary) (simp_all add: get_or_eeval always_true_def list_ex_iff)
  then show ?thesis by blast
qed

lemma eeval_enum_not [sem_simps]: "eeval v (enum_not e) \<longleftrightarrow> \<not> eeval v e"
  by (induction e) (auto simp: sem_simps list_all_iff list_ex_iff)

interpretation enumerated_ops: formula_ops eeval enum_and enum_or enum_not
  by unfold_locales (rule eeval_enum_and eeval_enum_or eeval_enum_not)+

lemma eeval_enum_prime [sem_simps]: "eeval v (enum_prime e d) = eeval (\<lambda>f p. v f (p + d)) e"
  by (induction e) (auto simp: list_all_iff list_ex_iff)

lemma eeval_constants [simp]: "eeval v always_true" "\<not> eeval v always_false"
  by (simp_all add: always_true_def always_false_def)

section \<open>Correctness of the enumeration\<close>

definition bool_relations :: "signature \<Rightarrow> bool" where
  "bool_relations sig \<longleftrightarrow> (\<forall>r\<in>set (sig_relations sig). rd_sort r = Bool)"

definition bounds_agree :: "universe_bounds \<Rightarrow> fo_trace \<Rightarrow> bool" where
  "bounds_agree u tr \<longleftrightarrow> (\<forall>s c. bounds_cardinality u s = Some c \<longrightarrow> tr_card tr s = c)"

definition trace_valuation :: "fo_trace \<Rightarrow> nat \<Rightarrow> enum_valuation" where
  "trace_valuation tr i f p es = (tr_fun tr (i + p) f es = 1)"

lemma decl_of_mem: "decl_of sig f = Some d \<Longrightarrow> d \<in> set (sig_relations sig) \<and> rd_name d = f"
  using position_SomeD by (fastforce simp: decl_of_def relation_idx_def)

lemma app_of_bool:
  assumes "trace_ok sig tr" and "bool_relations sig" and "assign_ok tr \<Gamma> a"
    and "term_sort sig \<Gamma> (App f p args) = Some s"
  shows "teval tr i a (App f p args) = of_bool (holds tr i a (App f p args))"
proof -
  from assms(4) obtain d where "decl_of sig f = Some d" and "s = rd_sort d"
    by (auto split: option.splits if_splits)
  with assms(2) have "s = Bool" using decl_of_mem [of sig f d] by (auto simp: bool_relations_def)
  with assms(4) have "term_sort sig \<Gamma> (App f p args) = Some Bool" by simp
  from teval_bool [OF assms(1) this assms(3)] show ?thesis .
qed

lemma enum_element_value:
  assumes "enum_element t a r = Some (Inr x)"
    and "\<And>e. r = Some (Inr e) \<Longrightarrow> teval tr i a t = of_bool (eeval v e)"
  shows "x = teval tr i a t"
  using assms
  by (cases t) (auto simp: enum_element_def split: option.splits sum.splits if_splits)

lemma enum_equals_value:
  assumes "enum_equals (enum_element x a rx) (enum_element y a ry) rx ry = Some (Inr e)"
    and "\<And>e. rx = Some (Inr e) \<Longrightarrow> teval tr i a x = of_bool (eeval v e)"
    and "\<And>e. ry = Some (Inr e) \<Longrightarrow> teval tr i a y = of_bool (eeval v e)"
  shows "of_bool (teval tr i a x = teval tr i a y) = (of_bool (eeval v e) :: nat)"
proof -
  from assms(1) obtain va vb where va: "enum_element x a rx = Some va"
    and vb: "enum_element y a ry = Some vb"
    by (auto simp: enum_equals_def split: option.splits)
  consider (both) m n where "va = Inr m" "vb = Inr n" "e = (if m = n then always_true else always_false)"
    | (eq) e1 e2 where "rx = Some (Inr e1)" "ry = Some (Inr e2)" "e = EEq e1 e2"
    using assms(1) va vb by (auto simp: enum_equals_def bind_pr_Inr split: sum.splits)
  then show ?thesis
  proof cases
    case both
    with enum_element_value [of x a rx m tr i v] enum_element_value [of y a ry n tr i v] va vb assms(2,3)
    show ?thesis by auto
  next
    case eq
    with assms(2,3) show ?thesis by auto
  qed
qed

lemma term_sort_NotEquals: "term_sort sig \<Gamma> (BinOp NotEquals x y) = term_sort sig \<Gamma> (BinOp Equals x y)"
  by simp

lemma term_to_enumerated_value:
  assumes it: "itertools_doc it" and tr: "trace_ok sig tr" and rels: "bool_relations sig"
    and u: "bounds_agree u tr"
  shows "\<lbrakk> term_to_enumerated it t u a = Some (Inr e); term_sort sig \<Gamma> t = Some s; assign_ok tr \<Gamma> a \<rbrakk>
    \<Longrightarrow> teval tr i a t = of_bool (eeval (trace_valuation tr i) e)"
  using it u
proof (induction it t u a arbitrary: \<Gamma> s e rule: term_to_enumerated.induct)
  case (2 it x u a)
  then show ?case by (auto simp: enum_element_def split: option.splits if_splits)
next
  case (3 it f p args u a)
  from 3(2) obtain es where es: "collect_presult
      (map (\<lambda>t. enum_element t a (term_to_enumerated it t u a)) args) = Some (Inr es)"
    and p: "\<not> p > 1" and e: "e = EApp f p es"
    by (auto simp: bind_pr_Inr split: if_splits)
  have "\<exists>s. term_sort sig \<Gamma> t = Some s" if t: "t \<in> set args" for t
  proof -
    from 3(3) obtain ss where ss: "those (map (term_sort sig \<Gamma>) args) = Some ss"
      by (auto split: option.splits if_splits)
    then have "term_sort sig \<Gamma> t \<noteq> None" using t those_map_eq_None_iff [of "term_sort sig \<Gamma>" args] by auto
    then show ?thesis by simp
  qed
  then have "x = teval tr i a t"
    if "t \<in> set args" "enum_element t a (term_to_enumerated it t u a) = Some (Inr x)" for t x
    using enum_element_value [OF that(2)] 3(1) [OF p that(1)] 3(4-6) that(1) by blast
  then have "list_all2 (\<lambda>t x. x = teval tr i a t) args es"
    using collect_presult_map_InrD [OF es] by (rule list.rel_mono_strong [rotated])
  then have "es = map (teval tr i a) args" by (induction rule: list_all2_induct) auto
  then show ?case using app_of_bool [OF tr rels 3(4,3), of i] by (simp add: e trace_valuation_def)
next
  case (4 it op t u a)
  then obtain e' where e': "term_to_enumerated it t u a = Some (Inr e')" and e: "e = enum_not e'"
    and op: "op = NotOp" and srt: "term_sort sig \<Gamma> t = Some Bool"
    by (auto simp: bind_pr_Inr split: if_splits)
  have "teval tr i a t = of_bool (eeval (trace_valuation tr i) e')"
    by (rule "4.IH" [OF op e' srt]) (rule 4)+
  then show ?case by (simp add: e op sem_simps)
next
  case (5 it x y u a)
  note IH = this(1-4) and prems = this(5-9)
  from prems(2) obtain sx sy where "term_sort sig \<Gamma> x = Some sx" "term_sort sig \<Gamma> y = Some sy"
    by (cases "term_sort sig \<Gamma> x"; cases "term_sort sig \<Gamma> y") (auto split: if_splits)
  then have x: "\<And>e. term_to_enumerated it x u a = Some (Inr e)
        \<Longrightarrow> teval tr i a x = of_bool (eeval (trace_valuation tr i) e)"
    and y: "\<And>e. term_to_enumerated it y u a = Some (Inr e)
        \<Longrightarrow> teval tr i a y = of_bool (eeval (trace_valuation tr i) e)"
    using IH prems(3-5) by blast+
  from prems(1) have "of_bool (teval tr i a x = teval tr i a y) = (of_bool (eeval (trace_valuation tr i) e) :: nat)"
    unfolding term_to_enumerated.simps by (rule enum_equals_value) (rule x y, assumption)+
  then show ?case by (simp only: teval.simps)
next
  case (6 it x y u a)
  note IH = this(1-4) and prems = this(5-9)
  from prems(2) obtain sx sy where "term_sort sig \<Gamma> x = Some sx" "term_sort sig \<Gamma> y = Some sy"
    by (cases "term_sort sig \<Gamma> x"; cases "term_sort sig \<Gamma> y") (auto split: if_splits)
  then have x: "\<And>e. term_to_enumerated it x u a = Some (Inr e)
        \<Longrightarrow> teval tr i a x = of_bool (eeval (trace_valuation tr i) e)"
    and y: "\<And>e. term_to_enumerated it y u a = Some (Inr e)
        \<Longrightarrow> teval tr i a y = of_bool (eeval (trace_valuation tr i) e)"
    using IH prems(3-5) by blast+
  from prems(1) have "of_bool (teval tr i a x = teval tr i a y) = (of_bool (eeval (trace_valuation tr i) e) :: nat)"
    unfolding term_to_enumerated.simps by (rule enum_equals_value) (rule x y, assumption)+
  then show ?case by (simp only: teval.simps)
next
  case (7 it x y u a)
  from 7(2) obtain e' where e': "term_to_enumerated it (BinOp Equals x y) u a = Some (Inr e')"
    and e: "e = enum_not e'"
    by (auto simp: bind_pr_Inr)
  have "teval tr i a (BinOp Equals x y) = of_bool (eeval (trace_valuation tr i) e')"
    by (rule "7.IH" [OF e']) (use 7 in \<open>simp_all only: term_sort_NotEquals\<close>)
  then have "teval tr i a x = teval tr i a y \<longleftrightarrow> eeval (trace_valuation tr i) e'" by auto
  then show ?case by (simp add: e sem_simps)
next
  case (8 it x y u a)
  from "8.prems"(2) have sx: "term_sort sig \<Gamma> x = Some Bool" and sy: "term_sort sig \<Gamma> y = Some Bool"
    by (auto split: if_splits)
  note prems = "8.prems"(3-5)
  have x: "teval tr i a x = of_bool (eeval (trace_valuation tr i) e')"
    if "term_to_enumerated it x u a = Some (Inr e')" for e'
    using "8.IH"(1) that sx prems by blast
  obtain v where v: "enum_element x a (term_to_enumerated it x u a) = Some v"
    using "8.prems"(1) by (auto split: option.splits)
  consider "v = Inr 1" | "v = Inr 0" | "v \<noteq> Inr 1" "v \<noteq> Inr 0" by blast
  then show ?case
  proof cases
    case 1
    then have "teval tr i a x = 1" using enum_element_value [of x a _ 1 tr i] v x by metis
    moreover have "teval tr i a y = of_bool (eeval (trace_valuation tr i) e)"
      using "8.IH"(2) [OF v 1, of e \<Gamma> Bool] "8.prems"(1) v 1 sy prems by simp
    ultimately show ?thesis by simp
  next
    case 2
    then have "teval tr i a x = 0" using enum_element_value [of x a _ 0 tr i] v x by metis
    then show ?thesis using "8.prems"(1) v 2 by simp
  next
    case 3
    with "8.prems"(1) v obtain e1 e2 where e1: "term_to_enumerated it x u a = Some (Inr e1)"
      and e2: "term_to_enumerated it y u a = Some (Inr e2)" and e: "e = enum_or [enum_not e1, e2]"
      by (auto simp: bind_pr_Inr split: if_splits)
    have "teval tr i a y = of_bool (eeval (trace_valuation tr i) e2)"
      using "8.IH" e2 sy prems v 3 e1 by metis
    with x [OF e1] show ?thesis by (simp add: e enumerated_ops.ev_implies)
  qed
next
  case (11 it op ts u a)
  from 11(2) obtain es where es: "collect_presult (map (\<lambda>t. term_to_enumerated it t u a) ts) = Some (Inr es)"
    and e: "e = (case op of And \<Rightarrow> enum_and es | Or \<Rightarrow> enum_or es)"
    by (auto simp: bind_pr_Inr)
  have srt: "\<forall>t\<in>set ts. term_sort sig \<Gamma> t = Some Bool" using 11(3) by (auto split: if_splits)
  have "teval tr i a t = of_bool (eeval (trace_valuation tr i) e)"
    if "t \<in> set ts" "term_to_enumerated it t u a = Some (Inr e)" for t e
    using 11(1) [OF that] srt that(1) 11(4-6) by blast
  with collect_presult_map_InrD [OF es]
  have "list_all2 (\<lambda>t e. teval tr i a t = of_bool (eeval (trace_valuation tr i) e)) ts es"
    by (rule list.rel_mono_strong)
  then have "(\<forall>t\<in>set ts. holds tr i a t) \<longleftrightarrow> (\<forall>e\<in>set es. eeval (trace_valuation tr i) e)"
    and "(\<exists>t\<in>set ts. holds tr i a t) \<longleftrightarrow> (\<exists>e\<in>set es. eeval (trace_valuation tr i) e)"
    by (induction rule: list_all2_induct) auto
  then show ?case by (cases op) (simp_all add: e sem_simps)
next
  case (12 it c t e' u a)
  from 12(5) obtain c1 t1 c2 e1 where r: "term_to_enumerated it c u a = Some (Inr c1)"
    "term_to_enumerated it t u a = Some (Inr t1)" "term_to_enumerated it e' u a = Some (Inr e1)"
    and e: "e = enum_or [enum_and [c1, t1], enum_and [enum_not c1, e1]]"
    by (auto simp: bind_pr_Inr)
  from 12(6) have srt: "term_sort sig \<Gamma> c = Some Bool" "term_sort sig \<Gamma> t = Some s"
    "term_sort sig \<Gamma> e' = Some s"
    by (auto split: if_splits)
  have "teval tr i a c = of_bool (eeval (trace_valuation tr i) c1)"
    "teval tr i a t = of_bool (eeval (trace_valuation tr i) t1)"
    "teval tr i a e' = of_bool (eeval (trace_valuation tr i) e1)"
    using "12.IH" r srt 12(7-9) by blast+
  then show ?case by (simp add: e enumerated_ops.ev_ite)
next
  case (13 it q bs body u a)
  from 13(2) obtain cards es where cards: "those (map (\<lambda>b. bounds_cardinality u (b_sort b)) bs) = Some cards"
    and es: "collect_presult (map (\<lambda>elements. if length elements = length bs
          then term_to_enumerated it body u (assign_all a (map b_name bs) elements) else None)
        (mcp_fixed (mcp_nat it) (upto_lists cards))) = Some (Inr es)"
    and e: "e = (case q of Forall \<Rightarrow> enum_and es | Exists \<Rightarrow> enum_or es)"
    by (auto simp: bind_pr_Inr split: option.splits)
  have srt: "term_sort sig (\<Gamma>(map b_name bs [\<mapsto>] map b_sort bs)) body = Some Bool"
    using 13(3) by (auto split: if_splits)
  let ?tuples = "mcp_fixed (mcp_nat it) (upto_lists cards)"
  have "cards = map (\<lambda>b. tr_card tr (b_sort b)) bs"
    using 13(6) by (intro those_map_eq_SomeD [OF cards]) (simp add: bounds_agree_def)
  then have tuples: "set ?tuples = tuples (map (\<lambda>b. tr_card tr (b_sort b)) bs)"
    using 13(5) by (simp add: doc_simps tuples_def)
  have each: "holds tr i (assign_all a (map b_name bs) vs) body \<longleftrightarrow> eeval (trace_valuation tr i) e"
    if "vs \<in> set ?tuples" "(if length vs = length bs
          then term_to_enumerated it body u (assign_all a (map b_name bs) vs) else None) = Some (Inr e)"
    for vs e
  proof -
    from that(2) have len: "length vs = length bs"
      and r: "term_to_enumerated it body u (assign_all a (map b_name bs) vs) = Some (Inr e)"
      by (simp_all split: if_splits)
    have asg: "assign_ok tr (\<Gamma>(map b_name bs [\<mapsto>] map b_sort bs)) (assign_all a (map b_name bs) vs)"
      using assign_ok_binders [OF 13(4)] that(1) tuples by simp
    show ?thesis using 13(1) [OF cards that(1) len r srt asg 13(5,6)] by simp
  qed
  from collect_presult_map_InrD [OF es]
  have "list_all2 (\<lambda>vs e. holds tr i (assign_all a (map b_name bs) vs) body
      \<longleftrightarrow> eeval (trace_valuation tr i) e) ?tuples es"
    by (rule list.rel_mono_strong) (rule each)
  then have "(\<forall>vs\<in>set ?tuples. holds tr i (assign_all a (map b_name bs) vs) body)
        \<longleftrightarrow> (\<forall>e\<in>set es. eeval (trace_valuation tr i) e)"
    and "(\<exists>vs\<in>set ?tuples. holds tr i (assign_all a (map b_name bs) vs) body)
        \<longleftrightarrow> (\<exists>e\<in>set es. eeval (trace_valuation tr i) e)"
    by (induction rule: list_all2_induct) auto
  then show ?case by (cases q) (simp_all add: e sem_simps tuples)
qed (auto split: if_splits)

text \<open>Before the enumeration, names of relations become applications. That is only right when no
  quantifier binds the name of a relation.\<close>

abbreviation declared :: "relation_decl list \<Rightarrow> string \<Rightarrow> bool" where
  "declared rs x \<equiv> list_ex (\<lambda>r. rd_name r = x) rs"

fun fresh_binders :: "relation_decl list \<Rightarrow> fterm \<Rightarrow> bool" where
  "fresh_binders rs (Literal b) \<longleftrightarrow> True"
| "fresh_binders rs (Id x) \<longleftrightarrow> True"
| "fresh_binders rs (App f p xs) \<longleftrightarrow> list_all (fresh_binders rs) xs"
| "fresh_binders rs (UnaryOp op t) \<longleftrightarrow> fresh_binders rs t"
| "fresh_binders rs (BinOp op x y) \<longleftrightarrow> fresh_binders rs x \<and> fresh_binders rs y"
| "fresh_binders rs (NAryOp op ts) \<longleftrightarrow> list_all (fresh_binders rs) ts"
| "fresh_binders rs (Ite c t e) \<longleftrightarrow> fresh_binders rs c \<and> fresh_binders rs t \<and> fresh_binders rs e"
| "fresh_binders rs (Quantified q bs body) \<longleftrightarrow>
     list_all (\<lambda>b. \<not> declared rs (b_name b)) bs \<and> fresh_binders rs body"

lemma teval_nullary_id_to_app:
  "\<lbrakk> fresh_binders rs t; \<forall>x\<in>dom a. \<not> declared rs x \<rbrakk>
   \<Longrightarrow> teval tr i a (nullary_id_to_app t rs) = teval tr i a t"
proof (induction t arbitrary: i a)
  case (Id x)
  then show ?case by (auto split: option.split)
next
  case (App f p xs)
  then have "map (teval tr i a) (map (\<lambda>t. nullary_id_to_app t rs) xs) = map (teval tr i a) xs"
    by (auto simp: list_all_iff)
  then show ?case by (simp only: teval.simps nullary_id_to_app.simps)
next
  case (UnaryOp op t)
  then show ?case by (cases op) auto
next
  case (BinOp op x y)
  then show ?case by (cases op) auto
next
  case (NAryOp op ts)
  then show ?case by (cases op) (auto simp: list_all_iff)
next
  case (Quantified q bs body)
  have "teval tr i (assign_all a (map b_name bs) vs) (nullary_id_to_app body rs)
      = teval tr i (assign_all a (map b_name bs) vs) body"
    if "vs \<in> tuples (map (\<lambda>b. tr_card tr (b_sort b)) bs)" for vs
    using Quantified.prems dom_assign_all [of vs "map b_name bs" a] tuples_length [OF that]
    by (intro Quantified.IH) (auto simp: list_all_iff)
  then show ?case by (simp cong: quant_over_cong)
qed simp_all

lemma dom_upds_binders: "dom (\<Gamma>(map b_name bs [\<mapsto>] map b_sort bs)) = dom \<Gamma> \<union> b_name ` set bs"
  by (simp add: Un_commute)

lemma term_sort_nullary_id_to_app:
  "\<lbrakk> fresh_binders (sig_relations sig) t; \<forall>x\<in>dom \<Gamma>. \<not> declared (sig_relations sig) x;
     term_sort sig \<Gamma> t = Some s \<rbrakk>
   \<Longrightarrow> term_sort sig \<Gamma> (nullary_id_to_app t (sig_relations sig)) = Some s"
proof (induction t arbitrary: \<Gamma> s)
  case (Id x)
  then show ?case by (auto split: option.splits if_splits)
next
  case (App f p xs)
  then obtain d where d: "decl_of sig f = Some d" "s = rd_sort d"
    and ss: "those (map (term_sort sig \<Gamma>) xs) = Some (rd_args d)"
    by (auto split: option.splits if_splits)
  have "those (map (\<lambda>t. term_sort sig \<Gamma> (nullary_id_to_app t (sig_relations sig))) xs) = Some (rd_args d)"
  proof -
    have "term_sort sig \<Gamma> (nullary_id_to_app t (sig_relations sig)) = term_sort sig \<Gamma> t"
      if t: "t \<in> set xs" for t
    proof -
      have "term_sort sig \<Gamma> t \<noteq> None"
        using ss t those_map_eq_None_iff [of "term_sort sig \<Gamma>" xs] by auto
      then show ?thesis using App.IH [OF t _ App.prems(2)] App.prems(1) t by (auto simp: list_all_iff)
    qed
    then show ?thesis using ss by (metis (no_types, lifting) map_eq_conv)
  qed
  then show ?case using d by (simp add: comp_def)
next
  case (UnaryOp op t)
  then show ?case by (auto split: if_splits)
next
  case (BinOp op x y)
  from BinOp.prems(3) obtain sx sy where s: "term_sort sig \<Gamma> x = Some sx" "term_sort sig \<Gamma> y = Some sy"
    by (cases "term_sort sig \<Gamma> x"; cases "term_sort sig \<Gamma> y") (auto split: if_splits)
  with BinOp.IH(1) [OF _ BinOp.prems(2) s(1)] BinOp.IH(2) [OF _ BinOp.prems(2) s(2)] BinOp.prems
  show ?case by (simp split: if_split_asm)
next
  case (NAryOp op ts)
  then show ?case by (auto simp: list_all_iff split: if_splits)
next
  case (Ite c t e)
  from Ite.prems(3) have s: "term_sort sig \<Gamma> c = Some Bool" "term_sort sig \<Gamma> t = Some s"
    "term_sort sig \<Gamma> e = Some s" by (auto split: if_splits)
  with Ite.IH(1) [OF _ Ite.prems(2) s(1)] Ite.IH(2) [OF _ Ite.prems(2) s(2)]
    Ite.IH(3) [OF _ Ite.prems(2) s(3)] Ite.prems(1)
  show ?case by simp
next
  case (Quantified q bs body)
  have "\<forall>x\<in>dom (\<Gamma>(map b_name bs [\<mapsto>] map b_sort bs)). \<not> declared (sig_relations sig) x"
    using Quantified.prems(1,2) unfolding dom_upds_binders by (auto simp: list_all_iff)
  with Quantified show ?case by (auto split: if_splits)
qed simp

lemma term_sort_with_primes: "term_sort sig \<Gamma> (with_primes t n) = term_sort sig \<Gamma> t"
  by (induction n arbitrary: t) simp_all

lemma term_sort_with_next: "term_sort sig \<Gamma> (with_next sig t B n) = term_sort sig \<Gamma> t"
proof (induction t arbitrary: \<Gamma> B n)
  case (App f p xs)
  then have "map (\<lambda>t. term_sort sig \<Gamma> (with_next sig t B n)) xs = map (term_sort sig \<Gamma>) xs" by simp
  then show ?case by (simp only: with_next.simps term_sort.simps map_map comp_def)
qed (simp_all add: term_sort_with_primes)

lemma no_past_nullary_id_to_app: "no_past (nullary_id_to_app t rs) = no_past t"
  by (induction t) (auto simp: list_all_iff)

lemma enumerate_quantifiers_value:
  assumes "itertools_doc it" and "trace_ok sig tr" and "immutable_frame sig tr"
    and "bool_relations sig" and "bounds_agree u tr"
    and "term_sort sig Map.empty t = Some s" and "no_past t"
    and "fresh_binders (sig_relations sig) t"
    and "enumerate_quantifiers it t sig u = Some (Inr e)"
  shows "teval tr i Map.empty t = of_bool (eeval (trace_valuation tr i) e)"
proof -
  let ?t = "nullary_id_to_app t (sig_relations sig)"
  have srt: "term_sort sig Map.empty (next_normalize sig ?t) = Some s"
    using term_sort_nullary_id_to_app [OF assms(8) _ assms(6)]
    by (simp add: next_normalize_def term_sort_with_next)
  have "teval tr i Map.empty t = teval tr i Map.empty ?t"
    using teval_nullary_id_to_app [OF assms(8), of Map.empty] by simp
  also have "\<dots> = teval tr i Map.empty (next_normalize sig ?t)"
    using teval_with_next [OF assms(3), of ?t i Map.empty 0] assms(7)
    by (simp add: next_normalize_def no_past_nullary_id_to_app)
  also have "\<dots> = of_bool (eeval (trace_valuation tr i) e)"
    using term_to_enumerated_value [OF assms(1,2,4,5) _ srt assign_ok_empty] assms(9)
    by (simp add: enumerate_quantifiers_def)
  finally show ?thesis .
qed

text \<open>C17: the formula \<open>enumerate_quantifiers\<close> returns means the term: under the valuation that a
  trace induces (one variable per relation, number of primes and tuple of elements) it is true
  exactly where the term holds. The hypotheses are the checker's: a well-sorted closed formula
  without past operators over boolean relations, bounds that are the sizes of the universe,
  immutable relations that do not change, and no quantifier that shadows a relation.\<close>

theorem enumerate_quantifiers_correct:
  assumes "itertools_doc it" and "trace_ok sig tr" and "immutable_frame sig tr"
    and "bool_relations sig" and "bounds_agree u tr"
    and "term_sort sig Map.empty t = Some s" and "no_past t"
    and "fresh_binders (sig_relations sig) t"
    and "enumerate_quantifiers it t sig u = Some (Inr e)"
  shows "teval tr i Map.empty t = of_bool (eeval (trace_valuation tr i) e)"
  using enumerate_quantifiers_value [OF assms] .

definition lock_sig :: signature where
  "lock_sig =
     \<lparr>sig_sorts = [''node''],
      sig_relations = [\<lparr>rd_mutable = True, rd_name = ''held'', rd_args = [Uninterpreted ''node''], rd_sort = Bool\<rparr>,
                       \<lparr>rd_mutable = True, rd_name = ''idle'', rd_args = [], rd_sort = Bool\<rparr>]\<rparr>"

definition lock_trace :: fo_trace where
  "lock_trace =
     \<lparr>tr_card = (\<lambda>_. 2),
      tr_fun = (\<lambda>i f vs. if f = ''held'' then of_bool (vs = [i mod 2] \<and> 0 < i)
                         else of_bool (i = 0))\<rparr>"

definition lock_formula :: fterm where
  "lock_formula =
     BinOp Iff (UnaryOp Prime (Quantified Forall [binder_new ''n'' (Uninterpreted ''node'')]
         (UnaryOp NotOp (App ''held'' 0 [Id ''n'']))))
       (UnaryOp Prime (Id ''idle''))"

lemma lock_trace_ok:
  "trace_ok lock_sig lock_trace" "immutable_frame lock_sig lock_trace" "bool_relations lock_sig"
  "bounds_agree [''node'' \<mapsto> 2] lock_trace"
proof -
  show "trace_ok lock_sig lock_trace"
    by (auto simp: trace_ok_def lock_trace_def)
  have "\<not> is_immutable lock_sig f" for f
    by (auto simp: is_immutable_def lock_sig_def Let_def)
  then show "immutable_frame lock_sig lock_trace" by (simp add: immutable_frame_def)
  show "bool_relations lock_sig" by (simp add: bool_relations_def lock_sig_def)
  show "bounds_agree [''node'' \<mapsto> 2] lock_trace"
    by (auto simp: bounds_agree_def bounds_cardinality_def lock_trace_def split: sort.splits)
qed

theorem enumerate_quantifiers_correct_witness:
  "enumerate_quantifiers itertools_ref lock_formula lock_sig [''node'' \<mapsto> 2]
     = Some (Inr (EEq (EAnd [ENot (EApp ''held'' 1 [0]), ENot (EApp ''held'' 1 [1])]) (EApp ''idle'' 1 [])))
   \<and> teval lock_trace 0 Map.empty lock_formula
     = of_bool (eeval (trace_valuation lock_trace 0)
         (EEq (EAnd [ENot (EApp ''held'' 1 [0]), ENot (EApp ''held'' 1 [1])]) (EApp ''idle'' 1 [])))"
proof -
  have eq: "enumerate_quantifiers itertools_ref lock_formula lock_sig [''node'' \<mapsto> 2]
     = Some (Inr (EEq (EAnd [ENot (EApp ''held'' 1 [0]), ENot (EApp ''held'' 1 [1])]) (EApp ''idle'' 1 [])))"
    by code_simp
  have "term_sort lock_sig Map.empty lock_formula = Some Bool" "no_past lock_formula"
    "fresh_binders (sig_relations lock_sig) lock_formula" by code_simp+
  from enumerate_quantifiers_correct [OF itertools_doc_ref lock_trace_ok this eq] eq
  show ?thesis by blast
qed

section \<open>The enumeration returns\<close>

text \<open>The terms the enumeration supports below \<open>k\<close> primes: arguments of relations are bound
  variables, no temporal operator except primes, at most one prime on a mutable relation, bounded
  sorts.\<close>

definition bound_variable :: "signature \<Rightarrow> sort_context \<Rightarrow> fterm \<Rightarrow> bool" where
  "bound_variable sig \<Gamma> t \<longleftrightarrow>
     (case t of Id x \<Rightarrow> \<not> declared (sig_relations sig) x \<and> \<Gamma> x \<noteq> None | _ \<Rightarrow> False)"

fun enumerable :: "signature \<Rightarrow> universe_bounds \<Rightarrow> sort_context \<Rightarrow> nat \<Rightarrow> fterm \<Rightarrow> bool" where
  "enumerable sig u \<Gamma> k (Literal b) \<longleftrightarrow> True"
| "enumerable sig u \<Gamma> k (Id x) \<longleftrightarrow>
     (if declared (sig_relations sig) x then k \<le> 1 \<or> is_immutable sig x else \<Gamma> x = Some Bool)"
| "enumerable sig u \<Gamma> k (App f p xs) \<longleftrightarrow>
     (p + k \<le> 1 \<or> is_immutable sig f) \<and> list_all (bound_variable sig \<Gamma>) xs"
| "enumerable sig u \<Gamma> k (UnaryOp op t) \<longleftrightarrow>
     op = NotOp \<and> enumerable sig u \<Gamma> k t \<or> op = Prime \<and> enumerable sig u \<Gamma> (Suc k) t"
| "enumerable sig u \<Gamma> k (BinOp op x y) \<longleftrightarrow>
     op \<noteq> Until \<and> op \<noteq> Since
     \<and> ((op = Equals \<or> op = NotEquals) \<and> bound_variable sig \<Gamma> x \<and> bound_variable sig \<Gamma> y
        \<or> enumerable sig u \<Gamma> k x \<and> enumerable sig u \<Gamma> k y)"
| "enumerable sig u \<Gamma> k (NAryOp op ts) \<longleftrightarrow> list_all (enumerable sig u \<Gamma> k) ts"
| "enumerable sig u \<Gamma> k (Ite c t e) \<longleftrightarrow>
     enumerable sig u \<Gamma> k c \<and> enumerable sig u \<Gamma> k t \<and> enumerable sig u \<Gamma> k e"
| "enumerable sig u \<Gamma> k (Quantified q bs body) \<longleftrightarrow>
     (\<forall>b\<in>set bs. bounds_cardinality u (b_sort b) \<noteq> None)
     \<and> enumerable sig u (\<Gamma>(map b_name bs [\<mapsto>] map b_sort bs)) k body"

lemma assign_okD: "assign_ok tr \<Gamma> a \<Longrightarrow> \<Gamma> x = Some s \<Longrightarrow> \<exists>v<tr_card tr s. a x = Some v"
  unfolding assign_ok_def by (metis domD domI)

lemma enum_element_bound:
  assumes "bound_variable sig \<Gamma> t" and "assign_ok tr \<Gamma> a"
  shows "with_next sig (nullary_id_to_app t (sig_relations sig)) (dom \<Gamma>) k = t
    \<and> (\<exists>v. enum_element t a r = Some (Inr v))"
proof -
  from assms(1) obtain x s where t: "t = Id x" "\<not> declared (sig_relations sig) x" and x: "\<Gamma> x = Some s"
    by (auto simp: bound_variable_def split: fterm.splits)
  with assign_okD [OF assms(2) x] show ?thesis by (auto simp: enum_element_def domI)
qed

lemma enum_element_defined:
  assumes "r = Some (Inr e)" shows "enum_element t a r \<noteq> None"
  using assms by (auto simp: enum_element_def split: fterm.splits option.splits)

lemma enum_equals_defined:
  assumes "\<exists>v w. ea = Some (Inr v) \<and> eb = Some (Inr w) \<or> ea \<noteq> None \<and> eb \<noteq> None
    \<and> (\<exists>a. ra = Some (Inr a)) \<and> (\<exists>b. rb = Some (Inr b))"
  shows "\<exists>e. enum_equals ea eb ra rb = Some (Inr e)"
  using assms by (auto simp: enum_equals_def split: sum.splits)

lemma term_to_enumerated_total:
  assumes it: "itertools_doc it" and u: "bounds_agree u tr"
  shows "\<lbrakk> enumerable sig u \<Gamma> k t; assign_ok tr \<Gamma> a \<rbrakk>
    \<Longrightarrow> \<exists>e. term_to_enumerated it (with_next sig (nullary_id_to_app t (sig_relations sig)) (dom \<Gamma>) k) u a
        = Some (Inr e)"
proof (induction t arbitrary: \<Gamma> k a)
  case (Id x)
  show ?case
  proof (cases "declared (sig_relations sig) x")
    case True
    with Id show ?thesis by (auto simp: not_less)
  next
    case False
    with Id have G: "\<Gamma> x = Some Bool" by simp
    with assign_okD [OF Id.prems(2)] obtain v where v: "a x = Some v" "v < tr_card tr Bool" by blast
    have "tr_card tr Bool = 2" using u by (simp add: bounds_agree_def bounds_cardinality_def)
    with v have "v = 0 \<or> v = 1" by (auto simp: less_2_cases_iff)
    with False G v show ?thesis by (auto simp: enum_element_def dom_def)
  qed
next
  case (App f p xs)
  let ?g = "\<lambda>t. with_next sig (nullary_id_to_app t (sig_relations sig)) (dom \<Gamma>) k"
  have var: "?g t = t \<and> (\<exists>v. enum_element t a r = Some (Inr v))" if "t \<in> set xs" for t r
    by (rule enum_element_bound [OF _ App.prems(2)]) (use App.prems(1) that in \<open>simp add: list_all_iff\<close>)
  then have "map ?g xs = xs" by (simp add: map_idI)
  moreover obtain vs where "collect_presult
      (map (\<lambda>t. enum_element t a (term_to_enumerated it t u a)) xs) = Some (Inr vs)"
    using collect_presult_map_InrI [of xs "\<lambda>t. enum_element t a (term_to_enumerated it t u a)"] var
    by blast
  ultimately show ?case using App.prems(1) by (auto simp add: comp_def not_less)
next
  case (UnaryOp op t)
  then show ?case by (cases op) fastforce+
next
  case (BinOp op x y)
  let ?g = "\<lambda>t. with_next sig (nullary_id_to_app t (sig_relations sig)) (dom \<Gamma>) k"
  let ?r = "\<lambda>t. term_to_enumerated it (?g t) u a"
  have eq: "\<exists>e. enum_equals (enum_element (?g x) a (?r x)) (enum_element (?g y) a (?r y)) (?r x) (?r y)
      = Some (Inr e)" if "op = Equals \<or> op = NotEquals \<or> op = Iff"
  proof (rule enum_equals_defined)
    consider "bound_variable sig \<Gamma> x" "bound_variable sig \<Gamma> y"
      | "enumerable sig u \<Gamma> k x" "enumerable sig u \<Gamma> k y"
      using BinOp.prems(1) by auto
    then show "\<exists>v w. enum_element (?g x) a (?r x) = Some (Inr v) \<and> enum_element (?g y) a (?r y) = Some (Inr w)
      \<or> enum_element (?g x) a (?r x) \<noteq> None \<and> enum_element (?g y) a (?r y) \<noteq> None
        \<and> (\<exists>b. ?r x = Some (Inr b)) \<and> (\<exists>b. ?r y = Some (Inr b))"
    proof cases
      case 1
      with enum_element_bound [OF _ BinOp.prems(2)] show ?thesis by metis
    next
      case 2
      then obtain ex ey where "?r x = Some (Inr ex)" "?r y = Some (Inr ey)"
        using BinOp.IH BinOp.prems(2) by blast
      then show ?thesis using enum_element_defined by metis
    qed
  qed
  show ?case
  proof (cases "op = Implies")
    case True
    then obtain ex ey where "?r x = Some (Inr ex)" "?r y = Some (Inr ey)"
      using BinOp by fastforce
    moreover from this obtain v where "enum_element (?g x) a (?r x) = Some v"
      using enum_element_defined by blast
    ultimately show ?thesis using True by simp
  next
    case False
    with BinOp.prems(1) eq show ?thesis by (cases op) auto
  qed
next
  case (NAryOp op ts)
  let ?g = "\<lambda>t. with_next sig (nullary_id_to_app t (sig_relations sig)) (dom \<Gamma>) k"
  have "\<exists>e. term_to_enumerated it (?g t) u a = Some (Inr e)" if "t \<in> set ts" for t
    using NAryOp that by (simp add: list_all_iff)
  then obtain es where "collect_presult (map (\<lambda>t. term_to_enumerated it (?g t) u a) ts) = Some (Inr es)"
    using collect_presult_map_InrI [of ts "\<lambda>t. term_to_enumerated it (?g t) u a"] by blast
  then show ?case by (simp add: comp_def)
next
  case (Ite c t e)
  then show ?case by (fastforce simp: bind_pr_def)
next
  case (Quantified q bs body)
  let ?G = "\<Gamma>(map b_name bs [\<mapsto>] map b_sort bs)"
  let ?b = "with_next sig (nullary_id_to_app body (sig_relations sig)) (dom \<Gamma> \<union> b_name ` set bs) k"
  let ?f = "\<lambda>vs. if length vs = length bs
    then term_to_enumerated it ?b u (assign_all a (map b_name bs) vs) else None"
  have "those (map (\<lambda>b. bounds_cardinality u (b_sort b)) bs) \<noteq> None"
    using Quantified.prems(1) by (auto simp: those_map_eq_None_iff)
  then obtain cards where cards: "those (map (\<lambda>b. bounds_cardinality u (b_sort b)) bs) = Some cards" by blast
  have "cards = map (\<lambda>b. tr_card tr (b_sort b)) bs"
    using u by (intro those_map_eq_SomeD [OF cards]) (simp add: bounds_agree_def)
  then have tuples: "set (mcp_fixed (mcp_nat it) (upto_lists cards)) = tuples (map (\<lambda>b. tr_card tr (b_sort b)) bs)"
    using it by (simp add: doc_simps tuples_def)
  have "\<exists>e. ?f vs = Some (Inr e)" if "vs \<in> set (mcp_fixed (mcp_nat it) (upto_lists cards))" for vs
  proof -
    have vs: "vs \<in> tuples (map (\<lambda>b. tr_card tr (b_sort b)) bs)" using that tuples by simp
    have "dom ?G = dom \<Gamma> \<union> b_name ` set bs" by (rule dom_upds_binders)
    with Quantified.IH [OF _ assign_ok_binders [OF Quantified.prems(2) vs], of k] Quantified.prems(1)
      tuples_length [OF vs]
    show ?thesis by simp
  qed
  then obtain es where "collect_presult (map ?f (mcp_fixed (mcp_nat it) (upto_lists cards))) = Some (Inr es)"
    using collect_presult_map_InrI [of _ ?f] by blast
  then show ?case using cards by simp
qed simp



end
