(* ===== verification/Bdd.thy ===== *)
theory Bdd
  imports Prelude
begin

text \<open>
  The interface of the BDD library \<open>biodivine-lib-bdd\<close>, which \<^verbatim>\<open>bounded/src/indices.rs\<close>,
  \<^verbatim>\<open>bounded/src/set.rs\<close> and \<^verbatim>\<open>bounded/src/bdd.rs\<close> use: third-party code, so a record of the
  functions used over a type of BDDs that stays a parameter. One record is the library at one
  variable set; \<open>bdd_doc n\<close> is its documented behaviour for \<open>n\<close> variables. A reference
  implementation by truth tables shows that the documentation can be met.
\<close>

section \<open>Interface\<close>

datatype boolean_expression =
  BConst bool
| BVariable string
| BNot boolean_expression
| BAnd boolean_expression boolean_expression
| BOr boolean_expression boolean_expression
| BXor boolean_expression boolean_expression
| BImp boolean_expression boolean_expression
| BIff boolean_expression boolean_expression

record 'b bdd_lib =
  mk_true :: 'b
  mk_false :: 'b
  mk_var :: "nat \<Rightarrow> 'b"
  bdd_conj :: "'b \<Rightarrow> 'b \<Rightarrow> 'b"
  bdd_disj :: "'b \<Rightarrow> 'b \<Rightarrow> 'b"
  bdd_not :: "'b \<Rightarrow> 'b"
  bdd_iff :: "'b \<Rightarrow> 'b \<Rightarrow> 'b"
  bdd_eq :: "'b \<Rightarrow> 'b \<Rightarrow> bool"
  bdd_exists :: "'b \<Rightarrow> nat list \<Rightarrow> 'b"
  bdd_conj_exists :: "'b \<Rightarrow> 'b \<Rightarrow> nat list \<Rightarrow> 'b"
  bdd_rename :: "'b \<Rightarrow> nat \<Rightarrow> nat \<Rightarrow> 'b option"
  bdd_valuations :: "'b \<Rightarrow> bool list list"
  bdd_witness :: "'b \<Rightarrow> bool list option"
  bdd_expression :: "'b \<Rightarrow> boolean_expression"
  bdd_name_of :: "nat \<Rightarrow> string"

section \<open>Documented behaviour\<close>

definition depends_on :: "('b \<Rightarrow> (nat \<Rightarrow> bool) \<Rightarrow> bool) \<Rightarrow> 'b \<Rightarrow> nat \<Rightarrow> bool" where
  "depends_on den x i \<longleftrightarrow> (\<exists>\<beta>. den x (\<beta>(i := True)) \<noteq> den x (\<beta>(i := False)))"

fun bexpr_value :: "(string \<Rightarrow> bool) \<Rightarrow> boolean_expression \<Rightarrow> bool" where
  "bexpr_value \<rho> (BConst b) = b"
| "bexpr_value \<rho> (BVariable v) = \<rho> v"
| "bexpr_value \<rho> (BNot x) = (\<not> bexpr_value \<rho> x)"
| "bexpr_value \<rho> (BAnd x y) = (bexpr_value \<rho> x \<and> bexpr_value \<rho> y)"
| "bexpr_value \<rho> (BOr x y) = (bexpr_value \<rho> x \<or> bexpr_value \<rho> y)"
| "bexpr_value \<rho> (BXor x y) = (bexpr_value \<rho> x \<noteq> bexpr_value \<rho> y)"
| "bexpr_value \<rho> (BImp x y) = (bexpr_value \<rho> x \<longrightarrow> bexpr_value \<rho> y)"
| "bexpr_value \<rho> (BIff x y) = (bexpr_value \<rho> x = bexpr_value \<rho> y)"

text \<open>The connectives that the library produces, and the variables of an expression.\<close>

fun bexpr_basic :: "string set \<Rightarrow> boolean_expression \<Rightarrow> bool" where
  "bexpr_basic vs (BConst b) = True"
| "bexpr_basic vs (BVariable v) = (v \<in> vs)"
| "bexpr_basic vs (BNot x) = bexpr_basic vs x"
| "bexpr_basic vs (BAnd x y) = (bexpr_basic vs x \<and> bexpr_basic vs y)"
| "bexpr_basic vs (BOr x y) = (bexpr_basic vs x \<and> bexpr_basic vs y)"
| "bexpr_basic vs e = False"

text \<open>The boolean connectives, and the operations that quantify, rename, enumerate and print.
  Renaming a variable is documented for a new name on which the BDD does not depend, nor on any
  variable between the two. BDDs are canonical: equal functions are equal BDDs.\<close>

definition bdd_bool_doc :: "nat \<Rightarrow> 'b bdd_lib \<Rightarrow> ('b \<Rightarrow> (nat \<Rightarrow> bool) \<Rightarrow> bool) \<Rightarrow> bool" where
  "bdd_bool_doc n lib den \<longleftrightarrow>
     (\<forall>\<beta>. den (mk_true lib) \<beta>) \<and> (\<forall>\<beta>. \<not> den (mk_false lib) \<beta>)
     \<and> (\<forall>i<n. \<forall>\<beta>. den (mk_var lib i) \<beta> = \<beta> i)
     \<and> (\<forall>x y \<beta>. den (bdd_conj lib x y) \<beta> = (den x \<beta> \<and> den y \<beta>))
     \<and> (\<forall>x y \<beta>. den (bdd_disj lib x y) \<beta> = (den x \<beta> \<or> den y \<beta>))
     \<and> (\<forall>x \<beta>. den (bdd_not lib x) \<beta> = (\<not> den x \<beta>))
     \<and> (\<forall>x y \<beta>. den (bdd_iff lib x y) \<beta> = (den x \<beta> = den y \<beta>))
     \<and> (\<forall>x \<beta> \<gamma>. (\<forall>i<n. \<beta> i = \<gamma> i) \<longrightarrow> den x \<beta> = den x \<gamma>)"

definition bdd_ops_doc :: "nat \<Rightarrow> 'b bdd_lib \<Rightarrow> ('b \<Rightarrow> (nat \<Rightarrow> bool) \<Rightarrow> bool) \<Rightarrow> bool" where
  "bdd_ops_doc n lib den \<longleftrightarrow>
     (\<forall>x y. bdd_eq lib x y \<longleftrightarrow> (\<forall>\<beta>. den x \<beta> = den y \<beta>))
     \<and> (\<forall>x vs \<beta>. den (bdd_exists lib x vs) \<beta> \<longleftrightarrow> (\<exists>\<gamma>. (\<forall>i. i \<notin> set vs \<longrightarrow> \<gamma> i = \<beta> i) \<and> den x \<gamma>))
     \<and> (\<forall>x y vs \<beta>. den (bdd_conj_exists lib x y vs) \<beta>
          \<longleftrightarrow> (\<exists>\<gamma>. (\<forall>i. i \<notin> set vs \<longrightarrow> \<gamma> i = \<beta> i) \<and> den x \<gamma> \<and> den y \<gamma>))
     \<and> (\<forall>x. \<forall>i<n. \<forall>j<n. \<not> depends_on den x j
          \<and> \<not> (\<exists>k. (i < k \<and> k < j \<or> j < k \<and> k < i) \<and> depends_on den x k)
          \<longrightarrow> (\<exists>y. bdd_rename lib x i j = Some y \<and> (\<forall>\<beta>. den y \<beta> = den x (\<beta>(i := \<beta> j)))))
     \<and> (\<forall>x. distinct (bdd_valuations lib x)
          \<and> set (bdd_valuations lib x) = {v. length v = n \<and> den x (\<lambda>i. i < n \<and> v ! i)})
     \<and> (\<forall>x. bdd_witness lib x = None \<longleftrightarrow> bdd_valuations lib x = [])
     \<and> (\<forall>x v. bdd_witness lib x = Some v \<longrightarrow> v \<in> set (bdd_valuations lib x))
     \<and> (\<forall>x. bexpr_basic (bdd_name_of lib ` {..<n}) (bdd_expression lib x)
          \<and> (\<forall>\<rho>. bexpr_value \<rho> (bdd_expression lib x) = den x (\<lambda>i. \<rho> (bdd_name_of lib i))))
     \<and> inj_on (bdd_name_of lib) {..<n}"

definition bdd_doc :: "nat \<Rightarrow> 'b bdd_lib \<Rightarrow> ('b \<Rightarrow> (nat \<Rightarrow> bool) \<Rightarrow> bool) \<Rightarrow> bool" where
  "bdd_doc n lib den \<longleftrightarrow> bdd_bool_doc n lib den \<and> bdd_ops_doc n lib den"

lemma bdd_docD:
  assumes "bdd_doc n lib den"
  shows "\<forall>x y. bdd_eq lib x y \<longleftrightarrow> (\<forall>\<beta>. den x \<beta> = den y \<beta>)"
    and "\<forall>x vs \<beta>. den (bdd_exists lib x vs) \<beta> \<longleftrightarrow> (\<exists>\<gamma>. (\<forall>i. i \<notin> set vs \<longrightarrow> \<gamma> i = \<beta> i) \<and> den x \<gamma>)"
    and "\<forall>x y vs \<beta>. den (bdd_conj_exists lib x y vs) \<beta>
          \<longleftrightarrow> (\<exists>\<gamma>. (\<forall>i. i \<notin> set vs \<longrightarrow> \<gamma> i = \<beta> i) \<and> den x \<gamma> \<and> den y \<gamma>)"
    and "\<forall>x. \<forall>i<n. \<forall>j<n. \<not> depends_on den x j
          \<and> \<not> (\<exists>k. (i < k \<and> k < j \<or> j < k \<and> k < i) \<and> depends_on den x k)
          \<longrightarrow> (\<exists>y. bdd_rename lib x i j = Some y \<and> (\<forall>\<beta>. den y \<beta> = den x (\<beta>(i := \<beta> j))))"
    and "\<forall>x. distinct (bdd_valuations lib x)
          \<and> set (bdd_valuations lib x) = {v. length v = n \<and> den x (\<lambda>i. i < n \<and> v ! i)}"
    and "\<forall>x. bdd_witness lib x = None \<longleftrightarrow> bdd_valuations lib x = []"
    and "\<forall>x v. bdd_witness lib x = Some v \<longrightarrow> v \<in> set (bdd_valuations lib x)"
    and "\<forall>x. bexpr_basic (bdd_name_of lib ` {..<n}) (bdd_expression lib x)
          \<and> (\<forall>\<rho>. bexpr_value \<rho> (bdd_expression lib x) = den x (\<lambda>i. \<rho> (bdd_name_of lib i)))"
    and "inj_on (bdd_name_of lib) {..<n}"
    and "\<forall>x y \<beta>. den (bdd_conj lib x y) \<beta> = (den x \<beta> \<and> den y \<beta>)"
    and "\<forall>x y \<beta>. den (bdd_disj lib x y) \<beta> = (den x \<beta> \<or> den y \<beta>)"
    and "\<forall>x \<beta>. den (bdd_not lib x) \<beta> = (\<not> den x \<beta>)"
    and "\<forall>x \<beta> \<gamma>. (\<forall>i<n. \<beta> i = \<gamma> i) \<longrightarrow> den x \<beta> = den x \<gamma>"
  using assms unfolding bdd_doc_def bdd_bool_doc_def bdd_ops_doc_def by - (elim conjE, assumption)+

text \<open>The valuation a list of bits stands for, and what the witness of a BDD is.\<close>

definition bits :: "nat \<Rightarrow> bool list \<Rightarrow> nat \<Rightarrow> bool" where
  "bits n v i \<longleftrightarrow> i < n \<and> v ! i"

lemma bits_eq: "bits n v = (\<lambda>i. i < n \<and> v ! i)"
  by (simp add: fun_eq_iff bits_def)

lemma bits_of_map: "bits n (map \<beta> [0..<n]) i \<longleftrightarrow> i < n \<and> \<beta> i"
  by (auto simp: bits_def)

lemma den_bits:
  assumes "bdd_doc n lib den"
  shows "den x (bits n (map \<beta> [0..<n])) = den x \<beta>"
  by (rule bdd_docD(13) [OF assms, rule_format]) (simp add: bits_of_map)

lemma bdd_witness_None:
  assumes "bdd_doc n lib den" and "bdd_witness lib x = None"
  shows "\<not> den x \<beta>"
proof
  assume "den x \<beta>"
  then have "den x (bits n (map \<beta> [0..<n]))" by (simp only: den_bits [OF assms(1)])
  then have "map \<beta> [0..<n] \<in> set (bdd_valuations lib x)"
    using bdd_docD(5) [OF assms(1)] by (simp add: bits_eq)
  with assms(2) bdd_docD(6) [OF assms(1)] show False by simp
qed

lemma bdd_witness_Some:
  assumes "bdd_doc n lib den" and "bdd_witness lib x = Some v"
  shows "length v = n" and "den x (bits n v)"
  using bdd_docD(5,7) [OF assms(1)] assms(2) by (auto simp: bits_eq)

lemma bdd_witness_ex:
  assumes "bdd_doc n lib den" and "den x \<beta>"
  shows "\<exists>v. bdd_witness lib x = Some v"
  using bdd_witness_None [OF assms(1), of x \<beta>] assms(2) by (cases "bdd_witness lib x") auto

section \<open>Truth tables\<close>

definition all_valuations :: "nat \<Rightarrow> bool list list" where
  "all_valuations n = List.n_lists n [False, True]"

definition table :: "nat \<Rightarrow> (bool list \<Rightarrow> bool) \<Rightarrow> bool list list" where
  "table n P = filter P (all_valuations n)"

definition table_den :: "nat \<Rightarrow> bool list list \<Rightarrow> (nat \<Rightarrow> bool) \<Rightarrow> bool" where
  "table_den n x \<beta> \<longleftrightarrow> map \<beta> [0..<n] \<in> set x"

definition table_exists :: "nat \<Rightarrow> (bool list \<Rightarrow> bool) \<Rightarrow> nat list \<Rightarrow> bool list list" where
  "table_exists n P vs =
     table n (\<lambda>v. list_ex (\<lambda>w. P w \<and> list_all (\<lambda>i. i \<in> set vs \<or> w ! i = v ! i) [0..<n]) (all_valuations n))"

definition table_expression :: "nat \<Rightarrow> (nat \<Rightarrow> string) \<Rightarrow> bool list list \<Rightarrow> boolean_expression" where
  "table_expression n name x =
     foldr BOr
       (map (\<lambda>v. foldr BAnd (map (\<lambda>i. if v ! i then BVariable (name i) else BNot (BVariable (name i))) [0..<n])
           (BConst True))
         (table n (\<lambda>v. v \<in> set x)))
       (BConst False)"

definition table_name :: "nat \<Rightarrow> string" where
  "table_name i = CHR ''x'' # replicate i CHR ''i''"

definition table_bdds :: "nat \<Rightarrow> bool list list bdd_lib" where
  "table_bdds n =
     \<lparr>mk_true = all_valuations n, mk_false = [], mk_var = (\<lambda>i. table n (\<lambda>v. v ! i)),
      bdd_conj = (\<lambda>x y. table n (\<lambda>v. v \<in> set x \<and> v \<in> set y)),
      bdd_disj = (\<lambda>x y. table n (\<lambda>v. v \<in> set x \<or> v \<in> set y)),
      bdd_not = (\<lambda>x. table n (\<lambda>v. \<not> v \<in> set x)),
      bdd_iff = (\<lambda>x y. table n (\<lambda>v. (v \<in> set x) = (v \<in> set y))),
      bdd_eq = (\<lambda>x y. table n (\<lambda>v. v \<in> set x) = table n (\<lambda>v. v \<in> set y)),
      bdd_exists = (\<lambda>x vs. table_exists n (\<lambda>v. v \<in> set x) vs),
      bdd_conj_exists = (\<lambda>x y vs. table_exists n (\<lambda>w. w \<in> set x \<and> w \<in> set y) vs),
      bdd_rename = (\<lambda>x i j. Some (table n (\<lambda>v. v[i := v ! j] \<in> set x))),
      bdd_valuations = (\<lambda>x. table n (\<lambda>v. v \<in> set x)),
      bdd_witness = (\<lambda>x. case table n (\<lambda>v. v \<in> set x) of [] \<Rightarrow> None | v # _ \<Rightarrow> Some v),
      bdd_expression = table_expression n table_name, bdd_name_of = table_name\<rparr>"

lemma set_all_valuations: "set (all_valuations n) = {v. length v = n}"
  by (auto simp: all_valuations_def set_n_lists)

lemma table_den_table [simp]: "table_den n (table n P) \<beta> = P (map \<beta> [0..<n])"
  by (simp add: table_den_def table_def set_all_valuations)

lemma valuation_as_map: "length v = n \<Longrightarrow> map (\<lambda>i. i < n \<and> v ! i) [0..<n] = v"
  by (auto simp: list_eq_iff_nth_eq)

lemma map_of_valuation: "length (v :: bool list) = n \<Longrightarrow> \<exists>\<beta>. v = map \<beta> [0..<n]"
  by (intro exI [of _ "\<lambda>i. i < n \<and> v ! i"]) (simp only: valuation_as_map)

lemma table_exists_den:
  "table_den n (table_exists n P vs) \<beta>
    \<longleftrightarrow> (\<exists>\<gamma>. (\<forall>i. i \<notin> set vs \<longrightarrow> \<gamma> i = \<beta> i) \<and> P (map \<gamma> [0..<n]))"
proof -
  have "(\<exists>w. length w = n \<and> P w \<and> (\<forall>i<n. i \<in> set vs \<or> w ! i = \<beta> i))
      \<longleftrightarrow> (\<exists>\<gamma>. (\<forall>i. i \<notin> set vs \<longrightarrow> \<gamma> i = \<beta> i) \<and> P (map \<gamma> [0..<n]))" (is "?L = ?R")
  proof
    assume ?L
    then obtain w where w: "length w = n" "P w" "\<forall>i<n. i \<in> set vs \<or> w ! i = \<beta> i" by blast
    let ?\<gamma> = "\<lambda>i. if i < n then w ! i else \<beta> i"
    have "map ?\<gamma> [0..<n] = w" using w(1) by (auto simp: list_eq_iff_nth_eq)
    with w show ?R by (intro exI [of _ ?\<gamma>]) auto
  next
    assume ?R
    then obtain \<gamma> where "\<forall>i. i \<notin> set vs \<longrightarrow> \<gamma> i = \<beta> i" "P (map \<gamma> [0..<n])" by blast
    moreover from this have "\<forall>i<n. i \<in> set vs \<or> map \<gamma> [0..<n] ! i = \<beta> i" by auto
    ultimately show ?L by (intro exI [of _ "map \<gamma> [0..<n]"]) simp
  qed
  moreover have "(\<forall>i\<in>set [0..<n]. i \<in> set vs \<or> w ! i = map \<beta> [0..<n] ! i) \<longleftrightarrow> (\<forall>i<n. i \<in> set vs \<or> w ! i = \<beta> i)" for w
    by auto
  ultimately show ?thesis
    by (simp add: table_exists_def list_ex_iff list_all_iff set_all_valuations del: set_upt)
qed

lemma table_expression_value:
  "bexpr_value \<rho> (table_expression n name x) = table_den n x (\<lambda>i. \<rho> (name i))"
proof -
  have conj: "bexpr_value \<rho> (foldr BAnd es (BConst True)) \<longleftrightarrow> (\<forall>e\<in>set es. bexpr_value \<rho> e)" for es
    by (induction es) auto
  have disj: "bexpr_value \<rho> (foldr BOr es (BConst False)) \<longleftrightarrow> (\<exists>e\<in>set es. bexpr_value \<rho> e)" for es
    by (induction es) auto
  have lit: "bexpr_value \<rho> (if b then BVariable s else BNot (BVariable s)) \<longleftrightarrow> \<rho> s = b" for b s
    by simp
  have eq: "length v = n \<and> (\<forall>i<n. \<rho> (name i) = v ! i) \<longleftrightarrow> v = map (\<lambda>i. \<rho> (name i)) [0..<n]" for v
    unfolding list_eq_iff_nth_eq by (intro conj_cong) (auto simp del: nth_map simp: nth_map_upt)
  let ?lits = "\<lambda>v. map (\<lambda>i. if v ! i then BVariable (name i) else BNot (BVariable (name i))) [0..<n]"
  have lits: "bexpr_value \<rho> (foldr BAnd (?lits v) (BConst True)) \<longleftrightarrow> (\<forall>i<n. \<rho> (name i) = v ! i)" for v
    by (simp only: conj list.set_map ball_simps lit) auto
  have "bexpr_value \<rho> (table_expression n name x)
      \<longleftrightarrow> (\<exists>v\<in>set x. length v = n \<and> (\<forall>i<n. \<rho> (name i) = v ! i))"
    by (simp only: table_expression_def disj list.set_map bex_simps lits table_def set_filter set_all_valuations) auto
  then show ?thesis by (simp only: eq table_den_def) blast
qed

lemma table_expression_basic:
  "bexpr_basic (name ` {..<n}) (table_expression n name x)"
proof -
  have conj: "bexpr_basic vs (foldr BAnd es (BConst True)) \<longleftrightarrow> (\<forall>e\<in>set es. bexpr_basic vs e)" for es vs
    by (induction es) auto
  have disj: "bexpr_basic vs (foldr BOr es (BConst False)) \<longleftrightarrow> (\<forall>e\<in>set es. bexpr_basic vs e)" for es vs
    by (induction es) auto
  show ?thesis by (auto simp: table_expression_def conj disj)
qed

lemma table_bdds_doc: "bdd_doc n (table_bdds n) (table_den n)"
proof -
  have ext_iff: "(\<forall>\<beta>. table_den n x \<beta> = table_den n y \<beta>) \<longleftrightarrow> table n (\<lambda>v. v \<in> set x) = table n (\<lambda>v. v \<in> set y)" for x y
  proof
    assume eq: "\<forall>\<beta>. table_den n x \<beta> = table_den n y \<beta>"
    have "(v \<in> set x) = (v \<in> set y)" if "length v = n" for v
      using eq map_of_valuation [OF that] by (auto simp: table_den_def)
    then show "table n (\<lambda>v. v \<in> set x) = table n (\<lambda>v. v \<in> set y)"
      unfolding table_def by (intro filter_cong) (simp_all add: set_all_valuations)
  next
    assume "table n (\<lambda>v. v \<in> set x) = table n (\<lambda>v. v \<in> set y)"
    then have "table_den n (table n (\<lambda>v. v \<in> set x)) \<beta> = table_den n (table n (\<lambda>v. v \<in> set y)) \<beta>" for \<beta> by simp
    then show "\<forall>\<beta>. table_den n x \<beta> = table_den n y \<beta>" by (simp only: table_den_table) (simp add: table_den_def)
  qed
  have var: "bdd_bool_doc n (table_bdds n) (table_den n)"
  proof -
    have all: "table_den n (all_valuations n) \<beta>" and none: "\<not> table_den n [] \<beta>" for \<beta>
      by (simp_all add: table_den_def set_all_valuations)
    have "(\<forall>i<n. \<beta> i = \<gamma> i) \<Longrightarrow> map \<beta> [0..<n] = map \<gamma> [0..<n]" for \<beta> \<gamma> :: "nat \<Rightarrow> bool" by simp
    then have "(\<forall>i<n. \<beta> i = \<gamma> i) \<Longrightarrow> table_den n x \<beta> = table_den n x \<gamma>" for x \<beta> \<gamma>
      by (simp only: table_den_def)
    then show ?thesis
      by (simp add: bdd_bool_doc_def table_bdds_def all none) (simp add: table_den_def)
  qed
  have upd: "(map \<beta> [0..<n])[i := \<beta> j] = map (\<beta>(i := \<beta> j)) [0..<n]" for \<beta> :: "nat \<Rightarrow> bool" and i j
    by (auto simp: list_eq_iff_nth_eq nth_list_update)
  have rename: "table_den n (table n (\<lambda>v. v[i := v ! j] \<in> set x)) \<beta> = table_den n x (\<beta>(i := \<beta> j))"
    if "j < n" for x i j \<beta>
    using that by (simp add: upd) (simp add: table_den_def)
  have "distinct (all_valuations n)" by (simp add: all_valuations_def distinct_n_lists)
  then have vals: "distinct (table n P)" "set (table n P) = {v. length v = n \<and> P v}" for P
    by (auto simp: table_def set_all_valuations)
  have den_val: "length v = n \<Longrightarrow> table_den n x (\<lambda>i. i < n \<and> v ! i) \<longleftrightarrow> v \<in> set x" for x v
    by (simp only: table_den_def valuation_as_map)
  have "inj_on table_name {..<n}" by (auto simp: inj_on_def table_name_def)
  then have "bdd_ops_doc n (table_bdds n) (table_den n)"
    unfolding bdd_ops_doc_def
  proof (intro conjI)
    show "\<forall>x. distinct (bdd_valuations (table_bdds n) x)
        \<and> set (bdd_valuations (table_bdds n) x) = {v. length v = n \<and> table_den n x (\<lambda>i. i < n \<and> v ! i)}"
      by (simp add: table_bdds_def vals den_val cong: conj_cong)
    show "\<forall>x v. bdd_witness (table_bdds n) x = Some v \<longrightarrow> v \<in> set (bdd_valuations (table_bdds n) x)"
      by (auto simp: table_bdds_def split: list.splits)
    have r: "table_den n (table n (\<lambda>v. v[i := v ! j] \<in> set x)) = (\<lambda>\<beta>. table_den n x (\<beta>(i := \<beta> j)))"
      if "j < n" for x i j
      using rename [OF that] by (rule ext)
    show "\<forall>x. \<forall>i<n. \<forall>j<n. \<not> depends_on (table_den n) x j
          \<and> \<not> (\<exists>k. (i < k \<and> k < j \<or> j < k \<and> k < i) \<and> depends_on (table_den n) x k)
          \<longrightarrow> (\<exists>y. bdd_rename (table_bdds n) x i j = Some y \<and> (\<forall>\<beta>. table_den n y \<beta> = table_den n x (\<beta>(i := \<beta> j))))"
      by (simp add: table_bdds_def r del: table_den_table)
  qed (simp_all add: table_bdds_def ext_iff table_exists_den table_expression_value
      table_expression_basic split: list.splits; simp add: table_den_def)+
  with var show ?thesis by (simp add: bdd_doc_def)
qed

end
