(* ===== verification/Bounded_Indices.thy ===== *)
theory Bounded_Indices
  imports Bounded_Quant_Enum Bdd
begin

text \<open>
  Model of \<^verbatim>\<open>bounded/src/indices.rs\<close>: numbering the boolean variables (relation, primes, tuple of
  elements) of a bounded state space. The nested hash maps are nested maps. The BDD library is
  third-party code: a record of the functions used, of a type of BDDs that stays a parameter. Its
  variable type holds 16 bits, of which it reserves two values, so creating the variable set panics from
  \<open>2 ^ 16 - 2\<close> variables on.
\<close>

section \<open>Definitions\<close>

type_synonym index_map = "string \<rightharpoonup> (element list \<rightharpoonup> nat \<times> bool)"

record indices =
  ix_signature :: signature
  ix_universe :: universe_bounds
  ix_num_mutable_copies :: nat
  ix_num_mutables :: nat
  ix_num_vars :: nat
  ix_bdd_variables :: "nat list"
  ix_indices :: index_map

definition entry_insert :: "string \<Rightarrow> element list \<Rightarrow> nat \<times> bool \<Rightarrow> index_map \<Rightarrow> index_map" where
  "entry_insert r e v m = m(r \<mapsto> ((case m r of Some mm \<Rightarrow> mm | None \<Rightarrow> Map.empty)(e \<mapsto> v)))"

definition relation_elements ::
  "itertools \<Rightarrow> universe_bounds \<Rightarrow> relation_decl \<Rightarrow> (string \<times> element list) list option" where
  "relation_elements it universe relation =
     map_option (\<lambda>cards. map (\<lambda>e. (rd_name relation, e)) (mcp_fixed (mcp_nat it) (upto_lists cards)))
       (those (map (bounds_cardinality universe) (rd_args relation)))"

definition insert_indices ::
  "(nat \<Rightarrow> nat \<times> bool) \<Rightarrow> (string \<times> element list) list \<Rightarrow> index_map \<Rightarrow> index_map" where
  "insert_indices f res m = fold (\<lambda>(i, (r, e)). entry_insert r e (f i)) (enumerate 0 res) m"

definition indices_new ::
  "itertools \<Rightarrow> signature \<Rightarrow> universe_bounds \<Rightarrow> nat \<Rightarrow> indices option" where
  "indices_new it sig universe num_mutable_copies =
     (let mutable = filter rd_mutable (sig_relations sig);
          immutable = filter (\<lambda>r. \<not> rd_mutable r) (sig_relations sig)
      in case those (map (relation_elements it universe) mutable) of None \<Rightarrow> None | Some mutss \<Rightarrow>
        (case those (map (relation_elements it universe) immutable) of None \<Rightarrow> None | Some immss \<Rightarrow>
          (let muts = concat mutss; imms = concat immss;
               num_mutables = length muts;
               m1 = insert_indices (\<lambda>i. (i, True)) muts Map.empty;
               num_immutables = length imms;
               m2 = insert_indices (\<lambda>i. (num_mutables * num_mutable_copies + i, False)) imms m1;
               num_vars = num_mutables * num_mutable_copies + num_immutables
           in if int num_vars < 2 ^ 16 - 2
              then Some \<lparr>ix_signature = sig, ix_universe = universe,
                     ix_num_mutable_copies = num_mutable_copies, ix_num_mutables = num_mutables,
                     ix_num_vars = num_vars, ix_bdd_variables = [0..<num_vars],
                     ix_indices = m2\<rparr>
              else None)))"

definition index_lookup :: "index_map \<Rightarrow> string \<Rightarrow> element list \<Rightarrow> (nat \<times> bool) option" where
  "index_lookup m relation elements =
     (case m relation of None \<Rightarrow> None | Some mm \<Rightarrow> mm elements)"

definition indices_get :: "indices \<Rightarrow> string \<Rightarrow> nat \<Rightarrow> element list \<Rightarrow> nat option" where
  "indices_get ix relation primes elements =
     (if primes < ix_num_mutable_copies ix
      then map_option (\<lambda>(i, mutable). if mutable then i + primes * ix_num_mutables ix else i)
             (index_lookup (ix_indices ix) relation elements)
      else None)"

definition indices_var :: "indices \<Rightarrow> nat \<times> indices" where
  "indices_var ix =
     (let ix' = ix\<lparr>ix_num_vars := ix_num_vars ix + 1\<rparr> in (ix_num_vars ix' - 1, ix'))"

definition indices_model ::
  "itertools \<Rightarrow> indices \<Rightarrow> nat \<Rightarrow> (nat \<Rightarrow> nat option) \<Rightarrow> model option" where
  "indices_model it ix primes f =
     (case those (map (ix_universe ix) (sig_sorts (ix_signature ix))) of None \<Rightarrow> None | Some universe \<Rightarrow>
      (case those (map (\<lambda>r.
           case those (map (bounds_cardinality (ix_universe ix)) (rd_args r @ [rd_sort r])) of
             None \<Rightarrow> None
           | Some shape \<Rightarrow>
               interp_new it shape (\<lambda>xs. Option.bind (indices_get ix (rd_name r) primes xs) f))
         (sig_relations (ix_signature ix))) of
         None \<Rightarrow> None
       | Some interp \<Rightarrow> model_new (ix_signature ix) universe interp))"

definition bdd_var :: "'b bdd_lib \<Rightarrow> indices \<Rightarrow> string \<Rightarrow> nat \<Rightarrow> element list \<Rightarrow> 'b option" where
  "bdd_var lib ix relation primes elements =
     (case indices_get ix relation primes elements of
        None \<Rightarrow> None
      | Some i \<Rightarrow> (if i < length (ix_bdd_variables ix)
                  then Some (mk_var lib (ix_bdd_variables ix ! i)) else None))"

definition bdd_and :: "'b bdd_lib \<Rightarrow> 'b list \<Rightarrow> 'b" where
  "bdd_and lib bdds = foldl (bdd_conj lib) (mk_true lib) bdds"

definition bdd_or :: "'b bdd_lib \<Rightarrow> 'b list \<Rightarrow> 'b" where
  "bdd_or lib bdds = foldl (bdd_disj lib) (mk_false lib) bdds"

fun bdd_from_enumerated :: "'b bdd_lib \<Rightarrow> indices \<Rightarrow> enumerated \<Rightarrow> 'b option" where
  "bdd_from_enumerated lib ix (EAnd xs) =
     map_option (bdd_and lib) (those (map (bdd_from_enumerated lib ix) xs))"
| "bdd_from_enumerated lib ix (EOr xs) =
     map_option (bdd_or lib) (those (map (bdd_from_enumerated lib ix) xs))"
| "bdd_from_enumerated lib ix (ENot x) = map_option (bdd_not lib) (bdd_from_enumerated lib ix x)"
| "bdd_from_enumerated lib ix (EEq x y) =
     (case bdd_from_enumerated lib ix x of None \<Rightarrow> None | Some a \<Rightarrow>
      (case bdd_from_enumerated lib ix y of None \<Rightarrow> None | Some b \<Rightarrow> Some (bdd_iff lib a b)))"
| "bdd_from_enumerated lib ix (EApp name primes args) = bdd_var lib ix name primes args"

section \<open>The numbering is injective\<close>

lemma index_lookup_insert:
  "index_lookup (entry_insert r e v m) r' e' = (if r = r' \<and> e = e' then Some v else index_lookup m r' e')"
  by (auto simp: index_lookup_def entry_insert_def split: option.splits)

lemma insert_enumerate:
  "distinct res \<Longrightarrow>
   index_lookup (fold (\<lambda>(i, (r, e)). entry_insert r e (f i)) (enumerate n res) m) r' e'
     = (case position (\<lambda>x. x = (r', e')) res of
          Some i \<Rightarrow> Some (f (n + i)) | None \<Rightarrow> index_lookup m r' e')"
proof (induction res arbitrary: n m)
  case Nil
  then show ?case by simp
next
  case (Cons x res)
  obtain r e where x: "x = (r, e)" by force
  have "position (\<lambda>y. y = (r, e)) res = None" using Cons.prems x by (auto simp: position_None_iff)
  then show ?case
    using Cons by (auto simp: x index_lookup_insert split: option.splits)
qed

lemma lookup_insert_indices:
  "distinct res \<Longrightarrow>
   index_lookup (insert_indices f res m) r e
     = (case position (\<lambda>x. x = (r, e)) res of Some i \<Rightarrow> Some (f i) | None \<Rightarrow> index_lookup m r e)"
  using insert_enumerate [of res f 0 m r e] by (simp add: insert_indices_def cong: option.case_cong)

text \<open>The tuples of a relation, as a set.\<close>

definition relation_tuples :: "universe_bounds \<Rightarrow> relation_decl \<Rightarrow> element list set" where
  "relation_tuples u r =
     {es. list_all2 (\<lambda>v s. \<exists>c. bounds_cardinality u s = Some c \<and> v < c) es (rd_args r)}"

lemma relation_elements_ok:
  assumes "itertools_doc it" and "relation_elements it u r = Some es"
  shows "set es = Pair (rd_name r) ` relation_tuples u r \<and> distinct es"
proof -
  from assms(2) obtain cards where cards: "those (map (bounds_cardinality u) (rd_args r)) = Some cards"
    and es: "es = map (\<lambda>e. (rd_name r, e)) (product_lists (upto_lists cards))"
    using assms(1) by (auto simp: relation_elements_def doc_simps)
  have "list_all2 (\<lambda>s c. bounds_cardinality u s = Some c) (rd_args r) cards"
    using those_map_SomeD [OF cards] by (simp add: list_all2_conv_all_nth)
  then have "list_all2 (<) vs cards \<longleftrightarrow> vs \<in> relation_tuples u r" for vs
    by (fastforce simp: relation_tuples_def list_all2_conv_all_nth)
  then have "set (product_lists (upto_lists cards)) = relation_tuples u r"
    using tuples_iff [of _ cards] by (auto simp: tuples_def)
  moreover have "distinct (product_lists (upto_lists cards))"
    by (intro distinct_product_lists) (simp add: upto_lists_def)
  ultimately show ?thesis by (auto simp: es distinct_map inj_on_def)
qed

lemma relations_elements_ok:
  assumes "itertools_doc it" and "those (map (relation_elements it u) rs) = Some ess"
    and "distinct (map rd_name rs)"
  shows "set (concat ess) = {(rd_name r, e) |r e. r \<in> set rs \<and> e \<in> relation_tuples u r}
    \<and> distinct (concat ess)"
  using assms(2,3)
proof (induction rs arbitrary: ess)
  case Nil
  then show ?case by simp
next
  case (Cons r rs)
  then obtain es ess' where es: "relation_elements it u r = Some es"
    and ess': "those (map (relation_elements it u) rs) = Some ess'" and ess: "ess = es # ess'"
    by (auto split: option.splits)
  from relation_elements_ok [OF assms(1) es]
  have r: "set es = Pair (rd_name r) ` relation_tuples u r" "distinct es" by simp_all
  from Cons.IH [OF ess'] Cons.prems(2)
  have rs: "set (concat ess') = {(rd_name r, e) |r e. r \<in> set rs \<and> e \<in> relation_tuples u r}"
    "distinct (concat ess')" by simp_all
  have "set es \<inter> set (concat ess') = {}"
    using Cons.prems(2) unfolding r(1) rs(1) by auto
  then have "distinct (concat ess)" using r(2) rs(2) by (simp add: ess)
  moreover have "set (concat ess) = {(rd_name r', e) |r' e. r' \<in> set (r # rs) \<and> e \<in> relation_tuples u r'}"
    unfolding ess concat.simps set_append r(1) rs(1) by auto
  ultimately show ?case by simp
qed

definition names_distinct :: "signature \<Rightarrow> bool" where
  "names_distinct sig \<longleftrightarrow> distinct (map rd_name (sig_relations sig))"

lemma position_inj:
  "position (\<lambda>x. x = k) xs = Some i \<Longrightarrow> position (\<lambda>x. x = k') xs = Some i \<Longrightarrow> k = k'"
  by (auto dest!: position_SomeD)

lemma indices_new_cases:
  assumes "itertools_doc it" and "names_distinct sig" and "indices_new it sig u c = Some ix"
  obtains muts imms
  where "set muts = {(rd_name r, e) |r e. r \<in> set (sig_relations sig) \<and> rd_mutable r \<and> e \<in> relation_tuples u r}"
    and "set imms = {(rd_name r, e) |r e. r \<in> set (sig_relations sig) \<and> \<not> rd_mutable r \<and> e \<in> relation_tuples u r}"
    and "\<And>r e. index_lookup (ix_indices ix) r e =
      (case position (\<lambda>x. x = (r, e)) imms of
         Some i \<Rightarrow> Some (length muts * c + i, False)
       | None \<Rightarrow> map_option (\<lambda>i. (i, True)) (position (\<lambda>x. x = (r, e)) muts))"
    and "ix_num_mutables ix = length muts" and "ix_num_vars ix = length muts * c + length imms"
    and "ix_num_mutable_copies ix = c" and "ix_signature ix = sig" and "ix_universe ix = u"
    and "ix_bdd_variables ix = [0..<ix_num_vars ix]" and "distinct muts" and "distinct imms"
proof -
  let ?M = "filter rd_mutable (sig_relations sig)"
  let ?I = "filter (\<lambda>r. \<not> rd_mutable r) (sig_relations sig)"
  from assms(3) obtain mutss immss
    where m: "those (map (relation_elements it u) ?M) = Some mutss"
      and i: "those (map (relation_elements it u) ?I) = Some immss"
      and ix: "ix = \<lparr>ix_signature = sig, ix_universe = u, ix_num_mutable_copies = c,
        ix_num_mutables = length (concat mutss),
        ix_num_vars = length (concat mutss) * c + length (concat immss),
        ix_bdd_variables = [0..<length (concat mutss) * c + length (concat immss)],
        ix_indices = insert_indices (\<lambda>i. (length (concat mutss) * c + i, False)) (concat immss)
          (insert_indices (\<lambda>i. (i, True)) (concat mutss) Map.empty)\<rparr>"
    by (auto simp: indices_new_def Let_def split: option.splits if_splits)
  have "distinct (map rd_name ?M)" "distinct (map rd_name ?I)"
    using assms(2) by (simp_all add: names_distinct_def distinct_map_filter)
  note M = relations_elements_ok [OF assms(1) m this(1)] and I = relations_elements_ok [OF assms(1) i this(2)]
  have empty: "index_lookup Map.empty r e = None" for r e by (simp add: index_lookup_def)
  show thesis
  proof (rule that [of "concat mutss" "concat immss"])
    show "index_lookup (ix_indices ix) r e =
      (case position (\<lambda>x. x = (r, e)) (concat immss) of
         Some i \<Rightarrow> Some (length (concat mutss) * c + i, False)
       | None \<Rightarrow> map_option (\<lambda>i. (i, True)) (position (\<lambda>x. x = (r, e)) (concat mutss)))" for r e
      using M I by (simp add: ix lookup_insert_indices empty map_option_case split: option.split)
  qed (use M I in \<open>auto simp: ix\<close>)
qed

definition index_slot :: "signature \<Rightarrow> universe_bounds \<Rightarrow> relation_decl \<Rightarrow> element list \<Rightarrow> bool" where
  "index_slot sig u r es \<longleftrightarrow> r \<in> set (sig_relations sig) \<and> es \<in> relation_tuples u r"

lemma same_name:
  "\<lbrakk> names_distinct sig; r \<in> set (sig_relations sig); r' \<in> set (sig_relations sig); rd_name r = rd_name r' \<rbrakk>
   \<Longrightarrow> r = r'"
  by (auto simp: names_distinct_def distinct_map inj_on_def)

text \<open>Every number below is the index of something.\<close>

lemma index_lookup_onto:
  assumes "itertools_doc it" and "names_distinct sig" and "indices_new it sig u c = Some ix"
  shows "k < ix_num_mutables ix \<Longrightarrow> \<exists>r es. index_lookup (ix_indices ix) r es = Some (k, True)"
    and "ix_num_mutables ix * c \<le> k \<Longrightarrow> k < ix_num_vars ix \<Longrightarrow> \<exists>r es. index_lookup (ix_indices ix) r es = Some (k, False)"
proof -
  obtain muts imms where
    muts: "set muts = {(rd_name r, e) |r e. r \<in> set (sig_relations sig) \<and> rd_mutable r \<and> e \<in> relation_tuples u r}"
    and imms: "set imms = {(rd_name r, e) |r e. r \<in> set (sig_relations sig) \<and> \<not> rd_mutable r \<and> e \<in> relation_tuples u r}"
    and lookup: "\<And>r e. index_lookup (ix_indices ix) r e =
      (case position (\<lambda>x. x = (r, e)) imms of
         Some i \<Rightarrow> Some (length muts * c + i, False)
       | None \<Rightarrow> map_option (\<lambda>i. (i, True)) (position (\<lambda>x. x = (r, e)) muts))"
    and n: "ix_num_mutables ix = length muts" "ix_num_vars ix = length muts * c + length imms"
    and dist: "distinct muts" "distinct imms"
    by (rule indices_new_cases [OF assms]) blast
  have disj: "set muts \<inter> set imms = {}"
    unfolding muts imms using same_name [OF assms(2)] by blast
  show "\<exists>r es. index_lookup (ix_indices ix) r es = Some (k, True)" if k: "k < ix_num_mutables ix"
  proof -
    obtain r es where x: "muts ! k = (r, es)" by force
    have "position (\<lambda>x. x = (r, es)) muts = Some k"
      using position_distinct [of "\<lambda>x. x" muts k] dist(1) k n(1) by (simp add: x)
    moreover have "position (\<lambda>x. x = (r, es)) imms = None"
      using disj x k n(1) nth_mem [of k muts] by (auto simp: position_None_iff)
    ultimately have "index_lookup (ix_indices ix) r es = Some (k, True)" unfolding lookup by simp
    then show ?thesis by blast
  qed
  show "\<exists>r es. index_lookup (ix_indices ix) r es = Some (k, False)"
    if k: "ix_num_mutables ix * c \<le> k" "k < ix_num_vars ix"
  proof -
    let ?j = "k - length muts * c"
    have j: "?j < length imms" "length muts * c + ?j = k" using k n by auto
    obtain r es where x: "imms ! ?j = (r, es)" by force
    have "position (\<lambda>x. x = (r, es)) imms = Some ?j"
      using position_distinct [of "\<lambda>x. x" imms ?j] dist(2) j(1) by (simp add: x)
    then have "index_lookup (ix_indices ix) r es = Some (k, False)" unfolding lookup using j(2) by simp
    then show ?thesis by blast
  qed
qed

text \<open>The index of a mutable slot: block \<open>p\<close> of the mutable part; of an immutable slot: a place
  after all mutable blocks.\<close>

lemma indices_get_range:
  assumes "itertools_doc it" and "names_distinct sig" and "indices_new it sig u c = Some ix"
    and "index_slot sig u r es" and "p < c"
  shows "\<exists>k. indices_get ix (rd_name r) p es = Some k \<and>
    (if rd_mutable r then \<exists>i<ix_num_mutables ix. k = i + p * ix_num_mutables ix
        \<and> index_lookup (ix_indices ix) (rd_name r) es = Some (i, True)
     else ix_num_mutables ix * c \<le> k \<and> k < ix_num_vars ix
        \<and> index_lookup (ix_indices ix) (rd_name r) es = Some (k, False))"
proof -
  obtain muts imms where
    muts: "set muts = {(rd_name r, e) |r e. r \<in> set (sig_relations sig) \<and> rd_mutable r \<and> e \<in> relation_tuples u r}"
    and imms: "set imms = {(rd_name r, e) |r e. r \<in> set (sig_relations sig) \<and> \<not> rd_mutable r \<and> e \<in> relation_tuples u r}"
    and lookup: "\<And>r e. index_lookup (ix_indices ix) r e =
      (case position (\<lambda>x. x = (r, e)) imms of
         Some i \<Rightarrow> Some (length muts * c + i, False)
       | None \<Rightarrow> map_option (\<lambda>i. (i, True)) (position (\<lambda>x. x = (r, e)) muts))"
    and n: "ix_num_mutables ix = length muts" "ix_num_vars ix = length muts * c + length imms"
      "ix_num_mutable_copies ix = c"
    by (rule indices_new_cases [OF assms(1-3)]) blast
  from assms(4) have r: "r \<in> set (sig_relations sig)" "es \<in> relation_tuples u r"
    by (simp_all add: index_slot_def)
  show ?thesis
  proof (cases "rd_mutable r")
    case True
    have not_imm: "(rd_name r, es) \<notin> set imms"
      using same_name [OF assms(2) r(1)] True unfolding imms by fastforce
    have "(rd_name r, es) \<in> set muts" using r True unfolding muts by blast
    then obtain i where i: "position (\<lambda>x. x = (rd_name r, es)) muts = Some i"
      using position_Some_ex [of "(rd_name r, es)" muts "\<lambda>x. x = (rd_name r, es)"] by blast
    have "position (\<lambda>x. x = (rd_name r, es)) imms = None"
      using not_imm by (auto simp: position_None_iff)
    then have "index_lookup (ix_indices ix) (rd_name r) es = Some (i, True)" "i < length muts"
      using i position_SomeD [OF i] by (simp_all add: lookup)
    then show ?thesis using True assms(5) n by (auto simp: indices_get_def)
  next
    case False
    then have "(rd_name r, es) \<in> set imms" using r unfolding imms by blast
    then obtain i where "position (\<lambda>x. x = (rd_name r, es)) imms = Some i" "i < length imms"
      using position_Some_ex [of "(rd_name r, es)" imms "\<lambda>x. x = (rd_name r, es)"]
      by (auto dest: position_SomeD)
    then show ?thesis using False assms(5) n by (simp add: indices_get_def lookup)
  qed
qed

lemma index_lookup_inj:
  assumes "itertools_doc it" and "names_distinct sig" and "indices_new it sig u c = Some ix"
    and "index_lookup (ix_indices ix) f es = Some (i, b)"
    and "index_lookup (ix_indices ix) g fs = Some (i, b)"
  shows "f = g \<and> es = fs"
proof -
  obtain muts imms where
    lookup: "\<And>r e. index_lookup (ix_indices ix) r e =
      (case position (\<lambda>x. x = (r, e)) imms of
         Some i \<Rightarrow> Some (length muts * c + i, False)
       | None \<Rightarrow> map_option (\<lambda>i. (i, True)) (position (\<lambda>x. x = (r, e)) muts))"
    by (rule indices_new_cases [OF assms(1-3)]) blast
  show ?thesis
  proof (cases b)
    case True
    then show ?thesis
      using assms(4,5) position_inj [of "(f, es)" muts i "(g, fs)"]
      by (auto simp: lookup split: option.splits)
  next
    case False
    then show ?thesis
      using assms(4,5) position_inj [of "(f, es)" imms "i - length muts * c" "(g, fs)"]
      by (auto simp: lookup split: option.splits)
  qed
qed

lemma div_block:
  assumes "i < n" and "j < n" and "i + p * n = j + q * n" shows "i = j \<and> p = (q::nat)"
proof -
  have "(i + p * n) mod n = i" "(j + q * n) mod n = j" using assms(1,2) by simp_all
  moreover have "(i + p * n) div n = p" "(j + q * n) div n = q" using assms(1,2) by simp_all
  ultimately show ?thesis using assms(3) by metis
qed

lemma indices_get_injective_slots:
  assumes "itertools_doc it" and "names_distinct sig" and "indices_new it sig u c = Some ix"
    and "index_slot sig u r es" and "index_slot sig u r' es'" and "p < c" and "p' < c"
  shows "\<exists>k k'. indices_get ix (rd_name r) p es = Some k \<and> indices_get ix (rd_name r') p' es' = Some k'
    \<and> k < ix_num_vars ix \<and> k' < ix_num_vars ix
    \<and> (k = k' \<longleftrightarrow> r = r' \<and> es = es' \<and> (rd_mutable r \<longrightarrow> p = p'))"
proof -
  let ?n = "ix_num_mutables ix"
  note inj = index_lookup_inj [OF assms(1-3)]
  obtain muts imms :: "(string \<times> element list) list" where n: "?n = length muts"
      "ix_num_vars ix = length muts * c + length imms"
    by (rule indices_new_cases [OF assms(1-3)]) blast
  from indices_get_range [OF assms(1-4,6)] obtain k where k: "indices_get ix (rd_name r) p es = Some k"
    and rk: "if rd_mutable r then \<exists>i<?n. k = i + p * ?n
        \<and> index_lookup (ix_indices ix) (rd_name r) es = Some (i, True)
     else ?n * c \<le> k \<and> k < ix_num_vars ix
        \<and> index_lookup (ix_indices ix) (rd_name r) es = Some (k, False)" by blast
  from indices_get_range [OF assms(1-3,5,7)] obtain k' where k': "indices_get ix (rd_name r') p' es' = Some k'"
    and rk': "if rd_mutable r' then \<exists>i<?n. k' = i + p' * ?n
        \<and> index_lookup (ix_indices ix) (rd_name r') es' = Some (i, True)
     else ?n * c \<le> k' \<and> k' < ix_num_vars ix
        \<and> index_lookup (ix_indices ix) (rd_name r') es' = Some (k', False)" by blast
  have block: "i + q * ?n < ?n * c" if "i < ?n" "q < c" for i q
  proof -
    have "i + q * ?n < Suc q * ?n" using that by simp
    also have "\<dots> \<le> c * ?n" using that by (intro mult_le_mono1) simp
    finally show ?thesis by (simp add: mult.commute)
  qed
  have less: "k < ix_num_vars ix" "k' < ix_num_vars ix"
    using rk rk' block assms(6,7) n by (auto simp: trans_less_add1 split: if_splits)
  have names: "rd_name r = rd_name r' \<Longrightarrow> r = r'"
    using same_name [OF assms(2)] assms(4,5) by (auto simp: index_slot_def)
  have "k = k' \<longleftrightarrow> r = r' \<and> es = es' \<and> (rd_mutable r \<longrightarrow> p = p')"
  proof
    assume eq: "k = k'"
    have mut: "rd_mutable r = rd_mutable r'"
      using rk rk' eq block assms(6,7) by (auto split: if_splits) (metis not_less)+
    show "r = r' \<and> es = es' \<and> (rd_mutable r \<longrightarrow> p = p')"
    proof (cases "rd_mutable r")
      case True
      with mut rk rk' obtain i j where "i < ?n" "k = i + p * ?n" "j < ?n" "k' = j + p' * ?n"
        and l: "index_lookup (ix_indices ix) (rd_name r) es = Some (i, True)"
          "index_lookup (ix_indices ix) (rd_name r') es' = Some (j, True)" by auto
      with eq div_block [of i ?n j p p'] have "i = j" "p = p'" by auto
      with inj l names show ?thesis by blast
    next
      case False
      with mut rk rk' eq inj names show ?thesis by (metis (no_types, lifting))
    qed
  next
    assume "r = r' \<and> es = es' \<and> (rd_mutable r \<longrightarrow> p = p')"
    with k k' rk rk' show "k = k'" by (auto split: if_splits)
  qed
  with k k' less show ?thesis by blast
qed

text \<open>C30: every slot of the state space (a declared relation, a number of primes below the number
  of copies, a tuple in range) has an index below \<open>num_vars\<close>, and different slots have different
  indices: the copies of mutable relations do not overlap each other nor the immutable part. Only
  the primes of an immutable relation make no difference.\<close>

theorem indices_get_injective:
  assumes "itertools_doc it" and "names_distinct sig" and "indices_new it sig u c = Some ix"
    and "index_slot sig u r es" and "index_slot sig u r' es'" and "p < c" and "p' < c"
  shows "\<exists>k k'. indices_get ix (rd_name r) p es = Some k \<and> indices_get ix (rd_name r') p' es' = Some k'
    \<and> k < ix_num_vars ix \<and> k' < ix_num_vars ix
    \<and> (k = k' \<longleftrightarrow> r = r' \<and> es = es' \<and> (rd_mutable r \<longrightarrow> p = p'))"
  using indices_get_injective_slots [OF assms] .

definition lock_indices :: indices where
  "lock_indices =
     \<lparr>ix_signature = lock_sig, ix_universe = [''node'' \<mapsto> 2], ix_num_mutable_copies = 2,
      ix_num_mutables = 3, ix_num_vars = 6, ix_bdd_variables = [0..<6],
      ix_indices = [''held'' \<mapsto> [[0] \<mapsto> (0, True), [1] \<mapsto> (1, True)], ''idle'' \<mapsto> [[] \<mapsto> (2, True)]]\<rparr>"

lemma lock_indices: "indices_new itertools_ref lock_sig [''node'' \<mapsto> 2] 2 = Some lock_indices"
proof -
  have "[0..<2] = [0, 1::nat]" by (simp add: upt_rec One_nat_def)
  then show ?thesis
    by (simp add: indices_new_def lock_sig_def lock_indices_def relation_elements_def
        bounds_cardinality_def upto_lists_def insert_indices_def entry_insert_def Let_def One_nat_def
        itertools_docD [OF itertools_doc_ref]) (simp add: numeral_2_eq_2)
qed

lemma lock_names: "names_distinct lock_sig"
  by (simp add: names_distinct_def lock_sig_def)

theorem indices_get_injective_witness:
  "indices_get lock_indices ''held'' 0 [1] = Some 1 \<and> indices_get lock_indices ''idle'' 1 [] = Some 5
   \<and> ix_num_vars lock_indices = 6
   \<and> (\<exists>k k'. indices_get lock_indices ''held'' 0 [1] = Some k \<and> indices_get lock_indices ''held'' 1 [1] = Some k' \<and> k \<noteq> k')"
proof -
  let ?r = "\<lparr>rd_mutable = True, rd_name = ''held'', rd_args = [Uninterpreted ''node''], rd_sort = Bool\<rparr>"
  have "index_slot lock_sig [''node'' \<mapsto> 2] ?r [1]"
    by (simp add: index_slot_def lock_sig_def relation_tuples_def bounds_cardinality_def)
  from indices_get_injective [OF itertools_doc_ref lock_names lock_indices this this, of 0 1]
  have "\<exists>k k'. indices_get lock_indices ''held'' 0 [1] = Some k
      \<and> indices_get lock_indices ''held'' 1 [1] = Some k' \<and> k \<noteq> k'" by (auto simp: One_nat_def)
  moreover have "indices_get lock_indices ''held'' 0 [1] = Some 1
    \<and> indices_get lock_indices ''idle'' 1 [] = Some 5 \<and> ix_num_vars lock_indices = 6" by code_simp
  ultimately show ?thesis by blast
qed

section \<open>BDDs\<close>

lemma bdd_and_den: "bdd_bool_doc n lib den \<Longrightarrow> den (bdd_and lib xs) \<beta> \<longleftrightarrow> (\<forall>x\<in>set xs. den x \<beta>)"
proof -
  assume doc: "bdd_bool_doc n lib den"
  have "den (foldl (bdd_conj lib) acc xs) \<beta> \<longleftrightarrow> den acc \<beta> \<and> (\<forall>x\<in>set xs. den x \<beta>)" for acc
    using doc by (induction xs arbitrary: acc) (auto simp: bdd_bool_doc_def)
  then show ?thesis using doc by (simp add: bdd_and_def bdd_bool_doc_def)
qed

lemma bdd_or_den: "bdd_bool_doc n lib den \<Longrightarrow> den (bdd_or lib xs) \<beta> \<longleftrightarrow> (\<exists>x\<in>set xs. den x \<beta>)"
proof -
  assume doc: "bdd_bool_doc n lib den"
  have "den (foldl (bdd_disj lib) acc xs) \<beta> \<longleftrightarrow> den acc \<beta> \<or> (\<exists>x\<in>set xs. den x \<beta>)" for acc
    using doc by (induction xs arbitrary: acc) (auto simp: bdd_bool_doc_def)
  then show ?thesis using doc by (simp add: bdd_or_def bdd_bool_doc_def)
qed

definition index_valuation :: "indices \<Rightarrow> (nat \<Rightarrow> bool) \<Rightarrow> enum_valuation" where
  "index_valuation ix \<beta> f p es = (case indices_get ix f p es of Some k \<Rightarrow> \<beta> k | None \<Rightarrow> False)"

fun indexed :: "indices \<Rightarrow> enumerated \<Rightarrow> bool" where
  "indexed ix (EAnd es) \<longleftrightarrow> list_all (indexed ix) es"
| "indexed ix (EOr es) \<longleftrightarrow> list_all (indexed ix) es"
| "indexed ix (ENot e) \<longleftrightarrow> indexed ix e"
| "indexed ix (EEq e f) \<longleftrightarrow> indexed ix e \<and> indexed ix f"
| "indexed ix (EApp f p es) \<longleftrightarrow> (\<exists>k<ix_num_vars ix. indices_get ix f p es = Some k)"

lemma indices_get_vars_apply: "indices_get (ix\<lparr>ix_num_vars := n\<rparr>) f p es = indices_get ix f p es"
  by (cases "index_lookup (ix_indices ix) f es") (auto simp: indices_get_def)

lemma indices_get_vars [simp]:
  "indices_get (ix\<lparr>ix_num_vars := n\<rparr>) = indices_get ix"
  "index_valuation (ix\<lparr>ix_num_vars := n\<rparr>) = index_valuation ix"
  by (simp_all add: fun_eq_iff indices_get_vars_apply index_valuation_def)

lemma bdd_from_enumerated_den:
  assumes doc: "bdd_bool_doc (ix_num_vars ix) lib den" and vars: "ix_bdd_variables ix = [0..<ix_num_vars ix]"
  shows "indexed ix e \<Longrightarrow> \<exists>b. bdd_from_enumerated lib ix e = Some b
    \<and> (\<forall>\<beta>. den b \<beta> \<longleftrightarrow> eeval (index_valuation ix \<beta>) e)"
proof (induction e)
  case (EAnd es)
  then have "\<forall>e\<in>set es. \<exists>b. bdd_from_enumerated lib ix e = Some b
      \<and> (\<forall>\<beta>. den b \<beta> \<longleftrightarrow> eeval (index_valuation ix \<beta>) e)" by (simp add: list_all_iff)
  then obtain B where "\<forall>e\<in>set es. bdd_from_enumerated lib ix e = Some (B e)
      \<and> (\<forall>\<beta>. den (B e) \<beta> \<longleftrightarrow> eeval (index_valuation ix \<beta>) e)" by metis
  moreover from this have "those (map (bdd_from_enumerated lib ix) es) = Some (map B es)"
    by (intro those_map_SomeI) simp
  ultimately show ?case by (simp add: bdd_and_den [OF doc] list_all_iff)
next
  case (EOr es)
  then have "\<forall>e\<in>set es. \<exists>b. bdd_from_enumerated lib ix e = Some b
      \<and> (\<forall>\<beta>. den b \<beta> \<longleftrightarrow> eeval (index_valuation ix \<beta>) e)" by (simp add: list_all_iff)
  then obtain B where "\<forall>e\<in>set es. bdd_from_enumerated lib ix e = Some (B e)
      \<and> (\<forall>\<beta>. den (B e) \<beta> \<longleftrightarrow> eeval (index_valuation ix \<beta>) e)" by metis
  moreover from this have "those (map (bdd_from_enumerated lib ix) es) = Some (map B es)"
    by (intro those_map_SomeI) simp
  ultimately show ?case by (simp add: bdd_or_den [OF doc] list_ex_iff)
next
  case (EApp f p es)
  then show ?case
    using doc by (auto simp: bdd_var_def vars index_valuation_def bdd_bool_doc_def)
qed (use doc in \<open>auto simp: bdd_bool_doc_def\<close>)

text \<open>With a BDD library that behaves as documented, \<open>bdd_from_enumerated\<close> does not panic on
  formulas whose variables the indices know, and its result denotes the formula.\<close>

theorem bdd_from_enumerated_correct:
  assumes "bdd_bool_doc (ix_num_vars ix) lib den" and "itertools_doc it" and "names_distinct sig"
    and "indices_new it sig u c = Some ix" and "indexed ix e"
  shows "\<exists>b. bdd_from_enumerated lib ix e = Some b
    \<and> (\<forall>\<beta>. den b \<beta> \<longleftrightarrow> eeval (index_valuation ix \<beta>) e)"
proof -
  have "ix_bdd_variables ix = [0..<ix_num_vars ix]"
    by (rule indices_new_cases [OF assms(2-4)])
  from bdd_from_enumerated_den [OF assms(1) this assms(5)] show ?thesis .
qed

theorem bdd_from_enumerated_correct_witness:
  "\<exists>b. bdd_from_enumerated (table_bdds 6) lock_indices (EEq (EApp ''held'' 1 [0]) (ENot (EApp ''idle'' 0 []))) = Some b
    \<and> table_den 6 b (\<lambda>i. i = 3) \<and> \<not> table_den 6 b (\<lambda>_. True)"
proof -
  let ?e = "EEq (EApp ''held'' 1 [0]) (ENot (EApp ''idle'' 0 []))"
  have doc: "bdd_bool_doc (ix_num_vars lock_indices) (table_bdds 6) (table_den 6)"
    using table_bdds_doc [of 6] by (simp add: bdd_doc_def lock_indices_def)
  have get: "indices_get lock_indices ''held'' 1 [0] = Some 3" "indices_get lock_indices ''idle'' 0 [] = Some 2"
    by code_simp+
  then have "indexed lock_indices ?e" by (simp add: lock_indices_def)
  from bdd_from_enumerated_correct [OF doc itertools_doc_ref lock_names lock_indices this] get
  show ?thesis by (auto simp: index_valuation_def)
qed

end
