(* ===== verification/Bounded_System.thy ===== *)
theory Bounded_System
  imports Bounded_Indices
begin

text \<open>
  What the bounded model checkers share: the answers and errors of \<^verbatim>\<open>bounded/src/checker.rs\<close>, the
  closure that enumerates a term and wraps its errors, the transition system they are about, and
  the correspondence between traces and assignments of the indexed variables.
\<close>

section \<open>Definitions\<close>

datatype 'c checker_answer =
  Counterexample "model list"
| Unknown
| Convergence 'c

datatype checker_error =
  UnknownSort string universe_bounds
| ExtractionError extraction_error
| EnumerationError enumeration_error
| SatSolverFailed
| InitNotConj
| MultipleTrs
| PrimeInFormula
| UnprovenMutableAxiom
| SolverError string

definition enumerate_term ::
  "itertools \<Rightarrow> signature \<Rightarrow> universe_bounds \<Rightarrow> fterm \<Rightarrow> (checker_error + enumerated) option" where
  "enumerate_term it sig universe t =
     map_option (\<lambda>r. case r of Inl e \<Rightarrow> Inl (EnumerationError e) | Inr e \<Rightarrow> Inr e)
       (enumerate_quantifiers it t sig universe)"

section \<open>Indexed formulas\<close>

text \<open>A run that returned only met variables that the indices know.\<close>

fun gets_defined :: "indices \<Rightarrow> enumerated \<Rightarrow> bool" where
  "gets_defined ix (EAnd es) \<longleftrightarrow> list_all (gets_defined ix) es"
| "gets_defined ix (EOr es) \<longleftrightarrow> list_all (gets_defined ix) es"
| "gets_defined ix (ENot e) \<longleftrightarrow> gets_defined ix e"
| "gets_defined ix (EEq e f) \<longleftrightarrow> gets_defined ix e \<and> gets_defined ix f"
| "gets_defined ix (EApp f p es) \<longleftrightarrow> indices_get ix f p es \<noteq> None"

lemma gets_defined_vars [simp]: "gets_defined (ix\<lparr>ix_num_vars := n\<rparr>) e = gets_defined ix e"
  by (induction e) (auto simp: list_all_iff)

lemma indices_get_slot:
  assumes "itertools_doc it" and "names_distinct sig" and "indices_new it sig u c = Some ix"
    and "indices_get ix f p es = Some k"
  obtains r where "index_slot sig u r es" and "rd_name r = f" and "p < c" and "k < ix_num_vars ix"
proof -
  obtain muts imms where
    muts: "set muts = {(rd_name r, e) |r e. r \<in> set (sig_relations sig) \<and> rd_mutable r \<and> e \<in> relation_tuples u r}"
    and imms: "set imms = {(rd_name r, e) |r e. r \<in> set (sig_relations sig) \<and> \<not> rd_mutable r \<and> e \<in> relation_tuples u r}"
    and lookup: "\<And>r e. index_lookup (ix_indices ix) r e =
      (case position (\<lambda>x. x = (r, e)) imms of
         Some i \<Rightarrow> Some (length muts * c + i, False)
       | None \<Rightarrow> map_option (\<lambda>i. (i, True)) (position (\<lambda>x. x = (r, e)) muts))"
    and n: "ix_num_mutable_copies ix = c"
    by (rule indices_new_cases [OF assms(1-3)]) blast
  from assms(4) n have p: "p < c" and "index_lookup (ix_indices ix) f es \<noteq> None"
    by (auto simp: indices_get_def split: if_splits)
  have "(f, es) \<in> set muts \<union> set imms"
  proof (rule ccontr)
    assume "\<not> ?thesis"
    then have "position (\<lambda>x. x = (f, es)) imms = None" "position (\<lambda>x. x = (f, es)) muts = None"
      by (auto simp: position_None_iff)
    with \<open>index_lookup (ix_indices ix) f es \<noteq> None\<close> show False by (simp add: lookup)
  qed
  then obtain r where r: "index_slot sig u r es" "rd_name r = f"
    unfolding muts imms index_slot_def by blast
  from indices_get_range [OF assms(1-3) r(1) p] r(2) assms(4)
  obtain "if rd_mutable r then \<exists>i<ix_num_mutables ix. k = i + p * ix_num_mutables ix
     else k < ix_num_vars ix" by (auto split: if_splits)
  moreover have "i + p * ix_num_mutables ix < ix_num_vars ix" if "i < ix_num_mutables ix" for i
  proof -
    have "i + p * ix_num_mutables ix < Suc p * ix_num_mutables ix" using that by simp
    also have "\<dots> \<le> c * ix_num_mutables ix" using p by (intro mult_le_mono1) simp
    also have "\<dots> \<le> ix_num_vars ix"
      by (rule indices_new_cases [OF assms(1-3)]) (simp add: mult.commute)
    finally show ?thesis .
  qed
  ultimately have "k < ix_num_vars ix" by (auto split: if_splits)
  with that r p show thesis by blast
qed

lemma gets_defined_indexed:
  assumes "itertools_doc it" and "names_distinct sig" and "indices_new it sig u c = Some ix"
  shows "gets_defined ix e \<Longrightarrow> indexed ix e"
proof (induction e)
  case (EApp f p es)
  then obtain k where k: "indices_get ix f p es = Some k" by auto
  with indices_get_slot [OF assms k] show ?case by auto
qed (auto simp: list_all_iff)

text \<open>The assignment that a trace gives to the indices.\<close>

definition plain_names :: "signature \<Rightarrow> bool" where
  "plain_names sig \<longleftrightarrow> names_distinct sig
     \<and> (\<forall>r\<in>set (sig_relations sig). trim_end_primes (rd_name r) = rd_name r)"

definition trace_assignment ::
  "signature \<Rightarrow> universe_bounds \<Rightarrow> indices \<Rightarrow> fo_trace \<Rightarrow> nat \<Rightarrow> bool" where
  "trace_assignment sig u ix tr k \<longleftrightarrow>
     (\<exists>r es p. index_slot sig u r es \<and> p < ix_num_mutable_copies ix
        \<and> indices_get ix (rd_name r) p es = Some k \<and> trace_valuation tr 0 (rd_name r) p es)"

lemma is_immutable_decl:
  assumes "plain_names sig" and "r \<in> set (sig_relations sig)"
  shows "is_immutable sig (rd_name r) \<longleftrightarrow> \<not> rd_mutable r"
proof -
  have trim: "trim_end_primes (rd_name r) = rd_name r" using assms by (simp add: plain_names_def)
  have "find (\<lambda>x. rd_name x = rd_name r) (sig_relations sig) \<noteq> None"
    using assms(2) by (auto simp: find_None_iff)
  then obtain d where d: "find (\<lambda>x. rd_name x = rd_name r) (sig_relations sig) = Some d" by blast
  then have "rd_name d = rd_name r" "d \<in> set (sig_relations sig)"
    by (auto simp: find_Some_iff)
  then have "d = r" using same_name [of sig d r] assms by (simp add: plain_names_def)
  with d show ?thesis by (simp add: is_immutable_def trim Let_def)
qed

lemma eeval_trace_assignment:
  assumes "itertools_doc it" and "plain_names sig" and "indices_new it sig u c = Some ix"
    and "immutable_frame sig tr"
  shows "gets_defined ix e
    \<Longrightarrow> eeval (index_valuation ix (trace_assignment sig u ix tr)) e = eeval (trace_valuation tr 0) e"
proof (induction e)
  case (EAnd es)
  then show ?case by (simp add: list_all_iff)
next
  case (EOr es)
  then show ?case by (simp add: list_all_iff list_ex_iff)
next
  case (EApp f p es)
  have names: "names_distinct sig" using assms(2) by (simp add: plain_names_def)
  have copies: "ix_num_mutable_copies ix = c" by (rule indices_new_cases [OF assms(1) names assms(3)])
  from EApp obtain k where k: "indices_get ix f p es = Some k" by auto
  then obtain r where r: "index_slot sig u r es" "rd_name r = f" "p < c"
    by (rule indices_get_slot [OF assms(1) names assms(3)])
  have "trace_assignment sig u ix tr k \<longleftrightarrow> trace_valuation tr 0 f p es"
  proof
    assume "trace_assignment sig u ix tr k"
    then obtain r' es' p' where r': "index_slot sig u r' es'" "p' < c"
      "indices_get ix (rd_name r') p' es' = Some k" and v: "trace_valuation tr 0 (rd_name r') p' es'"
      by (auto simp: trace_assignment_def copies)
    with indices_get_injective_slots [OF assms(1) names assms(3) r(1) r'(1) r(3) r'(2)] k r(2)
    have eq: "r = r'" "es = es'" "rd_mutable r \<longrightarrow> p = p'" by auto
    show "trace_valuation tr 0 f p es"
    proof (cases "rd_mutable r")
      case True
      with v eq r(2) show ?thesis by simp
    next
      case False
      then have "is_immutable sig f"
        using is_immutable_decl [OF assms(2), of r] r by (simp add: index_slot_def)
      then have "tr_fun tr p f = tr_fun tr p' f" by (rule immutable_frameD [OF assms(4)])
      with v eq r(2) show ?thesis by (simp add: trace_valuation_def)
    qed
  next
    assume "trace_valuation tr 0 f p es"
    then show "trace_assignment sig u ix tr k" using r k copies by (auto simp: trace_assignment_def)
  qed
  with k show ?case by (simp add: index_valuation_def)
qed simp_all

section \<open>The transition system\<close>

text \<open>The transition system the checker is about: its runs of a given length, and a violation of a
  safety property at their end. The mutable axioms are required before each step only.\<close>

definition system_terms :: "destructured_module \<Rightarrow> fterm list" where
  "system_terms d = dm_inits d @ dm_transitions d @ dm_axioms d
     @ map (\<lambda>p. sp_x (sf_safety p)) (dm_proofs d)"

definition checkable :: "signature \<Rightarrow> destructured_module \<Rightarrow> bool" where
  "checkable sig d \<longleftrightarrow> (\<forall>t\<in>set (system_terms d).
     term_sort sig Map.empty t = Some Bool \<and> no_past t \<and> fresh_binders (sig_relations sig) t)"

definition bounded_run :: "signature \<Rightarrow> destructured_module \<Rightarrow> nat \<Rightarrow> fo_trace \<Rightarrow> bool" where
  "bounded_run sig d depth tr \<longleftrightarrow>
     (\<forall>t\<in>set (dm_inits d @ dm_axioms d). holds tr 0 Map.empty t)
     \<and> (\<forall>i<depth. \<forall>t\<in>set (dm_transitions d @ mutable_axioms d (sig_relations sig)). holds tr i Map.empty t)"

definition unsafe_at :: "destructured_module \<Rightarrow> nat \<Rightarrow> fo_trace \<Rightarrow> bool" where
  "unsafe_at d n tr \<longleftrightarrow> (\<exists>p\<in>set (dm_proofs d). \<not> holds tr n Map.empty (sp_x (sf_safety p)))"

definition system_ok :: "signature \<Rightarrow> universe_bounds \<Rightarrow> fo_trace \<Rightarrow> bool" where
  "system_ok sig u tr \<longleftrightarrow> trace_ok sig tr \<and> immutable_frame sig tr \<and> bounds_agree u tr"

lemma term_and_fresh: "\<forall>t\<in>set ts. fresh_binders rs t \<Longrightarrow> fresh_binders rs (term_and ts)"
  using flatten_preserves [of ts "fresh_binders rs" And]
  by (auto simp: term_and_def term_true_def list_all_iff)

lemma translate_and:
  assumes "itertools_doc it" and "system_ok sig u tr" and "bool_relations sig"
    and "\<forall>t\<in>set ts. term_sort sig Map.empty t = Some Bool \<and> no_past t \<and> fresh_binders (sig_relations sig) t"
    and "enumerate_term it sig u (term_and ts) = Some (Inr e)"
  shows "eeval (trace_valuation tr i) e \<longleftrightarrow> (\<forall>t\<in>set ts. holds tr i Map.empty t)"
proof -
  from assms(5) have e: "enumerate_quantifiers it (term_and ts) sig u = Some (Inr e)"
    by (cases "enumerate_quantifiers it (term_and ts) sig u")
      (simp_all add: enumerate_term_def split: sum.split_asm)
  have "teval tr i Map.empty (term_and ts) = of_bool (eeval (trace_valuation tr i) e)"
  proof (rule enumerate_quantifiers_value [OF assms(1) _ _ assms(3) _ _ _ _ e])
    show "term_sort sig Map.empty (term_and ts) = Some Bool"
      using assms(4) by (intro term_sort_and_or) simp
  qed (use assms(2,4) term_and_no_past term_and_fresh in \<open>auto simp: system_ok_def\<close>)
  then have "eeval (trace_valuation tr i) e \<longleftrightarrow> holds tr i Map.empty (term_and ts)" by simp
  then show ?thesis by (simp add: sem_simps)
qed

lemma trace_valuation_shift: "eeval (trace_valuation tr 0) (enum_prime e i) = eeval (trace_valuation tr i) e"
proof -
  have "(\<lambda>f p. trace_valuation tr 0 f (p + i)) = trace_valuation tr i"
    by (simp add: fun_eq_iff trace_valuation_def add.commute)
  then show ?thesis by (simp add: sem_simps)
qed

lemma checkable_parts:
  assumes "checkable sig d"
  shows "\<forall>t\<in>set (dm_inits d @ dm_axioms d). term_sort sig Map.empty t = Some Bool \<and> no_past t \<and> fresh_binders (sig_relations sig) t"
    and "\<forall>t\<in>set (dm_transitions d @ mutable_axioms d rs). term_sort sig Map.empty t = Some Bool \<and> no_past t \<and> fresh_binders (sig_relations sig) t"
    and "\<forall>t\<in>set (map (\<lambda>p. sp_x (sf_safety p)) (dm_proofs d)). term_sort sig Map.empty t = Some Bool \<and> no_past t \<and> fresh_binders (sig_relations sig) t"
  using assms by (auto simp: checkable_def system_terms_def mutable_axioms_def)

section \<open>The trace of an assignment\<close>

text \<open>The trace a satisfying assignment describes; it stays in the last state.\<close>

definition assignment_trace ::
  "universe_bounds \<Rightarrow> indices \<Rightarrow> nat \<Rightarrow> (nat \<Rightarrow> bool) \<Rightarrow> fo_trace" where
  "assignment_trace u ix depth \<alpha> =
     \<lparr>tr_card = (\<lambda>s. case bounds_cardinality u s of Some c \<Rightarrow> c | None \<Rightarrow> 0),
      tr_fun = (\<lambda>i f es. of_bool (index_valuation ix \<alpha> f (min i depth) es))\<rparr>"

lemma assignment_trace_ok:
  assumes "itertools_doc it" and "plain_names sig" and "bool_relations sig"
    and "indices_new it sig u (depth + 1) = Some ix"
  shows "system_ok sig u (assignment_trace u ix depth \<alpha>)"
proof -
  have names: "names_distinct sig" using assms(2) by (simp add: plain_names_def)
  have copies: "ix_num_mutable_copies ix = depth + 1" by (rule indices_new_cases [OF assms(1) names assms(4)])
  have const: "index_valuation ix \<alpha> f p es = index_valuation ix \<alpha> f q es"
    if imm: "is_immutable sig f" and p: "p \<le> depth" "q \<le> depth" for f p q es
  proof (cases "indices_get ix f p es")
    case None
    with p copies show ?thesis by (simp add: index_valuation_def indices_get_def less_Suc_eq_le)
  next
    case (Some k)
    then obtain r where r: "index_slot sig u r es" "rd_name r = f"
      by (rule indices_get_slot [OF assms(1) names assms(4)])
    then have "\<not> rd_mutable r" using imm is_immutable_decl [OF assms(2), of r] by (simp add: index_slot_def)
    with indices_get_injective_slots [OF assms(1) names assms(4) r(1) r(1), of p q] p
    have "indices_get ix f p es = indices_get ix f q es" by (auto simp: r(2))
    then show ?thesis by (simp add: index_valuation_def)
  qed
  have "rd_sort d = Bool" if "decl_of sig f = Some d" for f d
    using decl_of_mem [OF that] assms(3) by (simp add: bool_relations_def)
  then have "trace_ok sig (assignment_trace u ix depth \<alpha>)"
    by (auto simp: trace_ok_def assignment_trace_def bounds_cardinality_def)
  moreover have "immutable_frame sig (assignment_trace u ix depth \<alpha>)"
    unfolding immutable_frame_def
  proof (intro allI impI ext)
    fix f i j es assume "is_immutable sig f"
    from const [OF this, of "min i depth" "min j depth" es]
    show "tr_fun (assignment_trace u ix depth \<alpha>) i f es = tr_fun (assignment_trace u ix depth \<alpha>) j f es"
      by (simp add: assignment_trace_def)
  qed
  ultimately show ?thesis by (simp add: system_ok_def bounds_agree_def assignment_trace_def)
qed

lemma eeval_assignment_trace:
  assumes "ix_num_mutable_copies ix = depth + 1"
  shows "gets_defined ix e
    \<Longrightarrow> eeval (trace_valuation (assignment_trace u ix depth \<alpha>) 0) e = eeval (index_valuation ix \<alpha>) e"
proof (induction e)
  case (EAnd es)
  then show ?case by (simp add: list_all_iff)
next
  case (EOr es)
  then show ?case by (simp add: list_all_iff list_ex_iff)
next
  case (EApp f p es)
  then have "p \<le> depth" using assms by (auto simp: indices_get_def split: if_splits)
  then show ?case by (simp add: trace_valuation_def assignment_trace_def min_def)
qed simp_all

text \<open>What a model says about a relation.\<close>

definition model_value :: "model \<Rightarrow> string \<Rightarrow> element list \<Rightarrow> element option" where
  "model_value m f es = Option.bind (lookup_interp m f) (\<lambda>itp. interp_get itp es)"

lemma indices_model_vars [simp]: "indices_model it (ix\<lparr>ix_num_vars := n\<rparr>) p f = indices_model it ix p f"
  by (simp add: indices_model_def cong: option.case_cong)

text \<open>Reading the indices of a relation at one copy fills its whole table.\<close>

lemma relation_elements_cards:
  assumes "indices_new it sig u c = Some ix" and "r \<in> set (sig_relations sig)"
  shows "\<exists>cards. those (map (bounds_cardinality u) (rd_args r)) = Some cards"
proof -
  from assms(1) obtain mutss immss where
    muts: "those (map (relation_elements it u) (filter rd_mutable (sig_relations sig))) = Some mutss"
    and imms: "those (map (relation_elements it u) (filter (\<lambda>r. \<not> rd_mutable r) (sig_relations sig))) = Some immss"
    by (auto simp: indices_new_def Let_def split: option.splits)
  have "\<exists>es. relation_elements it u r = Some es"
  proof (cases "rd_mutable r")
    case True
    with assms(2) have "r \<in> set (filter rd_mutable (sig_relations sig))" by simp
    then show ?thesis using those_map_SomeD [OF muts] by (metis in_set_conv_nth)
  next
    case False
    with assms(2) have "r \<in> set (filter (\<lambda>r. \<not> rd_mutable r) (sig_relations sig))" by simp
    then show ?thesis using those_map_SomeD [OF imms] by (metis in_set_conv_nth)
  qed
  then show ?thesis by (auto simp: relation_elements_def)
qed

lemma relation_table:
  assumes "itertools_doc it" and "names_distinct sig" and "indices_new it sig u c = Some ix"
    and "bool_relations sig" and "p < c" and "\<And>i. f i < 2" and r: "r \<in> set (sig_relations sig)"
  obtains cards itp where "map (bounds_cardinality u) (rd_args r) = map Some cards"
    and "(case those (map (bounds_cardinality u) (rd_args r @ [rd_sort r])) of None \<Rightarrow> None
      | Some shape \<Rightarrow> interp_new it shape (\<lambda>xs. Option.bind (indices_get ix (rd_name r) p xs) (\<lambda>i. Some (f i)))) = Some itp"
    and "in_shape itp = cards @ [2]"
    and "\<And>es. es \<in> relation_tuples u r \<Longrightarrow> interp_get itp es = map_option f (indices_get ix (rd_name r) p es)"
proof -
  have srt: "rd_sort r = Bool" using r assms(4) by (simp add: bool_relations_def)
  from relation_elements_cards [OF assms(3) r] obtain cards
    where thos: "those (map (bounds_cardinality u) (rd_args r)) = Some cards" by blast
  from those_SomeD [OF this] have cards: "map (bounds_cardinality u) (rd_args r) = map Some cards" .
  have shape: "those (map (bounds_cardinality u) (rd_args r @ [rd_sort r])) = Some (cards @ [2])"
  proof -
    have "map (bounds_cardinality u) (rd_args r @ [rd_sort r]) = map Some (cards @ [2])"
      by (simp add: srt cards bounds_cardinality_def)
    then show ?thesis using those_map_SomeI [of "cards @ [2]" Some "\<lambda>x. x"] by simp
  qed
  have tuple: "list_all2 (<) xs cards \<longleftrightarrow> xs \<in> relation_tuples u r" for xs
  proof -
    have "length cards = length (rd_args r)"
      and "\<And>i. i < length cards \<Longrightarrow> bounds_cardinality u (rd_args r ! i) = Some (cards ! i)"
      using map_eq_map_nth [OF cards] by auto
    then show ?thesis by (auto simp: relation_tuples_def list_all2_conv_all_nth)
  qed
  let ?g = "\<lambda>xs. Option.bind (indices_get ix (rd_name r) p xs) (\<lambda>i. Some (f i))"
  have range: "\<exists>y<2. ?g xs = Some y" if "list_all2 (<) xs cards" for xs
  proof -
    have "index_slot sig u r xs" using that r tuple by (simp add: index_slot_def)
    with indices_get_range [OF assms(1-3) this assms(5)] obtain k where "indices_get ix (rd_name r) p xs = Some k"
      by blast
    with assms(6) [of k] show ?thesis by simp
  qed
  from interp_new_table [OF assms(1), of cards 2 ?g, OF range] obtain itp where
    "interp_new it (cards @ [2]) ?g = Some itp" "in_shape itp = cards @ [2]"
    "\<And>xs. interp_get itp xs = (if list_all2 (<) xs cards then ?g xs else None)" by auto
  with cards shape tuple that show thesis by (simp add: map_conv_bind_option comp_def)
qed

lemma indices_model_value:
  assumes "itertools_doc it" and "names_distinct sig" and "indices_new it sig u c = Some ix"
    and "bool_relations sig" and "p < c" and "index_slot sig u r es"
    and "\<And>i. f i < 2" and "indices_model it (ix\<lparr>ix_num_vars := n\<rparr>) p (\<lambda>i. Some (f i)) = Some mo"
  shows "model_value mo (rd_name r) es = map_option f (indices_get ix (rd_name r) p es)"
proof -
  have ix: "ix_signature ix = sig" "ix_universe ix = u"
    by (rule indices_new_cases [OF assms(1-3)]; blast)+
  let ?g = "\<lambda>r. case those (map (bounds_cardinality u) (rd_args r @ [rd_sort r])) of None \<Rightarrow> None
    | Some shape \<Rightarrow> interp_new it shape (\<lambda>xs. Option.bind (indices_get ix (rd_name r) p xs) (\<lambda>i. Some (f i)))"
  from assms(8) [unfolded indices_model_vars, unfolded indices_model_def ix] obtain universe interp where
    interp: "those (map ?g (sig_relations sig)) = Some interp"
    and mo: "model_new sig universe interp = Some mo"
    by (auto split: option.splits)
  from mo have mo_eq: "m_signature mo = sig" "m_interp mo = interp"
    by (auto simp: model_new_def Let_def split: if_splits)
  from assms(6) have r: "r \<in> set (sig_relations sig)" and es: "es \<in> relation_tuples u r"
    by (simp_all add: index_slot_def)
  then obtain j where j: "j < length (sig_relations sig)" "sig_relations sig ! j = r"
    by (auto simp: in_set_conv_nth)
  have "relation_idx sig (rd_name r) = Some j"
    using position_distinct [of rd_name "sig_relations sig" j] assms(2) j
    by (simp add: names_distinct_def relation_idx_def)
  then have lookup: "lookup_interp mo (rd_name r) = Some (interp ! j)"
    using j those_map_SomeD(1) [OF interp] by (simp add: lookup_interp_def mo_eq)
  have "?g r = Some (interp ! j)" using those_map_SomeD(2) [OF interp j(1)] unfolding j(2) .
  moreover obtain itp where "?g r = Some itp"
    and "interp_get itp es = map_option f (indices_get ix (rd_name r) p es)"
  proof (rule relation_table [where f = f, OF assms(1-5,7) r])
    fix itp assume "?g r = Some itp"
      "\<And>es. es \<in> relation_tuples u r \<Longrightarrow> interp_get itp es = map_option f (indices_get ix (rd_name r) p es)"
    with that es show thesis by blast
  qed
  ultimately show ?thesis by (simp only: model_value_def lookup option.inject bind.bind_lunit)
qed

text \<open>Models can be built as soon as every sort has a bound and is declared.\<close>

definition sorts_declared :: "signature \<Rightarrow> universe_bounds \<Rightarrow> bool" where
  "sorts_declared sig u \<longleftrightarrow> (\<forall>s\<in>set (sig_sorts sig). u s \<noteq> None)
     \<and> (\<forall>r\<in>set (sig_relations sig). \<forall>srt\<in>set (rd_args r). srt = Bool \<or> srt \<in> Uninterpreted ` set (sig_sorts sig))"

lemma indices_model_returns:
  assumes "itertools_doc it" and "names_distinct sig" and "indices_new it sig u c = Some ix"
    and "bool_relations sig" and "p < c" and "\<And>i. f i < 2" and decl: "sorts_declared sig u"
  shows "\<exists>mo. indices_model it ix p (\<lambda>i. Some (f i)) = Some mo"
proof -
  have ix: "ix_signature ix = sig" "ix_universe ix = u"
    by (rule indices_new_cases [OF assms(1-3)]; blast)+
  let ?g = "\<lambda>r. case those (map (bounds_cardinality u) (rd_args r @ [rd_sort r])) of None \<Rightarrow> None
    | Some shape \<Rightarrow> interp_new it shape (\<lambda>xs. Option.bind (indices_get ix (rd_name r) p xs) (\<lambda>i. Some (f i)))"
  let ?universe = "map (\<lambda>s. the (u s)) (sig_sorts sig)" and ?interp = "map (\<lambda>r. the (?g r)) (sig_relations sig)"
  let ?mo = "\<lparr>m_signature = sig, m_universe = ?universe, m_interp = ?interp\<rparr>"
  have universe: "those (map u (sig_sorts sig)) = Some ?universe"
    by (rule those_map_SomeI) (use decl in \<open>auto simp: sorts_declared_def\<close>)
  have interp: "those (map ?g (sig_relations sig)) = Some ?interp"
  proof (rule those_map_SomeI)
    fix r assume r: "r \<in> set (sig_relations sig)"
    obtain itp where "?g r = Some itp" by (rule relation_table [where f = f, OF assms(1-6) r])
    then show "?g r = Some (the (?g r))" by simp
  qed
  have card: "cardinality ?mo srt = bounds_cardinality u srt" if "srt = Bool \<or> srt \<in> Uninterpreted ` set (sig_sorts sig)" for srt
  proof (cases srt)
    case (Uninterpreted s)
    with that have s: "s \<in> set (sig_sorts sig)" by auto
    then obtain i where i: "position (\<lambda>x. x = s) (sig_sorts sig) = Some i"
      using position_Some_ex [of s "sig_sorts sig" "\<lambda>x. x = s"] by auto
    from decl s have "u s = Some (the (u s))" by (auto simp: sorts_declared_def)
    with position_SomeD [OF i] show ?thesis
      by (simp add: cardinality_def bounds_cardinality_def Uninterpreted sort_idx_def i)
  qed (simp add: cardinality_def bounds_cardinality_def)
  have "interp_wf ?mo r (the (?g r))" if r: "r \<in> set (sig_relations sig)" for r
  proof -
    obtain cards itp where cards: "map (bounds_cardinality u) (rd_args r) = map Some cards"
      and itp: "?g r = Some itp" "in_shape itp = cards @ [2]" by (rule relation_table [where f = f, OF assms(1-6) r])
    have srt: "rd_sort r = Bool" using r assms(4) by (simp add: bool_relations_def)
    have "cardinality ?mo (rd_args r ! j) = Some (cards ! j)" if "j < length (rd_args r)" for j
    proof -
      have "cardinality ?mo (rd_args r ! j) = bounds_cardinality u (rd_args r ! j)"
        by (rule card) (use decl r that in \<open>auto simp: sorts_declared_def\<close>)
      with map_eq_map_nth [OF cards] that show ?thesis by simp
    qed
    moreover have "cardinality ?mo (rd_sort r) = Some 2"
      unfolding card [OF disjI1 [OF srt]] by (simp add: srt bounds_cardinality_def)
    ultimately show ?thesis
      using map_eq_map_nth(1) [OF cards] unfolding itp(1) option.sel interp_wf_def itp(2) by (simp add: nth_append)
  qed
  then have "model_wf ?mo" by (simp add: model_wf_def)
  then have "model_new sig ?universe ?interp = Some ?mo" by (simp only: model_new_def Let_def if_True)
  then have "indices_model it ix p (\<lambda>i. Some (f i)) = Some ?mo"
    by (simp only: indices_model_def ix universe interp option.case)
  then show ?thesis by blast
qed

section \<open>Concrete modules\<close>

text \<open>One mutable proposition and the property that it stays true; without a transition formula
  and with one.\<close>

definition one_prop_sig :: signature where
  "one_prop_sig = \<lparr>sig_sorts = [],
     sig_relations = [\<lparr>rd_mutable = True, rd_name = ''p'', rd_args = [], rd_sort = Bool\<rparr>]\<rparr>"

definition safety_only :: "fterm list \<Rightarrow> fmodule" where
  "safety_only ts =
     \<lparr>mod_signature = one_prop_sig, mod_defs = [],
      mod_statements = map Assume ts @
        [Assert \<lparr>p_assert = \<lparr>sp_x = UnaryOp Always (Id ''p''), sp_span = None\<rparr>, p_invariants = []\<rparr>]\<rparr>"

definition one_prop_system :: "fterm list \<Rightarrow> fterm list \<Rightarrow> destructured_module" where
  "one_prop_system inits axioms =
     \<lparr>dm_inits = inits, dm_transitions = [], dm_axioms = axioms,
      dm_proofs = [\<lparr>sf_safety = \<lparr>sp_x = Id ''p'', sp_span = None\<rparr>, sf_invariants = []\<rparr>]\<rparr>"

definition one_prop_trace :: "(nat \<Rightarrow> bool) \<Rightarrow> fo_trace" where
  "one_prop_trace f = \<lparr>tr_card = (\<lambda>_. 2), tr_fun = (\<lambda>i _ _. of_bool (f i))\<rparr>"

lemma one_prop_ok: "system_ok one_prop_sig Map.empty (one_prop_trace f)" "plain_names one_prop_sig"
proof -
  have "\<not> is_immutable one_prop_sig g" for g
    by (auto simp: is_immutable_def one_prop_sig_def Let_def)
  then show "system_ok one_prop_sig Map.empty (one_prop_trace f)"
    by (auto simp: system_ok_def trace_ok_def one_prop_trace_def immutable_frame_def bounds_agree_def
        bounds_cardinality_def split: sort.splits)
  have "trim_end_primes ''p'' = ''p''" by code_simp
  then show "plain_names one_prop_sig" by (simp add: plain_names_def names_distinct_def one_prop_sig_def)
qed

lemma safety_only_extract:
  "extract_module (safety_only [Id ''p'']) = Some (Inr (one_prop_system [Id ''p''] []))"
  "extract_module (safety_only [UnaryOp Always (Id ''p'')]) = Some (Inr (one_prop_system [] [Id ''p'']))"
  by code_simp+

lemma safety_only_checkable: "checkable one_prop_sig (one_prop_system [Id ''p''] [])"
proof -
  have "term_sort one_prop_sig Map.empty (Id ''p'') = Some Bool" by code_simp
  then show ?thesis by (simp add: checkable_def system_terms_def one_prop_system_def)
qed

definition one_step_module :: "fterm \<Rightarrow> fmodule" where
  "one_step_module t =
     \<lparr>mod_signature = one_prop_sig, mod_defs = [],
      mod_statements = [Assume (Id ''p''), Assume (UnaryOp Always t),
        Assert \<lparr>p_assert = \<lparr>sp_x = UnaryOp Always (Id ''p''), sp_span = None\<rparr>, p_invariants = []\<rparr>]\<rparr>"

definition p_becomes :: "fterm \<Rightarrow> fterm" where
  "p_becomes t = BinOp Equals (UnaryOp Prime (Id ''p'')) t"

definition one_step_system :: "fterm \<Rightarrow> destructured_module" where
  "one_step_system t =
     \<lparr>dm_inits = [Id ''p''], dm_transitions = [t], dm_axioms = [],
      dm_proofs = [\<lparr>sf_safety = \<lparr>sp_x = Id ''p'', sp_span = None\<rparr>, sf_invariants = []\<rparr>]\<rparr>"

lemma one_step_extract:
  "extract_module (one_step_module (p_becomes (Id ''p''))) = Some (Inr (one_step_system (p_becomes (Id ''p''))))"
  "extract_module (one_step_module (p_becomes (UnaryOp NotOp (Id ''p''))))
     = Some (Inr (one_step_system (p_becomes (UnaryOp NotOp (Id ''p'')))))"
  by code_simp+

lemma one_step_checkable:
  "checkable one_prop_sig (one_step_system (p_becomes (Id ''p'')))"
  "checkable one_prop_sig (one_step_system (p_becomes (UnaryOp NotOp (Id ''p''))))"
proof -
  have "term_sort one_prop_sig Map.empty (Id ''p'') = Some Bool"
    "term_sort one_prop_sig Map.empty (p_becomes (Id ''p'')) = Some Bool"
    "term_sort one_prop_sig Map.empty (p_becomes (UnaryOp NotOp (Id ''p''))) = Some Bool" by code_simp+
  then show "checkable one_prop_sig (one_step_system (p_becomes (Id ''p'')))"
    "checkable one_prop_sig (one_step_system (p_becomes (UnaryOp NotOp (Id ''p''))))"
    by (simp_all add: checkable_def system_terms_def one_step_system_def p_becomes_def)
qed

end
