(* ===== verification/Cadical.thy ===== *)
theory Cadical
  imports Prelude
begin

text \<open>
  The interface of the SAT solver \<open>cadical\<close>, which \<^verbatim>\<open>bounded/src/sat.rs\<close> and
  \<^verbatim>\<open>inference/src/marco.rs\<close> use: the solver is third-party code and stays a parameter, a record of
  the two functions used, from the clauses added so far. Literals are signed 32-bit integers;
  \<open>solver_literal\<close> is the expression \<open>(var as i32 + 1) * sign\<close> of both files, with the wrap-around
  of \<open>as i32\<close> and \<open>+ 1\<close>.
\<close>

definition i32_wrap :: "int \<Rightarrow> int" where
  "i32_wrap z = (z + 2 ^ 31) mod 2 ^ 32 - 2 ^ 31"

definition solver_literal :: "nat \<Rightarrow> bool \<Rightarrow> int" where
  "solver_literal var pos = i32_wrap (i32_wrap (int var) + 1) * (if pos then 1 else -1)"

record cadical =
  cad_solve :: "int list list \<Rightarrow> bool option"
  cad_value :: "int list list \<Rightarrow> int \<Rightarrow> bool option"

text \<open>The documented behaviour of the solver on clauses of nonzero literals: an answer is right, and
  the values it reports (with \<open>false\<close> for variables it reports no value for) satisfy the clauses.\<close>

definition int_literal_holds :: "(int \<Rightarrow> bool) \<Rightarrow> int \<Rightarrow> bool" where
  "int_literal_holds \<gamma> z \<longleftrightarrow> (if 0 < z then \<gamma> z else \<not> \<gamma> (- z))"

definition int_cnf_holds :: "(int \<Rightarrow> bool) \<Rightarrow> int list list \<Rightarrow> bool" where
  "int_cnf_holds \<gamma> cs \<longleftrightarrow> (\<forall>c\<in>set cs. \<exists>z\<in>set c. int_literal_holds \<gamma> z)"

definition cadical_doc :: "cadical \<Rightarrow> bool" where
  "cadical_doc s \<longleftrightarrow> (\<forall>cs. (\<forall>c\<in>set cs. 0 \<notin> set c) \<longrightarrow>
     (cad_solve s cs = Some False \<longrightarrow> \<not> (\<exists>\<gamma>. int_cnf_holds \<gamma> cs))
     \<and> (cad_solve s cs = Some True \<longrightarrow> int_cnf_holds (\<lambda>v. cad_value s cs v = Some True) cs))"

lemma i32_wrap_id: "- (2 ^ 31) \<le> z \<Longrightarrow> z < 2 ^ 31 \<Longrightarrow> i32_wrap z = z"
  by (simp add: i32_wrap_def)

lemma solver_literal_eq:
  "var < 2 ^ 31 - 1 \<Longrightarrow> solver_literal var pos = (int var + 1) * (if pos then 1 else -1)"
proof -
  assume "var < 2 ^ 31 - 1"
  then have "int var + 1 < 2 ^ 31" by simp
  then show ?thesis by (simp add: solver_literal_def i32_wrap_id)
qed

section \<open>A solver that tries all assignments\<close>


definition true_set_satisfies :: "int list list \<Rightarrow> int list \<Rightarrow> bool" where
  "true_set_satisfies cs vs =
     list_all (list_ex (\<lambda>z. if 0 < z then z \<in> set vs else - z \<notin> set vs)) cs"

definition find_assignment :: "int list list \<Rightarrow> int list option" where
  "find_assignment cs = find (true_set_satisfies cs) (subseqs (remdups (map abs (concat cs))))"

definition brute_force :: cadical where
  "brute_force =
     \<lparr>cad_solve = (\<lambda>cs. Some (find_assignment cs \<noteq> None)),
      cad_value = (\<lambda>cs v. map_option (\<lambda>vs. v \<in> set vs) (find_assignment cs))\<rparr>"

lemma true_set_satisfies_iff:
  assumes "\<forall>c\<in>set cs. 0 \<notin> set c"
  shows "true_set_satisfies cs vs \<longleftrightarrow> int_cnf_holds (\<lambda>z. z \<in> set vs) cs"
  by (simp add: true_set_satisfies_def int_cnf_holds_def int_literal_holds_def list_all_iff list_ex_iff)

lemma brute_force_doc: "cadical_doc brute_force"
  unfolding cadical_doc_def
proof (intro allI impI conjI)
  fix cs :: "int list list"
  assume nz: "\<forall>c\<in>set cs. 0 \<notin> set c"
  { assume "cad_solve brute_force cs = Some False"
    then have none: "find_assignment cs = None" by (simp add: brute_force_def)
    show "\<not> (\<exists>\<gamma>. int_cnf_holds \<gamma> cs)"
    proof
      assume "\<exists>\<gamma>. int_cnf_holds \<gamma> cs"
      then obtain \<gamma> where \<gamma>: "int_cnf_holds \<gamma> cs" ..
      let ?vars = "remdups (map abs (concat cs))"
      have "{z \<in> set ?vars. \<gamma> z} \<in> set ` set (subseqs ?vars)" unfolding subseqs_powset by auto
      then obtain vs where vs: "vs \<in> set (subseqs ?vars)" "set vs = {z \<in> set ?vars. \<gamma> z}" by auto
      have "int_literal_holds (\<lambda>z. z \<in> set vs) z \<longleftrightarrow> int_literal_holds \<gamma> z"
        if "c \<in> set cs" "z \<in> set c" for c z
      proof -
        have "\<bar>z\<bar> \<in> set ?vars" using that by auto
        then show ?thesis using nz that unfolding vs(2)
          by (auto simp: int_literal_holds_def abs_if split: if_splits)
      qed
      with \<gamma> have "int_cnf_holds (\<lambda>z. z \<in> set vs) cs" unfolding int_cnf_holds_def by blast
      with vs(1) show False
        using none by (auto simp: find_assignment_def find_None_iff true_set_satisfies_iff [OF nz])
    qed }
  assume "cad_solve brute_force cs = Some True"
  then obtain vs where vs: "find_assignment cs = Some vs" by (auto simp: brute_force_def)
  then have "true_set_satisfies cs vs" by (auto simp: find_assignment_def find_Some_iff)
  with vs nz show "int_cnf_holds (\<lambda>v. cad_value brute_force cs v = Some True) cs"
    by (simp add: true_set_satisfies_iff brute_force_def)
qed

end
