(* ===== verification/Bounded_Sat.thy ===== *)
theory Bounded_Sat
  imports Bounded_System Cadical
begin

text \<open>
  Model of \<^verbatim>\<open>bounded/src/sat.rs\<close>: the Tseytin transformation and the SAT-based checker. The SAT
  solver is third-party code: a record of the two functions used, from the clauses added so far.
  Timing output is left out.
\<close>

section \<open>Definitions\<close>

record sat_literal =
  l_var :: nat
  l_pos :: bool

definition lit_t :: "nat \<Rightarrow> sat_literal" where
  "lit_t var = \<lparr>l_var = var, l_pos = True\<rparr>"

definition lit_f :: "nat \<Rightarrow> sat_literal" where
  "lit_f var = \<lparr>l_var = var, l_pos = False\<rparr>"

type_synonym sat_cnf = "sat_literal list list"

fun tseytin_inner ::
  "enumerated \<Rightarrow> indices \<Rightarrow> sat_cnf \<Rightarrow> (nat \<times> indices \<times> sat_cnf) option"
and tseytin_list ::
  "enumerated list \<Rightarrow> indices \<Rightarrow> sat_cnf \<Rightarrow> (nat list \<times> indices \<times> sat_cnf) option" where
  "tseytin_inner (EAnd terms) ix out =
     (case tseytin_list terms ix out of None \<Rightarrow> None | Some (olds, ix, out) \<Rightarrow>
       (let (new, ix) = indices_var ix;
            out = out @ map (\<lambda>old. [lit_t old, lit_f new]) olds;
            clause = map lit_f olds @ [lit_t new]
        in Some (new, ix, out @ [clause])))"
| "tseytin_inner (EOr terms) ix out =
     (case tseytin_list terms ix out of None \<Rightarrow> None | Some (olds, ix, out) \<Rightarrow>
       (let (new, ix) = indices_var ix;
            out = out @ map (\<lambda>old. [lit_f old, lit_t new]) olds;
            clause = map lit_t olds @ [lit_f new]
        in Some (new, ix, out @ [clause])))"
| "tseytin_inner (ENot t) ix out =
     (case tseytin_inner t ix out of None \<Rightarrow> None | Some (old, ix, out) \<Rightarrow>
       (let (new, ix) = indices_var ix
        in Some (new, ix, out @ [[lit_t old, lit_t new], [lit_f old, lit_f new]])))"
| "tseytin_inner (EEq l r) ix out =
     (case tseytin_inner l ix out of None \<Rightarrow> None | Some (a, ix, out) \<Rightarrow>
     (case tseytin_inner r ix out of None \<Rightarrow> None | Some (b, ix, out) \<Rightarrow>
       (let (c, ix) = indices_var ix
        in Some (c, ix, out @ [[lit_f a, lit_f b, lit_t c], [lit_f a, lit_t b, lit_f c],
                               [lit_t a, lit_f b, lit_f c], [lit_t a, lit_t b, lit_t c]]))))"
| "tseytin_inner (EApp relation primes elements) ix out =
     map_option (\<lambda>i. (i, ix, out)) (indices_get ix relation primes elements)"
| "tseytin_list [] ix out = Some ([], ix, out)"
| "tseytin_list (t # ts) ix out =
     (case tseytin_inner t ix out of None \<Rightarrow> None | Some (v, ix, out) \<Rightarrow>
     (case tseytin_list ts ix out of None \<Rightarrow> None | Some (vs, ix, out) \<Rightarrow> Some (v # vs, ix, out)))"

definition tseytin :: "enumerated \<Rightarrow> indices \<Rightarrow> (sat_cnf \<times> indices) option" where
  "tseytin t ix =
     (case tseytin_inner t ix [] of None \<Rightarrow> None | Some (var, ix, out) \<Rightarrow> Some (out @ [[lit_t var]], ix))"

definition cadical_literal :: "sat_literal \<Rightarrow> int" where
  "cadical_literal l = solver_literal (l_var l) (l_pos l)"

definition sat_program :: "enumerated \<Rightarrow> enumerated \<Rightarrow> enumerated \<Rightarrow> nat \<Rightarrow> enumerated list" where
  "sat_program init tr not_safe depth =
     [init] @ map (enum_prime tr) [0..<depth] @ [enum_prime not_safe depth]"

definition sat_answer ::
  "itertools \<Rightarrow> cadical \<Rightarrow> indices \<Rightarrow> sat_cnf \<Rightarrow> (checker_error + unit checker_answer) option" where
  "sat_answer it solver ix cls =
     (let clauses = map (map cadical_literal) cls in
      case cad_solve solver clauses of
        None \<Rightarrow> Some (Inl SatSolverFailed)
      | Some False \<Rightarrow> Some (Inr Unknown)
      | Some True \<Rightarrow>
          map_option (\<lambda>ms. Inr (Counterexample ms))
            (those (map (\<lambda>primes. indices_model it ix primes
                  (\<lambda>i. Some (of_bool (case cad_value solver clauses (solver_literal i True) of
                          Some b \<Rightarrow> b | None \<Rightarrow> False))))
               [0..<ix_num_mutable_copies ix])))"

text \<open>\<open>check\<close> up to the call of the SAT solver, and all of it.\<close>

definition sat_encoding ::
  "itertools \<Rightarrow> fmodule \<Rightarrow> universe_bounds \<Rightarrow> nat \<Rightarrow> (checker_error + sat_cnf \<times> indices) option" where
  "sat_encoding it m universe depth =
     (case find (\<lambda>srt. universe srt = None) (sig_sorts (mod_signature m)) of
        Some srt \<Rightarrow> Some (Inl (UnknownSort srt universe))
      | None \<Rightarrow>
        (if list_ex (\<lambda>r. rd_sort r \<noteq> Bool) (sig_relations (mod_signature m)) then None
         else if mod_defs m \<noteq> [] then None
         else (case extract_module m of
             None \<Rightarrow> None
           | Some (Inl e) \<Rightarrow> Some (Inl (ExtractionError e))
           | Some (Inr d) \<Rightarrow>
               (let inits = dm_inits d @ dm_axioms d;
                    transitions = dm_transitions d @ mutable_axioms d (sig_relations (mod_signature m));
                    safeties = map (\<lambda>p. sp_x (sf_safety p)) (dm_proofs d);
                    translate = enumerate_term it (mod_signature m) universe
                in case indices_new it (mod_signature m) universe (depth + 1) of
                     None \<Rightarrow> None
                   | Some ix \<Rightarrow>
                       bind_pr (translate (term_and inits)) (\<lambda>init.
                       bind_pr (translate (term_and transitions)) (\<lambda>tr.
                       bind_pr (translate (term_and safeties)) (\<lambda>safe.
                         map_option Inr
                           (tseytin (EAnd (sat_program init tr (ENot safe) depth)) ix))))))))"

definition sat_check ::
  "itertools \<Rightarrow> cadical \<Rightarrow> fmodule \<Rightarrow> universe_bounds \<Rightarrow> nat
   \<Rightarrow> (checker_error + unit checker_answer) option" where
  "sat_check it solver m universe depth =
     bind_pr (sat_encoding it m universe depth) (\<lambda>(cls, ix). sat_answer it solver ix cls)"

section \<open>The Tseytin transformation\<close>

definition lit_holds :: "(nat \<Rightarrow> bool) \<Rightarrow> sat_literal \<Rightarrow> bool" where
  "lit_holds \<alpha> l \<longleftrightarrow> \<alpha> (l_var l) = l_pos l"

definition cnf_holds :: "(nat \<Rightarrow> bool) \<Rightarrow> sat_cnf \<Rightarrow> bool" where
  "cnf_holds \<alpha> cls \<longleftrightarrow> (\<forall>c\<in>set cls. \<exists>l\<in>set c. lit_holds \<alpha> l)"

definition cnf_below :: "nat \<Rightarrow> sat_cnf \<Rightarrow> bool" where
  "cnf_below n cls \<longleftrightarrow> (\<forall>c\<in>set cls. \<forall>l\<in>set c. l_var l < n)"

lemma lit_holds_simps [simp]: "lit_holds \<alpha> (lit_t i) \<longleftrightarrow> \<alpha> i" "lit_holds \<alpha> (lit_f i) \<longleftrightarrow> \<not> \<alpha> i"
  "l_var (lit_t i) = i" "l_var (lit_f i) = i"
  by (simp_all add: lit_holds_def lit_t_def lit_f_def)

lemma cnf_holds_simps [simp]:
  "cnf_holds \<alpha> []" "cnf_holds \<alpha> (c # cs) \<longleftrightarrow> (\<exists>l\<in>set c. lit_holds \<alpha> l) \<and> cnf_holds \<alpha> cs"
  "cnf_holds \<alpha> (cs @ ds) \<longleftrightarrow> cnf_holds \<alpha> cs \<and> cnf_holds \<alpha> ds"
  by (auto simp: cnf_holds_def)

lemma cnf_below_simps [simp]:
  "cnf_below n []" "cnf_below n (c # cs) \<longleftrightarrow> (\<forall>l\<in>set c. l_var l < n) \<and> cnf_below n cs"
  "cnf_below n (cs @ ds) \<longleftrightarrow> cnf_below n cs \<and> cnf_below n ds"
  by (auto simp: cnf_below_def)

lemma cnf_below_mono: "cnf_below m cls \<Longrightarrow> m \<le> n \<Longrightarrow> cnf_below n cls"
  by (fastforce simp: cnf_below_def)

lemma cnf_holds_cong:
  "cnf_below n cls \<Longrightarrow> \<forall>i<n. \<alpha> i = \<beta> i \<Longrightarrow> cnf_holds \<alpha> cls = cnf_holds \<beta> cls"
  unfolding cnf_holds_def cnf_below_def lit_holds_def by (metis (no_types, lifting))

lemma eeval_cong:
  "\<lbrakk> indexed ix e; \<forall>i<ix_num_vars ix. \<alpha> i = \<beta> i \<rbrakk>
   \<Longrightarrow> eeval (index_valuation ix \<alpha>) e = eeval (index_valuation ix \<beta>) e"
proof (induction e)
  case (EAnd es)
  then show ?case by (simp add: list_all_iff)
next
  case (EOr es)
  then show ?case by (simp add: list_all_iff list_ex_iff)
next
  case (EApp f p es)
  then show ?case by (auto simp: index_valuation_def)
qed auto

lemma indexed_mono: "indexed ix e \<Longrightarrow> ix_num_vars ix \<le> n \<Longrightarrow> indexed (ix\<lparr>ix_num_vars := n\<rparr>) e"
  by (induction e) (auto simp: list_all_iff)

text \<open>What a run of the transformation adds: clauses over variables below the new number, which
  define the variable of the term, and which every assignment of the old variables extends to.\<close>

definition extends :: "nat \<Rightarrow> nat \<Rightarrow> sat_cnf \<Rightarrow> bool" where
  "extends m n cls \<longleftrightarrow> m \<le> n \<and> cnf_below n cls
     \<and> (\<forall>\<beta>. \<exists>\<alpha>. (\<forall>i<m. \<alpha> i = \<beta> i) \<and> cnf_holds \<alpha> cls)"

lemma extends_Nil [simp]: "extends n n []"
  by (auto simp: extends_def)

lemma extends_append:
  assumes "extends l m cs" and "extends m n ds"
  shows "extends l n (cs @ ds)"
  unfolding extends_def
proof (intro conjI allI)
  show "l \<le> n" "cnf_below n (cs @ ds)"
    using assms cnf_below_mono by (auto simp: extends_def)
  fix \<beta>
  from assms(1) obtain \<alpha> where \<alpha>: "\<forall>i<l. \<alpha> i = \<beta> i" "cnf_holds \<alpha> cs" by (auto simp: extends_def)
  from assms(2) obtain \<gamma> where \<gamma>: "\<forall>i<m. \<gamma> i = \<alpha> i" "cnf_holds \<gamma> ds" unfolding extends_def by blast
  have "cnf_holds \<gamma> cs" using cnf_holds_cong [of m cs \<gamma> \<alpha>] \<alpha> \<gamma> assms(1) by (simp add: extends_def)
  then show "\<exists>\<alpha>. (\<forall>i<l. \<alpha> i = \<beta> i) \<and> cnf_holds \<alpha> (cs @ ds)"
    using \<alpha>(1) \<gamma> assms(1) by (intro exI [of _ \<gamma>]) (auto simp: extends_def)
qed

lemma extends_new:
  assumes "cnf_below (Suc n) cls" and "\<And>\<beta>. \<exists>b. cnf_holds (\<beta>(n := b)) cls"
  shows "extends n (Suc n) cls"
  unfolding extends_def
proof (intro conjI allI)
  fix \<beta> :: "nat \<Rightarrow> bool"
  from assms(2) obtain b where "cnf_holds (\<beta>(n := b)) cls" by blast
  then show "\<exists>\<alpha>. (\<forall>i<n. \<alpha> i = \<beta> i) \<and> cnf_holds \<alpha> cls" by (intro exI [of _ "\<beta>(n := b)"]) simp
qed (use assms(1) in simp_all)

lemma tseytin_correct_inner:
  "indexed ix e \<Longrightarrow> \<exists>v n cs. tseytin_inner e ix out = Some (v, ix\<lparr>ix_num_vars := n\<rparr>, out @ cs)
     \<and> v < n \<and> extends (ix_num_vars ix) n cs
     \<and> (\<forall>\<alpha>. cnf_holds \<alpha> cs \<longrightarrow> (\<alpha> v \<longleftrightarrow> eeval (index_valuation ix \<alpha>) e))"
  "list_all (indexed ix) es \<Longrightarrow> \<exists>vs n cs. tseytin_list es ix out = Some (vs, ix\<lparr>ix_num_vars := n\<rparr>, out @ cs)
     \<and> (\<forall>v\<in>set vs. v < n) \<and> extends (ix_num_vars ix) n cs
     \<and> (\<forall>\<alpha>. cnf_holds \<alpha> cs \<longrightarrow> map \<alpha> vs = map (eeval (index_valuation ix \<alpha>)) es)"
proof (induction e ix out and es ix out rule: tseytin_inner_tseytin_list.induct)
  case (1 ts ix out)
  then obtain vs n cs where run: "tseytin_list ts ix out = Some (vs, ix\<lparr>ix_num_vars := n\<rparr>, out @ cs)"
    and vs: "\<forall>v\<in>set vs. v < n" and ext: "extends (ix_num_vars ix) n cs"
    and mean: "\<forall>\<alpha>. cnf_holds \<alpha> cs \<longrightarrow> map \<alpha> vs = map (eeval (index_valuation ix \<alpha>)) ts"
    by auto
  define ds where "ds = map (\<lambda>old. [lit_t old, lit_f n]) vs @ [map lit_f vs @ [lit_t n]]"
  have ds: "cnf_holds \<alpha> ds \<longleftrightarrow> (\<alpha> n \<longleftrightarrow> (\<forall>v\<in>set vs. \<alpha> v))" for \<alpha>
    by (auto simp: ds_def cnf_holds_def)
  have "extends n (Suc n) ds"
  proof (rule extends_new)
    show "cnf_below (Suc n) ds" using vs by (auto simp: ds_def cnf_below_def)
    show "\<exists>b. cnf_holds (\<beta>(n := b)) ds" for \<beta>
      using vs by (intro exI [of _ "\<forall>v\<in>set vs. \<beta> v"]) (auto simp: ds)
  qed
  with ext have "extends (ix_num_vars ix) (Suc n) (cs @ ds)" by (rule extends_append)
  moreover have "\<alpha> n \<longleftrightarrow> eeval (index_valuation ix \<alpha>) (EAnd ts)" if "cnf_holds \<alpha> (cs @ ds)" for \<alpha>
    using that mean ds [of \<alpha>] by (auto simp: list_all_iff dest!: arg_cong [where f = "list_all (\<lambda>b. b)"])
  ultimately show ?case
    by (intro exI [of _ n] exI [of _ "Suc n"] exI [of _ "cs @ ds"])
      (simp add: run indices_var_def Let_def ds_def)
next
  case (2 ts ix out)
  then obtain vs n cs where run: "tseytin_list ts ix out = Some (vs, ix\<lparr>ix_num_vars := n\<rparr>, out @ cs)"
    and vs: "\<forall>v\<in>set vs. v < n" and ext: "extends (ix_num_vars ix) n cs"
    and mean: "\<forall>\<alpha>. cnf_holds \<alpha> cs \<longrightarrow> map \<alpha> vs = map (eeval (index_valuation ix \<alpha>)) ts"
    by auto
  define ds where "ds = map (\<lambda>old. [lit_f old, lit_t n]) vs @ [map lit_t vs @ [lit_f n]]"
  have ds: "cnf_holds \<alpha> ds \<longleftrightarrow> (\<alpha> n \<longleftrightarrow> (\<exists>v\<in>set vs. \<alpha> v))" for \<alpha>
    by (auto simp: ds_def cnf_holds_def)
  have "extends n (Suc n) ds"
  proof (rule extends_new)
    show "cnf_below (Suc n) ds" using vs by (auto simp: ds_def cnf_below_def)
    show "\<exists>b. cnf_holds (\<beta>(n := b)) ds" for \<beta>
      using vs by (intro exI [of _ "\<exists>v\<in>set vs. \<beta> v"]) (auto simp: ds)
  qed
  with ext have "extends (ix_num_vars ix) (Suc n) (cs @ ds)" by (rule extends_append)
  moreover have "\<alpha> n \<longleftrightarrow> eeval (index_valuation ix \<alpha>) (EOr ts)" if "cnf_holds \<alpha> (cs @ ds)" for \<alpha>
    using that mean ds [of \<alpha>] by (auto simp: list_ex_iff dest!: arg_cong [where f = "list_ex (\<lambda>b. b)"])
  ultimately show ?case
    by (intro exI [of _ n] exI [of _ "Suc n"] exI [of _ "cs @ ds"])
      (simp add: run indices_var_def Let_def ds_def)
next
  case (3 t ix out)
  then obtain v n cs where run: "tseytin_inner t ix out = Some (v, ix\<lparr>ix_num_vars := n\<rparr>, out @ cs)"
    and v: "v < n" and ext: "extends (ix_num_vars ix) n cs"
    and mean: "\<forall>\<alpha>. cnf_holds \<alpha> cs \<longrightarrow> \<alpha> v = eeval (index_valuation ix \<alpha>) t"
    by auto
  define ds where "ds = [[lit_t v, lit_t n], [lit_f v, lit_f n]]"
  have ds: "cnf_holds \<alpha> ds \<longleftrightarrow> (\<alpha> n \<longleftrightarrow> \<not> \<alpha> v)" for \<alpha> by (auto simp: ds_def)
  have "extends n (Suc n) ds"
  proof (rule extends_new)
    show "cnf_below (Suc n) ds" using v by (auto simp: ds_def)
    show "\<exists>b. cnf_holds (\<beta>(n := b)) ds" for \<beta>
      using v by (intro exI [of _ "\<not> \<beta> v"]) (auto simp: ds)
  qed
  with ext have "extends (ix_num_vars ix) (Suc n) (cs @ ds)" by (rule extends_append)
  moreover have "\<alpha> n \<longleftrightarrow> eeval (index_valuation ix \<alpha>) (ENot t)" if "cnf_holds \<alpha> (cs @ ds)" for \<alpha>
    using that mean ds [of \<alpha>] by simp
  ultimately show ?case
    by (intro exI [of _ n] exI [of _ "Suc n"] exI [of _ "cs @ ds"])
      (simp add: run indices_var_def Let_def ds_def)
next
  case (4 l r ix out)
  then obtain v m cs where run1: "tseytin_inner l ix out = Some (v, ix\<lparr>ix_num_vars := m\<rparr>, out @ cs)"
    and v: "v < m" and ext1: "extends (ix_num_vars ix) m cs"
    and mean1: "\<forall>\<alpha>. cnf_holds \<alpha> cs \<longrightarrow> \<alpha> v = eeval (index_valuation ix \<alpha>) l"
    by auto
  have "indexed (ix\<lparr>ix_num_vars := m\<rparr>) r" using 4(3) ext1 by (intro indexed_mono) (simp_all add: extends_def)
  with 4(2) [OF run1 refl refl] obtain w n es where
    run2: "tseytin_inner r (ix\<lparr>ix_num_vars := m\<rparr>) (out @ cs) = Some (w, ix\<lparr>ix_num_vars := n\<rparr>, (out @ cs) @ es)"
    and w: "w < n" and ext2: "extends m n es"
    and mean2: "\<forall>\<alpha>. cnf_holds \<alpha> es \<longrightarrow> \<alpha> w = eeval (index_valuation ix \<alpha>) r"
    by auto
  have "v < n" using v ext2 by (simp add: extends_def)
  define ds where "ds = [[lit_f v, lit_f w, lit_t n], [lit_f v, lit_t w, lit_f n],
                               [lit_t v, lit_f w, lit_f n], [lit_t v, lit_t w, lit_t n]]"
  have ds: "cnf_holds \<alpha> ds \<longleftrightarrow> (\<alpha> n \<longleftrightarrow> (\<alpha> v \<longleftrightarrow> \<alpha> w))" for \<alpha> by (auto simp: ds_def)
  have "extends n (Suc n) ds"
  proof (rule extends_new)
    show "cnf_below (Suc n) ds" using \<open>v < n\<close> w by (auto simp: ds_def)
    show "\<exists>b. cnf_holds (\<beta>(n := b)) ds" for \<beta>
      using \<open>v < n\<close> w by (intro exI [of _ "\<beta> v = \<beta> w"]) (auto simp: ds)
  qed
  with extends_append [OF ext1 ext2] have "extends (ix_num_vars ix) (Suc n) ((cs @ es) @ ds)"
    by (rule extends_append)
  moreover have "\<alpha> n \<longleftrightarrow> eeval (index_valuation ix \<alpha>) (EEq l r)" if "cnf_holds \<alpha> ((cs @ es) @ ds)" for \<alpha>
    using that mean1 mean2 ds [of \<alpha>] by simp
  ultimately show ?case
    by (intro exI [of _ n] exI [of _ "Suc n"] exI [of _ "(cs @ es) @ ds"])
      (simp add: run1 run2 indices_var_def Let_def ds_def)
next
  case (5 f p es ix out)
  then obtain k where "k < ix_num_vars ix" "indices_get ix f p es = Some k" by auto
  then show ?case
    by (intro exI [of _ k] exI [of _ "ix_num_vars ix"] exI [of _ "[]"]) (simp add: index_valuation_def)
next
  case (6 ix out)
  show ?case by (intro exI [of _ "[]"] exI [of _ "ix_num_vars ix"]) simp
next
  case (7 t ts ix out)
  then obtain v m cs where run1: "tseytin_inner t ix out = Some (v, ix\<lparr>ix_num_vars := m\<rparr>, out @ cs)"
    and v: "v < m" and ext1: "extends (ix_num_vars ix) m cs"
    and mean1: "\<forall>\<alpha>. cnf_holds \<alpha> cs \<longrightarrow> \<alpha> v = eeval (index_valuation ix \<alpha>) t"
    by auto
  have "list_all (indexed (ix\<lparr>ix_num_vars := m\<rparr>)) ts"
    using 7(3) ext1 indexed_mono by (auto simp: extends_def list_all_iff)
  with 7(2) [OF run1 refl refl] obtain vs n ds where
    run2: "tseytin_list ts (ix\<lparr>ix_num_vars := m\<rparr>) (out @ cs) = Some (vs, ix\<lparr>ix_num_vars := n\<rparr>, (out @ cs) @ ds)"
    and vs: "\<forall>v\<in>set vs. v < n" and ext2: "extends m n ds"
    and mean2: "\<forall>\<alpha>. cnf_holds \<alpha> ds \<longrightarrow> map \<alpha> vs = map (eeval (index_valuation ix \<alpha>)) ts"
    by auto
  have "v < n" using v ext2 by (simp add: extends_def)
  with vs extends_append [OF ext1 ext2] mean1 mean2 show ?case
    by (intro exI [of _ "v # vs"] exI [of _ n] exI [of _ "cs @ ds"]) (simp add: run1 run2)
qed

lemma tseytin_sound:
  assumes "indexed ix e"
  shows "\<exists>cls n. tseytin e ix = Some (cls, ix\<lparr>ix_num_vars := n\<rparr>) \<and> cnf_below n cls
    \<and> (\<forall>\<beta>. (\<exists>\<alpha>. (\<forall>i<ix_num_vars ix. \<alpha> i = \<beta> i) \<and> cnf_holds \<alpha> cls)
          \<longleftrightarrow> eeval (index_valuation ix \<beta>) e)"
proof -
  from tseytin_correct_inner(1) [OF assms, of "[]"] obtain v n cs
    where run: "tseytin_inner e ix [] = Some (v, ix\<lparr>ix_num_vars := n\<rparr>, cs)"
      and ext: "extends (ix_num_vars ix) n cs"
      and v: "v < n" and mean: "\<forall>\<alpha>. cnf_holds \<alpha> cs \<longrightarrow> \<alpha> v = eeval (index_valuation ix \<alpha>) e"
    by auto
  have "(\<exists>\<alpha>. (\<forall>i<ix_num_vars ix. \<alpha> i = \<beta> i) \<and> cnf_holds \<alpha> (cs @ [[lit_t v]]))
      \<longleftrightarrow> eeval (index_valuation ix \<beta>) e" for \<beta>
  proof
    assume "\<exists>\<alpha>. (\<forall>i<ix_num_vars ix. \<alpha> i = \<beta> i) \<and> cnf_holds \<alpha> (cs @ [[lit_t v]])"
    then show "eeval (index_valuation ix \<beta>) e" using mean eeval_cong [OF assms] by auto
  next
    assume e: "eeval (index_valuation ix \<beta>) e"
    from ext obtain \<alpha> where \<alpha>: "\<forall>i<ix_num_vars ix. \<alpha> i = \<beta> i" "cnf_holds \<alpha> cs"
      unfolding extends_def by blast
    with e mean eeval_cong [OF assms \<alpha>(1)]
    show "\<exists>\<alpha>. (\<forall>i<ix_num_vars ix. \<alpha> i = \<beta> i) \<and> cnf_holds \<alpha> (cs @ [[lit_t v]])"
      by (intro exI [of _ \<alpha>]) simp
  qed
  moreover have "cnf_below n (cs @ [[lit_t v]])" using ext v by (simp add: extends_def)
  ultimately show ?thesis by (intro exI [of _ "cs @ [[lit_t v]]"] exI [of _ n]) (simp add: tseytin_def run)
qed

text \<open>C22: the Tseytin transformation is equisatisfiable, one state at a time: an assignment of the
  variables of the indices extends to one that satisfies the clauses exactly when it satisfies the
  formula; and the transformation does not panic when the indices know the formula's variables.\<close>

theorem tseytin_equisatisfiable:
  assumes "indexed ix e"
  shows "\<exists>cls ix'. tseytin e ix = Some (cls, ix')
    \<and> (\<forall>\<beta>. (\<exists>\<alpha>. (\<forall>i<ix_num_vars ix. \<alpha> i = \<beta> i) \<and> cnf_holds \<alpha> cls)
          \<longleftrightarrow> eeval (index_valuation ix \<beta>) e)"
  using tseytin_sound [OF assms] by blast

theorem tseytin_equisatisfiable_witness:
  "\<exists>cls ix'. tseytin (EAnd [EApp ''held'' 0 [1], ENot (EApp ''idle'' 0 [])]) lock_indices = Some (cls, ix')
    \<and> length cls = 6 \<and> (\<exists>\<alpha>. \<alpha> 1 \<and> \<not> \<alpha> 2 \<and> cnf_holds \<alpha> cls)"
proof -
  let ?e = "EAnd [EApp ''held'' 0 [1], ENot (EApp ''idle'' 0 [])]"
  have get: "indices_get lock_indices ''held'' 0 [1] = Some 1" "indices_get lock_indices ''idle'' 0 [] = Some 2"
    by code_simp+
  then have "indexed lock_indices ?e" by (simp add: lock_indices_def)
  from tseytin_equisatisfiable [OF this] obtain cls ix' where t: "tseytin ?e lock_indices = Some (cls, ix')"
    and eq: "\<And>\<beta>. (\<exists>\<alpha>. (\<forall>i<ix_num_vars lock_indices. \<alpha> i = \<beta> i) \<and> cnf_holds \<alpha> cls)
      \<longleftrightarrow> eeval (index_valuation lock_indices \<beta>) ?e" by blast
  have "map_option (\<lambda>(cls, ix). length cls) (tseytin ?e lock_indices) = Some 6" by code_simp
  with t have "length cls = 6" by simp
  moreover have "eeval (index_valuation lock_indices (\<lambda>i. i = 1)) ?e"
    using get by (simp add: index_valuation_def)
  with eq [of "\<lambda>i. i = 1"] obtain \<alpha> where "\<forall>i<ix_num_vars lock_indices. \<alpha> i = (i = 1)" "cnf_holds \<alpha> cls"
    by blast
  then have "\<alpha> 1 \<and> \<not> \<alpha> 2 \<and> cnf_holds \<alpha> cls" by (simp add: lock_indices_def)
  ultimately show ?thesis using t by blast
qed

section \<open>What the checker's answers mean\<close>

lemma cadical_literal_eq:
  "l_var l < 2 ^ 31 - 1 \<Longrightarrow> cadical_literal l = (int (l_var l) + 1) * (if l_pos l then 1 else -1)"
  by (simp add: cadical_literal_def solver_literal_eq)

lemma int_cnf_holds_iff:
  assumes "cnf_below n cls" and "n < 2 ^ 31"
  shows "int_cnf_holds \<gamma> (map (map cadical_literal) cls) \<longleftrightarrow> cnf_holds (\<lambda>i. \<gamma> (int i + 1)) cls"
proof -
  have "int_literal_holds \<gamma> (cadical_literal l) \<longleftrightarrow> lit_holds (\<lambda>i. \<gamma> (int i + 1)) l"
    if "c \<in> set cls" "l \<in> set c" for c l
  proof -
    have "l_var l < 2 ^ 31 - 1" using assms that by (fastforce simp: cnf_below_def)
    from cadical_literal_eq [OF this] show ?thesis
      by (auto simp: int_literal_holds_def lit_holds_def add.commute)
  qed
  then show ?thesis by (simp add: int_cnf_holds_def cnf_holds_def)
qed

lemma cadical_literals_nonzero:
  assumes "cnf_below n cls" and "n < 2 ^ 31" shows "\<forall>c\<in>set (map (map cadical_literal) cls). 0 \<notin> set c"
proof -
  have "cadical_literal l \<noteq> 0" if "c \<in> set cls" "l \<in> set c" for c l
  proof -
    have "l_var l < 2 ^ 31 - 1" using assms that by (fastforce simp: cnf_below_def)
    from cadical_literal_eq [OF this] show ?thesis by simp
  qed
  then show ?thesis by auto
qed

lemma cadical_solve_iff:
  assumes "cadical_doc s" and "cnf_below n cls" and "n < 2 ^ 31"
  shows "cad_solve s (map (map cadical_literal) cls) = Some False \<Longrightarrow> \<not> (\<exists>\<alpha>. cnf_holds \<alpha> cls)"
    and "cad_solve s (map (map cadical_literal) cls) = Some True
      \<Longrightarrow> cnf_holds (\<lambda>i. cad_value s (map (map cadical_literal) cls) (int i + 1) = Some True) cls"
proof -
  note nz = cadical_literals_nonzero [OF assms(2,3)]
  { assume "cad_solve s (map (map cadical_literal) cls) = Some False"
    with assms(1) nz have none: "\<not> (\<exists>\<gamma>. int_cnf_holds \<gamma> (map (map cadical_literal) cls))"
      by (simp add: cadical_doc_def)
    show "\<not> (\<exists>\<alpha>. cnf_holds \<alpha> cls)"
    proof
      assume "\<exists>\<alpha>. cnf_holds \<alpha> cls"
      then obtain \<alpha> where "cnf_holds \<alpha> cls" ..
      then have "int_cnf_holds (\<lambda>z. \<alpha> (nat (z - 1))) (map (map cadical_literal) cls)"
        by (simp add: int_cnf_holds_iff [OF assms(2,3)])
      with none show False by blast
    qed }
  assume "cad_solve s (map (map cadical_literal) cls) = Some True"
  with assms(1) nz
  have "int_cnf_holds (\<lambda>v. cad_value s (map (map cadical_literal) cls) v = Some True) (map (map cadical_literal) cls)"
    by (simp add: cadical_doc_def)
  then show "cnf_holds (\<lambda>i. cad_value s (map (map cadical_literal) cls) (int i + 1) = Some True) cls"
    by (simp add: int_cnf_holds_iff [OF assms(2,3)])
qed

lemma tseytin_inner_defined:
  "tseytin_inner e ix out = Some (v, ix', out') \<Longrightarrow> gets_defined ix e \<and> (\<exists>n. ix' = ix\<lparr>ix_num_vars := n\<rparr>)"
  "tseytin_list es ix out = Some (vs, ix', out')
   \<Longrightarrow> list_all (gets_defined ix) es \<and> (\<exists>n. ix' = ix\<lparr>ix_num_vars := n\<rparr>)"
proof (induction e ix out and es ix out arbitrary: v ix' out' and vs ix' out'
    rule: tseytin_inner_tseytin_list.induct)
  case (1 ts ix out)
  from 1(2) obtain vs1 ix1 out1 where r: "tseytin_list ts ix out = Some (vs1, ix1, out1)"
    and "ix' = ix1\<lparr>ix_num_vars := ix_num_vars ix1 + 1\<rparr>"
    by (auto simp: indices_var_def Let_def split: option.splits)
  with 1(1) [OF r] show ?case by auto
next
  case (2 ts ix out)
  from 2(2) obtain vs1 ix1 out1 where r: "tseytin_list ts ix out = Some (vs1, ix1, out1)"
    and "ix' = ix1\<lparr>ix_num_vars := ix_num_vars ix1 + 1\<rparr>"
    by (auto simp: indices_var_def Let_def split: option.splits)
  with 2(1) [OF r] show ?case by auto
next
  case (3 t ix out)
  from 3(2) obtain v1 ix1 out1 where r: "tseytin_inner t ix out = Some (v1, ix1, out1)"
    and "ix' = ix1\<lparr>ix_num_vars := ix_num_vars ix1 + 1\<rparr>"
    by (auto simp: indices_var_def Let_def split: option.splits)
  with 3(1) [OF r] show ?case by auto
next
  case (4 l r ix out)
  from 4(3) obtain v1 ix1 out1 v2 ix2 out2 where r1: "tseytin_inner l ix out = Some (v1, ix1, out1)"
    and r2: "tseytin_inner r ix1 out1 = Some (v2, ix2, out2)"
    and "ix' = ix2\<lparr>ix_num_vars := ix_num_vars ix2 + 1\<rparr>"
    by (auto simp: indices_var_def Let_def split: option.splits)
  with 4(1) [OF r1] 4(2) [OF r1 refl refl r2] show ?case by auto
next
  case (5 f p es ix out)
  then show ?case by (auto intro: exI [of _ "ix_num_vars ix"])
next
  case (6 ix out)
  then show ?case by (auto intro: exI [of _ "ix_num_vars ix"])
next
  case (7 t ts ix out)
  from 7(3) obtain v1 ix1 out1 vs2 out2 where r1: "tseytin_inner t ix out = Some (v1, ix1, out1)"
    and r2: "tseytin_list ts ix1 out1 = Some (vs2, ix', out2)"
    by (auto split: option.splits)
  with 7(1) [OF r1] 7(2) [OF r1 refl refl r2] show ?case by (auto simp: list_all_iff)
qed

lemma tseytin_defined: "tseytin e ix = Some (cls, ix') \<Longrightarrow> gets_defined ix e"
  using tseytin_inner_defined(1) by (force simp: tseytin_def split: option.splits)

lemma sat_encoding_Inr:
  assumes "sat_encoding it m u depth = Some (Inr (cls, ix))"
  obtains d ix0 init tr safe
  where "extract_module m = Some (Inr d)" and "bool_relations (mod_signature m)"
    and "indices_new it (mod_signature m) u (depth + 1) = Some ix0"
    and "enumerate_term it (mod_signature m) u (term_and (dm_inits d @ dm_axioms d)) = Some (Inr init)"
    and "enumerate_term it (mod_signature m) u
      (term_and (dm_transitions d @ mutable_axioms d (sig_relations (mod_signature m)))) = Some (Inr tr)"
    and "enumerate_term it (mod_signature m) u
      (term_and (map (\<lambda>p. sp_x (sf_safety p)) (dm_proofs d))) = Some (Inr safe)"
    and "tseytin (EAnd (sat_program init tr (ENot safe) depth)) ix0 = Some (cls, ix)"
proof -
  from assms show thesis
    by (auto simp: sat_encoding_def Let_def bind_pr_Inr bool_relations_def list_ex_iff
        split: option.splits if_splits sum.splits intro!: that)
qed

lemma program_meaning:
  assumes "itertools_doc it" and "system_ok sig u tr" and "bool_relations sig" and "checkable sig d"
    and "enumerate_term it sig u (term_and (dm_inits d @ dm_axioms d)) = Some (Inr init)"
    and "enumerate_term it sig u (term_and (dm_transitions d @ mutable_axioms d (sig_relations sig))) = Some (Inr step)"
    and "enumerate_term it sig u (term_and (map (\<lambda>p. sp_x (sf_safety p)) (dm_proofs d))) = Some (Inr safe)"
  shows "eeval (trace_valuation tr 0) (EAnd (sat_program init step (ENot safe) depth))
    \<longleftrightarrow> bounded_run sig d depth tr \<and> unsafe_at d depth tr"
proof -
  note parts = checkable_parts [OF assms(4)]
  have "eeval (trace_valuation tr 0) init \<longleftrightarrow> (\<forall>t\<in>set (dm_inits d @ dm_axioms d). holds tr 0 Map.empty t)"
    by (rule translate_and [OF assms(1-3) parts(1) assms(5)])
  moreover have "eeval (trace_valuation tr 0) (enum_prime step i)
      \<longleftrightarrow> (\<forall>t\<in>set (dm_transitions d @ mutable_axioms d (sig_relations sig)). holds tr i Map.empty t)" for i
    unfolding trace_valuation_shift by (rule translate_and [OF assms(1-3) parts(2) assms(6)])
  moreover have "eeval (trace_valuation tr 0) (enum_prime (ENot safe) depth) \<longleftrightarrow> unsafe_at d depth tr"
    unfolding trace_valuation_shift eeval.simps translate_and [OF assms(1-3) parts(3) assms(7)]
    by (auto simp: unsafe_at_def)
  ultimately show ?thesis
    by (auto simp: sat_program_def bounded_run_def list_all_iff)
qed



section \<open>Concrete runs\<close>

lemma safety_only_enc:
  "map_option (\<lambda>r. case r of Inl e \<Rightarrow> None | Inr (cls, ix) \<Rightarrow> Some (ix_num_vars ix, length cls))
     (sat_encoding itertools_ref (safety_only [Id ''p'']) Map.empty 0) = Some (Some (3, 6))"
  by code_simp

fun says_unknown :: "('e + 'c checker_answer) option \<Rightarrow> bool" where
  "says_unknown (Some (Inr Unknown)) = True"
| "says_unknown _ = False"

fun says_counterexample :: "('e + 'c checker_answer) option \<Rightarrow> bool" where
  "says_counterexample (Some (Inr (Counterexample ms))) = True"
| "says_counterexample _ = False"

lemma saysD:
  "says_unknown r \<Longrightarrow> r = Some (Inr Unknown)"
  "says_counterexample r \<Longrightarrow> \<exists>ms. r = Some (Inr (Counterexample ms))"
  by (cases r rule: says_unknown.cases; simp) (cases r rule: says_counterexample.cases; simp)

lemma encoding_small:
  assumes "map_option (\<lambda>r. case r of Inl e \<Rightarrow> None | Inr (cls, ix) \<Rightarrow> Some (ix_num_vars ix, length cls)) r
      = Some (Some (n, k))"
    and "n < 2 ^ 31" and "r = Some (Inr (cls, ix))"
  shows "ix_num_vars ix < 2 ^ 31"
  using assms by auto


lemma safety_only_enc1:
  "map_option (\<lambda>r. case r of Inl e \<Rightarrow> None | Inr (cls, ix) \<Rightarrow> Some (ix_num_vars ix, length cls))
     (sat_encoding itertools_ref (safety_only [Id ''p'']) Map.empty 1) = Some (Some (5, 8))"
  by code_simp


text \<open>The checker requires axioms about mutable relations before every step but not in the last
  state, so it can report a violation that no trace of the module has: with the assumption
  \<open>always p\<close> and the assertion \<open>always p\<close> it answers with a counterexample of one step, although
  every trace that satisfies the assumptions satisfies the assertions.\<close>

lemma sat_check_axiom_gap:
  "\<exists>ms. sat_check itertools_ref brute_force (safety_only [UnaryOp Always (Id ''p'')]) Map.empty 1
       = Some (Inr (Counterexample ms))
     \<and> {tr. statements_assumed tr (safety_only [UnaryOp Always (Id ''p'')])}
       \<subseteq> {tr. statements_asserted tr (safety_only [UnaryOp Always (Id ''p'')])}"
proof -
  let ?m = "safety_only [UnaryOp Always (Id ''p'')]"
  have "says_counterexample (sat_check itertools_ref brute_force ?m Map.empty 1)" by code_simp
  then obtain ms where "sat_check itertools_ref brute_force ?m Map.empty 1 = Some (Inr (Counterexample ms))"
    using saysD(2) by blast
  moreover have "{tr. statements_assumed tr ?m} \<subseteq> {tr. statements_asserted tr ?m}"
    by (auto simp: statements_assumed_def statements_asserted_def safety_only_def)
  ultimately show ?thesis by blast
qed

end
