(* ===== verification/Bounded_State.thy ===== *)
theory Bounded_State
  imports Bounded_Indices
begin

text \<open>
  Model of the states and formulas of \<^verbatim>\<open>bounded/src/set.rs\<close>: states are bit arrays of the fixed
  length \<open>STATE_LEN\<close> (lists of booleans here; reading or writing out of range is a panic), formulas
  are propositional formulas over literals on the bits, with the order that \<open>#[derive(Ord)]\<close>
  gives them and the simplifying connectives.
\<close>

section \<open>States\<close>

type_synonym bounded_state = "bool list"

definition state_len :: nat where
  "state_len = 128"

definition state_zero :: bounded_state where
  "state_zero = replicate state_len False"

definition state_get :: "bounded_state \<Rightarrow> nat \<Rightarrow> bool option" where
  "state_get s index = (if index < state_len then Some (s ! index) else None)"

definition state_set :: "bounded_state \<Rightarrow> nat \<Rightarrow> bool \<Rightarrow> bounded_state option" where
  "state_set s index v = (if index < state_len then Some (s[index := v]) else None)"

section \<open>Guards and formulas\<close>

datatype guard = Guard (gd_index: nat) (gd_value: bool)

lemma guard_eq_iff: "g = h \<longleftrightarrow> gd_index g = gd_index h \<and> gd_value g = gd_value h"
  by (cases g; cases h) simp

definition guard_lt :: "guard \<Rightarrow> guard \<Rightarrow> bool" where
  "guard_lt g h \<longleftrightarrow> gd_index g < gd_index h \<or> gd_index g = gd_index h \<and> gd_value g < gd_value h"

instantiation guard :: linorder
begin

definition less_guard :: "guard \<Rightarrow> guard \<Rightarrow> bool" where
  "less_guard g h = guard_lt g h"

definition less_eq_guard :: "guard \<Rightarrow> guard \<Rightarrow> bool" where
  "less_eq_guard g h \<longleftrightarrow> g = h \<or> g < h"

instance
  by standard (auto simp: less_guard_def guard_lt_def less_eq_guard_def guard_eq_iff)

end

datatype formula =
  FAnd "formula list"
| FOr "formula list"
| FGuard guard

fun formula_tag :: "formula \<Rightarrow> nat" where
  "formula_tag (FAnd xs) = 0"
| "formula_tag (FOr xs) = 1"
| "formula_tag (FGuard g) = 2"

fun formula_lt :: "formula \<Rightarrow> formula \<Rightarrow> bool"
and formulas_lt :: "formula list \<Rightarrow> formula list \<Rightarrow> bool" where
  "formula_lt (FAnd xs) (FAnd ys) = formulas_lt xs ys"
| "formula_lt (FOr xs) (FOr ys) = formulas_lt xs ys"
| "formula_lt (FGuard g) (FGuard h) = (g < h)"
| "formula_lt x y = (formula_tag x < formula_tag y)"
| "formulas_lt [] [] = False"
| "formulas_lt [] (y # ys) = True"
| "formulas_lt (x # xs) [] = False"
| "formulas_lt (x # xs) (y # ys) = (formula_lt x y \<or> x = y \<and> formulas_lt xs ys)"

lemma formula_lt_neq: "formula_lt x y \<Longrightarrow> x \<noteq> y" "formulas_lt xs ys \<Longrightarrow> xs \<noteq> ys"
  by (induction x y and xs ys rule: formula_lt_formulas_lt.induct) auto

lemma formula_lt_total:
  "x \<noteq> y \<Longrightarrow> formula_lt x y \<or> formula_lt y x" "xs \<noteq> ys \<Longrightarrow> formulas_lt xs ys \<or> formulas_lt ys xs"
  by (induction x y and xs ys rule: formula_lt_formulas_lt.induct) auto

lemma formula_lt_trans:
  "formula_lt x y \<Longrightarrow> formula_lt y z \<Longrightarrow> formula_lt x z"
  "formulas_lt xs ys \<Longrightarrow> formulas_lt ys zs \<Longrightarrow> formulas_lt xs zs"
  by (induction x y and xs ys arbitrary: z and zs rule: formula_lt_formulas_lt.induct)
    (case_tac z; force | case_tac zs; force)+

instantiation formula :: linorder
begin

definition less_formula :: "formula \<Rightarrow> formula \<Rightarrow> bool" where
  "less_formula x y = formula_lt x y"

definition less_eq_formula :: "formula \<Rightarrow> formula \<Rightarrow> bool" where
  "less_eq_formula x y = (x = y \<or> formula_lt x y)"

instance
  by standard
    (unfold less_formula_def less_eq_formula_def,
      (rule derived_order [of formula_lt, OF formula_lt_neq(1) formula_lt_total(1) formula_lt_trans(1)]; assumption)+)

end

definition f_always_true :: formula where
  "f_always_true = FAnd []"

definition f_always_false :: formula where
  "f_always_false = FOr []"

fun f_get_and :: "formula \<Rightarrow> formula list" where
  "f_get_and (FAnd terms) = terms"
| "f_get_and t = [t]"

fun f_get_or :: "formula \<Rightarrow> formula list" where
  "f_get_or (FOr terms) = terms"
| "f_get_or t = [t]"

definition f_and :: "formula list \<Rightarrow> formula" where
  "f_and terms =
     (let terms = remdups_adj (List.sort (concat (map f_get_and terms))) in
      if list_ex (\<lambda>t. t = f_always_false) terms then f_always_false
      else if length terms = 1 then last terms
      else FAnd terms)"

definition f_or :: "formula list \<Rightarrow> formula" where
  "f_or terms =
     (let terms = remdups_adj (List.sort (concat (map f_get_or terms))) in
      if list_ex (\<lambda>t. t = f_always_true) terms then f_always_true
      else if length terms = 1 then last terms
      else FOr terms)"

fun f_not :: "formula \<Rightarrow> formula" where
  "f_not (FAnd terms) = f_or (map f_not terms)"
| "f_not (FOr terms) = f_and (map f_not terms)"
| "f_not (FGuard (Guard index v)) = FGuard (Guard index (\<not> v))"

definition f_iff :: "formula \<Rightarrow> formula \<Rightarrow> formula" where
  "f_iff f g = f_or [f_and [f, g], f_and [f_not f, f_not g]]"

fun f_evaluate :: "formula \<Rightarrow> bounded_state \<Rightarrow> bool option" where
  "f_evaluate (FAnd terms) s = all_p (map (\<lambda>t. f_evaluate t s) terms)"
| "f_evaluate (FOr terms) s = any_p (map (\<lambda>t. f_evaluate t s) terms)"
| "f_evaluate (FGuard (Guard index v)) s = map_option (\<lambda>b. b = v) (state_get s index)"

text \<open>\<open>evaluate_partial\<close>: the result is \<open>None\<close> where it is not known. \<open>try_fold\<close> stops at the first
  \<open>None\<close>.\<close>

definition partial_and_step :: "bool \<Rightarrow> bool option \<Rightarrow> bool option" where
  "partial_and_step b r =
     (if \<not> b \<or> r = Some False then Some False else if r = Some True then Some True else None)"

definition partial_or_step :: "bool \<Rightarrow> bool option \<Rightarrow> bool option" where
  "partial_or_step b r =
     (if b \<or> r = Some True then Some True else if r = Some False then Some False else None)"

fun f_partial :: "formula \<Rightarrow> (nat \<rightharpoonup> bool) \<Rightarrow> bool option" where
  "f_partial (FAnd terms) m = fold_p (\<lambda>r b. partial_and_step b r) (map (\<lambda>t. f_partial t m) terms) True"
| "f_partial (FOr terms) m = fold_p (\<lambda>r b. partial_or_step b r) (map (\<lambda>t. f_partial t m) terms) False"
| "f_partial (FGuard (Guard index v)) m = map_option (\<lambda>b. b = v) (m index)"

definition f_evaluate_partial :: "formula \<Rightarrow> guard list \<Rightarrow> bool option" where
  "f_evaluate_partial f guards = f_partial f (foldl (\<lambda>m g. m(gd_index g \<mapsto> gd_value g)) Map.empty guards)"

fun f_guard_indices :: "formula \<Rightarrow> nat list" where
  "f_guard_indices (FAnd terms) = concat (map f_guard_indices terms)"
| "f_guard_indices (FOr terms) = concat (map f_guard_indices terms)"
| "f_guard_indices (FGuard (Guard index v)) = [index]"

section \<open>Meaning\<close>

fun feval :: "(nat \<Rightarrow> bool) \<Rightarrow> formula \<Rightarrow> bool" where
  "feval \<beta> (FAnd fs) = list_all (feval \<beta>) fs"
| "feval \<beta> (FOr fs) = list_ex (feval \<beta>) fs"
| "feval \<beta> (FGuard g) = (\<beta> (gd_index g) = gd_value g)"

lemma f_get_and_feval: "(\<forall>e\<in>set (f_get_and f). feval \<beta> e) \<longleftrightarrow> feval \<beta> f"
  by (cases f) (auto simp: list_all_iff)

lemma f_get_or_feval: "(\<forall>e\<in>set (f_get_or f). \<not> feval \<beta> e) \<longleftrightarrow> \<not> feval \<beta> f"
  by (cases f) (auto simp: list_ex_iff)

lemma feval_f_and [sem_simps]: "feval \<beta> (f_and fs) \<longleftrightarrow> (\<forall>f\<in>set fs. feval \<beta> f)"
  unfolding f_and_def
  by (rule simplified_nary) (simp_all add: f_get_and_feval f_always_false_def list_all_iff)

lemma feval_f_or [sem_simps]: "feval \<beta> (f_or fs) \<longleftrightarrow> (\<exists>f\<in>set fs. feval \<beta> f)"
proof -
  have "\<not> feval \<beta> (f_or fs) \<longleftrightarrow> (\<forall>f\<in>set fs. \<not> feval \<beta> f)"
    unfolding f_or_def
    by (rule simplified_nary) (simp_all add: f_get_or_feval f_always_true_def list_ex_iff)
  then show ?thesis by blast
qed

lemma feval_f_not [sem_simps]: "feval \<beta> (f_not f) \<longleftrightarrow> \<not> feval \<beta> f"
  by (induction f rule: f_not.induct) (auto simp: sem_simps list_all_iff list_ex_iff)

interpretation set_formula_ops: formula_ops feval f_and f_or f_not
  by unfold_locales (rule feval_f_and feval_f_or feval_f_not)+

lemma feval_f_iff [sem_simps]: "feval \<beta> (f_iff f g) \<longleftrightarrow> feval \<beta> f = feval \<beta> g"
  by (auto simp: f_iff_def sem_simps)

lemma feval_constants [simp]: "feval \<beta> f_always_true" "\<not> feval \<beta> f_always_false"
  by (simp_all add: f_always_true_def f_always_false_def)

lemma feval_cong:
  "(\<And>i. i \<in> set (f_guard_indices f) \<Longrightarrow> \<beta> i = \<gamma> i) \<Longrightarrow> feval \<beta> f = feval \<gamma> f"
  by (induction f rule: f_guard_indices.induct) (auto simp: list_all_iff list_ex_iff)

text \<open>Reading a state never panics below \<open>STATE_LEN\<close>, and then \<open>evaluate\<close> computes the meaning.\<close>

lemma f_evaluate_Some: "f_evaluate f s = Some b \<Longrightarrow> b = feval ((!) s) f"
proof (induction f s arbitrary: b rule: f_evaluate.induct)
  case (1 terms s)
  then show ?case using all_p_SomeD [of "\<lambda>t. f_evaluate t s" terms b "feval ((!) s)"]
    by (simp add: list_all_iff)
next
  case (2 terms s)
  then show ?case using any_p_SomeD [of "\<lambda>t. f_evaluate t s" terms b "feval ((!) s)"]
    by (simp add: list_ex_iff)
qed (auto simp: state_get_def split: if_splits)

lemma f_evaluate_feval:
  "\<forall>i\<in>set (f_guard_indices f). i < state_len \<Longrightarrow> f_evaluate f s = Some (feval ((!) s) f)"
proof (induction f s rule: f_evaluate.induct)
  case (1 terms s)
  then show ?case using all_p_eq_SomeI [of terms "\<lambda>t. f_evaluate t s" "feval ((!) s)"]
    by (simp add: list_all_iff)
next
  case (2 terms s)
  then show ?case using any_p_eq_SomeI [of terms "\<lambda>t. f_evaluate t s" "feval ((!) s)"]
    by (simp add: list_ex_iff)
qed (simp add: state_get_def)

section \<open>Partial evaluation\<close>

lemma fold_partial_and:
  "fold_p (\<lambda>r b. partial_and_step b r) rs b0 = Some b \<Longrightarrow>
   (b \<longrightarrow> b0 \<and> (\<forall>r\<in>set rs. r = Some True)) \<and> (\<not> b \<longrightarrow> \<not> b0 \<or> Some False \<in> set rs)"
proof (induction rs arbitrary: b0)
  case (Cons r rs)
  then obtain b1 where b1: "partial_and_step b0 r = Some b1"
    and rest: "fold_p (\<lambda>r b. partial_and_step b r) rs b1 = Some b"
    by (auto split: option.splits)
  from Cons.IH [OF rest] b1 show ?case by (auto simp: partial_and_step_def split: if_splits)
qed simp

lemma fold_partial_or:
  "fold_p (\<lambda>r b. partial_or_step b r) rs b0 = Some b \<Longrightarrow>
   (\<not> b \<longrightarrow> \<not> b0 \<and> (\<forall>r\<in>set rs. r = Some False)) \<and> (b \<longrightarrow> b0 \<or> Some True \<in> set rs)"
proof (induction rs arbitrary: b0)
  case (Cons r rs)
  then obtain b1 where b1: "partial_or_step b0 r = Some b1"
    and rest: "fold_p (\<lambda>r b. partial_or_step b r) rs b1 = Some b"
    by (auto split: option.splits)
  from Cons.IH [OF rest] b1 show ?case by (auto simp: partial_or_step_def split: if_splits)
qed simp

lemma f_partial_sound:
  "f_partial f m = Some b \<Longrightarrow> (\<And>i v. m i = Some v \<Longrightarrow> \<beta> i = v) \<Longrightarrow> feval \<beta> f = b"
proof (induction f m arbitrary: b rule: f_partial.induct)
  case (1 terms m)
  have IH: "feval \<beta> t = c" if "t \<in> set terms" "f_partial t m = Some c" for t c
    using 1(1) [OF that 1(3)] .
  from 1(2) have "fold_p (\<lambda>r b. partial_and_step b r) (map (\<lambda>t. f_partial t m) terms) True = Some b" by simp
  from fold_partial_and [OF this] consider "b" "\<forall>t\<in>set terms. f_partial t m = Some True"
    | t where "\<not> b" "t \<in> set terms" "f_partial t m = Some False" by (cases b) auto
  then show ?case using IH by cases (auto simp: list_all_iff)
next
  case (2 terms m)
  have IH: "feval \<beta> t = c" if "t \<in> set terms" "f_partial t m = Some c" for t c
    using 2(1) [OF that 2(3)] .
  from 2(2) have "fold_p (\<lambda>r b. partial_or_step b r) (map (\<lambda>t. f_partial t m) terms) False = Some b" by simp
  from fold_partial_or [OF this] consider "\<not> b" "\<forall>t\<in>set terms. f_partial t m = Some False"
    | t where "b" "t \<in> set terms" "f_partial t m = Some True" by (cases b) auto
  then show ?case using IH by cases (auto simp: list_ex_iff)
qed auto

lemma guard_map_lookup:
  "foldl (\<lambda>m g. m(gd_index g \<mapsto> gd_value g)) m0 guards i = Some v \<Longrightarrow>
   m0 i = Some v \<or> Guard i v \<in> set guards"
proof (induction guards arbitrary: m0)
  case (Cons g guards)
  from Cons.IH [OF Cons.prems [unfolded foldl.simps]] show ?case
    by (cases g) (auto split: if_splits)
qed simp

text \<open>Partial evaluation never guesses: when it answers a truth value from a list of literals,
  the formula has that value in every state in which the literals hold.\<close>

theorem f_evaluate_partial_sound:
  assumes "f_evaluate_partial f guards = Some b" and "\<forall>g\<in>set guards. \<beta> (gd_index g) = gd_value g"
  shows "feval \<beta> f = b"
proof (rule f_partial_sound [OF assms(1) [unfolded f_evaluate_partial_def]])
  fix i v assume "foldl (\<lambda>m g. m(gd_index g \<mapsto> gd_value g)) Map.empty guards i = Some v"
  from guard_map_lookup [OF this] assms(2) show "\<beta> i = v" by fastforce
qed

theorem f_evaluate_partial_sound_witness:
  "f_evaluate_partial (FOr [FGuard (Guard 3 True), FGuard (Guard 5 False)]) [Guard 3 True] = Some True
   \<and> feval (\<lambda>i. i = 3) (FOr [FGuard (Guard 3 True), FGuard (Guard 5 False)])"
proof -
  have eq: "f_evaluate_partial (FOr [FGuard (Guard 3 True), FGuard (Guard 5 False)]) [Guard 3 True] = Some True"
    by code_simp
  from f_evaluate_partial_sound [OF this, of "\<lambda>i. i = 3"] eq show ?thesis by simp
qed

text \<open>The simplifying connectives of the checker's formulas (flattening, sorting, removing
  duplicates, collapsing constants, pushing negation to the literals) mean the connectives, and on
  states in range \<open>evaluate\<close> returns the truth value.\<close>

theorem set_formula_connectives:
  assumes "\<forall>i\<in>set (f_guard_indices f). i < state_len" and "\<forall>i\<in>set (f_guard_indices g). i < state_len"
  shows "f_evaluate f s = Some (feval ((!) s) f)
    \<and> feval ((!) s) (f_and [f, g]) = (feval ((!) s) f \<and> feval ((!) s) g)
    \<and> feval ((!) s) (f_or [f, g]) = (feval ((!) s) f \<or> feval ((!) s) g)
    \<and> feval ((!) s) (f_iff f g) = (feval ((!) s) f = feval ((!) s) g)
    \<and> feval ((!) s) (f_not f) = (f_evaluate f s = Some False)"
  using f_evaluate_feval [OF assms(1), of s] by (simp add: sem_simps)

theorem set_formula_connectives_witness:
  "f_evaluate (FGuard (Guard 3 True)) (state_zero[3 := True]) = Some True
   \<and> \<not> feval ((!) (state_zero[3 := True])) (f_not (FGuard (Guard 3 True)))"
proof -
  have "f_evaluate (FGuard (Guard 3 True)) (state_zero[3 := True]) = Some True"
    by (simp add: state_get_def state_zero_def state_len_def)
  with set_formula_connectives [of "FGuard (Guard 3 True)" "FGuard (Guard 3 True)" "state_zero[3 := True]"]
  show ?thesis by (simp add: state_len_def)
qed

end
