(* ===== verification/Bounded_Set_Search.thy ===== *)
theory Bounded_Set_Search
  imports Bounded_State "HOL-Library.AList" "HOL-Library.Multiset"
begin

text \<open>
  Model of the search of \<^verbatim>\<open>bounded/src/set.rs\<close> (\<open>interpret\<close>): a breadth-first exploration of the
  states of a bounded program, with the trie \<open>Transitions\<close> that finds the enabled transitions and
  the set \<open>IsoStateSet\<close> that identifies states up to a permutation of the universe. A hash map that
  is iterated over has no documented order, so the order is a parameter (\<open>hash_orders\<close>). The
  search loop may run for ever, so it is a partial function: \<open>None\<close> is "panics or does not return".
  Progress output is left out.
\<close>

section \<open>Programs, traces\<close>

datatype update = Update (up_index: nat) (up_formula: formula)

record transition =
  tn_guards :: "guard list"
  tn_updates :: "update list"
  tn_slow_guard :: formula

record bounded_program =
  bp_inits :: "bounded_state list"
  bp_trs :: "transition list"
  bp_safe :: formula

datatype trace_compression = CompressYes | CompressNo

datatype search_trace = Trace "bounded_state list" | CompressedTrace bounded_state nat

fun trace_new :: "bounded_state \<Rightarrow> trace_compression \<Rightarrow> search_trace" where
  "trace_new state CompressYes = CompressedTrace state 0"
| "trace_new state CompressNo = Trace [state]"

fun trace_depth :: "search_trace \<Rightarrow> nat" where
  "trace_depth (CompressedTrace s n) = n"
| "trace_depth (Trace v) = length v - 1"

fun trace_last :: "search_trace \<Rightarrow> bounded_state option" where
  "trace_last (CompressedTrace s n) = Some s"
| "trace_last (Trace v) = (if v = [] then None else Some (last v))"

fun trace_push :: "search_trace \<Rightarrow> bounded_state \<Rightarrow> search_trace" where
  "trace_push (CompressedTrace s n) state = CompressedTrace state (n + 1)"
| "trace_push (Trace v) state = Trace (v @ [state])"

datatype interpreter_result = SearchCounterexample search_trace | SearchUnknown | SearchConvergence

section \<open>The trie of transitions\<close>

datatype transitions =
  Transitions (ts_data: "transition list") (ts_children: "(guard \<times> transitions) list")

definition transitions_new :: transitions where
  "transitions_new = Transitions [] []"

fun insert_from_iter :: "guard list \<Rightarrow> transition \<Rightarrow> transitions \<Rightarrow> transitions" where
  "insert_from_iter [] v (Transitions data children) = Transitions (data @ [v]) children"
| "insert_from_iter (key # rest) v (Transitions data children) =
     Transitions data
       (AList.update key
         (insert_from_iter rest v
           (case map_of children key of Some child \<Rightarrow> child | None \<Rightarrow> transitions_new))
         children)"

definition transitions_insert :: "transition \<Rightarrow> transitions \<Rightarrow> transitions" where
  "transitions_insert v ts = insert_from_iter (tn_guards v) v ts"

text \<open>The orders in which hash maps are iterated over.\<close>

record hash_orders =
  ho_children :: "(guard \<times> transition list) list \<Rightarrow> (guard \<times> transition list) list"
  ho_universe :: "universe_bounds \<Rightarrow> string list"
  ho_indices :: "index_map \<Rightarrow> (string \<times> (element list \<times> nat \<times> bool) list) list"

fun get_subsets :: "hash_orders \<Rightarrow> transitions \<Rightarrow> bounded_state \<Rightarrow> transition list option" where
  "get_subsets ho (Transitions data children) st =
     (case filter_p (\<lambda>tr. f_evaluate (tn_slow_guard tr) st) data of None \<Rightarrow> None | Some out \<Rightarrow>
      map_option (\<lambda>outs. out @ concat (map snd (ho_children ho outs)))
        (those (map (\<lambda>(key, child).
             case state_get st (gd_index key) of None \<Rightarrow> None | Some b \<Rightarrow>
               (if b = gd_value key then map_option (Pair key) (get_subsets ho child st)
                else Some (key, [])))
           children)))"

section \<open>States up to isomorphism\<close>

record iso_state_set =
  iso_set :: "bounded_state set"
  iso_orderings :: "(nat \<times> nat) list list"

text \<open>The copy instructions of one permutation of the universe, and all of them.\<close>

definition iso_copies ::
  "hash_orders \<Rightarrow> indices \<Rightarrow> (string \<rightharpoonup> nat list) \<Rightarrow> (nat \<times> nat) list option" where
  "iso_copies ho ix permutation =
     map_option (filter (\<lambda>(src, dst). src \<noteq> dst))
       (those (concat (map (\<lambda>(name, rest).
          map (\<lambda>(elements, (i, _)).
            case relation_decl_of (ix_signature ix) name of None \<Rightarrow> None | Some relation \<Rightarrow>
              (if length (rd_args relation) \<noteq> length elements then None
               else
                case those (map (\<lambda>(srt, x).
                    case srt of
                      Uninterpreted s \<Rightarrow>
                        (case permutation s of None \<Rightarrow> None | Some p \<Rightarrow>
                          (if x < length p then Some (p ! x) else None))
                    | Bool \<Rightarrow> Some x)
                  (zip (rd_args relation) elements)) of
                  None \<Rightarrow> None
                | Some new_elements \<Rightarrow>
                    map_option (Pair i) (indices_get ix (rd_name relation) 0 new_elements)))
            rest)
        (ho_indices ho (ix_indices ix)))))"

definition iso_new :: "hash_orders \<Rightarrow> itertools \<Rightarrow> indices \<Rightarrow> iso_state_set option" where
  "iso_new ho it ix =
     (let sorts = List.sort (ho_universe ho (ix_universe ix)) in
      case those (map (ix_universe ix) sorts) of None \<Rightarrow> None | Some sizes \<Rightarrow>
        map_option (\<lambda>orderings. \<lparr>iso_set = {}, iso_orderings = orderings\<rparr>)
          (those (map (\<lambda>perm.
              if length sorts = length perm then iso_copies ho ix (map_of (zip sorts perm))
              else None)
            (mcp_fixed (mcp_perm it) (map (permutations_nat it) sizes)))))"

definition permute_state :: "(nat \<times> nat) list \<Rightarrow> bounded_state \<Rightarrow> bounded_state option" where
  "permute_state perm x =
     fold_p (\<lambda>(src, dst) y. case state_get x src of None \<Rightarrow> None | Some b \<Rightarrow> state_set y dst b) perm x"

definition iso_insert :: "bounded_state \<Rightarrow> iso_state_set \<Rightarrow> (bool \<times> iso_state_set) option" where
  "iso_insert x seen =
     (if x \<in> iso_set seen then Some (False, seen)
      else map_option (\<lambda>st'. (True, seen\<lparr>iso_set := st'\<rparr>))
        (fold_p (\<lambda>perm st. map_option (\<lambda>y. insert y st) (permute_state perm x))
          (iso_orderings seen) (iso_set seen)))"

section \<open>The search\<close>

definition apply_updates :: "transition \<Rightarrow> bounded_state \<Rightarrow> bounded_state option" where
  "apply_updates tr state =
     fold_p (\<lambda>u next. case f_evaluate (up_formula u) state of None \<Rightarrow> None | Some b \<Rightarrow>
         state_set next (up_index u) b)
       (tn_updates tr) state"

definition below_depth :: "nat option \<Rightarrow> nat \<Rightarrow> bool" where
  "below_depth max_depth depth = (case max_depth of None \<Rightarrow> True | Some md \<Rightarrow> depth < md)"

text \<open>\<open>if seen.insert(..) { queue.push_back(..) }\<close>.\<close>

definition enqueue ::
  "(bounded_state \<Rightarrow> search_trace) \<Rightarrow> bounded_state \<Rightarrow> search_trace list \<times> iso_state_set
   \<Rightarrow> (search_trace list \<times> iso_state_set) option" where
  "enqueue mk x = (\<lambda>(queue, seen).
     map_option (\<lambda>(new, seen). (if new then queue @ [mk x] else queue, seen)) (iso_insert x seen))"

definition push_init ::
  "trace_compression \<Rightarrow> bounded_state \<Rightarrow> search_trace list \<times> iso_state_set
   \<Rightarrow> (search_trace list \<times> iso_state_set) option" where
  "push_init compression init = enqueue (\<lambda>s. trace_new s compression) init"

definition explore ::
  "search_trace \<Rightarrow> bounded_state \<Rightarrow> transition \<Rightarrow> search_trace list \<times> iso_state_set
   \<Rightarrow> (search_trace list \<times> iso_state_set) option" where
  "explore trace state tr qs =
     (case apply_updates tr state of None \<Rightarrow> None | Some next \<Rightarrow> enqueue (trace_push trace) next qs)"

partial_function (option) search_loop ::
  "hash_orders \<Rightarrow> formula \<Rightarrow> transitions \<Rightarrow> nat option \<Rightarrow> search_trace list \<Rightarrow> iso_state_set \<Rightarrow> nat
   \<Rightarrow> interpreter_result option" where
  "search_loop ho safe transitions max_depth queue seen current_depth =
     (case queue of
        [] \<Rightarrow> Some (if below_depth max_depth current_depth then SearchConvergence else SearchUnknown)
      | trace # queue \<Rightarrow>
          (let depth = trace_depth trace;
               current_depth = (if depth > current_depth then current_depth + 1 else current_depth)
           in case trace_last trace of None \<Rightarrow> None | Some state \<Rightarrow>
              (case f_evaluate safe state of None \<Rightarrow> None | Some ok \<Rightarrow>
                (if \<not> ok then Some (SearchCounterexample trace)
                 else if below_depth max_depth depth
                 then (case get_subsets ho transitions state of None \<Rightarrow> None | Some trs \<Rightarrow>
                       (case fold_p (explore trace state) trs (queue, seen) of None \<Rightarrow> None
                        | Some qs \<Rightarrow>
                            search_loop ho safe transitions max_depth (fst qs) (snd qs) current_depth))
                 else search_loop ho safe transitions max_depth queue seen current_depth))))"

declare search_loop.simps [code]

definition interpret_program ::
  "hash_orders \<Rightarrow> itertools \<Rightarrow> bounded_program \<Rightarrow> nat option \<Rightarrow> trace_compression \<Rightarrow> indices
   \<Rightarrow> interpreter_result option" where
  "interpret_program ho it program max_depth compression ix =
     (case iso_new ho it ix of None \<Rightarrow> None | Some seen \<Rightarrow>
      (case fold_p (push_init compression) (bp_inits program) ([], seen) of None \<Rightarrow> None
       | Some (queue, seen) \<Rightarrow>
           search_loop ho (bp_safe program)
             (fold transitions_insert (bp_trs program) transitions_new)
             max_depth queue seen 0))"

section \<open>Meaning of transitions\<close>

definition formula_in_range :: "formula \<Rightarrow> bool" where
  "formula_in_range f \<longleftrightarrow> (\<forall>i\<in>set (f_guard_indices f). i < state_len)"

definition transition_in_range :: "transition \<Rightarrow> bool" where
  "transition_in_range tr \<longleftrightarrow>
     (\<forall>g\<in>set (tn_guards tr). gd_index g < state_len) \<and> formula_in_range (tn_slow_guard tr)
     \<and> (\<forall>u\<in>set (tn_updates tr). up_index u < state_len \<and> formula_in_range (up_formula u))"

definition tn_enabled :: "bounded_state \<Rightarrow> transition \<Rightarrow> bool" where
  "tn_enabled s tr \<longleftrightarrow>
     (\<forall>g\<in>set (tn_guards tr). s ! gd_index g = gd_value g) \<and> feval ((!) s) (tn_slow_guard tr)"

definition tn_target :: "transition \<Rightarrow> bounded_state \<Rightarrow> bounded_state" where
  "tn_target tr s =
     fold (\<lambda>u next. next[up_index u := feval ((!) s) (up_formula u)]) (tn_updates tr) s"

lemma f_evaluate_in_range: "formula_in_range f \<Longrightarrow> f_evaluate f s = Some (feval ((!) s) f)"
  by (simp add: formula_in_range_def f_evaluate_feval)

lemma apply_updates_in_range:
  "transition_in_range tr \<Longrightarrow> apply_updates tr s = Some (tn_target tr s)"
  unfolding apply_updates_def tn_target_def
  by (rule fold_p_Some) (auto simp: transition_in_range_def f_evaluate_in_range state_set_def)

lemma apply_updates_Some: "apply_updates tr s = Some t \<Longrightarrow> t = tn_target tr s"
  unfolding apply_updates_def tn_target_def
  by (erule fold_p_SomeD)
    (auto simp: state_set_def dest: f_evaluate_Some split: option.splits if_splits)

lemma length_tn_target [simp]: "length (tn_target tr s) = length s"
proof -
  have "length (fold (\<lambda>u next. next[up_index u := feval ((!) s) (up_formula u)]) us t) = length t" for us t
    by (induction us arbitrary: t) auto
  then show ?thesis by (simp add: tn_target_def)
qed

section \<open>The trie finds the enabled transitions\<close>

fun trie_items :: "transitions \<Rightarrow> (guard list \<times> transition) multiset" where
  "trie_items (Transitions data children) =
     image_mset (Pair []) (mset data)
     + sum_list (map (\<lambda>(key, child). image_mset (\<lambda>(path, tr). (key # path, tr)) (trie_items child)) children)"

fun trie_ok :: "transitions \<Rightarrow> bool" where
  "trie_ok (Transitions data children) \<longleftrightarrow>
     distinct (map fst children) \<and> list_all (\<lambda>(key, child). trie_ok child) children"

lemma sum_list_update:
  fixes f :: "'a \<times> 'b \<Rightarrow> 'c multiset"
  assumes "distinct (map fst xs)"
  shows "sum_list (map f (AList.update k v xs)) + (case map_of xs k of Some w \<Rightarrow> f (k, w) | None \<Rightarrow> {#})
    = sum_list (map f xs) + f (k, v)"
  using assms
proof (induction xs)
  case (Cons x xs)
  obtain k' w where x: "x = (k', w)" by force
  have "map_of xs k' = None" using Cons.prems x by (simp add: map_of_eq_None_iff)
  with Cons x show ?case by (auto simp: add_ac split: option.split)
qed simp

lemma list_all_update:
  "list_all P xs \<Longrightarrow> P (k, v) \<Longrightarrow> list_all P (AList.update k v xs)"
  by (induction xs) auto

lemma insert_from_iter_items:
  "trie_ok ts \<Longrightarrow> trie_ok (insert_from_iter ks v ts)
    \<and> trie_items (insert_from_iter ks v ts) = add_mset (ks, v) (trie_items ts)"
proof (induction ks v ts rule: insert_from_iter.induct)
  case (1 v data children)
  then show ?case by simp
next
  case (2 key rest v data children)
  define child where "child = (case map_of children key of Some child \<Rightarrow> child | None \<Rightarrow> transitions_new)"
  have dist: "distinct (map fst children)" and all: "list_all (\<lambda>(key, child). trie_ok child) children"
    using 2(2) by simp_all
  have ok: "trie_ok child"
    using all by (auto simp: child_def transitions_new_def list_all_iff dest!: map_of_SomeD split: option.split)
  from 2(1) ok have IH: "trie_ok (insert_from_iter rest v child)"
    "trie_items (insert_from_iter rest v child) = add_mset (rest, v) (trie_items child)"
    by (simp_all add: child_def)
  let ?f = "\<lambda>(key, child). image_mset (\<lambda>(path, tr). (key # path, tr)) (trie_items child)"
  have "sum_list (map ?f (AList.update key (insert_from_iter rest v child) children)) + ?f (key, child)
      = sum_list (map ?f children) + ?f (key, insert_from_iter rest v child)"
    using sum_list_update [OF dist, of ?f key "insert_from_iter rest v child"]
    by (auto simp: child_def transitions_new_def split: option.splits)
  then have "sum_list (map ?f (AList.update key (insert_from_iter rest v child) children))
      = add_mset (key # rest, v) (sum_list (map ?f children))"
    by (simp add: IH(2))
  moreover have "list_all (\<lambda>(key, child). trie_ok child) (AList.update key (insert_from_iter rest v child) children)"
    using all IH(1) by (intro list_all_update) simp_all
  ultimately show ?case
    using dist by (simp add: child_def [symmetric] distinct_update)
qed

lemma fold_insert_items:
  "trie_ok ts \<Longrightarrow> trie_ok (fold transitions_insert trs ts)
    \<and> trie_items (fold transitions_insert trs ts)
      = trie_items ts + mset (map (\<lambda>tr. (tn_guards tr, tr)) trs)"
proof (induction trs arbitrary: ts)
  case (Cons tr trs)
  from insert_from_iter_items [OF Cons.prems, of "tn_guards tr" tr] Cons.IH [of "transitions_insert tr ts"]
  show ?case by (simp add: transitions_insert_def)
qed simp

lemma program_trie:
  "trie_ok (fold transitions_insert trs transitions_new)"
  "trie_items (fold transitions_insert trs transitions_new) = mset (map (\<lambda>tr. (tn_guards tr, tr)) trs)"
  using fold_insert_items [of transitions_new trs] by (simp_all add: transitions_new_def)

definition hash_children_doc :: "hash_orders \<Rightarrow> bool" where
  "hash_children_doc ho \<longleftrightarrow> (\<forall>xs. mset (ho_children ho xs) = mset xs)"

lemma mset_concat_snd: "mset (concat (map snd xs)) = (\<Sum>x\<leftarrow>xs. mset (snd x))"
  by (induction xs) auto

lemma ho_children_sum:
  assumes "hash_children_doc ho"
  shows "mset (concat (map snd (ho_children ho xs))) = (\<Sum>x\<leftarrow>xs. mset (snd x))"
proof -
  have "mset (map (\<lambda>x. mset (snd x)) (ho_children ho xs)) = mset (map (\<lambda>x. mset (snd x)) xs)"
    using assms by (simp add: hash_children_doc_def)
  then show ?thesis by (metis mset_concat_snd sum_mset_sum_list)
qed

definition path_enabled :: "bounded_state \<Rightarrow> guard list \<times> transition \<Rightarrow> bool" where
  "path_enabled s = (\<lambda>(path, tr).
     (\<forall>g\<in>set path. s ! gd_index g = gd_value g) \<and> feval ((!) s) (tn_slow_guard tr))"

lemma path_enabled_Nil: "path_enabled s ([], tr) = feval ((!) s) (tn_slow_guard tr)"
  by (simp add: path_enabled_def)

lemma get_subsets_items:
  assumes "hash_children_doc ho"
  shows "get_subsets ho ts s = Some out
    \<Longrightarrow> mset out = image_mset snd (filter_mset (path_enabled s) (trie_items ts))"
proof (induction ts arbitrary: out)
  case (Transitions data children)
  let ?sub = "\<lambda>(key, child). case state_get s (gd_index key) of None \<Rightarrow> None | Some b \<Rightarrow>
    (if b = gd_value key then map_option (Pair key) (get_subsets ho child s) else Some (key, []))"
  let ?items = "\<lambda>(key, child). image_mset snd (filter_mset (path_enabled s)
    (image_mset (\<lambda>(path, tr). (key # path, tr)) (trie_items child)))"
  from Transitions.prems obtain out1 outs
    where out1: "filter_p (\<lambda>tr. f_evaluate (tn_slow_guard tr) s) data = Some out1"
      and outs: "those (map ?sub children) = Some outs"
      and out: "out = out1 @ concat (map snd (ho_children ho outs))"
    by (auto split: option.splits)
  have "out1 = filter (\<lambda>tr. feval ((!) s) (tn_slow_guard tr)) data"
    by (rule filter_p_SomeD [OF out1]) (rule f_evaluate_Some)
  then have data: "mset out1 = image_mset snd (filter_mset (path_enabled s) (image_mset (Pair []) (mset data)))"
    by (simp add: filter_mset_image_mset path_enabled_Nil multiset.map_comp comp_def mset_filter)
  have child: "mset (snd r) = ?items c" if "c \<in> set children" "?sub c = Some r" for c r
  proof -
    obtain key ts' where c: "c = (key, ts')" by force
    with that have get: "state_get s (gd_index key) = Some (s ! gd_index key)"
      by (auto simp: state_get_def split: if_splits)
    show ?thesis
    proof (cases "s ! gd_index key = gd_value key")
      case True
      with that c get obtain out' where r: "r = (key, out')" and out': "get_subsets ho ts' s = Some out'"
        by auto
      have "mset out' = image_mset snd (filter_mset (path_enabled s) (trie_items ts'))"
        using Transitions.IH [of c ts'] that(1) c out' by auto
      moreover have "path_enabled s (key # path, tr) = path_enabled s (path, tr)" for path tr
        using True by (simp add: path_enabled_def)
      ultimately show ?thesis
        by (simp add: r c filter_mset_image_mset multiset.map_comp comp_def case_prod_unfold)
    next
      case False
      then have "\<not> path_enabled s (key # path, tr)" for path tr by (simp add: path_enabled_def)
      with False that c get show ?thesis by (auto simp: filter_mset_image_mset case_prod_unfold)
    qed
  qed
  have "list_all2 (\<lambda>c r. ?sub c = Some r) children outs"
    using those_map_SomeD [OF outs] by (simp add: list_all2_conv_all_nth)
  then have "(\<Sum>r\<leftarrow>outs. mset (snd r)) = sum_list (map ?items children)"
    using child by (induction rule: list_all2_induct) auto
  moreover have "sum_list (map ?items children) = image_mset snd (filter_mset (path_enabled s)
      (sum_list (map (\<lambda>(key, child). image_mset (\<lambda>(path, tr). (key # path, tr)) (trie_items child)) children)))"
    by (induction children) auto
  ultimately show ?case using data by (simp add: out ho_children_sum [OF assms])
qed

fun trie_in_range :: "transitions \<Rightarrow> bool" where
  "trie_in_range (Transitions data children) \<longleftrightarrow>
     list_all (\<lambda>tr. formula_in_range (tn_slow_guard tr)) data
     \<and> list_all (\<lambda>(key, child). gd_index key < state_len \<and> trie_in_range child) children"

lemma insert_from_iter_in_range:
  "\<lbrakk> trie_in_range ts; \<forall>g\<in>set ks. gd_index g < state_len; formula_in_range (tn_slow_guard v) \<rbrakk>
   \<Longrightarrow> trie_in_range (insert_from_iter ks v ts)"
proof (induction ks v ts rule: insert_from_iter.induct)
  case (2 key rest v data children)
  define child where "child = (case map_of children key of Some child \<Rightarrow> child | None \<Rightarrow> transitions_new)"
  have "trie_in_range child"
    using 2(2) by (auto simp: child_def transitions_new_def list_all_iff dest!: map_of_SomeD split: option.split)
  with 2 have "trie_in_range (insert_from_iter rest v child)" by (simp add: child_def)
  with 2(2,3) show ?case by (simp add: child_def [symmetric] list_all_update)
qed simp

lemma program_trie_in_range:
  "\<lbrakk> \<forall>tr\<in>set trs. transition_in_range tr; trie_in_range ts \<rbrakk>
   \<Longrightarrow> trie_in_range (fold transitions_insert trs ts)"
  by (induction trs arbitrary: ts)
    (simp_all add: transitions_insert_def insert_from_iter_in_range transition_in_range_def)

lemma get_subsets_total: "trie_in_range ts \<Longrightarrow> \<exists>out. get_subsets ho ts s = Some out"
proof (induction ts)
  case (Transitions data children)
  have "filter_p (\<lambda>tr. f_evaluate (tn_slow_guard tr) s) data
      = Some (filter (\<lambda>tr. feval ((!) s) (tn_slow_guard tr)) data)"
    using Transitions.prems by (intro filter_p_SomeI) (simp add: list_all_iff f_evaluate_in_range)
  moreover have "\<exists>r. (case state_get s (gd_index key) of None \<Rightarrow> None | Some b \<Rightarrow>
      (if b = gd_value key then map_option (Pair key) (get_subsets ho child s) else Some (key, []))) = Some r"
    if "(key, child) \<in> set children" for key child
    using Transitions.IH [OF that, of child] Transitions.prems that
    by (fastforce simp: list_all_iff state_get_def)
  then have "\<exists>rs. those (map (\<lambda>(key, child). case state_get s (gd_index key) of None \<Rightarrow> None | Some b \<Rightarrow>
      (if b = gd_value key then map_option (Pair key) (get_subsets ho child s) else Some (key, []))) children) = Some rs"
    by (intro those_map_ex) auto
  ultimately show ?case by auto
qed

lemma get_subsets_enabled:
  assumes "hash_children_doc ho"
    and "get_subsets ho (fold transitions_insert trs transitions_new) s = Some out"
  shows "mset out = filter_mset (tn_enabled s) (mset trs)"
proof -
  have "path_enabled s (tn_guards tr, tr) = tn_enabled s tr" for tr
    by (simp add: path_enabled_def tn_enabled_def)
  with get_subsets_items [OF assms] show ?thesis
    by (simp add: program_trie filter_mset_image_mset multiset.map_comp comp_def)
qed

end
