(* ===== verification/Bounded_Set_Correct.thy ===== *)
theory Bounded_Set_Correct
  imports Bounded_Set_Search
begin

text \<open>
  Correctness of the breadth-first search of \<^verbatim>\<open>bounded/src/set.rs\<close>: what a counterexample, a
  convergence and an "unknown" answer mean for the runs of the program, and that the search
  returns. States that differ by a permutation of the universe are explored once, so the two
  negative answers are about programs that treat permuted states alike (\<open>symmetric_program\<close>).
\<close>

section \<open>Runs\<close>

definition program_step :: "bounded_program \<Rightarrow> bounded_state \<Rightarrow> bounded_state \<Rightarrow> bool" where
  "program_step p s t \<longleftrightarrow> (\<exists>tr\<in>set (bp_trs p). tn_enabled s tr \<and> t = tn_target tr s)"

inductive program_run :: "bounded_program \<Rightarrow> bounded_state list \<Rightarrow> bool" for p where
  run_init: "s \<in> set (bp_inits p) \<Longrightarrow> program_run p [s]"
| run_step: "program_run p (ss @ [s]) \<Longrightarrow> program_step p s t \<Longrightarrow> program_run p (ss @ [s, t])"

inductive_cases program_run_NilE: "program_run p []"

fun trace_of :: "trace_compression \<Rightarrow> bounded_state list \<Rightarrow> search_trace" where
  "trace_of CompressYes ss = CompressedTrace (last ss) (length ss - 1)"
| "trace_of CompressNo ss = Trace ss"

lemma program_run_nonempty: "program_run p ss \<Longrightarrow> ss \<noteq> []"
  by (induction rule: program_run.induct) auto

lemma program_run_snoc:
  "program_run p ss \<Longrightarrow> program_step p (last ss) t \<Longrightarrow> program_run p (ss @ [t])"
  using run_step [of p "butlast ss" "last ss" t] program_run_nonempty [of p ss]
  by (cases ss rule: rev_cases) auto

lemma trace_of_new [simp]: "trace_new s c = trace_of c [s]"
  by (cases c) auto

lemma trace_of_push [simp]: "ss \<noteq> [] \<Longrightarrow> trace_push (trace_of c ss) t = trace_of c (ss @ [t])"
  by (cases c) (cases ss; simp)+

lemma trace_of_last [simp]: "ss \<noteq> [] \<Longrightarrow> trace_last (trace_of c ss) = Some (last ss)"
  by (cases c) auto

lemma trace_of_depth [simp]: "trace_depth (trace_of c ss) = length ss - 1"
  by (cases c) auto

section \<open>An invariant rule for the search loop\<close>

lemma search_loop_invariant:
  assumes loop: "search_loop ho safe ts md queue seen cd = Some r"
    and init: "I queue seen cd"
    and empty: "\<And>seen cd. I [] seen cd \<Longrightarrow> P (if below_depth md cd then SearchConvergence else SearchUnknown)"
    and unsafe: "\<And>trace queue seen cd state. \<lbrakk> I (trace # queue) seen cd; trace_last trace = Some state;
        f_evaluate safe state = Some False \<rbrakk> \<Longrightarrow> P (SearchCounterexample trace)"
    and skip: "\<And>trace queue seen cd state. \<lbrakk> I (trace # queue) seen cd; trace_last trace = Some state;
        f_evaluate safe state = Some True; \<not> below_depth md (trace_depth trace) \<rbrakk>
        \<Longrightarrow> I queue seen (if trace_depth trace > cd then cd + 1 else cd)"
    and expand: "\<And>trace queue seen cd state trs queue' seen'. \<lbrakk> I (trace # queue) seen cd;
        trace_last trace = Some state; f_evaluate safe state = Some True;
        below_depth md (trace_depth trace); get_subsets ho ts state = Some trs;
        fold_p (explore trace state) trs (queue, seen) = Some (queue', seen') \<rbrakk>
        \<Longrightarrow> I queue' seen' (if trace_depth trace > cd then cd + 1 else cd)"
  shows "P r"
proof -
  define Q where "Q = (\<lambda>ho' safe' ts' md' q s c r.
    ho' = ho \<longrightarrow> safe' = safe \<longrightarrow> ts' = ts \<longrightarrow> md' = md \<longrightarrow> I q s c \<longrightarrow> P r)"
  from loop have "Q ho safe ts md queue seen cd r"
  proof (rule search_loop.raw_induct [rotated])
    fix f ho' safe' ts' md' q s c r'
    assume IH: "\<And>ho' safe' ts' md' q s c r'. f ho' safe' ts' md' q s c = Some r' \<Longrightarrow> Q ho' safe' ts' md' q s c r'"
      and body: "(case q of
        [] \<Rightarrow> Some (if below_depth md' c then SearchConvergence else SearchUnknown)
      | trace # queue \<Rightarrow>
          (let depth = trace_depth trace; cd = (if depth > c then c + 1 else c)
           in case trace_last trace of None \<Rightarrow> None | Some state \<Rightarrow>
              (case f_evaluate safe' state of None \<Rightarrow> None | Some ok \<Rightarrow>
                (if \<not> ok then Some (SearchCounterexample trace)
                 else if below_depth md' depth
                 then (case get_subsets ho' ts' state of None \<Rightarrow> None | Some trs \<Rightarrow>
                       (case fold_p (explore trace state) trs (queue, s) of None \<Rightarrow> None
                        | Some qs \<Rightarrow> f ho' safe' ts' md' (fst qs) (snd qs) cd))
                 else f ho' safe' ts' md' queue s cd)))) = Some r'"
    show "Q ho' safe' ts' md' q s c r'"
      unfolding Q_def
    proof (intro impI)
      assume eq: "ho' = ho" "safe' = safe" "ts' = ts" "md' = md" and inv: "I q s c"
      show "P r'"
      proof (cases q)
        case Nil
        with body eq inv empty show ?thesis by auto
      next
        case (Cons trace queue)
        let ?cd = "if trace_depth trace > c then c + 1 else c"
        from body Cons eq obtain state ok where state: "trace_last trace = Some state"
          and ok: "f_evaluate safe state = Some ok" by (auto simp: Let_def split: option.splits)
        consider "\<not> ok" | "ok" "\<not> below_depth md (trace_depth trace)" | "ok" "below_depth md (trace_depth trace)"
          by blast
        then show ?thesis
        proof cases
          case 1
          with body Cons eq state ok have "r' = SearchCounterexample trace" by simp
          with unsafe [of trace queue s c state] inv Cons state ok 1 show ?thesis by simp
        next
          case 2
          with body Cons eq state ok have "f ho safe ts md queue s ?cd = Some r'" by (simp add: Let_def)
          moreover have "I queue s ?cd" using skip [of trace queue s c state] inv Cons state ok 2 by simp
          ultimately show ?thesis using IH [of ho safe ts md queue s ?cd r'] by (simp add: Q_def)
        next
          case 3
          with body Cons eq state ok obtain trs queue' seen'
            where trs: "get_subsets ho ts state = Some trs"
              and qs: "fold_p (explore trace state) trs (queue, s) = Some (queue', seen')"
              and f: "f ho safe ts md queue' seen' ?cd = Some r'"
            by (auto simp: Let_def split: option.splits)
          have "I queue' seen' ?cd" using expand [OF _ state _ _ trs qs] inv Cons ok 3 by simp
          with IH [OF f] show ?thesis by (simp add: Q_def)
        qed
      qed
    qed
  qed
  with init show ?thesis by (simp add: Q_def)
qed

section \<open>Counterexamples\<close>

lemma enqueue_Some:
  "enqueue mk x (queue, seen) = Some (queue', seen') \<Longrightarrow>
   (iso_insert x seen = Some (False, seen') \<and> queue' = queue)
   \<or> (iso_insert x seen = Some (True, seen') \<and> queue' = queue @ [mk x])"
  by (auto simp: enqueue_def split: if_splits)

lemma explore_queue:
  assumes "fold_p (explore trace state) trs (queue, seen) = Some (queue', seen')"
  shows "set queue' \<subseteq> set queue \<union> (\<lambda>tr. trace_push trace (tn_target tr state)) ` set trs"
proof -
  let ?P = "\<lambda>qs. set (fst qs) \<subseteq> set queue \<union> (\<lambda>tr. trace_push trace (tn_target tr state)) ` set trs"
  have "?P (queue', seen')"
  proof (rule fold_p_invariant [OF assms, of ?P])
    fix tr qs qs' assume "tr \<in> set trs" "?P qs" "explore trace state tr qs = Some qs'"
    then show "?P qs'"
      by (cases qs; cases qs')
        (auto simp: explore_def dest!: apply_updates_Some enqueue_Some split: option.splits)
  qed simp
  then show ?thesis by simp
qed

lemma push_init_queue:
  assumes "fold_p (push_init c) inits ([], seen) = Some (queue, seen')"
  shows "set queue \<subseteq> (\<lambda>s. trace_of c [s]) ` set inits"
proof -
  let ?P = "\<lambda>qs. set (fst qs) \<subseteq> (\<lambda>s. trace_of c [s]) ` set inits"
  have "?P (queue, seen')"
  proof (rule fold_p_invariant [OF assms, of ?P])
    fix s qs qs' assume "s \<in> set inits" "?P qs" "push_init c s qs = Some qs'"
    then show "?P qs'"
      by (cases qs; cases qs') (auto simp: push_init_def dest!: enqueue_Some)
  qed simp
  then show ?thesis by simp
qed

definition within_depth :: "nat option \<Rightarrow> bounded_state list \<Rightarrow> bool" where
  "within_depth md ss \<longleftrightarrow> (case md of None \<Rightarrow> True | Some m \<Rightarrow> length ss \<le> m + 1)"

lemma search_counterexample:
  assumes "hash_children_doc ho"
    and "interpret_program ho it p md c ix = Some (SearchCounterexample trace)"
  shows "\<exists>ss. program_run p ss \<and> within_depth md ss \<and> trace = trace_of c ss
    \<and> \<not> feval ((!) (last ss)) (bp_safe p)"
proof -
  let ?ts = "fold transitions_insert (bp_trs p) transitions_new"
  from assms(2) obtain seen0 queue seen
    where init: "fold_p (push_init c) (bp_inits p) ([], seen0) = Some (queue, seen)"
      and loop: "search_loop ho (bp_safe p) ?ts md queue seen 0 = Some (SearchCounterexample trace)"
    by (auto simp: interpret_program_def split: option.splits)
  define I where "I = (\<lambda>(queue :: search_trace list) (seen :: iso_state_set) (cd :: nat).
    \<forall>tr\<in>set queue. \<exists>ss. program_run p ss \<and> within_depth md ss \<and> tr = trace_of c ss)"
  define P where "P = (\<lambda>r. \<forall>tr. r = SearchCounterexample tr \<longrightarrow>
    (\<exists>ss. program_run p ss \<and> within_depth md ss \<and> tr = trace_of c ss \<and> \<not> feval ((!) (last ss)) (bp_safe p)))"
  have "P (SearchCounterexample trace)"
  proof (rule search_loop_invariant [OF loop, of I])
    have "within_depth md [s]" for s by (simp add: within_depth_def One_nat_def split: option.split)
    then show "I queue seen 0"
      using push_init_queue [OF init] by (auto simp: I_def dest!: subsetD intro: run_init)
  next
    fix tr queue' seen' cd state
    assume "I (tr # queue') seen' cd" and last: "trace_last tr = Some state"
      and bad: "f_evaluate (bp_safe p) state = Some False"
    then obtain ss where "program_run p ss" "within_depth md ss" "tr = trace_of c ss" by (auto simp: I_def)
    with last program_run_nonempty [of p ss] f_evaluate_Some [OF bad]
    show "P (SearchCounterexample tr)" by (auto simp: P_def)
  next
    fix tr queue' seen' cd state trs queue'' seen''
    assume inv: "I (tr # queue') seen' cd" and last: "trace_last tr = Some state"
      and below: "below_depth md (trace_depth tr)" and trs: "get_subsets ho ?ts state = Some trs"
      and fold: "fold_p (explore tr state) trs (queue', seen') = Some (queue'', seen'')"
    then obtain ss where ss: "program_run p ss" "tr = trace_of c ss" by (auto simp: I_def)
    have ne: "ss \<noteq> []" by (rule program_run_nonempty [OF ss(1)])
    have state: "state = last ss" using last ss ne by simp
    have within: "within_depth md (ss @ [t])" for t
      using below ss ne by (cases ss) (auto simp: within_depth_def below_depth_def One_nat_def split: option.splits)
    have "program_run p (ss @ [tn_target x state])" if "x \<in> set trs" for x
    proof (rule program_run_snoc [OF ss(1)])
      from get_subsets_enabled [OF assms(1) trs] that have "x \<in># filter_mset (tn_enabled state) (mset (bp_trs p))"
        by (metis set_mset_mset)
      then show "program_step p (last ss) (tn_target x state)" by (auto simp: program_step_def state)
    qed
    with within explore_queue [OF fold] inv ss(2) ne
    show "I queue'' seen'' (if trace_depth tr > cd then cd + 1 else cd)"
      unfolding I_def by (fastforce dest!: subsetD)
  qed (auto simp: I_def P_def)
  then show ?thesis by (simp add: P_def)
qed

text \<open>A counterexample is real: the trace the search returns is a run of the program (its last
  state and depth, when traces are compressed) that starts in an initial state, takes enabled
  transitions, is within the depth bound and ends in a state that violates the safety formula.\<close>

theorem interpret_counterexample:
  assumes "hash_children_doc ho"
    and "interpret_program ho it p md c ix = Some (SearchCounterexample trace)"
  shows "\<exists>ss. program_run p ss \<and> within_depth md ss \<and> trace = trace_of c ss
    \<and> \<not> feval ((!) (last ss)) (bp_safe p)"
  using search_counterexample [OF assms] .

section \<open>Orbits\<close>

definition permuted :: "(nat \<times> nat) list \<Rightarrow> bounded_state \<Rightarrow> bounded_state" where
  "permuted perm x = fold (\<lambda>(src, dst) y. y[dst := x ! src]) perm x"

definition orbit :: "(nat \<times> nat) list list \<Rightarrow> bounded_state \<Rightarrow> bounded_state set" where
  "orbit perms x = (\<lambda>perm. permuted perm x) ` set perms"

definition perms_in_range :: "(nat \<times> nat) list list \<Rightarrow> bool" where
  "perms_in_range perms \<longleftrightarrow>
     (\<forall>perm\<in>set perms. \<forall>(src, dst)\<in>set perm. src < state_len \<and> dst < state_len)"

definition program_in_range :: "bounded_program \<Rightarrow> bool" where
  "program_in_range p \<longleftrightarrow>
     (\<forall>s\<in>set (bp_inits p). length s = state_len) \<and> (\<forall>tr\<in>set (bp_trs p). transition_in_range tr)
     \<and> formula_in_range (bp_safe p)"

lemma length_permuted [simp]: "length (permuted perm x) = length x"
proof -
  have "length (fold (\<lambda>(src, dst) y. y[dst := x ! src]) perm y) = length y" for y
    by (induction perm arbitrary: y) auto
  then show ?thesis by (simp add: permuted_def)
qed

lemma permute_state_in_range:
  assumes "perms_in_range perms" and "perm \<in> set perms"
  shows "permute_state perm x = Some (permuted perm x)"
  unfolding permute_state_def permuted_def
  by (rule fold_p_Some) (use assms in \<open>fastforce simp: perms_in_range_def state_get_def state_set_def\<close>)

lemma iso_insert_in_range:
  assumes "perms_in_range (iso_orderings seen)"
  shows "iso_insert x seen =
    (if x \<in> iso_set seen then Some (False, seen)
     else Some (True, seen\<lparr>iso_set := iso_set seen \<union> orbit (iso_orderings seen) x\<rparr>))"
proof -
  have "fold_p (\<lambda>perm st. map_option (\<lambda>y. insert y st) (permute_state perm x)) perms st
      = Some (st \<union> orbit perms x)" if "perms_in_range perms" for perms st
    using that
  proof (induction perms arbitrary: st)
    case (Cons perm perms)
    then have "perms_in_range perms" by (simp add: perms_in_range_def)
    with Cons permute_state_in_range [OF Cons.prems, of perm x] show ?case
      by (auto simp: orbit_def)
  qed (simp add: orbit_def)
  with assms show ?thesis by (simp add: iso_insert_def)
qed

text \<open>Enqueueing a list of states: those that are not seen yet, up to permutation, are added.\<close>

lemma enqueue_all:
  assumes "perms_in_range perms" and "iso_orderings seen = perms"
    and "\<forall>x\<in>set xs. x \<in> orbit perms x"
  shows "\<exists>news seen'. fold_p (enqueue mk) xs (queue, seen) = Some (queue @ map mk news, seen')
    \<and> iso_orderings seen' = perms \<and> iso_set seen' = iso_set seen \<union> \<Union> (orbit perms ` set news)
    \<and> set news \<subseteq> set xs \<and> set xs \<subseteq> iso_set seen' \<and> (\<forall>x\<in>set news. x \<notin> iso_set seen)"
  using assms(2,3)
proof (induction xs arbitrary: queue seen)
  case Nil
  then show ?case by (auto intro!: exI [of _ "[]"])
next
  case (Cons x xs)
  show ?case
  proof (cases "x \<in> iso_set seen")
    case True
    then have "enqueue mk x (queue, seen) = Some (queue, seen)"
      using Cons.prems(1) assms(1) by (simp add: enqueue_def iso_insert_in_range)
    with Cons.IH [OF Cons.prems(1), of queue] Cons.prems(2) True show ?thesis by fastforce
  next
    case False
    define seen1 where "seen1 = seen\<lparr>iso_set := iso_set seen \<union> orbit perms x\<rparr>"
    have step: "enqueue mk x (queue, seen) = Some (queue @ [mk x], seen1)"
      using False Cons.prems(1) assms(1) by (simp add: enqueue_def iso_insert_in_range seen1_def)
    have "iso_orderings seen1 = perms" using Cons.prems(1) by (simp add: seen1_def)
    from Cons.IH [OF this, of "queue @ [mk x]"] Cons.prems(2) obtain news seen'
      where IH: "fold_p (enqueue mk) xs (queue @ [mk x], seen1) = Some ((queue @ [mk x]) @ map mk news, seen')"
        "iso_orderings seen' = perms" "iso_set seen' = iso_set seen1 \<union> \<Union> (orbit perms ` set news)"
        "set news \<subseteq> set xs" "set xs \<subseteq> iso_set seen'" "\<forall>x\<in>set news. x \<notin> iso_set seen1" by auto
    have "x \<in> orbit perms x" using Cons.prems(2) by simp
    then have "x \<in> iso_set seen'" using IH(3) by (simp add: seen1_def)
    with IH step False show ?thesis
      by (intro exI [of _ "x # news"] exI [of _ seen']) (auto simp: seen1_def)
  qed
qed

lemma push_init_enqueue: "push_init c = enqueue (\<lambda>s. trace_new s c)"
  by (simp add: push_init_def fun_eq_iff)

lemma explore_enqueue:
  "\<forall>tr\<in>set trs. transition_in_range tr \<Longrightarrow>
   fold_p (explore trace state) trs qs = fold_p (enqueue (trace_push trace)) (map (\<lambda>tr. tn_target tr state) trs) qs"
  by (induction trs arbitrary: qs) (auto simp: explore_def apply_updates_in_range split: option.split)

section \<open>The frontier\<close>

text \<open>What the search relies on when it explores one state of every orbit: on the states that satisfy
  some invariant \<open>ok\<close>, orbits are closed, and the states of an orbit take the same steps, up to the
  orbit, and agree on safety.\<close>

definition symmetric_program ::
  "bounded_program \<Rightarrow> (nat \<times> nat) list list \<Rightarrow> (bounded_state \<Rightarrow> bool) \<Rightarrow> bool" where
  "symmetric_program p perms ok \<longleftrightarrow>
     (\<forall>s\<in>set (bp_inits p). ok s) \<and> (\<forall>x. ok x \<longrightarrow> length x = state_len)
     \<and> (\<forall>x y. ok x \<longrightarrow> program_step p x y \<longrightarrow> ok y)
     \<and> (\<forall>x. ok x \<longrightarrow> x \<in> orbit perms x)
     \<and> (\<forall>x y z. ok x \<longrightarrow> y \<in> orbit perms x \<longrightarrow> z \<in> orbit perms y \<longrightarrow> z \<in> orbit perms x)
     \<and> (\<forall>x y y'. ok x \<longrightarrow> y \<in> orbit perms x \<longrightarrow> program_step p y y'
          \<longrightarrow> (\<exists>x'. program_step p x x' \<and> y' \<in> orbit perms x'))
     \<and> (\<forall>x y. ok x \<longrightarrow> y \<in> orbit perms x
          \<longrightarrow> feval ((!) y) (bp_safe p) = feval ((!) x) (bp_safe p))"

lemma symmetric_programD:
  assumes "symmetric_program p perms ok"
  shows "s \<in> set (bp_inits p) \<Longrightarrow> ok s" and "ok x \<Longrightarrow> length x = state_len"
    and "ok x \<Longrightarrow> program_step p x y \<Longrightarrow> ok y" and "ok x \<Longrightarrow> x \<in> orbit perms x"
    and "ok x \<Longrightarrow> y \<in> orbit perms x \<Longrightarrow> z \<in> orbit perms y \<Longrightarrow> z \<in> orbit perms x"
    and "ok x \<Longrightarrow> y \<in> orbit perms x \<Longrightarrow> program_step p y y'
      \<Longrightarrow> \<exists>x'. program_step p x x' \<and> y' \<in> orbit perms x'"
    and "ok x \<Longrightarrow> y \<in> orbit perms x \<Longrightarrow> feval ((!) y) (bp_safe p) = feval ((!) x) (bp_safe p)"
  using assms unfolding symmetric_program_def by blast+

lemma program_step_length: "program_step p x y \<Longrightarrow> length y = length x"
  by (auto simp: program_step_def)

lemma orbit_length: "y \<in> orbit perms x \<Longrightarrow> length y = length x"
  by (auto simp: orbit_def)

text \<open>\<open>frontier\<close>: \<open>expl\<close> are the explored states with their depths, \<open>q\<close> the queue, \<open>S\<close> the states
  seen, \<open>cd\<close> the current depth. Depths in the queue do not decrease and differ by at most one.\<close>

definition covered :: "(nat \<times> nat) list list \<Rightarrow> (bounded_state \<times> nat) set \<Rightarrow> bounded_state \<Rightarrow> nat \<Rightarrow> bool" where
  "covered perms X y d \<longleftrightarrow> (\<exists>z e. (z, e) \<in> X \<and> y \<in> orbit perms z \<and> e \<le> d)"

definition frontier ::
  "bounded_program \<Rightarrow> (nat \<times> nat) list list \<Rightarrow> (bounded_state \<Rightarrow> bool) \<Rightarrow> nat option
   \<Rightarrow> (bounded_state \<times> nat) set \<Rightarrow> (bounded_state \<times> nat) list \<Rightarrow> bounded_state set \<Rightarrow> nat \<Rightarrow> bool" where
  "frontier p perms ok md expl q S cd \<longleftrightarrow>
     (\<forall>z e. (z, e) \<in> expl \<union> set q \<longrightarrow> ok z)
     \<and> (\<forall>y. y \<in> S \<longleftrightarrow> (\<exists>z e. (z, e) \<in> expl \<union> set q \<and> y \<in> orbit perms z))
     \<and> (\<forall>z e. (z, e) \<in> expl \<longrightarrow> feval ((!) z) (bp_safe p) \<and> e \<le> cd)
     \<and> (\<forall>z e y. (z, e) \<in> expl \<longrightarrow> below_depth md e \<longrightarrow> program_step p z y
          \<longrightarrow> covered perms (expl \<union> set q) y (e + 1))
     \<and> (\<forall>s\<in>set (bp_inits p). covered perms (expl \<union> set q) s 0)
     \<and> (\<forall>z e y k. (z, e) \<in> expl \<longrightarrow> (y, k) \<in> set q \<longrightarrow> e \<le> k)
     \<and> sorted (map snd q)
     \<and> (\<forall>y e. (y, e) \<in> set q \<longrightarrow> e \<le> snd (hd q) + 1 \<and> e \<le> cd + 1)"

lemma frontierD:
  assumes "frontier p perms ok md expl q S cd"
  shows "(z, e) \<in> expl \<union> set q \<Longrightarrow> ok z"
    and "y \<in> S \<longleftrightarrow> (\<exists>z e. (z, e) \<in> expl \<union> set q \<and> y \<in> orbit perms z)"
    and "(z, e) \<in> expl \<Longrightarrow> feval ((!) z) (bp_safe p)"
    and "(z, e) \<in> expl \<Longrightarrow> e \<le> cd"
    and "(z, e) \<in> expl \<Longrightarrow> below_depth md e \<Longrightarrow> program_step p z y
      \<Longrightarrow> covered perms (expl \<union> set q) y (e + 1)"
    and "s \<in> set (bp_inits p) \<Longrightarrow> covered perms (expl \<union> set q) s 0"
    and "(z, e) \<in> expl \<Longrightarrow> (y, k) \<in> set q \<Longrightarrow> e \<le> k"
    and "sorted (map snd q)"
    and "(y, k) \<in> set q \<Longrightarrow> k \<le> snd (hd q) + 1"
    and "(y, k) \<in> set q \<Longrightarrow> k \<le> cd + 1"
  using assms unfolding frontier_def by blast+

lemma covered_mono: "covered perms X y d \<Longrightarrow> X \<subseteq> Y \<Longrightarrow> d \<le> e \<Longrightarrow> covered perms Y y e"
  unfolding covered_def by (meson order_trans subsetD)

lemma frontier_depths:
  assumes "frontier p perms ok md expl ((x, d) # q) S cd"
  shows "(y, e) \<in> expl \<Longrightarrow> e \<le> d" and "(y, e) \<in> set q \<Longrightarrow> d \<le> e"
    and "(y, e) \<in> expl \<union> set ((x, d) # q) \<Longrightarrow> e \<le> d + 1"
    and "d \<le> (if d > cd then cd + 1 else cd)" and "cd \<le> (if d > cd then cd + 1 else cd)"
proof -
  note fr = frontierD [OF assms]
  show expl: "e \<le> d" if "(y, e) \<in> expl" using fr(7) [OF that, of x d] by simp
  show "d \<le> e" if "(y, e) \<in> set q" using fr(8) that by fastforce
  have "e \<le> d + 1" if "(y, e) \<in> set ((x, d) # q)" using fr(9) [OF that] by simp
  with expl show "e \<le> d + 1" if "(y, e) \<in> expl \<union> set ((x, d) # q)" using that by force
  show "d \<le> (if d > cd then cd + 1 else cd)" using fr(10) [of x d] by simp
  show "cd \<le> (if d > cd then cd + 1 else cd)" by simp
qed

lemma frontier_extend:
  assumes fr: "frontier p perms ok md expl ((x, d) # q) S cd"
    and safe: "feval ((!) x) (bp_safe p)"
    and oks: "\<And>y. y \<in> set news \<Longrightarrow> ok y"
    and S': "S' = S \<union> \<Union> (orbit perms ` set news)"
    and steps: "\<And>y. below_depth md d \<Longrightarrow> program_step p x y \<Longrightarrow> y \<in> S'"
  shows "frontier p perms ok md (insert (x, d) expl) (q @ map (\<lambda>y. (y, d + 1)) news) S'
    (if d > cd then cd + 1 else cd)"
proof -
  let ?q = "q @ map (\<lambda>y. (y, d + 1)) news" and ?cd = "if d > cd then cd + 1 else cd"
  let ?X = "expl \<union> set ((x, d) # q)" and ?Y = "insert (x, d) expl \<union> set ?q"
  have Y: "?Y = ?X \<union> (\<lambda>y. (y, d + 1)) ` set news" by auto
  note frD = frontierD [OF fr] and depths = frontier_depths [OF fr]
  have S: "y \<in> S' \<longleftrightarrow> (\<exists>z e. (z, e) \<in> ?Y \<and> y \<in> orbit perms z)" for y
    unfolding Y S' using frD(2) [of y] by blast
  have mono: "covered perms ?Y y e" if "covered perms ?X y e" for y e
    using that Y covered_mono [of perms ?X y e ?Y e] by blast
  have depth: "e \<le> d + 1" if "(z, e) \<in> ?Y" for z e
    using that depths(3) [of z e] unfolding Y by auto
  have cov: "covered perms ?Y y (d + 1)" if "below_depth md d" "program_step p x y" for y
  proof -
    from steps [OF that] S obtain z e where "(z, e) \<in> ?Y" "y \<in> orbit perms z" by blast
    with depth [of z e] show ?thesis unfolding covered_def by blast
  qed
  have new: "y \<in> set news \<and> k = d + 1 \<or> (y, k) \<in> set q" if "(y, k) \<in> set ?q" for y k
    using that by auto
  have hd: "d \<le> snd (hd ?q)" if "?q \<noteq> []"
    using new [of "fst (hd ?q)" "snd (hd ?q)"] hd_in_set [OF that] depths(2) [of "fst (hd ?q)" "snd (hd ?q)"]
    by auto
  show ?thesis
    unfolding frontier_def
  proof (intro conjI allI ballI impI)
    show "ok z" if "(z, e) \<in> ?Y" for z e using that frD(1) [of z e] oks unfolding Y by auto
    show "y \<in> S' \<longleftrightarrow> (\<exists>z e. (z, e) \<in> ?Y \<and> y \<in> orbit perms z)" for y by (rule S)
    show "feval ((!) z) (bp_safe p)" if "(z, e) \<in> insert (x, d) expl" for z e
      using that frD(3) safe by auto
    show "e \<le> ?cd" if "(z, e) \<in> insert (x, d) expl" for z e
      using that frD(4) [of z e] depths(4,5) by auto
    show "covered perms ?Y y (e + 1)"
      if "(z, e) \<in> insert (x, d) expl" "below_depth md e" "program_step p z y" for z e y
      using that frD(5) [of z e y] mono cov by blast
    show "covered perms ?Y s 0" if "s \<in> set (bp_inits p)" for s using frD(6) [OF that] mono by blast
    show "e \<le> k" if "(z, e) \<in> insert (x, d) expl" "(y, k) \<in> set ?q" for z e y k
      using that(1) new [OF that(2)] depths(1) [of z e] depths(2) [of y k] by force
    have "k \<le> d + 1" if "k \<in> set (map snd q)" for k
    proof -
      from that obtain y where "(y, k) \<in> set q" by auto
      then show ?thesis using depth [of y k] by simp
    qed
    moreover have "sorted (map snd q)" using frD(8) by simp
    moreover have "sorted (map snd (map (\<lambda>y. (y, d + 1)) news))" by (induction news) auto
    ultimately show "sorted (map snd ?q)" unfolding map_append sorted_append by auto
    fix y k assume mem: "(y, k) \<in> set ?q"
    then have "?q \<noteq> []" and k: "k \<le> d + 1" using depth [of y k] by auto
    from hd [OF this(1)] k show "k \<le> snd (hd ?q) + 1" by linarith
    from depths(4) k show "k \<le> ?cd + 1" by linarith
  qed
qed

text \<open>When the queue is empty, what is reachable within the bound is covered by explored states.\<close>

lemma frontier_final:
  assumes fr: "frontier p perms ok md expl [] S cd" and sym: "symmetric_program p perms ok"
  shows "program_run p ss \<Longrightarrow> within_depth md ss \<or> below_depth md cd
    \<Longrightarrow> covered perms expl (last ss) (length ss - 1) \<and> feval ((!) (last ss)) (bp_safe p)"
proof (induction rule: program_run.induct)
  case (run_init s)
  with frontierD(6) [OF fr] obtain z where z: "(z, 0) \<in> expl" "s \<in> orbit perms z"
    by (auto simp: covered_def)
  with symmetric_programD(7) [OF sym, of z s] frontierD(1,3) [OF fr, of z 0] show ?case
    by (auto simp: covered_def)
next
  case (run_step ss s t)
  have bound: "within_depth md (ss @ [s]) \<or> below_depth md cd"
    using run_step.prems by (auto simp: within_depth_def split: option.splits)
  with run_step.IH obtain z e where z: "(z, e) \<in> expl" "s \<in> orbit perms z" "e \<le> length ss"
    by (auto simp: covered_def)
  have lz: "ok z" and ez: "e \<le> cd" using z(1) frontierD(1,4) [OF fr, of z e] by auto
  have "below_depth md e"
    using run_step.prems z(3) ez
    by (auto simp: within_depth_def below_depth_def One_nat_def split: option.splits)
  moreover obtain z' where z': "program_step p z z'" "t \<in> orbit perms z'"
    using symmetric_programD(6) [OF sym lz z(2) run_step.hyps(2)] by blast
  ultimately obtain w k where w: "(w, k) \<in> expl" "z' \<in> orbit perms w" "k \<le> e + 1"
    using frontierD(5) [OF fr z(1), of z'] unfolding covered_def by auto
  have lw: "ok w" and sw: "feval ((!) w) (bp_safe p)"
    using w(1) frontierD(1,3) [OF fr, of w k] by auto
  have tw: "t \<in> orbit perms w" using symmetric_programD(5) [OF sym lw w(2) z'(2)] .
  have "k \<le> length ss + 1" using w(3) z(3) by simp
  with w(1) tw have "covered perms expl t (length ss + 1)" unfolding covered_def by blast
  with symmetric_programD(7) [OF sym lw tw] sw show ?case by (simp add: One_nat_def)
qed

section \<open>Convergence and unknown\<close>

definition summary :: "search_trace \<Rightarrow> bounded_state \<times> nat" where
  "summary tr = (the (trace_last tr), trace_depth tr)"

lemma trace_push_last:
  "trace_last tr = Some x \<Longrightarrow>
   trace_last (trace_push tr y) = Some y \<and> summary (trace_push tr y) = (y, trace_depth tr + 1)"
  by (cases tr) (auto simp: summary_def One_nat_def split: if_splits)

text \<open>The state of the loop: the queue holds nonempty traces, and \<open>frontier\<close> describes it.\<close>

definition search_inv ::
  "bounded_program \<Rightarrow> (nat \<times> nat) list list \<Rightarrow> (bounded_state \<Rightarrow> bool) \<Rightarrow> nat option
   \<Rightarrow> search_trace list \<Rightarrow> iso_state_set \<Rightarrow> nat \<Rightarrow> bool" where
  "search_inv p perms ok md queue seen cd \<longleftrightarrow>
     (\<forall>tr\<in>set queue. trace_last tr \<noteq> None) \<and> iso_orderings seen = perms
     \<and> (\<exists>expl. frontier p perms ok md expl (map summary queue) (iso_set seen) cd)"

text \<open>One expansion: it enqueues targets of enabled transitions, and sees all of them.\<close>

lemma explore_successors:
  assumes "hash_children_doc ho" and "program_in_range p" and "perms_in_range perms"
    and refl: "\<And>y. program_step p x y \<Longrightarrow> y \<in> orbit perms y"
    and "iso_orderings seen = perms"
    and trs: "get_subsets ho (fold transitions_insert (bp_trs p) transitions_new) x = Some trs"
  shows "\<exists>news seen'. fold_p (explore tr x) trs (queue, seen) = Some (queue @ map (trace_push tr) news, seen')
    \<and> iso_orderings seen' = perms \<and> iso_set seen' = iso_set seen \<union> \<Union> (orbit perms ` set news)
    \<and> (\<forall>y\<in>set news. program_step p x y \<and> y \<notin> iso_set seen) \<and> (\<forall>y. program_step p x y \<longrightarrow> y \<in> iso_set seen')"
proof -
  have "set trs = {tr \<in> set (bp_trs p). tn_enabled x tr}"
    using get_subsets_enabled [OF assms(1) trs] by (metis set_mset_filter set_mset_mset)
  then have targets: "set (map (\<lambda>tr. tn_target tr x) trs) = {y. program_step p x y}"
    and range: "\<forall>tr\<in>set trs. transition_in_range tr"
    using assms(2) by (auto simp: program_step_def program_in_range_def)
  have "\<forall>y\<in>set (map (\<lambda>tr. tn_target tr x) trs). y \<in> orbit perms y"
    unfolding targets using refl by blast
  from enqueue_all [OF assms(3,5) this, where mk = "trace_push tr" and queue = queue]
  obtain news seen' where run: "fold_p (explore tr x) trs (queue, seen) = Some (queue @ map (trace_push tr) news, seen')"
    and perms: "iso_orderings seen' = perms" and seen': "iso_set seen' = iso_set seen \<union> \<Union> (orbit perms ` set news)"
    and news: "set news \<subseteq> {y. program_step p x y}" "{y. program_step p x y} \<subseteq> iso_set seen'"
      "\<forall>x\<in>set news. x \<notin> iso_set seen"
    unfolding explore_enqueue [OF range] targets by (elim exE conjE)
  show ?thesis by (intro exI conjI, rule run, rule perms, rule seen') (use news in auto)
qed

lemma search_inv_expand:
  assumes "hash_children_doc ho" and "program_in_range p" and "perms_in_range perms"
    and sym: "symmetric_program p perms ok"
    and inv: "search_inv p perms ok md (tr # queue) seen cd" and last: "trace_last tr = Some x"
    and ok: "f_evaluate (bp_safe p) x = Some True"
    and trs: "get_subsets ho (fold transitions_insert (bp_trs p) transitions_new) x = Some trs"
    and fold: "fold_p (explore tr x) trs (queue, seen) = Some (queue', seen')"
  shows "search_inv p perms ok md queue' seen' (if trace_depth tr > cd then cd + 1 else cd)"
proof -
  let ?d = "trace_depth tr"
  from inv last obtain expl where fr: "frontier p perms ok md expl ((x, ?d) # map summary queue) (iso_set seen) cd"
    and perms: "iso_orderings seen = perms"
    by (auto simp: search_inv_def summary_def)
  have x: "ok x" using frontierD(1) [OF fr, of x ?d] by simp
  have "y \<in> orbit perms y" if "program_step p x y" for y
    using symmetric_programD(3,4) [OF sym] x that by blast
  from explore_successors [OF assms(1-3) this perms trs, of tr queue] fold
  obtain news where queue': "queue' = queue @ map (trace_push tr) news" and perms': "iso_orderings seen' = perms"
    and seen': "iso_set seen' = iso_set seen \<union> \<Union> (orbit perms ` set news)"
    and news: "\<forall>y\<in>set news. program_step p x y" and all: "\<And>y. program_step p x y \<Longrightarrow> y \<in> iso_set seen'"
    by auto
  have "frontier p perms ok md (insert (x, ?d) expl) (map summary queue @ map (\<lambda>y. (y, ?d + 1)) news)
      (iso_set seen') (if ?d > cd then cd + 1 else cd)"
  proof (rule frontier_extend [OF fr _ _ seen'])
    show "feval ((!) x) (bp_safe p)" using f_evaluate_Some [OF ok] by simp
    show "ok y" if "y \<in> set news" for y
      using news that symmetric_programD(3) [OF sym x] by blast
  qed (rule all)
  moreover have "map summary queue' = map summary queue @ map (\<lambda>y. (y, ?d + 1)) news"
    using trace_push_last [OF last] by (simp add: queue')
  ultimately have "frontier p perms ok md (insert (x, ?d) expl) (map summary queue')
      (iso_set seen') (if ?d > cd then cd + 1 else cd)" by metis
  moreover have "\<forall>tr\<in>set queue'. trace_last tr \<noteq> None"
    using inv trace_push_last [OF last] by (auto simp: search_inv_def queue')
  ultimately show ?thesis unfolding search_inv_def using perms' by blast
qed

lemma search_inv_init:
  assumes "perms_in_range perms" and sym: "symmetric_program p perms ok"
    and "iso_orderings seen0 = perms" and "iso_set seen0 = {}"
  shows "\<exists>queue seen. fold_p (push_init c) (bp_inits p) ([], seen0) = Some (queue, seen)
    \<and> search_inv p perms ok md queue seen 0"
proof -
  have "\<forall>s\<in>set (bp_inits p). s \<in> orbit perms s"
    using symmetric_programD(1,4) [OF sym] by blast
  from enqueue_all [OF assms(1,3) this, where mk = "\<lambda>s. trace_new s c" and queue = "[]"] assms(4)
  obtain news seen where run: "fold_p (push_init c) (bp_inits p) ([], seen0) = Some (map (\<lambda>s. trace_new s c) news, seen)"
    and perms: "iso_orderings seen = perms" and seen: "iso_set seen = \<Union> (orbit perms ` set news)"
    and sub: "set news \<subseteq> set (bp_inits p)" "set (bp_inits p) \<subseteq> iso_set seen"
    by (auto simp: push_init_enqueue)
  have summary: "map summary (map (\<lambda>s. trace_new s c) news) = map (\<lambda>s. (s, 0)) news"
    by (simp add: summary_def One_nat_def)
  have zero: "snd (hd (map (\<lambda>s. (s, 0 :: nat)) news)) = 0" if "news \<noteq> []" using that by (cases news) auto
  have "frontier p perms ok md {} (map (\<lambda>s. (s, 0)) news) (iso_set seen) 0"
    unfolding frontier_def
  proof (intro conjI allI ballI impI)
    show "ok z" if "(z, e) \<in> {} \<union> set (map (\<lambda>s. (s, 0)) news)" for z e
      using that sub(1) symmetric_programD(1) [OF sym] by auto
    show "y \<in> iso_set seen \<longleftrightarrow> (\<exists>z e. (z, e) \<in> {} \<union> set (map (\<lambda>s. (s, 0)) news) \<and> y \<in> orbit perms z)" for y
      using seen by auto
    show "covered perms ({} \<union> set (map (\<lambda>s. (s, 0)) news)) s 0" if "s \<in> set (bp_inits p)" for s
    proof -
      from that sub(2) seen obtain z where "z \<in> set news" "s \<in> orbit perms z" by blast
      then have "(z, 0) \<in> {} \<union> set (map (\<lambda>s. (s, 0)) news)" by simp
      with \<open>s \<in> orbit perms z\<close> show ?thesis unfolding covered_def by blast
    qed
    show "sorted (map snd (map (\<lambda>s. (s, 0)) news))" by (induction news) auto
  qed auto
  then have "search_inv p perms ok md (map (\<lambda>s. trace_new s c) news) seen 0"
    unfolding search_inv_def summary using perms by auto
  with run show ?thesis by blast
qed

lemma search_inv_skip:
  assumes inv: "search_inv p perms ok md (tr # queue) seen cd" and last: "trace_last tr = Some x"
    and ok: "f_evaluate (bp_safe p) x = Some True" and "\<not> below_depth md (trace_depth tr)"
  shows "search_inv p perms ok md queue seen (if trace_depth tr > cd then cd + 1 else cd)"
proof -
  from inv last obtain expl where "frontier p perms ok md expl ((x, trace_depth tr) # map summary queue) (iso_set seen) cd"
    by (auto simp: search_inv_def summary_def)
  from frontier_extend [OF this, of "[]" "iso_set seen"] assms(4) f_evaluate_Some [OF ok] inv
  show ?thesis by (auto simp: search_inv_def)
qed

lemma iso_new_set: "iso_new ho it ix = Some seen \<Longrightarrow> iso_set seen = {}"
  by (auto simp: iso_new_def Let_def split: option.splits)

lemma search_verdicts:
  assumes "hash_children_doc ho" and "program_in_range p" and "iso_new ho it ix = Some seen0"
    and "perms_in_range (iso_orderings seen0)" and "symmetric_program p (iso_orderings seen0) ok"
    and "interpret_program ho it p md c ix = Some r"
  shows "(r = SearchConvergence \<longrightarrow> (\<forall>ss. program_run p ss \<longrightarrow> feval ((!) (last ss)) (bp_safe p)))
    \<and> (r = SearchUnknown \<longrightarrow>
        (\<forall>ss. program_run p ss \<longrightarrow> within_depth md ss \<longrightarrow> feval ((!) (last ss)) (bp_safe p)))"
proof -
  let ?perms = "iso_orderings seen0"
  from search_inv_init [OF assms(4,5) refl iso_new_set [OF assms(3)], of c md] obtain queue seen
    where init: "fold_p (push_init c) (bp_inits p) ([], seen0) = Some (queue, seen)"
      and inv: "search_inv p ?perms ok md queue seen 0" by blast
  then have loop: "search_loop ho (bp_safe p) (fold transitions_insert (bp_trs p) transitions_new) md queue seen 0 = Some r"
    using assms(6,3) by (simp add: interpret_program_def)
  define P where "P r = ((r = SearchConvergence \<longrightarrow> (\<forall>ss. program_run p ss \<longrightarrow> feval ((!) (last ss)) (bp_safe p)))
    \<and> (r = SearchUnknown \<longrightarrow>
        (\<forall>ss. program_run p ss \<longrightarrow> within_depth md ss \<longrightarrow> feval ((!) (last ss)) (bp_safe p))))" for r
  have "P r"
  proof (rule search_loop_invariant [OF loop, of "search_inv p ?perms ok md", OF inv])
    fix seen cd assume "search_inv p ?perms ok md [] seen cd"
    then obtain expl where "frontier p ?perms ok md expl [] (iso_set seen) cd" by (auto simp: search_inv_def)
    from frontier_final [OF this assms(5)]
    show "P (if below_depth md cd then SearchConvergence else SearchUnknown)" by (auto simp: P_def)
  next
    fix tr queue seen cd x assume "search_inv p ?perms ok md (tr # queue) seen cd" "trace_last tr = Some x"
      "f_evaluate (bp_safe p) x = Some True" "\<not> below_depth md (trace_depth tr)"
    then show "search_inv p ?perms ok md queue seen (if trace_depth tr > cd then cd + 1 else cd)"
      by (rule search_inv_skip)
  next
    fix tr queue seen cd x trs queue' seen'
    assume "search_inv p ?perms ok md (tr # queue) seen cd" "trace_last tr = Some x"
      "f_evaluate (bp_safe p) x = Some True"
      "get_subsets ho (fold transitions_insert (bp_trs p) transitions_new) x = Some trs"
      "fold_p (explore tr x) trs (queue, seen) = Some (queue', seen')"
    then show "search_inv p ?perms ok md queue' seen' (if trace_depth tr > cd then cd + 1 else cd)"
      by (rule search_inv_expand [OF assms(1,2,4,5)])
  qed (simp add: P_def)
  then show ?thesis by (simp add: P_def)
qed

text \<open>The two negative answers: for a program that treats permuted states alike, convergence
  means that no run, of any length, ends in a violation of the safety formula, and "unknown" that
  no run within the depth bound does, although the search explores only one state of every orbit.\<close>

theorem interpret_verdicts:
  assumes "hash_children_doc ho" and "program_in_range p" and "iso_new ho it ix = Some seen0"
    and "perms_in_range (iso_orderings seen0)" and "symmetric_program p (iso_orderings seen0) ok"
    and "interpret_program ho it p md c ix = Some r"
  shows "(r = SearchConvergence \<longrightarrow> (\<forall>ss. program_run p ss \<longrightarrow> feval ((!) (last ss)) (bp_safe p)))
    \<and> (r = SearchUnknown \<longrightarrow>
        (\<forall>ss. program_run p ss \<longrightarrow> within_depth md ss \<longrightarrow> feval ((!) (last ss)) (bp_safe p)))"
  using search_verdicts [OF assms] .

section \<open>Termination\<close>

lemma finite_states: "finite {x :: bounded_state. length x = state_len}"
  using finite_lists_length_eq [of "UNIV :: bool set" state_len] by simp

lemma search_loop_returns:
  assumes "hash_children_doc ho" and p: "program_in_range p" and perms: "perms_in_range perms"
    and refl: "\<And>y. length y = state_len \<Longrightarrow> y \<in> orbit perms y"
  shows "iso_orderings seen = perms
    \<Longrightarrow> \<forall>tr\<in>set queue. \<exists>x. trace_last tr = Some x \<and> length x = state_len
    \<Longrightarrow> \<exists>r. search_loop ho (bp_safe p) (fold transitions_insert (bp_trs p) transitions_new) md queue seen cd = Some r"
proof (induction "card ({x. length x = state_len} - iso_set seen)" arbitrary: queue seen cd rule: less_induct)
  case less
  let ?U = "{x :: bounded_state. length x = state_len}"
  let ?ts = "fold transitions_insert (bp_trs p) transitions_new"
  from less.prems(2) show ?case
  proof (induction queue arbitrary: cd)
    case Nil
    show ?case by (simp add: search_loop.simps)
  next
    case (Cons tr queue)
    let ?cd = "if trace_depth tr > cd then cd + 1 else cd"
    from Cons.prems obtain x where x: "trace_last tr = Some x" "length x = state_len" by auto
    have ok: "f_evaluate (bp_safe p) x = Some (feval ((!) x) (bp_safe p))"
      using p by (intro f_evaluate_in_range) (simp add: program_in_range_def)
    have "trie_in_range ?ts"
      using p by (intro program_trie_in_range) (simp_all add: program_in_range_def transitions_new_def)
    then obtain trs where trs: "get_subsets ho ?ts x = Some trs" using get_subsets_total by blast
    have "y \<in> orbit perms y" if "program_step p x y" for y
      using refl program_step_length [OF that] x(2) by simp
    from explore_successors [OF assms(1) p perms this less.prems(1) trs, of tr queue]
    obtain news seen' where fold: "fold_p (explore tr x) trs (queue, seen) = Some (queue @ map (trace_push tr) news, seen')"
      and seen': "iso_orderings seen' = perms" "iso_set seen' = iso_set seen \<union> \<Union> (orbit perms ` set news)"
      and news: "\<forall>y\<in>set news. program_step p x y \<and> y \<notin> iso_set seen" by blast
    have "\<exists>r. search_loop ho (bp_safe p) ?ts md (queue @ map (trace_push tr) news) seen' ?cd = Some r"
    proof (cases news)
      case Nil
      then have "seen' = seen" using seen' less.prems(1) by (cases seen; cases seen') simp
      with Cons.IH [of ?cd] Cons.prems Nil show ?thesis by simp
    next
      case (Cons y ys)
      then have y: "length y = state_len" "y \<notin> iso_set seen" using news x(2) program_step_length [of p x y] by auto
      then have "y \<in> iso_set seen'" using seen'(2) refl Cons by auto
      with y seen'(2) have "?U - iso_set seen' \<subset> ?U - iso_set seen" by auto
      then have less_card: "card (?U - iso_set seen') < card (?U - iso_set seen)"
        by (intro psubset_card_mono) (simp_all add: finite_states)
      have "\<forall>t\<in>set (queue @ map (trace_push tr) news). \<exists>x. trace_last t = Some x \<and> length x = state_len"
        using Cons.prems trace_push_last [OF x(1)] news x(2) program_step_length by fastforce
      from less.hyps [OF less_card seen'(1) this] show ?thesis by blast
    qed
    moreover have "\<exists>r. search_loop ho (bp_safe p) ?ts md queue seen ?cd = Some r"
      using Cons.IH [of ?cd] Cons.prems by simp
    ultimately show ?case
      using x ok trs fold by (subst search_loop.simps) (auto simp: Let_def)
  qed
qed

lemma search_returns:
  assumes "hash_children_doc ho" and "program_in_range p" and "iso_new ho it ix = Some seen0"
    and "perms_in_range (iso_orderings seen0)"
    and "\<And>y. length y = state_len \<Longrightarrow> y \<in> orbit (iso_orderings seen0) y"
  shows "\<exists>r. interpret_program ho it p md c ix = Some r"
proof -
  have len: "\<forall>s\<in>set (bp_inits p). length s = state_len" using assms(2) by (simp add: program_in_range_def)
  then have "\<forall>s\<in>set (bp_inits p). s \<in> orbit (iso_orderings seen0) s" using assms(5) by blast
  from enqueue_all [OF assms(4) refl this, where mk = "\<lambda>s. trace_new s c" and queue = "[]"]
  obtain news seen where init: "fold_p (push_init c) (bp_inits p) ([], seen0) = Some (map (\<lambda>s. trace_new s c) news, seen)"
    and perms: "iso_orderings seen = iso_orderings seen0" and sub: "set news \<subseteq> set (bp_inits p)"
    by (auto simp: push_init_enqueue)
  have "\<forall>tr\<in>set (map (\<lambda>s. trace_new s c) news). \<exists>x. trace_last tr = Some x \<and> length x = state_len"
    using sub len by auto
  from search_loop_returns [OF assms(1,2,4,5) perms this] init assms(3) show ?thesis
    by (simp add: interpret_program_def)
qed

text \<open>The search returns: with or without a depth bound, for a program whose indices fit in a
  state, it neither panics nor runs for ever.\<close>

theorem interpret_returns:
  assumes "hash_children_doc ho" and "program_in_range p" and "iso_new ho it ix = Some seen0"
    and "perms_in_range (iso_orderings seen0)"
    and "\<And>y. length y = state_len \<Longrightarrow> y \<in> orbit (iso_orderings seen0) y"
  shows "\<exists>r. interpret_program ho it p md c ix = Some r"
  using search_returns [OF assms] .

section \<open>A concrete search\<close>

text \<open>One proposition, one transition that sets it, and two safety formulas.\<close>

definition flag_orders :: hash_orders where
  "flag_orders = \<lparr>ho_children = (\<lambda>xs. xs), ho_universe = (\<lambda>_. []),
     ho_indices = (\<lambda>_. [(''p'', [([], (0, True))])])\<rparr>"

definition flag_indices :: indices where
  "flag_indices =
     \<lparr>ix_signature = \<lparr>sig_sorts = [],
        sig_relations = [\<lparr>rd_mutable = True, rd_name = ''p'', rd_args = [], rd_sort = Bool\<rparr>]\<rparr>,
      ix_universe = Map.empty, ix_num_mutable_copies = 1, ix_num_mutables = 1, ix_num_vars = 1,
      ix_bdd_variables = [0], ix_indices = [''p'' \<mapsto> [[] \<mapsto> (0, True)]]\<rparr>"

definition set_flag :: transition where
  "set_flag = \<lparr>tn_guards = [Guard 0 False], tn_updates = [Update 0 f_always_true],
     tn_slow_guard = f_always_true\<rparr>"

definition flag_program :: "formula \<Rightarrow> bounded_program" where
  "flag_program safe = \<lparr>bp_inits = [state_zero], bp_trs = [set_flag], bp_safe = safe\<rparr>"

lemma flag_orders_doc: "hash_children_doc flag_orders"
  by (simp add: hash_children_doc_def flag_orders_def)

lemma flag_iso: "iso_new flag_orders itertools_ref flag_indices = Some \<lparr>iso_set = {}, iso_orderings = [[]]\<rparr>"
  by (simp add: iso_new_def iso_copies_def flag_orders_def flag_indices_def mcp_fixed_eq relation_decl_of_def trim_end_primes_def
      relation_idx_def indices_get_def index_lookup_def)

lemma flag_in_range: "formula_in_range safe \<Longrightarrow> program_in_range (flag_program safe)"
  by (simp add: program_in_range_def flag_program_def set_flag_def transition_in_range_def
      formula_in_range_def state_zero_def state_len_def f_always_true_def)

lemma trivial_orbit [simp]: "orbit [[]] x = {x}"
  by (simp add: orbit_def permuted_def)

lemma flag_symmetric: "symmetric_program (flag_program safe) [[]] (\<lambda>x. length x = state_len)"
  by (auto simp: symmetric_program_def flag_program_def state_zero_def dest: program_step_length)

theorem interpret_counterexample_witness:
  "\<exists>ss. program_run (flag_program (FGuard (Guard 0 False))) ss \<and> ss = [state_zero, state_zero[0 := True]]
    \<and> \<not> feval ((!) (last ss)) (FGuard (Guard 0 False))"
proof -
  have "interpret_program flag_orders itertools_ref (flag_program (FGuard (Guard 0 False))) None CompressNo flag_indices
      = Some (SearchCounterexample (Trace [state_zero, state_zero[0 := True]]))"
    by code_simp
  from interpret_counterexample [OF flag_orders_doc this] show ?thesis
    by (auto simp: flag_program_def)
qed

text \<open>The trie returns exactly the enabled transitions: after inserting the transitions of a
  program whose indices are in range, a lookup returns, for every state and however the hash maps
  order their entries, those transitions whose guards and slow guard hold in the state, each as
  often as it was inserted.\<close>

theorem get_subsets_correct:
  assumes "hash_children_doc ho" and "\<forall>tr\<in>set trs. transition_in_range tr"
  shows "\<exists>out. get_subsets ho (fold transitions_insert trs transitions_new) s = Some out
    \<and> mset out = filter_mset (tn_enabled s) (mset trs)"
proof -
  have "trie_in_range (fold transitions_insert trs transitions_new)"
    using assms(2) by (intro program_trie_in_range) (simp_all add: transitions_new_def)
  then obtain out where "get_subsets ho (fold transitions_insert trs transitions_new) s = Some out"
    using get_subsets_total by blast
  with get_subsets_enabled [OF assms(1) this] show ?thesis by blast
qed

theorem get_subsets_correct_witness:
  "\<exists>out. get_subsets flag_orders (fold transitions_insert [set_flag] transitions_new) state_zero = Some out
    \<and> mset out = {#set_flag#}"
proof -
  have "\<forall>tr\<in>set [set_flag]. transition_in_range tr"
    by (simp add: set_flag_def transition_in_range_def formula_in_range_def state_len_def f_always_true_def)
  from get_subsets_correct [OF flag_orders_doc this, of state_zero]
  show ?thesis by (simp add: tn_enabled_def set_flag_def state_zero_def state_len_def)
qed

theorem interpret_verdicts_witness:
  "interpret_program flag_orders itertools_ref (flag_program (FGuard (Guard 1 False))) None CompressYes flag_indices
     = Some SearchConvergence
   \<and> {ss. program_run (flag_program (FGuard (Guard 1 False))) ss} \<subseteq> {ss. \<not> last ss ! 1}"
proof -
  let ?p = "flag_program (FGuard (Guard 1 False))"
  have run: "interpret_program flag_orders itertools_ref ?p None CompressYes flag_indices = Some SearchConvergence"
    by code_simp
  have "program_in_range ?p" by (rule flag_in_range) (simp add: formula_in_range_def state_len_def)
  from interpret_verdicts [OF flag_orders_doc this flag_iso _ _ run, of "\<lambda>x. length x = state_len"] run
    flag_symmetric [of "FGuard (Guard 1 False)"]
  show ?thesis by (auto simp: perms_in_range_def flag_program_def)
qed

theorem interpret_returns_witness:
  "\<exists>r. interpret_program flag_orders itertools_ref (flag_program (FGuard (Guard 5 False))) (Some 3) CompressYes flag_indices = Some r"
proof (rule interpret_returns [OF flag_orders_doc _ flag_iso])
  show "program_in_range (flag_program (FGuard (Guard 5 False)))"
    by (rule flag_in_range) (simp add: formula_in_range_def state_len_def)
qed (simp_all add: perms_in_range_def)

end
