(* ===== verification/Bounded_Set_Translate.thy ===== *)
theory Bounded_Set_Translate
  imports Bounded_System Bounded_Set_Search
begin

text \<open>
  Model of the translation of \<^verbatim>\<open>bounded/src/set.rs\<close> (\<open>translate\<close>): a module becomes a list of
  initial states, a list of guarded updates and a safety formula over the bits of a state; and of
  \<open>check\<close>, which translates, searches and turns the trace found into models. The lemmas show that a
  transition built from an enumerated formula is enabled and updates exactly as the formula says.
  Progress output is left out.
\<close>

section \<open>Transitions of conjunctions\<close>

lemma update_eq_iff: "u = v \<longleftrightarrow> up_index u = up_index v \<and> up_formula u = up_formula v"
  by (cases u; cases v) simp

definition update_lt :: "update \<Rightarrow> update \<Rightarrow> bool" where
  "update_lt u v \<longleftrightarrow> up_index u < up_index v \<or> up_index u = up_index v \<and> up_formula u < up_formula v"

instantiation update :: linorder
begin

definition less_update :: "update \<Rightarrow> update \<Rightarrow> bool" where
  "less_update u v = update_lt u v"

definition less_eq_update :: "update \<Rightarrow> update \<Rightarrow> bool" where
  "less_eq_update u v \<longleftrightarrow> u = v \<or> u < v"

instance
  by standard (auto simp: less_update_def update_lt_def less_eq_update_def update_eq_iff)

end

definition guards_conflict :: "guard list \<Rightarrow> bool" where
  "guards_conflict guards =
     list_ex (\<lambda>g. list_ex (\<lambda>h. g \<noteq> h \<and> gd_index g = gd_index h) guards) guards"

definition updates_conflict :: "update list \<Rightarrow> bool" where
  "updates_conflict updates =
     list_ex (\<lambda>u. list_ex (\<lambda>v. u \<noteq> v \<and> up_index u = up_index v) updates) updates"

definition tn_from_conjunction :: "transition list \<Rightarrow> transition option" where
  "tn_from_conjunction trs =
     (let guards = remdups_adj (List.sort (concat (map tn_guards trs)));
          updates = remdups_adj (List.sort (concat (map tn_updates trs)));
          slow_guard = foldl (\<lambda>slow tr. f_and [slow, tn_slow_guard tr]) f_always_true trs
      in if guards_conflict guards \<or> updates_conflict updates then None
         else Some \<lparr>tn_guards = guards, tn_updates = updates, tn_slow_guard = slow_guard\<rparr>)"

section \<open>Enumerated formulas as formulas and transitions\<close>

fun enumerated_to_formula :: "indices \<Rightarrow> enumerated \<Rightarrow> (checker_error + formula) option" where
  "enumerated_to_formula ix (EAnd xs) =
     bind_pr (collect_presult (map (enumerated_to_formula ix) xs)) (\<lambda>fs. Some (Inr (f_and fs)))"
| "enumerated_to_formula ix (EOr xs) =
     bind_pr (collect_presult (map (enumerated_to_formula ix) xs)) (\<lambda>fs. Some (Inr (f_or fs)))"
| "enumerated_to_formula ix (ENot x) =
     bind_pr (enumerated_to_formula ix x) (\<lambda>f. Some (Inr (f_not f)))"
| "enumerated_to_formula ix (EEq x y) =
     bind_pr (enumerated_to_formula ix x) (\<lambda>f. bind_pr (enumerated_to_formula ix y) (\<lambda>g.
       Some (Inr (f_iff f g))))"
| "enumerated_to_formula ix (EApp name primes args) =
     (if primes = 0
      then map_option (\<lambda>i. Inr (FGuard (Guard i True))) (indices_get ix name 0 args)
      else Some (Inl PrimeInFormula))"

fun guards_of :: "formula list \<Rightarrow> guard list option" where
  "guards_of [] = Some []"
| "guards_of (FGuard g # fs) = map_option (Cons g) (guards_of fs)"
| "guards_of (f # fs) = None"

text \<open>The last arm of the \<open>match\<close>: a cube becomes guards, any other formula a slow guard.\<close>

definition formula_transition :: "indices \<Rightarrow> enumerated \<Rightarrow> (checker_error + transition) option" where
  "formula_transition ix e =
     bind_pr (enumerated_to_formula ix e) (\<lambda>f.
       let terms = f_get_and f in
       case guards_of terms of
         Some guards \<Rightarrow> Some (Inr \<lparr>tn_guards = guards, tn_updates = [], tn_slow_guard = f_always_true\<rparr>)
       | None \<Rightarrow> Some (Inr \<lparr>tn_guards = [], tn_updates = [], tn_slow_guard = f_and terms\<rparr>))"

text \<open>The arm for negations, from the transition \<open>tr\<close> of the negated term.\<close>

definition negate_transition ::
  "indices \<Rightarrow> enumerated \<Rightarrow> transition \<Rightarrow> (checker_error + transition) option" where
  "negate_transition ix e tr =
     (case (tn_guards tr, tn_updates tr, tn_slow_guard tr = f_always_true) of
        ([g], [], True) \<Rightarrow> Some (Inr (tr\<lparr>tn_guards := [Guard (gd_index g) (\<not> gd_value g)]\<rparr>))
      | ([], [u], True) \<Rightarrow> Some (Inr (tr\<lparr>tn_updates := [Update (up_index u) (f_not (up_formula u))]\<rparr>))
      | ([], [], _) \<Rightarrow> Some (Inr (tr\<lparr>tn_slow_guard := f_not (tn_slow_guard tr)\<rparr>))
      | _ \<Rightarrow> bind_pr (enumerated_to_formula ix (ENot e)) (\<lambda>f.
               Some (Inr \<lparr>tn_guards = [], tn_updates = [], tn_slow_guard = f\<rparr>)))"

text \<open>An update of an indexed variable, from the formula of its new value.\<close>

definition update_transition ::
  "indices \<Rightarrow> string \<Rightarrow> element list \<Rightarrow> (checker_error + formula) option \<Rightarrow> (checker_error + transition) option" where
  "update_transition ix name args formula =
     (case indices_get ix name 0 args of None \<Rightarrow> None | Some index \<Rightarrow>
        bind_pr formula (\<lambda>f.
          Some (Inr \<lparr>tn_guards = [], tn_updates = [Update index f], tn_slow_guard = f_always_true\<rparr>)))"

fun enumerated_to_transition :: "indices \<Rightarrow> enumerated \<Rightarrow> (checker_error + transition) option" where
  "enumerated_to_transition ix (EAnd xs) =
     bind_pr (collect_presult (map (enumerated_to_transition ix) xs)) (\<lambda>trs.
       map_option Inr (tn_from_conjunction trs))"
| "enumerated_to_transition ix (ENot x) =
     bind_pr (enumerated_to_transition ix x) (negate_transition ix x)"
| "enumerated_to_transition ix (EEq x y) =
     (case x of
        EApp name primes args \<Rightarrow>
          (if primes = 1 then update_transition ix name args (enumerated_to_formula ix y)
           else formula_transition ix (EEq x y))
      | _ \<Rightarrow> formula_transition ix (EEq x y))"
| "enumerated_to_transition ix (EApp name primes args) =
     (if primes = 1 then update_transition ix name args (Some (Inr f_always_true))
      else formula_transition ix (EApp name primes args))"
| "enumerated_to_transition ix (EOr xs) = formula_transition ix (EOr xs)"

section \<open>Translation\<close>

text \<open>The initial state of a valuation of the BDD variables.\<close>

definition init_bit ::
  "indices \<Rightarrow> bool list \<Rightarrow> string \<Rightarrow> element list \<times> nat \<times> bool \<Rightarrow> bounded_state \<Rightarrow> bounded_state option" where
  "init_bit ix valuation r = (\<lambda>(xs, (i, _)) init.
     case indices_get ix r 0 xs of None \<Rightarrow> None | Some k \<Rightarrow>
       (if k < length (ix_bdd_variables ix) \<and> ix_bdd_variables ix ! k < length valuation
        then state_set init i (valuation ! (ix_bdd_variables ix ! k)) else None))"

definition init_state :: "hash_orders \<Rightarrow> indices \<Rightarrow> bool list \<Rightarrow> bounded_state option" where
  "init_state ho ix valuation =
     fold_p (\<lambda>(r, rest). fold_p (init_bit ix valuation r) rest) (ho_indices ho (ix_indices ix)) state_zero"

text \<open>Unconstrained variables: the cube of their values, one transition for each.\<close>

definition unconstrained_indices :: "hash_orders \<Rightarrow> indices \<Rightarrow> transition \<Rightarrow> nat list" where
  "unconstrained_indices ho ix tr =
     concat (map (\<lambda>(_, rest). concat (map (\<lambda>(_, (index, mutable)).
         if index \<notin> set (map up_index (tn_updates tr)) \<and> mutable then [index] else []) rest))
       (ho_indices ho (ix_indices ix)))"

definition add_update :: "update \<Rightarrow> transition \<Rightarrow> transition" where
  "add_update u tr = tr\<lparr>tn_updates := tn_updates tr @ [u]\<rparr>"

definition expand_cube :: "transition \<Rightarrow> nat list \<Rightarrow> transition list" where
  "expand_cube tr unconstrained =
     foldl (\<lambda>trs index. map (add_update (Update index f_always_false)) trs
              @ map (add_update (Update index f_always_true)) trs)
       [tr] unconstrained"

definition is_noop :: "guard list \<Rightarrow> update \<Rightarrow> bool" where
  "is_noop guards u \<longleftrightarrow>
     up_formula u = FGuard (Guard (up_index u) True)
     \<or> up_formula u = f_always_true \<and> Guard (up_index u) True \<in> set guards
     \<or> up_formula u = f_always_false \<and> Guard (up_index u) False \<in> set guards"

definition drop_noops :: "transition \<Rightarrow> transition" where
  "drop_noops tr = tr\<lparr>tn_updates := filter (\<lambda>u. \<not> is_noop (tn_guards tr) u) (tn_updates tr)\<rparr>"

definition expand_transitions :: "hash_orders \<Rightarrow> indices \<Rightarrow> transition list \<Rightarrow> transition list" where
  "expand_transitions ho ix trs =
     concat (map (\<lambda>tr. map drop_noops (expand_cube tr (unconstrained_indices ho ix tr)))
       (filter (\<lambda>tr. tn_slow_guard tr \<noteq> f_always_false) trs))"

text \<open>Whether a transition is kept: the mutable axioms must hold in its post-state, which is known as
  far as guards and constant updates determine it.\<close>

definition known_post_state :: "transition \<Rightarrow> guard list" where
  "known_post_state tr =
     filter (\<lambda>g. \<not> list_ex (\<lambda>u. up_index u = gd_index g) (tn_updates tr)) (tn_guards tr)
     @ concat (map (\<lambda>u. if up_formula u = f_always_true then [Guard (up_index u) True]
                        else if up_formula u = f_always_false then [Guard (up_index u) False]
                        else []) (tn_updates tr))"

definition should_keep :: "formula \<Rightarrow> transition \<Rightarrow> checker_error + bool" where
  "should_keep axioms tr =
     (if list_all (\<lambda>i. \<not> list_ex (\<lambda>u. i = up_index u) (tn_updates tr)) (f_guard_indices axioms)
      then Inr True
      else case f_evaluate_partial axioms (known_post_state tr) of
             Some b \<Rightarrow> Inr b
           | None \<Rightarrow> Inl UnprovenMutableAxiom)"

definition filter_axioms :: "formula \<Rightarrow> transition list \<Rightarrow> checker_error + transition list" where
  "filter_axioms axioms trs =
     (case collect_result (map (should_keep axioms) trs) of
        Inl e \<Rightarrow> Inl e
      | Inr keeps \<Rightarrow> Inr (map fst (filter snd (zip trs keeps))))"

text \<open>The sanity checks on the transitions; \<open>False\<close> is a panic.\<close>

definition indices_to_sets :: "hash_orders \<Rightarrow> indices \<Rightarrow> string list" where
  "indices_to_sets ho ix =
     fold (\<lambda>(r, rest) names. fold (\<lambda>(_, (i, _)) names. names[i := r]) rest names)
       (ho_indices ho (ix_indices ix)) (replicate (ix_num_vars ix) [])"

definition transition_sane :: "signature \<Rightarrow> string list \<Rightarrow> transition \<Rightarrow> bool" where
  "transition_sane sig names tr \<longleftrightarrow>
     list_all (\<lambda>u. up_index u < length names
       \<and> (case find (\<lambda>r. rd_name r = names ! up_index u) (sig_relations sig) of
            Some r \<Rightarrow> rd_mutable r | None \<Rightarrow> False)) (tn_updates tr)
     \<and> \<not> guards_conflict (tn_guards tr) \<and> \<not> updates_conflict (tn_updates tr)
     \<and> list_all (\<lambda>g. Update (gd_index g) (if gd_value g then f_always_true else f_always_false)
          \<notin> set (tn_updates tr)) (tn_guards tr)
     \<and> list_all (\<lambda>u. up_formula u \<noteq> FGuard (Guard (up_index u) True)) (tn_updates tr)
     \<and> tn_slow_guard tr \<noteq> f_always_false"

text \<open>\<open>translate\<close>: \<open>libs n\<close> is the BDD library at a set of \<open>n\<close> variables.\<close>

definition translate_inits ::
  "hash_orders \<Rightarrow> itertools \<Rightarrow> 'b bdd_lib \<Rightarrow> signature \<Rightarrow> universe_bounds \<Rightarrow> indices \<Rightarrow> fterm list
   \<Rightarrow> (checker_error + bounded_state list) option" where
  "translate_inits ho it lib sig universe ix inits =
     bind_pr (enumerate_term it sig universe (term_and inits)) (\<lambda>e.
       case bdd_from_enumerated lib ix e of None \<Rightarrow> None | Some b \<Rightarrow>
         map_option Inr (those (map (init_state ho ix) (bdd_valuations lib b))))"

definition translate_transitions ::
  "itertools \<Rightarrow> signature \<Rightarrow> universe_bounds \<Rightarrow> indices \<Rightarrow> fterm list
   \<Rightarrow> (checker_error + transition list) option" where
  "translate_transitions it sig universe ix transitions =
     (case transitions of
        [] \<Rightarrow> Some (Inr [])
      | [tr] \<Rightarrow> bind_pr (enumerate_term it sig universe tr) (\<lambda>e.
                 collect_presult (map (enumerated_to_transition ix) (get_or e)))
      | _ \<Rightarrow> Some (Inl MultipleTrs))"

definition translate_formula ::
  "itertools \<Rightarrow> signature \<Rightarrow> universe_bounds \<Rightarrow> indices \<Rightarrow> fterm \<Rightarrow> (checker_error + formula) option" where
  "translate_formula it sig universe ix t =
     bind_pr (enumerate_term it sig universe t) (enumerated_to_formula ix)"

text \<open>From the extracted module on.\<close>

definition translate_system ::
  "hash_orders \<Rightarrow> itertools \<Rightarrow> 'b bdd_lib \<Rightarrow> signature \<Rightarrow> universe_bounds \<Rightarrow> indices \<Rightarrow> destructured_module
   \<Rightarrow> (checker_error + bounded_program) option" where
  "translate_system ho it lib sig universe ix d =
     bind_pr (translate_inits ho it lib sig universe ix (dm_inits d @ dm_axioms d)) (\<lambda>inits.
     bind_pr (translate_transitions it sig universe ix (dm_transitions d)) (\<lambda>trs.
     let trs = expand_transitions ho ix trs in
     bind_pr (translate_formula it sig universe ix (term_and (mutable_axioms d (sig_relations sig)))) (\<lambda>axioms.
     bind_pr (Some (filter_axioms axioms trs)) (\<lambda>trs.
     bind_pr (translate_formula it sig universe ix (term_and (map (\<lambda>p. sp_x (sf_safety p)) (dm_proofs d)))) (\<lambda>safe.
       if list_all (transition_sane sig (indices_to_sets ho ix)) trs
       then Some (Inr \<lparr>bp_inits = inits, bp_trs = trs, bp_safe = safe\<rparr>) else None)))))"

definition set_translate ::
  "hash_orders \<Rightarrow> itertools \<Rightarrow> (nat \<Rightarrow> 'b bdd_lib) \<Rightarrow> fmodule \<Rightarrow> universe_bounds
   \<Rightarrow> (checker_error + bounded_program \<times> indices) option" where
  "set_translate ho it libs m universe =
     (let sig = mod_signature m in
      if list_ex (\<lambda>r. rd_sort r \<noteq> Bool) (sig_relations sig) then None
      else case indices_new it sig universe 1 of None \<Rightarrow> None | Some ix \<Rightarrow>
       (case find (\<lambda>srt. universe srt = None) (sig_sorts sig) of
          Some srt \<Rightarrow> Some (Inl (UnknownSort srt universe))
        | None \<Rightarrow>
          (if mod_defs m \<noteq> [] then None
           else case extract_module m of
               None \<Rightarrow> None
             | Some (Inl e) \<Rightarrow> Some (Inl (ExtractionError e))
             | Some (Inr d) \<Rightarrow>
                 bind_pr (translate_system ho it (libs (ix_num_vars ix)) sig universe ix d) (\<lambda>p.
                   Some (Inr (p, ix))))))"

section \<open>The checker\<close>

definition state_model :: "itertools \<Rightarrow> indices \<Rightarrow> bounded_state \<Rightarrow> model option" where
  "state_model it ix state = indices_model it ix 0 (\<lambda>i. map_option of_bool (state_get state i))"

fun trace_models :: "itertools \<Rightarrow> indices \<Rightarrow> trace_compression \<Rightarrow> search_trace \<Rightarrow> model list option" where
  "trace_models it ix CompressYes (CompressedTrace state depth) = those [state_model it ix state]"
| "trace_models it ix CompressNo (Trace states) = those (map (state_model it ix) states)"
| "trace_models it ix compression trace = None"

definition set_check ::
  "hash_orders \<Rightarrow> itertools \<Rightarrow> (nat \<Rightarrow> 'b bdd_lib) \<Rightarrow> fmodule \<Rightarrow> universe_bounds \<Rightarrow> nat option
   \<Rightarrow> trace_compression \<Rightarrow> (checker_error + unit checker_answer) option" where
  "set_check ho it libs m universe depth compression =
     bind_pr (set_translate ho it libs m universe) (\<lambda>(program, ix).
       case interpret_program ho it program depth compression ix of
         None \<Rightarrow> None
       | Some SearchUnknown \<Rightarrow> Some (Inr Unknown)
       | Some SearchConvergence \<Rightarrow> Some (Inr (Convergence ()))
       | Some (SearchCounterexample trace) \<Rightarrow>
           map_option (\<lambda>models. Inr (Counterexample models)) (trace_models it ix compression trace))"

section \<open>Meaning of a translated formula\<close>

text \<open>\<open>v\<close> values the variables of two consecutive states as \<open>\<beta>\<close> and \<open>\<gamma>\<close> value the indices.\<close>

definition values_agree ::
  "indices \<Rightarrow> enum_valuation \<Rightarrow> (nat \<Rightarrow> bool) \<Rightarrow> (nat \<Rightarrow> bool) \<Rightarrow> bool" where
  "values_agree ix v \<beta> \<gamma> \<longleftrightarrow>
     (\<forall>f es k. indices_get ix f 0 es = Some k \<longrightarrow> v f 0 es = \<beta> k \<and> v f 1 es = \<gamma> k)"

definition tn_holds :: "transition \<Rightarrow> (nat \<Rightarrow> bool) \<Rightarrow> (nat \<Rightarrow> bool) \<Rightarrow> bool" where
  "tn_holds tr \<beta> \<gamma> \<longleftrightarrow>
     (\<forall>g\<in>set (tn_guards tr). \<beta> (gd_index g) = gd_value g) \<and> feval \<beta> (tn_slow_guard tr)
     \<and> (\<forall>u\<in>set (tn_updates tr). \<gamma> (up_index u) = feval \<beta> (up_formula u))"

lemma list_all2_eval_iff:
  assumes "list_all2 P es fs" and "\<And>e f. e \<in> set es \<Longrightarrow> P e f \<Longrightarrow> A e = B f"
  shows "(\<forall>e\<in>set es. A e) \<longleftrightarrow> (\<forall>f\<in>set fs. B f)" and "(\<exists>e\<in>set es. A e) \<longleftrightarrow> (\<exists>f\<in>set fs. B f)"
  using assms by (induction rule: list_all2_induct) auto

lemma enumerated_to_formula_value:
  assumes "values_agree ix v \<beta> \<gamma>"
  shows "enumerated_to_formula ix e = Some (Inr f) \<Longrightarrow> feval \<beta> f = eeval v e"
proof (induction e arbitrary: f)
  case (EAnd es)
  then obtain fs where fs: "collect_presult (map (enumerated_to_formula ix) es) = Some (Inr fs)" "f = f_and fs"
    by (auto simp: bind_pr_Inr)
  from list_all2_eval_iff(1) [OF collect_presult_map_InrD [OF fs(1)], of "eeval v" "feval \<beta>"] EAnd.IH
  show ?case by (auto simp: fs(2) sem_simps list_all_iff)
next
  case (EOr es)
  then obtain fs where fs: "collect_presult (map (enumerated_to_formula ix) es) = Some (Inr fs)" "f = f_or fs"
    by (auto simp: bind_pr_Inr)
  from list_all2_eval_iff(2) [OF collect_presult_map_InrD [OF fs(1)], of "eeval v" "feval \<beta>"] EOr.IH
  show ?case by (auto simp: fs(2) sem_simps list_ex_iff)
next
  case (EApp f p es)
  then show ?case using assms by (auto simp: values_agree_def split: if_splits)
qed (auto simp: bind_pr_Inr sem_simps)

lemma guards_of_feval:
  "guards_of fs = Some gs \<Longrightarrow> (\<forall>g\<in>set gs. \<beta> (gd_index g) = gd_value g) \<longleftrightarrow> (\<forall>f\<in>set fs. feval \<beta> f)"
  by (induction fs arbitrary: gs rule: guards_of.induct) auto

lemma formula_transition_value:
  assumes "values_agree ix v \<beta> \<gamma>" and "formula_transition ix e = Some (Inr tr)"
  shows "tn_holds tr \<beta> \<gamma> \<longleftrightarrow> eeval v e" and "tn_updates tr = []"
proof -
  from assms(2) obtain f where f: "enumerated_to_formula ix e = Some (Inr f)"
    and tr: "tr = (case guards_of (f_get_and f) of
        Some guards \<Rightarrow> \<lparr>tn_guards = guards, tn_updates = [], tn_slow_guard = f_always_true\<rparr>
      | None \<Rightarrow> \<lparr>tn_guards = [], tn_updates = [], tn_slow_guard = f_and (f_get_and f)\<rparr>)"
    by (auto simp: formula_transition_def bind_pr_Inr Let_def split: option.splits)
  show "tn_holds tr \<beta> \<gamma> \<longleftrightarrow> eeval v e"
    using enumerated_to_formula_value [OF assms(1) f] f_get_and_feval [where f = f and \<beta> = \<beta>]
      guards_of_feval [of "f_get_and f" _ \<beta>]
    by (auto simp: tr tn_holds_def sem_simps split: option.split)
  show "tn_updates tr = []" by (simp add: tr split: option.split)
qed

lemma negate_transition_value:
  assumes "values_agree ix v \<beta> \<gamma>" and "negate_transition ix e tr = Some (Inr tr')"
    and "tn_holds tr \<beta> \<gamma> \<longleftrightarrow> eeval v e" and "distinct (map up_index (tn_updates tr))"
  shows "(tn_holds tr' \<beta> \<gamma> \<longleftrightarrow> \<not> eeval v e) \<and> distinct (map up_index (tn_updates tr'))"
proof -
  have other: ?thesis
    if "bind_pr (enumerated_to_formula ix (ENot e)) (\<lambda>f. Some (Inr \<lparr>tn_guards = [], tn_updates = [], tn_slow_guard = f\<rparr>)) = Some (Inr tr')"
  proof -
    from that obtain f where f: "enumerated_to_formula ix (ENot e) = Some (Inr f)"
      and tr': "tr' = \<lparr>tn_guards = [], tn_updates = [], tn_slow_guard = f\<rparr>"
      unfolding bind_pr_Inr by auto
    from enumerated_to_formula_value [OF assms(1) f] show ?thesis by (simp add: tr' tn_holds_def)
  qed
  show ?thesis
    using assms(2-4) other
    by (auto simp: negate_transition_def tn_holds_def sem_simps split: list.splits bool.splits)
qed

lemma update_transition_value:
  assumes "values_agree ix v \<beta> \<gamma>" and "update_transition ix name args r = Some (Inr tr)"
    and "\<And>f. r = Some (Inr f) \<Longrightarrow> feval \<beta> f = b"
  shows "(tn_holds tr \<beta> \<gamma> \<longleftrightarrow> v name 1 args = b) \<and> distinct (map up_index (tn_updates tr))"
  using assms by (auto simp: update_transition_def tn_holds_def bind_pr_Inr values_agree_def split: option.splits)

lemma sorted_dedup_distinct: "sorted xs \<Longrightarrow> distinct (remdups_adj xs)"
  by (induction xs rule: remdups_adj.induct) (auto simp: order.antisym)

lemma no_updates_conflict:
  assumes "distinct us" and "\<not> updates_conflict us"
  shows "distinct (map up_index us)"
  using assms by (auto simp: updates_conflict_def list_ex_iff distinct_map inj_on_def)

lemma tn_from_conjunction_value:
  assumes "tn_from_conjunction trs = Some tr"
  shows "tn_holds tr \<beta> \<gamma> \<longleftrightarrow> (\<forall>t\<in>set trs. tn_holds t \<beta> \<gamma>)" and "distinct (map up_index (tn_updates tr))"
proof -
  have slow: "feval \<beta> (foldl (\<lambda>slow tr. f_and [slow, tn_slow_guard tr]) f trs)
      \<longleftrightarrow> feval \<beta> f \<and> (\<forall>t\<in>set trs. feval \<beta> (tn_slow_guard t))" for f
    by (induction trs arbitrary: f) (auto simp: sem_simps)
  from assms show "tn_holds tr \<beta> \<gamma> \<longleftrightarrow> (\<forall>t\<in>set trs. tn_holds t \<beta> \<gamma>)"
    by (auto simp: tn_from_conjunction_def Let_def tn_holds_def slow split: if_splits)
  from assms show "distinct (map up_index (tn_updates tr))"
    by (auto simp: tn_from_conjunction_def Let_def split: if_splits
        intro!: no_updates_conflict sorted_dedup_distinct)
qed

lemma enumerated_to_transition_value:
  assumes "values_agree ix v \<beta> \<gamma>"
  shows "enumerated_to_transition ix e = Some (Inr tr)
    \<Longrightarrow> (tn_holds tr \<beta> \<gamma> \<longleftrightarrow> eeval v e) \<and> distinct (map up_index (tn_updates tr))"
proof (induction e arbitrary: tr)
  case (EAnd es)
  then obtain trs where trs: "collect_presult (map (enumerated_to_transition ix) es) = Some (Inr trs)"
    "tn_from_conjunction trs = Some tr"
    by (auto simp: bind_pr_Inr)
  from list_all2_eval_iff(1) [OF collect_presult_map_InrD [OF trs(1)], of "eeval v" "\<lambda>t. tn_holds t \<beta> \<gamma>"] EAnd.IH
    tn_from_conjunction_value(1) [OF trs(2), of \<beta> \<gamma>] tn_from_conjunction_value(2) [OF trs(2)]
  show ?case by (simp add: list_all_iff)
next
  case (EOr es)
  then show ?case using formula_transition_value [OF assms] by simp
next
  case (ENot e)
  then obtain t where "enumerated_to_transition ix e = Some (Inr t)" "negate_transition ix e t = Some (Inr tr)"
    by (auto simp: bind_pr_Inr)
  with ENot.IH [of t] negate_transition_value [OF assms, of e t tr] show ?case by simp
next
  case (EEq x y)
  show ?case
  proof (cases "\<exists>name args. x = EApp name 1 args")
    case True
    then obtain name args where x: "x = EApp name 1 args" by blast
    with EEq.prems have "update_transition ix name args (enumerated_to_formula ix y) = Some (Inr tr)" by simp
    from update_transition_value [OF assms this, of "eeval v y"] enumerated_to_formula_value [OF assms]
    show ?thesis by (simp add: x)
  next
    case False
    then have "enumerated_to_transition ix (EEq x y) = formula_transition ix (EEq x y)"
      by (auto split: enumerated.split)
    with EEq.prems formula_transition_value [OF assms] show ?thesis by simp
  qed
next
  case (EApp f p es)
  show ?case
  proof (cases "p = 1")
    case True
    with EApp.prems have "update_transition ix f es (Some (Inr f_always_true)) = Some (Inr tr)" by simp
    from update_transition_value [OF assms this, of True] show ?thesis by (simp add: True)
  next
    case False
    with EApp.prems formula_transition_value [OF assms, of "EApp f p es" tr] show ?thesis by simp
  qed
qed

text \<open>C26: a transition means what its formula says: whenever \<open>enumerated_to_transition\<close> returns one, and
  for all values of the variables in two consecutive states, the guards and the slow guard hold in
  the first and every update gives the value in the second exactly if the enumerated formula holds
  of the two states; and no index is updated twice.\<close>

theorem enumerated_to_transition_correct:
  assumes "values_agree ix v \<beta> \<gamma>" and "enumerated_to_transition ix e = Some (Inr tr)"
  shows "(tn_holds tr \<beta> \<gamma> \<longleftrightarrow> eeval v e) \<and> distinct (map up_index (tn_updates tr))"
  using enumerated_to_transition_value [OF assms] .

definition pair_valuation :: "indices \<Rightarrow> (nat \<Rightarrow> bool) \<Rightarrow> (nat \<Rightarrow> bool) \<Rightarrow> enum_valuation" where
  "pair_valuation ix \<beta> \<gamma> f p es =
     (case indices_get ix f 0 es of Some k \<Rightarrow> if p = 0 then \<beta> k else \<gamma> k | None \<Rightarrow> False)"

lemma values_agree_pair [simp]: "values_agree ix (pair_valuation ix \<beta> \<gamma>) \<beta> \<gamma>"
  by (simp add: values_agree_def pair_valuation_def)

theorem enumerated_to_transition_correct_witness:
  "\<forall>\<beta> \<gamma>. eeval (pair_valuation lock_indices \<beta> \<gamma>)
       (EAnd [EEq (EApp ''idle'' 1 []) (EApp ''held'' 0 [0]), ENot (EApp ''held'' 0 [1])])
     = (\<not> \<beta> 1 \<and> \<gamma> 2 = \<beta> 0)"
proof -
  let ?tr = "\<lparr>tn_guards = [Guard 1 False], tn_updates = [Update 2 (FGuard (Guard 0 True))],
    tn_slow_guard = f_always_true\<rparr>"
  have "returns (enumerated_to_transition lock_indices
      (EAnd [EEq (EApp ''idle'' 1 []) (EApp ''held'' 0 [0]), ENot (EApp ''held'' 0 [1])])) ?tr"
    by code_simp
  from enumerated_to_transition_correct [OF values_agree_pair this [unfolded returns_iff]] show ?thesis
    by (simp add: tn_holds_def)
qed

end
