(* ===== verification/Bounded_Set_System.thy ===== *)
theory Bounded_Set_System
  imports Bounded_Set_Translate Bounded_Set_Correct
begin

text \<open>
  What the translation of \<^verbatim>\<open>bounded/src/set.rs\<close> computes: the initial states, steps and safety
  formula of the translated program are those of the transition system of the module, state by
  state, once unconstrained variables are expanded, no-ops dropped and the transitions filtered by
  the mutable axioms.
\<close>

section \<open>Indices of one copy of the state\<close>

text \<open>Iterating over the hash map of the indices yields every entry once.\<close>

definition hash_indices_doc :: "hash_orders \<Rightarrow> indices \<Rightarrow> bool" where
  "hash_indices_doc ho ix \<longleftrightarrow>
     (let l = ho_indices ho (ix_indices ix) in
      distinct (map fst l) \<and> fst ` set l = dom (ix_indices ix)
      \<and> (\<forall>(r, rest)\<in>set l. distinct (map fst rest) \<and> ix_indices ix r = Some (map_of rest)))"

definition index_entries :: "hash_orders \<Rightarrow> indices \<Rightarrow> (string \<times> element list \<times> nat \<times> bool) list" where
  "index_entries ho ix = concat (map (\<lambda>(r, rest). map (Pair r) rest) (ho_indices ho (ix_indices ix)))"

lemma index_entries_iff:
  assumes "hash_indices_doc ho ix"
  shows "(r, es, i, b) \<in> set (index_entries ho ix) \<longleftrightarrow> index_lookup (ix_indices ix) r es = Some (i, b)"
proof
  assume "(r, es, i, b) \<in> set (index_entries ho ix)"
  then obtain rest where l: "(r, rest) \<in> set (ho_indices ho (ix_indices ix))" and "(es, i, b) \<in> set rest"
    by (auto simp: index_entries_def)
  moreover from this assms have "ix_indices ix r = Some (map_of rest)" "distinct (map fst rest)"
    by (auto simp: hash_indices_doc_def Let_def)
  ultimately show "index_lookup (ix_indices ix) r es = Some (i, b)"
    by (simp add: index_lookup_def)
next
  assume lookup: "index_lookup (ix_indices ix) r es = Some (i, b)"
  then have "r \<in> dom (ix_indices ix)" by (auto simp: index_lookup_def split: option.splits)
  with assms have "r \<in> fst ` set (ho_indices ho (ix_indices ix))" by (simp add: hash_indices_doc_def Let_def)
  then obtain rest where rest: "(r, rest) \<in> set (ho_indices ho (ix_indices ix))" by force
  with assms have "ix_indices ix r = Some (map_of rest)" by (auto simp: hash_indices_doc_def Let_def)
  with lookup have "(es, i, b) \<in> set rest" by (simp add: index_lookup_def map_of_SomeD)
  with rest show "(r, es, i, b) \<in> set (index_entries ho ix)" by (force simp: index_entries_def)
qed

lemma distinct_index_entries: "hash_indices_doc ho ix \<Longrightarrow> distinct (index_entries ho ix)"
proof -
  have "distinct (concat (map (\<lambda>(r, rest). map (Pair r) rest) l))"
    if "distinct (map fst l)" "\<forall>(r, rest)\<in>set l. distinct (map fst rest)"
    for l :: "(string \<times> (element list \<times> nat \<times> bool) list) list"
    using that
  proof (induction l)
    case (Cons x l)
    obtain r rest where x: "x = (r, rest)" by force
    have "distinct rest" using Cons.prems(2) x by (simp add: distinct_map)
    moreover have "set (map (Pair r) rest) \<inter> set (concat (map (\<lambda>(r, rest). map (Pair r) rest) l)) = {}"
    proof -
      have "fst x \<in> fst ` set l" if "x \<in> set (concat (map (\<lambda>(r, rest). map (Pair r) rest) l))" for x
      proof -
        from that obtain y where y: "y \<in> set l" "x \<in> set (case y of (r, rest) \<Rightarrow> map (Pair r) rest)" by auto
        then have "fst x = fst y" by (cases y) auto
        with y(1) show ?thesis by simp
      qed
      moreover have "r \<notin> fst ` set l" using Cons.prems(1) x by simp
      ultimately show ?thesis by (metis (no_types, lifting) disjoint_iff fst_conv imageE list.set_map)
    qed
    ultimately show ?case using Cons x by (simp add: distinct_map inj_on_def)
  qed simp
  moreover assume "hash_indices_doc ho ix"
  then have "distinct (map fst (ho_indices ho (ix_indices ix)))"
    "\<forall>(r, rest)\<in>set (ho_indices ho (ix_indices ix)). distinct (map fst rest)"
    by (auto simp: hash_indices_doc_def Let_def)
  ultimately show "distinct (index_entries ho ix)" by (simp only: index_entries_def)
qed

lemma fold_p_append:
  "fold_p f (xs @ ys) s = (case fold_p f xs s of None \<Rightarrow> None | Some s' \<Rightarrow> fold_p f ys s')"
  by (induction xs arbitrary: s) (auto split: option.split)

lemma fold_p_map: "fold_p f (map g xs) s = fold_p (\<lambda>x. f (g x)) xs s"
  by (induction xs arbitrary: s) (auto split: option.split)

lemma fold_p_entries:
  "fold_p (\<lambda>(r, rest). fold_p (f r) rest) l s
    = fold_p (\<lambda>(r, x). f r x) (concat (map (\<lambda>(r, rest). map (Pair r) rest) l)) s"
  by (induction l arbitrary: s) (auto simp: fold_p_append fold_p_map split: option.split)

lemma fold_entries:
  "fold (\<lambda>(r, rest). fold (f r) rest) l s
    = fold (\<lambda>(r, x). f r x) (concat (map (\<lambda>(r, rest). map (Pair r) rest) l)) s"
  by (induction l arbitrary: s) (auto simp: fold_map comp_def)

definition set_setup :: "itertools \<Rightarrow> hash_orders \<Rightarrow> signature \<Rightarrow> universe_bounds \<Rightarrow> indices \<Rightarrow> bool" where
  "set_setup it ho sig u ix \<longleftrightarrow>
     itertools_doc it \<and> plain_names sig \<and> bool_relations sig \<and> indices_new it sig u 1 = Some ix
     \<and> hash_indices_doc ho ix"

lemma set_setupD:
  assumes "set_setup it ho sig u ix"
  shows "itertools_doc it" "plain_names sig" "names_distinct sig" "bool_relations sig"
    "indices_new it sig u 1 = Some ix" "hash_indices_doc ho ix"
  using assms by (auto simp: set_setup_def plain_names_def)

definition entry :: "indices \<Rightarrow> string \<Rightarrow> element list \<Rightarrow> nat \<Rightarrow> bool \<Rightarrow> bool" where
  "entry ix r es i b \<longleftrightarrow> index_lookup (ix_indices ix) r es = Some (i, b)"

lemma entry_facts:
  assumes "set_setup it ho sig u ix"
  shows "entry ix r es i b \<Longrightarrow> indices_get ix r 0 es = Some i"
    and "indices_get ix r 0 es = Some i \<Longrightarrow> \<exists>b. entry ix r es i b"
    and "entry ix r es i b \<Longrightarrow> i < ix_num_vars ix"
    and "entry ix r es i b \<Longrightarrow> \<exists>d. index_slot sig u d es \<and> rd_name d = r \<and> rd_mutable d = b"
    and "index_slot sig u d es \<Longrightarrow> \<exists>i. entry ix (rd_name d) es i (rd_mutable d)"
    and "entry ix r es i b \<Longrightarrow> entry ix r' es' i b' \<Longrightarrow> r = r' \<and> es = es' \<and> b = b'"
proof -
  note D = set_setupD [OF assms]
  have c: "ix_num_mutable_copies ix = 1" and bdd: "ix_bdd_variables ix = [0..<ix_num_vars ix]"
    by (rule indices_new_cases [OF D(1,3,5)]; assumption)+
  have get: "indices_get ix r 0 es = map_option fst (index_lookup (ix_indices ix) r es)" for r es
    by (cases "index_lookup (ix_indices ix) r es") (auto simp: indices_get_def c)
  show 1: "entry ix r es i b \<Longrightarrow> indices_get ix r 0 es = Some i" for r es i b
    by (simp add: get entry_def)
  show "indices_get ix r 0 es = Some i \<Longrightarrow> \<exists>b. entry ix r es i b"
    by (auto simp: get entry_def)
  show 5: "index_slot sig u d es \<Longrightarrow> \<exists>i. entry ix (rd_name d) es i (rd_mutable d)" for d es
    using indices_get_range [OF D(1,3,5), of d es 0] by (auto simp: entry_def split: if_splits)
  have slot: "\<exists>d. index_slot sig u d es \<and> rd_name d = r \<and> rd_mutable d = b \<and> i < ix_num_vars ix"
    if e: "entry ix r es i b" for r es i b
  proof -
    from indices_get_slot [OF D(1,3,5) 1 [OF e]] obtain d where d: "index_slot sig u d es" "rd_name d = r" "i < ix_num_vars ix"
      by blast
    with 5 [OF d(1)] e have "rd_mutable d = b" by (auto simp: entry_def)
    with d show ?thesis by blast
  qed
  then show "entry ix r es i b \<Longrightarrow> i < ix_num_vars ix"
    "entry ix r es i b \<Longrightarrow> \<exists>d. index_slot sig u d es \<and> rd_name d = r \<and> rd_mutable d = b" by blast+
  assume e: "entry ix r es i b" "entry ix r' es' i b'"
  from slot [OF e(1)] slot [OF e(2)] obtain d d'
    where d: "index_slot sig u d es" "rd_name d = r" "rd_mutable d = b"
      "index_slot sig u d' es'" "rd_name d' = r'" "rd_mutable d' = b'" by blast
  with indices_get_injective_slots [OF D(1,3,5) d(1,4), of 0 0] 1 [OF e(1)] 1 [OF e(2)]
  show "r = r' \<and> es = es' \<and> b = b'" by auto
qed

definition is_index :: "indices \<Rightarrow> nat \<Rightarrow> bool" where
  "is_index ix k \<longleftrightarrow> (\<exists>r es b. entry ix r es k b)"

definition fits :: "indices \<Rightarrow> bool" where
  "fits ix \<longleftrightarrow> (\<forall>k. is_index ix k \<longrightarrow> k < state_len)"

definition state_ok :: "indices \<Rightarrow> bounded_state \<Rightarrow> bool" where
  "state_ok ix s \<longleftrightarrow> length s = state_len \<and> (\<forall>k<state_len. s ! k \<longrightarrow> is_index ix k)"

section \<open>Initial states\<close>

lemma fold_p_writes:
  "fold_p (\<lambda>x s. if g x < m then Some (s[g x := h (g x)]) else None) xs s
    = (if \<forall>x\<in>set xs. g x < m then Some (fold (\<lambda>x s. s[g x := h (g x)]) xs s) else None)"
  by (induction xs arbitrary: s) auto

lemma fold_writes_nth:
  "k < length s \<Longrightarrow> fold (\<lambda>x s. s[g x := h (g x)]) xs s ! k = (if k \<in> g ` set xs then h k else s ! k)"
  by (induction xs arbitrary: s) auto

lemma fold_writes_length: "length (fold (\<lambda>x s. s[g x := h x]) xs s) = length s"
  by (induction xs arbitrary: s) auto

lemma fold_p_cong: "(\<And>x s. x \<in> set xs \<Longrightarrow> f x s = g x s) \<Longrightarrow> fold_p f xs s = fold_p g xs s"
  by (induction xs arbitrary: s) (auto split: option.split)

lemma entries_index:
  assumes "set_setup it ho sig u ix"
  shows "(\<lambda>(r, es, i, b). i) ` set (index_entries ho ix) = {k. is_index ix k}"
proof -
  have iff: "x \<in> set (index_entries ho ix) \<longleftrightarrow> entry ix (fst x) (fst (snd x)) (fst (snd (snd x))) (snd (snd (snd x)))" for x
    using index_entries_iff [OF set_setupD(6) [OF assms], of "fst x" "fst (snd x)" "fst (snd (snd x))" "snd (snd (snd x))"]
    by (simp add: entry_def)
  have "k \<in> (\<lambda>(r, es, i, b). i) ` set (index_entries ho ix) \<longleftrightarrow> is_index ix k" for k
    unfolding is_index_def image_iff Bex_def iff by (simp add: case_prod_unfold)
  then show ?thesis by blast
qed

definition valuation_state :: "indices \<Rightarrow> bool list \<Rightarrow> bounded_state" where
  "valuation_state ix v = map (\<lambda>k. is_index ix k \<and> v ! k) [0..<state_len]"

lemma init_state_value:
  assumes "set_setup it ho sig u ix" and "length v = ix_num_vars ix"
  shows "init_state ho ix v = (if fits ix then Some (valuation_state ix v) else None)"
proof -
  note D = set_setupD [OF assms(1)]
  let ?es = "index_entries ho ix" and ?g = "\<lambda>(r, es, i, b). i :: nat"
  have bdd: "ix_bdd_variables ix = [0..<ix_num_vars ix]" by (rule indices_new_cases [OF D(1,3,5)])
  have step: "(\<lambda>(r, x). init_bit ix v r x) x s
      = (if ?g x < state_len then Some (s[?g x := v ! ?g x]) else None)" if "x \<in> set ?es" for x s
  proof -
    obtain r es i b where x: "x = (r, es, i, b)" by (cases x) auto
    with that have "entry ix r es i b" using index_entries_iff [OF D(6)] by (simp add: entry_def)
    with entry_facts(1,3) [OF assms(1) this] show ?thesis
      by (simp add: x init_bit_def bdd assms(2) state_set_def)
  qed
  have "init_state ho ix v = fold_p (\<lambda>(r, x). init_bit ix v r x) ?es state_zero"
    unfolding init_state_def index_entries_def by (rule fold_p_entries)
  also have "\<dots> = fold_p (\<lambda>x s. if ?g x < state_len then Some (s[?g x := v ! ?g x]) else None) ?es state_zero"
    by (rule fold_p_cong) (rule step)
  also have "\<dots> = (if \<forall>x\<in>set ?es. ?g x < state_len
      then Some (fold (\<lambda>x s. s[?g x := v ! ?g x]) ?es state_zero) else None)"
    by (rule fold_p_writes)
  also have "(\<forall>x\<in>set ?es. ?g x < state_len) \<longleftrightarrow> (\<forall>k\<in>?g ` set ?es. k < state_len)" by (rule ball_simps(9) [symmetric])
  also have "\<dots> \<longleftrightarrow> fits ix" unfolding entries_index [OF assms(1)] by (simp add: fits_def)
  also have "fold (\<lambda>x s. s[?g x := v ! ?g x]) ?es state_zero = valuation_state ix v"
  proof (rule nth_equalityI)
    show len: "length (fold (\<lambda>x s. s[?g x := v ! ?g x]) ?es state_zero) = length (valuation_state ix v)"
      by (simp add: fold_writes_length [where h = "\<lambda>x. v ! ?g x"] valuation_state_def state_zero_def)
    fix k assume "k < length (fold (\<lambda>x s. s[?g x := v ! ?g x]) ?es state_zero)"
    then have k: "k < length state_zero" by (simp add: fold_writes_length [where h = "\<lambda>x. v ! ?g x"])
    show "fold (\<lambda>x s. s[?g x := v ! ?g x]) ?es state_zero ! k = valuation_state ix v ! k"
      using k unfolding fold_writes_nth [OF k, where g = ?g and h = "(!) v"] entries_index [OF assms(1)]
      by (simp add: valuation_state_def state_zero_def)
  qed
  finally show ?thesis .
qed

lemma bdd_gets_defined: "bdd_from_enumerated lib ix e = Some b \<Longrightarrow> gets_defined ix e"
proof (induction e arbitrary: b)
  case (EAnd es)
  then obtain bs where "those (map (bdd_from_enumerated lib ix) es) = Some bs" by auto
  from those_SomeD [OF this] have "\<forall>e\<in>set es. \<exists>b. bdd_from_enumerated lib ix e = Some b"
    by (metis (no_types) image_iff list.set_map)
  with EAnd.IH show ?case by (auto simp: list_all_iff)
next
  case (EOr es)
  then obtain bs where "those (map (bdd_from_enumerated lib ix) es) = Some bs" by auto
  from those_SomeD [OF this] have "\<forall>e\<in>set es. \<exists>b. bdd_from_enumerated lib ix e = Some b"
    by (metis (no_types) image_iff list.set_map)
  with EOr.IH show ?case by (auto simp: list_all_iff)
next
  case (EApp f p es)
  then show ?case by (auto simp: bdd_var_def split: option.splits)
qed (auto split: option.splits)

lemma single_copy:
  assumes "set_setup it ho sig u ix" and "indices_get ix f p es = Some k"
  shows "p = 0" and "is_index ix k"
proof -
  note D = set_setupD [OF assms(1)]
  have "ix_num_mutable_copies ix = 1" by (rule indices_new_cases [OF D(1,3,5)])
  with assms(2) show p: "p = 0" by (simp add: indices_get_def split: if_splits)
  with entry_facts(2) [OF assms(1), of f es k] assms(2) show "is_index ix k"
    unfolding is_index_def by blast
qed

lemma index_valuation_cong:
  assumes "set_setup it ho sig u ix" and "\<And>k. is_index ix k \<Longrightarrow> \<beta> k = \<gamma> k"
  shows "index_valuation ix \<beta> = index_valuation ix \<gamma>"
  using assms(2) single_copy(2) [OF assms(1)] by (intro ext) (auto simp: index_valuation_def split: option.split)

lemma gets_defined_value:
  assumes "set_setup it ho sig u ix" and "values_agree ix v \<beta> \<gamma>"
  shows "gets_defined ix e \<Longrightarrow> eeval v e = eeval (index_valuation ix \<beta>) e"
proof (induction e)
  case (EApp f p es)
  then obtain k where k: "indices_get ix f p es = Some k" by auto
  with single_copy(1) [OF assms(1) k] assms(2) show ?case by (auto simp: index_valuation_def values_agree_def)
next
  case (EAnd es)
  then show ?case by (simp add: list_all_iff)
next
  case (EOr es)
  then show ?case by (simp add: list_all_iff list_ex_iff)
qed simp_all

lemma valuation_state_surj:
  assumes "set_setup it ho sig u ix" and "state_ok ix s"
  shows "s = valuation_state ix (map (\<lambda>i. is_index ix i \<and> s ! i) [0..<ix_num_vars ix])"
proof (rule nth_equalityI)
  fix k assume k: "k < length s"
  have "k < ix_num_vars ix" if "is_index ix k"
    using that entry_facts(3) [OF assms(1)] by (auto simp: is_index_def)
  with k assms(2) show "s ! k = valuation_state ix (map (\<lambda>i. is_index ix i \<and> s ! i) [0..<ix_num_vars ix]) ! k"
    by (auto simp: state_ok_def valuation_state_def)
qed (use assms(2) in \<open>simp add: state_ok_def valuation_state_def\<close>)

lemma valuation_state_ok: "state_ok ix (valuation_state ix v)"
  by (simp add: state_ok_def valuation_state_def)

lemma valuation_state_nth: "fits ix \<Longrightarrow> is_index ix k \<Longrightarrow> valuation_state ix v ! k = v ! k"
  by (simp add: valuation_state_def fits_def)

lemma translate_inits_states:
  assumes su: "set_setup it ho sig u ix" and doc: "bdd_doc (ix_num_vars ix) lib den"
    and e: "enumerate_term it sig u (term_and ts) = Some (Inr e)"
    and inits: "translate_inits ho it lib sig u ix ts = Some (Inr inits)"
  shows "gets_defined ix e"
    and "fits ix \<Longrightarrow> set inits = {s. state_ok ix s \<and> eeval (index_valuation ix ((!) s)) e}"
    and "inits \<noteq> [] \<Longrightarrow> fits ix" and "eeval (index_valuation ix \<beta>) e \<Longrightarrow> fits ix"
proof -
  note D = set_setupD [OF su]
  let ?n = "ix_num_vars ix"
  from inits e obtain b where b: "bdd_from_enumerated lib ix e = Some b"
    and those: "those (map (init_state ho ix) (bdd_valuations lib b)) = Some inits"
    by (auto simp: translate_inits_def split: option.splits)
  show def: "gets_defined ix e" by (rule bdd_gets_defined [OF b])
  have bools: "bdd_bool_doc ?n lib den" and ops: "bdd_ops_doc ?n lib den" using doc by (simp_all add: bdd_doc_def)
  have "ix_bdd_variables ix = [0..<?n]" by (rule indices_new_cases [OF D(1,3,5)])
  from bdd_from_enumerated_den [OF bools this gets_defined_indexed [OF D(1,3,5) def]] b
  have den: "den b \<beta> \<longleftrightarrow> eeval (index_valuation ix \<beta>) e" for \<beta> by auto
  have vals: "set (bdd_valuations lib b) = {v. length v = ?n \<and> den b (\<lambda>i. i < ?n \<and> v ! i)}"
    using ops by (simp add: bdd_ops_doc_def)
  have below: "k < ?n" if "is_index ix k" for k
    using that entry_facts(3) [OF su] by (auto simp: is_index_def)
  have none: "bdd_valuations lib b = []" if "\<not> fits ix"
  proof (rule ccontr)
    assume "bdd_valuations lib b \<noteq> []"
    then obtain v vs where v: "bdd_valuations lib b = v # vs" by (cases "bdd_valuations lib b") auto
    then have "length v = ?n" using vals by auto
    with init_state_value [OF su this] that v those show False by simp
  qed
  then show "inits \<noteq> [] \<Longrightarrow> fits ix" using those by (cases "fits ix") auto
  show "fits ix" if ev: "eeval (index_valuation ix \<beta>) e" for \<beta>
  proof (rule ccontr)
    assume "\<not> fits ix"
    let ?v = "map \<beta> [0..<?n]"
    have "index_valuation ix (\<lambda>i. i < ?n \<and> ?v ! i) = index_valuation ix \<beta>"
      by (rule index_valuation_cong [OF su]) (simp add: below)
    with ev have "?v \<in> set (bdd_valuations lib b)" by (simp add: vals den)
    with none [OF \<open>\<not> fits ix\<close>] show False by simp
  qed
  assume fits: "fits ix"
  have "inits = map (valuation_state ix) (bdd_valuations lib b)"
    by (rule those_map_eq_SomeD [OF those]) (use init_state_value [OF su] fits vals in auto)
  then have image: "set inits = valuation_state ix ` {v. length v = ?n \<and> den b (\<lambda>i. i < ?n \<and> v ! i)}"
    by (simp add: vals)
  show "set inits = {s. state_ok ix s \<and> eeval (index_valuation ix ((!) s)) e}"
  proof (intro equalityI subsetI)
    fix s assume "s \<in> set inits"
    then obtain v where v: "s = valuation_state ix v" "length v = ?n" "den b (\<lambda>i. i < ?n \<and> v ! i)"
      unfolding image by blast
    have "index_valuation ix ((!) s) = index_valuation ix (\<lambda>i. i < ?n \<and> v ! i)"
      by (rule index_valuation_cong [OF su]) (simp add: v(1) valuation_state_nth [OF fits] below)
    with v show "s \<in> {s. state_ok ix s \<and> eeval (index_valuation ix ((!) s)) e}"
      by (simp add: den valuation_state_ok)
  next
    fix s assume "s \<in> {s. state_ok ix s \<and> eeval (index_valuation ix ((!) s)) e}"
    then have s: "state_ok ix s" "eeval (index_valuation ix ((!) s)) e" by auto
    let ?v = "map (\<lambda>i. is_index ix i \<and> s ! i) [0..<?n]"
    have "index_valuation ix (\<lambda>i. i < ?n \<and> ?v ! i) = index_valuation ix ((!) s)"
      by (rule index_valuation_cong [OF su]) (simp add: below)
    with s(2) have "den b (\<lambda>i. i < ?n \<and> ?v ! i)" by (simp add: den)
    then show "s \<in> set inits" unfolding image
      by (intro image_eqI [where x = ?v]) (use valuation_state_surj [OF su s(1)] in simp_all)
  qed
qed

section \<open>Indices of formulas and transitions\<close>

definition formula_indexed :: "indices \<Rightarrow> formula \<Rightarrow> bool" where
  "formula_indexed ix f \<longleftrightarrow> (\<forall>i\<in>set (f_guard_indices f). is_index ix i)"

definition transition_indexed :: "indices \<Rightarrow> transition \<Rightarrow> bool" where
  "transition_indexed ix tr \<longleftrightarrow>
     (\<forall>g\<in>set (tn_guards tr). is_index ix (gd_index g)) \<and> formula_indexed ix (tn_slow_guard tr)
     \<and> (\<forall>u\<in>set (tn_updates tr). is_index ix (up_index u) \<and> formula_indexed ix (up_formula u))"

lemma formula_indexed_simps [simp]:
  "formula_indexed ix (FAnd fs) \<longleftrightarrow> (\<forall>f\<in>set fs. formula_indexed ix f)"
  "formula_indexed ix (FOr fs) \<longleftrightarrow> (\<forall>f\<in>set fs. formula_indexed ix f)"
  "formula_indexed ix (FGuard g) \<longleftrightarrow> is_index ix (gd_index g)"
  "formula_indexed ix f_always_true" "formula_indexed ix f_always_false"
  by (auto simp: formula_indexed_def f_always_true_def f_always_false_def) (cases g; simp)+

lemma formula_indexed_get: 
  "(\<forall>e\<in>set (f_get_and f). formula_indexed ix e) \<longleftrightarrow> formula_indexed ix f"
  "(\<forall>e\<in>set (f_get_or f). formula_indexed ix e) \<longleftrightarrow> formula_indexed ix f"
  by (cases f; simp)+

lemma simplified_members:
  assumes "terms = remdups_adj (List.sort (concat (map get fs)))"
    and "\<forall>f\<in>set fs. \<forall>e\<in>set (get f). P e" and "P bad" and "\<And>xs. (\<forall>x\<in>set xs. P x) \<Longrightarrow> P (mk xs)"
  shows "P (if list_ex (\<lambda>t. t = bad) terms then bad else if length terms = 1 then last terms else mk terms)"
proof -
  have terms: "\<forall>e\<in>set terms. P e" using assms(2) by (auto simp: assms(1))
  moreover have "last terms \<in> set terms" if "length terms = 1" using that by (intro last_in_set) auto
  ultimately show ?thesis using assms(3,4) by auto
qed

lemma formula_indexed_and: "\<forall>f\<in>set fs. formula_indexed ix f \<Longrightarrow> formula_indexed ix (f_and fs)"
  unfolding f_and_def Let_def by (rule simplified_members [OF refl]) (simp_all add: formula_indexed_get)

lemma formula_indexed_or: "\<forall>f\<in>set fs. formula_indexed ix f \<Longrightarrow> formula_indexed ix (f_or fs)"
  unfolding f_or_def Let_def by (rule simplified_members [OF refl]) (simp_all add: formula_indexed_get)

lemma formula_indexed_not: "formula_indexed ix f \<Longrightarrow> formula_indexed ix (f_not f)"
  by (induction f rule: f_not.induct) (auto intro!: formula_indexed_and formula_indexed_or)

lemma list_all2_members: "list_all2 P xs ys \<Longrightarrow> (\<And>x y. x \<in> set xs \<Longrightarrow> P x y \<Longrightarrow> Q y) \<Longrightarrow> \<forall>y\<in>set ys. Q y"
  by (induction rule: list_all2_induct) auto

lemma enumerated_to_formula_indexed:
  assumes "set_setup it ho sig u ix"
  shows "enumerated_to_formula ix e = Some (Inr f) \<Longrightarrow> formula_indexed ix f"
proof (induction e arbitrary: f)
  case (EAnd es)
  then obtain fs where fs: "collect_presult (map (enumerated_to_formula ix) es) = Some (Inr fs)" "f = f_and fs"
    by (auto simp: bind_pr_Inr)
  from list_all2_members [OF collect_presult_map_InrD [OF fs(1)], of "formula_indexed ix"] EAnd.IH
  show ?case by (auto simp: fs(2) intro!: formula_indexed_and)
next
  case (EOr es)
  then obtain fs where fs: "collect_presult (map (enumerated_to_formula ix) es) = Some (Inr fs)" "f = f_or fs"
    by (auto simp: bind_pr_Inr)
  from list_all2_members [OF collect_presult_map_InrD [OF fs(1)], of "formula_indexed ix"] EOr.IH
  show ?case by (auto simp: fs(2) intro!: formula_indexed_or)
next
  case (EEq x y)
  then show ?case
    by (auto simp: bind_pr_Inr f_iff_def intro!: formula_indexed_and formula_indexed_or formula_indexed_not)
next
  case (EApp r p es)
  then show ?case using single_copy(2) [OF assms, of r 0 es] by (auto split: if_splits)
qed (auto simp: bind_pr_Inr intro: formula_indexed_not)

lemma guards_of_members: "guards_of fs = Some gs \<Longrightarrow> fs = map FGuard gs"
  by (induction fs arbitrary: gs rule: guards_of.induct) auto

lemma formula_transition_indexed:
  assumes "set_setup it ho sig u ix" and "formula_transition ix e = Some (Inr tr)"
  shows "transition_indexed ix tr"
proof -
  from assms(2) obtain f where f: "enumerated_to_formula ix e = Some (Inr f)"
    and tr: "tr = (case guards_of (f_get_and f) of
        Some guards \<Rightarrow> \<lparr>tn_guards = guards, tn_updates = [], tn_slow_guard = f_always_true\<rparr>
      | None \<Rightarrow> \<lparr>tn_guards = [], tn_updates = [], tn_slow_guard = f_and (f_get_and f)\<rparr>)"
    by (auto simp: formula_transition_def bind_pr_Inr Let_def split: option.splits)
  have fs: "\<forall>e\<in>set (f_get_and f). formula_indexed ix e"
    using enumerated_to_formula_indexed [OF assms(1) f] by (simp add: formula_indexed_get)
  show ?thesis
  proof (cases "guards_of (f_get_and f)")
    case None
    with fs show ?thesis by (simp add: tr transition_indexed_def formula_indexed_and)
  next
    case (Some gs)
    with fs guards_of_members [OF Some] show ?thesis by (auto simp: tr transition_indexed_def)
  qed
qed

lemma update_transition_indexed:
  assumes "set_setup it ho sig u ix" and "update_transition ix name args r = Some (Inr tr)"
    and "\<And>f. r = Some (Inr f) \<Longrightarrow> formula_indexed ix f"
  shows "transition_indexed ix tr"
  using assms(2,3) single_copy(2) [OF assms(1), of name 0 args]
  by (auto simp: update_transition_def bind_pr_Inr transition_indexed_def split: option.splits)

lemma negate_transition_indexed:
  assumes "set_setup it ho sig u ix" and "negate_transition ix e tr = Some (Inr tr')"
    and "transition_indexed ix tr"
  shows "transition_indexed ix tr'"
proof -
  have other: ?thesis
    if "bind_pr (enumerated_to_formula ix (ENot e)) (\<lambda>f. Some (Inr \<lparr>tn_guards = [], tn_updates = [], tn_slow_guard = f\<rparr>)) = Some (Inr tr')"
    using that enumerated_to_formula_indexed [OF assms(1), of "ENot e"]
    unfolding bind_pr_Inr by (auto simp: transition_indexed_def)
  show ?thesis
    using assms(2,3) other formula_indexed_not
    by (auto simp: negate_transition_def transition_indexed_def split: list.splits bool.splits)
qed

lemma tn_from_conjunction_indexed:
  assumes "tn_from_conjunction trs = Some tr" and "\<forall>t\<in>set trs. transition_indexed ix t"
  shows "transition_indexed ix tr"
proof -
  have "formula_indexed ix (foldl (\<lambda>slow tr. f_and [slow, tn_slow_guard tr]) f trs)" if "formula_indexed ix f" for f
    using assms(2) that
    by (induction trs arbitrary: f) (simp_all add: transition_indexed_def formula_indexed_and)
  with assms show ?thesis
    by (auto simp: tn_from_conjunction_def Let_def transition_indexed_def split: if_splits)
qed

lemma enumerated_to_transition_indexed:
  assumes "set_setup it ho sig u ix"
  shows "enumerated_to_transition ix e = Some (Inr tr) \<Longrightarrow> transition_indexed ix tr"
proof (induction e arbitrary: tr)
  case (EAnd es)
  then obtain trs where trs: "collect_presult (map (enumerated_to_transition ix) es) = Some (Inr trs)"
    "tn_from_conjunction trs = Some tr"
    by (auto simp: bind_pr_Inr)
  from list_all2_members [OF collect_presult_map_InrD [OF trs(1)], of "transition_indexed ix"] EAnd.IH
    tn_from_conjunction_indexed [OF trs(2)]
  show ?case by blast
next
  case (EOr es)
  then show ?case using formula_transition_indexed [OF assms] by simp
next
  case (ENot e)
  then obtain t where "enumerated_to_transition ix e = Some (Inr t)" "negate_transition ix e t = Some (Inr tr)"
    by (auto simp: bind_pr_Inr)
  with ENot.IH negate_transition_indexed [OF assms] show ?case by blast
next
  case (EEq x y)
  show ?case
  proof (cases "\<exists>name args. x = EApp name 1 args")
    case True
    then obtain name args where x: "x = EApp name 1 args" by blast
    with EEq.prems have "update_transition ix name args (enumerated_to_formula ix y) = Some (Inr tr)" by simp
    from update_transition_indexed [OF assms this] enumerated_to_formula_indexed [OF assms] show ?thesis by blast
  next
    case False
    then have "enumerated_to_transition ix (EEq x y) = formula_transition ix (EEq x y)"
      by (auto split: enumerated.split)
    with EEq.prems formula_transition_indexed [OF assms] show ?thesis by simp
  qed
next
  case (EApp f p es)
  then show ?case
    using formula_transition_indexed [OF assms, of "EApp f p es" tr]
      update_transition_indexed [OF assms, of f es "Some (Inr f_always_true)" tr]
    by (auto split: if_splits)
qed

end
