(* ===== verification/Bounded_Set_Steps.thy ===== *)
theory Bounded_Set_Steps
  imports Bounded_Set_System
begin

text \<open>
  The steps of a translated program (\<^verbatim>\<open>bounded/src/set.rs\<close>): expanding the unconstrained variables
  of a transition, dropping its no-ops and filtering by the mutable axioms leaves exactly the steps
  that the transition formula describes, between states that satisfy the axioms.
\<close>

section \<open>Expanding a transition\<close>

definition f_const :: "bool \<Rightarrow> formula" where
  "f_const b = (if b then f_always_true else f_always_false)"

definition choose_values :: "transition \<Rightarrow> nat list \<Rightarrow> (nat \<Rightarrow> bool) \<Rightarrow> transition" where
  "choose_values tr ks c = tr\<lparr>tn_updates := tn_updates tr @ map (\<lambda>k. Update k (f_const (c k))) ks\<rparr>"

lemma feval_f_const [simp]: "feval \<beta> (f_const b) = b"
  by (simp add: f_const_def)

lemma expand_cube_snoc:
  "expand_cube tr (ks @ [k]) =
     map (add_update (Update k f_always_false)) (expand_cube tr ks)
     @ map (add_update (Update k f_always_true)) (expand_cube tr ks)"
  by (simp add: expand_cube_def)

lemma set_expand_cube: "distinct ks \<Longrightarrow> set (expand_cube tr ks) = range (choose_values tr ks)"
proof (induction ks rule: rev_induct)
  case Nil
  then show ?case by (auto simp: expand_cube_def choose_values_def)
next
  case (snoc k ks)
  have add: "add_update (Update k (f_const b)) (choose_values tr ks c) = choose_values tr (ks @ [k]) (c(k := b))" for b c
  proof -
    have "map (\<lambda>j. Update j (f_const (c j))) ks = map (\<lambda>j. Update j (f_const ((c(k := b)) j))) ks"
      using snoc.prems by auto
    then show ?thesis by (simp add: add_update_def choose_values_def)
  qed
  have "set (expand_cube tr (ks @ [k])) =
      (\<lambda>t. add_update (Update k (f_const False)) t) ` range (choose_values tr ks)
      \<union> (\<lambda>t. add_update (Update k (f_const True)) t) ` range (choose_values tr ks)"
    using snoc by (simp add: expand_cube_snoc f_const_def)
  also have "\<dots> = range (choose_values tr (ks @ [k]))"
  proof (intro equalityI subsetI)
    fix t assume "t \<in> range (choose_values tr (ks @ [k]))"
    then obtain c where "t = choose_values tr (ks @ [k]) (c(k := c k))" by auto
    then have "t = add_update (Update k (f_const (c k))) (choose_values tr ks c)" by (simp only: add)
    then show "t \<in> (\<lambda>t. add_update (Update k (f_const False)) t) ` range (choose_values tr ks)
        \<union> (\<lambda>t. add_update (Update k (f_const True)) t) ` range (choose_values tr ks)"
      by (cases "c k") auto
  qed (auto simp: add)
  finally show ?case .
qed

section \<open>Targets\<close>

lemma fold_write_other: "k \<notin> g ` set xs \<Longrightarrow> fold (\<lambda>x ys. ys[g x := h x]) xs ys ! k = ys ! k"
  by (induction xs arbitrary: ys) auto

lemma fold_write_member:
  "\<lbrakk> distinct (map g xs); x \<in> set xs; g x < length ys \<rbrakk> \<Longrightarrow> fold (\<lambda>x ys. ys[g x := h x]) xs ys ! g x = h x"
  by (induction xs arbitrary: ys) (auto simp: fold_write_other)

lemma tn_target_other: "k \<notin> up_index ` set (tn_updates tr) \<Longrightarrow> tn_target tr s ! k = s ! k"
  unfolding tn_target_def by (rule fold_write_other)

lemma tn_target_member:
  "\<lbrakk> distinct (map up_index (tn_updates tr)); u \<in> set (tn_updates tr); up_index u < length s \<rbrakk>
   \<Longrightarrow> tn_target tr s ! up_index u = feval ((!) s) (up_formula u)"
  unfolding tn_target_def by (rule fold_write_member)

lemma enabled_choose [simp]: "tn_enabled s (choose_values tr ks c) = tn_enabled s tr"
  by (simp add: tn_enabled_def choose_values_def)

lemma enabled_drop [simp]: "tn_enabled s (drop_noops tr) = tn_enabled s tr"
  by (simp add: tn_enabled_def drop_noops_def)

lemma noop_value: "tn_enabled s tr \<Longrightarrow> is_noop (tn_guards tr) u \<Longrightarrow> feval ((!) s) (up_formula u) = s ! up_index u"
  by (fastforce simp: tn_enabled_def is_noop_def)

lemma drop_noops_target:
  assumes "distinct (map up_index (tn_updates tr))" and "tn_enabled s tr"
  shows "tn_target (drop_noops tr) s = tn_target tr s"
proof (rule nth_equalityI)
  fix k assume k: "k < length (tn_target (drop_noops tr) s)"
  have dist: "distinct (map up_index (tn_updates (drop_noops tr)))"
    using assms(1) by (simp add: drop_noops_def distinct_map_filter)
  have sub: "set (tn_updates (drop_noops tr)) \<subseteq> set (tn_updates tr)" by (auto simp: drop_noops_def)
  show "tn_target (drop_noops tr) s ! k = tn_target tr s ! k"
  proof (cases "k \<in> up_index ` set (tn_updates tr)")
    case True
    then obtain u where u: "u \<in> set (tn_updates tr)" "k = up_index u" by blast
    show ?thesis
    proof (cases "is_noop (tn_guards tr) u")
      case True
      have "k \<notin> up_index ` set (tn_updates (drop_noops tr))"
      proof
        assume "k \<in> up_index ` set (tn_updates (drop_noops tr))"
        then obtain w where "w \<in> set (tn_updates tr)" "\<not> is_noop (tn_guards tr) w" "up_index w = up_index u"
          by (auto simp: drop_noops_def u(2))
        with u(1) assms(1) True show False by (auto simp: distinct_map dest: inj_onD)
      qed
      with u k True show ?thesis
        by (simp add: tn_target_other tn_target_member [OF assms(1)] noop_value [OF assms(2)])
    next
      case False
      then have "u \<in> set (tn_updates (drop_noops tr))" using u(1) by (simp add: drop_noops_def)
      with u k show ?thesis by (simp add: tn_target_member [OF assms(1)] tn_target_member [OF dist])
    qed
  next
    case False
    with sub show ?thesis by (subst (1 2) tn_target_other) auto
  qed
qed simp

text \<open>What the transitions expanded from one transition do: updates as given, every value for the
  unconstrained variables, everything else unchanged.\<close>

definition expanded_step :: "transition \<Rightarrow> nat list \<Rightarrow> bounded_state \<Rightarrow> bounded_state \<Rightarrow> bool" where
  "expanded_step tr ks s s' \<longleftrightarrow>
     tn_enabled s tr \<and> length s' = length s
     \<and> (\<forall>u\<in>set (tn_updates tr). s' ! up_index u = feval ((!) s) (up_formula u))
     \<and> (\<forall>k<length s. k \<notin> set ks \<longrightarrow> k \<notin> up_index ` set (tn_updates tr) \<longrightarrow> s' ! k = s ! k)"

lemma expand_step:
  assumes dist: "distinct (map up_index (tn_updates tr) @ ks)"
    and below: "\<forall>k\<in>set (map up_index (tn_updates tr) @ ks). k < length s"
  shows "(\<exists>t\<in>set (map drop_noops (expand_cube tr ks)). tn_enabled s t \<and> s' = tn_target t s)
    \<longleftrightarrow> expanded_step tr ks s s'" 
proof -
  have "distinct ks" using dist by simp
  note cube = set_expand_cube [OF this, of tr]
  have upds: "distinct (map up_index (tn_updates (choose_values tr ks c)))" for c
    using dist by (simp add: choose_values_def comp_def)
  have target: "tn_target (choose_values tr ks c) s = s'
      \<longleftrightarrow> length s' = length s \<and> (\<forall>u\<in>set (tn_updates tr). s' ! up_index u = feval ((!) s) (up_formula u))
        \<and> (\<forall>k\<in>set ks. s' ! k = c k)
        \<and> (\<forall>k<length s. k \<notin> set ks \<longrightarrow> k \<notin> up_index ` set (tn_updates tr) \<longrightarrow> s' ! k = s ! k)"
    (is "?t c = s' \<longleftrightarrow> ?R") for c
  proof -
    have u: "?t c ! up_index u = feval ((!) s) (up_formula u)" if "u \<in> set (tn_updates tr)" for u
      using that below by (intro tn_target_member [OF upds]) (auto simp: choose_values_def)
    have k: "?t c ! k = c k" if "k \<in> set ks" for k
      using that below tn_target_member [OF upds, of "Update k (f_const (c k))" c s] by (auto simp: choose_values_def)
    have other: "?t c ! k = s ! k" if "k \<notin> set ks" "k \<notin> up_index ` set (tn_updates tr)" for k
      using that by (intro tn_target_other) (auto simp: choose_values_def)
    show ?thesis
    proof
      assume "?t c = s'"
      then show ?R using u k other by auto
    next
      assume R: ?R
      show "?t c = s'"
      proof (rule nth_equalityI)
        show "length (?t c) = length s'" using R by simp
        fix j assume "j < length (?t c)"
        with R u k other show "?t c ! j = s' ! j"
          by (cases "j \<in> set ks"; cases "j \<in> up_index ` set (tn_updates tr)") auto
      qed
    qed
  qed
  have "(\<exists>t\<in>set (map drop_noops (expand_cube tr ks)). tn_enabled s t \<and> s' = tn_target t s)
      \<longleftrightarrow> tn_enabled s tr \<and> (\<exists>c. tn_target (choose_values tr ks c) s = s')"
    by (auto simp: cube drop_noops_target [OF upds])
  also have "\<dots> \<longleftrightarrow> expanded_step tr ks s s'"
    unfolding target expanded_step_def by (auto intro: exI [of _ "(!) s'"])
  finally show ?thesis .
qed

section \<open>Mutable indices and the sanity checks\<close>

definition mutable_index :: "indices \<Rightarrow> nat \<Rightarrow> bool" where
  "mutable_index ix k \<longleftrightarrow> (\<exists>r es. entry ix r es k True)"

lemma entries_entry:
  "set_setup it ho sig u ix \<Longrightarrow> (r, es, i, b) \<in> set (index_entries ho ix) \<longleftrightarrow> entry ix r es i b"
  using index_entries_iff [OF set_setupD(6)] by (simp add: entry_def)

lemma distinct_entry_indices:
  assumes "set_setup it ho sig u ix"
  shows "distinct (map (\<lambda>(r, es, i, b). i) (index_entries ho ix))"
proof -
  have "inj_on (\<lambda>(r, es, i, b). i) (set (index_entries ho ix))"
  proof (rule inj_onI)
    fix x y assume x: "x \<in> set (index_entries ho ix)" and y: "y \<in> set (index_entries ho ix)"
      and eq: "(case x of (r, es, i, b) \<Rightarrow> i) = (case y of (r, es, i, b) \<Rightarrow> i)"
    obtain r es i b r' es' i' b' where xy: "x = (r, es, i, b)" "y = (r', es', i', b')" by (cases x; cases y) auto
    with x y eq have "entry ix r es i b" "entry ix r' es' i b'" by (simp_all add: entries_entry [OF assms])
    from entry_facts(6) [OF assms this] eq show "x = y" by (simp add: xy)
  qed
  then show ?thesis using distinct_index_entries [OF set_setupD(6) [OF assms]] by (simp add: distinct_map)
qed

lemma unconstrained_eq:
  "unconstrained_indices ho ix tr = map (\<lambda>(r, es, i, b). i)
     (filter (\<lambda>(r, es, i, b). i \<notin> set (map up_index (tn_updates tr)) \<and> b) (index_entries ho ix))"
proof -
  have inner: "concat (map (\<lambda>(_, (index, mutable)). if index \<notin> U \<and> mutable then [index] else []) rest)
      = map (\<lambda>(r, es, i, b). i) (filter (\<lambda>(r, es, i, b). i \<notin> U \<and> b) (map (Pair r) rest))"
    for U :: "nat set" and r :: string and rest :: "(element list \<times> nat \<times> bool) list"
  proof (induction rest)
    case (Cons x rest)
    obtain es i b where "x = (es, i, b)" by (cases x) auto
    with Cons show ?case by simp
  qed simp
  have "concat (map (\<lambda>(_, rest). concat (map (\<lambda>(_, (index, mutable)).
        if index \<notin> U \<and> mutable then [index] else []) rest)) l)
      = map (\<lambda>(r, es, i, b). i) (filter (\<lambda>(r, es, i, b). i \<notin> U \<and> b)
          (concat (map (\<lambda>(r, rest). map (Pair r) rest) l)))"
    for U :: "nat set" and l :: "(string \<times> (element list \<times> nat \<times> bool) list) list"
  proof (induction l)
    case (Cons x l)
    obtain r rest where "x = (r, rest)" by force
    with Cons inner [of U rest r] show ?case by simp
  qed simp
  then show ?thesis unfolding unconstrained_indices_def index_entries_def by blast
qed

lemma unconstrained_facts:
  assumes "set_setup it ho sig u ix"
  shows "distinct (unconstrained_indices ho ix tr)"
    and "set (unconstrained_indices ho ix tr) = {k. mutable_index ix k} - up_index ` set (tn_updates tr)"
proof -
  show "distinct (unconstrained_indices ho ix tr)"
    unfolding unconstrained_eq by (rule distinct_map_filter [OF distinct_entry_indices [OF assms]])
  have "k \<in> set (unconstrained_indices ho ix tr) \<longleftrightarrow>
      mutable_index ix k \<and> k \<notin> up_index ` set (tn_updates tr)" for k
  proof
    assume "k \<in> set (unconstrained_indices ho ix tr)"
    then obtain r es where "(r, es, k, True) \<in> set (index_entries ho ix)" "k \<notin> up_index ` set (tn_updates tr)"
      unfolding unconstrained_eq by auto
    then show "mutable_index ix k \<and> k \<notin> up_index ` set (tn_updates tr)"
      by (auto simp: entries_entry [OF assms] mutable_index_def)
  next
    assume k: "mutable_index ix k \<and> k \<notin> up_index ` set (tn_updates tr)"
    then obtain r es where "(r, es, k, True) \<in> set (index_entries ho ix)"
      by (auto simp: entries_entry [OF assms] mutable_index_def)
    with k have "(r, es, k, True) \<in> set (filter (\<lambda>(r, es, i, b). i \<notin> set (map up_index (tn_updates tr)) \<and> b) (index_entries ho ix))"
      by simp
    then show "k \<in> set (unconstrained_indices ho ix tr)"
      unfolding unconstrained_eq set_map by (rule image_eqI [rotated]) simp
  qed
  then show "set (unconstrained_indices ho ix tr) = {k. mutable_index ix k} - up_index ` set (tn_updates tr)"
    by blast
qed

lemma indices_to_sets_entry:
  assumes "set_setup it ho sig u ix" and "entry ix r es i b"
  shows "indices_to_sets ho ix ! i = r" and "i < length (indices_to_sets ho ix)"
proof -
  let ?es = "index_entries ho ix"
  have eq: "indices_to_sets ho ix = fold (\<lambda>x names. names[(case x of (r, es, i, b) \<Rightarrow> i) := fst x]) ?es
      (replicate (ix_num_vars ix) [])"
  proof -
    have "indices_to_sets ho ix = fold (\<lambda>(r, x). (\<lambda>(_, (i, _)) names. names[i := r]) x) ?es (replicate (ix_num_vars ix) [])"
      unfolding indices_to_sets_def index_entries_def
      by (rule fold_entries [where f = "\<lambda>r. \<lambda>(_, (i, _)) names. names[i := r]"])
    also have "(\<lambda>(r, x). (\<lambda>(_, (i, _)) names. names[i := r]) x)
        = (\<lambda>(x :: string \<times> element list \<times> nat \<times> bool) names. names[(case x of (r, es, i, b) \<Rightarrow> i) := fst x])"
      by (auto simp: fun_eq_iff split: prod.splits)
    finally show ?thesis .
  qed
  have len: "length (indices_to_sets ho ix) = ix_num_vars ix"
    unfolding eq by (simp add: fold_writes_length [where h = fst])
  with entry_facts(3) [OF assms] show "i < length (indices_to_sets ho ix)" by simp
  have "(r, es, i, b) \<in> set ?es" using assms(2) by (simp add: entries_entry [OF assms(1)])
  from fold_write_member [OF distinct_entry_indices [OF assms(1)] this, of "replicate (ix_num_vars ix) []" fst]
    entry_facts(3) [OF assms]
  show "indices_to_sets ho ix ! i = r" unfolding eq by simp
qed

lemma sane_mutable:
  assumes "set_setup it ho sig u ix" and "transition_sane sig (indices_to_sets ho ix) tr"
    and "w \<in> set (tn_updates tr)" and "is_index ix (up_index w)"
  shows "mutable_index ix (up_index w)"
proof -
  from assms(4) obtain r es b where e: "entry ix r es (up_index w) b" by (auto simp: is_index_def)
  from entry_facts(4) [OF assms(1) e] obtain d where d: "index_slot sig u d es" "rd_name d = r" "rd_mutable d = b" by blast
  from assms(2) have "list_all (\<lambda>u. up_index u < length (indices_to_sets ho ix)
       \<and> (case find (\<lambda>r. rd_name r = indices_to_sets ho ix ! up_index u) (sig_relations sig) of
            Some r \<Rightarrow> rd_mutable r | None \<Rightarrow> False)) (tn_updates tr)"
    unfolding transition_sane_def by blast
  from bspec [OF this [unfolded list_all_iff] assms(3)]
  have "case find (\<lambda>d. rd_name d = r) (sig_relations sig) of Some d \<Rightarrow> rd_mutable d | None \<Rightarrow> False"
    unfolding indices_to_sets_entry(1) [OF assms(1) e] by blast
  then obtain d' where d': "find (\<lambda>d. rd_name d = r) (sig_relations sig) = Some d'" "rd_mutable d'"
    by (auto split: option.splits)
  then have "d' \<in> set (sig_relations sig)" "rd_name d' = r" by (auto simp: find_Some_iff)
  with same_name [OF set_setupD(3) [OF assms(1)], of d' d] d have "d' = d" by (simp add: index_slot_def)
  with d d' e show ?thesis by (auto simp: mutable_index_def)
qed

section \<open>Filtering by the mutable axioms\<close>

lemma known_post_state_true:
  assumes dist: "distinct (map up_index (tn_updates tr))" and "tn_enabled s tr"
    and below: "\<forall>w\<in>set (tn_updates tr). up_index w < length s" and g: "g \<in> set (known_post_state tr)"
  shows "tn_target tr s ! gd_index g = gd_value g"
proof -
  from g consider "g \<in> set (tn_guards tr)" "gd_index g \<notin> up_index ` set (tn_updates tr)"
    | w b where "w \<in> set (tn_updates tr)" "g = Guard (up_index w) b" "up_formula w = f_const b"
  proof -
    let ?lit = "\<lambda>w. if up_formula w = f_always_true then [Guard (up_index w) True]
      else if up_formula w = f_always_false then [Guard (up_index w) False] else []"
    from g consider "g \<in> set (tn_guards tr)" "\<not> list_ex (\<lambda>w. up_index w = gd_index g) (tn_updates tr)"
      | w where "w \<in> set (tn_updates tr)" "g \<in> set (?lit w)"
      unfolding known_post_state_def set_append set_filter set_concat set_map by blast
    then show thesis
    proof cases
      case 1
      then have "\<forall>w\<in>set (tn_updates tr). up_index w \<noteq> gd_index g" by (simp add: list_ex_iff)
      then have "gd_index g \<notin> up_index ` set (tn_updates tr)" unfolding image_iff by force
      with 1 that(1) show thesis by blast
    next
      case 2
      then show thesis using that(2) [of w "gd_value g"] by (auto simp: f_const_def split: if_splits)
    qed
  qed
  then show ?thesis
  proof cases
    case 1
    with assms(2) show ?thesis by (simp add: tn_target_other tn_enabled_def)
  next
    case 2
    with below tn_target_member [OF dist, of w s] show ?thesis by simp
  qed
qed

lemma f_evaluate_partial_value:
  assumes "f_evaluate_partial f guards = Some b" and "\<forall>g\<in>set guards. \<beta> (gd_index g) = gd_value g"
  shows "feval \<beta> f = b"
proof (rule f_partial_sound [OF assms(1) [unfolded f_evaluate_partial_def]])
  fix i v assume "foldl (\<lambda>m g. m(gd_index g \<mapsto> gd_value g)) Map.empty guards i = Some v"
  from guard_map_lookup [OF this] assms(2) show "\<beta> i = v" by auto
qed

lemma should_keep_value:
  assumes "distinct (map up_index (tn_updates tr))" and "tn_enabled s tr"
    and "\<forall>w\<in>set (tn_updates tr). up_index w < length s" and "feval ((!) s) ax"
    and "should_keep ax tr = Inr b"
  shows "feval ((!) (tn_target tr s)) ax = b"
proof (cases "\<forall>i\<in>set (f_guard_indices ax). i \<notin> up_index ` set (tn_updates tr)")
  case True
  then have b: "b" using assms(5) by (auto simp: should_keep_def list_all_iff list_ex_iff split: if_splits)
  have "feval ((!) (tn_target tr s)) ax = feval ((!) s) ax"
    using True by (intro feval_cong) (simp add: tn_target_other)
  with assms(4) b show ?thesis by simp
next
  case False
  then have "\<not> list_all (\<lambda>i. \<not> list_ex (\<lambda>w. i = up_index w) (tn_updates tr)) (f_guard_indices ax)"
    by (auto simp: list_all_iff list_ex_iff)
  then have "f_evaluate_partial ax (known_post_state tr) = Some b"
    using assms(5) by (simp add: should_keep_def split: option.splits)
  from f_evaluate_partial_value [OF this] known_post_state_true [OF assms(1-3)] show ?thesis by blast
qed

lemma filter_axioms_set:
  assumes "filter_axioms ax trs = Inr trs'"
  shows "set trs' = {t \<in> set trs. should_keep ax t = Inr True}" and "\<forall>t\<in>set trs. \<exists>b. should_keep ax t = Inr b"
proof -
  from assms obtain keeps where keeps: "collect_result (map (should_keep ax) trs) = Inr keeps"
    and trs': "trs' = map fst (filter snd (zip trs keeps))"
    by (auto simp: filter_axioms_def split: sum.splits)
  from collect_result_InrD [OF keeps] have eq: "map (should_keep ax) trs = map Inr keeps" .
  then have len: "length keeps = length trs" by (metis length_map)
  have nth: "should_keep ax (trs ! i) = Inr (keeps ! i)" if "i < length trs" for i
    using map_eq_map_nth(2) [OF eq that] .
  show "\<forall>t\<in>set trs. \<exists>b. should_keep ax t = Inr b" using nth by (metis in_set_conv_nth)
  have "t \<in> set trs' \<longleftrightarrow> (\<exists>i<length trs. t = trs ! i \<and> keeps ! i)" for t
    using len by (force simp: trs' set_zip)
  then show "set trs' = {t \<in> set trs. should_keep ax t = Inr True}"
    using nth by (fastforce simp: in_set_conv_nth)
qed

section \<open>The steps of the translated program\<close>

text \<open>What a step must satisfy: the transition formula, immutable bits unchanged, a proper state, and
  the axioms in the new state.\<close>

definition system_step :: "indices \<Rightarrow> enumerated \<Rightarrow> formula \<Rightarrow> bounded_state \<Rightarrow> bounded_state \<Rightarrow> bool" where
  "system_step ix e ax s s' \<longleftrightarrow>
     state_ok ix s' \<and> eeval (pair_valuation ix ((!) s) ((!) s')) e
     \<and> (\<forall>k. is_index ix k \<longrightarrow> \<not> mutable_index ix k \<longrightarrow> s' ! k = s ! k) \<and> feval ((!) s') ax"

lemma expanded_transitions_iff:
  "t \<in> set (expand_transitions ho ix trs0) \<longleftrightarrow>
    (\<exists>b\<in>set trs0. tn_slow_guard b \<noteq> f_always_false
       \<and> t \<in> set (map drop_noops (expand_cube b (unconstrained_indices ho ix b))))"
  by (auto simp: expand_transitions_def)

lemma expanded_member:
  assumes su: "set_setup it ho sig u ix" and b: "enumerated_to_transition ix d = Some (Inr b)"
    and t: "t \<in> set (map drop_noops (expand_cube b (unconstrained_indices ho ix b)))"
  shows "distinct (map up_index (tn_updates t))" and "transition_indexed ix t"
proof -
  let ?ks = "unconstrained_indices ho ix b"
  have dist: "distinct (map up_index (tn_updates b))"
    using enumerated_to_transition_value [OF values_agree_pair b] by blast
  from t unconstrained_facts [OF su, of b] obtain c where tc: "t = drop_noops (choose_values b ?ks c)"
    by (auto simp: set_expand_cube)
  have "distinct (map up_index (tn_updates (choose_values b ?ks c)))"
    using dist unconstrained_facts [OF su, of b] by (auto simp: choose_values_def comp_def)
  then show "distinct (map up_index (tn_updates t))" by (simp add: tc drop_noops_def distinct_map_filter)
  have "is_index ix k" if "k \<in> set ?ks" for k
    using that unconstrained_facts(2) [OF su, of b] by (auto simp: mutable_index_def is_index_def)
  with enumerated_to_transition_indexed [OF su b] show "transition_indexed ix t"
    by (auto simp: tc drop_noops_def choose_values_def transition_indexed_def f_const_def)
qed

lemma tn_holds_enabled:
  "tn_holds b ((!) s) ((!) s') \<longleftrightarrow>
    tn_enabled s b \<and> (\<forall>w\<in>set (tn_updates b). s' ! up_index w = feval ((!) s) (up_formula w))"
  by (auto simp: tn_holds_def tn_enabled_def)

lemma get_or_ex: "eeval v e \<longleftrightarrow> (\<exists>d\<in>set (get_or e). eeval v d)"
  using get_or_eeval [where f = e and v = v] by blast

lemma indexed_below: "fits ix \<Longrightarrow> transition_indexed ix t \<Longrightarrow> \<forall>w\<in>set (tn_updates t). up_index w < state_len"
  by (simp add: transition_indexed_def fits_def)

lemma indexed_in_range: "fits ix \<Longrightarrow> transition_indexed ix t \<Longrightarrow> transition_in_range t"
  by (auto simp: transition_indexed_def transition_in_range_def fits_def formula_indexed_def formula_in_range_def)

lemma expand_step_base:
  assumes su: "set_setup it ho sig u ix" and "fits ix" and b: "enumerated_to_transition ix d = Some (Inr b)"
    and s: "state_ok ix s"
  shows "(\<exists>t\<in>set (map drop_noops (expand_cube b (unconstrained_indices ho ix b))). tn_enabled s t \<and> s' = tn_target t s)
    \<longleftrightarrow> expanded_step b (unconstrained_indices ho ix b) s s'"
proof (rule expand_step)
  have dist: "distinct (map up_index (tn_updates b))"
    using enumerated_to_transition_value [OF values_agree_pair b] by blast
  with unconstrained_facts [OF su, of b] show "distinct (map up_index (tn_updates b) @ unconstrained_indices ho ix b)"
    by auto
  have "k < length s" if "is_index ix k" for k using that \<open>fits ix\<close> s by (simp add: fits_def state_ok_def)
  moreover have "is_index ix k" if "k \<in> set (map up_index (tn_updates b) @ unconstrained_indices ho ix b)" for k
    using that enumerated_to_transition_indexed [OF su b] unconstrained_facts(2) [OF su, of b]
    by (auto simp: transition_indexed_def mutable_index_def is_index_def)
  ultimately show "\<forall>k\<in>set (map up_index (tn_updates b) @ unconstrained_indices ho ix b). k < length s" by blast
qed

lemma translated_steps:
  assumes su: "set_setup it ho sig u ix" and fits: "fits ix"
    and trs0: "collect_presult (map (enumerated_to_transition ix) (get_or e)) = Some (Inr trs0)"
    and trs: "filter_axioms ax (expand_transitions ho ix trs0) = Inr trs"
    and sane: "list_all (transition_sane sig (indices_to_sets ho ix)) trs"
    and s: "state_ok ix s" and ax: "feval ((!) s) ax"
  shows "(\<exists>t\<in>set trs. tn_enabled s t \<and> s' = tn_target t s) \<longleftrightarrow> system_step ix e ax s s'"
proof -
  let ?v = "pair_valuation ix ((!) s) ((!) s')" and ?ks = "unconstrained_indices ho ix"
  have len: "length s = state_len" using s by (simp add: state_ok_def)
  have idx: "k < state_len" if "is_index ix k" for k using that fits by (simp add: fits_def)
  have disj: "list_all2 (\<lambda>d b. enumerated_to_transition ix d = Some (Inr b)) (get_or e) trs0"
    by (rule collect_presult_map_InrD [OF trs0])
  have from_d: "\<exists>b\<in>set trs0. enumerated_to_transition ix d = Some (Inr b)" if "d \<in> set (get_or e)" for d
    using disj that by (auto simp: list_all2_conv_all_nth in_set_conv_nth)
  have to_d: "\<exists>d\<in>set (get_or e). enumerated_to_transition ix d = Some (Inr b)" if "b \<in> set trs0" for b
    using disj that unfolding list_all2_conv_all_nth by (metis in_set_conv_nth)
  have meaning: "tn_holds b ((!) s) ((!) s') \<longleftrightarrow> eeval ?v d" if "enumerated_to_transition ix d = Some (Inr b)" for b d
    using enumerated_to_transition_value [OF values_agree_pair that] by blast
  show ?thesis
  proof
    assume "\<exists>t\<in>set trs. tn_enabled s t \<and> s' = tn_target t s"
    then obtain t where t: "t \<in> set trs" "tn_enabled s t" "s' = tn_target t s" by blast
    with filter_axioms_set(1) [OF trs] have "t \<in> set (expand_transitions ho ix trs0)"
      and keep: "should_keep ax t = Inr True" by auto
    then obtain b where b: "b \<in> set trs0" and tb: "t \<in> set (map drop_noops (expand_cube b (?ks b)))"
      unfolding expanded_transitions_iff by blast
    from to_d [OF b] obtain d where d: "d \<in> set (get_or e)" "enumerated_to_transition ix d = Some (Inr b)" by blast
    note member = expanded_member [OF su d(2) tb]
    have step: "expanded_step b (?ks b) s s'"
      using expand_step_base [OF su fits d(2) s] tb t(2,3) by blast
    then have "tn_holds b ((!) s) ((!) s')" by (simp add: tn_holds_enabled expanded_step_def)
    then have ev: "eeval ?v e" using meaning [OF d(2)] get_or_ex d(1) by blast
    have other: "s' ! k = s ! k" if "k \<notin> up_index ` set (tn_updates t)" for k
      using that t(3) by (simp add: tn_target_other)
    have mut: "mutable_index ix (up_index w)" if "w \<in> set (tn_updates t)" for w
      using sane_mutable [OF su _ that] sane t(1) member(2) that by (auto simp: list_all_iff transition_indexed_def)
    have imm: "s' ! k = s ! k" if "\<not> mutable_index ix k" for k
      using that mut by (intro other) auto
    have "state_ok ix s'"
    proof -
      have "is_index ix k" if "k < state_len" "s' ! k" for k
      proof (rule ccontr)
        assume "\<not> is_index ix k"
        with imm [of k] that s show False by (auto simp: mutable_index_def is_index_def state_ok_def)
      qed
      then show ?thesis using t(3) len by (simp add: state_ok_def)
    qed
    moreover have "feval ((!) s') ax"
      using should_keep_value [OF member(1) t(2) _ ax keep] indexed_below [OF fits member(2)] t(3) len by simp
    ultimately show "system_step ix e ax s s'" using ev imm by (simp add: system_step_def)
  next
    assume "system_step ix e ax s s'"
    then have s': "state_ok ix s'" and ev: "eeval ?v e" and ax': "feval ((!) s') ax"
      and imm: "\<And>k. is_index ix k \<Longrightarrow> \<not> mutable_index ix k \<Longrightarrow> s' ! k = s ! k" by (auto simp: system_step_def)
    from ev obtain d where d: "d \<in> set (get_or e)" "eeval ?v d" using get_or_ex by blast
    from from_d [OF d(1)] obtain b where b: "b \<in> set trs0" "enumerated_to_transition ix d = Some (Inr b)" by blast
    with meaning d(2) have holds: "tn_holds b ((!) s) ((!) s')" by blast
    have "s' ! k = s ! k" if "k < length s" "k \<notin> set (?ks b)" "k \<notin> up_index ` set (tn_updates b)" for k
    proof (cases "is_index ix k")
      case True
      with that unconstrained_facts(2) [OF su, of b] imm show ?thesis by auto
    next
      case False
      with that s s' len show ?thesis by (auto simp: state_ok_def)
    qed
    then have "expanded_step b (?ks b) s s'"
      using holds s s' by (simp add: expanded_step_def tn_holds_enabled state_ok_def)
    then obtain t where tb: "t \<in> set (map drop_noops (expand_cube b (?ks b)))" and t: "tn_enabled s t" "s' = tn_target t s"
      using expand_step_base [OF su fits b(2) s] by blast
    note member = expanded_member [OF su b(2) tb]
    have "feval ((!) s) (tn_slow_guard b)" using holds by (simp add: tn_holds_def)
    then have "tn_slow_guard b \<noteq> f_always_false" by auto
    with b(1) tb have mem: "t \<in> set (expand_transitions ho ix trs0)" unfolding expanded_transitions_iff by blast
    then obtain keep where keep: "should_keep ax t = Inr keep" using filter_axioms_set(2) [OF trs] by blast
    then have "keep" using should_keep_value [OF member(1) t(1) _ ax keep] indexed_below [OF fits member(2)] t(2) len ax' by simp
    with keep mem have "t \<in> set trs" using filter_axioms_set(1) [OF trs] by simp
    with t show "\<exists>t\<in>set trs. tn_enabled s t \<and> s' = tn_target t s" by blast
  qed
qed

end
