(* ===== verification/Bounded_Set_Runs.thy ===== *)
theory Bounded_Set_Runs
  imports Bounded_Set_Steps
begin

text \<open>
  The runs of the translated program (\<^verbatim>\<open>bounded/src/set.rs\<close>) and the executions of the module's
  transition system correspond: every execution, read as a sequence of bit arrays, is a run of the
  program, and every run is the bit arrays of an execution.
\<close>

section \<open>Traces as states\<close>

definition trace_bits :: "indices \<Rightarrow> fo_trace \<Rightarrow> nat \<Rightarrow> nat \<Rightarrow> bool" where
  "trace_bits ix tr i k \<longleftrightarrow> (\<exists>r es b. entry ix r es k b \<and> trace_valuation tr i r 0 es)"

definition trace_state :: "indices \<Rightarrow> fo_trace \<Rightarrow> nat \<Rightarrow> bounded_state" where
  "trace_state ix tr i = map (trace_bits ix tr i) [0..<state_len]"

lemma trace_state_ok: "state_ok ix (trace_state ix tr i)"
  by (auto simp: state_ok_def trace_state_def trace_bits_def is_index_def)

lemma trace_bits_entry:
  assumes "set_setup it ho sig u ix" and "entry ix r es k b"
  shows "trace_bits ix tr i k \<longleftrightarrow> trace_valuation tr i r 0 es"
  using entry_facts(6) [OF assms] assms(2) unfolding trace_bits_def by blast

lemma trace_bits_agree:
  assumes "set_setup it ho sig u ix"
  shows "values_agree ix (trace_valuation tr i) (trace_bits ix tr i) (trace_bits ix tr (Suc i))"
  unfolding values_agree_def
proof (intro allI impI)
  fix f es k assume "indices_get ix f 0 es = Some k"
  with entry_facts(2) [OF assms] obtain b where "entry ix f es k b" by blast
  with trace_bits_entry [OF assms this] show "trace_valuation tr i f 0 es = trace_bits ix tr i k
      \<and> trace_valuation tr i f 1 es = trace_bits ix tr (Suc i) k"
    by (simp add: trace_valuation_def)
qed

lemma trace_state_entry:
  assumes "set_setup it ho sig u ix" and "fits ix" and "entry ix r es k b"
  shows "trace_state ix tr i ! k \<longleftrightarrow> trace_valuation tr i r 0 es"
proof -
  have "k < state_len" using assms(2,3) by (auto simp: fits_def is_index_def)
  then show ?thesis using trace_bits_entry [OF assms(1,3)] by (simp add: trace_state_def)
qed

text \<open>\<open>follows\<close>: a sequence of states gives the indexed variables the values they have along a trace.\<close>

definition follows :: "indices \<Rightarrow> fo_trace \<Rightarrow> (nat \<Rightarrow> bounded_state) \<Rightarrow> bool" where
  "follows ix tr sts \<longleftrightarrow>
     (\<forall>i r es k b. entry ix r es k b \<longrightarrow> (sts i ! k \<longleftrightarrow> trace_valuation tr i r 0 es))"

lemma follows_trace_state: "set_setup it ho sig u ix \<Longrightarrow> fits ix \<Longrightarrow> follows ix tr (trace_state ix tr)"
  using trace_state_entry by (auto simp: follows_def)

lemma follows_agree:
  assumes "set_setup it ho sig u ix" and "follows ix tr sts"
  shows "values_agree ix (trace_valuation tr i) ((!) (sts i)) ((!) (sts (Suc i)))"
  using assms(2) entry_facts(2) [OF assms(1)] trace_valuation_def
  by (fastforce simp: values_agree_def follows_def trace_valuation_def)

text \<open>The trace of a sequence of states, which stays in the last one.\<close>

definition state_at :: "bounded_state list \<Rightarrow> nat \<Rightarrow> bounded_state" where
  "state_at ss i = ss ! min i (length ss - 1)"

definition states_trace :: "universe_bounds \<Rightarrow> indices \<Rightarrow> bounded_state list \<Rightarrow> fo_trace" where
  "states_trace u ix ss =
     \<lparr>tr_card = (\<lambda>s. case bounds_cardinality u s of Some c \<Rightarrow> c | None \<Rightarrow> 0),
      tr_fun = (\<lambda>i f es. of_bool (case indices_get ix f 0 es of Some k \<Rightarrow> state_at ss i ! k | None \<Rightarrow> False))\<rparr>"

lemma follows_states_trace: "set_setup it ho sig u ix \<Longrightarrow> follows ix (states_trace u ix ss) (state_at ss)"
  using entry_facts(1) by (auto simp: follows_def states_trace_def trace_valuation_def)

definition frame_constant :: "indices \<Rightarrow> bounded_state list \<Rightarrow> bool" where
  "frame_constant ix ss \<longleftrightarrow>
     (\<forall>i j k. is_index ix k \<longrightarrow> \<not> mutable_index ix k \<longrightarrow> state_at ss i ! k = state_at ss j ! k)"

lemma not_mutable_entry:
  assumes "set_setup it ho sig u ix" and "entry ix r es k b"
  shows "mutable_index ix k \<longleftrightarrow> b"
proof
  assume "mutable_index ix k"
  then obtain r' es' where "entry ix r' es' k True" unfolding mutable_index_def by blast
  from entry_facts(6) [OF assms this] show b by simp
next
  assume b
  with assms(2) show "mutable_index ix k" unfolding mutable_index_def by auto
qed

lemma states_trace_frame:
  assumes su: "set_setup it ho sig u ix" and frame: "frame_constant ix ss"
  shows "relation_frame (sig_relations sig) (states_trace u ix ss)"
  unfolding relation_frame_def
proof (intro allI impI ext)
  fix f i j es assume imm: "\<not> list_ex (\<lambda>r. rd_name r = f \<and> rd_mutable r) (sig_relations sig)"
  show "tr_fun (states_trace u ix ss) i f es = tr_fun (states_trace u ix ss) j f es"
  proof (cases "indices_get ix f 0 es")
    case None
    then show ?thesis by (simp add: states_trace_def)
  next
    case (Some k)
    with entry_facts(2) [OF su] obtain b where e: "entry ix f es k b" by blast
    from entry_facts(4) [OF su e] imm have "\<not> b" by (auto simp: index_slot_def list_ex_iff)
    with not_mutable_entry [OF su e] have "\<not> mutable_index ix k" by simp
    moreover have "is_index ix k" using e unfolding is_index_def by blast
    ultimately have "state_at ss i ! k = state_at ss j ! k" using frame unfolding frame_constant_def by blast
    with Some show ?thesis by (simp add: states_trace_def)
  qed
qed

lemma states_trace_ok:
  assumes su: "set_setup it ho sig u ix" and frame: "frame_constant ix ss"
  shows "system_ok sig u (states_trace u ix ss)"
proof -
  note D = set_setupD [OF su]
  have "rd_sort d = Bool" if "decl_of sig f = Some d" for f d
    using decl_of_mem [OF that] D(4) by (simp add: bool_relations_def)
  then have "trace_ok sig (states_trace u ix ss)"
    by (auto simp: trace_ok_def states_trace_def bounds_cardinality_def)
  moreover have "\<not> list_ex (\<lambda>r. rd_name r = f \<and> rd_mutable r) (sig_relations sig)" if "is_immutable sig f" for f
    using that is_immutable_decl [OF D(2)] by (auto simp: list_ex_iff)
  with states_trace_frame [OF assms] have "immutable_frame sig (states_trace u ix ss)"
    unfolding relation_frame_def immutable_frame_def by blast
  ultimately show ?thesis by (simp add: system_ok_def bounds_agree_def states_trace_def)
qed

section \<open>The parts of a translated system\<close>

definition system_run :: "destructured_module \<Rightarrow> nat \<Rightarrow> fo_trace \<Rightarrow> bool" where
  "system_run d n tr \<longleftrightarrow>
     (\<forall>t\<in>set (dm_inits d). holds tr 0 Map.empty t)
     \<and> (\<forall>i\<le>n. \<forall>t\<in>set (dm_axioms d). holds tr i Map.empty t)
     \<and> (\<forall>i<n. \<forall>t\<in>set (dm_transitions d). holds tr i Map.empty t)"

lemma enumerate_term_value:
  assumes "itertools_doc it" and "system_ok sig u tr" and "bool_relations sig"
    and "term_sort sig Map.empty t = Some Bool" "no_past t" "fresh_binders (sig_relations sig) t"
    and "enumerate_term it sig u t = Some (Inr e)"
  shows "eeval (trace_valuation tr i) e \<longleftrightarrow> holds tr i Map.empty t"
proof -
  have e: "enumerate_quantifiers it t sig u = Some (Inr e)"
    using assms(7) by (cases "enumerate_quantifiers it t sig u") (simp_all add: enumerate_term_def split: sum.split_asm)
  have "teval tr i Map.empty t = of_bool (eeval (trace_valuation tr i) e)"
    by (rule enumerate_quantifiers_value [OF assms(1) _ _ assms(3) _ assms(4-6) e])
      (use assms(2) in \<open>simp_all add: system_ok_def\<close>)
  then show ?thesis by simp
qed

text \<open>The formula of a conjunction of terms holds in a state exactly when the terms hold at that point
  of a trace.\<close>

lemma translate_formula_value:
  assumes su: "set_setup it ho sig u ix" and "system_ok sig u tr" and "follows ix tr sts"
    and ts: "\<forall>t\<in>set ts. term_sort sig Map.empty t = Some Bool \<and> no_past t \<and> fresh_binders (sig_relations sig) t"
    and f: "translate_formula it sig u ix (term_and ts) = Some (Inr f)"
  shows "feval ((!) (sts i)) f \<longleftrightarrow> (\<forall>t\<in>set ts. holds tr i Map.empty t)"
proof -
  from f obtain e where e: "enumerate_term it sig u (term_and ts) = Some (Inr e)"
    "enumerated_to_formula ix e = Some (Inr f)"
    by (auto simp: translate_formula_def bind_pr_Inr)
  from enumerated_to_formula_value [OF follows_agree [OF su assms(3)] e(2)]
    translate_and [OF set_setupD(1) [OF su] assms(2) set_setupD(4) [OF su] ts e(1)]
  show ?thesis by simp
qed

text \<open>What a successful translation is made of. Without a transition formula there are no steps.\<close>

lemma translate_systemE:
  assumes "translate_system ho it lib sig u ix d = Some (Inr p)"
  obtains ax trs0 where
    "translate_inits ho it lib sig u ix (dm_inits d @ dm_axioms d) = Some (Inr (bp_inits p))"
    and "translate_transitions it sig u ix (dm_transitions d) = Some (Inr trs0)"
    and "translate_formula it sig u ix (term_and (mutable_axioms d (sig_relations sig))) = Some (Inr ax)"
    and "filter_axioms ax (expand_transitions ho ix trs0) = Inr (bp_trs p)"
    and "translate_formula it sig u ix (term_and (map (\<lambda>p. sp_x (sf_safety p)) (dm_proofs d))) = Some (Inr (bp_safe p))"
    and "list_all (transition_sane sig (indices_to_sets ho ix)) (bp_trs p)"
  using assms
  by (auto simp: translate_system_def bind_pr_Inr Let_def split: if_splits)

lemma translate_transitionsE:
  assumes "translate_transitions it sig u ix ts = Some (Inr trs0)"
  obtains "ts = []" "trs0 = []"
  | t e where "ts = [t]" "enumerate_term it sig u t = Some (Inr e)"
      "collect_presult (map (enumerated_to_transition ix) (get_or e)) = Some (Inr trs0)"
  using assms by (auto simp: translate_transitions_def bind_pr_Inr split: list.splits)

lemma eeval_transition:
  assumes trs0: "collect_presult (map (enumerated_to_transition ix) (get_or e)) = Some (Inr trs0)"
    and "values_agree ix v \<beta> \<gamma>" and "values_agree ix w \<beta> \<gamma>"
  shows "eeval v e = eeval w e"
proof -
  have disj: "list_all2 (\<lambda>d b. enumerated_to_transition ix d = Some (Inr b)) (get_or e) trs0"
    by (rule collect_presult_map_InrD [OF trs0])
  have "\<exists>b. enumerated_to_transition ix d = Some (Inr b)" if "d \<in> set (get_or e)" for d
    using disj that unfolding list_all2_conv_all_nth by (metis in_set_conv_nth)
  then have "eeval v d = eeval w d" if "d \<in> set (get_or e)" for d
    using that enumerated_to_transition_value [OF assms(2)] enumerated_to_transition_value [OF assms(3)] by metis
  then show ?thesis using get_or_ex [of v e] get_or_ex [of w e] by blast
qed

section \<open>Initial states and steps\<close>

lemma follows_frame:
  assumes su: "set_setup it ho sig u ix" and "system_ok sig u tr" and "follows ix tr sts"
    and "is_index ix k" and "\<not> mutable_index ix k"
  shows "sts i ! k = sts j ! k"
proof -
  from assms(4) obtain r es b where e: "entry ix r es k b" unfolding is_index_def by blast
  from not_mutable_entry [OF su e] assms(5) have b: "\<not> b" by simp
  from entry_facts(4) [OF su e] obtain d where d: "index_slot sig u d es" "rd_name d = r" "rd_mutable d = b" by blast
  then have "is_immutable sig r"
    using is_immutable_decl [OF set_setupD(2) [OF su], of d] b by (simp add: index_slot_def)
  then have "tr_fun tr i r = tr_fun tr j r"
    using assms(2) by (intro immutable_frameD) (simp_all add: system_ok_def)
  then have "trace_valuation tr i r 0 es = trace_valuation tr j r 0 es" by (simp add: trace_valuation_def)
  with assms(3) e show ?thesis unfolding follows_def by blast
qed

lemma init_iff:
  assumes su: "set_setup it ho sig u ix" and doc: "bdd_doc (ix_num_vars ix) lib den"
    and chk: "checkable sig d" and p: "translate_system ho it lib sig u ix d = Some (Inr p)"
    and sys: "system_ok sig u tr" 
  shows "fits ix \<Longrightarrow> follows ix tr sts \<Longrightarrow> state_ok ix (sts 0)
      \<Longrightarrow> sts 0 \<in> set (bp_inits p) \<longleftrightarrow> (\<forall>t\<in>set (dm_inits d @ dm_axioms d). holds tr 0 Map.empty t)"
    and "\<forall>t\<in>set (dm_inits d @ dm_axioms d). holds tr 0 Map.empty t \<Longrightarrow> fits ix"
    and "s \<in> set (bp_inits p) \<Longrightarrow> fits ix \<and> state_ok ix s"
proof -
  have i: "translate_inits ho it lib sig u ix (dm_inits d @ dm_axioms d) = Some (Inr (bp_inits p))"
    by (rule translate_systemE [OF p])
  then obtain e where e: "enumerate_term it sig u (term_and (dm_inits d @ dm_axioms d)) = Some (Inr e)"
    by (auto simp: translate_inits_def bind_pr_Inr)
  note st = translate_inits_states [OF su doc e i]
  have holds: "eeval (trace_valuation tr 0) e \<longleftrightarrow> (\<forall>t\<in>set (dm_inits d @ dm_axioms d). holds tr 0 Map.empty t)"
    by (rule translate_and [OF set_setupD(1) [OF su] sys set_setupD(4) [OF su] checkable_parts(1) [OF chk] e])
  note val = gets_defined_value [OF su _ st(1)]
  show "fits ix \<Longrightarrow> follows ix tr sts \<Longrightarrow> state_ok ix (sts 0)
      \<Longrightarrow> sts 0 \<in> set (bp_inits p) \<longleftrightarrow> (\<forall>t\<in>set (dm_inits d @ dm_axioms d). holds tr 0 Map.empty t)"
    using st(2) holds val [OF follows_agree [OF su]] by simp
  show "\<forall>t\<in>set (dm_inits d @ dm_axioms d). holds tr 0 Map.empty t \<Longrightarrow> fits ix"
    using st(4) holds val [OF trace_bits_agree [OF su]] by blast
  show "s \<in> set (bp_inits p) \<Longrightarrow> fits ix \<and> state_ok ix s"
    using st(2,3) by (cases "bp_inits p") auto
qed

text \<open>A step of the program, along a trace and from a state that satisfies the mutable axioms, is a
  step of the transition system to a state that satisfies them too.\<close>

lemma step_iff:
  assumes su: "set_setup it ho sig u ix" and fits: "fits ix" and chk: "checkable sig d"
    and p: "translate_system ho it lib sig u ix d = Some (Inr p)" and t: "dm_transitions d = [t]"
    and sys: "system_ok sig u tr" and fol: "follows ix tr sts"
    and ok: "state_ok ix (sts i)" "state_ok ix (sts (Suc i))"
    and ax: "\<forall>a\<in>set (mutable_axioms d (sig_relations sig)). holds tr i Map.empty a"
  shows "program_step p (sts i) (sts (Suc i)) \<longleftrightarrow>
    holds tr i Map.empty t \<and> (\<forall>a\<in>set (mutable_axioms d (sig_relations sig)). holds tr (Suc i) Map.empty a)"
proof -
  from p obtain axf trs0 where
    trs0: "translate_transitions it sig u ix (dm_transitions d) = Some (Inr trs0)"
    and axf: "translate_formula it sig u ix (term_and (mutable_axioms d (sig_relations sig))) = Some (Inr axf)"
    and trs: "filter_axioms axf (expand_transitions ho ix trs0) = Inr (bp_trs p)"
    and sane: "list_all (transition_sane sig (indices_to_sets ho ix)) (bp_trs p)"
    by (rule translate_systemE)
  from trs0 t obtain e where e: "enumerate_term it sig u t = Some (Inr e)"
    and et: "collect_presult (map (enumerated_to_transition ix) (get_or e)) = Some (Inr trs0)"
    by (auto simp: translate_transitions_def bind_pr_Inr)
  have ma: "\<forall>a\<in>set (mutable_axioms d (sig_relations sig)).
      term_sort sig Map.empty a = Some Bool \<and> no_past a \<and> fresh_binders (sig_relations sig) a"
    and tr_t: "term_sort sig Map.empty t = Some Bool" "no_past t" "fresh_binders (sig_relations sig) t"
    using checkable_parts(2) [OF chk, of "sig_relations sig"] t by auto
  have ax_i: "feval ((!) (sts j)) axf \<longleftrightarrow> (\<forall>a\<in>set (mutable_axioms d (sig_relations sig)). holds tr j Map.empty a)" for j
    by (rule translate_formula_value [OF su sys fol ma axf])
  have "program_step p (sts i) (sts (Suc i)) \<longleftrightarrow> system_step ix e axf (sts i) (sts (Suc i))"
    unfolding program_step_def
    by (rule translated_steps [OF su fits et trs sane ok(1)]) (use ax ax_i in blast)
  also have "\<dots> \<longleftrightarrow> eeval (pair_valuation ix ((!) (sts i)) ((!) (sts (Suc i)))) e \<and> feval ((!) (sts (Suc i))) axf"
    using ok(2) follows_frame [OF su sys fol, of _ "Suc i" i] by (auto simp: system_step_def)
  also have "eeval (pair_valuation ix ((!) (sts i)) ((!) (sts (Suc i)))) e \<longleftrightarrow> holds tr i Map.empty t"
    using eeval_transition [OF et values_agree_pair follows_agree [OF su fol]]
      enumerate_term_value [OF set_setupD(1) [OF su] sys set_setupD(4) [OF su] tr_t e] by blast
  finally show ?thesis using ax_i by simp
qed

section \<open>Executions are runs\<close>

lemma trace_run:
  assumes su: "set_setup it ho sig u ix" and doc: "bdd_doc (ix_num_vars ix) lib den"
    and chk: "checkable sig d" and p: "translate_system ho it lib sig u ix d = Some (Inr p)"
    and t: "dm_transitions d = [t]" and sys: "system_ok sig u tr"
  shows "system_run d n tr \<Longrightarrow> fits ix \<and> program_run p (map (trace_state ix tr) [0..<Suc n])"
proof (induction n)
  case 0
  then have holds: "\<forall>t\<in>set (dm_inits d @ dm_axioms d). holds tr 0 Map.empty t"
    by (auto simp: system_run_def)
  have fits: "fits ix" by (rule init_iff(2) [OF su doc chk p sys holds])
  with init_iff(1) [OF su doc chk p sys fits follows_trace_state [OF su fits] trace_state_ok] holds
  show ?case by (simp add: run_init)
next
  case (Suc n)
  then have "system_run d n tr" by (auto simp: system_run_def)
  with Suc.IH have fits: "fits ix" and run: "program_run p (map (trace_state ix tr) [0..<Suc n])" by auto
  have "program_step p (trace_state ix tr n) (trace_state ix tr (Suc n))"
    using Suc.prems step_iff [OF su fits chk p t sys follows_trace_state [OF su fits] trace_state_ok trace_state_ok]
    by (auto simp: system_run_def mutable_axioms_def t)
  with program_run_snoc [OF run] fits show ?case by simp
qed

section \<open>Runs are executions\<close>

lemma program_run_shape:
  "program_run p ss \<Longrightarrow> ss \<noteq> [] \<and> ss ! 0 \<in> set (bp_inits p)
    \<and> (\<forall>i. Suc i < length ss \<longrightarrow> program_step p (ss ! i) (ss ! Suc i))"
proof (induction rule: program_run.induct)
  case (run_step ss s t)
  have "program_step p ((ss @ [s, t]) ! i) ((ss @ [s, t]) ! Suc i)" if i: "Suc i < length (ss @ [s, t])" for i
  proof (cases "Suc i < length (ss @ [s])")
    case True
    with run_step.IH have "program_step p ((ss @ [s]) ! i) ((ss @ [s]) ! Suc i)" by blast
    moreover have "(ss @ [s, t]) ! i = (ss @ [s]) ! i" "(ss @ [s, t]) ! Suc i = (ss @ [s]) ! Suc i"
      using True by (auto simp: nth_append less_Suc_eq)
    ultimately show ?thesis by simp
  next
    case False
    with i have "i = length ss" by simp
    with run_step.hyps show ?thesis by (simp add: nth_append)
  qed
  moreover have "(ss @ [s, t]) ! 0 = (ss @ [s]) ! 0" by (cases ss) auto
  ultimately show ?case using run_step.IH by simp
qed simp

lemma single_frame: "frame_constant ix [s]"
  by (simp add: frame_constant_def state_at_def)

text \<open>Every state of a run is proper and satisfies the mutable axioms.\<close>

lemma run_states:
  assumes su: "set_setup it ho sig u ix" and doc: "bdd_doc (ix_num_vars ix) lib den"
    and chk: "checkable sig d" and p: "translate_system ho it lib sig u ix d = Some (Inr p)"
    and run: "program_run p ss"
    and axf: "translate_formula it sig u ix (term_and (mutable_axioms d (sig_relations sig))) = Some (Inr axf)"
  shows "i < length ss \<Longrightarrow> fits ix \<and> state_ok ix (ss ! i) \<and> feval ((!) (ss ! i)) axf
    \<and> (\<forall>k. is_index ix k \<longrightarrow> \<not> mutable_index ix k \<longrightarrow> ss ! i ! k = ss ! 0 ! k)"
proof (induction i)
  case 0
  let ?s = "ss ! 0"
  have s: "?s \<in> set (bp_inits p)" using program_run_shape [OF run] by blast
  note sys = states_trace_ok [OF su single_frame [of ix ?s]]
  from init_iff(3) [OF su doc chk p sys s] have fits: "fits ix" and ok: "state_ok ix ?s" by auto
  have at: "state_at [?s] i = ?s" for i by (simp add: state_at_def)
  note fol = follows_states_trace [OF su, of "[?s]"]
  have "\<forall>t\<in>set (dm_inits d @ dm_axioms d). holds (states_trace u ix [?s]) 0 Map.empty t"
    using init_iff(1) [OF su doc chk p sys fits fol] s ok by (simp add: at)
  then have "\<forall>a\<in>set (mutable_axioms d (sig_relations sig)). holds (states_trace u ix [?s]) 0 Map.empty a"
    by (auto simp: mutable_axioms_def)
  then have "feval ((!) (state_at [?s] 0)) axf"
    using translate_formula_value [OF su sys fol _ axf] checkable_parts(2) [OF chk, of "sig_relations sig"] by auto
  with fits ok at show ?case by simp
next
  case (Suc i)
  then have fits: "fits ix" and ok: "state_ok ix (ss ! i)" and ax: "feval ((!) (ss ! i)) axf" 
    and frame: "\<forall>k. is_index ix k \<longrightarrow> \<not> mutable_index ix k \<longrightarrow> ss ! i ! k = ss ! 0 ! k" by auto
  from program_run_shape [OF run] Suc.prems have step: "program_step p (ss ! i) (ss ! Suc i)" by blast
  from p obtain trs0 where
    trs0: "translate_transitions it sig u ix (dm_transitions d) = Some (Inr trs0)"
    and trs: "filter_axioms axf (expand_transitions ho ix trs0) = Inr (bp_trs p)"
    and sane: "list_all (transition_sane sig (indices_to_sets ho ix)) (bp_trs p)"
    by (rule translate_systemE) (use axf in simp)
  from trs0 show ?case
  proof (cases rule: translate_transitionsE)
    case 1
    with trs have "bp_trs p = []" by (simp add: expand_transitions_def filter_axioms_def)
    with step show ?thesis by (simp add: program_step_def)
  next
    case (2 t e)
    from translated_steps [OF su fits 2(3) trs sane ok ax] step have "system_step ix e axf (ss ! i) (ss ! Suc i)"
      unfolding program_step_def by blast
    with fits frame show ?thesis by (simp add: system_step_def)
  qed
qed

lemma run_trace:
  assumes su: "set_setup it ho sig u ix" and doc: "bdd_doc (ix_num_vars ix) lib den"
    and chk: "checkable sig d" and p: "translate_system ho it lib sig u ix d = Some (Inr p)"
    and run: "program_run p ss"
  shows "fits ix" and "system_ok sig u (states_trace u ix ss)"
    and "system_run d (length ss - 1) (states_trace u ix ss)" and "state_ok ix (state_at ss i)"
proof -
  let ?tr = "states_trace u ix ss"
  from p obtain axf trs0 where
    trs0: "translate_transitions it sig u ix (dm_transitions d) = Some (Inr trs0)"
    and axf: "translate_formula it sig u ix (term_and (mutable_axioms d (sig_relations sig))) = Some (Inr axf)"
    and trs: "filter_axioms axf (expand_transitions ho ix trs0) = Inr (bp_trs p)"
    by (rule translate_systemE)
  note shape = program_run_shape [OF run]
  note states = run_states [OF su doc chk p run axf]
  have at: "state_at ss i = ss ! min i (length ss - 1)" "min i (length ss - 1) < length ss" for i
    using shape by (cases ss; simp add: state_at_def min_def)+
  from states [of 0] shape show fits: "fits ix" by simp
  show ok: "state_ok ix (state_at ss i)" for i using states [OF at(2)] by (simp add: at(1))
  have "frame_constant ix ss"
    using states [OF at(2)] by (simp add: frame_constant_def at(1))
  note sys = states_trace_ok [OF su this] and frame = states_trace_frame [OF su this]
  show "system_ok sig u ?tr" by (rule sys)
  note fol = follows_states_trace [OF su, of ss]
  have "state_at ss 0 = ss ! 0" by (simp add: state_at_def)
  with init_iff(1) [OF su doc chk p sys fits fol ok] shape
  have init: "\<forall>t\<in>set (dm_inits d @ dm_axioms d). holds ?tr 0 Map.empty t" by simp
  have mut: "\<forall>a\<in>set (mutable_axioms d (sig_relations sig)). holds ?tr i Map.empty a" for i
    using translate_formula_value [OF su sys fol _ axf, of i] checkable_parts(2) [OF chk, of "sig_relations sig"]
      states [OF at(2), of i] by (auto simp: at(1))
  have axioms: "holds ?tr i Map.empty t" if "t \<in> set (dm_axioms d)" for i t
  proof (cases "contains_mutable_relations t (sig_relations sig)")
    case True
    with mut that show ?thesis by (auto simp: mutable_axioms_def)
  next
    case False
    moreover have "no_past t" using checkable_parts(1) [OF chk] that by auto
    ultimately have "teval ?tr i Map.empty t = teval ?tr 0 Map.empty t" by (rule immutable_term_constant [OF frame])
    with init that show ?thesis by simp
  qed
  have "holds ?tr i Map.empty t" if i: "i < length ss - 1" and t: "t \<in> set (dm_transitions d)" for i t
    using trs0
  proof (cases rule: translate_transitionsE)
    case 1
    with t show ?thesis by simp
  next
    case (2 t' e)
    with t have "dm_transitions d = [t]" by simp
    note step = step_iff [OF su fits chk p this sys fol ok ok mut, of i]
    have "program_step p (ss ! i) (ss ! Suc i)" using shape i by simp
    with i have "program_step p (state_at ss i) (state_at ss (Suc i))" by (simp add: state_at_def)
    with step show ?thesis by blast
  qed
  with init axioms show "system_run d (length ss - 1) ?tr" by (simp add: system_run_def)
qed

end
