(* ===== verification/Bounded_Set_Check.thy ===== *)
theory Bounded_Set_Check
  imports Bounded_Set_Runs
begin

text \<open>
  Correctness of the explicit-state checker \<^verbatim>\<open>bounded/src/set.rs\<close> (\<open>check\<close>): its counterexamples
  are executions of the module's transition system that violate a safety property.
\<close>

section \<open>A successful translation\<close>

text \<open>The documented behaviour of the libraries that one run of the checker uses: the iterator
  adaptors, the BDD library at every number of variables, and the hash maps of the indices.\<close>

definition set_libraries_doc ::
  "hash_orders \<Rightarrow> itertools \<Rightarrow> (nat \<Rightarrow> 'b bdd_lib) \<Rightarrow> (nat \<Rightarrow> 'b \<Rightarrow> (nat \<Rightarrow> bool) \<Rightarrow> bool) \<Rightarrow> signature \<Rightarrow> universe_bounds \<Rightarrow> bool" where
  "set_libraries_doc ho it libs den sig u \<longleftrightarrow>
     itertools_doc it \<and> hash_children_doc ho \<and> (\<forall>n. bdd_doc n (libs n) (den n))
     \<and> (\<forall>ix. indices_new it sig u 1 = Some ix \<longrightarrow> hash_indices_doc ho ix)"

lemma set_translateE:
  assumes lib: "set_libraries_doc ho it libs den (mod_signature m) u" and names: "plain_names (mod_signature m)"
    and ext: "extract_module m = Some (Inr d)" and tr: "set_translate ho it libs m u = Some (Inr (p, ix))"
  obtains "set_setup it ho (mod_signature m) u ix" "bdd_doc (ix_num_vars ix) (libs (ix_num_vars ix)) (den (ix_num_vars ix))"
    "translate_system ho it (libs (ix_num_vars ix)) (mod_signature m) u ix d = Some (Inr p)"
    "hash_children_doc ho" "itertools_doc it"
proof -
  from tr have rels: "\<not> list_ex (\<lambda>r. rd_sort r \<noteq> Bool) (sig_relations (mod_signature m))"
    and new: "indices_new it (mod_signature m) u 1 = Some ix"
    and sys: "translate_system ho it (libs (ix_num_vars ix)) (mod_signature m) u ix d = Some (Inr p)"
    using ext by (auto simp: set_translate_def Let_def bind_pr_Inr split: if_splits option.splits)
  have "bool_relations (mod_signature m)" using rels by (simp add: bool_relations_def list_ex_iff)
  with lib names new sys that show thesis by (simp add: set_libraries_doc_def set_setup_def)
qed

lemma index_slot_model:
  assumes su: "set_setup it ho sig u ix" and fits: "fits ix" and m: "state_model it ix s = Some mo"
    and slot: "index_slot sig u r es"
  shows "\<exists>k b. entry ix (rd_name r) es k b \<and> model_value mo (rd_name r) es = Some (of_bool (s ! k))"
proof -
  note D = set_setupD [OF su]
  have "Option.bind (indices_get ix f 0 xs) (\<lambda>i. map_option of_bool (state_get s i))
      = Option.bind (indices_get ix f 0 xs) (\<lambda>i. Some (of_bool (s ! i) :: nat))" for f xs
    using single_copy(2) [OF su, of f 0 xs] fits by (cases "indices_get ix f 0 xs") (auto simp: state_get_def fits_def)
  then have "indices_model it ix 0 (\<lambda>i. Some (of_bool (s ! i))) = Some mo"
    using m unfolding state_model_def indices_model_def by (simp only:)
  then have "model_value mo (rd_name r) es = map_option (\<lambda>i. of_bool (s ! i)) (indices_get ix (rd_name r) 0 es)"
    using indices_model_value [OF D(1,3,5,4) _ slot, of 0 "\<lambda>i. of_bool (s ! i)" "ix_num_vars ix" mo] by simp
  moreover from entry_facts(5) [OF su slot] obtain k where "entry ix (rd_name r) es k (rd_mutable r)" by blast
  ultimately show ?thesis using entry_facts(1) [OF su] by fastforce
qed

section \<open>Counterexamples\<close>

text \<open>The time points whose models are reported: all of them, or only the last one when traces are
  compressed.\<close>

definition reported_times :: "trace_compression \<Rightarrow> nat \<Rightarrow> nat list" where
  "reported_times c n = (case c of CompressNo \<Rightarrow> [0..<n + 1] | CompressYes \<Rightarrow> [n])"

definition within_steps :: "nat option \<Rightarrow> nat \<Rightarrow> bool" where
  "within_steps md n \<longleftrightarrow> (case md of None \<Rightarrow> True | Some m \<Rightarrow> n \<le> m)"

lemma trace_models_times:
  assumes "trace_models it ix c (trace_of c ss) = Some ms" and "ss \<noteq> []"
  shows "list_all2 (\<lambda>i mo. i < length ss \<and> state_model it ix (ss ! i) = Some mo) (reported_times c (length ss - 1)) ms"
proof (cases c)
  case CompressYes
  with assms show ?thesis
    by (auto simp: reported_times_def last_conv_nth split: option.splits)
next
  case CompressNo
  with assms have those: "those (map (state_model it ix) ss) = Some ms" by simp
  from assms(2) have "length ss - 1 + 1 = length ss" by (cases ss) auto
  with those_map_SomeD [OF those] CompressNo show ?thesis
    by (simp add: reported_times_def list_all2_conv_all_nth)
qed

lemma within_depth_steps: "ss \<noteq> [] \<Longrightarrow> within_depth md ss \<longleftrightarrow> within_steps md (length ss - 1)"
  by (cases ss) (auto simp: within_depth_def within_steps_def split: option.split)

lemma set_checkE:
  assumes "set_check ho it libs m u md c = Some (Inr a)"
  obtains p ix r where "set_translate ho it libs m u = Some (Inr (p, ix))"
    and "interpret_program ho it p md c ix = Some r"
    and "r = SearchUnknown \<and> a = Unknown \<or> r = SearchConvergence \<and> a = Convergence ()
      \<or> (\<exists>trace ms. r = SearchCounterexample trace \<and> a = Counterexample ms \<and> trace_models it ix c trace = Some ms)"
proof -
  from assms obtain p ix where tr: "set_translate ho it libs m u = Some (Inr (p, ix))"
    and rest: "(case interpret_program ho it p md c ix of None \<Rightarrow> None
       | Some SearchUnknown \<Rightarrow> Some (Inr Unknown)
       | Some SearchConvergence \<Rightarrow> Some (Inr (Convergence ()))
       | Some (SearchCounterexample trace) \<Rightarrow>
           map_option (\<lambda>models. Inr (Counterexample models)) (trace_models it ix c trace)) = (Some (Inr a) :: (checker_error + unit checker_answer) option)"
    by (auto simp: set_check_def bind_pr_Inr)
  from rest obtain r where r: "interpret_program ho it p md c ix = Some r"
    by (cases "interpret_program ho it p md c ix") auto
  show thesis by (rule that [OF tr r]) (use rest r in \<open>cases r; auto\<close>)
qed

text \<open>The states of the trace that the search returns, read back as an execution.\<close>

lemma counterexample_run:
  assumes "set_libraries_doc ho it libs den (mod_signature m) u" and "plain_names (mod_signature m)"
    and "extract_module m = Some (Inr d)" and "checkable (mod_signature m) d"
    and "set_check ho it libs m u md c = Some (Inr (Counterexample ms))"
  shows "\<exists>n tr. system_ok (mod_signature m) u tr \<and> system_run d n tr \<and> unsafe_at d n tr \<and> within_steps md n
    \<and> list_all2 (\<lambda>i mo. \<forall>r es. index_slot (mod_signature m) u r es
         \<longrightarrow> model_value mo (rd_name r) es = Some (tr_fun tr i (rd_name r) es)) (reported_times c n) ms"
proof -
  let ?sig = "mod_signature m"
  from assms(5) obtain p ix trace where tr: "set_translate ho it libs m u = Some (Inr (p, ix))"
    and search: "interpret_program ho it p md c ix = Some (SearchCounterexample trace)"
    and ms: "trace_models it ix c trace = Some ms"
    by (rule set_checkE) auto
  from set_translateE [OF assms(1-3) tr] have su: "set_setup it ho ?sig u ix"
    and doc: "bdd_doc (ix_num_vars ix) (libs (ix_num_vars ix)) (den (ix_num_vars ix))"
    and p: "translate_system ho it (libs (ix_num_vars ix)) ?sig u ix d = Some (Inr p)"
    and children: "hash_children_doc ho" by blast+
  from search_counterexample [OF children search] obtain ss where run: "program_run p ss"
    and within: "within_depth md ss" and trace: "trace = trace_of c ss"
    and bad: "\<not> feval ((!) (last ss)) (bp_safe p)" by blast
  have ne: "ss \<noteq> []" by (rule program_run_nonempty [OF run])
  let ?n = "length ss - 1" and ?tr = "states_trace u ix ss"
  note rt = run_trace [OF su doc assms(4) p run]
  note fol = follows_states_trace [OF su, of ss]
  have last: "state_at ss ?n = last ss" using ne by (simp add: state_at_def last_conv_nth)
  have safe: "translate_formula it ?sig u ix (term_and (map (\<lambda>p. sp_x (sf_safety p)) (dm_proofs d))) = Some (Inr (bp_safe p))"
    by (rule translate_systemE [OF p])
  from translate_formula_value [OF su rt(2) fol checkable_parts(3) [OF assms(4)] safe, of ?n, unfolded last] bad
  have unsafe: "unsafe_at d ?n ?tr" by (auto simp: unsafe_at_def)
  have "list_all2 (\<lambda>i mo. \<forall>r es. index_slot ?sig u r es
         \<longrightarrow> model_value mo (rd_name r) es = Some (tr_fun ?tr i (rd_name r) es)) (reported_times c ?n) ms"
  proof (rule list_all2_mono [OF trace_models_times [OF ms [unfolded trace] ne]], intro allI impI)
    fix i mo r es assume i: "i < length ss \<and> state_model it ix (ss ! i) = Some mo" and slot: "index_slot ?sig u r es"
    then obtain k b where e: "entry ix (rd_name r) es k b"
      and val: "model_value mo (rd_name r) es = Some (of_bool (ss ! i ! k))"
      using index_slot_model [OF su rt(1) _ slot] by blast
    have "min i (length ss - 1) = i" using i by (intro min_absorb1) linarith
    then have "state_at ss i = ss ! i" by (simp add: state_at_def)
    with val entry_facts(1) [OF su e] show "model_value mo (rd_name r) es = Some (tr_fun ?tr i (rd_name r) es)"
      by (simp add: states_trace_def)
  qed
  with rt unsafe within within_depth_steps [OF ne] show ?thesis by blast
qed

end
