(* ===== verification/Fly_Symmetry.thy ===== *)
theory Fly_Symmetry
  imports Fly_Trace
begin

text \<open>
  Terms cannot tell isomorphic traces apart: renaming the elements of every sort by a bijection
  (booleans stay) renames the values of terms. This is what the explicit-state checker relies on
  when it explores one state of every set of isomorphic ones.
\<close>

definition isomorphic :: "signature \<Rightarrow> (sort \<Rightarrow> nat \<Rightarrow> nat) \<Rightarrow> fo_trace \<Rightarrow> fo_trace \<Rightarrow> bool" where
  "isomorphic sig \<pi> tr tr' \<longleftrightarrow>
     tr_card tr' = tr_card tr \<and> \<pi> Bool = id
     \<and> (\<forall>s. bij_betw (\<pi> s) {..<tr_card tr s} {..<tr_card tr s})
     \<and> (\<forall>i f d vs. decl_of sig f = Some d
           \<longrightarrow> list_all2 (\<lambda>v s. v < tr_card tr s) vs (rd_args d)
           \<longrightarrow> tr_fun tr' i f (map2 \<pi> (rd_args d) vs) = \<pi> (rd_sort d) (tr_fun tr i f vs))"

definition renamed :: "(sort \<Rightarrow> nat \<Rightarrow> nat) \<Rightarrow> sort_context \<Rightarrow> assignment \<Rightarrow> assignment \<Rightarrow> bool" where
  "renamed \<pi> \<Gamma> a a' \<longleftrightarrow> (\<forall>x. a' x = (case \<Gamma> x of None \<Rightarrow> None | Some s \<Rightarrow> map_option (\<pi> s) (a x)))"

lemma isomorphicD:
  assumes "isomorphic sig \<pi> tr tr'"
  shows "tr_card tr' = tr_card tr" and "\<pi> Bool = id" and "bij_betw (\<pi> s) {..<tr_card tr s} {..<tr_card tr s}"
    and "decl_of sig f = Some d \<Longrightarrow> list_all2 (\<lambda>v s. v < tr_card tr s) vs (rd_args d)
      \<Longrightarrow> tr_fun tr' i f (map2 \<pi> (rd_args d) vs) = \<pi> (rd_sort d) (tr_fun tr i f vs)"
  using assms by (auto simp: isomorphic_def)

lemma renamed_empty [simp]: "renamed \<pi> Map.empty Map.empty Map.empty"
  by (simp add: renamed_def)

lemma renamed_upds:
  "\<lbrakk> renamed \<pi> \<Gamma> a a'; length ns = length ss; length vs = length ss \<rbrakk>
   \<Longrightarrow> renamed \<pi> (\<Gamma>(ns [\<mapsto>] ss)) (a(ns [\<mapsto>] vs)) (a'(ns [\<mapsto>] map2 \<pi> ss vs))"
proof (induction ns arbitrary: \<Gamma> a a' ss vs)
  case (Cons n ns)
  then obtain s ss' v vs' where ss: "ss = s # ss'" and vs: "vs = v # vs'" by (cases ss; cases vs) auto
  have m: "map2 \<pi> ss vs = \<pi> s v # map2 \<pi> ss' vs'" by (simp add: ss vs)
  have "renamed \<pi> (\<Gamma>(n \<mapsto> s)) (a(n \<mapsto> v)) (a'(n \<mapsto> \<pi> s v))"
    using Cons.prems(1) by (auto simp: renamed_def split: option.split)
  then show ?case unfolding m unfolding ss vs map_upds_Cons
    by (rule Cons.IH) (use Cons.prems(2,3) in \<open>simp_all add: ss vs\<close>)
qed simp

lemma tuples_renamed:
  assumes "\<And>s. bij_betw (\<pi> s) {..<c s} {..<c s}"
  shows "map2 \<pi> ss ` tuples (map c ss) = tuples (map c ss)"
proof (induction ss)
  case Nil
  then show ?case by (auto simp: tuples_iff)
next
  case (Cons s ss)
  have cons: "tuples (map c (s # ss)) = {v # vs |v vs. v \<in> {..<c s} \<and> vs \<in> tuples (map c ss)}"
    by (auto simp: tuples_iff list_all2_Cons2)
  have "map2 \<pi> (s # ss) ` tuples (map c (s # ss))
      = {v # vs |v vs. v \<in> \<pi> s ` {..<c s} \<and> vs \<in> map2 \<pi> ss ` tuples (map c ss)}"
    unfolding cons by (auto simp: image_iff) force+
  also have "\<dots> = tuples (map c (s # ss))"
    unfolding cons Cons.IH using assms [of s] by (simp add: bij_betw_def)
  finally show ?case .
qed

lemma quant_over_image: "quant_over q (f ` S) P = quant_over q S (\<lambda>x. P (f x))"
  by (cases q) auto

lemma teval_isomorphic:
  assumes iso: "isomorphic sig \<pi> tr tr'" and ok: "trace_ok sig tr"
  shows "\<lbrakk> term_sort sig \<Gamma> t = Some s; assign_ok tr \<Gamma> a; renamed \<pi> \<Gamma> a a' \<rbrakk>
    \<Longrightarrow> teval tr' i a' t = \<pi> s (teval tr i a t)"
proof (induction t arbitrary: \<Gamma> a a' s i)
  case (Literal b)
  then show ?case using isomorphicD(2) [OF iso] by simp
next
  case (Id x)
  show ?case
  proof (cases "\<Gamma> x")
    case None
    with Id obtain d where d: "decl_of sig x = Some d" "rd_args d = []" "s = rd_sort d"
      by (auto split: option.splits if_splits)
    from None Id.prems have "a x = None" "a' x = None" by (auto simp: assign_ok_def renamed_def)
    with d isomorphicD(4) [OF iso d(1), of "[]" i] show ?thesis by simp
  next
    case (Some s')
    with Id.prems have "s' = s" "\<exists>v. a x = Some v" by (auto simp: assign_ok_def)
    with Some Id.prems(3) show ?thesis by (auto simp: renamed_def)
  qed
next
  case (App f p args)
  then obtain d where d: "decl_of sig f = Some d" "s = rd_sort d"
    and sorts: "those (map (term_sort sig \<Gamma>) args) = Some (rd_args d)"
    by (auto split: option.splits if_splits)
  note all2 = those_term_sortD [OF sorts]
  have "list_all2 (\<lambda>v s. v < tr_card tr s) (map (teval tr i a) args) (rd_args d)"
    using all2 teval_sound [OF ok _ App.prems(2)] by (auto simp: list_all2_conv_all_nth)
  from isomorphicD(4) [OF iso d(1) this, of "i + p"]
  have "tr_fun tr' (i + p) f (map2 \<pi> (rd_args d) (map (teval tr i a) args))
      = \<pi> s (tr_fun tr (i + p) f (map (teval tr i a) args))" by (simp add: d(2))
  moreover have "map (teval tr' i a') args = map2 \<pi> (rd_args d) (map (teval tr i a) args)"
    using all2 App.IH App.prems(2,3) by (auto simp: list_eq_iff_nth_eq list_all2_conv_all_nth)
  ultimately show ?case by simp
next
  case (UnaryOp op t)
  show ?case
  proof (cases "op = Prime")
    case True
    with UnaryOp.prems UnaryOp.IH [of \<Gamma> s a a' "Suc i"] show ?thesis by simp
  next
    case False
    with UnaryOp.prems have s: "s = Bool" and t: "term_sort sig \<Gamma> t = Some Bool" by (auto split: if_splits)
    from UnaryOp.IH [OF t UnaryOp.prems(2,3)] isomorphicD(2) [OF iso]
    have "teval tr' j a' t = teval tr j a t" for j by simp
    with s False isomorphicD(2) [OF iso] show ?thesis by (cases op) simp_all
  qed
next
  case (BinOp op x y)
  from BinOp.prems have s: "s = Bool" by (auto split: if_splits)
  show ?case
  proof (cases "op = Equals \<or> op = NotEquals")
    case True
    with BinOp.prems(1) have "term_sort sig \<Gamma> x \<noteq> None \<and> term_sort sig \<Gamma> x = term_sort sig \<Gamma> y"
      by (cases "term_sort sig \<Gamma> y") (auto split: if_splits)
    then obtain r where r: "term_sort sig \<Gamma> x = Some r" "term_sort sig \<Gamma> y = Some r"
      unfolding not_None_eq by (metis (no_types))
    have "teval tr i a x < tr_card tr r" "teval tr i a y < tr_card tr r"
      using teval_sound [OF ok r(1) BinOp.prems(2)] teval_sound [OF ok r(2) BinOp.prems(2)] by blast+
    moreover have "inj_on (\<pi> r) {..<tr_card tr r}" using isomorphicD(3) [OF iso] by (simp add: bij_betw_def)
    ultimately have "\<pi> r (teval tr i a x) = \<pi> r (teval tr i a y) \<longleftrightarrow> teval tr i a x = teval tr i a y"
      by (auto simp: inj_on_eq_iff)
    then have "teval tr' i a' x = teval tr' i a' y \<longleftrightarrow> teval tr i a x = teval tr i a y"
      using BinOp.IH(1) [OF r(1) BinOp.prems(2,3)] BinOp.IH(2) [OF r(2) BinOp.prems(2,3)] by simp
    with True s isomorphicD(2) [OF iso] show ?thesis by auto
  next
    case False
    with BinOp.prems have xy: "term_sort sig \<Gamma> x = Some Bool" "term_sort sig \<Gamma> y = Some Bool"
      by (auto split: if_splits)
    have "teval tr' j a' x = teval tr j a x" "teval tr' j a' y = teval tr j a y" for j
      using BinOp.IH(1) [OF xy(1) BinOp.prems(2,3)] BinOp.IH(2) [OF xy(2) BinOp.prems(2,3)] isomorphicD(2) [OF iso]
      by simp_all
    with s isomorphicD(2) [OF iso] False show ?thesis by (cases op) simp_all
  qed
next
  case (NAryOp op ts)
  from NAryOp.prems have s: "s = Bool" and ts: "\<forall>t\<in>set ts. term_sort sig \<Gamma> t = Some Bool" by (auto split: if_splits)
  have "teval tr' i a' t = teval tr i a t" if "t \<in> set ts" for t
    using NAryOp.IH [OF that _ NAryOp.prems(2,3)] ts that isomorphicD(2) [OF iso] by simp
  with s isomorphicD(2) [OF iso] show ?case by (cases op) simp_all
next
  case (Ite c t e)
  then have cs: "term_sort sig \<Gamma> c = Some Bool" "term_sort sig \<Gamma> t = Some s" "term_sort sig \<Gamma> e = Some s"
    by (auto split: if_splits)
  with Ite isomorphicD(2) [OF iso] show ?case by simp
next
  case (Quantified q bs body)
  let ?ss = "map b_sort bs" and ?ns = "map b_name bs"
  from Quantified.prems have s: "s = Bool" and body: "term_sort sig (\<Gamma>(?ns [\<mapsto>] ?ss)) body = Some Bool"
    by (auto split: if_splits)
  have cards: "map (\<lambda>b. tr_card tr (b_sort b)) bs = map (tr_card tr) ?ss" by (simp add: comp_def)
  have eq: "teval tr' i (assign_all a' ?ns (map2 \<pi> ?ss vs)) body = teval tr i (assign_all a ?ns vs) body"
    if vs: "vs \<in> tuples (map (tr_card tr) ?ss)" for vs
  proof -
    have "assign_ok tr (\<Gamma>(?ns [\<mapsto>] ?ss)) (assign_all a ?ns vs)"
      using assign_ok_binders [OF Quantified.prems(2), of vs bs] vs by (simp add: comp_def)
    moreover have "renamed \<pi> (\<Gamma>(?ns [\<mapsto>] ?ss)) (assign_all a ?ns vs) (assign_all a' ?ns (map2 \<pi> ?ss vs))"
      unfolding assign_all_def using tuples_length [OF vs] by (intro renamed_upds Quantified.prems(3)) simp_all
    ultimately show ?thesis using Quantified.IH [OF body] isomorphicD(2) [OF iso] by simp
  qed
  have "quant_over q (tuples (map (tr_card tr) ?ss)) (\<lambda>vs. teval tr' i (assign_all a' ?ns vs) body = 1)
      = quant_over q (map2 \<pi> ?ss ` tuples (map (tr_card tr) ?ss)) (\<lambda>vs. teval tr' i (assign_all a' ?ns vs) body = 1)"
    using tuples_renamed [of \<pi> "tr_card tr" ?ss] isomorphicD(3) [OF iso] by simp
  also have "\<dots> = quant_over q (tuples (map (tr_card tr) ?ss)) (\<lambda>vs. teval tr i (assign_all a ?ns vs) body = 1)"
    unfolding quant_over_image by (rule quant_over_cong) (simp_all add: eq)
  finally show ?case
    using s isomorphicD(1,2) [OF iso] by (simp only: teval.simps cards) simp
qed

text \<open>Closed formulas do not distinguish isomorphic traces.\<close>

lemma holds_isomorphic:
  assumes "isomorphic sig \<pi> tr tr'" and "trace_ok sig tr" and "term_sort sig Map.empty t = Some Bool"
  shows "holds tr' i Map.empty t \<longleftrightarrow> holds tr i Map.empty t"
  using teval_isomorphic [OF assms, of Map.empty Map.empty i] isomorphicD(2) [OF assms(1)] by simp

end
