(* ===== verification/Bounded_Set_Symmetry.thy ===== *)
theory Bounded_Set_Symmetry
  imports Bounded_Set_Check Fly_Symmetry
begin

text \<open>
  The symmetry that the set of seen states of \<^verbatim>\<open>bounded/src/set.rs\<close> (\<open>IsoStateSet\<close>) relies on:
  its precomputed copy instructions produce exactly the states that differ by a permutation of
  every sort, and the translated program treats such states alike, because terms do. With the
  correctness of the search this gives the meaning of the checker's negative answers.
\<close>

section \<open>Renaming the elements of a state\<close>

definition sort_perm :: "(string \<Rightarrow> nat \<Rightarrow> nat) \<Rightarrow> sort \<Rightarrow> nat \<Rightarrow> nat" where
  "sort_perm \<sigma> srt = (case srt of Bool \<Rightarrow> id | Uninterpreted s \<Rightarrow> \<sigma> s)"

definition valid_perm :: "universe_bounds \<Rightarrow> (string \<Rightarrow> nat \<Rightarrow> nat) \<Rightarrow> bool" where
  "valid_perm u \<sigma> \<longleftrightarrow> (\<forall>s c. u s = Some c \<longrightarrow> bij_betw (\<sigma> s) {..<c} {..<c})"

definition rename_slot :: "(string \<Rightarrow> nat \<Rightarrow> nat) \<Rightarrow> relation_decl \<Rightarrow> element list \<Rightarrow> element list" where
  "rename_slot \<sigma> d es = map2 (sort_perm \<sigma>) (rd_args d) es"

definition inverse_perm :: "universe_bounds \<Rightarrow> (string \<Rightarrow> nat \<Rightarrow> nat) \<Rightarrow> string \<Rightarrow> nat \<Rightarrow> nat" where
  "inverse_perm u \<sigma> s = inv_into {..<the (u s)} (\<sigma> s)"

lemma sort_perm_bij:
  assumes "valid_perm u \<sigma>" and "bounds_cardinality u srt = Some c"
  shows "bij_betw (sort_perm \<sigma> srt) {..<c} {..<c}"
  using assms by (cases srt) (auto simp: valid_perm_def sort_perm_def bounds_cardinality_def)

lemma valid_inverse: "valid_perm u \<sigma> \<Longrightarrow> valid_perm u (inverse_perm u \<sigma>)"
  by (auto simp: valid_perm_def inverse_perm_def intro: bij_betw_inv_into)

lemma valid_comp: "valid_perm u \<sigma> \<Longrightarrow> valid_perm u \<rho> \<Longrightarrow> valid_perm u (\<lambda>s. \<rho> s \<circ> \<sigma> s)"
  unfolding valid_perm_def by (blast intro: bij_betw_trans)

lemma valid_id: "valid_perm u (\<lambda>_. id)"
  by (simp add: valid_perm_def)

lemma relation_tuples_length: "es \<in> relation_tuples u d \<Longrightarrow> length es = length (rd_args d)"
  by (simp add: relation_tuples_def list_all2_lengthD)

lemma relation_tuples_nth:
  "es \<in> relation_tuples u d \<longleftrightarrow> length es = length (rd_args d)
    \<and> (\<forall>j<length es. \<exists>c. bounds_cardinality u (rd_args d ! j) = Some c \<and> es ! j < c)"
  by (auto simp: relation_tuples_def list_all2_conv_all_nth)

lemma rename_slot_ok:
  assumes "valid_perm u \<sigma>" and "es \<in> relation_tuples u d"
  shows "rename_slot \<sigma> d es \<in> relation_tuples u d"
proof -
  have "sort_perm \<sigma> srt v < c" if "bounds_cardinality u srt = Some c" "v < c" for srt v c
    using sort_perm_bij [OF assms(1) that(1)] that(2) by (auto simp: bij_betw_def)
  with assms(2) show ?thesis by (fastforce simp: relation_tuples_nth rename_slot_def)
qed

lemma rename_slot_comp:
  "es \<in> relation_tuples u d \<Longrightarrow> rename_slot \<rho> d (rename_slot \<sigma> d es) = rename_slot (\<lambda>s. \<rho> s \<circ> \<sigma> s) d es"
  by (auto simp: rename_slot_def relation_tuples_nth list_eq_iff_nth_eq sort_perm_def split: sort.split)

lemma rename_slot_id: "es \<in> relation_tuples u d \<Longrightarrow> rename_slot (\<lambda>_. id) d es = es"
  by (auto simp: rename_slot_def relation_tuples_nth list_eq_iff_nth_eq sort_perm_def split: sort.split)

lemma rename_slot_inverse:
  assumes "valid_perm u \<sigma>" and "es \<in> relation_tuples u d"
  shows "rename_slot \<sigma> d (rename_slot (inverse_perm u \<sigma>) d es) = es"
    and "rename_slot (inverse_perm u \<sigma>) d (rename_slot \<sigma> d es) = es"
proof -
  have "sort_perm \<sigma> srt (sort_perm (inverse_perm u \<sigma>) srt v) = v
      \<and> sort_perm (inverse_perm u \<sigma>) srt (sort_perm \<sigma> srt v) = v"
    if "bounds_cardinality u srt = Some c" "v < c" for srt v c
    using that assms(1) bij_betw_inv_into_right [of "sort_perm \<sigma> srt" "{..<c}" "{..<c}" v]
      bij_betw_inv_into_left [of "sort_perm \<sigma> srt" "{..<c}" "{..<c}" v]
    by (cases srt) (auto simp: sort_perm_def inverse_perm_def bounds_cardinality_def valid_perm_def)
  with assms(2) show "rename_slot \<sigma> d (rename_slot (inverse_perm u \<sigma>) d es) = es"
    "rename_slot (inverse_perm u \<sigma>) d (rename_slot \<sigma> d es) = es"
    by (fastforce simp: rename_slot_def relation_tuples_nth list_eq_iff_nth_eq)+
qed

text \<open>Two states that differ by a renaming of the elements.\<close>

definition iso_states ::
  "signature \<Rightarrow> universe_bounds \<Rightarrow> indices \<Rightarrow> (string \<Rightarrow> nat \<Rightarrow> nat) \<Rightarrow> bounded_state \<Rightarrow> bounded_state \<Rightarrow> bool" where
  "iso_states sig u ix \<sigma> x y \<longleftrightarrow> length y = length x
     \<and> (\<forall>d es k b k' b'. index_slot sig u d es \<longrightarrow> entry ix (rd_name d) es k b
          \<longrightarrow> entry ix (rd_name d) (rename_slot \<sigma> d es) k' b' \<longrightarrow> y ! k' = x ! k)
     \<and> (\<forall>k<length x. \<not> is_index ix k \<longrightarrow> y ! k = x ! k)"

lemma iso_statesD:
  assumes "iso_states sig u ix \<sigma> x y"
  shows "length y = length x"
    and "index_slot sig u d es \<Longrightarrow> entry ix (rd_name d) es k b
      \<Longrightarrow> entry ix (rd_name d) (rename_slot \<sigma> d es) k' b' \<Longrightarrow> y ! k' = x ! k"
    and "k < length x \<Longrightarrow> \<not> is_index ix k \<Longrightarrow> y ! k = x ! k"
  using assms unfolding iso_states_def by blast+

lemma renamed_slot: "valid_perm u \<sigma> \<Longrightarrow> index_slot sig u d es \<Longrightarrow> index_slot sig u d (rename_slot \<sigma> d es)"
  by (simp add: index_slot_def rename_slot_ok)

lemma entry_unique: "entry ix r es k b \<Longrightarrow> entry ix r es k' b' \<Longrightarrow> k = k' \<and> b = b'"
  by (simp add: entry_def)

lemma iso_refl: "iso_states sig u ix (\<lambda>_. id) x x"
  unfolding iso_states_def
proof (intro conjI allI impI)
  fix d es k b k' b' assume "index_slot sig u d es" "entry ix (rd_name d) es k b"
    "entry ix (rd_name d) (rename_slot (\<lambda>_. id) d es) k' b'"
  then show "x ! k' = x ! k" by (auto simp: index_slot_def rename_slot_id dest: entry_unique)
qed simp_all

lemma iso_sym:
  assumes "valid_perm u \<sigma>" and "iso_states sig u ix \<sigma> x y"
  shows "iso_states sig u ix (inverse_perm u \<sigma>) y x"
  unfolding iso_states_def
proof (intro conjI allI impI)
  fix d es k b k' b'
  assume slot: "index_slot sig u d es" and e: "entry ix (rd_name d) es k b"
    and e': "entry ix (rd_name d) (rename_slot (inverse_perm u \<sigma>) d es) k' b'"
  have "index_slot sig u d (rename_slot (inverse_perm u \<sigma>) d es)"
    by (rule renamed_slot [OF valid_inverse [OF assms(1)] slot])
  from iso_statesD(2) [OF assms(2) this e', of k b] e rename_slot_inverse(1) [OF assms(1), of es d] slot
  show "x ! k' = y ! k" by (simp add: index_slot_def)
qed (use iso_statesD [OF assms(2)] in auto)

lemma iso_trans:
  assumes su: "set_setup it ho sig u ix" and "valid_perm u \<sigma>"
    and "iso_states sig u ix \<sigma> x y" and "iso_states sig u ix \<rho> y z"
  shows "iso_states sig u ix (\<lambda>s. \<rho> s \<circ> \<sigma> s) x z"
  unfolding iso_states_def
proof (intro conjI allI impI)
  fix d es k b k' b'
  assume slot: "index_slot sig u d es" and e: "entry ix (rd_name d) es k b"
    and e': "entry ix (rd_name d) (rename_slot (\<lambda>s. \<rho> s \<circ> \<sigma> s) d es) k' b'"
  have slot': "index_slot sig u d (rename_slot \<sigma> d es)" by (rule renamed_slot [OF assms(2) slot])
  from entry_facts(5) [OF su slot'] obtain j where j: "entry ix (rd_name d) (rename_slot \<sigma> d es) j (rd_mutable d)" by blast
  have "y ! j = x ! k" by (rule iso_statesD(2) [OF assms(3) slot e j])
  moreover have "z ! k' = y ! j"
    using iso_statesD(2) [OF assms(4) slot' j, of k' b'] e' rename_slot_comp [of es u d \<rho> \<sigma>] slot
    by (simp add: index_slot_def)
  ultimately show "z ! k' = x ! k" by simp
qed (use iso_statesD [OF assms(3)] iso_statesD [OF assms(4)] in auto)

lemma iso_unique:
  assumes su: "set_setup it ho sig u ix" and \<sigma>: "valid_perm u \<sigma>"
    and "iso_states sig u ix \<sigma> x y" and "iso_states sig u ix \<sigma> x z"
  shows "y = z"
proof (rule nth_equalityI)
  show "length y = length z" using iso_statesD(1) assms(3,4) by metis
  fix k assume k: "k < length y"
  show "y ! k = z ! k"
  proof (cases "is_index ix k")
    case True
    then obtain r es b where e: "entry ix r es k b" unfolding is_index_def by blast
    from entry_facts(4) [OF su e] obtain d where d: "index_slot sig u d es" "rd_name d = r" by blast
    let ?fs = "rename_slot (inverse_perm u \<sigma>) d es"
    have slot: "index_slot sig u d ?fs" by (rule renamed_slot [OF valid_inverse [OF \<sigma>] d(1)])
    from entry_facts(5) [OF su slot] obtain j where j: "entry ix (rd_name d) ?fs j (rd_mutable d)" by blast
    have "entry ix (rd_name d) (rename_slot \<sigma> d ?fs) k b"
      using e d rename_slot_inverse(1) [OF \<sigma>, of es d] by (simp add: index_slot_def)
    with iso_statesD(2) [OF assms(3) slot j] iso_statesD(2) [OF assms(4) slot j] show ?thesis by metis
  next
    case False
    with k iso_statesD(1,3) [OF assms(3)] iso_statesD(1,3) [OF assms(4)] show ?thesis by metis
  qed
qed

section \<open>The copy instructions\<close>

text \<open>Iterating over the hash map of the universe yields every sort once.\<close>

definition hash_universe_doc :: "hash_orders \<Rightarrow> universe_bounds \<Rightarrow> bool" where
  "hash_universe_doc ho u \<longleftrightarrow> distinct (ho_universe ho u) \<and> set (ho_universe ho u) = dom u"

text \<open>The index that the entry of a slot is copied to.\<close>

definition copy_target :: "signature \<Rightarrow> indices \<Rightarrow> (string \<Rightarrow> nat \<Rightarrow> nat) \<Rightarrow> string \<Rightarrow> element list \<Rightarrow> nat" where
  "copy_target sig ix \<sigma> r es =
     the (indices_get ix r 0 (rename_slot \<sigma> (the (decl_of sig r)) es))"

definition entry_copies :: "hash_orders \<Rightarrow> signature \<Rightarrow> indices \<Rightarrow> (string \<Rightarrow> nat \<Rightarrow> nat) \<Rightarrow> (nat \<times> nat) list" where
  "entry_copies ho sig ix \<sigma> =
     filter (\<lambda>(src, dst). src \<noteq> dst)
       (map (\<lambda>(r, es, i, b). (i, copy_target sig ix \<sigma> r es)) (index_entries ho ix))"

lemma decl_of_slot:
  assumes "names_distinct sig" and "d \<in> set (sig_relations sig)"
  shows "decl_of sig (rd_name d) = Some d"
proof -
  from assms(2) obtain j where j: "j < length (sig_relations sig)" "sig_relations sig ! j = d"
    by (auto simp: in_set_conv_nth)
  have "relation_idx sig (rd_name d) = Some j"
    using position_distinct [of rd_name "sig_relations sig" j] assms(1) j
    by (simp add: names_distinct_def relation_idx_def)
  with j show ?thesis by (simp add: decl_of_def)
qed

lemma copy_target_entry:
  assumes su: "set_setup it ho sig u ix" and \<sigma>: "valid_perm u \<sigma>" and slot: "index_slot sig u d es"
  shows "entry ix (rd_name d) (rename_slot \<sigma> d es) (copy_target sig ix \<sigma> (rd_name d) es) (rd_mutable d)"
proof -
  have "decl_of sig (rd_name d) = Some d"
    using decl_of_slot [OF set_setupD(3) [OF su]] slot by (simp add: index_slot_def)
  moreover from entry_facts(5) [OF su renamed_slot [OF \<sigma> slot]] obtain j
    where j: "entry ix (rd_name d) (rename_slot \<sigma> d es) j (rd_mutable d)" by blast
  ultimately show ?thesis using entry_facts(1) [OF su j] by (simp add: copy_target_def)
qed

text \<open>Copying bit by bit produces the renamed state.\<close>

lemma entries_slot:
  assumes su: "set_setup it ho sig u ix" and "(r, es, i, b) \<in> set (index_entries ho ix)"
  shows "entry ix r es i b" and "\<exists>d. index_slot sig u d es \<and> rd_name d = r \<and> rd_mutable d = b"
proof -
  show e: "entry ix r es i b" using assms(2) by (simp add: entries_entry [OF su])
  from entry_facts(4) [OF su e] show "\<exists>d. index_slot sig u d es \<and> rd_name d = r \<and> rd_mutable d = b" .
qed

lemma distinct_targets:
  assumes su: "set_setup it ho sig u ix" and \<sigma>: "valid_perm u \<sigma>"
  shows "distinct (map (\<lambda>(r, es, i, b). copy_target sig ix \<sigma> r es) (index_entries ho ix))"
proof -
  have "inj_on (\<lambda>(r, es, i, b). copy_target sig ix \<sigma> r es) (set (index_entries ho ix))"
  proof (rule inj_onI)
    fix x y assume x: "x \<in> set (index_entries ho ix)" and y: "y \<in> set (index_entries ho ix)"
      and eq: "(case x of (r, es, i, b) \<Rightarrow> copy_target sig ix \<sigma> r es) = (case y of (r, es, i, b) \<Rightarrow> copy_target sig ix \<sigma> r es)"
    obtain r es i b r' es' i' b' where xy: "x = (r, es, i, b)" "y = (r', es', i', b')" by (cases x; cases y) auto
    from entries_slot [OF su] x xy obtain d where d: "index_slot sig u d es" "rd_name d = r" "entry ix r es i b" by blast
    from entries_slot [OF su] y xy obtain d' where d': "index_slot sig u d' es'" "rd_name d' = r'" "entry ix r' es' i' b'" by blast
    from copy_target_entry [OF su \<sigma> d(1)] copy_target_entry [OF su \<sigma> d'(1)] eq
    have "rd_name d = rd_name d' \<and> rename_slot \<sigma> d es = rename_slot \<sigma> d' es'"
      using entry_facts(6) [OF su] by (simp add: xy d(2) d'(2))
    moreover from this have "d = d'"
      using same_name [OF set_setupD(3) [OF su]] d(1) d'(1) by (auto simp: index_slot_def)
    ultimately have "es = es'"
      using rename_slot_inverse(2) [OF \<sigma>, of es d] rename_slot_inverse(2) [OF \<sigma>, of es' d] d(1) d'(1)
      unfolding index_slot_def by metis
    with d d' \<open>d = d'\<close> show "x = y" using entry_unique [of ix r es i b i' b'] by (simp add: xy)
  qed
  then show ?thesis using distinct_index_entries [OF set_setupD(6) [OF su]] by (simp add: distinct_map)
qed

lemma permuted_iso:
  assumes su: "set_setup it ho sig u ix" and fits: "fits ix" and \<sigma>: "valid_perm u \<sigma>" and len: "length x = state_len"
  shows "iso_states sig u ix \<sigma> x (permuted (entry_copies ho sig ix \<sigma>) x)"
proof -
  let ?cs = "entry_copies ho sig ix \<sigma>" and ?es = "index_entries ho ix"
  have perm: "permuted ?cs x = fold (\<lambda>c y. y[snd c := x ! fst c]) ?cs x"
    by (simp add: permuted_def case_prod_unfold)
  have snds: "distinct (map snd ?cs)"
  proof -
    have "map snd (map (\<lambda>(r, es, i, b). (i, copy_target sig ix \<sigma> r es)) ?es)
        = map (\<lambda>(r, es, i, b). copy_target sig ix \<sigma> r es) ?es" by auto
    with distinct_targets [OF su \<sigma>] show ?thesis
      unfolding entry_copies_def by (intro distinct_map_filter) (simp only:)
  qed
  have copy: "permuted ?cs x ! copy_target sig ix \<sigma> r es = x ! i" if e: "(r, es, i, b) \<in> set ?es" for r es i b
  proof -
    let ?t = "copy_target sig ix \<sigma> r es"
    from entries_slot [OF su e] obtain d where d: "index_slot sig u d es" "rd_name d = r" by blast
    from copy_target_entry [OF su \<sigma> d(1)] have "is_index ix ?t" unfolding is_index_def d(2) by blast
    then have t: "?t < length x" using fits len by (simp add: fits_def)
    show ?thesis
    proof (cases "i = ?t")
      case False
      with e have "(i, ?t) \<in> set ?cs" by (force simp: entry_copies_def)
      from fold_write_member [OF snds this, of x "\<lambda>c. x ! fst c"] t show ?thesis by (simp add: perm)
    next
      case True
      have "?t \<notin> snd ` set ?cs"
      proof
        assume "?t \<in> snd ` set ?cs"
        then obtain r' es' i' b' where e': "(r', es', i', b') \<in> set ?es"
          and t': "?t = copy_target sig ix \<sigma> r' es'" "i' \<noteq> copy_target sig ix \<sigma> r' es'"
          by (auto simp: entry_copies_def)
        have inj: "inj_on (\<lambda>(r, es, i, b). copy_target sig ix \<sigma> r es) (set ?es)"
          using distinct_targets [OF su \<sigma>] by (simp add: distinct_map)
        from inj_onD [OF inj _ e e'] t'(1) have "i = i'" by simp
        with True t' show False by simp
      qed
      from fold_write_other [OF this, of "\<lambda>c. x ! fst c" x] True show ?thesis by (simp add: perm)
    qed
  qed
  show ?thesis
    unfolding iso_states_def
  proof (intro conjI allI impI)
    fix d es k b k' b'
    assume slot: "index_slot sig u d es" and e: "entry ix (rd_name d) es k b"
      and e': "entry ix (rd_name d) (rename_slot \<sigma> d es) k' b'"
    from entry_unique [OF e' copy_target_entry [OF su \<sigma> slot]] have "k' = copy_target sig ix \<sigma> (rd_name d) es" by blast
    moreover have "(rd_name d, es, k, b) \<in> set ?es" using e by (simp add: entries_entry [OF su])
    ultimately show "permuted ?cs x ! k' = x ! k" using copy by simp
  next
    fix k assume k: "k < length x" "\<not> is_index ix k"
    have "k \<notin> snd ` set ?cs"
    proof
      assume "k \<in> snd ` set ?cs"
      then obtain r es i b where e: "(r, es, i, b) \<in> set ?es" "k = copy_target sig ix \<sigma> r es"
        by (auto simp: entry_copies_def)
      from entries_slot [OF su e(1)] obtain d where d: "index_slot sig u d es" "rd_name d = r" by blast
      from copy_target_entry [OF su \<sigma> d(1)] e(2) d(2) k(2) show False unfolding is_index_def by blast
    qed
    from fold_write_other [OF this, of "\<lambda>c. x ! fst c" x] show "permuted ?cs x ! k = x ! k" by (simp add: perm)
  qed simp
qed

text \<open>The copy instructions of a permutation given as a map from sorts to lists.\<close>

lemma concat_entries:
  "concat (map (\<lambda>(name, rest). map (\<lambda>(es, (i, _)). f name es i) rest) l)
    = map (\<lambda>(name, es, i, b). f name es i) (concat (map (\<lambda>(r, rest). map (Pair r) rest) l))"
proof (induction l)
  case (Cons x l)
  obtain r rest where x: "x = (r, rest)" by force
  have "map (\<lambda>(es, (i, _)). f r es i) rest = map (\<lambda>(name, es, i, b). f name es i) (map (Pair r) rest)"
    by (auto simp: case_prod_unfold)
  with Cons show ?case by (simp add: x)
qed simp

lemma find_position: "find P xs = map_option (nth xs) (position P xs)"
  by (induction xs) (simp_all add: option.map_comp comp_def)

lemma iso_copies_eq:
  assumes su: "set_setup it ho sig u ix" and \<sigma>: "valid_perm u \<sigma>"
    and \<pi>: "\<And>s c. u s = Some c \<Longrightarrow> \<exists>p. \<pi> s = Some p \<and> length p = c \<and> (\<forall>x<c. p ! x = \<sigma> s x)"
  shows "iso_copies ho ix \<pi> = Some (entry_copies ho sig ix \<sigma>)"
proof -
  note D = set_setupD [OF su]
  have sig: "ix_signature ix = sig" by (rule indices_new_cases [OF D(1,3,5)])
  let ?f = "\<lambda>name elements i. case relation_decl_of (ix_signature ix) name of None \<Rightarrow> None | Some relation \<Rightarrow>
      (if length (rd_args relation) \<noteq> length elements then None
       else case those (map (\<lambda>(srt, x). case srt of
              Uninterpreted s \<Rightarrow> (case \<pi> s of None \<Rightarrow> None | Some p \<Rightarrow> (if x < length p then Some (p ! x) else None))
            | Bool \<Rightarrow> Some x) (zip (rd_args relation) elements)) of
          None \<Rightarrow> None
        | Some new_elements \<Rightarrow> map_option (Pair i) (indices_get ix (rd_name relation) 0 new_elements))"
  have copy: "?f r es i = Some (i, copy_target sig ix \<sigma> r es)" if "(r, es, i, b) \<in> set (index_entries ho ix)" for r es i b
  proof -
    from entries_slot [OF su that] obtain d where d: "index_slot sig u d es" "rd_name d = r" by blast
    then have es: "es \<in> relation_tuples u d" and "decl_of sig r = Some d" and "trim_end_primes r = r"
      using decl_of_slot [OF D(3), of d] D(2) by (auto simp: index_slot_def plain_names_def)
    then have decl: "relation_decl_of sig r = Some d"
      by (simp add: relation_decl_of_def decl_of_def relation_idx_def find_position)
    have new: "those (map (\<lambda>(srt, x). case srt of
              Uninterpreted s \<Rightarrow> (case \<pi> s of None \<Rightarrow> None | Some p \<Rightarrow> (if x < length p then Some (p ! x) else None))
            | Bool \<Rightarrow> Some x) (zip (rd_args d) es)) = Some (rename_slot \<sigma> d es)"
      unfolding rename_slot_def
    proof (rule those_map_SomeI)
      fix y assume "y \<in> set (zip (rd_args d) es)"
      then obtain j where j: "j < length es" "y = (rd_args d ! j, es ! j)"
        using relation_tuples_length [OF es] by (auto simp: set_zip)
      with es obtain c where c: "bounds_cardinality u (rd_args d ! j) = Some c" "es ! j < c"
        by (auto simp: relation_tuples_nth)
      show "(\<lambda>(srt, x). case srt of
              Uninterpreted s \<Rightarrow> (case \<pi> s of None \<Rightarrow> None | Some p \<Rightarrow> (if x < length p then Some (p ! x) else None))
            | Bool \<Rightarrow> Some x) y = Some (case y of (x, y) \<Rightarrow> sort_perm \<sigma> x y)"
      proof (cases "rd_args d ! j")
        case Bool
        then show ?thesis by (simp add: j(2) sort_perm_def)
      next
        case (Uninterpreted s)
        with c have "u s = Some c" by (simp add: bounds_cardinality_def)
        from \<pi> [OF this] c(2) Uninterpreted show ?thesis by (auto simp: j(2) sort_perm_def)
      qed
    qed
    from entry_facts(1) [OF su copy_target_entry [OF su \<sigma> d(1)]] relation_tuples_length [OF es]
    show ?thesis unfolding sig decl by (simp add: new d(2))
  qed
  have "those (map (\<lambda>(r, es, i, b). ?f r es i) (index_entries ho ix))
      = Some (map (\<lambda>(r, es, i, b). (i, copy_target sig ix \<sigma> r es)) (index_entries ho ix))"
    by (rule those_map_SomeI) (use copy in fastforce)
  then show ?thesis
    unfolding iso_copies_def entry_copies_def concat_entries [of ?f, folded index_entries_def] by (simp only: index_entries_def) simp
qed

definition list_perm :: "string list \<Rightarrow> nat list list \<Rightarrow> string \<Rightarrow> nat \<Rightarrow> nat" where
  "list_perm sorts ps s = (case map_of (zip sorts ps) s of Some p \<Rightarrow> (!) p | None \<Rightarrow> id)"

lemma list_perm_valid:
  assumes sorts: "distinct sorts" "set sorts = dom u"
    and ps: "list_all2 (\<lambda>p s. distinct p \<and> set p = {0..<the (u s)}) ps sorts"
  shows "valid_perm u (list_perm sorts ps)"
    and "u s = Some c \<Longrightarrow> \<exists>p. map_of (zip sorts ps) s = Some p \<and> length p = c \<and> (\<forall>x<c. p ! x = list_perm sorts ps s x)"
proof -
  have len: "length sorts = length ps" using ps by (simp add: list_all2_lengthD)
  have perm: "\<exists>p. map_of (zip sorts ps) s = Some p \<and> distinct p \<and> set p = {0..<c}" if us: "u s = Some c" for s c
  proof -
    from us sorts(2) obtain j where j: "j < length sorts" "sorts ! j = s" by (metis domI in_set_conv_nth)
    have "map_of (zip sorts ps) s = Some (ps ! j)"
      using map_of_zip_nth [OF len sorts(1)] j len by auto
    with ps j us show ?thesis by (auto simp: list_all2_conv_all_nth)
  qed
  have length: "length p = c" if "distinct p" "set p = {0..<c}" for p :: "nat list" and c
    using that distinct_card [of p] by simp
  show "valid_perm u (list_perm sorts ps)"
    unfolding valid_perm_def
  proof (intro allI impI)
    fix s c assume "u s = Some c"
    from perm [OF this] obtain p where p: "map_of (zip sorts ps) s = Some p" "distinct p" "set p = {0..<c}" by blast
    have "bij_betw ((!) p) {..<c} {..<c}"
      by (rule bij_betw_nth [OF p(2)]) (simp_all only: length [OF p(2,3)] p(3) atLeast0LessThan)
    then show "bij_betw (list_perm sorts ps s) {..<c} {..<c}" by (simp only: list_perm_def p(1) option.case)
  qed
  assume "u s = Some c"
  from perm [OF this] obtain p where p: "map_of (zip sorts ps) s = Some p" "distinct p" "set p = {0..<c}" by blast
  then show "\<exists>p. map_of (zip sorts ps) s = Some p \<and> length p = c \<and> (\<forall>x<c. p ! x = list_perm sorts ps s x)"
    using length [OF p(2,3)] by (intro exI [of _ p]) (simp add: list_perm_def)
qed

lemma perm_lists:
  assumes "valid_perm u \<sigma>" and "distinct sorts" "set sorts = dom u"
  defines "ps \<equiv> map (\<lambda>s. map (\<sigma> s) [0..<the (u s)]) sorts"
  shows "list_all2 (\<lambda>p s. distinct p \<and> set p = {0..<the (u s)}) ps sorts"
    and "u s = Some c \<Longrightarrow> \<exists>p. map_of (zip sorts ps) s = Some p \<and> length p = c \<and> (\<forall>x<c. p ! x = \<sigma> s x)"
proof -
  have "distinct (map (\<sigma> s) [0..<the (u s)]) \<and> set (map (\<sigma> s) [0..<the (u s)]) = {0..<the (u s)}" if "s \<in> set sorts" for s
  proof -
    from that assms(3) obtain c where "u s = Some c" by blast
    with assms(1) show ?thesis by (auto simp: valid_perm_def bij_betw_def distinct_map atLeast0LessThan)
  qed
  then show "list_all2 (\<lambda>p s. distinct p \<and> set p = {0..<the (u s)}) ps sorts"
    by (auto simp: ps_def list_all2_conv_all_nth)
  assume us: "u s = Some c"
  then obtain j where "j < length sorts" "sorts ! j = s" using assms(3) by (metis domI in_set_conv_nth)
  then have "map_of (zip sorts ps) s = Some (map (\<sigma> s) [0..<the (u s)])"
    using map_of_zip_nth [of sorts ps j] assms(2) by (simp add: ps_def)
  with us show "\<exists>p. map_of (zip sorts ps) s = Some p \<and> length p = c \<and> (\<forall>x<c. p ! x = \<sigma> s x)" by simp
qed

text \<open>The set of seen states knows the copy instructions of all permutations, and building it does not
  panic.\<close>

lemma iso_new_orderings:
  assumes su: "set_setup it ho sig u ix" and uni: "hash_universe_doc ho u"
  shows "\<exists>seen. iso_new ho it ix = Some seen \<and> iso_set seen = {}
    \<and> set (iso_orderings seen) = entry_copies ho sig ix ` Collect (valid_perm u)"
proof -
  note D = set_setupD [OF su]
  have u: "ix_universe ix = u" by (rule indices_new_cases [OF D(1,3,5)])
  define sorts where "sorts = List.sort (ho_universe ho u)"
  have sorts: "distinct sorts" "set sorts = dom u" using uni by (simp_all add: sorts_def hash_universe_doc_def)
  let ?sizes = "map (\<lambda>s. the (u s)) sorts"
  have sizes: "those (map u sorts) = Some ?sizes"
    by (rule those_map_SomeI) (use sorts(2) in force)
  define combos where "combos = mcp_fixed (mcp_perm it) (map (permutations_nat it) ?sizes)"
  have combos: "ps \<in> set combos \<longleftrightarrow> list_all2 (\<lambda>p s. distinct p \<and> set p = {0..<the (u s)}) ps sorts" for ps
    by (auto simp: combos_def itertools_docD [OF D(1)] product_lists_Cons_set list_all2_conv_all_nth)
  have copies: "(if length sorts = length ps then iso_copies ho ix (map_of (zip sorts ps)) else None)
      = Some (entry_copies ho sig ix (list_perm sorts ps))" if "ps \<in> set combos" for ps
  proof -
    from that have ps: "list_all2 (\<lambda>p s. distinct p \<and> set p = {0..<the (u s)}) ps sorts" by (simp add: combos)
    from iso_copies_eq [OF su list_perm_valid(1) [OF sorts ps] list_perm_valid(2) [OF sorts ps]] list_all2_lengthD [OF ps]
    show ?thesis by simp
  qed
  let ?seen = "\<lparr>iso_set = {}, iso_orderings = map (\<lambda>ps. entry_copies ho sig ix (list_perm sorts ps)) combos\<rparr>"
  have "those (map (\<lambda>ps. if length sorts = length ps then iso_copies ho ix (map_of (zip sorts ps)) else None) combos)
      = Some (map (\<lambda>ps. entry_copies ho sig ix (list_perm sorts ps)) combos)"
    by (rule those_map_SomeI) (rule copies)
  then have new: "iso_new ho it ix = Some ?seen"
    unfolding iso_new_def Let_def u sorts_def [symmetric] sizes option.case combos_def [symmetric] by simp
  have "set (map (\<lambda>ps. entry_copies ho sig ix (list_perm sorts ps)) combos) = entry_copies ho sig ix ` Collect (valid_perm u)"
  proof (intro equalityI subsetI)
    fix cs assume "cs \<in> set (map (\<lambda>ps. entry_copies ho sig ix (list_perm sorts ps)) combos)"
    then obtain ps where "ps \<in> set combos" "cs = entry_copies ho sig ix (list_perm sorts ps)" by auto
    with list_perm_valid(1) [OF sorts] show "cs \<in> entry_copies ho sig ix ` Collect (valid_perm u)" by (simp add: combos)
  next
    fix cs assume "cs \<in> entry_copies ho sig ix ` Collect (valid_perm u)"
    then obtain \<sigma> where \<sigma>: "valid_perm u \<sigma>" and cs: "cs = entry_copies ho sig ix \<sigma>" by blast
    let ?ps = "map (\<lambda>s. map (\<sigma> s) [0..<the (u s)]) sorts"
    from perm_lists(1) [OF \<sigma> sorts] have mem: "?ps \<in> set combos" by (simp add: combos)
    from iso_copies_eq [OF su \<sigma> perm_lists(2) [OF \<sigma> sorts]] copies [OF mem]
    have "cs = entry_copies ho sig ix (list_perm sorts ?ps)" by (simp add: cs)
    with mem show "cs \<in> set (map (\<lambda>ps. entry_copies ho sig ix (list_perm sorts ps)) combos)" by simp
  qed
  with new show ?thesis by (intro exI [of _ ?seen]) simp
qed

lemma orbit_iso:
  assumes su: "set_setup it ho sig u ix" and fits: "fits ix" and "length x = state_len"
    and perms: "set perms = entry_copies ho sig ix ` Collect (valid_perm u)"
  shows "y \<in> orbit perms x \<longleftrightarrow> (\<exists>\<sigma>. valid_perm u \<sigma> \<and> iso_states sig u ix \<sigma> x y)"
proof -
  have "y \<in> orbit perms x \<longleftrightarrow> (\<exists>\<sigma>. valid_perm u \<sigma> \<and> y = permuted (entry_copies ho sig ix \<sigma>) x)"
    by (auto simp: orbit_def perms)
  also have "\<dots> \<longleftrightarrow> (\<exists>\<sigma>. valid_perm u \<sigma> \<and> iso_states sig u ix \<sigma> x y)"
    using permuted_iso [OF su fits _ assms(3)] iso_unique [OF su] by metis
  finally show ?thesis .
qed

end
