(* ===== verification/Bounded_Set_Verdicts.thy ===== *)
theory Bounded_Set_Verdicts
  imports Bounded_Set_Symmetry
begin

text \<open>
  The negative answers of the explicit-state checker \<^verbatim>\<open>bounded/src/set.rs\<close>: the translated program
  treats isomorphic states alike, so exploring one state of every orbit is enough, and the checker's
  \<open>Convergence\<close> and \<open>Unknown\<close> are statements about all executions of the module.
\<close>

section \<open>The translated program is symmetric\<close>

lemma iso_traces:
  assumes su: "set_setup it ho sig u ix" and \<sigma>: "valid_perm u \<sigma>" and "length ys = length xs" "xs \<noteq> []"
    and iso: "\<And>j. j < length xs \<Longrightarrow> iso_states sig u ix \<sigma> (xs ! j) (ys ! j)"
  shows "isomorphic sig (sort_perm \<sigma>) (states_trace u ix xs) (states_trace u ix ys)"
  unfolding isomorphic_def
proof (intro conjI allI impI)
  show "tr_card (states_trace u ix ys) = tr_card (states_trace u ix xs)" "sort_perm \<sigma> Bool = id"
    by (simp_all add: states_trace_def sort_perm_def)
  show "bij_betw (sort_perm \<sigma> s) {..<tr_card (states_trace u ix xs) s} {..<tr_card (states_trace u ix xs) s}" for s
    using sort_perm_bij [OF \<sigma>, of s] by (cases "bounds_cardinality u s") (simp_all add: states_trace_def bij_betw_def)
  fix i f d vs assume decl: "decl_of sig f = Some d"
    and vs: "list_all2 (\<lambda>v s. v < tr_card (states_trace u ix xs) s) vs (rd_args d)"
  have "vs \<in> relation_tuples u d"
    unfolding relation_tuples_def mem_Collect_eq
    by (rule list_all2_mono [OF vs]) (auto simp: states_trace_def split: option.splits)
  with decl_of_mem [OF decl] have slot: "index_slot sig u d vs" and f: "rd_name d = f" by (simp_all add: index_slot_def)
  from entry_facts(5) [OF su slot] obtain k where k: "entry ix f vs k (rd_mutable d)" by (auto simp: f)
  from entry_facts(5) [OF su renamed_slot [OF \<sigma> slot]] obtain k'
    where k': "entry ix f (rename_slot \<sigma> d vs) k' (rd_mutable d)" by (auto simp: f)
  have j: "min i (length xs - 1) < length xs" using assms(4) by (cases xs) auto
  have "state_at ys i ! k' = state_at xs i ! k"
    using iso_statesD(2) [OF iso [OF j] slot, of k "rd_mutable d" k' "rd_mutable d"] k k'
    by (simp add: state_at_def assms(3) f)
  then have "tr_fun (states_trace u ix ys) i f (rename_slot \<sigma> d vs) = tr_fun (states_trace u ix xs) i f vs"
    using entry_facts(1) [OF su k] entry_facts(1) [OF su k'] by (simp add: states_trace_def)
  moreover have "rd_sort d = Bool"
    using decl_of_mem [OF decl] set_setupD(4) [OF su] by (simp add: bool_relations_def)
  ultimately show "tr_fun (states_trace u ix ys) i f (map2 (sort_perm \<sigma>) (rd_args d) vs)
      = sort_perm \<sigma> (rd_sort d) (tr_fun (states_trace u ix xs) i f vs)"
    by (simp add: rename_slot_def sort_perm_def)
qed

lemma iso_holds:
  assumes "set_setup it ho sig u ix" and "valid_perm u \<sigma>" and "length ys = length xs" "xs \<noteq> []"
    and "\<And>j. j < length xs \<Longrightarrow> iso_states sig u ix \<sigma> (xs ! j) (ys ! j)"
    and "frame_constant ix xs" and "term_sort sig Map.empty t = Some Bool"
  shows "holds (states_trace u ix ys) i Map.empty t \<longleftrightarrow> holds (states_trace u ix xs) i Map.empty t"
proof -
  note iso = iso_traces [OF assms(1-5)]
  have "trace_ok sig (states_trace u ix xs)"
    using states_trace_ok [OF assms(1,6)] by (simp add: system_ok_def)
  from holds_isomorphic [OF iso this assms(7)] show ?thesis .
qed

lemma iso_formula:
  assumes su: "set_setup it ho sig u ix" and \<sigma>: "valid_perm u \<sigma>" and iso: "iso_states sig u ix \<sigma> x y"
    and ts: "\<forall>t\<in>set ts. term_sort sig Map.empty t = Some Bool \<and> no_past t \<and> fresh_binders (sig_relations sig) t"
    and f: "translate_formula it sig u ix (term_and ts) = Some (Inr f)"
  shows "feval ((!) y) f \<longleftrightarrow> feval ((!) x) f"
proof -
  have at: "state_at [s] 0 = s" for s by (simp add: state_at_def)
  have val: "feval ((!) s) f \<longleftrightarrow> (\<forall>t\<in>set ts. holds (states_trace u ix [s]) 0 Map.empty t)" for s
    using translate_formula_value [OF su states_trace_ok [OF su single_frame] follows_states_trace [OF su, of "[s]"] ts f, of 0]
    by (simp add: at)
  have "holds (states_trace u ix [y]) 0 Map.empty t \<longleftrightarrow> holds (states_trace u ix [x]) 0 Map.empty t" if "t \<in> set ts" for t
    using iso ts that by (intro iso_holds [OF su \<sigma> _ _ _ single_frame]) simp_all
  then show ?thesis by (simp add: val)
qed

lemma iso_state_ok:
  assumes "iso_states sig u ix \<sigma> x y" and "state_ok ix x"
  shows "state_ok ix y"
  using iso_statesD(1) [OF assms(1)] iso_statesD(3) [OF assms(1)] assms(2) unfolding state_ok_def by metis

lemma iso_frame:
  assumes su: "set_setup it ho sig u ix" and \<sigma>: "valid_perm u \<sigma>"
    and "iso_states sig u ix \<sigma> x y" and "iso_states sig u ix \<sigma> x' y'"
    and frame: "frame_constant ix [y, y']"
  shows "frame_constant ix [x, x']"
proof -
  have eq: "x' ! k = x ! k" if k: "is_index ix k" "\<not> mutable_index ix k" for k
  proof -
    from k(1) obtain r es b where e: "entry ix r es k b" unfolding is_index_def by blast
    from entry_facts(4) [OF su e] obtain d where d: "index_slot sig u d es" "rd_name d = r" "rd_mutable d = b" by blast
    from not_mutable_entry [OF su e] k(2) d(3) have "\<not> rd_mutable d" by simp
    moreover from entry_facts(5) [OF su renamed_slot [OF \<sigma> d(1)]] obtain k'
      where k': "entry ix r (rename_slot \<sigma> d es) k' (rd_mutable d)" by (auto simp: d(2))
    ultimately have "\<not> mutable_index ix k'" "is_index ix k'"
      using not_mutable_entry [OF su k'] unfolding is_index_def by blast+
    then have "state_at [y, y'] 1 ! k' = state_at [y, y'] 0 ! k'" using frame unfolding frame_constant_def by blast
    then have "y' ! k' = y ! k'" by (simp add: state_at_def)
    then show ?thesis
      using iso_statesD(2) [OF assms(3) d(1)] iso_statesD(2) [OF assms(4) d(1)] e k' unfolding d(2) by metis
  qed
  have "state_at [x, x'] i = x \<or> state_at [x, x'] i = x'" for i
    by (cases i) (simp_all add: state_at_def)
  then show ?thesis unfolding frame_constant_def using eq by metis
qed

text \<open>Isomorphic states take the same steps, up to isomorphism.\<close>

lemma iso_step:
  assumes su: "set_setup it ho sig u ix" and fits: "fits ix" and chk: "checkable sig d"
    and p: "translate_system ho it lib sig u ix d = Some (Inr p)"
    and axf: "translate_formula it sig u ix (term_and (mutable_axioms d (sig_relations sig))) = Some (Inr axf)"
    and \<sigma>: "valid_perm u \<sigma>" and xy: "iso_states sig u ix \<sigma> x y" and xy': "iso_states sig u ix \<sigma> x' y'"
    and x: "state_ok ix x" "feval ((!) x) axf" and step: "program_step p y y'"
  shows "program_step p x x'"
proof -
  let ?ax = "mutable_axioms d (sig_relations sig)"
  from p obtain trs0 where
    trs0: "translate_transitions it sig u ix (dm_transitions d) = Some (Inr trs0)"
    and trs: "filter_axioms axf (expand_transitions ho ix trs0) = Inr (bp_trs p)"
    and sane: "list_all (transition_sane sig (indices_to_sets ho ix)) (bp_trs p)"
    by (rule translate_systemE) (use axf in simp)
  from trs0 show ?thesis
  proof (cases rule: translate_transitionsE)
    case 1
    with trs have "bp_trs p = []" by (simp add: expand_transitions_def filter_axioms_def)
    with step show ?thesis by (simp add: program_step_def)
  next
    case (2 t e)
    have ma: "\<forall>a\<in>set ?ax. term_sort sig Map.empty a = Some Bool \<and> no_past a \<and> fresh_binders (sig_relations sig) a"
      and tt: "term_sort sig Map.empty t = Some Bool"
      using checkable_parts(2) [OF chk, of "sig_relations sig"] 2(1) by auto
    have y: "state_ok ix y" "feval ((!) y) axf"
      using iso_state_ok [OF xy x(1)] iso_formula [OF su \<sigma> xy ma axf] x(2) by blast+
    have st: "system_step ix e axf y y'"
      using translated_steps [OF su fits 2(3) trs sane y] step unfolding program_step_def by blast
    then have y': "state_ok ix y'" by (simp add: system_step_def)
    then have x': "state_ok ix x'" using iso_state_ok [OF iso_sym [OF \<sigma> xy']] by blast
    have at: "state_at [y, y'] i = y \<or> state_at [y, y'] i = y'" for i by (cases i) (simp_all add: state_at_def)
    have frame_y: "frame_constant ix [y, y']"
      unfolding frame_constant_def using at st unfolding system_step_def by metis
    note frame_x = iso_frame [OF su \<sigma> xy xy' frame_y]
    have at0: "state_at [s, s'] 0 = s" "state_at [s, s'] (Suc 0) = s'" for s s' by (simp_all add: state_at_def)
    have sys: "system_ok sig u (states_trace u ix [y, y'])" "system_ok sig u (states_trace u ix [x, x'])"
      by (rule states_trace_ok [OF su frame_y] states_trace_ok [OF su frame_x])+
    have ax: "\<forall>a\<in>set ?ax. holds (states_trace u ix [y, y']) 0 Map.empty a"
      "\<forall>a\<in>set ?ax. holds (states_trace u ix [x, x']) 0 Map.empty a"
      using translate_formula_value [OF su sys(1) follows_states_trace [OF su] ma axf, of 0] y(2)
        translate_formula_value [OF su sys(2) follows_states_trace [OF su] ma axf, of 0] x(2)
      by (simp_all add: at0)
    have same: "holds (states_trace u ix [y, y']) i Map.empty a \<longleftrightarrow> holds (states_trace u ix [x, x']) i Map.empty a"
      if "term_sort sig Map.empty a = Some Bool" for i a
    proof (rule iso_holds [OF su \<sigma> _ _ _ frame_x that])
      fix j assume "j < length [x, x']"
      then show "iso_states sig u ix \<sigma> ([x, x'] ! j) ([y, y'] ! j)" using xy xy' by (cases j) auto
    qed simp_all
    have ok: "state_ok ix (state_at [y, y'] 0)" "state_ok ix (state_at [y, y'] (Suc 0))"
      "state_ok ix (state_at [x, x'] 0)" "state_ok ix (state_at [x, x'] (Suc 0))"
      using x(1) y(1) x' y' by (simp_all add: at0)
    from step_iff [OF su fits chk p 2(1) sys(1) follows_states_trace [OF su] ok(1,2) ax(1)] step
    have "holds (states_trace u ix [y, y']) 0 Map.empty t \<and> (\<forall>a\<in>set ?ax. holds (states_trace u ix [y, y']) (Suc 0) Map.empty a)"
      by (simp add: at0)
    then have "holds (states_trace u ix [x, x']) 0 Map.empty t \<and> (\<forall>a\<in>set ?ax. holds (states_trace u ix [x, x']) (Suc 0) Map.empty a)"
      using same tt ma by blast
    with step_iff [OF su fits chk p 2(1) sys(2) follows_states_trace [OF su] ok(3,4) ax(2)]
    show ?thesis by (simp add: at0)
  qed
qed

section \<open>The search on the translated program\<close>

lemma translated_in_range:
  assumes su: "set_setup it ho sig u ix" and doc: "bdd_doc (ix_num_vars ix) lib den" and fits: "fits ix"
    and chk: "checkable sig d" and p: "translate_system ho it lib sig u ix d = Some (Inr p)"
  shows "program_in_range p"
proof -
  from p obtain axf trs0 where
    trs0: "translate_transitions it sig u ix (dm_transitions d) = Some (Inr trs0)"
    and trs: "filter_axioms axf (expand_transitions ho ix trs0) = Inr (bp_trs p)"
    and safe: "translate_formula it sig u ix (term_and (map (\<lambda>p. sp_x (sf_safety p)) (dm_proofs d))) = Some (Inr (bp_safe p))"
    by (rule translate_systemE)
  have "transition_in_range tn" if "tn \<in> set (bp_trs p)" for tn
    using trs0
  proof (cases rule: translate_transitionsE)
    case 1
    with trs that show ?thesis by (simp add: expand_transitions_def filter_axioms_def)
  next
    case (2 t e)
    from that filter_axioms_set(1) [OF trs] have "tn \<in> set (expand_transitions ho ix trs0)" by simp
    then obtain b where b: "b \<in> set trs0" and tb: "tn \<in> set (map drop_noops (expand_cube b (unconstrained_indices ho ix b)))"
      unfolding expanded_transitions_iff by blast
    from list_all2_members [OF collect_presult_map_InrD [OF 2(3)], of "\<lambda>b. \<exists>d. enumerated_to_transition ix d = Some (Inr b)"] b
    obtain e' where "enumerated_to_transition ix e' = Some (Inr b)" by blast
    from indexed_in_range [OF fits expanded_member(2) [OF su this tb]] show ?thesis .
  qed
  moreover have "formula_in_range (bp_safe p)"
  proof -
    from safe obtain e where "enumerated_to_formula ix e = Some (Inr (bp_safe p))"
      by (auto simp: translate_formula_def bind_pr_Inr)
    from enumerated_to_formula_indexed [OF su this] fits show ?thesis
      by (auto simp: formula_indexed_def formula_in_range_def fits_def)
  qed
  moreover have "length s = state_len" if "s \<in> set (bp_inits p)" for s
    using init_iff(3) [OF su doc chk p states_trace_ok [OF su single_frame] that] by (simp add: state_ok_def)
  ultimately show ?thesis by (simp add: program_in_range_def)
qed

lemma copies_in_range:
  assumes su: "set_setup it ho sig u ix" and fits: "fits ix"
    and perms: "set perms = entry_copies ho sig ix ` Collect (valid_perm u)"
  shows "perms_in_range perms"
proof -
  have "src < state_len \<and> dst < state_len" if \<sigma>: "valid_perm u \<sigma>" and "(src, dst) \<in> set (entry_copies ho sig ix \<sigma>)" for \<sigma> src dst
  proof -
    from that(2) obtain r es b where e: "(r, es, src, b) \<in> set (index_entries ho ix)"
      and dst: "dst = copy_target sig ix \<sigma> r es" by (auto simp: entry_copies_def)
    from entries_slot [OF su e] obtain d where d: "index_slot sig u d es" "rd_name d = r" "entry ix r es src b" by blast
    from copy_target_entry [OF su \<sigma> d(1)] d(2,3) dst have "is_index ix src" "is_index ix dst"
      unfolding is_index_def by blast+
    with fits show ?thesis by (simp add: fits_def)
  qed
  then show ?thesis by (auto simp: perms_in_range_def perms)
qed

text \<open>The states that a run can reach: proper states that satisfy the mutable axioms.\<close>

definition axiom_state :: "indices \<Rightarrow> formula \<Rightarrow> bounded_state \<Rightarrow> bool" where
  "axiom_state ix axf s \<longleftrightarrow> state_ok ix s \<and> feval ((!) s) axf"

lemma translated_symmetric:
  assumes su: "set_setup it ho sig u ix" and doc: "bdd_doc (ix_num_vars ix) lib den" and fits: "fits ix"
    and chk: "checkable sig d" and p: "translate_system ho it lib sig u ix d = Some (Inr p)"
    and axf: "translate_formula it sig u ix (term_and (mutable_axioms d (sig_relations sig))) = Some (Inr axf)"
    and perms: "set perms = entry_copies ho sig ix ` Collect (valid_perm u)"
  shows "symmetric_program p perms (axiom_state ix axf)"
proof -
  have ok: "length x = state_len" if "axiom_state ix axf x" for x
    using that by (simp add: axiom_state_def state_ok_def)
  note orbit = orbit_iso [OF su fits _ perms]
  have inits: "axiom_state ix axf s" if "s \<in> set (bp_inits p)" for s
    using run_states [OF su doc chk p run_init [OF that] axf, of 0] by (simp add: axiom_state_def)
  have steps: "axiom_state ix axf y" if x: "axiom_state ix axf x" and step: "program_step p x y" for x y
  proof -
    from p obtain trs0 where
      trs0: "translate_transitions it sig u ix (dm_transitions d) = Some (Inr trs0)"
      and trs: "filter_axioms axf (expand_transitions ho ix trs0) = Inr (bp_trs p)"
      and sane: "list_all (transition_sane sig (indices_to_sets ho ix)) (bp_trs p)"
      by (rule translate_systemE) (use axf in simp)
    from trs0 show ?thesis
    proof (cases rule: translate_transitionsE)
      case 1
      with trs have "bp_trs p = []" by (simp add: expand_transitions_def filter_axioms_def)
      with step show ?thesis by (simp add: program_step_def)
    next
      case (2 t e)
      from translated_steps [OF su fits 2(3) trs sane, of x y] x step have "system_step ix e axf x y"
        unfolding program_step_def axiom_state_def by blast
      then show ?thesis by (simp add: system_step_def axiom_state_def)
    qed
  qed
  have refl: "x \<in> orbit perms x" if "axiom_state ix axf x" for x
    using orbit [OF ok [OF that]] valid_id iso_refl by blast
  have trans: "z \<in> orbit perms x" if x: "axiom_state ix axf x" and y: "y \<in> orbit perms x" and z: "z \<in> orbit perms y" for x y z
  proof -
    have "length y = state_len" using orbit_length [OF y] ok [OF x] by simp
    with z y orbit obtain \<sigma> \<rho> where "valid_perm u \<sigma>" "iso_states sig u ix \<sigma> x y" "valid_perm u \<rho>" "iso_states sig u ix \<rho> y z"
      using ok [OF x] by metis
    with iso_trans [OF su] valid_comp orbit [OF ok [OF x]] show ?thesis by blast
  qed
  have bisim: "\<exists>x'. program_step p x x' \<and> y' \<in> orbit perms x'"
    if x: "axiom_state ix axf x" and y: "y \<in> orbit perms x" and step: "program_step p y y'" for x y y'
  proof -
    from y orbit [OF ok [OF x]] obtain \<sigma> where \<sigma>: "valid_perm u \<sigma>" and xy: "iso_states sig u ix \<sigma> x y" by blast
    have y': "length y' = state_len" using program_step_length [OF step] orbit_length [OF y] ok [OF x] by simp
    let ?\<tau> = "inverse_perm u \<sigma>" and ?x' = "permuted (entry_copies ho sig ix (inverse_perm u \<sigma>)) y'"
    have xy': "iso_states sig u ix \<sigma> ?x' y'"
    proof -
      have iso: "iso_states sig u ix (inverse_perm u ?\<tau>) ?x' y'"
        by (rule iso_sym [OF valid_inverse [OF \<sigma>] permuted_iso [OF su fits valid_inverse [OF \<sigma>] y']])
      have "rename_slot (inverse_perm u ?\<tau>) d es = rename_slot \<sigma> d es" if "es \<in> relation_tuples u d" for d es
        using \<sigma> that by (metis rename_slot_inverse(2) rename_slot_ok valid_inverse)
      with iso show ?thesis unfolding iso_states_def index_slot_def by metis
    qed
    have "program_step p x ?x'"
      using iso_step [OF su fits chk p axf \<sigma> xy xy' _ _ step] x by (simp add: axiom_state_def)
    moreover have "y' \<in> orbit perms ?x'" using orbit [of ?x' y'] y' \<sigma> xy' by auto
    ultimately show ?thesis by blast
  qed
  have safe: "feval ((!) y) (bp_safe p) = feval ((!) x) (bp_safe p)" if x: "axiom_state ix axf x" and y: "y \<in> orbit perms x" for x y
  proof -
    from y orbit [OF ok [OF x]] obtain \<sigma> where \<sigma>: "valid_perm u \<sigma>" "iso_states sig u ix \<sigma> x y" by blast
    have "translate_formula it sig u ix (term_and (map (\<lambda>p. sp_x (sf_safety p)) (dm_proofs d))) = Some (Inr (bp_safe p))"
      by (rule translate_systemE [OF p])
    from iso_formula [OF su \<sigma> checkable_parts(3) [OF chk] this] show ?thesis .
  qed
  show ?thesis unfolding symmetric_program_def using inits ok steps refl trans bisim safe by blast
qed

lemma translated_search:
  assumes su: "set_setup it ho sig u ix" and doc: "bdd_doc (ix_num_vars ix) lib den"
    and chk: "checkable sig d" and p: "translate_system ho it lib sig u ix d = Some (Inr p)"
    and children: "hash_children_doc ho" and uni: "hash_universe_doc ho u"
  shows "\<exists>r. interpret_program ho it p md c ix = Some r"
    and "fits ix \<Longrightarrow> interpret_program ho it p md c ix = Some r \<Longrightarrow> program_run p ss
      \<Longrightarrow> r = SearchConvergence \<or> r = SearchUnknown \<and> within_depth md ss \<Longrightarrow> feval ((!) (last ss)) (bp_safe p)"
proof -
  from iso_new_orderings [OF su uni] obtain seen0 where seen0: "iso_new ho it ix = Some seen0"
    and perms: "set (iso_orderings seen0) = entry_copies ho sig ix ` Collect (valid_perm u)" by blast
  from p obtain axf where
    axf: "translate_formula it sig u ix (term_and (mutable_axioms d (sig_relations sig))) = Some (Inr axf)"
    by (rule translate_systemE)
  show "\<exists>r. interpret_program ho it p md c ix = Some r"
  proof (cases "fits ix")
    case True
    have "y \<in> orbit (iso_orderings seen0) y" if "length y = state_len" for y
      using orbit_iso [OF su True that perms] valid_id iso_refl by blast
    with search_returns [OF children translated_in_range [OF su doc True chk p] seen0 copies_in_range [OF su True perms]]
    show ?thesis by blast
  next
    case False
    have "bp_inits p = []"
    proof (rule ccontr)
      assume "bp_inits p \<noteq> []"
      then obtain s where "s \<in> set (bp_inits p)" by (cases "bp_inits p") auto
      from init_iff(3) [OF su doc chk p states_trace_ok [OF su single_frame] this] False show False by blast
    qed
    then show ?thesis by (simp add: interpret_program_def seen0 search_loop.simps)
  qed
  assume fits: "fits ix" and r: "interpret_program ho it p md c ix = Some r" and run: "program_run p ss"
    and verdict: "r = SearchConvergence \<or> r = SearchUnknown \<and> within_depth md ss"
  from search_verdicts [OF children translated_in_range [OF su doc fits chk p] seen0 copies_in_range [OF su fits perms]
      translated_symmetric [OF su doc fits chk p axf perms] r] run verdict
  show "feval ((!) (last ss)) (bp_safe p)" by blast
qed

section \<open>The answers of the checker\<close>

lemma no_violation:
  assumes lib: "set_libraries_doc ho it libs den (mod_signature m) u" and uni: "hash_universe_doc ho u"
    and names: "plain_names (mod_signature m)"
    and ext: "extract_module m = Some (Inr d)" and chk: "checkable (mod_signature m) d" and t: "dm_transitions d = [t]"
    and ans: "set_check ho it libs m u md c = Some (Inr a)"
    and sys: "system_ok (mod_signature m) u tr" and exec: "system_run d n tr"
    and verdict: "a = Convergence () \<or> a = Unknown \<and> within_steps md n"
  shows "\<not> unsafe_at d n tr"
proof -
  let ?sig = "mod_signature m"
  from ans obtain p ix r where tr: "set_translate ho it libs m u = Some (Inr (p, ix))"
    and r: "interpret_program ho it p md c ix = Some r"
    and ra: "r = SearchUnknown \<and> a = Unknown \<or> r = SearchConvergence \<and> a = Convergence ()
      \<or> (\<exists>trace ms. r = SearchCounterexample trace \<and> a = Counterexample ms \<and> trace_models it ix c trace = Some ms)"
    by (rule set_checkE)
  from set_translateE [OF lib names ext tr] have su: "set_setup it ho ?sig u ix"
    and doc: "bdd_doc (ix_num_vars ix) (libs (ix_num_vars ix)) (den (ix_num_vars ix))"
    and p: "translate_system ho it (libs (ix_num_vars ix)) ?sig u ix d = Some (Inr p)"
    and children: "hash_children_doc ho" by blast+
  let ?ss = "map (trace_state ix tr) [0..<Suc n]"
  from trace_run [OF su doc chk p t sys exec] have fits: "fits ix" and run: "program_run p ?ss" by blast+
  have "r = SearchConvergence \<or> r = SearchUnknown \<and> within_depth md ?ss"
    using verdict ra within_depth_steps [of ?ss md] by auto
  from translated_search(2) [OF su doc chk p children uni fits r run this]
  have safe: "feval ((!) (trace_state ix tr n)) (bp_safe p)" by simp
  have f: "translate_formula it ?sig u ix (term_and (map (\<lambda>p. sp_x (sf_safety p)) (dm_proofs d))) = Some (Inr (bp_safe p))"
    by (rule translate_systemE [OF p])
  from translate_formula_value [OF su sys follows_trace_state [OF su fits] checkable_parts(3) [OF chk] f, of n] safe
  show ?thesis by (auto simp: unsafe_at_def)
qed

lemma translated_answer:
  assumes lib: "set_libraries_doc ho it libs den (mod_signature m) u" and uni: "hash_universe_doc ho u"
    and names: "plain_names (mod_signature m)" and decl: "sorts_declared (mod_signature m) u"
    and ext: "extract_module m = Some (Inr d)" and chk: "checkable (mod_signature m) d"
    and tr: "set_translate ho it libs m u = Some (Inr (p, ix))"
  shows "\<exists>a. set_check ho it libs m u md c = Some (Inr a)"
proof -
  let ?sig = "mod_signature m"
  from set_translateE [OF lib names ext tr] have su: "set_setup it ho ?sig u ix"
    and doc: "bdd_doc (ix_num_vars ix) (libs (ix_num_vars ix)) (den (ix_num_vars ix))"
    and p: "translate_system ho it (libs (ix_num_vars ix)) ?sig u ix d = Some (Inr p)"
    and children: "hash_children_doc ho" by blast+
  note D = set_setupD [OF su]
  from translated_search(1) [OF su doc chk p children uni] obtain r where r: "interpret_program ho it p md c ix = Some r" by blast
  show ?thesis
  proof (cases r)
    case (SearchCounterexample trace)
    from search_counterexample [OF children r [unfolded SearchCounterexample]] obtain ss
      where run: "program_run p ss" and trace: "trace = trace_of c ss" by blast
    note rt = run_trace [OF su doc chk p run]
    have model: "\<exists>mo. state_model it ix (state_at ss i) = Some mo" for i
    proof -
      have "Option.bind (indices_get ix f 0 xs) (\<lambda>k. map_option of_bool (state_get (state_at ss i) k))
          = Option.bind (indices_get ix f 0 xs) (\<lambda>k. Some (of_bool (state_at ss i ! k) :: nat))" for f xs
        using single_copy(2) [OF su, of f 0 xs] rt(1) by (cases "indices_get ix f 0 xs") (auto simp: state_get_def fits_def)
      then have "state_model it ix (state_at ss i) = indices_model it ix 0 (\<lambda>k. Some (of_bool (state_at ss i ! k)))"
        unfolding state_model_def indices_model_def by (simp only:)
      with indices_model_returns [OF D(1,3,5,4) _ _ decl, of 0 "\<lambda>k. of_bool (state_at ss i ! k)"] show ?thesis by simp
    qed
    have ne: "ss \<noteq> []" by (rule program_run_nonempty [OF run])
    have "\<exists>mo. state_model it ix s = Some mo" if s: "s \<in> set ss" for s
    proof -
      from s obtain i where "i < length ss" "s = ss ! i" by (auto simp: in_set_conv_nth)
      then have "s = state_at ss i" by (simp add: state_at_def min_absorb1)
      with model show ?thesis by simp
    qed
    moreover from this [OF last_in_set [OF ne]] obtain mo where "state_model it ix (last ss) = Some mo" by blast
    ultimately have "\<exists>ms. trace_models it ix c trace = Some ms"
      using those_map_ex [of ss "state_model it ix"] by (cases c) (simp_all add: trace)
    then show ?thesis by (auto simp: set_check_def tr bind_pr_def r SearchCounterexample)
  qed (simp_all add: set_check_def tr bind_pr_def r)
qed




section \<open>Concrete runs\<close>

text \<open>Whether a run of the checker converged, and the number of models of its counterexample.\<close>

fun converged :: "(checker_error + unit checker_answer) option \<Rightarrow> bool" where
  "converged (Some (Inr (Convergence _))) = True"
| "converged _ = False"

fun trace_length :: "(checker_error + unit checker_answer) option \<Rightarrow> nat option" where
  "trace_length (Some (Inr (Counterexample ms))) = Some (length ms)"
| "trace_length _ = None"

lemma convergedD: "converged r \<Longrightarrow> r = Some (Inr (Convergence ()))"
  by (cases r rule: converged.cases) simp_all

lemma trace_lengthD: "trace_length r = Some n \<Longrightarrow> \<exists>ms. r = Some (Inr (Counterexample ms)) \<and> length ms = n"
  by (cases r rule: trace_length.cases) simp_all

lemma flag_indices_new: "indices_new itertools_ref one_prop_sig Map.empty 1 = Some ix
  \<Longrightarrow> ix_indices ix = ix_indices flag_indices"
  by (simp add: indices_new_def one_prop_sig_def relation_elements_def insert_indices_def entry_insert_def
      flag_indices_def Let_def mcp_fixed_eq upto_lists_def split: if_splits)

lemma flag_libraries: "set_libraries_doc flag_orders itertools_ref table_bdds table_den one_prop_sig Map.empty"
proof -
  have "hash_indices_doc flag_orders ix" if "indices_new itertools_ref one_prop_sig Map.empty 1 = Some ix" for ix
    by (simp add: hash_indices_doc_def flag_indices_new [OF that]) (simp add: flag_orders_def flag_indices_def)
  then show ?thesis
    using itertools_doc_ref flag_orders_doc table_bdds_doc by (simp add: set_libraries_doc_def)
qed

lemma flag_universe: "hash_universe_doc flag_orders Map.empty"
  by (simp add: hash_universe_doc_def flag_orders_def)

lemma one_prop_declared: "sorts_declared one_prop_sig Map.empty"
  by (simp add: sorts_declared_def one_prop_sig_def)

lemma one_step_facts:
  "mod_signature (one_step_module t) = one_prop_sig" "dm_transitions (one_step_system t) = [t]"
  by (simp_all add: one_step_module_def one_step_system_def)



lemma flip_translates:
  "\<exists>p ix. set_translate flag_orders itertools_ref table_bdds (one_step_module (p_becomes (UnaryOp NotOp (Id ''p'')))) Map.empty
     = Some (Inr (p, ix))"
proof -
  have "trace_length (set_check flag_orders itertools_ref table_bdds
    (one_step_module (p_becomes (UnaryOp NotOp (Id ''p'')))) Map.empty None CompressNo) = Some 2" by code_simp
  from trace_lengthD [OF this] show ?thesis by (auto elim: set_checkE)
qed


text \<open>Without a transition formula the translated program has no steps at all: the checker answers
  \<open>Convergence\<close> for a module whose transition system, which constrains no step, violates the safety
  property after one step.\<close>

theorem set_check_no_transition:
  "set_check flag_orders itertools_ref table_bdds (safety_only [Id ''p'']) Map.empty None CompressNo
     = Some (Inr (Convergence ()))
   \<and> (\<exists>tr. system_ok one_prop_sig Map.empty tr \<and> system_run (one_prop_system [Id ''p''] []) 1 tr
        \<and> unsafe_at (one_prop_system [Id ''p''] []) 1 tr)"
proof -
  have "converged (set_check flag_orders itertools_ref table_bdds (safety_only [Id ''p'']) Map.empty None CompressNo)"
    by code_simp
  then have "set_check flag_orders itertools_ref table_bdds (safety_only [Id ''p'']) Map.empty None CompressNo
      = Some (Inr (Convergence ()))" by (rule convergedD)
  moreover have "system_run (one_prop_system [Id ''p''] []) 1 (one_prop_trace (\<lambda>i. i = 0))"
    "unsafe_at (one_prop_system [Id ''p''] []) 1 (one_prop_trace (\<lambda>i. i = 0))"
    by (simp_all add: system_run_def unsafe_at_def one_prop_system_def one_prop_trace_def)
  ultimately show ?thesis using one_prop_ok(1) by blast
qed

end
