(* ===== verification/Verify_Module.thy ===== *)
theory Verify_Module
  imports Fly_Transitions
begin

text \<open>
  Model of \<^verbatim>\<open>verify/src/safety.rs\<close>, \<^verbatim>\<open>verify/src/error.rs\<close> and \<^verbatim>\<open>verify/src/module.rs\<close>: proving safety
  properties with inductive invariants. The SMT solver is a parameter: what it answers when a
  number of formulas over a number of states of a signature are asserted, and the minimal model it
  then returns. Its answers are \<open>Option\<close>s, because the code calls \<open>expect\<close> on them. Parallel
  iteration over the consecution checks collects their results in order. Logging is left out.
\<close>

section \<open>Definitions\<close>

record invariant_assertion =
  ia_sig :: signature
  ia_init :: fterm
  ia_next :: fterm
  ia_assumed_inv :: fterm
  ia_inv :: "fterm spanned"
  ia_proof_invs :: "fterm spanned list"

datatype invariant_error = NotSafety | BadProofInvariant

definition for_assert ::
  "signature \<Rightarrow> fterm list \<Rightarrow> fterm list \<Rightarrow> fterm list \<Rightarrow> safety_proof
   \<Rightarrow> invariant_error + invariant_assertion" where
  "for_assert sig inits transitions axioms pf =
     Inr \<lparr>ia_sig = sig, ia_init = term_and inits,
          ia_next = next_normalize sig (term_and transitions),
          ia_assumed_inv = term_and axioms,
          ia_inv = sf_safety pf, ia_proof_invs = sf_invariants pf\<rparr>"

definition ia_invariants :: "invariant_assertion \<Rightarrow> fterm spanned list" where
  "ia_invariants ia = [ia_inv ia] @ ia_proof_invs ia"

definition inductive_invariant :: "invariant_assertion \<Rightarrow> fterm" where
  "inductive_invariant ia = term_and (map sp_x (ia_invariants ia))"

definition initiation :: "invariant_assertion \<Rightarrow> fterm option" where
  "initiation ia =
     (let lhs = term_and [ia_init ia, ia_assumed_inv ia]; rhs = inductive_invariant ia
      in first_order_new (term_implies lhs rhs))"

definition consecutions :: "invariant_assertion \<Rightarrow> (span option \<times> fterm) list option" where
  "consecutions ia =
     (let lhs = term_and [ia_assumed_inv ia, ia_next ia, next_prime (ia_sig ia) (ia_assumed_inv ia),
                          inductive_invariant ia]
      in those (map (\<lambda>iv. map_option (Pair (sp_span iv))
                   (first_order_new (term_implies lhs (next_prime (ia_sig ia) (sp_x iv)))))
           (ia_invariants ia)))"

datatype failure_type = InitInv | NotInductive | Unsupported

datatype query_error = QuerySat "model list" | QueryUnknown string

record assertion_failure =
  af_loc :: "span option"
  af_reason :: failure_type
  af_error :: query_error

type_synonym solve_error = "assertion_failure list"

definition solve_error_push :: "solve_error \<Rightarrow> assertion_failure \<Rightarrow> solve_error" where
  "solve_error_push fails e = fails @ [e]"

datatype sat_resp = RespSat | RespUnsat | RespUnknown string

record smt_solver =
  smt_check_sat :: "signature \<Rightarrow> nat \<Rightarrow> fterm list \<Rightarrow> sat_resp option"
  smt_minimal_model :: "signature \<Rightarrow> nat \<Rightarrow> fterm list \<Rightarrow> model list option"

definition verify_term :: "smt_solver \<Rightarrow> signature \<Rightarrow> nat \<Rightarrow> fterm \<Rightarrow> (query_error + unit) option" where
  "verify_term solver sig n_states t =
     (case smt_check_sat solver sig n_states [term_negate t] of
        None \<Rightarrow> None
      | Some RespSat \<Rightarrow>
          map_option (\<lambda>states. Inl (QuerySat states)) (smt_minimal_model solver sig n_states [term_negate t])
      | Some RespUnsat \<Rightarrow> Some (Inr ())
      | Some (RespUnknown msg) \<Rightarrow> Some (Inl (QueryUnknown msg)))"

definition check_initiation ::
  "smt_solver \<Rightarrow> signature \<Rightarrow> invariant_assertion \<Rightarrow> assertion_failure list option" where
  "check_initiation solver sig ia =
     (case initiation ia of None \<Rightarrow> None | Some t \<Rightarrow>
      (case verify_term solver sig 1 t of
         None \<Rightarrow> None
       | Some (Inr _) \<Rightarrow> Some []
       | Some (Inl cex) \<Rightarrow>
           Some [\<lparr>af_loc = sp_span (ia_inv ia), af_reason = InitInv, af_error = cex\<rparr>]))"

definition span_or :: "span option \<Rightarrow> span option \<Rightarrow> span option" where
  "span_or a b = (case a of Some s \<Rightarrow> Some s | None \<Rightarrow> b)"

definition check_consecution ::
  "smt_solver \<Rightarrow> signature \<Rightarrow> invariant_assertion \<Rightarrow> span option \<times> fterm
   \<Rightarrow> assertion_failure list option" where
  "check_consecution solver sig ia = (\<lambda>(loc, t).
     (case verify_term solver sig 2 t of
        None \<Rightarrow> None
      | Some (Inr _) \<Rightarrow> Some []
      | Some (Inl cex) \<Rightarrow>
          Some [\<lparr>af_loc = span_or loc (sp_span (ia_inv ia)), af_reason = NotInductive, af_error = cex\<rparr>]))"

definition check_invariant ::
  "smt_solver \<Rightarrow> signature \<Rightarrow> invariant_assertion \<Rightarrow> (assertion_failure list + unit) option" where
  "check_invariant solver sig ia =
     (case check_initiation solver sig ia of None \<Rightarrow> None | Some failures \<Rightarrow>
      (case consecutions ia of None \<Rightarrow> None | Some cs \<Rightarrow>
      (case those (map (check_consecution solver sig ia) cs) of None \<Rightarrow> None | Some new_failures \<Rightarrow>
        (let failures = failures @ concat new_failures
         in Some (if failures \<noteq> [] then Inl failures else Inr ())))))"

definition verify_proof ::
  "smt_solver \<Rightarrow> signature \<Rightarrow> destructured_module \<Rightarrow> safety_proof \<Rightarrow> fterm list \<times> solve_error
   \<Rightarrow> (fterm list \<times> solve_error) option" where
  "verify_proof solver sig d pf = (\<lambda>(axioms, errors).
     map_option (\<lambda>errors. (axioms @ [sp_x (sf_safety pf)], errors))
       (case for_assert sig (dm_inits d) (dm_transitions d) axioms pf of
          Inr ia \<Rightarrow>
            map_option (\<lambda>res. case res of Inl fails \<Rightarrow> errors @ fails | Inr _ \<Rightarrow> errors)
              (check_invariant solver sig ia)
        | Inl _ \<Rightarrow>
            Some (solve_error_push errors
                    \<lparr>af_loc = sp_span (sf_safety pf), af_reason = Unsupported,
                     af_error = QueryUnknown ''unsupported''\<rparr>)))"

definition verify_destructured_module ::
  "smt_solver \<Rightarrow> destructured_module \<Rightarrow> signature \<Rightarrow> (solve_error + unit) option" where
  "verify_destructured_module solver d sig =
     map_option (\<lambda>(axioms, errors). if errors = [] then Inr () else Inl errors)
       (fold_p (verify_proof solver sig d) (dm_proofs d) (dm_axioms d, []))"

definition verify_module :: "smt_solver \<Rightarrow> fmodule \<Rightarrow> (solve_error + unit) option" where
  "verify_module solver m =
     (case extract_module m of
        Some (Inr d) \<Rightarrow> verify_destructured_module solver d (mod_signature m)
      | _ \<Rightarrow> None)"

section \<open>Soundness\<close>

text \<open>The sorts of an SMT solver are not empty, so it only speaks of traces that have an element of every
  declared sort. The documented behaviour of the solver: when it answers \<open>unsat\<close>, no time point of any such
  trace of the signature satisfies all the first-order formulas it was given.\<close>

definition inhabited_trace :: "signature \<Rightarrow> fo_trace \<Rightarrow> bool" where
  "inhabited_trace sig tr \<longleftrightarrow> trace_ok sig tr \<and> (\<forall>s\<in>set (sig_sorts sig). 0 < tr_card tr (Uninterpreted s))"

lemma inhabited_trace_ok: "inhabited_trace sig tr \<Longrightarrow> trace_ok sig tr"
  by (simp add: inhabited_trace_def)

definition smt_doc :: "smt_solver \<Rightarrow> bool" where
  "smt_doc solver \<longleftrightarrow> (\<forall>sig n ts. smt_check_sat solver sig n ts = Some RespUnsat
     \<longrightarrow> (\<forall>t\<in>set ts. first_order_new t \<noteq> None)
     \<longrightarrow> (\<forall>tr i. inhabited_trace sig tr \<longrightarrow> immutable_frame sig tr \<longrightarrow> (\<exists>t\<in>set ts. \<not> holds tr i Map.empty t)))"

lemma first_order_new_SomeD: "first_order_new t = Some t' \<Longrightarrow> t' = t \<and> first_order_new t \<noteq> None"
  by (auto simp: first_order_new_def split: option.splits if_splits)

lemma first_order_new_negate: "first_order_new t \<noteq> None \<Longrightarrow> first_order_new (term_negate t) \<noteq> None"
  by (auto simp: first_order_new_def term_negate_def split: option.splits)

lemma verify_term_valid:
  assumes "smt_doc solver" and "verify_term solver sig n t = Some (Inr r)" and "first_order_new t \<noteq> None"
    and "inhabited_trace sig tr" and "immutable_frame sig tr"
  shows "teval tr i Map.empty t \<noteq> 0"
proof -
  have unsat: "smt_check_sat solver sig n [term_negate t] = Some RespUnsat"
    using assms(2) by (auto simp: verify_term_def split: option.splits sat_resp.splits)
  have fo: "\<forall>t'\<in>set [term_negate t]. first_order_new t' \<noteq> None"
    using first_order_new_negate [OF assms(3)] by simp
  from assms(1) unsat fo assms(4,5) have "\<exists>t'\<in>set [term_negate t]. \<not> holds tr i Map.empty t'"
    unfolding smt_doc_def by blast
  then show ?thesis by (simp add: term_negate_def)
qed

lemma holds_implies:
  "teval tr i a (term_implies l r) \<noteq> 0 \<longleftrightarrow> (holds tr i a l \<longrightarrow> holds tr i a r)"
  "0 < teval tr i a (term_implies l r) \<longleftrightarrow> (holds tr i a l \<longrightarrow> holds tr i a r)"
  by (simp_all add: term_implies_def)

lemma holds_next_prime:
  assumes "immutable_frame sig tr" and "no_past t"
  shows "holds tr i Map.empty (next_prime sig t) \<longleftrightarrow> holds tr (Suc i) Map.empty t"
proof -
  have "teval tr i Map.empty (next_prime sig t) = teval tr (Suc i) Map.empty t"
    using teval_with_next [OF assms(1), of "UnaryOp Prime t" i Map.empty 0] assms(2)
    by (simp add: next_prime_def next_normalize_def)
  then show ?thesis by simp
qed

lemma holds_next_normalize:
  assumes "immutable_frame sig tr" and "no_past t"
  shows "holds tr i Map.empty (next_normalize sig t) \<longleftrightarrow> holds tr i Map.empty t"
  using teval_with_next [OF assms, of i Map.empty 0] by (simp add: next_normalize_def)

text \<open>If all checks of one assertion pass, its invariants hold along every execution.\<close>

lemma check_invariant_sound:
  assumes doc: "smt_doc solver" and tr: "inhabited_trace sig tr" "immutable_frame sig tr"
    and past: "\<forall>t\<in>set axioms \<union> set transitions. no_past t"
      "\<forall>f\<in>insert (sf_safety pf) (set (sf_invariants pf)). no_past (sp_x f)"
    and ia: "for_assert sig inits transitions axioms pf = Inr ia"
    and ok: "check_invariant solver sig ia = Some (Inr r)"
    and init: "\<forall>t\<in>set inits. holds tr 0 Map.empty t"
    and step: "\<forall>j. \<forall>t\<in>set transitions. holds tr j Map.empty t"
    and ax: "\<forall>j. \<forall>t\<in>set axioms. holds tr j Map.empty t"
  shows "\<forall>f\<in>set (ia_invariants ia). holds tr j Map.empty (sp_x f)"
proof -
  have ia_eq: "ia_sig ia = sig" "ia_init ia = term_and inits" "ia_assumed_inv ia = term_and axioms"
    "ia_next ia = next_normalize sig (term_and transitions)"
    "ia_invariants ia = sf_safety pf # sf_invariants pf"
    using ia by (auto simp: for_assert_def ia_invariants_def)
  from ok obtain cs css where failures: "check_initiation solver sig ia = Some []"
    and cs: "consecutions ia = Some cs"
    and css: "those (map (check_consecution solver sig ia) cs) = Some css" and none: "concat css = []"
    by (auto simp: check_invariant_def Let_def split: option.splits if_splits)
  from failures obtain t0 u where t0: "initiation ia = Some t0" and v0: "verify_term solver sig 1 t0 = Some (Inr u)"
    by (auto simp: check_initiation_def split: option.splits sum.splits)
  have base: "\<forall>f\<in>set (ia_invariants ia). holds tr 0 Map.empty (sp_x f)"
  proof -
    have t0_eq: "t0 = term_implies (term_and [ia_init ia, ia_assumed_inv ia]) (inductive_invariant ia)"
      and fo: "first_order_new t0 \<noteq> None"
      using t0 first_order_new_SomeD by (auto simp: initiation_def Let_def)
    from verify_term_valid [OF doc v0 fo tr, of 0] init ax show ?thesis
      by (simp add: t0_eq holds_implies inductive_invariant_def sem_simps ia_eq)
  qed
  let ?lhs = "term_and [ia_assumed_inv ia, ia_next ia, next_prime (ia_sig ia) (ia_assumed_inv ia),
    inductive_invariant ia]"
  let ?f = "\<lambda>iv. map_option (Pair (sp_span iv))
    (first_order_new (term_implies ?lhs (next_prime (ia_sig ia) (sp_x iv))))"
  have each: "holds tr (Suc k) Map.empty (sp_x iv)"
    if iv: "iv \<in> set (ia_invariants ia)" and hyp: "\<forall>f\<in>set (ia_invariants ia). holds tr k Map.empty (sp_x f)"
    for iv k
  proof -
    let ?t = "term_implies ?lhs (next_prime (ia_sig ia) (sp_x iv))"
    from iv obtain n where n: "n < length (ia_invariants ia)" "ia_invariants ia ! n = iv"
      by (auto simp: in_set_conv_nth)
    have map: "those (map ?f (ia_invariants ia)) = Some cs" using cs by (simp add: consecutions_def Let_def)
    have "?f iv = Some (cs ! n)" using those_map_SomeD(2) [OF map n(1)] unfolding n(2) .
    then obtain z where z: "first_order_new ?t = Some z" and csz: "cs ! n = (sp_span iv, z)"
      by (auto simp: eq_commute [of _ "cs ! n"])
    from first_order_new_SomeD [OF z] csz
    have csn: "cs ! n = (sp_span iv, ?t)" and fo: "first_order_new ?t \<noteq> None" by simp_all
    have len: "n < length cs" using those_map_SomeD(1) [OF map] n(1) by simp
    have "check_consecution solver sig ia (cs ! n) = Some (css ! n)"
      by (rule those_map_SomeD(2) [OF css len])
    moreover have "css ! n = []" using none those_map_SomeD(1) [OF css] len by (simp add: nth_mem)
    ultimately obtain u where "verify_term solver sig 2 ?t = Some (Inr u)"
      by (auto simp: check_consecution_def csn split: option.splits sum.splits)
    from verify_term_valid [OF doc this fo tr, of k]
    have "holds tr k Map.empty ?lhs \<longrightarrow> holds tr k Map.empty (next_prime (ia_sig ia) (sp_x iv))"
      by (simp only: holds_implies(1))
    moreover have "holds tr k Map.empty ?lhs"
      using ax step hyp past(1)
      by (simp add: sem_simps ia_eq inductive_invariant_def holds_next_prime [OF tr(2)]
          holds_next_normalize [OF tr(2)] term_and_no_past)
    moreover have "no_past (sp_x iv)" using iv past(2) by (auto simp: ia_eq)
    ultimately show ?thesis by (simp add: ia_eq holds_next_prime [OF tr(2)])
  qed
  show ?thesis
    by (induction j) (use base each in blast)+
qed

lemma verify_proof_Some:
  assumes "verify_proof solver sig d pf (axioms, errors) = Some (axioms', errors')"
  obtains ia r where "axioms' = axioms @ [sp_x (sf_safety pf)]"
    and "for_assert sig (dm_inits d) (dm_transitions d) axioms pf = Inr ia"
    and "check_invariant solver sig ia = Some r"
    and "errors' = (case r of Inl fails \<Rightarrow> errors @ fails | Inr _ \<Rightarrow> errors)"
  using assms by (auto simp: verify_proof_def for_assert_def)

lemma check_invariant_Inl: "check_invariant solver sig ia = Some (Inl fails) \<Longrightarrow> fails \<noteq> []"
  by (auto simp: check_invariant_def Let_def split: option.splits if_splits)

lemma verify_proofs_errors:
  "fold_p (verify_proof solver sig d) pfs (axioms, errors) = Some (axioms', []) \<Longrightarrow> errors = []"
proof (induction pfs arbitrary: axioms errors)
  case (Cons pf pfs)
  then obtain axioms1 errors1 where
    first: "verify_proof solver sig d pf (axioms, errors) = Some (axioms1, errors1)"
    and rest: "fold_p (verify_proof solver sig d) pfs (axioms1, errors1) = Some (axioms', [])"
    by (auto split: option.splits)
  show ?case
    by (rule verify_proof_Some [OF first]) (use Cons.IH [OF rest] in \<open>auto split: sum.splits\<close>)
qed simp

lemma verify_proofs_sound:
  assumes doc: "smt_doc solver" and tr: "inhabited_trace sig tr" "immutable_frame sig tr"
    and init: "\<forall>t\<in>set (dm_inits d). holds tr 0 Map.empty t"
    and step: "\<forall>j. \<forall>t\<in>set (dm_transitions d). holds tr j Map.empty t"
    and past: "\<forall>t\<in>set (dm_transitions d). no_past t"
  shows "\<lbrakk> fold_p (verify_proof solver sig d) pfs (axioms, errors) = Some (axioms', []);
     \<forall>j. \<forall>t\<in>set axioms. holds tr j Map.empty t; \<forall>t\<in>set axioms. no_past t;
     \<forall>pf\<in>set pfs. \<forall>f\<in>insert (sf_safety pf) (set (sf_invariants pf)). no_past (sp_x f) \<rbrakk>
   \<Longrightarrow> errors = [] \<and> (\<forall>pf\<in>set pfs. \<forall>f\<in>insert (sf_safety pf) (set (sf_invariants pf)).
         \<forall>j. holds tr j Map.empty (sp_x f))"
proof (induction pfs arbitrary: axioms errors)
  case Nil
  then show ?case by simp
next
  case (Cons pf pfs)
  from Cons.prems(1) obtain axioms1 errors1 where
    first: "verify_proof solver sig d pf (axioms, errors) = Some (axioms1, errors1)"
    and rest: "fold_p (verify_proof solver sig d) pfs (axioms1, errors1) = Some (axioms', [])"
    by (auto split: option.splits)
  from first obtain ia r where ax1: "axioms1 = axioms @ [sp_x (sf_safety pf)]"
    and ia: "for_assert sig (dm_inits d) (dm_transitions d) axioms pf = Inr ia"
    and r: "check_invariant solver sig ia = Some r"
    and err: "errors1 = (case r of Inl fails \<Rightarrow> errors @ fails | Inr _ \<Rightarrow> errors)"
    by (rule verify_proof_Some)
  have invs: "ia_invariants ia = sf_safety pf # sf_invariants pf"
    using ia by (auto simp: for_assert_def ia_invariants_def)
  show ?case
  proof (cases r)
    case (Inl fails)
    have "errors1 = []" by (rule verify_proofs_errors [OF rest])
    with err Inl check_invariant_Inl [of solver sig ia fails] r show ?thesis by simp
  next
    case (Inr u)
    have sound: "\<forall>f\<in>set (ia_invariants ia). holds tr j Map.empty (sp_x f)" for j
      by (rule check_invariant_sound [OF doc tr _ _ ia r [unfolded Inr] init step Cons.prems(2)])
        (use past Cons.prems(3,4) in auto)
    have "errors1 = [] \<and> (\<forall>pf\<in>set pfs. \<forall>f\<in>insert (sf_safety pf) (set (sf_invariants pf)).
         \<forall>j. holds tr j Map.empty (sp_x f))"
      by (rule Cons.IH [OF rest]) (use Cons.prems sound in \<open>auto simp: ax1 invs\<close>)
    with sound err Inr show ?thesis by (auto simp: invs)
  qed
qed

text \<open>C1: \<open>verify_module\<close> is sound: if it answers \<open>Ok\<close>, then on every trace that has an element of every sort,
  keeps immutable symbols fixed and satisfies the module's assumptions, all its assertions hold, provided the
  solver is right when it answers \<open>unsat\<close> (over non-empty sorts, as in SMT-LIB). (This includes that an
  assertion may be used as an assumption for the later ones.)\<close>

theorem verify_module_sound:
  assumes "smt_doc solver" and "verify_module solver m = Some (Inr ())"
    and "inhabited_trace (mod_signature m) tr" and "immutable_frame (mod_signature m) tr"
    and "statements_assumed tr m"
  shows "statements_asserted tr m"
proof -
  from assms(2) obtain d axioms where d: "extract_module m = Some (Inr d)"
    and run: "fold_p (verify_proof solver (mod_signature m) d) (dm_proofs d) (dm_axioms d, [])
      = Some (axioms, [])"
    by (auto simp: verify_module_def verify_destructured_module_def split: option.splits sum.splits if_splits)
  note mean = extract_module_statements [OF d assms(4)]
  from mean assms(5) have "system_trace d tr" by simp
  then have sys: "\<forall>t\<in>set (dm_inits d). holds tr 0 Map.empty t"
    "\<forall>j. \<forall>t\<in>set (dm_transitions d). holds tr j Map.empty t"
    "\<forall>j. \<forall>t\<in>set (dm_axioms d). holds tr j Map.empty t"
    by (auto simp: system_trace_def)
  have np: "first_order_unrolling t = Some (Some n) \<Longrightarrow> no_past t" for t n
    using unrolling_no_past by (simp add: first_order_unrolling_eq)
  note un = extract_module_unrollings [OF d]
  have "\<forall>t\<in>set (dm_transitions d). no_past t" "\<forall>t\<in>set (dm_axioms d). no_past t"
    "\<forall>pf\<in>set (dm_proofs d). \<forall>f\<in>insert (sf_safety pf) (set (sf_invariants pf)). no_past (sp_x f)"
    using un np by blast+
  with verify_proofs_sound [OF assms(1,3,4) sys(1,2) _ run sys(3)] mean show ?thesis by blast
qed

text \<open>A solver that only recognises implications from a conjunction to one of its members.\<close>

definition member_solver :: smt_solver where
  "member_solver =
     \<lparr>smt_check_sat = (\<lambda>sig n ts. Some (case ts of
          [UnaryOp NotOp (BinOp Implies (NAryOp And xs) y)] \<Rightarrow>
            if y \<in> set xs then RespUnsat else RespUnknown ''incomplete''
        | _ \<Rightarrow> RespUnknown ''incomplete'')),
      smt_minimal_model = (\<lambda>_ _ _. None)\<rparr>"

lemma member_solver_doc: "smt_doc member_solver"
  by (auto simp: smt_doc_def member_solver_def split: list.splits fterm.splits uop.splits binop.splits
      nop.splits if_splits)

definition invariant_module :: fmodule where
  "invariant_module =
     \<lparr>mod_signature = pq_sig, mod_defs = [],
      mod_statements =
        [Assume (Id ''p''), Assume (UnaryOp Always (UnaryOp Prime (Id ''p''))),
         Assert \<lparr>p_assert = \<lparr>sp_x = UnaryOp Always (Id ''p''), sp_span = None\<rparr>, p_invariants = []\<rparr>]\<rparr>"

theorem verify_module_sound_witness:
  "verify_module member_solver invariant_module = Some (Inr ())
   \<and> statements_asserted (pq_trace\<lparr>tr_fun := \<lambda>_ _ _. 1\<rparr>) invariant_module"
proof -
  let ?tr = "pq_trace\<lparr>tr_fun := \<lambda>_ _ _. 1\<rparr>"
  have ok: "verify_module member_solver invariant_module = Some (Inr ())" by code_simp
  have "inhabited_trace (mod_signature invariant_module) ?tr" "immutable_frame (mod_signature invariant_module) ?tr"
    "statements_assumed ?tr invariant_module"
    by (auto simp: inhabited_trace_def trace_ok_def immutable_frame_def pq_trace_def statements_assumed_def
      invariant_module_def pq_sig_def)
  from verify_module_sound [OF member_solver_doc ok this] ok show ?thesis by blast
qed

end
