(* ===== verification/Verify_Lookahead.thy ===== *)
theory Verify_Lookahead
  imports Verify_Module
begin

text \<open>
  How far ahead the formulas of a query look: the bound that the number of states given to the SMT solver
  has to respect, for the smart constructors and the primes of \<^verbatim>\<open>fly/src/term/prime.rs\<close>.
\<close>

text \<open>Terms that look at most \<open>n\<close> states ahead; primes add one state each.\<close>

definition within_lookahead :: "nat \<Rightarrow> fterm \<Rightarrow> bool" where
  "within_lookahead n t \<longleftrightarrow> (\<exists>k\<le>n. first_order_unrolling t = Some (Some k))"

lemma within_lookahead_iff: "within_lookahead n t \<longleftrightarrow> (\<exists>k\<le>n. term_unrolling t = Some (Finite k))"
  by (simp add: within_lookahead_def first_order_unrolling_eq)

lemma lookahead_mono: "within_lookahead n t \<Longrightarrow> n \<le> m \<Longrightarrow> within_lookahead m t"
  unfolding within_lookahead_def by (meson le_trans)

lemma lookahead_no_past: "within_lookahead n t \<Longrightarrow> no_past t"
  by (auto simp: within_lookahead_iff intro: unrolling_no_past)

lemma lookahead_prime:
  assumes "within_lookahead n t"
  shows "within_lookahead (Suc n) (next_prime sig t)"
proof -
  from assms obtain k where k: "k \<le> n" "term_unrolling t = Some (Finite k)" by (auto simp: within_lookahead_iff)
  then have "term_unrolling (UnaryOp Prime t) = Some (Finite (Suc k))" by simp
  from with_next_unrolling [OF this, of 0 sig "{}"] k(1) show ?thesis
    unfolding within_lookahead_iff next_prime_def next_normalize_def by (metis add_0_right le_trans Suc_le_mono)
qed

lemma lookahead_primes: "within_lookahead n t \<Longrightarrow> within_lookahead (n + i) ((next_prime sig ^^ i) t)"
  by (induction i) (simp_all add: lookahead_prime)

lemma lookahead_and:
  assumes "\<forall>t\<in>set ts. within_lookahead n t"
  shows "within_lookahead n (term_and ts)"
proof -
  have nary: "\<forall>t\<in>set ts. within_lookahead n t" if "within_lookahead n (NAryOp op ts)" for op ts
  proof -
    from that obtain k where "k \<le> n" "max_unrolling (map term_unrolling ts) = Some (Finite k)"
      by (auto simp: within_lookahead_iff)
    with max_unrolling_Finite [OF this(2)] show ?thesis unfolding within_lookahead_iff by (auto intro: le_trans)
  qed
  have flat: "\<forall>t\<in>set (flatten_terms_of_op ts And). within_lookahead n t"
    by (rule flatten_preserves [OF assms nary])
  then have "within_lookahead n (NAryOp And (flatten_terms_of_op ts And))"
    using max_unrollingI [of "map term_unrolling (flatten_terms_of_op ts And)" n]
    by (auto simp: within_lookahead_iff)
  moreover have "within_lookahead n (last ts)" if "ts \<noteq> []" using assms that by simp
  ultimately show ?thesis by (simp add: term_and_def term_true_def) (simp add: within_lookahead_iff)
qed

lemma holds_primes:
  assumes "immutable_frame sig tr" and "within_lookahead n t"
  shows "holds tr i Map.empty ((next_prime sig ^^ k) t) \<longleftrightarrow> holds tr (i + k) Map.empty t"
proof (induction k arbitrary: i)
  case (Suc k)
  have "no_past ((next_prime sig ^^ k) t)" using lookahead_no_past [OF lookahead_primes [OF assms(2)]] .
  with Suc holds_next_prime [OF assms(1)] show ?case by simp
qed simp

end
