(* ===== verification/Bounded_Smt.thy ===== *)
theory Bounded_Smt
  imports Bounded_System Verify_Lookahead
begin

text \<open>
  Model of \<^verbatim>\<open>bounded/src/smt.rs\<close>: bounded model checking with an SMT solver. The transition formula
  and the negated safety property are primed once per step and conjoined with the initial condition;
  the solver (the same parameter as in \<open>Verify_Module\<close>) is asked about one formula over
  \<open>depth + 1\<close> states. Timing output is left out.
\<close>

section \<open>Definitions\<close>

text \<open>The loop that builds the program: the formulas so far, the transition, the negated safety.\<close>

fun smt_unroll :: "signature \<Rightarrow> nat \<Rightarrow> fterm list \<times> fterm \<times> fterm \<Rightarrow> fterm list \<times> fterm \<times> fterm" where
  "smt_unroll sig 0 (program, tr, not_safe) = (program, tr, not_safe)"
| "smt_unroll sig (Suc n) (program, tr, not_safe) =
     smt_unroll sig n (program @ [tr], next_prime sig tr, next_prime sig not_safe)"

definition smt_program :: "signature \<Rightarrow> destructured_module \<Rightarrow> nat \<Rightarrow> fterm list" where
  "smt_program sig d depth =
     (let inits = dm_inits d @ dm_axioms d;
          transitions = dm_transitions d @ mutable_axioms d (sig_relations sig);
          safeties = map (\<lambda>p. sp_x (sf_safety p)) (dm_proofs d);
          (program, tr, not_safe) =
            smt_unroll sig depth ([term_and inits], term_and transitions, term_negate (term_and safeties))
      in program @ [not_safe])"

definition smt_check :: "smt_solver \<Rightarrow> fmodule \<Rightarrow> nat \<Rightarrow> (checker_error + unit checker_answer) option" where
  "smt_check solver m depth =
     (if mod_defs m \<noteq> [] then None
      else case extract_module m of
          None \<Rightarrow> None
        | Some (Inl e) \<Rightarrow> Some (Inl (ExtractionError e))
        | Some (Inr d) \<Rightarrow>
            (let sig = mod_signature m; query = [term_and (smt_program sig d depth)] in
             case smt_check_sat solver sig (depth + 1) query of
               None \<Rightarrow> None
             | Some RespSat \<Rightarrow>
                 map_option (\<lambda>states. Inr (Counterexample states))
                   (smt_minimal_model solver sig (depth + 1) query)
             | Some RespUnsat \<Rightarrow> Some (Inr Unknown)
             | Some (RespUnknown msg) \<Rightarrow> Some (Inl (SolverError msg))))"

section \<open>Unrolling\<close>

lemma smt_unroll_eq:
  "smt_unroll sig n (program, tr, not_safe)
    = (program @ map (\<lambda>i. (next_prime sig ^^ i) tr) [0..<n], (next_prime sig ^^ n) tr, (next_prime sig ^^ n) not_safe)"
proof (induction n arbitrary: program tr not_safe)
  case (Suc n)
  have "tr # map (\<lambda>i. (next_prime sig ^^ i) (next_prime sig tr)) [0..<n]
      = map (\<lambda>i. (next_prime sig ^^ i) tr) [0..<Suc n]"
    unfolding map_upt_Suc by (simp add: funpow_swap1)
  with Suc show ?case by (simp add: funpow_swap1 del: upt_Suc)
qed simp

section \<open>Correctness\<close>

text \<open>What a model says about one state of a trace, and the documented behaviour of the solver when it
  answers \<open>sat\<close>: its models are the states of a trace that satisfies the formulas.\<close>

definition state_of_model :: "signature \<Rightarrow> fo_trace \<Rightarrow> nat \<Rightarrow> model \<Rightarrow> bool" where
  "state_of_model sig tr i mo \<longleftrightarrow>
     (\<forall>r\<in>set (sig_relations sig). \<forall>vs. list_all2 (\<lambda>v s. v < tr_card tr s) vs (rd_args r)
        \<longrightarrow> model_value mo (rd_name r) vs = Some (tr_fun tr i (rd_name r) vs))"

definition smt_model_doc :: "smt_solver \<Rightarrow> bool" where
  "smt_model_doc solver \<longleftrightarrow> (\<forall>sig n ts ms. smt_check_sat solver sig (n + 1) ts = Some RespSat
     \<longrightarrow> smt_minimal_model solver sig (n + 1) ts = Some ms \<longrightarrow> (\<forall>t\<in>set ts. within_lookahead n t)
     \<longrightarrow> (\<exists>tr. inhabited_trace sig tr \<and> immutable_frame sig tr \<and> (\<forall>t\<in>set ts. holds tr 0 Map.empty t)
          \<and> list_all2 (state_of_model sig tr) [0..<n + 1] ms))"

lemma system_lookahead:
  assumes "extract_module m = Some (Inr d)"
  shows "within_lookahead 0 (term_and (dm_inits d @ dm_axioms d))"
    and "within_lookahead 1 (term_and (dm_transitions d @ mutable_axioms d rs))"
    and "within_lookahead 0 (term_negate (term_and (map (\<lambda>p. sp_x (sf_safety p)) (dm_proofs d))))"
proof -
  have un: "\<forall>t\<in>set (dm_inits d) \<union> set (dm_axioms d). first_order_unrolling t = Some (Some 0)"
    "\<forall>t\<in>set (dm_transitions d). \<exists>n\<le>1. first_order_unrolling t = Some (Some n)"
    "\<forall>sf\<in>set (dm_proofs d). first_order_unrolling (sp_x (sf_safety sf)) = Some (Some 0)"
    using extract_module_unrollings [OF assms] by blast+
  show "within_lookahead 0 (term_and (dm_inits d @ dm_axioms d))"
    by (rule lookahead_and) (use un(1) in \<open>auto simp: within_lookahead_def\<close>)
  show "within_lookahead 1 (term_and (dm_transitions d @ mutable_axioms d rs))"
    by (rule lookahead_and) (use un(1,2) in \<open>auto simp: within_lookahead_def mutable_axioms_def\<close>)
  have "within_lookahead 0 (term_and (map (\<lambda>p. sp_x (sf_safety p)) (dm_proofs d)))"
    by (rule lookahead_and) (use un(3) in \<open>auto simp: within_lookahead_def\<close>)
  then show "within_lookahead 0 (term_negate (term_and (map (\<lambda>p. sp_x (sf_safety p)) (dm_proofs d))))"
    by (simp add: within_lookahead_iff term_negate_def)
qed

text \<open>The query looks at the \<open>depth + 1\<close> states the solver is created for, and means that a trace
  is an execution of \<open>depth\<close> steps that ends in a violation.\<close>

lemma smt_program_eq:
  "smt_program sig d depth = term_and (dm_inits d @ dm_axioms d)
     # map (\<lambda>i. (next_prime sig ^^ i) (term_and (dm_transitions d @ mutable_axioms d (sig_relations sig)))) [0..<depth]
     @ [(next_prime sig ^^ depth) (term_negate (term_and (map (\<lambda>p. sp_x (sf_safety p)) (dm_proofs d))))]"
  by (simp add: smt_program_def smt_unroll_eq Let_def)

lemma smt_program_lookahead:
  assumes "extract_module m = Some (Inr d)"
  shows "within_lookahead depth (term_and (smt_program sig d depth))"
proof (rule lookahead_and, rule ballI)
  fix t assume t: "t \<in> set (smt_program sig d depth)"
  note sys = system_lookahead [OF assms]
  from t consider "t = term_and (dm_inits d @ dm_axioms d)"
    | i where "i < depth" "t = (next_prime sig ^^ i) (term_and (dm_transitions d @ mutable_axioms d (sig_relations sig)))"
    | "t = (next_prime sig ^^ depth) (term_negate (term_and (map (\<lambda>p. sp_x (sf_safety p)) (dm_proofs d))))"
    by (auto simp: smt_program_eq)
  then show "within_lookahead depth t"
  proof cases
    case 1
    then show ?thesis using lookahead_mono [OF sys(1), of depth] by simp
  next
    case (2 i)
    then show ?thesis using lookahead_mono [OF lookahead_primes [OF sys(2), of i], of depth] by simp
  next
    case 3
    then show ?thesis using lookahead_primes [OF sys(3), of depth] by simp
  qed
qed

lemma smt_program_holds:
  assumes ext: "extract_module m = Some (Inr d)" and "checkable sig d"
    and "trace_ok sig tr" and frame: "immutable_frame sig tr"
  shows "holds tr 0 Map.empty (term_and (smt_program sig d depth)) \<longleftrightarrow> bounded_run sig d depth tr \<and> unsafe_at d depth tr"
proof -
  note prime = holds_primes [OF frame system_lookahead(2) [OF ext]] holds_primes [OF frame system_lookahead(3) [OF ext]]
  let ?safe = "term_and (map (\<lambda>p. sp_x (sf_safety p)) (dm_proofs d))"
  have "term_sort sig Map.empty ?safe = Some Bool"
    by (rule term_sort_and_or(1)) (use checkable_parts(3) [OF assms(2)] in blast)
  from teval_bool01 [OF assms(3) assign_ok_empty this, of depth]
  have "holds tr depth Map.empty (term_negate ?safe) \<longleftrightarrow> \<not> holds tr depth Map.empty ?safe"
    by (auto simp: term_negate_def)
  also have "\<dots> \<longleftrightarrow> unsafe_at d depth tr" by (simp add: unsafe_at_def sem_simps)
  finally have "holds tr depth Map.empty (term_negate ?safe) \<longleftrightarrow> unsafe_at d depth tr" .
  then show ?thesis
    by (auto simp: smt_program_eq sem_simps prime bounded_run_def)
qed

text \<open>C4: the SMT-based bounded checker is right in both answers about the formula it builds, for a solver that
  is right about the one formula it is asked (over non-empty sorts) and a well-sorted module: \<open>Unknown\<close> means that no bounded run of the
  transition system, over any universe with non-empty sorts, violates a safety property after exactly \<open>depth\<close>
  steps, and the models of a counterexample are the \<open>depth + 1\<close> states of a bounded run that does. A bounded run
  (\<open>bounded_run\<close>) satisfies the initial conditions and all axioms in its first state, and before each step the
  transition formula and the axioms over mutable relations, as the program asserts them; these axioms are not
  required in the last state. So \<open>Unknown\<close> covers all executions of the system, but a counterexample is one of the
  system only if its last state also satisfies the axioms over mutable relations.\<close>

theorem smt_check_answers:
  assumes "smt_doc solver" and "smt_model_doc solver" and "extract_module m = Some (Inr d)"
    and "checkable (mod_signature m) d" and "smt_check solver m depth = Some (Inr a)"
  shows "(a = Unknown \<longrightarrow> (\<forall>tr. inhabited_trace (mod_signature m) tr \<longrightarrow> immutable_frame (mod_signature m) tr
        \<longrightarrow> bounded_run (mod_signature m) d depth tr \<longrightarrow> \<not> unsafe_at d depth tr))
    \<and> (\<forall>ms. a = Counterexample ms \<longrightarrow> (\<exists>tr. inhabited_trace (mod_signature m) tr \<and> immutable_frame (mod_signature m) tr
        \<and> bounded_run (mod_signature m) d depth tr \<and> unsafe_at d depth tr
        \<and> list_all2 (state_of_model (mod_signature m) tr) [0..<depth + 1] ms))
    \<and> a \<noteq> Convergence ()"
proof -
  let ?sig = "mod_signature m" and ?q = "term_and (smt_program (mod_signature m) d depth)"
  note look = smt_program_lookahead [OF assms(3), of depth ?sig]
  then have fo: "\<forall>t\<in>set [?q]. first_order_new t \<noteq> None"
    by (auto simp: within_lookahead_iff first_order_new_def)
  from assms(3,5) consider
      "a = Unknown" "smt_check_sat solver ?sig (depth + 1) [?q] = Some RespUnsat"
    | ms where "a = Counterexample ms" "smt_check_sat solver ?sig (depth + 1) [?q] = Some RespSat"
        "smt_minimal_model solver ?sig (depth + 1) [?q] = Some ms"
    by (auto simp: smt_check_def Let_def split: if_splits option.splits sat_resp.splits)
  then show ?thesis
  proof cases
    case 1
    have "\<not> holds tr 0 Map.empty ?q" if "inhabited_trace ?sig tr" "immutable_frame ?sig tr" for tr
      using assms(1) [unfolded smt_doc_def, rule_format, OF 1(2) _ that, of 0] fo by auto
    then show ?thesis unfolding 1(1) using smt_program_holds [OF assms(3,4) inhabited_trace_ok] by blast
  next
    case (2 ms)
    from assms(2) [unfolded smt_model_doc_def, rule_format, OF 2(2,3)] look
    obtain tr where "inhabited_trace ?sig tr" "immutable_frame ?sig tr" "holds tr 0 Map.empty ?q"
      "list_all2 (state_of_model ?sig tr) [0..<depth + 1] ms" by auto
    then show ?thesis unfolding 2(1) using smt_program_holds [OF assms(3,4) inhabited_trace_ok] by blast
  qed
qed

section \<open>A concrete run\<close>

text \<open>A solver that only recognises conjunctions with a formula and its negation.\<close>

definition contradiction_solver :: smt_solver where
  "contradiction_solver =
     \<lparr>smt_check_sat = (\<lambda>sig n ts. Some (case ts of
          [NAryOp And xs] \<Rightarrow>
            if list_ex (\<lambda>x. UnaryOp NotOp x \<in> set xs) xs then RespUnsat else RespUnknown ''incomplete''
        | _ \<Rightarrow> RespUnknown ''incomplete'')),
      smt_minimal_model = (\<lambda>_ _ _. None)\<rparr>"

lemma contradiction_solver_doc: "smt_doc contradiction_solver" "smt_model_doc contradiction_solver"
proof -
  have "\<exists>t\<in>set ts. \<not> holds tr i Map.empty t" if unsat: "smt_check_sat contradiction_solver sig n ts = Some RespUnsat" for sig n ts tr i
  proof -
    from unsat obtain xs x where ts: "ts = [NAryOp And xs]" and x: "x \<in> set xs" "UnaryOp NotOp x \<in> set xs"
      by (auto simp: contradiction_solver_def list_ex_iff split: list.splits fterm.splits nop.splits if_splits)
    have "\<not> holds tr i Map.empty (NAryOp And xs)"
    proof
      assume "holds tr i Map.empty (NAryOp And xs)"
      then have "\<forall>t\<in>set xs. holds tr i Map.empty t" by simp
      from bspec [OF this x(1)] bspec [OF this x(2)] show False by simp
    qed
    with ts show ?thesis by simp
  qed
  then show "smt_doc contradiction_solver" unfolding smt_doc_def by blast
  show "smt_model_doc contradiction_solver" by (simp add: smt_model_doc_def contradiction_solver_def)
qed

lemma one_prop_inhabited: "inhabited_trace one_prop_sig (one_prop_trace f)"
  using one_prop_ok(1) [of f] by (simp add: inhabited_trace_def system_ok_def) (simp add: one_prop_sig_def)

theorem smt_check_answers_witness:
  "smt_check contradiction_solver (safety_only [Id ''p'']) 0 = Some (Inr Unknown)
   \<and> \<not> unsafe_at (one_prop_system [Id ''p''] []) 0 (one_prop_trace (\<lambda>i. i = 0))"
proof -
  let ?m = "safety_only [Id ''p'']" and ?tr = "one_prop_trace (\<lambda>i. i = 0)"
  have "returns (smt_check contradiction_solver ?m 0) Unknown" by code_simp
  then have ans: "smt_check contradiction_solver ?m 0 = Some (Inr Unknown)" by (simp only: returns_iff)
  have "mod_signature ?m = one_prop_sig" by (simp add: safety_only_def)
  moreover have "bounded_run one_prop_sig (one_prop_system [Id ''p''] []) 0 ?tr"
    by (simp add: bounded_run_def one_prop_system_def one_prop_trace_def)
  ultimately show ?thesis
    using smt_check_answers [OF contradiction_solver_doc safety_only_extract(1) _ ans] ans one_prop_ok(1)
      safety_only_checkable one_prop_inhabited by (simp add: system_ok_def)
qed

end
