(* ===== verification/Bounded_Bdd.thy ===== *)
theory Bounded_Bdd
  imports Bdd Bounded_Set_System
begin

text \<open>
  Model of \<^verbatim>\<open>bounded/src/bdd.rs\<close>: symbolic model checking, forwards from the initial states or
  backwards from the unsafe ones, and the models of the trace found. The BDD library and the order
  of hash maps are parameters. Two copies of the mutable relations are indexed: the variables of the
  current state come first, those of the next state second, those of immutable relations last.
  Progress and timing output is left out.
\<close>

section \<open>Definitions\<close>

text \<open>\<open>indices.bdd_variables[i]\<close> and \<open>indices.bdd_variables[a..b]\<close>.\<close>

definition variable_at :: "indices \<Rightarrow> nat \<Rightarrow> nat option" where
  "variable_at ix i = (if i < length (ix_bdd_variables ix) then Some (ix_bdd_variables ix ! i) else None)"

definition variables_between :: "indices \<Rightarrow> nat \<Rightarrow> nat \<Rightarrow> nat list option" where
  "variables_between ix a b =
     (if a \<le> b \<and> b \<le> length (ix_bdd_variables ix) then Some (take (b - a) (drop a (ix_bdd_variables ix))) else None)"

definition rename_step :: "'b bdd_lib \<Rightarrow> indices \<Rightarrow> nat \<times> nat \<Rightarrow> 'b \<Rightarrow> 'b option" where
  "rename_step lib ix = (\<lambda>(i, j) b.
     case variable_at ix i of None \<Rightarrow> None | Some x \<Rightarrow>
     (case variable_at ix j of None \<Rightarrow> None | Some y \<Rightarrow> bdd_rename lib b x y))"

definition rename_variables :: "'b bdd_lib \<Rightarrow> indices \<Rightarrow> (nat \<times> nat) list \<Rightarrow> 'b \<Rightarrow> 'b option" where
  "rename_variables lib ix moves b = fold_p (rename_step lib ix) moves b"

text \<open>The two closures \<open>update\<close>: one step forwards and one step backwards.\<close>

definition post_image :: "'b bdd_lib \<Rightarrow> indices \<Rightarrow> 'b \<Rightarrow> 'b \<Rightarrow> 'b option" where
  "post_image lib ix tr current =
     (let n = ix_num_mutables ix in
      case variables_between ix 0 n of None \<Rightarrow> None | Some unprimed \<Rightarrow>
        rename_variables lib ix (map (\<lambda>i. (i + n, i)) [0..<n]) (bdd_conj_exists lib current tr unprimed))"

definition pre_image :: "'b bdd_lib \<Rightarrow> indices \<Rightarrow> 'b \<Rightarrow> 'b \<Rightarrow> 'b option" where
  "pre_image lib ix tr current =
     (let n = ix_num_mutables ix in
      case rename_variables lib ix (map (\<lambda>i. (i - n, i)) (rev [n..<n * 2])) current of
        None \<Rightarrow> None
      | Some renamed \<Rightarrow> map_option (bdd_conj_exists lib renamed tr) (variables_between ix n (n * 2)))"

text \<open>The search; its result keeps the valuation and the trace from which the code builds models.\<close>

datatype 'b bdd_result =
  BddFound "bool list" "'b list"
| BddConverged 'b
| BddExhausted

partial_function (option) bdd_loop ::
  "'b bdd_lib \<Rightarrow> ('b \<Rightarrow> 'b option) \<Rightarrow> 'b \<Rightarrow> nat option \<Rightarrow> 'b list \<Rightarrow> 'b \<Rightarrow> 'b \<Rightarrow> nat \<Rightarrow> 'b bdd_result option" where
  "bdd_loop lib update target depth trace current reachable i =
     (if (case depth of None \<Rightarrow> True | Some d \<Rightarrow> i < d) then
        case update current of None \<Rightarrow> None | Some current \<Rightarrow>
          let new_reachable = bdd_disj lib reachable current in
          if bdd_eq lib reachable new_reachable then Some (BddConverged reachable)
          else let trace = trace @ [current] in
            case bdd_witness lib (bdd_conj lib current target) of
              Some valuation \<Rightarrow> Some (BddFound valuation trace)
            | None \<Rightarrow> bdd_loop lib update target depth trace current new_reachable (i + 1)
      else Some BddExhausted)"

declare bdd_loop.simps [code]

definition bdd_search :: "'b bdd_lib \<Rightarrow> ('b \<Rightarrow> 'b option) \<Rightarrow> 'b \<Rightarrow> 'b \<Rightarrow> nat option \<Rightarrow> 'b bdd_result option" where
  "bdd_search lib update start target depth =
     (case bdd_witness lib (bdd_conj lib start target) of
        Some valuation \<Rightarrow> Some (BddFound valuation [start])
      | None \<Rightarrow> bdd_loop lib update target depth [start] start start 0)"

section \<open>From valuations to models\<close>

definition valuation_value :: "indices \<Rightarrow> bool list \<Rightarrow> nat \<Rightarrow> bool option" where
  "valuation_value ix v i =
     (case variable_at ix i of None \<Rightarrow> None | Some x \<Rightarrow> if x < length v then Some (v ! x) else None)"

text \<open>The cube of the state of a valuation, over the variables of one copy.\<close>

definition cube_literal ::
  "'b bdd_lib \<Rightarrow> indices \<Rightarrow> nat \<Rightarrow> bool list \<Rightarrow> string \<Rightarrow> element list \<times> nat \<times> bool \<Rightarrow> 'b option" where
  "cube_literal lib ix primes v relation = (\<lambda>(elements, (i, _)).
     case bdd_var lib ix relation primes elements of None \<Rightarrow> None | Some var \<Rightarrow>
       map_option (\<lambda>b. if b then var else bdd_not lib var) (valuation_value ix v i))"

definition state_cube :: "'b bdd_lib \<Rightarrow> hash_orders \<Rightarrow> indices \<Rightarrow> nat \<Rightarrow> bool list \<Rightarrow> 'b option" where
  "state_cube lib ho ix primes v =
     map_option (bdd_and lib)
       (those (concat (map (\<lambda>(relation, rest). map (cube_literal lib ix primes v relation) rest)
          (ho_indices ho (ix_indices ix)))))"

text \<open>The two closures \<open>next\<close>: the states of a layer that precede or follow a given state.\<close>

definition previous_states :: "'b bdd_lib \<Rightarrow> hash_orders \<Rightarrow> indices \<Rightarrow> 'b \<Rightarrow> 'b \<Rightarrow> bool list \<Rightarrow> 'b option" where
  "previous_states lib ho ix tr layer v =
     (let n = ix_num_mutables ix in
      case state_cube lib ho ix 1 v of None \<Rightarrow> None | Some primed \<Rightarrow>
        map_option (bdd_exists lib (bdd_and lib [layer, tr, primed])) (variables_between ix n (n * 2)))"

definition next_states :: "'b bdd_lib \<Rightarrow> hash_orders \<Rightarrow> indices \<Rightarrow> 'b \<Rightarrow> 'b \<Rightarrow> bool list \<Rightarrow> 'b option" where
  "next_states lib ho ix tr layer v =
     (let n = ix_num_mutables ix in
      case state_cube lib ho ix 0 v of None \<Rightarrow> None | Some unprimed \<Rightarrow>
      (case rename_variables lib ix (map (\<lambda>j. (j, j + n)) (rev [0..<n])) layer of None \<Rightarrow> None | Some primed \<Rightarrow>
      (case variables_between ix 0 n of None \<Rightarrow> None | Some vs \<Rightarrow>
         rename_variables lib ix (map (\<lambda>j. (j + n, j)) [0..<n])
           (bdd_exists lib (bdd_and lib [unprimed, tr, primed]) vs))))"

text \<open>Walking through the earlier layers of the trace, the last one first.\<close>

fun walk_layers :: "'b bdd_lib \<Rightarrow> ('b \<Rightarrow> bool list \<Rightarrow> 'b option) \<Rightarrow> 'b list \<Rightarrow> bool list \<Rightarrow> bool list list option" where
  "walk_layers lib next [] v = Some [v]"
| "walk_layers lib next (layer # layers) v =
     (case next layer v of None \<Rightarrow> None | Some b \<Rightarrow>
      (case bdd_witness lib b of None \<Rightarrow> None | Some v' \<Rightarrow>
         map_option (Cons v) (walk_layers lib next layers v')))"

definition trace_to_models ::
  "'b bdd_lib \<Rightarrow> hash_orders \<Rightarrow> itertools \<Rightarrow> indices \<Rightarrow> bool list \<Rightarrow> 'b list \<Rightarrow> 'b \<Rightarrow> bool \<Rightarrow> model list option" where
  "trace_to_models lib ho it ix valuation trace tr reversed =
     (case (if reversed
            then walk_layers lib (next_states lib ho ix tr) (rev (butlast trace)) valuation
            else map_option rev (walk_layers lib (previous_states lib ho ix tr) (rev (butlast trace)) valuation)) of
        None \<Rightarrow> None
      | Some valuations \<Rightarrow>
          those (map (\<lambda>v. indices_model it ix 0 (\<lambda>i. map_option of_bool (valuation_value ix v i))) valuations))"

section \<open>The checker\<close>

definition bdd_translate ::
  "itertools \<Rightarrow> 'b bdd_lib \<Rightarrow> signature \<Rightarrow> universe_bounds \<Rightarrow> indices \<Rightarrow> fterm \<Rightarrow> (checker_error + 'b) option" where
  "bdd_translate it lib sig universe ix t =
     bind_pr (enumerate_term it sig universe t) (\<lambda>e. map_option Inr (bdd_from_enumerated lib ix e))"

definition bdd_answer ::
  "'b bdd_lib \<Rightarrow> hash_orders \<Rightarrow> itertools \<Rightarrow> indices \<Rightarrow> 'b \<Rightarrow> 'b \<Rightarrow> 'b \<Rightarrow> nat option \<Rightarrow> bool
   \<Rightarrow> ('b \<times> indices) checker_answer option" where
  "bdd_answer lib ho it ix init tr not_safe depth reversed =
     (case (if reversed then bdd_search lib (pre_image lib ix tr) not_safe init depth
            else bdd_search lib (post_image lib ix tr) init not_safe depth) of
        None \<Rightarrow> None
      | Some (BddFound valuation trace) \<Rightarrow>
          map_option Counterexample (trace_to_models lib ho it ix valuation trace tr reversed)
      | Some (BddConverged reachable) \<Rightarrow> Some (Convergence (reachable, ix))
      | Some BddExhausted \<Rightarrow> Some Unknown)"

definition check_internal ::
  "hash_orders \<Rightarrow> itertools \<Rightarrow> (nat \<Rightarrow> 'b bdd_lib) \<Rightarrow> fmodule \<Rightarrow> universe_bounds \<Rightarrow> nat option \<Rightarrow> bool
   \<Rightarrow> (checker_error + ('b \<times> indices) checker_answer) option" where
  "check_internal ho it libs m universe depth reversed =
     (let sig = mod_signature m in
      case find (\<lambda>srt. universe srt = None) (sig_sorts sig) of
        Some srt \<Rightarrow> Some (Inl (UnknownSort srt universe))
      | None \<Rightarrow>
        (if list_ex (\<lambda>r. rd_sort r \<noteq> Bool) (sig_relations sig) then None
         else if mod_defs m \<noteq> [] then None
         else case extract_module m of
             None \<Rightarrow> None
           | Some (Inl e) \<Rightarrow> Some (Inl (ExtractionError e))
           | Some (Inr d) \<Rightarrow>
             (case indices_new it sig universe 2 of None \<Rightarrow> None | Some ix \<Rightarrow>
                let lib = libs (ix_num_vars ix) in
                bind_pr (bdd_translate it lib sig universe ix (term_and (dm_inits d @ dm_axioms d))) (\<lambda>init.
                bind_pr (bdd_translate it lib sig universe ix
                    (term_and (dm_transitions d @ mutable_axioms d (sig_relations sig)))) (\<lambda>tr.
                bind_pr (bdd_translate it lib sig universe ix
                    (term_and (map (\<lambda>p. sp_x (sf_safety p)) (dm_proofs d)))) (\<lambda>safe.
                  map_option Inr
                    (bdd_answer lib ho it ix init tr (bdd_not lib safe) depth reversed)))))))"

definition bdd_check ::
  "hash_orders \<Rightarrow> itertools \<Rightarrow> (nat \<Rightarrow> 'b bdd_lib) \<Rightarrow> fmodule \<Rightarrow> universe_bounds \<Rightarrow> nat option
   \<Rightarrow> (checker_error + ('b \<times> indices) checker_answer) option" where
  "bdd_check ho it libs m universe depth = check_internal ho it libs m universe depth False"

definition check_reversed ::
  "hash_orders \<Rightarrow> itertools \<Rightarrow> (nat \<Rightarrow> 'b bdd_lib) \<Rightarrow> fmodule \<Rightarrow> universe_bounds \<Rightarrow> nat option
   \<Rightarrow> (checker_error + ('b \<times> indices) checker_answer) option" where
  "check_reversed ho it libs m universe depth = check_internal ho it libs m universe depth True"

end
