(* ===== verification/Bounded_Bdd_Image.thy ===== *)
theory Bounded_Bdd_Image
  imports Bounded_Bdd
begin

text \<open>
  What the symbolic operations of \<^verbatim>\<open>bounded/src/bdd.rs\<close> denote: renaming blocks of variables, and
  the images of a set of states under the transition relation, forwards and backwards.
\<close>

section \<open>Dependence on variables\<close>

definition independent :: "('b \<Rightarrow> (nat \<Rightarrow> bool) \<Rightarrow> bool) \<Rightarrow> 'b \<Rightarrow> nat set \<Rightarrow> bool" where
  "independent den x I \<longleftrightarrow> (\<forall>\<beta> \<gamma>. (\<forall>k. k \<notin> I \<longrightarrow> \<beta> k = \<gamma> k) \<longrightarrow> den x \<beta> = den x \<gamma>)"

lemma independentD: "independent den x I \<Longrightarrow> (\<And>k. k \<notin> I \<Longrightarrow> \<beta> k = \<gamma> k) \<Longrightarrow> den x \<beta> = den x \<gamma>"
  unfolding independent_def by blast

lemma independent_not_depends: "independent den x I \<Longrightarrow> k \<in> I \<Longrightarrow> \<not> depends_on den x k"
proof -
  assume "independent den x I" "k \<in> I"
  then have "den x (\<beta>(k := v)) = den x (\<beta>(k := w))" for \<beta> v w by (intro independentD [of den x I]) auto
  then show ?thesis by (simp add: depends_on_def)
qed

text \<open>Reading a BDD through a rearrangement \<open>f\<close> of the variables.\<close>

lemma not_depends_through:
  assumes "\<And>\<beta>. den y \<beta> = den x (f \<beta>)" and "independent den x I"
    and "\<And>\<beta> v j. j \<notin> I \<Longrightarrow> f (\<beta>(k := v)) j = f \<beta> j"
  shows "\<not> depends_on den y k"
proof -
  have "den x (f (\<beta>(k := v))) = den x (f \<beta>)" for \<beta> v
    by (rule independentD [OF assms(2)]) (rule assms(3))
  then show ?thesis by (simp add: depends_on_def assms(1))
qed

section \<open>Setup\<close>

definition bdd_setup ::
  "itertools \<Rightarrow> hash_orders \<Rightarrow> signature \<Rightarrow> universe_bounds \<Rightarrow> indices \<Rightarrow> 'b bdd_lib
   \<Rightarrow> ('b \<Rightarrow> (nat \<Rightarrow> bool) \<Rightarrow> bool) \<Rightarrow> bool" where
  "bdd_setup it ho sig u ix lib den \<longleftrightarrow>
     itertools_doc it \<and> plain_names sig \<and> bool_relations sig \<and> indices_new it sig u 2 = Some ix
     \<and> hash_indices_doc ho ix \<and> bdd_doc (ix_num_vars ix) lib den"

lemma bdd_setupD:
  assumes "bdd_setup it ho sig u ix lib den"
  shows "itertools_doc it" "plain_names sig" "names_distinct sig" "bool_relations sig"
    "indices_new it sig u 2 = Some ix" "hash_indices_doc ho ix" "bdd_doc (ix_num_vars ix) lib den"
  using assms by (auto simp: bdd_setup_def plain_names_def)

lemma bdd_setup_variables:
  assumes "bdd_setup it ho sig u ix lib den"
  shows "ix_bdd_variables ix = [0..<ix_num_vars ix]" and "2 * ix_num_mutables ix \<le> ix_num_vars ix"
    and "ix_num_mutable_copies ix = 2"
proof -
  note D = bdd_setupD [OF assms]
  show "ix_bdd_variables ix = [0..<ix_num_vars ix]" "ix_num_mutable_copies ix = 2"
    by (rule indices_new_cases [OF D(1,3,5)]; blast)+
  show "2 * ix_num_mutables ix \<le> ix_num_vars ix"
    by (rule indices_new_cases [OF D(1,3,5)]) simp
qed

lemma variable_at_eq:
  "bdd_setup it ho sig u ix lib den \<Longrightarrow> variable_at ix i = (if i < ix_num_vars ix then Some i else None)"
  by (simp add: variable_at_def bdd_setup_variables)

lemma variables_between_eq:
  "bdd_setup it ho sig u ix lib den \<Longrightarrow> a \<le> b \<Longrightarrow> b \<le> ix_num_vars ix \<Longrightarrow> variables_between ix a b = Some [a..<b]"
  by (simp add: variables_between_def bdd_setup_variables)

section \<open>Renaming blocks of variables\<close>

lemma bdd_rename_doc:
  assumes "bdd_doc n lib den" and "i < n" "j < n" and "\<not> depends_on den x j"
    and "\<And>k. i < k \<Longrightarrow> k < j \<Longrightarrow> \<not> depends_on den x k" and "\<And>k. j < k \<Longrightarrow> k < i \<Longrightarrow> \<not> depends_on den x k"
  obtains y where "bdd_rename lib x i j = Some y" and "\<And>\<beta>. den y \<beta> = den x (\<beta>(i := \<beta> j))"
proof -
  have "\<not> (\<exists>k. (i < k \<and> k < j \<or> j < k \<and> k < i) \<and> depends_on den x k)" using assms(5,6) by blast
  then have "\<exists>y. bdd_rename lib x i j = Some y \<and> (\<forall>\<beta>. den y \<beta> = den x (\<beta>(i := \<beta> j)))"
    using bdd_docD(4) [OF assms(1)] assms(2-4) by simp
  with that show thesis by blast
qed

text \<open>From the second block to the first.\<close>

lemma rename_first:
  assumes su: "bdd_setup it ho sig u ix lib den" and m: "m = ix_num_mutables ix"
    and ind: "independent den b {..<m}"
  shows "q \<le> m \<Longrightarrow> \<exists>y. fold_p (rename_step lib ix) (map (\<lambda>i. (i + m, i)) [0..<q]) b = Some y
    \<and> (\<forall>\<beta>. den y \<beta> = den b (\<lambda>k. if m \<le> k \<and> k < m + q then \<beta> (k - m) else \<beta> k))"
proof (induction q)
  case 0
  have "(\<lambda>k. if m \<le> k \<and> k < m + 0 then \<beta> (k - m) else \<beta> k) = \<beta>" for \<beta> :: "nat \<Rightarrow> bool" by auto
  then show ?case by simp
next
  case (Suc q)
  let ?f = "\<lambda>\<beta> k. if m \<le> k \<and> k < m + q then \<beta> (k - m) else \<beta> k"
  from Suc obtain y where y: "fold_p (rename_step lib ix) (map (\<lambda>i. (i + m, i)) [0..<q]) b = Some y"
    and den: "\<And>\<beta>. den y \<beta> = den b (?f \<beta>)" by auto
  have free: "\<not> depends_on den y k" if "q \<le> k" "k < q + m" for k
    by (rule not_depends_through [OF den ind]) (use that Suc.prems in auto)
  have lt: "q + m < ix_num_vars ix" "q < ix_num_vars ix" using bdd_setup_variables(2) [OF su] Suc.prems m by linarith+
  obtain z where z: "bdd_rename lib y (q + m) q = Some z" and denz: "\<And>\<beta>. den z \<beta> = den y (\<beta>(q + m := \<beta> q))"
    by (rule bdd_rename_doc [OF bdd_setupD(7) [OF su] lt, of y]) (use free Suc.prems in auto)
  have "?f (\<beta>(q + m := \<beta> q)) = (\<lambda>k. if m \<le> k \<and> k < m + Suc q then \<beta> (k - m) else \<beta> k)" for \<beta>
    using Suc.prems by (auto simp: fun_eq_iff less_Suc_eq add.commute)
  then have "den z \<beta> = den b (\<lambda>k. if m \<le> k \<and> k < m + Suc q then \<beta> (k - m) else \<beta> k)" for \<beta>
    unfolding denz den by (rule arg_cong [of _ _ "den b"])
  moreover have "fold_p (rename_step lib ix) (map (\<lambda>i. (i + m, i)) [0..<Suc q]) b = Some z"
    using y z lt by (simp add: fold_p_append rename_step_def variable_at_eq [OF su])
  ultimately show ?case by blast
qed

text \<open>From the first block to the second.\<close>

lemma rename_second:
  assumes su: "bdd_setup it ho sig u ix lib den" and m: "m = ix_num_mutables ix"
    and ind: "independent den b {m..<2 * m}"
  shows "q \<le> m \<Longrightarrow> \<exists>y. fold_p (rename_step lib ix) (map (\<lambda>j. (j, j + m)) (rev [m - q..<m])) b = Some y
    \<and> (\<forall>\<beta>. den y \<beta> = den b (\<lambda>k. if m - q \<le> k \<and> k < m then \<beta> (k + m) else \<beta> k))"
proof (induction q)
  case 0
  have "(\<lambda>k. if m - 0 \<le> k \<and> k < m then \<beta> (k + m) else \<beta> k) = \<beta>" for \<beta> :: "nat \<Rightarrow> bool" by auto
  then show ?case by simp
next
  case (Suc q)
  let ?f = "\<lambda>\<beta> k. if m - q \<le> k \<and> k < m then \<beta> (k + m) else \<beta> k" and ?j = "m - Suc q"
  have j: "Suc ?j = m - q" "?j < m" using Suc.prems by auto
  from Suc obtain y where y: "fold_p (rename_step lib ix) (map (\<lambda>j. (j, j + m)) (rev [m - q..<m])) b = Some y"
    and den: "\<And>\<beta>. den y \<beta> = den b (?f \<beta>)" by auto
  have free: "\<not> depends_on den y k" if "?j < k" "k \<le> ?j + m" for k
    by (rule not_depends_through [OF den ind]) (use that j in auto)
  have lt: "?j < ix_num_vars ix" "?j + m < ix_num_vars ix" using bdd_setup_variables(2) [OF su] j m by linarith+
  obtain z where z: "bdd_rename lib y ?j (?j + m) = Some z" and denz: "\<And>\<beta>. den z \<beta> = den y (\<beta>(?j := \<beta> (?j + m)))"
    by (rule bdd_rename_doc [OF bdd_setupD(7) [OF su] lt, of y]) (use free j in auto)
  have "?f (\<beta>(?j := \<beta> (?j + m))) = (\<lambda>k. if ?j \<le> k \<and> k < m then \<beta> (k + m) else \<beta> k)" for \<beta>
    using j by (auto simp: fun_eq_iff)
  then have "den z \<beta> = den b (\<lambda>k. if ?j \<le> k \<and> k < m then \<beta> (k + m) else \<beta> k)" for \<beta>
    unfolding denz den by (rule arg_cong [of _ _ "den b"])
  moreover have "[?j..<m] = ?j # [m - q..<m]" using j by (simp add: upt_rec)
  then have "fold_p (rename_step lib ix) (map (\<lambda>j. (j, j + m)) (rev [?j..<m])) b = Some z"
    using y z lt by (simp add: fold_p_append rename_step_def variable_at_eq [OF su])
  ultimately show ?case by blast
qed

lemma rename_to_first:
  assumes "bdd_setup it ho sig u ix lib den" and "m = ix_num_mutables ix" and "independent den b {..<m}"
  obtains y where "rename_variables lib ix (map (\<lambda>i. (i + m, i)) [0..<m]) b = Some y"
    and "\<And>\<beta>. den y \<beta> = den b (\<lambda>k. if m \<le> k \<and> k < 2 * m then \<beta> (k - m) else \<beta> k)"
  using rename_first [OF assms order_refl] by (auto simp: rename_variables_def mult_2)

lemma rename_to_second:
  assumes "bdd_setup it ho sig u ix lib den" and "m = ix_num_mutables ix" and "independent den b {m..<2 * m}"
  obtains y where "rename_variables lib ix (map (\<lambda>j. (j, j + m)) (rev [0..<m])) b = Some y"
    and "\<And>\<beta>. den y \<beta> = den b (\<lambda>k. if k < m then \<beta> (k + m) else \<beta> k)"
  using rename_second [OF assms order_refl] by (auto simp: rename_variables_def)

section \<open>Images\<close>

text \<open>A set of states is a BDD that does not depend on the variables of the next state; a pair of
  states is read as one valuation; a step is a pair with equal immutable relations that satisfies the
  transition BDD.\<close>

definition state_bdd :: "('b \<Rightarrow> (nat \<Rightarrow> bool) \<Rightarrow> bool) \<Rightarrow> indices \<Rightarrow> 'b \<Rightarrow> bool" where
  "state_bdd den ix b \<longleftrightarrow> independent den b {ix_num_mutables ix..<2 * ix_num_mutables ix}"

definition state_pair :: "indices \<Rightarrow> (nat \<Rightarrow> bool) \<Rightarrow> (nat \<Rightarrow> bool) \<Rightarrow> nat \<Rightarrow> bool" where
  "state_pair ix \<beta> \<gamma> k =
     (if ix_num_mutables ix \<le> k \<and> k < 2 * ix_num_mutables ix then \<gamma> (k - ix_num_mutables ix) else \<beta> k)"

definition symbolic_step ::
  "('b \<Rightarrow> (nat \<Rightarrow> bool) \<Rightarrow> bool) \<Rightarrow> indices \<Rightarrow> 'b \<Rightarrow> (nat \<Rightarrow> bool) \<Rightarrow> (nat \<Rightarrow> bool) \<Rightarrow> bool" where
  "symbolic_step den ix tr \<beta> \<gamma> \<longleftrightarrow>
     (\<forall>k\<ge>2 * ix_num_mutables ix. \<beta> k = \<gamma> k) \<and> den tr (state_pair ix \<beta> \<gamma>)"

lemma independent_bdd:
  assumes "bdd_doc n lib den" and "independent den x I" and "independent den y I"
  shows "independent den (bdd_conj lib x y) I" and "independent den (bdd_disj lib x y) I"
    and "independent den (bdd_not lib x) I"
  using assms(2,3) unfolding independent_def bdd_docD(10-12) [OF assms(1), rule_format] by blast+

lemma post_image_den:
  assumes su: "bdd_setup it ho sig u ix lib den" and b: "state_bdd den ix b"
  shows "\<exists>b'. post_image lib ix tr b = Some b' \<and> state_bdd den ix b'
    \<and> (\<forall>\<gamma>. den b' \<gamma> \<longleftrightarrow> (\<exists>\<beta>. den b \<beta> \<and> symbolic_step den ix tr \<beta> \<gamma>))"
proof -
  define m where "m = ix_num_mutables ix"
  let ?x = "bdd_conj_exists lib b tr [0..<m]"
  have doc: "bdd_doc (ix_num_vars ix) lib den" by (rule bdd_setupD [OF su])
  have x: "den ?x \<delta> \<longleftrightarrow> (\<exists>\<beta>. (\<forall>k\<ge>m. \<beta> k = \<delta> k) \<and> den b \<beta> \<and> den tr \<beta>)" for \<delta>
    using bdd_docD(3) [OF doc] by (auto simp: not_less)
  have "independent den ?x {..<m}"
    unfolding independent_def x by (metis (no_types, lifting) lessThan_iff not_less)
  from rename_to_first [OF su m_def this] obtain y
    where y: "rename_variables lib ix (map (\<lambda>i. (i + m, i)) [0..<m]) ?x = Some y"
    and den: "\<And>\<beta>. den y \<beta> = den ?x (\<lambda>k. if m \<le> k \<and> k < 2 * m then \<beta> (k - m) else \<beta> k)" by blast
  have "variables_between ix 0 m = Some [0..<m]"
    using bdd_setup_variables(2) [OF su] by (intro variables_between_eq [OF su]) (simp_all add: m_def)
  with y have post: "post_image lib ix tr b = Some y" by (simp add: post_image_def flip: m_def)
  have main: "den y \<gamma> \<longleftrightarrow> (\<exists>\<beta>. den b \<beta> \<and> symbolic_step den ix tr \<beta> \<gamma>)" for \<gamma>
  proof
    assume "den y \<gamma>"
    then obtain \<beta> where \<beta>: "\<And>k. m \<le> k \<Longrightarrow> \<beta> k = (if m \<le> k \<and> k < 2 * m then \<gamma> (k - m) else \<gamma> k)" "den b \<beta>" "den tr \<beta>"
      unfolding den x by blast
    have "state_pair ix \<beta> \<gamma> = \<beta>" using \<beta>(1) by (auto simp: state_pair_def fun_eq_iff simp flip: m_def)
    with \<beta> show "\<exists>\<beta>. den b \<beta> \<and> symbolic_step den ix tr \<beta> \<gamma>"
      by (intro exI [of _ \<beta>]) (auto simp: symbolic_step_def simp flip: m_def)
  next
    assume "\<exists>\<beta>. den b \<beta> \<and> symbolic_step den ix tr \<beta> \<gamma>"
    then obtain \<beta> where \<beta>: "den b \<beta>" "\<And>k. 2 * m \<le> k \<Longrightarrow> \<beta> k = \<gamma> k" "den tr (state_pair ix \<beta> \<gamma>)"
      by (auto simp: symbolic_step_def simp flip: m_def)
    have "den b (state_pair ix \<beta> \<gamma>) = den b \<beta>"
      using b unfolding state_bdd_def by (rule independentD) (auto simp: state_pair_def)
    with \<beta> show "den y \<gamma>"
      unfolding den x by (intro exI [of _ "state_pair ix \<beta> \<gamma>"]) (auto simp: state_pair_def simp flip: m_def)
  qed
  have "independent den y {m..<2 * m}"
    unfolding independent_def
  proof (intro allI impI)
    fix \<gamma> \<delta> :: "nat \<Rightarrow> bool" assume eq: "\<forall>k. k \<notin> {m..<2 * m} \<longrightarrow> \<gamma> k = \<delta> k"
    have "(\<lambda>k. if m \<le> k \<and> k < 2 * m then \<gamma> (k - m) else \<gamma> k) = (\<lambda>k. if m \<le> k \<and> k < 2 * m then \<delta> (k - m) else \<delta> k)"
      using eq by (auto simp: fun_eq_iff)
    then show "den y \<gamma> = den y \<delta>" by (simp only: den)
  qed
  with post main show ?thesis by (auto simp: state_bdd_def m_def)
qed

lemma pre_image_den:
  assumes su: "bdd_setup it ho sig u ix lib den" and b: "state_bdd den ix b"
  shows "\<exists>b'. pre_image lib ix tr b = Some b' \<and> state_bdd den ix b'
    \<and> (\<forall>\<beta>. den b' \<beta> \<longleftrightarrow> (\<exists>\<gamma>. den b \<gamma> \<and> symbolic_step den ix tr \<beta> \<gamma>))"
proof -
  define m where "m = ix_num_mutables ix"
  have doc: "bdd_doc (ix_num_vars ix) lib den" by (rule bdd_setupD [OF su])
  have ind: "independent den b {m..<2 * m}" using b by (simp add: state_bdd_def m_def)
  from rename_to_second [OF su m_def ind] obtain y
    where y: "rename_variables lib ix (map (\<lambda>j. (j, j + m)) (rev [0..<m])) b = Some y"
    and den: "\<And>\<beta>. den y \<beta> = den b (\<lambda>k. if k < m then \<beta> (k + m) else \<beta> k)" by blast
  let ?x = "bdd_conj_exists lib y tr [m..<m * 2]"
  have x: "den ?x \<beta> \<longleftrightarrow> (\<exists>\<zeta>. (\<forall>k. k < m \<or> 2 * m \<le> k \<longrightarrow> \<zeta> k = \<beta> k) \<and> den y \<zeta> \<and> den tr \<zeta>)" for \<beta>
    using bdd_docD(3) [OF doc] by (auto simp: not_less not_le mult.commute)
  have "map (\<lambda>i. (i - m, i)) (rev [m..<m * 2]) = map (\<lambda>j. (j, j + m)) (rev [0..<m])"
  proof -
    have "[m..<m * 2] = map (\<lambda>j. j + m) [0..<m]" by (simp add: map_add_upt mult_2_right add.commute)
    then show ?thesis by (simp add: rev_map comp_def)
  qed
  moreover have "variables_between ix m (m * 2) = Some [m..<m * 2]"
    using bdd_setup_variables(2) [OF su] by (intro variables_between_eq [OF su]) (simp_all add: m_def)
  ultimately have pre: "pre_image lib ix tr b = Some ?x" using y by (simp add: pre_image_def Let_def flip: m_def)
  have main: "den ?x \<beta> \<longleftrightarrow> (\<exists>\<gamma>. den b \<gamma> \<and> symbolic_step den ix tr \<beta> \<gamma>)" for \<beta>
  proof
    assume "den ?x \<beta>"
    then obtain \<zeta> where \<zeta>: "\<And>k. k < m \<or> 2 * m \<le> k \<Longrightarrow> \<zeta> k = \<beta> k" "den y \<zeta>" "den tr \<zeta>" unfolding x by blast
    let ?\<gamma> = "\<lambda>k. if k < m then \<zeta> (k + m) else \<zeta> k"
    have "state_pair ix \<beta> ?\<gamma> = \<zeta>" using \<zeta>(1) by (auto simp: state_pair_def fun_eq_iff simp flip: m_def)
    with \<zeta> show "\<exists>\<gamma>. den b \<gamma> \<and> symbolic_step den ix tr \<beta> \<gamma>"
      by (intro exI [of _ ?\<gamma>]) (auto simp: symbolic_step_def den simp flip: m_def)
  next
    assume "\<exists>\<gamma>. den b \<gamma> \<and> symbolic_step den ix tr \<beta> \<gamma>"
    then obtain \<gamma> where \<gamma>: "den b \<gamma>" "\<And>k. 2 * m \<le> k \<Longrightarrow> \<beta> k = \<gamma> k" "den tr (state_pair ix \<beta> \<gamma>)"
      by (auto simp: symbolic_step_def simp flip: m_def)
    have "den y (state_pair ix \<beta> \<gamma>) = den b \<gamma>"
      unfolding den by (rule independentD [OF ind]) (use \<gamma>(2) in \<open>auto simp: state_pair_def simp flip: m_def\<close>)
    with \<gamma> show "den ?x \<beta>"
      unfolding x by (intro exI [of _ "state_pair ix \<beta> \<gamma>"]) (auto simp: state_pair_def simp flip: m_def)
  qed
  have "independent den ?x {m..<2 * m}"
    unfolding independent_def x by (metis (no_types, lifting) atLeastLessThan_iff not_le)
  with pre main show ?thesis by (auto simp: state_bdd_def m_def)
qed

end
