(* ===== verification/Bounded_Bdd_Search.thy ===== *)
theory Bounded_Bdd_Search
  imports Bounded_Bdd_Image
begin

text \<open>
  The symbolic search of \<^verbatim>\<open>bounded/src/bdd.rs\<close> against its contract: given an operation that
  computes the image of a set of states under a relation, the search explores the layers of the
  states reachable in \<open>0, 1, 2, ...\<close> steps. The contract is a locale; it is interpreted for the step
  relation (forwards) and its converse (backwards).
\<close>

section \<open>What the search promises\<close>

text \<open>The \<open>k\<close>-th layer of a trace are the states reachable in \<open>k\<close> steps.\<close>

definition layers ::
  "('b \<Rightarrow> 's \<Rightarrow> bool) \<Rightarrow> ('s \<Rightarrow> 's \<Rightarrow> bool) \<Rightarrow> 'b \<Rightarrow> 'b list \<Rightarrow> bool" where
  "layers den R start trace \<longleftrightarrow> trace \<noteq> []
     \<and> (\<forall>k<length trace. \<forall>\<gamma>. den (trace ! k) \<gamma> \<longleftrightarrow> (\<exists>\<beta>. den start \<beta> \<and> (R ^^ k) \<beta> \<gamma>))"

definition within_bound :: "nat option \<Rightarrow> nat \<Rightarrow> bool" where
  "within_bound depth i \<longleftrightarrow> (case depth of None \<Rightarrow> True | Some d \<Rightarrow> i \<le> d)"

fun search_ok ::
  "nat \<Rightarrow> ('b \<Rightarrow> (nat \<Rightarrow> bool) \<Rightarrow> bool) \<Rightarrow> ((nat \<Rightarrow> bool) \<Rightarrow> (nat \<Rightarrow> bool) \<Rightarrow> bool) \<Rightarrow> ('b \<Rightarrow> bool)
   \<Rightarrow> 'b \<Rightarrow> 'b \<Rightarrow> nat option \<Rightarrow> 'b bdd_result \<Rightarrow> bool" where
  "search_ok n den R good start target depth (BddFound v trace) \<longleftrightarrow>
     layers den R start trace \<and> (\<forall>b\<in>set trace. good b) \<and> within_bound depth (length trace - 1) \<and> length v = n
     \<and> den (last trace) (bits n v) \<and> den target (bits n v)"
| "search_ok n den R good start target depth (BddConverged b) \<longleftrightarrow>
     good b \<and> (\<forall>\<gamma>. den b \<gamma> \<longleftrightarrow> (\<exists>k \<beta>. den start \<beta> \<and> (R ^^ k) \<beta> \<gamma>)) \<and> (\<forall>\<gamma>. den b \<gamma> \<longrightarrow> \<not> den target \<gamma>)"
| "search_ok n den R good start target depth BddExhausted \<longleftrightarrow>
     (\<exists>d. depth = Some d \<and> (\<forall>k\<le>d. \<forall>\<beta> \<gamma>. den start \<beta> \<longrightarrow> (R ^^ k) \<beta> \<gamma> \<longrightarrow> \<not> den target \<gamma>))"

text \<open>The invariant of the loop.\<close>

definition search_state ::
  "('b \<Rightarrow> 's \<Rightarrow> bool) \<Rightarrow> ('s \<Rightarrow> 's \<Rightarrow> bool) \<Rightarrow> ('b \<Rightarrow> bool) \<Rightarrow> 'b \<Rightarrow> 'b \<Rightarrow> nat option
   \<Rightarrow> 'b list \<Rightarrow> 'b \<Rightarrow> 'b \<Rightarrow> nat \<Rightarrow> bool" where
  "search_state den R good start target depth trace current reachable i \<longleftrightarrow>
     layers den R start trace \<and> (\<forall>b\<in>set trace. good b) \<and> length trace = i + 1 \<and> current = last trace
     \<and> good reachable \<and> within_bound depth i
     \<and> (\<forall>\<gamma>. den reachable \<gamma> \<longleftrightarrow> (\<exists>k\<le>i. den (trace ! k) \<gamma>))
     \<and> (\<forall>k\<le>i. \<forall>\<gamma>. den (trace ! k) \<gamma> \<longrightarrow> \<not> den target \<gamma>)"

section \<open>The contract and its client\<close>

locale symbolic_search =
  fixes n :: nat and lib :: "'b bdd_lib" and den :: "'b \<Rightarrow> (nat \<Rightarrow> bool) \<Rightarrow> bool"
    and image :: "'b \<Rightarrow> 'b option" and good :: "'b \<Rightarrow> bool"
    and R :: "(nat \<Rightarrow> bool) \<Rightarrow> (nat \<Rightarrow> bool) \<Rightarrow> bool"
  assumes good_doc: "good b \<Longrightarrow> bdd_doc n lib den"
    and image_total: "good b \<Longrightarrow> \<exists>b'. image b = Some b'"
    and image_good: "good b \<Longrightarrow> image b = Some b' \<Longrightarrow> good b'"
    and image_den: "good b \<Longrightarrow> image b = Some b' \<Longrightarrow> den b' \<gamma> \<longleftrightarrow> (\<exists>\<beta>. den b \<beta> \<and> R \<beta> \<gamma>)"
    and disj_good: "good x \<Longrightarrow> good y \<Longrightarrow> good (bdd_disj lib x y)"
begin

lemma layers_single: "layers den R start [start]"
  by (auto simp: layers_def)

lemma layers_snoc:
  assumes "layers den R start trace" and "\<forall>b\<in>set trace. good b" and "image (last trace) = Some b"
  shows "layers den R start (trace @ [b])"
proof -
  have "trace \<noteq> []" using assms(1) by (simp add: layers_def)
  then obtain i where i: "length trace = Suc i" "last trace = trace ! i" by (cases trace) (auto simp: last_conv_nth)
  have good: "good (last trace)" using \<open>trace \<noteq> []\<close> assms(2) by simp
  have "den b \<gamma> \<longleftrightarrow> (\<exists>\<beta>. den start \<beta> \<and> (R ^^ Suc i) \<beta> \<gamma>)" for \<gamma>
    unfolding image_den [OF good assms(3)] using assms(1) i by (auto simp: layers_def)
  with assms(1) i show ?thesis by (auto simp: layers_def nth_append less_Suc_eq)
qed

lemma search_start:
  assumes "good start" and "bdd_witness lib (bdd_conj lib start target) = None"
  shows "search_state den R good start target depth [start] start start 0"
proof -
  note doc = good_doc [OF assms(1)]
  have "\<not> den start \<gamma> \<or> \<not> den target \<gamma>" for \<gamma>
    using bdd_witness_None [OF doc assms(2)] bdd_docD(10) [OF doc] by blast
  with assms(1) show ?thesis
    by (auto simp: search_state_def layers_single within_bound_def split: option.split)
qed

lemma search_progress:
  assumes st: "search_state den R good start target depth trace current reachable i"
    and below: "case depth of None \<Rightarrow> True | Some d \<Rightarrow> i < d"
    and img: "image current = Some current'"
    and none: "bdd_witness lib (bdd_conj lib current' target) = None"
  shows "search_state den R good start target depth (trace @ [current']) current' (bdd_disj lib reachable current') (i + 1)"
proof -
  from st have ne: "trace \<noteq> []" and cur: "current = last trace" "good current"
    by (auto simp: search_state_def layers_def)
  note doc = good_doc [OF cur(2)]
  have lay: "layers den R start (trace @ [current'])"
    using st img cur layers_snoc by (auto simp: search_state_def)
  have good: "good current'" by (rule image_good [OF cur(2) img])
  have no: "\<not> den current' \<gamma> \<or> \<not> den target \<gamma>" for \<gamma>
    using bdd_witness_None [OF doc none] bdd_docD(10) [OF doc] by blast
  have len: "length trace = Suc i" using st by (simp add: search_state_def)
  have nth: "(trace @ [current']) ! k = (if k \<le> i then trace ! k else current')" if "k \<le> Suc i" for k
    using that len by (auto simp: nth_append)
  show ?thesis
    unfolding search_state_def
  proof (intro conjI allI impI)
    show "den (bdd_disj lib reachable current') \<gamma> \<longleftrightarrow> (\<exists>k\<le>i + 1. den ((trace @ [current']) ! k) \<gamma>)" for \<gamma>
    proof -
      have "den reachable \<gamma> \<longleftrightarrow> (\<exists>k\<le>i. den (trace ! k) \<gamma>)" using st by (simp add: search_state_def)
      moreover have "(\<exists>k\<le>Suc i. den ((trace @ [current']) ! k) \<gamma>) \<longleftrightarrow> (\<exists>k\<le>i. den (trace ! k) \<gamma>) \<or> den current' \<gamma>"
        using nth by (metis le_SucI le_Suc_eq not_less_eq_eq order_refl)
      ultimately show ?thesis using bdd_docD(11) [OF doc] by simp
    qed
    show "\<not> den target \<gamma>" if "k \<le> i + 1" "den ((trace @ [current']) ! k) \<gamma>" for k \<gamma>
      using that nth [of k] no st by (auto simp: search_state_def split: if_splits)
    show "within_bound depth (i + 1)" using below by (auto simp: within_bound_def split: option.splits)
    show "good (bdd_disj lib reachable current')"
      using st disj_good good by (simp add: search_state_def)
  qed (use st lay good len in \<open>auto simp: search_state_def\<close>)
qed

lemma search_converged:
  assumes st: "search_state den R good start target depth trace current reachable i"
    and img: "image current = Some current'" and eq: "bdd_eq lib reachable (bdd_disj lib reachable current')"
  shows "search_ok n den R good start target depth (BddConverged reachable)"
proof -
  have cur: "good current" "current = last trace" and len: "length trace = Suc i"
    and lay: "layers den R start trace" and reach: "\<And>\<gamma>. den reachable \<gamma> \<longleftrightarrow> (\<exists>k\<le>i. den (trace ! k) \<gamma>)"
    using st by (auto simp: search_state_def layers_def)
  note doc = good_doc [OF cur(1)]
  have sub: "den current' \<gamma> \<Longrightarrow> den reachable \<gamma>" for \<gamma>
    using eq bdd_docD(1,11) [OF doc] by auto
  have last: "last trace = trace ! i" using len by (cases trace) (auto simp: last_conv_nth)
  have "den reachable \<gamma>" if "den start \<beta>" "(R ^^ k) \<beta> \<gamma>" for k \<beta> \<gamma>
    using that(2)
  proof (induction k arbitrary: \<gamma>)
    case 0
    with that(1) reach lay len show ?case by (force simp: layers_def)
  next
    case (Suc k)
    then obtain \<alpha> where \<alpha>: "(R ^^ k) \<beta> \<alpha>" "R \<alpha> \<gamma>" by auto
    from Suc.IH [OF \<alpha>(1)] reach obtain j where j: "j \<le> i" "den (trace ! j) \<alpha>" by blast
    show ?case
    proof (cases "j = i")
      case True
      with j \<alpha>(2) image_den [OF cur(1) img] cur(2) last have "den current' \<gamma>" by auto
      then show ?thesis by (rule sub)
    next
      case False
      with j lay len obtain \<beta>' where "den start \<beta>'" "(R ^^ j) \<beta>' \<alpha>" by (auto simp: layers_def)
      with \<alpha>(2) have "den start \<beta>' \<and> (R ^^ Suc j) \<beta>' \<gamma>" by auto
      with False j(1) lay len have "den (trace ! Suc j) \<gamma>" unfolding layers_def by (metis Suc_leI Suc_le_eq le_neq_implies_less less_Suc_eq_le)
      with False j(1) reach show ?thesis by (metis Suc_leI le_neq_implies_less)
    qed
  qed
  moreover have "\<exists>k \<beta>. den start \<beta> \<and> (R ^^ k) \<beta> \<gamma>" if "den reachable \<gamma>" for \<gamma>
    using that reach lay len unfolding layers_def by (metis le_imp_less_Suc)
  moreover have "\<not> den target \<gamma>" if "den reachable \<gamma>" for \<gamma>
    using st that reach unfolding search_state_def by blast
  moreover have "good reachable" using st by (simp add: search_state_def)
  ultimately show ?thesis unfolding search_ok.simps by blast
qed

lemma search_found:
  assumes st: "search_state den R good start target depth trace current reachable i"
    and below: "case depth of None \<Rightarrow> True | Some d \<Rightarrow> i < d" and img: "image current = Some current'"
    and v: "bdd_witness lib (bdd_conj lib current' target) = Some v"
  shows "search_ok n den R good start target depth (BddFound v (trace @ [current']))"
proof -
  from st have ne: "trace \<noteq> []" and cur: "current = last trace" "good current" and len: "length trace = i + 1"
    by (auto simp: search_state_def layers_def)
  note doc = good_doc [OF cur(2)]
  have "layers den R start (trace @ [current'])"
    using st img cur layers_snoc by (auto simp: search_state_def)
  moreover have "good current'" by (rule image_good [OF cur(2) img])
  moreover have "within_bound depth (length (trace @ [current']) - 1)"
    using below len by (auto simp: within_bound_def split: option.splits)
  moreover have "den current' (bits n v) \<and> den target (bits n v)" and "length v = n"
    using bdd_witness_Some [OF doc v] bdd_docD(10) [OF doc] by auto
  ultimately show ?thesis using st by (simp add: search_state_def)
qed

lemma loop_ok:
  assumes "bdd_loop lib image target depth trace current reachable i = Some r"
    and "search_state den R good start target depth trace current reachable i"
  shows "search_ok n den R good start target depth r"
proof -
  define Q where "Q = (\<lambda>lib' image' target' depth' trace current reachable i r.
    lib' = lib \<longrightarrow> image' = image \<longrightarrow> target' = target \<longrightarrow> depth' = depth
    \<longrightarrow> search_state den R good start target depth trace current reachable i \<longrightarrow> search_ok n den R good start target depth r)"
  from assms(1) have "Q lib image target depth trace current reachable i r"
  proof (rule bdd_loop.raw_induct [rotated])
    fix f lib' image' target' depth' tr cur re i' r'
    assume IH: "\<And>lib' image' target' depth' tr cur re i r'. f lib' image' target' depth' tr cur re i = Some r'
        \<Longrightarrow> Q lib' image' target' depth' tr cur re i r'"
      and body: "(if case depth' of None \<Rightarrow> True | Some d \<Rightarrow> i' < d
        then case image' cur of None \<Rightarrow> None
             | Some current \<Rightarrow>
                 let new_reachable = bdd_disj lib' re current
                 in if bdd_eq lib' re new_reachable then Some (BddConverged re)
                    else let trace = tr @ [current]
                         in case bdd_witness lib' (bdd_conj lib' current target') of
                              None \<Rightarrow> f lib' image' target' depth' trace current new_reachable (i' + 1)
                            | Some valuation \<Rightarrow> Some (BddFound valuation trace)
        else Some BddExhausted) = Some r'"
    show "Q lib' image' target' depth' tr cur re i' r'"
      unfolding Q_def
    proof (intro impI)
      assume eq: "lib' = lib" "image' = image" "target' = target" "depth' = depth"
        and st: "search_state den R good start target depth tr cur re i'"
      show "search_ok n den R good start target depth r'"
      proof (cases "case depth of None \<Rightarrow> True | Some d \<Rightarrow> i' < d")
        case False
        then obtain d where d: "depth = Some d" "d \<le> i'" by (auto split: option.splits)
        have "r' = BddExhausted" using body False unfolding eq by simp
        moreover have "i' = d" using st d by (simp add: search_state_def within_bound_def)
        moreover have "\<not> den target \<gamma>" if "k \<le> i'" "den start \<beta>" "(R ^^ k) \<beta> \<gamma>" for k \<beta> \<gamma>
        proof -
          have "den (tr ! k) \<gamma>" using st that by (auto simp: search_state_def layers_def)
          with st that(1) show ?thesis by (auto simp: search_state_def)
        qed
        ultimately show ?thesis using d(1) by auto
      next
        case True
        with body obtain cur' where img: "image cur = Some cur'" unfolding eq by (auto split: option.splits)
        consider "bdd_eq lib re (bdd_disj lib re cur')"
          | v where "\<not> bdd_eq lib re (bdd_disj lib re cur')" "bdd_witness lib (bdd_conj lib cur' target) = Some v"
          | "\<not> bdd_eq lib re (bdd_disj lib re cur')" "bdd_witness lib (bdd_conj lib cur' target) = None"
          by (cases "bdd_witness lib (bdd_conj lib cur' target)") auto
        then show ?thesis
        proof cases
          case 1
          then have "r' = BddConverged re" using body True img unfolding eq by (simp add: Let_def)
          with search_converged [OF st img 1] show ?thesis by (simp only:)
        next
          case (2 v)
          then have "r' = BddFound v (tr @ [cur'])" using body True img unfolding eq by (simp add: Let_def)
          with search_found [OF st True img 2(2)] show ?thesis by (simp only:)
        next
          case 3
          then have "f lib image target depth (tr @ [cur']) cur' (bdd_disj lib re cur') (i' + 1) = Some r'"
            using body True img unfolding eq by (simp add: Let_def)
          from IH [OF this] search_progress [OF st True img 3(2)] show ?thesis unfolding Q_def by blast
        qed
      qed
    qed
  qed
  with assms(2) show ?thesis by (simp add: Q_def)
qed

lemma search_correct:
  assumes "good start" and "bdd_search lib image start target depth = Some r"
  shows "search_ok n den R good start target depth r"
proof (cases "bdd_witness lib (bdd_conj lib start target)")
  case None
  with assms(2) have "bdd_loop lib image target depth [start] start start 0 = Some r"
    by (simp add: bdd_search_def)
  from loop_ok [OF this search_start [OF assms(1) None]] show ?thesis .
next
  case (Some v)
  note doc = good_doc [OF assms(1)]
  from assms(2) Some have r: "r = BddFound v [start]" by (simp add: bdd_search_def)
  have "den start (bits n v) \<and> den target (bits n v)" "length v = n"
    using bdd_witness_Some [OF doc Some] bdd_docD(10) [OF doc] by auto
  with assms(1) show ?thesis
    by (auto simp: r layers_single within_bound_def split: option.split)
qed

text \<open>The set of reachable states grows in every iteration that goes on, so the loop ends.\<close>

lemma loop_returns:
  "good current \<Longrightarrow> good reachable \<Longrightarrow> \<exists>r. bdd_loop lib image target depth trace current reachable i = Some r"
proof (induction "card {v. length v = n \<and> \<not> den reachable (bits n v)}" arbitrary: trace current reachable i rule: less_induct)
  case less
  note doc = good_doc [OF less.prems(1)]
  from image_total [OF less.prems(1)] obtain cur' where img: "image current = Some cur'" by blast
  have good: "good cur'" "good (bdd_disj lib reachable cur')"
    using image_good [OF less.prems(1) img] disj_good less.prems(2) by blast+
  show ?case
  proof (cases "bdd_eq lib reachable (bdd_disj lib reachable cur')")
    case True
    then show ?thesis by (subst bdd_loop.simps) (simp add: img Let_def)
  next
    case False
    then obtain \<beta> where \<beta>: "\<not> den reachable \<beta>" "den cur' \<beta>"
      using bdd_docD(1,11) [OF doc] by auto
    let ?v = "map \<beta> [0..<n]"
    have "finite {v :: bool list. length v = n}" using finite_lists_length_eq [of "UNIV :: bool set" n] by simp
    then have "card {v. length v = n \<and> \<not> den (bdd_disj lib reachable cur') (bits n v)}
        < card {v. length v = n \<and> \<not> den reachable (bits n v)}"
    proof (intro psubset_card_mono)
      have "?v \<in> {v. length v = n \<and> \<not> den reachable (bits n v)}"
        "?v \<notin> {v. length v = n \<and> \<not> den (bdd_disj lib reachable cur') (bits n v)}"
        using \<beta> bdd_docD(11) [OF doc] by (simp_all add: den_bits [OF doc])
      moreover have "{v. length v = n \<and> \<not> den (bdd_disj lib reachable cur') (bits n v)}
          \<subseteq> {v. length v = n \<and> \<not> den reachable (bits n v)}" using bdd_docD(11) [OF doc] by auto
      ultimately show "{v. length v = n \<and> \<not> den (bdd_disj lib reachable cur') (bits n v)}
          \<subset> {v. length v = n \<and> \<not> den reachable (bits n v)}" by blast
    qed simp
    from less.hyps [OF this good, of "trace @ [cur']" "i + 1"] show ?thesis
      using False by (subst bdd_loop.simps) (auto simp: img Let_def split: option.split)
  qed
qed

lemma symbolic_returns:
  "good start \<Longrightarrow> \<exists>r. bdd_search lib image start target depth = Some r"
  using loop_returns by (simp add: bdd_search_def split: option.split)

end

section \<open>Forwards and backwards\<close>

lemma post_image_SomeD:
  assumes "bdd_setup it ho sig u ix lib den" and "state_bdd den ix b" and "post_image lib ix tr b = Some b'"
  shows "state_bdd den ix b'" and "den b' \<gamma> \<longleftrightarrow> (\<exists>\<beta>. den b \<beta> \<and> symbolic_step den ix tr \<beta> \<gamma>)"
  using post_image_den [OF assms(1,2), of tr] unfolding assms(3) by simp_all

lemma pre_image_SomeD:
  assumes "bdd_setup it ho sig u ix lib den" and "state_bdd den ix b" and "pre_image lib ix tr b = Some b'"
  shows "state_bdd den ix b'" and "den b' \<beta> \<longleftrightarrow> (\<exists>\<gamma>. den b \<gamma> \<and> symbolic_step den ix tr \<beta> \<gamma>)"
  using pre_image_den [OF assms(1,2), of tr] unfolding assms(3) by simp_all

lemma state_bdd_disj:
  "\<lbrakk> bdd_setup it ho sig u ix lib den; state_bdd den ix x; state_bdd den ix y \<rbrakk> \<Longrightarrow> state_bdd den ix (bdd_disj lib x y)"
  unfolding state_bdd_def by (rule independent_bdd(2) [OF bdd_setupD(7)])

interpretation forwards: symbolic_search "ix_num_vars ix" lib den "post_image lib ix tr"
    "\<lambda>b. bdd_setup it ho sig u ix lib den \<and> state_bdd den ix b" "symbolic_step den ix tr"
  for it ho sig u ix lib den tr
proof
  show "bdd_doc (ix_num_vars ix) lib den" if "bdd_setup it ho sig u ix lib den \<and> state_bdd den ix b" for b
    using that bdd_setupD(7) by blast
  show "bdd_setup it ho sig u ix lib den \<and> state_bdd den ix (bdd_disj lib x y)"
    if "bdd_setup it ho sig u ix lib den \<and> state_bdd den ix x" "bdd_setup it ho sig u ix lib den \<and> state_bdd den ix y" for x y
    using that state_bdd_disj [of it ho sig u ix lib den x y] by simp
  show "\<exists>b'. post_image lib ix tr b = Some b'" if "bdd_setup it ho sig u ix lib den \<and> state_bdd den ix b" for b
    using that post_image_den [of it ho sig u ix lib den b tr] by blast
  show "bdd_setup it ho sig u ix lib den \<and> state_bdd den ix b'"
    if "bdd_setup it ho sig u ix lib den \<and> state_bdd den ix b" "post_image lib ix tr b = Some b'" for b b'
    using that post_image_SomeD(1) [of it ho sig u ix lib den b tr b'] by simp
  show "den b' \<gamma> \<longleftrightarrow> (\<exists>\<beta>. den b \<beta> \<and> (symbolic_step den ix tr) \<beta> \<gamma>)"
    if "bdd_setup it ho sig u ix lib den \<and> state_bdd den ix b" "post_image lib ix tr b = Some b'" for b b' \<gamma>
    using that post_image_SomeD(2) [of it ho sig u ix lib den b tr b' \<gamma>] by auto
qed

interpretation backwards: symbolic_search "ix_num_vars ix" lib den "pre_image lib ix tr"
    "\<lambda>b. bdd_setup it ho sig u ix lib den \<and> state_bdd den ix b" "(symbolic_step den ix tr)\<inverse>\<inverse>"
  for it ho sig u ix lib den tr
proof
  show "bdd_doc (ix_num_vars ix) lib den" if "bdd_setup it ho sig u ix lib den \<and> state_bdd den ix b" for b
    using that bdd_setupD(7) by blast
  show "bdd_setup it ho sig u ix lib den \<and> state_bdd den ix (bdd_disj lib x y)"
    if "bdd_setup it ho sig u ix lib den \<and> state_bdd den ix x" "bdd_setup it ho sig u ix lib den \<and> state_bdd den ix y" for x y
    using that state_bdd_disj [of it ho sig u ix lib den x y] by simp
  show "\<exists>b'. pre_image lib ix tr b = Some b'" if "bdd_setup it ho sig u ix lib den \<and> state_bdd den ix b" for b
    using that pre_image_den [of it ho sig u ix lib den b tr] by blast
  show "bdd_setup it ho sig u ix lib den \<and> state_bdd den ix b'"
    if "bdd_setup it ho sig u ix lib den \<and> state_bdd den ix b" "pre_image lib ix tr b = Some b'" for b b'
    using that pre_image_SomeD(1) [of it ho sig u ix lib den b tr b'] by simp
  show "den b' \<gamma> \<longleftrightarrow> (\<exists>\<beta>. den b \<beta> \<and> ((symbolic_step den ix tr)\<inverse>\<inverse>) \<beta> \<gamma>)"
    if "bdd_setup it ho sig u ix lib den \<and> state_bdd den ix b" "pre_image lib ix tr b = Some b'" for b b' \<gamma>
    using that pre_image_SomeD(2) [of it ho sig u ix lib den b tr b' \<gamma>] by auto
qed

end
