(* ===== verification/Bounded_Bdd_Trace.thy ===== *)
theory Bounded_Bdd_Trace
  imports Bounded_Bdd_Search
begin

text \<open>
  From the result of the symbolic search of \<^verbatim>\<open>bounded/src/bdd.rs\<close> back to an execution: what the cube
  of a state and the two closures \<open>next\<close> denote, and that walking through the layers, from the state
  found to the first layer, never panics and picks consecutive states.
\<close>

section \<open>Cubes\<close>

definition state_variable :: "indices \<Rightarrow> nat \<Rightarrow> nat \<Rightarrow> nat" where
  "state_variable ix primes i = (if i < ix_num_mutables ix then i + primes * ix_num_mutables ix else i)"

definition current_variable :: "indices \<Rightarrow> nat \<Rightarrow> bool" where
  "current_variable ix i \<longleftrightarrow> i < ix_num_mutables ix \<or> 2 * ix_num_mutables ix \<le> i \<and> i < ix_num_vars ix"

lemma index_lookup_range:
  assumes su: "bdd_setup it ho sig u ix lib den"
  shows "index_lookup (ix_indices ix) r es = Some (i, b) \<Longrightarrow>
      (if b then i < ix_num_mutables ix else 2 * ix_num_mutables ix \<le> i) \<and> i < ix_num_vars ix"
    and "current_variable ix i \<Longrightarrow> \<exists>r es b. index_lookup (ix_indices ix) r es = Some (i, b)"
proof -
  note D = bdd_setupD [OF su]
  obtain muts imms :: "(string \<times> element list) list" where
    lookup: "\<And>r e. index_lookup (ix_indices ix) r e =
      (case position (\<lambda>x. x = (r, e)) imms of
         Some i \<Rightarrow> Some (length muts * 2 + i, False)
       | None \<Rightarrow> map_option (\<lambda>i. (i, True)) (position (\<lambda>x. x = (r, e)) muts))"
    and n: "ix_num_mutables ix = length muts" "ix_num_vars ix = length muts * 2 + length imms"
    by (rule indices_new_cases [OF D(1,3,5)]) blast
  show "(if b then i < ix_num_mutables ix else 2 * ix_num_mutables ix \<le> i) \<and> i < ix_num_vars ix"
    if "index_lookup (ix_indices ix) r es = Some (i, b)"
    using that n by (auto simp: lookup split: option.splits dest!: position_SomeD)
  show "\<exists>r es b. index_lookup (ix_indices ix) r es = Some (i, b)" if "current_variable ix i"
    using index_lookup_onto [OF D(1,3,5), of i] that unfolding current_variable_def by (metis mult.commute)
qed

lemma cube_literal_den:
  assumes su: "bdd_setup it ho sig u ix lib den" and p: "primes < 2" and v: "length v = ix_num_vars ix"
    and "index_lookup (ix_indices ix) r es = Some (i, b)"
  shows "\<exists>x. cube_literal lib ix primes v r (es, i, b) = Some x
    \<and> (\<forall>\<beta>. den x \<beta> \<longleftrightarrow> (\<beta> (state_variable ix primes i) \<longleftrightarrow> v ! i))"
proof -
  let ?k = "state_variable ix primes i"
  note r = index_lookup_range(1) [OF su assms(4)] and D = bdd_setupD [OF su] and V = bdd_setup_variables [OF su]
  from p consider "primes = 0" | "primes = 1" by linarith
  then have k: "?k < ix_num_vars ix" using r V(2) by cases (auto simp: state_variable_def split: if_splits)
  have "indices_get ix r primes es = Some ?k"
    using assms(4) r p V(3) by (auto simp: indices_get_def state_variable_def split: if_splits)
  then have var: "bdd_var lib ix r primes es = Some (mk_var lib ?k)"
    using k V(1) by (simp add: bdd_var_def)
  have bool: "bdd_bool_doc (ix_num_vars ix) lib den" using D(7) by (simp add: bdd_doc_def)
  have "valuation_value ix v i = Some (v ! i)" using r v by (simp add: valuation_value_def variable_at_eq [OF su])
  with var have "cube_literal lib ix primes v r (es, i, b)
      = Some (if v ! i then mk_var lib ?k else bdd_not lib (mk_var lib ?k))" by (simp add: cube_literal_def)
  moreover have "den (mk_var lib ?k) \<beta> \<longleftrightarrow> \<beta> ?k" "den (bdd_not lib x) \<beta> \<longleftrightarrow> \<not> den x \<beta>" for x \<beta>
    using bool k by (simp_all add: bdd_bool_doc_def)
  ultimately show ?thesis by auto
qed

lemma state_cube_den:
  assumes su: "bdd_setup it ho sig u ix lib den" and p: "primes < 2" and v: "length v = ix_num_vars ix"
  shows "\<exists>c. state_cube lib ho ix primes v = Some c
    \<and> (\<forall>\<beta>. den c \<beta> \<longleftrightarrow> (\<forall>i. current_variable ix i \<longrightarrow> \<beta> (state_variable ix primes i) = v ! i))"
proof -
  note D = bdd_setupD [OF su]
  let ?f = "\<lambda>(r, e). cube_literal lib ix primes v r e"
  have list: "concat (map (\<lambda>(r, rest). map (cube_literal lib ix primes v r) rest) (ho_indices ho (ix_indices ix)))
      = map ?f (index_entries ho ix)"
    by (auto simp: index_entries_def map_concat comp_def intro!: arg_cong [of _ _ concat])
  have lit: "\<exists>x. ?f y = Some x \<and> (\<forall>\<beta>. den x \<beta> \<longleftrightarrow> (\<beta> (state_variable ix primes (fst (snd (snd y)))) \<longleftrightarrow> v ! fst (snd (snd y))))"
    if "y \<in> set (index_entries ho ix)" for y
  proof -
    obtain r es i b where y: "y = (r, es, i, b)" by (cases y)
    with that have "index_lookup (ix_indices ix) r es = Some (i, b)" by (simp add: index_entries_iff [OF D(6)])
    from cube_literal_den [OF su p v this] show ?thesis by (simp add: y)
  qed
  then obtain g where g: "\<And>y. y \<in> set (index_entries ho ix) \<Longrightarrow> ?f y = Some (g y)"
    "\<And>y \<beta>. y \<in> set (index_entries ho ix)
      \<Longrightarrow> den (g y) \<beta> \<longleftrightarrow> (\<beta> (state_variable ix primes (fst (snd (snd y)))) \<longleftrightarrow> v ! fst (snd (snd y)))" by metis
  then have "those (map ?f (index_entries ho ix)) = Some (map g (index_entries ho ix))"
    by (intro those_map_SomeI) simp
  then have cube: "state_cube lib ho ix primes v = Some (bdd_and lib (map g (index_entries ho ix)))"
    unfolding state_cube_def list by simp
  have bool: "bdd_bool_doc (ix_num_vars ix) lib den" using D(7) by (simp add: bdd_doc_def)
  have idx: "(\<exists>r es b. index_lookup (ix_indices ix) r es = Some (i, b)) \<longleftrightarrow> current_variable ix i" for i
    using index_lookup_range [OF su] unfolding current_variable_def by (metis (no_types, lifting))
  have "den (bdd_and lib (map g (index_entries ho ix))) \<beta>
      \<longleftrightarrow> (\<forall>i. current_variable ix i \<longrightarrow> \<beta> (state_variable ix primes i) = v ! i)" for \<beta>
  proof -
    have "den (bdd_and lib (map g (index_entries ho ix))) \<beta>
        \<longleftrightarrow> (\<forall>(r, es, i, b)\<in>set (index_entries ho ix). \<beta> (state_variable ix primes i) = v ! i)"
      using g(2) by (auto simp: bdd_and_den [OF bool])
    also have "\<dots> \<longleftrightarrow> (\<forall>i. (\<exists>r es b. index_lookup (ix_indices ix) r es = Some (i, b))
        \<longrightarrow> \<beta> (state_variable ix primes i) = v ! i)"
      unfolding Ball_def split_paired_All prod.case index_entries_iff [OF D(6)] by blast
    finally show ?thesis unfolding idx .
  qed
  with cube show ?thesis by blast
qed

section \<open>The neighbours of a state in a layer\<close>

lemma bits_pair:
  assumes su: "bdd_setup it ho sig u ix lib den"
    and first: "\<And>k. k < ix_num_mutables ix \<Longrightarrow> \<zeta> k = v ! k"
    and second: "\<And>k. k < ix_num_mutables ix \<Longrightarrow> \<zeta> (k + ix_num_mutables ix) = w ! k"
    and rest: "\<And>k. 2 * ix_num_mutables ix \<le> k \<Longrightarrow> \<zeta> k = bits (ix_num_vars ix) v k"
  shows "\<zeta> = state_pair ix (bits (ix_num_vars ix) v) (bits (ix_num_vars ix) w)"
proof
  fix k
  consider "k < ix_num_mutables ix" | "ix_num_mutables ix \<le> k" "k < 2 * ix_num_mutables ix" | "2 * ix_num_mutables ix \<le> k"
    by linarith
  then show "\<zeta> k = state_pair ix (bits (ix_num_vars ix) v) (bits (ix_num_vars ix) w) k"
  proof cases
    case 1
    with first bdd_setup_variables(2) [OF su] show ?thesis by (simp add: state_pair_def bits_def)
  next
    case 2
    then have "k - ix_num_mutables ix < ix_num_mutables ix" by linarith
    with 2 second [of "k - ix_num_mutables ix"] bdd_setup_variables(2) [OF su] show ?thesis
      by (simp add: state_pair_def bits_def)
  next
    case 3
    with rest show ?thesis by (simp add: state_pair_def)
  qed
qed

lemma bdd_and3: "bdd_bool_doc n lib den \<Longrightarrow> den (bdd_and lib [x, y, z]) \<beta> \<longleftrightarrow> den x \<beta> \<and> den y \<beta> \<and> den z \<beta>"
  by (simp add: bdd_and_den)

lemma previous_states_den:
  assumes su: "bdd_setup it ho sig u ix lib den" and layer: "state_bdd den ix layer" and v: "length v = ix_num_vars ix"
  shows "\<exists>b. previous_states lib ho ix tr layer v = Some b \<and> (\<forall>v'. length v' = ix_num_vars ix \<longrightarrow>
    (den b (bits (ix_num_vars ix) v') \<longleftrightarrow> den layer (bits (ix_num_vars ix) v')
      \<and> symbolic_step den ix tr (bits (ix_num_vars ix) v') (bits (ix_num_vars ix) v)))"
proof -
  define m n where "m = ix_num_mutables ix" and "n = ix_num_vars ix"
  note D = bdd_setupD [OF su]
  have mn: "2 * m \<le> n" using bdd_setup_variables(2) [OF su] by (simp add: m_def n_def)
  have bool: "bdd_bool_doc n lib den" using D(7) by (simp add: bdd_doc_def n_def)
  from state_cube_den [OF su _ v, of 1] obtain c where c: "state_cube lib ho ix 1 v = Some c"
    and cden: "\<And>\<beta>. den c \<beta> \<longleftrightarrow> (\<forall>i. current_variable ix i \<longrightarrow> \<beta> (state_variable ix 1 i) = v ! i)" by auto
  let ?x = "bdd_and lib [layer, tr, c]"
  have "variables_between ix m (m * 2) = Some [m..<m * 2]"
    using mn by (intro variables_between_eq [OF su]) (simp_all add: n_def)
  with c have prev: "previous_states lib ho ix tr layer v = Some (bdd_exists lib ?x [m..<m * 2])"
    by (simp add: previous_states_def Let_def flip: m_def)
  have x: "den (bdd_exists lib ?x [m..<m * 2]) \<delta>
      \<longleftrightarrow> (\<exists>\<zeta>. (\<forall>k. k < m \<or> 2 * m \<le> k \<longrightarrow> \<zeta> k = \<delta> k) \<and> den layer \<zeta> \<and> den tr \<zeta> \<and> den c \<zeta>)" for \<delta>
    using bdd_docD(2) [OF D(7)] by (auto simp: bdd_and3 [OF bool] not_less not_le mult.commute)
  have "den (bdd_exists lib ?x [m..<m * 2]) (bits n v')
      \<longleftrightarrow> den layer (bits n v') \<and> symbolic_step den ix tr (bits n v') (bits n v)" (is "?L \<longleftrightarrow> ?R") for v'
  proof
    let ?\<zeta> = "state_pair ix (bits n v') (bits n v)"
    have indep: "den layer \<zeta> = den layer (bits n v')" if "\<And>k. k < m \<or> 2 * m \<le> k \<Longrightarrow> \<zeta> k = bits n v' k" for \<zeta>
      using layer that unfolding state_bdd_def by (intro independentD [of den layer]) (auto simp: m_def)
    {
      assume ?L
      then obtain \<zeta> where \<zeta>: "\<And>k. k < m \<or> 2 * m \<le> k \<Longrightarrow> \<zeta> k = bits n v' k" "den layer \<zeta>" "den tr \<zeta>" "den c \<zeta>"
        unfolding x by blast
      have second: "\<zeta> (k + m) = v ! k" if "k < m" for k
        using \<zeta>(4) that unfolding cden by (auto simp: current_variable_def state_variable_def simp flip: m_def)
      have imm: "\<zeta> k = v ! k" if "2 * m \<le> k" "k < n" for k
        using \<zeta>(4) that unfolding cden
        by (auto simp: current_variable_def state_variable_def simp flip: m_def n_def)
      have "\<zeta> = ?\<zeta>"
        unfolding n_def by (rule bits_pair [OF su]) (use \<zeta>(1) second mn in \<open>auto simp: m_def n_def bits_def\<close>)
      moreover have "bits n v' k = bits n v k" if "2 * m \<le> k" for k
        using \<zeta>(1) [of k] imm [of k] that by (auto simp: bits_def)
      ultimately show ?R using \<zeta>(2,3) indep [OF \<zeta>(1)] by (simp add: symbolic_step_def flip: m_def)
    }
    {
      assume R: ?R
      then have eq: "\<And>k. 2 * m \<le> k \<Longrightarrow> bits n v' k = bits n v k" and tr: "den tr ?\<zeta>"
        by (auto simp: symbolic_step_def m_def)
      have "den c ?\<zeta>"
        unfolding cden using eq mn
        by (auto simp: current_variable_def state_variable_def state_pair_def bits_def simp flip: m_def n_def)
      moreover have same: "?\<zeta> k = bits n v' k" if "k < m \<or> 2 * m \<le> k" for k
        using that by (auto simp: state_pair_def simp flip: m_def)
      moreover have "den layer ?\<zeta>" using R indep [OF same] by blast
      ultimately show ?L using tr unfolding x by blast
    }
  qed
  with prev show ?thesis unfolding n_def by blast
qed

lemma next_states_den:
  assumes su: "bdd_setup it ho sig u ix lib den" and layer: "state_bdd den ix layer" and v: "length v = ix_num_vars ix"
  shows "\<exists>b. next_states lib ho ix tr layer v = Some b \<and> (\<forall>v'. length v' = ix_num_vars ix \<longrightarrow>
    (den b (bits (ix_num_vars ix) v') \<longleftrightarrow> den layer (bits (ix_num_vars ix) v')
      \<and> symbolic_step den ix tr (bits (ix_num_vars ix) v) (bits (ix_num_vars ix) v')))"
proof -
  define m n where "m = ix_num_mutables ix" and "n = ix_num_vars ix"
  note D = bdd_setupD [OF su]
  have mn: "2 * m \<le> n" using bdd_setup_variables(2) [OF su] by (simp add: m_def n_def)
  have bool: "bdd_bool_doc n lib den" using D(7) by (simp add: bdd_doc_def n_def)
  from state_cube_den [OF su _ v, of 0] obtain c where c: "state_cube lib ho ix 0 v = Some c"
    and cden: "\<And>\<beta>. den c \<beta> \<longleftrightarrow> (\<forall>i. current_variable ix i \<longrightarrow> \<beta> (state_variable ix 0 i) = v ! i)" by auto
  have "independent den layer {m..<2 * m}" using layer by (simp add: state_bdd_def m_def)
  from rename_to_second [OF su m_def this] obtain y
    where y: "rename_variables lib ix (map (\<lambda>j. (j, j + m)) (rev [0..<m])) layer = Some y"
    and yden: "\<And>\<beta>. den y \<beta> = den layer (\<lambda>k. if k < m then \<beta> (k + m) else \<beta> k)" by blast
  let ?x = "bdd_exists lib (bdd_and lib [c, tr, y]) [0..<m]"
  have x: "den ?x \<delta> \<longleftrightarrow> (\<exists>\<zeta>. (\<forall>k\<ge>m. \<zeta> k = \<delta> k) \<and> den c \<zeta> \<and> den tr \<zeta> \<and> den y \<zeta>)" for \<delta>
    using bdd_docD(2) [OF D(7)] by (auto simp: bdd_and3 [OF bool] not_less)
  have "independent den ?x {..<m}"
    unfolding independent_def x by (metis (no_types, lifting) lessThan_iff not_less)
  from rename_to_first [OF su m_def this] obtain z
    where z: "rename_variables lib ix (map (\<lambda>j. (j + m, j)) [0..<m]) ?x = Some z"
    and zden: "\<And>\<beta>. den z \<beta> = den ?x (\<lambda>k. if m \<le> k \<and> k < 2 * m then \<beta> (k - m) else \<beta> k)" by blast
  have "variables_between ix 0 m = Some [0..<m]"
    using mn by (intro variables_between_eq [OF su]) (simp_all add: n_def)
  with c y z have nxt: "next_states lib ho ix tr layer v = Some z"
    by (simp add: next_states_def Let_def flip: m_def)
  have "den z (bits n v') \<longleftrightarrow> den layer (bits n v') \<and> symbolic_step den ix tr (bits n v) (bits n v')"
    (is "?L \<longleftrightarrow> ?R") for v'
  proof
    let ?\<zeta> = "state_pair ix (bits n v) (bits n v')"
    have indep: "den y \<zeta> = den layer (bits n v')"
      if "\<And>k. k < m \<Longrightarrow> \<zeta> (k + m) = bits n v' k" "\<And>k. 2 * m \<le> k \<Longrightarrow> \<zeta> k = bits n v' k" for \<zeta>
      using layer that unfolding state_bdd_def yden by (intro independentD [of den layer]) (auto simp: m_def)
    {
      assume ?L
      then obtain \<zeta> where \<zeta>: "\<And>k. m \<le> k \<Longrightarrow> \<zeta> k = (if k < 2 * m then bits n v' (k - m) else bits n v' k)"
          "den c \<zeta>" "den tr \<zeta>" "den y \<zeta>"
        unfolding zden x by auto
      have cur: "\<zeta> k = v ! k" if "k < m \<or> 2 * m \<le> k \<and> k < n" for k
        using \<zeta>(2) that unfolding cden
        by (auto simp: current_variable_def state_variable_def simp flip: m_def n_def split: if_splits)
      have second: "\<zeta> (k + m) = bits n v' k" if "k < m" for k
        using \<zeta>(1) [of "k + m"] that by simp
      have eq: "\<zeta> k = bits n v' k" "\<zeta> k = bits n v k" if "2 * m \<le> k" for k
        using \<zeta>(1) [of k] cur [of k] that by (auto simp: bits_def)
      have "\<zeta> = ?\<zeta>"
        unfolding n_def by (rule bits_pair [OF su]) (use cur second eq mn in \<open>auto simp: m_def n_def bits_def\<close>)
      with \<zeta>(3,4) indep [OF second eq(1)] eq show ?R by (simp add: symbolic_step_def flip: m_def)
    }
    {
      assume R: ?R
      then have eq: "\<And>k. 2 * m \<le> k \<Longrightarrow> bits n v k = bits n v' k" and tr: "den tr ?\<zeta>"
        by (auto simp: symbolic_step_def m_def)
      have "den c ?\<zeta>"
        unfolding cden using mn
        by (auto simp: current_variable_def state_variable_def state_pair_def bits_def simp flip: m_def n_def)
      moreover have "den y ?\<zeta>"
        using R indep [of ?\<zeta>] eq by (auto simp: state_pair_def simp flip: m_def)
      moreover have "?\<zeta> k = (if m \<le> k \<and> k < 2 * m then bits n v' (k - m) else bits n v' k)" if "m \<le> k" for k
        using that eq by (auto simp: state_pair_def simp flip: m_def)
      ultimately show ?L using tr unfolding zden x by blast
    }
  qed
  with nxt show ?thesis unfolding n_def by blast
qed

section \<open>Walking through the layers\<close>

text \<open>A client that can compute, inside a layer, the states before a given state finds an execution
  through all layers. The states are valuations of the \<open>n\<close> variables.\<close>

locale symbolic_walk = symbolic_search +
  fixes nearby :: "'a \<Rightarrow> bool list \<Rightarrow> 'a option"
  assumes step_tail: "good layer \<Longrightarrow> R \<beta> \<gamma> \<Longrightarrow> n \<le> k \<Longrightarrow> \<beta> k = \<gamma> k"
    and nearby_den: "good layer \<Longrightarrow> length v = n \<Longrightarrow> \<exists>b. nearby layer v = Some b
      \<and> (\<forall>v'. length v' = n \<longrightarrow> (den b (bits n v') \<longleftrightarrow> den layer (bits n v') \<and> R (bits n v') (bits n v)))"
begin

lemma step_bits:
  assumes "good layer" and "R \<beta> (bits n v)"
  obtains v' where "length v' = n" and "\<beta> = bits n v'"
proof
  show "length (map \<beta> [0..<n]) = n" by simp
  show "\<beta> = bits n (map \<beta> [0..<n])"
  proof
    fix k
    show "\<beta> k = bits n (map \<beta> [0..<n]) k"
      using step_tail [OF assms, of k] by (cases "k < n") (simp_all add: bits_def)
  qed
qed

lemma walk_layers_correct:
  assumes "layers den R start trace" and "\<forall>b\<in>set trace. good b"
    and "length v = n" and "den (last trace) (bits n v)"
  shows "\<exists>vs. walk_layers lib nearby (rev (butlast trace)) v = Some vs \<and> length vs = length trace \<and> hd vs = v
    \<and> (\<forall>w\<in>set vs. length w = n) \<and> den start (bits n (last vs))
    \<and> (\<forall>i. Suc i < length vs \<longrightarrow> R (bits n (vs ! Suc i)) (bits n (vs ! i)))"
  using assms
proof (induction trace arbitrary: v rule: rev_induct)
  case Nil
  then show ?case by (simp add: layers_def)
next
  case (snoc b trace)
  show ?case
  proof (cases "trace = []")
    case True
    with snoc.prems have "den start (bits n v)" by (auto simp: layers_def)
    with True snoc.prems(3) show ?thesis by simp
  next
    case False
    let ?k = "length trace - 1"
    have lay: "layers den R start trace"
      using snoc.prems(1) False by (auto simp: layers_def nth_append split: if_splits)
    from snoc.prems(1,4) have "\<exists>\<beta>. den start \<beta> \<and> (R ^^ length trace) \<beta> (bits n v)"
      by (auto simp: layers_def dest: spec [of _ "length trace"])
    moreover have "length trace = Suc ?k" using False by simp
    ultimately obtain \<beta> \<gamma> where \<beta>: "den start \<beta>" "(R ^^ ?k) \<beta> \<gamma>" "R \<gamma> (bits n v)"
      by (metis relpowp_Suc_E)
    have good: "good (last trace)" using snoc.prems(2) False by simp
    from step_bits [OF good \<beta>(3)] obtain v0 where v0: "length v0 = n" "\<gamma> = bits n v0" .
    have "den (trace ! ?k) \<gamma>" using lay \<beta>(1,2) False by (auto simp: layers_def)
    then have last: "den (last trace) (bits n v0)" using False v0(2) by (simp add: last_conv_nth)
    from nearby_den [OF good snoc.prems(3)] obtain x where x: "nearby (last trace) v = Some x"
      and xden: "\<And>w. length w = n \<Longrightarrow> den x (bits n w) \<longleftrightarrow> den (last trace) (bits n w) \<and> R (bits n w) (bits n v)"
      by blast
    note doc = good_doc [OF good]
    have "den x (bits n v0)" using xden [OF v0(1)] last \<beta>(3) v0(2) by simp
    from bdd_witness_ex [OF doc this] obtain v1 where v1: "bdd_witness lib x = Some v1" ..
    from bdd_witness_Some [OF doc v1] have len: "length v1 = n" and "den x (bits n v1)" .
    with xden [OF len] have v1': "den (last trace) (bits n v1)" "R (bits n v1) (bits n v)" by simp_all
    from snoc.IH [OF lay _ len v1'(1)] snoc.prems(2) obtain vs where
      vs: "walk_layers lib nearby (rev (butlast trace)) v1 = Some vs" "length vs = length trace" "hd vs = v1"
        "\<forall>w\<in>set vs. length w = n" "den start (bits n (last vs))"
        "\<forall>i. Suc i < length vs \<longrightarrow> R (bits n (vs ! Suc i)) (bits n (vs ! i))" by auto
    have ne: "vs \<noteq> []" using vs(2) False by auto
    then have first: "vs ! 0 = v1" using vs(3) by (simp add: hd_conv_nth)
    have "rev (butlast (trace @ [b])) = last trace # rev (butlast trace)"
      using False by (metis append_butlast_last_id butlast_snoc rev_eq_Cons_iff rev_rev_ident)
    then have "walk_layers lib nearby (rev (butlast (trace @ [b]))) v = Some (v # vs)"
      by (simp only: walk_layers.simps x v1 vs(1) option.case option.map)
    moreover have "R (bits n ((v # vs) ! Suc i)) (bits n ((v # vs) ! i))" if "Suc i < length (v # vs)" for i
      using that vs(6) v1'(2) first by (cases i) auto
    ultimately show ?thesis using vs(2,4,5) ne snoc.prems(3) by auto
  qed
qed

end

interpretation forwards_walk: symbolic_walk "ix_num_vars ix" lib den "post_image lib ix tr"
    "\<lambda>b. bdd_setup it ho sig u ix lib den \<and> state_bdd den ix b" "symbolic_step den ix tr" "previous_states lib ho ix tr"
  for it ho sig u ix lib den tr
proof
  show "\<beta> k = \<gamma> k" if "bdd_setup it ho sig u ix lib den \<and> state_bdd den ix b" "(symbolic_step den ix tr) \<beta> \<gamma>" "ix_num_vars ix \<le> k" for b \<beta> \<gamma> k
    using that bdd_setup_variables(2) [of it ho sig u ix lib den] by (simp add: symbolic_step_def)
  show "\<exists>b. previous_states lib ho ix tr layer v = Some b \<and> (\<forall>v'. length v' = ix_num_vars ix \<longrightarrow>
      (den b (bits (ix_num_vars ix) v') \<longleftrightarrow> den layer (bits (ix_num_vars ix) v')
        \<and> (symbolic_step den ix tr) (bits (ix_num_vars ix) v') (bits (ix_num_vars ix) v)))"
    if "bdd_setup it ho sig u ix lib den \<and> state_bdd den ix layer" "length v = ix_num_vars ix" for layer v
    using previous_states_den [of it ho sig u ix lib den layer v tr] that by simp
qed

interpretation backwards_walk: symbolic_walk "ix_num_vars ix" lib den "pre_image lib ix tr"
    "\<lambda>b. bdd_setup it ho sig u ix lib den \<and> state_bdd den ix b" "(symbolic_step den ix tr)\<inverse>\<inverse>" "next_states lib ho ix tr"
  for it ho sig u ix lib den tr
proof
  show "\<beta> k = \<gamma> k" if "bdd_setup it ho sig u ix lib den \<and> state_bdd den ix b" "((symbolic_step den ix tr)\<inverse>\<inverse>) \<beta> \<gamma>" "ix_num_vars ix \<le> k" for b \<beta> \<gamma> k
    using that bdd_setup_variables(2) [of it ho sig u ix lib den] by (simp add: symbolic_step_def)
  show "\<exists>b. next_states lib ho ix tr layer v = Some b \<and> (\<forall>v'. length v' = ix_num_vars ix \<longrightarrow>
      (den b (bits (ix_num_vars ix) v') \<longleftrightarrow> den layer (bits (ix_num_vars ix) v')
        \<and> ((symbolic_step den ix tr)\<inverse>\<inverse>) (bits (ix_num_vars ix) v') (bits (ix_num_vars ix) v)))"
    if "bdd_setup it ho sig u ix lib den \<and> state_bdd den ix layer" "length v = ix_num_vars ix" for layer v
    using next_states_den [of it ho sig u ix lib den layer v tr] that by simp
qed

end
