(* ===== verification/Bounded_Bdd_States.thy ===== *)
theory Bounded_Bdd_States
  imports Bounded_Bdd_Trace Bounded_Set_Verdicts Bounded_Smt
begin

text \<open>
  The states of \<^verbatim>\<open>bounded/src/bdd.rs\<close>: valuations of the current-state variables are the states of
  traces, the translated formulas denote the transition system, and so the answers of the search,
  forwards and backwards, are statements about the executions of the module.
\<close>

section \<open>States and traces\<close>

text \<open>The valuation of a state of a trace, and the trace of a sequence of valuations.\<close>

definition trace_state :: "indices \<Rightarrow> fo_trace \<Rightarrow> nat \<Rightarrow> nat \<Rightarrow> bool" where
  "trace_state ix tr i k \<longleftrightarrow> (\<exists>f es. indices_get ix f 0 es = Some k \<and> trace_valuation tr i f 0 es)"

definition run_trace :: "universe_bounds \<Rightarrow> indices \<Rightarrow> (nat \<Rightarrow> nat \<Rightarrow> bool) \<Rightarrow> fo_trace" where
  "run_trace u ix \<beta>s =
     \<lparr>tr_card = (\<lambda>s. case bounds_cardinality u s of Some c \<Rightarrow> c | None \<Rightarrow> 0),
      tr_fun = (\<lambda>i f es. of_bool (index_valuation ix (\<beta>s i) f 0 es))\<rparr>"

definition same_immutables :: "indices \<Rightarrow> (nat \<Rightarrow> nat \<Rightarrow> bool) \<Rightarrow> bool" where
  "same_immutables ix \<beta>s \<longleftrightarrow> (\<forall>i. \<forall>k\<ge>2 * ix_num_mutables ix. \<beta>s i k = \<beta>s (Suc i) k)"

definition shows_states :: "indices \<Rightarrow> (nat \<Rightarrow> nat \<Rightarrow> bool) \<Rightarrow> fo_trace \<Rightarrow> bool" where
  "shows_states ix \<beta>s tr \<longleftrightarrow> same_immutables ix \<beta>s
     \<and> (\<forall>i f es k. indices_get ix f 0 es = Some k \<longrightarrow> \<beta>s i k = trace_valuation tr i f 0 es)"

lemma same_immutables_0:
  assumes "same_immutables ix \<beta>s" and "2 * ix_num_mutables ix \<le> k"
  shows "\<beta>s i k = \<beta>s 0 k"
proof (induction i)
  case (Suc i)
  from assms have "\<beta>s i k = \<beta>s (Suc i) k" unfolding same_immutables_def by blast
  with Suc show ?case by (simp only:)
qed (rule refl)

lemma get_current:
  assumes su: "bdd_setup it ho sig u ix lib den" and get: "indices_get ix f 0 es = Some k"
  obtains r where "index_slot sig u r es" "rd_name r = f" "current_variable ix k"
    "\<not> rd_mutable r \<longleftrightarrow> 2 * ix_num_mutables ix \<le> k"
proof -
  note D = bdd_setupD [OF su]
  from indices_get_slot [OF D(1,3,5) get] obtain r where r: "index_slot sig u r es" "rd_name r = f" "k < ix_num_vars ix" .
  with indices_get_range [OF D(1,3,5) r(1), of 0] get
  have "if rd_mutable r then k < ix_num_mutables ix else 2 * ix_num_mutables ix \<le> k"
    by (auto simp: mult.commute split: if_splits)
  with r that show thesis by (auto simp: current_variable_def split: if_splits)
qed

lemma get_pair:
  assumes su: "bdd_setup it ho sig u ix lib den" and get: "indices_get ix f p es = Some k"
    and eq: "\<And>k. 2 * ix_num_mutables ix \<le> k \<Longrightarrow> \<beta> k = \<gamma> k"
  shows "\<exists>k0. indices_get ix f 0 es = Some k0 \<and> state_pair ix \<beta> \<gamma> k = (if p = 0 then \<beta> k0 else \<gamma> k0) \<and> p < 2"
proof -
  from get have p: "p < 2" and "index_lookup (ix_indices ix) f es \<noteq> None"
    by (auto simp: indices_get_def bdd_setup_variables(3) [OF su] split: if_splits)
  then obtain i b where l: "index_lookup (ix_indices ix) f es = Some (i, b)" by auto
  with get p have k: "k = (if b then i + p * ix_num_mutables ix else i)"
    by (simp add: indices_get_def bdd_setup_variables(3) [OF su])
  from p consider "p = 0" | "p = 1" by linarith
  then show ?thesis
    using index_lookup_range(1) [OF su l] l k eq [of i]
    by cases (auto simp: indices_get_def bdd_setup_variables(3) [OF su] state_pair_def split: if_splits)
qed

lemma eeval_states:
  assumes su: "bdd_setup it ho sig u ix lib den" and st: "shows_states ix \<beta>s tr"
  shows "gets_defined ix e
    \<Longrightarrow> eeval (index_valuation ix (state_pair ix (\<beta>s i) (\<beta>s (Suc i)))) e = eeval (trace_valuation tr i) e"
proof (induction e)
  case (EAnd es)
  then show ?case by (simp add: list_all_iff)
next
  case (EOr es)
  then show ?case by (simp add: list_all_iff list_ex_iff)
next
  case (EApp f p es)
  then obtain k where k: "indices_get ix f p es = Some k" by auto
  have "\<beta>s i k = \<beta>s (Suc i) k" if "2 * ix_num_mutables ix \<le> k" for k
    using st that unfolding shows_states_def same_immutables_def by blast
  from get_pair [where \<beta> = "\<beta>s i" and \<gamma> = "\<beta>s (Suc i)", OF su k this] obtain k0 where k0: "indices_get ix f 0 es = Some k0" "p < 2"
    "state_pair ix (\<beta>s i) (\<beta>s (Suc i)) k = (if p = 0 then \<beta>s i k0 else \<beta>s (Suc i) k0)" by blast
  have at: "\<beta>s j k0 = trace_valuation tr j f 0 es" for j
    using st k0(1) unfolding shows_states_def by blast
  from k0(2) consider "p = 0" | "p = 1" by linarith
  then show ?case
    using k0(3) k by cases (simp_all add: index_valuation_def at, simp_all add: trace_valuation_def)
qed simp_all

lemma trace_state_shows:
  assumes su: "bdd_setup it ho sig u ix lib den" and frame: "immutable_frame sig tr"
  shows "shows_states ix (trace_state ix tr) tr"
proof -
  note D = bdd_setupD [OF su]
  have val: "trace_state ix tr i k = trace_valuation tr i f 0 es" if get: "indices_get ix f 0 es = Some k" for i f es k
  proof
    assume "trace_state ix tr i k"
    then obtain g fs where g: "indices_get ix g 0 fs = Some k" and v: "trace_valuation tr i g 0 fs"
      by (auto simp: trace_state_def)
    from get_current [OF su get] obtain r where r: "index_slot sig u r es" "rd_name r = f" by blast
    from get_current [OF su g] obtain r' where r': "index_slot sig u r' fs" "rd_name r' = g" by blast
    from indices_get_injective_slots [OF D(1,3,5) r(1) r'(1), of 0 0] get g r(2) r'(2) have "r = r' \<and> es = fs" by auto
    with v r(2) r'(2) show "trace_valuation tr i f 0 es" by simp
  qed (use get in \<open>auto simp: trace_state_def\<close>)
  have "trace_state ix tr i k = trace_state ix tr (Suc i) k" if k: "2 * ix_num_mutables ix \<le> k" for i k
  proof -
    have "tr_fun tr i f = tr_fun tr (Suc i) f" if get: "indices_get ix f 0 es = Some k" for f es
    proof -
      from get_current [OF su get] k obtain r where "index_slot sig u r es" "rd_name r = f" "\<not> rd_mutable r" by blast
      then have "is_immutable sig f" using is_immutable_decl [OF D(2), of r] by (simp add: index_slot_def)
      then show ?thesis by (rule immutable_frameD [OF frame])
    qed
    then show ?thesis unfolding trace_state_def trace_valuation_def add_0_right by metis
  qed
  with val show ?thesis unfolding shows_states_def same_immutables_def by blast
qed

lemma run_trace_ok:
  assumes su: "bdd_setup it ho sig u ix lib den" and same: "same_immutables ix \<beta>s"
  shows "shows_states ix \<beta>s (run_trace u ix \<beta>s)" and "system_ok sig u (run_trace u ix \<beta>s)"
proof -
  note D = bdd_setupD [OF su]
  show "shows_states ix \<beta>s (run_trace u ix \<beta>s)"
    using same by (simp add: shows_states_def run_trace_def trace_valuation_def index_valuation_def)
  have const: "index_valuation ix (\<beta>s i) f 0 es = index_valuation ix (\<beta>s j) f 0 es" if imm: "is_immutable sig f" for i j f es
  proof (cases "indices_get ix f 0 es")
    case (Some k)
    from get_current [OF su Some] obtain r where r: "index_slot sig u r es" "rd_name r = f"
      "\<not> rd_mutable r \<longleftrightarrow> 2 * ix_num_mutables ix \<le> k" by blast
    with imm is_immutable_decl [OF D(2), of r] have "2 * ix_num_mutables ix \<le> k" by (simp add: index_slot_def)
    with same_immutables_0 [OF same this, of i] same_immutables_0 [OF same this, of j] Some show ?thesis
      by (simp add: index_valuation_def)
  qed (simp add: index_valuation_def)
  have "rd_sort d = Bool" if "decl_of sig f = Some d" for f d
    using decl_of_mem [OF that] D(4) by (simp add: bool_relations_def)
  then have "trace_ok sig (run_trace u ix \<beta>s)"
    by (auto simp: trace_ok_def run_trace_def bounds_cardinality_def)
  moreover have "immutable_frame sig (run_trace u ix \<beta>s)"
    unfolding immutable_frame_def
  proof (intro allI impI ext)
    fix f i j es assume "is_immutable sig f"
    from const [OF this, of i es j]
    show "tr_fun (run_trace u ix \<beta>s) i f es = tr_fun (run_trace u ix \<beta>s) j f es" by (simp add: run_trace_def)
  qed
  ultimately show "system_ok sig u (run_trace u ix \<beta>s)"
    by (simp add: system_ok_def bounds_agree_def run_trace_def)
qed

section \<open>The translated formulas\<close>

lemma translate_pair:
  assumes su: "bdd_setup it ho sig u ix lib den" and sys: "system_ok sig u tr" and st: "shows_states ix \<beta>s tr"
    and ts: "\<forall>t\<in>set ts. term_sort sig Map.empty t = Some Bool \<and> no_past t \<and> fresh_binders (sig_relations sig) t"
    and b: "bdd_translate it lib sig u ix (term_and ts) = Some (Inr b)"
  shows "den b (state_pair ix (\<beta>s i) (\<beta>s (Suc i))) \<longleftrightarrow> (\<forall>t\<in>set ts. holds tr i Map.empty t)"
proof -
  note D = bdd_setupD [OF su]
  from b obtain e where e: "enumerate_term it sig u (term_and ts) = Some (Inr e)"
    and fe: "bdd_from_enumerated lib ix e = Some b" by (auto simp: bdd_translate_def bind_pr_Inr)
  note get = bdd_gets_defined [OF fe]
  have bool: "bdd_bool_doc (ix_num_vars ix) lib den" using D(7) by (simp add: bdd_doc_def)
  have "den b \<beta> \<longleftrightarrow> eeval (index_valuation ix \<beta>) e" for \<beta>
    using bdd_from_enumerated_den [OF bool bdd_setup_variables(1) [OF su] gets_defined_indexed [OF D(1,3,5) get]] fe by simp
  then show ?thesis by (simp only: eeval_states [OF su st get] translate_and [OF D(1) sys D(4) ts e])
qed

text \<open>Every valuation is a pair of states.\<close>

definition split_valuation :: "indices \<Rightarrow> (nat \<Rightarrow> bool) \<Rightarrow> nat \<Rightarrow> nat \<Rightarrow> bool" where
  "split_valuation ix \<beta> i =
     (if i = 0 then \<beta> else (\<lambda>k. if k < ix_num_mutables ix then \<beta> (k + ix_num_mutables ix) else \<beta> k))"

lemma split_valuation:
  "same_immutables ix (split_valuation ix \<beta>)"
  "state_pair ix (split_valuation ix \<beta> 0) (split_valuation ix \<beta> (Suc 0)) = \<beta>"
  by (auto simp: split_valuation_def same_immutables_def state_pair_def fun_eq_iff)

lemma translate_state:
  assumes su: "bdd_setup it ho sig u ix lib den"
    and ts: "\<forall>t\<in>set ts. term_sort sig Map.empty t = Some Bool \<and> no_past t \<and> fresh_binders (sig_relations sig) t"
    and look: "\<forall>t\<in>set ts. within_lookahead 0 t"
    and b: "bdd_translate it lib sig u ix (term_and ts) = Some (Inr b)"
  shows "state_bdd den ix b"
  unfolding state_bdd_def independent_def
proof (intro allI impI)
  fix \<beta> \<gamma> :: "nat \<Rightarrow> bool"
  assume eq: "\<forall>k. k \<notin> {ix_num_mutables ix..<2 * ix_num_mutables ix} \<longrightarrow> \<beta> k = \<gamma> k"
  let ?tr = "\<lambda>\<delta>. run_trace u ix (split_valuation ix \<delta>)"
  have den: "den b \<delta> \<longleftrightarrow> (\<forall>t\<in>set ts. holds (?tr \<delta>) 0 Map.empty t)" for \<delta>
    using translate_pair [OF su run_trace_ok(2,1) [OF su split_valuation(1)] ts b, of \<delta> 0]
    by (simp only: split_valuation(2))
  have "index_valuation ix \<beta> f 0 es = index_valuation ix \<gamma> f 0 es" for f es
  proof (cases "indices_get ix f 0 es")
    case (Some k)
    from get_current [OF su Some] have "current_variable ix k" by blast
    with eq Some show ?thesis by (auto simp: index_valuation_def current_variable_def)
  qed (simp add: index_valuation_def)
  then have "same_window (?tr \<beta>) 0 (?tr \<gamma>) 0 0"
    by (simp add: same_window_def run_trace_def split_valuation_def fun_eq_iff)
  then have "holds (?tr \<beta>) 0 Map.empty t \<longleftrightarrow> holds (?tr \<gamma>) 0 Map.empty t" if "t \<in> set ts" for t
    using look that teval_window [of t 0 "?tr \<beta>" 0 "?tr \<gamma>" 0 Map.empty] by (auto simp: within_lookahead_iff)
  then show "den b \<beta> = den b \<gamma>" unfolding den by blast
qed

lemma state_bdd_pair:
  "state_bdd den ix b \<Longrightarrow> den b (state_pair ix \<beta> \<gamma>) = den b \<beta>"
  unfolding state_bdd_def by (rule independentD) (auto simp: state_pair_def)

end
