(* ===== verification/Bounded_Bdd_Check.thy ===== *)
theory Bounded_Bdd_Check
  imports Bounded_Bdd_States
begin

text \<open>
  Correctness of the checker of \<^verbatim>\<open>bounded/src/bdd.rs\<close>, forwards and backwards: its answers are
  statements about the executions of the module, its counterexamples are executions, a BDD on which
  it converges is an inductive invariant, and it returns.
\<close>

section \<open>The translated system\<close>

definition bdd_system ::
  "itertools \<Rightarrow> hash_orders \<Rightarrow> fmodule \<Rightarrow> universe_bounds \<Rightarrow> indices \<Rightarrow> 'b bdd_lib
   \<Rightarrow> ('b \<Rightarrow> (nat \<Rightarrow> bool) \<Rightarrow> bool) \<Rightarrow> destructured_module \<Rightarrow> 'b \<Rightarrow> 'b \<Rightarrow> 'b \<Rightarrow> bool" where
  "bdd_system it ho m u ix lib den d init tr safe \<longleftrightarrow>
     bdd_setup it ho (mod_signature m) u ix lib den \<and> extract_module m = Some (Inr d)
     \<and> checkable (mod_signature m) d
     \<and> bdd_translate it lib (mod_signature m) u ix (term_and (dm_inits d @ dm_axioms d)) = Some (Inr init)
     \<and> bdd_translate it lib (mod_signature m) u ix
         (term_and (dm_transitions d @ mutable_axioms d (sig_relations (mod_signature m)))) = Some (Inr tr)
     \<and> bdd_translate it lib (mod_signature m) u ix
         (term_and (map (\<lambda>p. sp_x (sf_safety p)) (dm_proofs d))) = Some (Inr safe)"

lemma bdd_system_states:
  assumes "bdd_system it ho m u ix lib den d init tr safe"
  shows "state_bdd den ix init" and "state_bdd den ix (bdd_not lib safe)"
    and "den (bdd_not lib safe) \<beta> \<longleftrightarrow> \<not> den safe \<beta>" and "state_bdd den ix safe"
proof -
  let ?sig = "mod_signature m"
  have su: "bdd_setup it ho ?sig u ix lib den" and ext: "extract_module m = Some (Inr d)"
    and chk: "checkable ?sig d" using assms by (simp_all add: bdd_system_def)
  note doc = bdd_setupD(7) [OF su]
  have un: "\<forall>t\<in>set (dm_inits d) \<union> set (dm_axioms d). first_order_unrolling t = Some (Some 0)"
    "\<forall>sf\<in>set (dm_proofs d). first_order_unrolling (sp_x (sf_safety sf)) = Some (Some 0)"
    using extract_module_unrollings [OF ext] by blast+
  show "state_bdd den ix init"
    by (rule translate_state [OF su checkable_parts(1) [OF chk]])
      (use un(1) assms in \<open>auto simp: within_lookahead_def bdd_system_def\<close>)
  show safe: "state_bdd den ix safe"
    by (rule translate_state [OF su checkable_parts(3) [OF chk]])
      (use un(2) assms in \<open>auto simp: within_lookahead_def bdd_system_def\<close>)
  show "den (bdd_not lib safe) \<beta> \<longleftrightarrow> \<not> den safe \<beta>" using bdd_docD(12) [OF doc] by blast
  show "state_bdd den ix (bdd_not lib safe)"
    using independent_bdd(3) [OF doc] safe unfolding state_bdd_def by blast
qed

lemma bdd_system_means:
  assumes sys: "bdd_system it ho m u ix lib den d init tr safe"
    and ok: "system_ok (mod_signature m) u trc" and st: "shows_states ix \<beta>s trc"
  shows "den init (\<beta>s i) \<longleftrightarrow> (\<forall>t\<in>set (dm_inits d @ dm_axioms d). holds trc i Map.empty t)"
    and "symbolic_step den ix tr (\<beta>s i) (\<beta>s (Suc i))
      \<longleftrightarrow> (\<forall>t\<in>set (dm_transitions d @ mutable_axioms d (sig_relations (mod_signature m))). holds trc i Map.empty t)"
    and "den safe (\<beta>s i) \<longleftrightarrow> \<not> unsafe_at d i trc"
proof -
  let ?sig = "mod_signature m"
  have su: "bdd_setup it ho ?sig u ix lib den" and chk: "checkable ?sig d"
    using sys by (simp_all add: bdd_system_def)
  have parts: "bdd_translate it lib ?sig u ix (term_and (dm_inits d @ dm_axioms d)) = Some (Inr init)"
    "bdd_translate it lib ?sig u ix (term_and (dm_transitions d @ mutable_axioms d (sig_relations ?sig))) = Some (Inr tr)"
    "bdd_translate it lib ?sig u ix (term_and (map (\<lambda>p. sp_x (sf_safety p)) (dm_proofs d))) = Some (Inr safe)"
    using sys by (simp_all add: bdd_system_def)
  show "den init (\<beta>s i) \<longleftrightarrow> (\<forall>t\<in>set (dm_inits d @ dm_axioms d). holds trc i Map.empty t)"
    using translate_pair [OF su ok st checkable_parts(1) [OF chk] parts(1), of i]
    by (simp only: state_bdd_pair [OF bdd_system_states(1) [OF sys]])
  have "den safe (\<beta>s i) \<longleftrightarrow> (\<forall>t\<in>set (map (\<lambda>p. sp_x (sf_safety p)) (dm_proofs d)). holds trc i Map.empty t)"
    using translate_pair [OF su ok st checkable_parts(3) [OF chk] parts(3), of i]
    by (simp only: state_bdd_pair [OF bdd_system_states(4) [OF sys]])
  then show "den safe (\<beta>s i) \<longleftrightarrow> \<not> unsafe_at d i trc" by (simp add: unsafe_at_def)
  have "\<forall>k\<ge>2 * ix_num_mutables ix. \<beta>s i k = \<beta>s (Suc i) k"
    using st unfolding shows_states_def same_immutables_def by blast
  then show "symbolic_step den ix tr (\<beta>s i) (\<beta>s (Suc i))
      \<longleftrightarrow> (\<forall>t\<in>set (dm_transitions d @ mutable_axioms d (sig_relations ?sig)). holds trc i Map.empty t)"
    using translate_pair [OF su ok st checkable_parts(2) [OF chk] parts(2), of i] unfolding symbolic_step_def by blast
qed

lemma bounded_run_steps:
  assumes "bdd_system it ho m u ix lib den d init tr safe"
    and "system_ok (mod_signature m) u trc" and "shows_states ix \<beta>s trc"
  shows "bounded_run (mod_signature m) d n trc
    \<longleftrightarrow> den init (\<beta>s 0) \<and> (\<forall>i<n. symbolic_step den ix tr (\<beta>s i) (\<beta>s (Suc i)))"
  unfolding bounded_run_def bdd_system_means [OF assms] by blast

text \<open>Paths of the symbolic step relation are the executions of the module.\<close>

lemma symbolic_steps_run:
  assumes sys: "bdd_system it ho m u ix lib den d init tr safe"
    and "den init (\<beta>s 0)" and steps: "\<And>i. i < n \<Longrightarrow> symbolic_step den ix tr (\<beta>s i) (\<beta>s (Suc i))"
    and "\<not> den safe (\<beta>s n)"
  shows "system_ok (mod_signature m) u (run_trace u ix (\<lambda>i. \<beta>s (min i n)))"
    and "bounded_run (mod_signature m) d n (run_trace u ix (\<lambda>i. \<beta>s (min i n)))"
    and "unsafe_at d n (run_trace u ix (\<lambda>i. \<beta>s (min i n)))"
proof -
  let ?\<beta>s = "\<lambda>i. \<beta>s (min i n)"
  have su: "bdd_setup it ho (mod_signature m) u ix lib den" using sys by (simp add: bdd_system_def)
  have "?\<beta>s i k = ?\<beta>s (Suc i) k" if k: "2 * ix_num_mutables ix \<le> k" for i k
  proof (cases "i < n")
    case True
    then have m: "min i n = i" "min (Suc i) n = Suc i" by simp_all
    show ?thesis using steps [OF True] k unfolding symbolic_step_def m by blast
  qed (simp add: min_def not_less le_SucI)
  then have same: "same_immutables ix ?\<beta>s" unfolding same_immutables_def by blast
  note T = run_trace_ok(2,1) [OF su same]
  show "system_ok (mod_signature m) u (run_trace u ix ?\<beta>s)" by (rule T(1))
  have "symbolic_step den ix tr (?\<beta>s i) (?\<beta>s (Suc i))" if "i < n" for i
    using steps [OF that] that by (simp add: Suc_leI)
  with assms(2) show "bounded_run (mod_signature m) d n (run_trace u ix ?\<beta>s)"
    unfolding bounded_run_steps [OF sys T] by simp
  show "unsafe_at d n (run_trace u ix ?\<beta>s)"
    using assms(4) bdd_system_means(3) [OF sys T, of n] by simp
qed

lemma symbolic_runs:
  assumes sys: "bdd_system it ho m u ix lib den d init tr safe"
    and ok: "system_ok (mod_signature m) u trc" and run: "bounded_run (mod_signature m) d n trc"
  shows "den init (trace_state ix trc 0)"
    and "(symbolic_step den ix tr ^^ n) (trace_state ix trc 0) (trace_state ix trc n)"
    and "den safe (trace_state ix trc n) \<longleftrightarrow> \<not> unsafe_at d n trc"
proof -
  have su: "bdd_setup it ho (mod_signature m) u ix lib den" using sys by (simp add: bdd_system_def)
  have frame: "immutable_frame (mod_signature m) trc" using ok by (simp add: system_ok_def)
  note S = trace_state_shows [OF su frame]
  show "den init (trace_state ix trc 0)" using run bounded_run_steps [OF sys ok S] by blast
  show "(symbolic_step den ix tr ^^ n) (trace_state ix trc 0) (trace_state ix trc n)"
    unfolding relpowp_fun_conv using run bounded_run_steps [OF sys ok S]
    by (intro exI [of _ "trace_state ix trc"]) blast
  show "den safe (trace_state ix trc n) \<longleftrightarrow> \<not> unsafe_at d n trc" by (rule bdd_system_means(3) [OF sys ok S])
qed

lemma relpowp_converse:
  fixes R :: "'s \<Rightarrow> 's \<Rightarrow> bool"
  shows "(R\<inverse>\<inverse> ^^ n) x y \<longleftrightarrow> (R ^^ n) y x"
proof (induction n arbitrary: x y)
  case (Suc n)
  show ?case
  proof
    assume "(R\<inverse>\<inverse> ^^ Suc n) x y"
    then obtain z where "(R\<inverse>\<inverse> ^^ n) x z" "R\<inverse>\<inverse> z y" by (rule relpowp_Suc_E)
    then have "R y z" "(R ^^ n) z x" by (simp_all only: Suc conversep_iff)
    then show "(R ^^ Suc n) y x" by (rule relpowp_Suc_I2)
  next
    assume "(R ^^ Suc n) y x"
    then obtain z where "R y z" "(R ^^ n) z x" by (rule relpowp_Suc_E2)
    then have "(R\<inverse>\<inverse> ^^ n) x z" "R\<inverse>\<inverse> z y" by (simp_all only: Suc conversep_iff)
    then show "(R\<inverse>\<inverse> ^^ Suc n) x y" by (rule relpowp_Suc_I)
  qed
qed auto

section \<open>What the search answers\<close>

definition valuations_run ::
  "indices \<Rightarrow> ('b \<Rightarrow> (nat \<Rightarrow> bool) \<Rightarrow> bool) \<Rightarrow> 'b \<Rightarrow> 'b \<Rightarrow> 'b \<Rightarrow> bool list list \<Rightarrow> bool" where
  "valuations_run ix den init tr safe ws \<longleftrightarrow> ws \<noteq> [] \<and> (\<forall>w\<in>set ws. length w = ix_num_vars ix)
     \<and> den init (bits (ix_num_vars ix) (hd ws)) \<and> \<not> den safe (bits (ix_num_vars ix) (last ws))
     \<and> (\<forall>i. Suc i < length ws
         \<longrightarrow> symbolic_step den ix tr (bits (ix_num_vars ix) (ws ! i)) (bits (ix_num_vars ix) (ws ! Suc i)))"

definition valuation_models :: "itertools \<Rightarrow> indices \<Rightarrow> bool list list \<Rightarrow> model list option" where
  "valuation_models it ix ws =
     those (map (\<lambda>v. indices_model it ix 0 (\<lambda>i. map_option of_bool (valuation_value ix v i))) ws)"

lemma forwards_walk_run:
  assumes sys: "bdd_system it ho m u ix lib den d init tr safe"
    and ok: "search_ok (ix_num_vars ix) den (symbolic_step den ix tr)
      (\<lambda>b. bdd_setup it ho (mod_signature m) u ix lib den \<and> state_bdd den ix b) init (bdd_not lib safe) depth (BddFound v trace)"
  shows "\<exists>ws. trace_to_models lib ho it ix v trace tr False = valuation_models it ix ws
    \<and> valuations_run ix den init tr safe ws \<and> within_bound depth (length ws - 1)"
proof -
  from ok have L: "layers den (symbolic_step den ix tr) init trace"
    "\<forall>b\<in>set trace. bdd_setup it ho (mod_signature m) u ix lib den \<and> state_bdd den ix b"
    "length v = ix_num_vars ix" "den (last trace) (bits (ix_num_vars ix) v)"
    and T: "den (bdd_not lib safe) (bits (ix_num_vars ix) v)" and B: "within_bound depth (length trace - 1)" by simp_all
  from forwards_walk.walk_layers_correct [OF L] obtain vs where
    walk: "walk_layers lib (previous_states lib ho ix tr) (rev (butlast trace)) v = Some vs"
    and vs: "length vs = length trace" "hd vs = v" "\<forall>w\<in>set vs. length w = ix_num_vars ix"
      "den init (bits (ix_num_vars ix) (last vs))"
      "\<And>i. Suc i < length vs \<Longrightarrow>
        symbolic_step den ix tr (bits (ix_num_vars ix) (vs ! Suc i)) (bits (ix_num_vars ix) (vs ! i))" by blast
  have ne: "vs \<noteq> []" using vs(1) L(1) by (auto simp: layers_def)
  have step: "symbolic_step den ix tr (bits (ix_num_vars ix) (rev vs ! i)) (bits (ix_num_vars ix) (rev vs ! Suc i))"
    if i: "Suc i < length (rev vs)" for i
  proof -
    have "Suc (length vs - Suc (Suc i)) = length vs - Suc i" using i by simp
    moreover have "rev vs ! i = vs ! (length vs - Suc i)" "rev vs ! Suc i = vs ! (length vs - Suc (Suc i))"
      using i by (simp_all add: rev_nth)
    ultimately show ?thesis using vs(5) [of "length vs - Suc (Suc i)"] i by simp
  qed
  have "\<not> den safe (bits (ix_num_vars ix) v)" using T bdd_system_states(3) [OF sys] by simp
  then have "valuations_run ix den init tr safe (rev vs)"
    using ne vs(2-4) step by (auto simp: valuations_run_def hd_rev last_rev)
  moreover have "trace_to_models lib ho it ix v trace tr False = valuation_models it ix (rev vs)"
    by (simp add: trace_to_models_def walk valuation_models_def)
  moreover have "within_bound depth (length (rev vs) - 1)" using B vs(1) by simp
  ultimately show ?thesis by blast
qed

lemma backwards_walk_run:
  assumes sys: "bdd_system it ho m u ix lib den d init tr safe"
    and ok: "search_ok (ix_num_vars ix) den (symbolic_step den ix tr)\<inverse>\<inverse>
      (\<lambda>b. bdd_setup it ho (mod_signature m) u ix lib den \<and> state_bdd den ix b) (bdd_not lib safe) init depth (BddFound v trace)"
  shows "\<exists>ws. trace_to_models lib ho it ix v trace tr True = valuation_models it ix ws
    \<and> valuations_run ix den init tr safe ws \<and> within_bound depth (length ws - 1)"
proof -
  from ok have L: "layers den (symbolic_step den ix tr)\<inverse>\<inverse> (bdd_not lib safe) trace"
    "\<forall>b\<in>set trace. bdd_setup it ho (mod_signature m) u ix lib den \<and> state_bdd den ix b"
    "length v = ix_num_vars ix" "den (last trace) (bits (ix_num_vars ix) v)"
    and T: "den init (bits (ix_num_vars ix) v)" and B: "within_bound depth (length trace - 1)" by simp_all
  from backwards_walk.walk_layers_correct [OF L] obtain vs where
    walk: "walk_layers lib (next_states lib ho ix tr) (rev (butlast trace)) v = Some vs"
    and vs: "length vs = length trace" "hd vs = v" "\<forall>w\<in>set vs. length w = ix_num_vars ix"
      "den (bdd_not lib safe) (bits (ix_num_vars ix) (last vs))"
      "\<And>i. Suc i < length vs \<Longrightarrow>
        symbolic_step den ix tr (bits (ix_num_vars ix) (vs ! i)) (bits (ix_num_vars ix) (vs ! Suc i))"
    by (auto simp: conversep_iff)
  have ne: "vs \<noteq> []" using vs(1) L(1) by (auto simp: layers_def)
  have "\<not> den safe (bits (ix_num_vars ix) (last vs))" using vs(4) bdd_system_states(3) [OF sys] by simp
  then have "valuations_run ix den init tr safe vs"
    using ne vs(2,3,5) T by (simp add: valuations_run_def)
  moreover have "trace_to_models lib ho it ix v trace tr True = valuation_models it ix vs"
    by (simp add: trace_to_models_def walk valuation_models_def)
  moreover have "within_bound depth (length vs - 1)" using B vs(1) by simp
  ultimately show ?thesis by blast
qed

text \<open>The three answers, for both directions. A BDD on which the search converged is turned into the
  set of states outside it when the search went backwards.\<close>

fun answer_ok ::
  "itertools \<Rightarrow> indices \<Rightarrow> ('b \<Rightarrow> (nat \<Rightarrow> bool) \<Rightarrow> bool) \<Rightarrow> 'b \<Rightarrow> 'b \<Rightarrow> 'b \<Rightarrow> nat option \<Rightarrow> bool
   \<Rightarrow> ('b \<times> indices) checker_answer \<Rightarrow> bool" where
  "answer_ok it ix den init tr safe depth reversed (Counterexample ms) \<longleftrightarrow>
     (\<exists>ws. valuations_run ix den init tr safe ws \<and> within_bound depth (length ws - 1)
        \<and> valuation_models it ix ws = Some ms)"
| "answer_ok it ix den init tr safe depth reversed Unknown \<longleftrightarrow>
     (\<exists>k. depth = Some k
        \<and> (\<forall>n\<le>k. \<forall>\<beta> \<gamma>. den init \<beta> \<longrightarrow> (symbolic_step den ix tr ^^ n) \<beta> \<gamma> \<longrightarrow> den safe \<gamma>))"
| "answer_ok it ix den init tr safe depth reversed (Convergence (b, ix')) \<longleftrightarrow>
     ix' = ix \<and> (\<forall>\<beta>. den init \<beta> \<longrightarrow> den b \<beta> \<noteq> reversed) \<and> (\<forall>\<beta>. den b \<beta> \<noteq> reversed \<longrightarrow> den safe \<beta>)
     \<and> (\<forall>\<beta> \<gamma>. den b \<beta> \<noteq> reversed \<longrightarrow> symbolic_step den ix tr \<beta> \<gamma> \<longrightarrow> den b \<gamma> \<noteq> reversed)"

lemma bdd_answer_ok:
  assumes sys: "bdd_system it ho m u ix lib den d init tr safe"
    and ans: "bdd_answer lib ho it ix init tr (bdd_not lib safe) depth reversed = Some a"
  shows "answer_ok it ix den init tr safe depth reversed a"
proof (cases reversed)
  case False
  let ?good = "\<lambda>b. bdd_setup it ho (mod_signature m) u ix lib den \<and> state_bdd den ix b"
  have good: "?good init" using sys bdd_system_states(1) [OF sys] by (simp add: bdd_system_def)
  note neg = bdd_system_states(3) [OF sys]
  from ans False obtain r where r: "bdd_search lib (post_image lib ix tr) init (bdd_not lib safe) depth = Some r"
    by (auto simp: bdd_answer_def split: option.splits)
  note ok = forwards.search_correct [OF good r]
  show ?thesis
  proof (cases r)
    case (BddFound v trace)
    from forwards_walk_run [OF sys ok [unfolded BddFound]] ans r BddFound False show ?thesis
      by (auto simp: bdd_answer_def)
  next
    case (BddConverged b)
    with ans r False have a: "a = Convergence (b, ix)" by (simp add: bdd_answer_def)
    from ok [unfolded BddConverged] have b: "\<And>\<gamma>. den b \<gamma> \<longleftrightarrow> (\<exists>k \<beta>. den init \<beta> \<and> (symbolic_step den ix tr ^^ k) \<beta> \<gamma>)"
      "\<And>\<gamma>. den b \<gamma> \<Longrightarrow> den safe \<gamma>" by (simp_all add: neg)
    have "den b \<beta>" if "den init \<beta>" for \<beta>
      unfolding b(1) using that by (intro exI [of _ 0] exI [of _ \<beta>]) simp
    moreover have "den b \<gamma>" if "den b \<beta>" "symbolic_step den ix tr \<beta> \<gamma>" for \<beta> \<gamma>
      using that relpowp_Suc_I unfolding b(1) by metis
    ultimately show ?thesis using b(2) False by (simp add: a)
  next
    case BddExhausted
    with ok ans r False show ?thesis by (auto simp: bdd_answer_def neg)
  qed
next
  case True
  let ?good = "\<lambda>b. bdd_setup it ho (mod_signature m) u ix lib den \<and> state_bdd den ix b"
  have good: "?good (bdd_not lib safe)" using sys bdd_system_states(2) [OF sys] by (simp add: bdd_system_def)
  note neg = bdd_system_states(3) [OF sys]
  from ans True obtain r where r: "bdd_search lib (pre_image lib ix tr) (bdd_not lib safe) init depth = Some r"
    by (auto simp: bdd_answer_def split: option.splits)
  note ok = backwards.search_correct [OF good r]
  show ?thesis
  proof (cases r)
    case (BddFound v trace)
    from backwards_walk_run [OF sys ok [unfolded BddFound]] ans r BddFound True show ?thesis
      by (auto simp: bdd_answer_def)
  next
    case (BddConverged b)
    with ans r True have a: "a = Convergence (b, ix)" by (simp add: bdd_answer_def)
    from ok [unfolded BddConverged] have b: "\<And>\<gamma>. den b \<gamma> \<longleftrightarrow> (\<exists>k \<beta>. \<not> den safe \<beta> \<and> (symbolic_step den ix tr ^^ k) \<gamma> \<beta>)"
      "\<And>\<gamma>. den b \<gamma> \<Longrightarrow> \<not> den init \<gamma>" by (simp_all add: neg relpowp_converse)
    have "den b \<beta>" if "\<not> den safe \<beta>" for \<beta>
      unfolding b(1) using that by (intro exI [of _ 0] exI [of _ \<beta>]) simp
    moreover have "den b \<beta>" if "den b \<gamma>" "symbolic_step den ix tr \<beta> \<gamma>" for \<beta> \<gamma>
      using that relpowp_Suc_I2 unfolding b(1) by metis
    ultimately show ?thesis using b(2) True by (auto simp: a)
  next
    case BddExhausted
    with ok ans r True show ?thesis by (auto simp: bdd_answer_def neg relpowp_converse)
  qed
qed

section \<open>Models\<close>

lemma valuation_model_eq:
  assumes su: "bdd_setup it ho sig u ix lib den" and w: "length w = ix_num_vars ix"
  shows "indices_model it ix 0 (\<lambda>i. map_option of_bool (valuation_value ix w i))
    = indices_model it ix 0 (\<lambda>i. Some (of_bool (bits (ix_num_vars ix) w i)))"
proof -
  have "Option.bind (indices_get ix f 0 es) (\<lambda>i. map_option of_bool (valuation_value ix w i))
      = Option.bind (indices_get ix f 0 es) (\<lambda>i. Some (of_bool (bits (ix_num_vars ix) w i)) :: nat option)" for f es
  proof (cases "indices_get ix f 0 es")
    case (Some k)
    from get_current [OF su Some] have "current_variable ix k" by blast
    then have "k < ix_num_vars ix"
      using bdd_setup_variables(2) [OF su] by (auto simp: current_variable_def)
    then show ?thesis using w Some by (simp add: valuation_value_def variable_at_eq [OF su] bits_def)
  qed simp
  then show ?thesis by (simp only: indices_model_def)
qed

lemma valuation_model_value:
  assumes su: "bdd_setup it ho sig u ix lib den" and w: "length w = ix_num_vars ix"
    and mo: "indices_model it ix 0 (\<lambda>i. map_option of_bool (valuation_value ix w i)) = Some mo"
    and slot: "index_slot sig u r es"
  shows "model_value mo (rd_name r) es = Some (of_bool (index_valuation ix (bits (ix_num_vars ix) w) (rd_name r) 0 es))"
proof -
  note D = bdd_setupD [OF su]
  have "indices_model it (ix\<lparr>ix_num_vars := ix_num_vars ix\<rparr>) 0 (\<lambda>i. Some (of_bool (bits (ix_num_vars ix) w i))) = Some mo"
    using mo by (simp add: valuation_model_eq [OF su w])
  from indices_model_value [OF D(1,3,5,4) _ slot _ this]
  have "model_value mo (rd_name r) es = map_option (\<lambda>i. of_bool (bits (ix_num_vars ix) w i)) (indices_get ix (rd_name r) 0 es)"
    by simp
  moreover from indices_get_range [OF D(1,3,5) slot, of 0] obtain k where "indices_get ix (rd_name r) 0 es = Some k" by auto
  ultimately show ?thesis by (simp add: index_valuation_def)
qed

lemma valuation_models_return:
  assumes su: "bdd_setup it ho sig u ix lib den" and ws: "\<forall>w\<in>set ws. length w = ix_num_vars ix"
    and decl: "sorts_declared sig u"
  shows "\<exists>ms. valuation_models it ix ws = Some ms"
proof -
  note D = bdd_setupD [OF su]
  have "\<exists>mo. indices_model it ix 0 (\<lambda>i. map_option of_bool (valuation_value ix w i)) = Some mo" if "w \<in> set ws" for w
    using indices_model_returns [OF D(1,3,5,4) _ _ decl, of 0 "\<lambda>i. of_bool (bits (ix_num_vars ix) w i)"]
      valuation_model_eq [OF su] ws that by simp
  then have "indices_model it ix 0 (\<lambda>i. map_option of_bool (valuation_value ix w i))
      = Some (the (indices_model it ix 0 (\<lambda>i. map_option of_bool (valuation_value ix w i))))" if "w \<in> set ws" for w
    using that by fastforce
  then have "valuation_models it ix ws
      = Some (map (\<lambda>w. the (indices_model it ix 0 (\<lambda>i. map_option of_bool (valuation_value ix w i)))) ws)"
    unfolding valuation_models_def by (intro those_map_SomeI) simp
  then show ?thesis ..
qed

text \<open>A run of valuations is an execution, and its models are the states of that execution.\<close>

lemma valuations_run_trace:
  assumes sys: "bdd_system it ho m u ix lib den d init tr safe"
    and run: "valuations_run ix den init tr safe ws" and ms: "valuation_models it ix ws = Some ms"
  shows "\<exists>n trc. length ws = n + 1 \<and> system_ok (mod_signature m) u trc
    \<and> bounded_run (mod_signature m) d n trc \<and> unsafe_at d n trc
    \<and> list_all2 (\<lambda>i mo. \<forall>r es. index_slot (mod_signature m) u r es
         \<longrightarrow> model_value mo (rd_name r) es = Some (tr_fun trc i (rd_name r) es)) [0..<n + 1] ms"
proof -
  let ?b = "bits (ix_num_vars ix)" and ?n = "length ws - 1"
  let ?\<beta>s = "\<lambda>i. ?b (ws ! i)"
  let ?trc = "run_trace u ix (\<lambda>i. ?\<beta>s (min i ?n))"
  have su: "bdd_setup it ho (mod_signature m) u ix lib den" using sys by (simp add: bdd_system_def)
  from run have ne: "ws \<noteq> []" and len: "\<forall>w\<in>set ws. length w = ix_num_vars ix"
    and first: "den init (?\<beta>s 0)" and last: "\<not> den safe (?\<beta>s ?n)"
    and step: "\<And>i. i < ?n \<Longrightarrow> symbolic_step den ix tr (?\<beta>s i) (?\<beta>s (Suc i))"
    by (auto simp: valuations_run_def hd_conv_nth last_conv_nth)
  note T = symbolic_steps_run [OF sys, where \<beta>s = ?\<beta>s, OF first step last]
  have "list_all2 (\<lambda>i mo. \<forall>r es. index_slot (mod_signature m) u r es
      \<longrightarrow> model_value mo (rd_name r) es = Some (tr_fun ?trc i (rd_name r) es)) [0..<?n + 1] ms"
    unfolding list_all2_conv_all_nth
  proof (intro conjI allI impI)
    note M = those_map_SomeD [OF ms [unfolded valuation_models_def]]
    show "length [0..<?n + 1] = length ms" using M(1) ne by simp
    fix j r es assume j: "j < length [0..<?n + 1]" and slot: "index_slot (mod_signature m) u r es"
    then have j': "j < length ws" using ne by (cases ws) auto
    then have w: "length (ws ! j) = ix_num_vars ix" using len by simp
    from valuation_model_value [OF su w M(2) [OF j'] slot] j
    show "model_value (ms ! j) (rd_name r) es = Some (tr_fun ?trc ([0..<?n + 1] ! j) (rd_name r) es)"
      by (simp add: run_trace_def min_def del: upt_Suc)
  qed
  with T ne show ?thesis by (intro exI [of _ ?n] exI [of _ ?trc]) simp
qed

section \<open>The checker\<close>

text \<open>What the code relies on: the iterator adaptors, the BDD library, the hash maps of the indices.\<close>

definition bdd_libraries_doc ::
  "hash_orders \<Rightarrow> itertools \<Rightarrow> (nat \<Rightarrow> 'b bdd_lib) \<Rightarrow> (nat \<Rightarrow> 'b \<Rightarrow> (nat \<Rightarrow> bool) \<Rightarrow> bool) \<Rightarrow> signature \<Rightarrow> universe_bounds \<Rightarrow> bool" where
  "bdd_libraries_doc ho it libs den sig u \<longleftrightarrow>
     itertools_doc it \<and> (\<forall>n. bdd_doc n (libs n) (den n))
     \<and> (\<forall>ix. indices_new it sig u 2 = Some ix \<longrightarrow> hash_indices_doc ho ix)"

lemma check_internalE:
  assumes lib: "bdd_libraries_doc ho it libs den (mod_signature m) u" and names: "plain_names (mod_signature m)"
    and ext: "extract_module m = Some (Inr d)" and chk: "checkable (mod_signature m) d"
    and run: "check_internal ho it libs m u depth reversed = Some (Inr a)"
  obtains ix init tr safe where
    "bdd_system it ho m u ix (libs (ix_num_vars ix)) (den (ix_num_vars ix)) d init tr safe"
    "bdd_answer (libs (ix_num_vars ix)) ho it ix init tr (bdd_not (libs (ix_num_vars ix)) safe) depth reversed = Some a"
    "indices_new it (mod_signature m) u 2 = Some ix"
proof -
  from run ext obtain ix init tr safe where
    rels: "\<not> list_ex (\<lambda>r. rd_sort r \<noteq> Bool) (sig_relations (mod_signature m))"
    and new: "indices_new it (mod_signature m) u 2 = Some ix"
    and parts: "bdd_translate it (libs (ix_num_vars ix)) (mod_signature m) u ix (term_and (dm_inits d @ dm_axioms d)) = Some (Inr init)"
      "bdd_translate it (libs (ix_num_vars ix)) (mod_signature m) u ix
         (term_and (dm_transitions d @ mutable_axioms d (sig_relations (mod_signature m)))) = Some (Inr tr)"
      "bdd_translate it (libs (ix_num_vars ix)) (mod_signature m) u ix
         (term_and (map (\<lambda>p. sp_x (sf_safety p)) (dm_proofs d))) = Some (Inr safe)"
    and ans: "bdd_answer (libs (ix_num_vars ix)) ho it ix init tr (bdd_not (libs (ix_num_vars ix)) safe) depth reversed = Some a"
    by (auto simp: check_internal_def Let_def bind_pr_Inr split: if_splits option.splits)
  have "bool_relations (mod_signature m)" using rels by (simp add: bool_relations_def list_ex_iff)
  with lib names new have "bdd_setup it ho (mod_signature m) u ix (libs (ix_num_vars ix)) (den (ix_num_vars ix))"
    by (simp add: bdd_libraries_doc_def bdd_setup_def)
  with parts ext chk have "bdd_system it ho m u ix (libs (ix_num_vars ix)) (den (ix_num_vars ix)) d init tr safe"
    by (simp add: bdd_system_def)
  from that [OF this ans new] show thesis .
qed

lemma convergence_invariant:
  assumes lib: "bdd_libraries_doc ho it libs den (mod_signature m) u" and "plain_names (mod_signature m)"
    and ext: "extract_module m = Some (Inr d)" and "checkable (mod_signature m) d"
    and run: "check_internal ho it libs m u depth reversed = Some (Inr (Convergence (b, ix)))"
    and ok: "system_ok (mod_signature m) u trc"
  shows "\<forall>t\<in>set (dm_inits d @ dm_axioms d). holds trc i Map.empty t
      \<Longrightarrow> den (ix_num_vars ix) b (trace_state ix trc i) \<noteq> reversed"
    and "\<lbrakk> den (ix_num_vars ix) b (trace_state ix trc i) \<noteq> reversed;
        \<forall>t\<in>set (dm_transitions d @ mutable_axioms d (sig_relations (mod_signature m))). holds trc i Map.empty t \<rbrakk>
      \<Longrightarrow> den (ix_num_vars ix) b (trace_state ix trc (Suc i)) \<noteq> reversed"
    and "den (ix_num_vars ix) b (trace_state ix trc i) \<noteq> reversed \<Longrightarrow> \<not> unsafe_at d i trc"
proof -
  obtain ix' init tr safe where
    sys: "bdd_system it ho m u ix' (libs (ix_num_vars ix')) (den (ix_num_vars ix')) d init tr safe"
    and ans: "bdd_answer (libs (ix_num_vars ix')) ho it ix' init tr (bdd_not (libs (ix_num_vars ix')) safe) depth reversed
      = Some (Convergence (b, ix))"
    by (rule check_internalE [OF assms(1-5)])
  note inv = bdd_answer_ok [OF sys ans, unfolded answer_ok.simps]
  then have ix: "ix' = ix" by blast
  note sys = sys [unfolded ix] and inv = inv [unfolded ix]
  have "bdd_setup it ho (mod_signature m) u ix (libs (ix_num_vars ix)) (den (ix_num_vars ix))"
    using sys by (simp add: bdd_system_def)
  from trace_state_shows [OF this] ok have S: "shows_states ix (trace_state ix trc) trc" by (simp add: system_ok_def)
  note means = bdd_system_means [OF sys ok S]
  show "den (ix_num_vars ix) b (trace_state ix trc i) \<noteq> reversed"
    if "\<forall>t\<in>set (dm_inits d @ dm_axioms d). holds trc i Map.empty t"
    using that inv unfolding means(1) [symmetric] by blast
  show "den (ix_num_vars ix) b (trace_state ix trc (Suc i)) \<noteq> reversed"
    if "den (ix_num_vars ix) b (trace_state ix trc i) \<noteq> reversed"
      "\<forall>t\<in>set (dm_transitions d @ mutable_axioms d (sig_relations (mod_signature m))). holds trc i Map.empty t"
    using that inv unfolding means(2) [symmetric] by blast
  show "\<not> unsafe_at d i trc" if "den (ix_num_vars ix) b (trace_state ix trc i) \<noteq> reversed"
    using that inv unfolding means(3) [symmetric] by blast
qed

lemma verdict_runs:
  assumes lib: "bdd_libraries_doc ho it libs den (mod_signature m) u" and "plain_names (mod_signature m)"
    and ext: "extract_module m = Some (Inr d)" and "checkable (mod_signature m) d"
    and run: "check_internal ho it libs m u depth reversed = Some (Inr a)"
    and ok: "system_ok (mod_signature m) u trc" and exec: "bounded_run (mod_signature m) d n trc"
    and verdict: "a = Convergence c \<or> a = Unknown \<and> within_bound depth n"
  shows "\<not> unsafe_at d n trc"
proof (cases "a = Convergence c")
  case True
  obtain b ix where c: "c = (b, ix)" by (cases c)
  note inv = convergence_invariant [OF assms(1-4) run [unfolded True c] ok]
  have "den (ix_num_vars ix) b (trace_state ix trc i) \<noteq> reversed" if "i \<le> n" for i
    using that
  proof (induction i)
    case 0
    show ?case by (rule inv(1)) (use exec in \<open>simp add: bounded_run_def\<close>)
  next
    case (Suc i)
    show ?case by (rule inv(2)) (use Suc exec in \<open>simp_all add: bounded_run_def\<close>)
  qed
  from inv(3) [OF this [OF order_refl]] show ?thesis .
next
  case False
  with verdict have a: "a = Unknown" "within_bound depth n" by auto
  obtain ix init tr safe where
    sys: "bdd_system it ho m u ix (libs (ix_num_vars ix)) (den (ix_num_vars ix)) d init tr safe"
    and ans: "bdd_answer (libs (ix_num_vars ix)) ho it ix init tr (bdd_not (libs (ix_num_vars ix)) safe) depth reversed = Some a"
    by (rule check_internalE [OF assms(1-5)])
  from bdd_answer_ok [OF sys ans] a have "den (ix_num_vars ix) safe (trace_state ix trc n)"
    using symbolic_runs(1,2) [OF sys ok exec] by (auto simp: within_bound_def)
  with symbolic_runs(3) [OF sys ok exec] show ?thesis by simp
qed

lemma counterexample_trace:
  assumes lib: "bdd_libraries_doc ho it libs den (mod_signature m) u" and "plain_names (mod_signature m)"
    and ext: "extract_module m = Some (Inr d)" and "checkable (mod_signature m) d"
    and run: "check_internal ho it libs m u depth reversed = Some (Inr (Counterexample ms))"
  shows "\<exists>n trc. within_bound depth n \<and> system_ok (mod_signature m) u trc
    \<and> bounded_run (mod_signature m) d n trc \<and> unsafe_at d n trc
    \<and> list_all2 (\<lambda>i mo. \<forall>r es. index_slot (mod_signature m) u r es
         \<longrightarrow> model_value mo (rd_name r) es = Some (tr_fun trc i (rd_name r) es)) [0..<n + 1] ms"
proof -
  obtain ix init tr safe where
    sys: "bdd_system it ho m u ix (libs (ix_num_vars ix)) (den (ix_num_vars ix)) d init tr safe"
    and ans: "bdd_answer (libs (ix_num_vars ix)) ho it ix init tr (bdd_not (libs (ix_num_vars ix)) safe) depth reversed
      = Some (Counterexample ms)"
    by (rule check_internalE [OF assms(1-5)])
  from bdd_answer_ok [OF sys ans] obtain ws where ws: "valuations_run ix (den (ix_num_vars ix)) init tr safe ws"
    "within_bound depth (length ws - 1)" "valuation_models it ix ws = Some ms" by auto
  from valuations_run_trace [OF sys ws(1,3)] ws(2) show ?thesis by auto
qed

text \<open>The checker returns as soon as the formulas translate.\<close>

definition bdd_translates :: "itertools \<Rightarrow> (nat \<Rightarrow> 'b bdd_lib) \<Rightarrow> fmodule \<Rightarrow> universe_bounds \<Rightarrow> destructured_module \<Rightarrow> bool" where
  "bdd_translates it libs m u d \<longleftrightarrow>
     (case indices_new it (mod_signature m) u 2 of None \<Rightarrow> False | Some ix \<Rightarrow>
        list_all (\<lambda>ts. case bdd_translate it (libs (ix_num_vars ix)) (mod_signature m) u ix (term_and ts) of
            Some (Inr _) \<Rightarrow> True | _ \<Rightarrow> False)
          [dm_inits d @ dm_axioms d, dm_transitions d @ mutable_axioms d (sig_relations (mod_signature m)),
           map (\<lambda>p. sp_x (sf_safety p)) (dm_proofs d)])"

lemma search_answers:
  assumes sys: "bdd_system it ho m u ix lib den d init tr safe" and decl: "sorts_declared (mod_signature m) u"
  shows "\<exists>a. bdd_answer lib ho it ix init tr (bdd_not lib safe) depth reversed = Some a"
proof -
  have su: "bdd_setup it ho (mod_signature m) u ix lib den" using sys by (simp add: bdd_system_def)
  have models: "\<exists>ms. valuation_models it ix ws = Some ms" if "valuations_run ix den init tr safe ws" for ws
    using valuation_models_return [OF su _ decl] that by (simp add: valuations_run_def)
  show ?thesis
  proof (cases reversed)
    case False
    have good: "bdd_setup it ho (mod_signature m) u ix lib den \<and> state_bdd den ix init"
      using su bdd_system_states(1) [OF sys] by simp
    from forwards.symbolic_returns [OF this] obtain r
      where r: "bdd_search lib (post_image lib ix tr) init (bdd_not lib safe) depth = Some r" by blast
    note ok = forwards.search_correct [OF good r]
    show ?thesis
    proof (cases r)
      case (BddFound v trace)
      from forwards_walk_run [OF sys ok [unfolded BddFound]] models
      obtain ms where "trace_to_models lib ho it ix v trace tr False = Some ms" by metis
      with r BddFound False show ?thesis by (simp add: bdd_answer_def)
    qed (use r False in \<open>simp_all add: bdd_answer_def\<close>)
  next
    case True
    have good: "bdd_setup it ho (mod_signature m) u ix lib den \<and> state_bdd den ix (bdd_not lib safe)"
      using su bdd_system_states(2) [OF sys] by simp
    from backwards.symbolic_returns [OF this] obtain r
      where r: "bdd_search lib (pre_image lib ix tr) (bdd_not lib safe) init depth = Some r" by blast
    note ok = backwards.search_correct [OF good r]
    show ?thesis
    proof (cases r)
      case (BddFound v trace)
      from backwards_walk_run [OF sys ok [unfolded BddFound]] models
      obtain ms where "trace_to_models lib ho it ix v trace tr True = Some ms" by metis
      with r BddFound True show ?thesis by (simp add: bdd_answer_def)
    qed (use r True in \<open>simp_all add: bdd_answer_def\<close>)
  qed
qed

lemma check_internal_returns:
  assumes lib: "bdd_libraries_doc ho it libs den (mod_signature m) u" and names: "plain_names (mod_signature m)"
    and bools: "bool_relations (mod_signature m)" and decl: "sorts_declared (mod_signature m) u" and defs: "mod_defs m = []"
    and ext: "extract_module m = Some (Inr d)" and chk: "checkable (mod_signature m) d"
    and trans: "bdd_translates it libs m u d"
  shows "\<exists>a. check_internal ho it libs m u depth reversed = Some (Inr a)"
proof -
  let ?ts = "\<lambda>ix ts. bdd_translate it (libs (ix_num_vars ix)) (mod_signature m) u ix (term_and ts)"
  from trans obtain ix init tr safe where new: "indices_new it (mod_signature m) u 2 = Some ix"
    and parts: "?ts ix (dm_inits d @ dm_axioms d) = Some (Inr init)"
      "?ts ix (dm_transitions d @ mutable_axioms d (sig_relations (mod_signature m))) = Some (Inr tr)"
      "?ts ix (map (\<lambda>p. sp_x (sf_safety p)) (dm_proofs d)) = Some (Inr safe)"
    by (auto simp: bdd_translates_def split: option.splits sum.splits)
  from lib names bools new have "bdd_setup it ho (mod_signature m) u ix (libs (ix_num_vars ix)) (den (ix_num_vars ix))"
    by (simp add: bdd_libraries_doc_def bdd_setup_def)
  with parts ext chk have sys: "bdd_system it ho m u ix (libs (ix_num_vars ix)) (den (ix_num_vars ix)) d init tr safe"
    by (simp add: bdd_system_def)
  from search_answers [OF sys decl] obtain a where
    "bdd_answer (libs (ix_num_vars ix)) ho it ix init tr (bdd_not (libs (ix_num_vars ix)) safe) depth reversed = Some a" by blast
  moreover have "find (\<lambda>srt. u srt = None) (sig_sorts (mod_signature m)) = None"
    using decl by (simp add: find_None_iff sorts_declared_def)
  moreover have "\<not> list_ex (\<lambda>r. rd_sort r \<noteq> Bool) (sig_relations (mod_signature m))"
    using bools by (simp add: bool_relations_def list_ex_iff)
  ultimately have "check_internal ho it libs m u depth reversed = Some (Inr a)"
    using defs ext new parts by (simp add: check_internal_def Let_def)
  then show ?thesis ..
qed

end
