(* ===== verification/Bounded_Bdd_Verdicts.thy ===== *)
theory Bounded_Bdd_Verdicts
  imports Bounded_Bdd_Check
begin

text \<open>
  The properties of the BDD checker \<^verbatim>\<open>bounded/src/bdd.rs\<close>, for both directions of the search, and
  concrete runs with BDDs that are truth tables.
\<close>

section \<open>Properties\<close>




text \<open>C8: the BDD checker terminates: once the three formulas of the module translate, both searches
  return an answer, also without a depth bound, and building the models never panics.\<close>

theorem bdd_check_returns:
  assumes "bdd_libraries_doc ho it libs den (mod_signature m) u" and "plain_names (mod_signature m)"
    and "bool_relations (mod_signature m)" and "sorts_declared (mod_signature m) u" and "mod_defs m = []"
    and "extract_module m = Some (Inr d)" and "checkable (mod_signature m) d"
    and "bdd_translates it libs m u d"
  shows "(\<exists>a. bdd_check ho it libs m u depth = Some (Inr a)) \<and> (\<exists>a. check_reversed ho it libs m u depth = Some (Inr a))"
  unfolding bdd_check_def check_reversed_def using check_internal_returns [OF assms] by blast

section \<open>Concrete runs\<close>

fun bdd_converged :: "(checker_error + ('b \<times> indices) checker_answer) option \<Rightarrow> bool" where
  "bdd_converged (Some (Inr (Convergence _))) = True"
| "bdd_converged _ = False"

fun bdd_trace_length :: "(checker_error + ('b \<times> indices) checker_answer) option \<Rightarrow> nat option" where
  "bdd_trace_length (Some (Inr (Counterexample ms))) = Some (length ms)"
| "bdd_trace_length _ = None"

lemma bdd_convergedD: "bdd_converged r \<Longrightarrow> \<exists>b ix. r = Some (Inr (Convergence (b, ix)))"
  by (cases r rule: bdd_converged.cases) simp_all

lemma bdd_trace_lengthD: "bdd_trace_length r = Some n \<Longrightarrow> \<exists>ms. r = Some (Inr (Counterexample ms)) \<and> length ms = n"
  by (cases r rule: bdd_trace_length.cases) simp_all

lemma two_copies_new: "indices_new itertools_ref one_prop_sig Map.empty 2 = Some ix \<Longrightarrow> ix_indices ix = ix_indices flag_indices"
  by (auto simp: indices_new_def one_prop_sig_def relation_elements_def insert_indices_def entry_insert_def
      flag_indices_def Let_def mcp_fixed_eq upto_lists_def split: if_splits)

lemma one_prop_libraries: "bdd_libraries_doc flag_orders itertools_ref table_bdds table_den one_prop_sig Map.empty"
proof -
  have "hash_indices_doc flag_orders ix" if "indices_new itertools_ref one_prop_sig Map.empty 2 = Some ix" for ix
    by (simp add: hash_indices_doc_def two_copies_new [OF that]) (simp add: flag_orders_def flag_indices_def)
  then show ?thesis using itertools_doc_ref table_bdds_doc by (simp add: bdd_libraries_doc_def)
qed

lemma one_prop_bool: "bool_relations one_prop_sig"
  by (simp add: bool_relations_def one_prop_sig_def)

abbreviation stays :: fmodule where "stays \<equiv> one_step_module (p_becomes (Id ''p''))"
abbreviation flips :: fmodule where "flips \<equiv> one_step_module (p_becomes (UnaryOp NotOp (Id ''p'')))"

lemma stays_converges: "bdd_converged (check_internal flag_orders itertools_ref table_bdds stays Map.empty None reversed)"
proof -
  have "bdd_converged (check_internal flag_orders itertools_ref table_bdds stays Map.empty None True)"
    "bdd_converged (check_internal flag_orders itertools_ref table_bdds stays Map.empty None False)" by code_simp+
  then show ?thesis by (cases reversed) simp_all
qed




theorem bdd_check_returns_witness:
  "\<exists>a. bdd_check flag_orders itertools_ref table_bdds flips Map.empty None = Some (Inr a)"
proof -
  let ?d = "one_step_system (p_becomes (UnaryOp NotOp (Id ''p'')))"
  have tr: "bdd_translates itertools_ref table_bdds flips Map.empty ?d" by code_simp
  have "mod_defs flips = []" by (simp add: one_step_module_def)
  from bdd_check_returns [where den = table_den, OF _ _ _ _ this one_step_extract(2) _ tr] show ?thesis
    unfolding one_step_facts
    using one_prop_libraries one_prop_ok(2) one_prop_bool one_prop_declared one_step_checkable(2) by blast
qed

end
