(* ===== verification/Inference_Marco.thy ===== *)
theory Inference_Marco
  imports Cadical
begin

text \<open>
  Model of \<^verbatim>\<open>inference/src/marco.rs\<close>: enumerating the maximal satisfiable and minimal unsatisfiable
  subsets of the inputs of a boolean function. A set of inputs is a \<open>bool list\<close>. The iterator is a
  state machine: its state holds the clauses that block what was found already, and \<open>marco_steps\<close>
  relates it to the results it has yielded. A SAT solver that gives up is a panic.
\<close>

section \<open>Definitions\<close>

record marco_literal =
  ml_var :: nat
  ml_pos :: bool

definition to_solver_lit :: "marco_literal \<Rightarrow> int" where
  "to_solver_lit l = solver_literal (ml_var l) (ml_pos l)"

record marco_iterator =
  mi_func :: "bool list \<Rightarrow> bool"
  mi_map :: "marco_literal list list"
  mi_n :: nat

datatype mss_or_mus = Mss "bool list" | Mus "bool list"

definition marco :: "(bool list \<Rightarrow> bool) \<Rightarrow> nat \<Rightarrow> marco_iterator" where
  "marco func n = \<lparr>mi_func = func, mi_map = [], mi_n = n\<rparr>"

definition marco_is_sat :: "cadical \<Rightarrow> marco_literal list list \<Rightarrow> nat \<Rightarrow> bool list option option" where
  "marco_is_sat solver cls n =
     (let clauses = map (map to_solver_lit) cls in
      case cad_solve solver clauses of
        None \<Rightarrow> None
      | Some False \<Rightarrow> Some None
      | Some True \<Rightarrow>
          Some (Some (map (\<lambda>var. cad_value solver clauses (to_solver_lit \<lparr>ml_var = var, ml_pos = True\<rparr>) = Some True)
                        [0..<n])))"

definition grow :: "bool list \<Rightarrow> (bool list \<Rightarrow> bool) \<Rightarrow> bool list" where
  "grow seed func =
     fold (\<lambda>i seed. if \<not> seed ! i
                    then (let seed = seed[i := True] in if \<not> func seed then seed[i := False] else seed)
                    else seed)
       [0..<length seed] seed"

definition shrink :: "bool list \<Rightarrow> (bool list \<Rightarrow> bool) \<Rightarrow> bool list" where
  "shrink seed func =
     fold (\<lambda>i seed. if seed ! i
                    then (let seed = seed[i := False] in if func seed then seed[i := True] else seed)
                    else seed)
       [0..<length seed] seed"

definition block_down :: "bool list \<Rightarrow> marco_literal list" where
  "block_down mss =
     map (\<lambda>var. \<lparr>ml_var = var, ml_pos = True\<rparr>) (filter (\<lambda>i. \<not> mss ! i) [0..<length mss])"

definition block_up :: "bool list \<Rightarrow> marco_literal list" where
  "block_up mus =
     map (\<lambda>var. \<lparr>ml_var = var, ml_pos = False\<rparr>) (filter (\<lambda>i. mus ! i) [0..<length mus])"

definition marco_next :: "cadical \<Rightarrow> marco_iterator \<Rightarrow> (mss_or_mus option \<times> marco_iterator) option" where
  "marco_next solver it =
     (case marco_is_sat solver (mi_map it) (mi_n it) of
        None \<Rightarrow> None
      | Some None \<Rightarrow> Some (None, it)
      | Some (Some seed) \<Rightarrow>
          (if mi_func it seed
           then (let mss = grow seed (mi_func it)
                 in Some (Some (Mss mss), it\<lparr>mi_map := mi_map it @ [block_down mss]\<rparr>))
           else (let mus = shrink seed (mi_func it)
                 in Some (Some (Mus mus), it\<lparr>mi_map := mi_map it @ [block_up mus]\<rparr>))))"

inductive marco_steps :: "cadical \<Rightarrow> marco_iterator \<Rightarrow> mss_or_mus list \<Rightarrow> marco_iterator \<Rightarrow> bool"
  for solver :: cadical and it :: marco_iterator where
  marco_start: "marco_steps solver it [] it"
| marco_yield: "marco_steps solver it xs it' \<Longrightarrow> marco_next solver it' = Some (Some x, it'')
    \<Longrightarrow> marco_steps solver it (xs @ [x]) it''"

section \<open>Growing and shrinking\<close>

text \<open>\<open>below b xs ys\<close>: \<open>ys\<close> has the value \<open>b\<close> wherever \<open>xs\<close> has. Growing moves up for \<open>True\<close>,
  shrinking for \<open>False\<close>; both are the same greedy search.\<close>

definition below :: "bool \<Rightarrow> bool list \<Rightarrow> bool list \<Rightarrow> bool" where
  "below b xs ys \<longleftrightarrow> length xs = length ys \<and> (\<forall>i<length xs. xs ! i = b \<longrightarrow> ys ! i = b)"

lemma nth_update: "xs[i := x] ! j = (if i = j \<and> j < length xs then x else xs ! j)"
  by (cases "i = j") (auto simp: list_update_beyond)

lemma update_restore: "xs ! i = x \<Longrightarrow> xs[i := x] = xs"
  by (metis list_update_id)

lemma below_refl [simp]: "below b xs xs"
  by (simp add: below_def)

lemma below_trans: "below b xs ys \<Longrightarrow> below b ys zs \<Longrightarrow> below b xs zs"
  by (simp add: below_def)

lemma below_antisym: "below b xs ys \<Longrightarrow> below b ys xs \<Longrightarrow> xs = ys"
  by (auto simp: below_def list_eq_iff_nth_eq)

lemma below_dual: "below (\<not> b) xs ys \<longleftrightarrow> below b ys xs"
  by (auto simp: below_def)

lemma below_update: "below b xs (xs[i := b])"
  by (auto simp: below_def nth_update)

lemma below_update_mono: "below b xs ys \<Longrightarrow> below b (xs[i := b]) (ys[i := b])"
  by (auto simp: below_def nth_update)

definition closed_under :: "bool \<Rightarrow> (bool list \<Rightarrow> bool) \<Rightarrow> bool" where
  "closed_under b ok \<longleftrightarrow> (\<forall>xs ys. below b xs ys \<longrightarrow> ok ys \<longrightarrow> ok xs)"

definition maximal :: "bool \<Rightarrow> (bool list \<Rightarrow> bool) \<Rightarrow> bool list \<Rightarrow> bool" where
  "maximal b ok xs \<longleftrightarrow> ok xs \<and> (\<forall>ys. below b xs ys \<longrightarrow> ok ys \<longrightarrow> ys = xs)"

definition greedy_step :: "bool \<Rightarrow> (bool list \<Rightarrow> bool) \<Rightarrow> nat \<Rightarrow> bool list \<Rightarrow> bool list" where
  "greedy_step b ok i xs = (if xs ! i \<noteq> b \<and> ok (xs[i := b]) then xs[i := b] else xs)"

lemma greedy_invariant:
  assumes "closed_under b ok" and "ok xs" and "k \<le> length xs"
  shows "let zs = fold (greedy_step b ok) [0..<k] xs in
    below b xs zs \<and> ok zs \<and> (\<forall>j<k. zs ! j \<noteq> b \<longrightarrow> \<not> ok (zs[j := b]))"
  using assms(3)
proof (induction k)
  case 0
  then show ?case using assms(2) by simp
next
  case (Suc k)
  define zs where "zs = fold (greedy_step b ok) [0..<k] xs"
  from Suc have zs: "below b xs zs" "ok zs" and stuck: "\<And>j. j < k \<Longrightarrow> zs ! j \<noteq> b \<Longrightarrow> \<not> ok (zs[j := b])"
    by (simp_all add: zs_def Let_def)
  let ?z = "greedy_step b ok k zs"
  have step: "below b zs ?z" "ok ?z" using zs(2) below_update [of b zs k] by (auto simp: greedy_step_def)
  have "\<not> ok (?z[j := b])" if "j < Suc k" "?z ! j \<noteq> b" for j
  proof (cases "j = k")
    case True
    with that have "?z = zs" "\<not> ok (zs[k := b])"
      using zs(1) Suc.prems by (auto simp: greedy_step_def below_def split: if_splits)
    with True show ?thesis by simp
  next
    case False
    have "zs ! j \<noteq> b" using that False by (auto simp: greedy_step_def nth_update split: if_splits)
    with stuck [of j] that False have "\<not> ok (zs[j := b])" by simp
    moreover have "below b (zs[j := b]) (?z[j := b])" by (rule below_update_mono [OF step(1)])
    ultimately show ?thesis using assms(1) unfolding closed_under_def by blast
  qed
  moreover have "fold (greedy_step b ok) [0..<Suc k] xs = ?z" by (simp add: zs_def)
  ultimately show ?case using below_trans [OF zs(1) step(1)] step(2) by (simp add: Let_def)
qed

lemma greedy_maximal:
  assumes "closed_under b ok" and "ok xs"
  defines "zs \<equiv> fold (greedy_step b ok) [0..<length xs] xs"
  shows "maximal b ok zs \<and> below b xs zs"
proof -
  from greedy_invariant [OF assms(1,2) order.refl]
  have zs: "below b xs zs" "ok zs" and top: "\<And>j. j < length xs \<Longrightarrow> zs ! j \<noteq> b \<Longrightarrow> \<not> ok (zs[j := b])"
    by (simp_all add: zs_def Let_def)
  have "ys = zs" if ys: "below b zs ys" "ok ys" for ys
  proof (rule ccontr)
    assume "ys \<noteq> zs"
    with ys(1) obtain j where j: "j < length zs" "ys ! j \<noteq> zs ! j"
      by (auto simp: list_eq_iff_nth_eq below_def)
    with ys(1) have jb: "zs ! j \<noteq> b" "ys ! j = b" by (auto simp: below_def)
    have "below b (zs[j := b]) ys" using ys(1) jb by (auto simp: below_def nth_update)
    with assms(1) ys(2) have "ok (zs[j := b])" unfolding closed_under_def by blast
    with top [of j] jb j zs(1) show False by (simp add: below_def)
  qed
  with zs show ?thesis by (simp add: maximal_def)
qed

lemma grow_greedy: "grow seed func = fold (greedy_step True func) [0..<length seed] seed"
proof -
  have "(if \<not> seed ! i then (let seed = seed[i := True] in if \<not> func seed then seed[i := False] else seed)
      else seed) = greedy_step True func i seed" for i seed
    by (auto simp: greedy_step_def Let_def update_restore)
  then show ?thesis by (simp add: grow_def)
qed

lemma shrink_greedy:
  "shrink seed func = fold (greedy_step False (\<lambda>xs. \<not> func xs)) [0..<length seed] seed"
proof -
  have "(if seed ! i then (let seed = seed[i := False] in if func seed then seed[i := True] else seed)
      else seed) = greedy_step False (\<lambda>xs. \<not> func xs) i seed" for i seed
    by (auto simp: greedy_step_def Let_def update_restore)
  then show ?thesis by (simp add: shrink_def)
qed

section \<open>The blocking clauses\<close>

definition bits_satisfy :: "bool list \<Rightarrow> marco_literal list list \<Rightarrow> bool" where
  "bits_satisfy x cls \<longleftrightarrow> (\<forall>c\<in>set cls. \<exists>l\<in>set c. x ! ml_var l = ml_pos l)"

definition vars_below :: "nat \<Rightarrow> marco_literal list list \<Rightarrow> bool" where
  "vars_below n cls \<longleftrightarrow> (\<forall>c\<in>set cls. \<forall>l\<in>set c. ml_var l < n)"

lemma marco_int_cnf:
  assumes "vars_below n cls" and "n < 2 ^ 31"
  shows "int_cnf_holds \<gamma> (map (map to_solver_lit) cls)
      \<longleftrightarrow> bits_satisfy (map (\<lambda>i. \<gamma> (int i + 1)) [0..<n]) cls"
    and "\<forall>c\<in>set (map (map to_solver_lit) cls). 0 \<notin> set c"
proof -
  have lit: "to_solver_lit l = (int (ml_var l) + 1) * (if ml_pos l then 1 else -1)" "ml_var l < n"
    if "c \<in> set cls" "l \<in> set c" for c l
  proof -
    show "ml_var l < n" using assms(1) that by (auto simp: vars_below_def)
    with assms(2) have "ml_var l < 2 ^ 31 - 1" by linarith
    then show "to_solver_lit l = (int (ml_var l) + 1) * (if ml_pos l then 1 else -1)"
      by (simp add: to_solver_lit_def solver_literal_eq)
  qed
  then have "int_literal_holds \<gamma> (to_solver_lit l)
      \<longleftrightarrow> map (\<lambda>i. \<gamma> (int i + 1)) [0..<n] ! ml_var l = ml_pos l"
    if "c \<in> set cls" "l \<in> set c" for c l
    using lit [OF that] by (auto simp: int_literal_holds_def add.commute)
  then show "int_cnf_holds \<gamma> (map (map to_solver_lit) cls)
      \<longleftrightarrow> bits_satisfy (map (\<lambda>i. \<gamma> (int i + 1)) [0..<n]) cls"
    by (simp add: int_cnf_holds_def bits_satisfy_def)
  have "to_solver_lit l \<noteq> 0" if "c \<in> set cls" "l \<in> set c" for c l
    using lit [OF that] by simp
  then show "\<forall>c\<in>set (map (map to_solver_lit) cls). 0 \<notin> set c" by auto
qed

lemma marco_is_sat_correct:
  assumes "cadical_doc solver" and "vars_below n cls" and "n < 2 ^ 31"
  shows "marco_is_sat solver cls n = Some None \<Longrightarrow> length x = n \<Longrightarrow> \<not> bits_satisfy x cls"
    and "marco_is_sat solver cls n = Some (Some seed) \<Longrightarrow> length seed = n \<and> bits_satisfy seed cls"
proof -
  let ?cs = "map (map to_solver_lit) cls"
  note ints = marco_int_cnf [OF assms(2,3)]
  { assume "marco_is_sat solver cls n = Some None" and len: "length x = n"
    then have "cad_solve solver ?cs = Some False"
      by (auto simp: marco_is_sat_def Let_def split: option.splits bool.splits)
    with assms(1) ints(2) have "\<not> int_cnf_holds (\<lambda>z. x ! nat (z - 1)) ?cs"
      unfolding cadical_doc_def by blast
    moreover have "map (\<lambda>i. x ! nat (int i + 1 - 1)) [0..<n] = x"
      using map_nth [of x] by (simp add: len)
    ultimately show "\<not> bits_satisfy x cls" using ints(1) by simp }
  assume sat: "marco_is_sat solver cls n = Some (Some seed)"
  then have "cad_solve solver ?cs = Some True"
    by (auto simp: marco_is_sat_def Let_def split: option.splits bool.splits)
  with assms(1) ints(2) have "int_cnf_holds (\<lambda>v. cad_value solver ?cs v = Some True) ?cs"
    unfolding cadical_doc_def by blast
  moreover have seed: "seed = map (\<lambda>i. cad_value solver ?cs (int i + 1) = Some True) [0..<n]"
  proof -
    have "to_solver_lit \<lparr>ml_var = i, ml_pos = True\<rparr> = int i + 1" if "i < n" for i
    proof -
      have "i < 2 ^ 31 - 1" using that assms(3) by linarith
      then show ?thesis by (simp add: to_solver_lit_def solver_literal_eq)
    qed
    with sat show ?thesis by (auto simp: marco_is_sat_def Let_def split: option.splits bool.splits)
  qed
  ultimately show "length seed = n \<and> bits_satisfy seed cls" using ints(1) by simp
qed

fun block :: "mss_or_mus \<Rightarrow> marco_literal list" where
  "block (Mss m) = block_down m"
| "block (Mus m) = block_up m"

fun excludes :: "mss_or_mus \<Rightarrow> bool list \<Rightarrow> bool" where
  "excludes (Mss m) x \<longleftrightarrow> below True x m"
| "excludes (Mus m) x \<longleftrightarrow> below True m x"

fun result_ok :: "(bool list \<Rightarrow> bool) \<Rightarrow> nat \<Rightarrow> mss_or_mus \<Rightarrow> bool" where
  "result_ok func n (Mss m) \<longleftrightarrow> length m = n \<and> maximal True func m"
| "result_ok func n (Mus m) \<longleftrightarrow> length m = n \<and> maximal False (\<lambda>x. \<not> func x) m"

lemma block_excludes:
  assumes "result_ok func n r" and "length x = n"
  shows "(\<exists>l\<in>set (block r). x ! ml_var l = ml_pos l) \<longleftrightarrow> \<not> excludes r x"
    and "\<forall>l\<in>set (block r). ml_var l < n"
  using assms by (cases r; fastforce simp: block_down_def block_up_def below_def)+

lemma bits_satisfy_blocks:
  assumes "\<forall>r\<in>set found. result_ok func n r" and "length x = n"
  shows "bits_satisfy x (map block found) \<longleftrightarrow> (\<forall>r\<in>set found. \<not> excludes r x)"
    and "vars_below n (map block found)"
  using assms block_excludes by (fastforce simp: bits_satisfy_def vars_below_def)+

section \<open>The iterator\<close>

definition marco_inv :: "(bool list \<Rightarrow> bool) \<Rightarrow> nat \<Rightarrow> mss_or_mus list \<Rightarrow> marco_iterator \<Rightarrow> bool" where
  "marco_inv func n found it \<longleftrightarrow>
     mi_func it = func \<and> mi_n it = n \<and> mi_map it = map block found
     \<and> (\<forall>r\<in>set found. result_ok func n r) \<and> distinct found"

lemma marco_next_inv:
  assumes "cadical_doc solver" and "closed_under True func" and "n < 2 ^ 31"
    and "marco_inv func n found it" and "marco_next solver it = Some (Some x, it')"
  shows "marco_inv func n (found @ [x]) it'"
proof -
  from assms(4) have it: "mi_func it = func" "mi_n it = n" "mi_map it = map block found"
    and ok: "\<forall>r\<in>set found. result_ok func n r" and dist: "distinct found"
    by (simp_all add: marco_inv_def)
  note blocks = bits_satisfy_blocks [OF ok]
  from assms(5) it obtain seed where seed: "marco_is_sat solver (map block found) n = Some (Some seed)"
    and res: "func seed \<and> x = Mss (grow seed func) \<and> it' = it\<lparr>mi_map := mi_map it @ [block x]\<rparr>
      \<or> \<not> func seed \<and> x = Mus (shrink seed func) \<and> it' = it\<lparr>mi_map := mi_map it @ [block x]\<rparr>"
    by (auto simp: marco_next_def Let_def split: option.splits if_splits)
  have "vars_below n (map block found)" using blocks(2) [of "replicate n True"] by simp
  from marco_is_sat_correct(2) [OF assms(1) this assms(3) seed]
  have len: "length seed = n" and sat: "bits_satisfy seed (map block found)" by simp_all
  from blocks(1) [OF len] sat have free: "\<forall>r\<in>set found. \<not> excludes r seed" by simp
  have x: "result_ok func n x \<and> excludes x seed"
  proof (cases "func seed")
    case True
    from greedy_maximal [OF assms(2) this] res True len show ?thesis
      by (auto simp: grow_greedy below_def)
  next
    case False
    have "closed_under False (\<lambda>x. \<not> func x)"
      using assms(2) below_dual [of True] unfolding closed_under_def by auto
    from greedy_maximal [OF this False] res False len below_dual [of True] show ?thesis
      by (auto simp: shrink_greedy below_def)
  qed
  with free have "x \<notin> set found" by blast
  with it ok dist x res show ?thesis by (auto simp: marco_inv_def)
qed

lemma marco_steps_inv:
  assumes "cadical_doc solver" and "closed_under True func" and "n < 2 ^ 31"
  shows "marco_steps solver (marco func n) found it \<Longrightarrow> marco_inv func n found it"
proof (induction rule: marco_steps.induct)
  case marco_start
  then show ?case by (simp add: marco_inv_def marco_def)
next
  case (marco_yield xs it' x it'')
  then show ?case using marco_next_inv [OF assms] by blast
qed

text \<open>C28: what MARCO has yielded when it stops: every maximal satisfiable subset and every minimal
  unsatisfiable subset of the function's inputs, each exactly once, and nothing else. (For a
  function that stays true on subsets, and a solver that behaves as documented.)\<close>

theorem marco_enumerates:
  assumes "cadical_doc solver" and "closed_under True func" and "n < 2 ^ 31"
    and "marco_steps solver (marco func n) found it" and "marco_next solver it = Some (None, it')"
  shows "distinct found \<and> set found
    = {Mss m |m. length m = n \<and> maximal True func m}
      \<union> {Mus m |m. length m = n \<and> maximal False (\<lambda>x. \<not> func x) m}"
proof -
  from marco_steps_inv [OF assms(1-4)]
  have it: "mi_func it = func" "mi_n it = n" "mi_map it = map block found"
    and ok: "\<forall>r\<in>set found. result_ok func n r" and dist: "distinct found"
    by (simp_all add: marco_inv_def)
  note blocks = bits_satisfy_blocks [OF ok]
  have vars: "vars_below n (map block found)" using blocks(2) [of "replicate n True"] by simp
  have "marco_is_sat solver (map block found) n = Some None"
    using assms(5) it by (auto simp: marco_next_def Let_def split: option.splits if_splits)
  from marco_is_sat_correct(1) [OF assms(1) vars assms(3) this] blocks(1)
  have all: "\<exists>r\<in>set found. excludes r x" if "length x = n" for x using that by blast
  have mss: "Mss m \<in> set found" if m: "length m = n" "maximal True func m" for m
  proof -
    from all [OF m(1)] obtain r where r: "r \<in> set found" "excludes r m" by blast
    show ?thesis
    proof (cases r)
      case (Mss m')
      with r ok have "below True m m'" "func m'" by (auto simp: maximal_def)
      with m(2) have "m' = m" by (auto simp: maximal_def)
      with r Mss show ?thesis by simp
    next
      case (Mus u)
      with r ok have "below True u m" "\<not> func u" by (auto simp: maximal_def)
      with m(2) assms(2) show ?thesis unfolding closed_under_def maximal_def by blast
    qed
  qed
  have mus: "Mus m \<in> set found" if m: "length m = n" "maximal False (\<lambda>x. \<not> func x) m" for m
  proof -
    from all [OF m(1)] obtain r where r: "r \<in> set found" "excludes r m" by blast
    show ?thesis
    proof (cases r)
      case (Mss m')
      with r ok have "below True m m'" "func m'" by (auto simp: maximal_def)
      with m(2) assms(2) show ?thesis unfolding closed_under_def maximal_def by blast
    next
      case (Mus u)
      with r ok have "below True u m" "\<not> func u" by (auto simp: maximal_def)
      with m(2) below_dual [of True m u] have "u = m" by (auto simp: maximal_def)
      with r Mus show ?thesis by simp
    qed
  qed
  have "set found \<subseteq> {Mss m |m. length m = n \<and> maximal True func m}
      \<union> {Mus m |m. length m = n \<and> maximal False (\<lambda>x. \<not> func x) m}"
  proof
    fix r assume "r \<in> set found"
    with ok show "r \<in> {Mss m |m. length m = n \<and> maximal True func m}
      \<union> {Mus m |m. length m = n \<and> maximal False (\<lambda>x. \<not> func x) m}"
      by (cases r) auto
  qed
  with mss mus dist show ?thesis by blast
qed

text \<open>C29: MARCO stops: with a solver that always answers, there is a run that ends, after at most
  \<open>2 * 2 ^ n\<close> results.\<close>

theorem marco_terminates:
  assumes "cadical_doc solver" and "closed_under True func" and "n < 2 ^ 31"
    and "\<And>cs. cad_solve solver cs \<noteq> None"
  shows "\<exists>found it it'. marco_steps solver (marco func n) found it
    \<and> marco_next solver it = Some (None, it') \<and> length found \<le> 2 * 2 ^ n"
proof -
  let ?U = "Mss ` {m. length m = n} \<union> Mus ` {m. length m = n}"
  have fin: "finite {m :: bool list. length m = n}" and card: "card {m :: bool list. length m = n} = 2 ^ n"
    using finite_lists_length_eq [of "UNIV :: bool set" n] card_lists_length_eq [of "UNIV :: bool set" n]
    by simp_all
  have bound: "length found \<le> 2 * 2 ^ n" if "marco_steps solver (marco func n) found it" for found it
  proof -
    from marco_steps_inv [OF assms(1-3) that]
    have ok: "\<forall>r\<in>set found. result_ok func n r" and dist: "distinct found" by (simp_all add: marco_inv_def)
    have "set found \<subseteq> ?U"
    proof
      fix r assume "r \<in> set found"
      with ok show "r \<in> ?U" by (cases r) auto
    qed
    then have "card (set found) \<le> card ?U" using fin by (intro card_mono) auto
    also have "\<dots> \<le> card (Mss ` {m. length m = n}) + card (Mus ` {m. length m = n})" by (rule card_Un_le)
    also have "\<dots> \<le> 2 ^ n + 2 ^ n" using card_image_le [OF fin, of Mss] card_image_le [OF fin, of Mus] card
      by linarith
    finally show ?thesis using distinct_card [OF dist] by simp
  qed
  have total: "\<exists>x it'. marco_next solver it = Some (x, it')" for it
  proof -
    have "marco_is_sat solver (mi_map it) (mi_n it) \<noteq> None"
      using assms(4) by (auto simp: marco_is_sat_def Let_def split: option.splits bool.splits)
    then show ?thesis by (auto simp: marco_next_def Let_def split: option.splits)
  qed
  show ?thesis
  proof (rule ccontr)
    assume never: "\<not> ?thesis"
    have "\<exists>found it. marco_steps solver (marco func n) found it \<and> length found = k" for k
    proof (induction k)
      case 0
      show ?case using marco_start by fastforce
    next
      case (Suc k)
      then obtain found it where steps: "marco_steps solver (marco func n) found it" and "length found = k" by blast
      obtain x it' where next_it: "marco_next solver it = Some (x, it')" using total by blast
      with never steps bound [OF steps] obtain y where "x = Some y" by (cases x) auto
      with next_it steps have "marco_steps solver (marco func n) (found @ [y]) it'"
        by (auto intro: marco_yield)
      with \<open>length found = k\<close> show ?case by (metis length_append_singleton)
    qed
    then obtain found it where "marco_steps solver (marco func n) found it" "length found = Suc (2 * 2 ^ n)" by blast
    with bound show False by fastforce
  qed
qed

section \<open>Witnesses\<close>

definition not_all :: "bool list \<Rightarrow> bool" where
  "not_all xs \<longleftrightarrow> False \<in> set xs"

lemma not_all_closed: "closed_under True not_all"
  by (auto simp: closed_under_def not_all_def below_def in_set_conv_nth)

abbreviation run_state :: "marco_literal list list \<Rightarrow> marco_iterator" where
  "run_state cls \<equiv> \<lparr>mi_func = not_all, mi_map = cls, mi_n = 1\<rparr>"

abbreviation lit0 :: "bool \<Rightarrow> marco_literal" where
  "lit0 b \<equiv> \<lparr>ml_var = 0, ml_pos = b\<rparr>"

lemma run_is_sat:
  "marco_is_sat brute_force [] 1 = Some (Some [False])"
  "marco_is_sat brute_force [[lit0 True]] 1 = Some (Some [True])"
  "marco_is_sat brute_force [[lit0 True], [lit0 False]] 1 = Some None"
  by code_simp+

lemma run_next:
  "marco_next brute_force (run_state []) = Some (Some (Mss [False]), run_state [[lit0 True]])"
  "marco_next brute_force (run_state [[lit0 True]])
    = Some (Some (Mus [True]), run_state [[lit0 True], [lit0 False]])"
  "marco_next brute_force (run_state [[lit0 True], [lit0 False]])
    = Some (None, run_state [[lit0 True], [lit0 False]])"
  using run_is_sat
  by (simp_all add: marco_next_def not_all_def grow_def shrink_def block_down_def block_up_def)

lemma marco_run:
  "marco_steps brute_force (marco not_all 1) [Mss [False], Mus [True]] (run_state [[lit0 True], [lit0 False]])"
proof -
  have "marco_steps brute_force (marco not_all 1) [] (run_state [])"
    using marco_start [of brute_force "marco not_all 1"] by (simp add: marco_def)
  from marco_yield [OF marco_yield [OF this run_next(1)] run_next(2)] show ?thesis by simp
qed

theorem marco_enumerates_witness:
  "set [Mss [False], Mus [True]]
     = {Mss m |m. length m = 1 \<and> maximal True not_all m}
       \<union> {Mus m |m. length m = 1 \<and> maximal False (\<lambda>x. \<not> not_all x) m}"
  using marco_enumerates [OF brute_force_doc not_all_closed _ marco_run run_next(3)] by simp

theorem marco_terminates_witness:
  "\<exists>found it it'. marco_steps brute_force (marco not_all 3) found it
    \<and> marco_next brute_force it = Some (None, it') \<and> length found \<le> 2 * 2 ^ 3"
  by (rule marco_terminates [OF brute_force_doc not_all_closed]) (simp_all add: brute_force_def)

end
