(* ===== verification/Inference_Houdini.thy ===== *)
theory Inference_Houdini
  imports Verify_Module
begin

text \<open>
  Model of \<^verbatim>\<open>inference/src/houdini.rs\<close>: Houdini, which keeps the largest inductive part of a set of
  candidate invariants. The SMT solver is the parameter of \<open>Verify_Module\<close>, here with \<open>get_model\<close>; the
  checks of one iteration run in parallel and share the set of refuted candidates, so they are
  tasks that take turns in an order chosen by a scheduler. Logging and printing are left out.
\<close>

section \<open>Definitions\<close>

record model_solver =
  ms_solver :: smt_solver
  ms_get_model :: "signature \<Rightarrow> nat \<Rightarrow> fterm list \<Rightarrow> model list option"

record houdini =
  hd_sig :: signature
  hd_init :: fterm
  hd_next :: fterm
  hd_invs :: "fterm list"

datatype houdini_error =
  InitInvUnknown string
| InductiveInvUnknown string
| NotInductiveInv

definition houdini_new :: "signature \<Rightarrow> invariant_assertion \<Rightarrow> houdini" where
  "houdini_new sig ia =
     \<lparr>hd_sig = sig, hd_init = ia_init ia, hd_next = ia_next ia,
      hd_invs = [sp_x (ia_inv ia)] @ map sp_x (ia_proof_invs ia)\<rparr>"

section \<open>Initiation\<close>

fun prune_falsified :: "itertools \<Rightarrow> model \<Rightarrow> fterm list \<Rightarrow> fterm list \<Rightarrow> fterm list option" where
  "prune_falsified it state [] not_implied = Some not_implied"
| "prune_falsified it state (qq # qs) not_implied =
     (case eval it state qq of None \<Rightarrow> None | Some v \<Rightarrow>
        prune_falsified it state qs (if v = 0 then List.insert qq not_implied else not_implied))"

definition init_query :: "houdini \<Rightarrow> fterm \<Rightarrow> fterm list" where
  "init_query h q = [hd_init h, term_negate q]"

definition initiation_check ::
  "itertools \<Rightarrow> model_solver \<Rightarrow> houdini \<Rightarrow> fterm \<Rightarrow> fterm list \<Rightarrow> (houdini_error + fterm list) option" where
  "initiation_check it solver h q not_implied =
     (if q \<in> set not_implied then Some (Inr not_implied)
      else let query = init_query h q in
        case smt_check_sat (ms_solver solver) (hd_sig h) 1 query of
          None \<Rightarrow> None
        | Some RespSat \<Rightarrow>
            (case ms_get_model solver (hd_sig h) 1 query of None \<Rightarrow> None | Some states \<Rightarrow>
               if length states = 1 \<and> eval it (states ! 0) (hd_init h) = Some 1 \<and> eval it (states ! 0) q = Some 0
               then map_option Inr (prune_falsified it (states ! 0) (hd_invs h) not_implied)
               else None)
        | Some RespUnsat \<Rightarrow> Some (Inr not_implied)
        | Some (RespUnknown msg) \<Rightarrow> Some (Inl (InitInvUnknown msg)))"

fun initiation_checks ::
  "itertools \<Rightarrow> model_solver \<Rightarrow> houdini \<Rightarrow> fterm list \<Rightarrow> fterm list \<Rightarrow> (houdini_error + fterm list) option" where
  "initiation_checks it solver h [] not_implied = Some (Inr not_implied)"
| "initiation_checks it solver h (q # qs) not_implied =
     bind_pr (initiation_check it solver h q not_implied) (initiation_checks it solver h qs)"

definition retain_implied :: "houdini \<Rightarrow> fterm list \<Rightarrow> houdini" where
  "retain_implied h not_implied = h\<lparr>hd_invs := filter (\<lambda>q. q \<notin> set not_implied) (hd_invs h)\<rparr>"

definition initiation_filter :: "itertools \<Rightarrow> model_solver \<Rightarrow> houdini \<Rightarrow> (houdini_error + houdini) option" where
  "initiation_filter it solver h =
     bind_pr (initiation_checks it solver h (hd_invs h) []) (\<lambda>not_implied. Some (Inr (retain_implied h not_implied)))"

section \<open>One parallel iteration\<close>

text \<open>A task checks one candidate. It reads the shared set once, asks the solver, and adds refuted
  candidates one by one, each time locking the set: between any two of these steps other tasks run.\<close>

datatype check_task =
  Waiting
| Checking
| Pruning model "fterm list"
| Finished "sat_resp option"

record iteration =
  ps_tasks :: "check_task list"
  ps_not_implied :: "fterm list"

definition step_query :: "houdini \<Rightarrow> fterm \<Rightarrow> fterm list" where
  "step_query h q = hd_invs h @ [hd_next h, term_negate (next_prime (hd_sig h) q)]"

fun task_step ::
  "itertools \<Rightarrow> model_solver \<Rightarrow> houdini \<Rightarrow> fterm \<Rightarrow> check_task \<Rightarrow> fterm list \<Rightarrow> (check_task \<times> fterm list) option" where
  "task_step it solver h q Waiting not_implied =
     Some (if q \<in> set not_implied then Finished None else Checking, not_implied)"
| "task_step it solver h q Checking not_implied =
     (let query = step_query h q in
      case smt_check_sat (ms_solver solver) (hd_sig h) 2 query of
        None \<Rightarrow> None
      | Some RespSat \<Rightarrow>
          (case ms_get_model solver (hd_sig h) 2 query of None \<Rightarrow> None | Some states \<Rightarrow>
             if length states = 2 \<and> eval it (states ! 1) q = Some 0
             then Some (Pruning (states ! 1) (hd_invs h), not_implied) else None)
      | Some resp \<Rightarrow> Some (Finished (Some resp), not_implied))"
| "task_step it solver h q (Pruning state []) not_implied = Some (Finished (Some RespSat), not_implied)"
| "task_step it solver h q (Pruning state (qq # qs)) not_implied =
     (case eval it state qq of None \<Rightarrow> None | Some v \<Rightarrow>
        Some (Pruning state qs, if v = 0 then List.insert qq not_implied else not_implied))"
| "task_step it solver h q (Finished r) not_implied = Some (Finished r, not_implied)"

definition finished :: "check_task \<Rightarrow> bool" where
  "finished tk = (case tk of Finished _ \<Rightarrow> True | _ \<Rightarrow> False)"

fun task_work :: "nat \<Rightarrow> check_task \<Rightarrow> nat" where
  "task_work n Waiting = n + 3"
| "task_work n Checking = n + 2"
| "task_work n (Pruning state qs) = length qs + 1"
| "task_work n (Finished r) = 0"

text \<open>The scheduler may choose any unfinished task; other choices fall back to the first one.\<close>

definition next_task :: "(iteration \<Rightarrow> nat) \<Rightarrow> iteration \<Rightarrow> nat" where
  "next_task sched st =
     (let i = sched st; unfinished = filter (\<lambda>i. \<not> finished (ps_tasks st ! i)) [0..<length (ps_tasks st)]
      in if i \<in> set unfinished then i else hd unfinished)"

lemma task_step_work:
  "task_step it solver h q tk ni = Some (tk', ni') \<Longrightarrow> \<not> finished tk
   \<Longrightarrow> task_work (length (hd_invs h)) tk' < task_work (length (hd_invs h)) tk"
  by (cases "(it, solver, h, q, tk, ni)" rule: task_step.cases)
    (auto simp: Let_def finished_def split: option.splits sat_resp.splits if_splits)

lemma next_task_unfinished:
  assumes "\<not> list_all finished (ps_tasks st)"
  shows "next_task sched st < length (ps_tasks st)" and "\<not> finished (ps_tasks st ! next_task sched st)"
proof -
  let ?u = "filter (\<lambda>i. \<not> finished (ps_tasks st ! i)) [0..<length (ps_tasks st)]"
  from assms obtain i where "i < length (ps_tasks st)" "\<not> finished (ps_tasks st ! i)" by (auto simp: list_all_length)
  then have i: "i \<in> set ?u" by simp
  have "?u \<noteq> []" using i by (metis empty_iff list.set(1))
  then have "hd ?u \<in> set ?u" by (rule hd_in_set)
  then have "next_task sched st \<in> set ?u" by (auto simp: next_task_def Let_def)
  then show "next_task sched st < length (ps_tasks st)" "\<not> finished (ps_tasks st ! next_task sched st)" by auto
qed

lemma sum_list_update_less: "i < length xs \<Longrightarrow> (y :: nat) < xs ! i \<Longrightarrow> sum_list (xs[i := y]) < sum_list xs"
  by (induction xs arbitrary: i) (auto split: nat.splits)

function run_checks ::
  "(iteration \<Rightarrow> nat) \<Rightarrow> itertools \<Rightarrow> model_solver \<Rightarrow> houdini \<Rightarrow> iteration \<Rightarrow> iteration option" where
  "run_checks sched it solver h st =
     (if list_all finished (ps_tasks st) then Some st
      else let i = next_task sched st in
        case task_step it solver h (hd_invs h ! i) (ps_tasks st ! i) (ps_not_implied st) of
          None \<Rightarrow> None
        | Some (tk, not_implied) \<Rightarrow>
            run_checks sched it solver h \<lparr>ps_tasks = (ps_tasks st)[i := tk], ps_not_implied = not_implied\<rparr>)"
  by pat_completeness auto
termination
proof (relation "measure (\<lambda>(sched, it, solver, h, st). sum_list (map (task_work (length (hd_invs h))) (ps_tasks st)))", simp)
  fix sched it solver h st i r tk ni
  assume unf: "\<not> list_all finished (ps_tasks st)" and i: "i = next_task sched st"
    and step: "task_step it solver h (hd_invs h ! i) (ps_tasks st ! i) (ps_not_implied st) = Some r" and r: "(tk, ni) = r"
  note n = next_task_unfinished [OF unf, of sched, folded i]
  have "task_step it solver h (hd_invs h ! i) (ps_tasks st ! i) (ps_not_implied st) = Some (tk, ni)" using step r by simp
  from task_step_work [OF this n(2)]
    sum_list_update_less [of i "map (task_work (length (hd_invs h))) (ps_tasks st)"] n(1)
  show "((sched, it, solver, h, \<lparr>ps_tasks = (ps_tasks st)[i := tk], ps_not_implied = ni\<rparr>), (sched, it, solver, h, st))
    \<in> measure (\<lambda>(sched, it, solver, h, st). sum_list (map (task_work (length (hd_invs h))) (ps_tasks st)))"
    by (simp add: map_update)
qed

declare run_checks.simps [simp del]

fun first_unknown :: "sat_resp list \<Rightarrow> houdini_error option" where
  "first_unknown [] = None"
| "first_unknown (RespUnknown msg # rs) = Some (InductiveInvUnknown msg)"
| "first_unknown (r # rs) = first_unknown rs"

fun task_response :: "check_task \<Rightarrow> sat_resp list" where
  "task_response (Finished (Some r)) = [r]"
| "task_response _ = []"

definition start_checks :: "houdini \<Rightarrow> iteration" where
  "start_checks h = \<lparr>ps_tasks = map (\<lambda>_. Waiting) (hd_invs h), ps_not_implied = []\<rparr>"

definition inductive_iteration ::
  "(iteration \<Rightarrow> nat) \<Rightarrow> itertools \<Rightarrow> model_solver \<Rightarrow> houdini \<Rightarrow> (houdini_error + bool \<times> houdini) option" where
  "inductive_iteration sched it solver h =
     (case run_checks sched it solver h (start_checks h) of None \<Rightarrow> None | Some st \<Rightarrow>
        (case first_unknown (concat (map task_response (ps_tasks st))) of
           Some e \<Rightarrow> Some (Inl e)
         | None \<Rightarrow>
             if ps_not_implied st = [] then Some (Inr (True, h))
             else Some (Inr (False, retain_implied h (ps_not_implied st)))))"

section \<open>Interleavings\<close>

text \<open>One step of any task: the moves of all schedules, and what holds of every state they reach.\<close>

inductive check_move :: "itertools \<Rightarrow> model_solver \<Rightarrow> houdini \<Rightarrow> iteration \<Rightarrow> iteration \<Rightarrow> bool" for it solver h where
  move: "\<lbrakk> i < length (ps_tasks st); \<not> finished (ps_tasks st ! i);
     task_step it solver h (hd_invs h ! i) (ps_tasks st ! i) (ps_not_implied st) = Some (tk, ni) \<rbrakk>
   \<Longrightarrow> check_move it solver h st \<lparr>ps_tasks = (ps_tasks st)[i := tk], ps_not_implied = ni\<rparr>"

lemma run_checks_moves:
  "run_checks sched it solver h st = Some st' \<Longrightarrow> (check_move it solver h)\<^sup>*\<^sup>* st st' \<and> list_all finished (ps_tasks st')"
proof (induction sched it solver h st rule: run_checks.induct)
  case (1 sched it solver h st)
  show ?case
  proof (cases "list_all finished (ps_tasks st)")
    case True
    with 1(2) show ?thesis by (simp add: run_checks.simps [of sched it solver h st])
  next
    case False
    let ?i = "next_task sched st"
    from 1(2) False obtain tk ni where
      step: "task_step it solver h (hd_invs h ! ?i) (ps_tasks st ! ?i) (ps_not_implied st) = Some (tk, ni)"
      and rest: "run_checks sched it solver h \<lparr>ps_tasks = (ps_tasks st)[?i := tk], ps_not_implied = ni\<rparr> = Some st'"
      by (auto simp: run_checks.simps [of sched it solver h st] Let_def split: option.splits)
    from 1(1) [OF False refl step refl rest] move [OF next_task_unfinished [OF False] step]
    show ?thesis by (meson converse_rtranclp_into_rtranclp)
  qed
qed

text \<open>A two-state model that the solver returned for the check of a candidate.\<close>

definition step_cex :: "model_solver \<Rightarrow> houdini \<Rightarrow> fterm \<Rightarrow> model \<Rightarrow> bool" where
  "step_cex solver h q state \<longleftrightarrow> (\<exists>states. smt_check_sat (ms_solver solver) (hd_sig h) 2 (step_query h q) = Some RespSat
     \<and> ms_get_model solver (hd_sig h) 2 (step_query h q) = Some states \<and> length states = 2 \<and> state = states ! 1)"

definition refuted :: "itertools \<Rightarrow> model_solver \<Rightarrow> houdini \<Rightarrow> fterm \<Rightarrow> bool" where
  "refuted it solver h t \<longleftrightarrow> (\<exists>q\<in>set (hd_invs h). \<exists>state. step_cex solver h q state \<and> eval it state t = Some 0)"

fun task_inv :: "itertools \<Rightarrow> model_solver \<Rightarrow> houdini \<Rightarrow> fterm list \<Rightarrow> fterm \<Rightarrow> check_task \<Rightarrow> bool" where
  "task_inv it solver h ni q (Pruning state qs) \<longleftrightarrow> set qs \<subseteq> set (hd_invs h) \<and> q \<in> set (hd_invs h)
     \<and> (q \<in> set ni \<or> q \<in> set qs) \<and> eval it state q = Some 0 \<and> step_cex solver h q state"
| "task_inv it solver h ni q (Finished None) \<longleftrightarrow> q \<in> set ni"
| "task_inv it solver h ni q (Finished (Some RespSat)) \<longleftrightarrow> q \<in> set ni"
| "task_inv it solver h ni q (Finished (Some RespUnsat)) \<longleftrightarrow>
     smt_check_sat (ms_solver solver) (hd_sig h) 2 (step_query h q) = Some RespUnsat"
| "task_inv it solver h ni q tk \<longleftrightarrow> True"

definition iteration_inv :: "itertools \<Rightarrow> model_solver \<Rightarrow> houdini \<Rightarrow> iteration \<Rightarrow> bool" where
  "iteration_inv it solver h st \<longleftrightarrow> list_all2 (task_inv it solver h (ps_not_implied st)) (hd_invs h) (ps_tasks st)
     \<and> (\<forall>t\<in>set (ps_not_implied st). t \<in> set (hd_invs h) \<and> refuted it solver h t)"

lemma task_inv_mono: "task_inv it solver h ni q tk \<Longrightarrow> set ni \<subseteq> set ni' \<Longrightarrow> task_inv it solver h ni' q tk"
  by (cases "(it, solver, h, ni, q, tk)" rule: task_inv.cases) auto

lemma task_step_inv:
  assumes "task_step it solver h q tk ni = Some (tk', ni')" and "task_inv it solver h ni q tk" and "q \<in> set (hd_invs h)"
    and "\<forall>t\<in>set ni. t \<in> set (hd_invs h) \<and> refuted it solver h t"
  shows "task_inv it solver h ni' q tk' \<and> set ni \<subseteq> set ni' \<and> (\<forall>t\<in>set ni'. t \<in> set (hd_invs h) \<and> refuted it solver h t)"
proof (cases tk)
  case Waiting
  with assms show ?thesis by auto
next
  case Checking
  show ?thesis
  proof (cases "smt_check_sat (ms_solver solver) (hd_sig h) 2 (step_query h q)")
    case None
    with assms(1) Checking show ?thesis by simp
  next
    case (Some r)
    with assms Checking show ?thesis
      by (cases r) (auto simp: Let_def step_cex_def split: option.splits if_splits)
  qed
next
  case (Pruning state qs)
  show ?thesis
  proof (cases qs)
    case Nil
    with assms Pruning show ?thesis by auto
  next
    case (Cons qq rest)
    with assms(1) Pruning obtain v where v: "eval it state qq = Some v" and tk': "tk' = Pruning state rest"
      and ni': "ni' = (if v = 0 then List.insert qq ni else ni)" by (auto split: option.splits)
    from assms(2) Pruning Cons have inv: "qq \<in> set (hd_invs h)" "set rest \<subseteq> set (hd_invs h)"
      "q \<in> set ni \<or> q = qq \<or> q \<in> set rest" "eval it state q = Some 0" "step_cex solver h q state" by auto
    have "refuted it solver h qq" if "v = 0" using v that inv(5) assms(3) by (auto simp: refuted_def)
    then show ?thesis using inv v assms(3,4) by (auto simp: tk' ni')
  qed
next
  case (Finished r)
  with assms show ?thesis by auto
qed

lemma check_move_inv:
  assumes "check_move it solver h st st'" and "iteration_inv it solver h st"
  shows "iteration_inv it solver h st'"
  using assms
proof (induction rule: check_move.induct)
  case (move i st tk ni)
  then have all: "list_all2 (task_inv it solver h (ps_not_implied st)) (hd_invs h) (ps_tasks st)"
    and ni: "\<forall>t\<in>set (ps_not_implied st). t \<in> set (hd_invs h) \<and> refuted it solver h t"
    by (simp_all add: iteration_inv_def)
  have len: "length (ps_tasks st) = length (hd_invs h)" using list_all2_lengthD [OF all] by simp
  then have i: "i < length (hd_invs h)" "hd_invs h ! i \<in> set (hd_invs h)" using move(1) by simp_all
  note S = task_step_inv [OF move(3) list_all2_nthD [OF all i(1)] i(2) ni]
  have "list_all2 (task_inv it solver h ni) (hd_invs h) ((ps_tasks st)[i := tk])"
    unfolding list_all2_conv_all_nth
  proof (intro conjI allI impI)
    show "length (hd_invs h) = length ((ps_tasks st)[i := tk])" by (simp add: len)
    fix j assume j: "j < length (hd_invs h)"
    show "task_inv it solver h ni (hd_invs h ! j) ((ps_tasks st)[i := tk] ! j)"
    proof (cases "j = i")
      case True
      with S move(1) show ?thesis by simp
    next
      case False
      with S task_inv_mono [OF list_all2_nthD [OF all j]] show ?thesis by simp
    qed
  qed
  with S show ?case by (simp add: iteration_inv_def)
qed

lemma run_checks_inv:
  assumes "run_checks sched it solver h (start_checks h) = Some st"
  shows "iteration_inv it solver h st" and "list_all finished (ps_tasks st)"
proof -
  note R = run_checks_moves [OF assms]
  have "iteration_inv it solver h (start_checks h)"
    by (auto simp: iteration_inv_def start_checks_def list_all2_conv_all_nth)
  with R show "iteration_inv it solver h st"
    using rtranclp_induct [of "check_move it solver h" "start_checks h" st "iteration_inv it solver h"] check_move_inv by blast
  show "list_all finished (ps_tasks st)" using R ..
qed

lemma retain_less: "ni \<noteq> [] \<Longrightarrow> set ni \<subseteq> set (hd_invs h) \<Longrightarrow> length (hd_invs (retain_implied h ni)) < length (hd_invs h)"
proof -
  assume "ni \<noteq> []" "set ni \<subseteq> set (hd_invs h)"
  then obtain t where "t \<in> set ni" "t \<in> set (hd_invs h)" by (cases ni) auto
  then show ?thesis using length_filter_less [of t "hd_invs h" "\<lambda>q. q \<notin> set ni"] by (simp add: retain_implied_def)
qed

lemma inductive_iteration_cases:
  assumes "inductive_iteration sched it solver h = Some r"
  obtains st where "iteration_inv it solver h st" "list_all finished (ps_tasks st)"
    "r = (case first_unknown (concat (map task_response (ps_tasks st))) of Some e \<Rightarrow> Inl e
        | None \<Rightarrow> if ps_not_implied st = [] then Inr (True, h) else Inr (False, retain_implied h (ps_not_implied st)))"
  using assms run_checks_inv [of sched it solver h]
  by (auto simp: inductive_iteration_def split: option.splits if_splits)

lemma inductive_iteration_less:
  assumes "inductive_iteration sched it solver h = Some (Inr (False, h'))"
  shows "length (hd_invs h') < length (hd_invs h)"
proof (rule inductive_iteration_cases [OF assms])
  fix st assume "iteration_inv it solver h st"
    and "Inr (False, h') = (case first_unknown (concat (map task_response (ps_tasks st))) of Some e \<Rightarrow> Inl e
        | None \<Rightarrow> if ps_not_implied st = [] then Inr (True, h) else Inr (False, retain_implied h (ps_not_implied st)))"
  then show ?thesis by (auto simp: iteration_inv_def split: option.splits if_splits intro!: retain_less)
qed

section \<open>The fixed point\<close>

text \<open>The scheduler may behave differently in every iteration: it also sees the candidates left.\<close>

function houdini_loop ::
  "(houdini \<Rightarrow> iteration \<Rightarrow> nat) \<Rightarrow> itertools \<Rightarrow> model_solver \<Rightarrow> houdini \<Rightarrow> (houdini_error + houdini) option" where
  "houdini_loop sched it solver h =
     (case inductive_iteration (sched h) it solver h of
        None \<Rightarrow> None
      | Some (Inl e) \<Rightarrow> Some (Inl e)
      | Some (Inr (fixed, h')) \<Rightarrow> if fixed then Some (Inr h') else houdini_loop sched it solver h')"
  by pat_completeness auto
termination
  by (relation "measure (\<lambda>(sched, it, solver, h). length (hd_invs h))") (auto dest: inductive_iteration_less)

declare houdini_loop.simps [simp del]

definition houdini_infer ::
  "(houdini \<Rightarrow> iteration \<Rightarrow> nat) \<Rightarrow> itertools \<Rightarrow> model_solver \<Rightarrow> signature \<Rightarrow> invariant_assertion
   \<Rightarrow> (houdini_error + fterm list) option" where
  "houdini_infer sched it solver sig ia =
     bind_pr (initiation_filter it solver (houdini_new sig ia)) (\<lambda>h.
     bind_pr (houdini_loop sched it solver h) (\<lambda>h.
       if hd_invs h = [] \<or> hd_invs h ! 0 \<noteq> sp_x (ia_inv ia) then Some (Inl NotInductiveInv)
       else Some (Inr (hd_invs h))))"

section \<open>Modules\<close>

fun houdini_failure :: "safety_proof \<Rightarrow> houdini_error \<Rightarrow> assertion_failure" where
  "houdini_failure pf (InitInvUnknown msg) =
     \<lparr>af_loc = sp_span (sf_safety pf), af_reason = InitInv, af_error = QueryUnknown msg\<rparr>"
| "houdini_failure pf (InductiveInvUnknown msg) =
     \<lparr>af_loc = sp_span (sf_safety pf), af_reason = NotInductive, af_error = QueryUnknown msg\<rparr>"
| "houdini_failure pf NotInductiveInv =
     \<lparr>af_loc = sp_span (sf_safety pf), af_reason = NotInductive,
      af_error = QueryUnknown ''assertion not in fixed point''\<rparr>"

definition infer_proof ::
  "(houdini \<Rightarrow> iteration \<Rightarrow> nat) \<Rightarrow> itertools \<Rightarrow> model_solver \<Rightarrow> signature \<Rightarrow> destructured_module \<Rightarrow> safety_proof
   \<Rightarrow> fterm list \<times> solve_error \<Rightarrow> (fterm list \<times> solve_error) option" where
  "infer_proof sched it solver sig d pf = (\<lambda>(axioms, errors).
     map_option (\<lambda>errors. (axioms @ [sp_x (sf_safety pf)], errors))
       (case for_assert sig (dm_inits d) (dm_transitions d) axioms pf of
          Inr ia \<Rightarrow>
            map_option (\<lambda>res. case res of Inr invs \<Rightarrow> errors | Inl e \<Rightarrow> solve_error_push errors (houdini_failure pf e))
              (houdini_infer sched it solver sig ia)
        | Inl _ \<Rightarrow>
            Some (solve_error_push errors
                    \<lparr>af_loc = sp_span (sf_safety pf), af_reason = Unsupported,
                     af_error = QueryUnknown ''unsupported''\<rparr>)))"

definition infer_destructured_module ::
  "(houdini \<Rightarrow> iteration \<Rightarrow> nat) \<Rightarrow> itertools \<Rightarrow> model_solver \<Rightarrow> destructured_module \<Rightarrow> signature
   \<Rightarrow> (solve_error + unit) option" where
  "infer_destructured_module sched it solver d sig =
     map_option (\<lambda>(axioms, errors). if errors = [] then Inr () else Inl errors)
       (fold_p (infer_proof sched it solver sig d) (dm_proofs d) (dm_axioms d, []))"

definition infer_module ::
  "(houdini \<Rightarrow> iteration \<Rightarrow> nat) \<Rightarrow> itertools \<Rightarrow> model_solver \<Rightarrow> fmodule \<Rightarrow> (solve_error + unit) option" where
  "infer_module sched it solver m =
     (case extract_module m of
        Some (Inr d) \<Rightarrow> infer_destructured_module sched it solver d (mod_signature m)
      | _ \<Rightarrow> None)"

end
