(* ===== verification/Inference_Houdini_Sound.thy ===== *)
theory Inference_Houdini_Sound
  imports Inference_Houdini Verify_Lookahead
begin

text \<open>
  Houdini is sound: the invariants it returns hold initially and are preserved together by every
  step, so a module it accepts is safe.
\<close>

section \<open>Valid queries\<close>

definition candidate_ok :: "signature \<Rightarrow> fterm \<Rightarrow> bool" where
  "candidate_ok sig q \<longleftrightarrow> term_sort sig Map.empty q = Some Bool \<and> within_lookahead 0 q"

definition houdini_ok :: "houdini \<Rightarrow> bool" where
  "houdini_ok h \<longleftrightarrow> within_lookahead 0 (hd_init h) \<and> within_lookahead 1 (hd_next h)
     \<and> (\<forall>q\<in>set (hd_invs h). candidate_ok (hd_sig h) q)"

lemma lookahead_first_order: "within_lookahead n t \<Longrightarrow> first_order_new t \<noteq> None"
  by (auto simp: within_lookahead_iff first_order_new_def)

lemma lookahead_negate: "within_lookahead n t \<Longrightarrow> within_lookahead n (term_negate t)"
  by (simp add: within_lookahead_iff term_negate_def)

lemma smt_unsatD:
  assumes "smt_doc solver" and "smt_check_sat solver sig n ts = Some RespUnsat" and "\<forall>t\<in>set ts. \<exists>k. within_lookahead k t"
    and "inhabited_trace sig tr" "immutable_frame sig tr"
  shows "\<exists>t\<in>set ts. \<not> holds tr i Map.empty t"
  using assms lookahead_first_order unfolding smt_doc_def by blast

lemma not_holds_negate:
  assumes "trace_ok sig tr" "term_sort sig Map.empty q = Some Bool"
  shows "\<not> holds tr i Map.empty (term_negate q) \<longleftrightarrow> holds tr i Map.empty q"
  using teval_bool01 [OF assms(1) assign_ok_empty assms(2), of i] by (auto simp: term_negate_def)

lemma init_unsat_valid:
  assumes doc: "smt_doc (ms_solver solver)" and h: "houdini_ok h" and q: "candidate_ok (hd_sig h) q"
    and unsat: "smt_check_sat (ms_solver solver) (hd_sig h) 1 (init_query h q) = Some RespUnsat"
    and tr: "inhabited_trace (hd_sig h) tr" "immutable_frame (hd_sig h) tr" and init: "holds tr i Map.empty (hd_init h)"
  shows "holds tr i Map.empty q"
proof -
  have "\<forall>t\<in>set (init_query h q). \<exists>k. within_lookahead k t"
    using h q lookahead_negate by (auto simp: init_query_def houdini_ok_def candidate_ok_def)
  from smt_unsatD [OF doc unsat this tr, of i] init not_holds_negate [OF inhabited_trace_ok [OF tr(1)], of q] q
  show ?thesis by (auto simp: init_query_def candidate_ok_def)
qed

lemma step_unsat_valid:
  assumes doc: "smt_doc (ms_solver solver)" and h: "houdini_ok h" and q: "q \<in> set (hd_invs h)"
    and unsat: "smt_check_sat (ms_solver solver) (hd_sig h) 2 (step_query h q) = Some RespUnsat"
    and tr: "inhabited_trace (hd_sig h) tr" "immutable_frame (hd_sig h) tr"
    and pre: "\<forall>p\<in>set (hd_invs h). holds tr i Map.empty p" "holds tr i Map.empty (hd_next h)"
  shows "holds tr (Suc i) Map.empty q"
proof -
  have ok: "candidate_ok (hd_sig h) q" using h q by (simp add: houdini_ok_def)
  have "within_lookahead 1 (term_negate (next_prime (hd_sig h) q))"
    using ok lookahead_negate [OF lookahead_prime, of 0 q "hd_sig h"] by (simp add: candidate_ok_def One_nat_def)
  then have "\<forall>t\<in>set (step_query h q). \<exists>k. within_lookahead k t"
    using h by (auto simp: step_query_def houdini_ok_def candidate_ok_def)
  from smt_unsatD [OF doc unsat this tr, of i] pre have "\<not> holds tr i Map.empty (term_negate (next_prime (hd_sig h) q))"
    by (auto simp: step_query_def)
  moreover have "no_past q" using lookahead_no_past ok by (auto simp: candidate_ok_def)
  then have "teval tr i Map.empty (next_prime (hd_sig h) q) = teval tr (Suc i) Map.empty q"
    using teval_with_next [OF tr(2), of "UnaryOp Prime q" i Map.empty 0] by (simp add: next_prime_def next_normalize_def)
  ultimately show ?thesis
    using teval_bool01 [OF inhabited_trace_ok [OF tr(1)] assign_ok_empty, of q "Suc i"] ok by (auto simp: term_negate_def candidate_ok_def)
qed

section \<open>What is left at the end\<close>

lemma prune_falsified_set:
  "prune_falsified it state qs ni = Some ni' \<Longrightarrow>
     set ni' = set ni \<union> {q \<in> set qs. eval it state q = Some 0} \<and> (\<forall>q\<in>set qs. eval it state q \<noteq> None)"
  by (induction qs arbitrary: ni) (auto split: option.splits if_splits)

text \<open>A model of the initial condition that the solver returned for the check of a candidate.\<close>

definition init_cex :: "itertools \<Rightarrow> model_solver \<Rightarrow> houdini \<Rightarrow> model \<Rightarrow> bool" where
  "init_cex it solver h state \<longleftrightarrow> eval it state (hd_init h) = Some 1
     \<and> (\<exists>q\<in>set (hd_invs h). smt_check_sat (ms_solver solver) (hd_sig h) 1 (init_query h q) = Some RespSat
          \<and> ms_get_model solver (hd_sig h) 1 (init_query h q) = Some [state])"

lemma initiation_check_result:
  assumes "initiation_check it solver h q ni = Some (Inr ni')" and "q \<in> set (hd_invs h)"
  shows "set ni \<subseteq> set ni' \<and> (\<forall>t\<in>set ni' - set ni. t \<in> set (hd_invs h) \<and> (\<exists>state. init_cex it solver h state \<and> eval it state t = Some 0))
    \<and> (q \<in> set ni' \<or> smt_check_sat (ms_solver solver) (hd_sig h) 1 (init_query h q) = Some RespUnsat)"
proof (cases "q \<in> set ni")
  case True
  with assms show ?thesis by (simp add: initiation_check_def)
next
  case False
  show ?thesis
  proof (cases "smt_check_sat (ms_solver solver) (hd_sig h) 1 (init_query h q)")
    case None
    with assms(1) False show ?thesis by (simp add: initiation_check_def Let_def)
  next
    case (Some r)
    show ?thesis
    proof (cases r)
      case RespSat
      with assms(1) False Some obtain states where states: "ms_get_model solver (hd_sig h) 1 (init_query h q) = Some states"
        "length states = 1" "eval it (states ! 0) (hd_init h) = Some 1" "eval it (states ! 0) q = Some 0"
        and prune: "prune_falsified it (states ! 0) (hd_invs h) ni = Some ni'"
        by (auto simp: initiation_check_def Let_def split: option.splits if_splits)
      have one: "states = [states ! 0]" using states(2) by (cases states) auto
      have "init_cex it solver h (states ! 0)"
        unfolding init_cex_def using states(1,3) one Some RespSat assms(2) by auto
      with prune_falsified_set [OF prune] states(4) assms(2) show ?thesis by auto
    qed (use assms(1) False Some in \<open>auto simp: initiation_check_def Let_def\<close>)
  qed
qed

lemma initiation_checks_result:
  assumes "set qs \<subseteq> set (hd_invs h)"
  shows "initiation_checks it solver h qs ni = Some (Inr ni') \<Longrightarrow> set ni \<subseteq> set ni'
    \<and> (\<forall>t\<in>set ni' - set ni. t \<in> set (hd_invs h) \<and> (\<exists>state. init_cex it solver h state \<and> eval it state t = Some 0))
    \<and> (\<forall>q\<in>set qs. q \<in> set ni' \<or> smt_check_sat (ms_solver solver) (hd_sig h) 1 (init_query h q) = Some RespUnsat)"
  using assms
proof (induction qs arbitrary: ni)
  case (Cons q qs)
  from Cons.prems(1) obtain ni1 where 1: "initiation_check it solver h q ni = Some (Inr ni1)"
    and 2: "initiation_checks it solver h qs ni1 = Some (Inr ni')" by (auto simp: bind_pr_Inr)
  from initiation_check_result [OF 1] Cons.IH [OF 2] Cons.prems(2) show ?case by auto
qed simp

lemma initiation_filter_result:
  assumes "initiation_filter it solver h = Some (Inr h')"
  shows "\<exists>ni. h' = retain_implied h ni
    \<and> (\<forall>t\<in>set ni. t \<in> set (hd_invs h) \<and> (\<exists>state. init_cex it solver h state \<and> eval it state t = Some 0))
    \<and> (\<forall>q\<in>set (hd_invs h'). smt_check_sat (ms_solver solver) (hd_sig h) 1 (init_query h q) = Some RespUnsat)"
proof -
  from assms obtain ni where "initiation_checks it solver h (hd_invs h) [] = Some (Inr ni)" and h': "h' = retain_implied h ni"
    by (auto simp: initiation_filter_def bind_pr_Inr)
  from initiation_checks_result [OF subset_refl this(1)] show ?thesis
    unfolding h' by (intro exI [of _ ni]) (auto simp: retain_implied_def)
qed

lemma first_unknown_None: "first_unknown rs = None \<Longrightarrow> r \<in> set rs \<Longrightarrow> r = RespSat \<or> r = RespUnsat"
  by (induction rs rule: first_unknown.induct) auto

text \<open>One iteration: at the fixed point every check was answered \<open>unsat\<close>; otherwise refuted candidates go.\<close>

lemma inductive_iteration_result:
  assumes "inductive_iteration sched it solver h = Some (Inr (fixed, h'))"
  shows "if fixed then h' = h \<and> (\<forall>q\<in>set (hd_invs h). smt_check_sat (ms_solver solver) (hd_sig h) 2 (step_query h q) = Some RespUnsat)
    else \<exists>ni. h' = retain_implied h ni \<and> (\<forall>t\<in>set ni. t \<in> set (hd_invs h) \<and> refuted it solver h t)"
proof (rule inductive_iteration_cases [OF assms])
  fix st
  assume inv: "iteration_inv it solver h st" and fin: "list_all finished (ps_tasks st)"
    and r: "Inr (fixed, h') = (case first_unknown (concat (map task_response (ps_tasks st))) of Some e \<Rightarrow> Inl e
        | None \<Rightarrow> if ps_not_implied st = [] then Inr (True, h) else Inr (False, retain_implied h (ps_not_implied st)))"
  then have none: "first_unknown (concat (map task_response (ps_tasks st))) = None" by (auto split: option.splits)
  show ?thesis
  proof (cases "ps_not_implied st = []")
    case True
    with r none have "fixed" "h' = h" by auto
    moreover have "smt_check_sat (ms_solver solver) (hd_sig h) 2 (step_query h q) = Some RespUnsat" if "q \<in> set (hd_invs h)" for q
    proof -
      from that obtain i where i: "i < length (hd_invs h)" "hd_invs h ! i = q" by (auto simp: in_set_conv_nth)
      have all: "list_all2 (task_inv it solver h []) (hd_invs h) (ps_tasks st)" using inv True by (simp add: iteration_inv_def)
      have len: "i < length (ps_tasks st)" using list_all2_lengthD [OF all] i(1) by simp
      have T: "task_inv it solver h [] q (ps_tasks st ! i)" using list_all2_nthD [OF all i(1)] i(2) by simp
      have "finished (ps_tasks st ! i)" using fin len by (simp add: list_all_length)
      then obtain o' where o': "ps_tasks st ! i = Finished o'" by (auto simp: finished_def split: check_task.splits)
      with T obtain r' where r': "o' = Some r'" by (cases o') auto
      have "r' \<in> set (concat (map task_response (ps_tasks st)))"
        using nth_mem [OF len] o' r' by force
      from first_unknown_None [OF none this] T o' r' show ?thesis by auto
    qed
    ultimately show ?thesis by simp
  next
    case False
    with r none inv show ?thesis by (auto simp: iteration_inv_def)
  qed
qed

lemma houdini_ok_retain: "houdini_ok h \<Longrightarrow> houdini_ok (retain_implied h ni)"
  by (auto simp: houdini_ok_def retain_implied_def)

lemma retain_simps [simp]:
  "hd_sig (retain_implied h ni) = hd_sig h" "hd_init (retain_implied h ni) = hd_init h"
  "hd_next (retain_implied h ni) = hd_next h" "set (hd_invs (retain_implied h ni)) = set (hd_invs h) - set ni"
  by (auto simp: retain_implied_def)

lemma houdini_loop_result:
  "houdini_loop sched it solver h = Some (Inr h') \<Longrightarrow>
     hd_sig h' = hd_sig h \<and> hd_init h' = hd_init h \<and> hd_next h' = hd_next h \<and> set (hd_invs h') \<subseteq> set (hd_invs h)
     \<and> (\<forall>q\<in>set (hd_invs h'). smt_check_sat (ms_solver solver) (hd_sig h) 2 (step_query h' q) = Some RespUnsat)"
proof (induction sched it solver h rule: houdini_loop.induct)
  case (1 sched it solver h)
  from 1(2) obtain fixed h1 where it1: "inductive_iteration (sched h) it solver h = Some (Inr (fixed, h1))"
    and rest: "if fixed then h' = h1 else houdini_loop sched it solver h1 = Some (Inr h')"
    by (auto simp: houdini_loop.simps [of sched it solver h] split: option.splits sum.splits if_splits)
  note R = inductive_iteration_result [OF it1]
  show ?case
  proof (cases fixed)
    case True
    with R rest show ?thesis by simp
  next
    case False
    with R obtain ni where h1: "h1 = retain_implied h ni" by auto
    from 1(1) [OF it1 refl refl False] rest False show ?thesis by (auto simp: h1)
  qed
qed

section \<open>Soundness\<close>

lemma houdini_infer_result:
  assumes "houdini_infer sched it solver sig ia = Some (Inr invs)"
  obtains h where "hd_sig h = sig" "hd_init h = ia_init ia" "hd_next h = ia_next ia" "hd_invs h = invs"
    "set invs \<subseteq> sp_x ` set (ia_invariants ia)" "invs \<noteq> []" "invs ! 0 = sp_x (ia_inv ia)"
    "\<forall>q\<in>set invs. smt_check_sat (ms_solver solver) sig 1 [ia_init ia, term_negate q] = Some RespUnsat"
    "\<forall>q\<in>set invs. smt_check_sat (ms_solver solver) sig 2 (step_query h q) = Some RespUnsat"
proof -
  from assms obtain h1 h where init: "initiation_filter it solver (houdini_new sig ia) = Some (Inr h1)"
    and loop: "houdini_loop sched it solver h1 = Some (Inr h)"
    and fin: "invs = hd_invs h" "hd_invs h \<noteq> []" "hd_invs h ! 0 = sp_x (ia_inv ia)"
    by (auto simp: houdini_infer_def bind_pr_Inr split: if_splits)
  from initiation_filter_result [OF init] obtain ni where h1: "h1 = retain_implied (houdini_new sig ia) ni"
    and unsat: "\<forall>q\<in>set (hd_invs h1). smt_check_sat (ms_solver solver) sig 1 [ia_init ia, term_negate q] = Some RespUnsat"
    by (auto simp: init_query_def houdini_new_def)
  have new: "hd_sig (houdini_new sig ia) = sig" "hd_init (houdini_new sig ia) = ia_init ia"
    "hd_next (houdini_new sig ia) = ia_next ia" "set (hd_invs (houdini_new sig ia)) = sp_x ` set (ia_invariants ia)"
    by (auto simp: houdini_new_def ia_invariants_def)
  note L = houdini_loop_result [OF loop]
  show thesis
    by (rule that [of h]) (use L unsat fin new in \<open>auto simp: h1\<close>)
qed

text \<open>The invariants hold along every execution, and the asserted one is among them.\<close>

lemma houdini_infer_sound:
  assumes doc: "smt_doc (ms_solver solver)" and ok: "houdini_ok (houdini_new sig ia)"
    and infer: "houdini_infer sched it solver sig ia = Some (Inr invs)"
    and tr: "inhabited_trace sig tr" "immutable_frame sig tr"
    and init: "holds tr 0 Map.empty (ia_init ia)" and step: "\<And>j. holds tr j Map.empty (ia_next ia)"
  shows "sp_x (ia_inv ia) \<in> set invs \<and> (\<forall>q\<in>set invs. holds tr j Map.empty q)"
proof -
  from infer obtain h where h: "hd_sig h = sig" "hd_init h = ia_init ia" "hd_next h = ia_next ia" "hd_invs h = invs"
    and sub: "set invs \<subseteq> sp_x ` set (ia_invariants ia)" and mem: "invs \<noteq> []" "invs ! 0 = sp_x (ia_inv ia)"
    and U: "\<forall>q\<in>set invs. smt_check_sat (ms_solver solver) sig 1 [ia_init ia, term_negate q] = Some RespUnsat"
      "\<forall>q\<in>set invs. smt_check_sat (ms_solver solver) sig 2 (step_query h q) = Some RespUnsat"
    by (rule houdini_infer_result)
  have hok: "houdini_ok h" using ok sub h by (auto simp: houdini_ok_def houdini_new_def ia_invariants_def)
  have tr': "inhabited_trace (hd_sig h) tr" "immutable_frame (hd_sig h) tr" using tr h(1) by simp_all
  have "holds tr 0 Map.empty q" if "q \<in> set invs" for q
    by (rule init_unsat_valid [OF doc hok _ _ tr']) (use that U(1) h init hok in \<open>auto simp: init_query_def houdini_ok_def\<close>)
  moreover have "holds tr (Suc i) Map.empty q" if "q \<in> set invs" "\<forall>p\<in>set invs. holds tr i Map.empty p" for q i
    by (rule step_unsat_valid [OF doc hok _ _ tr']) (use that U(2) h step in simp_all)
  ultimately have "\<forall>q\<in>set invs. holds tr j Map.empty q" by (induction j) blast+
  with mem show ?thesis using nth_mem [of 0 invs] by auto
qed

lemma for_assert_ok:
  assumes d: "extract_module m = Some (Inr d)" and pf: "pf \<in> set (dm_proofs d)"
    and srt: "\<forall>f\<in>insert (sf_safety pf) (set (sf_invariants pf)). term_sort (mod_signature m) Map.empty (sp_x f) = Some Bool"
    and ia: "for_assert (mod_signature m) (dm_inits d) (dm_transitions d) axioms pf = Inr ia"
  shows "houdini_ok (houdini_new (mod_signature m) ia)"
proof -
  note un = extract_module_unrollings [OF d]
  have ia_eq: "ia_init ia = term_and (dm_inits d)" "ia_next ia = next_normalize (mod_signature m) (term_and (dm_transitions d))"
    "ia_inv ia = sf_safety pf" "ia_proof_invs ia = sf_invariants pf" using ia by (auto simp: for_assert_def)
  have "within_lookahead 0 (term_and (dm_inits d))"
    by (rule lookahead_and) (use un in \<open>auto simp: within_lookahead_def\<close>)
  moreover have "within_lookahead 1 (term_and (dm_transitions d))"
    by (rule lookahead_and) (use un in \<open>auto simp: within_lookahead_def\<close>)
  then have "within_lookahead 1 (next_normalize (mod_signature m) (term_and (dm_transitions d)))"
    using with_next_unrolling [of _ _ 0 "mod_signature m" "{}"]
    unfolding within_lookahead_iff next_normalize_def by (metis add_0_right le_trans)
  moreover have "within_lookahead 0 (sp_x f)" if "f \<in> insert (sf_safety pf) (set (sf_invariants pf))" for f
    using un pf that by (fastforce simp: within_lookahead_def)
  ultimately show ?thesis
    using srt by (auto simp: houdini_ok_def houdini_new_def candidate_ok_def ia_eq)
qed

lemma infer_proof_Some:
  assumes "infer_proof sched it solver sig d pf (axioms, errors) = Some (axioms', errors')"
  obtains ia r where "for_assert sig (dm_inits d) (dm_transitions d) axioms pf = Inr ia"
    and "houdini_infer sched it solver sig ia = Some r"
    and "errors' = (case r of Inr invs \<Rightarrow> errors | Inl e \<Rightarrow> solve_error_push errors (houdini_failure pf e))"
  using assms by (auto simp: infer_proof_def for_assert_def)

lemma infer_proofs_errors:
  "fold_p (infer_proof sched it solver sig d) pfs (axioms, errors) = Some (axioms', []) \<Longrightarrow> errors = []"
proof (induction pfs arbitrary: axioms errors)
  case (Cons pf pfs)
  then obtain axioms1 errors1 where
    first: "infer_proof sched it solver sig d pf (axioms, errors) = Some (axioms1, errors1)"
    and rest: "fold_p (infer_proof sched it solver sig d) pfs (axioms1, errors1) = Some (axioms', [])"
    by (auto split: option.splits)
  show ?case
    by (rule infer_proof_Some [OF first])
      (use Cons.IH [OF rest] in \<open>auto simp: solve_error_push_def split: sum.splits\<close>)
qed simp

text \<open>When a run over all proofs ends without errors, every proof was answered with invariants.\<close>

lemma infer_proofs_each:
  "\<lbrakk> fold_p (infer_proof sched it solver sig d) pfs (axioms, errors) = Some (axioms', []); pf \<in> set pfs \<rbrakk>
   \<Longrightarrow> \<exists>ax ia invs. for_assert sig (dm_inits d) (dm_transitions d) ax pf = Inr ia
        \<and> houdini_infer sched it solver sig ia = Some (Inr invs)"
proof (induction pfs arbitrary: axioms errors)
  case (Cons p pfs)
  from Cons.prems(1) obtain axioms1 errors1 where
    first: "infer_proof sched it solver sig d p (axioms, errors) = Some (axioms1, errors1)"
    and rest: "fold_p (infer_proof sched it solver sig d) pfs (axioms1, errors1) = Some (axioms', [])"
    by (auto split: option.splits)
  show ?case
  proof (cases "pf \<in> set pfs")
    case True
    with Cons.IH [OF rest] show ?thesis by blast
  next
    case False
    with Cons.prems(2) have pf: "pf = p" by simp
    from first obtain ia r where ia: "for_assert sig (dm_inits d) (dm_transitions d) axioms p = Inr ia"
      and r: "houdini_infer sched it solver sig ia = Some r"
      and errors: "errors1 = (case r of Inr invs \<Rightarrow> errors | Inl e \<Rightarrow> solve_error_push errors (houdini_failure p e))"
      by (rule infer_proof_Some)
    have "errors1 = []" by (rule infer_proofs_errors [OF rest])
    with errors have "\<exists>invs. r = Inr invs" by (cases r) (simp_all add: solve_error_push_def)
    with ia r show ?thesis unfolding pf by blast
  qed
qed simp

text \<open>C9: Houdini is sound: whatever order the parallel checks run in, if \<open>infer_module\<close> answers \<open>Ok\<close>, every
  trace that has an element of every sort, keeps immutable symbols fixed and satisfies the assumptions of the
  module satisfies its assertions, provided the solver is right when it answers \<open>unsat\<close> (over non-empty sorts, as
  in SMT-LIB) and the safety properties and invariants are well-sorted.\<close>

theorem infer_module_sound:
  assumes doc: "smt_doc (ms_solver solver)" and ok: "infer_module sched it solver m = Some (Inr ())"
    and d: "extract_module m = Some (Inr d)"
    and srt: "\<forall>pf\<in>set (dm_proofs d). \<forall>f\<in>insert (sf_safety pf) (set (sf_invariants pf)).
      term_sort (mod_signature m) Map.empty (sp_x f) = Some Bool"
    and tr: "inhabited_trace (mod_signature m) tr" "immutable_frame (mod_signature m) tr" "statements_assumed tr m"
  shows "statements_asserted tr m"
proof -
  let ?sig = "mod_signature m"
  note mean = extract_module_statements [OF d tr(2)]
  from mean tr(3) have sys: "\<forall>t\<in>set (dm_inits d). holds tr 0 Map.empty t" "\<forall>j. \<forall>t\<in>set (dm_transitions d). holds tr j Map.empty t"
    by (auto simp: system_trace_def)
  from ok d obtain axioms where run: "fold_p (infer_proof sched it solver ?sig d) (dm_proofs d) (dm_axioms d, []) = Some (axioms, [])"
    by (auto simp: infer_module_def infer_destructured_module_def split: if_splits)
  have past: "no_past (term_and (dm_transitions d))"
    using lookahead_no_past [OF lookahead_and [of "dm_transitions d" 1]] extract_module_unrollings [OF d]
    by (auto simp: within_lookahead_def)
  have "holds tr j Map.empty (sp_x (sf_safety pf))" if pf: "pf \<in> set (dm_proofs d)" for pf j
  proof -
    from infer_proofs_each [OF run pf] obtain ax ia invs
      where ia: "for_assert ?sig (dm_inits d) (dm_transitions d) ax pf = Inr ia"
        and infer: "houdini_infer sched it solver ?sig ia = Some (Inr invs)" by blast
    have ia_eq: "ia_init ia = term_and (dm_inits d)" "ia_inv ia = sf_safety pf"
      "ia_next ia = next_normalize ?sig (term_and (dm_transitions d))" using ia by (auto simp: for_assert_def)
    have init: "holds tr 0 Map.empty (ia_init ia)" using sys(1) by (simp add: ia_eq sem_simps)
    have step: "holds tr j Map.empty (ia_next ia)" for j
      unfolding ia_eq holds_next_normalize [OF tr(2) past] using sys(2) by (simp add: sem_simps)
    have srt': "\<forall>f\<in>insert (sf_safety pf) (set (sf_invariants pf)). term_sort ?sig Map.empty (sp_x f) = Some Bool"
      using srt pf by blast
    from houdini_infer_sound [OF doc for_assert_ok [OF d pf srt' ia] infer tr(1,2) init step, of j]
    show ?thesis by (auto simp: ia_eq)
  qed
  with mean show ?thesis by blast
qed

text \<open>A solver that only recognises lists with a formula and its negation.\<close>

lemma negated_pair:
  assumes "x \<in> set ts" "term_negate x \<in> set ts"
  shows "\<exists>t\<in>set ts. \<not> holds tr i Map.empty t"
proof (cases "holds tr i Map.empty x")
  case True
  then have "\<not> holds tr i Map.empty (term_negate x)" by (simp add: term_negate_def)
  with assms(2) show ?thesis by blast
qed (use assms(1) in blast)

definition pair_solver :: model_solver where
  "pair_solver = \<lparr>ms_solver = \<lparr>smt_check_sat = (\<lambda>sig n ts. Some (
       if list_ex (\<lambda>x. term_negate x \<in> set ts) ts then RespUnsat else RespUnknown ''incomplete'')),
     smt_minimal_model = (\<lambda>_ _ _. None)\<rparr>, ms_get_model = (\<lambda>sig n ts. None)\<rparr>"

lemma pair_solver_doc: "smt_doc (ms_solver pair_solver)"
  unfolding smt_doc_def
proof (intro allI impI)
  fix sig n ts tr i
  assume "smt_check_sat (ms_solver pair_solver) sig n ts = Some RespUnsat"
  then obtain x where "x \<in> set ts" "term_negate x \<in> set ts" by (auto simp: pair_solver_def list_ex_iff split: if_splits)
  then show "\<exists>t\<in>set ts. \<not> holds tr i Map.empty t" by (rule negated_pair)
qed

theorem infer_module_sound_witness:
  "infer_module (\<lambda>_ _. 0) itertools_ref pair_solver invariant_module = Some (Inr ())
   \<and> statements_asserted (pq_trace\<lparr>tr_fun := \<lambda>_ _ _. 1\<rparr>) invariant_module"
proof -
  let ?tr = "pq_trace\<lparr>tr_fun := \<lambda>_ _ _. 1\<rparr>"
  have ok: "infer_module (\<lambda>_ _. 0) itertools_ref pair_solver invariant_module = Some (Inr ())" by code_simp
  have tr: "inhabited_trace (mod_signature invariant_module) ?tr" "immutable_frame (mod_signature invariant_module) ?tr"
    "statements_assumed ?tr invariant_module"
    by (auto simp: inhabited_trace_def trace_ok_def immutable_frame_def pq_trace_def statements_assumed_def
      invariant_module_def pq_sig_def)
  obtain d where d: "extract_module invariant_module = Some (Inr d)"
    using ok by (auto simp: infer_module_def split: option.splits sum.splits)
  have srt: "case extract_module invariant_module of Some (Inr d) \<Rightarrow> list_all (\<lambda>pf. list_all
      (\<lambda>f. term_sort (mod_signature invariant_module) Map.empty (sp_x f) = Some Bool) (sf_safety pf # sf_invariants pf)) (dm_proofs d)
    | _ \<Rightarrow> False" by code_simp
  then have "\<forall>pf\<in>set (dm_proofs d). \<forall>f\<in>insert (sf_safety pf) (set (sf_invariants pf)).
      term_sort (mod_signature invariant_module) Map.empty (sp_x f) = Some Bool" using d by (simp add: list_all_iff)
  from infer_module_sound [OF pair_solver_doc ok d this tr] ok show ?thesis by blast
qed

end
