(* ===== verification/Inference_Houdini_Greatest.thy ===== *)
theory Inference_Houdini_Greatest
  imports Inference_Houdini_Sound
begin

text \<open>
  Houdini returns the greatest inductive part of its candidates, and always returns: candidates are
  only dropped when a model of the solver refutes them.
\<close>

section \<open>Models as states of traces\<close>

lemma unrolling_zero: "term_unrolling t = Some (Finite 0) \<Longrightarrow> no_temporal t"
proof (induction t)
  case (App f p xs)
  then show ?case using max_unrolling_Finite [of "map term_unrolling xs" 0]
    by (auto simp: bitand_p_Finite list_all_iff)
next
  case (UnaryOp op x)
  then show ?case using map_unrolling_add_Finite [of 1 "term_unrolling x" 0]
    by (cases op) (simp_all del: map_option_eq_Some)
next
  case (BinOp op x y)
  then show ?case by (cases op) (auto simp: bitand_p_Finite)
next
  case (NAryOp op xs)
  then show ?case using max_unrolling_Finite [of "map term_unrolling xs" 0] by (auto simp: list_all_iff)
qed (auto simp: bitand_p_Finite)

lemma lookahead_zero: "within_lookahead 0 t \<Longrightarrow> no_temporal t"
  using unrolling_zero by (auto simp: within_lookahead_iff)

definition state_in_trace :: "signature \<Rightarrow> fo_trace \<Rightarrow> nat \<Rightarrow> model \<Rightarrow> bool" where
  "state_in_trace sig tr i mo \<longleftrightarrow> model_ok mo \<and> m_signature mo = sig
     \<and> tr_card (model_trace mo) = tr_card tr \<and> tr_fun (model_trace mo) 0 = tr_fun tr i"

lemma teval_state:
  "no_temporal t \<Longrightarrow> tr_card tr' = tr_card tr \<Longrightarrow> tr_fun tr' 0 = tr_fun tr i \<Longrightarrow> teval tr' 0 a t = teval tr i a t"
proof (induction t arbitrary: a)
  case (App f p xs)
  then have "map (teval tr' 0 a) xs = map (teval tr i a) xs" by (auto simp: list_all_iff)
  with App.prems show ?case by (simp del: map_eq_conv)
next
  case (BinOp op x y)
  then show ?case by (cases op) simp_all
next
  case (NAryOp op xs)
  then show ?case by (cases op) (auto simp: list_all_iff)
qed (simp_all split: option.split)

text \<open>The documented behaviour of the solver when it answers \<open>sat\<close>: it has a model, whose states are the
  first ones of a trace that satisfies the formulas.\<close>

definition get_model_doc :: "model_solver \<Rightarrow> bool" where
  "get_model_doc solver \<longleftrightarrow> (\<forall>sig n ts. smt_check_sat (ms_solver solver) sig (n + 1) ts = Some RespSat
     \<longrightarrow> (\<forall>t\<in>set ts. within_lookahead n t) \<longrightarrow> (\<exists>ms tr. ms_get_model solver sig (n + 1) ts = Some ms \<and> length ms = n + 1
       \<and> inhabited_trace sig tr \<and> immutable_frame sig tr \<and> (\<forall>t\<in>set ts. holds tr 0 Map.empty t)
       \<and> (\<forall>i\<le>n. state_in_trace sig tr i (ms ! i))))"

lemma get_modelD:
  assumes "get_model_doc solver" and "smt_check_sat (ms_solver solver) sig m ts = Some RespSat" and "m = n + 1"
    and "\<forall>t\<in>set ts. within_lookahead n t"
  shows "\<exists>ms tr. ms_get_model solver sig m ts = Some ms \<and> length ms = m
    \<and> inhabited_trace sig tr \<and> immutable_frame sig tr \<and> (\<forall>t\<in>set ts. holds tr 0 Map.empty t)
    \<and> (\<forall>i\<le>n. state_in_trace sig tr i (ms ! i))"
  using assms unfolding get_model_doc_def by blast

lemma state_eval:
  assumes "itertools_doc it" and "state_in_trace sig tr i mo" and "term_sort sig Map.empty q = Some Bool" and "within_lookahead 0 q"
  shows "eval it mo q = Some (teval tr i Map.empty q)"
proof -
  note nt = lookahead_zero [OF assms(4)]
  have "eval it mo q = Some (teval (model_trace mo) 0 Map.empty q)"
    unfolding eval_def
    by (rule eval_assign_teval [OF assms(1) _ _ nt assign_ok_empty]) (use assms(2,3) in \<open>auto simp: state_in_trace_def\<close>)
  also have "teval (model_trace mo) 0 Map.empty q = teval tr i Map.empty q"
    by (rule teval_state [OF nt]) (use assms(2) in \<open>simp_all add: state_in_trace_def\<close>)
  finally show ?thesis .
qed

text \<open>The models of the two queries.\<close>

lemma init_model:
  assumes doc: "get_model_doc solver" and h: "houdini_ok h" and q: "candidate_ok (hd_sig h) q"
    and sat: "smt_check_sat (ms_solver solver) (hd_sig h) 1 (init_query h q) = Some RespSat"
  shows "\<exists>state tr. ms_get_model solver (hd_sig h) 1 (init_query h q) = Some [state]
    \<and> inhabited_trace (hd_sig h) tr \<and> immutable_frame (hd_sig h) tr \<and> holds tr 0 Map.empty (hd_init h) \<and> \<not> holds tr 0 Map.empty q
    \<and> state_in_trace (hd_sig h) tr 0 state"
proof -
  have look: "\<forall>t\<in>set (init_query h q). within_lookahead 0 t"
    using h q lookahead_negate by (auto simp: init_query_def houdini_ok_def candidate_ok_def)
  from get_modelD [OF doc sat _ look]
  obtain ms tr where ms: "ms_get_model solver (hd_sig h) 1 (init_query h q) = Some ms" "length ms = 1"
    and tr: "inhabited_trace (hd_sig h) tr" "immutable_frame (hd_sig h) tr" "\<forall>t\<in>set (init_query h q). holds tr 0 Map.empty t"
      "state_in_trace (hd_sig h) tr 0 (ms ! 0)" by auto
  have "ms = [ms ! 0]" using ms(2) by (cases ms) auto
  moreover have "\<not> holds tr 0 Map.empty q" using tr(3) by (auto simp: init_query_def term_negate_def)
  ultimately show ?thesis using ms(1) tr by (intro exI [of _ "ms ! 0"] exI [of _ tr]) (auto simp: init_query_def)
qed

lemma step_model:
  assumes doc: "get_model_doc solver" and h: "houdini_ok h" and q: "q \<in> set (hd_invs h)"
    and sat: "smt_check_sat (ms_solver solver) (hd_sig h) 2 (step_query h q) = Some RespSat"
  shows "\<exists>states tr. ms_get_model solver (hd_sig h) 2 (step_query h q) = Some states \<and> length states = 2
    \<and> inhabited_trace (hd_sig h) tr \<and> immutable_frame (hd_sig h) tr \<and> (\<forall>p\<in>set (hd_invs h). holds tr 0 Map.empty p)
    \<and> holds tr 0 Map.empty (hd_next h) \<and> \<not> holds tr 1 Map.empty q \<and> state_in_trace (hd_sig h) tr 1 (states ! 1)"
proof -
  have ok: "candidate_ok (hd_sig h) q" using h q by (simp add: houdini_ok_def)
  have "within_lookahead 1 (term_negate (next_prime (hd_sig h) q))"
    using ok lookahead_negate [OF lookahead_prime, of 0 q "hd_sig h"] by (simp add: candidate_ok_def One_nat_def)
  moreover have "within_lookahead 1 p" if "p \<in> set (hd_invs h)" for p
    using h that lookahead_mono [of 0 p 1] by (simp add: houdini_ok_def candidate_ok_def)
  ultimately have look: "\<forall>t\<in>set (step_query h q). within_lookahead 1 t"
    using h by (auto simp: step_query_def houdini_ok_def)
  from get_modelD [OF doc sat _ look]
  obtain ms tr where ms: "ms_get_model solver (hd_sig h) 2 (step_query h q) = Some ms" "length ms = 2"
    and tr: "inhabited_trace (hd_sig h) tr" "immutable_frame (hd_sig h) tr" "\<forall>t\<in>set (step_query h q). holds tr 0 Map.empty t"
      "state_in_trace (hd_sig h) tr 1 (ms ! 1)" by auto
  have "no_past q" using lookahead_no_past ok by (auto simp: candidate_ok_def)
  then have "holds tr 0 Map.empty (next_prime (hd_sig h) q) \<longleftrightarrow> holds tr 1 Map.empty q"
    using holds_next_prime [OF tr(2), of q 0] by (simp add: One_nat_def)
  then have "\<not> holds tr 1 Map.empty q" using tr(3) by (auto simp: step_query_def term_negate_def)
  then show ?thesis using ms tr by (intro exI [of _ ms] exI [of _ tr]) (auto simp: step_query_def)
qed

section \<open>The greatest inductive part\<close>

text \<open>A set of state formulas is an inductive part when the initial condition implies all of them and
  every step preserves them together, on all traces with an element of every sort.\<close>

definition inductive_part :: "signature \<Rightarrow> fterm \<Rightarrow> fterm \<Rightarrow> fterm set \<Rightarrow> bool" where
  "inductive_part sig init step S \<longleftrightarrow> (\<forall>tr i. inhabited_trace sig tr \<longrightarrow> immutable_frame sig tr \<longrightarrow>
     (holds tr i Map.empty init \<longrightarrow> (\<forall>q\<in>S. holds tr i Map.empty q))
     \<and> ((\<forall>q\<in>S. holds tr i Map.empty q) \<longrightarrow> holds tr i Map.empty step \<longrightarrow> (\<forall>q\<in>S. holds tr (Suc i) Map.empty q)))"

lemma inductive_partD:
  assumes "inductive_part sig init step S" "inhabited_trace sig tr" "immutable_frame sig tr" "q \<in> S"
  shows "holds tr i Map.empty init \<Longrightarrow> holds tr i Map.empty q"
    and "\<forall>p\<in>S. holds tr i Map.empty p \<Longrightarrow> holds tr i Map.empty step \<Longrightarrow> holds tr (Suc i) Map.empty q"
  using assms unfolding inductive_part_def by blast+

text \<open>Candidates of an inductive part are never dropped.\<close>

lemma init_cex_keeps:
  assumes it: "itertools_doc it" and doc: "get_model_doc solver" and h: "houdini_ok h"
    and S: "inductive_part (hd_sig h) (hd_init h) (hd_next h) S" "q \<in> S" "candidate_ok (hd_sig h) q"
    and cex: "init_cex it solver h state"
  shows "eval it state q \<noteq> Some 0"
proof -
  from cex obtain p where p: "p \<in> set (hd_invs h)"
    and sat: "smt_check_sat (ms_solver solver) (hd_sig h) 1 (init_query h p) = Some RespSat"
    and state: "ms_get_model solver (hd_sig h) 1 (init_query h p) = Some [state]"
    unfolding init_cex_def by blast
  have "candidate_ok (hd_sig h) p" using h p by (simp add: houdini_ok_def)
  from init_model [OF doc h this sat] state obtain tr where tr: "inhabited_trace (hd_sig h) tr" "immutable_frame (hd_sig h) tr"
    "holds tr 0 Map.empty (hd_init h)" "state_in_trace (hd_sig h) tr 0 state" by auto
  from inductive_partD(1) [OF S(1) tr(1,2) S(2) tr(3)] state_eval [OF it tr(4), of q] S(3)
  show ?thesis by (simp add: candidate_ok_def)
qed

lemma refuted_not_inductive:
  assumes it: "itertools_doc it" and doc: "get_model_doc solver" and h: "houdini_ok h"
    and S: "inductive_part (hd_sig h) (hd_init h) (hd_next h) S" "S \<subseteq> set (hd_invs h)" "q \<in> S"
  shows "\<not> refuted it solver h q"
proof
  assume "refuted it solver h q"
  then obtain p states where p: "p \<in> set (hd_invs h)"
    and sat: "smt_check_sat (ms_solver solver) (hd_sig h) 2 (step_query h p) = Some RespSat"
    and states: "ms_get_model solver (hd_sig h) 2 (step_query h p) = Some states" and zero: "eval it (states ! 1) q = Some 0"
    unfolding refuted_def step_cex_def by blast
  from step_model [OF doc h p sat] states obtain tr where tr: "inhabited_trace (hd_sig h) tr" "immutable_frame (hd_sig h) tr"
    and pre: "\<forall>p\<in>set (hd_invs h). holds tr 0 Map.empty p" "holds tr 0 Map.empty (hd_next h)"
    and st: "state_in_trace (hd_sig h) tr 1 (states ! 1)" by auto
  have "candidate_ok (hd_sig h) q" using h S(2,3) by (auto simp: houdini_ok_def)
  moreover have "holds tr 1 Map.empty q"
    using inductive_partD(2) [OF S(1) tr S(3), of 0] pre S(2) by (auto simp: One_nat_def)
  ultimately show False using state_eval [OF it st, of q] zero by (simp add: candidate_ok_def)
qed

lemma initiation_filter_keeps:
  assumes "itertools_doc it" "get_model_doc solver" "houdini_ok h" and "initiation_filter it solver h = Some (Inr h')"
    and "inductive_part (hd_sig h) (hd_init h) (hd_next h) S" "S \<subseteq> set (hd_invs h)"
  shows "S \<subseteq> set (hd_invs h')"
proof
  fix q assume q: "q \<in> S"
  from initiation_filter_result [OF assms(4)] obtain ni where h': "h' = retain_implied h ni"
    and ni: "\<forall>t\<in>set ni. t \<in> set (hd_invs h) \<and> (\<exists>state. init_cex it solver h state \<and> eval it state t = Some 0)" by blast
  have "candidate_ok (hd_sig h) q" using assms(3,6) q by (auto simp: houdini_ok_def)
  from init_cex_keeps [OF assms(1-3,5) q this] ni q assms(6) show "q \<in> set (hd_invs h')" by (auto simp: h')
qed

lemma houdini_loop_keeps:
  assumes "itertools_doc it" "get_model_doc solver"
  shows "\<lbrakk> houdini_loop sched it solver h = Some (Inr h'); houdini_ok h; inductive_part (hd_sig h) (hd_init h) (hd_next h) S;
     S \<subseteq> set (hd_invs h) \<rbrakk> \<Longrightarrow> S \<subseteq> set (hd_invs h')"
  using assms
proof (induction sched it solver h rule: houdini_loop.induct)
  case (1 sched it solver h)
  from 1(2) obtain fixed h1 where it1: "inductive_iteration (sched h) it solver h = Some (Inr (fixed, h1))"
    and rest: "if fixed then h' = h1 else houdini_loop sched it solver h1 = Some (Inr h')"
    by (auto simp: houdini_loop.simps [of sched it solver h] split: option.splits sum.splits if_splits)
  note R = inductive_iteration_result [OF it1]
  show ?case
  proof (cases fixed)
    case True
    with R rest 1(5) show ?thesis by simp
  next
    case False
    with R obtain ni where h1: "h1 = retain_implied h ni" and ni: "\<forall>t\<in>set ni. t \<in> set (hd_invs h) \<and> refuted it solver h t" by auto
    have "S \<subseteq> set (hd_invs h1)"
      using refuted_not_inductive [OF 1(6,7,3,4,5)] ni 1(5) by (auto simp: h1)
    with 1(1) [OF it1 refl refl False] rest False 1(3,4,6,7) houdini_ok_retain [OF 1(3), of ni]
    show ?thesis by (simp add: h1)
  qed
qed

text \<open>The asserted invariant stays the first candidate as long as it is one.\<close>

definition first_or_gone :: "'a \<Rightarrow> 'a list \<Rightarrow> bool" where
  "first_or_gone x xs \<longleftrightarrow> x \<notin> set xs \<or> (\<exists>ys. xs = x # ys)"

lemma first_or_gone_filter: "first_or_gone x xs \<Longrightarrow> first_or_gone x (filter P xs)"
  by (auto simp: first_or_gone_def)

lemma houdini_loop_first:
  "houdini_loop sched it solver h = Some (Inr h') \<Longrightarrow> first_or_gone x (hd_invs h) \<Longrightarrow> first_or_gone x (hd_invs h')"
proof (induction sched it solver h rule: houdini_loop.induct)
  case (1 sched it solver h)
  from 1(2) obtain fixed h1 where it1: "inductive_iteration (sched h) it solver h = Some (Inr (fixed, h1))"
    and rest: "if fixed then h' = h1 else houdini_loop sched it solver h1 = Some (Inr h')"
    by (auto simp: houdini_loop.simps [of sched it solver h] split: option.splits sum.splits if_splits)
  note R = inductive_iteration_result [OF it1]
  show ?case
  proof (cases fixed)
    case True
    with R rest 1(3) show ?thesis by simp
  next
    case False
    with R obtain ni where h1: "h1 = retain_implied h ni" by auto
    have "first_or_gone x (hd_invs h1)" using first_or_gone_filter [OF 1(3)] by (simp add: h1 retain_implied_def)
    with 1(1) [OF it1 refl refl False] rest False show ?thesis by simp
  qed
qed

lemma infer_keeps:
  assumes it: "itertools_doc it" and doc: "get_model_doc solver" and ok: "houdini_ok (houdini_new sig ia)"
    and S: "inductive_part sig (ia_init ia) (ia_next ia) S" "S \<subseteq> sp_x ` set (ia_invariants ia)"
    and r: "houdini_infer sched it solver sig ia = Some r"
  shows "case r of Inr invs \<Rightarrow> S \<subseteq> set invs | Inl NotInductiveInv \<Rightarrow> sp_x (ia_inv ia) \<notin> S | Inl _ \<Rightarrow> True"
proof (cases "\<exists>h1 h. initiation_filter it solver (houdini_new sig ia) = Some (Inr h1) \<and> houdini_loop sched it solver h1 = Some (Inr h)")
  case True
  let ?new = "houdini_new sig ia"
  from True obtain h1 h where init: "initiation_filter it solver ?new = Some (Inr h1)"
    and loop: "houdini_loop sched it solver h1 = Some (Inr h)" by blast
  have new: "hd_sig ?new = sig" "hd_init ?new = ia_init ia" "hd_next ?new = ia_next ia"
    "set (hd_invs ?new) = sp_x ` set (ia_invariants ia)" "first_or_gone (sp_x (ia_inv ia)) (hd_invs ?new)"
    by (auto simp: houdini_new_def ia_invariants_def first_or_gone_def)
  from initiation_filter_result [OF init] obtain ni where h1: "h1 = retain_implied ?new ni" by blast
  have S1: "S \<subseteq> set (hd_invs h1)"
    by (rule initiation_filter_keeps [OF it doc ok init]) (use S new in simp_all)
  have "S \<subseteq> set (hd_invs h)"
    by (rule houdini_loop_keeps [OF it doc loop _ _ S1]) (use S new houdini_ok_retain [OF ok] in \<open>simp_all add: h1\<close>)
  moreover have "first_or_gone (sp_x (ia_inv ia)) (hd_invs h1)"
    using first_or_gone_filter [OF new(5)] by (simp add: h1 retain_implied_def)
  then have first: "first_or_gone (sp_x (ia_inv ia)) (hd_invs h)" by (rule houdini_loop_first [OF loop])
  moreover have "r = (if hd_invs h = [] \<or> hd_invs h ! 0 \<noteq> sp_x (ia_inv ia) then Inl NotInductiveInv else Inr (hd_invs h))"
    using r by (auto simp: houdini_infer_def init loop split: if_splits)
  ultimately show ?thesis by (auto simp: first_or_gone_def)
next
  case False
  have "initiation_filter it solver h = Some (Inl e) \<Longrightarrow> e \<noteq> NotInductiveInv" for h e
  proof -
    have "initiation_checks it solver h qs ni = Some (Inl e) \<Longrightarrow> e \<noteq> NotInductiveInv" for qs ni
      by (induction qs arbitrary: ni)
        (auto simp: initiation_check_def bind_pr_def Let_def split: option.splits sat_resp.splits sum.splits if_splits)
    then show "initiation_filter it solver h = Some (Inl e) \<Longrightarrow> e \<noteq> NotInductiveInv"
      by (auto simp: initiation_filter_def bind_pr_def split: option.splits sum.splits)
  qed
  moreover have "houdini_loop sched it solver h = Some (Inl e) \<Longrightarrow> e \<noteq> NotInductiveInv" for h e
  proof (induction sched it solver h rule: houdini_loop.induct)
    case (1 sched it solver h)
    have "first_unknown rs \<noteq> Some NotInductiveInv" for rs by (induction rs rule: first_unknown.induct) auto
    then have "inductive_iteration (sched h) it solver h \<noteq> Some (Inl NotInductiveInv)"
      by (auto simp: inductive_iteration_def split: option.splits if_splits)
    with 1 show ?case
      by (auto simp: houdini_loop.simps [of sched it solver h] split: option.splits sum.splits if_splits prod.splits)
  qed
  ultimately show ?thesis
    using False r by (auto simp: houdini_infer_def bind_pr_def split: option.splits sum.splits if_splits houdini_error.splits)
qed

section \<open>Houdini returns\<close>

text \<open>The solver answers every query, and the initial condition is Boolean.\<close>

definition solver_answers :: "model_solver \<Rightarrow> bool" where
  "solver_answers solver \<longleftrightarrow> (\<forall>sig n ts. smt_check_sat (ms_solver solver) sig n ts \<noteq> None)"

lemma solver_answersD: "solver_answers solver \<Longrightarrow> \<exists>r. smt_check_sat (ms_solver solver) sig n ts = Some r"
  by (simp add: solver_answers_def)

lemma state_evals:
  assumes "itertools_doc it" "houdini_ok h" "state_in_trace (hd_sig h) tr i state" "q \<in> set (hd_invs h)" "inhabited_trace (hd_sig h) tr"
  shows "eval it state q = Some (of_bool (holds tr i Map.empty q))"
proof -
  have q: "term_sort (hd_sig h) Map.empty q = Some Bool" "within_lookahead 0 q"
    using assms(2,4) by (simp_all add: houdini_ok_def candidate_ok_def)
  from state_eval [OF assms(1,3) q] teval_bool01 [OF inhabited_trace_ok [OF assms(5)] assign_ok_empty q(1), of i] show ?thesis by auto
qed

lemma prune_falsified_returns: "\<forall>q\<in>set qs. eval it state q \<noteq> None \<Longrightarrow> prune_falsified it state qs ni \<noteq> None"
  by (induction qs arbitrary: ni) auto

lemma initiation_check_returns:
  assumes it: "itertools_doc it" and doc: "get_model_doc solver" "solver_answers solver" and h: "houdini_ok h"
    and init: "term_sort (hd_sig h) Map.empty (hd_init h) = Some Bool" and q: "q \<in> set (hd_invs h)"
  shows "initiation_check it solver h q ni \<noteq> None"
proof (cases "smt_check_sat (ms_solver solver) (hd_sig h) 1 (init_query h q) = Some RespSat")
  case True
  have "candidate_ok (hd_sig h) q" using h q by (simp add: houdini_ok_def)
  from init_model [OF doc(1) h this True] obtain state tr
    where m: "ms_get_model solver (hd_sig h) 1 (init_query h q) = Some [state]"
      and tr: "inhabited_trace (hd_sig h) tr" "holds tr 0 Map.empty (hd_init h)" "\<not> holds tr 0 Map.empty q"
      and st: "state_in_trace (hd_sig h) tr 0 state" by blast
  note evals = state_evals [OF it h st _ tr(1)]
  have "eval it state (hd_init h) = Some 1"
    using state_eval [OF it st init] tr(2) h by (simp add: houdini_ok_def)
  moreover have "prune_falsified it state (hd_invs h) ni \<noteq> None"
    by (rule prune_falsified_returns) (simp add: evals)
  ultimately show ?thesis using True m evals [OF q] tr(3) by (auto simp: initiation_check_def Let_def)
next
  case False
  obtain r where "smt_check_sat (ms_solver solver) (hd_sig h) 1 (init_query h q) = Some r"
    using solver_answersD [OF doc(2)] by blast
  with False show ?thesis by (cases r) (auto simp: initiation_check_def Let_def)
qed

lemma initiation_filter_returns:
  assumes "itertools_doc it" "get_model_doc solver" "solver_answers solver" "houdini_ok h"
    and "term_sort (hd_sig h) Map.empty (hd_init h) = Some Bool"
  shows "initiation_filter it solver h \<noteq> None"
proof -
  have "set qs \<subseteq> set (hd_invs h) \<Longrightarrow> initiation_checks it solver h qs ni \<noteq> None" for qs ni
  proof (induction qs arbitrary: ni)
    case (Cons q qs)
    from initiation_check_returns [OF assms, of q ni] Cons.prems obtain r
      where "initiation_check it solver h q ni = Some r" by auto
    with Cons show ?case by (cases r) auto
  qed simp
  from this [of "hd_invs h" "[]"] show ?thesis by (auto simp: initiation_filter_def bind_pr_def split: sum.splits)
qed

lemma task_step_returns:
  assumes it: "itertools_doc it" and doc: "get_model_doc solver" "solver_answers solver" and h: "houdini_ok h"
    and q: "q \<in> set (hd_invs h)" and inv: "task_inv it solver h ni q tk"
  shows "task_step it solver h q tk ni \<noteq> None"
proof (cases tk)
  case Checking
  obtain r where r: "smt_check_sat (ms_solver solver) (hd_sig h) 2 (step_query h q) = Some r"
    using solver_answersD [OF doc(2)] by blast
  show ?thesis
  proof (cases "r = RespSat")
    case True
    from step_model [OF doc(1) h q] r True obtain states tr
      where m: "ms_get_model solver (hd_sig h) 2 (step_query h q) = Some states" "length states = 2"
        and tr: "inhabited_trace (hd_sig h) tr" "\<not> holds tr 1 Map.empty q" and st: "state_in_trace (hd_sig h) tr 1 (states ! 1)" by blast
    from state_evals [OF it h st q tr(1)] tr(2) m r True Checking show ?thesis by (simp add: Let_def)
  next
    case False
    with r Checking show ?thesis by (cases r) (auto simp: Let_def)
  qed
next
  case (Pruning state qs)
  show ?thesis
  proof (cases qs)
    case (Cons qq rest)
    with inv Pruning have qq: "qq \<in> set (hd_invs h)" and cex: "step_cex solver h q state" by auto
    from cex obtain states where s: "smt_check_sat (ms_solver solver) (hd_sig h) 2 (step_query h q) = Some RespSat"
      "ms_get_model solver (hd_sig h) 2 (step_query h q) = Some states" "state = states ! 1" unfolding step_cex_def by blast
    from step_model [OF doc(1) h q s(1)] s(2,3) obtain tr
      where tr: "inhabited_trace (hd_sig h) tr" and st: "state_in_trace (hd_sig h) tr 1 state" by auto
    from state_evals [OF it h st qq tr] Pruning Cons show ?thesis by simp
  qed (use Pruning in simp)
qed simp_all

lemma run_checks_returns:
  assumes it: "itertools_doc it" and doc: "get_model_doc solver" "solver_answers solver" and h: "houdini_ok h"
  shows "iteration_inv it solver h st \<Longrightarrow> run_checks sched it solver h st \<noteq> None"
  using assms
proof (induction sched it solver h st rule: run_checks.induct)
  case (1 sched it solver h st)
  show ?case
  proof (cases "list_all finished (ps_tasks st)")
    case True
    then show ?thesis by (simp add: run_checks.simps [of sched it solver h st])
  next
    case False
    let ?i = "next_task sched st"
    note N = next_task_unfinished [OF False, of sched]
    have all: "list_all2 (task_inv it solver h (ps_not_implied st)) (hd_invs h) (ps_tasks st)"
      using 1(2) by (simp add: iteration_inv_def)
    have i: "?i < length (hd_invs h)" using N(1) list_all2_lengthD [OF all] by simp
    from task_step_returns [OF 1(3-6) nth_mem [OF i] list_all2_nthD [OF all i]]
    obtain tk ni where step: "task_step it solver h (hd_invs h ! ?i) (ps_tasks st ! ?i) (ps_not_implied st) = Some (tk, ni)"
      by auto
    from 1(1) [OF False refl step refl] check_move_inv [OF move [OF N step] 1(2)] 1(3-6)
    show ?thesis by (simp add: run_checks.simps [of sched it solver h st] False step Let_def)
  qed
qed

lemma houdini_loop_returns:
  assumes "itertools_doc it" "get_model_doc solver" "solver_answers solver"
  shows "houdini_ok h \<Longrightarrow> houdini_loop sched it solver h \<noteq> None"
  using assms
proof (induction sched it solver h rule: houdini_loop.induct)
  case (1 sched it solver h)
  have "iteration_inv it solver h (start_checks h)"
    by (auto simp: iteration_inv_def start_checks_def list_all2_conv_all_nth)
  from run_checks_returns [OF 1(3,4,5,2) this, of "sched h"]
  have "inductive_iteration (sched h) it solver h \<noteq> None" by (auto simp: inductive_iteration_def split: option.splits)
  then obtain r where r: "inductive_iteration (sched h) it solver h = Some r" by blast
  show ?case
  proof (cases r)
    case (Inr x)
    obtain fixed h1 where x: "x = (fixed, h1)" by (cases x)
    show ?thesis
    proof (cases fixed)
      case False
      from inductive_iteration_result [OF r [unfolded Inr x]] False obtain ni where "h1 = retain_implied h ni" by auto
      with 1(1) [OF r Inr x [symmetric] False] houdini_ok_retain [OF 1(2)] 1(3-5) r Inr x False
      show ?thesis by (simp add: houdini_loop.simps [of sched it solver h])
    qed (use r Inr x in \<open>simp add: houdini_loop.simps [of sched it solver h]\<close>)
  qed (use r in \<open>simp add: houdini_loop.simps [of sched it solver h]\<close>)
qed

section \<open>Properties\<close>

text \<open>C10: Houdini computes the greatest inductive part of its candidates, whatever order the parallel checks
  run in: the invariants it returns are an inductive part that contains the asserted one, and contain
  every inductive part made of candidates; when it reports that the assertion is not inductive, no
  inductive part made of candidates contains it. The solver has to be right about its queries and its models,
  over non-empty sorts as in SMT-LIB, and the candidates are well-sorted state formulas (\<open>houdini_ok\<close>).\<close>

theorem houdini_greatest:
  assumes it: "itertools_doc it" and doc: "smt_doc (ms_solver solver)" "get_model_doc solver"
    and ok: "houdini_ok (houdini_new sig ia)" and r: "houdini_infer sched it solver sig ia = Some r"
  shows "case r of
      Inr invs \<Rightarrow> set invs \<subseteq> sp_x ` set (ia_invariants ia) \<and> sp_x (ia_inv ia) \<in> set invs
        \<and> inductive_part sig (ia_init ia) (ia_next ia) (set invs)
        \<and> (\<forall>S\<subseteq>sp_x ` set (ia_invariants ia). inductive_part sig (ia_init ia) (ia_next ia) S \<longrightarrow> S \<subseteq> set invs)
    | Inl NotInductiveInv \<Rightarrow>
        (\<forall>S\<subseteq>sp_x ` set (ia_invariants ia). inductive_part sig (ia_init ia) (ia_next ia) S \<longrightarrow> sp_x (ia_inv ia) \<notin> S)
    | Inl _ \<Rightarrow> True"
proof (cases r)
  case (Inl e)
  with infer_keeps [OF it doc(2) ok _ _ r] show ?thesis by (cases e) auto
next
  case (Inr invs)
  have keeps: "S \<subseteq> set invs"
    if "inductive_part sig (ia_init ia) (ia_next ia) S" "S \<subseteq> sp_x ` set (ia_invariants ia)" for S
    using infer_keeps [OF it doc(2) ok that r] by (simp add: Inr)
  from r [unfolded Inr] obtain h where h: "hd_sig h = sig" "hd_init h = ia_init ia" "hd_next h = ia_next ia" "hd_invs h = invs"
    and sub: "set invs \<subseteq> sp_x ` set (ia_invariants ia)" and mem: "invs \<noteq> []" "invs ! 0 = sp_x (ia_inv ia)"
    and U: "\<forall>q\<in>set invs. smt_check_sat (ms_solver solver) sig 1 [ia_init ia, term_negate q] = Some RespUnsat"
      "\<forall>q\<in>set invs. smt_check_sat (ms_solver solver) sig 2 (step_query h q) = Some RespUnsat"
    by (rule houdini_infer_result)
  have hok: "houdini_ok h" using ok sub h by (auto simp: houdini_ok_def houdini_new_def ia_invariants_def)
  have "inductive_part sig (ia_init ia) (ia_next ia) (set invs)"
    unfolding inductive_part_def
  proof (intro allI impI conjI ballI)
    fix tr i q assume tr: "inhabited_trace sig tr" "immutable_frame sig tr" and q: "q \<in> set invs"
    show "holds tr i Map.empty q" if "holds tr i Map.empty (ia_init ia)"
      by (rule init_unsat_valid [OF doc(1) hok, of q tr])
        (use that tr q U(1) h hok in \<open>auto simp: init_query_def houdini_ok_def\<close>)
    show "holds tr (Suc i) Map.empty q" if "\<forall>p\<in>set invs. holds tr i Map.empty p" "holds tr i Map.empty (ia_next ia)"
      by (rule step_unsat_valid [OF doc(1) hok, of q tr]) (use that tr q U(2) h in simp_all)
  qed
  with keeps sub mem show ?thesis using nth_mem [of 0 invs] by (auto simp: Inr)
qed

text \<open>C11: Houdini terminates: when the solver answers its queries (\<open>unknown\<close> is an answer) and its models
  are models of what it was asked, over non-empty sorts, \<open>infer\<close> returns for every schedule of the parallel checks;
  none of its assertions about the models fails. (The initial condition and the candidates are well-sorted.)\<close>

theorem houdini_returns:
  assumes "itertools_doc it" "get_model_doc solver" "solver_answers solver" "houdini_ok (houdini_new sig ia)"
    and "term_sort sig Map.empty (ia_init ia) = Some Bool"
  shows "\<exists>r. houdini_infer sched it solver sig ia = Some r"
proof -
  have "hd_sig (houdini_new sig ia) = sig" "hd_init (houdini_new sig ia) = ia_init ia" by (simp_all add: houdini_new_def)
  with initiation_filter_returns [OF assms(1-4)] assms(5) obtain r1
    where r1: "initiation_filter it solver (houdini_new sig ia) = Some r1" by auto
  show ?thesis
  proof (cases r1)
    case (Inr h1)
    from initiation_filter_result [OF r1 [unfolded Inr]] obtain ni where "h1 = retain_implied (houdini_new sig ia) ni" by blast
    with houdini_loop_returns [OF assms(1-3) houdini_ok_retain [OF assms(4)]] obtain r2
      where "houdini_loop sched it solver h1 = Some r2" by blast
    with r1 Inr show ?thesis by (cases r2) (auto simp: houdini_infer_def)
  qed (simp add: houdini_infer_def r1)
qed

text \<open>The axioms of the module, which the caller passes along with the assertion, are never used.\<close>

lemma houdini_ignores_axioms:
  "houdini_infer sched it solver sig (ia\<lparr>ia_assumed_inv := t\<rparr>) = houdini_infer sched it solver sig ia"
  by (simp add: houdini_infer_def houdini_new_def)

section \<open>A concrete run\<close>

text \<open>A solver that recognises lists with a formula and its negation, and knows one satisfiable query:
  \<open>p\<close> and not \<open>q\<close>, with its model. The candidates are \<open>p\<close>, which every step keeps, and \<open>q\<close>.\<close>

definition pq_model :: model where
  "pq_model = \<lparr>m_signature = pq_sig, m_universe = [],
     m_interp = [\<lparr>in_shape = [2], in_data = [1]\<rparr>, \<lparr>in_shape = [2], in_data = [0]\<rparr>]\<rparr>"

definition pq_query :: "fterm list" where
  "pq_query = [Id ''p'', term_negate (Id ''q'')]"

definition pq_solver :: model_solver where
  "pq_solver = \<lparr>ms_solver = \<lparr>smt_check_sat = (\<lambda>sig n ts. Some (
       if list_ex (\<lambda>x. term_negate x \<in> set ts) ts then RespUnsat
       else if sig = pq_sig \<and> n = 1 \<and> ts = pq_query then RespSat else RespUnknown ''incomplete'')),
     smt_minimal_model = (\<lambda>_ _ _. None)\<rparr>, ms_get_model = (\<lambda>sig n ts. Some [pq_model])\<rparr>"

definition pq_assertion :: invariant_assertion where
  "pq_assertion = \<lparr>ia_sig = pq_sig, ia_init = Id ''p'', ia_next = next_prime pq_sig (Id ''p''),
     ia_assumed_inv = term_true, ia_inv = \<lparr>sp_x = Id ''p'', sp_span = None\<rparr>,
     ia_proof_invs = [\<lparr>sp_x = Id ''q'', sp_span = None\<rparr>]\<rparr>"

lemma pq_solver_doc: "smt_doc (ms_solver pq_solver)" "get_model_doc pq_solver" "solver_answers pq_solver"
proof -
  have "\<exists>t\<in>set ts. \<not> holds tr i Map.empty t"
    if unsat: "smt_check_sat (ms_solver pq_solver) sig n ts = Some RespUnsat" for sig n ts tr i
  proof -
    from unsat obtain x where x: "x \<in> set ts" "term_negate x \<in> set ts"
      by (auto simp: pq_solver_def list_ex_iff split: if_splits)
    then show ?thesis by (rule negated_pair)
  qed
  then show "smt_doc (ms_solver pq_solver)" unfolding smt_doc_def by blast
  have ok: "model_ok pq_model" by code_simp
  have frame: "immutable_frame pq_sig (model_trace pq_model)" by (simp add: immutable_frame_def model_trace_def)
  have "holds (model_trace pq_model) 0 Map.empty t" if "t \<in> set pq_query" for t
    using that by (auto simp: pq_query_def term_negate_def model_trace_def lookup_interp_def relation_idx_def pq_model_def
      pq_sig_def interp_get_def)
  moreover have "m_signature pq_model = pq_sig" by (simp add: pq_model_def)
  moreover have "inhabited_trace pq_sig (model_trace pq_model)"
    using model_trace_ok [OF ok] by (simp add: inhabited_trace_def pq_model_def) (simp add: pq_sig_def)
  ultimately show "get_model_doc pq_solver"
    unfolding get_model_doc_def using ok frame
    by (auto simp: pq_solver_def state_in_trace_def split: if_splits intro!: exI [of _ "model_trace pq_model"])
  show "solver_answers pq_solver" by (simp add: solver_answers_def pq_solver_def)
qed

lemma pq_assertion_ok: "houdini_ok (houdini_new pq_sig pq_assertion)" "term_sort pq_sig Map.empty (ia_init pq_assertion) = Some Bool"
proof -
  have "within_lookahead 0 (Id x)" for x by (simp add: within_lookahead_iff)
  then show "houdini_ok (houdini_new pq_sig pq_assertion)"
    using lookahead_prime [of 0 "Id ''p''" pq_sig]
    by (auto simp: houdini_ok_def houdini_new_def pq_assertion_def candidate_ok_def One_nat_def pq_sig_def
        decl_of_def relation_idx_def)
  show "term_sort pq_sig Map.empty (ia_init pq_assertion) = Some Bool"
    by (simp add: pq_assertion_def pq_sig_def decl_of_def relation_idx_def)
qed

lemma pq_infer: "houdini_infer (\<lambda>_ _. 0) itertools_ref pq_solver pq_sig pq_assertion = Some (Inr [Id ''p''])"
  by code_simp

theorem houdini_greatest_witness:
  "houdini_infer (\<lambda>_ _. 0) itertools_ref pq_solver pq_sig pq_assertion = Some (Inr [Id ''p''])
   \<and> inductive_part pq_sig (Id ''p'') (next_prime pq_sig (Id ''p'')) {Id ''p''}"
  using houdini_greatest [OF itertools_doc_ref pq_solver_doc(1,2) pq_assertion_ok(1) pq_infer] pq_infer
  by (simp add: pq_assertion_def)

theorem houdini_returns_witness: "\<exists>r. houdini_infer (\<lambda>_ _. 1) itertools_ref pq_solver pq_sig pq_assertion = Some r"
  by (rule houdini_returns [OF itertools_doc_ref pq_solver_doc(2,3) pq_assertion_ok])

end
