(* ===== verification/Inference_Order.thy ===== *)
theory Inference_Order
  imports Prelude
begin

text \<open>
  Model of the orders of \<^verbatim>\<open>inference/src/subsume.rs\<close>: the trait \<^verbatim>\<open>OrderSubsumption\<close> as a record of its
  operations, its implementations as values of that record, and the laws every implementation
  satisfies. The laws are a locale; each way of building an order keeps them.
\<close>

section \<open>The trait\<close>

datatype cmp_result = LessOrd | EqualOrd | GreaterOrd

record ('o, 'b) order_ops =
  os_leq :: "'o \<Rightarrow> 'o \<Rightarrow> bool"
  os_subsumes :: "'o \<Rightarrow> 'o \<Rightarrow> bool"
  os_to_base :: "'o \<Rightarrow> 'b"
  os_from_base :: "'b \<Rightarrow> 'o"

definition leq_cmp :: "('o, 'b) order_ops \<Rightarrow> 'o \<Rightarrow> 'o \<Rightarrow> cmp_result" where
  "leq_cmp os x y = (if x = y then EqualOrd else if os_leq os x y then LessOrd else GreaterOrd)"

text \<open>\<open>iter.sorted()\<close> with \<open>Ord::cmp\<close>: a stable sort.\<close>

fun insert_by :: "('o \<Rightarrow> 'o \<Rightarrow> cmp_result) \<Rightarrow> 'o \<Rightarrow> 'o list \<Rightarrow> 'o list" where
  "insert_by cmp x [] = [x]"
| "insert_by cmp x (y # ys) = (if cmp x y = GreaterOrd then y # insert_by cmp x ys else x # y # ys)"

definition sorted_by :: "('o \<Rightarrow> 'o \<Rightarrow> cmp_result) \<Rightarrow> 'o list \<Rightarrow> 'o list" where
  "sorted_by cmp xs = foldr (insert_by cmp) xs []"

section \<open>Implementations\<close>

definition usize_order :: "(nat, nat) order_ops" where
  "usize_order = \<lparr>os_leq = (\<le>), os_subsumes = (=), os_to_base = (\<lambda>x. x), os_from_base = (\<lambda>b. b)\<rparr>"

type_synonym atom_literal = "nat \<times> bool"

text \<open>Pairs are ordered lexicographically, and false is less than true.\<close>

definition literal_order :: "(atom_literal, atom_literal) order_ops" where
  "literal_order = \<lparr>os_leq = (\<lambda>x y. fst x < fst y \<or> (fst x = fst y \<and> snd x \<le> snd y)),
     os_subsumes = (=), os_to_base = (\<lambda>x. x), os_from_base = (\<lambda>b. b)\<rparr>"

datatype 'o reversed = Reversed (unrev: 'o)

definition reversed_order :: "('o, 'b) order_ops \<Rightarrow> ('o reversed, 'b) order_ops" where
  "reversed_order os = \<lparr>os_leq = (\<lambda>x y. os_leq os (unrev y) (unrev x)),
     os_subsumes = (\<lambda>x y. os_subsumes os (unrev y) (unrev x)),
     os_to_base = (\<lambda>x. os_to_base os (unrev x)),
     os_from_base = (\<lambda>b. Reversed (os_from_base os b))\<rparr>"

definition reversed_vec :: "'o list \<Rightarrow> 'o reversed list" where
  "reversed_vec os = map Reversed (rev os)"

datatype 'o and_like = AndLike (elements: "'o list")

fun leq_slices :: "('o, 'b) order_ops \<Rightarrow> 'o list \<Rightarrow> 'o list \<Rightarrow> bool" where
  "leq_slices os and1 [] = True"
| "leq_slices os [] (first2 # rest2) = False"
| "leq_slices os (first1 # rest1) (first2 # rest2) =
     (if first1 = first2 then leq_slices os rest1 rest2 else os_leq os first1 first2)"

text \<open>The inner loop of \<open>subsumes\<close>: it gives up at the first element that is not below \<open>elem2\<close>.\<close>

fun subsumes_elem :: "('o, 'b) order_ops \<Rightarrow> 'o list \<Rightarrow> 'o \<Rightarrow> bool" where
  "subsumes_elem os [] elem2 = False"
| "subsumes_elem os (elem1 # rest) elem2 =
     (if \<not> os_leq os elem1 elem2 then False
      else if os_subsumes os elem1 elem2 then True
      else subsumes_elem os rest elem2)"

definition and_subsumes :: "('o, 'b) order_ops \<Rightarrow> 'o and_like \<Rightarrow> 'o and_like \<Rightarrow> bool" where
  "and_subsumes os x y = list_all (subsumes_elem os (elements x)) (elements y)"

definition push_minimal :: "('o, 'b) order_ops \<Rightarrow> 'o \<Rightarrow> 'o list \<Rightarrow> 'o list" where
  "push_minimal os x sq = (if list_all (\<lambda>pre. \<not> os_subsumes os pre x) sq then sq @ [x] else sq)"

definition and_from_base :: "('o, 'b) order_ops \<Rightarrow> 'b list \<Rightarrow> 'o and_like" where
  "and_from_base os bs = AndLike (fold (push_minimal os) (sorted_by (leq_cmp os) (map (os_from_base os) bs)) [])"

definition and_order :: "('o, 'b) order_ops \<Rightarrow> ('o and_like, 'b list) order_ops" where
  "and_order os = \<lparr>os_leq = (\<lambda>x y. leq_slices os (elements x) (elements y)),
     os_subsumes = and_subsumes os,
     os_to_base = (\<lambda>x. map (os_to_base os) (elements x)),
     os_from_base = and_from_base os\<rparr>"

datatype ('a, 'b) pair_like = PairLike (first_part: 'a) (second_part: 'b)

definition pair_leq :: "('a, 'b) order_ops \<Rightarrow> ('c, 'd) order_ops \<Rightarrow> ('a, 'c) pair_like \<Rightarrow> ('a, 'c) pair_like \<Rightarrow> bool" where
  "pair_leq os1 os2 x y =
     (if first_part x = first_part y then os_leq os2 (second_part x) (second_part y)
      else os_leq os1 (first_part x) (first_part y))"

definition pair_order :: "('a, 'b) order_ops \<Rightarrow> ('c, 'd) order_ops \<Rightarrow> (('a, 'c) pair_like, 'b \<times> 'd) order_ops" where
  "pair_order os1 os2 = \<lparr>os_leq = pair_leq os1 os2,
     os_subsumes = (\<lambda>x y. os_subsumes os1 (first_part x) (first_part y) \<and> os_subsumes os2 (second_part x) (second_part y)),
     os_to_base = (\<lambda>x. (os_to_base os1 (first_part x), os_to_base os2 (second_part x))),
     os_from_base = (\<lambda>b. PairLike (os_from_base os1 (fst b)) (os_from_base os2 (snd b)))\<rparr>"

text \<open>\<open>OrLike\<close>, and the formulas of literals the crate works with.\<close>

type_synonym 'o or_like = "'o reversed and_like reversed"

definition or_order :: "('o, 'b) order_ops \<Rightarrow> ('o or_like, 'b list) order_ops" where
  "or_order os = reversed_order (and_order (reversed_order os))"

abbreviation clause_order :: "(atom_literal or_like, atom_literal list) order_ops" where
  "clause_order \<equiv> or_order literal_order"

abbreviation cube_order :: "(atom_literal and_like, atom_literal list) order_ops" where
  "cube_order \<equiv> and_order literal_order"

definition cnf_order :: "(atom_literal or_like and_like, atom_literal list list) order_ops" where
  "cnf_order = and_order clause_order"

definition dnf_order :: "(atom_literal and_like or_like, atom_literal list list) order_ops" where
  "dnf_order = or_order cube_order"

definition pdnf_order :: "((atom_literal or_like, atom_literal and_like or_like) pair_like, atom_literal list \<times> atom_literal list list) order_ops" where
  "pdnf_order = pair_order clause_order dnf_order"

lemmas order_simps = order_ops.simps
lemmas order_defs = usize_order_def literal_order_def reversed_order_def and_order_def pair_order_def

section \<open>The laws\<close>

locale order_subsumption =
  fixes os :: "('o, 'b) order_ops" and okay :: "'o \<Rightarrow> bool"
  assumes leq_refl: "okay x \<Longrightarrow> os_leq os x x"
    and leq_antisym: "\<lbrakk> okay x; okay y; os_leq os x y; os_leq os y x \<rbrakk> \<Longrightarrow> x = y"
    and leq_trans: "\<lbrakk> okay x; okay y; okay z; os_leq os x y; os_leq os y z \<rbrakk> \<Longrightarrow> os_leq os x z"
    and leq_total: "\<lbrakk> okay x; okay y \<rbrakk> \<Longrightarrow> os_leq os x y \<or> os_leq os y x"
    and subsumes_refl: "okay x \<Longrightarrow> os_subsumes os x x"
    and subsumes_trans: "\<lbrakk> okay x; okay y; okay z; os_subsumes os x y; os_subsumes os y z \<rbrakk> \<Longrightarrow> os_subsumes os x z"
    and subsumes_leq: "\<lbrakk> okay x; okay y; os_subsumes os x y \<rbrakk> \<Longrightarrow> os_leq os x y"
    and from_base_wf: "okay (os_from_base os b)"
    and from_to_base: "okay x \<Longrightarrow> os_from_base os (os_to_base os x) = x"
begin

lemma subsumes_antisym: "\<lbrakk> okay x; okay y; os_subsumes os x y; os_subsumes os y x \<rbrakk> \<Longrightarrow> x = y"
  using leq_antisym subsumes_leq by blast

text \<open>Sorting with \<open>leq_cmp\<close>.\<close>

definition le_sorted :: "'o list \<Rightarrow> bool" where
  "le_sorted xs \<longleftrightarrow> list_all okay xs \<and> sorted_wrt (os_leq os) xs"

lemma set_insert_by: "set (insert_by cmp x ys) = Set.insert x (set ys)"
  by (induction ys) auto

lemma le_sorted_insert_by: "\<lbrakk> okay x; le_sorted ys \<rbrakk> \<Longrightarrow> le_sorted (insert_by (leq_cmp os) x ys)"
proof (induction ys)
  case (Cons y ys)
  show ?case
  proof (cases "leq_cmp os x y = GreaterOrd")
    case True
    then have "os_leq os y x" using leq_total [of x y] Cons.prems by (auto simp: leq_cmp_def le_sorted_def split: if_splits)
    with True Cons show ?thesis by (auto simp: le_sorted_def list_all_iff set_insert_by)
  next
    case False
    then have xy: "os_leq os x y" using Cons.prems leq_refl by (auto simp: leq_cmp_def split: if_splits)
    have "os_leq os x z" if "z \<in> set ys" for z
      using that Cons.prems xy leq_trans [of x y z] by (auto simp: le_sorted_def list_all_iff)
    with False xy Cons.prems show ?thesis by (auto simp: le_sorted_def)
  qed
qed (simp add: le_sorted_def)

lemma sorted_by_le_sorted: "list_all okay xs \<Longrightarrow> le_sorted (sorted_by (leq_cmp os) xs)"
  by (induction xs) (simp_all add: sorted_by_def le_sorted_insert_by, simp add: le_sorted_def)

lemma set_sorted_by: "set (sorted_by (leq_cmp os) xs) = set xs"
  by (induction xs) (simp_all add: sorted_by_def set_insert_by)

lemma sorted_by_id: "le_sorted xs \<Longrightarrow> sorted_by (leq_cmp os) xs = xs"
proof (induction xs)
  case (Cons x xs)
  then have "sorted_by (leq_cmp os) (x # xs) = insert_by (leq_cmp os) x xs" by (simp add: sorted_by_def le_sorted_def)
  also have "\<dots> = x # xs" using Cons.prems by (cases xs) (auto simp: le_sorted_def leq_cmp_def)
  finally show ?case .
qed (simp add: sorted_by_def)

end

section \<open>Reversed\<close>

definition reversed_okay :: "('o \<Rightarrow> bool) \<Rightarrow> 'o reversed \<Rightarrow> bool" where
  "reversed_okay okay x = okay (unrev x)"

context order_subsumption begin

lemma reversed_laws: "order_subsumption (reversed_order os) (reversed_okay okay)"
proof (rule order_subsumption.intro, unfold reversed_order_def reversed_okay_def order_ops.simps reversed.sel)
  show "x = y" if "okay (unrev x)" "okay (unrev y)" "os_leq os (unrev y) (unrev x)" "os_leq os (unrev x) (unrev y)" for x y
    using leq_antisym [OF that(1,2,4,3)] by (rule reversed.expand)
  show "Reversed (os_from_base os (os_to_base os (unrev x))) = x" if "okay (unrev x)" for x
    using from_to_base [OF that] by simp
  show "os_leq os (unrev x) (unrev x)" "os_subsumes os (unrev x) (unrev x)" if "okay (unrev x)" for x
    using leq_refl [OF that] subsumes_refl [OF that] .
  show "os_leq os (unrev z) (unrev x)"
    if "okay (unrev x)" "okay (unrev y)" "okay (unrev z)" "os_leq os (unrev y) (unrev x)" "os_leq os (unrev z) (unrev y)" for x y z
    using leq_trans [OF that(3,2,1,5,4)] .
  show "os_subsumes os (unrev z) (unrev x)"
    if "okay (unrev x)" "okay (unrev y)" "okay (unrev z)" "os_subsumes os (unrev y) (unrev x)" "os_subsumes os (unrev z) (unrev y)" for x y z
    using subsumes_trans [OF that(3,2,1,5,4)] .
  show "os_leq os (unrev y) (unrev x) \<or> os_leq os (unrev x) (unrev y)" if "okay (unrev x)" "okay (unrev y)" for x y
    using leq_total [OF that] by blast
  show "os_leq os (unrev y) (unrev x)" if "okay (unrev x)" "okay (unrev y)" "os_subsumes os (unrev y) (unrev x)" for x y
    using subsumes_leq [OF that(2,1,3)] .
  show "okay (os_from_base os b)" for b
    using from_base_wf .
qed

end

section \<open>Conjunctions\<close>

definition and_okay :: "('o, 'b) order_ops \<Rightarrow> ('o \<Rightarrow> bool) \<Rightarrow> 'o and_like \<Rightarrow> bool" where
  "and_okay os okay x \<longleftrightarrow> list_all okay (elements x)
     \<and> sorted_wrt (\<lambda>y z. os_leq os y z \<and> \<not> os_subsumes os y z) (elements x)"

context order_subsumption begin

lemma and_okay_sorted: "and_okay os okay x \<Longrightarrow> le_sorted (elements x)"
  by (auto simp: and_okay_def le_sorted_def intro: sorted_wrt_mono_rel [rotated])

lemma subsumes_elem_iff:
  "\<lbrakk> le_sorted xs; okay y \<rbrakk> \<Longrightarrow> subsumes_elem os xs y \<longleftrightarrow> (\<exists>x\<in>set xs. os_subsumes os x y)"
proof (induction xs)
  case (Cons x xs)
  show ?case
  proof (cases "os_leq os x y")
    case True
    with Cons show ?thesis by (auto simp: le_sorted_def)
  next
    case False
    have "\<not> os_subsumes os z y" if z: "z \<in> set (x # xs)" for z
    proof
      assume "os_subsumes os z y"
      with z Cons.prems have "os_leq os z y" "os_leq os x z" "okay z" "okay x"
        using subsumes_leq leq_refl by (auto simp: le_sorted_def list_all_iff)
      with False Cons.prems(2) leq_trans [of x z y] show False by blast
    qed
    with False show ?thesis by auto
  qed
qed simp

lemma and_subsumes_iff:
  assumes "and_okay os okay x" "and_okay os okay y"
  shows "and_subsumes os x y \<longleftrightarrow> (\<forall>b\<in>set (elements y). \<exists>a\<in>set (elements x). os_subsumes os a b)"
  using subsumes_elem_iff [OF and_okay_sorted [OF assms(1)]] assms(2)
  by (simp add: and_subsumes_def and_okay_def list_all_iff)

lemma leq_slices_refl: "leq_slices os xs xs"
  by (induction xs) simp_all

lemma leq_slices_antisym:
  "\<lbrakk> list_all okay xs; list_all okay ys; leq_slices os xs ys; leq_slices os ys xs \<rbrakk> \<Longrightarrow> xs = ys"
proof (induction xs ys rule: list_induct2')
  case (4 x xs y ys)
  then show ?case using leq_antisym [of x y] by (auto split: if_splits)
qed auto

lemma leq_slices_total: "\<lbrakk> list_all okay xs; list_all okay ys \<rbrakk> \<Longrightarrow> leq_slices os xs ys \<or> leq_slices os ys xs"
proof (induction xs ys rule: list_induct2')
  case (4 x xs y ys)
  then show ?case using leq_total [of x y] by auto
qed auto

lemma leq_slices_trans:
  "\<lbrakk> list_all okay xs; list_all okay ys; list_all okay zs; leq_slices os xs ys; leq_slices os ys zs \<rbrakk> \<Longrightarrow> leq_slices os xs zs"
proof (induction xs zs arbitrary: ys rule: list_induct2')
  case (3 z zs)
  then show ?case by (cases ys) simp_all
next
  case (4 x xs z zs)
  then obtain y ys' where ys: "ys = y # ys'" by (cases ys) auto
  show ?case
  proof (cases "x = y \<or> y = z")
    case True
    with 4 ys show ?thesis by (auto split: if_splits)
  next
    case False
    with 4 ys have xyz: "okay x" "okay y" "okay z" "os_leq os x y" "os_leq os y z" by simp_all
    with False have "x \<noteq> z" using leq_antisym [of x y] by blast
    with xyz leq_trans [of x y z] show ?thesis by simp
  qed
qed simp_all

text \<open>On reduced conjunctions subsumption is below the lexicographic order.\<close>

lemma subsumes_leq_slices:
  "\<lbrakk> and_okay os okay (AndLike xs); and_okay os okay (AndLike ys); \<forall>y\<in>set ys. \<exists>x\<in>set xs. os_subsumes os x y \<rbrakk>
   \<Longrightarrow> leq_slices os xs ys"
proof (induction xs ys rule: list_induct2')
  case (4 x xs y ys)
  from "4.prems" have ok: "okay x" "okay y" "\<forall>z\<in>set xs. okay z \<and> os_leq os x z"
      "\<forall>z\<in>set ys. okay z \<and> os_leq os y z \<and> \<not> os_subsumes os y z"
    and tails: "and_okay os okay (AndLike xs)" "and_okay os okay (AndLike ys)"
    by (auto simp: and_okay_def list_all_iff)
  show ?case
  proof (cases "x = y")
    case True
    have "\<exists>x\<in>set xs. os_subsumes os x z" if "z \<in> set ys" for z
      using "4.prems"(3) that ok(4) True by auto
    with "4.IH" tails True show ?thesis by simp
  next
    case False
    obtain z where z: "z \<in> set (x # xs)" "os_subsumes os z y" using "4.prems"(3) by auto
    then have "okay z" "os_leq os x z" "os_leq os z y" using ok subsumes_leq leq_refl by auto
    with ok leq_trans [of x z y] False show ?thesis by simp
  qed
qed auto

lemma fold_push_minimal:
  assumes "le_sorted (dn @ xs)" "and_okay os okay (AndLike sq)" "set sq \<subseteq> set dn"
    "\<forall>y\<in>set dn. \<exists>x\<in>set sq. os_subsumes os x y"
  shows "and_okay os okay (AndLike (fold (push_minimal os) xs sq))
    \<and> set (fold (push_minimal os) xs sq) \<subseteq> set (dn @ xs)
    \<and> (\<forall>y\<in>set (dn @ xs). \<exists>x\<in>set (fold (push_minimal os) xs sq). os_subsumes os x y)"
  using assms
proof (induction xs arbitrary: dn sq)
  case (Cons y xs)
  have y: "okay y" "\<forall>x\<in>set dn. os_leq os x y" using Cons.prems(1) by (auto simp: le_sorted_def sorted_wrt_append)
  have "and_okay os okay (AndLike (push_minimal os y sq))"
    using Cons.prems(2,3) y by (auto simp: push_minimal_def and_okay_def list_all_iff sorted_wrt_append)
  moreover have "set (push_minimal os y sq) \<subseteq> set (dn @ [y])" using Cons.prems(3) by (auto simp: push_minimal_def)
  moreover have "\<exists>x\<in>set (push_minimal os y sq). os_subsumes os x z" if "z \<in> set (dn @ [y])" for z
    using that Cons.prems(4) subsumes_refl [OF y(1)] by (auto simp: push_minimal_def list_all_iff)
  ultimately show ?case using Cons.IH [of "dn @ [y]" "push_minimal os y sq"] Cons.prems(1) by simp
qed simp

lemma and_from_base_spec:
  "and_okay os okay (and_from_base os bs)"
  "set (elements (and_from_base os bs)) \<subseteq> os_from_base os ` set bs"
  "b \<in> set bs \<Longrightarrow> \<exists>x\<in>set (elements (and_from_base os bs)). os_subsumes os x (os_from_base os b)"
proof -
  have sorted: "le_sorted ([] @ sorted_by (leq_cmp os) (map (os_from_base os) bs))"
    using sorted_by_le_sorted [of "map (os_from_base os) bs"] from_base_wf by (simp add: list_all_iff)
  have empty: "and_okay os okay (AndLike [])" by (simp add: and_okay_def)
  from fold_push_minimal [OF sorted empty] show "and_okay os okay (and_from_base os bs)"
    "set (elements (and_from_base os bs)) \<subseteq> os_from_base os ` set bs"
    "b \<in> set bs \<Longrightarrow> \<exists>x\<in>set (elements (and_from_base os bs)). os_subsumes os x (os_from_base os b)"
    by (auto simp: and_from_base_def set_sorted_by)
qed

lemma fold_push_minimal_id: "and_okay os okay (AndLike (sq @ xs)) \<Longrightarrow> fold (push_minimal os) xs sq = sq @ xs"
proof (induction xs arbitrary: sq)
  case (Cons x xs)
  then have "push_minimal os x sq = sq @ [x]" by (auto simp: push_minimal_def and_okay_def sorted_wrt_append list_all_iff)
  with Cons.IH [of "sq @ [x]"] Cons.prems show ?case by simp
qed simp

lemma and_from_to_base:
  assumes "and_okay os okay x"
  shows "and_from_base os (map (os_to_base os) (elements x)) = x"
proof -
  have "map (os_from_base os) (map (os_to_base os) (elements x)) = elements x"
    using assms from_to_base by (auto simp: and_okay_def list_all_iff intro!: map_idI)
  with sorted_by_id [OF and_okay_sorted [OF assms]] fold_push_minimal_id [of "[]" "elements x"] assms
  show ?thesis by (simp add: and_from_base_def)
qed

lemma and_laws: "order_subsumption (and_order os) (and_okay os okay)"
proof (rule order_subsumption.intro, unfold and_order_def order_ops.simps)
  note list = and_okay_def [THEN iffD1, THEN conjunct1]
  show "leq_slices os (elements x) (elements x)" for x by (rule leq_slices_refl)
  show "x = y" if "and_okay os okay x" "and_okay os okay y" "leq_slices os (elements x) (elements y)" "leq_slices os (elements y) (elements x)" for x y
    using leq_slices_antisym [OF list [OF that(1)] list [OF that(2)] that(3,4)] by (rule and_like.expand)
  show "leq_slices os (elements x) (elements z)"
    if "and_okay os okay x" "and_okay os okay y" "and_okay os okay z" "leq_slices os (elements x) (elements y)" "leq_slices os (elements y) (elements z)" for x y z
    by (rule leq_slices_trans [OF list [OF that(1)] list [OF that(2)] list [OF that(3)] that(4,5)])
  show "leq_slices os (elements x) (elements y) \<or> leq_slices os (elements y) (elements x)" if "and_okay os okay x" "and_okay os okay y" for x y
    by (rule leq_slices_total [OF list [OF that(1)] list [OF that(2)]])
  show "and_subsumes os x x" if "and_okay os okay x" for x
    using and_subsumes_iff [OF that that] subsumes_refl list [OF that] by (auto simp: list_all_iff)
  show "and_subsumes os x z"
    if "and_okay os okay x" "and_okay os okay y" "and_okay os okay z" "and_subsumes os x y" "and_subsumes os y z" for x y z
    using that(4,5) list [OF that(1)] list [OF that(2)] list [OF that(3)] subsumes_trans
    unfolding and_subsumes_iff [OF that(1,2)] and_subsumes_iff [OF that(2,3)] and_subsumes_iff [OF that(1,3)] list_all_iff
    by meson
  show "leq_slices os (elements x) (elements y)" if "and_okay os okay x" "and_okay os okay y" "and_subsumes os x y" for x y
    using subsumes_leq_slices [of "elements x" "elements y"] that and_subsumes_iff [OF that(1,2)] by simp
  show "and_okay os okay (and_from_base os b)" for b by (rule and_from_base_spec)
  show "and_from_base os (map (os_to_base os) (elements x)) = x" if "and_okay os okay x" for x
    by (rule and_from_to_base [OF that])
qed

end

text \<open>Subsumption of reduced conjunctions, in terms of what they were built from.\<close>

context order_subsumption begin

lemma and_from_base_subsumes:
  "and_subsumes os (and_from_base os as) (and_from_base os bs)
   \<longleftrightarrow> (\<forall>b\<in>set bs. \<exists>a\<in>set as. os_subsumes os (os_from_base os a) (os_from_base os b))"
proof -
  have ok: "okay x" if "x \<in> set (elements (and_from_base os cs))" for x cs
    using and_from_base_spec(1) [of cs] that by (auto simp: and_okay_def list_all_iff)
  have from_base: "\<exists>c\<in>set cs. x = os_from_base os c" if "x \<in> set (elements (and_from_base os cs))" for x cs
    using and_from_base_spec(2) [of cs] that by auto
  show ?thesis
    unfolding and_subsumes_iff [OF and_from_base_spec(1) and_from_base_spec(1)]
  proof (intro iffI ballI)
    fix b assume *: "\<forall>y\<in>set (elements (and_from_base os bs)). \<exists>x\<in>set (elements (and_from_base os as)). os_subsumes os x y" "b \<in> set bs"
    then obtain x y where "y \<in> set (elements (and_from_base os bs))" "os_subsumes os y (os_from_base os b)"
      "x \<in> set (elements (and_from_base os as))" "os_subsumes os x y"
      using and_from_base_spec(3) by meson
    then show "\<exists>a\<in>set as. os_subsumes os (os_from_base os a) (os_from_base os b)"
      using from_base [of x as] subsumes_trans [OF ok ok from_base_wf, of x as y bs b] by blast
  next
    fix y assume *: "\<forall>b\<in>set bs. \<exists>a\<in>set as. os_subsumes os (os_from_base os a) (os_from_base os b)"
      "y \<in> set (elements (and_from_base os bs))"
    then obtain a b where "y = os_from_base os b" "a \<in> set as" "os_subsumes os (os_from_base os a) y"
      using from_base [OF *(2)] by blast
    moreover obtain x where "x \<in> set (elements (and_from_base os as))" "os_subsumes os x (os_from_base os a)"
      using and_from_base_spec(3) calculation by blast
    ultimately show "\<exists>x\<in>set (elements (and_from_base os as)). os_subsumes os x y"
      using subsumes_trans [OF ok from_base_wf ok] *(2) by blast
  qed
qed

end

section \<open>Disjunctions and pairs\<close>

definition or_okay :: "('o, 'b) order_ops \<Rightarrow> ('o \<Rightarrow> bool) \<Rightarrow> 'o or_like \<Rightarrow> bool" where
  "or_okay os okay = reversed_okay (and_okay (reversed_order os) (reversed_okay okay))"

definition pair_okay :: "('a \<Rightarrow> bool) \<Rightarrow> ('c \<Rightarrow> bool) \<Rightarrow> ('a, 'c) pair_like \<Rightarrow> bool" where
  "pair_okay okay1 okay2 x \<longleftrightarrow> okay1 (first_part x) \<and> okay2 (second_part x)"

context order_subsumption begin

lemma or_laws: "order_subsumption (or_order os) (or_okay os okay)"
  unfolding or_order_def or_okay_def
  by (rule order_subsumption.reversed_laws [OF order_subsumption.and_laws [OF reversed_laws]])

end

lemma pair_laws:
  assumes "order_subsumption os1 okay1" "order_subsumption os2 okay2"
  shows "order_subsumption (pair_order os1 os2) (pair_okay okay1 okay2)"
proof (rule order_subsumption.intro, unfold pair_order_def pair_okay_def order_ops.simps)
  note l1 = order_subsumption.leq_refl [OF assms(1)] order_subsumption.subsumes_refl [OF assms(1)]
    order_subsumption.from_base_wf [OF assms(1)] order_subsumption.from_to_base [OF assms(1)]
  note l2 = order_subsumption.leq_refl [OF assms(2)] order_subsumption.subsumes_refl [OF assms(2)]
    order_subsumption.from_base_wf [OF assms(2)] order_subsumption.from_to_base [OF assms(2)]
  show "pair_leq os1 os2 x x" "os_subsumes os1 (first_part x) (first_part x) \<and> os_subsumes os2 (second_part x) (second_part x)"
    "PairLike (os_from_base os1 (fst (os_to_base os1 (first_part x), os_to_base os2 (second_part x))))
       (os_from_base os2 (snd (os_to_base os1 (first_part x), os_to_base os2 (second_part x)))) = x"
    if "okay1 (first_part x) \<and> okay2 (second_part x)" for x
    using that l1 l2 by (simp_all add: pair_leq_def)
  show "x = y" if "okay1 (first_part x) \<and> okay2 (second_part x)" "okay1 (first_part y) \<and> okay2 (second_part y)"
      "pair_leq os1 os2 x y" "pair_leq os1 os2 y x" for x y
    using that order_subsumption.leq_antisym [OF assms(1), of "first_part x" "first_part y"]
      order_subsumption.leq_antisym [OF assms(2), of "second_part x" "second_part y"]
    by (intro pair_like.expand) (auto simp: pair_leq_def split: if_splits)
  show "pair_leq os1 os2 x y \<or> pair_leq os1 os2 y x"
    if "okay1 (first_part x) \<and> okay2 (second_part x)" "okay1 (first_part y) \<and> okay2 (second_part y)" for x y
    using that order_subsumption.leq_total [OF assms(1), of "first_part x" "first_part y"]
      order_subsumption.leq_total [OF assms(2), of "second_part x" "second_part y"]
    by (simp add: pair_leq_def)
  show "pair_leq os1 os2 x z"
    if "okay1 (first_part x) \<and> okay2 (second_part x)" "okay1 (first_part y) \<and> okay2 (second_part y)"
      "okay1 (first_part z) \<and> okay2 (second_part z)" "pair_leq os1 os2 x y" "pair_leq os1 os2 y z" for x y z
  proof -
    obtain x1 x2 y1 y2 z1 z2 where xyz: "x = PairLike x1 x2" "y = PairLike y1 y2" "z = PairLike z1 z2"
      by (metis pair_like.exhaust)
    from that have ok: "okay1 x1" "okay2 x2" "okay1 y1" "okay2 y2" "okay1 z1" "okay2 z2" by (simp_all add: xyz)
    consider "x1 = y1" "y1 = z1" | "x1 = y1" "y1 \<noteq> z1" | "x1 \<noteq> y1" "y1 = z1" | "x1 \<noteq> y1" "y1 \<noteq> z1" by blast
    then show ?thesis
    proof cases
      case 1
      with that(4,5) order_subsumption.leq_trans [OF assms(2) ok(2,4,6)] show ?thesis by (simp add: xyz pair_leq_def)
    next
      case 4
      with that(4,5) have le: "os_leq os1 x1 y1" "os_leq os1 y1 z1" by (simp_all add: xyz pair_leq_def)
      have "x1 \<noteq> z1" using order_subsumption.leq_antisym [OF assms(1) ok(1,3) le(1)] le(2) 4(1) by blast
      with order_subsumption.leq_trans [OF assms(1) ok(1,3,5) le] show ?thesis by (simp add: xyz pair_leq_def)
    qed (use that(4,5) in \<open>simp_all add: xyz pair_leq_def\<close>)
  qed
  show "os_subsumes os1 (first_part x) (first_part z) \<and> os_subsumes os2 (second_part x) (second_part z)"
    if "okay1 (first_part x) \<and> okay2 (second_part x)" "okay1 (first_part y) \<and> okay2 (second_part y)"
      "okay1 (first_part z) \<and> okay2 (second_part z)"
      "os_subsumes os1 (first_part x) (first_part y) \<and> os_subsumes os2 (second_part x) (second_part y)"
      "os_subsumes os1 (first_part y) (first_part z) \<and> os_subsumes os2 (second_part y) (second_part z)" for x y z
    using that order_subsumption.subsumes_trans [OF assms(1), of "first_part x" "first_part y" "first_part z"]
      order_subsumption.subsumes_trans [OF assms(2), of "second_part x" "second_part y" "second_part z"]
    by blast
  show "pair_leq os1 os2 x y"
    if "okay1 (first_part x) \<and> okay2 (second_part x)" "okay1 (first_part y) \<and> okay2 (second_part y)"
      "os_subsumes os1 (first_part x) (first_part y) \<and> os_subsumes os2 (second_part x) (second_part y)" for x y
    using that order_subsumption.subsumes_leq [OF assms(1), of "first_part x" "first_part y"]
      order_subsumption.subsumes_leq [OF assms(2), of "second_part x" "second_part y"]
    by (simp add: pair_leq_def)
  show "okay1 (first_part (PairLike (os_from_base os1 (fst b)) (os_from_base os2 (snd b))))
    \<and> okay2 (second_part (PairLike (os_from_base os1 (fst b)) (os_from_base os2 (snd b))))" for b
    using l1 l2 by simp
qed

section \<open>Meaning\<close>

text \<open>An order whose elements are formulas: subsumption is entailment, and the reduced form built from a
  base formula has its meaning.\<close>

locale order_semantics = order_subsumption os okay for os :: "('o, 'b) order_ops" and okay :: "'o \<Rightarrow> bool" +
  fixes holds_in :: "'w \<Rightarrow> 'o \<Rightarrow> bool" and base_in :: "'w \<Rightarrow> 'b \<Rightarrow> bool"
  assumes subsumes_entails: "\<lbrakk> okay x; okay y; os_subsumes os x y; holds_in w x \<rbrakk> \<Longrightarrow> holds_in w y"
    and from_base_in: "holds_in w (os_from_base os b) = base_in w b"
begin

lemma reversed_semantics:
  "order_semantics (reversed_order os) (reversed_okay okay) (\<lambda>w x. \<not> holds_in w (unrev x)) (\<lambda>w b. \<not> base_in w b)"
proof (intro order_semantics.intro order_semantics_axioms.intro reversed_laws)
  show "\<not> holds_in w (unrev y)" if "reversed_okay okay x" "reversed_okay okay y"
    "os_subsumes (reversed_order os) x y" "\<not> holds_in w (unrev x)" for x y w
    using that subsumes_entails [of "unrev y" "unrev x" w] by (auto simp: reversed_okay_def reversed_order_def)
qed (simp add: reversed_order_def from_base_in)

lemma and_semantics:
  "order_semantics (and_order os) (and_okay os okay)
     (\<lambda>w x. \<forall>e\<in>set (elements x). holds_in w e) (\<lambda>w bs. \<forall>b\<in>set bs. base_in w b)"
proof (intro order_semantics.intro order_semantics_axioms.intro and_laws)
  have okay: "okay e" if "and_okay os okay x" "e \<in> set (elements x)" for x e
    using that by (auto simp: and_okay_def list_all_iff)
  show "\<forall>e\<in>set (elements y). holds_in w e"
    if "and_okay os okay x" "and_okay os okay y" "os_subsumes (and_order os) x y" "\<forall>e\<in>set (elements x). holds_in w e" for x y w
    using that and_subsumes_iff [OF that(1,2)] subsumes_entails okay unfolding and_order_def order_ops.simps by meson
  show "(\<forall>e\<in>set (elements (os_from_base (and_order os) bs)). holds_in w e) = (\<forall>b\<in>set bs. base_in w b)" for w bs
  proof -
    have "holds_in w (os_from_base os b)" if "\<forall>e\<in>set (elements (and_from_base os bs)). holds_in w e" "b \<in> set bs" for b
      using and_from_base_spec(3) [OF that(2)] that(1) subsumes_entails okay [OF and_from_base_spec(1)] from_base_wf by meson
    then show ?thesis using and_from_base_spec(2) [of bs] from_base_in by (auto simp: and_order_def)
  qed
qed

end

lemma or_semantics:
  assumes "order_semantics os okay holds_in base_in"
  shows "order_semantics (or_order os) (or_okay os okay)
    (\<lambda>w x. \<exists>e\<in>set (elements (unrev x)). holds_in w (unrev e)) (\<lambda>w bs. \<exists>b\<in>set bs. base_in w b)"
  using order_semantics.reversed_semantics [OF order_semantics.and_semantics [OF order_semantics.reversed_semantics [OF assms]]]
  by (simp add: or_order_def or_okay_def)

section \<open>Literals, clauses, cubes and their normal forms\<close>

interpretation usize: order_subsumption usize_order "\<lambda>_. True"
  by unfold_locales (auto simp: usize_order_def)

interpretation lit: order_semantics literal_order "\<lambda>_. True" "\<lambda>v l. v (fst l) = snd l" "\<lambda>v l. v (fst l) = snd l"
  by unfold_locales (auto simp: literal_order_def)

interpretation cube: order_semantics cube_order "and_okay literal_order (\<lambda>_. True)"
    "\<lambda>v x. \<forall>l\<in>set (elements x). v (fst l) = snd l" "\<lambda>v ls. \<forall>l\<in>set ls. v (fst l) = snd l"
  by (rule lit.and_semantics)

interpretation clause: order_semantics clause_order "or_okay literal_order (\<lambda>_. True)"
    "\<lambda>v x. \<exists>l\<in>set (elements (unrev x)). v (fst (unrev l)) = snd (unrev l)" "\<lambda>v ls. \<exists>l\<in>set ls. v (fst l) = snd l"
  by (rule or_semantics [OF lit.order_semantics_axioms])

definition cnf_okay :: "atom_literal or_like and_like \<Rightarrow> bool" where
  "cnf_okay = and_okay clause_order (or_okay literal_order (\<lambda>_. True))"

definition dnf_okay :: "atom_literal and_like or_like \<Rightarrow> bool" where
  "dnf_okay = or_okay cube_order (and_okay literal_order (\<lambda>_. True))"

text \<open>The meaning of formulas of literals under a valuation of the atoms.\<close>

definition clause_true :: "(nat \<Rightarrow> bool) \<Rightarrow> atom_literal or_like \<Rightarrow> bool" where
  "clause_true v x \<longleftrightarrow> (\<exists>l\<in>set (elements (unrev x)). v (fst (unrev l)) = snd (unrev l))"

definition cnf_true :: "(nat \<Rightarrow> bool) \<Rightarrow> atom_literal or_like and_like \<Rightarrow> bool" where
  "cnf_true v x \<longleftrightarrow> (\<forall>c\<in>set (elements x). clause_true v c)"

definition base_cnf_true :: "(nat \<Rightarrow> bool) \<Rightarrow> atom_literal list list \<Rightarrow> bool" where
  "base_cnf_true v cs \<longleftrightarrow> (\<forall>c\<in>set cs. \<exists>l\<in>set c. v (fst l) = snd l)"

interpretation cnf: order_semantics cnf_order cnf_okay cnf_true base_cnf_true
  using clause.and_semantics
  unfolding cnf_order_def cnf_okay_def cnf_true_def [abs_def] base_cnf_true_def [abs_def] clause_true_def .

interpretation dnf: order_subsumption dnf_order dnf_okay
  unfolding dnf_order_def dnf_okay_def by (rule cube.or_laws)

interpretation pdnf: order_subsumption pdnf_order "pair_okay (or_okay literal_order (\<lambda>_. True)) dnf_okay"
  unfolding pdnf_order_def
  by (rule pair_laws [OF clause.order_subsumption_axioms dnf.order_subsumption_axioms])

context order_subsumption begin

lemma or_from_base_subsumes:
  "os_subsumes (or_order os) (os_from_base (or_order os) as) (os_from_base (or_order os) bs)
   \<longleftrightarrow> (\<forall>a\<in>set as. \<exists>b\<in>set bs. os_subsumes os (os_from_base os a) (os_from_base os b))"
  using order_subsumption.and_from_base_subsumes [OF reversed_laws, of bs as]
  by (simp add: or_order_def reversed_order_def and_order_def)

end

lemma clause_subsumes:
  "os_subsumes clause_order (os_from_base clause_order as) (os_from_base clause_order bs) \<longleftrightarrow> set as \<subseteq> set bs"
  unfolding lit.or_from_base_subsumes by (auto simp: literal_order_def)

lemma cube_subsumes:
  "os_subsumes cube_order (os_from_base cube_order as) (os_from_base cube_order bs) \<longleftrightarrow> set bs \<subseteq> set as"
  using lit.and_from_base_subsumes [of as bs] by (auto simp: literal_order_def and_order_def)

lemma cnf_subsumes:
  "os_subsumes cnf_order (os_from_base cnf_order as) (os_from_base cnf_order bs)
   \<longleftrightarrow> (\<forall>d\<in>set bs. \<exists>c\<in>set as. set c \<subseteq> set d)"
  using clause.and_from_base_subsumes [of as bs] unfolding clause_subsumes by (simp add: cnf_order_def and_order_def)

lemma dnf_subsumes:
  "os_subsumes dnf_order (os_from_base dnf_order as) (os_from_base dnf_order bs)
   \<longleftrightarrow> (\<forall>c\<in>set as. \<exists>d\<in>set bs. set d \<subseteq> set c)"
  unfolding dnf_order_def cube.or_from_base_subsumes cube_subsumes ..

text \<open>C27: subsumption of formulas of literals is what it should be on the formulas as they were given, although
  it is computed on sorted lists with early exits: a formula in conjunctive normal form subsumes another iff
  every clause of the second contains a clause of the first, and a clause or-ed with a disjunction of cubes
  is compared part by part. \<^verbatim>\<open>from_base\<close> computes a normal form: it has the meaning of the formula, two formulas
  have the same normal form iff they subsume each other, and \<^verbatim>\<open>to_base\<close> goes back and forth.\<close>

theorem subsumption_normal_forms:
  "(os_subsumes cnf_order (os_from_base cnf_order as) (os_from_base cnf_order bs)
      \<longleftrightarrow> (\<forall>d\<in>set bs. \<exists>c\<in>set as. set c \<subseteq> set d))
   \<and> (os_subsumes pdnf_order (os_from_base pdnf_order (p, as)) (os_from_base pdnf_order (q, bs))
      \<longleftrightarrow> set p \<subseteq> set q \<and> (\<forall>c\<in>set as. \<exists>d\<in>set bs. set d \<subseteq> set c))
   \<and> (os_from_base cnf_order as = os_from_base cnf_order bs
      \<longleftrightarrow> os_subsumes cnf_order (os_from_base cnf_order as) (os_from_base cnf_order bs)
        \<and> os_subsumes cnf_order (os_from_base cnf_order bs) (os_from_base cnf_order as))
   \<and> (cnf_true v (os_from_base cnf_order as) \<longleftrightarrow> base_cnf_true v as)
   \<and> os_from_base cnf_order (os_to_base cnf_order (os_from_base cnf_order as)) = os_from_base cnf_order as"
proof -
  have "os_subsumes pdnf_order (os_from_base pdnf_order (p, as)) (os_from_base pdnf_order (q, bs))
      \<longleftrightarrow> set p \<subseteq> set q \<and> (\<forall>c\<in>set as. \<exists>d\<in>set bs. set d \<subseteq> set c)"
    by (simp add: pdnf_order_def pair_order_def clause_subsumes dnf_subsumes)
  moreover have "os_from_base cnf_order as = os_from_base cnf_order bs
      \<longleftrightarrow> os_subsumes cnf_order (os_from_base cnf_order as) (os_from_base cnf_order bs)
        \<and> os_subsumes cnf_order (os_from_base cnf_order bs) (os_from_base cnf_order as)"
    using cnf.subsumes_antisym [OF cnf.from_base_wf cnf.from_base_wf, of as bs] cnf.subsumes_refl [OF cnf.from_base_wf]
    by fastforce
  ultimately show ?thesis
    using cnf_subsumes cnf.from_base_in cnf.from_to_base [OF cnf.from_base_wf] by blast
qed

theorem subsumption_normal_forms_witness:
  "os_from_base cnf_order [[(2, False), (1, True)], [(1, True)]] = os_from_base cnf_order [[(1, True)]]
   \<and> elements (os_from_base cnf_order [[(2, False), (1, True)], [(1, True)]])
     = [Reversed (AndLike [Reversed (1, True)])]"
proof
  show "os_from_base cnf_order [[(2, False), (1, True)], [(1, True)]] = os_from_base cnf_order [[(1, True)]]"
    using subsumption_normal_forms [of "[[(2, False), (1, True)], [(1, True)]]" "[[(1, True)]]" "[]" "[]"]
      subsumption_normal_forms [of "[[(1, True)]]" "[[(2, False), (1, True)], [(1, True)]]" "[]" "[]"] by simp
qed code_simp

end
