(* ===== verification/Inference_Trie.thy ===== *)
theory Inference_Trie
  imports Inference_Order "HOL-Library.AList"
begin

text \<open>
  Model of \<^verbatim>\<open>TrieMap\<close> (\<^verbatim>\<open>inference/src/subsume.rs\<close>): a trie whose edges are a map of the trait
  \<^verbatim>\<open>SubsumptionMap\<close> from elements to tries. The map at the edges is kept as its contents, an
  association list; what is used of the trait are its promises: finding, inserting, replacing and removing an
  entry, and listing the entries whose key subsumes a given one, in an order that is a parameter.
\<close>

section \<open>Operations\<close>

datatype ('o, 'v) trie_map = TrieMap (trie_value: "'v option") (trie_edges: "('o \<times> ('o, 'v) trie_map) list")

definition trie_new :: "('o, 'v) trie_map" where
  "trie_new = TrieMap None []"

text \<open>The test after a removal: no value and no edges.\<close>

definition trie_bare :: "('o, 'v) trie_map \<Rightarrow> bool" where
  "trie_bare t \<longleftrightarrow> trie_value t = None \<and> trie_edges t = []"

fun trie_insert :: "'o list \<Rightarrow> 'v \<Rightarrow> ('o, 'v) trie_map \<Rightarrow> ('o, 'v) trie_map option" where
  "trie_insert [] v t = (if trie_value t = None then Some (TrieMap (Some v) (trie_edges t)) else None)"
| "trie_insert (elem # rest) v t =
     (case map_of (trie_edges t) elem of
        Some trie \<Rightarrow> map_option (\<lambda>trie. TrieMap (trie_value t) (AList.update elem trie (trie_edges t))) (trie_insert rest v trie)
      | None \<Rightarrow> map_option (\<lambda>trie. TrieMap (trie_value t) (AList.update elem trie (trie_edges t))) (trie_insert rest v trie_new))"

fun trie_mutate :: "'o list \<Rightarrow> ('v \<Rightarrow> 'v option) \<Rightarrow> ('o, 'v) trie_map \<Rightarrow> ('o, 'v) trie_map option" where
  "trie_mutate [] f t = map_option (\<lambda>v. TrieMap (f v) (trie_edges t)) (trie_value t)"
| "trie_mutate (elem # rest) f t =
     (case map_of (trie_edges t) elem of None \<Rightarrow> None | Some trie \<Rightarrow>
      (case trie_mutate rest f trie of None \<Rightarrow> None | Some trie \<Rightarrow>
         Some (TrieMap (trie_value t)
           (if trie_bare trie then AList.delete elem (trie_edges t) else AList.update elem trie (trie_edges t)))))"

fun trie_remove :: "'o list \<Rightarrow> ('o, 'v) trie_map \<Rightarrow> ('v \<times> ('o, 'v) trie_map) option" where
  "trie_remove [] t = map_option (\<lambda>v. (v, TrieMap None (trie_edges t))) (trie_value t)"
| "trie_remove (elem # rest) t =
     (case map_of (trie_edges t) elem of None \<Rightarrow> None | Some trie \<Rightarrow>
      (case trie_remove rest trie of None \<Rightarrow> None | Some (res, trie) \<Rightarrow>
         Some (res, TrieMap (trie_value t)
           (if trie_bare trie then AList.delete elem (trie_edges t) else AList.update elem trie (trie_edges t)))))"

fun trie_get :: "'o list \<Rightarrow> ('o, 'v) trie_map \<Rightarrow> 'v option" where
  "trie_get [] t = trie_value t"
| "trie_get (elem # rest) t =
     (case map_of (trie_edges t) elem of Some trie \<Rightarrow> trie_get rest trie | None \<Rightarrow> None)"

text \<open>The edges that subsume an element.\<close>

definition edges_subsuming ::
  "('o, 'b) order_ops \<Rightarrow> ('o list \<Rightarrow> 'o list) \<Rightarrow> ('o \<times> 't) list \<Rightarrow> 'o \<Rightarrow> ('o \<times> 't) list" where
  "edges_subsuming os ord edges k =
     List.map_filter (\<lambda>e. map_option (Pair e) (map_of edges e)) (ord (filter (\<lambda>e. os_subsumes os e k) (map fst edges)))"

lemma edges_subsuming_in: "(e, t) \<in> set (edges_subsuming os ord edges k) \<Longrightarrow> (e, t) \<in> set edges"
  by (auto simp: edges_subsuming_def List.map_filter_def dest: map_of_SomeD)

lemma size_edge: "(e, t) \<in> set (trie_edges m) \<Longrightarrow> size t < size m"
  by (cases m) (force dest!: split_list)

function get_subsuming_and ::
  "('o, 'b) order_ops \<Rightarrow> ('o list \<Rightarrow> 'o list) \<Rightarrow> 'o list \<Rightarrow> 'o list \<Rightarrow> ('o, 'v) trie_map \<Rightarrow> ('o list \<times> 'v) list" where
  "get_subsuming_and os ord [] path t = (case trie_value t of Some v \<Rightarrow> [(path, v)] | None \<Rightarrow> [])"
| "get_subsuming_and os ord (first # key) path t =
     concat (map (\<lambda>(o', trie). get_subsuming_and os ord (filter (\<lambda>k. \<not> os_subsumes os o' k) (first # key)) (path @ [o']) trie)
       (filter (\<lambda>(o', trie). os_leq os o' first) (concat (map (edges_subsuming os ord (trie_edges t)) (first # key)))))"
  by pat_completeness auto
termination
  by (relation "measure (\<lambda>(os, ord, key, path, t). size t)") (auto dest!: edges_subsuming_in size_edge)

function get_subsuming_or ::
  "('o, 'b) order_ops \<Rightarrow> ('o list \<Rightarrow> 'o list) \<Rightarrow> 'o list \<Rightarrow> 'o list \<Rightarrow> ('o, 'v) trie_map \<Rightarrow> ('o list \<times> 'v) list" where
  "get_subsuming_or os ord key path t =
     concat (map (\<lambda>(o', trie). get_subsuming_or os ord (filter (\<lambda>k. \<not> os_leq os k o') key) (path @ [o']) trie)
       (concat (map (edges_subsuming os ord (trie_edges t)) key)))
     @ (case trie_value t of Some v \<Rightarrow> [(path, v)] | None \<Rightarrow> [])"
  by pat_completeness auto
termination
  by (relation "measure (\<lambda>(os, ord, key, path, t). size t)") (auto dest!: edges_subsuming_in size_edge)

declare get_subsuming_or.simps [simp del]

section \<open>A trie is a map\<close>

text \<open>Edges have distinct keys, and no edge leads to an empty trie.\<close>

fun trie_okay :: "('o, 'v) trie_map \<Rightarrow> bool" where
  "trie_okay (TrieMap v edges) \<longleftrightarrow> distinct (map fst edges) \<and> (\<forall>(e, t)\<in>set edges. trie_okay t \<and> \<not> trie_bare t)"

lemma trie_okayI:
  "\<lbrakk> distinct (map fst (trie_edges t)); \<And>e sub. (e, sub) \<in> set (trie_edges t) \<Longrightarrow> trie_okay sub \<and> \<not> trie_bare sub \<rbrakk> \<Longrightarrow> trie_okay t"
  by (cases t) auto

lemma trie_okayD:
  assumes "trie_okay t"
  shows "distinct (map fst (trie_edges t))"
    and "map_of (trie_edges t) e = Some sub \<Longrightarrow> trie_okay sub \<and> \<not> trie_bare sub"
    and "(e, sub) \<in> set (trie_edges t) \<Longrightarrow> trie_okay sub \<and> \<not> trie_bare sub"
  using assms by (cases t; auto dest: map_of_SomeD)+

lemma trie_new_okay [simp]: "trie_okay trie_new" "trie_get key trie_new = None"
  by (auto simp: trie_new_def) (cases key; simp add: trie_new_def)

lemma trie_get_bare: "trie_bare t \<Longrightarrow> trie_get key t = None"
  by (cases key) (auto simp: trie_bare_def)

lemma trie_nonempty: "trie_okay t \<Longrightarrow> \<not> trie_bare t \<Longrightarrow> \<exists>key v. trie_get key t = Some v"
proof (induction t)
  case (TrieMap v edges)
  show ?case
  proof (cases v)
    case (Some x)
    then have "trie_get [] (TrieMap v edges) = Some x" by simp
    then show ?thesis by blast
  next
    case None
    with TrieMap.prems obtain e t es where edges: "edges = (e, t) # es" by (cases edges) (auto simp: trie_bare_def)
    with TrieMap.prems have "trie_okay t" "\<not> trie_bare t" by auto
    with TrieMap.IH [of "(e, t)" t] edges obtain key x where "trie_get key t = Some x" by auto
    then have "trie_get (e # key) (TrieMap v edges) = Some x" by (simp add: edges)
    then show ?thesis by blast
  qed
qed

lemma trie_empty: "trie_okay t \<Longrightarrow> (\<And>key. trie_get key t = None) \<Longrightarrow> trie_bare t"
  using trie_nonempty by fastforce

text \<open>Replacing one edge.\<close>

lemma update_edge:
  assumes "trie_okay t" "trie_okay sub" "\<not> trie_bare sub"
  shows "trie_okay (TrieMap v (AList.update e sub (trie_edges t)))"
    and "\<not> trie_bare (TrieMap v (AList.update e sub (trie_edges t)))"
    and "trie_get (f # rest) (TrieMap v (AList.update e sub (trie_edges t))) = (if f = e then trie_get rest sub else trie_get (f # rest) t)"
proof -
  let ?es = "AList.update e sub (trie_edges t)"
  have dist: "distinct (map fst ?es)" using trie_okayD(1) [OF assms(1)] by (rule distinct_update)
  show "trie_okay (TrieMap v ?es)"
  proof (rule trie_okayI)
    fix f s assume "(f, s) \<in> set (trie_edges (TrieMap v ?es))"
    then have "map_of ?es f = Some s" using dist by simp
    then show "trie_okay s \<and> \<not> trie_bare s"
      using assms trie_okayD(2) [OF assms(1)] by (auto simp: update_conv' split: if_splits)
  qed (use dist in simp)
  have "map_of ?es e = Some sub" by (simp add: update_conv')
  then show "\<not> trie_bare (TrieMap v ?es)" by (auto simp: trie_bare_def)
  show "trie_get (f # rest) (TrieMap v ?es) = (if f = e then trie_get rest sub else trie_get (f # rest) t)"
    by (simp add: update_conv')
qed

lemma delete_edge:
  assumes "trie_okay t"
  shows "trie_okay (TrieMap v (AList.delete e (trie_edges t)))"
    and "trie_get (f # rest) (TrieMap v (AList.delete e (trie_edges t))) = (if f = e then None else trie_get (f # rest) t)"
proof -
  show "trie_okay (TrieMap v (AList.delete e (trie_edges t)))"
  proof (rule trie_okayI)
    show "distinct (map fst (trie_edges (TrieMap v (AList.delete e (trie_edges t)))))"
      using distinct_delete [OF trie_okayD(1) [OF assms]] by simp
  qed (use trie_okayD(3) [OF assms] in \<open>auto simp: AList.delete_eq\<close>)
  show "trie_get (f # rest) (TrieMap v (AList.delete e (trie_edges t))) = (if f = e then None else trie_get (f # rest) t)"
    by (simp add: delete_conv')
qed

lemma trie_get_fun_eq:
  "\<lbrakk> m [] = trie_value t; \<And>f rest. m (f # rest) = trie_get (f # rest) t \<rbrakk> \<Longrightarrow> (\<lambda>key. trie_get key t) = m"
  by (rule ext) (metis list.exhaust trie_get.simps(1))

lemma trie_insert_spec:
  "trie_okay t \<Longrightarrow> (if trie_get key t = None
     then \<exists>t'. trie_insert key v t = Some t' \<and> trie_okay t' \<and> \<not> trie_bare t' \<and> (\<lambda>k. trie_get k t') = (\<lambda>k. trie_get k t)(key \<mapsto> v)
     else trie_insert key v t = None)"
proof (induction key arbitrary: t)
  case Nil
  have "trie_okay (TrieMap (Some v) (trie_edges t))" using Nil by (cases t) simp
  then show ?case by (auto simp: trie_bare_def intro!: trie_get_fun_eq)
next
  case (Cons e rest)
  define sub where "sub = (case map_of (trie_edges t) e of Some s \<Rightarrow> s | None \<Rightarrow> trie_new)"
  have sub: "trie_okay sub" "trie_get rest sub = trie_get (e # rest) t" for rest
    using trie_okayD(2) [OF Cons.prems, of e] by (auto simp: sub_def split: option.split)
  have ins: "trie_insert (e # rest) v t
      = map_option (\<lambda>s. TrieMap (trie_value t) (AList.update e s (trie_edges t))) (trie_insert rest v sub)"
    by (simp add: sub_def split: option.split)
  show ?case
  proof (cases "trie_get (e # rest) t = None")
    case True
    with Cons.IH [OF sub(1)] sub(2) obtain s where s: "trie_insert rest v sub = Some s" "trie_okay s" "\<not> trie_bare s"
      and get: "(\<lambda>k. trie_get k s) = (\<lambda>k. trie_get k sub)(rest \<mapsto> v)" by auto
    let ?t = "TrieMap (trie_value t) (AList.update e s (trie_edges t))"
    have "(\<lambda>k. trie_get k ?t) = (\<lambda>k. trie_get k t)(e # rest \<mapsto> v)"
      by (rule trie_get_fun_eq)
        (use update_edge(3) [OF Cons.prems s(2,3)] fun_cong [OF get] sub(2) in \<open>auto simp del: trie_get.simps(2)\<close>)
    with True ins s update_edge [OF Cons.prems s(2,3)] show ?thesis by (auto simp del: trie_get.simps)
  next
    case False
    with Cons.IH [OF sub(1)] sub(2) have "trie_insert rest v sub = None" by auto
    with False ins show ?thesis by simp
  qed
qed

lemma trie_mutate_spec:
  "trie_okay t \<Longrightarrow> (case trie_get key t of
     Some v \<Rightarrow> \<exists>t'. trie_mutate key f t = Some t' \<and> trie_okay t' \<and> (\<lambda>k. trie_get k t') = (\<lambda>k. trie_get k t)(key := f v)
   | None \<Rightarrow> trie_mutate key f t = None)"
proof (induction key arbitrary: t)
  case Nil
  show ?case
  proof (cases "trie_value t")
    case (Some v)
    have "trie_okay (TrieMap (f v) (trie_edges t))" using Nil by (cases t) simp
    with Some show ?thesis by (auto intro!: trie_get_fun_eq)
  qed simp
next
  case (Cons e rest)
  show ?case
  proof (cases "map_of (trie_edges t) e")
    case (Some sub)
    then have sub: "trie_okay sub" "trie_get rest sub = trie_get (e # rest) t" for rest
      using trie_okayD(2) [OF Cons.prems, of e] by auto
    show ?thesis
    proof (cases "trie_get (e # rest) t")
      case None
      with Cons.IH [OF sub(1)] Some have "trie_mutate rest f sub = None" by simp
      with None Some show ?thesis by simp
    next
      case (Some v)
      with Cons.IH [OF sub(1)] sub(2) obtain s where s: "trie_mutate rest f sub = Some s" "trie_okay s"
        and get: "(\<lambda>k. trie_get k s) = (\<lambda>k. trie_get k sub)(rest := f v)" by auto
      define es where "es = (if trie_bare s then AList.delete e (trie_edges t) else AList.update e s (trie_edges t))"
      have okay: "trie_okay (TrieMap (trie_value t) es)"
        and edge: "trie_get (g # r) (TrieMap (trie_value t) es) = (if g = e then trie_get r s else trie_get (g # r) t)" for g r
        using update_edge [OF Cons.prems s(2)] delete_edge [OF Cons.prems] trie_get_bare [of s]
        by (auto simp: es_def simp del: trie_get.simps(2))
      have "(\<lambda>k. trie_get k (TrieMap (trie_value t) es)) = (\<lambda>k. trie_get k t)(e # rest := f v)"
        by (rule trie_get_fun_eq) (use edge fun_cong [OF get] sub(2) in \<open>auto simp del: trie_get.simps(2)\<close>)
      with Some okay s(1) \<open>map_of (trie_edges t) e = Some sub\<close> show ?thesis by (simp add: es_def del: trie_get.simps)
    qed
  qed simp
qed

lemma trie_remove_mutate:
  "trie_remove key t = (case trie_get key t of None \<Rightarrow> None | Some v \<Rightarrow> map_option (Pair v) (trie_mutate key (\<lambda>_. None) t))"
  by (induction key arbitrary: t) (auto split: option.split)

lemma trie_remove_spec:
  assumes "trie_okay t"
  shows "case trie_get key t of
     Some v \<Rightarrow> \<exists>t'. trie_remove key t = Some (v, t') \<and> trie_okay t' \<and> (\<lambda>k. trie_get k t') = (\<lambda>k. trie_get k t)(key := None)
   | None \<Rightarrow> trie_remove key t = None"
  using trie_mutate_spec [OF assms, of key "\<lambda>_. None"] by (auto simp: trie_remove_mutate split: option.splits)

section \<open>What the searches find\<close>

text \<open>The paths the two searches follow.\<close>

fun and_path :: "('o, 'b) order_ops \<Rightarrow> 'o list \<Rightarrow> 'o list \<Rightarrow> bool" where
  "and_path os [] key \<longleftrightarrow> key = []"
| "and_path os (e # p) key \<longleftrightarrow> (\<exists>k\<in>set key. os_subsumes os e k) \<and> os_leq os e (hd key)
     \<and> and_path os p (filter (\<lambda>k. \<not> os_subsumes os e k) key)"

fun or_path :: "('o, 'b) order_ops \<Rightarrow> 'o list \<Rightarrow> 'o list \<Rightarrow> bool" where
  "or_path os [] key \<longleftrightarrow> True"
| "or_path os (e # p) key \<longleftrightarrow> (\<exists>k\<in>set key. os_subsumes os e k) \<and> or_path os p (filter (\<lambda>k. \<not> os_leq os k e) key)"

definition keeps_elements :: "('a list \<Rightarrow> 'a list) \<Rightarrow> bool" where
  "keeps_elements ord \<longleftrightarrow> (\<forall>xs. set (ord xs) = set xs)"

lemma in_concat_edges:
  "y \<in> set (concat (map (\<lambda>(e, t). f e t) (filter (\<lambda>(e, t). P e) (concat (map g xs)))))
   \<longleftrightarrow> (\<exists>e t. (\<exists>x\<in>set xs. (e, t) \<in> set (g x)) \<and> P e \<and> y \<in> set (f e t))"
  by fastforce

lemma in_concat_all:
  "y \<in> set (concat (map (\<lambda>(e, t). f e t) (concat (map g xs)))) \<longleftrightarrow> (\<exists>e t. (\<exists>x\<in>set xs. (e, t) \<in> set (g x)) \<and> y \<in> set (f e t))"
  by fastforce

lemma in_map_filter: "y \<in> set (List.map_filter f xs) \<longleftrightarrow> (\<exists>x\<in>set xs. f x = Some y)"
  by (induction xs) (auto split: option.split)

lemma in_edges_subsuming:
  assumes "keeps_elements ord"
  shows "(e, sub) \<in> set (edges_subsuming os ord edges k) \<longleftrightarrow> map_of edges e = Some sub \<and> os_subsumes os e k"
proof -
  have "(e, sub) \<in> set (edges_subsuming os ord edges k)
      \<longleftrightarrow> (\<exists>x\<in>set (filter (\<lambda>e. os_subsumes os e k) (map fst edges)). map_option (Pair x) (map_of edges x) = Some (e, sub))"
    using assms unfolding edges_subsuming_def in_map_filter keeps_elements_def by simp
  also have "\<dots> \<longleftrightarrow> e \<in> fst ` set edges \<and> os_subsumes os e k \<and> map_of edges e = Some sub" by auto
  also have "\<dots> \<longleftrightarrow> map_of edges e = Some sub \<and> os_subsumes os e k" by (force dest: map_of_SomeD)
  finally show ?thesis .
qed

lemma get_subsuming_and_set:
  fixes t :: "('o, 'v) trie_map"
  assumes ord: "keeps_elements ord"
  shows "(q, v) \<in> set (get_subsuming_and os ord key path t)
    \<longleftrightarrow> (\<exists>p. q = path @ p \<and> and_path os p key \<and> trie_get p t = Some v)"
proof (induction t arbitrary: key path)
  case (TrieMap x edges)
  show ?case
  proof (cases key)
    case Nil
    have "and_path os p [] \<longleftrightarrow> p = []" for p by (cases p) simp_all
    with Nil show ?thesis by (auto split: option.split)
  next
    case (Cons first ks)
    define rest where "rest e = filter (\<lambda>k. \<not> os_subsumes os e k) key" for e
    define go where "go e = (\<lambda>sub :: ('o, 'v) trie_map. get_subsuming_and os ord (rest e) (path @ [e]) sub)" for e
    have "(q, v) \<in> set (get_subsuming_and os ord key path (TrieMap x edges))
      \<longleftrightarrow> (\<exists>e sub. (\<exists>k\<in>set key. (e, sub) \<in> set (edges_subsuming os ord edges k)) \<and> os_leq os e first \<and> (q, v) \<in> set (go e sub))"
      unfolding Cons get_subsuming_and.simps trie_map.sel rest_def go_def by (rule in_concat_edges)
    also have "\<dots> \<longleftrightarrow> (\<exists>e sub. map_of edges e = Some sub \<and> (\<exists>k\<in>set key. os_subsumes os e k) \<and> os_leq os e first
        \<and> (\<exists>p. q = (path @ [e]) @ p \<and> and_path os p (rest e) \<and> trie_get p sub = Some v))"
    proof -
      have "(q, v) \<in> set (go e sub) \<longleftrightarrow> (\<exists>p. q = (path @ [e]) @ p \<and> and_path os p (rest e) \<and> trie_get p sub = Some v)"
        if "map_of edges e = Some sub" for e sub
        unfolding go_def by (rule TrieMap.IH [OF map_of_SomeD [OF that]]) simp
      then show ?thesis unfolding in_edges_subsuming [OF ord] by blast
    qed
    also have "\<dots> \<longleftrightarrow> (\<exists>p. q = path @ p \<and> and_path os p key \<and> trie_get p (TrieMap x edges) = Some v)"
    proof
      assume "\<exists>p. q = path @ p \<and> and_path os p key \<and> trie_get p (TrieMap x edges) = Some v"
      then obtain p where p: "q = path @ p" "and_path os p key" "trie_get p (TrieMap x edges) = Some v" by blast
      with Cons obtain e p' where "p = e # p'" by (cases p) auto
      with p Cons show "\<exists>e sub. map_of edges e = Some sub \<and> (\<exists>k\<in>set key. os_subsumes os e k) \<and> os_leq os e first
        \<and> (\<exists>p. q = (path @ [e]) @ p \<and> and_path os p (rest e) \<and> trie_get p sub = Some v)"
        by (auto simp: rest_def split: option.splits)
    next
      assume "\<exists>e sub. map_of edges e = Some sub \<and> (\<exists>k\<in>set key. os_subsumes os e k) \<and> os_leq os e first
        \<and> (\<exists>p. q = (path @ [e]) @ p \<and> and_path os p (rest e) \<and> trie_get p sub = Some v)"
      then obtain e sub p where *: "map_of edges e = Some sub" "\<exists>k\<in>set key. os_subsumes os e k" "os_leq os e first"
        "q = (path @ [e]) @ p" "and_path os p (rest e)" "trie_get p sub = Some v" by blast
      then have "q = path @ (e # p) \<and> and_path os (e # p) key \<and> trie_get (e # p) (TrieMap x edges) = Some v"
        by (simp add: rest_def Cons)
      then show "\<exists>p. q = path @ p \<and> and_path os p key \<and> trie_get p (TrieMap x edges) = Some v" by blast
    qed
    finally show ?thesis .
  qed
qed

lemma get_subsuming_or_set:
  fixes t :: "('o, 'v) trie_map"
  assumes ord: "keeps_elements ord"
  shows "(q, v) \<in> set (get_subsuming_or os ord key path t)
    \<longleftrightarrow> (\<exists>p. q = path @ p \<and> or_path os p key \<and> trie_get p t = Some v)"
proof (induction t arbitrary: key path)
  case (TrieMap x edges)
  define rest where "rest e = filter (\<lambda>k. \<not> os_leq os k e) key" for e
  define go where "go e = (\<lambda>sub :: ('o, 'v) trie_map. get_subsuming_or os ord (rest e) (path @ [e]) sub)" for e
  have "(q, v) \<in> set (get_subsuming_or os ord key path (TrieMap x edges))
    \<longleftrightarrow> (\<exists>e sub. (\<exists>k\<in>set key. (e, sub) \<in> set (edges_subsuming os ord edges k)) \<and> (q, v) \<in> set (go e sub)) \<or> (x = Some v \<and> q = path)"
    unfolding get_subsuming_or.simps [of os ord key path] trie_map.sel rest_def go_def set_append Un_iff
    by (intro arg_cong2 [where f = "(\<or>)"] in_concat_all) (auto split: option.split)
  also have "\<dots> \<longleftrightarrow> (\<exists>e sub. map_of edges e = Some sub \<and> (\<exists>k\<in>set key. os_subsumes os e k)
      \<and> (\<exists>p. q = (path @ [e]) @ p \<and> or_path os p (rest e) \<and> trie_get p sub = Some v)) \<or> (x = Some v \<and> q = path)"
  proof -
    have "(q, v) \<in> set (go e sub) \<longleftrightarrow> (\<exists>p. q = (path @ [e]) @ p \<and> or_path os p (rest e) \<and> trie_get p sub = Some v)"
      if "map_of edges e = Some sub" for e sub
      unfolding go_def by (rule TrieMap.IH [OF map_of_SomeD [OF that]]) simp
    then show ?thesis unfolding in_edges_subsuming [OF ord] by blast
  qed
  also have "\<dots> \<longleftrightarrow> (\<exists>p. q = path @ p \<and> or_path os p key \<and> trie_get p (TrieMap x edges) = Some v)"
  proof
    assume "\<exists>p. q = path @ p \<and> or_path os p key \<and> trie_get p (TrieMap x edges) = Some v"
    then obtain p where p: "q = path @ p" "or_path os p key" "trie_get p (TrieMap x edges) = Some v" by blast
    then show "(\<exists>e sub. map_of edges e = Some sub \<and> (\<exists>k\<in>set key. os_subsumes os e k)
      \<and> (\<exists>p. q = (path @ [e]) @ p \<and> or_path os p (rest e) \<and> trie_get p sub = Some v)) \<or> (x = Some v \<and> q = path)"
      by (cases p) (auto simp: rest_def split: option.splits)
  next
    assume "(\<exists>e sub. map_of edges e = Some sub \<and> (\<exists>k\<in>set key. os_subsumes os e k)
      \<and> (\<exists>p. q = (path @ [e]) @ p \<and> or_path os p (rest e) \<and> trie_get p sub = Some v)) \<or> (x = Some v \<and> q = path)"
    then show "\<exists>p. q = path @ p \<and> or_path os p key \<and> trie_get p (TrieMap x edges) = Some v"
    proof (elim disjE exE conjE)
      fix e sub p
      assume "map_of edges e = Some sub" "\<exists>k\<in>set key. os_subsumes os e k" "q = (path @ [e]) @ p" "or_path os p (rest e)" "trie_get p sub = Some v"
      then have "q = path @ (e # p) \<and> or_path os (e # p) key \<and> trie_get (e # p) (TrieMap x edges) = Some v"
        by (simp add: rest_def)
      then show ?thesis by blast
    next
      assume "x = Some v" "q = path"
      then have "q = path @ [] \<and> or_path os [] key \<and> trie_get [] (TrieMap x edges) = Some v" by simp
      then show ?thesis by blast
    qed
  qed
  finally show ?case .
qed

lemma and_path_sound: "and_path os p key \<Longrightarrow> k \<in> set key \<Longrightarrow> \<exists>e\<in>set p. os_subsumes os e k"
  by (induction os p key rule: and_path.induct) auto

lemma or_path_sound: "or_path os p key \<Longrightarrow> e \<in> set p \<Longrightarrow> \<exists>k\<in>set key. os_subsumes os e k"
  by (induction os p key rule: or_path.induct) auto

context order_subsumption begin

lemma and_path_complete:
  "\<lbrakk> le_sorted xs; le_sorted key; \<forall>k\<in>set key. \<exists>x\<in>set xs. os_subsumes os x k \<rbrakk> \<Longrightarrow> \<exists>p\<in>set (subseqs xs). and_path os p key"
proof (induction xs arbitrary: key)
  case (Cons x xs)
  show ?case
  proof (cases "\<exists>k\<in>set key. os_subsumes os x k")
    case True
    then have hd: "hd key \<in> set key" by (cases key) auto
    then obtain y where y: "y \<in> set (x # xs)" "os_subsumes os y (hd key)" using Cons.prems(3) by blast
    from hd y Cons.prems(1,2) have ok: "okay x" "okay y" "okay (hd key)" "os_leq os x y" "os_leq os y (hd key)"
      using subsumes_leq leq_refl by (auto simp: le_sorted_def list_all_iff)
    let ?rest = "filter (\<lambda>k. \<not> os_subsumes os x k) key"
    have "\<exists>p\<in>set (subseqs xs). and_path os p ?rest"
    proof (rule Cons.IH)
      show "\<forall>k\<in>set ?rest. \<exists>x\<in>set xs. os_subsumes os x k" using Cons.prems(3) by auto
    qed (use Cons.prems(1,2) in \<open>auto simp: le_sorted_def list_all_iff sorted_wrt_filter\<close>)
    then obtain p where "p \<in> set (subseqs xs)" "and_path os p ?rest" by blast
    moreover have "os_leq os x (hd key)" by (rule leq_trans [OF ok])
    ultimately have "x # p \<in> set (subseqs (x # xs)) \<and> and_path os (x # p) key" using True by (simp add: Let_def)
    then show ?thesis by blast
  next
    case False
    with Cons.prems have "\<exists>p\<in>set (subseqs xs). and_path os p key" by (intro Cons.IH) (auto simp: le_sorted_def)
    then show ?thesis by (auto simp: Let_def)
  qed
qed simp

lemma or_path_complete:
  "\<lbrakk> list_all okay p; list_all okay key; sorted_wrt (\<lambda>x y. os_leq os x y \<and> x \<noteq> y) p; \<forall>e\<in>set p. \<exists>k\<in>set key. os_subsumes os e k \<rbrakk>
   \<Longrightarrow> or_path os p key"
proof (induction p arbitrary: key)
  case (Cons e p)
  let ?rest = "filter (\<lambda>k. \<not> os_leq os k e) key"
  have "\<exists>k\<in>set ?rest. os_subsumes os f k" if f: "f \<in> set p" for f
  proof -
    obtain k where k: "k \<in> set key" "os_subsumes os f k" using Cons.prems(4) f by auto
    have ok: "okay e" "okay f" "okay k" "os_leq os e f" "e \<noteq> f" using Cons.prems(1-3) f k(1) by (auto simp: list_all_iff)
    have "\<not> os_leq os k e"
      using leq_antisym [OF ok(1,2,4)] leq_trans [OF ok(2,3,1)] subsumes_leq [OF ok(2,3) k(2)] ok(5) by blast
    with k show ?thesis by auto
  qed
  with Cons.IH [of ?rest] Cons.prems show ?case by (auto simp: list_all_iff)
qed simp

end

end
