(* ===== verification/Inference_Subsume.thy ===== *)
theory Inference_Subsume
  imports Inference_Trie "HOL-Library.Multiset"
begin

text \<open>
  Model of the maps of \<^verbatim>\<open>inference/src/subsume.rs\<close>: the trait \<^verbatim>\<open>SubsumptionMap\<close> as a record of its
  operations, its implementations, and its contract as a locale: a finite map that also lists the entries whose
  key subsumes, or is subsumed by, a given key.
\<close>

section \<open>The trait\<close>

text \<open>\<open>sm_put\<close> is writing through the reference \<open>get_mut\<close> returns, when it returns one. \<open>None\<close> is a panic.\<close>

record ('k, 'v, 'm) smap_ops =
  sm_new :: 'm
  sm_is_empty :: "'m \<Rightarrow> bool"
  sm_len :: "'m \<Rightarrow> nat option"
  sm_keys :: "'m \<Rightarrow> 'k list option"
  sm_insert :: "'k \<Rightarrow> 'v \<Rightarrow> 'm \<Rightarrow> 'm option"
  sm_remove :: "'k \<Rightarrow> 'm \<Rightarrow> ('v \<times> 'm) option"
  sm_get :: "'k \<Rightarrow> 'm \<Rightarrow> 'v option"
  sm_put :: "'k \<Rightarrow> 'v \<Rightarrow> 'm \<Rightarrow> 'm"
  sm_get_subsuming :: "'k \<Rightarrow> 'm \<Rightarrow> ('k \<times> 'v) list option"
  sm_get_subsumed :: "'k \<Rightarrow> 'm \<Rightarrow> ('k \<times> 'v) list option"

section \<open>Maps without subsumption between different keys\<close>

text \<open>The order in which a hash map goes through its keys is a parameter.\<close>

definition eq_map_ops :: "('k list \<Rightarrow> 'k list) \<Rightarrow> ('k, 'v, ('k \<times> 'v) list) smap_ops" where
  "eq_map_ops ord = \<lparr>
     sm_new = [],
     sm_is_empty = (\<lambda>m. m = []),
     sm_len = (\<lambda>m. Some (length m)),
     sm_keys = (\<lambda>m. Some (ord (map fst m))),
     sm_insert = (\<lambda>k v m. if map_of m k = None then Some (AList.update k v m) else None),
     sm_remove = (\<lambda>k m. map_option (\<lambda>v. (v, AList.delete k m)) (map_of m k)),
     sm_get = (\<lambda>k m. map_of m k),
     sm_put = (\<lambda>k v m. if map_of m k = None then m else AList.update k v m),
     sm_get_subsuming = (\<lambda>k m. Some (case map_of m k of Some v \<Rightarrow> [(k, v)] | None \<Rightarrow> [])),
     sm_get_subsumed = (\<lambda>k m. Some (case map_of m k of Some v \<Rightarrow> [(k, v)] | None \<Rightarrow> []))\<rparr>"

section \<open>Reversed maps and maps of pairs\<close>

definition reverse_keys :: "('k \<times> 'v) list \<Rightarrow> ('k reversed \<times> 'v) list" where
  "reverse_keys xs = map (\<lambda>(k, v). (Reversed k, v)) xs"

definition reversed_map_ops :: "('k, 'v, 'm) smap_ops \<Rightarrow> ('k reversed, 'v, 'm) smap_ops" where
  "reversed_map_ops ops = \<lparr>
     sm_new = sm_new ops,
     sm_is_empty = sm_is_empty ops,
     sm_len = sm_len ops,
     sm_keys = (\<lambda>m. map_option (map Reversed) (sm_keys ops m)),
     sm_insert = (\<lambda>k. sm_insert ops (unrev k)),
     sm_remove = (\<lambda>k. sm_remove ops (unrev k)),
     sm_get = (\<lambda>k. sm_get ops (unrev k)),
     sm_put = (\<lambda>k. sm_put ops (unrev k)),
     sm_get_subsuming = (\<lambda>k m. map_option reverse_keys (sm_get_subsumed ops (unrev k) m)),
     sm_get_subsumed = (\<lambda>k m. map_option reverse_keys (sm_get_subsuming ops (unrev k) m))\<rparr>"

definition pair_len :: "('k, 'm2, 'm) smap_ops \<Rightarrow> ('l, 'v, 'm2) smap_ops \<Rightarrow> 'm \<Rightarrow> nat option" where
  "pair_len ops1 ops2 m =
     (case sm_keys ops1 m of None \<Rightarrow> None | Some ks \<Rightarrow>
        map_option sum_list (those (map (\<lambda>k. Option.bind (sm_get ops1 k m) (sm_len ops2)) ks)))"

definition pair_keys :: "('k, 'm2, 'm) smap_ops \<Rightarrow> ('l, 'v, 'm2) smap_ops \<Rightarrow> 'm \<Rightarrow> ('k, 'l) pair_like list option" where
  "pair_keys ops1 ops2 m =
     (case sm_keys ops1 m of None \<Rightarrow> None | Some ks \<Rightarrow>
        map_option concat (those (map (\<lambda>k1. map_option (map (PairLike k1)) (Option.bind (sm_get ops1 k1 m) (sm_keys ops2))) ks)))"

definition pair_insert ::
  "('k, 'm2, 'm) smap_ops \<Rightarrow> ('l, 'v, 'm2) smap_ops \<Rightarrow> ('k, 'l) pair_like \<Rightarrow> 'v \<Rightarrow> 'm \<Rightarrow> 'm option" where
  "pair_insert ops1 ops2 key v m =
     (case sm_get ops1 (first_part key) m of
        Some inner \<Rightarrow> map_option (\<lambda>inner. sm_put ops1 (first_part key) inner m) (sm_insert ops2 (second_part key) v inner)
      | None \<Rightarrow> Option.bind (sm_insert ops2 (second_part key) v (sm_new ops2)) (\<lambda>inner. sm_insert ops1 (first_part key) inner m))"

definition pair_remove ::
  "('k, 'm2, 'm) smap_ops \<Rightarrow> ('l, 'v, 'm2) smap_ops \<Rightarrow> ('k, 'l) pair_like \<Rightarrow> 'm \<Rightarrow> ('v \<times> 'm) option" where
  "pair_remove ops1 ops2 key m =
     (case sm_get ops1 (first_part key) m of None \<Rightarrow> None | Some inner \<Rightarrow>
      (case sm_remove ops2 (second_part key) inner of None \<Rightarrow> None | Some (v, inner) \<Rightarrow>
       (let m = sm_put ops1 (first_part key) inner m in
        if sm_is_empty ops2 inner then map_option (\<lambda>(_, m). (v, m)) (sm_remove ops1 (first_part key) m)
        else Some (v, m))))"

text \<open>Both searches go through the results in the first parts and search the second parts.\<close>

definition pair_search ::
  "('k \<Rightarrow> 'm \<Rightarrow> ('k \<times> 'm2) list option) \<Rightarrow> ('l \<Rightarrow> 'm2 \<Rightarrow> ('l \<times> 'v) list option)
   \<Rightarrow> ('k, 'l) pair_like \<Rightarrow> 'm \<Rightarrow> (('k, 'l) pair_like \<times> 'v) list option" where
  "pair_search search1 search2 key m =
     (case search1 (first_part key) m of None \<Rightarrow> None | Some found \<Rightarrow>
        map_option concat (those (map (\<lambda>(k1, map2).
          map_option (map (\<lambda>(k2, v). (PairLike k1 k2, v))) (search2 (second_part key) map2)) found)))"

definition pair_map_ops ::
  "('k, 'm2, 'm) smap_ops \<Rightarrow> ('l, 'v, 'm2) smap_ops \<Rightarrow> (('k, 'l) pair_like, 'v, 'm) smap_ops" where
  "pair_map_ops ops1 ops2 = \<lparr>
     sm_new = sm_new ops1,
     sm_is_empty = sm_is_empty ops1,
     sm_len = pair_len ops1 ops2,
     sm_keys = pair_keys ops1 ops2,
     sm_insert = pair_insert ops1 ops2,
     sm_remove = pair_remove ops1 ops2,
     sm_get = (\<lambda>key m. case sm_get ops1 (first_part key) m of Some inner \<Rightarrow> sm_get ops2 (second_part key) inner | None \<Rightarrow> None),
     sm_put = (\<lambda>key v m. case sm_get ops1 (first_part key) m of
        Some inner \<Rightarrow> sm_put ops1 (first_part key) (sm_put ops2 (second_part key) v inner) m | None \<Rightarrow> m),
     sm_get_subsuming = pair_search (sm_get_subsuming ops1) (sm_get_subsuming ops2),
     sm_get_subsumed = pair_search (sm_get_subsumed ops1) (sm_get_subsumed ops2)\<rparr>"

section \<open>Maps of conjunctions\<close>

record ('o, 'v) and_map =
  am_keys :: "(nat \<times> 'o and_like) list"
  am_values :: "(nat \<times> 'v) list"
  am_trie :: "('o reversed, nat) trie_map"
  am_subsets :: "('o, nat list) trie_map"
  am_next :: nat

text \<open>The third-party code: \<open>powerset\<close> of the iterator library, and the orders of the hash maps and sets.\<close>

record 'o map_lib =
  ml_powerset :: "'o list \<Rightarrow> 'o list list"
  ml_edges :: "'o list \<Rightarrow> 'o list"
  ml_rev_edges :: "'o reversed list \<Rightarrow> 'o reversed list"
  ml_ids :: "nat list \<Rightarrow> nat list"

definition and_map_new :: "('o, 'v) and_map" where
  "and_map_new = \<lparr>am_keys = [], am_values = [], am_trie = trie_new, am_subsets = trie_new, am_next = 0\<rparr>"

definition set_insert :: "nat \<Rightarrow> nat list \<Rightarrow> nat list" where
  "set_insert i hs = (if i \<in> set hs then hs else hs @ [i])"

definition add_subset :: "nat \<Rightarrow> 'o list \<Rightarrow> ('o, nat list) trie_map \<Rightarrow> ('o, nat list) trie_map option" where
  "add_subset i part subsets =
     (if trie_get part subsets = None then trie_insert part [i] subsets
      else trie_mutate part (\<lambda>hs. Some (set_insert i hs)) subsets)"

definition drop_subset :: "nat \<Rightarrow> 'o list \<Rightarrow> ('o, nat list) trie_map \<Rightarrow> ('o, nat list) trie_map option" where
  "drop_subset i part subsets =
     trie_mutate part (\<lambda>hs. let hs = filter (\<lambda>j. j \<noteq> i) hs in if hs = [] then None else Some hs) subsets"

definition and_map_insert :: "'o map_lib \<Rightarrow> 'o and_like \<Rightarrow> 'v \<Rightarrow> ('o, 'v) and_map \<Rightarrow> ('o, 'v) and_map option" where
  "and_map_insert lib key value' m =
     (let i = am_next m in
      case trie_insert (reversed_vec (elements key)) i (am_trie m) of None \<Rightarrow> None | Some trie \<Rightarrow>
      (case fold_p (add_subset i) (ml_powerset lib (elements key)) (am_subsets m) of None \<Rightarrow> None | Some subsets \<Rightarrow>
         Some \<lparr>am_keys = AList.update i key (am_keys m), am_values = AList.update i value' (am_values m),
               am_trie = trie, am_subsets = subsets, am_next = Suc i\<rparr>))"

definition and_map_remove :: "'o map_lib \<Rightarrow> 'o and_like \<Rightarrow> ('o, 'v) and_map \<Rightarrow> ('v \<times> ('o, 'v) and_map) option" where
  "and_map_remove lib key m =
     (case trie_remove (reversed_vec (elements key)) (am_trie m) of None \<Rightarrow> None | Some (i, trie) \<Rightarrow>
      (case fold_p (drop_subset i) (ml_powerset lib (elements key)) (am_subsets m) of None \<Rightarrow> None | Some subsets \<Rightarrow>
         map_option (\<lambda>v. (v, m\<lparr>am_keys := AList.delete i (am_keys m), am_values := AList.delete i (am_values m),
                              am_trie := trie, am_subsets := subsets\<rparr>))
           (map_of (am_values m) i)))"

definition and_map_get :: "'o and_like \<Rightarrow> ('o, 'v) and_map \<Rightarrow> 'v option" where
  "and_map_get key m =
     (case trie_get (reversed_vec (elements key)) (am_trie m) of Some i \<Rightarrow> map_of (am_values m) i | None \<Rightarrow> None)"

definition and_map_put :: "'o and_like \<Rightarrow> 'v \<Rightarrow> ('o, 'v) and_map \<Rightarrow> ('o, 'v) and_map" where
  "and_map_put key v m =
     (case trie_get (reversed_vec (elements key)) (am_trie m) of
        Some i \<Rightarrow> (if map_of (am_values m) i = None then m else m\<lparr>am_values := AList.update i v (am_values m)\<rparr>)
      | None \<Rightarrow> m)"

text \<open>\<open>(self.keys[i].clone(), &self.values[i])\<close>\<close>

definition and_map_entry :: "('o, 'v) and_map \<Rightarrow> nat \<Rightarrow> ('o and_like \<times> 'v) option" where
  "and_map_entry m i =
     (case (map_of (am_keys m) i, map_of (am_values m) i) of (Some k, Some v) \<Rightarrow> Some (k, v) | _ \<Rightarrow> None)"

definition and_map_subsuming ::
  "('o, 'b) order_ops \<Rightarrow> 'o map_lib \<Rightarrow> 'o and_like \<Rightarrow> ('o, 'v) and_map \<Rightarrow> ('o and_like \<times> 'v) list option" where
  "and_map_subsuming os lib key m =
     those (map (and_map_entry m)
       (concat (map (\<lambda>(_, is'). ml_ids lib is') (get_subsuming_and os (ml_edges lib) (elements key) [] (am_subsets m)))))"

definition and_map_subsumed ::
  "('o, 'b) order_ops \<Rightarrow> 'o map_lib \<Rightarrow> 'o and_like \<Rightarrow> ('o, 'v) and_map \<Rightarrow> ('o and_like \<times> 'v) list option" where
  "and_map_subsumed os lib key m =
     those (map (\<lambda>(k, i). map_option (Pair (AndLike (map unrev (rev k)))) (map_of (am_values m) i))
       (get_subsuming_or (reversed_order os) (ml_rev_edges lib) (reversed_vec (elements key)) [] (am_trie m)))"

definition and_map_ops :: "('o, 'b) order_ops \<Rightarrow> 'o map_lib \<Rightarrow> ('o and_like, 'v, ('o, 'v) and_map) smap_ops" where
  "and_map_ops os lib = \<lparr>
     sm_new = and_map_new,
     sm_is_empty = (\<lambda>m. am_keys m = []),
     sm_len = (\<lambda>m. Some (length (am_keys m))),
     sm_keys = (\<lambda>m. those (map (map_of (am_keys m)) (ml_ids lib (map fst (am_keys m))))),
     sm_insert = and_map_insert lib,
     sm_remove = and_map_remove lib,
     sm_get = and_map_get,
     sm_put = and_map_put,
     sm_get_subsuming = and_map_subsuming os lib,
     sm_get_subsumed = and_map_subsumed os lib\<rparr>"

section \<open>The contract\<close>

locale subsumption_map = order_subsumption os okay
  for os :: "('k, 'b) order_ops" and okay :: "'k \<Rightarrow> bool" +
  fixes ops :: "('k, 'v, 'm) smap_ops" and good :: "'m \<Rightarrow> bool" and entries :: "'m \<Rightarrow> 'k \<Rightarrow> 'v option"
  assumes new_map: "good (sm_new ops)" "entries (sm_new ops) = Map.empty"
    and keys_okay: "\<lbrakk> good m; entries m k = Some v \<rbrakk> \<Longrightarrow> okay k"
    and finite_map: "good m \<Longrightarrow> finite (dom (entries m))"
    and is_empty_map: "good m \<Longrightarrow> sm_is_empty ops m \<longleftrightarrow> entries m = Map.empty"
    and len_map: "good m \<Longrightarrow> sm_len ops m = Some (card (dom (entries m)))"
    and keys_map: "good m \<Longrightarrow> \<exists>ks. sm_keys ops m = Some ks \<and> distinct ks \<and> set ks = dom (entries m)"
    and get_map: "\<lbrakk> good m; okay k \<rbrakk> \<Longrightarrow> sm_get ops k m = entries m k"
    and insert_map: "\<lbrakk> good m; okay k; entries m k = None \<rbrakk>
      \<Longrightarrow> \<exists>m'. sm_insert ops k v m = Some m' \<and> good m' \<and> entries m' = (entries m)(k \<mapsto> v)"
    and insert_present: "\<lbrakk> good m; okay k; entries m k = Some w \<rbrakk> \<Longrightarrow> sm_insert ops k v m = None"
    and remove_map: "\<lbrakk> good m; okay k; entries m k = Some v \<rbrakk>
      \<Longrightarrow> \<exists>m'. sm_remove ops k m = Some (v, m') \<and> good m' \<and> entries m' = (entries m)(k := None)"
    and remove_absent: "\<lbrakk> good m; okay k; entries m k = None \<rbrakk> \<Longrightarrow> sm_remove ops k m = None"
    and put_map: "\<lbrakk> good m; okay k; entries m k = Some w \<rbrakk>
      \<Longrightarrow> good (sm_put ops k v m) \<and> entries (sm_put ops k v m) = (entries m)(k \<mapsto> v)"
    and subsuming_map: "\<lbrakk> good m; okay k \<rbrakk>
      \<Longrightarrow> \<exists>xs. sm_get_subsuming ops k m = Some xs \<and> set xs = {(k', v). entries m k' = Some v \<and> os_subsumes os k' k}"
    and subsumed_map: "\<lbrakk> good m; okay k \<rbrakk>
      \<Longrightarrow> \<exists>xs. sm_get_subsumed ops k m = Some xs \<and> set xs = {(k', v). entries m k' = Some v \<and> os_subsumes os k k'}"

section \<open>The contract of hash maps and of reversed maps\<close>

definition permutes :: "('a list \<Rightarrow> 'a list) \<Rightarrow> bool" where
  "permutes ord \<longleftrightarrow> (\<forall>xs. mset (ord xs) = mset xs)"

lemma permutesD: "permutes ord \<Longrightarrow> set (ord xs) = set xs" "permutes ord \<Longrightarrow> distinct (ord xs) = distinct xs"
  unfolding permutes_def by (metis mset_eq_setD) (metis mset_eq_imp_distinct_iff)

lemma dom_fst: "dom (map_of m) = set (map fst m)"
  by (simp add: dom_map_of_conv_image_fst)

definition eq_good :: "('k \<Rightarrow> bool) \<Rightarrow> ('k \<times> 'v) list \<Rightarrow> bool" where
  "eq_good okay m \<longleftrightarrow> distinct (map fst m) \<and> list_all okay (map fst m)"

lemma eq_map_contract:
  assumes "order_subsumption os okay" "permutes ord" and eq: "\<And>x y. os_subsumes os x y \<longleftrightarrow> x = y"
  shows "subsumption_map os okay (eq_map_ops ord) (eq_good okay) map_of"
proof (rule subsumption_map.intro [OF assms(1)], rule subsumption_map_axioms.intro, unfold eq_map_ops_def smap_ops.simps)
  have update: "eq_good okay (AList.update k v m) \<and> map_of (AList.update k v m) = (map_of m)(k \<mapsto> v)"
    if "eq_good okay m" "okay k" for m k v
    using that by (auto simp: eq_good_def distinct_update update_conv' list_all_iff dom_update [unfolded dom_fst])
  show "eq_good okay []" "map_of [] = Map.empty" by (simp_all add: eq_good_def)
  show "okay k" if "eq_good okay m" "map_of m k = Some v" for m k v
    using that by (force simp: eq_good_def list_all_iff dest: map_of_SomeD)
  show "finite (dom (map_of m))" for m by (rule finite_dom_map_of)
  show "m = [] \<longleftrightarrow> map_of m = Map.empty" for m by (cases m) auto
  show "Some (length m) = Some (card (dom (map_of m)))" if "eq_good okay m" for m
    using that distinct_card [of "map fst m"] by (simp add: eq_good_def dom_fst)
  show "\<exists>ks. Some (ord (map fst m)) = Some ks \<and> distinct ks \<and> set ks = dom (map_of m)" if "eq_good okay m" for m
    using that permutesD [OF assms(2)] by (simp add: eq_good_def dom_fst)
  show "\<exists>m'. (if map_of m k = None then Some (AList.update k v m) else None) = Some m' \<and> eq_good okay m' \<and> map_of m' = (map_of m)(k \<mapsto> v)"
    if "eq_good okay m" "okay k" "map_of m k = None" for m k v
    using update [OF that(1,2)] that(3) by simp
  show "eq_good okay (if map_of m k = None then m else AList.update k v m)
      \<and> map_of (if map_of m k = None then m else AList.update k v m) = (map_of m)(k \<mapsto> v)"
    if "eq_good okay m" "okay k" "map_of m k = Some w" for m k v w
    using update [OF that(1,2)] that(3) by simp
  show "\<exists>m'. map_option (\<lambda>v. (v, AList.delete k m)) (map_of m k) = Some (v, m') \<and> eq_good okay m' \<and> map_of m' = (map_of m)(k := None)"
    if "eq_good okay m" "okay k" "map_of m k = Some v" for m k v
    using that by (simp add: eq_good_def delete_conv' delete_keys list_all_iff distinct_removeAll del: set_map)
  show "\<exists>xs. Some (case map_of m k of None \<Rightarrow> [] | Some v \<Rightarrow> [(k, v)]) = Some xs
      \<and> set xs = {(k', v). map_of m k' = Some v \<and> os_subsumes os k' k}"
    "\<exists>xs. Some (case map_of m k of None \<Rightarrow> [] | Some v \<Rightarrow> [(k, v)]) = Some xs
      \<and> set xs = {(k', v). map_of m k' = Some v \<and> os_subsumes os k k'}" for m k
    by (auto simp: eq split: option.split)
qed auto

lemma dom_rev_entries: "dom (\<lambda>k. f (unrev k)) = Reversed ` dom f"
proof (intro set_eqI iffI)
  fix x assume "x \<in> dom (\<lambda>k. f (unrev k))"
  then show "x \<in> Reversed ` dom f" by (cases x) auto
qed auto

lemma in_reverse_keys: "(k, v) \<in> set (reverse_keys xs) \<longleftrightarrow> (unrev k, v) \<in> set xs"
  by (cases k) (force simp: reverse_keys_def)

definition rev_entries :: "('m \<Rightarrow> 'k \<Rightarrow> 'v option) \<Rightarrow> 'm \<Rightarrow> 'k reversed \<Rightarrow> 'v option" where
  "rev_entries entries m k = entries m (unrev k)"

context subsumption_map begin

lemma rev_entries_upd: "(\<lambda>k'. (f(k := v)) (unrev k')) = (\<lambda>k'. f (unrev k'))(Reversed k := v)"
  by (rule ext) (auto simp: reversed.expand)

lemma reversed_contract:
  "subsumption_map (reversed_order os) (reversed_okay okay) (reversed_map_ops ops) good (rev_entries entries)"
proof (rule subsumption_map.intro [OF reversed_laws], rule subsumption_map_axioms.intro,
    unfold reversed_map_ops_def reversed_order_def reversed_okay_def smap_ops.simps order_ops.simps)
  have entries': "rev_entries entries m = (\<lambda>k. entries m (unrev k))" for m by (rule ext) (simp add: rev_entries_def)
  have upd: "rev_entries entries m' = (rev_entries entries m)(k := v)" if "entries m' = (entries m)(unrev k := v)" for m' m k v
    unfolding entries' that rev_entries_upd by simp
  show "good (sm_new ops)" "rev_entries entries (sm_new ops) = Map.empty" using new_map by (simp_all add: entries')
  show "okay (unrev k)" if "good m" "rev_entries entries m k = Some v" for m k v using that keys_okay by (simp add: entries')
  show "finite (dom (rev_entries entries m))" if "good m" for m using finite_map [OF that] by (simp add: entries' dom_rev_entries)
  show "sm_is_empty ops m = (rev_entries entries m = Map.empty)" if "good m" for m
    using is_empty_map [OF that] by (metis (mono_tags, lifting) entries' ext reversed.sel)
  show "sm_len ops m = Some (card (dom (rev_entries entries m)))" if "good m" for m
    using len_map [OF that] by (simp add: entries' dom_rev_entries card_image inj_on_def)
  show "\<exists>ks. map_option (map Reversed) (sm_keys ops m) = Some ks \<and> distinct ks \<and> set ks = dom (rev_entries entries m)" if "good m" for m
    using keys_map [OF that] by (auto simp: entries' dom_rev_entries distinct_map inj_on_def)
  show "sm_get ops (unrev k) m = rev_entries entries m k" if "good m" "okay (unrev k)" for m k
    using get_map [OF that] by (simp add: entries')
  show "\<exists>m'. sm_insert ops (unrev k) v m = Some m' \<and> good m' \<and> rev_entries entries m' = (rev_entries entries m)(k \<mapsto> v)"
    if "good m" "okay (unrev k)" "rev_entries entries m k = None" for m k v
    using insert_map [OF that(1,2)] that(3) upd by (fastforce simp: entries')
  show "sm_insert ops (unrev k) v m = None" if "good m" "okay (unrev k)" "rev_entries entries m k = Some w" for m k v w
    using insert_present [OF that(1,2)] that(3) by (simp add: entries')
  show "\<exists>m'. sm_remove ops (unrev k) m = Some (v, m') \<and> good m' \<and> rev_entries entries m' = (rev_entries entries m)(k := None)"
    if "good m" "okay (unrev k)" "rev_entries entries m k = Some v" for m k v
    using remove_map [OF that(1,2)] that(3) upd by (fastforce simp: entries')
  show "sm_remove ops (unrev k) m = None" if "good m" "okay (unrev k)" "rev_entries entries m k = None" for m k
    using remove_absent [OF that(1,2)] that(3) by (simp add: entries')
  show "good (sm_put ops (unrev k) v m) \<and> rev_entries entries (sm_put ops (unrev k) v m) = (rev_entries entries m)(k \<mapsto> v)"
    if "good m" "okay (unrev k)" "rev_entries entries m k = Some w" for m k v w
    using put_map [OF that(1,2)] that(3) upd by (fastforce simp: entries')
  show "\<exists>xs. map_option reverse_keys (sm_get_subsumed ops (unrev k) m) = Some xs
      \<and> set xs = {(k', v). rev_entries entries m k' = Some v \<and> os_subsumes os (unrev k) (unrev k')}" if "good m" "okay (unrev k)" for m k
    using subsumed_map [OF that] by (auto simp: entries' set_eq_iff in_reverse_keys)
  show "\<exists>xs. map_option reverse_keys (sm_get_subsuming ops (unrev k) m) = Some xs
      \<and> set xs = {(k', v). rev_entries entries m k' = Some v \<and> os_subsumes os (unrev k') (unrev k)}" if "good m" "okay (unrev k)" for m k
    using subsuming_map [OF that] by (auto simp: entries' set_eq_iff in_reverse_keys)
qed

end

end
