(* ===== verification/Inference_Subsume_Pair.thy ===== *)
theory Inference_Subsume_Pair
  imports Inference_Subsume
begin

text \<open>
  The contract of \<^verbatim>\<open>PairSubsumptionMap\<close> (\<^verbatim>\<open>inference/src/subsume.rs\<close>): a map from the first parts to
  maps from the second parts, none of them empty, is a map of the pairs when both kinds of maps keep their
  contract.
\<close>

definition pair_entries ::
  "('m \<Rightarrow> 'k \<Rightarrow> 'm2 option) \<Rightarrow> ('m2 \<Rightarrow> 'l \<Rightarrow> 'v option) \<Rightarrow> 'm \<Rightarrow> ('k, 'l) pair_like \<Rightarrow> 'v option" where
  "pair_entries e1 e2 m key = (case e1 m (first_part key) of Some inner \<Rightarrow> e2 inner (second_part key) | None \<Rightarrow> None)"

definition pair_good ::
  "('m \<Rightarrow> bool) \<Rightarrow> ('m \<Rightarrow> 'k \<Rightarrow> 'm2 option) \<Rightarrow> ('m2 \<Rightarrow> bool) \<Rightarrow> ('m2 \<Rightarrow> 'l \<Rightarrow> 'v option) \<Rightarrow> 'm \<Rightarrow> bool" where
  "pair_good good1 e1 good2 e2 m \<longleftrightarrow> good1 m \<and> (\<forall>inner\<in>ran (e1 m). good2 inner \<and> e2 inner \<noteq> Map.empty)"

lemma pair_goodD:
  assumes "pair_good good1 e1 good2 e2 m"
  shows "good1 m" "e1 m k = Some inner \<Longrightarrow> good2 inner \<and> e2 inner \<noteq> Map.empty"
  using assms by (auto simp: pair_good_def ran_def)

lemma pair_entries_PairLike: "pair_entries e1 e2 m (PairLike k l) = (case e1 m k of Some inner \<Rightarrow> e2 inner l | None \<Rightarrow> None)"
  by (simp add: pair_entries_def split: option.split)

lemma dom_pair_entries:
  "dom (pair_entries e1 e2 m) = (\<lambda>(k, l). PairLike k l) ` (SIGMA k:dom (e1 m). dom (e2 (the (e1 m k))))"
proof (intro set_eqI iffI)
  fix x assume "x \<in> dom (pair_entries e1 e2 m)"
  then show "x \<in> (\<lambda>(k, l). PairLike k l) ` (SIGMA k:dom (e1 m). dom (e2 (the (e1 m k))))"
    by (cases x) (auto simp: pair_entries_PairLike image_iff split: option.splits)
qed (auto simp: pair_entries_PairLike)

lemma pair_entries_empty:
  "\<lbrakk> \<And>k inner. e1 m k = Some inner \<Longrightarrow> e2 inner \<noteq> Map.empty \<rbrakk> \<Longrightarrow> pair_entries e1 e2 m = Map.empty \<longleftrightarrow> e1 m = Map.empty"
proof
  assume ne: "\<And>k inner. e1 m k = Some inner \<Longrightarrow> e2 inner \<noteq> Map.empty" and empty: "pair_entries e1 e2 m = Map.empty"
  show "e1 m = Map.empty"
  proof (rule ext, rule ccontr)
    fix k assume "e1 m k \<noteq> None"
    then obtain inner where inner: "e1 m k = Some inner" by blast
    with ne obtain l where "e2 inner l \<noteq> None" by fastforce
    with fun_cong [OF empty, of "PairLike k l"] inner show False by (simp add: pair_entries_PairLike)
  qed
qed (auto simp: pair_entries_def)

lemma pair_entries_upd:
  assumes "e1 m' = (e1 m)(first_part key \<mapsto> inner')"
    and "e2 inner' = (case e1 m (first_part key) of Some inner \<Rightarrow> e2 inner | None \<Rightarrow> Map.empty)(second_part key := v)"
  shows "pair_entries e1 e2 m' = (pair_entries e1 e2 m)(key := v)"
proof (rule ext)
  fix x show "pair_entries e1 e2 m' x = ((pair_entries e1 e2 m)(key := v)) x"
    by (cases x; cases key) (auto simp: pair_entries_PairLike assms split: option.split)
qed

lemma pair_entries_drop:
  assumes "e1 m' = (e1 m)(first_part key := None)" "e1 m (first_part key) = Some inner" "(e2 inner)(second_part key := None) = Map.empty"
  shows "pair_entries e1 e2 m' = (pair_entries e1 e2 m)(key := None)"
proof (rule ext)
  fix x
  obtain k l where parts: "key = PairLike k l" by (cases key)
  have "e2 inner j = None" if "j \<noteq> l" for j using fun_cong [OF assms(3), of j] that by (simp add: parts)
  with assms(1,2) show "pair_entries e1 e2 m' x = ((pair_entries e1 e2 m)(key := None)) x"
    by (cases x) (auto simp: parts pair_entries_PairLike split: option.split)
qed

lemma pair_good_upd:
  assumes "pair_good good1 e1 good2 e2 m" "good1 m'" "e1 m' = (e1 m)(k \<mapsto> inner)" "good2 inner" "e2 inner \<noteq> Map.empty"
  shows "pair_good good1 e1 good2 e2 m'"
  using assms by (auto simp: pair_good_def ran_def)

lemma distinct_pairs: "\<lbrakk> distinct ks; \<And>k. k \<in> set ks \<Longrightarrow> distinct (K k) \<rbrakk> \<Longrightarrow> distinct (concat (map (\<lambda>k. map (PairLike k) (K k)) ks))"
  by (induction ks) (auto simp: distinct_map inj_on_def)

text \<open>Both searches, for a relation on the first and one on the second parts.\<close>

lemma pair_search_entries:
  fixes e1 :: "'m \<Rightarrow> 'k \<Rightarrow> 'm2 option" and e2 :: "'m2 \<Rightarrow> 'l \<Rightarrow> 'v option"
  assumes "search1 (first_part key) m = Some found" "set found = {(k, inner). e1 m k = Some inner \<and> R1 k}"
    and "\<And>k inner. e1 m k = Some inner \<Longrightarrow> \<exists>xs. search2 (second_part key) inner = Some xs \<and> set xs = {(l, v). e2 inner l = Some v \<and> R2 l}"
  shows "\<exists>xs. pair_search search1 search2 key m = Some xs
    \<and> set xs = {(k, v). pair_entries e1 e2 m k = Some v \<and> R1 (first_part k) \<and> R2 (second_part k)}"
proof -
  define S where "S = (\<lambda>(k1 :: 'k, inner). map (\<lambda>(k2, v). (PairLike k1 k2, v)) (the (search2 (second_part key) inner)))"
  have "(\<lambda>(k1, inner). map_option (map (\<lambda>(k2, v). (PairLike k1 k2, v))) (search2 (second_part key) inner)) x = Some (S x)"
    if x: "x \<in> set found" for x
  proof -
    from x assms(2) obtain k inner where "x = (k, inner)" "e1 m k = Some inner" by auto
    with assms(3) show ?thesis by (fastforce simp: S_def)
  qed
  then have res: "pair_search search1 search2 key m = Some (concat (map S found))"
    using those_map_SomeI [of found _ S] by (simp add: pair_search_def assms(1))
  have "(k, v) \<in> set (concat (map S found)) \<longleftrightarrow> pair_entries e1 e2 m k = Some v \<and> R1 (first_part k) \<and> R2 (second_part k)" for k v
  proof (cases k)
    case (PairLike k1 k2)
    have "(k, v) \<in> set (S (k1', inner)) \<longleftrightarrow> k1' = k1 \<and> e2 inner k2 = Some v \<and> R2 k2" if "e1 m k1' = Some inner" for k1' inner
      using assms(3) [OF that] by (auto simp: S_def PairLike image_iff)
    then show ?thesis using assms(2) by (auto simp: PairLike pair_entries_PairLike split: option.split)
  qed
  then show ?thesis using res by auto
qed

lemma pair_contract:
  assumes map1: "subsumption_map os1 okay1 ops1 good1 e1" and map2: "subsumption_map os2 okay2 ops2 good2 e2"
  shows "subsumption_map (pair_order os1 os2) (pair_okay okay1 okay2) (pair_map_ops ops1 ops2)
    (pair_good good1 e1 good2 e2) (pair_entries e1 e2)"
proof -
  let ?good = "pair_good good1 e1 good2 e2" and ?entries = "pair_entries e1 e2"
  note D = pair_goodD [of good1 e1 good2 e2]
  have ok: "okay1 (first_part k) \<and> okay2 (second_part k)" if "pair_okay okay1 okay2 k" for k using that by (simp add: pair_okay_def)
  have inner: "\<exists>inner. e1 m k = Some inner \<and> good2 inner \<and> okay1 k" if "?good m" "k \<in> dom (e1 m)" for m k
    using that D subsumption_map.keys_okay [OF map1, of m k] by blast
  show ?thesis
  proof (rule subsumption_map.intro, rule pair_laws [OF subsumption_map.axioms(1) [OF map1] subsumption_map.axioms(1) [OF map2]],
      rule subsumption_map_axioms.intro, unfold pair_map_ops_def smap_ops.simps)
    show "?good (sm_new ops1)" "?entries (sm_new ops1) = Map.empty"
      using subsumption_map.new_map [OF map1] by (auto simp: pair_good_def pair_entries_def)
    show "pair_okay okay1 okay2 k" if g: "?good m" and v: "?entries m k = Some v" for m k v
    proof -
      obtain inner where i: "e1 m (first_part k) = Some inner" "e2 inner (second_part k) = Some v"
        using v by (auto simp: pair_entries_def split: option.splits)
      show ?thesis using subsumption_map.keys_okay [OF map1 D(1) [OF g] i(1)]
        subsumption_map.keys_okay [OF map2 _ i(2)] D(2) [OF g i(1)] by (simp add: pair_okay_def)
    qed
    show "finite (dom (?entries m))" if "?good m" for m
      unfolding dom_pair_entries
      by (intro finite_imageI finite_SigmaI) (use subsumption_map.finite_map [OF map1 D(1) [OF that]]
        subsumption_map.finite_map [OF map2] D(2) [OF that] in auto)
    show "sm_is_empty ops1 m \<longleftrightarrow> ?entries m = Map.empty" if "?good m" for m
      using subsumption_map.is_empty_map [OF map1 D(1) [OF that]] pair_entries_empty [of e1 m e2] D(2) [OF that] by blast
    show "pair_len ops1 ops2 m = Some (card (dom (?entries m)))" if g: "?good m" for m
    proof -
      obtain ks where ks: "sm_keys ops1 m = Some ks" "distinct ks" "set ks = dom (e1 m)"
        using subsumption_map.keys_map [OF map1 D(1) [OF g]] by blast
      have "Option.bind (sm_get ops1 k m) (sm_len ops2) = Some (card (dom (e2 (the (e1 m k)))))" if "k \<in> set ks" for k
        using inner [OF g, of k] that ks(3) subsumption_map.get_map [OF map1 D(1) [OF g], of k] subsumption_map.len_map [OF map2]
        by auto
      then have "those (map (\<lambda>k. Option.bind (sm_get ops1 k m) (sm_len ops2)) ks) = Some (map (\<lambda>k. card (dom (e2 (the (e1 m k))))) ks)"
        by (rule those_map_SomeI)
      moreover have "sum_list (map (\<lambda>k. card (dom (e2 (the (e1 m k))))) ks) = (\<Sum>k\<in>dom (e1 m). card (dom (e2 (the (e1 m k)))))"
        using sum_list_distinct_conv_sum_set [OF ks(2)] ks(3) by simp
      moreover have "card (dom (?entries m)) = (\<Sum>k\<in>dom (e1 m). card (dom (e2 (the (e1 m k)))))"
      proof -
        have "card (dom (?entries m)) = card (SIGMA k:dom (e1 m). dom (e2 (the (e1 m k))))"
          unfolding dom_pair_entries by (rule card_image) (auto simp: inj_on_def)
        also have "\<dots> = (\<Sum>k\<in>dom (e1 m). card (dom (e2 (the (e1 m k)))))"
          by (rule card_SigmaI) (use subsumption_map.finite_map [OF map1 D(1) [OF g]]
            subsumption_map.finite_map [OF map2] D(2) [OF g] in auto)
        finally show ?thesis .
      qed
      ultimately show ?thesis by (simp add: pair_len_def ks(1))
    qed
    show "\<exists>ks. pair_keys ops1 ops2 m = Some ks \<and> distinct ks \<and> set ks = dom (?entries m)" if g: "?good m" for m
    proof -
      obtain ks where ks: "sm_keys ops1 m = Some ks" "distinct ks" "set ks = dom (e1 m)"
        using subsumption_map.keys_map [OF map1 D(1) [OF g]] by blast
      define K where "K k = the (sm_keys ops2 (the (e1 m k)))" for k
      have K: "Option.bind (sm_get ops1 k m) (sm_keys ops2) = Some (K k) \<and> distinct (K k) \<and> set (K k) = dom (e2 (the (e1 m k)))"
        if "k \<in> set ks" for k
        using inner [OF g, of k] that ks(3) subsumption_map.get_map [OF map1 D(1) [OF g], of k] subsumption_map.keys_map [OF map2]
        by (fastforce simp: K_def)
      then have "those (map (\<lambda>k1. map_option (map (PairLike k1)) (Option.bind (sm_get ops1 k1 m) (sm_keys ops2))) ks)
          = Some (map (\<lambda>k. map (PairLike k) (K k)) ks)"
        by (intro those_map_SomeI) simp
      moreover have "distinct (concat (map (\<lambda>k. map (PairLike k) (K k)) ks))" using ks(2) K by (intro distinct_pairs) blast+
      moreover have "set (concat (map (\<lambda>k. map (PairLike k) (K k)) ks)) = dom (?entries m)"
        unfolding dom_pair_entries using K ks(3) by force
      ultimately show ?thesis by (simp add: pair_keys_def ks(1))
    qed
    show "(case sm_get ops1 (first_part k) m of None \<Rightarrow> None | Some inner \<Rightarrow> sm_get ops2 (second_part k) inner) = ?entries m k"
      if "?good m" "pair_okay okay1 okay2 k" for m k
      using subsumption_map.get_map [OF map1 D(1) [OF that(1)]] subsumption_map.get_map [OF map2] D(2) [OF that(1)] ok [OF that(2)]
      by (auto simp: pair_entries_def split: option.split)
    show "\<exists>m'. pair_insert ops1 ops2 k v m = Some m' \<and> ?good m' \<and> ?entries m' = (?entries m)(k \<mapsto> v)"
      if g: "?good m" and k: "pair_okay okay1 okay2 k" and none: "?entries m k = None" for m k v
    proof (cases "e1 m (first_part k)")
      case None
      obtain new where new: "sm_insert ops2 (second_part k) v (sm_new ops2) = Some new" "good2 new" "e2 new = [second_part k \<mapsto> v]"
        using subsumption_map.insert_map [OF map2 subsumption_map.new_map(1) [OF map2], of "second_part k" v] ok [OF k]
          subsumption_map.new_map(2) [OF map2] by auto
      obtain m' where m': "sm_insert ops1 (first_part k) new m = Some m'" "good1 m'" "e1 m' = (e1 m)(first_part k \<mapsto> new)"
        using subsumption_map.insert_map [OF map1 D(1) [OF g], of "first_part k" new] ok [OF k] None by blast
      have "pair_insert ops1 ops2 k v m = Some m'"
        using subsumption_map.get_map [OF map1 D(1) [OF g], of "first_part k"] ok [OF k] None new(1) m'(1) by (simp add: pair_insert_def)
      moreover have "?good m'" by (rule pair_good_upd [OF g m'(2,3) new(2)]) (simp add: new(3))
      moreover have "?entries m' = (?entries m)(k \<mapsto> v)" by (rule pair_entries_upd [OF m'(3)]) (simp add: new(3) None)
      ultimately show ?thesis by blast
    next
      case (Some inner)
      have i: "good2 inner" "e2 inner (second_part k) = None" using D(2) [OF g Some] none Some by (simp_all add: pair_entries_def)
      obtain inner' where inner': "sm_insert ops2 (second_part k) v inner = Some inner'" "good2 inner'" "e2 inner' = (e2 inner)(second_part k \<mapsto> v)"
        using subsumption_map.insert_map [OF map2 i(1) _ i(2), of v] ok [OF k] by blast
      let ?m = "sm_put ops1 (first_part k) inner' m"
      have m': "good1 ?m" "e1 ?m = (e1 m)(first_part k \<mapsto> inner')"
        using subsumption_map.put_map [OF map1 D(1) [OF g] _ Some, of inner'] ok [OF k] by blast+
      have "pair_insert ops1 ops2 k v m = Some ?m"
        using subsumption_map.get_map [OF map1 D(1) [OF g], of "first_part k"] ok [OF k] Some inner'(1) by (simp add: pair_insert_def)
      moreover have "?good ?m" by (rule pair_good_upd [OF g m' inner'(2)]) (auto simp: inner'(3))
      moreover have "?entries ?m = (?entries m)(k \<mapsto> v)" by (rule pair_entries_upd [OF m'(2)]) (simp add: inner'(3) Some)
      ultimately show ?thesis by blast
    qed
    show "pair_insert ops1 ops2 k v m = None" if g: "?good m" and k: "pair_okay okay1 okay2 k" and w: "?entries m k = Some w" for m k v w
    proof -
      obtain inner where i: "e1 m (first_part k) = Some inner" "e2 inner (second_part k) = Some w"
        using w by (auto simp: pair_entries_def split: option.splits)
      have "sm_insert ops2 (second_part k) v inner = None"
        using subsumption_map.insert_present [OF map2 _ _ i(2), of v] D(2) [OF g i(1)] ok [OF k] by blast
      with subsumption_map.get_map [OF map1 D(1) [OF g], of "first_part k"] ok [OF k] i(1) show ?thesis by (simp add: pair_insert_def)
    qed
    show "\<exists>m'. pair_remove ops1 ops2 k m = Some (v, m') \<and> ?good m' \<and> ?entries m' = (?entries m)(k := None)"
      if g: "?good m" and k: "pair_okay okay1 okay2 k" and v: "?entries m k = Some v" for m k v
    proof -
      obtain inner where i: "e1 m (first_part k) = Some inner" "e2 inner (second_part k) = Some v"
        using v by (auto simp: pair_entries_def split: option.splits)
      obtain inner' where inner': "sm_remove ops2 (second_part k) inner = Some (v, inner')" "good2 inner'" "e2 inner' = (e2 inner)(second_part k := None)"
        using subsumption_map.remove_map [OF map2 _ _ i(2)] D(2) [OF g i(1)] ok [OF k] by blast
      let ?m = "sm_put ops1 (first_part k) inner' m"
      have m': "good1 ?m" "e1 ?m = (e1 m)(first_part k \<mapsto> inner')"
        using subsumption_map.put_map [OF map1 D(1) [OF g] _ i(1), of inner'] ok [OF k] by blast+
      have get: "sm_get ops1 (first_part k) m = Some inner"
        using subsumption_map.get_map [OF map1 D(1) [OF g], of "first_part k"] ok [OF k] i(1) by simp
      show ?thesis
      proof (cases "e2 inner' = Map.empty")
        case True
        then have empty: "sm_is_empty ops2 inner'" using subsumption_map.is_empty_map [OF map2 inner'(2)] by blast
        obtain m2 where m2: "sm_remove ops1 (first_part k) ?m = Some (inner', m2)" "good1 m2" "e1 m2 = (e1 ?m)(first_part k := None)"
          using subsumption_map.remove_map [OF map1 m'(1), of "first_part k" inner'] m'(2) ok [OF k] by auto
        from m2(3) m'(2) have e1: "e1 m2 = (e1 m)(first_part k := None)" by simp
        have "pair_remove ops1 ops2 k m = Some (v, m2)" using get inner'(1) empty m2(1) by (simp add: pair_remove_def)
        moreover have "?good m2" using g m2(2) by (auto simp: pair_good_def e1 ran_def split: if_splits)
        moreover have "?entries m2 = (?entries m)(k := None)"
          by (rule pair_entries_drop [OF e1 i(1)]) (use True inner'(3) in simp)
        ultimately show ?thesis by blast
      next
        case False
        then have "\<not> sm_is_empty ops2 inner'" using subsumption_map.is_empty_map [OF map2 inner'(2)] by blast
        then have "pair_remove ops1 ops2 k m = Some (v, ?m)" using get inner'(1) by (simp add: pair_remove_def)
        moreover have "?good ?m" by (rule pair_good_upd [OF g m' inner'(2) False])
        moreover have "?entries ?m = (?entries m)(k := None)" by (rule pair_entries_upd [OF m'(2)]) (simp add: inner'(3) i(1))
        ultimately show ?thesis by blast
      qed
    qed
    show "pair_remove ops1 ops2 k m = None" if g: "?good m" and k: "pair_okay okay1 okay2 k" and none: "?entries m k = None" for m k
    proof (cases "e1 m (first_part k)")
      case None
      with subsumption_map.get_map [OF map1 D(1) [OF g], of "first_part k"] ok [OF k] show ?thesis by (simp add: pair_remove_def)
    next
      case (Some inner)
      with none have "e2 inner (second_part k) = None" by (simp add: pair_entries_def)
      then have "sm_remove ops2 (second_part k) inner = None"
        using subsumption_map.remove_absent [OF map2, of inner "second_part k"] D(2) [OF g Some] ok [OF k] by blast
      with subsumption_map.get_map [OF map1 D(1) [OF g], of "first_part k"] ok [OF k] Some show ?thesis by (simp add: pair_remove_def)
    qed
    let ?put = "\<lambda>k v m. case sm_get ops1 (first_part k) m of None \<Rightarrow> m
      | Some inner \<Rightarrow> sm_put ops1 (first_part k) (sm_put ops2 (second_part k) v inner) m"
    show "?good (?put k v m) \<and> ?entries (?put k v m) = (?entries m)(k \<mapsto> v)"
      if g: "?good m" and k: "pair_okay okay1 okay2 k" and w: "?entries m k = Some w" for m k v w
    proof -
      obtain inner where i: "e1 m (first_part k) = Some inner" "e2 inner (second_part k) = Some w"
        using w by (auto simp: pair_entries_def split: option.splits)
      let ?inner = "sm_put ops2 (second_part k) v inner"
      have i': "good2 ?inner" "e2 ?inner = (e2 inner)(second_part k \<mapsto> v)"
        using subsumption_map.put_map [OF map2 _ _ i(2), of v] D(2) [OF g i(1)] ok [OF k] by blast+
      let ?m = "sm_put ops1 (first_part k) ?inner m"
      have m': "good1 ?m" "e1 ?m = (e1 m)(first_part k \<mapsto> ?inner)"
        using subsumption_map.put_map [OF map1 D(1) [OF g] _ i(1), of ?inner] ok [OF k] by blast+
      have "?good ?m" by (rule pair_good_upd [OF g m' i'(1)]) (auto simp: i'(2))
      moreover have "?entries ?m = (?entries m)(k \<mapsto> v)" by (rule pair_entries_upd [OF m'(2)]) (simp add: i'(2) i(1))
      moreover have "sm_get ops1 (first_part k) m = Some inner"
        using subsumption_map.get_map [OF map1 D(1) [OF g], of "first_part k"] ok [OF k] i(1) by simp
      ultimately show ?thesis by simp
    qed
    show "\<exists>xs. pair_search (sm_get_subsuming ops1) (sm_get_subsuming ops2) k m = Some xs
        \<and> set xs = {(k', v). ?entries m k' = Some v \<and> os_subsumes (pair_order os1 os2) k' k}"
      if g: "?good m" and k: "pair_okay okay1 okay2 k" for m k
    proof -
      obtain found where found: "sm_get_subsuming ops1 (first_part k) m = Some found"
        "set found = {(k', inner). e1 m k' = Some inner \<and> os_subsumes os1 k' (first_part k)}"
        using subsumption_map.subsuming_map [OF map1 D(1) [OF g]] ok [OF k] by blast
      show ?thesis
        using pair_search_entries [where ?R1.0 = "\<lambda>k'. os_subsumes os1 k' (first_part k)" and ?R2.0 = "\<lambda>l. os_subsumes os2 l (second_part k)"
            and ?search1.0 = "sm_get_subsuming ops1" and ?search2.0 = "sm_get_subsuming ops2" and key = k and ?e1.0 = e1 and ?e2.0 = e2, OF found]
          subsumption_map.subsuming_map [OF map2] D(2) [OF g] ok [OF k] by (simp add: pair_order_def)
    qed
    show "\<exists>xs. pair_search (sm_get_subsumed ops1) (sm_get_subsumed ops2) k m = Some xs
        \<and> set xs = {(k', v). ?entries m k' = Some v \<and> os_subsumes (pair_order os1 os2) k k'}"
      if g: "?good m" and k: "pair_okay okay1 okay2 k" for m k
    proof -
      obtain found where found: "sm_get_subsumed ops1 (first_part k) m = Some found"
        "set found = {(k', inner). e1 m k' = Some inner \<and> os_subsumes os1 (first_part k) k'}"
        using subsumption_map.subsumed_map [OF map1 D(1) [OF g]] ok [OF k] by blast
      show ?thesis
        using pair_search_entries [where ?R1.0 = "\<lambda>k'. os_subsumes os1 (first_part k) k'" and ?R2.0 = "\<lambda>l. os_subsumes os2 (second_part k) l"
            and ?search1.0 = "sm_get_subsumed ops1" and ?search2.0 = "sm_get_subsumed ops2" and key = k and ?e1.0 = e1 and ?e2.0 = e2, OF found]
          subsumption_map.subsumed_map [OF map2] D(2) [OF g] ok [OF k] by (simp add: pair_order_def)
    qed
  qed
qed

end
