(* ===== verification/Inference_And_Map.thy ===== *)
theory Inference_And_Map
  imports Inference_Subsume
begin

text \<open>
  The contract of \<^verbatim>\<open>AndSubsumptionMap\<close> (\<^verbatim>\<open>inference/src/subsume.rs\<close>). A key gets a number; one trie maps
  the reversed elements of a key to its number, the other maps every subset of the elements of a key to the
  numbers of the keys that have it.
\<close>

section \<open>Invariant and contents\<close>

definition map_lib_doc :: "'o map_lib \<Rightarrow> bool" where
  "map_lib_doc lib \<longleftrightarrow> (\<forall>xs. mset (ml_powerset lib xs) = mset (subseqs xs))
     \<and> keeps_elements (ml_edges lib) \<and> keeps_elements (ml_rev_edges lib) \<and> permutes (ml_ids lib)"

definition ids_with :: "(nat \<Rightarrow> 'o and_like option) \<Rightarrow> 'o list \<Rightarrow> nat set" where
  "ids_with keys p = {i. \<exists>k. keys i = Some k \<and> p \<in> set (subseqs (elements k))}"

definition and_entries :: "('o, 'v) and_map \<Rightarrow> 'o and_like \<Rightarrow> 'v option" where
  "and_entries m = map_of (map (\<lambda>(i, k). (k, the (map_of (am_values m) i))) (am_keys m))"

definition ids_entry :: "nat set \<Rightarrow> nat list option \<Rightarrow> bool" where
  "ids_entry S r \<longleftrightarrow> (case r of None \<Rightarrow> S = {} | Some hs \<Rightarrow> hs \<noteq> [] \<and> set hs = S)"

definition subsets_good :: "(nat \<Rightarrow> 'o and_like option) \<Rightarrow> ('o, nat list) trie_map \<Rightarrow> bool" where
  "subsets_good keys t \<longleftrightarrow> (\<forall>p. ids_entry (ids_with keys p) (trie_get p t))"

lemma ids_entry_add: "ids_entry S r \<Longrightarrow> ids_entry (insert n S) (Some (case r of None \<Rightarrow> [n] | Some hs \<Rightarrow> set_insert n hs))"
  by (auto simp: ids_entry_def set_insert_def split: option.splits)

lemma ids_entry_drop:
  "ids_entry S r \<Longrightarrow> S \<noteq> {} \<Longrightarrow> ids_entry (S - {i}) (let hs = filter (\<lambda>j. j \<noteq> i) (the r) in if hs = [] then None else Some hs)"
  by (auto simp: ids_entry_def Let_def filter_empty_conv split: option.splits)

definition keys_good ::
  "('o, 'b) order_ops \<Rightarrow> ('o \<Rightarrow> bool) \<Rightarrow> (nat \<Rightarrow> 'o and_like option) \<Rightarrow> (nat \<Rightarrow> 'v option) \<Rightarrow> nat \<Rightarrow> bool" where
  "keys_good os okay keys vals n \<longleftrightarrow> dom vals = dom keys
     \<and> (\<forall>i k. keys i = Some k \<longrightarrow> i < n \<and> and_okay os okay k)
     \<and> (\<forall>i j k. keys i = Some k \<longrightarrow> keys j = Some k \<longrightarrow> i = j)"

definition and_good :: "('o, 'b) order_ops \<Rightarrow> ('o \<Rightarrow> bool) \<Rightarrow> ('o, 'v) and_map \<Rightarrow> bool" where
  "and_good os okay m \<longleftrightarrow> distinct (map fst (am_keys m)) \<and> keys_good os okay (map_of (am_keys m)) (map_of (am_values m)) (am_next m)
     \<and> trie_okay (am_trie m) \<and> trie_okay (am_subsets m)
     \<and> (\<forall>p i. trie_get p (am_trie m) = Some i \<longleftrightarrow> (\<exists>k. map_of (am_keys m) i = Some k \<and> p = reversed_vec (elements k)))
     \<and> subsets_good (map_of (am_keys m)) (am_subsets m)"

lemma reversed_vec_inject: "reversed_vec (elements k) = reversed_vec (elements k') \<longleftrightarrow> k = k'"
  by (auto simp: reversed_vec_def inj_on_def inj_map_eq_map [OF inj_onI] intro: and_like.expand)

lemma unrev_reversed_vec: "AndLike (map unrev (rev (reversed_vec (elements k)))) = k"
  by (simp add: reversed_vec_def rev_map comp_def)

lemma keys_goodD:
  assumes "keys_good os okay keys vals n"
  shows "dom vals = dom keys" "keys i = Some k \<Longrightarrow> i < n" "keys i = Some k \<Longrightarrow> and_okay os okay k"
    and "keys i = Some k \<Longrightarrow> \<exists>v. vals i = Some v"
    and "\<lbrakk> keys i = Some k; keys j = Some k \<rbrakk> \<Longrightarrow> i = j"
  using assms unfolding keys_good_def by blast+

definition entry_of :: "(nat \<Rightarrow> 'o and_like option) \<Rightarrow> (nat \<Rightarrow> 'v option) \<Rightarrow> 'o and_like \<Rightarrow> 'v option \<Rightarrow> bool" where
  "entry_of keys vals k v \<longleftrightarrow> (case v of Some w \<Rightarrow> \<exists>i. keys i = Some k \<and> vals i = Some w | None \<Rightarrow> \<forall>i. keys i \<noteq> Some k)"

lemma entry_of_unique: "\<lbrakk> keys_good os okay keys vals n; entry_of keys vals k v; entry_of keys vals k w \<rbrakk> \<Longrightarrow> v = w"
  using keys_goodD(5) by (fastforce simp: entry_of_def split: option.splits)

lemma distinct_keys:
  assumes "distinct (map fst ks)" "keys_good os okay (map_of ks) vals n"
  shows "distinct (map snd ks)"
proof -
  have "distinct ks" using assms(1) by (simp add: distinct_map)
  moreover have "inj_on snd (set ks)"
  proof (rule inj_onI)
    fix x y assume "x \<in> set ks" "y \<in> set ks" "snd x = snd y"
    then have "map_of ks (fst x) = Some (snd x)" "map_of ks (fst y) = Some (snd x)"
      using map_of_is_SomeI [OF assms(1)] prod.collapse by metis+
    then have "fst x = fst y" by (rule keys_goodD(5) [OF assms(2)])
    with \<open>snd x = snd y\<close> show "x = y" by (simp add: prod_eq_iff)
  qed
  ultimately show ?thesis by (simp add: distinct_map)
qed

lemma and_entries_entry_of:
  assumes dist: "distinct (map fst (am_keys m))" and good: "keys_good os okay (map_of (am_keys m)) (map_of (am_values m)) n"
  shows "entry_of (map_of (am_keys m)) (map_of (am_values m)) k (and_entries m k)"
proof -
  let ?es = "map (\<lambda>(i, k). (k, the (map_of (am_values m) i))) (am_keys m)"
  show ?thesis
  proof (cases "and_entries m k")
    case None
    then have "k \<notin> fst ` set ?es" by (simp add: and_entries_def map_of_eq_None_iff)
    then have "(i, k) \<notin> set (am_keys m)" for i by force
    with None show ?thesis by (auto simp: entry_of_def dest: map_of_SomeD)
  next
    case (Some v)
    then have "(k, v) \<in> set ?es" unfolding and_entries_def by (rule map_of_SomeD)
    then obtain i where "(i, k) \<in> set (am_keys m)" "v = the (map_of (am_values m) i)" by auto
    moreover from this dist have "map_of (am_keys m) i = Some k" by simp
    ultimately show ?thesis using Some keys_goodD(4) [OF good, of i k] by (auto simp: entry_of_def)
  qed
qed

text \<open>How the entries change when the numbered keys and values do.\<close>

lemma entry_of_cases:
  "entry_of keys vals k (Some v) \<longleftrightarrow> (\<exists>i. keys i = Some k \<and> vals i = Some v)"
  "entry_of keys vals k None \<longleftrightarrow> (\<forall>i. keys i \<noteq> Some k)"
  by (simp_all add: entry_of_def)

lemma keys_good_insert:
  assumes good: "keys_good os okay keys vals n" and fresh: "\<forall>i. keys i \<noteq> Some k" and k: "and_okay os okay k"
    and entry: "entry_of keys vals k' w"
  shows "keys_good os okay (keys(n \<mapsto> k)) (vals(n \<mapsto> v)) (Suc n)"
    and "entry_of (keys(n \<mapsto> k)) (vals(n \<mapsto> v)) k' (if k' = k then Some v else w)"
proof -
  show "keys_good os okay (keys(n \<mapsto> k)) (vals(n \<mapsto> v)) (Suc n)"
    using good fresh k unfolding keys_good_def by (auto simp: less_Suc_eq)
  have n: "keys n \<noteq> Some k'" for k' using keys_goodD(2) [OF good, of n] by blast
  show "entry_of (keys(n \<mapsto> k)) (vals(n \<mapsto> v)) k' (if k' = k then Some v else w)"
  proof (cases "k' = k")
    case True
    then show ?thesis by (auto simp: entry_of_cases intro!: exI [of _ n])
  next
    case False
    show ?thesis
    proof (cases w)
      case (Some x)
      with entry obtain i where "keys i = Some k'" "vals i = Some x" by (auto simp: entry_of_cases)
      with n [of k'] False Some show ?thesis by (auto simp: entry_of_cases intro!: exI [of _ i])
    qed (use entry False in \<open>simp add: entry_of_cases\<close>)
  qed
qed

lemma keys_good_remove:
  assumes good: "keys_good os okay keys vals n" and i: "keys i = Some k" and entry: "entry_of keys vals k' w"
  shows "keys_good os okay (keys(i := None)) (vals(i := None)) n"
    and "entry_of (keys(i := None)) (vals(i := None)) k' (if k' = k then None else w)"
proof -
  have dom: "dom vals = dom keys" by (rule keys_goodD(1) [OF good])
  show "keys_good os okay (keys(i := None)) (vals(i := None)) n"
    unfolding keys_good_def
  proof (intro conjI allI impI)
    show "dom (vals(i := None)) = dom (keys(i := None))" using dom by simp
  qed (use keys_goodD(2,3,5) [OF good] in \<open>auto split: if_splits\<close>)
  show "entry_of (keys(i := None)) (vals(i := None)) k' (if k' = k then None else w)"
  proof (cases "k' = k")
    case True
    then show ?thesis using keys_goodD(5) [OF good i] by (auto simp: entry_of_cases)
  next
    case False
    show ?thesis
    proof (cases w)
      case (Some x)
      with entry obtain j where "keys j = Some k'" "vals j = Some x" by (auto simp: entry_of_cases)
      moreover from this i False have "j \<noteq> i" by auto
      ultimately show ?thesis using False Some by (auto simp: entry_of_cases intro!: exI [of _ j])
    qed (use entry False in \<open>simp add: entry_of_cases\<close>)
  qed
qed

lemma keys_good_put:
  assumes good: "keys_good os okay keys vals n" and i: "keys i = Some k" and entry: "entry_of keys vals k' w"
  shows "keys_good os okay keys (vals(i \<mapsto> v)) n"
    and "entry_of keys (vals(i \<mapsto> v)) k' (if k' = k then Some v else w)"
proof -
  show "keys_good os okay keys (vals(i \<mapsto> v)) n" using good i unfolding keys_good_def by auto
  show "entry_of keys (vals(i \<mapsto> v)) k' (if k' = k then Some v else w)"
  proof (cases "k' = k")
    case True
    then show ?thesis using i by (auto simp: entry_of_cases intro!: exI [of _ i])
  next
    case False
    show ?thesis
    proof (cases w)
      case (Some x)
      with entry obtain j where "keys j = Some k'" "vals j = Some x" by (auto simp: entry_of_cases)
      moreover from this i False have "j \<noteq> i" by auto
      ultimately show ?thesis using False Some by (auto simp: entry_of_cases intro!: exI [of _ j])
    qed (use entry False in \<open>simp add: entry_of_cases\<close>)
  qed
qed

section \<open>The trie of subsets\<close>

lemma distinct_subseqs: "distinct xs \<Longrightarrow> distinct (subseqs xs)"
  using distinct_set_subseqs [of xs] by (simp add: distinct_map)

lemma add_subsets:
  "\<lbrakk> trie_okay t; distinct ps \<rbrakk> \<Longrightarrow> \<exists>t'. fold_p (add_subset i) ps t = Some t' \<and> trie_okay t'
     \<and> (\<forall>p. trie_get p t' = (if p \<in> set ps then Some (case trie_get p t of None \<Rightarrow> [i] | Some hs \<Rightarrow> set_insert i hs) else trie_get p t))"
proof (induction ps arbitrary: t)
  case (Cons p ps)
  have "\<exists>t1. add_subset i p t = Some t1 \<and> trie_okay t1
      \<and> (\<lambda>k. trie_get k t1) = (\<lambda>k. trie_get k t)(p := Some (case trie_get p t of None \<Rightarrow> [i] | Some hs \<Rightarrow> set_insert i hs))"
    using trie_insert_spec [OF Cons.prems(1), of p "[i]"] trie_mutate_spec [OF Cons.prems(1), of p "\<lambda>hs. Some (set_insert i hs)"]
    by (cases "trie_get p t") (auto simp: add_subset_def)
  then obtain t1 where t1: "add_subset i p t = Some t1" "trie_okay t1"
    and eq: "(\<lambda>k. trie_get k t1) = (\<lambda>k. trie_get k t)(p := Some (case trie_get p t of None \<Rightarrow> [i] | Some hs \<Rightarrow> set_insert i hs))"
    by blast
  have get: "trie_get q t1 = (if q = p then Some (case trie_get p t of None \<Rightarrow> [i] | Some hs \<Rightarrow> set_insert i hs) else trie_get q t)" for q
    using fun_cong [OF eq, of q] by simp
  obtain t' where t': "fold_p (add_subset i) ps t1 = Some t'" "trie_okay t'"
    "\<forall>q. trie_get q t' = (if q \<in> set ps then Some (case trie_get q t1 of None \<Rightarrow> [i] | Some hs \<Rightarrow> set_insert i hs) else trie_get q t1)"
    using Cons.IH [OF t1(2)] Cons.prems(2) by auto
  then show ?case using t1(1) get Cons.prems(2) by auto
qed simp

lemma drop_subsets:
  "\<lbrakk> trie_okay t; distinct ps; \<forall>p\<in>set ps. trie_get p t \<noteq> None \<rbrakk> \<Longrightarrow> \<exists>t'. fold_p (drop_subset i) ps t = Some t' \<and> trie_okay t'
     \<and> (\<forall>p. trie_get p t' = (if p \<in> set ps
         then (let hs = filter (\<lambda>j. j \<noteq> i) (the (trie_get p t)) in if hs = [] then None else Some hs) else trie_get p t))"
proof (induction ps arbitrary: t)
  case (Cons p ps)
  let ?f = "\<lambda>hs. let hs = filter (\<lambda>j. j \<noteq> i) hs in if hs = [] then None else Some hs"
  obtain hs where hs: "trie_get p t = Some hs" using Cons.prems(3) by auto
  then obtain t1 where t1: "drop_subset i p t = Some t1" "trie_okay t1"
    and fun_eq: "(\<lambda>k. trie_get k t1) = (\<lambda>k. trie_get k t)(p := ?f hs)"
    using trie_mutate_spec [OF Cons.prems(1), of p ?f] unfolding drop_subset_def by auto
  have get: "trie_get q t1 = (if q = p then ?f hs else trie_get q t)" for q using fun_cong [OF fun_eq, of q] by simp
  have "\<forall>q\<in>set ps. trie_get q t1 \<noteq> None" using get Cons.prems(2,3) by auto
  then obtain t' where t': "fold_p (drop_subset i) ps t1 = Some t'" "trie_okay t'"
    "\<forall>q. trie_get q t' = (if q \<in> set ps then ?f (the (trie_get q t1)) else trie_get q t1)"
    using Cons.IH [OF t1(2)] Cons.prems(2) by auto
  have "trie_get q t' = (if q \<in> set (p # ps) then ?f (the (trie_get q t)) else trie_get q t)" for q
    using t'(3) get hs Cons.prems(2) by auto
  with t' t1(1) show ?case by simp
qed simp

section \<open>The contract\<close>

lemma set_of_pairs: "(\<And>k v. (k, v) \<in> set ys \<longleftrightarrow> P k v) \<Longrightarrow> set ys = {(k, v). P k v}"
  by auto

lemma and_goodD:
  assumes "and_good os okay m"
  shows "distinct (map fst (am_keys m))" "keys_good os okay (map_of (am_keys m)) (map_of (am_values m)) (am_next m)"
    and "trie_okay (am_trie m)" "trie_okay (am_subsets m)" "subsets_good (map_of (am_keys m)) (am_subsets m)"
    and "trie_get p (am_trie m) = Some i \<longleftrightarrow> (\<exists>k. map_of (am_keys m) i = Some k \<and> p = reversed_vec (elements k))"
    and "entry_of (map_of (am_keys m)) (map_of (am_values m)) k (and_entries m k)"
  using assms unfolding and_good_def by (blast intro: and_entries_entry_of)+

lemma trie_get_key:
  assumes "and_good os okay m"
  shows "trie_get (reversed_vec (elements k)) (am_trie m) = Some i \<longleftrightarrow> map_of (am_keys m) i = Some k"
  unfolding and_goodD(6) [OF assms] reversed_vec_inject by auto

lemma entries_Some:
  assumes "and_good os okay m"
  shows "and_entries m k = Some v \<longleftrightarrow> (\<exists>i. map_of (am_keys m) i = Some k \<and> map_of (am_values m) i = Some v)"
proof
  show "\<exists>i. map_of (am_keys m) i = Some k \<and> map_of (am_values m) i = Some v" if "and_entries m k = Some v"
    using and_goodD(7) [OF assms, of k] that by (simp add: entry_of_cases)
  show "and_entries m k = Some v" if "\<exists>i. map_of (am_keys m) i = Some k \<and> map_of (am_values m) i = Some v"
    using entry_of_unique [OF and_goodD(2) [OF assms] and_goodD(7) [OF assms, of k]] that by (simp add: entry_of_cases)
qed

lemma entries_None:
  assumes "and_good os okay m"
  shows "and_entries m k = None \<longleftrightarrow> (\<forall>i. map_of (am_keys m) i \<noteq> Some k)"
  using entries_Some [OF assms, of k] keys_goodD(4) [OF and_goodD(2) [OF assms]] by (metis option.exhaust option.simps(3))

lemma dom_entries:
  assumes "and_good os okay m"
  shows "dom (and_entries m) = ran (map_of (am_keys m))"
  using entries_None [OF assms] by (auto simp: ran_def dom_def)

text \<open>A state is good when its parts follow the changes of the numbered keys and values.\<close>

lemma and_goodI:
  assumes "distinct (map fst (am_keys m))" "keys_good os okay (map_of (am_keys m)) (map_of (am_values m)) (am_next m)"
    and "trie_okay (am_trie m)" "trie_okay (am_subsets m)" "subsets_good (map_of (am_keys m)) (am_subsets m)"
    and "\<And>p i. trie_get p (am_trie m) = Some i \<longleftrightarrow> (\<exists>k. map_of (am_keys m) i = Some k \<and> p = reversed_vec (elements k))"
  shows "and_good os okay m"
  using assms unfolding and_good_def by blast

lemma entries_change:
  assumes "and_good os okay m'" "\<And>k'. entry_of (map_of (am_keys m')) (map_of (am_values m')) k' (if k' = k then v else and_entries m k')"
  shows "and_entries m' = (and_entries m)(k := v)"
  using entry_of_unique [OF and_goodD(2) [OF assms(1)] and_goodD(7) [OF assms(1)] assms(2)] by (auto simp: fun_eq_iff)

context order_subsumption begin

lemma okay_elements:
  assumes "and_okay os okay k"
  shows "list_all okay (elements k)" "distinct (elements k)" "le_sorted (elements k)"
    and "sorted_wrt (\<lambda>x y. os_leq os x y \<and> x \<noteq> y) (elements k)"
proof -
  show all: "list_all okay (elements k)" using assms by (simp add: and_okay_def)
  have "sorted_wrt (\<lambda>x y. os_leq os x y \<and> x \<noteq> y) xs"
    if "list_all okay xs" "sorted_wrt (\<lambda>x y. os_leq os x y \<and> \<not> os_subsumes os x y) xs" for xs
    using that subsumes_refl by (induction xs) (auto simp: list_all_iff)
  with all assms show *: "sorted_wrt (\<lambda>x y. os_leq os x y \<and> x \<noteq> y) (elements k)" by (simp add: and_okay_def)
  have "distinct xs" if "sorted_wrt (\<lambda>x y. os_leq os x y \<and> x \<noteq> y) xs" for xs using that by (induction xs) auto
  with * show "distinct (elements k)" by blast
  show "le_sorted (elements k)" by (rule and_okay_sorted [OF assms])
qed

lemma powerset_parts:
  assumes "map_lib_doc lib" "and_okay os okay k"
  shows "set (ml_powerset lib (elements k)) = set (subseqs (elements k))" "distinct (ml_powerset lib (elements k))"
proof -
  have mset: "mset (ml_powerset lib (elements k)) = mset (subseqs (elements k))" using assms(1) by (simp add: map_lib_doc_def)
  show "set (ml_powerset lib (elements k)) = set (subseqs (elements k))" by (rule mset_eq_setD [OF mset])
  show "distinct (ml_powerset lib (elements k))"
    using distinct_subseqs [OF okay_elements(2) [OF assms(2)]] mset_eq_imp_distinct_iff [OF mset] by simp
qed

lemma new_good: "and_good os okay and_map_new" "and_entries and_map_new = Map.empty"
  by (auto simp: and_good_def and_map_new_def keys_good_def subsets_good_def ids_entry_def ids_with_def and_entries_def)

lemma insert_good:
  assumes lib: "map_lib_doc lib" and good: "and_good os okay m" and k: "and_okay os okay k" and none: "and_entries m k = None"
  shows "\<exists>m'. and_map_insert lib k v m = Some m' \<and> and_good os okay m' \<and> and_entries m' = (and_entries m)(k \<mapsto> v)"
proof -
  let ?n = "am_next m" and ?keys = "map_of (am_keys m)"
  have fresh: "\<forall>i. ?keys i \<noteq> Some k" using none entries_None [OF good] by blast
  have n: "?keys ?n = None" using keys_goodD(2) [OF and_goodD(2) [OF good], of ?n] by (cases "?keys ?n") auto
  have "trie_get (reversed_vec (elements k)) (am_trie m) = None" using fresh trie_get_key [OF good] by (metis option.exhaust)
  with trie_insert_spec [OF and_goodD(3) [OF good], of "reversed_vec (elements k)" ?n]
  obtain trie where trie: "trie_insert (reversed_vec (elements k)) ?n (am_trie m) = Some trie" "trie_okay trie"
    and eq: "(\<lambda>p. trie_get p trie) = (\<lambda>p. trie_get p (am_trie m))(reversed_vec (elements k) \<mapsto> ?n)" by auto
  let ?ps = "ml_powerset lib (elements k)"
  have ps: "set ?ps = set (subseqs (elements k))" "distinct ?ps" using powerset_parts [OF lib k] .
  obtain subsets where subsets: "fold_p (add_subset ?n) ?ps (am_subsets m) = Some subsets" "trie_okay subsets"
    "\<forall>p. trie_get p subsets = (if p \<in> set ?ps then Some (case trie_get p (am_subsets m) of None \<Rightarrow> [?n] | Some hs \<Rightarrow> set_insert ?n hs)
       else trie_get p (am_subsets m))"
    using add_subsets [OF and_goodD(4) [OF good] ps(2)] by blast
  let ?m = "\<lparr>am_keys = AList.update ?n k (am_keys m), am_values = AList.update ?n v (am_values m),
    am_trie = trie, am_subsets = subsets, am_next = Suc ?n\<rparr>"
  have keys: "map_of (am_keys ?m) = ?keys(?n \<mapsto> k)" "map_of (am_values ?m) = (map_of (am_values m))(?n \<mapsto> v)"
    by (simp_all add: update_conv')
  note change = keys_good_insert [OF and_goodD(2) [OF good] fresh k and_goodD(7) [OF good], of v]
  have ids: "ids_with (?keys(?n \<mapsto> k)) p = (if p \<in> set ?ps then insert ?n (ids_with ?keys p) else ids_with ?keys p)" for p
    using n by (auto simp: ids_with_def ps(1))
  have "and_good os okay ?m"
  proof (rule and_goodI)
    show "distinct (map fst (am_keys ?m))" using distinct_update [OF and_goodD(1) [OF good]] by simp
    show "keys_good os okay (map_of (am_keys ?m)) (map_of (am_values ?m)) (am_next ?m)" unfolding keys using change(1) by simp
    show "trie_okay (am_trie ?m)" "trie_okay (am_subsets ?m)" using trie(2) subsets(2) by simp_all
    show "subsets_good (map_of (am_keys ?m)) (am_subsets ?m)"
      using and_goodD(5) [OF good] subsets(3) ids_entry_add by (simp add: subsets_good_def ids update_conv')
    show "trie_get p (am_trie ?m) = Some i \<longleftrightarrow> (\<exists>k'. map_of (am_keys ?m) i = Some k' \<and> p = reversed_vec (elements k'))" for p i
      unfolding keys using fun_cong [OF eq, of p] and_goodD(6) [OF good, of p i] n fresh reversed_vec_inject by auto
  qed
  moreover from this have "and_entries ?m = (and_entries m)(k \<mapsto> v)"
    by (rule entries_change) (use change(2) in \<open>simp add: keys update_conv'\<close>)
  moreover have "and_map_insert lib k v m = Some ?m" using trie(1) subsets(1) by (simp add: and_map_insert_def Let_def)
  ultimately show ?thesis by blast
qed

lemma remove_good:
  assumes lib: "map_lib_doc lib" and good: "and_good os okay m" and some: "and_entries m k = Some v"
  shows "\<exists>m'. and_map_remove lib k m = Some (v, m') \<and> and_good os okay m' \<and> and_entries m' = (and_entries m)(k := None)"
proof -
  let ?keys = "map_of (am_keys m)"
  obtain i where i: "?keys i = Some k" "map_of (am_values m) i = Some v" using some entries_Some [OF good] by blast
  have k: "and_okay os okay k" by (rule keys_goodD(3) [OF and_goodD(2) [OF good] i(1)])
  have "trie_get (reversed_vec (elements k)) (am_trie m) = Some i" using i(1) trie_get_key [OF good] by blast
  with trie_remove_spec [OF and_goodD(3) [OF good], of "reversed_vec (elements k)"]
  obtain trie where trie: "trie_remove (reversed_vec (elements k)) (am_trie m) = Some (i, trie)" "trie_okay trie"
    and eq: "(\<lambda>p. trie_get p trie) = (\<lambda>p. trie_get p (am_trie m))(reversed_vec (elements k) := None)" by auto
  let ?ps = "ml_powerset lib (elements k)"
  note ps = powerset_parts [OF lib k]
  have sub: "ids_entry (ids_with ?keys p) (trie_get p (am_subsets m))" for p
    using and_goodD(5) [OF good] by (simp add: subsets_good_def)
  have in_ids: "i \<in> ids_with ?keys p" if "p \<in> set ?ps" for p using that i(1) ps(1) by (auto simp: ids_with_def)
  have "\<forall>p\<in>set ?ps. trie_get p (am_subsets m) \<noteq> None"
  proof
    fix p assume "p \<in> set ?ps"
    then show "trie_get p (am_subsets m) \<noteq> None" using sub [of p] in_ids [of p] by (auto simp: ids_entry_def split: option.splits)
  qed
  then obtain subsets where subsets: "fold_p (drop_subset i) ?ps (am_subsets m) = Some subsets" "trie_okay subsets"
    "\<forall>p. trie_get p subsets = (if p \<in> set ?ps
         then (let hs = filter (\<lambda>j. j \<noteq> i) (the (trie_get p (am_subsets m))) in if hs = [] then None else Some hs)
         else trie_get p (am_subsets m))"
    using drop_subsets [OF and_goodD(4) [OF good] ps(2)] by blast
  let ?m = "m\<lparr>am_keys := AList.delete i (am_keys m), am_values := AList.delete i (am_values m), am_trie := trie, am_subsets := subsets\<rparr>"
  have keys: "map_of (am_keys ?m) = ?keys(i := None)" "map_of (am_values ?m) = (map_of (am_values m))(i := None)"
    by (simp_all add: delete_conv')
  note change = keys_good_remove [OF and_goodD(2) [OF good] i(1) and_goodD(7) [OF good]]
  have ids: "ids_with (?keys(i := None)) p = (if p \<in> set ?ps then ids_with ?keys p - {i} else ids_with ?keys p)" for p
    using i(1) by (auto simp: ids_with_def ps(1))
  have "and_good os okay ?m"
  proof (rule and_goodI)
    show "distinct (map fst (am_keys ?m))" using distinct_delete [OF and_goodD(1) [OF good]] by simp
    show "keys_good os okay (map_of (am_keys ?m)) (map_of (am_values ?m)) (am_next ?m)" unfolding keys using change(1) by simp
    show "trie_okay (am_trie ?m)" "trie_okay (am_subsets ?m)" using trie(2) subsets(2) by simp_all
    have "ids_entry (ids_with (?keys(i := None)) p) (trie_get p subsets)" for p
      using sub [of p] ids_entry_drop [OF sub, of p i] in_ids [of p] subsets(3) by (auto simp: ids)
    then show "subsets_good (map_of (am_keys ?m)) (am_subsets ?m)" by (simp add: subsets_good_def delete_conv')
    show "trie_get p (am_trie ?m) = Some j \<longleftrightarrow> (\<exists>k'. map_of (am_keys ?m) j = Some k' \<and> p = reversed_vec (elements k'))" for p j
    proof (cases "p = reversed_vec (elements k)")
      case True
      then show ?thesis unfolding keys using fun_cong [OF eq, of p] keys_goodD(5) [OF and_goodD(2) [OF good] i(1)]
        by (auto simp: reversed_vec_inject)
    next
      case False
      then show ?thesis unfolding keys using fun_cong [OF eq, of p] and_goodD(6) [OF good, of p j] i(1) by auto
    qed
  qed
  moreover from this have "and_entries ?m = (and_entries m)(k := None)"
    by (rule entries_change) (use change(2) in \<open>simp add: keys delete_conv'\<close>)
  moreover have "and_map_remove lib k m = Some (v, ?m)" using trie(1) subsets(1) i(2) by (simp add: and_map_remove_def)
  ultimately show ?thesis by blast
qed

lemma get_good: "and_good os okay m \<Longrightarrow> and_map_get k m = and_entries m k"
proof -
  assume good: "and_good os okay m"
  show ?thesis
  proof (cases "trie_get (reversed_vec (elements k)) (am_trie m)")
    case None
    then have "and_entries m k = None" using trie_get_key [OF good, of k] entries_None [OF good] by auto
    with None show ?thesis by (simp add: and_map_get_def)
  next
    case (Some i)
    then have i: "map_of (am_keys m) i = Some k" using trie_get_key [OF good] by blast
    then obtain v where "map_of (am_values m) i = Some v" using keys_goodD(4) [OF and_goodD(2) [OF good]] by blast
    with i Some entries_Some [OF good, of k v] show ?thesis by (auto simp: and_map_get_def)
  qed
qed

lemma put_good:
  assumes good: "and_good os okay m" and some: "and_entries m k = Some w"
  shows "and_good os okay (and_map_put k v m) \<and> and_entries (and_map_put k v m) = (and_entries m)(k \<mapsto> v)"
proof -
  obtain i where i: "map_of (am_keys m) i = Some k" "map_of (am_values m) i = Some w" using some entries_Some [OF good] by blast
  let ?m = "m\<lparr>am_values := AList.update i v (am_values m)\<rparr>"
  note change = keys_good_put [OF and_goodD(2) [OF good] i(1) and_goodD(7) [OF good], of v]
  have "and_good os okay ?m"
    by (rule and_goodI) (use and_goodD(1,3-6) [OF good] change(1) in \<open>simp_all add: update_conv'\<close>)
  moreover from this have "and_entries ?m = (and_entries m)(k \<mapsto> v)"
    by (rule entries_change) (use change(2) in \<open>simp add: update_conv'\<close>)
  moreover have "and_map_put k v m = ?m" using i trie_get_key [OF good, of k i] by (simp add: and_map_put_def)
  ultimately show ?thesis by simp
qed

lemma subsuming_good:
  assumes lib: "map_lib_doc lib" and good: "and_good os okay m" and key: "and_okay os okay key"
  shows "\<exists>xs. and_map_subsuming os lib key m = Some xs \<and> set xs = {(k, v). and_entries m k = Some v \<and> and_subsumes os k key}"
proof -
  let ?keys = "map_of (am_keys m)"
  let ?ids = "concat (map (\<lambda>(_, is'). ml_ids lib is') (get_subsuming_and os (ml_edges lib) (elements key) [] (am_subsets m)))"
  from lib have ord: "keeps_elements (ml_edges lib)" and perm: "permutes (ml_ids lib)" by (simp_all add: map_lib_doc_def)
  have sub: "ids_entry (ids_with ?keys p) (trie_get p (am_subsets m))" for p
    using and_goodD(5) [OF good] by (simp add: subsets_good_def)
  have "i \<in> set ?ids \<longleftrightarrow> (\<exists>k. ?keys i = Some k \<and> and_subsumes os k key)" for i
  proof -
    have "i \<in> set ?ids \<longleftrightarrow> (\<exists>p hs. and_path os p (elements key) \<and> trie_get p (am_subsets m) = Some hs \<and> i \<in> set hs)"
      using get_subsuming_and_set [OF ord, of _ _ os "elements key" "[]"] permutesD(1) [OF perm] by fastforce
    also have "\<dots> \<longleftrightarrow> (\<exists>p. and_path os p (elements key) \<and> i \<in> ids_with ?keys p)"
    proof -
      have "(\<exists>hs. trie_get p (am_subsets m) = Some hs \<and> i \<in> set hs) \<longleftrightarrow> i \<in> ids_with ?keys p" for p
        using sub [of p] by (auto simp: ids_entry_def split: option.splits)
      then show ?thesis by blast
    qed
    also have "\<dots> \<longleftrightarrow> (\<exists>k. ?keys i = Some k \<and> (\<exists>p\<in>set (subseqs (elements k)). and_path os p (elements key)))"
      by (auto simp: ids_with_def)
    also have "\<dots> \<longleftrightarrow> (\<exists>k. ?keys i = Some k \<and> and_subsumes os k key)"
    proof -
      have "(\<exists>p\<in>set (subseqs (elements k)). and_path os p (elements key)) \<longleftrightarrow> and_subsumes os k key" if "?keys i = Some k" for k
      proof -
        have k: "and_okay os okay k" by (rule keys_goodD(3) [OF and_goodD(2) [OF good] that])
        have part: "set p \<subseteq> set (elements k)" if "p \<in> set (subseqs (elements k))" for p
          using that subseqs_powset [of "elements k"] by blast
        show ?thesis
          unfolding and_subsumes_iff [OF k key]
          using and_path_complete [OF okay_elements(3) [OF k] okay_elements(3) [OF key]] and_path_sound part by (meson subsetD)
      qed
      then show ?thesis by blast
    qed
    finally show ?thesis .
  qed
  note ids = this
  have entry: "and_map_entry m i = Some (the (?keys i), the (map_of (am_values m) i))" if "i \<in> set ?ids" for i
    using that keys_goodD(4) [OF and_goodD(2) [OF good], of i] unfolding ids by (auto simp: and_map_entry_def)
  have found: "(k, v) \<in> set (map (\<lambda>i. (the (?keys i), the (map_of (am_values m) i))) ?ids)
      \<longleftrightarrow> and_entries m k = Some v \<and> and_subsumes os k key" for k v
  proof
    assume "(k, v) \<in> set (map (\<lambda>i. (the (?keys i), the (map_of (am_values m) i))) ?ids)"
    then obtain i where i: "i \<in> set ?ids" "k = the (?keys i)" "v = the (map_of (am_values m) i)" unfolding set_map by blast
    from i(1) obtain k' where k': "?keys i = Some k'" "and_subsumes os k' key" unfolding ids by blast
    obtain v' where "map_of (am_values m) i = Some v'" using keys_goodD(4) [OF and_goodD(2) [OF good] k'(1)] by blast
    with i(2,3) k' show "and_entries m k = Some v \<and> and_subsumes os k key" unfolding entries_Some [OF good] by auto
  next
    assume "and_entries m k = Some v \<and> and_subsumes os k key"
    then obtain i where i: "?keys i = Some k" "map_of (am_values m) i = Some v" "and_subsumes os k key"
      unfolding entries_Some [OF good] by blast
    from i(1,3) have "i \<in> set ?ids" unfolding ids by blast
    then show "(k, v) \<in> set (map (\<lambda>i. (the (?keys i), the (map_of (am_values m) i))) ?ids)"
      unfolding set_map by (rule rev_image_eqI) (simp add: i)
  qed
  have "set (map (\<lambda>i. (the (?keys i), the (map_of (am_values m) i))) ?ids)
      = {(k, v). and_entries m k = Some v \<and> and_subsumes os k key}"
    by (rule set_of_pairs) (rule found)
  with those_map_SomeI [of ?ids "and_map_entry m", OF entry] show ?thesis unfolding and_map_subsuming_def by blast
qed

lemma subsumed_good:
  assumes lib: "map_lib_doc lib" and good: "and_good os okay m" and key: "and_okay os okay key"
  shows "\<exists>xs. and_map_subsumed os lib key m = Some xs \<and> set xs = {(k, v). and_entries m k = Some v \<and> and_subsumes os key k}"
proof -
  let ?keys = "map_of (am_keys m)" and ?ros = "reversed_order os" and ?rv = "\<lambda>k. reversed_vec (elements k)"
  let ?found = "get_subsuming_or ?ros (ml_rev_edges lib) (?rv key) [] (am_trie m)"
  from lib have ord: "keeps_elements (ml_rev_edges lib)" by (simp add: map_lib_doc_def)
  have path: "or_path ?ros (?rv k) (?rv key) \<longleftrightarrow> and_subsumes os key k" if "?keys i = Some k" for i k
  proof -
    have k: "and_okay os okay k" by (rule keys_goodD(3) [OF and_goodD(2) [OF good] that])
    have rev_elems: "(\<forall>e\<in>set (?rv k). \<exists>f\<in>set (?rv key). os_subsumes ?ros e f) \<longleftrightarrow> and_subsumes os key k"
      unfolding and_subsumes_iff [OF key k] by (simp add: reversed_vec_def reversed_order_def)
    have "list_all (reversed_okay okay) (?rv k')" if "and_okay os okay k'" for k'
      using okay_elements(1) [OF that] by (simp add: reversed_vec_def list_all_iff reversed_okay_def)
    moreover have "sorted_wrt (\<lambda>x y. os_leq ?ros x y \<and> x \<noteq> y) (?rv k)"
      using okay_elements(4) [OF k] unfolding reversed_vec_def sorted_wrt_map sorted_wrt_rev
      by (rule sorted_wrt_mono_rel [rotated]) (auto simp: reversed_order_def)
    ultimately show ?thesis
      unfolding rev_elems [symmetric] using order_subsumption.or_path_complete [OF reversed_laws, of "?rv k" "?rv key"]
        or_path_sound [of ?ros "?rv k" "?rv key"] k key by blast
  qed
  have in_found: "(q, i) \<in> set ?found \<longleftrightarrow> (\<exists>k. ?keys i = Some k \<and> q = ?rv k \<and> and_subsumes os key k)" for q i
    unfolding get_subsuming_or_set [OF ord] and_goodD(6) [OF good] using path by fastforce
  define res where "res = (\<lambda>(q, i). (AndLike (map unrev (rev q)) :: 'o and_like, the (map_of (am_values m) i)))"
  have entry: "(\<lambda>(k, i). map_option (Pair (AndLike (map unrev (rev k)))) (map_of (am_values m) i)) x = Some (res x)"
    if "x \<in> set ?found" for x
  proof -
    obtain q i where x: "x = (q, i)" by (cases x)
    with that obtain k where k: "?keys i = Some k" using in_found by blast
    with x keys_goodD(4) [OF and_goodD(2) [OF good] k] show ?thesis by (auto simp: res_def)
  qed
  have "(k, v) \<in> set (map res ?found) \<longleftrightarrow> and_entries m k = Some v \<and> and_subsumes os key k" for k v
  proof
    assume "(k, v) \<in> set (map res ?found)"
    then obtain q i where i: "(q, i) \<in> set ?found" "res (q, i) = (k, v)" by auto
    from i(1) obtain k' where k': "?keys i = Some k'" "q = ?rv k'" "and_subsumes os key k'" unfolding in_found by blast
    obtain v' where "map_of (am_values m) i = Some v'" using keys_goodD(4) [OF and_goodD(2) [OF good] k'(1)] by blast
    with i(2) k' show "and_entries m k = Some v \<and> and_subsumes os key k"
      unfolding entries_Some [OF good] by (auto simp: res_def unrev_reversed_vec)
  next
    assume "and_entries m k = Some v \<and> and_subsumes os key k"
    then obtain i where i: "?keys i = Some k" "map_of (am_values m) i = Some v" "and_subsumes os key k"
      unfolding entries_Some [OF good] by blast
    then have "(?rv k, i) \<in> set ?found" unfolding in_found by blast
    moreover have "res (?rv k, i) = (k, v)" using i(2) by (simp add: res_def unrev_reversed_vec)
    ultimately show "(k, v) \<in> set (map res ?found)" unfolding set_map by (metis imageI)
  qed
  then have "set (map res ?found) = {(k, v). and_entries m k = Some v \<and> and_subsumes os key k}" by (rule set_of_pairs)
  with those_map_SomeI [of ?found _ res, OF entry] show ?thesis unfolding and_map_subsumed_def by blast
qed

lemma and_contract:
  assumes lib: "map_lib_doc lib"
  shows "subsumption_map (and_order os) (and_okay os okay) (and_map_ops os lib) (and_good os okay) and_entries"
proof (rule subsumption_map.intro [OF and_laws], rule subsumption_map_axioms.intro, unfold and_map_ops_def and_order_def smap_ops.simps order_ops.simps)
  show "and_good os okay and_map_new" "and_entries and_map_new = Map.empty" by (rule new_good)+
  show "and_okay os okay k" if "and_good os okay m" "and_entries m k = Some v" for m :: "('o, 'v) and_map" and k v
    using that entries_Some [OF that(1)] keys_goodD(3) [OF and_goodD(2) [OF that(1)]] by blast
  show "finite (dom (and_entries m))" for m :: "('o, 'v) and_map" unfolding and_entries_def by (rule finite_dom_map_of)
  show "am_keys m = [] \<longleftrightarrow> and_entries m = Map.empty" if "and_good os okay m" for m :: "('o, 'v) and_map"
    unfolding and_entries_def by (cases "am_keys m") auto
  have snd: "distinct (map snd (am_keys m))" "set (map snd (am_keys m)) = dom (and_entries m)" if "and_good os okay m" for m :: "('o, 'v) and_map"
  proof -
    show "distinct (map snd (am_keys m))" by (rule distinct_keys [OF and_goodD(1,2) [OF that]])
    show "set (map snd (am_keys m)) = dom (and_entries m)"
      unfolding dom_entries [OF that] using ran_distinct [OF and_goodD(1) [OF that]] by simp
  qed
  show "Some (length (am_keys m)) = Some (card (dom (and_entries m)))" if "and_good os okay m" for m :: "('o, 'v) and_map"
    using distinct_card [OF snd(1) [OF that]] snd(2) [OF that] by simp
  show "\<exists>ks. those (map (map_of (am_keys m)) (ml_ids lib (map fst (am_keys m)))) = Some ks \<and> distinct ks \<and> set ks = dom (and_entries m)"
    if "and_good os okay m" for m :: "('o, 'v) and_map"
  proof -
    let ?ids = "ml_ids lib (map fst (am_keys m))" and ?key = "\<lambda>i. the (map_of (am_keys m) i)"
    from lib have perm: "permutes (ml_ids lib)" by (simp add: map_lib_doc_def)
    have ids: "set ?ids = dom (map_of (am_keys m))" "distinct ?ids"
      using permutesD [OF perm] and_goodD(1) [OF that] by (simp_all add: dom_fst)
    have "inj_on ?key (set ?ids)"
      using keys_goodD(5) [OF and_goodD(2) [OF that]] unfolding ids(1) by (fastforce intro: inj_onI)
    with ids(2) have "distinct (map ?key ?ids)" by (simp add: distinct_map)
    moreover have "set (map ?key ?ids) = dom (and_entries m)"
      unfolding dom_entries [OF that] set_map ids(1) by (force simp: ran_def image_iff)
    moreover have "those (map (map_of (am_keys m)) ?ids) = Some (map ?key ?ids)"
      by (rule those_map_SomeI) (use ids(1) in auto)
    ultimately show ?thesis by blast
  qed
  show "and_map_get k m = and_entries m k" if "and_good os okay m" for m :: "('o, 'v) and_map" and k by (rule get_good [OF that])
  show "\<exists>m'. and_map_insert lib k v m = Some m' \<and> and_good os okay m' \<and> and_entries m' = (and_entries m)(k \<mapsto> v)"
    if "and_good os okay m" "and_okay os okay k" "and_entries m k = None" for m :: "('o, 'v) and_map" and k v
    by (rule insert_good [OF lib that])
  show "and_map_insert lib k v m = None" if g: "and_good os okay m" and w: "and_entries m k = Some w" for m :: "('o, 'v) and_map" and k v w
  proof -
    obtain i where "map_of (am_keys m) i = Some k" using w entries_Some [OF g] by blast
    then have "trie_get (reversed_vec (elements k)) (am_trie m) = Some i" using trie_get_key [OF g] by blast
    with trie_insert_spec [OF and_goodD(3) [OF g], of "reversed_vec (elements k)"] show ?thesis
      by (simp add: and_map_insert_def Let_def)
  qed
  show "\<exists>m'. and_map_remove lib k m = Some (v, m') \<and> and_good os okay m' \<and> and_entries m' = (and_entries m)(k := None)"
    if "and_good os okay m" "and_entries m k = Some v" for m :: "('o, 'v) and_map" and k v
    by (rule remove_good [OF lib that])
  show "and_map_remove lib k m = None" if "and_good os okay m" "and_entries m k = None" for m :: "('o, 'v) and_map" and k
  proof -
    have "trie_get (reversed_vec (elements k)) (am_trie m) = None"
      using that trie_get_key [OF that(1), of k] entries_None [OF that(1)] by (metis option.exhaust)
    with trie_remove_spec [OF and_goodD(3) [OF that(1)], of "reversed_vec (elements k)"] show ?thesis by (simp add: and_map_remove_def)
  qed
  show "and_good os okay (and_map_put k v m) \<and> and_entries (and_map_put k v m) = (and_entries m)(k \<mapsto> v)"
    if "and_good os okay m" "and_entries m k = Some w" for m :: "('o, 'v) and_map" and k v w
    by (rule put_good [OF that])
  show "\<exists>xs. and_map_subsuming os lib k m = Some xs \<and> set xs = {(k', v). and_entries m k' = Some v \<and> and_subsumes os k' k}"
    if "and_good os okay m" "and_okay os okay k" for m :: "('o, 'v) and_map" and k
    by (rule subsuming_good [OF lib that])
  show "\<exists>xs. and_map_subsumed os lib k m = Some xs \<and> set xs = {(k', v). and_entries m k' = Some v \<and> and_subsumes os k k'}"
    if "and_good os okay m" "and_okay os okay k" for m :: "('o, 'v) and_map" and k
    by (rule subsumed_good [OF lib that])
qed

end

end
