(* ===== verification/Inference_Subsume_Maps.thy ===== *)
theory Inference_Subsume_Maps
  imports Inference_And_Map Inference_Subsume_Pair
begin

text \<open>
  The maps the crate builds from the parts of \<^verbatim>\<open>inference/src/subsume.rs\<close>: for literals, cubes, clauses,
  conjunctive and disjunctive normal forms and their pairs, each an instance of the contract; and what the
  contract says of one operation.
\<close>

definition std_lib :: "'o map_lib" where
  "std_lib = \<lparr>ml_powerset = subseqs, ml_edges = (\<lambda>xs. xs), ml_rev_edges = (\<lambda>xs. xs), ml_ids = rev\<rparr>"

lemma std_lib_doc: "map_lib_doc std_lib"
  by (simp add: map_lib_doc_def std_lib_def keeps_elements_def permutes_def)

definition or_map_ops ::
  "('o, 'b) order_ops \<Rightarrow> 'o reversed map_lib \<Rightarrow> ('o or_like, 'v, ('o reversed, 'v) and_map) smap_ops" where
  "or_map_ops os lib = reversed_map_ops (and_map_ops (reversed_order os) lib)"

interpretation lit_map: subsumption_map literal_order "\<lambda>_. True" "eq_map_ops rev" "eq_good (\<lambda>_. True)" map_of
  by (rule eq_map_contract) (unfold_locales, simp_all add: permutes_def literal_order_def)

interpretation cube_map: subsumption_map cube_order "and_okay literal_order (\<lambda>_. True)" "and_map_ops literal_order std_lib"
    "and_good literal_order (\<lambda>_. True)" and_entries
  by (rule lit.and_contract [OF std_lib_doc])

lemma or_contract:
  assumes "order_subsumption os okay" "map_lib_doc lib"
  shows "subsumption_map (or_order os) (or_okay os okay) (or_map_ops os lib)
    (and_good (reversed_order os) (reversed_okay okay)) (rev_entries and_entries)"
  unfolding or_order_def or_okay_def or_map_ops_def
  by (rule subsumption_map.reversed_contract [OF order_subsumption.and_contract [OF order_subsumption.reversed_laws [OF assms(1)] assms(2)]])

interpretation clause_map: subsumption_map clause_order "or_okay literal_order (\<lambda>_. True)" "or_map_ops literal_order std_lib"
    "and_good (reversed_order literal_order) (reversed_okay (\<lambda>_. True))" "rev_entries and_entries"
  by (rule or_contract [OF lit.order_subsumption_axioms std_lib_doc])

interpretation cnf_map: subsumption_map cnf_order cnf_okay "and_map_ops clause_order std_lib"
    "and_good clause_order (or_okay literal_order (\<lambda>_. True))" and_entries
  unfolding cnf_order_def cnf_okay_def by (rule clause.and_contract [OF std_lib_doc])

interpretation dnf_map: subsumption_map dnf_order dnf_okay "or_map_ops cube_order std_lib"
    "and_good (reversed_order cube_order) (reversed_okay (and_okay literal_order (\<lambda>_. True)))" "rev_entries and_entries"
  unfolding dnf_order_def dnf_okay_def by (rule or_contract [OF cube.order_subsumption_axioms std_lib_doc])

interpretation pdnf_map: subsumption_map pdnf_order "pair_okay (or_okay literal_order (\<lambda>_. True)) dnf_okay"
    "pair_map_ops (or_map_ops literal_order std_lib) (or_map_ops cube_order std_lib)"
    "pair_good (and_good (reversed_order literal_order) (reversed_okay (\<lambda>_. True))) (rev_entries and_entries)
       (and_good (reversed_order cube_order) (reversed_okay (and_okay literal_order (\<lambda>_. True)))) (rev_entries and_entries)"
    "pair_entries (rev_entries and_entries) (rev_entries and_entries)"
  unfolding pdnf_order_def by (rule pair_contract [OF clause_map.subsumption_map_axioms dnf_map.subsumption_map_axioms])

text \<open>C40: the map of conjunctions (\<^verbatim>\<open>AndSubsumptionMap\<close>), two tries and two hash maps that are kept in step,
  is a finite map: inserting an absent key and removing a present one have their effect on the entries and
  nothing else and keep the invariant, inserting a present key and removing an absent one panic, and the two
  searches return exactly the entries whose key subsumes, and is subsumed by, the given one.\<close>

theorem and_map_correct:
  fixes m :: "('o, 'v) and_map"
  assumes "order_subsumption os okay" "map_lib_doc lib" "and_good os okay m" "and_okay os okay k"
  shows "and_good os okay (and_map_new :: ('o, 'v) and_map) \<and> and_entries (and_map_new :: ('o, 'v) and_map) = Map.empty
    \<and> and_map_get k m = and_entries m k
    \<and> (case and_entries m k of
         None \<Rightarrow> and_map_remove lib k m = None
           \<and> (\<exists>m'. and_map_insert lib k v m = Some m' \<and> and_good os okay m' \<and> and_entries m' = (and_entries m)(k \<mapsto> v))
       | Some w \<Rightarrow> and_map_insert lib k v m = None
           \<and> (\<exists>m'. and_map_remove lib k m = Some (w, m') \<and> and_good os okay m' \<and> and_entries m' = (and_entries m)(k := None))
           \<and> and_good os okay (and_map_put k v m) \<and> and_entries (and_map_put k v m) = (and_entries m)(k \<mapsto> v))
    \<and> (\<exists>xs. and_map_subsuming os lib k m = Some xs \<and> set xs = {(k', w). and_entries m k' = Some w \<and> and_subsumes os k' k})
    \<and> (\<exists>xs. and_map_subsumed os lib k m = Some xs \<and> set xs = {(k', w). and_entries m k' = Some w \<and> and_subsumes os k k'})"
proof -
  note c = order_subsumption.and_contract [OF assms(1,2)]
  note simps = and_map_ops_def and_order_def smap_ops.simps order_ops.simps
  show ?thesis
    using subsumption_map.new_map [OF c] subsumption_map.get_map [OF c assms(3,4)]
      subsumption_map.insert_map [OF c assms(3,4), of v] subsumption_map.insert_present [OF c assms(3,4), of _ v]
      subsumption_map.remove_map [OF c assms(3,4)] subsumption_map.remove_absent [OF c assms(3,4)]
      subsumption_map.put_map [OF c assms(3,4), of _ v]
      subsumption_map.subsuming_map [OF c assms(3,4)] subsumption_map.subsumed_map [OF c assms(3,4)]
    by (auto simp: simps split: option.split)
qed

definition demo_map :: "(nat, nat) and_map" where
  "demo_map = the (Option.bind (and_map_insert std_lib (AndLike [1, 2]) 10 and_map_new) (and_map_insert std_lib (AndLike [2]) 20))"

lemma demo_map_good: "and_good usize_order (\<lambda>_. True) demo_map"
proof -
  have ok: "and_okay usize_order (\<lambda>_. True) (AndLike [1, 2])" "and_okay usize_order (\<lambda>_. True) (AndLike [2])"
    by (simp_all add: and_okay_def usize_order_def)
  have none: "and_entries (and_map_new :: (nat, nat) and_map) (AndLike [1, 2]) = None" by (simp add: and_entries_def and_map_new_def)
  obtain m1 :: "(nat, nat) and_map" where m1: "and_map_insert std_lib (AndLike [1, 2]) 10 and_map_new = Some m1"
    "and_good usize_order (\<lambda>_. True) m1" "and_entries m1 = (and_entries and_map_new)(AndLike [1, 2] \<mapsto> 10)"
    using usize.insert_good [OF std_lib_doc usize.new_good(1) ok(1) none, of 10] by blast
  have "and_entries m1 (AndLike [2]) = None" unfolding m1(3) by (simp add: and_entries_def and_map_new_def)
  from usize.insert_good [OF std_lib_doc m1(2) ok(2) this, of 20] show ?thesis unfolding demo_map_def m1(1) by auto
qed

theorem and_map_correct_witness:
  "and_map_subsuming usize_order std_lib (AndLike [2]) demo_map = Some [(AndLike [2], 20), (AndLike [1, 2], 10)]
   \<and> {(k, w). and_entries demo_map k = Some w \<and> and_subsumes usize_order k (AndLike [2])} = {(AndLike [2], 20), (AndLike [1, 2], 10)}"
proof -
  have "and_okay usize_order (\<lambda>_. True) (AndLike [2])" by (simp add: and_okay_def usize_order_def)
  note correct = and_map_correct [OF usize.order_subsumption_axioms std_lib_doc demo_map_good this, of undefined]
  have found: "and_map_subsuming usize_order std_lib (AndLike [2]) demo_map = Some [(AndLike [2], 20), (AndLike [1, 2], 10)]"
    by code_simp
  have "set [(AndLike [2], 20), (AndLike [1, 2], 10)] = {(k, w). and_entries demo_map k = Some w \<and> and_subsumes usize_order k (AndLike [2])}"
    using correct [unfolded found] by blast
  with found show ?thesis by simp
qed

end
