(* ===== verification/Decimal.thy ===== *)
theory Decimal
  imports Prelude
begin

text \<open>
  What the code uses of Rust's standard library on strings: decimal printing and parsing of unsigned
  integers, and splitting at white space. Characters are Unicode code points below 256.
\<close>

section \<open>Printing and parsing numbers\<close>

definition digit_char :: "nat \<Rightarrow> char" where
  "digit_char n = char_of (48 + n)"

fun show_nat :: "nat \<Rightarrow> string" where
  "show_nat n = (if n < 10 then [digit_char n] else show_nat (n div 10) @ [digit_char (n mod 10)])"

declare show_nat.simps [simp del]

definition is_digit :: "char \<Rightarrow> bool" where
  "is_digit c \<longleftrightarrow> 48 \<le> (of_char c :: nat) \<and> (of_char c :: nat) \<le> 57"

definition digits_value :: "string \<Rightarrow> nat" where
  "digits_value cs = foldl (\<lambda>a c. 10 * a + (of_char c - 48)) 0 cs"

text \<open>\<open>str::parse::<u32>\<close>: an optional plus sign, at least one digit, a value below \<open>2 ^ 32\<close>.\<close>

definition parse_u32 :: "string \<Rightarrow> nat option" where
  "parse_u32 s =
     (let ds = (case s of c # cs \<Rightarrow> if c = CHR ''+'' then cs else s | [] \<Rightarrow> s) in
      if ds \<noteq> [] \<and> list_all is_digit ds \<and> int (digits_value ds) < 4294967296 then Some (digits_value ds) else None)"

lemma of_char_digit [simp]: "n < 10 \<Longrightarrow> of_char (digit_char n) = 48 + n"
  by (simp add: digit_char_def of_char_of)

lemma digits_value_snoc: "digits_value (cs @ [c]) = 10 * digits_value cs + (of_char c - 48)"
  by (simp add: digits_value_def)

lemma show_nat_digits: "list_all is_digit (show_nat n) \<and> show_nat n \<noteq> []"
proof (induction n rule: show_nat.induct)
  case (1 n)
  have d: "is_digit (digit_char k)" if "k < 10" for k using that by (simp add: is_digit_def)
  show ?case
  proof (cases "n < 10")
    case True
    then show ?thesis by (subst (1 2) show_nat.simps) (simp add: d)
  next
    case False
    with 1 show ?thesis by (subst (1 2) show_nat.simps) (simp add: d)
  qed
qed

lemma digits_value_show [simp]: "digits_value (show_nat n) = n"
proof (induction n rule: show_nat.induct)
  case (1 n)
  show ?case
  proof (cases "n < 10")
    case True
    then show ?thesis by (subst show_nat.simps) (simp add: digits_value_def)
  next
    case False
    with 1 show ?thesis by (subst show_nat.simps) (simp add: digits_value_snoc)
  qed
qed

lemma show_nat_inj [simp]: "show_nat m = show_nat n \<longleftrightarrow> m = n"
  by (metis digits_value_show)

lemma parse_show_nat:
  assumes "int n < 4294967296" shows "parse_u32 (show_nat n) = Some n"
proof -
  obtain c cs where s: "show_nat n = c # cs" using show_nat_digits [of n] by (cases "show_nat n") auto
  have "is_digit c" using show_nat_digits [of n] by (simp add: s)
  then have "c \<noteq> CHR ''+''" by (auto simp: is_digit_def)
  moreover have "digits_value (c # cs) = n" "list_all is_digit (c # cs)"
    using digits_value_show [of n] show_nat_digits [of n] by (simp_all only: s)
  ultimately show ?thesis using assms by (simp add: parse_u32_def s Let_def)
qed

section \<open>Splitting at white space\<close>

definition is_whitespace :: "char \<Rightarrow> bool" where
  "is_whitespace c \<longleftrightarrow> (of_char c :: nat) \<in> {9, 10, 11, 12, 13, 32, 133, 160}"

fun split_words :: "string \<Rightarrow> string \<Rightarrow> string list" where
  "split_words cur [] = (if cur = [] then [] else [rev cur])"
| "split_words cur (c # cs) =
     (if is_whitespace c then (if cur = [] then split_words [] cs else rev cur # split_words [] cs)
      else split_words (c # cur) cs)"

definition split_whitespace :: "string \<Rightarrow> string list" where
  "split_whitespace s = split_words [] s"

definition is_word :: "string \<Rightarrow> bool" where
  "is_word s \<longleftrightarrow> s \<noteq> [] \<and> (\<forall>c\<in>set s. \<not> is_whitespace c)"

lemma split_words_word: "\<forall>c\<in>set s. \<not> is_whitespace c \<Longrightarrow> cur @ s \<noteq> [] \<Longrightarrow> split_words cur s = [rev cur @ s]"
  by (induction s arbitrary: cur) auto

lemma split_word: "is_word s \<Longrightarrow> split_whitespace s = [s]"
  using split_words_word [of s "[]"] by (simp add: split_whitespace_def is_word_def)

lemma split_words_two:
  "\<lbrakk> \<forall>c\<in>set v. \<not> is_whitespace c; cur @ v \<noteq> []; is_word w \<rbrakk>
   \<Longrightarrow> split_words cur (v @ CHR '' '' # w) = [rev cur @ v, w]"
proof (induction v arbitrary: cur)
  case Nil
  have "is_whitespace (CHR '' '')" by (simp add: is_whitespace_def)
  with Nil split_word [of w] show ?case by (simp add: split_whitespace_def)
qed auto

lemma split_two_words: "is_word v \<Longrightarrow> is_word w \<Longrightarrow> split_whitespace (v @ CHR '' '' # w) = [v, w]"
  using split_words_two [of v "[]" w] by (simp add: split_whitespace_def is_word_def)

lemma digits_word: "is_word (show_nat n)"
proof -
  have "\<not> is_whitespace c" if "is_digit c" for c
    using that by (auto simp: is_digit_def is_whitespace_def)
  with show_nat_digits [of n] show ?thesis by (auto simp: is_word_def list_all_iff)
qed

end
