(* ===== verification/Inference_Quant.thy ===== *)
theory Inference_Quant
  imports Fly_Subst Fly_Smart Fly_Defs Decimal Inference_Order
begin

text \<open>
  Model of \<^verbatim>\<open>inference/src/quant.rs\<close>: sequences of quantifiers with their variables, the prefixes a
  configuration allows, and how prefixes compare. The wrapped iterators (\<open>permutations\<close>, the cartesian
  products) are parameters.
\<close>

section \<open>Sequences\<close>

record 'q qseq =
  qs_signature :: signature
  qs_quantifiers :: "'q list"
  qs_sorts :: "nat list"
  qs_names :: "string list list"

type_synonym quant_config = "quantifier option qseq"
type_synonym quant_prefix = "quantifier qseq"

text \<open>The names of the variables: \<open>sorted_counts\<close> numbers the variables of each sort across positions.\<close>

fun vars_from :: "signature \<Rightarrow> nat list \<Rightarrow> nat list \<Rightarrow> nat list \<Rightarrow> string list list option" where
  "vars_from sig sorted_counts [] counts = Some []"
| "vars_from sig sorted_counts (s # sorts) [] = None"
| "vars_from sig sorted_counts (s # sorts) (c # counts) =
     (if c \<noteq> 0 \<and> \<not> s < length (sig_sorts sig) then None
      else map_option (Cons (map (\<lambda>j. sig_sorts sig ! s @ ''_'' @ show_nat (sorted_counts ! s + Suc j)) [0..<c]))
        (vars_from sig (sorted_counts[s := sorted_counts ! s + c]) sorts counts))"

definition vars :: "signature \<Rightarrow> nat list \<Rightarrow> nat list \<Rightarrow> string list list option" where
  "vars sig sorts counts = vars_from sig (replicate (length (sig_sorts sig)) 0) sorts counts"

definition qs_new :: "signature \<Rightarrow> 'q list \<Rightarrow> nat list \<Rightarrow> nat list \<Rightarrow> 'q qseq option" where
  "qs_new sig quantifiers sorts counts =
     map_option (\<lambda>names. \<lparr>qs_signature = sig, qs_quantifiers = quantifiers, qs_sorts = sorts, qs_names = names\<rparr>)
       (vars sig sorts counts)"

definition qs_len :: "'q qseq \<Rightarrow> nat" where
  "qs_len qs = length (qs_quantifiers qs)"

definition qs_restrict :: "'q qseq \<Rightarrow> string set \<Rightarrow> 'q qseq" where
  "qs_restrict qs ids = qs\<lparr>qs_names := map (filter (\<lambda>name. name \<in> ids)) (qs_names qs)\<rparr>"

definition num_vars :: "'q qseq \<Rightarrow> nat" where
  "num_vars qs = sum_list (map length (qs_names qs))"

definition all_vars :: "'q qseq \<Rightarrow> string set" where
  "all_vars qs = set (concat (qs_names qs))"

definition as_universal :: "'q qseq \<Rightarrow> quant_prefix" where
  "as_universal qs = \<lparr>qs_signature = qs_signature qs, qs_quantifiers = replicate (qs_len qs) Forall,
     qs_sorts = qs_sorts qs, qs_names = qs_names qs\<rparr>"

text \<open>The variables sorted by their sort, then the terms of the signature over them; \<open>pop\<close> takes the
  Boolean ones.\<close>

definition sort_vars :: "'q qseq \<Rightarrow> string list list option" where
  "sort_vars qs =
     fold_p (\<lambda>(i, v) sorted_vars.
         if i < length (qs_sorts qs) \<and> qs_sorts qs ! i < length sorted_vars
         then Some (sorted_vars[qs_sorts qs ! i := sorted_vars ! (qs_sorts qs ! i) @ v]) else None)
       (enumerate 0 (qs_names qs)) (replicate (length (sig_sorts (qs_signature qs))) [])"

definition qs_atoms :: "itertools \<Rightarrow> 'q qseq \<Rightarrow> nat option \<Rightarrow> bool \<Rightarrow> fterm list option" where
  "qs_atoms it qs nesting include_eq =
     Option.bind (sort_vars qs) (\<lambda>sorted_vars.
     Option.bind (terms_by_sort it (qs_signature qs) sorted_vars nesting include_eq) (\<lambda>terms.
       if terms = [] then None else Some (last terms)))"

section \<open>Permutations of the variables\<close>

text \<open>The third-party iterators: the arrangements of \<open>k\<close> elements of a list, and the product.\<close>

record quant_iters =
  qi_arrangements :: "nat \<Rightarrow> string list \<Rightarrow> string list list"
  qi_product :: "string list list list \<Rightarrow> string list list list"
  qi_quantifiers :: "quantifier list list \<Rightarrow> quantifier list list"

definition quant_iters_doc :: "quant_iters \<Rightarrow> bool" where
  "quant_iters_doc qi \<longleftrightarrow> mcp_doc (qi_product qi) \<and> mcp_doc (qi_quantifiers qi)
     \<and> (\<forall>k vs. distinct vs \<longrightarrow> set (qi_arrangements qi k vs) = {p. length p = k \<and> distinct p \<and> set p \<subseteq> set vs})"

text \<open>\<open>only\<close> is the set of variables that occur, when one is given; \<open>collect\<close> into a map lets later pairs win.\<close>

definition permutations :: "quant_iters \<Rightarrow> 'q qseq \<Rightarrow> nat \<Rightarrow> string set option \<Rightarrow> substitution list" where
  "permutations qi qs start_at only =
     (if qs_len qs \<le> start_at then [Map.empty]
      else let vs = drop start_at (qs_names qs);
               only_vars = (case only of Some only_set \<Rightarrow> map (filter (\<lambda>v. v \<in> only_set)) vs | None \<Rightarrow> vs)
           in map (\<lambda>perm. Map.empty(concat only_vars [\<mapsto>] map Id (concat perm)))
                (mcp_fixed (qi_product qi) (map2 (\<lambda>v o'. qi_arrangements qi (length o') v) vs only_vars)))"

section \<open>Prefixes of a configuration\<close>

fun distribute :: "nat \<Rightarrow> nat list \<Rightarrow> nat list list option" where
  "distribute amount [] = None"
| "distribute amount [b] = Some (if amount \<le> b then [[amount]] else [])"
| "distribute amount (b # bs) =
     map_option concat (those (map (\<lambda>c. map_option (map (Cons c)) (distribute (amount - c) bs)) [0..<Suc (min amount b)]))"

definition existentials :: "quant_prefix \<Rightarrow> nat" where
  "existentials p = sum_list (map2 (\<lambda>q names. if q = Exists then length names else 0) (qs_quantifiers p) (qs_names p))"

definition exact_prefixes :: "quant_iters \<Rightarrow> quant_config \<Rightarrow> nat \<Rightarrow> nat \<Rightarrow> nat \<Rightarrow> quant_prefix list option" where
  "exact_prefixes qi cfg min_existentials max_existentials size' =
     (if qs_len cfg = 0
      then Some [\<lparr>qs_signature = qs_signature cfg, qs_quantifiers = [], qs_sorts = [], qs_names = []\<rparr>]
      else let counts = map length (qs_names cfg) in
        map_option (\<lambda>dists. concat (map (\<lambda>dist.
            filter (\<lambda>p. min_existentials \<le> existentials p \<and> existentials p \<le> max_existentials)
              (map (\<lambda>quantifiers. \<lparr>qs_signature = qs_signature cfg, qs_quantifiers = quantifiers,
                    qs_sorts = qs_sorts cfg, qs_names = map2 take dist (qs_names cfg)\<rparr>)
                (mcp_fixed (qi_quantifiers qi)
                  (map2 (\<lambda>q d. case q of None \<Rightarrow> (if d \<noteq> 0 then [Forall, Exists] else [Forall]) | Some q \<Rightarrow> [q])
                    (qs_quantifiers cfg) dist)))) dists))
          (distribute (min size' (sum_list counts)) counts))"

definition all_prefixes :: "quant_iters \<Rightarrow> quant_config \<Rightarrow> nat option \<Rightarrow> nat \<Rightarrow> quant_prefix list option" where
  "all_prefixes qi cfg max_existentials max_size =
     map_option concat (those (map (\<lambda>(e, s). exact_prefixes qi cfg e e s)
       [(e, s). e \<leftarrow> [0..<Suc (case max_existentials of Some e \<Rightarrow> e | None \<Rightarrow> num_vars cfg)], s \<leftarrow> [0..<Suc max_size]]))"

definition config_non_universal_vars :: "quant_config \<Rightarrow> string set" where
  "config_non_universal_vars cfg =
     (case find (\<lambda>i. qs_quantifiers cfg ! i \<noteq> Some Forall) [0..<qs_len cfg] of
        Some first_exists \<Rightarrow> set (concat (drop first_exists (qs_names cfg))) | None \<Rightarrow> {})"

definition prefix_non_universal_vars :: "quant_prefix \<Rightarrow> string set" where
  "prefix_non_universal_vars p =
     (case find (\<lambda>i. qs_quantifiers p ! i = Exists) [0..<qs_len p] of
        Some first_exists \<Rightarrow> set (concat (drop first_exists (qs_names p))) | None \<Rightarrow> {})"

section \<open>Quantifying a term and comparing prefixes\<close>

text \<open>\<^verbatim>\<open>lemma::ids\<close>: quantified terms and literals have no names.\<close>

fun term_ids :: "fterm \<Rightarrow> string set" where
  "term_ids (Id name) = {name}"
| "term_ids (App f p vt) = \<Union> (set (map term_ids vt))"
| "term_ids (UnaryOp op t) = term_ids t"
| "term_ids (BinOp op t1 t2) = term_ids t1 \<union> term_ids t2"
| "term_ids (NAryOp op vt) = \<Union> (set (map term_ids vt))"
| "term_ids (Ite c t e) = term_ids c \<union> term_ids t \<union> term_ids e"
| "term_ids (Literal b) = {}"
| "term_ids (Quantified q bs body) = {}"

definition prefix_binders :: "quant_prefix \<Rightarrow> string set \<Rightarrow> nat \<Rightarrow> fbinder list" where
  "prefix_binders p present i =
     map (\<lambda>name. \<lparr>b_name = name, b_sort = Uninterpreted (sig_sorts (qs_signature p) ! (qs_sorts p ! i))\<rparr>)
       (filter (\<lambda>name. name \<in> present) (qs_names p ! i))"

definition prefix_quantify :: "quant_prefix \<Rightarrow> fterm \<Rightarrow> fterm" where
  "prefix_quantify p t =
     foldr (\<lambda>i t'. let binders = prefix_binders p (term_ids t) i in
        if binders \<noteq> [] then Quantified (qs_quantifiers p ! i) binders t' else t') [0..<length (qs_names p)] t"

text \<open>The comparisons assert that the lengths agree.\<close>

definition prefix_subsumes :: "quant_prefix \<Rightarrow> quant_prefix \<Rightarrow> bool option" where
  "prefix_subsumes p p' =
     (if qs_len p \<noteq> qs_len p' then None
      else Some (list_all (\<lambda>i. qs_names p' = [] \<or>
        (length (qs_names p' ! i) \<le> length (qs_names p ! i)
         \<and> (qs_quantifiers p ! i = Forall \<or> qs_quantifiers p' ! i = Exists))) [0..<qs_len p]))"

definition prefix_contains :: "quant_prefix \<Rightarrow> quant_prefix \<Rightarrow> bool option" where
  "prefix_contains p p' =
     (if qs_len p \<noteq> qs_len p' then None
      else Some (list_all (\<lambda>i. qs_quantifiers p ! i = qs_quantifiers p' ! i
        \<and> length (qs_names p' ! i) \<le> length (qs_names p ! i)) [0..<qs_len p]))"

fun cmp_positions :: "(quantifier \<times> string list) list \<Rightarrow> (quantifier \<times> string list) list \<Rightarrow> cmp_result" where
  "cmp_positions ((q1, n1) # ps) ((q2, n2) # qs) =
     (if n1 = [] \<and> n2 = [] then cmp_positions ps qs
      else if n1 = [] then GreaterOrd
      else if n2 = [] then LessOrd
      else if q1 = Forall \<and> q2 = Exists then LessOrd
      else if q1 = Exists \<and> q2 = Forall then GreaterOrd
      else if length n2 < length n1 then LessOrd
      else if length n1 < length n2 then GreaterOrd
      else cmp_positions ps qs)"
| "cmp_positions _ _ = EqualOrd"

definition prefix_cmp :: "quant_prefix \<Rightarrow> quant_prefix \<Rightarrow> cmp_result option" where
  "prefix_cmp p p' =
     (if qs_len p \<noteq> qs_len p' \<or> qs_sorts p \<noteq> qs_sorts p' then None
      else Some (cmp_positions (zip (qs_quantifiers p) (qs_names p)) (zip (qs_quantifiers p') (qs_names p'))))"

section \<open>Well-formed prefixes\<close>

text \<open>One sort and one list of variables per quantifier, with different names: what \<open>qs_new\<close> builds and the
  other operations keep, so the indexing in the code is in range.\<close>

definition qs_okay :: "'q qseq \<Rightarrow> bool" where
  "qs_okay qs \<longleftrightarrow> length (qs_sorts qs) = qs_len qs \<and> length (qs_names qs) = qs_len qs
     \<and> (\<forall>s\<in>set (qs_sorts qs). s < length (sig_sorts (qs_signature qs))) \<and> distinct (concat (qs_names qs))"

lemma prefix_subsumes_refl: "prefix_subsumes p p = Some True"
  by (auto simp: prefix_subsumes_def list_all_iff) (metis quantifier.exhaust)

lemma prefix_subsumes_iff:
  assumes "qs_okay p" "qs_okay p'"
  shows "prefix_subsumes p p' = Some True \<longleftrightarrow> list_all2 (\<lambda>(q1, n1) (q2, n2). length n2 \<le> length n1 \<and> (q1 = Forall \<or> q2 = Exists))
    (zip (qs_quantifiers p) (qs_names p)) (zip (qs_quantifiers p') (qs_names p'))"
proof -
  have len: "length (qs_names p) = qs_len p" "length (qs_names p') = qs_len p'" "length (qs_quantifiers p) = qs_len p"
    "length (qs_quantifiers p') = qs_len p'"
    using assms by (simp_all add: qs_okay_def qs_len_def)
  show ?thesis
  proof (cases "qs_len p = qs_len p'")
    case True
    have "qs_names p' = [] \<longleftrightarrow> qs_len p' = 0" using len(2) by (metis length_0_conv)
    with True len show ?thesis by (auto simp: prefix_subsumes_def list_all_iff list_all2_conv_all_nth)
  next
    case False
    with len show ?thesis by (auto simp: prefix_subsumes_def dest: list_all2_lengthD)
  qed
qed

text \<open>As the code documents: a prefix that subsumes another is not greater.\<close>

lemma cmp_positions_subsumes:
  "list_all2 (\<lambda>(q1, n1) (q2, n2). length n2 \<le> length n1 \<and> (q1 = Forall \<or> q2 = Exists)) ps qs \<Longrightarrow> cmp_positions ps qs \<noteq> GreaterOrd"
  by (induction ps qs rule: cmp_positions.induct) auto

lemma prefix_cmp_subsumes:
  assumes "qs_okay p" "qs_okay p'" "prefix_subsumes p p' = Some True"
  shows "prefix_cmp p p' \<noteq> Some GreaterOrd"
  using cmp_positions_subsumes [OF prefix_subsumes_iff [OF assms(1,2), THEN iffD1, OF assms(3)]] by (simp add: prefix_cmp_def)

text \<open>Dropping an existentially quantified variable is not recognised when the position is left without
  variables under a universal quantifier: the code tests whether there are positions at all.\<close>

lemma dropped_existential_not_subsumed:
  "prefix_subsumes \<lparr>qs_signature = defs_sig, qs_quantifiers = [Exists], qs_sorts = [0], qs_names = [[''x'']]\<rparr>
     \<lparr>qs_signature = defs_sig, qs_quantifiers = [Forall], qs_sorts = [0], qs_names = [[]]\<rparr> = Some False"
  by code_simp

section \<open>Distributing variables over positions\<close>

lemma in_concat_map: "y \<in> set (concat (map f xs)) \<longleftrightarrow> (\<exists>x\<in>set xs. y \<in> set (f x))"
  by auto

lemma distribute_spec:
  "bs \<noteq> [] \<Longrightarrow> \<exists>dists. distribute amount bs = Some dists \<and> set dists = {ds. list_all2 (\<le>) ds bs \<and> sum_list ds = amount} \<and> distinct dists"
proof (induction amount bs rule: distribute.induct)
  case (2 amount b)
  have "{ds. list_all2 (\<le>) ds [b] \<and> sum_list ds = amount} = (if amount \<le> b then {[amount]} else {})"
    by (auto simp: list_all2_Cons2)
  then show ?case by simp
next
  case (3 amount b b' bs)
  define ds where "ds c = the (distribute (amount - c) (b' # bs))" for c
  have ds: "distribute (amount - c) (b' # bs) = Some (ds c) \<and> set (ds c) = {ds. list_all2 (\<le>) ds (b' # bs) \<and> sum_list ds = amount - c} \<and> distinct (ds c)"
    if c: "c \<in> set [0..<Suc (min amount b)]" for c
  proof -
    obtain dists where "distribute (amount - c) (b' # bs) = Some dists"
      "set dists = {ds. list_all2 (\<le>) ds (b' # bs) \<and> sum_list ds = amount - c}" "distinct dists"
      using "3.IH" [OF c] by blast
    then show ?thesis by (simp add: ds_def)
  qed
  have "those (map (\<lambda>c. map_option (map (Cons c)) (distribute (amount - c) (b' # bs))) [0..<Suc (min amount b)])
      = Some (map (\<lambda>c. map (Cons c) (ds c)) [0..<Suc (min amount b)])"
    by (rule those_map_SomeI) (use ds in simp)
  then have res: "distribute amount (b # b' # bs) = Some (concat (map (\<lambda>c. map (Cons c) (ds c)) [0..<Suc (min amount b)]))"
    by (simp only: distribute.simps option.map)
  have "set (concat (map (\<lambda>c. map (Cons c) (ds c)) [0..<Suc (min amount b)]))
      = {ds. list_all2 (\<le>) ds (b # b' # bs) \<and> sum_list ds = amount}"
  proof (intro set_eqI iffI)
    fix xs assume "xs \<in> set (concat (map (\<lambda>c. map (Cons c) (ds c)) [0..<Suc (min amount b)]))"
    then obtain c ys where "c \<in> set [0..<Suc (min amount b)]" "ys \<in> set (ds c)" "xs = c # ys" by auto
    with ds [of c] show "xs \<in> {ds. list_all2 (\<le>) ds (b # b' # bs) \<and> sum_list ds = amount}" by auto
  next
    fix xs assume "xs \<in> {ds. list_all2 (\<le>) ds (b # b' # bs) \<and> sum_list ds = amount}"
    then obtain c ys where xs: "xs = c # ys" "c \<le> b" "list_all2 (\<le>) ys (b' # bs)" "c + sum_list ys = amount"
      by (auto simp: list_all2_Cons2)
    then have "c \<in> set [0..<Suc (min amount b)]" by auto
    moreover from this have "ys \<in> set (ds c)" using ds [of c] xs by auto
    ultimately show "xs \<in> set (concat (map (\<lambda>c. map (Cons c) (ds c)) [0..<Suc (min amount b)]))"
      unfolding xs(1) in_concat_map by (intro bexI [of _ c]) simp_all
  qed
  moreover have "distinct (concat (map (\<lambda>c. map (Cons c) (ds c)) cs))" if "distinct cs" "\<forall>c\<in>set cs. distinct (ds c)" for cs
    using that by (induction cs) (auto simp: distinct_map inj_on_def)
  moreover have "\<forall>c\<in>set [0..<Suc (min amount b)]. distinct (ds c)" using ds by blast
  ultimately show ?case unfolding res using distinct_upt by blast
qed simp

section \<open>The meaning of a quantified term\<close>

fun holds_prefix :: "(quantifier \<times> nat \<times> string list) list \<Rightarrow> (assignment \<Rightarrow> bool) \<Rightarrow> assignment \<Rightarrow> bool" where
  "holds_prefix [] P a = P a"
| "holds_prefix ((q, c, names) # ps) P a =
     quant_over q (tuples (replicate (length names) c)) (\<lambda>vs. holds_prefix ps P (assign_all a names vs))"

definition prefix_positions :: "fo_trace \<Rightarrow> quant_prefix \<Rightarrow> (quantifier \<times> nat \<times> string list) list" where
  "prefix_positions tr p = zip (qs_quantifiers p)
     (zip (map (\<lambda>s. tr_card tr (Uninterpreted (sig_sorts (qs_signature p) ! s))) (qs_sorts p)) (qs_names p))"

fun quantifier_free :: "fterm \<Rightarrow> bool" where
  "quantifier_free (Literal b) \<longleftrightarrow> True"
| "quantifier_free (Id x) \<longleftrightarrow> True"
| "quantifier_free (App f p xs) \<longleftrightarrow> list_all quantifier_free xs"
| "quantifier_free (UnaryOp op t) \<longleftrightarrow> quantifier_free t"
| "quantifier_free (BinOp op x y) \<longleftrightarrow> quantifier_free x \<and> quantifier_free y"
| "quantifier_free (NAryOp op ts) \<longleftrightarrow> list_all quantifier_free ts"
| "quantifier_free (Ite c t e) \<longleftrightarrow> quantifier_free c \<and> quantifier_free t \<and> quantifier_free e"
| "quantifier_free (Quantified q bs body) \<longleftrightarrow> False"

lemma term_ids_qf: "quantifier_free t \<Longrightarrow> term_ids t = id_names t"
  by (induction t) (simp_all add: list_all_iff)

lemma holds_prefix_names:
  assumes P: "\<And>a a'. (\<And>x. x \<in> N \<Longrightarrow> a x = a' x) \<Longrightarrow> P a = P a'"
  shows "(\<And>x. x \<in> N \<Longrightarrow> a x = a' x) \<Longrightarrow> holds_prefix ps P a = holds_prefix ps P a'"
proof (induction ps arbitrary: a a')
  case Nil
  then show ?case using P [of a a'] by simp
next
  case (Cons pos ps)
  obtain q c names where pos: "pos = (q, c, names)" by (cases pos)
  have "assign_all a names vs x = assign_all a' names vs x" if "x \<in> N" for vs x
    using Cons.prems [OF that] by (simp add: assign_all_def map_upds_def map_add_def split: option.split)
  then have "holds_prefix ps P (assign_all a names vs) = holds_prefix ps P (assign_all a' names vs)" for vs
    by (rule Cons.IH)
  then show ?case by (simp add: pos)
qed

lemma prefix_quantify_holds:
  assumes ok: "qs_okay p" and pos: "\<And>s. s \<in> set (qs_sorts p) \<Longrightarrow> 0 < tr_card tr (Uninterpreted (sig_sorts (qs_signature p) ! s))"
    and qf: "quantifier_free t"
  shows "holds tr i a (prefix_quantify p t) \<longleftrightarrow> holds_prefix (prefix_positions tr p) (\<lambda>a. holds tr i a t) a"
proof -
  let ?f = "\<lambda>i t'. let binders = prefix_binders p (term_ids t) i in
        if binders \<noteq> [] then Quantified (qs_quantifiers p ! i) binders t' else t'"
  let ?n = "length (qs_names p)" and ?ps = "prefix_positions tr p"
  have len: "length ?ps = ?n" "length (qs_sorts p) = ?n" "length (qs_quantifiers p) = ?n"
    using ok by (auto simp: prefix_positions_def qs_okay_def qs_len_def)
  have "holds tr i a (foldr ?f [k..<?n] t) \<longleftrightarrow> holds_prefix (drop k ?ps) (\<lambda>a. holds tr i a t) a" if "k \<le> ?n" for k a
    using that
  proof (induction "?n - k" arbitrary: k a)
    case 0
    then show ?case using len by simp
  next
    case (Suc d)
    then have k: "k < ?n" by simp
    let ?q = "qs_quantifiers p ! k" and ?names = "qs_names p ! k"
    let ?srt = "Uninterpreted (sig_sorts (qs_signature p) ! (qs_sorts p ! k))"
    let ?bs = "map (\<lambda>name. \<lparr>b_name = name, b_sort = ?srt\<rparr>) ?names"
    define N where "N = - term_ids t"
    define F where "F a = holds_prefix (drop (Suc k) ?ps) (\<lambda>a. holds tr i a t) a" for a
    have ps: "drop k ?ps = (?q, tr_card tr ?srt, ?names) # drop (Suc k) ?ps"
      using k len by (simp add: Cons_nth_drop_Suc [symmetric]) (simp add: prefix_positions_def)
    have bs: "prefix_binders p (term_ids t) k = filter (\<lambda>b. b_name b \<notin> N) ?bs"
      by (simp add: prefix_binders_def N_def filter_map comp_def)
    have local: "F a = F a'" if "\<And>x. x \<notin> N \<Longrightarrow> a x = a' x" for a a'
      unfolding F_def
    proof (rule holds_prefix_names [where N = "id_names t"])
      show "a x = a' x" if "x \<in> id_names t" for x using \<open>\<And>x. x \<notin> N \<Longrightarrow> a x = a' x\<close> that by (simp add: N_def term_ids_qf [OF qf])
      show "holds tr i a t = holds tr i a' t" if "\<And>x. x \<in> id_names t \<Longrightarrow> a x = a' x" for a a'
        using teval_names [of t a a' tr i] that by simp
    qed
    have IH: "holds tr i a (foldr ?f [Suc k..<?n] t) \<longleftrightarrow> F a" for a unfolding F_def using Suc by (intro Suc.hyps(1)) auto
    have "quant_over ?q (tuples (map (\<lambda>b. tr_card tr (b_sort b)) (filter (\<lambda>b. b_name b \<notin> N) ?bs)))
        (\<lambda>vs. F (assign_all a (map b_name (filter (\<lambda>b. b_name b \<notin> N) ?bs)) vs))
      \<longleftrightarrow> quant_over ?q (tuples (map (\<lambda>b. tr_card tr (b_sort b)) ?bs)) (\<lambda>vs. F (assign_all a (map b_name ?bs) vs))"
      by (rule quantify_shadow [OF local]) (use pos k len in auto)
    also have "\<dots> \<longleftrightarrow> holds_prefix (drop k ?ps) (\<lambda>a. holds tr i a t) a"
      unfolding ps by (simp add: F_def comp_def map_replicate_const)
    finally have main: "quant_over ?q (tuples (map (\<lambda>b. tr_card tr (b_sort b)) (prefix_binders p (term_ids t) k)))
        (\<lambda>vs. F (assign_all a (map b_name (prefix_binders p (term_ids t) k)) vs)) \<longleftrightarrow> holds_prefix (drop k ?ps) (\<lambda>a. holds tr i a t) a"
      unfolding bs .
    have "foldr ?f [k..<?n] t = ?f k (foldr ?f [Suc k..<?n] t)" using k by (simp add: upt_conv_Cons)
    then show ?case
      using main IH by (cases "prefix_binders p (term_ids t) k = []") (simp_all add: Let_def assign_all_def of_bool_def quant_over_const)
  qed
  from this [of 0] show ?thesis by (simp add: prefix_quantify_def)
qed

end
