(* ===== verification/Inference_Lemma.thy ===== *)
theory Inference_Lemma
  imports Inference_Quant
begin

text \<open>
  Model of the atoms of \<^verbatim>\<open>inference/src/atoms.rs\<close> and of the lemma domains of
  \<^verbatim>\<open>inference/src/lemma.rs\<close>: the trait \<^verbatim>\<open>LemmaQf\<close> (\<^verbatim>\<open>weaken.rs\<close>) as a record of its operations, and its
  three implementations. The set of allowed atoms is kept in the order it is iterated.
\<close>

section \<open>Atoms\<close>

record atoms_table =
  at_terms :: "fterm list"
  at_index :: "fterm \<Rightarrow> nat option"

record restricted_atoms =
  ra_atoms :: atoms_table
  ra_allowed :: "nat list"

definition atom_term :: "restricted_atoms \<Rightarrow> nat \<Rightarrow> fterm option" where
  "atom_term ra a = (if a < length (at_terms (ra_atoms ra)) then Some (at_terms (ra_atoms ra) ! a) else None)"

definition restrict_atoms :: "atoms_table \<Rightarrow> (fterm \<Rightarrow> bool) \<Rightarrow> restricted_atoms" where
  "restrict_atoms atoms r = \<lparr>ra_atoms = atoms, ra_allowed = map fst (filter (\<lambda>(_, a). r a) (enumerate 0 (at_terms atoms)))\<rparr>"

definition restrict_by_prefix :: "atoms_table \<Rightarrow> quant_config \<Rightarrow> quant_prefix \<Rightarrow> restricted_atoms" where
  "restrict_by_prefix atoms config p =
     (let difference = all_vars config - all_vars p in restrict_atoms atoms (\<lambda>a. term_ids a \<inter> difference = {}))"

definition atom_is_eq :: "restricted_atoms \<Rightarrow> nat \<Rightarrow> bool option" where
  "atom_is_eq ra a = map_option (\<lambda>t. case t of BinOp Equals _ _ \<Rightarrow> True | _ \<Rightarrow> False) (atom_term ra a)"

definition allowed_index :: "restricted_atoms \<Rightarrow> fterm \<Rightarrow> nat option" where
  "allowed_index ra t = (case at_index (ra_atoms ra) t of Some i \<Rightarrow> if i \<in> set (ra_allowed ra) then Some i else None | None \<Rightarrow> None)"

text \<open>An equality may be found with its sides exchanged; the exchanged one is preferred.\<close>

definition atom_substitute :: "restricted_atoms \<Rightarrow> nat \<Rightarrow> substitution \<Rightarrow> nat option option" where
  "atom_substitute ra atom sub =
     (case atom_term ra atom of
        None \<Rightarrow> None
      | Some (BinOp Equals t1 t2) \<Rightarrow>
          (case substitute_qf t1 sub of None \<Rightarrow> None | Some t1_sub \<Rightarrow>
           (case substitute_qf t2 sub of None \<Rightarrow> None | Some t2_sub \<Rightarrow>
             Some (case allowed_index ra (term_equals t2_sub t1_sub) of
                     Some i \<Rightarrow> Some i | None \<Rightarrow> allowed_index ra (term_equals t1_sub t2_sub))))
      | Some t \<Rightarrow> map_option (allowed_index ra) (substitute_qf t sub))"

definition atoms_cube :: "itertools \<Rightarrow> restricted_atoms \<Rightarrow> model \<Rightarrow> assignment \<Rightarrow> atom_literal list option" where
  "atoms_cube it ra m asgn =
     those (map (\<lambda>a. map_option (\<lambda>v. (a, v = 1)) (Option.bind (atom_term ra a) (\<lambda>t. eval_assign it m t asgn))) (ra_allowed ra))"

definition atoms_neg_cube :: "itertools \<Rightarrow> restricted_atoms \<Rightarrow> model \<Rightarrow> assignment \<Rightarrow> atom_literal list option" where
  "atoms_neg_cube it ra m asgn =
     those (map (\<lambda>a. map_option (\<lambda>v. (a, v = 0)) (Option.bind (atom_term ra a) (\<lambda>t. eval_assign it m t asgn))) (ra_allowed ra))"

text \<open>\<open>to_term\<close> answers None for atoms that are not allowed; the callers unwrap it.\<close>

definition literal_term :: "restricted_atoms \<Rightarrow> atom_literal \<Rightarrow> fterm option" where
  "literal_term ra l =
     (if fst l \<in> set (ra_allowed ra)
      then map_option (\<lambda>a. if snd l then a else term_negate a) (atom_term ra (fst l)) else None)"

definition containing_vars :: "restricted_atoms \<Rightarrow> atom_literal list \<Rightarrow> string set \<Rightarrow> atom_literal list option" where
  "containing_vars ra literals vs = filter_p (\<lambda>l. map_option (\<lambda>t. term_ids t \<inter> vs \<noteq> {}) (atom_term ra (fst l))) literals"

definition neg_lit :: "atom_literal \<Rightarrow> atom_literal" where
  "neg_lit l = (fst l, \<not> snd l)"

section \<open>The trait\<close>

text \<open>\<open>lq_substitute\<close> may panic and may answer that an atom is missing; what is to be ignored is asked of a
  function that may panic.\<close>

record 'b lemma_qf =
  lq_base_from_clause :: "atom_literal list \<Rightarrow> 'b"
  lq_substitute :: "'b \<Rightarrow> substitution \<Rightarrow> 'b option option"
  lq_ids :: "'b \<Rightarrow> string set option"
  lq_base_to_term :: "'b \<Rightarrow> fterm option"
  lq_strongest :: "'b list"
  lq_weaken :: "'b \<Rightarrow> atom_literal list \<Rightarrow> ('b \<Rightarrow> bool option) \<Rightarrow> 'b list option"

definition not_ignored :: "('b \<Rightarrow> bool option) \<Rightarrow> 'b \<Rightarrow> bool option" where
  "not_ignored ignore b = map_option Not (ignore b)"

text \<open>The third-party iterators, and the order in which a hash set of literals is gone through.\<close>

record lemma_iters =
  li_combinations :: "nat \<Rightarrow> atom_literal list \<Rightarrow> atom_literal list list"
  li_product :: "atom_literal list list list \<Rightarrow> atom_literal list list list"
  li_order :: "atom_literal list \<Rightarrow> atom_literal list"

definition lemma_iters_doc :: "lemma_iters \<Rightarrow> bool" where
  "lemma_iters_doc li \<longleftrightarrow> mcp_doc (li_product li) \<and> (\<forall>xs. set (li_order li xs) = set xs)
     \<and> (\<forall>k xs. \<forall>ys\<in>set (li_combinations li k xs). length ys = k \<and> set ys \<subseteq> set xs)"

section \<open>Substituting and naming\<close>

definition subst_literal :: "restricted_atoms \<Rightarrow> substitution \<Rightarrow> atom_literal \<Rightarrow> atom_literal option option" where
  "subst_literal ra sub l = map_option (map_option (\<lambda>a. (a, snd l))) (atom_substitute ra (fst l) sub)"

fun subst_literals :: "restricted_atoms \<Rightarrow> substitution \<Rightarrow> atom_literal list \<Rightarrow> atom_literal list option option" where
  "subst_literals ra sub [] = Some (Some [])"
| "subst_literals ra sub (l # ls) =
     (case subst_literal ra sub l of None \<Rightarrow> None | Some None \<Rightarrow> Some None | Some (Some l) \<Rightarrow>
        map_option (map_option (Cons l)) (subst_literals ra sub ls))"

fun subst_lists :: "restricted_atoms \<Rightarrow> substitution \<Rightarrow> atom_literal list list \<Rightarrow> atom_literal list list option option" where
  "subst_lists ra sub [] = Some (Some [])"
| "subst_lists ra sub (ls # lss) =
     (case subst_literals ra sub ls of None \<Rightarrow> None | Some None \<Rightarrow> Some None | Some (Some ls) \<Rightarrow>
        map_option (map_option (Cons ls)) (subst_lists ra sub lss))"

definition lists_ids :: "restricted_atoms \<Rightarrow> atom_literal list list \<Rightarrow> string set option" where
  "lists_ids ra lss = map_option (\<lambda>ts. \<Union> (set (map term_ids ts))) (those (map (literal_term ra) (concat lss)))"

section \<open>Conjunctive normal forms\<close>

record lemma_cnf =
  lc_clauses :: nat
  lc_clause_size :: nat
  lc_atoms :: restricted_atoms

definition cnf_weaken_clause :: "lemma_cnf \<Rightarrow> atom_literal list \<Rightarrow> atom_literal list \<Rightarrow> atom_literal list list option" where
  "cnf_weaken_clause lc cube cl =
     (if cl = [] then None
      else if list_ex (\<lambda>lit. lit \<in> set cl) cube then Some [cl]
      else if lc_clause_size lc \<le> length cl then Some []
      else map_option (map (\<lambda>lit. cl @ [lit]))
        (filter_p (\<lambda>lit. map_option (\<lambda>e. \<not> e \<or> snd lit) (atom_is_eq (lc_atoms lc) (fst lit)))
          (filter (\<lambda>lit. neg_lit lit \<notin> set cl) cube)))"

definition cnf_weaken ::
  "lemma_iters \<Rightarrow> lemma_cnf \<Rightarrow> atom_literal list list \<Rightarrow> atom_literal list \<Rightarrow> (atom_literal list list \<Rightarrow> bool option) \<Rightarrow> atom_literal list list list option" where
  "cnf_weaken li lc base cube ignore =
     (if base = [] then None
      else if base = [[]] then Some (map (map (\<lambda>lit. [lit])) (li_combinations li (min (lc_clauses lc) (length cube)) cube))
      else Option.bind (those (map (cnf_weaken_clause lc cube) base))
        (\<lambda>css. filter_p (not_ignored ignore) (mcp_fixed (li_product li) css)))"

definition cnf_base_to_term :: "restricted_atoms \<Rightarrow> atom_literal list list \<Rightarrow> fterm option" where
  "cnf_base_to_term ra base = map_option term_and (those (map (\<lambda>cl. map_option term_or (those (map (literal_term ra) cl))) base))"

definition cnf_lemma_qf :: "lemma_iters \<Rightarrow> lemma_cnf \<Rightarrow> atom_literal list list lemma_qf" where
  "cnf_lemma_qf li lc = \<lparr>
     lq_base_from_clause = (\<lambda>clause. [clause]),
     lq_substitute = (\<lambda>base sub. subst_lists (lc_atoms lc) sub base),
     lq_ids = lists_ids (lc_atoms lc),
     lq_base_to_term = cnf_base_to_term (lc_atoms lc),
     lq_strongest = [[[]]],
     lq_weaken = cnf_weaken li lc\<rparr>"

section \<open>Disjunctive normal forms, by unit propagation\<close>

record lemma_pdnf_naive =
  ln_cubes :: nat
  ln_cube_size :: nat
  ln_non_unit :: nat
  ln_atoms :: restricted_atoms

definition unit_normalize :: "atom_literal list list \<Rightarrow> atom_literal \<Rightarrow> atom_literal list list option" where
  "unit_normalize base literal =
     (let base = map (filter (\<lambda>lit. neg_lit lit \<noteq> literal)) (filter (\<lambda>cb. literal \<notin> set cb) base)
      in if list_ex (\<lambda>cb. cb = []) base then None else Some base)"

text \<open>The loop of \<^verbatim>\<open>add_unit\<close>, with the set of literals it collects. The outer None is a panic.\<close>

lemma position_less: "position p xs = Some i \<Longrightarrow> i < length xs \<and> p (xs ! i)"
  by (induction xs arbitrary: i) (auto split: if_splits)

lemma unit_normalize_length: "unit_normalize base literal = Some base' \<Longrightarrow> length base' \<le> length base"
  by (auto simp: unit_normalize_def Let_def split: if_splits)

definition remove_nth :: "nat \<Rightarrow> 'a list \<Rightarrow> 'a list" where
  "remove_nth i xs = take i xs @ drop (Suc i) xs"

definition literal_insert :: "atom_literal \<Rightarrow> atom_literal list \<Rightarrow> atom_literal list" where
  "literal_insert l ls = (if l \<in> set ls then ls else ls @ [l])"

function add_unit_loop ::
  "restricted_atoms \<Rightarrow> atom_literal list list \<Rightarrow> atom_literal \<Rightarrow> atom_literal list \<Rightarrow> (atom_literal list list \<times> atom_literal list) option option" where
  "add_unit_loop ra base literal literals =
     (case atom_is_eq ra (fst literal) of None \<Rightarrow> None | Some e \<Rightarrow>
      if e \<and> \<not> snd literal then Some None
      else (case unit_normalize base literal of None \<Rightarrow> Some None | Some base \<Rightarrow>
        (case position (\<lambda>v. length v = 1) base of
           Some i \<Rightarrow> add_unit_loop ra (remove_nth i base) (last (base ! i)) (literal_insert literal literals)
         | None \<Rightarrow> Some (Some (base, literal_insert literal literals)))))"
  by pat_completeness auto
termination
  by (relation "measure (\<lambda>(ra, base, literal, literals). length base)")
    (auto simp: remove_nth_def dest!: position_less unit_normalize_length)

declare add_unit_loop.simps [simp del]

definition add_unit :: "lemma_iters \<Rightarrow> lemma_pdnf_naive \<Rightarrow> atom_literal list list \<Rightarrow> atom_literal \<Rightarrow> atom_literal list list option option" where
  "add_unit li ln base literal =
     map_option (\<lambda>r. case r of None \<Rightarrow> None | Some (base, literals) \<Rightarrow>
         if length literals + length base \<le> ln_cubes ln then Some (base @ map (\<lambda>lit. [lit]) (li_order li literals)) else None)
       (add_unit_loop (ln_atoms ln) base literal [])"

definition units_of :: "atom_literal list list \<Rightarrow> atom_literal set" where
  "units_of base = (\<lambda>cb. cb ! 0) ` set (filter (\<lambda>cb. length cb = 1) base)"

definition add_combinations ::
  "lemma_iters \<Rightarrow> lemma_pdnf_naive \<Rightarrow> atom_literal list list \<Rightarrow> atom_literal list \<Rightarrow> atom_literal list list list option" where
  "add_combinations li ln base cube =
     (if list_ex (\<lambda>lit. lit \<in> units_of base) cube then Some [base]
      else let cube = filter (\<lambda>lit. neg_lit lit \<notin> units_of base) cube; cube_len = length cube in
        if cube_len = 0 then Some []
        else if cube_len = 1 then map_option (\<lambda>r. case r of Some b \<Rightarrow> [b] | None \<Rightarrow> []) (add_unit li ln base (cube ! 0))
        else Some (if length base < ln_cubes ln
                   then map (\<lambda>cb. base @ [cb]) (li_combinations li (min (ln_cube_size ln) cube_len) cube) else []))"

text \<open>The loop over the cubes of \<^verbatim>\<open>intersect_cubes\<close>: None when a unit is in the cube and the base is returned
  as it is, otherwise the rest of the cube and the positions of the bigger cubes.\<close>

fun intersect_scan :: "(nat \<times> atom_literal list) list \<Rightarrow> atom_literal set \<Rightarrow> nat list \<Rightarrow> (atom_literal set \<times> nat list) option" where
  "intersect_scan [] cube non_units = Some (cube, non_units)"
| "intersect_scan ((i, cb) # rest) cube non_units =
     (if length cb = 1 then (if cb ! 0 \<in> cube then None else intersect_scan rest (cube - {neg_lit (cb ! 0)}) non_units)
      else intersect_scan rest cube (non_units @ [i]))"

definition intersect_cubes :: "atom_literal list list \<Rightarrow> atom_literal list \<Rightarrow> atom_literal list list list" where
  "intersect_cubes base cube =
     (case intersect_scan (enumerate 0 base) (set cube) [] of
        None \<Rightarrow> [base]
      | Some (cube, non_units) \<Rightarrow>
          concat (map (\<lambda>i. let intersection = filter (\<lambda>lit. lit \<in> cube) (base ! i) in
            if length intersection \<le> 1 then [] else [base[i := intersection]]) non_units))"

text \<open>\<open>filter_map\<close> with a function that may panic.\<close>

definition filter_map_p :: "('a \<Rightarrow> 'b option option) \<Rightarrow> 'a list \<Rightarrow> 'b list option" where
  "filter_map_p f xs = map_option (List.map_filter (\<lambda>r. r)) (those (map f xs))"

definition naive_weaken ::
  "lemma_iters \<Rightarrow> lemma_pdnf_naive \<Rightarrow> atom_literal list list \<Rightarrow> atom_literal list \<Rightarrow> (atom_literal list list \<Rightarrow> bool option) \<Rightarrow> atom_literal list list list option" where
  "naive_weaken li ln base cube ignore =
     (let non_unit = length (filter (\<lambda>cb. 1 < length cb) base) in
      if \<not> ln_non_unit ln \<le> 1 \<or> \<not> non_unit \<le> ln_non_unit ln then None
      else if non_unit < ln_non_unit ln then add_combinations li ln base cube
      else Option.bind (filter_map_p (add_unit li ln base) cube) (\<lambda>added.
        Option.bind (filter_p (\<lambda>b. if length b \<le> ln_cubes ln then not_ignored ignore b else Some False) added) (\<lambda>added.
        Option.bind (filter_map_p (add_unit li ln base) (li_order li (remdups (concat (filter (\<lambda>cb. 1 < length cb) base))))) (\<lambda>reduced.
        Option.bind (filter_p (not_ignored ignore) reduced) (\<lambda>reduced.
        Option.bind (those (map (\<lambda>b. add_combinations li ln b cube) reduced)) (\<lambda>combined.
        Option.bind (filter_p (not_ignored ignore) (concat combined)) (\<lambda>combined.
        map_option (\<lambda>intersected. added @ combined @ intersected) (filter_p (not_ignored ignore) (intersect_cubes base cube)))))))))"

definition dnf_base_to_term :: "restricted_atoms \<Rightarrow> atom_literal list list \<Rightarrow> fterm option" where
  "dnf_base_to_term ra base = map_option term_or (those (map (\<lambda>cb. map_option term_and (those (map (literal_term ra) cb))) base))"

definition naive_lemma_qf :: "lemma_iters \<Rightarrow> lemma_pdnf_naive \<Rightarrow> atom_literal list list lemma_qf" where
  "naive_lemma_qf li ln = \<lparr>
     lq_base_from_clause = map (\<lambda>lit. [lit]),
     lq_substitute = (\<lambda>base sub. subst_lists (ln_atoms ln) sub base),
     lq_ids = lists_ids (ln_atoms ln),
     lq_base_to_term = dnf_base_to_term (ln_atoms ln),
     lq_strongest = [[]],
     lq_weaken = naive_weaken li ln\<rparr>"

section \<open>Disjunctive normal forms with a clause\<close>

record lemma_pdnf =
  lp_cubes :: nat
  lp_cube_size :: nat
  lp_non_unit :: nat
  lp_atoms :: restricted_atoms
  lp_non_universal_vars :: "string set"

type_synonym pdnf_base = "atom_literal list \<times> atom_literal list list"

text \<open>The three ways of weakening, in the order of the code.\<close>

definition pdnf_add_literal :: "lemma_pdnf \<Rightarrow> pdnf_base \<Rightarrow> atom_literal list \<Rightarrow> pdnf_base list option" where
  "pdnf_add_literal lp base cube =
     (if \<not> length (fst base) + length (snd base) < lp_cubes lp then Some []
      else map_option (\<lambda>lits. concat (map (\<lambda>literal.
          if neg_lit literal \<in> set (fst base) then []
          else let new_non_units = map (filter (\<lambda>lit. lit \<noteq> neg_lit literal)) (filter (\<lambda>cb. literal \<notin> set cb) (snd base)) in
            if list_all (\<lambda>cb. 1 < length cb) new_non_units then [(fst base @ [literal], new_non_units)] else []) lits))
        (filter_p (\<lambda>lit. map_option (\<lambda>e. \<not> e \<or> snd lit) (atom_is_eq (lp_atoms lp) (fst lit))) cube))"

definition pdnf_intersect :: "pdnf_base \<Rightarrow> atom_literal list \<Rightarrow> pdnf_base list option" where
  "pdnf_intersect base cube =
     map_option concat (those (map (\<lambda>i.
         map_option (\<lambda>intersection. if 1 < length intersection
             then [(fst base, take i (snd base) @ [intersection] @ drop (Suc i) (snd base))] else [])
           (filter_p (\<lambda>lit. map_option (\<lambda>b. b = snd lit) (map_of (rev cube) (fst lit))) (snd base ! i)))
       [0..<length (snd base)]))"

definition pdnf_add_cube :: "lemma_iters \<Rightarrow> lemma_pdnf \<Rightarrow> pdnf_base \<Rightarrow> atom_literal list \<Rightarrow> pdnf_base list option" where
  "pdnf_add_cube li lp base cube =
     (if length (fst base) + length (snd base) < lp_cubes lp \<and> length (snd base) < lp_non_unit lp \<and> 1 < lp_cube_size lp
      then map_option (\<lambda>cube. let comb_len = min (lp_cube_size lp) (length cube) in
             if 1 < comb_len then map (\<lambda>comb. (fst base, snd base @ [comb])) (li_combinations li (min (lp_cube_size lp) comb_len) cube) else [])
           (containing_vars (lp_atoms lp) (filter (\<lambda>lit. neg_lit lit \<notin> set (fst base)) cube) (lp_non_universal_vars lp))
      else Some [])"

definition pdnf_weaken ::
  "lemma_iters \<Rightarrow> lemma_pdnf \<Rightarrow> pdnf_base \<Rightarrow> atom_literal list \<Rightarrow> (pdnf_base \<Rightarrow> bool option) \<Rightarrow> pdnf_base list option" where
  "pdnf_weaken li lp base cube ignore =
     (case pdnf_add_literal lp base cube of None \<Rightarrow> None | Some added \<Rightarrow>
      (case pdnf_intersect base cube of None \<Rightarrow> None | Some intersected \<Rightarrow>
       Option.bind (pdnf_add_cube li lp base cube) (\<lambda>combined. filter_p (not_ignored ignore) (added @ intersected @ combined))))"

definition pdnf_base_to_term :: "restricted_atoms \<Rightarrow> pdnf_base \<Rightarrow> fterm option" where
  "pdnf_base_to_term ra base =
     (case those (map (literal_term ra) (fst base)) of None \<Rightarrow> None | Some units \<Rightarrow>
        map_option (\<lambda>cubes. term_or (units @ cubes))
          (those (map (\<lambda>cb. map_option term_and (those (map (literal_term ra) cb))) (snd base))))"

definition pdnf_lemma_qf :: "lemma_iters \<Rightarrow> lemma_pdnf \<Rightarrow> pdnf_base lemma_qf" where
  "pdnf_lemma_qf li lp = \<lparr>
     lq_base_from_clause = (\<lambda>clause. (clause, map (\<lambda>lit. [lit]) clause)),
     lq_substitute = (\<lambda>base sub. case subst_literals (lp_atoms lp) sub (fst base) of
        None \<Rightarrow> None | Some None \<Rightarrow> Some None
      | Some (Some units) \<Rightarrow> map_option (map_option (Pair units)) (subst_lists (lp_atoms lp) sub (snd base))),
     lq_ids = (\<lambda>base. lists_ids (lp_atoms lp) (snd base @ [fst base])),
     lq_base_to_term = pdnf_base_to_term (lp_atoms lp),
     lq_strongest = [([], [])],
     lq_weaken = pdnf_weaken li lp\<rparr>"

end
