(* ===== verification/Inference_Weakening.thy ===== *)
theory Inference_Weakening
  imports Inference_Lemma Inference_Order
begin

text \<open>
  What weakening a lemma promises in each of the domains of \<^verbatim>\<open>inference/src/lemma.rs\<close>: it answers,
  with bodies that the weakened one implies and that hold in every state with the given cube, and each
  of them can be weakened again.
\<close>

section \<open>The contract\<close>

abbreviation lit_true :: "(nat \<Rightarrow> bool) \<Rightarrow> atom_literal \<Rightarrow> bool" where
  "lit_true v l \<equiv> v (fst l) = snd l"

definition base_dnf_true :: "(nat \<Rightarrow> bool) \<Rightarrow> atom_literal list list \<Rightarrow> bool" where
  "base_dnf_true v cs \<longleftrightarrow> (\<exists>c\<in>set cs. \<forall>l\<in>set c. lit_true v l)"

definition base_pdnf_true :: "(nat \<Rightarrow> bool) \<Rightarrow> pdnf_base \<Rightarrow> bool" where
  "base_pdnf_true v b \<longleftrightarrow> (\<exists>l\<in>set (fst b). lit_true v l) \<or> base_dnf_true v (snd b)"

definition weakens_to :: "((nat \<Rightarrow> bool) \<Rightarrow> 'b \<Rightarrow> bool) \<Rightarrow> ('b \<Rightarrow> bool) \<Rightarrow> 'b \<Rightarrow> atom_literal list \<Rightarrow> 'b \<Rightarrow> bool" where
  "weakens_to true okay base cube b \<longleftrightarrow>
     okay b \<and> (\<forall>v. true v base \<or> list_all (lit_true v) cube \<longrightarrow> true v b)"

definition weaken_contract ::
  "((nat \<Rightarrow> bool) \<Rightarrow> 'b \<Rightarrow> bool) \<Rightarrow> ('b \<Rightarrow> bool) \<Rightarrow> 'b lemma_qf \<Rightarrow> 'b \<Rightarrow> atom_literal list \<Rightarrow> ('b \<Rightarrow> bool option) \<Rightarrow> bool" where
  "weaken_contract true okay lq base cube ignore \<longleftrightarrow>
     ((\<forall>b. okay b \<longrightarrow> ignore b \<noteq> None)
      \<longrightarrow> (\<exists>bs. lq_weaken lq base cube ignore = Some bs \<and> list_all (weakens_to true okay base cube) bs))"

lemma weaken_contractI:
  assumes "(\<And>b. okay b \<Longrightarrow> \<exists>r. ignore b = Some r)
    \<Longrightarrow> \<exists>bs. lq_weaken lq base cube ignore = Some bs \<and> list_all (weakens_to true okay base cube) bs"
  shows "weaken_contract true okay lq base cube ignore"
  unfolding weaken_contract_def using assms by blast

lemma weakens_to_okay: "weakens_to true okay base cube b \<Longrightarrow> okay b"
  by (simp add: weakens_to_def)

lemma filter_not_ignored:
  assumes "\<And>b. okay b \<Longrightarrow> \<exists>r. ignore b = Some r" and "\<And>b. b \<in> set xs \<Longrightarrow> okay b"
  shows "filter_p (not_ignored ignore) xs = Some (filter (\<lambda>b. ignore b = Some False) xs)"
  by (rule filter_p_SomeI) (use assms in \<open>force simp: not_ignored_def\<close>)

lemma filter_weakened:
  assumes "\<And>b. okay b \<Longrightarrow> \<exists>r. ignore b = Some r" and "list_all (weakens_to true okay base cube) xs"
  shows "filter_p (not_ignored ignore) xs = Some (filter (\<lambda>b. ignore b = Some False) xs)"
proof (rule filter_not_ignored [where okay = okay])
  show "okay b" if "b \<in> set xs" for b using assms(2) that by (simp add: list_all_iff weakens_to_def)
qed (rule assms(1))

text \<open>Bodies over the allowed atoms, which have terms; the cubes are those of \<open>RestrictedAtoms::cube\<close>.\<close>

definition atoms_okay :: "restricted_atoms \<Rightarrow> bool" where
  "atoms_okay ra \<longleftrightarrow> ra_allowed ra \<noteq> [] \<and> list_all (\<lambda>a. a < length (at_terms (ra_atoms ra))) (ra_allowed ra)"

definition over_atoms :: "restricted_atoms \<Rightarrow> atom_literal list \<Rightarrow> bool" where
  "over_atoms ra ls \<longleftrightarrow> list_all (\<lambda>l. fst l \<in> set (ra_allowed ra)) ls"

definition cnf_base_okay :: "lemma_cnf \<Rightarrow> atom_literal list list \<Rightarrow> bool" where
  "cnf_base_okay lc base \<longleftrightarrow> list_all (over_atoms (lc_atoms lc)) base \<and> (base = [[]] \<or> base \<noteq> [] \<and> [] \<notin> set base)"

definition non_units :: "atom_literal list list \<Rightarrow> atom_literal list list" where
  "non_units base = filter (\<lambda>cb. 1 < length cb) base"

definition naive_base_okay :: "lemma_pdnf_naive \<Rightarrow> atom_literal list list \<Rightarrow> bool" where
  "naive_base_okay ln base \<longleftrightarrow> list_all (over_atoms (ln_atoms ln)) base \<and> length (non_units base) \<le> ln_non_unit ln"

definition pdnf_base_okay :: "lemma_pdnf \<Rightarrow> pdnf_base \<Rightarrow> bool" where
  "pdnf_base_okay lp base \<longleftrightarrow> over_atoms (lp_atoms lp) (fst base) \<and> list_all (over_atoms (lp_atoms lp)) (snd base)"

lemma atom_is_eq_Some: "\<lbrakk> atoms_okay ra; a \<in> set (ra_allowed ra) \<rbrakk> \<Longrightarrow> \<exists>e. atom_is_eq ra a = Some e"
  by (auto simp: atoms_okay_def list_all_iff atom_is_eq_def atom_term_def)

lemma over_atoms_subset: "\<lbrakk> over_atoms ra xs; set ys \<subseteq> set xs \<rbrakk> \<Longrightarrow> over_atoms ra ys"
  by (auto simp: over_atoms_def list_all_iff)

lemma over_atoms_member: "\<lbrakk> over_atoms ra xs; l \<in> set xs \<rbrakk> \<Longrightarrow> fst l \<in> set (ra_allowed ra)"
  by (simp add: over_atoms_def list_all_iff)

lemma over_atoms_cube: "map fst cube = ra_allowed ra \<Longrightarrow> over_atoms ra cube"
  unfolding over_atoms_def list_all_iff by (metis image_eqI list.set_map)

lemma eq_filter_Some:
  assumes "atoms_okay ra" "over_atoms ra ls"
  shows "\<exists>ys. filter_p (\<lambda>lit. map_option (\<lambda>e. \<not> e \<or> snd lit) (atom_is_eq ra (fst lit))) ls = Some ys \<and> set ys \<subseteq> set ls"
proof -
  have "filter_p (\<lambda>lit. map_option (\<lambda>e. \<not> e \<or> snd lit) (atom_is_eq ra (fst lit))) ls
      = Some (filter (\<lambda>lit. \<not> the (atom_is_eq ra (fst lit)) \<or> snd lit) ls)"
    by (rule filter_p_SomeI) (use assms atom_is_eq_Some over_atoms_member in fastforce)
  then show ?thesis by auto
qed

lemma combinations_subset:
  "\<lbrakk> lemma_iters_doc li; ys \<in> set (li_combinations li k xs) \<rbrakk> \<Longrightarrow> length ys = k \<and> set ys \<subseteq> set xs"
  by (auto simp: lemma_iters_doc_def)

section \<open>Clauses\<close>

lemma cnf_weaken_clause_spec:
  assumes ok: "atoms_okay (lc_atoms lc)" "over_atoms (lc_atoms lc) cube" and cl: "cl \<noteq> []" "over_atoms (lc_atoms lc) cl"
  shows "\<exists>cs. cnf_weaken_clause lc cube cl = Some cs \<and> (\<forall>c\<in>set cs. c \<noteq> [] \<and> over_atoms (lc_atoms lc) c
    \<and> (\<forall>v. (\<exists>l\<in>set cl. lit_true v l) \<or> list_all (lit_true v) cube \<longrightarrow> (\<exists>l\<in>set c. lit_true v l)))"
proof -
  consider (same) "list_ex (\<lambda>lit. lit \<in> set cl) cube"
    | (full) "\<not> list_ex (\<lambda>lit. lit \<in> set cl) cube" "lc_clause_size lc \<le> length cl"
    | (add) "\<not> list_ex (\<lambda>lit. lit \<in> set cl) cube" "\<not> lc_clause_size lc \<le> length cl" by blast
  then show ?thesis
  proof cases
    case same
    then show ?thesis using cl by (fastforce simp: cnf_weaken_clause_def list_ex_iff list_all_iff)
  next
    case full
    then show ?thesis using cl by (simp add: cnf_weaken_clause_def)
  next
    case add
    let ?lits = "filter (\<lambda>lit. neg_lit lit \<notin> set cl) cube"
    have "over_atoms (lc_atoms lc) ?lits" by (rule over_atoms_subset [OF ok(2)]) auto
    then obtain ys where ys: "filter_p (\<lambda>lit. map_option (\<lambda>e. \<not> e \<or> snd lit) (atom_is_eq (lc_atoms lc) (fst lit))) ?lits = Some ys"
        "set ys \<subseteq> set ?lits"
      using eq_filter_Some [OF ok(1)] by blast
    have some: "cnf_weaken_clause lc cube cl = Some (map (\<lambda>lit. cl @ [lit]) ys)"
      using add cl ys(1) by (simp add: cnf_weaken_clause_def)
    have "(\<exists>l\<in>set (cl @ [lit]). lit_true v l)"
      if "lit \<in> set ys" "(\<exists>l\<in>set cl. lit_true v l) \<or> list_all (lit_true v) cube" for lit v
      using that ys(2) by (auto simp: list_all_iff)
    moreover have "over_atoms (lc_atoms lc) (cl @ [lit])" if "lit \<in> set ys" for lit
    proof -
      have "lit \<in> set cube" using that ys(2) by auto
      from over_atoms_member [OF ok(2) this] cl(2) show ?thesis by (simp add: over_atoms_def)
    qed
    ultimately show ?thesis unfolding some by simp
  qed
qed

lemma product_lists_member: "ys \<in> set (product_lists xss) \<longleftrightarrow> list_all2 (\<lambda>y xs. y \<in> set xs) ys xss"
  by (simp add: in_set_product_lists_length product_lists_set)

text \<open>The empty clause is replaced by literals of the cube; otherwise every clause is extended.\<close>

lemma cnf_first_contract:
  assumes li: "lemma_iters_doc li" and atoms: "map fst cube = ra_allowed (lc_atoms lc)"
    and b: "b \<in> set (map (map (\<lambda>lit. [lit])) (li_combinations li k cube))"
  shows "weakens_to base_cnf_true (list_all (over_atoms (lc_atoms lc))) [[]] cube b"
    and "k \<noteq> 0 \<Longrightarrow> b \<noteq> [] \<and> [] \<notin> set b"
proof -
  from b obtain lits where lits: "b = map (\<lambda>lit. [lit]) lits" "lits \<in> set (li_combinations li k cube)" by auto
  note comb = combinations_subset [OF li lits(2)]
  have "over_atoms (lc_atoms lc) lits" by (rule over_atoms_subset [OF over_atoms_cube [OF atoms] conjunct2 [OF comb]])
  then have "list_all (over_atoms (lc_atoms lc)) b" by (simp add: lits(1) over_atoms_def list_all_iff)
  moreover have "base_cnf_true v b" if "list_all (lit_true v) cube" for v
    using that comb by (auto simp: lits(1) base_cnf_true_def list_all_iff subset_iff)
  moreover have "\<not> base_cnf_true v [[]]" for v by (simp add: base_cnf_true_def)
  ultimately show "weakens_to base_cnf_true (list_all (over_atoms (lc_atoms lc))) [[]] cube b" unfolding weakens_to_def by blast
  show "b \<noteq> [] \<and> [] \<notin> set b" if "k \<noteq> 0" using comb that by (auto simp: lits(1))
qed

lemma cnf_clauses_contract:
  assumes ok: "atoms_okay (lc_atoms lc)" "map fst cube = ra_allowed (lc_atoms lc)"
    and base: "cnf_base_okay lc base" "base \<noteq> [[]]"
  shows "\<exists>css. those (map (cnf_weaken_clause lc cube) base) = Some css
    \<and> list_all (weakens_to base_cnf_true (cnf_base_okay lc) base cube) (product_lists css)"
proof -
  let ?P = "\<lambda>cl c. c \<noteq> [] \<and> over_atoms (lc_atoms lc) c
    \<and> (\<forall>v. (\<exists>l\<in>set cl. lit_true v l) \<or> list_all (lit_true v) cube \<longrightarrow> (\<exists>l\<in>set c. lit_true v l))"
  from base have ne: "base \<noteq> []" "\<And>cl. cl \<in> set base \<Longrightarrow> cl \<noteq> [] \<and> over_atoms (lc_atoms lc) cl"
    by (auto simp: cnf_base_okay_def list_all_iff)
  note cube = over_atoms_cube [OF ok(2)]
  define f where "f = (\<lambda>cl. the (cnf_weaken_clause lc cube cl))"
  have f: "cnf_weaken_clause lc cube cl = Some (f cl)" "\<And>c. c \<in> set (f cl) \<Longrightarrow> ?P cl c" if "cl \<in> set base" for cl
  proof -
    from cnf_weaken_clause_spec [OF ok(1) cube conjunct1 [OF ne(2) [OF that]] conjunct2 [OF ne(2) [OF that]]]
    obtain cs where cs: "cnf_weaken_clause lc cube cl = Some cs" "\<forall>c\<in>set cs. ?P cl c" by (elim exE conjE)
    then show "cnf_weaken_clause lc cube cl = Some (f cl)" by (simp add: f_def)
    show "?P cl c" if "c \<in> set (f cl)" for c using cs that by (simp add: f_def)
  qed
  have "weakens_to base_cnf_true (cnf_base_okay lc) base cube b" if "b \<in> set (product_lists (map f base))" for b
  proof -
    have "list_all2 (\<lambda>y xs. y \<in> set xs) b (map f base)" using that by (simp add: product_lists_member)
    then have len: "length b = length base" and mem: "\<And>i. i < length base \<Longrightarrow> b ! i \<in> set (f (base ! i))"
      by (auto simp: list_all2_conv_all_nth)
    have nth: "?P (base ! i) (b ! i)" if "i < length base" for i
      by (rule f(2) [OF nth_mem [OF that] mem [OF that]])
    have "cnf_base_okay lc b" using len nth ne(1) by (auto simp: cnf_base_okay_def in_set_conv_nth list_all_length)
    moreover have "base_cnf_true v b" if "base_cnf_true v base \<or> list_all (lit_true v) cube" for v
      unfolding base_cnf_true_def
    proof
      fix c assume "c \<in> set b"
      then obtain i where i: "i < length base" "c = b ! i" using len by (auto simp: in_set_conv_nth)
      moreover have "(\<exists>l\<in>set (base ! i). lit_true v l) \<or> list_all (lit_true v) cube"
        using that i(1) by (auto simp: base_cnf_true_def)
      ultimately show "\<exists>l\<in>set c. lit_true v l" using nth by blast
    qed
    ultimately show ?thesis by (simp add: weakens_to_def)
  qed
  moreover have "those (map (cnf_weaken_clause lc cube) base) = Some (map f base)" by (rule those_map_SomeI) (rule f(1))
  ultimately show ?thesis by (simp add: list_all_iff)
qed

lemma cnf_contract:
  assumes li: "lemma_iters_doc li" and ok: "atoms_okay (lc_atoms lc)" "map fst cube = ra_allowed (lc_atoms lc)"
    and clauses: "0 < lc_clauses lc" and base: "cnf_base_okay lc base"
  shows "weaken_contract base_cnf_true (cnf_base_okay lc) (cnf_lemma_qf li lc) base cube ignore"
proof (cases "base = [[]]")
  case True
  have "cube \<noteq> []" using ok by (auto simp: atoms_okay_def)
  then have some: "min (lc_clauses lc) (length cube) \<noteq> 0" using clauses by simp
  have "weakens_to base_cnf_true (cnf_base_okay lc) base cube b"
    if "b \<in> set (map (map (\<lambda>lit. [lit])) (li_combinations li (min (lc_clauses lc) (length cube)) cube))" for b
    using cnf_first_contract [OF li ok(2) that] some unfolding True weakens_to_def cnf_base_okay_def by blast
  then show ?thesis
    using True by (simp add: weaken_contract_def cnf_lemma_qf_def cnf_weaken_def list_all_iff)
next
  case False
  then obtain css where css: "those (map (cnf_weaken_clause lc cube) base) = Some css"
    "list_all (weakens_to base_cnf_true (cnf_base_okay lc) base cube) (product_lists css)"
    using cnf_clauses_contract [OF ok base] by blast
  have "base \<noteq> []" using base by (auto simp: cnf_base_okay_def)
  with False css(1) li have some: "lq_weaken (cnf_lemma_qf li lc) base cube ignore = filter_p (not_ignored ignore) (product_lists css)"
    by (simp add: cnf_lemma_qf_def cnf_weaken_def lemma_iters_doc_def mcp_fixed_doc)
  show ?thesis
  proof (rule weaken_contractI)
    assume "\<And>b. cnf_base_okay lc b \<Longrightarrow> \<exists>r. ignore b = Some r"
    from filter_weakened [OF this css(2)] css(2)
    show "\<exists>bs. lq_weaken (cnf_lemma_qf li lc) base cube ignore = Some bs \<and> list_all (weakens_to base_cnf_true (cnf_base_okay lc) base cube) bs"
      unfolding some by (simp add: list_all_iff)
  qed
qed

section \<open>Cubes with unit propagation\<close>

lemma base_dnf_true_simps [simp]:
  "\<not> base_dnf_true v []" "base_dnf_true v (c # cs) \<longleftrightarrow> (\<forall>l\<in>set c. lit_true v l) \<or> base_dnf_true v cs"
  "base_dnf_true v (cs @ ds) \<longleftrightarrow> base_dnf_true v cs \<or> base_dnf_true v ds"
  by (auto simp: base_dnf_true_def)

lemma base_dnf_true_units [simp]: "base_dnf_true v (map (\<lambda>l. [l]) ls) \<longleftrightarrow> (\<exists>l\<in>set ls. lit_true v l)"
  by (auto simp: base_dnf_true_def)

lemma unit_normalize_spec:
  assumes "unit_normalize base literal = Some base'"
  shows "base_dnf_true v base \<Longrightarrow> base_dnf_true v base' \<or> lit_true v literal"
    and "list_all (over_atoms ra) base \<Longrightarrow> list_all (over_atoms ra) base'"
    and "length (non_units base') \<le> length (non_units base)"
    and "cb \<in> set base \<Longrightarrow> literal \<in> set cb \<Longrightarrow> 1 < length cb \<Longrightarrow> length (non_units base') < length (non_units base)"
proof -
  define short where "short = (\<lambda>cb :: atom_literal list. filter (\<lambda>lit. neg_lit lit \<noteq> literal) cb)"
  have base': "base' = map short (filter (\<lambda>cb. literal \<notin> set cb) base)"
    using assms by (simp add: unit_normalize_def short_def Let_def split: if_splits)
  have short: "set (short cb) \<subseteq> set cb" "length (short cb) \<le> length cb" for cb by (auto simp: short_def)
  have len: "length (non_units base') \<le> length (filter (\<lambda>cb. literal \<notin> set cb) (non_units base))"
    unfolding base' non_units_def
  proof (induction base)
    case (Cons a base)
    then show ?case using short(2) [of a] by (auto intro: le_SucI)
  qed simp
  then show "length (non_units base') \<le> length (non_units base)"
    using length_filter_le order.trans by blast
  show "length (non_units base') < length (non_units base)" if "cb \<in> set base" "literal \<in> set cb" "1 < length cb"
    using len length_filter_less [of cb "non_units base" "\<lambda>cb. literal \<notin> set cb"] that by (simp add: non_units_def)
  show "base_dnf_true v base' \<or> lit_true v literal" if true: "base_dnf_true v base"
  proof -
    from true obtain c where c: "c \<in> set base" "\<forall>l\<in>set c. lit_true v l" by (auto simp: base_dnf_true_def)
    show ?thesis
    proof (cases "literal \<in> set c")
      case False
      then have "short c \<in> set base'" using c(1) by (auto simp: base')
      moreover have "\<forall>l\<in>set (short c). lit_true v l" using c(2) short(1) by blast
      ultimately show ?thesis by (auto simp: base_dnf_true_def)
    qed (use c in blast)
  qed
  show "list_all (over_atoms ra) base'" if "list_all (over_atoms ra) base"
    using that short(1) over_atoms_subset unfolding base' by (fastforce simp: list_all_iff)
qed

lemma remove_nth_set: "i < length xs \<Longrightarrow> set xs = Set.insert (xs ! i) (set (remove_nth i xs))"
  by (subst (1) id_take_nth_drop [of i xs]) (auto simp: remove_nth_def)

lemma non_units_remove: "length (non_units (remove_nth i base)) \<le> length (non_units base)"
proof -
  have "base = take i base @ drop i base" by simp
  then have "length (non_units base) = length (non_units (take i base)) + length (non_units (drop i base))"
    by (metis filter_append length_append non_units_def)
  moreover have "length (non_units (drop (Suc i) base)) \<le> length (non_units (drop i base))"
    by (cases "i < length base") (simp_all add: non_units_def flip: Cons_nth_drop_Suc)
  ultimately show ?thesis by (simp add: remove_nth_def non_units_def)
qed

text \<open>What a body with unit propagation and the literals collected on the way owe to the body and the literals before.\<close>

definition adds_units ::
  "restricted_atoms \<Rightarrow> atom_literal list list \<Rightarrow> atom_literal \<Rightarrow> atom_literal list \<Rightarrow> atom_literal list list \<Rightarrow> atom_literal list \<Rightarrow> bool" where
  "adds_units ra base literal literals base' ls \<longleftrightarrow> list_all (over_atoms ra) base' \<and> over_atoms ra ls
     \<and> length (non_units base') \<le> length (non_units base)
     \<and> (\<forall>cb\<in>set base. literal \<in> set cb \<and> 1 < length cb \<longrightarrow> length (non_units base') < length (non_units base))
     \<and> (\<forall>v. base_dnf_true v base \<or> lit_true v literal \<or> (\<exists>l\<in>set literals. lit_true v l)
           \<longrightarrow> base_dnf_true v base' \<or> (\<exists>l\<in>set ls. lit_true v l))"

lemma literal_insert_set: "set (literal_insert literal literals) = Set.insert literal (set literals)"
  by (auto simp: literal_insert_def)

lemma singleton_position:
  assumes "position (\<lambda>v. length v = 1) base = Some i"
  shows "i < length base" and "set base = Set.insert [last (base ! i)] (set (remove_nth i base))"
proof -
  from position_less [OF assms] show i: "i < length base" by simp
  from position_less [OF assms] have "[last (base ! i)] = base ! i" by (cases "base ! i") simp_all
  with remove_nth_set [OF i] show "set base = Set.insert [last (base ! i)] (set (remove_nth i base))" by simp
qed

lemma adds_units_step:
  assumes base1: "unit_normalize base literal = Some base1" and i: "position (\<lambda>v. length v = 1) base1 = Some i"
    and final: "adds_units ra (remove_nth i base1) (last (base1 ! i)) (literal_insert literal literals) base' ls"
  shows "adds_units ra base literal literals base' ls"
proof -
  note norm = unit_normalize_spec [OF base1] and final = final [unfolded adds_units_def]
  from final have "length (non_units base') \<le> length (non_units (remove_nth i base1))" by (elim conjE)
  then have le: "length (non_units base') \<le> length (non_units base1)" using non_units_remove by (rule order.trans)
  have "length (non_units base') < length (non_units base)" if "cb \<in> set base" "literal \<in> set cb" "1 < length cb" for cb
    using le norm(4) [OF that] by (rule le_less_trans)
  moreover have "base_dnf_true v base' \<or> (\<exists>l\<in>set ls. lit_true v l)"
    if true: "base_dnf_true v base \<or> lit_true v literal \<or> (\<exists>l\<in>set literals. lit_true v l)" for v
  proof -
    have "base_dnf_true v base1 \<or> (\<exists>l\<in>set (literal_insert literal literals). lit_true v l)"
      using true norm(1) unfolding literal_insert_set by blast
    then have "base_dnf_true v (remove_nth i base1) \<or> lit_true v (last (base1 ! i)) \<or> (\<exists>l\<in>set (literal_insert literal literals). lit_true v l)"
      using singleton_position(2) [OF i] by (auto simp: base_dnf_true_def)
    then show ?thesis using final by blast
  qed
  moreover from final have "list_all (over_atoms ra) base' \<and> over_atoms ra ls" by (elim conjE) (intro conjI)
  ultimately show ?thesis unfolding adds_units_def using order.trans [OF le norm(3)] by blast
qed

lemma add_unit_loop_spec:
  assumes ra: "atoms_okay ra" and base: "list_all (over_atoms ra) base" and lit: "fst literal \<in> set (ra_allowed ra)"
    and lits: "over_atoms ra literals"
  shows "\<exists>r. add_unit_loop ra base literal literals = Some r
    \<and> (\<forall>base' ls. r = Some (base', ls) \<longrightarrow> adds_units ra base literal literals base' ls)"
  using base lit lits
proof (induction "length base" arbitrary: base literal literals rule: less_induct)
  case less
  obtain e where e: "atom_is_eq ra (fst literal) = Some e" using atom_is_eq_Some [OF ra less.prems(2)] by blast
  have over: "over_atoms ra (literal_insert literal literals)"
    using less.prems(2,3) by (simp add: over_atoms_def list_all_iff literal_insert_set)
  show ?case
  proof (cases "e \<and> \<not> snd literal \<or> unit_normalize base literal = None")
    case True
    then show ?thesis using e by (subst add_unit_loop.simps) (auto split: if_splits)
  next
    case False
    then obtain base1 where base1: "unit_normalize base literal = Some base1" by auto
    note norm = unit_normalize_spec [OF base1]
    show ?thesis
    proof (cases "position (\<lambda>v. length v = 1) base1")
      case None
      with False e base1 have "add_unit_loop ra base literal literals = Some (Some (base1, literal_insert literal literals))"
        by (subst add_unit_loop.simps) simp
      moreover have "adds_units ra base literal literals base1 (literal_insert literal literals)"
        unfolding adds_units_def literal_insert_set using norm less.prems(1) over by blast
      ultimately show ?thesis by simp
    next
      case (Some i)
      let ?rest = "remove_nth i base1" and ?lit = "last (base1 ! i)"
      from False e base1 Some have step: "add_unit_loop ra base literal literals
          = add_unit_loop ra ?rest ?lit (literal_insert literal literals)"
        by (subst add_unit_loop.simps) (cases e; simp)
      note i = singleton_position [OF Some]
      have "length ?rest < length base" using i(1) unit_normalize_length [OF base1] by (auto simp: remove_nth_def)
      moreover have "list_all (over_atoms ra) ?rest" "fst ?lit \<in> set (ra_allowed ra)"
        using norm(2) [OF less.prems(1)] i(2) by (auto simp: list_all_iff over_atoms_def)
      moreover note over
      ultimately obtain r where "add_unit_loop ra ?rest ?lit (literal_insert literal literals) = Some r"
        "\<And>base' ls. r = Some (base', ls) \<Longrightarrow> adds_units ra ?rest ?lit (literal_insert literal literals) base' ls"
        using less.hyps [of ?rest ?lit "literal_insert literal literals"] by blast
      with step adds_units_step [OF base1 Some] show ?thesis by auto
    qed
  qed
qed

lemma non_units_append [simp]: "non_units (xs @ ys) = non_units xs @ non_units ys"
  and non_units_singletons [simp]: "non_units (map (\<lambda>l. [l]) ls) = []"
  by (simp_all add: non_units_def)

text \<open>Adding a literal keeps what is true; the literal of a bigger cube replaces that cube.\<close>

lemma add_unit_spec:
  assumes li: "lemma_iters_doc li" and ra: "atoms_okay (ln_atoms ln)" and base: "list_all (over_atoms (ln_atoms ln)) base"
    and lit: "fst literal \<in> set (ra_allowed (ln_atoms ln))"
  shows "\<exists>r. add_unit li ln base literal = Some r \<and> (\<forall>b. r = Some b \<longrightarrow> list_all (over_atoms (ln_atoms ln)) b
    \<and> length (non_units b) \<le> length (non_units base)
    \<and> (\<forall>cb\<in>set base. literal \<in> set cb \<and> 1 < length cb \<longrightarrow> length (non_units b) < length (non_units base))
    \<and> (\<forall>v. base_dnf_true v base \<or> lit_true v literal \<longrightarrow> base_dnf_true v b))"
proof -
  have "over_atoms (ln_atoms ln) []" by (simp add: over_atoms_def)
  from add_unit_loop_spec [OF ra base lit this] obtain r where r: "add_unit_loop (ln_atoms ln) base literal [] = Some r"
    "\<And>base' ls. r = Some (base', ls) \<Longrightarrow> adds_units (ln_atoms ln) base literal [] base' ls" by blast
  have units: "list_all (over_atoms ra) (map (\<lambda>l. [l]) ls)" if "over_atoms ra ls" for ra ls
    using that by (simp add: over_atoms_def list_all_iff)
  show ?thesis
  proof (cases r)
    case None
    then show ?thesis using r(1) by (simp add: add_unit_def)
  next
    case (Some p)
    then obtain base' ls where p: "r = Some (base', ls)" by (cases p) auto
    note final = r(2) [OF p, unfolded adds_units_def]
    have order: "set (li_order li ls) = set ls" using li by (simp add: lemma_iters_doc_def)
    let ?b = "base' @ map (\<lambda>l. [l]) (li_order li ls)"
    have "over_atoms (ln_atoms ln) (li_order li ls)" using final over_atoms_subset [of _ ls] by (simp add: order)
    then have "list_all (over_atoms (ln_atoms ln)) ?b" using final units by simp
    moreover have "length (non_units ?b) = length (non_units base')" by simp
    moreover have "base_dnf_true v ?b" if "base_dnf_true v base \<or> lit_true v literal" for v
      using final that by (simp add: order, blast)
    moreover have "add_unit li ln base literal = Some (if length ls + length base' \<le> ln_cubes ln then Some ?b else None)"
      using r(1) p by (simp add: add_unit_def)
    ultimately show ?thesis using final by auto
  qed
qed

lemma units_of_member: "l \<in> units_of base \<longleftrightarrow> [l] \<in> set base"
proof
  assume "l \<in> units_of base"
  then obtain c where "c \<in> set base" "length c = 1" "l = c ! 0" by (auto simp: units_of_def)
  then show "[l] \<in> set base" by (cases c rule: list.exhaust) simp_all
qed (force simp: units_of_def)

lemma add_combinations_spec:
  assumes li: "lemma_iters_doc li" and ra: "atoms_okay (ln_atoms ln)"
    and base: "list_all (over_atoms (ln_atoms ln)) base" and cube: "over_atoms (ln_atoms ln) cube"
    and room: "length (non_units base) < ln_non_unit ln"
  shows "\<exists>bs. add_combinations li ln base cube = Some bs \<and> list_all (weakens_to base_dnf_true (naive_base_okay ln) base cube) bs"
proof -
  let ?rest = "filter (\<lambda>lit. neg_lit lit \<notin> units_of base) cube"
  consider (same) "list_ex (\<lambda>lit. lit \<in> units_of base) cube"
    | (none) "\<not> list_ex (\<lambda>lit. lit \<in> units_of base) cube" "length ?rest = 0"
    | (one) "\<not> list_ex (\<lambda>lit. lit \<in> units_of base) cube" "length ?rest = 1"
    | (more) "\<not> list_ex (\<lambda>lit. lit \<in> units_of base) cube" "length ?rest \<noteq> 0" "length ?rest \<noteq> 1" by blast
  then show ?thesis
  proof cases
    case same
    then obtain l where l: "l \<in> set cube" "[l] \<in> set base" by (auto simp: list_ex_iff units_of_member)
    have "base_dnf_true v base" if "list_all (lit_true v) cube" for v
      using that l by (force simp: list_all_iff base_dnf_true_def)
    then have "weakens_to base_dnf_true (naive_base_okay ln) base cube base"
      using base room by (auto simp: weakens_to_def naive_base_okay_def)
    with same show ?thesis by (simp add: add_combinations_def)
  next
    case none
    then show ?thesis by (simp add: add_combinations_def Let_def)
  next
    case one
    have lit: "?rest ! 0 \<in> set cube" using one(2) nth_mem [of 0 ?rest] by simp
    from add_unit_spec [OF li ra base over_atoms_member [OF cube lit]]
    obtain r where r: "add_unit li ln base (?rest ! 0) = Some r" "\<And>b. r = Some b \<Longrightarrow> list_all (over_atoms (ln_atoms ln)) b
        \<and> length (non_units b) \<le> length (non_units base)
        \<and> (\<forall>v. base_dnf_true v base \<or> lit_true v (?rest ! 0) \<longrightarrow> base_dnf_true v b)" by blast
    have "weakens_to base_dnf_true (naive_base_okay ln) base cube b" if "r = Some b" for b
      using r(2) [OF that] room lit unfolding weakens_to_def naive_base_okay_def list_all_iff [of "lit_true _"]
      by (meson less_imp_le order.trans)
    moreover have "add_combinations li ln base cube = Some (case r of Some b \<Rightarrow> [b] | None \<Rightarrow> [])"
      using one r(1) by (auto simp add: add_combinations_def Let_def)
    ultimately show ?thesis by (cases r) simp_all
  next
    case more
    have "weakens_to base_dnf_true (naive_base_okay ln) base cube (base @ [cb])"
      if "cb \<in> set (li_combinations li (min (ln_cube_size ln) (length ?rest)) ?rest)" for cb
    proof -
      have sub: "set cb \<subseteq> set cube" using combinations_subset [OF li that] by auto
      have "length (non_units (base @ [cb])) \<le> Suc (length (non_units base))" by (simp add: non_units_def)
      moreover have "over_atoms (ln_atoms ln) cb" by (rule over_atoms_subset [OF cube sub])
      moreover have "base_dnf_true v (base @ [cb])" if "base_dnf_true v base \<or> list_all (lit_true v) cube" for v
        using that sub by (auto simp: list_all_iff)
      ultimately show ?thesis using base room by (simp add: weakens_to_def naive_base_okay_def)
    qed
    then show ?thesis using more by (auto simp add: add_combinations_def Let_def list_all_iff)
  qed
qed

lemma intersect_scan_spec:
  "intersect_scan xs cube non = r \<Longrightarrow>
     (case r of None \<Rightarrow> \<exists>c\<in>set (map snd xs). length c = 1 \<and> c ! 0 \<in> cube
      | Some (rest, is') \<Rightarrow> rest \<subseteq> cube \<and> set is' \<subseteq> set non \<union> fst ` set xs)"
proof (induction xs cube non rule: intersect_scan.induct)
  case (2 i cb rest cube non)
  show ?case
  proof (cases "length cb = 1")
    case True
    then show ?thesis using 2 by (cases "cb ! 0 \<in> cube") (fastforce split: option.splits)+
  next
    case False
    then show ?thesis using 2 by (fastforce split: option.splits)
  qed
qed auto

lemma length_filter_replaced:
  "\<lbrakk> i < length xs; P x \<longrightarrow> P (xs ! i) \<rbrakk> \<Longrightarrow> length (filter P (xs[i := x])) \<le> length (filter P xs)"
proof (induction xs arbitrary: i)
  case (Cons y ys)
  then show ?case by (cases i) (auto intro: le_SucI)
qed simp

lemma replaced_cube:
  assumes i: "i < length base" and sub: "set c \<subseteq> set (base ! i)" "set c \<subseteq> set cube"
  shows "base_dnf_true v base \<or> list_all (lit_true v) cube \<Longrightarrow> base_dnf_true v (base[i := c])"
    and "list_all (over_atoms ra) base \<Longrightarrow> list_all (over_atoms ra) (base[i := c])"
proof -
  have c: "c \<in> set (base[i := c])" using i by (rule set_update_memI)
  show "base_dnf_true v (base[i := c])" if true: "base_dnf_true v base \<or> list_all (lit_true v) cube"
  proof (cases "\<forall>l\<in>set c. lit_true v l")
    case True
    with c show ?thesis unfolding base_dnf_true_def by blast
  next
    case False
    then have "\<not> list_all (lit_true v) cube" using sub(2) by (auto simp: list_all_iff)
    then obtain d where d: "d \<in> set base" "\<forall>l\<in>set d. lit_true v l" using true by (auto simp: base_dnf_true_def)
    then obtain j where j: "j < length base" "d = base ! j" by (auto simp: in_set_conv_nth)
    have "i \<noteq> j" using False d(2) j(2) sub(1) by blast
    then have "(base[i := c]) ! j = d" using j by simp
    then have "d \<in> set (base[i := c])" using j(1) nth_mem [of j "base[i := c]"] by simp
    with d(2) show ?thesis unfolding base_dnf_true_def by blast
  qed
  show "list_all (over_atoms ra) (base[i := c])" if over: "list_all (over_atoms ra) base"
  proof -
    have "over_atoms ra (base ! i)" using over nth_mem [OF i] by (auto simp: list_all_iff)
    then have "over_atoms ra c" by (rule over_atoms_subset [OF _ sub(1)])
    with over show ?thesis using set_update_subset_insert [of base i c] by (auto simp: list_all_iff)
  qed
qed

lemma intersect_cubes_spec:
  assumes base: "naive_base_okay ln base" and b: "b \<in> set (intersect_cubes base cube)"
  shows "weakens_to base_dnf_true (naive_base_okay ln) base cube b"
proof (cases "intersect_scan (enumerate 0 base) (set cube) []")
  case None
  then obtain c where c: "c \<in> set base" "length c = 1" "c ! 0 \<in> set cube"
    using intersect_scan_spec [OF None] by auto
  then obtain l where "[l] \<in> set base" "l \<in> set cube" by (cases c rule: list.exhaust) simp_all
  then have "base_dnf_true v base" if "list_all (lit_true v) cube" for v
    using that by (force simp: list_all_iff base_dnf_true_def)
  moreover have "b = base" using b None by (simp add: intersect_cubes_def)
  ultimately show ?thesis using base by (auto simp: weakens_to_def)
next
  case (Some p)
  then obtain rest is' where p: "intersect_scan (enumerate 0 base) (set cube) [] = Some (rest, is')" by (cases p) auto
  from intersect_scan_spec [OF p] have rest: "rest \<subseteq> set cube" "set is' \<subseteq> fst ` set (enumerate 0 base)" by auto
  from b p obtain i where i: "i \<in> set is'" and b: "b = base[i := filter (\<lambda>lit. lit \<in> rest) (base ! i)]"
    by (auto simp: intersect_cubes_def Let_def split: if_splits)
  let ?c = "filter (\<lambda>lit. lit \<in> rest) (base ! i)"
  have len: "i < length base" using rest(2) i by (auto simp: enumerate_eq_zip set_zip)
  have sub: "set ?c \<subseteq> set (base ! i)" "set ?c \<subseteq> set cube" using rest(1) by auto
  have "length (non_units b) \<le> length (non_units base)"
    unfolding b non_units_def by (rule length_filter_replaced [OF len]) (use length_filter_le le_trans less_le_trans in blast)
  then have "naive_base_okay ln b"
    using base replaced_cube(2) [OF len sub] by (auto simp: b naive_base_okay_def)
  then show ?thesis using replaced_cube(1) [OF len sub] by (auto simp: weakens_to_def b)
qed

lemma filter_map_p_Some:
  "(\<And>x. x \<in> set xs \<Longrightarrow> \<exists>r. f x = Some r \<and> (\<forall>b. r = Some b \<longrightarrow> P b)) \<Longrightarrow> \<exists>ys. filter_map_p f xs = Some ys \<and> list_all P ys"
proof (induction xs)
  case (Cons x xs)
  obtain r where r: "f x = Some r" "\<And>b. r = Some b \<Longrightarrow> P b" using Cons.prems [of x] by auto
  obtain ys where ys: "filter_map_p f xs = Some ys" "list_all P ys" using Cons.IH Cons.prems by auto
  then show ?case using r by (cases r) (auto simp: filter_map_p_def)
qed (simp add: filter_map_p_def)

lemma those_map_P:
  "(\<And>x. x \<in> set xs \<Longrightarrow> \<exists>y. f x = Some y \<and> P y) \<Longrightarrow> \<exists>ys. those (map f xs) = Some ys \<and> list_all P ys"
proof (induction xs)
  case (Cons x xs)
  obtain y where y: "f x = Some y" "P y" using Cons.prems [of x] by auto
  obtain ys where ys: "those (map f xs) = Some ys" "list_all P ys" using Cons.IH Cons.prems by auto
  then show ?case using y by simp
qed simp

lemma weakens_to_trans:
  "\<lbrakk> \<And>v. true v base \<Longrightarrow> true v b; weakens_to true okay b cube c \<rbrakk> \<Longrightarrow> weakens_to true okay base cube c"
  by (auto simp: weakens_to_def)

text \<open>The three ways of weakening a body with a bigger cube: a literal is added; the bigger cube is reduced to one
  of its literals and a new cube is added; the bigger cube is intersected with the new one.\<close>

definition reduces_to :: "lemma_pdnf_naive \<Rightarrow> atom_literal list list \<Rightarrow> atom_literal list list \<Rightarrow> bool" where
  "reduces_to ln base b \<longleftrightarrow> list_all (over_atoms (ln_atoms ln)) b \<and> length (non_units b) < ln_non_unit ln
     \<and> (\<forall>v. base_dnf_true v base \<longrightarrow> base_dnf_true v b)"

lemma naive_added:
  assumes li: "lemma_iters_doc li" and ra: "atoms_okay (ln_atoms ln)" and cube: "over_atoms (ln_atoms ln) cube"
    and base: "naive_base_okay ln base"
  shows "\<exists>added. filter_map_p (add_unit li ln base) cube = Some added \<and> list_all (weakens_to base_dnf_true (naive_base_okay ln) base cube) added"
proof (rule filter_map_p_Some)
  fix l assume l: "l \<in> set cube"
  have over: "list_all (over_atoms (ln_atoms ln)) base" and count: "length (non_units base) \<le> ln_non_unit ln"
    using base by (simp_all add: naive_base_okay_def)
  from add_unit_spec [OF li ra over over_atoms_member [OF cube l]]
  obtain r where r: "add_unit li ln base l = Some r" "\<And>b. r = Some b \<Longrightarrow> list_all (over_atoms (ln_atoms ln)) b
      \<and> length (non_units b) \<le> length (non_units base) \<and> (\<forall>v. base_dnf_true v base \<or> lit_true v l \<longrightarrow> base_dnf_true v b)"
    by blast
  have "weakens_to base_dnf_true (naive_base_okay ln) base cube b" if "r = Some b" for b
    using r(2) [OF that] l count unfolding weakens_to_def naive_base_okay_def list_all_iff [of "lit_true _"]
    by (meson order.trans)
  with r(1) show "\<exists>r. add_unit li ln base l = Some r \<and> (\<forall>b. r = Some b \<longrightarrow> weakens_to base_dnf_true (naive_base_okay ln) base cube b)" by blast
qed

lemma naive_reduced:
  assumes li: "lemma_iters_doc li" and ra: "atoms_okay (ln_atoms ln)" and base: "naive_base_okay ln base"
  shows "\<exists>reduced. filter_map_p (add_unit li ln base) (li_order li (remdups (concat (non_units base)))) = Some reduced
    \<and> list_all (reduces_to ln base) reduced"
proof (rule filter_map_p_Some)
  fix l assume "l \<in> set (li_order li (remdups (concat (non_units base))))"
  then obtain c where c: "c \<in> set base" "l \<in> set c" "1 < length c" using li by (auto simp: non_units_def lemma_iters_doc_def)
  have over: "list_all (over_atoms (ln_atoms ln)) base" and count: "length (non_units base) \<le> ln_non_unit ln"
    using base by (simp_all add: naive_base_okay_def)
  have "over_atoms (ln_atoms ln) c" using over c(1) by (simp add: list_all_iff)
  then have "fst l \<in> set (ra_allowed (ln_atoms ln))" using c(2) by (rule over_atoms_member)
  from add_unit_spec [OF li ra over this]
  obtain r where r: "add_unit li ln base l = Some r" "\<And>b. r = Some b \<Longrightarrow> list_all (over_atoms (ln_atoms ln)) b
      \<and> length (non_units b) < length (non_units base) \<and> (\<forall>v. base_dnf_true v base \<or> lit_true v l \<longrightarrow> base_dnf_true v b)"
    using c by blast
  have "reduces_to ln base b" if "r = Some b" for b
    using r(2) [OF that] count by (auto simp: reduces_to_def)
  with r(1) show "\<exists>r. add_unit li ln base l = Some r \<and> (\<forall>b. r = Some b \<longrightarrow> reduces_to ln base b)" by blast
qed

lemma naive_combined:
  assumes li: "lemma_iters_doc li" and ra: "atoms_okay (ln_atoms ln)" and cube: "over_atoms (ln_atoms ln) cube"
    and bs: "list_all (reduces_to ln base) bs"
  shows "\<exists>combined. those (map (\<lambda>b. add_combinations li ln b cube) bs) = Some combined
    \<and> list_all (list_all (weakens_to base_dnf_true (naive_base_okay ln) base cube)) combined"
proof (rule those_map_P)
  fix b assume "b \<in> set bs"
  then have b: "list_all (over_atoms (ln_atoms ln)) b" "length (non_units b) < ln_non_unit ln" "\<And>v. base_dnf_true v base \<Longrightarrow> base_dnf_true v b"
    using bs by (auto simp: list_all_iff reduces_to_def)
  from add_combinations_spec [OF li ra b(1) cube b(2)]
  obtain bs where "add_combinations li ln b cube = Some bs" "list_all (weakens_to base_dnf_true (naive_base_okay ln) b cube) bs" by blast
  then show "\<exists>y. add_combinations li ln b cube = Some y \<and> list_all (weakens_to base_dnf_true (naive_base_okay ln) base cube) y"
    using weakens_to_trans [of base_dnf_true, OF b(3)] by (auto simp: list_all_iff)
qed

lemma naive_contract:
  assumes li: "lemma_iters_doc li" and ra: "atoms_okay (ln_atoms ln)" and atoms: "map fst cube = ra_allowed (ln_atoms ln)"
    and le: "ln_non_unit ln \<le> 1" and base: "naive_base_okay ln base"
  shows "weaken_contract base_dnf_true (naive_base_okay ln) (naive_lemma_qf li ln) base cube ignore"
proof (cases "length (non_units base) < ln_non_unit ln")
  case True
  have "list_all (over_atoms (ln_atoms ln)) base" using base by (simp add: naive_base_okay_def)
  from add_combinations_spec [OF li ra this over_atoms_cube [OF atoms] True] obtain bs where
    "add_combinations li ln base cube = Some bs" "list_all (weakens_to base_dnf_true (naive_base_okay ln) base cube) bs" by blast
  then show ?thesis using le True by (simp add: weaken_contract_def naive_lemma_qf_def naive_weaken_def Let_def non_units_def)
next
  case False
  let ?W = "weakens_to base_dnf_true (naive_base_okay ln) base cube" and ?new = "\<lambda>b. ignore b = Some False"
  note cube = over_atoms_cube [OF atoms]
  have count: "length (non_units base) \<le> ln_non_unit ln" using base by (simp add: naive_base_okay_def)
  obtain added where added: "filter_map_p (add_unit li ln base) cube = Some added" "list_all ?W added"
    using naive_added [OF li ra cube base] by blast
  obtain reduced where reduced: "filter_map_p (add_unit li ln base) (li_order li (remdups (concat (non_units base)))) = Some reduced"
    "list_all (reduces_to ln base) reduced" using naive_reduced [OF li ra base] by blast
  have "list_all (reduces_to ln base) (filter ?new reduced)" using reduced(2) by (simp add: list_all_iff)
  then obtain combined where combined: "those (map (\<lambda>b. add_combinations li ln b cube) (filter ?new reduced)) = Some combined"
    "list_all (list_all ?W) combined" using naive_combined [OF li ra cube] by blast
  have inter: "list_all ?W (intersect_cubes base cube)" using intersect_cubes_spec [OF base] by (auto simp: list_all_iff)
  show ?thesis
  proof (rule weaken_contractI)
    assume ignore: "\<And>b. naive_base_okay ln b \<Longrightarrow> \<exists>r. ignore b = Some r"
    have added': "filter_p (\<lambda>b. if length b \<le> ln_cubes ln then not_ignored ignore b else Some False) added
        = Some (filter (\<lambda>b. length b \<le> ln_cubes ln \<and> ?new b) added)"
    proof (rule filter_p_SomeI)
      fix b assume "b \<in> set added"
      then have "naive_base_okay ln b" using added(2) by (auto simp: list_all_iff weakens_to_def)
      then show "(if length b \<le> ln_cubes ln then not_ignored ignore b else Some False) = Some (length b \<le> ln_cubes ln \<and> ?new b)"
        using ignore [of b] by (auto simp: not_ignored_def)
    qed
    have reduced': "filter_p (not_ignored ignore) reduced = Some (filter ?new reduced)"
      by (rule filter_not_ignored [where okay = "naive_base_okay ln", OF ignore])
        (use reduced(2) in \<open>auto simp add: list_all_iff reduces_to_def naive_base_okay_def intro: less_imp_le\<close>)
    have combined': "filter_p (not_ignored ignore) (concat combined) = Some (filter ?new (concat combined))"
      by (rule filter_weakened [OF ignore]) (use combined(2) in \<open>auto simp: list_all_iff\<close>)
    note inter' = filter_weakened [OF ignore inter]
    have "lq_weaken (naive_lemma_qf li ln) base cube ignore = Some (filter (\<lambda>b. length b \<le> ln_cubes ln \<and> ?new b) added
              @ filter ?new (concat combined) @ filter ?new (intersect_cubes base cube))"
      using le count False added(1) added' reduced(1) reduced' combined(1) combined' inter'
      by (simp add: naive_lemma_qf_def naive_weaken_def Let_def non_units_def [symmetric])
    moreover have "list_all ?W (filter (\<lambda>b. length b \<le> ln_cubes ln \<and> ?new b) added
              @ filter ?new (concat combined) @ filter ?new (intersect_cubes base cube))"
      using added(2) combined(2) inter by (auto simp: list_all_iff)
    ultimately show "\<exists>bs. lq_weaken (naive_lemma_qf li ln) base cube ignore = Some bs \<and> list_all ?W bs" by blast
  qed
qed

section \<open>A clause and cubes\<close>

lemma pdnf_add_literal_spec:
  assumes ra: "atoms_okay (lp_atoms lp)" and cube: "over_atoms (lp_atoms lp) cube" and base: "pdnf_base_okay lp base"
  shows "\<exists>bs. pdnf_add_literal lp base cube = Some bs \<and> list_all (weakens_to base_pdnf_true (pdnf_base_okay lp) base cube) bs"
proof (cases "length (fst base) + length (snd base) < lp_cubes lp")
  case True
  obtain lits where lits: "filter_p (\<lambda>lit. map_option (\<lambda>e. \<not> e \<or> snd lit) (atom_is_eq (lp_atoms lp) (fst lit))) cube = Some lits"
      "set lits \<subseteq> set cube" using eq_filter_Some [OF ra cube] by blast
  define short where "short = (\<lambda>l (cb :: atom_literal list). filter (\<lambda>lit. lit \<noteq> neg_lit l) cb)"
  have "weakens_to base_pdnf_true (pdnf_base_okay lp) base cube
      (fst base @ [l], map (short l) (filter (\<lambda>cb. l \<notin> set cb) (snd base)))" if l: "l \<in> set cube" for l
  proof -
    let ?cubes = "map (short l) (filter (\<lambda>cb. l \<notin> set cb) (snd base))"
    have sub: "set (short l cb) \<subseteq> set cb" for cb by (auto simp: short_def)
    have "list_all (over_atoms (lp_atoms lp)) ?cubes"
      using base over_atoms_subset [OF _ sub] by (simp add: pdnf_base_okay_def list_all_iff)
    moreover have "over_atoms (lp_atoms lp) (fst base @ [l])"
      using base over_atoms_member [OF cube l] by (simp add: pdnf_base_okay_def over_atoms_def)
    moreover have "base_pdnf_true v (fst base @ [l], ?cubes)"
      if true: "base_pdnf_true v base \<or> list_all (lit_true v) cube" for v
    proof (cases "lit_true v l \<or> (\<exists>l\<in>set (fst base). lit_true v l)")
      case False
      then have "\<not> list_all (lit_true v) cube" using l by (auto simp: list_all_iff)
      with true False obtain c where c: "c \<in> set (snd base)" "\<forall>l\<in>set c. lit_true v l"
        by (auto simp: base_pdnf_true_def base_dnf_true_def)
      then have "short l c \<in> set ?cubes" using False by auto
      moreover have "\<forall>l'\<in>set (short l c). lit_true v l'" using c(2) sub by blast
      ultimately have "base_dnf_true v ?cubes" unfolding base_dnf_true_def by blast
      then show ?thesis by (simp add: base_pdnf_true_def)
    qed (auto simp: base_pdnf_true_def)
    ultimately show ?thesis by (simp add: weakens_to_def pdnf_base_okay_def)
  qed
  with True lits show ?thesis
    by (auto simp: pdnf_add_literal_def Let_def list_all_iff short_def)
qed (simp add: pdnf_add_literal_def)

lemma pdnf_intersect_spec:
  assumes atoms: "map fst cube = ra_allowed (lp_atoms lp)" and base: "pdnf_base_okay lp base"
  shows "\<exists>bs. pdnf_intersect base cube = Some bs \<and> list_all (weakens_to base_pdnf_true (pdnf_base_okay lp) base cube) bs"
proof -
  let ?W = "weakens_to base_pdnf_true (pdnf_base_okay lp) base cube"
  let ?at = "\<lambda>i. map_option (\<lambda>intersection. if 1 < length intersection
             then [(fst base, take i (snd base) @ [intersection] @ drop (Suc i) (snd base))] else [])
           (filter_p (\<lambda>lit. map_option (\<lambda>b. b = snd lit) (map_of (rev cube) (fst lit))) (snd base ! i))"
  have "\<exists>bss. those (map ?at [0..<length (snd base)]) = Some bss \<and> list_all (list_all ?W) bss"
  proof (rule those_map_P)
    fix i assume "i \<in> set [0..<length (snd base)]"
    then have i: "i < length (snd base)" by simp
    let ?g = "\<lambda>lit. the (map_of (rev cube) (fst lit)) = snd lit"
    let ?c = "filter ?g (snd base ! i)"
    have found: "\<exists>b. map_of (rev cube) (fst lit) = Some b" if "lit \<in> set (snd base ! i)" for lit
    proof -
      have "over_atoms (lp_atoms lp) (snd base ! i)" using base i by (simp add: pdnf_base_okay_def list_all_iff)
      then have "fst lit \<in> set (map fst cube)" using that over_atoms_member atoms by metis
      then have "map_of (rev cube) (fst lit) \<noteq> None" by (simp add: map_of_eq_None_iff)
      then show ?thesis by blast
    qed
    have inter: "filter_p (\<lambda>lit. map_option (\<lambda>b. b = snd lit) (map_of (rev cube) (fst lit))) (snd base ! i) = Some ?c"
      by (rule filter_p_SomeI) (use found in fastforce)
    have sub: "set ?c \<subseteq> set (snd base ! i)" by auto
    have in_cube: "set ?c \<subseteq> set cube"
    proof
      fix lit assume "lit \<in> set ?c"
      then have "map_of (rev cube) (fst lit) = Some (snd lit)" using found by fastforce
      then show "lit \<in> set cube" using map_of_SomeD [of "rev cube"] by fastforce
    qed
    have upd: "take i (snd base) @ [?c] @ drop (Suc i) (snd base) = (snd base)[i := ?c]"
      using i by (simp add: upd_conv_take_nth_drop)
    have "?W (fst base, (snd base)[i := ?c])"
      using base replaced_cube [OF i sub in_cube] unfolding weakens_to_def pdnf_base_okay_def base_pdnf_true_def by auto
    then have "list_all ?W (if 1 < length ?c then [(fst base, take i (snd base) @ [?c] @ drop (Suc i) (snd base))] else [])"
      unfolding upd by simp
    then show "\<exists>y. ?at i = Some y \<and> list_all ?W y" unfolding inter by simp
  qed
  then show ?thesis unfolding pdnf_intersect_def by (auto simp: list_all_iff)
qed

lemma pdnf_add_cube_spec:
  assumes li: "lemma_iters_doc li" and ra: "atoms_okay (lp_atoms lp)" and cube: "over_atoms (lp_atoms lp) cube"
    and base: "pdnf_base_okay lp base"
  shows "\<exists>bs. pdnf_add_cube li lp base cube = Some bs \<and> list_all (weakens_to base_pdnf_true (pdnf_base_okay lp) base cube) bs"
proof -
  let ?rest = "filter (\<lambda>lit. neg_lit lit \<notin> set (fst base)) cube"
  let ?has = "\<lambda>l. term_ids (the (atom_term (lp_atoms lp) (fst l))) \<inter> lp_non_universal_vars lp \<noteq> {}"
  have "containing_vars (lp_atoms lp) ?rest (lp_non_universal_vars lp) = Some (filter ?has ?rest)"
    unfolding containing_vars_def
  proof (rule filter_p_SomeI)
    fix l assume "l \<in> set ?rest"
    then have "fst l \<in> set (ra_allowed (lp_atoms lp))" using over_atoms_member [OF cube] by simp
    then show "map_option (\<lambda>t. term_ids t \<inter> lp_non_universal_vars lp \<noteq> {}) (atom_term (lp_atoms lp) (fst l)) = Some (?has l)"
      using ra by (auto simp: atoms_okay_def list_all_iff atom_term_def)
  qed
  moreover have "weakens_to base_pdnf_true (pdnf_base_okay lp) base cube (fst base, snd base @ [comb])"
    if "comb \<in> set (li_combinations li k (filter ?has ?rest))" for comb k
  proof -
    have sub: "set comb \<subseteq> set cube" using combinations_subset [OF li that] by auto
    have "base_pdnf_true v (fst base, snd base @ [comb])" if "base_pdnf_true v base \<or> list_all (lit_true v) cube" for v
      using that sub by (auto simp: base_pdnf_true_def list_all_iff)
    then show ?thesis using base over_atoms_subset [OF cube sub] by (simp add: weakens_to_def pdnf_base_okay_def)
  qed
  ultimately show ?thesis by (auto simp: pdnf_add_cube_def Let_def list_all_iff)
qed

lemma pdnf_weaken_spec:
  assumes li: "lemma_iters_doc li" and ra: "atoms_okay (lp_atoms lp)" and atoms: "map fst cube = ra_allowed (lp_atoms lp)"
    and base: "pdnf_base_okay lp base" and ignore: "\<And>b. pdnf_base_okay lp b \<Longrightarrow> \<exists>r. ignore b = Some r"
  shows "\<exists>bs. pdnf_weaken li lp base cube ignore = Some bs
    \<and> list_all (\<lambda>b. weakens_to base_pdnf_true (pdnf_base_okay lp) base cube b \<and> ignore b = Some False) bs"
proof -
  let ?W = "weakens_to base_pdnf_true (pdnf_base_okay lp) base cube"
  note cube = over_atoms_cube [OF atoms]
  obtain added intersected combined where parts:
    "pdnf_add_literal lp base cube = Some added" "list_all ?W added"
    "pdnf_intersect base cube = Some intersected" "list_all ?W intersected"
    "pdnf_add_cube li lp base cube = Some combined" "list_all ?W combined"
    using pdnf_add_literal_spec [OF ra cube base] pdnf_intersect_spec [OF atoms base] pdnf_add_cube_spec [OF li ra cube base] by blast
  then have all: "list_all ?W (added @ intersected @ combined)" by simp
  have "filter_p (not_ignored ignore) (added @ intersected @ combined)
      = Some (filter (\<lambda>b. ignore b = Some False) (added @ intersected @ combined))"
    by (rule filter_weakened [OF ignore all])
  with parts all show ?thesis by (auto simp: pdnf_weaken_def list_all_iff)
qed

lemma pdnf_contract:
  assumes "lemma_iters_doc li" "atoms_okay (lp_atoms lp)" "map fst cube = ra_allowed (lp_atoms lp)" "pdnf_base_okay lp base"
  shows "weaken_contract base_pdnf_true (pdnf_base_okay lp) (pdnf_lemma_qf li lp) base cube ignore"
proof (rule weaken_contractI)
  assume "\<And>b. pdnf_base_okay lp b \<Longrightarrow> \<exists>r. ignore b = Some r"
  from pdnf_weaken_spec [where ignore = ignore, OF assms this] show "\<exists>bs. lq_weaken (pdnf_lemma_qf li lp) base cube ignore = Some bs
      \<and> list_all (weakens_to base_pdnf_true (pdnf_base_okay lp) base cube) bs"
    by (auto simp: pdnf_lemma_qf_def list_all_iff)
qed

section \<open>The three domains\<close>

text \<open>C39: weakening is sound in each of the three domains of lemma bodies: given a well-formed body and the cube of a
  state (one literal for each allowed atom), \<^verbatim>\<open>weaken\<close> returns, without panicking, well-formed bodies that are
  implied by the given one and true in every state with that cube, through clause extension, unit propagation,
  intersections of cubes and new cubes. The bodies a domain starts from are well-formed and false in every state.
  (The iterators behave as documented; there is an allowed atom, and allowed atoms are in the table; a CNF may have
  a clause; the naive domain has at most one non-unit cube, which the code asserts; and \<open>ignore\<close>, which the caller
  passes, does not panic on well-formed bodies.)\<close>

theorem lemma_weaken_sound:
  assumes "lemma_iters_doc li" and "atoms_okay ra" and "map fst cube = ra_allowed ra"
    and "lc_atoms lc = ra" and "0 < lc_clauses lc" and "cnf_base_okay lc base"
    and "ln_atoms ln = ra" and "ln_non_unit ln \<le> 1" and "naive_base_okay ln cubes"
    and "lp_atoms lp = ra" and "pdnf_base_okay lp parts"
  shows "weaken_contract base_cnf_true (cnf_base_okay lc) (cnf_lemma_qf li lc) base cube ignore1
    \<and> weaken_contract base_dnf_true (naive_base_okay ln) (naive_lemma_qf li ln) cubes cube ignore2
    \<and> weaken_contract base_pdnf_true (pdnf_base_okay lp) (pdnf_lemma_qf li lp) parts cube ignore3
    \<and> list_all (\<lambda>b. cnf_base_okay lc b \<and> \<not> base_cnf_true v b) (lq_strongest (cnf_lemma_qf li lc))
    \<and> list_all (\<lambda>b. naive_base_okay ln b \<and> \<not> base_dnf_true v b) (lq_strongest (naive_lemma_qf li ln))
    \<and> list_all (\<lambda>b. pdnf_base_okay lp b \<and> \<not> base_pdnf_true v b) (lq_strongest (pdnf_lemma_qf li lp))"
proof (intro conjI)
  show "weaken_contract base_cnf_true (cnf_base_okay lc) (cnf_lemma_qf li lc) base cube ignore1"
    by (rule cnf_contract) (use assms in simp_all)
  show "weaken_contract base_dnf_true (naive_base_okay ln) (naive_lemma_qf li ln) cubes cube ignore2"
    by (rule naive_contract) (use assms in simp_all)
  show "weaken_contract base_pdnf_true (pdnf_base_okay lp) (pdnf_lemma_qf li lp) parts cube ignore3"
    by (rule pdnf_contract) (use assms in simp_all)
qed (simp_all add: cnf_lemma_qf_def naive_lemma_qf_def pdnf_lemma_qf_def cnf_base_okay_def base_cnf_true_def
    naive_base_okay_def non_units_def pdnf_base_okay_def base_pdnf_true_def over_atoms_def)

definition iters_ref :: lemma_iters where
  "iters_ref = \<lparr>li_combinations = (\<lambda>k xs. filter (\<lambda>ys. length ys = k) (subseqs xs)), li_product = product_lists, li_order = rev\<rparr>"

definition atoms_ref :: restricted_atoms where
  "atoms_ref = \<lparr>ra_atoms = \<lparr>at_terms = [Id ''p'', Id ''q'', term_equals (Id ''x'') (Id ''y'')], at_index = (\<lambda>_. None)\<rparr>, ra_allowed = [0, 2, 1]\<rparr>"

lemma iters_ref_doc: "lemma_iters_doc iters_ref"
proof -
  have "set ys \<subseteq> set xs" if "ys \<in> set (subseqs xs)" for ys xs :: "atom_literal list"
    using that subseqs_powset [of xs] by blast
  then show ?thesis by (auto simp: lemma_iters_doc_def iters_ref_def)
qed

theorem lemma_weaken_sound_witness:
  "weaken_contract base_pdnf_true (pdnf_base_okay \<lparr>lp_cubes = 3, lp_cube_size = 2, lp_non_unit = 2, lp_atoms = atoms_ref, lp_non_universal_vars = {''p''}\<rparr>)
     (pdnf_lemma_qf iters_ref \<lparr>lp_cubes = 3, lp_cube_size = 2, lp_non_unit = 2, lp_atoms = atoms_ref, lp_non_universal_vars = {''p''}\<rparr>)
     ([(1, True)], [[(0, True), (2, False)]]) [(0, True), (2, False), (1, False)] (\<lambda>_. Some False)
   \<and> lq_weaken (pdnf_lemma_qf iters_ref \<lparr>lp_cubes = 3, lp_cube_size = 2, lp_non_unit = 2, lp_atoms = atoms_ref, lp_non_universal_vars = {''p''}\<rparr>)
     ([(1, True)], [[(0, True), (2, False)]]) [(0, True), (2, False), (1, False)] (\<lambda>_. Some False)
     = Some [([(1, True), (0, True)], []), ([(1, True)], [[(0, True), (2, False)]])]
   \<and> naive_weaken iters_ref \<lparr>ln_cubes = 3, ln_cube_size = 2, ln_non_unit = 1, ln_atoms = atoms_ref\<rparr>
     [[(0, True), (1, True)]] [(0, True), (2, False), (1, False)] (\<lambda>_. Some False)
     = Some [[[(0, True)]], [[(0, True)], [(1, False)]], [[(1, True)], [(0, True), (2, False)]], [[(0, True)]]]"
proof -
  let ?lp = "\<lparr>lp_cubes = 3, lp_cube_size = 2, lp_non_unit = 2, lp_atoms = atoms_ref, lp_non_universal_vars = {''p''}\<rparr>"
    and ?lc = "\<lparr>lc_clauses = 1, lc_clause_size = 2, lc_atoms = atoms_ref\<rparr>"
    and ?ln = "\<lparr>ln_cubes = 3, ln_cube_size = 2, ln_non_unit = 1, ln_atoms = atoms_ref\<rparr>"
    and ?cube = "[(0, True), (2, False), (1, False)]"
  have "weaken_contract base_pdnf_true (pdnf_base_okay ?lp) (pdnf_lemma_qf iters_ref ?lp) ([(1, True)], [[(0, True), (2, False)]]) ?cube (\<lambda>_. Some False)"
    by (rule lemma_weaken_sound [of iters_ref atoms_ref ?cube ?lc "[[]]" ?ln "[]" ?lp "([(1, True)], [[(0, True), (2, False)]])",
          THEN conjunct2, THEN conjunct2, THEN conjunct1])
      (simp_all add: iters_ref_doc atoms_okay_def atoms_ref_def cnf_base_okay_def naive_base_okay_def pdnf_base_okay_def over_atoms_def non_units_def)
  then show ?thesis by (rule conjI) (rule conjI; code_simp)
qed

end
