(* ===== verification/Inference_Weaken.thy ===== *)
theory Inference_Weaken
  imports Inference_Lemma Inference_Subsume
begin

text \<open>
  Model of the sets of lemmas with one quantifier prefix of \<^verbatim>\<open>inference/src/weaken.rs\<close>
  (\<^verbatim>\<open>PrefixLemmaSet\<close>): which of them a model violates, and how they are weakened until it violates none.
  None is a panic.
\<close>

section \<open>Sets of lemmas with one prefix\<close>

text \<open>What the code gets from its type parameters and from the libraries: the order of the bodies, their map,
  the iterators, and the orders in which hash sets of bodies and of numbers are gone through.\<close>

record ('o, 'b, 'm) weaken_env =
  we_order :: "('o, 'b) order_ops"
  we_map :: "('o, nat, 'm) smap_ops"
  we_iters :: quant_iters
  we_it :: itertools
  we_bodies :: "'o list \<Rightarrow> 'o list"
  we_numbers :: "nat set \<Rightarrow> nat list"

text \<open>The hash map \<^verbatim>\<open>by_id\<close> is an association list.\<close>

record ('o, 'b, 'm) prefix_set =
  ps_prefix :: quant_prefix
  ps_lemma_qf :: "'b lemma_qf"
  ps_atoms :: restricted_atoms
  ps_bodies :: 'm
  ps_by_id :: "(nat \<times> 'o) list"
  ps_next :: nat

definition ps_new :: "('o, 'b, 'm) weaken_env \<Rightarrow> quant_prefix \<Rightarrow> 'b lemma_qf \<Rightarrow> restricted_atoms \<Rightarrow> ('o, 'b, 'm) prefix_set" where
  "ps_new env p lq ra = \<lparr>ps_prefix = p, ps_lemma_qf = lq, ps_atoms = ra, ps_bodies = sm_new (we_map env), ps_by_id = [], ps_next = 0\<rparr>"

definition ps_is_empty :: "('o, 'b, 'm) prefix_set \<Rightarrow> bool" where
  "ps_is_empty ps \<longleftrightarrow> ps_by_id ps = []"

definition ps_clone_empty :: "('o, 'b, 'm) weaken_env \<Rightarrow> ('o, 'b, 'm) prefix_set \<Rightarrow> ('o, 'b, 'm) prefix_set" where
  "ps_clone_empty env ps = ps_new env (ps_prefix ps) (ps_lemma_qf ps) (ps_atoms ps)"

definition ps_insert :: "('o, 'b, 'm) weaken_env \<Rightarrow> 'o \<Rightarrow> ('o, 'b, 'm) prefix_set \<Rightarrow> ('o, 'b, 'm) prefix_set option" where
  "ps_insert env body ps =
     map_option (\<lambda>bodies. ps\<lparr>ps_by_id := AList.update (ps_next ps) body (ps_by_id ps), ps_bodies := bodies, ps_next := ps_next ps + 1\<rparr>)
       (sm_insert (we_map env) body (ps_next ps) (ps_bodies ps))"

definition ps_init :: "('o, 'b, 'm) weaken_env \<Rightarrow> ('o, 'b, 'm) prefix_set \<Rightarrow> ('o, 'b, 'm) prefix_set option" where
  "ps_init env ps =
     (if ps_is_empty ps then fold_p (\<lambda>base. ps_insert env (os_from_base (we_order env) base)) (lq_strongest (ps_lemma_qf ps)) ps else None)"

definition ps_remove :: "('o, 'b, 'm) weaken_env \<Rightarrow> 'o \<Rightarrow> ('o, 'b, 'm) prefix_set \<Rightarrow> ('o, 'b, 'm) prefix_set option" where
  "ps_remove env body ps =
     (case sm_remove (we_map env) body (ps_bodies ps) of None \<Rightarrow> None | Some (i, bodies) \<Rightarrow>
        if map_of (ps_by_id ps) i = None then None
        else Some (ps\<lparr>ps_bodies := bodies, ps_by_id := AList.delete i (ps_by_id ps)\<rparr>))"

definition ps_remove_by_id :: "('o, 'b, 'm) weaken_env \<Rightarrow> nat \<Rightarrow> ('o, 'b, 'm) prefix_set \<Rightarrow> ('o \<times> ('o, 'b, 'm) prefix_set) option" where
  "ps_remove_by_id env i ps =
     (case map_of (ps_by_id ps) i of None \<Rightarrow> None | Some body \<Rightarrow>
        map_option (\<lambda>(_, bodies). (body, ps\<lparr>ps_by_id := AList.delete i (ps_by_id ps), ps_bodies := bodies\<rparr>))
          (sm_remove (we_map env) body (ps_bodies ps)))"

text \<open>The values of \<^verbatim>\<open>by_id\<close> in the order they are gone through.\<close>

definition ps_values :: "('o, 'b, 'm) weaken_env \<Rightarrow> ('o, 'b, 'm) prefix_set \<Rightarrow> 'o list" where
  "ps_values env ps = we_bodies env (map snd (ps_by_id ps))"

text \<open>The variants of a body under the permutations of its variables, from a position on.\<close>

definition ps_permutations :: "('o, 'b, 'm) weaken_env \<Rightarrow> ('o, 'b, 'm) prefix_set \<Rightarrow> 'b \<Rightarrow> nat \<Rightarrow> substitution list option" where
  "ps_permutations env ps base perm_index =
     map_option (\<lambda>is'. permutations (we_iters env) (ps_prefix ps) perm_index (Some is')) (lq_ids (ps_lemma_qf ps) base)"

definition ps_variant :: "('o, 'b, 'm) weaken_env \<Rightarrow> ('o, 'b, 'm) prefix_set \<Rightarrow> 'b \<Rightarrow> substitution \<Rightarrow> 'o option" where
  "ps_variant env ps base perm =
     (case lq_substitute (ps_lemma_qf ps) base perm of Some (Some b) \<Rightarrow> Some (os_from_base (we_order env) b) | _ \<Rightarrow> None)"

definition ps_search ::
  "('o, 'b, 'm) weaken_env \<Rightarrow> ('o \<Rightarrow> 'm \<Rightarrow> ('o \<times> nat) list option) \<Rightarrow> 'o \<Rightarrow> nat \<Rightarrow> ('o, 'b, 'm) prefix_set \<Rightarrow> 'o list option" where
  "ps_search env search body perm_index ps =
     (let base = os_to_base (we_order env) body in
      Option.bind (ps_permutations env ps base perm_index) (\<lambda>perms.
        map_option (\<lambda>found. we_bodies env (remdups (map fst (concat found))))
          (those (map (\<lambda>perm. Option.bind (ps_variant env ps base perm) (\<lambda>v. search v (ps_bodies ps))) perms))))"

definition ps_get_subsuming :: "('o, 'b, 'm) weaken_env \<Rightarrow> 'o \<Rightarrow> nat \<Rightarrow> ('o, 'b, 'm) prefix_set \<Rightarrow> 'o list option" where
  "ps_get_subsuming env = ps_search env (sm_get_subsuming (we_map env))"

definition ps_get_subsumed :: "('o, 'b, 'm) weaken_env \<Rightarrow> 'o \<Rightarrow> nat \<Rightarrow> ('o, 'b, 'm) prefix_set \<Rightarrow> 'o list option" where
  "ps_get_subsumed env = ps_search env (sm_get_subsumed (we_map env))"

definition ps_subsumes :: "('o, 'b, 'm) weaken_env \<Rightarrow> 'o \<Rightarrow> nat \<Rightarrow> ('o, 'b, 'm) prefix_set \<Rightarrow> bool option" where
  "ps_subsumes env body perm_index ps =
     (let base = os_to_base (we_order env) body in
      Option.bind (ps_permutations env ps base perm_index) (\<lambda>perms.
        any_p (map (\<lambda>perm. Option.bind (ps_variant env ps base perm)
          (\<lambda>v. map_option (\<lambda>found. found \<noteq> []) (sm_get_subsuming (we_map env) v (ps_bodies ps)))) perms)))"

definition ps_insert_minimized :: "('o, 'b, 'm) weaken_env \<Rightarrow> nat \<Rightarrow> 'o \<Rightarrow> ('o, 'b, 'm) prefix_set \<Rightarrow> ('o, 'b, 'm) prefix_set option" where
  "ps_insert_minimized env perm_index body ps =
     (case ps_subsumes env body perm_index ps of
        None \<Rightarrow> None | Some True \<Rightarrow> Some ps
      | Some False \<Rightarrow> Option.bind (ps_get_subsumed env body perm_index ps) (\<lambda>subsumed.
          Option.bind (fold_p (ps_remove env) subsumed ps) (ps_insert env body)))"

section \<open>The lemmas a model violates\<close>

definition extend_assignment :: "itertools \<Rightarrow> assignment \<Rightarrow> string list \<Rightarrow> nat \<Rightarrow> assignment list option" where
  "extend_assignment it asgn vs elem_count =
     (if vs = [] then None
      else Some (map (assign_all asgn vs) (mcp_fixed (mcp_nat it) (map (\<lambda>_. [0..<elem_count]) vs))))"

text \<open>The \<^verbatim>\<open>fold_while\<close>: it stops when nothing is left, and \<^verbatim>\<open>unwrap\<close> panics when there was nothing to go through.\<close>

fun intersect_while :: "('a \<Rightarrow> nat set option) \<Rightarrow> 'a list \<Rightarrow> nat set option \<Rightarrow> nat set option" where
  "intersect_while f [] res = res"
| "intersect_while f (a # as) res =
     (case f a of None \<Rightarrow> None | Some new_hs \<Rightarrow>
       (case res of None \<Rightarrow> intersect_while f as (Some new_hs)
        | Some hs \<Rightarrow> if hs \<inter> new_hs = {} then Some {} else intersect_while f as (Some (hs \<inter> new_hs))))"

text \<open>The number of elements of the sort of a position.\<close>

definition position_count :: "('o, 'b, 'm) prefix_set \<Rightarrow> model \<Rightarrow> nat \<Rightarrow> nat" where
  "position_count ps m index = m_universe m ! (qs_sorts (ps_prefix ps) ! index)"

text \<open>The recursion goes through the positions of the prefix; its first argument is how many are left.\<close>

fun unsat_levels ::
  "('o, 'b, 'm) weaken_env \<Rightarrow> ('o, 'b, 'm) prefix_set \<Rightarrow> model \<Rightarrow> nat \<Rightarrow> assignment \<Rightarrow> nat \<Rightarrow> nat set option" where
  "unsat_levels env ps m 0 asgn index =
     Option.bind (atoms_neg_cube (we_it env) (ps_atoms ps) m asgn) (\<lambda>neg_cube.
       map_option (\<lambda>found. set (map snd found))
         (sm_get_subsuming (we_map env) (os_from_base (we_order env) (lq_base_from_clause (ps_lemma_qf ps) neg_cube)) (ps_bodies ps)))"
| "unsat_levels env ps m (Suc d) asgn index =
     (if qs_names (ps_prefix ps) ! index = [] then unsat_levels env ps m d asgn (Suc index)
      else Option.bind (extend_assignment (we_it env) asgn (qs_names (ps_prefix ps) ! index) (position_count ps m index)) (\<lambda>asgns.
        if qs_quantifiers (ps_prefix ps) ! index = Forall
        then map_option (\<lambda>hss. \<Union> (set hss)) (those (map (\<lambda>asgn. unsat_levels env ps m d asgn (Suc index)) asgns))
        else intersect_while (\<lambda>asgn. unsat_levels env ps m d asgn (Suc index)) asgns None))"

definition ps_unsat :: "('o, 'b, 'm) weaken_env \<Rightarrow> ('o, 'b, 'm) prefix_set \<Rightarrow> model \<Rightarrow> assignment \<Rightarrow> nat \<Rightarrow> nat set option" where
  "ps_unsat env ps m asgn index = unsat_levels env ps m (qs_len (ps_prefix ps) - index) asgn index"

section \<open>Weakening\<close>

definition ps_bases :: "('o, 'b, 'm) weaken_env \<Rightarrow> ('o, 'b, 'm) prefix_set \<Rightarrow> 'b list" where
  "ps_bases env ps = map (os_to_base (we_order env)) (ps_values env ps)"

text \<open>Moving the lemmas with the given numbers to another set.\<close>

definition move_lemma :: "('o, 'b, 'm) weaken_env \<Rightarrow> nat \<Rightarrow> ('o, 'b, 'm) prefix_set \<times> ('o, 'b, 'm) prefix_set
    \<Rightarrow> (('o, 'b, 'm) prefix_set \<times> ('o, 'b, 'm) prefix_set) option" where
  "move_lemma env i = (\<lambda>(self, to_weaken).
     Option.bind (ps_remove_by_id env i self) (\<lambda>(body, self). map_option (Pair self) (ps_insert env body to_weaken)))"

definition move_lemmas :: "('o, 'b, 'm) weaken_env \<Rightarrow> nat set \<Rightarrow> ('o, 'b, 'm) prefix_set
    \<Rightarrow> (('o, 'b, 'm) prefix_set \<times> ('o, 'b, 'm) prefix_set) option" where
  "move_lemmas env is' self = fold_p (move_lemma env) (we_numbers env is') (self, ps_clone_empty env self)"

definition remove_subsumed :: "('o, 'b, 'm) weaken_env \<Rightarrow> nat \<Rightarrow> 'o \<Rightarrow> ('o, 'b, 'm) prefix_set \<Rightarrow> ('o, 'b, 'm) prefix_set option" where
  "remove_subsumed env perm_index body ps =
     Option.bind (ps_get_subsumed env body perm_index ps) (\<lambda>subsumed. fold_p (ps_remove env) subsumed ps)"

type_synonym ('o, 'b, 'm) ignore_list = "(('o, 'b, 'm) prefix_set \<times> nat) list"

definition ignored :: "('o, 'b, 'm) weaken_env \<Rightarrow> ('o, 'b, 'm) ignore_list \<Rightarrow> 'b \<Rightarrow> bool option" where
  "ignored env ignore b =
     any_p (map (\<lambda>(ig, perm_index). ps_subsumes env (os_from_base (we_order env) b) perm_index ig) ignore)"

definition weaken_state ::
  "('o, 'b, 'm) weaken_env \<Rightarrow> ('o, 'b, 'm) prefix_set \<Rightarrow> ('o, 'b, 'm) prefix_set \<Rightarrow> model \<Rightarrow> assignment \<Rightarrow> nat \<Rightarrow> bool
   \<Rightarrow> ('o, 'b, 'm) ignore_list \<Rightarrow> ('o, 'b, 'm) prefix_set option" where
  "weaken_state env self to_weaken m asgn perm_index prev_exists ignore =
     (let new_ignore = ignore @ [(self, perm_index)] in
      Option.bind (atoms_cube (we_it env) (ps_atoms self) m asgn) (\<lambda>cube.
      Option.bind (those (map (\<lambda>base. lq_weaken (ps_lemma_qf self) base cube (ignored env new_ignore)) (ps_bases env to_weaken))) (\<lambda>weakened.
      Option.bind (fold_p (ps_insert_minimized env perm_index) (we_bodies env (remdups (map (os_from_base (we_order env)) (concat weakened))))
        (ps_clone_empty env to_weaken)) (\<lambda>weakened_min.
      let new_bodies = ps_values env weakened_min in
      Option.bind (if prev_exists \<and> \<not> ps_is_empty self then fold_p (remove_subsumed env perm_index) new_bodies self else Some self)
        (fold_p (ps_insert env) new_bodies)))))"

fun weaken_levels ::
  "('o, 'b, 'm) weaken_env \<Rightarrow> nat \<Rightarrow> ('o, 'b, 'm) prefix_set \<Rightarrow> ('o, 'b, 'm) prefix_set \<Rightarrow> model \<Rightarrow> assignment \<Rightarrow> nat \<Rightarrow> nat \<Rightarrow> bool
   \<Rightarrow> ('o, 'b, 'm) ignore_list \<Rightarrow> ('o, 'b, 'm) prefix_set option" where
  "weaken_levels env 0 self to_weaken m asgn index perm_index prev_exists ignore =
     (if ps_is_empty to_weaken then Some self else weaken_state env self to_weaken m asgn perm_index prev_exists ignore)"
| "weaken_levels env (Suc d) self to_weaken m asgn index perm_index prev_exists ignore =
     (if ps_is_empty to_weaken then Some self
      else if qs_names (ps_prefix self) ! index = []
      then weaken_levels env d self to_weaken m asgn (Suc index) perm_index prev_exists ignore
      else Option.bind (extend_assignment (we_it env) asgn (qs_names (ps_prefix self) ! index) (position_count self m index)) (\<lambda>asgns.
        if qs_quantifiers (ps_prefix self) ! index = Forall
        then
          let new_ignore = ignore @ [(self, perm_index)];
              new_perm_index = (if prev_exists then index else perm_index) in
          Option.bind (fold_p (\<lambda>new_asgn to_weaken.
              Option.bind (ps_unsat env to_weaken m new_asgn (Suc index)) (\<lambda>unsat.
              Option.bind (move_lemmas env unsat to_weaken) (\<lambda>(to_weaken, new_to_weaken).
                weaken_levels env d to_weaken new_to_weaken m new_asgn (Suc index) new_perm_index False new_ignore)))
            asgns to_weaken) (\<lambda>to_weaken.
          if prev_exists
          then Option.bind (sm_keys (we_map env) (ps_bodies to_weaken)) (\<lambda>bodies.
            Option.bind (fold_p (ps_insert_minimized env perm_index) bodies (ps_clone_empty env to_weaken)) (\<lambda>minimized.
            Option.bind (fold_p (remove_subsumed env perm_index) (ps_values env minimized) self)
              (fold_p (ps_insert env) (ps_values env minimized))))
          else fold_p (ps_insert env) (ps_values env to_weaken) self)
        else fold_p (\<lambda>new_asgn self. weaken_levels env d self to_weaken m new_asgn (Suc index) perm_index True ignore) asgns self))"

definition weaken_add ::
  "('o, 'b, 'm) weaken_env \<Rightarrow> ('o, 'b, 'm) prefix_set \<Rightarrow> ('o, 'b, 'm) prefix_set \<Rightarrow> model \<Rightarrow> assignment \<Rightarrow> nat \<Rightarrow> nat \<Rightarrow> bool
   \<Rightarrow> ('o, 'b, 'm) ignore_list \<Rightarrow> ('o, 'b, 'm) prefix_set option" where
  "weaken_add env self to_weaken m asgn index perm_index prev_exists ignore =
     weaken_levels env (qs_len (ps_prefix self) - index) self to_weaken m asgn index perm_index prev_exists ignore"

definition weaken_those :: "('o, 'b, 'm) weaken_env \<Rightarrow> nat set \<Rightarrow> ('o, 'b, 'm) prefix_set \<Rightarrow> model \<Rightarrow> (bool \<times> ('o, 'b, 'm) prefix_set) option" where
  "weaken_those env unsat self m =
     (if unsat = {} then Some (False, self)
      else Option.bind (move_lemmas env unsat self) (\<lambda>(self, to_weaken).
        map_option (Pair True) (weaken_add env self to_weaken m Map.empty 0 0 False [])))"

definition ps_weaken :: "('o, 'b, 'm) weaken_env \<Rightarrow> ('o, 'b, 'm) prefix_set \<Rightarrow> model \<Rightarrow> (bool \<times> ('o, 'b, 'm) prefix_set) option" where
  "ps_weaken env self m = Option.bind (ps_unsat env self m Map.empty 0) (\<lambda>unsat. weaken_those env unsat self m)"

definition ps_weaken_cti :: "('o, 'b, 'm) weaken_env \<Rightarrow> ('o, 'b, 'm) prefix_set \<Rightarrow> model \<Rightarrow> model \<Rightarrow> (bool \<times> ('o, 'b, 'm) prefix_set) option" where
  "ps_weaken_cti env self prestate poststate =
     Option.bind (ps_unsat env self poststate Map.empty 0) (\<lambda>post.
     Option.bind (ps_unsat env self prestate Map.empty 0) (\<lambda>pre. weaken_those env (post - pre) self poststate))"

definition ps_as_iter :: "('o, 'b, 'm) weaken_env \<Rightarrow> ('o, 'b, 'm) prefix_set \<Rightarrow> (quant_prefix \<times> 'o) list option" where
  "ps_as_iter env ps =
     those (map (\<lambda>body. map_option (\<lambda>is'. (qs_restrict (ps_prefix ps) is', body))
       (lq_ids (ps_lemma_qf ps) (os_to_base (we_order env) body))) (ps_values env ps))"

end
