(* ===== verification/Inference_Unsat.thy ===== *)
theory Inference_Unsat
  imports Inference_Weaken Inference_Weakening Inference_Subsume_Maps Fly_Eval
begin

text \<open>
  Which lemmas of a set with one prefix a model violates: \<^verbatim>\<open>unsat\<close> of \<^verbatim>\<open>inference/src/weaken.rs\<close> goes through the
  assignments of the prefix and searches the map of bodies with the clause of the literals that are false; it
  finds exactly the lemmas that are false in the model. What a domain of bodies has to promise for it is a
  locale, interpreted for the three domains.
\<close>

section \<open>Assignments of a prefix\<close>

definition position_sort :: "quant_prefix \<Rightarrow> nat \<Rightarrow> sort" where
  "position_sort p i = Uninterpreted (sig_sorts (qs_signature p) ! (qs_sorts p ! i))"

fun prefix_ctx :: "quant_prefix \<Rightarrow> nat \<Rightarrow> sort_context" where
  "prefix_ctx p 0 = Map.empty"
| "prefix_ctx p (Suc k) = (prefix_ctx p k)(qs_names p ! k [\<mapsto>] replicate (length (qs_names p ! k)) (position_sort p k))"

text \<open>The model and the atoms are over the signature of the prefix; there are elements of every sort.\<close>

definition model_fits :: "quant_prefix \<Rightarrow> model \<Rightarrow> bool" where
  "model_fits p m \<longleftrightarrow> model_ok m \<and> m_signature m = qs_signature p \<and> list_all (\<lambda>c. 0 < c) (m_universe m)
     \<and> distinct (sig_sorts (qs_signature p))"

definition atoms_fit :: "quant_prefix \<Rightarrow> restricted_atoms \<Rightarrow> bool" where
  "atoms_fit p ra \<longleftrightarrow> qs_okay p \<and> atoms_okay ra
     \<and> list_all (\<lambda>n. no_temporal (at_terms (ra_atoms ra) ! n) \<and> quantifier_free (at_terms (ra_atoms ra) ! n)
         \<and> term_sort (qs_signature p) (prefix_ctx p (qs_len p)) (at_terms (ra_atoms ra) ! n) = Some Bool) (ra_allowed ra)"

abbreviation atoms_at :: "restricted_atoms \<Rightarrow> fo_trace \<Rightarrow> assignment \<Rightarrow> nat \<Rightarrow> bool" where
  "atoms_at ra tr a \<equiv> \<lambda>n. holds tr 0 a (at_terms (ra_atoms ra) ! n)"

lemma position_card:
  assumes fits: "model_fits p m" and ok: "qs_okay p" and k: "k < qs_len p"
  shows "tr_card (model_trace m) (position_sort p k) = m_universe m ! (qs_sorts p ! k)"
    and "0 < m_universe m ! (qs_sorts p ! k)" and "qs_sorts p ! k < length (m_universe m)"
proof -
  let ?s = "qs_sorts p ! k"
  have "?s \<in> set (qs_sorts p)" using ok k by (auto simp: qs_okay_def intro!: nth_mem)
  then have s: "?s < length (sig_sorts (qs_signature p))" using ok by (simp add: qs_okay_def)
  moreover have len: "length (m_universe m) = length (sig_sorts (qs_signature p))"
    using fits by (auto simp: model_fits_def model_ok_def model_wf_def)
  ultimately show "?s < length (m_universe m)" by simp
  with fits show "0 < m_universe m ! ?s" by (simp add: model_fits_def list_all_length)
  have "sort_idx (m_signature m) (position_sort p k) = Some ?s"
    using fits s position_distinct [of "\<lambda>x. x"] by (auto simp: position_sort_def model_fits_def sort_idx_def)
  then show "tr_card (model_trace m) (position_sort p k) = m_universe m ! ?s"
    using \<open>?s < length (m_universe m)\<close> by (simp add: model_trace_def cardinality_def position_sort_def)
qed

lemma prefix_position:
  assumes ok: "qs_okay p" and k: "k < qs_len p"
  shows "drop k (prefix_positions tr p) = (qs_quantifiers p ! k, tr_card tr (position_sort p k), qs_names p ! k) # drop (Suc k) (prefix_positions tr p)"
proof -
  have "length (prefix_positions tr p) = qs_len p" using ok by (simp add: prefix_positions_def qs_okay_def qs_len_def)
  with k have "drop k (prefix_positions tr p) = prefix_positions tr p ! k # drop (Suc k) (prefix_positions tr p)"
    by (simp add: Cons_nth_drop_Suc)
  moreover have "prefix_positions tr p ! k = (qs_quantifiers p ! k, tr_card tr (position_sort p k), qs_names p ! k)"
    using ok k by (simp add: prefix_positions_def position_sort_def qs_okay_def qs_len_def)
  ultimately show ?thesis by simp
qed

lemma assign_ok_position:
  assumes "assign_ok tr (prefix_ctx p k) a" and "vs \<in> tuples (replicate (length (qs_names p ! k)) (tr_card tr (position_sort p k)))"
  shows "assign_ok tr (prefix_ctx p (Suc k)) (assign_all a (qs_names p ! k) vs)"
proof -
  have "list_all2 (\<lambda>v s. v < tr_card tr s) vs (replicate (length (qs_names p ! k)) (position_sort p k))"
    using assms(2) unfolding tuples_iff list_all2_conv_all_nth by auto
  from assign_ok_upds [OF assms(1) this, of "qs_names p ! k"] show ?thesis by (simp add: assign_all_def)
qed

lemma holds_prefix_cong:
  assumes ok: "qs_okay p" and eq: "\<And>a. assign_ok tr (prefix_ctx p (qs_len p)) a \<Longrightarrow> P a = Q a"
  shows "\<lbrakk> k + d = qs_len p; assign_ok tr (prefix_ctx p k) a \<rbrakk>
    \<Longrightarrow> holds_prefix (drop k (prefix_positions tr p)) P a = holds_prefix (drop k (prefix_positions tr p)) Q a"
proof (induction d arbitrary: k a)
  case 0
  moreover have "length (prefix_positions tr p) = qs_len p" using ok by (simp add: prefix_positions_def qs_okay_def qs_len_def)
  ultimately show ?case using eq by simp
next
  case (Suc d)
  then have "k < qs_len p" by simp
  show ?case
    unfolding prefix_position [OF ok \<open>k < qs_len p\<close>] holds_prefix.simps
    by (rule quant_over_cong) (use Suc assign_ok_position in \<open>simp_all del: prefix_ctx.simps\<close>)
qed

text \<open>The assignments the code enumerates are those of the semantics.\<close>

lemma extend_assignment_spec:
  assumes "itertools_doc it" "vs \<noteq> []"
  shows "\<exists>asgns. extend_assignment it a vs c = Some asgns \<and> set asgns = assign_all a vs ` tuples (replicate (length vs) c)"
proof -
  have "map (\<lambda>_. [0..<c]) vs = upto_lists (replicate (length vs) c)"
    by (simp add: upto_lists_def map_replicate_const)
  then show ?thesis using assms by (simp add: extend_assignment_def tuples_def itertools_docD)
qed

lemma intersect_while_spec:
  "\<forall>a\<in>set as. f a = Some (g a) \<Longrightarrow> intersect_while f as (Some hs) = Some (hs \<inter> (\<Inter>a\<in>set as. g a))"
  by (induction as arbitrary: hs) (auto simp: Let_def)

lemma intersect_while_None:
  "\<lbrakk> as \<noteq> []; \<forall>a\<in>set as. f a = Some (g a) \<rbrakk> \<Longrightarrow> intersect_while f as None = Some (\<Inter>a\<in>set as. g a)"
  by (cases as) (simp_all add: intersect_while_spec)

lemma update_fresh: "k \<notin> fst ` set l \<Longrightarrow> AList.update k v l = l @ [(k, v)]"
  by (induction l) auto

lemma set_delete: "set (AList.delete k l) = {(j, y) \<in> set l. j \<noteq> k}"
  by (auto simp: AList.delete_eq)

text \<open>The numbers common to the sets of violated entries of a table are those of entries violated everywhere.\<close>

lemma common_numbers:
  assumes dist: "distinct (map fst l)" and A: "A \<noteq> {}"
  shows "(\<Inter>a\<in>A. {i. \<exists>x. (i, x) \<in> set l \<and> \<not> P a x}) = {i. \<exists>x. (i, x) \<in> set l \<and> \<not> (\<exists>a\<in>A. P a x)}"
proof (intro set_eqI iffI)
  fix i assume i: "i \<in> (\<Inter>a\<in>A. {i. \<exists>x. (i, x) \<in> set l \<and> \<not> P a x})"
  from A obtain a where "a \<in> A" by blast
  with i obtain x where x: "(i, x) \<in> set l" by blast
  have "\<not> P a x" if a: "a \<in> A" for a
  proof -
    from a i obtain y where "(i, y) \<in> set l" "\<not> P a y" by blast
    with eq_key_imp_eq_value [OF dist x] show ?thesis by blast
  qed
  with x show "i \<in> {i. \<exists>x. (i, x) \<in> set l \<and> \<not> (\<exists>a\<in>A. P a x)}" by blast
qed blast

section \<open>Domains of bodies\<close>

text \<open>What a domain promises: bodies have a truth value, the clause of the false literals of a state is subsumed
  exactly by the bodies false in it, and the term of a body means what the body means.\<close>

locale lemma_domain = subsumption_map "we_order env" okay "we_map env" good entries
  for env :: "('o, 'b, 'm) weaken_env" and okay good entries +
  fixes lq :: "'b lemma_qf" and ra :: restricted_atoms and true :: "(nat \<Rightarrow> bool) \<Rightarrow> 'b \<Rightarrow> bool" and bokay :: "'b \<Rightarrow> bool"
  assumes refuted: "\<lbrakk> okay x; bokay (os_to_base (we_order env) x) \<rbrakk>
      \<Longrightarrow> os_subsumes (we_order env) x (os_from_base (we_order env) (lq_base_from_clause lq (map (\<lambda>n. (n, \<not> v n)) (ra_allowed ra))))
        \<longleftrightarrow> \<not> true v (os_to_base (we_order env) x)"
    and body_term: "\<lbrakk> bokay b; atoms_fit p ra \<rbrakk> \<Longrightarrow> \<exists>t. lq_base_to_term lq b = Some t \<and> quantifier_free t
        \<and> (\<forall>tr a. trace_ok (qs_signature p) tr \<longrightarrow> assign_ok tr (prefix_ctx p (qs_len p)) a \<longrightarrow> (holds tr 0 a t \<longleftrightarrow> true (atoms_at ra tr a) b))"
begin

definition body_of :: "'o \<Rightarrow> 'b" where
  "body_of x = os_to_base (we_order env) x"

definition set_good :: "quant_prefix \<Rightarrow> ('o, 'b, 'm) prefix_set \<Rightarrow> bool" where
  "set_good p ps \<longleftrightarrow> ps_prefix ps = p \<and> ps_lemma_qf ps = lq \<and> ps_atoms ps = ra \<and> good (ps_bodies ps)
     \<and> distinct (map fst (ps_by_id ps)) \<and> (\<forall>i\<in>set (map fst (ps_by_id ps)). i < ps_next ps)
     \<and> (\<forall>x i. entries (ps_bodies ps) x = Some i \<longleftrightarrow> (i, x) \<in> set (ps_by_id ps))
     \<and> (\<forall>x\<in>snd ` set (ps_by_id ps). bokay (body_of x))"

text \<open>A body at a position of the prefix, under an assignment of the variables before it.\<close>

definition sat_at :: "quant_prefix \<Rightarrow> fo_trace \<Rightarrow> nat \<Rightarrow> assignment \<Rightarrow> 'b \<Rightarrow> bool" where
  "sat_at p tr k a b = holds_prefix (drop k (prefix_positions tr p)) (\<lambda>a. true (atoms_at ra tr a) b) a"

lemma set_goodD:
  assumes "set_good p ps"
  shows "ps_prefix ps = p" "ps_lemma_qf ps = lq" "ps_atoms ps = ra" "good (ps_bodies ps)" "distinct (map fst (ps_by_id ps))"
    "entries (ps_bodies ps) x = Some i \<longleftrightarrow> (i, x) \<in> set (ps_by_id ps)"
  using assms by (simp_all add: set_good_def)

lemma set_good_body:
  assumes "set_good p ps" "(i, x) \<in> set (ps_by_id ps)"
  shows "i < ps_next ps" "bokay (body_of x)" "okay x"
proof -
  show "okay x" using keys_okay [OF set_goodD(4) [OF assms(1)]] set_goodD(6) [OF assms(1)] assms(2) by blast
  show "i < ps_next ps" "bokay (body_of x)" using assms by (force simp: set_good_def)+
qed

lemma neg_cube_spec:
  assumes it: "itertools_doc (we_it env)" and fits: "model_fits p m" "atoms_fit p ra"
    and a: "assign_ok (model_trace m) (prefix_ctx p (qs_len p)) a"
  shows "atoms_neg_cube (we_it env) ra m a = Some (map (\<lambda>n. (n, \<not> atoms_at ra (model_trace m) a n)) (ra_allowed ra))"
    and "atoms_cube (we_it env) ra m a = Some (map (\<lambda>n. (n, atoms_at ra (model_trace m) a n)) (ra_allowed ra))"
proof -
  have ok: "model_ok m" "m_signature m = qs_signature p" using fits(1) by (simp_all add: model_fits_def)
  have eval: "n < length (at_terms (ra_atoms ra))
      \<and> eval_assign (we_it env) m (at_terms (ra_atoms ra) ! n) a = Some (eval_bool (atoms_at ra (model_trace m) a n))"
    if "n \<in> set (ra_allowed ra)" for n
  proof -
    have n: "n < length (at_terms (ra_atoms ra))" "no_temporal (at_terms (ra_atoms ra) ! n)"
      "term_sort (m_signature m) (prefix_ctx p (qs_len p)) (at_terms (ra_atoms ra) ! n) = Some Bool"
      using fits(2) that by (auto simp: atoms_fit_def atoms_okay_def list_all_iff ok(2))
    from eval_assign_teval [OF it ok(1) n(3,2) a, of 0] teval_bool01 [OF model_trace_ok [OF ok(1)] a n(3), of 0] n(1)
    show ?thesis by (auto simp: eval_bool_def)
  qed
  then show "atoms_neg_cube (we_it env) ra m a = Some (map (\<lambda>n. (n, \<not> atoms_at ra (model_trace m) a n)) (ra_allowed ra))"
    "atoms_cube (we_it env) ra m a = Some (map (\<lambda>n. (n, atoms_at ra (model_trace m) a n)) (ra_allowed ra))"
    unfolding atoms_neg_cube_def atoms_cube_def
    by (intro those_map_SomeI; simp add: atom_term_def eval_bool_def)+
qed

lemma unsat_state:
  assumes ps: "set_good p ps" and it: "itertools_doc (we_it env)" and fits: "model_fits p m" "atoms_fit p ra"
    and a: "assign_ok (model_trace m) (prefix_ctx p (qs_len p)) a"
  shows "unsat_levels env ps m 0 a k = Some {i. \<exists>x. (i, x) \<in> set (ps_by_id ps) \<and> \<not> true (atoms_at ra (model_trace m) a) (body_of x)}"
proof -
  let ?v = "atoms_at ra (model_trace m) a"
  let ?key = "os_from_base (we_order env) (lq_base_from_clause lq (map (\<lambda>n. (n, \<not> ?v n)) (ra_allowed ra)))"
  obtain xs where xs: "sm_get_subsuming (we_map env) ?key (ps_bodies ps) = Some xs"
    "set xs = {(x, i). entries (ps_bodies ps) x = Some i \<and> os_subsumes (we_order env) x ?key}"
    using subsuming_map [OF set_goodD(4) [OF ps] from_base_wf] by blast
  have "(x, i) \<in> set xs \<longleftrightarrow> (i, x) \<in> set (ps_by_id ps) \<and> \<not> true ?v (body_of x)" for x i
    unfolding xs(2) using set_goodD(6) [OF ps] set_good_body(2,3) [OF ps] refuted [of x ?v] by (auto simp: body_of_def)
  then have "set (map snd xs) = {i. \<exists>x. (i, x) \<in> set (ps_by_id ps) \<and> \<not> true ?v (body_of x)}" by force
  then show ?thesis using neg_cube_spec(1) [OF it fits a] xs(1) set_goodD [OF ps] by simp
qed

text \<open>A position of the prefix, in the semantics and in the code.\<close>

lemma sat_at_position:
  assumes fits: "model_fits p m" "atoms_fit p ra" and k: "k < qs_len p"
  shows "sat_at p (model_trace m) k a b \<longleftrightarrow> quant_over (qs_quantifiers p ! k)
      (tuples (replicate (length (qs_names p ! k)) (m_universe m ! (qs_sorts p ! k))))
      (\<lambda>vs. sat_at p (model_trace m) (Suc k) (assign_all a (qs_names p ! k) vs) b)"
proof -
  have ok: "qs_okay p" using fits(2) by (simp add: atoms_fit_def)
  show ?thesis unfolding sat_at_def prefix_position [OF ok k] by (simp add: position_card(1) [OF fits(1) ok k])
qed

lemma position_assignments:
  assumes it: "itertools_doc (we_it env)" and fits: "model_fits p m" "atoms_fit p ra" and k: "k < qs_len p"
    and a: "assign_ok (model_trace m) (prefix_ctx p k) a" and names: "qs_names p ! k \<noteq> []"
    and res: "extend_assignment (we_it env) a (qs_names p ! k) (m_universe m ! (qs_sorts p ! k)) = Some asgns"
  shows "a' \<in> set asgns \<Longrightarrow> assign_ok (model_trace m) (prefix_ctx p (Suc k)) a'"
    and "sat_at p (model_trace m) k a b \<longleftrightarrow> (if qs_quantifiers p ! k = Forall then \<forall>a'\<in>set asgns. sat_at p (model_trace m) (Suc k) a' b
          else \<exists>a'\<in>set asgns. sat_at p (model_trace m) (Suc k) a' b)"
    and "asgns \<noteq> []"
proof -
  have ok: "qs_okay p" using fits(2) by (simp add: atoms_fit_def)
  have asgns: "set asgns = assign_all a (qs_names p ! k) ` tuples (replicate (length (qs_names p ! k)) (m_universe m ! (qs_sorts p ! k)))"
    using extend_assignment_spec [OF it names, of a "m_universe m ! (qs_sorts p ! k)"] res by auto
  have "replicate (length (qs_names p ! k)) 0 \<in> tuples (replicate (length (qs_names p ! k)) (m_universe m ! (qs_sorts p ! k)))"
    using position_card(2) [OF fits(1) ok k] by (simp add: tuples_iff list_all2_conv_all_nth)
  then show "asgns \<noteq> []" using asgns by auto
  show "assign_ok (model_trace m) (prefix_ctx p (Suc k)) a'" if "a' \<in> set asgns"
    using that assign_ok_position [OF a] unfolding asgns position_card(1) [OF fits(1) ok k] by blast
  show "sat_at p (model_trace m) k a b \<longleftrightarrow> (if qs_quantifiers p ! k = Forall then \<forall>a'\<in>set asgns. sat_at p (model_trace m) (Suc k) a' b
          else \<exists>a'\<in>set asgns. sat_at p (model_trace m) (Suc k) a' b)"
    unfolding sat_at_position [OF fits k] asgns by (cases "qs_quantifiers p ! k") simp_all
qed

lemma position_skipped:
  assumes fits: "model_fits p m" "atoms_fit p ra" and k: "k < qs_len p"
    and a: "assign_ok (model_trace m) (prefix_ctx p k) a" and names: "qs_names p ! k = []"
  shows "assign_ok (model_trace m) (prefix_ctx p (Suc k)) a"
    and "sat_at p (model_trace m) k a b \<longleftrightarrow> sat_at p (model_trace m) (Suc k) a b"
proof -
  have S: "tuples (replicate (length (qs_names p ! k)) c) = {[]}" for c by (simp add: names tuples_def upto_lists_def)
  show "assign_ok (model_trace m) (prefix_ctx p (Suc k)) a" using a by (simp add: names)
  show "sat_at p (model_trace m) k a b \<longleftrightarrow> sat_at p (model_trace m) (Suc k) a b"
    unfolding sat_at_position [OF fits k] S by (cases "qs_quantifiers p ! k") (simp_all add: names assign_all_def)
qed

lemma unsat_levels_spec:
  assumes ps: "set_good p ps" and it: "itertools_doc (we_it env)" and fits: "model_fits p m" "atoms_fit p ra"
  shows "\<lbrakk> k + d = qs_len p; assign_ok (model_trace m) (prefix_ctx p k) a \<rbrakk>
    \<Longrightarrow> unsat_levels env ps m d a k = Some {i. \<exists>x. (i, x) \<in> set (ps_by_id ps) \<and> \<not> sat_at p (model_trace m) k a (body_of x)}"
proof (induction d arbitrary: k a)
  case 0
  have "length (prefix_positions (model_trace m) p) = qs_len p"
    using fits(2) by (simp add: prefix_positions_def atoms_fit_def qs_okay_def qs_len_def)
  then have "sat_at p (model_trace m) k a b = true (atoms_at ra (model_trace m) a) b" for b
    using "0.prems"(1) by (simp add: sat_at_def)
  then show ?case using unsat_state [OF ps it fits] 0 by simp
next
  case (Suc d)
  let ?names = "qs_names p ! k" and ?c = "m_universe m ! (qs_sorts p ! k)"
  let ?bad = "\<lambda>k a. {i. \<exists>x. (i, x) \<in> set (ps_by_id ps) \<and> \<not> sat_at p (model_trace m) k a (body_of x)}"
  from Suc.prems have k: "k < qs_len p" and rest: "Suc k + d = qs_len p" by simp_all
  show ?case
  proof (cases "?names = []")
    case True
    note next_level = position_skipped [OF fits k Suc.prems(2) True]
    from Suc.IH [OF rest next_level(1)] show ?thesis by (simp add: set_goodD [OF ps] True next_level(2))
  next
    case False
    obtain asgns where asgns: "extend_assignment (we_it env) a ?names ?c = Some asgns"
      using extend_assignment_spec [OF it False] by blast
    note next_level = position_assignments [OF it fits k Suc.prems(2) False asgns]
    have each: "\<forall>a'\<in>set asgns. unsat_levels env ps m d a' (Suc k) = Some (?bad (Suc k) a')"
      using Suc.IH [OF rest next_level(1)] by blast
    have step: "unsat_levels env ps m (Suc d) a k = (if qs_quantifiers p ! k = Forall
        then map_option (\<lambda>hss. \<Union> (set hss)) (those (map (\<lambda>a'. unsat_levels env ps m d a' (Suc k)) asgns))
        else intersect_while (\<lambda>a'. unsat_levels env ps m d a' (Suc k)) asgns None)"
      using False asgns by (simp add: set_goodD [OF ps] position_count_def)
    show ?thesis
    proof (cases "qs_quantifiers p ! k = Forall")
      case True
      have "those (map (\<lambda>a'. unsat_levels env ps m d a' (Suc k)) asgns) = Some (map (?bad (Suc k)) asgns)"
        by (rule those_map_SomeI) (use each in blast)
      moreover have "\<Union> (set (map (?bad (Suc k)) asgns)) = ?bad k a"
        unfolding next_level(2) set_map if_P [OF True] by blast
      ultimately show ?thesis unfolding step using True by simp
    next
      case False
      have "intersect_while (\<lambda>a'. unsat_levels env ps m d a' (Suc k)) asgns None = Some (\<Inter>a'\<in>set asgns. ?bad (Suc k) a')"
        by (rule intersect_while_None [OF next_level(3) each])
      moreover have "(\<Inter>a'\<in>set asgns. ?bad (Suc k) a') = ?bad k a"
        unfolding next_level(2) if_not_P [OF False] using common_numbers [OF set_goodD(5) [OF ps], of "set asgns"] next_level(3) by simp
      ultimately show ?thesis unfolding step using False by simp
    qed
  qed
qed

text \<open>The numbers of the lemmas whose terms are false in the model.\<close>

lemma sat_at_term:
  assumes fits: "model_fits p m" "atoms_fit p ra" and b: "bokay b"
  shows "\<exists>t. lq_base_to_term lq b = Some t
    \<and> (holds (model_trace m) 0 Map.empty (prefix_quantify p t) \<longleftrightarrow> sat_at p (model_trace m) 0 Map.empty b)"
proof -
  have ok: "qs_okay p" "model_ok m" "m_signature m = qs_signature p" using fits by (simp_all add: atoms_fit_def model_fits_def)
  obtain t where t: "lq_base_to_term lq b = Some t" "quantifier_free t"
    "\<And>tr a. trace_ok (qs_signature p) tr \<Longrightarrow> assign_ok tr (prefix_ctx p (qs_len p)) a \<Longrightarrow> holds tr 0 a t \<longleftrightarrow> true (atoms_at ra tr a) b"
    using body_term [OF b fits(2)] by blast
  have "0 < tr_card (model_trace m) (Uninterpreted (sig_sorts (qs_signature p) ! s))" if "s \<in> set (qs_sorts p)" for s
  proof -
    from that obtain k where "k < qs_len p" "s = qs_sorts p ! k" using ok(1) by (auto simp: in_set_conv_nth qs_okay_def)
    with position_card [OF fits(1) ok(1), of k] show ?thesis by (simp add: position_sort_def)
  qed
  from prefix_quantify_holds [OF ok(1) this t(2)]
  have "holds (model_trace m) 0 Map.empty (prefix_quantify p t)
      \<longleftrightarrow> holds_prefix (drop 0 (prefix_positions (model_trace m) p)) (\<lambda>a. holds (model_trace m) 0 a t) Map.empty" by simp
  also have "\<dots> \<longleftrightarrow> sat_at p (model_trace m) 0 Map.empty b"
    unfolding sat_at_def
    by (rule holds_prefix_cong [OF ok(1), where d = "qs_len p"]) (use t(3) model_trace_ok [OF ok(2)] ok(3) in auto)
  finally show ?thesis using t(1) by blast
qed

end

definition violated_ids :: "('o, 'b, 'm) weaken_env \<Rightarrow> ('o, 'b, 'm) prefix_set \<Rightarrow> model \<Rightarrow> nat set" where
  "violated_ids env ps m = {i. \<exists>x t. (i, x) \<in> set (ps_by_id ps)
     \<and> lq_base_to_term (ps_lemma_qf ps) (os_to_base (we_order env) x) = Some t
     \<and> \<not> holds (model_trace m) 0 Map.empty (prefix_quantify (ps_prefix ps) t)}"

context lemma_domain begin

lemma unsat_spec:
  assumes ps: "set_good p ps" and it: "itertools_doc (we_it env)" and fits: "model_fits p m" "atoms_fit p ra"
  shows "ps_unsat env ps m Map.empty 0 = Some (violated_ids env ps m)"
    and "ps_unsat env ps m Map.empty 0 = Some {i. \<exists>x. (i, x) \<in> set (ps_by_id ps) \<and> \<not> sat_at p (model_trace m) 0 Map.empty (body_of x)}"
proof -
  show unsat: "ps_unsat env ps m Map.empty 0 = Some {i. \<exists>x. (i, x) \<in> set (ps_by_id ps) \<and> \<not> sat_at p (model_trace m) 0 Map.empty (body_of x)}"
    unfolding ps_unsat_def set_goodD(1) [OF ps] by (rule unsat_levels_spec [OF ps it fits]) simp_all
  have "(\<exists>t. lq_base_to_term lq (body_of x) = Some t \<and> \<not> holds (model_trace m) 0 Map.empty (prefix_quantify p t))
      \<longleftrightarrow> \<not> sat_at p (model_trace m) 0 Map.empty (body_of x)" if "(i, x) \<in> set (ps_by_id ps)" for i x
    using sat_at_term [OF fits set_good_body(2) [OF ps that]] by auto
  then show "ps_unsat env ps m Map.empty 0 = Some (violated_ids env ps m)"
    unfolding unsat violated_ids_def set_goodD(1,2) [OF ps] body_of_def [symmetric] by (intro arg_cong [of _ _ Some]) blast
qed

text \<open>The operations on sets keep them good.\<close>

definition bodies :: "('o, 'b, 'm) prefix_set \<Rightarrow> 'o set" where
  "bodies ps = snd ` set (ps_by_id ps)"

lemma member_bodies: "set_good p ps \<Longrightarrow> x \<in> bodies ps \<longleftrightarrow> (\<exists>i. entries (ps_bodies ps) x = Some i)"
  using set_goodD(6) [of p ps x] by (force simp: bodies_def)

lemma bodies_okay: "\<lbrakk> set_good p ps; x \<in> bodies ps \<rbrakk> \<Longrightarrow> okay x \<and> bokay (body_of x)"
  using set_good_body by (auto simp: bodies_def)

lemma set_good_unique: "\<lbrakk> set_good p ps; (i, x) \<in> set (ps_by_id ps); (j, x) \<in> set (ps_by_id ps) \<rbrakk> \<Longrightarrow> i = j"
  using set_goodD(6) by (metis option.inject)

lemma new_set: "set_good p (ps_new env p lq ra)" "bodies (ps_new env p lq ra) = {}"
  by (simp_all add: set_good_def ps_new_def new_map bodies_def)

lemma clone_empty_set: "set_good p ps \<Longrightarrow> set_good p (ps_clone_empty env ps) \<and> bodies (ps_clone_empty env ps) = {}"
  by (simp add: ps_clone_empty_def set_goodD new_set)

lemma is_empty_set: "ps_is_empty ps \<longleftrightarrow> bodies ps = {}"
  by (simp add: ps_is_empty_def bodies_def)

lemma insert_set:
  assumes ps: "set_good p ps" and x: "okay x" "bokay (body_of x)" "x \<notin> bodies ps"
  shows "\<exists>ps'. ps_insert env x ps = Some ps' \<and> set_good p ps' \<and> bodies ps' = Set.insert x (bodies ps)"
proof -
  note good = set_goodD(4) [OF ps]
  have none: "entries (ps_bodies ps) x = None" using member_bodies [OF ps] x(3) by (metis option.exhaust)
  obtain bs where bs: "sm_insert (we_map env) x (ps_next ps) (ps_bodies ps) = Some bs" "good bs"
    "entries bs = (entries (ps_bodies ps))(x \<mapsto> ps_next ps)"
    using insert_map [OF good x(1) none] by blast
  have less: "i < ps_next ps" if "(i, y) \<in> set (ps_by_id ps)" for i y using set_good_body(1) [OF ps that] .
  then have fresh: "ps_next ps \<notin> fst ` set (ps_by_id ps)" by force
  let ?l = "ps_by_id ps @ [(ps_next ps, x)]"
  let ?ps = "ps\<lparr>ps_by_id := ?l, ps_bodies := bs, ps_next := ps_next ps + 1\<rparr>"
  have "set_good p ?ps"
    unfolding set_good_def
  proof (intro conjI allI ballI)
    show "entries (ps_bodies ?ps) y = Some i \<longleftrightarrow> (i, y) \<in> set (ps_by_id ?ps)" for y i
      using set_goodD(6) [OF ps, of y i] set_goodD(6) [OF ps, of x] none by (auto simp: bs(3))
    show "distinct (map fst (ps_by_id ?ps))" using set_goodD(5) [OF ps] fresh by simp
    show "i < ps_next ?ps" if "i \<in> set (map fst (ps_by_id ?ps))" for i
      using that less by (auto intro: less_SucI)
    show "bokay (body_of y)" if "y \<in> snd ` set (ps_by_id ?ps)" for y using that x(2) set_good_body(2) [OF ps] by auto
  qed (simp_all add: set_goodD [OF ps] bs(2))
  moreover have "ps_insert env x ps = Some ?ps" by (simp add: ps_insert_def bs(1) update_fresh [OF fresh])
  ultimately show ?thesis by (auto simp: bodies_def)
qed

lemma removed_set:
  assumes ps: "set_good p ps" and mem: "(i, x) \<in> set (ps_by_id ps)"
  shows "\<exists>bs. sm_remove (we_map env) x (ps_bodies ps) = Some (i, bs)
    \<and> set_good p (ps\<lparr>ps_by_id := AList.delete i (ps_by_id ps), ps_bodies := bs\<rparr>)
    \<and> bodies (ps\<lparr>ps_by_id := AList.delete i (ps_by_id ps), ps_bodies := bs\<rparr>) = bodies ps - {x}"
proof -
  have ent: "entries (ps_bodies ps) x = Some i" using set_goodD(6) [OF ps] mem by blast
  obtain bs where bs: "sm_remove (we_map env) x (ps_bodies ps) = Some (i, bs)" "good bs" "entries bs = (entries (ps_bodies ps))(x := None)"
    using remove_map [OF set_goodD(4) [OF ps] set_good_body(3) [OF ps mem] ent] by blast
  let ?ps = "ps\<lparr>ps_by_id := AList.delete i (ps_by_id ps), ps_bodies := bs\<rparr>"
  have l: "set (AList.delete i (ps_by_id ps)) = {(j, y) \<in> set (ps_by_id ps). j \<noteq> i}" by (rule set_delete)
  have key: "x = y" if "(i, y) \<in> set (ps_by_id ps)" for y using set_goodD(5) [OF ps] mem that by (rule eq_key_imp_eq_value)
  have iff: "(j, y) \<in> set (AList.delete i (ps_by_id ps)) \<longleftrightarrow> (j, y) \<in> set (ps_by_id ps) \<and> y \<noteq> x" for j y
    unfolding l using key set_good_unique [OF ps mem] by blast
  have "set_good p ?ps"
    unfolding set_good_def
  proof (intro conjI allI ballI)
    show "entries (ps_bodies ?ps) y = Some j \<longleftrightarrow> (j, y) \<in> set (ps_by_id ?ps)" for y j
      using set_goodD(6) [OF ps, of y j] iff by (simp add: bs(3))
    show "distinct (map fst (ps_by_id ?ps))" using distinct_delete [OF set_goodD(5) [OF ps]] by simp
    show "j < ps_next ?ps" if "j \<in> set (map fst (ps_by_id ?ps))" for j
      using that set_good_body(1) [OF ps] iff by auto
    show "bokay (body_of y)" if "y \<in> snd ` set (ps_by_id ?ps)" for y using that set_good_body(2) [OF ps] iff by auto
  qed (simp_all add: set_goodD [OF ps] bs(2))
  moreover have "bodies ?ps = bodies ps - {x}" using iff by (force simp: bodies_def)
  ultimately show ?thesis using bs(1) by blast
qed

lemma remove_set:
  assumes ps: "set_good p ps" and x: "x \<in> bodies ps"
  shows "\<exists>ps'. ps_remove env x ps = Some ps' \<and> set_good p ps' \<and> bodies ps' = bodies ps - {x}"
proof -
  obtain i where i: "(i, x) \<in> set (ps_by_id ps)" using x by (auto simp: bodies_def)
  have key: "map_of (ps_by_id ps) i = Some x" using set_goodD(5) [OF ps] i by simp
  obtain bs where bs: "sm_remove (we_map env) x (ps_bodies ps) = Some (i, bs)"
    "set_good p (ps\<lparr>ps_by_id := AList.delete i (ps_by_id ps), ps_bodies := bs\<rparr>)"
    "bodies (ps\<lparr>ps_by_id := AList.delete i (ps_by_id ps), ps_bodies := bs\<rparr>) = bodies ps - {x}"
    using removed_set [OF ps i] by blast
  have "ps_remove env x ps = Some (ps\<lparr>ps_by_id := AList.delete i (ps_by_id ps), ps_bodies := bs\<rparr>)"
    using bs(1) key by (simp add: ps_remove_def)
  with bs(2,3) show ?thesis by blast
qed

lemma remove_by_id_set:
  assumes ps: "set_good p ps" and i: "(i, x) \<in> set (ps_by_id ps)"
  shows "\<exists>ps'. ps_remove_by_id env i ps = Some (x, ps') \<and> set_good p ps' \<and> bodies ps' = bodies ps - {x}
    \<and> set (ps_by_id ps') = set (ps_by_id ps) - {(i, x)}"
proof -
  have key: "map_of (ps_by_id ps) i = Some x" using set_goodD(5) [OF ps] i by simp
  have "set (AList.delete i (ps_by_id ps)) = set (ps_by_id ps) - {(i, x)}"
    unfolding set_delete using eq_key_imp_eq_value [OF set_goodD(5) [OF ps] i] by auto
  then show ?thesis using removed_set [OF ps i] key by (auto simp: ps_remove_by_id_def)
qed

end

section \<open>The three domains\<close>

lemma literal_term_spec:
  assumes fit: "atoms_fit p ra" and l: "fst l \<in> set (ra_allowed ra)"
  shows "\<exists>t. literal_term ra l = Some t \<and> quantifier_free t
    \<and> (\<forall>tr a. trace_ok (qs_signature p) tr \<longrightarrow> assign_ok tr (prefix_ctx p (qs_len p)) a \<longrightarrow> (holds tr 0 a t \<longleftrightarrow> lit_true (atoms_at ra tr a) l))"
proof -
  let ?t = "at_terms (ra_atoms ra) ! fst l"
  have t: "fst l < length (at_terms (ra_atoms ra))" "quantifier_free ?t" "term_sort (qs_signature p) (prefix_ctx p (qs_len p)) ?t = Some Bool"
    using fit l by (auto simp: atoms_fit_def atoms_okay_def list_all_iff)
  have "holds tr 0 a (if snd l then ?t else term_negate ?t) \<longleftrightarrow> lit_true (atoms_at ra tr a) l"
    if "trace_ok (qs_signature p) tr" "assign_ok tr (prefix_ctx p (qs_len p)) a" for tr a
    using teval_bool01 [OF that t(3), of 0] by (auto simp: term_negate_def)
  moreover have "literal_term ra l = Some (if snd l then ?t else term_negate ?t)"
    using l t(1) by (simp add: literal_term_def atom_term_def)
  ultimately show ?thesis using t(2) by (simp add: term_negate_def)
qed

lemma quantifier_free_flatten: "list_all quantifier_free ts \<Longrightarrow> list_all quantifier_free (flatten_terms_of_op ts op)"
  by (induction ts) (auto simp: flatten_terms_of_op_def split: fterm.splits)

lemma quantifier_free_built: "list_all quantifier_free ts \<Longrightarrow> quantifier_free (term_and ts) \<and> quantifier_free (term_or ts)"
  using quantifier_free_flatten by (auto simp: term_and_def term_or_def term_true_def term_false_def list_all_iff)

text \<open>The terms of a list of things, each with a meaning.\<close>

definition means :: "quant_prefix \<Rightarrow> ((fo_trace \<Rightarrow> assignment \<Rightarrow> bool) \<Rightarrow> fterm option \<Rightarrow> bool)" where
  "means p P r \<longleftrightarrow> (\<exists>t. r = Some t \<and> quantifier_free t
     \<and> (\<forall>tr a. trace_ok (qs_signature p) tr \<longrightarrow> assign_ok tr (prefix_ctx p (qs_len p)) a \<longrightarrow> (holds tr 0 a t \<longleftrightarrow> P tr a)))"

lemma means_list:
  assumes "\<And>x. x \<in> set xs \<Longrightarrow> means p (P x) (f x)"
  shows "\<exists>ts. those (map f xs) = Some ts \<and> list_all quantifier_free ts
    \<and> (\<forall>tr a. trace_ok (qs_signature p) tr \<longrightarrow> assign_ok tr (prefix_ctx p (qs_len p)) a
         \<longrightarrow> ((\<exists>t\<in>set ts. holds tr 0 a t) \<longleftrightarrow> (\<exists>x\<in>set xs. P x tr a)) \<and> ((\<forall>t\<in>set ts. holds tr 0 a t) \<longleftrightarrow> (\<forall>x\<in>set xs. P x tr a)))"
  using assms
proof (induction xs)
  case (Cons x xs)
  obtain t where t: "f x = Some t" "quantifier_free t"
    "\<And>tr a. trace_ok (qs_signature p) tr \<Longrightarrow> assign_ok tr (prefix_ctx p (qs_len p)) a \<Longrightarrow> holds tr 0 a t \<longleftrightarrow> P x tr a"
    using Cons.prems [of x] by (auto simp: means_def)
  obtain ts where ts: "those (map f xs) = Some ts" "list_all quantifier_free ts"
    "\<And>tr a. trace_ok (qs_signature p) tr \<Longrightarrow> assign_ok tr (prefix_ctx p (qs_len p)) a
       \<Longrightarrow> ((\<exists>t\<in>set ts. holds tr 0 a t) \<longleftrightarrow> (\<exists>x\<in>set xs. P x tr a)) \<and> ((\<forall>t\<in>set ts. holds tr 0 a t) \<longleftrightarrow> (\<forall>x\<in>set xs. P x tr a))"
    using Cons.IH Cons.prems by auto
  show ?case using t ts by (intro exI [of _ "t # ts"]) simp
qed simp

lemma means_or:
  assumes "\<And>x. x \<in> set xs \<Longrightarrow> means p (P x) (f x)"
  shows "means p (\<lambda>tr a. \<exists>x\<in>set xs. P x tr a) (map_option term_or (those (map f xs)))"
proof -
  from means_list [of xs p P f, OF assms] obtain ts where ts: "those (map f xs) = Some ts" "list_all quantifier_free ts"
    "\<And>tr a. trace_ok (qs_signature p) tr \<Longrightarrow> assign_ok tr (prefix_ctx p (qs_len p)) a \<Longrightarrow> (\<exists>t\<in>set ts. holds tr 0 a t) \<longleftrightarrow> (\<exists>x\<in>set xs. P x tr a)"
    by blast
  show ?thesis
    unfolding means_def
  proof (intro exI [of _ "term_or ts"] conjI allI impI)
    show "holds tr 0 a (term_or ts) \<longleftrightarrow> (\<exists>x\<in>set xs. P x tr a)"
      if "trace_ok (qs_signature p) tr" "assign_ok tr (prefix_ctx p (qs_len p)) a" for tr a
      unfolding holds_term_or by (rule ts(3) [OF that])
  qed (use ts(1,2) quantifier_free_built in auto)
qed

lemma means_and:
  assumes "\<And>x. x \<in> set xs \<Longrightarrow> means p (P x) (f x)"
  shows "means p (\<lambda>tr a. \<forall>x\<in>set xs. P x tr a) (map_option term_and (those (map f xs)))"
proof -
  from means_list [of xs p P f, OF assms] obtain ts where ts: "those (map f xs) = Some ts" "list_all quantifier_free ts"
    "\<And>tr a. trace_ok (qs_signature p) tr \<Longrightarrow> assign_ok tr (prefix_ctx p (qs_len p)) a \<Longrightarrow> (\<forall>t\<in>set ts. holds tr 0 a t) \<longleftrightarrow> (\<forall>x\<in>set xs. P x tr a)"
    by blast
  show ?thesis
    unfolding means_def
  proof (intro exI [of _ "term_and ts"] conjI allI impI)
    show "holds tr 0 a (term_and ts) \<longleftrightarrow> (\<forall>x\<in>set xs. P x tr a)"
      if "trace_ok (qs_signature p) tr" "assign_ok tr (prefix_ctx p (qs_len p)) a" for tr a
      unfolding holds_term_and by (rule ts(3) [OF that])
  qed (use ts(1,2) quantifier_free_built in auto)
qed

lemma means_literal:
  assumes "atoms_fit p ra" and "fst l \<in> set (ra_allowed ra)"
  shows "means p (\<lambda>tr a. lit_true (atoms_at ra tr a) l) (literal_term ra l)"
  unfolding means_def by (rule literal_term_spec [OF assms])

lemma means_clause: "\<lbrakk> atoms_fit p ra; over_atoms ra ls \<rbrakk>
    \<Longrightarrow> means p (\<lambda>tr a. \<exists>l\<in>set ls. lit_true (atoms_at ra tr a) l) (map_option term_or (those (map (literal_term ra) ls)))"
  by (rule means_or, rule means_literal) (simp_all add: over_atoms_def list_all_iff)

lemma means_cube: "\<lbrakk> atoms_fit p ra; over_atoms ra ls \<rbrakk>
    \<Longrightarrow> means p (\<lambda>tr a. \<forall>l\<in>set ls. lit_true (atoms_at ra tr a) l) (map_option term_and (those (map (literal_term ra) ls)))"
  by (rule means_and, rule means_literal) (simp_all add: over_atoms_def list_all_iff)

lemma means_cnf: "\<lbrakk> atoms_fit p ra; list_all (over_atoms ra) b \<rbrakk>
    \<Longrightarrow> means p (\<lambda>tr a. base_cnf_true (atoms_at ra tr a) b) (cnf_base_to_term ra b)"
  unfolding base_cnf_true_def cnf_base_to_term_def
  by (rule means_and, rule means_clause) (simp_all add: list_all_iff)

lemma means_dnf: "\<lbrakk> atoms_fit p ra; list_all (over_atoms ra) b \<rbrakk>
    \<Longrightarrow> means p (\<lambda>tr a. base_dnf_true (atoms_at ra tr a) b) (dnf_base_to_term ra b)"
  unfolding base_dnf_true_def dnf_base_to_term_def
  by (rule means_or, rule means_cube) (simp_all add: list_all_iff)

text \<open>The literals that are false in a state.\<close>

lemma false_literals:
  assumes "over_atoms ra ls"
  shows "set ls \<subseteq> set (map (\<lambda>n. (n, \<not> v n)) (ra_allowed ra)) \<longleftrightarrow> (\<forall>l\<in>set ls. \<not> lit_true v l)"
    and "(\<exists>d\<in>set (map (\<lambda>lit. [lit]) (map (\<lambda>n. (n, \<not> v n)) (ra_allowed ra))). set d \<subseteq> set ls) \<longleftrightarrow> \<not> (\<forall>l\<in>set ls. lit_true v l)"
proof -
  have mem: "l \<in> set (map (\<lambda>n. (n, \<not> v n)) (ra_allowed ra)) \<longleftrightarrow> \<not> lit_true v l" if "l \<in> set ls" for l
    using over_atoms_member [OF assms that] by (cases l) auto
  then show "set ls \<subseteq> set (map (\<lambda>n. (n, \<not> v n)) (ra_allowed ra)) \<longleftrightarrow> (\<forall>l\<in>set ls. \<not> lit_true v l)" by blast
  have "(\<exists>d\<in>set (map (\<lambda>lit. [lit]) (map (\<lambda>n. (n, \<not> v n)) (ra_allowed ra))). set d \<subseteq> set ls)
      \<longleftrightarrow> (\<exists>l\<in>set (map (\<lambda>n. (n, \<not> v n)) (ra_allowed ra)). l \<in> set ls)" by simp
  then show "(\<exists>d\<in>set (map (\<lambda>lit. [lit]) (map (\<lambda>n. (n, \<not> v n)) (ra_allowed ra))). set d \<subseteq> set ls) \<longleftrightarrow> \<not> (\<forall>l\<in>set ls. lit_true v l)"
    using mem by blast
qed

type_synonym cnf_body = "atom_literal or_like and_like"
type_synonym dnf_body = "atom_literal and_like or_like"
type_synonym pdnf_body = "(atom_literal or_like, dnf_body) pair_like"

definition cnf_env :: "quant_iters \<Rightarrow> itertools \<Rightarrow> (cnf_body list \<Rightarrow> cnf_body list) \<Rightarrow> (nat set \<Rightarrow> nat list)
  \<Rightarrow> (cnf_body, atom_literal list list, (atom_literal or_like, nat) and_map) weaken_env" where
  "cnf_env qi it bo no = \<lparr>we_order = cnf_order, we_map = and_map_ops clause_order std_lib, we_iters = qi, we_it = it, we_bodies = bo, we_numbers = no\<rparr>"

interpretation cnf_sets: lemma_domain "cnf_env qi it bo no" cnf_okay "and_good clause_order (or_okay literal_order (\<lambda>_. True))" and_entries
    "cnf_lemma_qf li lc" "lc_atoms lc" base_cnf_true "list_all (over_atoms (lc_atoms lc))" for qi it bo no li lc
proof (rule lemma_domain.intro, unfold cnf_env_def weaken_env.simps, rule cnf_map.subsumption_map_axioms, rule lemma_domain_axioms.intro, unfold weaken_env.simps)
  show "os_subsumes cnf_order x (os_from_base cnf_order (lq_base_from_clause (cnf_lemma_qf li lc) (map (\<lambda>n. (n, \<not> v n)) (ra_allowed (lc_atoms lc)))))
      \<longleftrightarrow> \<not> base_cnf_true v (os_to_base cnf_order x)"
    if x: "cnf_okay x" "list_all (over_atoms (lc_atoms lc)) (os_to_base cnf_order x)" for x v
    using cnf_subsumes [of "os_to_base cnf_order x" "[map (\<lambda>n. (n, \<not> v n)) (ra_allowed (lc_atoms lc))]"]
      cnf.from_to_base [OF x(1)] false_literals(1) x(2)
    by (simp add: cnf_lemma_qf_def base_cnf_true_def list_all_iff)
qed (use means_cnf in \<open>simp add: means_def cnf_lemma_qf_def\<close>)

definition naive_env :: "quant_iters \<Rightarrow> itertools \<Rightarrow> (dnf_body list \<Rightarrow> dnf_body list) \<Rightarrow> (nat set \<Rightarrow> nat list)
  \<Rightarrow> (dnf_body, atom_literal list list, (atom_literal and_like reversed, nat) and_map) weaken_env" where
  "naive_env qi it bo no = \<lparr>we_order = dnf_order, we_map = or_map_ops cube_order std_lib, we_iters = qi, we_it = it, we_bodies = bo, we_numbers = no\<rparr>"

interpretation naive_sets: lemma_domain "naive_env qi it bo no" dnf_okay
    "and_good (reversed_order cube_order) (reversed_okay (and_okay literal_order (\<lambda>_. True)))" "rev_entries and_entries"
    "naive_lemma_qf li ln" "ln_atoms ln" base_dnf_true "list_all (over_atoms (ln_atoms ln))" for qi it bo no li ln
proof (rule lemma_domain.intro, unfold naive_env_def weaken_env.simps, rule dnf_map.subsumption_map_axioms, rule lemma_domain_axioms.intro, unfold weaken_env.simps)
  show "os_subsumes dnf_order x (os_from_base dnf_order (lq_base_from_clause (naive_lemma_qf li ln) (map (\<lambda>n. (n, \<not> v n)) (ra_allowed (ln_atoms ln)))))
      \<longleftrightarrow> \<not> base_dnf_true v (os_to_base dnf_order x)"
    if x: "dnf_okay x" "list_all (over_atoms (ln_atoms ln)) (os_to_base dnf_order x)" for x v
  proof -
    let ?units = "map (\<lambda>lit. [lit]) (map (\<lambda>n. (n, \<not> v n)) (ra_allowed (ln_atoms ln)))"
    have "os_subsumes dnf_order x (os_from_base dnf_order ?units)
        \<longleftrightarrow> (\<forall>c\<in>set (os_to_base dnf_order x). \<exists>d\<in>set ?units. set d \<subseteq> set c)"
      using dnf_subsumes [of "os_to_base dnf_order x" ?units] dnf.from_to_base [OF x(1)] by simp
    also have "\<dots> \<longleftrightarrow> (\<forall>c\<in>set (os_to_base dnf_order x). \<not> (\<forall>l\<in>set c. lit_true v l))"
      using false_literals(2) [of "ln_atoms ln" _ v] x(2) unfolding list_all_iff by (intro ball_cong) auto
    finally show ?thesis by (simp add: naive_lemma_qf_def base_dnf_true_def)
  qed
qed (use means_dnf in \<open>simp add: means_def naive_lemma_qf_def\<close>)

abbreviation over_pdnf :: "restricted_atoms \<Rightarrow> pdnf_base \<Rightarrow> bool" where
  "over_pdnf ra b \<equiv> over_atoms ra (fst b) \<and> list_all (over_atoms ra) (snd b)"

lemma those_append: "those (xs @ ys) = (case those xs of None \<Rightarrow> None | Some zs \<Rightarrow> map_option ((@) zs) (those ys))"
proof (induction xs)
  case (Cons x xs)
  then show ?case by (cases x; cases "those xs"; cases "those ys") simp_all
qed (cases "those ys"; simp)

lemma means_pdnf:
  assumes fit: "atoms_fit p ra" and over: "over_pdnf ra b"
  shows "means p (\<lambda>tr a. base_pdnf_true (atoms_at ra tr a) b) (pdnf_base_to_term ra b)"
proof -
  let ?f = "\<lambda>x. case x of Inl l \<Rightarrow> literal_term ra l | Inr cb \<Rightarrow> map_option term_and (those (map (literal_term ra) cb))"
  let ?P = "\<lambda>x tr a. case x of Inl l \<Rightarrow> lit_true (atoms_at ra tr a) l | Inr cb \<Rightarrow> \<forall>l\<in>set cb. lit_true (atoms_at ra tr a) l"
  let ?xs = "map Inl (fst b) @ map Inr (snd b)"
  have "means p (?P x) (?f x)" if "x \<in> set ?xs" for x
    using that over means_literal [OF fit] means_cube [OF fit] by (auto simp: over_atoms_def list_all_iff)
  then have "means p (\<lambda>tr a. \<exists>x\<in>set ?xs. ?P x tr a) (map_option term_or (those (map ?f ?xs)))" by (rule means_or)
  moreover have "(\<exists>x\<in>set ?xs. ?P x tr a) \<longleftrightarrow> base_pdnf_true (atoms_at ra tr a) b" for tr a
    unfolding base_pdnf_true_def base_dnf_true_def by (simp add: bex_Un)
  moreover have "those (map ?f ?xs) = (case those (map (literal_term ra) (fst b)) of None \<Rightarrow> None | Some units \<Rightarrow>
      map_option ((@) units) (those (map (\<lambda>cb. map_option term_and (those (map (literal_term ra) cb))) (snd b))))"
    by (simp add: those_append comp_def)
  ultimately show ?thesis by (simp add: pdnf_base_to_term_def option.map_comp comp_def split: option.splits)
qed

definition pdnf_env :: "quant_iters \<Rightarrow> itertools \<Rightarrow> (pdnf_body list \<Rightarrow> pdnf_body list) \<Rightarrow> (nat set \<Rightarrow> nat list) \<Rightarrow> (pdnf_body, pdnf_base,
    (atom_literal reversed, (atom_literal and_like reversed, nat) and_map) and_map) weaken_env" where
  "pdnf_env qi it bo no = \<lparr>we_order = pdnf_order, we_map = pair_map_ops (or_map_ops literal_order std_lib) (or_map_ops cube_order std_lib),
     we_iters = qi, we_it = it, we_bodies = bo, we_numbers = no\<rparr>"

interpretation pdnf_sets: lemma_domain "pdnf_env qi it bo no" "pair_okay (or_okay literal_order (\<lambda>_. True)) dnf_okay"
    "pair_good (and_good (reversed_order literal_order) (reversed_okay (\<lambda>_. True))) (rev_entries and_entries)
       (and_good (reversed_order cube_order) (reversed_okay (and_okay literal_order (\<lambda>_. True)))) (rev_entries and_entries)"
    "pair_entries (rev_entries and_entries) (rev_entries and_entries)"
    "pdnf_lemma_qf li lp" "lp_atoms lp" base_pdnf_true "over_pdnf (lp_atoms lp)" for qi it bo no li lp
proof (rule lemma_domain.intro, unfold pdnf_env_def weaken_env.simps, rule pdnf_map.subsumption_map_axioms, rule lemma_domain_axioms.intro, unfold weaken_env.simps)
  show "os_subsumes pdnf_order x (os_from_base pdnf_order (lq_base_from_clause (pdnf_lemma_qf li lp) (map (\<lambda>n. (n, \<not> v n)) (ra_allowed (lp_atoms lp)))))
      \<longleftrightarrow> \<not> base_pdnf_true v (os_to_base pdnf_order x)"
    if x: "pair_okay (or_okay literal_order (\<lambda>_. True)) dnf_okay x" "over_pdnf (lp_atoms lp) (os_to_base pdnf_order x)" for x v
  proof -
    let ?negs = "map (\<lambda>n. (n, \<not> v n)) (ra_allowed (lp_atoms lp))"
    let ?units = "map (\<lambda>lit. [lit]) ?negs"
    obtain as cs where b: "os_to_base pdnf_order x = (as, cs)" by (cases "os_to_base pdnf_order x") auto
    have "os_subsumes pdnf_order (os_from_base pdnf_order (as, cs)) (os_from_base pdnf_order (?negs, ?units))
        \<longleftrightarrow> set as \<subseteq> set ?negs \<and> (\<forall>c\<in>set cs. \<exists>d\<in>set ?units. set d \<subseteq> set c)"
      by (simp only: pdnf_order_def pair_order_def clause_subsumes dnf_subsumes order_ops.simps pair_like.sel fst_conv snd_conv)
    also have "(\<forall>c\<in>set cs. \<exists>d\<in>set ?units. set d \<subseteq> set c) \<longleftrightarrow> (\<forall>c\<in>set cs. \<not> (\<forall>l\<in>set c. lit_true v l))"
      using false_literals(2) [of "lp_atoms lp" _ v] x(2) unfolding b list_all_iff by (intro ball_cong) auto
    also have "set as \<subseteq> set ?negs \<longleftrightarrow> (\<forall>l\<in>set as. \<not> lit_true v l)"
      by (rule false_literals(1)) (use x(2) in \<open>simp add: b\<close>)
    finally show ?thesis
      using pdnf.from_to_base [OF x(1)] by (simp add: b pdnf_lemma_qf_def base_pdnf_true_def base_dnf_true_def)
  qed
qed (use means_pdnf in \<open>simp add: means_def pdnf_lemma_qf_def\<close>)

end
