(* ===== verification/Inference_Weaken_Sound.thy ===== *)
theory Inference_Weaken_Sound
  imports Inference_Unsat
begin

text \<open>
  What weakening a set of lemmas with one prefix does (\<^verbatim>\<open>PrefixLemmaSet::weaken\<close> of
  \<^verbatim>\<open>inference/src/weaken.rs\<close>): when it returns, no lemma of the set is false in the model any more, and every
  lemma of the set is implied by one that was there before, in each of the three domains.
\<close>

section \<open>What is used of the bodies and of the orders of hash sets\<close>

definition weaken_law :: "((nat \<Rightarrow> bool) \<Rightarrow> 'b \<Rightarrow> bool) \<Rightarrow> ('b \<Rightarrow> bool) \<Rightarrow> 'b lemma_qf \<Rightarrow> restricted_atoms \<Rightarrow> bool" where
  "weaken_law true bokay lq ra \<longleftrightarrow> (\<forall>b cube ignore bs. bokay b \<longrightarrow> map fst cube = ra_allowed ra
     \<longrightarrow> lq_weaken lq b cube ignore = Some bs \<longrightarrow> list_all (weakens_to true bokay b cube) bs)"

definition base_law :: "((nat \<Rightarrow> bool) \<Rightarrow> 'b \<Rightarrow> bool) \<Rightarrow> ('b \<Rightarrow> bool) \<Rightarrow> ('o, 'b) order_ops \<Rightarrow> bool" where
  "base_law true bokay os \<longleftrightarrow> (\<forall>b. bokay b \<longrightarrow> bokay (os_to_base os (os_from_base os b))
     \<and> (\<forall>v. true v (os_to_base os (os_from_base os b)) = true v b))"

definition weaken_orders_doc :: "('o, 'b, 'm) weaken_env \<Rightarrow> bool" where
  "weaken_orders_doc env \<longleftrightarrow> (\<forall>xs. set (we_bodies env xs) = set xs) \<and> (\<forall>S. finite S \<longrightarrow> set (we_numbers env S) = S)"

lemma holds_prefix_mono: "(\<And>a. P a \<Longrightarrow> Q a) \<Longrightarrow> holds_prefix ps P a \<Longrightarrow> holds_prefix ps Q a"
proof (induction ps arbitrary: a)
  case (Cons pos ps)
  obtain q c names where pos: "pos = (q, c, names)" by (cases pos)
  show ?case using Cons unfolding pos by (cases q) auto
qed simp

lemma bind_SomeE:
  assumes "Option.bind x f = Some y"
  obtains z where "x = Some z" "f z = Some y"
  using assms by (cases x) auto

lemma filter_p_subset: "filter_p f xs = Some ys \<Longrightarrow> set ys \<subseteq> set xs"
  using filter_p_SomeD [of f xs ys "\<lambda>x. the (f x)"] by auto

section \<open>The operations on sets\<close>

context lemma_domain begin

definition weaker :: "'o \<Rightarrow> 'o \<Rightarrow> bool" where
  "weaker y x \<longleftrightarrow> (\<forall>v. true v (body_of y) \<longrightarrow> true v (body_of x))"

lemma weaker_refl: "weaker x x"
  by (simp add: weaker_def)

lemma weaker_trans: "\<lbrakk> weaker x y; weaker y z \<rbrakk> \<Longrightarrow> weaker x z"
  by (simp add: weaker_def)

lemma weaker_sat: "\<lbrakk> weaker y x; sat_at p tr k a (body_of y) \<rbrakk> \<Longrightarrow> sat_at p tr k a (body_of x)"
  unfolding sat_at_def weaker_def by (rule holds_prefix_mono) auto

text \<open>Sets with bodies among the given ones.\<close>

definition set_within :: "quant_prefix \<Rightarrow> 'o set \<Rightarrow> ('o, 'b, 'm) prefix_set \<Rightarrow> bool" where
  "set_within p B ps \<longleftrightarrow> set_good p ps \<and> bodies ps \<subseteq> B"

lemma set_withinI: "\<lbrakk> set_good p ps; bodies ps \<subseteq> B \<rbrakk> \<Longrightarrow> set_within p B ps"
  by (simp add: set_within_def)

lemma set_withinD: "set_within p B ps \<Longrightarrow> set_good p ps" "set_within p B ps \<Longrightarrow> bodies ps \<subseteq> B"
  by (simp_all add: set_within_def)

lemma set_within_mono: "\<lbrakk> set_within p B ps; B \<subseteq> C \<rbrakk> \<Longrightarrow> set_within p C ps"
  by (auto simp: set_within_def)

definition fine :: "'o \<Rightarrow> bool" where
  "fine x \<longleftrightarrow> okay x \<and> bokay (body_of x)"

lemma bodies_fine: "\<lbrakk> set_good p ps; x \<in> bodies ps \<rbrakk> \<Longrightarrow> fine x"
  by (simp add: fine_def bodies_okay)

lemma clone_within: "set_good p ps \<Longrightarrow> set_within p {} (ps_clone_empty env ps)"
  using clone_empty_set by (simp add: set_within_def)

lemma insert_within:
  assumes ps: "set_within p B ps" and x: "fine x" "x \<in> B" and res: "ps_insert env x ps = Some ps'"
  shows "set_within p B ps'"
proof -
  note good = set_withinD(1) [OF ps]
  have "x \<notin> bodies ps"
  proof
    assume "x \<in> bodies ps"
    then obtain i where "entries (ps_bodies ps) x = Some i" using member_bodies [OF good] by blast
    then have "sm_insert (we_map env) x (ps_next ps) (ps_bodies ps) = None"
      using insert_present [OF set_goodD(4) [OF good]] x(1) by (simp add: fine_def)
    then show False using res by (simp add: ps_insert_def)
  qed
  then have "\<exists>ps'. ps_insert env x ps = Some ps' \<and> set_good p ps' \<and> bodies ps' = Set.insert x (bodies ps)"
    using insert_set [OF good] x(1) by (simp add: fine_def)
  with res have "set_good p ps'" "bodies ps' = Set.insert x (bodies ps)" by auto
  then show ?thesis using ps x(2) by (auto simp: set_within_def)
qed

lemma inserts_within:
  assumes ps: "set_within p B ps" and xs: "\<And>x. x \<in> set xs \<Longrightarrow> fine x \<and> x \<in> B" and res: "fold_p (ps_insert env) xs ps = Some ps'"
  shows "set_within p B ps'"
  using fold_p_invariant [where P = "set_within p B", OF res ps] insert_within xs by blast

lemma remove_within:
  assumes ps: "set_within p B ps" and x: "okay x" and res: "ps_remove env x ps = Some ps'"
  shows "set_within p B ps'"
proof -
  note good = set_withinD(1) [OF ps]
  have "x \<in> bodies ps"
  proof (rule ccontr)
    assume "x \<notin> bodies ps"
    then have "entries (ps_bodies ps) x = None" using member_bodies [OF good] by (metis option.exhaust)
    then have "sm_remove (we_map env) x (ps_bodies ps) = None" by (rule remove_absent [OF set_goodD(4) [OF good] x])
    then show False using res by (simp add: ps_remove_def)
  qed
  from remove_set [OF good this] res have "set_good p ps'" "bodies ps' = bodies ps - {x}" by auto
  then show ?thesis using ps by (auto simp: set_within_def)
qed

lemma removes_within:
  assumes ps: "set_within p B ps" and xs: "\<And>x. x \<in> set xs \<Longrightarrow> okay x" and res: "fold_p (ps_remove env) xs ps = Some ps'"
  shows "set_within p B ps'"
  using fold_p_invariant [where P = "set_within p B", OF res ps] remove_within xs by blast

text \<open>A search only finds bodies of the set.\<close>

lemma get_subsumed_bodies:
  assumes ord: "weaken_orders_doc env" and ps: "set_good p ps" and res: "ps_get_subsumed env x k ps = Some xs"
  shows "set xs \<subseteq> bodies ps"
proof -
  let ?base = "os_to_base (we_order env) x"
  let ?f = "\<lambda>perm. Option.bind (ps_variant env ps ?base perm) (\<lambda>v. sm_get_subsumed (we_map env) v (ps_bodies ps))"
  obtain perms found where found: "those (map ?f perms) = Some found" "xs = we_bodies env (remdups (map fst (concat found)))"
    using res by (auto simp: ps_get_subsumed_def ps_search_def Let_def elim!: bind_SomeE)
  have "y \<in> bodies ps" if "y \<in> fst ` set f" "f \<in> set found" for y f
  proof -
    from found(1) that(2) obtain perm where "?f perm = Some f"
      using those_map_SomeD [OF found(1)] by (auto simp: in_set_conv_nth)
    then obtain v where v: "ps_variant env ps ?base perm = Some v" "sm_get_subsumed (we_map env) v (ps_bodies ps) = Some f"
      by (rule bind_SomeE)
    from v(1) obtain b where "v = os_from_base (we_order env) b" by (auto simp: ps_variant_def split: option.splits)
    then have "okay v" using from_base_wf by simp
    from subsumed_map [OF set_goodD(4) [OF ps] this] v(2) that(1) show ?thesis
      using member_bodies [OF ps] by auto
  qed
  then show ?thesis using ord found(2) by (auto simp: weaken_orders_doc_def)
qed

lemma remove_subsumed_within:
  assumes ord: "weaken_orders_doc env" and ps: "set_within p B ps" and res: "remove_subsumed env k x ps = Some ps'"
  shows "set_within p B ps'"
proof -
  from res obtain xs where xs: "ps_get_subsumed env x k ps = Some xs" "fold_p (ps_remove env) xs ps = Some ps'"
    unfolding remove_subsumed_def by (rule bind_SomeE)
  have "okay y" if "y \<in> set xs" for y
    using get_subsumed_bodies [OF ord set_withinD(1) [OF ps] xs(1)] bodies_okay [OF set_withinD(1) [OF ps]] that by blast
  then show ?thesis by (rule removes_within [OF ps _ xs(2)])
qed

lemma removes_subsumed_within:
  assumes ord: "weaken_orders_doc env" and ps: "set_within p B ps" and res: "fold_p (remove_subsumed env k) xs ps = Some ps'"
  shows "set_within p B ps'"
  using fold_p_invariant [where P = "set_within p B", OF res ps] remove_subsumed_within [OF ord] by blast

lemma insert_minimized_within:
  assumes ord: "weaken_orders_doc env" and ps: "set_within p B ps" and x: "fine x" "x \<in> B"
    and res: "ps_insert_minimized env k x ps = Some ps'"
  shows "set_within p B ps'"
proof (cases "ps_subsumes env x k ps")
  case (Some b)
  show ?thesis
  proof (cases b)
    case False
    with Some res obtain xs where xs: "ps_get_subsumed env x k ps = Some xs"
      "Option.bind (fold_p (ps_remove env) xs ps) (ps_insert env x) = Some ps'"
      by (auto simp: ps_insert_minimized_def elim: bind_SomeE)
    from xs(2) obtain ps1 where ps1: "fold_p (ps_remove env) xs ps = Some ps1" "ps_insert env x ps1 = Some ps'" by (rule bind_SomeE)
    have "remove_subsumed env k x ps = Some ps1" using xs(1) ps1(1) by (simp add: remove_subsumed_def)
    from remove_subsumed_within [OF ord ps this] show ?thesis by (rule insert_within [OF _ x ps1(2)])
  qed (use Some res ps in \<open>simp add: ps_insert_minimized_def\<close>)
qed (use res in \<open>simp add: ps_insert_minimized_def\<close>)

lemma inserts_minimized_within:
  assumes ord: "weaken_orders_doc env" and ps: "set_within p B ps" and xs: "\<And>x. x \<in> set xs \<Longrightarrow> fine x \<and> x \<in> B"
    and res: "fold_p (ps_insert_minimized env k) xs ps = Some ps'"
  shows "set_within p B ps'"
  using fold_p_invariant [where P = "set_within p B", OF res ps] insert_minimized_within [OF ord] xs by blast

lemma values_bodies: "weaken_orders_doc env \<Longrightarrow> set (ps_values env ps) = bodies ps"
  by (simp add: weaken_orders_doc_def ps_values_def bodies_def)

text \<open>Moving lemmas to another set.\<close>

lemma move_lemmas_within:
  assumes "fold_p (move_lemma env) is' (self, tw) = Some (self', tw')" and "set_good p self" and "set_within p B tw"
    and "\<And>i x. \<lbrakk> i \<in> set is'; (i, x) \<in> set (ps_by_id self) \<rbrakk> \<Longrightarrow> x \<in> B"
  shows "set_good p self' \<and> set (ps_by_id self') \<subseteq> {(i, x) \<in> set (ps_by_id self). i \<notin> set is'} \<and> set_within p B tw'"
  using assms
proof (induction is' arbitrary: self tw)
  case (Cons i is')
  from Cons.prems(1) obtain self1 tw1 where step: "move_lemma env i (self, tw) = Some (self1, tw1)"
    and rest: "fold_p (move_lemma env) is' (self1, tw1) = Some (self', tw')"
    by (auto split: option.splits)
  from step obtain x where x: "ps_remove_by_id env i self = Some (x, self1)" "ps_insert env x tw = Some tw1"
    by (auto simp: move_lemma_def elim!: bind_SomeE)
  from x(1) have "(i, x) \<in> set (ps_by_id self)"
    by (auto simp: ps_remove_by_id_def split: option.splits dest: map_of_SomeD)
  from remove_by_id_set [OF Cons.prems(2) this] x(1)
  have self1: "set_good p self1" "set (ps_by_id self1) = set (ps_by_id self) - {(i, x)}" by auto
  have unique: "y = x" if "(i, y) \<in> set (ps_by_id self)" for y
    using eq_key_imp_eq_value [OF set_goodD(5) [OF Cons.prems(2)]] that \<open>(i, x) \<in> set (ps_by_id self)\<close> by blast
  have "fine x" using bodies_fine [OF Cons.prems(2)] \<open>(i, x) \<in> set (ps_by_id self)\<close> by (force simp: bodies_def)
  moreover have "x \<in> B" using Cons.prems(4) [of i x] \<open>(i, x) \<in> set (ps_by_id self)\<close> by simp
  ultimately have tw1: "set_within p B tw1" by (rule insert_within [OF Cons.prems(3) _ _ x(2)])
  have inB: "y \<in> B" if "j \<in> set is'" "(j, y) \<in> set (ps_by_id self1)" for j y
    using Cons.prems(4) [of j y] that self1(2) by simp
  have "set_good p self' \<and> set (ps_by_id self') \<subseteq> {(i, x) \<in> set (ps_by_id self1). i \<notin> set is'} \<and> set_within p B tw'"
    by (rule Cons.IH [OF rest self1(1) tw1 inB])
  moreover have "{(i, x) \<in> set (ps_by_id self1). i \<notin> set is'} \<subseteq> {(j, x) \<in> set (ps_by_id self). j \<notin> set (i # is')}"
    unfolding self1(2) using unique by auto
  ultimately show ?case by blast
qed simp

section \<open>Weakening at one assignment\<close>

lemma weakened_body:
  assumes law: "weaken_law true bokay lq ra" "base_law true bokay (we_order env)" and y: "fine y"
    and cube: "map fst cube = ra_allowed ra" and res: "lq_weaken lq (body_of y) cube ignore = Some bs" and b: "b \<in> set bs"
  shows "fine (os_from_base (we_order env) b)" and "weaker y (os_from_base (we_order env) b)"
    and "list_all (lit_true v) cube \<Longrightarrow> true v (body_of (os_from_base (we_order env) b))"
proof -
  have "bokay (body_of y)" using y by (simp add: fine_def)
  with law(1) cube res have "list_all (weakens_to true bokay (body_of y) cube) bs" unfolding weaken_law_def by blast
  then have "weakens_to true bokay (body_of y) cube b" using b by (simp add: list_all_iff)
  then have w: "bokay b" "\<And>v. true v (body_of y) \<or> list_all (lit_true v) cube \<Longrightarrow> true v b"
    unfolding weakens_to_def by blast+
  from law(2) w(1) have base: "bokay (body_of (os_from_base (we_order env) b))" "\<And>v. true v (body_of (os_from_base (we_order env) b)) = true v b"
    unfolding base_law_def body_of_def by blast+
  show "fine (os_from_base (we_order env) b)" using base(1) from_base_wf by (simp add: fine_def)
  show "weaker y (os_from_base (we_order env) b)" using base(2) w(2) by (simp add: weaker_def)
  show "list_all (lit_true v) cube \<Longrightarrow> true v (body_of (os_from_base (we_order env) b))" using base(2) w(2) by simp
qed

lemma weaken_state_within:
  assumes ord: "weaken_orders_doc env" and law: "weaken_law true bokay lq ra" "base_law true bokay (we_order env)"
    and it: "itertools_doc (we_it env)" and fits: "model_fits p m" "atoms_fit p ra"
    and a: "assign_ok (model_trace m) (prefix_ctx p (qs_len p)) a"
    and self: "set_within p B self" and tw: "set_good p tw"
    and closed: "\<And>y x. \<lbrakk> y \<in> bodies tw; weaker y x; true (atoms_at ra (model_trace m) a) (body_of x) \<rbrakk> \<Longrightarrow> x \<in> B"
    and res: "weaken_state env self tw m a pi pe ig = Some self'"
  shows "set_within p B self'"
proof -
  let ?v = "atoms_at ra (model_trace m) a" and ?from = "os_from_base (we_order env)"
  let ?cube = "map (\<lambda>n. (n, ?v n)) (ra_allowed ra)" and ?ig = "ignored env (ig @ [(self, pi)])"
  let ?self1 = "\<lambda>min. if pe \<and> \<not> ps_is_empty self then fold_p (remove_subsumed env pi) (ps_values env min) self else Some self"
  note self' = set_goodD [OF set_withinD(1) [OF self]]
  from res obtain weakened min self1 where
    weakened: "those (map (\<lambda>base. lq_weaken lq base ?cube ?ig) (ps_bases env tw)) = Some weakened"
    and min: "fold_p (ps_insert_minimized env pi) (we_bodies env (remdups (map ?from (concat weakened)))) (ps_clone_empty env tw) = Some min"
    and self1: "?self1 min = Some self1" and ins: "fold_p (ps_insert env) (ps_values env min) self1 = Some self'"
    unfolding weaken_state_def Let_def self' neg_cube_spec(2) [OF it fits a] by (auto elim!: bind_SomeE)
  have new: "fine x \<and> x \<in> B" if "x \<in> set (we_bodies env (remdups (map ?from (concat weakened))))" for x
  proof -
    from that ord obtain bs b where b: "x = ?from b" "b \<in> set bs" "bs \<in> set weakened" by (auto simp: weaken_orders_doc_def)
    from b(3) those_map_SomeD [OF weakened] obtain base where base: "base \<in> set (ps_bases env tw)" "lq_weaken lq base ?cube ?ig = Some bs"
      by (auto simp: in_set_conv_nth)
    from base(1) obtain y where y: "y \<in> bodies tw" "base = body_of y"
      using values_bodies [OF ord] by (auto simp: ps_bases_def body_of_def)
    note w = weakened_body [OF law bodies_fine [OF tw y(1)] _ base(2) [unfolded y(2)] b(2)]
    have "map fst ?cube = ra_allowed ra" by (simp add: comp_def)
    note w = w [OF this]
    have "true ?v (body_of x)" unfolding b(1) by (rule w(3)) (simp add: list_all_iff)
    with w(1,2) closed [OF y(1)] show ?thesis by (simp add: b(1))
  qed
  have "set_within p B (ps_clone_empty env tw)" by (rule set_within_mono [OF clone_within [OF tw]]) simp
  from inserts_minimized_within [OF ord this new min] have min: "set_within p B min" .
  have "set_within p B self1"
    using self1 self removes_subsumed_within [OF ord self] by (auto split: if_splits)
  then show ?thesis
    by (rule inserts_within [OF _ _ ins]) (use values_bodies [OF ord] bodies_fine [OF set_withinD(1) [OF min]] set_withinD(2) [OF min] in blast)
qed

section \<open>Weakening over the assignments of the prefix\<close>

text \<open>The bodies implied by one of the given bodies and true at the given assignments.\<close>

definition weakened_at :: "quant_prefix \<Rightarrow> model \<Rightarrow> nat \<Rightarrow> assignment set \<Rightarrow> 'o set \<Rightarrow> 'o set" where
  "weakened_at p m k A Y = {x. \<exists>y\<in>Y. weaker y x \<and> (\<forall>a\<in>A. sat_at p (model_trace m) k a (body_of x))}"

definition weakens_within :: "quant_prefix \<Rightarrow> model \<Rightarrow> nat \<Rightarrow> nat \<Rightarrow> bool" where
  "weakens_within p m d k \<longleftrightarrow> (\<forall>self tw a pi pe ig self' B. assign_ok (model_trace m) (prefix_ctx p k) a \<longrightarrow> set_within p B self
     \<longrightarrow> set_good p tw \<longrightarrow> weakened_at p m k {a} (bodies tw) \<subseteq> B
     \<longrightarrow> weaken_levels env d self tw m a k pi pe ig = Some self' \<longrightarrow> set_within p B self')"

lemma weakens_withinD:
  assumes "weakens_within p m d k" "assign_ok (model_trace m) (prefix_ctx p k) a" "set_within p B self" "set_good p tw"
    "weakened_at p m k {a} (bodies tw) \<subseteq> B" "weaken_levels env d self tw m a k pi pe ig = Some self'"
  shows "set_within p B self'"
  using assms unfolding weakens_within_def by blast

lemma weakened_at_insert: "weakened_at p m k {a} (weakened_at p m k A Y) \<subseteq> weakened_at p m k (Set.insert a A) Y"
proof
  fix x assume "x \<in> weakened_at p m k {a} (weakened_at p m k A Y)"
  then obtain y z where "z \<in> Y" "weaker z y" "\<forall>a\<in>A. sat_at p (model_trace m) k a (body_of y)" "weaker y x" "sat_at p (model_trace m) k a (body_of x)"
    by (auto simp: weakened_at_def)
  then show "x \<in> weakened_at p m k (Set.insert a A) Y"
    unfolding weakened_at_def using weaker_trans [of z y x] weaker_sat [of y x] by blast
qed

text \<open>One assignment of a universally quantified position, then all of them.\<close>

lemma weaken_forall_step:
  assumes ord: "weaken_orders_doc env" and it: "itertools_doc (we_it env)" and fits: "model_fits p m" "atoms_fit p ra"
    and later: "weakens_within p m d (Suc k)" and k: "Suc k + d = qs_len p" and a: "assign_ok (model_trace m) (prefix_ctx p (Suc k)) a"
    and tw: "set_within p (weakened_at p m (Suc k) A Y) tw"
    and unsat: "ps_unsat env tw m a (Suc k) = Some unsat" and move: "move_lemmas env unsat tw = Some (tw1, new_tw)"
    and res: "weaken_levels env d tw1 new_tw m a (Suc k) pi pe ig = Some tw2"
  shows "set_within p (weakened_at p m (Suc k) (Set.insert a A) Y) tw2"
proof -
  note good = set_withinD(1) [OF tw]
  have d: "qs_len p - Suc k = d" using k by simp
  have unsat: "unsat = {i. \<exists>x. (i, x) \<in> set (ps_by_id tw) \<and> \<not> sat_at p (model_trace m) (Suc k) a (body_of x)}"
    using unsat unsat_levels_spec [OF good it fits k a] by (simp add: ps_unsat_def set_goodD(1) [OF good] d)
  have "finite unsat" by (rule finite_subset [of _ "fst ` set (ps_by_id tw)"]) (force simp: unsat)+
  then have numbers: "set (we_numbers env unsat) = unsat" using ord by (simp add: weaken_orders_doc_def)
  have empty: "set_within p (bodies tw) (ps_clone_empty env tw)" by (rule set_within_mono [OF clone_within [OF good]]) simp
  have "set_good p tw1 \<and> set (ps_by_id tw1) \<subseteq> {(i, x) \<in> set (ps_by_id tw). i \<notin> set (we_numbers env unsat)} \<and> set_within p (bodies tw) new_tw"
    by (rule move_lemmas_within [OF move [unfolded move_lemmas_def] good empty]) (force simp: bodies_def)
  then have moved: "set_good p tw1" "set (ps_by_id tw1) \<subseteq> {(i, x) \<in> set (ps_by_id tw). i \<notin> unsat}" "set_within p (bodies tw) new_tw"
    unfolding numbers by blast+
  have "sat_at p (model_trace m) (Suc k) a (body_of x) \<and> x \<in> bodies tw" if "x \<in> bodies tw1" for x
    using that moved(2) unfolding unsat by (force simp: bodies_def)
  then have "bodies tw1 \<subseteq> weakened_at p m (Suc k) (Set.insert a A) Y"
    using set_withinD(2) [OF tw] unfolding weakened_at_def by blast
  with moved(1) have tw1: "set_within p (weakened_at p m (Suc k) (Set.insert a A) Y) tw1" by (rule set_withinI)
  have "bodies new_tw \<subseteq> weakened_at p m (Suc k) A Y"
    using set_withinD(2) [OF moved(3)] set_withinD(2) [OF tw] by blast
  then have "weakened_at p m (Suc k) {a} (bodies new_tw) \<subseteq> weakened_at p m (Suc k) {a} (weakened_at p m (Suc k) A Y)"
    unfolding weakened_at_def [of p m "Suc k" "{a}"] by blast
  then have "weakened_at p m (Suc k) {a} (bodies new_tw) \<subseteq> weakened_at p m (Suc k) (Set.insert a A) Y"
    using weakened_at_insert by blast
  from weakens_withinD [OF later a tw1 set_withinD(1) [OF moved(3)] this res] show ?thesis .
qed

definition forall_step :: "nat \<Rightarrow> model \<Rightarrow> nat \<Rightarrow> nat \<Rightarrow> ('o, 'b, 'm) ignore_list \<Rightarrow> assignment
    \<Rightarrow> ('o, 'b, 'm) prefix_set \<Rightarrow> ('o, 'b, 'm) prefix_set option" where
  "forall_step d m k pi ig new_asgn to_weaken =
     Option.bind (ps_unsat env to_weaken m new_asgn (Suc k)) (\<lambda>unsat.
     Option.bind (move_lemmas env unsat to_weaken) (\<lambda>(to_weaken, new_to_weaken).
       weaken_levels env d to_weaken new_to_weaken m new_asgn (Suc k) pi False ig))"

lemma weaken_forall:
  assumes ord: "weaken_orders_doc env" and it: "itertools_doc (we_it env)" and fits: "model_fits p m" "atoms_fit p ra"
    and later: "weakens_within p m d (Suc k)" and k: "Suc k + d = qs_len p"
  shows "\<lbrakk> fold_p (forall_step d m k pi ig) as tw = Some tw'; \<forall>a\<in>set as. assign_ok (model_trace m) (prefix_ctx p (Suc k)) a;
      set_within p (weakened_at p m (Suc k) A Y) tw \<rbrakk> \<Longrightarrow> set_within p (weakened_at p m (Suc k) (A \<union> set as) Y) tw'"
proof (induction as arbitrary: tw A)
  case (Cons a as)
  from Cons.prems(1) obtain tw2 where step: "forall_step d m k pi ig a tw = Some tw2" and rest: "fold_p (forall_step d m k pi ig) as tw2 = Some tw'"
    by (auto split: option.splits)
  from step obtain unsat tw1 new_tw where parts: "ps_unsat env tw m a (Suc k) = Some unsat" "move_lemmas env unsat tw = Some (tw1, new_tw)"
    "weaken_levels env d tw1 new_tw m a (Suc k) pi False ig = Some tw2"
    by (auto simp: forall_step_def elim!: bind_SomeE)
  have a: "assign_ok (model_trace m) (prefix_ctx p (Suc k)) a" using Cons.prems(2) by simp
  have "set_within p (weakened_at p m (Suc k) (Set.insert a A) Y) tw2"
    by (rule weaken_forall_step [OF ord it fits later k a Cons.prems(3) parts])
  from Cons.IH [OF rest _ this] Cons.prems(2) show ?case by simp
qed simp

lemma weaken_levels_0: "weaken_levels env 0 self tw m a k pi pe ig = Some self'
    \<Longrightarrow> self' = self \<or> weaken_state env self tw m a pi pe ig = Some self'"
  by (auto split: if_splits)

lemma weaken_levels_Suc:
  assumes "set_good p self" and "weaken_levels env (Suc d) self tw m a k pi pe ig = Some self'"
  obtains (unchanged) "self' = self"
  | (skip) "qs_names p ! k = []" "weaken_levels env d self tw m a (Suc k) pi pe ig = Some self'"
  | (all) asgns tw' where "qs_names p ! k \<noteq> []" "extend_assignment (we_it env) a (qs_names p ! k) (m_universe m ! (qs_sorts p ! k)) = Some asgns"
      "qs_quantifiers p ! k = Forall" "fold_p (forall_step d m k (if pe then k else pi) (ig @ [(self, pi)])) asgns tw = Some tw'"
      "(if pe then Option.bind (sm_keys (we_map env) (ps_bodies tw')) (\<lambda>xs.
            Option.bind (fold_p (ps_insert_minimized env pi) xs (ps_clone_empty env tw')) (\<lambda>minimized.
            Option.bind (fold_p (remove_subsumed env pi) (ps_values env minimized) self) (fold_p (ps_insert env) (ps_values env minimized))))
          else fold_p (ps_insert env) (ps_values env tw') self) = Some self'"
  | (some) asgns where "qs_names p ! k \<noteq> []" "extend_assignment (we_it env) a (qs_names p ! k) (m_universe m ! (qs_sorts p ! k)) = Some asgns"
      "qs_quantifiers p ! k = Exists" "fold_p (\<lambda>new_asgn self. weaken_levels env d self tw m new_asgn (Suc k) pi True ig) asgns self = Some self'"
proof -
  note p = set_goodD(1) [OF assms(1)]
  from assms(2) consider "ps_is_empty tw" "self' = self"
    | "qs_names p ! k = []" "weaken_levels env d self tw m a (Suc k) pi pe ig = Some self'"
    | "qs_names p ! k \<noteq> []" "\<not> ps_is_empty tw" by (fastforce simp: p split: if_splits)
  then show ?thesis
  proof cases
    case 3
    note eq = assms(2) [unfolded weaken_levels.simps p if_not_P [OF 3(1)] if_not_P [OF 3(2)] position_count_def]
    from eq obtain asgns where asgns: "extend_assignment (we_it env) a (qs_names p ! k) (m_universe m ! (qs_sorts p ! k)) = Some asgns"
      by (rule bind_SomeE)
    show ?thesis
    proof (cases "qs_quantifiers p ! k")
      case Forall
      have step: "(\<lambda>new_asgn to_weaken. Option.bind (ps_unsat env to_weaken m new_asgn (Suc k)) (\<lambda>unsat.
              Option.bind (move_lemmas env unsat to_weaken) (\<lambda>(to_weaken, new_to_weaken).
                weaken_levels env d to_weaken new_to_weaken m new_asgn (Suc k) (if pe then k else pi) False (ig @ [(self, pi)]))))
          = forall_step d m k (if pe then k else pi) (ig @ [(self, pi)])"
        by (intro ext) (simp add: forall_step_def)
      from eq Forall asgns show ?thesis
        unfolding step by (auto simp: Let_def step elim!: bind_SomeE intro!: all [OF 3(1) asgns Forall])
    qed (use eq asgns in \<open>auto intro!: some [OF 3(1) asgns]\<close>)
  qed (use unchanged skip in blast)+
qed

lemma weakened_at_0: "weakened_at p m k A Y \<supseteq> Y" if "A = {}"
  using that weaker_refl by (auto simp: weakened_at_def)

lemma weakens_within_0:
  assumes ord: "weaken_orders_doc env" and law: "weaken_law true bokay lq ra" "base_law true bokay (we_order env)"
    and it: "itertools_doc (we_it env)" and fits: "model_fits p m" "atoms_fit p ra"
  shows "weakens_within p m 0 (qs_len p)"
  unfolding weakens_within_def
proof (intro allI impI)
  have "length (prefix_positions (model_trace m) p) = qs_len p"
    using fits(2) by (simp add: prefix_positions_def atoms_fit_def qs_okay_def qs_len_def)
  then have sat: "sat_at p (model_trace m) (qs_len p) a b = true (atoms_at ra (model_trace m) a) b" for a b
    by (simp add: sat_at_def)
  fix self tw a pi pe ig self' B
  assume a: "assign_ok (model_trace m) (prefix_ctx p (qs_len p)) a" and self: "set_within p B self" and tw: "set_good p tw"
    and sub: "weakened_at p m (qs_len p) {a} (bodies tw) \<subseteq> B" and res: "weaken_levels env 0 self tw m a (qs_len p) pi pe ig = Some self'"
  have closed: "x \<in> B" if "y \<in> bodies tw" "weaker y x" "true (atoms_at ra (model_trace m) a) (body_of x)" for y x
    using that sub by (auto simp: weakened_at_def sat)
  from weaken_levels_0 [OF res] show "set_within p B self'"
  proof
    assume step: "weaken_state env self tw m a pi pe ig = Some self'"
    show ?thesis by (rule weaken_state_within [OF ord law it fits a self tw _ step]) (rule closed)
  qed (use self in simp)
qed

text \<open>After a universally quantified position: what was weakened replaces the lemmas of the set it subsumes.\<close>

lemma replace_within:
  assumes ord: "weaken_orders_doc env" and self: "set_within p B self" and tw: "set_within p B tw"
    and res: "(if pe then Option.bind (sm_keys (we_map env) (ps_bodies tw)) (\<lambda>xs.
            Option.bind (fold_p (ps_insert_minimized env pi) xs (ps_clone_empty env tw)) (\<lambda>minimized.
            Option.bind (fold_p (remove_subsumed env pi) (ps_values env minimized) self) (fold_p (ps_insert env) (ps_values env minimized))))
          else fold_p (ps_insert env) (ps_values env tw) self) = Some self'"
  shows "set_within p B self'"
proof -
  have new: "fine x \<and> x \<in> B" if "x \<in> bodies ps" "set_within p B ps" for x ps
    using bodies_fine [OF set_withinD(1) [OF that(2)] that(1)] set_withinD(2) [OF that(2)] that(1) by blast
  show ?thesis
  proof (cases pe)
    case False
    with res have ins: "fold_p (ps_insert env) (ps_values env tw) self = Some self'" by simp
    show ?thesis by (rule inserts_within [OF self _ ins]) (use new tw values_bodies [OF ord] in blast)
  next
    case True
    with res obtain xs min self1 where xs: "sm_keys (we_map env) (ps_bodies tw) = Some xs"
      and min: "fold_p (ps_insert_minimized env pi) xs (ps_clone_empty env tw) = Some min"
      and self1: "fold_p (remove_subsumed env pi) (ps_values env min) self = Some self1"
      and ins: "fold_p (ps_insert env) (ps_values env min) self1 = Some self'"
      by (auto elim!: bind_SomeE)
    note good = set_withinD(1) [OF tw]
    have "set xs = bodies tw" using keys_map [OF set_goodD(4) [OF good]] xs member_bodies [OF good] by auto
    moreover have "set_within p B (ps_clone_empty env tw)" by (rule set_within_mono [OF clone_within [OF good]]) simp
    ultimately have min: "set_within p B min" using inserts_minimized_within [OF ord _ _ min] new [OF _ tw] by blast
    from removes_subsumed_within [OF ord self self1] show ?thesis
      by (rule inserts_within [OF _ _ ins]) (use new [OF _ min] values_bodies [OF ord] in blast)
  qed
qed

lemma weakens_within_Suc:
  assumes ord: "weaken_orders_doc env" and it: "itertools_doc (we_it env)" and fits: "model_fits p m" "atoms_fit p ra"
    and k: "Suc k + d = qs_len p" and later: "weakens_within p m d (Suc k)"
  shows "weakens_within p m (Suc d) k"
  unfolding weakens_within_def
proof (intro allI impI)
  have less: "k < qs_len p" using k by simp
  fix self tw a pi pe ig self' B
  assume a: "assign_ok (model_trace m) (prefix_ctx p k) a" and self: "set_within p B self" and tw: "set_good p tw"
    and sub: "weakened_at p m k {a} (bodies tw) \<subseteq> B" and res: "weaken_levels env (Suc d) self tw m a k pi pe ig = Some self'"
  have inB: "weakened_at p m (Suc k) A (bodies tw) \<subseteq> B"
    if "\<And>b. \<forall>a'\<in>A. sat_at p (model_trace m) (Suc k) a' b \<Longrightarrow> sat_at p (model_trace m) k a b" for A
    using sub that unfolding weakened_at_def by blast
  from set_withinD(1) [OF self] res show "set_within p B self'"
  proof (cases rule: weaken_levels_Suc)
    case unchanged
    with self show ?thesis by simp
  next
    case skip
    note next_level = position_skipped [OF fits less a skip(1)]
    have "weakened_at p m (Suc k) {a} (bodies tw) \<subseteq> B" by (rule inB) (simp add: next_level(2))
    then show ?thesis by (rule weakens_withinD [OF later next_level(1) self tw _ skip(2)])
  next
    case (some asgns)
    note next_level = position_assignments [OF it fits less a some(1,2)]
    have within: "weakened_at p m (Suc k) {a'} (bodies tw) \<subseteq> B" if "a' \<in> set asgns" for a'
      by (rule inB) (use next_level(2) some(3) that in auto)
    show ?thesis
    proof (rule fold_p_invariant [where P = "set_within p B", OF some(4) self])
      fix a' s s' assume "a' \<in> set asgns" "set_within p B s" "weaken_levels env d s tw m a' (Suc k) pi True ig = Some s'"
      then show "set_within p B s'" using weakens_withinD [OF later next_level(1) _ tw within] by blast
    qed
  next
    case (all asgns tw')
    note next_level = position_assignments [OF it fits less a all(1,2)]
    have "set_within p (weakened_at p m (Suc k) {} (bodies tw)) tw"
      by (rule set_withinI [OF tw weakened_at_0]) simp
    from weaken_forall [OF ord it fits later k all(4) _ this] next_level(1)
    have "set_within p (weakened_at p m (Suc k) (set asgns) (bodies tw)) tw'" by simp
    moreover have "weakened_at p m (Suc k) (set asgns) (bodies tw) \<subseteq> B" by (rule inB) (use next_level(2) all(3) in auto)
    ultimately have "set_within p B tw'" by (rule set_within_mono)
    from replace_within [OF ord self this all(5)] show ?thesis .
  qed
qed

lemma weaken_levels_within:
  assumes "weaken_orders_doc env" and "weaken_law true bokay lq ra" "base_law true bokay (we_order env)"
    and "itertools_doc (we_it env)" and "model_fits p m" "atoms_fit p ra"
  shows "k + d = qs_len p \<Longrightarrow> weakens_within p m d k"
proof (induction d arbitrary: k)
  case 0
  with weakens_within_0 [OF assms] show ?case by simp
next
  case (Suc d)
  then have k: "Suc k + d = qs_len p" by simp
  from weakens_within_Suc [OF assms(1,4,5,6) k Suc.IH [OF k]] show ?case .
qed

text \<open>The lemmas with the given numbers are weakened until they are true in the model; the others stay true.\<close>

lemma weaken_those_within:
  assumes ord: "weaken_orders_doc env" and law: "weaken_law true bokay lq ra" "base_law true bokay (we_order env)"
    and it: "itertools_doc (we_it env)" and fits: "model_fits p m" "atoms_fit p ra" and ps: "set_good p ps"
    and res: "weaken_those env is' ps m = Some (b, ps')" and fin: "finite is'"
  shows "set_good p ps' \<and> (\<forall>x\<in>bodies ps'. (\<exists>i. (i, x) \<in> set (ps_by_id ps) \<and> i \<notin> is')
    \<or> x \<in> weakened_at p m 0 {Map.empty} (bodies ps)) \<and> b = (is' \<noteq> {})"
proof (cases "is' = {}")
  case True
  with res ps show ?thesis by (auto simp: weaken_those_def bodies_def)
next
  case False
  let ?B = "{x. (\<exists>i. (i, x) \<in> set (ps_by_id ps) \<and> i \<notin> is')} \<union> weakened_at p m 0 {Map.empty} (bodies ps)"
  from False res obtain self tw where parts: "move_lemmas env is' ps = Some (self, tw)" "b"
    "weaken_add env self tw m Map.empty 0 0 False [] = Some ps'"
    by (auto simp: weaken_those_def elim!: bind_SomeE)
  have numbers: "set (we_numbers env is') = is'" using ord fin by (simp add: weaken_orders_doc_def)
  have empty: "set_within p (bodies ps) (ps_clone_empty env ps)" by (rule set_within_mono [OF clone_within [OF ps]]) simp
  have "set_good p self \<and> set (ps_by_id self) \<subseteq> {(i, x) \<in> set (ps_by_id ps). i \<notin> set (we_numbers env is')} \<and> set_within p (bodies ps) tw"
    by (rule move_lemmas_within [OF parts(1) [unfolded move_lemmas_def] ps empty]) (force simp: bodies_def)
  then have moved: "set_good p self" "set (ps_by_id self) \<subseteq> {(i, x) \<in> set (ps_by_id ps). i \<notin> is'}" "set_within p (bodies ps) tw"
    unfolding numbers by blast+
  have self: "set_within p ?B self" by (rule set_withinI [OF moved(1)]) (use moved(2) in \<open>force simp: bodies_def\<close>)
  have sub: "weakened_at p m 0 {Map.empty} (bodies tw) \<subseteq> ?B" using set_withinD(2) [OF moved(3)] by (auto simp: weakened_at_def)
  have start: "assign_ok (model_trace m) (prefix_ctx p 0) Map.empty" by simp
  have levels: "weaken_levels env (qs_len p) self tw m Map.empty 0 0 False [] = Some ps'"
    using parts(3) by (simp add: weaken_add_def set_goodD(1) [OF moved(1)])
  have "set_within p ?B ps'"
    by (rule weakens_withinD [OF weaken_levels_within [OF ord law it fits] start self set_withinD(1) [OF moved(3)] sub levels]) simp
  then show ?thesis using False parts(2) by (auto simp: set_within_def)
qed

lemma weaken_spec:
  assumes ord: "weaken_orders_doc env" and law: "weaken_law true bokay lq ra" "base_law true bokay (we_order env)"
    and it: "itertools_doc (we_it env)" and fits: "model_fits p m" "atoms_fit p ra" and ps: "set_good p ps"
    and res: "ps_weaken env ps m = Some (b, ps')"
  shows "set_good p ps' \<and> violated_ids env ps' m = {} \<and> (\<forall>x\<in>bodies ps'. \<exists>y\<in>bodies ps. weaker y x) \<and> b = (violated_ids env ps m \<noteq> {})"
proof -
  let ?bad = "\<lambda>ps. {i. \<exists>x. (i, x) \<in> set (ps_by_id ps) \<and> \<not> sat_at p (model_trace m) 0 Map.empty (body_of x)}"
  note unsat = unsat_spec [OF ps it fits]
  from unsat have bad: "violated_ids env ps m = ?bad ps" by simp
  have those: "weaken_those env (?bad ps) ps m = Some (b, ps')" using res unsat(2) by (simp add: ps_weaken_def)
  have "finite (?bad ps)" by (rule finite_subset [of _ "fst ` set (ps_by_id ps)"]) force+
  from weaken_those_within [OF ord law it fits ps those this] have good: "set_good p ps'" and b: "b = (?bad ps \<noteq> {})"
    and each: "\<forall>x\<in>bodies ps'. (\<exists>i. (i, x) \<in> set (ps_by_id ps) \<and> i \<notin> ?bad ps) \<or> x \<in> weakened_at p m 0 {Map.empty} (bodies ps)"
    by blast+
  have "sat_at p (model_trace m) 0 Map.empty (body_of x) \<and> (\<exists>y\<in>bodies ps. weaker y x)" if "x \<in> bodies ps'" for x
    using bspec [OF each that] weaker_refl by (force simp: weakened_at_def bodies_def)
  then have none: "?bad ps' = {}" and weak: "\<forall>x\<in>bodies ps'. \<exists>y\<in>bodies ps. weaker y x" by (force simp: bodies_def)+
  have "violated_ids env ps' m = ?bad ps'" using unsat_spec [OF good it fits] by simp
  then have "violated_ids env ps' m = {}" unfolding none .
  then show ?thesis using good b bad weak by simp
qed

end

context lemma_domain begin

text \<open>The set a prefix starts with.\<close>

lemma init_set:
  assumes law: "base_law true bokay (we_order env)" and b: "lq_strongest lq = [b]" "bokay b"
  shows "\<exists>ps. ps_init env (ps_new env p lq ra) = Some ps \<and> set_good p ps \<and> bodies ps = {os_from_base (we_order env) b}"
proof -
  let ?x = "os_from_base (we_order env) b"
  have "bokay (body_of ?x)" using law b(2) by (simp add: base_law_def body_of_def)
  from insert_set [OF new_set(1) from_base_wf this] obtain ps where
    "ps_insert env ?x (ps_new env p lq ra) = Some ps" "set_good p ps" "bodies ps = {?x}"
    by (auto simp: new_set(2))
  moreover have "ps_is_empty (ps_new env p lq ra)" by (simp add: is_empty_set new_set(2))
  moreover have "lq_strongest (ps_lemma_qf (ps_new env p lq ra)) = [b]" by (simp add: ps_new_def b(1))
  ultimately show ?thesis by (simp add: ps_init_def)
qed

end

section \<open>The three domains\<close>

text \<open>Normalising a body keeps its atoms and its meaning.\<close>

lemma clause_base: "set (os_to_base clause_order (os_from_base clause_order ls)) = set ls"
  using clause_subsumes [of "os_to_base clause_order (os_from_base clause_order ls)" ls]
    clause_subsumes [of ls "os_to_base clause_order (os_from_base clause_order ls)"]
    clause.from_to_base [OF clause.from_base_wf, of ls] clause.subsumes_refl [OF clause.from_base_wf, of ls] by simp

lemma cube_base: "set (os_to_base cube_order (os_from_base cube_order ls)) = set ls"
  using cube_subsumes [of "os_to_base cube_order (os_from_base cube_order ls)" ls]
    cube_subsumes [of ls "os_to_base cube_order (os_from_base cube_order ls)"]
    cube.from_to_base [OF cube.from_base_wf, of ls] cube.subsumes_refl [OF cube.from_base_wf, of ls] by simp

lemma cnf_base:
  assumes "d \<in> set (os_to_base cnf_order (os_from_base cnf_order bs))"
  shows "\<exists>c\<in>set bs. set d = set c"
proof -
  from assms obtain x where "x \<in> set (elements (and_from_base clause_order bs))" "d = os_to_base clause_order x"
    by (auto simp: cnf_order_def and_order_def)
  then show ?thesis using clause.and_from_base_spec(2) [of bs] clause_base by blast
qed

lemma dnf_base:
  assumes "d \<in> set (os_to_base dnf_order (os_from_base dnf_order bs))"
  shows "\<exists>c\<in>set bs. set d = set c"
proof -
  from assms obtain x where x: "x \<in> set (elements (and_from_base (reversed_order cube_order) bs))" "d = os_to_base (reversed_order cube_order) x"
    by (auto simp: dnf_order_def or_order_def and_order_def [of "reversed_order cube_order"] reversed_order_def [of "\<lparr>os_leq = _, os_subsumes = _, os_to_base = _, os_from_base = _\<rparr>"])
  from x(1) order_subsumption.and_from_base_spec(2) [OF cube.reversed_laws, of bs]
  obtain c where "c \<in> set bs" "x = os_from_base (reversed_order cube_order) c" by blast
  then show ?thesis using x(2) cube_base [of c] by (auto simp: reversed_order_def)
qed

lemma over_atoms_set: "set xs = set ys \<Longrightarrow> over_atoms ra xs = over_atoms ra ys"
  by (simp add: over_atoms_def list_all_iff)

lemma cnf_base_law: "base_law base_cnf_true (list_all (over_atoms ra)) cnf_order"
  unfolding base_law_def
proof (intro allI impI conjI)
  fix b :: "atom_literal list list" and v assume b: "list_all (over_atoms ra) b"
  show "list_all (over_atoms ra) (os_to_base cnf_order (os_from_base cnf_order b))"
    unfolding list_all_iff
  proof
    fix d assume "d \<in> set (os_to_base cnf_order (os_from_base cnf_order b))"
    from cnf_base [OF this] obtain c where "c \<in> set b" "set d = set c" by blast
    with b show "over_atoms ra d" using over_atoms_set [of d c] by (simp add: list_all_iff)
  qed
  show "base_cnf_true v (os_to_base cnf_order (os_from_base cnf_order b)) = base_cnf_true v b"
    using cnf.from_base_in [of v "os_to_base cnf_order (os_from_base cnf_order b)"] cnf.from_base_in [of v b]
      cnf.from_to_base [OF cnf.from_base_wf, of b] by simp
qed

lemma dnf_subsumes_true: "\<lbrakk> \<forall>c\<in>set as. \<exists>d\<in>set bs. set d \<subseteq> set c; base_dnf_true v as \<rbrakk> \<Longrightarrow> base_dnf_true v bs"
  unfolding base_dnf_true_def by blast

lemma dnf_base_true: "base_dnf_true v (os_to_base dnf_order (os_from_base dnf_order b)) = base_dnf_true v b"
proof -
  let ?b = "os_to_base dnf_order (os_from_base dnf_order b)"
  have "os_from_base dnf_order ?b = os_from_base dnf_order b" by (rule dnf.from_to_base [OF dnf.from_base_wf])
  then have "\<forall>c\<in>set ?b. \<exists>d\<in>set b. set d \<subseteq> set c" "\<forall>c\<in>set b. \<exists>d\<in>set ?b. set d \<subseteq> set c"
    using dnf_subsumes [of ?b b] dnf_subsumes [of b ?b] dnf.subsumes_refl [OF dnf.from_base_wf, of b] by simp_all
  then show ?thesis using dnf_subsumes_true by blast
qed

lemma dnf_base_over: "list_all (over_atoms ra) b \<Longrightarrow> list_all (over_atoms ra) (os_to_base dnf_order (os_from_base dnf_order b))"
  unfolding list_all_iff
proof
  fix d assume b: "\<forall>c\<in>set b. over_atoms ra c" and "d \<in> set (os_to_base dnf_order (os_from_base dnf_order b))"
  with dnf_base obtain c where "c \<in> set b" "set d = set c" by blast
  with b show "over_atoms ra d" using over_atoms_set by blast
qed

lemma dnf_base_law: "base_law base_dnf_true (list_all (over_atoms ra)) dnf_order"
  using dnf_base_true dnf_base_over unfolding base_law_def by blast

lemma pdnf_base_law: "base_law base_pdnf_true (over_pdnf ra) pdnf_order"
proof -
  have "os_to_base pdnf_order (os_from_base pdnf_order b)
      = (os_to_base clause_order (os_from_base clause_order (fst b)), os_to_base dnf_order (os_from_base dnf_order (snd b)))" for b
    by (simp add: pdnf_order_def pair_order_def)
  then show ?thesis
    using dnf_base_true dnf_base_over over_atoms_set [OF clause_base]
    unfolding base_law_def base_pdnf_true_def by (simp add: clause_base)
qed

text \<open>The weakening of a domain keeps its law whatever is ignored: ignoring only leaves bodies out.\<close>

lemma filter_p_member: "\<lbrakk> filter_p f xs = Some ys; y \<in> set ys \<rbrakk> \<Longrightarrow> y \<in> set xs \<and> f y = Some True"
  by (induction xs arbitrary: ys) (auto split: option.splits if_splits)

lemma contract_law:
  assumes contract: "weaken_contract true okay lq b cube (\<lambda>_. Some False)"
    and res: "lq_weaken lq b cube ignore = Some bs"
    and more: "\<And>bs0. lq_weaken lq b cube (\<lambda>_. Some False) = Some bs0 \<Longrightarrow> set bs \<subseteq> set bs0"
  shows "list_all (weakens_to true okay b cube) bs"
proof -
  from contract obtain bs0 where "lq_weaken lq b cube (\<lambda>_. Some False) = Some bs0" "list_all (weakens_to true okay b cube) bs0"
    by (auto simp: weaken_contract_def)
  with more show ?thesis by (auto simp: list_all_iff)
qed

lemma not_ignored_none [simp]: "not_ignored (\<lambda>_. Some False) = (\<lambda>_. Some True)"
  by (rule ext) (simp add: not_ignored_def)

lemma filter_p_True [simp]: "filter_p (\<lambda>_. Some True) xs = Some xs"
  by (induction xs) simp_all

lemma cnf_law:
  assumes li: "lemma_iters_doc li" and ra: "atoms_okay (lc_atoms lc)"
  shows "weaken_law base_cnf_true (list_all (over_atoms (lc_atoms lc))) (cnf_lemma_qf li lc) (lc_atoms lc)"
  unfolding weaken_law_def
proof (intro allI impI)
  fix b cube ignore bs
  assume b: "list_all (over_atoms (lc_atoms lc)) b" and cube: "map fst cube = ra_allowed (lc_atoms lc)"
    and res: "lq_weaken (cnf_lemma_qf li lc) b cube ignore = Some bs"
  show "list_all (weakens_to base_cnf_true (list_all (over_atoms (lc_atoms lc))) b cube) bs"
  proof (cases "b = [[]]")
    case True
    with res have "bs = map (map (\<lambda>lit. [lit])) (li_combinations li (min (lc_clauses lc) (length cube)) cube)"
      by (simp add: cnf_lemma_qf_def cnf_weaken_def)
    then show ?thesis using cnf_first_contract(1) [OF li cube] unfolding True list_all_iff by blast
  next
    case False
    with res obtain css where css: "b \<noteq> []" "those (map (cnf_weaken_clause lc cube) b) = Some css"
      "filter_p (not_ignored ignore) (product_lists css) = Some bs"
      using li by (auto simp: cnf_lemma_qf_def cnf_weaken_def lemma_iters_doc_def mcp_fixed_doc split: if_splits elim!: bind_SomeE)
    have "cl \<noteq> []" if "cl \<in> set b" for cl
    proof -
      from that obtain i where "i < length b" "cl = b ! i" by (auto simp: in_set_conv_nth)
      with those_map_SomeD(2) [OF css(2)] have "cnf_weaken_clause lc cube cl \<noteq> None" by simp
      then show ?thesis by (auto simp: cnf_weaken_clause_def)
    qed
    then have ok: "cnf_base_okay lc b" using b css(1) by (auto simp: cnf_base_okay_def)
    from cnf_clauses_contract [OF ra cube ok False] css(2)
    have "list_all (weakens_to base_cnf_true (cnf_base_okay lc) b cube) (product_lists css)" by auto
    then have "weakens_to base_cnf_true (cnf_base_okay lc) b cube c" if "c \<in> set bs" for c
      using filter_p_subset [OF css(3)] that by (auto simp: list_all_iff)
    then show ?thesis by (simp add: list_all_iff weakens_to_def cnf_base_okay_def)
  qed
qed

lemma pdnf_law:
  assumes li: "lemma_iters_doc li" and ra: "atoms_okay (lp_atoms lp)"
  shows "weaken_law base_pdnf_true (over_pdnf (lp_atoms lp)) (pdnf_lemma_qf li lp) (lp_atoms lp)"
  unfolding weaken_law_def
proof (intro allI impI)
  fix b cube ignore bs
  assume b: "over_pdnf (lp_atoms lp) b" and cube: "map fst cube = ra_allowed (lp_atoms lp)"
    and res: "lq_weaken (pdnf_lemma_qf li lp) b cube ignore = Some bs"
  have okay: "pdnf_base_okay lp = over_pdnf (lp_atoms lp)" by (rule ext) (simp add: pdnf_base_okay_def)
  have "weaken_contract base_pdnf_true (over_pdnf (lp_atoms lp)) (pdnf_lemma_qf li lp) b cube (\<lambda>_. Some False)"
    using pdnf_contract [OF li ra cube] b by (simp add: okay)
  then show "list_all (weakens_to base_pdnf_true (over_pdnf (lp_atoms lp)) b cube) bs"
  proof (rule contract_law [OF _ res])
    fix bs0 assume "lq_weaken (pdnf_lemma_qf li lp) b cube (\<lambda>_. Some False) = Some bs0"
    with res show "set bs \<subseteq> set bs0"
      using filter_p_subset [where f = "not_ignored ignore"]
      by (force simp: pdnf_lemma_qf_def pdnf_weaken_def split: option.splits elim!: bind_SomeE)
  qed
qed

lemma naive_law:
  assumes li: "lemma_iters_doc li" and ra: "atoms_okay (ln_atoms ln)"
  shows "weaken_law base_dnf_true (list_all (over_atoms (ln_atoms ln))) (naive_lemma_qf li ln) (ln_atoms ln)"
  unfolding weaken_law_def
proof (intro allI impI)
  fix b cube ignore bs
  assume b: "list_all (over_atoms (ln_atoms ln)) b" and cube: "map fst cube = ra_allowed (ln_atoms ln)"
    and res: "lq_weaken (naive_lemma_qf li ln) b cube ignore = Some bs"
  let ?n = "length (filter (\<lambda>cb. 1 < length cb) b)"
  from res have le: "ln_non_unit ln \<le> 1" "?n \<le> ln_non_unit ln"
    by (auto simp: naive_lemma_qf_def naive_weaken_def Let_def split: if_splits)
  with b have ok: "naive_base_okay ln b" by (simp add: naive_base_okay_def non_units_def)
  have "list_all (weakens_to base_dnf_true (naive_base_okay ln) b cube) bs"
  proof (rule contract_law [OF naive_contract [OF li ra cube le(1) ok] res])
    fix bs0 assume res0: "lq_weaken (naive_lemma_qf li ln) b cube (\<lambda>_. Some False) = Some bs0"
    show "set bs \<subseteq> set bs0"
    proof (cases "?n < ln_non_unit ln")
      case True
      with res res0 le show ?thesis by (simp add: naive_lemma_qf_def naive_weaken_def Let_def)
    next
      case False
      let ?add = "\<lambda>ig. filter_p (\<lambda>b. if length b \<le> ln_cubes ln then not_ignored ig b else Some False)"
      let ?lits = "li_order li (remdups (concat (filter (\<lambda>cb. 1 < length cb) b)))"
      from res obtain added added' reduced reduced' combined combined' inter where
        1: "filter_map_p (add_unit li ln b) cube = Some added" "?add ignore added = Some added'"
          "filter_map_p (add_unit li ln b) ?lits = Some reduced" "filter_p (not_ignored ignore) reduced = Some reduced'"
          "those (map (\<lambda>b. add_combinations li ln b cube) reduced') = Some combined"
          "filter_p (not_ignored ignore) (concat combined) = Some combined'"
          "filter_p (not_ignored ignore) (intersect_cubes b cube) = Some inter" "bs = added' @ combined' @ inter"
        using le False by (auto simp: naive_lemma_qf_def naive_weaken_def Let_def elim!: bind_SomeE)
      from res0 1(1,3) obtain added0 combined0 where
        2: "?add (\<lambda>_. Some False) added = Some added0" "those (map (\<lambda>b. add_combinations li ln b cube) reduced) = Some combined0"
          "bs0 = added0 @ concat combined0 @ intersect_cubes b cube"
        using le False by (auto simp: naive_lemma_qf_def naive_weaken_def Let_def elim!: bind_SomeE)
      have "set added' \<subseteq> set added0"
      proof
        fix c assume "c \<in> set added'"
        from filter_p_member [OF 1(2) this] have c: "c \<in> set added" "length c \<le> ln_cubes ln" by (auto split: if_splits)
        have "added0 = filter (\<lambda>b. length b \<le> ln_cubes ln) added"
          by (rule filter_p_SomeD [OF 2(1)]) (auto split: if_splits)
        with c show "c \<in> set added0" by simp
      qed
      moreover have "set combined' \<subseteq> set (concat combined0)"
      proof
        fix c assume "c \<in> set combined'"
        then obtain cs where cs: "cs \<in> set combined" "c \<in> set cs" using filter_p_subset [OF 1(6)] by auto
        then obtain d where d: "d \<in> set reduced'" "add_combinations li ln d cube = Some cs"
          using those_map_SomeD [OF 1(5)] by (auto simp: in_set_conv_nth)
        then have "d \<in> set reduced" using filter_p_subset [OF 1(4)] by blast
        then have "cs \<in> set combined0" using those_map_SomeD [OF 2(2)] d(2) by (auto simp: in_set_conv_nth)
        with cs(2) show "c \<in> set (concat combined0)" by auto
      qed
      moreover have "set inter \<subseteq> set (intersect_cubes b cube)" by (rule filter_p_subset [OF 1(7)])
      ultimately show ?thesis unfolding 1(8) 2(3) by auto
    qed
  qed
  then show "list_all (weakens_to base_dnf_true (list_all (over_atoms (ln_atoms ln))) b cube) bs"
    by (simp add: list_all_iff weakens_to_def naive_base_okay_def)
qed

text \<open>So in each domain weakening makes every lemma of the set true in the model.\<close>

lemma weaken_orders_docI:
  "\<lbrakk> \<And>xs. set (bo xs) = set xs; \<And>S. finite S \<Longrightarrow> set (no S) = S; we_bodies env = bo; we_numbers env = no \<rbrakk> \<Longrightarrow> weaken_orders_doc env"
  by (simp add: weaken_orders_doc_def)

lemma cnf_sets_weaken:
  assumes doc: "lemma_iters_doc li" "itertools_doc it" "\<And>xs. set (bo xs) = set xs" "\<And>S. finite S \<Longrightarrow> set (no S) = S"
    and fits: "model_fits p m" "atoms_fit p (lc_atoms lc)" and ps: "cnf_sets.set_good qi it bo no li lc p ps"
    and res: "ps_weaken (cnf_env qi it bo no) ps m = Some (b, ps')"
  shows "cnf_sets.set_good qi it bo no li lc p ps' \<and> violated_ids (cnf_env qi it bo no) ps' m = {}
    \<and> b = (violated_ids (cnf_env qi it bo no) ps m \<noteq> {})"
proof -
  have ra: "atoms_okay (lc_atoms lc)" using fits(2) by (simp add: atoms_fit_def)
  have orders: "weaken_orders_doc (cnf_env qi it bo no)" by (rule weaken_orders_docI [OF doc(3,4)]) (simp_all add: cnf_env_def)
  have base: "base_law base_cnf_true (list_all (over_atoms (lc_atoms lc))) (we_order (cnf_env qi it bo no))"
    by (simp add: cnf_env_def cnf_base_law)
  have it: "itertools_doc (we_it (cnf_env qi it bo no))" using doc(2) by (simp add: cnf_env_def)
  from cnf_sets.weaken_spec [OF orders cnf_law [OF doc(1) ra] base it fits ps res] show ?thesis by blast
qed

lemma naive_sets_weaken:
  assumes doc: "lemma_iters_doc li" "itertools_doc it" "\<And>xs. set (bo xs) = set xs" "\<And>S. finite S \<Longrightarrow> set (no S) = S"
    and fits: "model_fits p m" "atoms_fit p (ln_atoms ln)" and ps: "naive_sets.set_good qi it bo no li ln p ps"
    and res: "ps_weaken (naive_env qi it bo no) ps m = Some (b, ps')"
  shows "naive_sets.set_good qi it bo no li ln p ps' \<and> violated_ids (naive_env qi it bo no) ps' m = {}
    \<and> b = (violated_ids (naive_env qi it bo no) ps m \<noteq> {})"
proof -
  have ra: "atoms_okay (ln_atoms ln)" using fits(2) by (simp add: atoms_fit_def)
  have orders: "weaken_orders_doc (naive_env qi it bo no)" by (rule weaken_orders_docI [OF doc(3,4)]) (simp_all add: naive_env_def)
  have base: "base_law base_dnf_true (list_all (over_atoms (ln_atoms ln))) (we_order (naive_env qi it bo no))"
    by (simp add: naive_env_def dnf_base_law)
  have it: "itertools_doc (we_it (naive_env qi it bo no))" using doc(2) by (simp add: naive_env_def)
  from naive_sets.weaken_spec [OF orders naive_law [OF doc(1) ra] base it fits ps res] show ?thesis by blast
qed

lemma pdnf_sets_weaken:
  assumes doc: "lemma_iters_doc li" "itertools_doc it" "\<And>xs. set (bo xs) = set xs" "\<And>S. finite S \<Longrightarrow> set (no S) = S"
    and fits: "model_fits p m" "atoms_fit p (lp_atoms lp)" and ps: "pdnf_sets.set_good qi it bo no li lp p ps"
    and res: "ps_weaken (pdnf_env qi it bo no) ps m = Some (b, ps')"
  shows "pdnf_sets.set_good qi it bo no li lp p ps' \<and> violated_ids (pdnf_env qi it bo no) ps' m = {}
    \<and> b = (violated_ids (pdnf_env qi it bo no) ps m \<noteq> {})"
proof -
  have ra: "atoms_okay (lp_atoms lp)" using fits(2) by (simp add: atoms_fit_def)
  have orders: "weaken_orders_doc (pdnf_env qi it bo no)" by (rule weaken_orders_docI [OF doc(3,4)]) (simp_all add: pdnf_env_def)
  have base: "base_law base_pdnf_true (over_pdnf (lp_atoms lp)) (we_order (pdnf_env qi it bo no))"
    by (simp add: pdnf_env_def pdnf_base_law)
  have it: "itertools_doc (we_it (pdnf_env qi it bo no))" using doc(2) by (simp add: pdnf_env_def)
  from pdnf_sets.weaken_spec [OF orders pdnf_law [OF doc(1) ra] base it fits ps res] show ?thesis by blast
qed

section \<open>An example\<close>

text \<open>Over the prefix with one existentially quantified variable and the atom \<open>r\<close> of it, the set starts with the
  false lemma; weakening it with a model in which \<open>r\<close> holds of one of two elements leaves two lemmas, that some
  element is in \<open>r\<close> and that some element is not.\<close>

definition quant_ref :: quant_iters where
  "quant_ref = \<lparr>qi_arrangements = (\<lambda>k vs. filter distinct (product_lists (replicate k vs))), qi_product = product_lists,
     qi_quantifiers = product_lists\<rparr>"

definition r_prefix :: quant_prefix where
  "r_prefix = \<lparr>qs_signature = defs_sig, qs_quantifiers = [Exists], qs_sorts = [0], qs_names = [[''s_1'']]\<rparr>"

definition r_atoms :: restricted_atoms where
  "r_atoms = \<lparr>ra_atoms = \<lparr>at_terms = [App ''r'' 0 [Id ''s_1'']],
     at_index = (\<lambda>t. if t = App ''r'' 0 [Id ''s_1''] then Some 0 else None)\<rparr>, ra_allowed = [0]\<rparr>"

definition r_model :: model where
  "r_model = \<lparr>m_signature = defs_sig, m_universe = [2], m_interp = [\<lparr>in_shape = [2, 2], in_data = [1, 0]\<rparr>]\<rparr>"

definition r_env :: "(cnf_body, atom_literal list list, (atom_literal or_like, nat) and_map) weaken_env" where
  "r_env = cnf_env quant_ref itertools_ref (\<lambda>xs. xs) sorted_list_of_set"

definition r_set :: "(cnf_body, atom_literal list list, (atom_literal or_like, nat) and_map) prefix_set option" where
  "r_set = ps_init r_env (ps_new r_env r_prefix (cnf_lemma_qf iters_ref \<lparr>lc_clauses = 1, lc_clause_size = 2, lc_atoms = r_atoms\<rparr>) r_atoms)"

lemma weaken_example:
  "Option.bind r_set (\<lambda>ps. map_option (\<lambda>(b, ps'). (b, map snd (ps_by_id ps'), ps_unsat r_env ps' r_model Map.empty 0)) (ps_weaken r_env ps r_model))
   = Some (True, [AndLike [Reversed (AndLike [Reversed (0, True)])], AndLike [Reversed (AndLike [Reversed (0, False)])]], Some {})"
  by code_simp

lemma example_fits: "model_fits r_prefix r_model" "atoms_fit r_prefix r_atoms"
  by code_simp+

lemma quant_ref_doc: "quant_iters_doc quant_ref"
proof -
  have "p \<in> set (product_lists (replicate k vs)) \<longleftrightarrow> length p = k \<and> set p \<subseteq> set vs" for p :: "string list" and k vs
    by (auto simp: product_lists_set list_all2_conv_all_nth in_set_conv_nth) (metis in_set_conv_nth subsetD)
  then show ?thesis by (auto simp: quant_iters_doc_def quant_ref_def mcp_doc_def)
qed

end
