(* ===== verification/Fly_Sorts.thy ===== *)
theory Fly_Sorts
  imports Fly_Syntax Decimal
begin

text \<open>
  Model of \<^verbatim>\<open>fly/src/sorts.rs\<close>: sort inference and checking by unification, in two phases. The first
  phase collects constraints in a unification table and labels binders without annotation with
  \<open>var k\<close>; the second replaces the labels by the solutions. The unification table is that of the
  crate \<open>ena\<close>, a parameter. The code mutates the term in place: here the annotated term is returned.
\<close>

section \<open>Definitions\<close>

datatype sort_error =
  UnknownSort string
| RedeclaredSort string
| UnknownVariable string
| UnknownFunction string
| RedeclaredName string
| UnificationFail sort sort
| ExpectedButFoundSorts sort sort
| ExpectedButFoundArity string nat nat
| Uncalled string
| Uncallable string
| UnsolvedSort string

fun has_all_sort_annotations_term :: "fterm \<Rightarrow> bool" where
  "has_all_sort_annotations_term (Literal b) = True"
| "has_all_sort_annotations_term (Id name) = True"
| "has_all_sort_annotations_term (App f p xs) = list_all has_all_sort_annotations_term xs"
| "has_all_sort_annotations_term (UnaryOp op x) = has_all_sort_annotations_term x"
| "has_all_sort_annotations_term (BinOp op x y) =
     (has_all_sort_annotations_term x \<and> has_all_sort_annotations_term y)"
| "has_all_sort_annotations_term (NAryOp op xs) = list_all has_all_sort_annotations_term xs"
| "has_all_sort_annotations_term (Ite c t e) =
     (has_all_sort_annotations_term c \<and> has_all_sort_annotations_term t \<and> has_all_sort_annotations_term e)"
| "has_all_sort_annotations_term (Quantified q bs body) =
     (list_all (\<lambda>b. b_sort b \<noteq> sort_unknown) bs \<and> has_all_sort_annotations_term body)"

definition has_all_sort_annotations_module :: "fmodule \<Rightarrow> bool" where
  "has_all_sort_annotations_module m \<longleftrightarrow>
     list_all (\<lambda>d. has_all_sort_annotations_term (d_body d)) (mod_defs m)
     \<and> list_all (\<lambda>st. case st of
           Assume t \<Rightarrow> has_all_sort_annotations_term t
         | Assert p \<Rightarrow> list_all (\<lambda>inv. has_all_sort_annotations_term (sp_x inv)) (p_invariants p)
             \<and> has_all_sort_annotations_term (sp_x (p_assert p))) (mod_statements m)"

datatype maybe_unknown_sort = Known sort | UnknownVar nat

datatype relation_or_individual =
  Relation "sort list" sort
| Individual maybe_unknown_sort

definition ri_known :: "sort \<Rightarrow> relation_or_individual" where
  "ri_known srt = Individual (Known srt)"

definition ri_unknown :: "nat \<Rightarrow> relation_or_individual" where
  "ri_unknown v = Individual (UnknownVar v)"

definition ri_args_ret :: "sort list \<Rightarrow> sort \<Rightarrow> relation_or_individual" where
  "ri_args_ret args ret = (if args = [] then ri_known ret else Relation args ret)"

definition ri_definition :: "definition_decl \<Rightarrow> relation_or_individual" where
  "ri_definition d = ri_args_ret (map b_sort (d_binders d)) (d_ret_sort d)"

definition ri_relation :: "relation_decl \<Rightarrow> relation_or_individual" where
  "ri_relation r = ri_args_ret (rd_args r) (rd_sort r)"

fun unify_values :: "sort option \<Rightarrow> sort option \<Rightarrow> sort_error + sort option" where
  "unify_values None None = Inr None"
| "unify_values None (Some a) = Inr (Some a)"
| "unify_values (Some a) None = Inr (Some a)"
| "unify_values (Some x) (Some y) = (if x = y then Inr (Some x) else Inl (UnificationFail x y))"

text \<open>The operations of \<open>ena::unify\<close> that the code uses; those that combine values take the trait
  function \<open>unify_values\<close> as an argument.\<close>

record 't unification =
  ut_new :: 't
  ut_new_key :: "'t \<Rightarrow> sort option \<Rightarrow> nat \<times> 't"
  ut_unify_var_var ::
    "(sort option \<Rightarrow> sort option \<Rightarrow> sort_error + sort option) \<Rightarrow> 't \<Rightarrow> nat \<Rightarrow> nat \<Rightarrow> sort_error + 't"
  ut_unify_var_value ::
    "(sort option \<Rightarrow> sort option \<Rightarrow> sort_error + sort option) \<Rightarrow> 't \<Rightarrow> nat \<Rightarrow> sort option \<Rightarrow> sort_error + 't"
  ut_probe_value :: "'t \<Rightarrow> nat \<Rightarrow> sort option"

section \<open>Scopes\<close>

record scope =
  sc_signature :: signature
  sc_bound :: "string \<rightharpoonup> relation_or_individual"

definition check_sort_exists_internal :: "scope \<Rightarrow> sort \<Rightarrow> bool \<Rightarrow> sort_error + unit" where
  "check_sort_exists_internal sc srt empty_allowed =
     (case srt of
        Bool \<Rightarrow> Inr ()
      | Uninterpreted a \<Rightarrow>
          if a = [] \<and> empty_allowed then Inr ()
          else if \<not> contains_sort (sc_signature sc) a then Inl (UnknownSort a) else Inr ())"

definition check_sort_exists :: "scope \<Rightarrow> sort \<Rightarrow> sort_error + unit" where
  "check_sort_exists sc srt = check_sort_exists_internal sc srt False"

definition check_sort_exists_or_empty :: "scope \<Rightarrow> sort \<Rightarrow> sort_error + unit" where
  "check_sort_exists_or_empty sc srt = check_sort_exists_internal sc srt True"

datatype shadowing_constraint = Allow | Disallow

definition add_name_internal ::
  "scope \<Rightarrow> string \<Rightarrow> relation_or_individual \<Rightarrow> shadowing_constraint \<Rightarrow> sort_error + scope" where
  "add_name_internal sc name srt shadow =
     (if shadow = Disallow \<and> sc_bound sc name \<noteq> None then Inl (RedeclaredName name)
      else Inr (sc\<lparr>sc_bound := (sc_bound sc)(name \<mapsto> srt)\<rparr>))"

text \<open>\<open>Scope::new\<close>: \<open>None\<close> when a sort name contains a space.\<close>

fun check_sorts_distinct :: "string list \<Rightarrow> string list \<Rightarrow> (sort_error + unit) option" where
  "check_sorts_distinct seen [] = Some (Inr ())"
| "check_sorts_distinct seen (srt # srts) =
     (if CHR '' '' \<in> set srt then None
      else if srt \<in> set seen then Some (Inl (RedeclaredSort srt))
      else check_sorts_distinct (srt # seen) srts)"

fun check_sorts_exist :: "scope \<Rightarrow> sort list \<Rightarrow> sort_error + unit" where
  "check_sorts_exist sc [] = Inr ()"
| "check_sorts_exist sc (srt # srts) = bind_r (check_sort_exists sc srt) (\<lambda>_. check_sorts_exist sc srts)"

fun add_relations :: "scope \<Rightarrow> relation_decl list \<Rightarrow> sort_error + scope" where
  "add_relations sc [] = Inr sc"
| "add_relations sc (rel # rels) =
     bind_r (check_sorts_exist sc (rd_args rel)) (\<lambda>_.
     bind_r (check_sort_exists sc (rd_sort rel)) (\<lambda>_.
     bind_r (add_name_internal sc (rd_name rel) (ri_relation rel) Disallow) (\<lambda>sc. add_relations sc rels)))"

definition scope_new :: "signature \<Rightarrow> (sort_error + scope) option" where
  "scope_new sig =
     bind_pr (check_sorts_distinct [] (sig_sorts sig)) (\<lambda>_.
       Some (add_relations \<lparr>sc_signature = sig, sc_bound = Map.empty\<rparr> (sig_relations sig)))"

definition add_variable :: "scope \<Rightarrow> string \<Rightarrow> sort \<Rightarrow> sort_error + scope" where
  "add_variable sc name srt =
     bind_r (check_sort_exists sc srt) (\<lambda>_. add_name_internal sc name (ri_known srt) Disallow)"

fun add_binders_from :: "string list \<Rightarrow> scope \<Rightarrow> fbinder list \<Rightarrow> shadowing_constraint \<Rightarrow> sort_error + scope" where
  "add_binders_from names sc [] shadow = Inr sc"
| "add_binders_from names sc (b # bs) shadow =
     (if b_name b \<in> set names then Inl (RedeclaredName (b_name b))
      else bind_r (check_sort_exists_or_empty sc (b_sort b)) (\<lambda>_.
        bind_r (add_name_internal sc (b_name b) (ri_known (b_sort b)) shadow) (\<lambda>sc.
          add_binders_from (b_name b # names) sc bs shadow)))"

definition add_binders_internal :: "scope \<Rightarrow> fbinder list \<Rightarrow> shadowing_constraint \<Rightarrow> sort_error + scope" where
  "add_binders_internal sc bs shadow = add_binders_from [] sc bs shadow"

definition add_binders :: "scope \<Rightarrow> fbinder list \<Rightarrow> sort_error + scope" where
  "add_binders sc bs = add_binders_internal sc bs Disallow"

definition get_individual :: "scope \<Rightarrow> string \<Rightarrow> sort_error + maybe_unknown_sort" where
  "get_individual sc name =
     (case sc_bound sc name of
        Some (Relation _ _) \<Rightarrow> Inl (Uncalled name)
      | Some (Individual ret) \<Rightarrow> Inr ret
      | None \<Rightarrow> Inl (UnknownVariable name))"

definition get_relation :: "scope \<Rightarrow> string \<Rightarrow> sort_error + sort list \<times> sort" where
  "get_relation sc name =
     (case sc_bound sc name of
        Some (Individual _) \<Rightarrow> Inl (Uncallable name)
      | Some (Relation args ret) \<Rightarrow> Inr (args, ret)
      | None \<Rightarrow> Inl (UnknownFunction name))"

section \<open>Collecting constraints\<close>

definition sort_var_name :: "nat \<Rightarrow> string" where
  "sort_var_name k = ''var '' @ show_nat k"

fun add_inferred_binders ::
  "'t unification \<Rightarrow> string list \<Rightarrow> scope \<Rightarrow> 't \<Rightarrow> fbinder list \<Rightarrow> sort_error + scope \<times> 't \<times> fbinder list" where
  "add_inferred_binders lib names sc tab [] = Inr (sc, tab, [])"
| "add_inferred_binders lib names sc tab (b # bs) =
     (if b_name b \<in> set names then Inl (RedeclaredName (b_name b))
      else bind_r (check_sort_exists_or_empty sc (b_sort b)) (\<lambda>_.
        let (srt, b', tab) =
          (if b_sort b = sort_unknown
           then let (k, tab) = ut_new_key lib tab None in
             (ri_unknown k, b\<lparr>b_sort := Uninterpreted (sort_var_name k)\<rparr>, tab)
           else (ri_known (b_sort b), b, tab))
        in bind_r (add_name_internal sc (b_name b) srt Allow) (\<lambda>sc.
           bind_r (add_inferred_binders lib (b_name b # names) sc tab bs) (\<lambda>(sc, tab, bs).
             Inr (sc, tab, b' # bs)))))"

definition add_binders_for_inference ::
  "'t unification \<Rightarrow> scope \<Rightarrow> 't \<Rightarrow> fbinder list \<Rightarrow> sort_error + scope \<times> 't \<times> fbinder list" where
  "add_binders_for_inference lib sc tab bs = add_inferred_binders lib [] sc tab bs"

fun unify_var_value :: "'t unification \<Rightarrow> 't \<Rightarrow> sort \<Rightarrow> maybe_unknown_sort \<Rightarrow> sort_error + 't" where
  "unify_var_value lib tab srt (Known v) = (if srt = v then Inr tab else Inl (ExpectedButFoundSorts srt v))"
| "unify_var_value lib tab srt (UnknownVar v) = ut_unify_var_value lib unify_values tab v (Some srt)"

fun unify_var_var ::
  "'t unification \<Rightarrow> 't \<Rightarrow> maybe_unknown_sort \<Rightarrow> maybe_unknown_sort \<Rightarrow> sort_error + 't" where
  "unify_var_var lib tab (Known a) (Known b) = (if a = b then Inr tab else Inl (UnificationFail a b))"
| "unify_var_var lib tab (UnknownVar i) (UnknownVar j) = ut_unify_var_var lib unify_values tab i j"
| "unify_var_var lib tab (Known a) (UnknownVar i) = ut_unify_var_value lib unify_values tab i (Some a)"
| "unify_var_var lib tab (UnknownVar i) (Known a) = ut_unify_var_value lib unify_values tab i (Some a)"

text \<open>Phase 1. \<open>collect_terms\<close> walks through arguments with the sorts they are expected to have.\<close>

fun collect_term :: "'t unification \<Rightarrow> scope \<Rightarrow> 't \<Rightarrow> fterm \<Rightarrow> sort_error + maybe_unknown_sort \<times> fterm \<times> 't"
and collect_terms :: "'t unification \<Rightarrow> scope \<Rightarrow> 't \<Rightarrow> sort list \<Rightarrow> fterm list \<Rightarrow> sort_error + fterm list \<times> 't" where
  "collect_term lib sc tab (Literal b) = Inr (Known Bool, Literal b, tab)"
| "collect_term lib sc tab (Id name) = bind_r (get_individual sc name) (\<lambda>srt. Inr (srt, Id name, tab))"
| "collect_term lib sc tab (App f p xs) =
     bind_r (get_relation sc f) (\<lambda>(args, ret).
       if length args \<noteq> length xs then Inl (ExpectedButFoundArity f (length args) (length xs))
       else bind_r (collect_terms lib sc tab args xs) (\<lambda>(xs, tab). Inr (Known ret, App f p xs, tab)))"
| "collect_term lib sc tab (UnaryOp op x) =
     bind_r (collect_term lib sc tab x) (\<lambda>(srt, x, tab).
       if op = Prime then Inr (srt, UnaryOp op x, tab)
       else bind_r (unify_var_value lib tab Bool srt) (\<lambda>tab. Inr (Known Bool, UnaryOp op x, tab)))"
| "collect_term lib sc tab (BinOp op x y) =
     (if op = Equals \<or> op = NotEquals
      then bind_r (collect_term lib sc tab x) (\<lambda>(a, x, tab).
           bind_r (collect_term lib sc tab y) (\<lambda>(b, y, tab).
           bind_r (unify_var_var lib tab a b) (\<lambda>tab. Inr (Known Bool, BinOp op x y, tab))))
      else bind_r (collect_term lib sc tab x) (\<lambda>(a, x, tab).
           bind_r (unify_var_value lib tab Bool a) (\<lambda>tab.
           bind_r (collect_term lib sc tab y) (\<lambda>(b, y, tab).
           bind_r (unify_var_value lib tab Bool b) (\<lambda>tab. Inr (Known Bool, BinOp op x y, tab))))))"
| "collect_term lib sc tab (NAryOp op xs) =
     bind_r (collect_terms lib sc tab (replicate (length xs) Bool) xs) (\<lambda>(xs, tab).
       Inr (Known Bool, NAryOp op xs, tab))"
| "collect_term lib sc tab (Ite c t e) =
     bind_r (collect_term lib sc tab c) (\<lambda>(srt, c, tab).
     bind_r (unify_var_value lib tab Bool srt) (\<lambda>tab.
     bind_r (collect_term lib sc tab t) (\<lambda>(a, t, tab).
     bind_r (collect_term lib sc tab e) (\<lambda>(b, e, tab).
     bind_r (unify_var_var lib tab a b) (\<lambda>tab. Inr (a, Ite c t e, tab))))))"
| "collect_term lib sc tab (Quantified q bs body) =
     bind_r (add_binders_for_inference lib sc tab bs) (\<lambda>(sc, tab, bs).
     bind_r (collect_term lib sc tab body) (\<lambda>(srt, body, tab).
     bind_r (unify_var_value lib tab Bool srt) (\<lambda>tab. Inr (Known Bool, Quantified q bs body, tab))))"
| "collect_terms lib sc tab (arg # args) (x # xs) =
     bind_r (collect_term lib sc tab x) (\<lambda>(srt, x, tab).
     bind_r (unify_var_value lib tab arg srt) (\<lambda>tab.
     bind_r (collect_terms lib sc tab args xs) (\<lambda>(xs, tab). Inr (x # xs, tab))))"
| "collect_terms lib sc tab _ xs = Inr (xs, tab)"

section \<open>Annotating solved sorts\<close>

definition get_maybe_unknown_sort :: "'t unification \<Rightarrow> 't \<Rightarrow> maybe_unknown_sort \<Rightarrow> sort option" where
  "get_maybe_unknown_sort lib tab srt =
     (case srt of Known srt \<Rightarrow> Some srt | UnknownVar v \<Rightarrow> ut_probe_value lib tab v)"

definition annotate_binder :: "'t unification \<Rightarrow> 't \<Rightarrow> fbinder \<Rightarrow> (sort_error + fbinder) option" where
  "annotate_binder lib tab b =
     (case b_sort b of
        Bool \<Rightarrow> Some (Inr b)
      | Uninterpreted s \<Rightarrow>
         (case split_whitespace s of
            [_] \<Rightarrow> Some (Inr b)
          | [v, ident] \<Rightarrow>
             (if v = ''var'' then
                case parse_u32 ident of None \<Rightarrow> None | Some k \<Rightarrow>
                (case ut_probe_value lib tab k of
                   None \<Rightarrow> Some (Inl (UnsolvedSort (b_name b)))
                 | Some srt \<Rightarrow> Some (Inr (b\<lparr>b_sort := srt\<rparr>)))
              else None)
          | _ \<Rightarrow> None))"

text \<open>Phase 2; \<open>None\<close> is the unreachable branch, or a label that is not a number.\<close>

fun annotate_term :: "'t unification \<Rightarrow> 't \<Rightarrow> fterm \<Rightarrow> (sort_error + fterm) option" where
  "annotate_term lib tab (Literal b) = Some (Inr (Literal b))"
| "annotate_term lib tab (Id name) = Some (Inr (Id name))"
| "annotate_term lib tab (App f p xs) =
     bind_pr (collect_presult (map (annotate_term lib tab) xs)) (\<lambda>xs. Some (Inr (App f p xs)))"
| "annotate_term lib tab (UnaryOp op x) = bind_pr (annotate_term lib tab x) (\<lambda>x. Some (Inr (UnaryOp op x)))"
| "annotate_term lib tab (BinOp op x y) =
     bind_pr (annotate_term lib tab x) (\<lambda>x. bind_pr (annotate_term lib tab y) (\<lambda>y. Some (Inr (BinOp op x y))))"
| "annotate_term lib tab (NAryOp op xs) =
     bind_pr (collect_presult (map (annotate_term lib tab) xs)) (\<lambda>xs. Some (Inr (NAryOp op xs)))"
| "annotate_term lib tab (Ite c t e) =
     bind_pr (annotate_term lib tab c) (\<lambda>c. bind_pr (annotate_term lib tab t) (\<lambda>t.
     bind_pr (annotate_term lib tab e) (\<lambda>e. Some (Inr (Ite c t e)))))"
| "annotate_term lib tab (Quantified q bs body) =
     bind_pr (collect_presult (map (annotate_binder lib tab) bs)) (\<lambda>bs.
     bind_pr (annotate_term lib tab body) (\<lambda>body. Some (Inr (Quantified q bs body))))"

section \<open>Checking terms and modules\<close>

definition context_sort_check_term :: "'t unification \<Rightarrow> scope \<Rightarrow> 't \<Rightarrow> fterm \<Rightarrow> (sort_error + sort \<times> fterm) option" where
  "context_sort_check_term lib sc tab t =
     bind_pr (Some (collect_term lib sc tab t)) (\<lambda>(srt, t, tab).
       case get_maybe_unknown_sort lib tab srt of
         None \<Rightarrow> Some (Inl (UnsolvedSort ''the term given to get_term_sort''))
       | Some srt \<Rightarrow> bind_pr (annotate_term lib tab t) (\<lambda>t.
           if has_all_sort_annotations_term t then Some (Inr (srt, t)) else None))"

definition scope_sort_check_term :: "'t unification \<Rightarrow> scope \<Rightarrow> fterm \<Rightarrow> (sort_error + sort \<times> fterm) option" where
  "scope_sort_check_term lib sc t = context_sort_check_term lib sc (ut_new lib) t"

definition sort_check_term_expect :: "'t unification \<Rightarrow> scope \<Rightarrow> fterm \<Rightarrow> sort \<Rightarrow> (sort_error + fterm) option" where
  "sort_check_term_expect lib sc t expected =
     bind_pr (Some (collect_term lib sc (ut_new lib) t)) (\<lambda>(srt, t, tab).
     bind_pr (Some (unify_var_value lib tab expected srt)) (\<lambda>tab.
       if srt \<noteq> Known expected then None
       else bind_pr (annotate_term lib tab t) (\<lambda>t.
         if has_all_sort_annotations_term t then Some (Inr t) else None)))"

definition sort_check_term_bool :: "'t unification \<Rightarrow> scope \<Rightarrow> fterm \<Rightarrow> (sort_error + fterm) option" where
  "sort_check_term_bool lib sc t = sort_check_term_expect lib sc t Bool"

definition sort_check_term :: "'t unification \<Rightarrow> signature \<Rightarrow> fterm \<Rightarrow> (sort_error + sort \<times> fterm) option" where
  "sort_check_term lib sig t = bind_pr (scope_new sig) (\<lambda>sc. scope_sort_check_term lib sc t)"

definition sort_check_definition ::
  "'t unification \<Rightarrow> scope \<Rightarrow> definition_decl \<Rightarrow> (sort_error + scope \<times> definition_decl) option" where
  "sort_check_definition lib sc d =
     bind_pr (Some (add_binders_internal sc (d_binders d) Allow)) (\<lambda>inner.
     bind_pr (Some (check_sort_exists inner (d_ret_sort d))) (\<lambda>_.
     bind_pr (sort_check_term_expect lib inner (d_body d) (d_ret_sort d)) (\<lambda>body.
     bind_pr (Some (add_name_internal sc (d_name d) (ri_definition d) Disallow)) (\<lambda>sc.
       Some (Inr (sc, d\<lparr>d_body := body\<rparr>))))))"

fun sort_check_definitions ::
  "'t unification \<Rightarrow> scope \<Rightarrow> definition_decl list \<Rightarrow> (sort_error + scope \<times> definition_decl list) option" where
  "sort_check_definitions lib sc [] = Some (Inr (sc, []))"
| "sort_check_definitions lib sc (d # ds) =
     bind_pr (sort_check_definition lib sc d) (\<lambda>(sc, d).
     bind_pr (sort_check_definitions lib sc ds) (\<lambda>(sc, ds). Some (Inr (sc, d # ds))))"

definition map_error :: "'s \<Rightarrow> ('e + 'a) option \<Rightarrow> (('e \<times> 's) + 'a) option" where
  "map_error s r = map_option (\<lambda>r. case r of Inl e \<Rightarrow> Inl (e, s) | Inr x \<Rightarrow> Inr x) r"

definition sort_check_spanned ::
  "'t unification \<Rightarrow> scope \<Rightarrow> fterm spanned \<Rightarrow> (sort_error \<times> span option + fterm spanned) option" where
  "sort_check_spanned lib sc x =
     bind_pr (map_error (sp_span x) (sort_check_term_bool lib sc (sp_x x))) (\<lambda>t. Some (Inr (x\<lparr>sp_x := t\<rparr>)))"

fun sort_check_statement ::
  "'t unification \<Rightarrow> scope \<Rightarrow> thm_stmt \<Rightarrow> (sort_error \<times> span option + thm_stmt) option" where
  "sort_check_statement lib sc (Assume t) =
     bind_pr (map_error None (sort_check_term_bool lib sc t)) (\<lambda>t. Some (Inr (Assume t)))"
| "sort_check_statement lib sc (Assert p) =
     bind_pr (collect_presult (map (sort_check_spanned lib sc) (p_invariants p))) (\<lambda>invs.
     bind_pr (sort_check_spanned lib sc (p_assert p)) (\<lambda>a.
       Some (Inr (Assert (p\<lparr>p_assert := a, p_invariants := invs\<rparr>)))))"

definition sort_check_statements ::
  "'t unification \<Rightarrow> scope \<Rightarrow> thm_stmt list \<Rightarrow> (sort_error \<times> span option + thm_stmt list) option" where
  "sort_check_statements lib sc sts = collect_presult (map (sort_check_statement lib sc) sts)"

definition scope_sort_check_module ::
  "'t unification \<Rightarrow> scope \<Rightarrow> fmodule \<Rightarrow> (sort_error \<times> span option + fmodule) option" where
  "scope_sort_check_module lib sc m =
     (if mod_signature m \<noteq> sc_signature sc then None
      else bind_pr (map_error None (sort_check_definitions lib sc (mod_defs m))) (\<lambda>(sc, defs).
        bind_pr (sort_check_statements lib sc (mod_statements m)) (\<lambda>sts.
          let m = m\<lparr>mod_defs := defs, mod_statements := sts\<rparr> in
          if has_all_sort_annotations_module m then Some (Inr m) else None)))"

definition sort_check_module :: "'t unification \<Rightarrow> fmodule \<Rightarrow> (sort_error \<times> span option + fmodule) option" where
  "sort_check_module lib m =
     bind_pr (map_error None (scope_new (mod_signature m))) (\<lambda>sc. scope_sort_check_module lib sc m)"

end
