(* ===== verification/Fly_Unification.thy ===== *)
theory Fly_Unification
  imports Fly_Sorts
begin

text \<open>
  The documented behaviour of the unification table of the crate \<open>ena\<close>, for the trait functions of
  \<^verbatim>\<open>fly/src/sorts.rs\<close>: keys in equivalence classes, each with at most one sort. What matters to sort
  inference are the solutions of a table, the assignments of sorts to keys that respect classes and
  values; every operation is described by how it changes them. A list of class names and values
  shows that the documentation can be met.
\<close>

section \<open>Documented behaviour\<close>

text \<open>The observers: which tables arise, the number of keys, and which keys are in one class.\<close>

record 't table_view =
  tv_ok :: "'t \<Rightarrow> bool"
  tv_keys :: "'t \<Rightarrow> nat"
  tv_same :: "'t \<Rightarrow> nat \<Rightarrow> nat \<Rightarrow> bool"

definition unification_new_doc :: "'t unification \<Rightarrow> 't table_view \<Rightarrow> bool" where
  "unification_new_doc lib tv \<longleftrightarrow>
     tv_ok tv (ut_new lib) \<and> tv_keys tv (ut_new lib) = 0
     \<and> (\<forall>t i j k. tv_ok tv t \<longrightarrow> i < tv_keys tv t \<longrightarrow> tv_same tv t i i
          \<and> (tv_same tv t i j \<longrightarrow> tv_same tv t j i \<and> ut_probe_value lib t i = ut_probe_value lib t j)
          \<and> (tv_same tv t i j \<longrightarrow> tv_same tv t j k \<longrightarrow> tv_same tv t i k))
     \<and> (\<forall>t v k t'. tv_ok tv t \<longrightarrow> ut_new_key lib t v = (k, t') \<longrightarrow>
          k = tv_keys tv t \<and> tv_ok tv t' \<and> tv_keys tv t' = Suc (tv_keys tv t)
          \<and> ut_probe_value lib t' k = v
          \<and> (\<forall>i<tv_keys tv t. ut_probe_value lib t' i = ut_probe_value lib t i
               \<and> \<not> tv_same tv t' i k \<and> \<not> tv_same tv t' k i
               \<and> (\<forall>j<tv_keys tv t. tv_same tv t' i j = tv_same tv t i j)))"

definition unification_unify_doc :: "'t unification \<Rightarrow> 't table_view \<Rightarrow> bool" where
  "unification_unify_doc lib tv \<longleftrightarrow>
     (\<forall>f t i j. tv_ok tv t \<longrightarrow> i < tv_keys tv t \<longrightarrow> j < tv_keys tv t \<longrightarrow>
        (case (if tv_same tv t i j then Inr (ut_probe_value lib t i)
               else f (ut_probe_value lib t i) (ut_probe_value lib t j)) of
           Inl e \<Rightarrow> ut_unify_var_var lib f t i j = Inl e
         | Inr v \<Rightarrow> \<exists>t'. ut_unify_var_var lib f t i j = Inr t' \<and> tv_ok tv t' \<and> tv_keys tv t' = tv_keys tv t
             \<and> (\<forall>k<tv_keys tv t. ut_probe_value lib t' k
                  = (if tv_same tv t k i \<or> tv_same tv t k j then v else ut_probe_value lib t k)
                \<and> (\<forall>l<tv_keys tv t. tv_same tv t' k l \<longleftrightarrow> tv_same tv t k l
                     \<or> (tv_same tv t k i \<or> tv_same tv t k j) \<and> (tv_same tv t l i \<or> tv_same tv t l j)))))
     \<and> (\<forall>f t i w. tv_ok tv t \<longrightarrow> i < tv_keys tv t \<longrightarrow>
        (case f (ut_probe_value lib t i) w of
           Inl e \<Rightarrow> ut_unify_var_value lib f t i w = Inl e
         | Inr v \<Rightarrow> \<exists>t'. ut_unify_var_value lib f t i w = Inr t' \<and> tv_ok tv t' \<and> tv_keys tv t' = tv_keys tv t
             \<and> (\<forall>k<tv_keys tv t. ut_probe_value lib t' k = (if tv_same tv t k i then v else ut_probe_value lib t k)
                \<and> (\<forall>l<tv_keys tv t. tv_same tv t' k l = tv_same tv t k l))))"

definition unification_doc :: "'t unification \<Rightarrow> 't table_view \<Rightarrow> bool" where
  "unification_doc lib tv \<longleftrightarrow> unification_new_doc lib tv \<and> unification_unify_doc lib tv"

section \<open>Solutions\<close>

definition solves :: "'t unification \<Rightarrow> 't table_view \<Rightarrow> (nat \<Rightarrow> sort) \<Rightarrow> 't \<Rightarrow> bool" where
  "solves lib tv \<rho> t \<longleftrightarrow>
     (\<forall>i<tv_keys tv t. (\<forall>j<tv_keys tv t. tv_same tv t i j \<longrightarrow> \<rho> i = \<rho> j)
        \<and> (\<forall>s. ut_probe_value lib t i = Some s \<longrightarrow> \<rho> i = s))"

fun sort_under :: "(nat \<Rightarrow> sort) \<Rightarrow> maybe_unknown_sort \<Rightarrow> sort" where
  "sort_under \<rho> (Known s) = s"
| "sort_under \<rho> (UnknownVar k) = \<rho> k"

fun key_below :: "nat \<Rightarrow> maybe_unknown_sort \<Rightarrow> bool" where
  "key_below n (Known s) = True"
| "key_below n (UnknownVar k) = (k < n)"

lemma key_below_mono: "key_below m ms \<Longrightarrow> m \<le> n \<Longrightarrow> key_below n ms"
  by (cases ms) auto

lemma new_tableD:
  assumes "unification_doc lib tv"
  shows "tv_ok tv (ut_new lib)" and "tv_keys tv (ut_new lib) = 0" and "solves lib tv \<rho> (ut_new lib)"
proof -
  show ok: "tv_ok tv (ut_new lib)" and keys: "tv_keys tv (ut_new lib) = 0"
    using assms unfolding unification_doc_def unification_new_doc_def by - (elim conjE, assumption)+
  show "solves lib tv \<rho> (ut_new lib)" unfolding solves_def keys by blast
qed

lemma tv_same_facts:
  assumes "unification_doc lib tv" and "tv_ok tv t" and "i < tv_keys tv t"
  shows "tv_same tv t i i"
    and "tv_same tv t i j \<Longrightarrow> tv_same tv t j i"
    and "tv_same tv t i j \<Longrightarrow> ut_probe_value lib t i = ut_probe_value lib t j"
    and "tv_same tv t i j \<Longrightarrow> tv_same tv t j k \<Longrightarrow> tv_same tv t i k"
proof -
  have "\<forall>t i j k. tv_ok tv t \<longrightarrow> i < tv_keys tv t \<longrightarrow> tv_same tv t i i
      \<and> (tv_same tv t i j \<longrightarrow> tv_same tv t j i \<and> ut_probe_value lib t i = ut_probe_value lib t j)
      \<and> (tv_same tv t i j \<longrightarrow> tv_same tv t j k \<longrightarrow> tv_same tv t i k)"
    using assms(1) unfolding unification_doc_def unification_new_doc_def by - (elim conjE, assumption)
  from this [rule_format, OF assms(2,3), of j k]
  show "tv_same tv t i i" "tv_same tv t i j \<Longrightarrow> tv_same tv t j i"
    "tv_same tv t i j \<Longrightarrow> ut_probe_value lib t i = ut_probe_value lib t j"
    "tv_same tv t i j \<Longrightarrow> tv_same tv t j k \<Longrightarrow> tv_same tv t i k" by simp_all
qed

lemma new_keyD:
  assumes doc: "unification_doc lib tv" and ok: "tv_ok tv t" and new: "ut_new_key lib t None = (k, t')"
  shows "k = tv_keys tv t" and "tv_ok tv t'" and "tv_keys tv t' = Suc (tv_keys tv t)"
    and "solves lib tv \<rho> t' \<longleftrightarrow> solves lib tv \<rho> t" and "ut_probe_value lib t' k = None"
    and "i < tv_keys tv t \<Longrightarrow> ut_probe_value lib t' i = ut_probe_value lib t i"
proof -
  from doc ok new have *: "k = tv_keys tv t \<and> tv_ok tv t' \<and> tv_keys tv t' = Suc (tv_keys tv t)
      \<and> ut_probe_value lib t' k = None
      \<and> (\<forall>i<tv_keys tv t. ut_probe_value lib t' i = ut_probe_value lib t i
          \<and> \<not> tv_same tv t' i k \<and> \<not> tv_same tv t' k i
          \<and> (\<forall>j<tv_keys tv t. tv_same tv t' i j = tv_same tv t i j))"
    unfolding unification_doc_def unification_new_doc_def by blast
  then show "k = tv_keys tv t" "tv_ok tv t'" "tv_keys tv t' = Suc (tv_keys tv t)" "ut_probe_value lib t' k = None"
    "i < tv_keys tv t \<Longrightarrow> ut_probe_value lib t' i = ut_probe_value lib t i" by blast+
  show "solves lib tv \<rho> t' \<longleftrightarrow> solves lib tv \<rho> t"
    using * unfolding solves_def by (auto simp: less_Suc_eq)
qed

lemma unify_values_Inr: "unify_values a b = Inr c \<longleftrightarrow>
  (a = None \<and> c = b \<or> b = None \<and> c = a \<or> a = b \<and> c = a)"
  by (cases a; cases b) auto

lemma unify_values_Inl: "unify_values a b = Inl e \<Longrightarrow> \<exists>x y. a = Some x \<and> b = Some y \<and> x \<noteq> y"
  by (cases a; cases b) (auto split: if_splits)

lemma unify_var_value_table:
  assumes doc: "unification_doc lib tv" and ok: "tv_ok tv t" and i: "i < tv_keys tv t"
  shows "ut_unify_var_value lib unify_values t i (Some s) = Inr t' \<Longrightarrow>
      tv_ok tv t' \<and> tv_keys tv t' = tv_keys tv t \<and> (solves lib tv \<rho> t' \<longleftrightarrow> solves lib tv \<rho> t \<and> \<rho> i = s)
      \<and> (\<forall>k<tv_keys tv t. \<forall>v. ut_probe_value lib t' k = Some v \<longrightarrow> ut_probe_value lib t k = Some v \<or> v = s)"
    and "ut_unify_var_value lib unify_values t i (Some s) = Inl e \<Longrightarrow> solves lib tv \<rho> t \<Longrightarrow> \<rho> i \<noteq> s"
proof -
  let ?p = "ut_probe_value lib t i"
  have D: "case unify_values ?p (Some s) of
      Inl e \<Rightarrow> ut_unify_var_value lib unify_values t i (Some s) = Inl e
    | Inr v \<Rightarrow> \<exists>t'. ut_unify_var_value lib unify_values t i (Some s) = Inr t' \<and> tv_ok tv t' \<and> tv_keys tv t' = tv_keys tv t
        \<and> (\<forall>k<tv_keys tv t. ut_probe_value lib t' k = (if tv_same tv t k i then v else ut_probe_value lib t k)
            \<and> (\<forall>l<tv_keys tv t. tv_same tv t' k l = tv_same tv t k l))"
    using doc ok i unfolding unification_doc_def unification_unify_doc_def by blast
  note same = tv_same_facts [OF doc ok]
  {
    assume r: "ut_unify_var_value lib unify_values t i (Some s) = Inr t'"
    with D have v: "unify_values ?p (Some s) = Inr (Some s)" and ok': "tv_ok tv t'" "tv_keys tv t' = tv_keys tv t"
      and pr: "\<And>k. k < tv_keys tv t \<Longrightarrow> ut_probe_value lib t' k = (if tv_same tv t k i then Some s else ut_probe_value lib t k)"
      and sm: "\<And>k l. k < tv_keys tv t \<Longrightarrow> l < tv_keys tv t \<Longrightarrow> tv_same tv t' k l = tv_same tv t k l"
      by (auto simp: unify_values_Inr split: sum.splits)
    from v have p: "?p = None \<or> ?p = Some s" by (auto simp: unify_values_Inr)
    have "solves lib tv \<rho> t' \<longleftrightarrow> solves lib tv \<rho> t \<and> \<rho> i = s"
    proof
      assume S: "solves lib tv \<rho> t'"
      then have "\<rho> i = s" using pr [OF i] same(1) [OF i] i ok'(2) by (auto simp: solves_def)
      moreover have "\<rho> k = u" if "k < tv_keys tv t" "ut_probe_value lib t k = Some u" for k u
      proof (cases "tv_same tv t k i")
        case True
        then have "ut_probe_value lib t k = ?p" using same(3) that(1) by blast
        with p that(2) have "u = s" by auto
        with True S that(1) ok'(2) pr [OF that(1)] show ?thesis by (auto simp: solves_def)
      next
        case False
        with S that ok'(2) pr [OF that(1)] show ?thesis by (auto simp: solves_def)
      qed
      ultimately show "solves lib tv \<rho> t \<and> \<rho> i = s" using S sm ok'(2) by (auto simp: solves_def)
    next
      assume S: "solves lib tv \<rho> t \<and> \<rho> i = s"
      then show "solves lib tv \<rho> t'" using pr sm i ok'(2) by (auto simp: solves_def split: if_splits)
    qed
    moreover have "ut_probe_value lib t k = Some v \<or> v = s" if "k < tv_keys tv t" "ut_probe_value lib t' k = Some v" for k v
      using pr [OF that(1)] that(2) by (auto split: if_splits)
    ultimately show "tv_ok tv t' \<and> tv_keys tv t' = tv_keys tv t \<and> (solves lib tv \<rho> t' \<longleftrightarrow> solves lib tv \<rho> t \<and> \<rho> i = s)
      \<and> (\<forall>k<tv_keys tv t. \<forall>v. ut_probe_value lib t' k = Some v \<longrightarrow> ut_probe_value lib t k = Some v \<or> v = s)"
      using ok' by blast
  }
  {
    assume r: "ut_unify_var_value lib unify_values t i (Some s) = Inl e" and S: "solves lib tv \<rho> t"
    from D r obtain e' where "unify_values ?p (Some s) = Inl e'" by (auto split: sum.splits)
    from unify_values_Inl [OF this] obtain x where "?p = Some x" "x \<noteq> s" by auto
    with S i show "\<rho> i \<noteq> s" by (auto simp: solves_def)
  }
qed

lemma unify_var_var_table:
  assumes doc: "unification_doc lib tv" and ok: "tv_ok tv t" and i: "i < tv_keys tv t" and j: "j < tv_keys tv t"
  shows "ut_unify_var_var lib unify_values t i j = Inr t' \<Longrightarrow>
      tv_ok tv t' \<and> tv_keys tv t' = tv_keys tv t \<and> (solves lib tv \<rho> t' \<longleftrightarrow> solves lib tv \<rho> t \<and> \<rho> i = \<rho> j)
      \<and> (\<forall>k<tv_keys tv t. \<forall>v. ut_probe_value lib t' k = Some v \<longrightarrow> (\<exists>l<tv_keys tv t. ut_probe_value lib t l = Some v))"
    and "ut_unify_var_var lib unify_values t i j = Inl e \<Longrightarrow> solves lib tv \<rho> t \<Longrightarrow> \<rho> i \<noteq> \<rho> j"
proof -
  let ?n = "tv_keys tv t" and ?p = "ut_probe_value lib t" and ?S = "tv_same tv t"
  let ?c = "if ?S i j then Inr (?p i) else unify_values (?p i) (?p j)"
  have D: "case ?c of
      Inl e \<Rightarrow> ut_unify_var_var lib unify_values t i j = Inl e
    | Inr v \<Rightarrow> \<exists>t'. ut_unify_var_var lib unify_values t i j = Inr t' \<and> tv_ok tv t' \<and> tv_keys tv t' = ?n
        \<and> (\<forall>k<?n. ut_probe_value lib t' k = (if ?S k i \<or> ?S k j then v else ?p k)
            \<and> (\<forall>l<?n. tv_same tv t' k l \<longleftrightarrow> ?S k l \<or> (?S k i \<or> ?S k j) \<and> (?S l i \<or> ?S l j)))"
    using doc ok i j unfolding unification_doc_def unification_unify_doc_def by blast
  note same = tv_same_facts [OF doc ok]
  {
    assume r: "ut_unify_var_var lib unify_values t i j = Inr t'"
    with D obtain v where v: "?c = Inr v" and ok': "tv_ok tv t'" "tv_keys tv t' = ?n"
      and pr: "\<And>k. k < ?n \<Longrightarrow> ut_probe_value lib t' k = (if ?S k i \<or> ?S k j then v else ?p k)"
      and sm: "\<And>k l. k < ?n \<Longrightarrow> l < ?n \<Longrightarrow> tv_same tv t' k l \<longleftrightarrow> ?S k l \<or> (?S k i \<or> ?S k j) \<and> (?S l i \<or> ?S l j)"
      by (cases ?c) auto
    have v': "v = ?p i \<or> v = ?p j" "?p i = None \<or> ?p i = v" "?p j = None \<or> ?p j = v"
      using v same(3) [OF i, of j] by (auto simp: unify_values_Inr split: if_splits)
    have "solves lib tv \<rho> t' \<longleftrightarrow> solves lib tv \<rho> t \<and> \<rho> i = \<rho> j"
    proof
      assume S: "solves lib tv \<rho> t'"
      then have "\<rho> i = \<rho> j" using sm [OF i j] same(1) i j ok'(2) by (auto simp: solves_def)
      moreover have "\<rho> k = u" if "k < ?n" "?p k = Some u" for k u
      proof (cases "?S k i \<or> ?S k j")
        case True
        then have "?p k = ?p i \<or> ?p k = ?p j" using same(3) that(1) by blast
        with v' that(2) have "v = Some u" by auto
        with True S that(1) ok'(2) pr [OF that(1)] show ?thesis by (auto simp: solves_def)
      next
        case False
        with S that ok'(2) pr [OF that(1)] show ?thesis by (auto simp: solves_def)
      qed
      ultimately show "solves lib tv \<rho> t \<and> \<rho> i = \<rho> j" using S sm ok'(2) by (auto simp: solves_def)
    next
      assume S: "solves lib tv \<rho> t \<and> \<rho> i = \<rho> j"
      have ij: "\<rho> k = \<rho> i" if "k < ?n" "?S k i \<or> ?S k j" for k
        using S that i j by (auto simp: solves_def)
      have val: "\<rho> i = u" if "v = Some u" for u
        using S v'(1) that i j by (auto simp: solves_def)
      have "\<rho> k = \<rho> l" if "k < ?n" "l < ?n" "tv_same tv t' k l" for k l
        using sm [OF that(1,2)] that ij S by (auto simp: solves_def)
      moreover have "\<rho> k = u" if "k < ?n" "ut_probe_value lib t' k = Some u" for k u
        using pr [OF that(1)] that ij val S by (auto simp: solves_def split: if_splits)
      ultimately show "solves lib tv \<rho> t'" using ok'(2) by (simp add: solves_def)
    qed
    moreover have "\<exists>l<?n. ?p l = Some u" if "k < ?n" "ut_probe_value lib t' k = Some u" for k u
      using pr [OF that(1)] that v'(1) i j by (metis (no_types, lifting))
    ultimately show "tv_ok tv t' \<and> tv_keys tv t' = ?n \<and> (solves lib tv \<rho> t' \<longleftrightarrow> solves lib tv \<rho> t \<and> \<rho> i = \<rho> j)
      \<and> (\<forall>k<?n. \<forall>v. ut_probe_value lib t' k = Some v \<longrightarrow> (\<exists>l<?n. ?p l = Some v))"
      using ok' by blast
  }
  {
    assume r: "ut_unify_var_var lib unify_values t i j = Inl e" and S: "solves lib tv \<rho> t"
    from D r obtain e' where "?c = Inl e'" by (cases ?c) auto
    then have "unify_values (?p i) (?p j) = Inl e'" by (auto split: if_splits)
    from unify_values_Inl [OF this] obtain x y where "?p i = Some x" "?p j = Some y" "x \<noteq> y" by auto
    with S i j show "\<rho> i \<noteq> \<rho> j" by (auto simp: solves_def)
  }
qed

section \<open>The tables of sort inference\<close>

text \<open>Both forms of unification on sorts that may be known, and what they keep of the invariant that
  the sorts in the table are declared.\<close>

definition values_in :: "'t unification \<Rightarrow> 't table_view \<Rightarrow> (sort \<Rightarrow> bool) \<Rightarrow> 't \<Rightarrow> bool" where
  "values_in lib tv P t \<longleftrightarrow> (\<forall>k<tv_keys tv t. \<forall>s. ut_probe_value lib t k = Some s \<longrightarrow> P s)"

fun known_in :: "(sort \<Rightarrow> bool) \<Rightarrow> maybe_unknown_sort \<Rightarrow> bool" where
  "known_in P (Known s) = P s"
| "known_in P (UnknownVar k) = True"

lemma unify_var_value_sorts:
  assumes "unification_doc lib tv" and "tv_ok tv t" and "key_below (tv_keys tv t) ms"
  shows "unify_var_value lib t s ms = Inr t' \<Longrightarrow>
      tv_ok tv t' \<and> tv_keys tv t' = tv_keys tv t \<and> (solves lib tv \<rho> t' \<longleftrightarrow> solves lib tv \<rho> t \<and> sort_under \<rho> ms = s)
      \<and> (values_in lib tv P t \<longrightarrow> P s \<longrightarrow> values_in lib tv P t')"
    and "unify_var_value lib t s ms = Inl e \<Longrightarrow> solves lib tv \<rho> t \<Longrightarrow> sort_under \<rho> ms \<noteq> s"
proof -
  show "tv_ok tv t' \<and> tv_keys tv t' = tv_keys tv t \<and> (solves lib tv \<rho> t' \<longleftrightarrow> solves lib tv \<rho> t \<and> sort_under \<rho> ms = s)
      \<and> (values_in lib tv P t \<longrightarrow> P s \<longrightarrow> values_in lib tv P t')" if r: "unify_var_value lib t s ms = Inr t'"
  proof (cases ms)
    case (Known v)
    with r assms(2) show ?thesis by (auto split: if_splits)
  next
    case (UnknownVar i)
    with assms(3) have i: "i < tv_keys tv t" by simp
    from r UnknownVar have "ut_unify_var_value lib unify_values t i (Some s) = Inr t'" by simp
    from unify_var_value_table(1) [OF assms(1,2) i this, of \<rho>]
    show ?thesis unfolding UnknownVar values_in_def sort_under.simps by metis
  qed
  show "sort_under \<rho> ms \<noteq> s" if "unify_var_value lib t s ms = Inl e" "solves lib tv \<rho> t"
    using that unify_var_value_table(2) [OF assms(1,2)] assms(3) by (cases ms) (auto split: if_splits)
qed

lemma unify_var_var_sorts:
  assumes "unification_doc lib tv" and "tv_ok tv t" and "key_below (tv_keys tv t) a" and "key_below (tv_keys tv t) b"
  shows "unify_var_var lib t a b = Inr t' \<Longrightarrow>
      tv_ok tv t' \<and> tv_keys tv t' = tv_keys tv t
      \<and> (solves lib tv \<rho> t' \<longleftrightarrow> solves lib tv \<rho> t \<and> sort_under \<rho> a = sort_under \<rho> b)
      \<and> (values_in lib tv P t \<longrightarrow> known_in P a \<longrightarrow> known_in P b \<longrightarrow> values_in lib tv P t')"
    and "unify_var_var lib t a b = Inl e \<Longrightarrow> solves lib tv \<rho> t \<Longrightarrow> sort_under \<rho> a \<noteq> sort_under \<rho> b"
proof -
  have with_value: "tv_ok tv t' \<and> tv_keys tv t' = tv_keys tv t \<and> (solves lib tv \<rho> t' \<longleftrightarrow> solves lib tv \<rho> t \<and> \<rho> i = s)
      \<and> (values_in lib tv P t \<longrightarrow> P s \<longrightarrow> values_in lib tv P t')"
    if "ut_unify_var_value lib unify_values t i (Some s) = Inr t'" "i < tv_keys tv t" for i s
    using unify_var_value_table(1) [OF assms(1,2) that(2,1), of \<rho>] unfolding values_in_def by metis
  show "tv_ok tv t' \<and> tv_keys tv t' = tv_keys tv t
      \<and> (solves lib tv \<rho> t' \<longleftrightarrow> solves lib tv \<rho> t \<and> sort_under \<rho> a = sort_under \<rho> b)
      \<and> (values_in lib tv P t \<longrightarrow> known_in P a \<longrightarrow> known_in P b \<longrightarrow> values_in lib tv P t')"
    if r: "unify_var_var lib t a b = Inr t'"
  proof (cases a)
    case (Known x)
    show ?thesis
    proof (cases b)
      case (Known y)
      with r \<open>a = Known x\<close> assms(2) show ?thesis by (auto split: if_splits)
    next
      case (UnknownVar j)
      with r \<open>a = Known x\<close> assms(4) with_value [of j x] show ?thesis by auto
    qed
  next
    case (UnknownVar i)
    show ?thesis
    proof (cases b)
      case (Known y)
      with r \<open>a = UnknownVar i\<close> assms(3) with_value [of i y] show ?thesis by auto
    next
      case b: (UnknownVar j)
      with UnknownVar assms(3,4) have ij: "i < tv_keys tv t" "j < tv_keys tv t" by simp_all
      from r UnknownVar b have "ut_unify_var_var lib unify_values t i j = Inr t'" by simp
      from unify_var_var_table(1) [OF assms(1,2) ij this, of \<rho>]
      show ?thesis unfolding UnknownVar b values_in_def sort_under.simps by metis
    qed
  qed
  show "sort_under \<rho> a \<noteq> sort_under \<rho> b" if "unify_var_var lib t a b = Inl e" "solves lib tv \<rho> t"
    using that unify_var_var_table(2) [OF assms(1,2)] unify_var_value_table(2) [OF assms(1,2)] assms(3,4)
    by (cases a; cases b) (fastforce split: if_splits)+
qed

text \<open>Every table has a solution, which gives unsolved keys any sort.\<close>

definition default_solution :: "'t unification \<Rightarrow> 't \<Rightarrow> nat \<Rightarrow> sort" where
  "default_solution lib t k = (case ut_probe_value lib t k of Some s \<Rightarrow> s | None \<Rightarrow> Bool)"

lemma default_solves:
  assumes "unification_doc lib tv" and "tv_ok tv t"
  shows "solves lib tv (default_solution lib t) t"
  using tv_same_facts(3) [OF assms] by (auto simp: solves_def default_solution_def)

section \<open>A reference implementation\<close>

definition list_unification :: "(nat \<times> sort option) list unification" where
  "list_unification =
     \<lparr>ut_new = [],
      ut_new_key = (\<lambda>t v. (length t, t @ [(length t, v)])),
      ut_unify_var_var = (\<lambda>f t i j.
        if fst (t ! i) = fst (t ! j) then Inr t
        else bind_r (f (snd (t ! i)) (snd (t ! j))) (\<lambda>v.
          Inr (map (\<lambda>(c, w). if c = fst (t ! i) \<or> c = fst (t ! j) then (fst (t ! i), v) else (c, w)) t))),
      ut_unify_var_value = (\<lambda>f t i v.
        bind_r (f (snd (t ! i)) v) (\<lambda>v. Inr (map (\<lambda>(c, w). if c = fst (t ! i) then (c, v) else (c, w)) t))),
      ut_probe_value = (\<lambda>t i. snd (t ! i))\<rparr>"

definition list_view :: "(nat \<times> sort option) list table_view" where
  "list_view =
     \<lparr>tv_ok = (\<lambda>t. \<forall>i<length t. fst (t ! i) < length t
        \<and> (\<forall>j<length t. fst (t ! i) = fst (t ! j) \<longrightarrow> snd (t ! i) = snd (t ! j))),
      tv_keys = length, tv_same = (\<lambda>t i j. i < length t \<and> j < length t \<and> fst (t ! i) = fst (t ! j))\<rparr>"

lemma list_unification_doc: "unification_doc list_unification list_view"
proof -
  have "unification_new_doc list_unification list_view"
    unfolding unification_new_doc_def
  proof (intro conjI allI impI)
    fix t v k t'
    assume okt: "tv_ok list_view t" and "ut_new_key list_unification t v = (k, t')"
    then have t': "k = length t" "t' = t @ [(length t, v)]" by (auto simp: list_unification_def)
    from okt have ok: "\<And>i j. i < length t \<Longrightarrow> j < length t \<Longrightarrow> fst (t ! i) = fst (t ! j) \<Longrightarrow> snd (t ! i) = snd (t ! j)"
      and below: "\<And>i. i < length t \<Longrightarrow> fst (t ! i) < length t"
      unfolding list_view_def table_view.simps by blast+
    show "k = tv_keys list_view t" "tv_keys list_view t' = Suc (tv_keys list_view t)"
      "ut_probe_value list_unification t' k = v"
      by (simp_all add: t' list_view_def list_unification_def)
    show "tv_ok list_view t'"
      unfolding list_view_def table_view.simps
    proof (intro allI impI conjI)
      fix i assume "i < length t'"
      then show "fst (t' ! i) < length t'"
        using below [of i] by (cases "i < length t") (simp_all add: t' nth_append)
      fix j assume "j < length t'" "fst (t' ! i) = fst (t' ! j)"
      with \<open>i < length t'\<close> show "snd (t' ! i) = snd (t' ! j)"
        using ok [of i j] below [of i] below [of j]
        by (cases "i < length t"; cases "j < length t") (simp_all add: t' nth_append)
    qed
    fix i assume i: "i < tv_keys list_view t"
    then show "ut_probe_value list_unification t' i = ut_probe_value list_unification t i"
      "\<not> tv_same list_view t' i k" "\<not> tv_same list_view t' k i"
      using below [of i] by (simp_all add: t' list_view_def list_unification_def nth_append)
    fix j assume "j < tv_keys list_view t"
    with i show "tv_same list_view t' i j = tv_same list_view t i j"
      by (simp add: t' list_view_def nth_append)
  next
    fix t i j k assume okt: "tv_ok list_view t" and i: "i < tv_keys list_view t"
    show "tv_same list_view t i i" using i by (simp add: list_view_def)
    assume ij: "tv_same list_view t i j"
    then show "tv_same list_view t j i" by (simp add: list_view_def)
    show "ut_probe_value list_unification t i = ut_probe_value list_unification t j"
      using okt ij unfolding list_view_def list_unification_def table_view.simps unification.simps by blast
    assume "tv_same list_view t j k"
    with ij show "tv_same list_view t i k" by (simp add: list_view_def)
  qed (simp_all add: list_view_def list_unification_def)
  moreover have "unification_unify_doc list_unification list_view"
    unfolding unification_unify_doc_def
  proof (intro conjI allI impI)
    fix f t i j
    assume okt: "tv_ok list_view t" and "i < tv_keys list_view t" "j < tv_keys list_view t"
    with okt have ij: "i < length t" "j < length t"
      and ok: "\<And>k l. k < length t \<Longrightarrow> l < length t \<Longrightarrow> fst (t ! k) = fst (t ! l) \<Longrightarrow> snd (t ! k) = snd (t ! l)"
      and below: "\<And>k. k < length t \<Longrightarrow> fst (t ! k) < length t"
      unfolding list_view_def table_view.simps by blast+
    show "case (if tv_same list_view t i j then Inr (ut_probe_value list_unification t i)
               else f (ut_probe_value list_unification t i) (ut_probe_value list_unification t j)) of
           Inl e \<Rightarrow> ut_unify_var_var list_unification f t i j = Inl e
         | Inr v \<Rightarrow> \<exists>t'. ut_unify_var_var list_unification f t i j = Inr t' \<and> tv_ok list_view t' \<and> tv_keys list_view t' = tv_keys list_view t
             \<and> (\<forall>k<tv_keys list_view t. ut_probe_value list_unification t' k
                  = (if tv_same list_view t k i \<or> tv_same list_view t k j then v else ut_probe_value list_unification t k)
                \<and> (\<forall>l<tv_keys list_view t. tv_same list_view t' k l \<longleftrightarrow> tv_same list_view t k l
                     \<or> (tv_same list_view t k i \<or> tv_same list_view t k j) \<and> (tv_same list_view t l i \<or> tv_same list_view t l j)))"
    proof (cases "fst (t ! i) = fst (t ! j)")
      case True
      have "ut_probe_value list_unification t k = (if tv_same list_view t k i \<or> tv_same list_view t k j
            then ut_probe_value list_unification t i else ut_probe_value list_unification t k)
          \<and> (\<forall>l<tv_keys list_view t. tv_same list_view t k l \<longleftrightarrow> tv_same list_view t k l
            \<or> (tv_same list_view t k i \<or> tv_same list_view t k j) \<and> (tv_same list_view t l i \<or> tv_same list_view t l j))"
        if "k < tv_keys list_view t" for k
        using ok [of k i] that ij True by (auto simp: list_view_def list_unification_def)
      moreover have "tv_same list_view t i j" "ut_unify_var_var list_unification f t i j = Inr t"
        using True ij by (simp_all add: list_view_def list_unification_def)
      ultimately show ?thesis using okt by simp
    next
      case False
      show ?thesis
      proof (cases "f (snd (t ! i)) (snd (t ! j))")
        case (Inl e)
        with False ij show ?thesis by (simp add: list_view_def list_unification_def)
      next
        case (Inr v)
        let ?t = "map (\<lambda>(c, w). if c = fst (t ! i) \<or> c = fst (t ! j) then (fst (t ! i), v) else (c, w)) t"
        have nth: "?t ! k = (if fst (t ! k) = fst (t ! i) \<or> fst (t ! k) = fst (t ! j) then (fst (t ! i), v) else t ! k)"
          if "k < length t" for k using that by (simp add: case_prod_beta)
        have "ut_unify_var_var list_unification f t i j = Inr ?t"
          using False Inr by (simp add: list_unification_def)
        moreover have "tv_ok list_view ?t"
          unfolding list_view_def table_view.simps length_map
        proof (intro allI impI conjI)
          fix k assume k: "k < length t"
          then show "fst (?t ! k) < length t" using below [of k] below [of i] ij by (simp only: nth split: if_split) simp
          fix l assume l: "l < length t" "fst (?t ! k) = fst (?t ! l)"
          then show "snd (?t ! k) = snd (?t ! l)"
            using ok [of k l] k unfolding nth [OF k] nth [OF l(1)] by (auto split: if_splits)
        qed
        moreover have "ut_probe_value list_unification ?t k = (if tv_same list_view t k i \<or> tv_same list_view t k j
              then v else ut_probe_value list_unification t k)"
          "l < tv_keys list_view t \<Longrightarrow> tv_same list_view ?t k l \<longleftrightarrow> tv_same list_view t k l
            \<or> (tv_same list_view t k i \<or> tv_same list_view t k j) \<and> (tv_same list_view t l i \<or> tv_same list_view t l j)"
          if "k < tv_keys list_view t" for k l
          using ij that by (auto simp: list_view_def list_unification_def nth simp del: nth_map)
        moreover have "tv_keys list_view ?t = tv_keys list_view t" by (simp add: list_view_def)
        moreover have c: "(if tv_same list_view t i j then Inr (ut_probe_value list_unification t i)
            else f (ut_probe_value list_unification t i) (ut_probe_value list_unification t j)) = Inr v"
          using False Inr by (simp add: list_view_def list_unification_def)
        ultimately show ?thesis unfolding c sum.case by blast
      qed
    qed
  next
    fix f t i w
    assume "tv_ok list_view t" "i < tv_keys list_view t"
    then have i: "i < length t"
      and ok: "\<And>k l. k < length t \<Longrightarrow> l < length t \<Longrightarrow> fst (t ! k) = fst (t ! l) \<Longrightarrow> snd (t ! k) = snd (t ! l)"
      and below: "\<And>k. k < length t \<Longrightarrow> fst (t ! k) < length t"
      unfolding list_view_def table_view.simps by blast+
    show "case f (ut_probe_value list_unification t i) w of
           Inl e \<Rightarrow> ut_unify_var_value list_unification f t i w = Inl e
         | Inr v \<Rightarrow> \<exists>t'. ut_unify_var_value list_unification f t i w = Inr t' \<and> tv_ok list_view t' \<and> tv_keys list_view t' = tv_keys list_view t
             \<and> (\<forall>k<tv_keys list_view t. ut_probe_value list_unification t' k
                  = (if tv_same list_view t k i then v else ut_probe_value list_unification t k)
                \<and> (\<forall>l<tv_keys list_view t. tv_same list_view t' k l = tv_same list_view t k l))"
    proof (cases "f (snd (t ! i)) w")
      case (Inl e)
      then show ?thesis by (simp add: list_unification_def)
    next
      case (Inr v)
      let ?t = "map (\<lambda>(c, w). if c = fst (t ! i) then (c, v) else (c, w)) t"
      have nth: "?t ! k = (if fst (t ! k) = fst (t ! i) then (fst (t ! i), v) else t ! k)"
        if "k < length t" for k using that by (simp add: case_prod_beta)
      have "ut_unify_var_value list_unification f t i w = Inr ?t" using Inr by (simp add: list_unification_def)
      moreover have "tv_ok list_view ?t"
        unfolding list_view_def table_view.simps length_map
      proof (intro allI impI conjI)
        fix k assume k: "k < length t"
        then show "fst (?t ! k) < length t" using below [of k] below [of i] i by (simp only: nth split: if_split) simp
        fix l assume l: "l < length t" "fst (?t ! k) = fst (?t ! l)"
        then show "snd (?t ! k) = snd (?t ! l)"
          using ok [of k l] k unfolding nth [OF k] nth [OF l(1)] by (auto split: if_splits)
      qed
      moreover have "ut_probe_value list_unification ?t k = (if tv_same list_view t k i
            then v else ut_probe_value list_unification t k)"
        "l < tv_keys list_view t \<Longrightarrow> tv_same list_view ?t k l = tv_same list_view t k l"
        if "k < tv_keys list_view t" for k l
        using i that by (auto simp: list_view_def list_unification_def nth simp del: nth_map)
      moreover have "tv_keys list_view ?t = tv_keys list_view t" by (simp add: list_view_def)
      moreover have c: "f (ut_probe_value list_unification t i) w = Inr v" using Inr by (simp add: list_unification_def)
      ultimately show ?thesis unfolding c sum.case by blast
    qed
  qed
  ultimately show ?thesis by (simp add: unification_doc_def)
qed

end
