(* ===== verification/Fly_Sorts_Sound.thy ===== *)
theory Fly_Sorts_Sound
  imports Fly_Unification Fly_Trace
begin

text \<open>
  The first phase of sort inference is sound: under every solution of the table it returns, the
  labelled term has the sort it returns, in the sense of the sorts of annotated terms.
\<close>

section \<open>Labels\<close>

definition annotation_var :: "string \<Rightarrow> nat option" where
  "annotation_var s = (case split_whitespace s of [v, i] \<Rightarrow> if v = ''var'' then parse_u32 i else None | _ \<Rightarrow> None)"

definition solve_binder :: "(nat \<Rightarrow> sort) \<Rightarrow> fbinder \<Rightarrow> fbinder" where
  "solve_binder \<rho> b =
     (case b_sort b of Bool \<Rightarrow> b
      | Uninterpreted s \<Rightarrow> (case annotation_var s of Some k \<Rightarrow> b\<lparr>b_sort := \<rho> k\<rparr> | None \<Rightarrow> b))"

fun solve_term :: "(nat \<Rightarrow> sort) \<Rightarrow> fterm \<Rightarrow> fterm" where
  "solve_term \<rho> (Literal b) = Literal b"
| "solve_term \<rho> (Id x) = Id x"
| "solve_term \<rho> (App f p xs) = App f p (map (solve_term \<rho>) xs)"
| "solve_term \<rho> (UnaryOp op x) = UnaryOp op (solve_term \<rho> x)"
| "solve_term \<rho> (BinOp op x y) = BinOp op (solve_term \<rho> x) (solve_term \<rho> y)"
| "solve_term \<rho> (NAryOp op xs) = NAryOp op (map (solve_term \<rho>) xs)"
| "solve_term \<rho> (Ite c t e) = Ite (solve_term \<rho> c) (solve_term \<rho> t) (solve_term \<rho> e)"
| "solve_term \<rho> (Quantified q bs body) = Quantified q (map (solve_binder \<rho>) bs) (solve_term \<rho> body)"

text \<open>A term is a completion of another when they differ only in annotations that are missing there.\<close>

definition binder_completes :: "fbinder \<Rightarrow> fbinder \<Rightarrow> bool" where
  "binder_completes b b' \<longleftrightarrow> b_name b' = b_name b \<and> (b_sort b = sort_unknown \<or> b_sort b' = b_sort b)"

fun completes :: "fterm \<Rightarrow> fterm \<Rightarrow> bool" where
  "completes (Literal b) t \<longleftrightarrow> t = Literal b"
| "completes (Id x) t \<longleftrightarrow> t = Id x"
| "completes (App f p xs) t \<longleftrightarrow> (case t of App g q ys \<Rightarrow> g = f \<and> q = p \<and> list_all2 completes xs ys | _ \<Rightarrow> False)"
| "completes (UnaryOp op x) t \<longleftrightarrow> (case t of UnaryOp op' y \<Rightarrow> op' = op \<and> completes x y | _ \<Rightarrow> False)"
| "completes (BinOp op x y) t \<longleftrightarrow> (case t of BinOp op' x' y' \<Rightarrow> op' = op \<and> completes x x' \<and> completes y y' | _ \<Rightarrow> False)"
| "completes (NAryOp op xs) t \<longleftrightarrow> (case t of NAryOp op' ys \<Rightarrow> op' = op \<and> list_all2 completes xs ys | _ \<Rightarrow> False)"
| "completes (Ite c x y) t \<longleftrightarrow>
     (case t of Ite c' x' y' \<Rightarrow> completes c c' \<and> completes x x' \<and> completes y y' | _ \<Rightarrow> False)"
| "completes (Quantified q bs body) t \<longleftrightarrow>
     (case t of Quantified q' bs' body' \<Rightarrow> q' = q \<and> list_all2 binder_completes bs bs' \<and> completes body body' | _ \<Rightarrow> False)"

definition blank_binders :: "fbinder list \<Rightarrow> nat" where
  "blank_binders bs = length (filter (\<lambda>b. b_sort b = sort_unknown) bs)"

fun blank_count :: "fterm \<Rightarrow> nat" where
  "blank_count (Literal b) = 0"
| "blank_count (Id x) = 0"
| "blank_count (App f p xs) = sum_list (map blank_count xs)"
| "blank_count (UnaryOp op x) = blank_count x"
| "blank_count (BinOp op x y) = blank_count x + blank_count y"
| "blank_count (NAryOp op xs) = sum_list (map blank_count xs)"
| "blank_count (Ite c t e) = blank_count c + blank_count t + blank_count e"
| "blank_count (Quantified q bs body) = blank_binders bs + blank_count body"

text \<open>The annotations of a labelled term: a sort of the signature or the label of a key.\<close>

definition label_ok :: "signature \<Rightarrow> nat \<Rightarrow> fbinder \<Rightarrow> bool" where
  "label_ok sig n b \<longleftrightarrow> sort_exists sig (b_sort b) \<or> (\<exists>k<n. b_sort b = Uninterpreted (sort_var_name k))"

fun labels_ok :: "signature \<Rightarrow> nat \<Rightarrow> fterm \<Rightarrow> bool" where
  "labels_ok sig n (Literal b) = True"
| "labels_ok sig n (Id x) = True"
| "labels_ok sig n (App f p xs) = list_all (labels_ok sig n) xs"
| "labels_ok sig n (UnaryOp op x) = labels_ok sig n x"
| "labels_ok sig n (BinOp op x y) = (labels_ok sig n x \<and> labels_ok sig n y)"
| "labels_ok sig n (NAryOp op xs) = list_all (labels_ok sig n) xs"
| "labels_ok sig n (Ite c t e) = (labels_ok sig n c \<and> labels_ok sig n t \<and> labels_ok sig n e)"
| "labels_ok sig n (Quantified q bs body) = (list_all (label_ok sig n) bs \<and> labels_ok sig n body)"

lemma label_ok_mono: "label_ok sig m b \<Longrightarrow> m \<le> n \<Longrightarrow> label_ok sig n b"
  unfolding label_ok_def by (meson order.strict_trans2)

lemma labels_ok_mono: "labels_ok sig m t \<Longrightarrow> m \<le> n \<Longrightarrow> labels_ok sig n t"
  by (induction t) (auto simp: list_all_iff intro: label_ok_mono)

text \<open>The names of sorts are words: not empty and without white space.\<close>

definition sort_words :: "signature \<Rightarrow> bool" where
  "sort_words sig \<longleftrightarrow> (\<forall>s\<in>set (sig_sorts sig). is_word s)"

lemma annotation_var_label: "int k < 4294967296 \<Longrightarrow> annotation_var (sort_var_name k) = Some k"
proof -
  assume k: "int k < 4294967296"
  have "is_word ''var''" by (simp add: is_word_def is_whitespace_def)
  from split_two_words [OF this digits_word [of k]] parse_show_nat [OF k] show ?thesis
    by (simp add: annotation_var_def sort_var_name_def)
qed

lemma sort_exists_word: "sort_words sig \<Longrightarrow> sort_exists sig (Uninterpreted s) \<Longrightarrow> is_word s"
  by (auto simp: sort_words_def sort_exists_def contains_sort_def list_ex_iff)

lemma annotation_var_word: "is_word s \<Longrightarrow> annotation_var s = None"
  by (simp add: annotation_var_def split_word)

lemma solve_binder_known: "sort_words sig \<Longrightarrow> sort_exists sig (b_sort b) \<Longrightarrow> solve_binder \<rho> b = b"
  using annotation_var_word sort_exists_word [of sig]
  by (auto simp: solve_binder_def split: sort.splits option.splits)

lemma solve_binder_label:
  "int k < 4294967296 \<Longrightarrow> solve_binder \<rho> (b\<lparr>b_sort := Uninterpreted (sort_var_name k)\<rparr>) = b\<lparr>b_sort := \<rho> k\<rparr>"
  by (simp add: solve_binder_def annotation_var_label)

section \<open>What the scope means\<close>

definition scope_sorts :: "signature \<Rightarrow> scope \<Rightarrow> nat \<Rightarrow> bool" where
  "scope_sorts sig sc n \<longleftrightarrow> sig_sorts (sc_signature sc) = sig_sorts sig \<and> (\<forall>name ri. sc_bound sc name = Some ri \<longrightarrow>
     (case ri of Relation args ret \<Rightarrow> (\<forall>s\<in>set args. sort_exists sig s) \<and> sort_exists sig ret
      | Individual ms \<Rightarrow> known_in (sort_exists sig) ms \<and> key_below n ms))"

definition scope_means :: "(nat \<Rightarrow> sort) \<Rightarrow> scope \<Rightarrow> signature \<Rightarrow> sort_context \<Rightarrow> bool" where
  "scope_means \<rho> sc sig \<Gamma> \<longleftrightarrow> (\<forall>name ri. sc_bound sc name = Some ri \<longrightarrow>
     (case ri of Relation args ret \<Rightarrow> \<exists>d. decl_of sig name = Some d \<and> rd_args d = args \<and> rd_sort d = ret
      | Individual ms \<Rightarrow> term_sort sig \<Gamma> (Id name) = Some (sort_under \<rho> ms)))"

lemma scope_sorts_mono: "scope_sorts sig sc m \<Longrightarrow> m \<le> n \<Longrightarrow> scope_sorts sig sc n"
  unfolding scope_sorts_def by (fastforce split: relation_or_individual.splits intro: key_below_mono)

lemma scope_sorts_add:
  "\<lbrakk> scope_sorts sig sc n; known_in (sort_exists sig) ms; key_below n ms \<rbrakk>
   \<Longrightarrow> scope_sorts sig (sc\<lparr>sc_bound := (sc_bound sc)(x \<mapsto> Individual ms)\<rparr>) n"
  by (auto simp: scope_sorts_def)

lemma scope_means_add:
  "scope_means \<rho> sc sig \<Gamma>
   \<Longrightarrow> scope_means \<rho> (sc\<lparr>sc_bound := (sc_bound sc)(x \<mapsto> Individual ms)\<rparr>) sig (\<Gamma>(x \<mapsto> sort_under \<rho> ms))"
  unfolding scope_means_def
proof (intro allI impI)
  fix name ri
  assume means: "\<forall>name ri. sc_bound sc name = Some ri \<longrightarrow>
      (case ri of Relation args ret \<Rightarrow> \<exists>d. decl_of sig name = Some d \<and> rd_args d = args \<and> rd_sort d = ret
       | Individual ms \<Rightarrow> term_sort sig \<Gamma> (Id name) = Some (sort_under \<rho> ms))"
    and ri: "sc_bound (sc\<lparr>sc_bound := (sc_bound sc)(x \<mapsto> Individual ms)\<rparr>) name = Some ri"
  show "case ri of Relation args ret \<Rightarrow> \<exists>d. decl_of sig name = Some d \<and> rd_args d = args \<and> rd_sort d = ret
      | Individual ms' \<Rightarrow> term_sort sig (\<Gamma>(x \<mapsto> sort_under \<rho> ms)) (Id name) = Some (sort_under \<rho> ms')"
  proof (cases "name = x")
    case True
    with ri show ?thesis by auto
  next
    case False
    with ri have "sc_bound sc name = Some ri" by simp
    from means [rule_format, OF this] False show ?thesis by (cases ri) simp_all
  qed
qed

lemma check_sort_exists_iff:
  "sig_sorts (sc_signature sc) = sig_sorts sig \<Longrightarrow> check_sort_exists sc s = Inr () \<longleftrightarrow> sort_exists sig s"
  by (cases s) (auto simp: check_sort_exists_def check_sort_exists_internal_def sort_exists_def contains_sort_def)

lemma check_sort_exists_or_empty_iff:
  "sig_sorts (sc_signature sc) = sig_sorts sig
   \<Longrightarrow> check_sort_exists_or_empty sc s = Inr () \<longleftrightarrow> s = sort_unknown \<or> sort_exists sig s"
  by (cases s) (auto simp: check_sort_exists_or_empty_def check_sort_exists_internal_def sort_exists_def
      contains_sort_def sort_unknown_def sort_uninterpreted_def)

section \<open>Steps of the table\<close>

definition table_step ::
  "'t unification \<Rightarrow> 't table_view \<Rightarrow> signature \<Rightarrow> 't \<Rightarrow> nat \<Rightarrow> 't \<Rightarrow> bool" where
  "table_step lib tv sig tab n tab' \<longleftrightarrow> tv_ok tv tab' \<and> tv_keys tv tab' = tv_keys tv tab + n
     \<and> values_in lib tv (sort_exists sig) tab' \<and> (\<forall>\<rho>. solves lib tv \<rho> tab' \<longrightarrow> solves lib tv \<rho> tab)"

definition table_inv :: "'t unification \<Rightarrow> 't table_view \<Rightarrow> signature \<Rightarrow> 't \<Rightarrow> bool" where
  "table_inv lib tv sig tab \<longleftrightarrow> tv_ok tv tab \<and> values_in lib tv (sort_exists sig) tab"

lemma table_step_inv: "table_step lib tv sig tab n tab' \<Longrightarrow> table_inv lib tv sig tab'"
  by (simp add: table_step_def table_inv_def)

lemma table_step_keys: "table_step lib tv sig tab n tab' \<Longrightarrow> tv_keys tv tab' = tv_keys tv tab + n"
  by (simp add: table_step_def)

lemma table_step_refl: "table_inv lib tv sig tab \<Longrightarrow> table_step lib tv sig tab 0 tab"
  by (simp add: table_step_def table_inv_def)

lemma table_step_trans:
  "table_step lib tv sig t1 m t2 \<Longrightarrow> table_step lib tv sig t2 n t3 \<Longrightarrow> table_step lib tv sig t1 (m + n) t3"
  by (simp add: table_step_def)

lemma table_step_solves: "table_step lib tv sig tab n tab' \<Longrightarrow> solves lib tv \<rho> tab' \<Longrightarrow> solves lib tv \<rho> tab"
  by (simp add: table_step_def)

lemma unify_value_step:
  assumes "unification_doc lib tv" and "table_inv lib tv sig tab" and "key_below (tv_keys tv tab) ms"
    and "sort_exists sig s" and "unify_var_value lib tab s ms = Inr tab'"
  shows "table_step lib tv sig tab 0 tab'"
    and "solves lib tv \<rho> tab' \<longleftrightarrow> solves lib tv \<rho> tab \<and> sort_under \<rho> ms = s"
proof -
  have ok: "tv_ok tv tab" "values_in lib tv (sort_exists sig) tab" using assms(2) by (simp_all add: table_inv_def)
  note U = unify_var_value_sorts(1) [OF assms(1) ok(1) assms(3,5)]
  show "table_step lib tv sig tab 0 tab'" using U ok(2) assms(4) unfolding table_step_def by auto
  show "solves lib tv \<rho> tab' \<longleftrightarrow> solves lib tv \<rho> tab \<and> sort_under \<rho> ms = s" using U by blast
qed

lemma unify_vars_step:
  assumes "unification_doc lib tv" and "table_inv lib tv sig tab" and "key_below (tv_keys tv tab) a" "key_below (tv_keys tv tab) b"
    and "known_in (sort_exists sig) a" "known_in (sort_exists sig) b" and "unify_var_var lib tab a b = Inr tab'"
  shows "table_step lib tv sig tab 0 tab'"
    and "solves lib tv \<rho> tab' \<longleftrightarrow> solves lib tv \<rho> tab \<and> sort_under \<rho> a = sort_under \<rho> b"
proof -
  have ok: "tv_ok tv tab" "values_in lib tv (sort_exists sig) tab" using assms(2) by (simp_all add: table_inv_def)
  note U = unify_var_var_sorts(1) [OF assms(1) ok(1) assms(3,4,7)]
  show "table_step lib tv sig tab 0 tab'" using U ok(2) assms(5,6) unfolding table_step_def by auto
  show "solves lib tv \<rho> tab' \<longleftrightarrow> solves lib tv \<rho> tab \<and> sort_under \<rho> a = sort_under \<rho> b" using U by blast
qed

lemma new_key_step:
  assumes doc: "unification_doc lib tv" and inv: "table_inv lib tv sig tab" and new: "ut_new_key lib tab None = (k, tab')"
  shows "table_step lib tv sig tab 1 tab'" and "k = tv_keys tv tab"
    and "solves lib tv \<rho> tab' \<longleftrightarrow> solves lib tv \<rho> tab"
proof -
  have ok: "tv_ok tv tab" "values_in lib tv (sort_exists sig) tab" using inv by (simp_all add: table_inv_def)
  note N = new_keyD [OF doc ok(1) new]
  show "k = tv_keys tv tab" "solves lib tv \<rho> tab' \<longleftrightarrow> solves lib tv \<rho> tab" by (rule N)+
  have "values_in lib tv (sort_exists sig) tab'"
    unfolding values_in_def
  proof (intro allI impI)
    fix i s assume i: "i < tv_keys tv tab'" and s: "ut_probe_value lib tab' i = Some s"
    show "sort_exists sig s"
    proof (cases "i = k")
      case True
      with s N(5) show ?thesis by simp
    next
      case False
      with i N(1,3) have i': "i < tv_keys tv tab" by simp
      with s N(6) [OF i'] ok(2) show ?thesis by (simp add: values_in_def)
    qed
  qed
  with N(2-4) show "table_step lib tv sig tab 1 tab'" unfolding table_step_def One_nat_def by simp
qed

section \<open>Phase one\<close>

definition collected ::
  "'t unification \<Rightarrow> 't table_view \<Rightarrow> signature \<Rightarrow> scope \<Rightarrow> 't \<Rightarrow> fterm \<Rightarrow> fterm \<Rightarrow> maybe_unknown_sort \<Rightarrow> bool" where
  "collected lib tv sig sc tab t t' ms \<longleftrightarrow> labels_ok sig (tv_keys tv tab) t' \<and> (\<forall>\<rho>. completes t (solve_term \<rho> t'))
     \<and> known_in (sort_exists sig) ms \<and> key_below (tv_keys tv tab) ms
     \<and> (\<forall>\<rho> sig' \<Gamma>. solves lib tv \<rho> tab \<longrightarrow> (\<forall>k<tv_keys tv tab. sort_exists sig (\<rho> k))
         \<longrightarrow> sig_sorts sig' = sig_sorts sig \<longrightarrow> scope_means \<rho> sc sig' \<Gamma>
         \<longrightarrow> term_sort sig' \<Gamma> (solve_term \<rho> t') = Some (sort_under \<rho> ms))"

lemma collectedD:
  assumes "collected lib tv sig sc tab t t' ms"
  shows "labels_ok sig (tv_keys tv tab) t'" and "completes t (solve_term \<rho> t')"
    and "known_in (sort_exists sig) ms" and "key_below (tv_keys tv tab) ms"
    and "\<lbrakk> solves lib tv \<rho> tab; \<forall>k<tv_keys tv tab. sort_exists sig (\<rho> k); sig_sorts sig' = sig_sorts sig;
        scope_means \<rho> sc sig' \<Gamma> \<rbrakk> \<Longrightarrow> term_sort sig' \<Gamma> (solve_term \<rho> t') = Some (sort_under \<rho> ms)"
  using assms unfolding collected_def by blast+

lemma collected_step:
  assumes "collected lib tv sig sc tab t t' ms" and "table_step lib tv sig tab n tab'"
  shows "collected lib tv sig sc tab' t t' ms"
proof -
  have le: "tv_keys tv tab \<le> tv_keys tv tab'" using table_step_keys [OF assms(2)] by simp
  note C = collectedD [OF assms(1)]
  show ?thesis
    unfolding collected_def
  proof (intro conjI allI impI)
    show "labels_ok sig (tv_keys tv tab') t'" by (rule labels_ok_mono [OF C(1) le])
    show "key_below (tv_keys tv tab') ms" by (rule key_below_mono [OF C(4) le])
    fix \<rho> sig' \<Gamma>
    assume "solves lib tv \<rho> tab'" "\<forall>k<tv_keys tv tab'. sort_exists sig (\<rho> k)"
      "sig_sorts sig' = sig_sorts sig" "scope_means \<rho> sc sig' \<Gamma>"
    then show "term_sort sig' \<Gamma> (solve_term \<rho> t') = Some (sort_under \<rho> ms)"
      using le by (intro C(5) table_step_solves [OF assms(2)]) auto
  qed (rule C)+
qed

text \<open>A term that was collected and then unified with a sort has that sort.\<close>

lemma collected_unified:
  assumes "unification_doc lib tv" and inv: "table_inv lib tv sig tab" and C: "collected lib tv sig sc tab t t' ms"
    and "sort_exists sig s" and U: "unify_var_value lib tab s ms = Inr tab'"
  shows "table_step lib tv sig tab 0 tab'" and "collected lib tv sig sc tab' t t' (Known s)"
proof -
  note S = unify_value_step [OF assms(1) inv collectedD(4) [OF C] assms(4) U]
  show step: "table_step lib tv sig tab 0 tab'" by (rule S(1))
  note C' = collectedD [OF collected_step [OF C step]]
  show "collected lib tv sig sc tab' t t' (Known s)"
    unfolding collected_def
  proof (intro conjI allI impI)
    fix \<rho> sig' \<Gamma>
    assume "solves lib tv \<rho> tab'" "\<forall>k<tv_keys tv tab'. sort_exists sig (\<rho> k)"
      "sig_sorts sig' = sig_sorts sig" "scope_means \<rho> sc sig' \<Gamma>"
    with C'(5) [of \<rho> sig' \<Gamma>] S(2) [of \<rho>]
    show "term_sort sig' \<Gamma> (solve_term \<rho> t') = Some (sort_under \<rho> (Known s))" by simp
  qed (use C'(1,2) assms(4) in simp_all)
qed

definition binders_collected ::
  "'t unification \<Rightarrow> 't table_view \<Rightarrow> signature \<Rightarrow> scope \<Rightarrow> 't \<Rightarrow> fbinder list \<Rightarrow> scope \<Rightarrow> fbinder list \<Rightarrow> bool" where
  "binders_collected lib tv sig sc tab bs sc' bs' \<longleftrightarrow> scope_sorts sig sc' (tv_keys tv tab)
     \<and> list_all (label_ok sig (tv_keys tv tab)) bs'
     \<and> (\<forall>\<rho>. list_all2 binder_completes bs (map (solve_binder \<rho>) bs'))
     \<and> (\<forall>\<rho>. (\<forall>k<tv_keys tv tab. sort_exists sig (\<rho> k))
         \<longrightarrow> list_all (\<lambda>b. sort_exists sig (b_sort (solve_binder \<rho> b))) bs')
     \<and> (\<forall>\<rho> sig' \<Gamma>. scope_means \<rho> sc sig' \<Gamma>
         \<longrightarrow> scope_means \<rho> sc' sig' (\<Gamma>(map b_name bs' [\<mapsto>] map (\<lambda>b. b_sort (solve_binder \<rho> b)) bs')))"

lemma map_upds_Cons_same: "m((x # xs) [\<mapsto>] (y # ys)) = (m(x \<mapsto> y))(xs [\<mapsto>] ys)"
  by simp

lemma add_inferred_binders_sound:
  assumes doc: "unification_doc lib tv" and words: "sort_words sig"
  shows "\<lbrakk> add_inferred_binders lib names sc tab bs = Inr (sc', tab', bs'); table_inv lib tv sig tab;
      scope_sorts sig sc (tv_keys tv tab); int (tv_keys tv tab + blank_binders bs) \<le> 4294967296 \<rbrakk>
    \<Longrightarrow> table_step lib tv sig tab (blank_binders bs) tab' \<and> binders_collected lib tv sig sc tab' bs sc' bs'"
proof (induction bs arbitrary: names sc tab bs')
  case Nil
  then show ?case
    by (auto simp: binders_collected_def blank_binders_def table_step_refl)
next
  case (Cons b bs)
  have sorts: "sig_sorts (sc_signature sc) = sig_sorts sig" using Cons.prems(3) by (simp add: scope_sorts_def)
  obtain ri b1 tab1 where one: "(if b_sort b = sort_unknown
           then let (k, tab) = ut_new_key lib tab None in
             (ri_unknown k, b\<lparr>b_sort := Uninterpreted (sort_var_name k)\<rparr>, tab)
           else (ri_known (b_sort b), b, tab)) = (ri, b1, tab1)" by (cases "if b_sort b = sort_unknown
           then let (k, tab) = ut_new_key lib tab None in
             (ri_unknown k, b\<lparr>b_sort := Uninterpreted (sort_var_name k)\<rparr>, tab)
           else (ri_known (b_sort b), b, tab)") blast
  from Cons.prems(1) obtain bs1 where
    chk: "check_sort_exists_or_empty sc (b_sort b) = Inr ()"
    and rest: "add_inferred_binders lib (b_name b # names) (sc\<lparr>sc_bound := (sc_bound sc)(b_name b \<mapsto> ri)\<rparr>) tab1 bs
      = Inr (sc', tab', bs1)" and bs': "bs' = b1 # bs1"
    by (auto simp: one bind_r_Inr add_name_internal_def split: if_splits)
  have exists: "b_sort b = sort_unknown \<or> sort_exists sig (b_sort b)"
    using chk check_sort_exists_or_empty_iff [OF sorts] by blast
  obtain ms where ri: "ri = Individual ms" and step1: "table_step lib tv sig tab (blank_binders [b]) tab1"
    and ms: "known_in (sort_exists sig) ms" "key_below (tv_keys tv tab1) ms"
    and label: "label_ok sig (tv_keys tv tab1) b1" and comp: "\<And>\<rho>. binder_completes b (solve_binder \<rho> b1)"
    and name: "b_name b1 = b_name b" and srt: "\<And>\<rho>. b_sort (solve_binder \<rho> b1) = sort_under \<rho> ms"
  proof (cases "b_sort b = sort_unknown")
    case True
    obtain k tab2 where new: "ut_new_key lib tab None = (k, tab2)" by (cases "ut_new_key lib tab None")
    with one True have 1: "ri = ri_unknown k" "b1 = b\<lparr>b_sort := Uninterpreted (sort_var_name k)\<rparr>" "tab1 = tab2" by auto
    note N = new_key_step [OF doc Cons.prems(2) new]
    have k: "int k < 4294967296" using Cons.prems(4) N(2) True by (simp add: blank_binders_def)
    have "k < tv_keys tv tab1" using N(1,2) 1(3) by (simp add: table_step_def)
    with 1 N(1) [unfolded One_nat_def] True solve_binder_label [OF k] show thesis
      by (intro that [of "UnknownVar k"])
        (auto simp: ri_unknown_def blank_binders_def label_ok_def binder_completes_def)
  next
    case False
    with one have 1: "ri = ri_known (b_sort b)" "b1 = b" "tab1 = tab" by auto
    from False exists have ex: "sort_exists sig (b_sort b)" by blast
    with 1 False table_step_refl [OF Cons.prems(2)] solve_binder_known [OF words ex] show thesis
      by (intro that [of "Known (b_sort b)"])
        (auto simp: ri_known_def blank_binders_def label_ok_def binder_completes_def)
  qed
  have count: "blank_binders (b # bs) = blank_binders [b] + blank_binders bs" by (simp add: blank_binders_def)
  note keys1 = table_step_keys [OF step1]
  have "scope_sorts sig (sc\<lparr>sc_bound := (sc_bound sc)(b_name b \<mapsto> ri)\<rparr>) (tv_keys tv tab1)"
    unfolding ri by (rule scope_sorts_add [OF scope_sorts_mono [OF Cons.prems(3)] ms]) (simp add: keys1)
  from Cons.IH [OF rest table_step_inv [OF step1] this] Cons.prems(4) keys1 count
  have IH: "table_step lib tv sig tab1 (blank_binders bs) tab'"
    and B: "binders_collected lib tv sig (sc\<lparr>sc_bound := (sc_bound sc)(b_name b \<mapsto> ri)\<rparr>) tab' bs sc' bs1" by auto
  have le: "tv_keys tv tab1 \<le> tv_keys tv tab'" using table_step_keys [OF IH] by simp
  have "binders_collected lib tv sig sc tab' (b # bs) sc' bs'"
    unfolding binders_collected_def
  proof (intro conjI allI impI)
    show "scope_sorts sig sc' (tv_keys tv tab')" using B by (simp add: binders_collected_def)
    show "list_all (label_ok sig (tv_keys tv tab')) bs'"
      using B label_ok_mono [OF label le] by (simp add: bs' binders_collected_def)
    show "list_all2 binder_completes (b # bs) (map (solve_binder \<rho>) bs')" for \<rho>
      using B comp by (simp add: bs' binders_collected_def)
    show "list_all (\<lambda>b. sort_exists sig (b_sort (solve_binder \<rho> b))) bs'"
      if "\<forall>k<tv_keys tv tab'. sort_exists sig (\<rho> k)" for \<rho>
    proof -
      have "sort_exists sig (sort_under \<rho> ms)" using ms that le by (cases ms) auto
      with B that show ?thesis by (simp add: bs' binders_collected_def srt)
    qed
    show "scope_means \<rho> sc' sig' (\<Gamma>(map b_name bs' [\<mapsto>] map (\<lambda>b. b_sort (solve_binder \<rho> b)) bs'))"
      if "scope_means \<rho> sc sig' \<Gamma>" for \<rho> sig' \<Gamma>
    proof -
      from scope_means_add [OF that, of "b_name b" ms] B
      have "scope_means \<rho> sc' sig' ((\<Gamma>(b_name b \<mapsto> sort_under \<rho> ms))(map b_name bs1 [\<mapsto>] map (\<lambda>b. b_sort (solve_binder \<rho> b)) bs1))"
        unfolding binders_collected_def ri by blast
      then show ?thesis by (simp add: bs' name srt)
    qed
  qed
  with table_step_trans [OF step1 IH] count show ?case by simp
qed

text \<open>The statement for lists of terms.\<close>

definition all_collected ::
  "'t unification \<Rightarrow> 't table_view \<Rightarrow> signature \<Rightarrow> scope \<Rightarrow> 't \<Rightarrow> fterm list \<Rightarrow> fterm list \<Rightarrow> sort list \<Rightarrow> bool" where
  "all_collected lib tv sig sc tab ts ts' args \<longleftrightarrow> length args = length ts
     \<and> list_all2 (\<lambda>(t, s) t'. collected lib tv sig sc tab t t' (Known s)) (zip ts args) ts'"

lemma all_collected_Nil [simp]: "all_collected lib tv sig sc tab [] ts' [] \<longleftrightarrow> ts' = []"
  by (auto simp: all_collected_def)

lemma all_collected_Cons:
  "collected lib tv sig sc tab t t' (Known s) \<Longrightarrow> all_collected lib tv sig sc tab ts ts' args
   \<Longrightarrow> all_collected lib tv sig sc tab (t # ts) (t' # ts') (s # args)"
  by (simp add: all_collected_def)

lemma all_collectedD:
  assumes "all_collected lib tv sig sc tab ts ts' args"
  shows "list_all (labels_ok sig (tv_keys tv tab)) ts'"
    and "list_all2 completes ts (map (solve_term \<rho>) ts')"
    and "\<lbrakk> solves lib tv \<rho> tab; \<forall>k<tv_keys tv tab. sort_exists sig (\<rho> k); sig_sorts sig' = sig_sorts sig;
        scope_means \<rho> sc sig' \<Gamma> \<rbrakk> \<Longrightarrow> map (term_sort sig' \<Gamma>) (map (solve_term \<rho>) ts') = map Some args"
proof -
  have len: "length args = length ts" "length ts' = length ts"
    and nth: "\<And>i. i < length ts \<Longrightarrow> collected lib tv sig sc tab (ts ! i) (ts' ! i) (Known (args ! i))"
    using assms by (auto simp: all_collected_def list_all2_conv_all_nth)
  show "list_all (labels_ok sig (tv_keys tv tab)) ts'"
    using collectedD(1) [OF nth] len by (auto simp: list_all_length)
  show "list_all2 completes ts (map (solve_term \<rho>) ts')"
    using collectedD(2) [OF nth] len by (auto simp: list_all2_conv_all_nth)
  show "map (term_sort sig' \<Gamma>) (map (solve_term \<rho>) ts') = map Some args"
    if "solves lib tv \<rho> tab" "\<forall>k<tv_keys tv tab. sort_exists sig (\<rho> k)" "sig_sorts sig' = sig_sorts sig"
      "scope_means \<rho> sc sig' \<Gamma>"
    using collectedD(5) [OF nth that] len by (auto intro!: nth_equalityI)
qed

text \<open>Two terms whose sorts were unified have the same sort.\<close>

lemma collected_equal:
  assumes doc: "unification_doc lib tv" and inv: "table_inv lib tv sig tab"
    and A: "collected lib tv sig sc tab x x' a" and B: "collected lib tv sig sc tab y y' b"
    and U: "unify_var_var lib tab a b = Inr tab'"
  shows "table_step lib tv sig tab 0 tab'" and "collected lib tv sig sc tab' x x' a" and "collected lib tv sig sc tab' y y' a"
proof -
  note S = unify_vars_step [OF doc inv collectedD(4) [OF A] collectedD(4) [OF B] collectedD(3) [OF A] collectedD(3) [OF B] U]
  show step: "table_step lib tv sig tab 0 tab'" by (rule S(1))
  show A': "collected lib tv sig sc tab' x x' a" by (rule collected_step [OF A step])
  note B' = collectedD [OF collected_step [OF B step]]
  show "collected lib tv sig sc tab' y y' a"
    unfolding collected_def
  proof (intro conjI allI impI)
    fix \<rho> sig' \<Gamma>
    assume "solves lib tv \<rho> tab'" "\<forall>k<tv_keys tv tab'. sort_exists sig (\<rho> k)"
      "sig_sorts sig' = sig_sorts sig" "scope_means \<rho> sc sig' \<Gamma>"
    with B'(5) [of \<rho> sig' \<Gamma>] S(2) [of \<rho>]
    show "term_sort sig' \<Gamma> (solve_term \<rho> y') = Some (sort_under \<rho> a)" by simp
  qed (rule B'(1,2) collectedD(3,4) [OF A'])+
qed

lemma collect_unify:
  assumes "unification_doc lib tv" and "table_step lib tv sig tab n tab1" and "collected lib tv sig sc tab1 t t' ms"
    and "sort_exists sig s" and "unify_var_value lib tab1 s ms = Inr tab2"
  shows "table_step lib tv sig tab n tab2" and "collected lib tv sig sc tab2 t t' (Known s)"
proof -
  note C = collected_unified [OF assms(1) table_step_inv [OF assms(2)] assms(3-5)]
  show "table_step lib tv sig tab n tab2" using table_step_trans [OF assms(2) C(1)] by simp
  show "collected lib tv sig sc tab2 t t' (Known s)" by (rule C(2))
qed

lemma sort_exists_Bool [simp]: "sort_exists sig Bool"
  by (simp add: sort_exists_def)

lemma all_collected_step:
  assumes "all_collected lib tv sig sc tab ts ts' args" and "table_step lib tv sig tab n tab'"
  shows "all_collected lib tv sig sc tab' ts ts' args"
  using assms(1) unfolding all_collected_def
  by (auto elim!: list_all2_mono intro: collected_step [OF _ assms(2)])

lemma scope_sorts_step:
  "scope_sorts sig sc (tv_keys tv tab) \<Longrightarrow> table_step lib tv sig tab n tab' \<Longrightarrow> scope_sorts sig sc (tv_keys tv tab')"
  by (auto simp: table_step_def intro: scope_sorts_mono)

lemma collect_sound:
  assumes words: "sort_words sig"
  shows "\<lbrakk> unification_doc lib tv; collect_term lib sc tab t = Inr (ms, t', tab'); table_inv lib tv sig tab;
      scope_sorts sig sc (tv_keys tv tab); int (tv_keys tv tab + blank_count t) \<le> 4294967296 \<rbrakk>
    \<Longrightarrow> table_step lib tv sig tab (blank_count t) tab' \<and> collected lib tv sig sc tab' t t' ms"
  and "\<lbrakk> unification_doc lib tv; collect_terms lib sc tab args ts = Inr (ts', tab'); length args = length ts;
      list_all (sort_exists sig) args; table_inv lib tv sig tab; scope_sorts sig sc (tv_keys tv tab);
      int (tv_keys tv tab + sum_list (map blank_count ts)) \<le> 4294967296 \<rbrakk>
    \<Longrightarrow> table_step lib tv sig tab (sum_list (map blank_count ts)) tab' \<and> all_collected lib tv sig sc tab' ts ts' args"
proof (induction lib sc tab t and lib sc tab args ts arbitrary: ms t' tab' and ts' tab' rule: collect_term_collect_terms.induct)
  case (1 lib sc tab b)
  then show ?case by (auto simp: collected_def table_step_refl sort_exists_def)
next
  case (2 lib sc tab name)
  from 2(2) have get: "sc_bound sc name = Some (Individual ms)" and eq: "t' = Id name" "tab' = tab"
    by (auto simp: bind_r_Inr get_individual_def split: option.splits relation_or_individual.splits)
  have "known_in (sort_exists sig) ms" "key_below (tv_keys tv tab) ms"
    using 2(4) get by (fastforce simp: scope_sorts_def)+
  moreover have "term_sort sig' \<Gamma> (Id name) = Some (sort_under \<rho> ms)" if "scope_means \<rho> sc sig' \<Gamma>" for \<rho> sig' \<Gamma>
    using that get by (fastforce simp: scope_means_def simp del: term_sort.simps)
  ultimately show ?case using table_step_refl [OF 2(3)] by (simp add: collected_def eq del: term_sort.simps)
next
  case (3 lib sc tab f p xs)
  from 3(3) obtain args ret xs' where get: "get_relation sc f = Inr (args, ret)" and len: "length args = length xs"
    and rec: "collect_terms lib sc tab args xs = Inr (xs', tab')" and eq: "ms = Known ret" "t' = App f p xs'"
    by (auto simp: bind_r_Inr split: if_splits)
  from get have bound: "sc_bound sc f = Some (Relation args ret)"
    by (auto simp: get_relation_def split: option.splits relation_or_individual.splits)
  with 3(5) have ex: "list_all (sort_exists sig) args" "sort_exists sig ret"
    by (fastforce simp: scope_sorts_def list_all_iff)+
  have IH: "table_step lib tv sig tab (sum_list (map blank_count xs)) tab'" "all_collected lib tv sig sc tab' xs xs' args"
    using 3(1) [OF _ 3(2) rec len ex(1) 3(4,5)] len 3(6) by simp_all
  note C = all_collectedD [OF IH(2)]
  have "collected lib tv sig sc tab' (App f p xs) (App f p xs') (Known ret)"
    unfolding collected_def
  proof (intro conjI allI impI)
    fix \<rho> sig' \<Gamma>
    assume a: "solves lib tv \<rho> tab'" "\<forall>k<tv_keys tv tab'. sort_exists sig (\<rho> k)"
      "sig_sorts sig' = sig_sorts sig" "scope_means \<rho> sc sig' \<Gamma>"
    from a(4) bound obtain d where d: "decl_of sig' f = Some d" "rd_args d = args" "rd_sort d = ret"
      by (fastforce simp: scope_means_def)
    have "those (map (term_sort sig' \<Gamma>) (map (solve_term \<rho>) xs')) = Some args"
      unfolding C(3) [OF a] by (induction args) simp_all
    then show "term_sort sig' \<Gamma> (solve_term \<rho> (App f p xs')) = Some (sort_under \<rho> (Known ret))"
      using d by simp
  qed (use C(1,2) ex(2) in simp_all)
  with IH(1) show ?case by (simp add: eq)
next
  case (4 lib sc tab op x)
  from 4(3) obtain a x' tab1 where rec: "collect_term lib sc tab x = Inr (a, x', tab1)"
    and rest: "if op = Prime then ms = a \<and> t' = UnaryOp op x' \<and> tab' = tab1
      else unify_var_value lib tab1 Bool a = Inr tab' \<and> ms = Known Bool \<and> t' = UnaryOp op x'"
    by (auto simp: bind_r_Inr split: if_splits)
  have IH: "table_step lib tv sig tab (blank_count x) tab1" "collected lib tv sig sc tab1 x x' a"
    using 4(1) [OF 4(2) rec 4(4,5)] 4(6) by simp_all
  show ?case
  proof (cases "op = Prime")
    case True
    have "collected lib tv sig sc tab1 (UnaryOp op x) (UnaryOp op x') a"
      using IH(2) True by (simp add: collected_def)
    with IH(1) rest True show ?thesis by simp
  next
    case False
    with rest have U: "unify_var_value lib tab1 Bool a = Inr tab'" and eq: "ms = Known Bool" "t' = UnaryOp op x'" by simp_all
    have "sort_exists sig Bool" by (simp add: sort_exists_def)
    note C = collected_unified [OF 4(2) table_step_inv [OF IH(1)] IH(2) this U]
    have "collected lib tv sig sc tab' (UnaryOp op x) (UnaryOp op x') (Known Bool)"
      using C(2) False by (simp add: collected_def)
    with table_step_trans [OF IH(1) C(1)] show ?thesis by (simp add: eq)
  qed
next
  case (5 lib sc tab op x y)
  note doc = 5(5) and inv = 5(7) and scope = 5(8)
  have sub: "int (tv_keys tv tab + blank_count x) \<le> 4294967296" using 5(9) by simp
  show ?case
  proof (cases "op = Equals \<or> op = NotEquals")
    case True
    with 5(6) obtain a x' tab1 b y' tab2 where rec: "collect_term lib sc tab x = Inr (a, x', tab1)"
        "collect_term lib sc tab1 y = Inr (b, y', tab2)"
      and U: "unify_var_var lib tab2 a b = Inr tab'" and eq: "ms = Known Bool" "t' = BinOp op x' y'"
      by (auto simp: bind_r_Inr)
    have X: "table_step lib tv sig tab (blank_count x) tab1" "collected lib tv sig sc tab1 x x' a"
      using 5(1) [OF True doc rec(1) inv scope sub] by simp_all
    have Y: "table_step lib tv sig tab1 (blank_count y) tab2" "collected lib tv sig sc tab2 y y' b"
      using 5(2) [OF True doc rec(2) table_step_inv [OF X(1)] scope_sorts_step [OF scope X(1)]] 5(9)
        table_step_keys [OF X(1)] by simp_all
    note C = collected_equal [OF doc table_step_inv [OF Y(1)] collected_step [OF X(2) Y(1)] Y(2) U]
    have "collected lib tv sig sc tab' (BinOp op x y) (BinOp op x' y') (Known Bool)"
      using C(2,3) True unfolding collected_def by auto
    with table_step_trans [OF table_step_trans [OF X(1) Y(1)] C(1)] show ?thesis by (simp add: eq)
  next
    case False
    with 5(6) obtain a x' tab1 tab2 b y' tab3 where rec: "collect_term lib sc tab x = Inr (a, x', tab1)"
        "collect_term lib sc tab2 y = Inr (b, y', tab3)"
      and U: "unify_var_value lib tab1 Bool a = Inr tab2" "unify_var_value lib tab3 Bool b = Inr tab'"
      and eq: "ms = Known Bool" "t' = BinOp op x' y'"
      by (auto simp: bind_r_Inr)
    have X: "table_step lib tv sig tab (blank_count x) tab1" "collected lib tv sig sc tab1 x x' a"
      using 5(3) [OF False doc rec(1) inv scope sub] by simp_all
    note X = collect_unify [OF doc X sort_exists_Bool U(1)]
    have Y: "table_step lib tv sig tab2 (blank_count y) tab3" "collected lib tv sig sc tab3 y y' b"
      using 5(4) [OF False doc rec(2) table_step_inv [OF X(1)] scope_sorts_step [OF scope X(1)]] 5(9)
        table_step_keys [OF X(1)] by simp_all
    note Y = collect_unify [OF doc Y sort_exists_Bool U(2)]
    have "collected lib tv sig sc tab' (BinOp op x y) (BinOp op x' y') (Known Bool)"
      using collected_step [OF X(2) Y(1)] Y(2) False unfolding collected_def by auto
    with table_step_trans [OF X(1) Y(1)] show ?thesis by (simp add: eq)
  qed
next
  case (6 lib sc tab op xs)
  from 6(3) obtain xs' where rec: "collect_terms lib sc tab (replicate (length xs) Bool) xs = Inr (xs', tab')"
    and eq: "ms = Known Bool" "t' = NAryOp op xs'" by (auto simp: bind_r_Inr)
  have IH: "table_step lib tv sig tab (sum_list (map blank_count xs)) tab'"
    "all_collected lib tv sig sc tab' xs xs' (replicate (length xs) Bool)"
    using 6(1) [OF 6(2) rec _ _ 6(4,5)] 6(6) by (simp_all add: list_all_iff)
  note C = all_collectedD [OF IH(2)]
  have "collected lib tv sig sc tab' (NAryOp op xs) (NAryOp op xs') (Known Bool)"
    unfolding collected_def
  proof (intro conjI allI impI)
    fix \<rho> sig' \<Gamma>
    assume a: "solves lib tv \<rho> tab'" "\<forall>k<tv_keys tv tab'. sort_exists sig (\<rho> k)"
      "sig_sorts sig' = sig_sorts sig" "scope_means \<rho> sc sig' \<Gamma>"
    have "\<forall>x\<in>set (map (term_sort sig' \<Gamma>) (map (solve_term \<rho>) xs')). x = Some Bool"
      unfolding C(3) [OF a] by simp
    then show "term_sort sig' \<Gamma> (solve_term \<rho> (NAryOp op xs')) = Some (sort_under \<rho> (Known Bool))" by simp
  qed (use C(1,2) in simp_all)
  with IH(1) show ?case by (simp add: eq)
next
  case (7 lib sc tab c t e)
  note doc = 7(4) and inv = 7(6) and scope = 7(7)
  from 7(5) obtain s c' tab1 tab2 a t1 tab3 b e' tab4 where rec: "collect_term lib sc tab c = Inr (s, c', tab1)"
      "collect_term lib sc tab2 t = Inr (a, t1, tab3)" "collect_term lib sc tab3 e = Inr (b, e', tab4)"
    and U: "unify_var_value lib tab1 Bool s = Inr tab2" "unify_var_var lib tab4 a b = Inr tab'"
    and eq: "ms = a" "t' = Ite c' t1 e'" by (auto simp: bind_r_Inr)
  have C: "table_step lib tv sig tab (blank_count c) tab1" "collected lib tv sig sc tab1 c c' s"
    using 7(1) [OF doc rec(1) inv scope] 7(8) by simp_all
  note C = collect_unify [OF doc C sort_exists_Bool U(1)]
  note scope2 = scope_sorts_step [OF scope C(1)]
  have T: "table_step lib tv sig tab2 (blank_count t) tab3" "collected lib tv sig sc tab3 t t1 a"
    using 7(2) [OF doc rec(2) table_step_inv [OF C(1)] scope2] 7(8) table_step_keys [OF C(1)] by simp_all
  have E: "table_step lib tv sig tab3 (blank_count e) tab4" "collected lib tv sig sc tab4 e e' b"
    using 7(3) [OF doc rec(3) table_step_inv [OF T(1)] scope_sorts_step [OF scope2 T(1)]] 7(8)
      table_step_keys [OF C(1)] table_step_keys [OF T(1)] by simp_all
  note Q = collected_equal [OF doc table_step_inv [OF E(1)] collected_step [OF T(2) E(1)] E(2) U(2)]
  note steps = table_step_trans [OF table_step_trans [OF T(1) E(1)] Q(1)]
  have "collected lib tv sig sc tab' (Ite c t e) (Ite c' t1 e') a"
    using collected_step [OF C(2) steps] Q(2,3) unfolding collected_def by auto
  with table_step_trans [OF C(1) steps] show ?case by (simp add: eq add.assoc)
next
  case (8 lib sc tab q bs body)
  note doc = 8(2) and inv = 8(4) and scope = 8(5)
  from 8(3) obtain sc1 tab1 bs' s body' tab2 where add: "add_inferred_binders lib [] sc tab bs = Inr (sc1, tab1, bs')"
    and rec: "collect_term lib sc1 tab1 body = Inr (s, body', tab2)" and U: "unify_var_value lib tab2 Bool s = Inr tab'"
    and eq: "ms = Known Bool" "t' = Quantified q bs' body'"
    by (auto simp: bind_r_Inr add_binders_for_inference_def)
  have B: "table_step lib tv sig tab (blank_binders bs) tab1" "binders_collected lib tv sig sc tab1 bs sc1 bs'"
    using add_inferred_binders_sound [OF doc words add inv scope] 8(6) by simp_all
  have S: "table_step lib tv sig tab1 (blank_count body) tab2" "collected lib tv sig sc1 tab2 body body' s"
    using 8(1) [OF doc rec table_step_inv [OF B(1)]] B(2) 8(6) table_step_keys [OF B(1)]
    by (simp_all add: binders_collected_def)
  note S = collect_unify [OF doc S sort_exists_Bool U]
  have le: "tv_keys tv tab1 \<le> tv_keys tv tab'" using table_step_keys [OF S(1)] by simp
  note C = collectedD [OF S(2)]
  have "collected lib tv sig sc tab' (Quantified q bs body) (Quantified q bs' body') (Known Bool)"
    unfolding collected_def
  proof (intro conjI allI impI)
    show "labels_ok sig (tv_keys tv tab') (Quantified q bs' body')"
      using B(2) C(1) label_ok_mono [OF _ le] by (auto simp: binders_collected_def list_all_iff)
    show "completes (Quantified q bs body) (solve_term \<rho> (Quantified q bs' body'))" for \<rho>
      using B(2) C(2) by (simp add: binders_collected_def)
    fix \<rho> sig' \<Gamma>
    assume a: "solves lib tv \<rho> tab'" "\<forall>k<tv_keys tv tab'. sort_exists sig (\<rho> k)"
      "sig_sorts sig' = sig_sorts sig" "scope_means \<rho> sc sig' \<Gamma>"
    have srt: "sort_exists sig' = sort_exists sig"
      by (simp add: fun_eq_iff sort_exists_def contains_sort_def a(3) split: sort.split)
    have "scope_means \<rho> sc1 sig' (\<Gamma>(map b_name bs' [\<mapsto>] map (\<lambda>b. b_sort (solve_binder \<rho> b)) bs'))"
      using B(2) a(4) unfolding binders_collected_def by blast
    note body = C(5) [OF a(1-3) this]
    have "list_all (\<lambda>b. sort_exists sig (b_sort (solve_binder \<rho> b))) bs'"
      using B(2) a(2) le unfolding binders_collected_def by simp
    moreover have "b_name (solve_binder \<rho> b) = b_name b" for b
      by (simp add: solve_binder_def split: sort.split option.split)
    ultimately show "term_sort sig' \<Gamma> (solve_term \<rho> (Quantified q bs' body')) = Some (sort_under \<rho> (Known Bool))"
      using body by (simp add: srt list_all_iff comp_def)
  qed simp_all
  with table_step_trans [OF B(1) S(1)] show ?case by (simp add: eq)
next
  case (9 lib sc tab arg args x xs)
  note doc = 9(3) and inv = 9(7) and scope = 9(8)
  from 9(4) obtain s x' tab1 tab2 xs' where rec: "collect_term lib sc tab x = Inr (s, x', tab1)"
      "collect_terms lib sc tab2 args xs = Inr (xs', tab')"
    and U: "unify_var_value lib tab1 arg s = Inr tab2" and eq: "ts' = x' # xs'" by (auto simp: bind_r_Inr)
  from 9(5,6) have len: "length args = length xs" and ex: "sort_exists sig arg" "list_all (sort_exists sig) args" by simp_all
  have X: "table_step lib tv sig tab (blank_count x) tab1" "collected lib tv sig sc tab1 x x' s"
    using 9(1) [OF doc rec(1) inv scope] 9(9) by simp_all
  note X = collect_unify [OF doc X ex(1) U]
  have XS: "table_step lib tv sig tab2 (sum_list (map blank_count xs)) tab'" "all_collected lib tv sig sc tab' xs xs' args"
    using 9(2) [OF doc rec(2) len ex(2) table_step_inv [OF X(1)] scope_sorts_step [OF scope X(1)]] 9(9)
      table_step_keys [OF X(1)] by simp_all
  from table_step_trans [OF X(1) XS(1)] all_collected_Cons [OF collected_step [OF X(2) XS(1)] XS(2)]
  show ?case by (simp add: eq)
qed (simp_all add: table_step_refl)

end
