(* ===== verification/Fly_Sorts_Check.thy ===== *)
theory Fly_Sorts_Check
  imports Fly_Sorts_Sound
begin

text \<open>
  The second phase of sort inference and the checks built on it: annotating never panics, and
  checking a term, a definition or a module that succeeds yields annotated terms that are well
  sorted in the sense of the semantics.
\<close>

section \<open>Phase two\<close>

text \<open>An answer is a value with the given property or the report of an unsolved sort, never a panic.\<close>

fun answers :: "('a \<Rightarrow> bool) \<Rightarrow> (sort_error + 'a) option \<Rightarrow> bool" where
  "answers P None = False"
| "answers P (Some (Inl e)) = (\<exists>x. e = UnsolvedSort x)"
| "answers P (Some (Inr y)) = P y"

lemma answers_bind: "answers P r \<Longrightarrow> (\<And>x. P x \<Longrightarrow> answers Q (f x)) \<Longrightarrow> answers Q (bind_pr r f)"
  by (cases "(P, r)" rule: answers.cases) auto

lemma answers_collect:
  "(\<And>x. x \<in> set xs \<Longrightarrow> answers (P x) (f x)) \<Longrightarrow> answers (list_all2 P xs) (collect_presult (map f xs))"
proof (induction xs)
  case (Cons x xs)
  show ?case
    unfolding list.map collect_presult_Cons
  proof (rule answers_bind [OF Cons.prems], simp)
    fix y assume y: "P x y"
    show "answers (list_all2 P (x # xs)) (bind_pr (collect_presult (map f xs)) (\<lambda>ys. Some (Inr (y # ys))))"
      by (rule answers_bind [OF Cons.IH]) (use Cons.prems y in auto)
  qed
qed simp

lemma sort_exists_known: "sort_words sig \<Longrightarrow> sort_exists sig s \<Longrightarrow> s \<noteq> sort_unknown"
  using sort_exists_word [of sig "[]"] by (auto simp: sort_unknown_def sort_uninterpreted_def is_word_def)

definition solved_as :: "'t unification \<Rightarrow> 't \<Rightarrow> (nat \<Rightarrow> sort) \<Rightarrow> nat \<Rightarrow> bool" where
  "solved_as lib tab \<rho> n \<longleftrightarrow> (\<forall>k<n. \<forall>s. ut_probe_value lib tab k = Some s \<longrightarrow> \<rho> k = s)"

lemma annotate_binder_spec:
  assumes words: "sort_words sig" and label: "label_ok sig n b" and n: "int n \<le> 4294967296"
    and vals: "\<forall>k<n. \<forall>s. ut_probe_value lib tab k = Some s \<longrightarrow> sort_exists sig s"
  shows "answers (\<lambda>b'. (\<forall>\<rho>. solved_as lib tab \<rho> n \<longrightarrow> solve_binder \<rho> b = b') \<and> sort_exists sig (b_sort b'))
    (annotate_binder lib tab b)"
proof (cases "sort_exists sig (b_sort b)")
  case True
  have "annotate_binder lib tab b = Some (Inr b)"
  proof (cases "b_sort b")
    case (Uninterpreted s)
    with True have "split_whitespace s = [s]" by (simp add: split_word sort_exists_word [OF words])
    with Uninterpreted show ?thesis by (simp add: annotate_binder_def)
  qed (simp add: annotate_binder_def)
  with True solve_binder_known [OF words True] show ?thesis by simp
next
  case False
  with label obtain k where k: "k < n" "b_sort b = Uninterpreted (sort_var_name k)" by (auto simp: label_ok_def)
  then have lt: "int k < 4294967296" using n by simp
  have split: "split_whitespace (sort_var_name k) = [''var'', show_nat k]"
    using split_two_words [of "''var''" "show_nat k"] digits_word [of k]
    by (simp add: sort_var_name_def is_word_def is_whitespace_def)
  have ann: "annotate_binder lib tab b = (case ut_probe_value lib tab k of
      None \<Rightarrow> Some (Inl (UnsolvedSort (b_name b))) | Some s \<Rightarrow> Some (Inr (b\<lparr>b_sort := s\<rparr>)))"
    by (simp add: annotate_binder_def k(2) split parse_show_nat [OF lt])
  have "solve_binder \<rho> b = b\<lparr>b_sort := \<rho> k\<rparr>" for \<rho>
    by (simp add: solve_binder_def k(2) annotation_var_label [OF lt])
  with ann k(1) vals show ?thesis by (auto simp: solved_as_def split: option.split)
qed

lemma annotate_term_spec:
  assumes words: "sort_words sig" and n: "int n \<le> 4294967296"
    and vals: "\<forall>k<n. \<forall>s. ut_probe_value lib tab k = Some s \<longrightarrow> sort_exists sig s"
  shows "labels_ok sig n t \<Longrightarrow>
    answers (\<lambda>t'. (\<forall>\<rho>. solved_as lib tab \<rho> n \<longrightarrow> solve_term \<rho> t = t') \<and> has_all_sort_annotations_term t')
      (annotate_term lib tab t)"
proof (induction t)
  case (App f p xs)
  have "answers (list_all2 (\<lambda>t t'. (\<forall>\<rho>. solved_as lib tab \<rho> n \<longrightarrow> solve_term \<rho> t = t') \<and> has_all_sort_annotations_term t') xs)
      (collect_presult (map (annotate_term lib tab) xs))"
    by (rule answers_collect) (use App in \<open>auto simp: list_all_iff\<close>)
  then show ?case
    by (simp only: annotate_term.simps) (erule answers_bind, auto simp: list_all2_conv_all_nth list_all_length intro: nth_equalityI)
next
  case (NAryOp op xs)
  have "answers (list_all2 (\<lambda>t t'. (\<forall>\<rho>. solved_as lib tab \<rho> n \<longrightarrow> solve_term \<rho> t = t') \<and> has_all_sort_annotations_term t') xs)
      (collect_presult (map (annotate_term lib tab) xs))"
    by (rule answers_collect) (use NAryOp in \<open>auto simp: list_all_iff\<close>)
  then show ?case
    by (simp only: annotate_term.simps) (erule answers_bind, auto simp: list_all2_conv_all_nth list_all_length intro: nth_equalityI)
next
  case (UnaryOp op x)
  then show ?case by (simp only: annotate_term.simps) (rule answers_bind, auto)
next
  case (BinOp op x y)
  then show ?case
    by (simp only: annotate_term.simps) (rule answers_bind, force, rule answers_bind, auto)
next
  case (Ite c t e)
  then show ?case
    by (simp only: annotate_term.simps) (rule answers_bind, force, rule answers_bind, force, rule answers_bind, auto)
next
  case (Quantified q bs body)
  have "answers (list_all2 (\<lambda>b b'. (\<forall>\<rho>. solved_as lib tab \<rho> n \<longrightarrow> solve_binder \<rho> b = b') \<and> sort_exists sig (b_sort b')) bs)
      (collect_presult (map (annotate_binder lib tab) bs))"
    by (rule answers_collect, rule annotate_binder_spec [OF words _ n vals]) (use Quantified in \<open>auto simp: list_all_iff\<close>)
  then show ?case
  proof (simp only: annotate_term.simps, elim answers_bind)
    fix bs' assume bs': "list_all2 (\<lambda>b b'. (\<forall>\<rho>. solved_as lib tab \<rho> n \<longrightarrow> solve_binder \<rho> b = b') \<and> sort_exists sig (b_sort b')) bs bs'"
    then have "list_all (\<lambda>b. b_sort b \<noteq> sort_unknown) bs'"
      using sort_exists_known [OF words] by (auto simp: list_all2_conv_all_nth list_all_length)
    moreover have "map (solve_binder \<rho>) bs = bs'" if "solved_as lib tab \<rho> n" for \<rho>
      using bs' that by (auto simp: list_all2_conv_all_nth intro: nth_equalityI)
    moreover have "answers (\<lambda>t'. (\<forall>\<rho>. solved_as lib tab \<rho> n \<longrightarrow> solve_term \<rho> body = t') \<and> has_all_sort_annotations_term t')
      (annotate_term lib tab body)" using Quantified by simp
    ultimately show "answers (\<lambda>t'. (\<forall>\<rho>. solved_as lib tab \<rho> n \<longrightarrow> solve_term \<rho> (Quantified q bs body) = t')
        \<and> has_all_sort_annotations_term t')
      (bind_pr (annotate_term lib tab body) (\<lambda>body. Some (Inr (Quantified q bs' body))))"
      by (elim answers_bind) auto
  qed
qed simp_all

section \<open>Terms\<close>

text \<open>Between public calls a scope only has known sorts, and then so have the terms checked in it.\<close>

lemma collect_known:
  assumes "\<And>x ms. sc_bound sc x = Some (Individual ms) \<Longrightarrow> \<exists>s. ms = Known s"
  shows "collect_term lib sc tab t = Inr (ms, t', tab') \<Longrightarrow> \<exists>s. ms = Known s"
proof (induction t arbitrary: tab ms t' tab')
  case (Id x)
  then show ?case using assms
    by (auto simp: bind_r_Inr get_individual_def split: option.splits relation_or_individual.splits)
next
  case (UnaryOp op x)
  then show ?case by (fastforce simp: bind_r_Inr split: if_splits)
next
  case (Ite c t e)
  then show ?case by (fastforce simp: bind_r_Inr)
qed (auto simp: bind_r_Inr split: if_splits)

lemma scope_known: "scope_sorts sig sc 0 \<Longrightarrow> sc_bound sc x = Some (Individual ms) \<Longrightarrow> \<exists>s. ms = Known s"
  by (cases ms) (fastforce simp: scope_sorts_def)+

lemma scope_means_known: "scope_sorts sig sc 0 \<Longrightarrow> scope_means \<rho> sc sig' \<Gamma> \<Longrightarrow> scope_means \<rho>' sc sig' \<Gamma>"
  unfolding scope_means_def
proof (intro allI impI)
  fix name ri
  assume "scope_sorts sig sc 0" and means: "\<forall>name ri. sc_bound sc name = Some ri \<longrightarrow>
      (case ri of Relation args ret \<Rightarrow> \<exists>d. decl_of sig' name = Some d \<and> rd_args d = args \<and> rd_sort d = ret
       | Individual ms \<Rightarrow> term_sort sig' \<Gamma> (Id name) = Some (sort_under \<rho> ms))"
    and ri: "sc_bound sc name = Some ri"
  from scope_known [OF this(1), of name] means [rule_format, OF ri] ri
  show "case ri of Relation args ret \<Rightarrow> \<exists>d. decl_of sig' name = Some d \<and> rd_args d = args \<and> rd_sort d = ret
      | Individual ms \<Rightarrow> term_sort sig' \<Gamma> (Id name) = Some (sort_under \<rho>' ms)"
    by (cases ri) (simp_all, force)
qed

text \<open>The result of a successful check, and the whole behaviour of the two entry points.\<close>

definition sorted_as :: "signature \<Rightarrow> scope \<Rightarrow> fterm \<Rightarrow> fterm \<Rightarrow> sort \<Rightarrow> bool" where
  "sorted_as sig sc t t' s \<longleftrightarrow> completes t t' \<and> has_all_sort_annotations_term t' \<and> sort_exists sig s
     \<and> (\<forall>\<rho> sig' \<Gamma>. sig_sorts sig' = sig_sorts sig \<longrightarrow> scope_means \<rho> sc sig' \<Gamma> \<longrightarrow> term_sort sig' \<Gamma> t' = Some s)"

lemma collect_annotate:
  assumes doc: "unification_doc lib tv" and words: "sort_words sig" and sc: "scope_sorts sig sc 0"
    and n: "int (blank_count t) \<le> 4294967296" and C: "collect_term lib sc (ut_new lib) t = Inr (ms, t', tab)"
  obtains s where "ms = Known s" "answers (\<lambda>t2. sorted_as sig sc t t2 s) (annotate_term lib tab t')"
proof -
  note new = new_tableD [OF doc]
  have inv: "table_inv lib tv sig (ut_new lib)" by (simp add: table_inv_def new values_in_def)
  have S: "table_step lib tv sig (ut_new lib) (blank_count t) tab" "collected lib tv sig sc tab t t' ms"
    using collect_sound(1) [OF words doc C inv] sc n by (simp_all add: new)
  note D = collectedD [OF S(2)]
  have "\<exists>s. ms = Known s" by (rule collect_known [OF _ C]) (rule scope_known [OF sc])
  then obtain s where ms: "ms = Known s" by blast
  have keys: "tv_keys tv tab = blank_count t" using table_step_keys [OF S(1)] by (simp add: new)
  have ok: "tv_ok tv tab" and vals: "values_in lib tv (sort_exists sig) tab"
    using S(1) by (simp_all add: table_step_def)
  let ?\<rho> = "default_solution lib tab"
  have solved: "solved_as lib tab ?\<rho> (blank_count t)" by (simp add: solved_as_def default_solution_def)
  have exist: "\<forall>k<tv_keys tv tab. sort_exists sig (?\<rho> k)"
    using vals by (auto simp: values_in_def default_solution_def split: option.split)
  have "answers (\<lambda>t2. (\<forall>\<rho>. solved_as lib tab \<rho> (blank_count t) \<longrightarrow> solve_term \<rho> t' = t2) \<and> has_all_sort_annotations_term t2)
      (annotate_term lib tab t')"
    using annotate_term_spec [OF words n _ D(1) [unfolded keys]] vals by (simp add: values_in_def keys)
  then have "answers (\<lambda>t2. sorted_as sig sc t t2 s) (annotate_term lib tab t')"
  proof (cases "annotate_term lib tab t'")
    case (Some r)
    with \<open>answers _ _\<close> show ?thesis
    proof (cases r)
      case (Inr t2)
      with Some \<open>answers _ _\<close> solved have t2: "solve_term ?\<rho> t' = t2" "has_all_sort_annotations_term t2" by auto
      have "term_sort sig' \<Gamma> t2 = Some s" if "sig_sorts sig' = sig_sorts sig" "scope_means \<rho> sc sig' \<Gamma>" for \<rho> sig' \<Gamma>
        using D(5) [OF default_solves [OF doc ok] exist that(1) scope_means_known [OF sc that(2)]] t2(1) ms by simp
      moreover have "completes t t2" using D(2) t2(1) by blast
      ultimately show ?thesis using Some Inr t2(2) D(3) by (simp add: sorted_as_def ms)
    qed (use Some in auto)
  qed simp
  with ms that show thesis by blast
qed

lemma expect_result:
  assumes doc: "unification_doc lib tv" and words: "sort_words sig" and sc: "scope_sorts sig sc 0"
    and n: "int (blank_count t) \<le> 4294967296"
  shows "\<exists>r. sort_check_term_expect lib sc t s = Some r \<and> (\<forall>t'. r = Inr t' \<longrightarrow> sorted_as sig sc t t' s)"
proof (cases "collect_term lib sc (ut_new lib) t")
  case (Inl e)
  then show ?thesis by (simp add: sort_check_term_expect_def)
next
  case (Inr x)
  then obtain ms t1 tab where C: "collect_term lib sc (ut_new lib) t = Inr (ms, t1, tab)" by (cases x) auto
  obtain s' where ms: "ms = Known s'" and A: "answers (\<lambda>t2. sorted_as sig sc t t2 s') (annotate_term lib tab t1)"
    by (rule collect_annotate [OF assms C])
  show ?thesis
  proof (cases "s = s'")
    case True
    have "sort_check_term_expect lib sc t s
        = bind_pr (annotate_term lib tab t1) (\<lambda>t. if has_all_sort_annotations_term t then Some (Inr t) else None)"
      using True by (simp add: sort_check_term_expect_def C ms)
    with A True show ?thesis
      by (cases "(\<lambda>t2. sorted_as sig sc t t2 s', annotate_term lib tab t1)" rule: answers.cases) (auto simp: sorted_as_def)
  qed (simp add: sort_check_term_expect_def C ms)
qed

lemma scope_check_result:
  assumes doc: "unification_doc lib tv" and words: "sort_words sig" and sc: "scope_sorts sig sc 0"
    and n: "int (blank_count t) \<le> 4294967296"
  shows "\<exists>r. scope_sort_check_term lib sc t = Some r \<and> (\<forall>s t'. r = Inr (s, t') \<longrightarrow> sorted_as sig sc t t' s)"
proof (cases "collect_term lib sc (ut_new lib) t")
  case (Inl e)
  then show ?thesis by (simp add: scope_sort_check_term_def context_sort_check_term_def)
next
  case (Inr x)
  then obtain ms t1 tab where C: "collect_term lib sc (ut_new lib) t = Inr (ms, t1, tab)" by (cases x) auto
  obtain s' where ms: "ms = Known s'" and A: "answers (\<lambda>t2. sorted_as sig sc t t2 s') (annotate_term lib tab t1)"
    by (rule collect_annotate [OF assms C])
  have "scope_sort_check_term lib sc t
      = bind_pr (annotate_term lib tab t1) (\<lambda>t. if has_all_sort_annotations_term t then Some (Inr (s', t)) else None)"
    by (simp add: scope_sort_check_term_def context_sort_check_term_def C ms get_maybe_unknown_sort_def)
  with A show ?thesis
    by (cases "(\<lambda>t2. sorted_as sig sc t t2 s', annotate_term lib tab t1)" rule: answers.cases) (auto simp: sorted_as_def)
qed

end
