(* ===== verification/Fly_Sorts_Module.thy ===== *)
theory Fly_Sorts_Module
  imports Fly_Sorts_Check
begin

text \<open>
  Scopes as sets of declarations, and the sort checker on whole terms, definitions and modules:
  it never panics, and what it accepts is well sorted.
\<close>

section \<open>Results that do not panic\<close>

definition returns :: "('a \<Rightarrow> bool) \<Rightarrow> ('e + 'a) option \<Rightarrow> bool" where
  "returns P r \<longleftrightarrow> (\<exists>x. r = Some x \<and> (\<forall>y. x = Inr y \<longrightarrow> P y))"

lemma returns_simps [simp]:
  "\<not> returns P None" "returns P (Some (Inl e))" "returns P (Some (Inr y)) = P y"
  by (auto simp: returns_def)

lemma returns_bind: "returns P r \<Longrightarrow> (\<And>x. P x \<Longrightarrow> returns Q (f x)) \<Longrightarrow> returns Q (bind_pr r f)"
  by (cases "r" rule: option.exhaust; cases "the r") auto

lemma returns_Some: "(\<And>y. x = Inr y \<Longrightarrow> P y) \<Longrightarrow> returns P (Some x)"
  by (cases x) auto

lemma returns_mono: "returns P r \<Longrightarrow> (\<And>x. P x \<Longrightarrow> Q x) \<Longrightarrow> returns Q r"
  by (auto simp: returns_def)

lemma returns_map_error: "returns P r \<Longrightarrow> returns P (map_error s r)"
  by (cases r rule: option.exhaust; cases "the r") (auto simp: map_error_def)

lemma returns_collect:
  "(\<And>x. x \<in> set xs \<Longrightarrow> returns (P x) (f x)) \<Longrightarrow> returns (list_all2 P xs) (collect_presult (map f xs))"
proof (induction xs)
  case (Cons x xs)
  show ?case
    unfolding list.map collect_presult_Cons
  proof (rule returns_bind [OF Cons.prems], simp)
    fix y assume y: "P x y"
    show "returns (list_all2 P (x # xs)) (bind_pr (collect_presult (map f xs)) (\<lambda>ys. Some (Inr (y # ys))))"
      by (rule returns_bind [OF Cons.IH]) (use Cons.prems y in auto)
  qed
qed simp

section \<open>Scopes and declarations\<close>

definition with_relations :: "signature \<Rightarrow> relation_decl list \<Rightarrow> signature" where
  "with_relations sig rels = sig\<lparr>sig_relations := rels\<rparr>"

lemma with_relations_simps [simp]:
  "sig_sorts (with_relations sig rels) = sig_sorts sig" "sig_relations (with_relations sig rels) = rels"
  "with_relations sig (sig_relations sig) = sig"
  by (simp_all add: with_relations_def)

lemma decl_of_map_of: "decl_of sig x = map_of (map (\<lambda>r. (rd_name r, r)) (sig_relations sig)) x"
proof -
  have "map_option (nth rs) (position (\<lambda>r. rd_name r = x) rs) = map_of (map (\<lambda>r. (rd_name r, r)) rs) x" for rs
    by (induction rs) (auto simp: map_option_case split: option.splits)
  then show ?thesis by (simp add: decl_of_def relation_idx_def)
qed

text \<open>The scope that holds exactly the declarations \<open>rels\<close>, all of them over sorts of the signature.\<close>

definition scope_holds :: "scope \<Rightarrow> signature \<Rightarrow> relation_decl list \<Rightarrow> bool" where
  "scope_holds sc sig rels \<longleftrightarrow> sc_signature sc = sig \<and> sc_bound sc = map_of (map (\<lambda>r. (rd_name r, ri_relation r)) rels)
     \<and> (\<forall>r\<in>set rels. (\<forall>s\<in>set (rd_args r). sort_exists sig s) \<and> sort_exists sig (rd_sort r))"

lemma scope_holds_bound:
  assumes "scope_holds sc sig rels" and "sc_bound sc x = Some ri"
  obtains r where "r \<in> set rels" "decl_of (with_relations sig rels) x = Some r" "ri = ri_relation r"
proof -
  have "map_of (map (\<lambda>r. (rd_name r, f r)) rels) x = map_option f (map_of (map (\<lambda>r. (rd_name r, r)) rels) x)" for f
    by (induction rels) auto
  from this [of ri_relation] assms have "map_option ri_relation (map_of (map (\<lambda>r. (rd_name r, r)) rels) x) = Some ri"
    by (simp add: scope_holds_def)
  then obtain r where "map_of (map (\<lambda>r. (rd_name r, r)) rels) x = Some r" "ri = ri_relation r" by blast
  moreover from this(1) have "r \<in> set rels" using map_of_SomeD by fastforce
  ultimately show thesis using that by (simp add: decl_of_map_of)
qed

lemma scope_holds_sorts:
  assumes "scope_holds sc sig rels"
  shows "scope_sorts sig sc n"
  unfolding scope_sorts_def
proof (intro conjI allI impI)
  show "sig_sorts (sc_signature sc) = sig_sorts sig" using assms by (simp add: scope_holds_def)
  fix x ri assume "sc_bound sc x = Some ri"
  with assms obtain r where "r \<in> set rels" "ri = ri_relation r" by (rule scope_holds_bound)
  with assms show "case ri of Relation args ret \<Rightarrow> (\<forall>s\<in>set args. sort_exists sig s) \<and> sort_exists sig ret
      | Individual ms \<Rightarrow> known_in (sort_exists sig) ms \<and> key_below n ms"
    by (simp add: scope_holds_def ri_relation_def ri_args_ret_def ri_known_def)
qed

lemma scope_holds_means:
  assumes "scope_holds sc sig rels"
  shows "scope_means \<rho> sc (with_relations sig rels) Map.empty"
  unfolding scope_means_def
proof (intro allI impI)
  fix x ri assume "sc_bound sc x = Some ri"
  with assms obtain r where "decl_of (with_relations sig rels) x = Some r" "ri = ri_relation r"
    by (rule scope_holds_bound)
  then show "case ri of Relation args ret \<Rightarrow>
        \<exists>d. decl_of (with_relations sig rels) x = Some d \<and> rd_args d = args \<and> rd_sort d = ret
      | Individual ms \<Rightarrow> term_sort (with_relations sig rels) Map.empty (Id x) = Some (sort_under \<rho> ms)"
    by (simp add: ri_relation_def ri_args_ret_def ri_known_def)
qed

lemma map_add_fresh: "m x = None \<Longrightarrow> [x \<mapsto> y] ++ m = m(x \<mapsto> y)"
  by (rule ext) (auto simp: map_add_def split: option.splits)

lemma add_name_holds:
  assumes "scope_holds sc sig rels" and "\<forall>s\<in>set (rd_args r). sort_exists sig s" "sort_exists sig (rd_sort r)"
    and "add_name_internal sc (rd_name r) (ri_relation r) Disallow = Inr sc'"
  shows "scope_holds sc' sig (rels @ [r])"
  using assms by (auto simp: scope_holds_def add_name_internal_def map_add_fresh split: if_splits)

lemma check_sorts_exist_iff:
  "sig_sorts (sc_signature sc) = sig_sorts sig \<Longrightarrow> check_sorts_exist sc ss = Inr () \<longleftrightarrow> (\<forall>s\<in>set ss. sort_exists sig s)"
proof (induction ss)
  case (Cons s ss)
  then show ?case using check_sort_exists_iff [OF Cons.prems, of s]
    by (cases "check_sort_exists sc s") auto
qed simp

lemma add_relations_holds:
  "\<lbrakk> add_relations sc rels = Inr sc'; scope_holds sc sig rels0 \<rbrakk> \<Longrightarrow> scope_holds sc' sig (rels0 @ rels)"
proof (induction rels arbitrary: sc rels0)
  case (Cons r rels)
  have sorts: "sig_sorts (sc_signature sc) = sig_sorts sig" using Cons.prems(2) by (simp add: scope_holds_def)
  from Cons.prems(1) obtain sc1 where 1: "check_sorts_exist sc (rd_args r) = Inr ()" "check_sort_exists sc (rd_sort r) = Inr ()"
    "add_name_internal sc (rd_name r) (ri_relation r) Disallow = Inr sc1" "add_relations sc1 rels = Inr sc'"
    by (auto simp: bind_r_Inr)
  have "scope_holds sc1 sig (rels0 @ [r])"
    by (rule add_name_holds [OF Cons.prems(2) _ _ 1(3)])
      (use 1(1,2) check_sorts_exist_iff [OF sorts] check_sort_exists_iff [OF sorts] in simp_all)
  from Cons.IH [OF 1(4) this] show ?case by simp
qed simp

lemma check_sorts_distinct_returns: "\<forall>s\<in>set srts. is_word s \<Longrightarrow> check_sorts_distinct seen srts \<noteq> None"
  by (induction srts arbitrary: seen) (auto simp: is_word_def is_whitespace_def)

lemma scope_new_returns:
  assumes "sort_words sig"
  shows "returns (\<lambda>sc. scope_holds sc sig (sig_relations sig)) (scope_new sig)"
proof -
  obtain r where "check_sorts_distinct [] (sig_sorts sig) = Some r"
    using assms check_sorts_distinct_returns [of "sig_sorts sig" "[]"] by (auto simp: sort_words_def)
  moreover have "scope_holds \<lparr>sc_signature = sig, sc_bound = Map.empty\<rparr> sig []" by (simp add: scope_holds_def)
  ultimately show ?thesis using add_relations_holds [where ?rels0.0 = "[]"]
    by (cases r) (fastforce simp: scope_new_def intro!: returns_Some)+
qed

section \<open>Terms\<close>

text \<open>A term accepted among the declarations \<open>rels\<close>, with the variables of \<open>\<Gamma>\<close>: completed, annotated
  and well sorted.\<close>

definition term_checked :: "signature \<Rightarrow> relation_decl list \<Rightarrow> sort_context \<Rightarrow> fterm \<Rightarrow> fterm \<Rightarrow> sort \<Rightarrow> bool" where
  "term_checked sig rels \<Gamma> t t' s \<longleftrightarrow> completes t t' \<and> has_all_sort_annotations_term t'
     \<and> term_sort (with_relations sig rels) \<Gamma> t' = Some s"

lemma sorted_as_checked:
  assumes "sorted_as sig sc t t' s" and "scope_means \<rho> sc (with_relations sig rels) \<Gamma>"
  shows "term_checked sig rels \<Gamma> t t' s"
  using assms unfolding sorted_as_def term_checked_def by (metis with_relations_simps(1))

lemma expect_returns:
  assumes "unification_doc lib tv" "sort_words sig" "scope_sorts sig sc 0" "int (blank_count t) \<le> 4294967296"
    and "scope_means \<rho> sc (with_relations sig rels) \<Gamma>"
  shows "returns (\<lambda>t'. term_checked sig rels \<Gamma> t t' s) (sort_check_term_expect lib sc t s)"
  using expect_result [OF assms(1-4), of s] sorted_as_checked [OF _ assms(5)] by (auto simp: returns_def)

section \<open>Definitions\<close>

definition def_decl :: "definition_decl \<Rightarrow> relation_decl" where
  "def_decl d = \<lparr>rd_mutable = False, rd_name = d_name d, rd_args = map b_sort (d_binders d), rd_sort = d_ret_sort d\<rparr>"

lemma ri_definition_decl: "ri_definition d = ri_relation (def_decl d)"
  by (simp add: ri_definition_def ri_relation_def def_decl_def)

definition binder_context :: "sort_context \<Rightarrow> fbinder list \<Rightarrow> sort_context" where
  "binder_context \<Gamma> bs = \<Gamma>(map b_name bs [\<mapsto>] map b_sort bs)"

lemma binder_context_simps [simp]:
  "binder_context \<Gamma> [] = \<Gamma>" "binder_context \<Gamma> (b # bs) = binder_context (\<Gamma>(b_name b \<mapsto> b_sort b)) bs"
  by (simp_all add: binder_context_def)

lemma add_binders_from_means:
  "\<lbrakk> add_binders_from names sc bs shadow = Inr sc'; scope_sorts sig sc 0; scope_means \<rho> sc sig' \<Gamma>;
     \<forall>b\<in>set bs. b_sort b \<noteq> sort_unknown \<rbrakk>
   \<Longrightarrow> scope_sorts sig sc' 0 \<and> scope_means \<rho> sc' sig' (binder_context \<Gamma> bs) \<and> (\<forall>b\<in>set bs. sort_exists sig (b_sort b))"
proof (induction bs arbitrary: names sc \<Gamma>)
  case (Cons b bs)
  have sorts: "sig_sorts (sc_signature sc) = sig_sorts sig" using Cons.prems(2) by (simp add: scope_sorts_def)
  let ?sc = "sc\<lparr>sc_bound := (sc_bound sc)(b_name b \<mapsto> Individual (Known (b_sort b)))\<rparr>"
  from Cons.prems(1) have 1: "check_sort_exists_or_empty sc (b_sort b) = Inr ()"
    "add_binders_from (b_name b # names) ?sc bs shadow = Inr sc'"
    by (auto simp: bind_r_Inr add_name_internal_def ri_known_def split: if_splits)
  have b: "sort_exists sig (b_sort b)"
    using 1(1) Cons.prems(4) by (simp add: check_sort_exists_or_empty_iff [OF sorts])
  have "scope_sorts sig ?sc 0" by (rule scope_sorts_add [OF Cons.prems(2)]) (simp_all add: b)
  moreover have "scope_means \<rho> ?sc sig' (\<Gamma>(b_name b \<mapsto> b_sort b))"
    using scope_means_add [OF Cons.prems(3), of "b_name b" "Known (b_sort b)"] by simp
  ultimately show ?case using Cons.IH [OF 1(2)] Cons.prems(4) b by simp
qed simp

definition def_checked :: "signature \<Rightarrow> relation_decl list \<Rightarrow> definition_decl \<Rightarrow> definition_decl \<Rightarrow> bool" where
  "def_checked sig rels d d' \<longleftrightarrow> (\<exists>body. d' = d\<lparr>d_body := body\<rparr>
     \<and> (\<forall>b\<in>set (d_binders d). sort_exists sig (b_sort b)) \<and> sort_exists sig (d_ret_sort d)
     \<and> term_checked sig rels (binder_context Map.empty (d_binders d)) (d_body d) body (d_ret_sort d))"

definition def_input :: "definition_decl \<Rightarrow> bool" where
  "def_input d \<longleftrightarrow> list_all (\<lambda>b. b_sort b \<noteq> sort_unknown) (d_binders d) \<and> int (blank_count (d_body d)) \<le> 4294967296"

lemma sort_check_definition_returns:
  assumes doc: "unification_doc lib tv" and words: "sort_words sig" and sc: "scope_holds sc sig rels" and d: "def_input d"
  shows "returns (\<lambda>(sc', d'). scope_holds sc' sig (rels @ [def_decl d]) \<and> def_checked sig rels d d')
    (sort_check_definition lib sc d)"
  unfolding sort_check_definition_def
proof (rule returns_bind [OF returns_Some], assumption)
  fix inner assume "add_binders_internal sc (d_binders d) Allow = Inr inner"
  then have inner: "scope_sorts sig inner 0"
    "scope_means \<rho> inner (with_relations sig rels) (binder_context Map.empty (d_binders d))"
    "\<forall>b\<in>set (d_binders d). sort_exists sig (b_sort b)" for \<rho>
    using add_binders_from_means [OF _ scope_holds_sorts [OF sc] scope_holds_means [OF sc]] d
    by (auto simp: add_binders_internal_def def_input_def list_all_iff)
  have sorts: "sig_sorts (sc_signature inner) = sig_sorts sig" using inner(1) by (simp add: scope_sorts_def)
  show "returns (\<lambda>(sc', d'). scope_holds sc' sig (rels @ [def_decl d]) \<and> def_checked sig rels d d')
    (bind_pr (Some (check_sort_exists inner (d_ret_sort d))) (\<lambda>_.
     bind_pr (sort_check_term_expect lib inner (d_body d) (d_ret_sort d)) (\<lambda>body.
     bind_pr (Some (add_name_internal sc (d_name d) (ri_definition d) Disallow)) (\<lambda>sc.
       Some (Inr (sc, d\<lparr>d_body := body\<rparr>))))))"
  proof (rule returns_bind [OF returns_Some], assumption, rule returns_bind)
    show "returns (\<lambda>body. term_checked sig rels (binder_context Map.empty (d_binders d)) (d_body d) body (d_ret_sort d))
      (sort_check_term_expect lib inner (d_body d) (d_ret_sort d))"
      using d by (intro expect_returns [OF doc words inner(1) _ inner(2)]) (simp add: def_input_def)
    fix u body
    assume "check_sort_exists inner (d_ret_sort d) = Inr u"
      and body: "term_checked sig rels (binder_context Map.empty (d_binders d)) (d_body d) body (d_ret_sort d)"
    then have ret: "sort_exists sig (d_ret_sort d)" using check_sort_exists_iff [OF sorts] by simp
    have "scope_holds sc' sig (rels @ [def_decl d])"
      if "add_name_internal sc (d_name d) (ri_definition d) Disallow = Inr sc'" for sc'
      by (rule add_name_holds [OF sc, of "def_decl d"])
        (use that inner(3) ret in \<open>simp_all add: ri_definition_decl def_decl_def\<close>)
    with body inner(3) ret
    show "returns (\<lambda>(sc', d'). scope_holds sc' sig (rels @ [def_decl d]) \<and> def_checked sig rels d d')
      (bind_pr (Some (add_name_internal sc (d_name d) (ri_definition d) Disallow)) (\<lambda>sc. Some (Inr (sc, d\<lparr>d_body := body\<rparr>))))"
      by (cases "add_name_internal sc (d_name d) (ri_definition d) Disallow") (auto simp: def_checked_def)
  qed
qed

fun defs_checked :: "signature \<Rightarrow> relation_decl list \<Rightarrow> definition_decl list \<Rightarrow> definition_decl list \<Rightarrow> bool" where
  "defs_checked sig rels [] ds' \<longleftrightarrow> ds' = []"
| "defs_checked sig rels (d # ds) ds' \<longleftrightarrow>
     (case ds' of [] \<Rightarrow> False | d' # ds' \<Rightarrow> def_checked sig rels d d' \<and> defs_checked sig (rels @ [def_decl d]) ds ds')"

lemma sort_check_definitions_returns:
  assumes "unification_doc lib tv" "sort_words sig"
  shows "scope_holds sc sig rels \<Longrightarrow> list_all def_input ds \<Longrightarrow>
    returns (\<lambda>(sc', ds'). scope_holds sc' sig (rels @ map def_decl ds) \<and> defs_checked sig rels ds ds')
      (sort_check_definitions lib sc ds)"
proof (induction ds arbitrary: sc rels)
  case (Cons d ds)
  show ?case
    unfolding sort_check_definitions.simps
  proof (rule returns_bind [OF sort_check_definition_returns [OF assms Cons.prems(1)]])
    show "def_input d" using Cons.prems(2) by simp
    fix r
    assume r: "case r of (sc', d') \<Rightarrow> scope_holds sc' sig (rels @ [def_decl d]) \<and> def_checked sig rels d d'"
    obtain sc' d' where rp: "r = (sc', d')" by (cases r)
    with r have sc': "scope_holds sc' sig (rels @ [def_decl d])" and d': "def_checked sig rels d d'" by simp_all
    have "returns (\<lambda>(sc', ds'). scope_holds sc' sig (rels @ map def_decl (d # ds)) \<and> defs_checked sig rels (d # ds) ds')
      (bind_pr (sort_check_definitions lib sc' ds) (\<lambda>(sc, ds). Some (Inr (sc, d' # ds))))"
      by (rule returns_bind [OF Cons.IH [OF sc']]) (use Cons.prems(2) d' in auto)
    then show "returns (\<lambda>(sc', ds'). scope_holds sc' sig (rels @ map def_decl (d # ds)) \<and> defs_checked sig rels (d # ds) ds')
      (case r of (sc, d) \<Rightarrow> bind_pr (sort_check_definitions lib sc ds) (\<lambda>(sc, ds). Some (Inr (sc, d # ds))))"
      by (simp add: rp)
  qed
qed simp

section \<open>Statements and modules\<close>

definition spanned_checked :: "signature \<Rightarrow> relation_decl list \<Rightarrow> fterm spanned \<Rightarrow> fterm spanned \<Rightarrow> bool" where
  "spanned_checked sig rels x x' \<longleftrightarrow> sp_span x' = sp_span x \<and> term_checked sig rels Map.empty (sp_x x) (sp_x x') Bool"

fun statement_checked :: "signature \<Rightarrow> relation_decl list \<Rightarrow> thm_stmt \<Rightarrow> thm_stmt \<Rightarrow> bool" where
  "statement_checked sig rels (Assume t) (Assume t') = term_checked sig rels Map.empty t t' Bool"
| "statement_checked sig rels (Assert p) (Assert p') =
     (list_all2 (spanned_checked sig rels) (p_invariants p) (p_invariants p') \<and> spanned_checked sig rels (p_assert p) (p_assert p'))"
| "statement_checked sig rels _ _ = False"

definition module_checked :: "fmodule \<Rightarrow> fmodule \<Rightarrow> bool" where
  "module_checked m m' \<longleftrightarrow> mod_signature m' = mod_signature m
     \<and> defs_checked (mod_signature m) (sig_relations (mod_signature m)) (mod_defs m) (mod_defs m')
     \<and> list_all2 (statement_checked (mod_signature m) (sig_relations (mod_signature m) @ map def_decl (mod_defs m)))
         (mod_statements m) (mod_statements m')"

fun statement_terms :: "thm_stmt \<Rightarrow> fterm list" where
  "statement_terms (Assume t) = [t]"
| "statement_terms (Assert p) = map sp_x (p_invariants p @ [p_assert p])"

text \<open>What the checker relies on: sort names are words, the binders of definitions have sorts, and there
  are at most $2^{32}$ missing annotations in a term (the keys of the table are 32 bits wide).\<close>

definition module_input :: "fmodule \<Rightarrow> bool" where
  "module_input m \<longleftrightarrow> sort_words (mod_signature m) \<and> list_all def_input (mod_defs m)
     \<and> (\<forall>st\<in>set (mod_statements m). \<forall>t\<in>set (statement_terms st). int (blank_count t) \<le> 4294967296)"

lemma spanned_returns:
  assumes "unification_doc lib tv" "sort_words sig" "scope_holds sc sig rels" "int (blank_count (sp_x x)) \<le> 4294967296"
  shows "returns (spanned_checked sig rels x) (sort_check_spanned lib sc x)"
  unfolding sort_check_spanned_def sort_check_term_bool_def
  by (rule returns_bind [OF returns_map_error
        [OF expect_returns [OF assms(1,2) scope_holds_sorts [OF assms(3)] assms(4) scope_holds_means [OF assms(3)]]]])
    (simp add: spanned_checked_def)

lemma statement_returns:
  assumes "unification_doc lib tv" "sort_words sig" "scope_holds sc sig rels"
    and n: "\<forall>t\<in>set (statement_terms st). int (blank_count t) \<le> 4294967296"
  shows "returns (statement_checked sig rels st) (sort_check_statement lib sc st)"
proof (cases st)
  case (Assume t)
  then have t: "int (blank_count t) \<le> 4294967296" using n by simp
  show ?thesis
    unfolding Assume sort_check_statement.simps sort_check_term_bool_def
    by (rule returns_bind [OF returns_map_error
        [OF expect_returns [OF assms(1,2) scope_holds_sorts [OF assms(3)] t scope_holds_means [OF assms(3)]]]]) simp
next
  case (Assert p)
  note spanned = spanned_returns [OF assms(1-3)]
  have "returns (list_all2 (spanned_checked sig rels) (p_invariants p))
      (collect_presult (map (sort_check_spanned lib sc) (p_invariants p)))"
    by (rule returns_collect, rule spanned) (use n Assert in auto)
  then show ?thesis
    unfolding Assert sort_check_statement.simps
  proof (rule returns_bind)
    fix invs assume invs: "list_all2 (spanned_checked sig rels) (p_invariants p) invs"
    show "returns (statement_checked sig rels (Assert p)) (bind_pr (sort_check_spanned lib sc (p_assert p))
        (\<lambda>a. Some (Inr (Assert (p\<lparr>p_assert := a, p_invariants := invs\<rparr>)))))"
      by (rule returns_bind [OF spanned]) (use n Assert invs in auto)
  qed
qed

lemma defs_checked_annotated:
  "defs_checked sig rels ds ds' \<Longrightarrow> list_all (\<lambda>d. has_all_sort_annotations_term (d_body d)) ds'"
  by (induction ds arbitrary: rels ds') (auto simp: def_checked_def term_checked_def split: list.splits)

lemma list_all2_rightD: "list_all2 P xs ys \<Longrightarrow> y \<in> set ys \<Longrightarrow> \<exists>x\<in>set xs. P x y"
  by (induction rule: list_all2_induct) auto

lemma statement_checked_annotated:
  "statement_checked sig rels st st' \<Longrightarrow> t \<in> set (statement_terms st') \<Longrightarrow> has_all_sort_annotations_term t"
  by (cases "(sig, rels, st, st')" rule: statement_checked.cases)
    (auto simp: spanned_checked_def term_checked_def dest: list_all2_rightD)

lemma module_checked_annotated: "module_checked m m' \<Longrightarrow> has_all_sort_annotations_module m'"
  unfolding has_all_sort_annotations_module_def module_checked_def
proof (elim conjE, intro conjI)
  assume st: "list_all2 (statement_checked (mod_signature m) (sig_relations (mod_signature m) @ map def_decl (mod_defs m)))
    (mod_statements m) (mod_statements m')"
  have "has_all_sort_annotations_term t" if "st' \<in> set (mod_statements m')" "t \<in> set (statement_terms st')" for st' t
    using list_all2_rightD [OF st that(1)] statement_checked_annotated that(2) by blast
  then show "list_all (\<lambda>st. case st of Assume t \<Rightarrow> has_all_sort_annotations_term t
      | Assert p \<Rightarrow> list_all (\<lambda>inv. has_all_sort_annotations_term (sp_x inv)) (p_invariants p)
          \<and> has_all_sort_annotations_term (sp_x (p_assert p))) (mod_statements m')"
    by (fastforce simp: list_all_iff split: thm_stmt.split)
qed (rule defs_checked_annotated)

lemma module_returns:
  assumes doc: "unification_doc lib tv" and m: "module_input m"
  shows "returns (module_checked m) (sort_check_module lib m)"
proof -
  let ?sig = "mod_signature m"
  let ?rels = "sig_relations ?sig @ map def_decl (mod_defs m)"
  have words: "sort_words ?sig" and defs: "list_all def_input (mod_defs m)" using m by (simp_all add: module_input_def)
  show ?thesis
    unfolding sort_check_module_def
  proof (rule returns_bind [OF returns_map_error [OF scope_new_returns [OF words]]])
    fix sc assume sc: "scope_holds sc ?sig (sig_relations ?sig)"
    have "returns (module_checked m) (bind_pr (map_error None (sort_check_definitions lib sc (mod_defs m))) (\<lambda>(sc, defs).
        bind_pr (sort_check_statements lib sc (mod_statements m)) (\<lambda>sts.
          let m = m\<lparr>mod_defs := defs, mod_statements := sts\<rparr> in
          if has_all_sort_annotations_module m then Some (Inr m) else None)))"
    proof (rule returns_bind [OF returns_map_error [OF sort_check_definitions_returns [OF doc words sc defs]]], clarsimp)
      fix sc' ds' assume sc': "scope_holds sc' ?sig ?rels" and ds': "defs_checked ?sig (sig_relations ?sig) (mod_defs m) ds'"
      have "returns (list_all2 (statement_checked ?sig ?rels) (mod_statements m)) (sort_check_statements lib sc' (mod_statements m))"
        unfolding sort_check_statements_def
        by (rule returns_collect, rule statement_returns [OF doc words sc']) (use m in \<open>auto simp: module_input_def\<close>)
      then show "returns (module_checked m) (bind_pr (sort_check_statements lib sc' (mod_statements m)) (\<lambda>sts.
          let m = m\<lparr>mod_defs := ds', mod_statements := sts\<rparr> in
          if has_all_sort_annotations_module m then Some (Inr m) else None))"
      proof (rule returns_bind)
        fix sts assume "list_all2 (statement_checked ?sig ?rels) (mod_statements m) sts"
        with ds' have M: "module_checked m (m\<lparr>mod_defs := ds', mod_statements := sts\<rparr>)" by (simp add: module_checked_def)
        from this module_checked_annotated [OF this]
        show "returns (module_checked m) (let m = m\<lparr>mod_defs := ds', mod_statements := sts\<rparr> in
          if has_all_sort_annotations_module m then Some (Inr m) else None)" by (simp add: Let_def)
      qed
    qed
    with sc show "returns (module_checked m) (scope_sort_check_module lib sc m)"
      by (simp add: scope_sort_check_module_def scope_holds_def)
  qed
qed

end
