(* ===== verification/Fly_Sorts_Complete.thy ===== *)
theory Fly_Sorts_Complete
  imports Fly_Sorts_Module
begin

text \<open>
  Sort errors are genuine: when the first phase reports a conflict of sorts, a wrong number of
  arguments or an undeclared sort, no choice of the missing annotations makes the term well sorted.
\<close>

section \<open>Errors and extended solutions\<close>

fun sort_conflict :: "sort_error \<Rightarrow> bool" where
  "sort_conflict (UnificationFail a b) = True"
| "sort_conflict (ExpectedButFoundSorts a b) = True"
| "sort_conflict (ExpectedButFoundArity f m n) = True"
| "sort_conflict (UnknownSort a) = True"
| "sort_conflict _ = False"

fun explained :: "('a \<Rightarrow> bool) \<Rightarrow> sort_error + 'a \<Rightarrow> bool" where
  "explained P (Inl e) = (\<not> sort_conflict e)"
| "explained P (Inr x) = P x"

lemma explained_bind:
  "explained P r \<Longrightarrow> (\<And>x. r = Inr x \<Longrightarrow> P x \<Longrightarrow> explained Q (f x)) \<Longrightarrow> explained Q (bind_r r f)"
  by (cases r) auto

definition extended ::
  "'t unification \<Rightarrow> 't table_view \<Rightarrow> 't \<Rightarrow> (nat \<Rightarrow> sort) \<Rightarrow> 't \<Rightarrow> ((nat \<Rightarrow> sort) \<Rightarrow> bool) \<Rightarrow> bool" where
  "extended lib tv tab \<rho> tab' P \<longleftrightarrow> (\<exists>\<rho>'. (\<forall>k<tv_keys tv tab. \<rho>' k = \<rho> k) \<and> solves lib tv \<rho>' tab' \<and> P \<rho>')"

lemma extendedI: "solves lib tv \<rho> tab' \<Longrightarrow> P \<rho> \<Longrightarrow> extended lib tv tab \<rho> tab' P"
  by (auto simp: extended_def)

lemma extended_mono: "extended lib tv tab \<rho> tab' P \<Longrightarrow> (\<And>\<rho>'. P \<rho>' \<Longrightarrow> Q \<rho>') \<Longrightarrow> extended lib tv tab \<rho> tab' Q"
  by (auto simp: extended_def)

lemma extended_trans:
  assumes "\<forall>k<tv_keys tv tab. \<rho>' k = \<rho> k" and "tv_keys tv tab \<le> tv_keys tv tab'" and "extended lib tv tab' \<rho>' tab2 P"
  shows "extended lib tv tab \<rho> tab2 P"
  using assms unfolding extended_def by (metis order.strict_trans2)

lemma sort_under_agree: "key_below n ms \<Longrightarrow> \<forall>k<n. \<rho>' k = \<rho> k \<Longrightarrow> sort_under \<rho>' ms = sort_under \<rho> ms"
  by (cases ms) auto

lemma scope_means_agree:
  assumes "scope_sorts sig sc n" "\<forall>k<n. \<rho>' k = \<rho> k" "scope_means \<rho> sc sig' \<Gamma>"
  shows "scope_means \<rho>' sc sig' \<Gamma>"
  unfolding scope_means_def
proof (intro allI impI)
  fix x ri assume ri: "sc_bound sc x = Some ri"
  show "case ri of Relation args ret \<Rightarrow> \<exists>d. decl_of sig' x = Some d \<and> rd_args d = args \<and> rd_sort d = ret
      | Individual ms \<Rightarrow> term_sort sig' \<Gamma> (Id x) = Some (sort_under \<rho>' ms)"
    using assms(3) [unfolded scope_means_def, rule_format, OF ri] ri assms(1) sort_under_agree [OF _ assms(2)]
    by (cases ri) (fastforce simp: scope_sorts_def simp del: term_sort.simps)+
qed

section \<open>States of the first phase\<close>

definition state_ok :: "'t unification \<Rightarrow> 't table_view \<Rightarrow> signature \<Rightarrow> scope \<Rightarrow> 't \<Rightarrow> nat \<Rightarrow> bool" where
  "state_ok lib tv sig sc tab n \<longleftrightarrow> table_inv lib tv sig tab \<and> scope_sorts sig sc (tv_keys tv tab)
     \<and> int (tv_keys tv tab + n) \<le> 4294967296"

lemma state_ok_less: "state_ok lib tv sig sc tab m \<Longrightarrow> n \<le> m \<Longrightarrow> state_ok lib tv sig sc tab n"
  by (auto simp: state_ok_def)

lemma state_ok_step:
  assumes "state_ok lib tv sig sc tab (m + n)" and "table_step lib tv sig tab m tab'"
  shows "state_ok lib tv sig sc tab' n" and "tv_keys tv tab \<le> tv_keys tv tab'"
  using assms table_step_inv [OF assms(2)] table_step_keys [OF assms(2)] scope_sorts_step [OF _ assms(2)]
  by (auto simp: state_ok_def)

lemma state_ok_collect:
  assumes "unification_doc lib tv" "sort_words sig" "state_ok lib tv sig sc tab (blank_count t + n)"
    and "collect_term lib sc tab t = Inr (ms, t1, tab')"
  shows "state_ok lib tv sig sc tab' n" "tv_keys tv tab \<le> tv_keys tv tab'" "key_below (tv_keys tv tab') ms"
    "known_in (sort_exists sig) ms"
proof -
  have S: "table_step lib tv sig tab (blank_count t) tab'" "collected lib tv sig sc tab' t t1 ms"
    using collect_sound(1) [OF assms(2,1,4)] assms(3) by (simp_all add: state_ok_def)
  show "state_ok lib tv sig sc tab' n" "tv_keys tv tab \<le> tv_keys tv tab'" by (rule state_ok_step [OF assms(3) S(1)])+
  show "key_below (tv_keys tv tab') ms" "known_in (sort_exists sig) ms" by (rule collectedD [OF S(2)])+
qed

lemma unify_value_explained:
  assumes doc: "unification_doc lib tv" and "state_ok lib tv sig sc tab n" and "key_below (tv_keys tv tab) ms" and "sort_exists sig s"
    and \<rho>: "solves lib tv \<rho> tab" "sort_under \<rho> ms = s"
  shows "explained (\<lambda>tab'. solves lib tv \<rho> tab' \<and> state_ok lib tv sig sc tab' n \<and> tv_keys tv tab' = tv_keys tv tab)
    (unify_var_value lib tab s ms)"
proof (cases "unify_var_value lib tab s ms")
  case (Inl e)
  have "tv_ok tv tab" using assms(2) by (simp add: state_ok_def table_inv_def)
  from unify_var_value_sorts(2) [OF doc this assms(3) Inl \<rho>(1)] \<rho>(2) show ?thesis by simp
next
  case (Inr tab')
  have inv: "table_inv lib tv sig tab" and ok: "state_ok lib tv sig sc tab (0 + n)" using assms(2) by (simp_all add: state_ok_def)
  note S = unify_value_step [OF doc inv assms(3,4) Inr]
  from S(2) \<rho> state_ok_step [OF ok S(1)] table_step_keys [OF S(1)] show ?thesis by (simp add: Inr)
qed

lemma unify_vars_explained:
  assumes doc: "unification_doc lib tv" and "state_ok lib tv sig sc tab n" and "key_below (tv_keys tv tab) a" "key_below (tv_keys tv tab) b"
    and "known_in (sort_exists sig) a" "known_in (sort_exists sig) b"
    and \<rho>: "solves lib tv \<rho> tab" "sort_under \<rho> a = sort_under \<rho> b"
  shows "explained (\<lambda>tab'. solves lib tv \<rho> tab') (unify_var_var lib tab a b)"
proof (cases "unify_var_var lib tab a b")
  case (Inl e)
  have "tv_ok tv tab" using assms(2) by (simp add: state_ok_def table_inv_def)
  from unify_var_var_sorts(2) [OF doc this assms(3,4) Inl \<rho>(1)] \<rho>(2) show ?thesis by simp
next
  case (Inr tab')
  have inv: "table_inv lib tv sig tab" using assms(2) by (simp add: state_ok_def)
  from unify_vars_step(2) [OF doc inv assms(3-6) Inr] \<rho> show ?thesis by (simp add: Inr)
qed

section \<open>Binders\<close>

lemma add_inferred_binders_explained:
  assumes doc: "unification_doc lib tv" and words: "sort_words sig"
  shows "\<lbrakk> state_ok lib tv sig sc tab (blank_binders bs); solves lib tv \<rho> tab; scope_means \<rho> sc sig' \<Gamma>;
      list_all2 binder_completes bs bs2; \<forall>b\<in>set bs2. sort_exists sig (b_sort b) \<rbrakk>
    \<Longrightarrow> explained (\<lambda>(sc', tab', bs'). extended lib tv tab \<rho> tab' (\<lambda>\<rho>'. scope_means \<rho>' sc' sig' (binder_context \<Gamma> bs2)))
          (add_inferred_binders lib names sc tab bs)"
proof (induction bs arbitrary: names sc tab \<rho> \<Gamma> bs2)
  case Nil
  then show ?case by (simp add: extendedI)
next
  case (Cons b bs)
  from Cons.prems(4) obtain b2 bs3 where bs2: "bs2 = b2 # bs3" and b2: "binder_completes b b2"
    and bs3: "list_all2 binder_completes bs bs3" by (cases bs2) auto
  have sorts: "sig_sorts (sc_signature sc) = sig_sorts sig" and sc: "scope_sorts sig sc (tv_keys tv tab)"
    and inv: "table_inv lib tv sig tab" using Cons.prems(1) by (simp_all add: state_ok_def scope_sorts_def)
  have name: "b_name b2 = b_name b" using b2 by (simp add: binder_completes_def)
  have rest: "explained (\<lambda>(sc', tab', bs'). extended lib tv tab \<rho> tab' (\<lambda>\<rho>'. scope_means \<rho>' sc' sig' (binder_context \<Gamma> bs2)))
      (bind_r (add_inferred_binders lib (b_name b # names) (sc\<lparr>sc_bound := (sc_bound sc)(b_name b \<mapsto> Individual ms)\<rparr>) tab1 bs)
        (\<lambda>(sc, tab, bs). Inr (sc, tab, b1 # bs)))"
    if step: "table_step lib tv sig tab (blank_binders [b]) tab1" and ms: "known_in (sort_exists sig) ms" "key_below (tv_keys tv tab1) ms"
      and \<rho>1: "\<forall>k<tv_keys tv tab. \<rho>1 k = \<rho> k" "solves lib tv \<rho>1 tab1" "sort_under \<rho>1 ms = b_sort b2" for tab1 ms b1 \<rho>1
  proof -
    let ?sc = "sc\<lparr>sc_bound := (sc_bound sc)(b_name b \<mapsto> Individual ms)\<rparr>"
    have ok: "state_ok lib tv sig sc tab (blank_binders [b] + blank_binders bs)"
      using Cons.prems(1) by (auto simp: blank_binders_def intro: state_ok_less)
    have ok1: "state_ok lib tv sig ?sc tab1 (blank_binders bs)"
      using state_ok_step(1) [OF ok step] scope_sorts_add [OF _ ms] by (simp add: state_ok_def)
    have means: "scope_means \<rho>1 ?sc sig' (\<Gamma>(b_name b \<mapsto> b_sort b2))"
      using scope_means_add [OF scope_means_agree [OF sc \<rho>1(1) Cons.prems(3)], of "b_name b" ms] \<rho>1(3) by simp
    have ex: "\<forall>b\<in>set bs3. sort_exists sig (b_sort b)" using Cons.prems(5) bs2 by simp
    show ?thesis
    proof (rule explained_bind [OF Cons.IH [OF ok1 \<rho>1(2) means bs3 ex]], clarsimp simp del: fun_upd_apply)
      fix sc' tab'
      assume "extended lib tv tab1 \<rho>1 tab' (\<lambda>\<rho>'. scope_means \<rho>' sc' sig' (binder_context (\<Gamma>(b_name b \<mapsto> b_sort b2)) bs3))"
      from extended_trans [OF \<rho>1(1) state_ok_step(2) [OF ok step] this]
      show "extended lib tv tab \<rho> tab' (\<lambda>\<rho>'. scope_means \<rho>' sc' sig' (binder_context \<Gamma> bs2))" by (simp add: bs2 name)
    qed
  qed
  have chk: "check_sort_exists_or_empty sc (b_sort b) = Inr ()"
    using b2 Cons.prems(5) bs2 check_sort_exists_or_empty_iff [OF sorts] by (auto simp: binder_completes_def)
  show ?case
  proof (cases "b_sort b = sort_unknown")
    case True
    obtain k tab1 where new: "ut_new_key lib tab None = (k, tab1)" by (cases "ut_new_key lib tab None")
    note N = new_key_step [OF doc inv new]
    have step: "table_step lib tv sig tab (blank_binders [b]) tab1" using N(1) True by (simp add: blank_binders_def One_nat_def)
    have "solves lib tv (\<rho>(k := b_sort b2)) tab1"
      using Cons.prems(2) N(2) unfolding N(3) by (auto simp: solves_def)
    then show ?thesis
      using True new chk N(2) table_step_keys [OF N(1)] rest [OF step, of "UnknownVar k" "\<rho>(k := b_sort b2)"]
      by (simp add: ri_unknown_def add_name_internal_def)
  next
    case False
    then have b: "b_sort b2 = b_sort b" using b2 by (simp add: binder_completes_def)
    have step: "table_step lib tv sig tab (blank_binders [b]) tab"
      using table_step_refl [OF inv] False by (simp add: blank_binders_def)
    show ?thesis
      using False chk b Cons.prems(2,5) bs2 rest [OF step, of "Known (b_sort b)" \<rho>]
      by (simp add: ri_known_def add_name_internal_def)
  qed
qed

section \<open>Terms\<close>

definition fits :: "'t unification \<Rightarrow> 't table_view \<Rightarrow> scope \<Rightarrow> 't \<Rightarrow> (nat \<Rightarrow> sort) \<Rightarrow> signature \<Rightarrow> sort_context \<Rightarrow> bool" where
  "fits lib tv sc tab \<rho> sig' \<Gamma> \<longleftrightarrow> solves lib tv \<rho> tab \<and> scope_means \<rho> sc sig' \<Gamma>"

lemma fits_agree:
  assumes "state_ok lib tv sig sc tab n" "fits lib tv sc tab \<rho> sig' \<Gamma>" "\<forall>k<tv_keys tv tab. \<rho>' k = \<rho> k" "solves lib tv \<rho>' tab'"
  shows "fits lib tv sc tab' \<rho>' sig' \<Gamma>"
  using assms scope_means_agree by (auto simp: fits_def state_ok_def)

lemma extended_fits:
  assumes "\<forall>k<tv_keys tv tab. \<rho>1 k = \<rho> k" "tv_keys tv tab \<le> tv_keys tv tab1"
    and "fits lib tv sc tab2 \<rho>2 sig' \<Gamma>" "\<forall>k<tv_keys tv tab1. \<rho>2 k = \<rho>1 k" "P \<rho>2"
  shows "extended lib tv tab \<rho> tab2 P"
  using assms unfolding extended_def fits_def by (metis order.strict_trans2)

text \<open>One step of the code: collect a term, unify its sort with the sort it must have.\<close>

lemma collect_unify_explained:
  assumes doc: "unification_doc lib tv" and words: "sort_words sig"
    and ok: "state_ok lib tv sig sc tab (blank_count t + n)" and fit: "fits lib tv sc tab \<rho> sig' \<Gamma>" and s: "sort_exists sig s"
    and collect: "explained (\<lambda>(ms, t1, tab1). extended lib tv tab \<rho> tab1 (\<lambda>\<rho>'. sort_under \<rho>' ms = s)) (collect_term lib sc tab t)"
    and rest: "\<And>t1 tab2 \<rho>'. \<lbrakk> state_ok lib tv sig sc tab2 n; fits lib tv sc tab2 \<rho>' sig' \<Gamma>; \<forall>k<tv_keys tv tab. \<rho>' k = \<rho> k;
        tv_keys tv tab \<le> tv_keys tv tab2 \<rbrakk> \<Longrightarrow> explained Q (f t1 tab2)"
  shows "explained Q (bind_r (collect_term lib sc tab t) (\<lambda>(ms, t1, tab1).
    bind_r (unify_var_value lib tab1 s ms) (\<lambda>tab2. f t1 tab2)))"
proof (rule explained_bind [OF collect], clarsimp)
  fix ms t1 tab1
  assume C: "collect_term lib sc tab t = Inr (ms, t1, tab1)"
    and "extended lib tv tab \<rho> tab1 (\<lambda>\<rho>'. sort_under \<rho>' ms = s)"
  then obtain \<rho>' where \<rho>': "\<forall>k<tv_keys tv tab. \<rho>' k = \<rho> k" "solves lib tv \<rho>' tab1" "sort_under \<rho>' ms = s"
    by (auto simp: extended_def)
  note K = state_ok_collect [OF doc words ok C]
  show "explained Q (bind_r (unify_var_value lib tab1 s ms) (\<lambda>tab2. f t1 tab2))"
  proof (rule explained_bind [OF unify_value_explained [OF doc K(1,3) s \<rho>'(2,3)]])
    fix tab2
    assume "solves lib tv \<rho>' tab2 \<and> state_ok lib tv sig sc tab2 n \<and> tv_keys tv tab2 = tv_keys tv tab1"
    with fits_agree [OF ok fit \<rho>'(1)] K(2) show "explained Q (f t1 tab2)"
      by (intro rest [of tab2 \<rho>'] \<rho>'(1)) simp_all
  qed
qed

text \<open>Two terms whose sorts are unified with each other.\<close>

lemma collect_equal_explained:
  assumes doc: "unification_doc lib tv" and words: "sort_words sig"
    and ok: "state_ok lib tv sig sc tab (blank_count x + blank_count y)" and fit: "fits lib tv sc tab \<rho> sig' \<Gamma>"
    and x: "explained (\<lambda>(ms, t1, tab1). extended lib tv tab \<rho> tab1 (\<lambda>\<rho>'. sort_under \<rho>' ms = s)) (collect_term lib sc tab x)"
    and y: "\<And>tab1 \<rho>1. \<lbrakk> state_ok lib tv sig sc tab1 (blank_count y); fits lib tv sc tab1 \<rho>1 sig' \<Gamma> \<rbrakk>
      \<Longrightarrow> explained (\<lambda>(ms, t1, tab2). extended lib tv tab1 \<rho>1 tab2 (\<lambda>\<rho>'. sort_under \<rho>' ms = s)) (collect_term lib sc tab1 y)"
    and rest: "\<And>a x1 y1 tab3. extended lib tv tab \<rho> tab3 (\<lambda>\<rho>'. sort_under \<rho>' a = s) \<Longrightarrow> explained Q (f a x1 y1 tab3)"
  shows "explained Q (bind_r (collect_term lib sc tab x) (\<lambda>(a, x1, tab1). bind_r (collect_term lib sc tab1 y) (\<lambda>(b, y1, tab2).
    bind_r (unify_var_var lib tab2 a b) (\<lambda>tab3. f a x1 y1 tab3))))"
proof (rule explained_bind [OF x], clarsimp)
  fix a x1 tab1
  assume C: "collect_term lib sc tab x = Inr (a, x1, tab1)" and "extended lib tv tab \<rho> tab1 (\<lambda>\<rho>'. sort_under \<rho>' a = s)"
  then obtain \<rho>1 where \<rho>1: "\<forall>k<tv_keys tv tab. \<rho>1 k = \<rho> k" "solves lib tv \<rho>1 tab1" "sort_under \<rho>1 a = s"
    by (auto simp: extended_def)
  note X = state_ok_collect [OF doc words ok C]
  show "explained Q (bind_r (collect_term lib sc tab1 y) (\<lambda>(b, y1, tab2). bind_r (unify_var_var lib tab2 a b) (f a x1 y1)))"
  proof (rule explained_bind [OF y [OF X(1) fits_agree [OF ok fit \<rho>1(1,2)]]], clarsimp)
    fix b y1 tab2
    assume D: "collect_term lib sc tab1 y = Inr (b, y1, tab2)" and "extended lib tv tab1 \<rho>1 tab2 (\<lambda>\<rho>'. sort_under \<rho>' b = s)"
    then obtain \<rho>2 where \<rho>2: "\<forall>k<tv_keys tv tab1. \<rho>2 k = \<rho>1 k" "solves lib tv \<rho>2 tab2" "sort_under \<rho>2 b = s"
      by (auto simp: extended_def)
    have "state_ok lib tv sig sc tab1 (blank_count y + 0)" using X(1) by simp
    note Y = state_ok_collect [OF doc words this D]
    have a: "sort_under \<rho>2 a = s" using sort_under_agree [OF X(3) \<rho>2(1)] \<rho>1(3) by simp
    have agree: "\<forall>k<tv_keys tv tab. \<rho>2 k = \<rho> k" using \<rho>1(1) \<rho>2(1) X(2) by simp
    show "explained Q (bind_r (unify_var_var lib tab2 a b) (f a x1 y1))"
    proof (rule explained_bind [OF unify_vars_explained [OF doc Y(1) key_below_mono [OF X(3) Y(2)] Y(3) X(4) Y(4) \<rho>2(2)]])
      show "sort_under \<rho>2 a = sort_under \<rho>2 b" using a \<rho>2(3) by simp
      show "explained Q (f a x1 y1 tab3)" if "solves lib tv \<rho>2 tab3" for tab3
        by (rule rest) (use agree that a in \<open>auto simp: extended_def\<close>)
    qed
  qed
qed

lemma sort_exists_same: "sig_sorts sig' = sig_sorts sig \<Longrightarrow> sort_exists sig' s = sort_exists sig s"
  by (simp add: sort_exists_def contains_sort_def split: sort.split)

lemma those_Some: "those xs = Some ys \<longleftrightarrow> xs = map Some ys"
  by (induction xs arbitrary: ys) (auto split: option.splits)

lemma explained_id:
  assumes "fits lib tv sc tab \<rho> sig' \<Gamma>" and "term_sort sig' \<Gamma> (Id x) = Some s"
  shows "explained (\<lambda>(ms, t1, tab'). extended lib tv tab \<rho> tab' (\<lambda>\<rho>'. sort_under \<rho>' ms = s)) (collect_term lib sc tab (Id x))"
proof (cases "get_individual sc x")
  case (Inl e)
  then show ?thesis by (auto simp: get_individual_def split: option.splits relation_or_individual.splits)
next
  case (Inr ms)
  then have "sc_bound sc x = Some (Individual ms)"
    by (auto simp: get_individual_def split: option.splits relation_or_individual.splits)
  then have "sort_under \<rho> ms = s"
    using assms by (fastforce simp: fits_def scope_means_def simp del: term_sort.simps)
  with Inr assms(1) show ?thesis by (simp add: fits_def extendedI)
qed

lemma collect_explained:
  assumes words: "sort_words sig"
  shows "\<lbrakk> unification_doc lib tv; state_ok lib tv sig sc tab (blank_count t); fits lib tv sc tab \<rho> sig' \<Gamma>;
      sig_sorts sig' = sig_sorts sig; completes t t'; term_sort sig' \<Gamma> t' = Some s \<rbrakk>
    \<Longrightarrow> explained (\<lambda>(ms, t1, tab'). extended lib tv tab \<rho> tab' (\<lambda>\<rho>'. sort_under \<rho>' ms = s)) (collect_term lib sc tab t)"
  and "\<lbrakk> unification_doc lib tv; state_ok lib tv sig sc tab (sum_list (map blank_count ts)); fits lib tv sc tab \<rho> sig' \<Gamma>;
      sig_sorts sig' = sig_sorts sig; list_all2 completes ts ts'; map (term_sort sig' \<Gamma>) ts' = map Some args;
      list_all (sort_exists sig) args \<rbrakk>
    \<Longrightarrow> explained (\<lambda>(ts1, tab'). extended lib tv tab \<rho> tab' (\<lambda>_. True)) (collect_terms lib sc tab args ts)"
proof (induction lib sc tab t and lib sc tab args ts arbitrary: \<rho> \<Gamma> t' s and \<rho> \<Gamma> ts' rule: collect_term_collect_terms.induct)
  case (1 lib sc tab b)
  then show ?case by (auto simp: fits_def intro: extendedI)
next
  case (2 lib sc tab name)
  from 2(5,6) show ?case by (intro explained_id [OF 2(3)]) simp
next
  case (3 lib sc tab f p xs)
  from 3(6) obtain xs' where t': "t' = App f p xs'" and xs': "list_all2 completes xs xs'" by (cases t') auto
  from 3(7) obtain d where d: "decl_of sig' f = Some d" "those (map (term_sort sig' \<Gamma>) xs') = Some (rd_args d)" "s = rd_sort d"
    unfolding t' by (auto split: option.splits if_splits)
  show ?case
  proof (cases "get_relation sc f")
    case (Inl e)
    then show ?thesis by (auto simp: get_relation_def split: option.splits relation_or_individual.splits)
  next
    case (Inr r)
    obtain args ret where r: "r = (args, ret)" by (cases r)
    from Inr r have bound: "sc_bound sc f = Some (Relation args ret)"
      by (auto simp: get_relation_def split: option.splits relation_or_individual.splits)
    with 3(4) d(1,3) have eq: "rd_args d = args" "s = ret" by (fastforce simp: fits_def scope_means_def)+
    have args: "map (term_sort sig' \<Gamma>) xs' = map Some args" using d(2) by (simp add: those_Some eq)
    have len: "length args = length xs" using list_all2_lengthD [OF xs'] arg_cong [OF args, of length] by simp
    have ex: "list_all (sort_exists sig) args"
      using 3(3) bound by (fastforce simp: state_ok_def scope_sorts_def list_all_iff)
    have ok: "state_ok lib tv sig sc tab (sum_list (map blank_count xs))" using 3(3) by simp
    have IH: "explained (\<lambda>(ts1, tab'). extended lib tv tab \<rho> tab' (\<lambda>_. True)) (collect_terms lib sc tab args xs)"
      by (rule 3(1) [OF _ 3(2) ok 3(4,5) xs' args ex]) (simp_all add: r len)
    have "explained (\<lambda>(ms, t1, tab'). extended lib tv tab \<rho> tab' (\<lambda>\<rho>'. sort_under \<rho>' ms = s))
        (bind_r (collect_terms lib sc tab args xs) (\<lambda>(xs, tab). Inr (Known ret, App f p xs, tab)))"
      by (rule explained_bind [OF IH]) (auto simp: eq)
    then show ?thesis by (simp add: Inr r len)
  qed
next
  case (4 lib sc tab op x)
  from 4(6) obtain x' where t': "t' = UnaryOp op x'" and x': "completes x x'" by (cases t') auto
  have ok: "state_ok lib tv sig sc tab (blank_count x)" using 4(3) by simp
  show ?case
  proof (cases "op = Prime")
    case True
    have srt: "term_sort sig' \<Gamma> x' = Some s" using 4(7) True by (simp add: t')
    have "explained (\<lambda>(ms, t1, tab'). extended lib tv tab \<rho> tab' (\<lambda>\<rho>'. sort_under \<rho>' ms = s))
      (bind_r (collect_term lib sc tab x) (\<lambda>(srt, x, tab). Inr (srt, UnaryOp op x, tab)))"
      by (rule explained_bind [OF 4(1) [OF 4(2) ok 4(4,5) x' srt]]) auto
    with True show ?thesis by simp
  next
    case False
    with 4(7) have srt: "term_sort sig' \<Gamma> x' = Some Bool" and s: "s = Bool" by (auto simp: t' split: if_splits)
    have ok0: "state_ok lib tv sig sc tab (blank_count x + 0)" using ok by simp
    show ?thesis
      unfolding collect_term.simps if_not_P [OF False]
      by (rule collect_unify_explained [OF 4(2) words ok0 4(4) sort_exists_Bool 4(1) [OF 4(2) ok 4(4,5) x' srt]])
        (auto simp: fits_def extended_def s)
  qed
next
  case (5 lib sc tab op x y)
  note doc = 5(5) and fit = 5(7) and sorts = 5(8)
  from 5(9) obtain x' y' where t': "t' = BinOp op x' y'" and x': "completes x x'" and y': "completes y y'" by (cases t') auto
  have ok: "state_ok lib tv sig sc tab (blank_count x + blank_count y)" using 5(6) by simp
  have okx: "state_ok lib tv sig sc tab (blank_count x)" by (rule state_ok_less [OF ok]) simp
  show ?case
  proof (cases "op = Equals \<or> op = NotEquals")
    case True
    from 5(10) True obtain s1 where s1: "term_sort sig' \<Gamma> x' = Some s1" "term_sort sig' \<Gamma> y' = Some s1" and s: "s = Bool"
      unfolding t' by (cases "term_sort sig' \<Gamma> x'") (auto split: if_splits)
    show ?thesis
      unfolding collect_term.simps if_P [OF True]
    proof (rule collect_equal_explained [OF doc words ok fit 5(1) [OF True doc okx fit sorts x' s1(1)]])
      show "explained (\<lambda>(ms, t1, tab2). extended lib tv tab1 \<rho>1 tab2 (\<lambda>\<rho>'. sort_under \<rho>' ms = s1)) (collect_term lib sc tab1 y)"
        if "state_ok lib tv sig sc tab1 (blank_count y)" "fits lib tv sc tab1 \<rho>1 sig' \<Gamma>" for tab1 \<rho>1
        by (rule 5(2) [OF True doc that sorts y' s1(2)])
    qed (auto simp: s elim: extended_mono)
  next
    case False
    with 5(10) have srt: "term_sort sig' \<Gamma> x' = Some Bool" "term_sort sig' \<Gamma> y' = Some Bool" and s: "s = Bool"
      by (auto simp: t' split: if_splits)
    show ?thesis
      unfolding collect_term.simps if_not_P [OF False]
    proof (rule collect_unify_explained [OF doc words ok fit sort_exists_Bool 5(3) [OF False doc okx fit sorts x' srt(1)]])
      fix x1 tab2 \<rho>2
      assume ok2: "state_ok lib tv sig sc tab2 (blank_count y)" and fit2: "fits lib tv sc tab2 \<rho>2 sig' \<Gamma>"
        and agree: "\<forall>k<tv_keys tv tab. \<rho>2 k = \<rho> k" and le: "tv_keys tv tab \<le> tv_keys tv tab2"
      have ok0: "state_ok lib tv sig sc tab2 (blank_count y + 0)" using ok2 by simp
      show "explained (\<lambda>(ms, t1, tab'). extended lib tv tab \<rho> tab' (\<lambda>\<rho>'. sort_under \<rho>' ms = s))
        (bind_r (collect_term lib sc tab2 y) (\<lambda>(b, y, tab). bind_r (unify_var_value lib tab Bool b)
          (\<lambda>tab. Inr (Known Bool, BinOp op x1 y, tab))))"
        by (rule collect_unify_explained [OF doc words ok0 fit2 sort_exists_Bool 5(4) [OF False doc ok2 fit2 sorts y' srt(2)]])
          (auto simp: s intro: extended_fits [OF agree le])
    qed
  qed
next
  case (6 lib sc tab op xs)
  from 6(6) obtain xs' where t': "t' = NAryOp op xs'" and xs': "list_all2 completes xs xs'" by (cases t') auto
  from 6(7) have srt: "\<forall>x\<in>set xs'. term_sort sig' \<Gamma> x = Some Bool" and s: "s = Bool" by (auto simp: t' split: if_splits)
  have args: "map (term_sort sig' \<Gamma>) xs' = map Some (replicate (length xs) Bool)"
    using srt list_all2_lengthD [OF xs'] by (auto intro!: nth_equalityI)
  have ok: "state_ok lib tv sig sc tab (sum_list (map blank_count xs))" using 6(3) by simp
  have IH: "explained (\<lambda>(ts1, tab'). extended lib tv tab \<rho> tab' (\<lambda>_. True))
      (collect_terms lib sc tab (replicate (length xs) Bool) xs)"
    by (rule 6(1) [OF 6(2) ok 6(4,5) xs' args]) (simp add: list_all_iff)
  show ?case
    unfolding collect_term.simps by (rule explained_bind [OF IH]) (auto simp: s)
next
  case (7 lib sc tab c t e)
  note doc = 7(4) and fit = 7(6) and sorts = 7(7)
  from 7(8) obtain c' x' y' where t': "t' = Ite c' x' y'" and c': "completes c c'" and x': "completes t x'"
    and y': "completes e y'" by (cases t') auto
  from 7(9) have srt: "term_sort sig' \<Gamma> c' = Some Bool" "term_sort sig' \<Gamma> x' = Some s" "term_sort sig' \<Gamma> y' = Some s"
    by (auto simp: t' split: if_splits)
  have ok: "state_ok lib tv sig sc tab (blank_count c + (blank_count t + blank_count e))" using 7(5) by (simp add: add.assoc)
  have okc: "state_ok lib tv sig sc tab (blank_count c)" by (rule state_ok_less [OF ok]) simp
  show ?case
    unfolding collect_term.simps
  proof (rule collect_unify_explained [OF doc words ok fit sort_exists_Bool 7(1) [OF doc okc fit sorts c' srt(1)]])
    fix c1 tab2 \<rho>2
    assume ok2: "state_ok lib tv sig sc tab2 (blank_count t + blank_count e)" and fit2: "fits lib tv sc tab2 \<rho>2 sig' \<Gamma>"
      and agree: "\<forall>k<tv_keys tv tab. \<rho>2 k = \<rho> k" and le: "tv_keys tv tab \<le> tv_keys tv tab2"
    have okt: "state_ok lib tv sig sc tab2 (blank_count t)" by (rule state_ok_less [OF ok2]) simp
    show "explained (\<lambda>(ms, t1, tab'). extended lib tv tab \<rho> tab' (\<lambda>\<rho>'. sort_under \<rho>' ms = s))
      (bind_r (collect_term lib sc tab2 t) (\<lambda>(a, t, tab). bind_r (collect_term lib sc tab e) (\<lambda>(b, e, tab).
        bind_r (unify_var_var lib tab a b) (\<lambda>tab. Inr (a, Ite c1 t e, tab)))))"
    proof (rule collect_equal_explained [OF doc words ok2 fit2 7(2) [OF doc okt fit2 sorts x' srt(2)]])
      show "explained (\<lambda>(ms, t1, tab2). extended lib tv tab1 \<rho>1 tab2 (\<lambda>\<rho>'. sort_under \<rho>' ms = s)) (collect_term lib sc tab1 e)"
        if "state_ok lib tv sig sc tab1 (blank_count e)" "fits lib tv sc tab1 \<rho>1 sig' \<Gamma>" for tab1 \<rho>1
        by (rule 7(3) [OF doc that sorts y' srt(3)])
    qed (use extended_trans [OF agree le] in simp)
  qed
next
  case (8 lib sc tab q bs body)
  note doc = 8(2) and fit = 8(4) and sorts = 8(5)
  from 8(6) obtain bs2 body' where t': "t' = Quantified q bs2 body'" and bs2: "list_all2 binder_completes bs bs2"
    and body': "completes body body'" by (cases t') auto
  from 8(7) have ex: "\<forall>b\<in>set bs2. sort_exists sig (b_sort b)"
    and srt: "term_sort sig' (binder_context \<Gamma> bs2) body' = Some Bool" and s: "s = Bool"
    by (auto simp: t' binder_context_def sort_exists_same [OF sorts] split: if_splits)
  have ok: "state_ok lib tv sig sc tab (blank_binders bs + (blank_count body + 0))" using 8(3) by simp
  have okb: "state_ok lib tv sig sc tab (blank_binders bs)" by (rule state_ok_less [OF ok]) simp
  have \<rho>: "solves lib tv \<rho> tab" and means: "scope_means \<rho> sc sig' \<Gamma>" using fit by (simp_all add: fits_def)
  show ?case
    unfolding collect_term.simps add_binders_for_inference_def
  proof (rule explained_bind [OF add_inferred_binders_explained [OF doc words okb \<rho> means bs2 ex]], clarsimp)
    fix sc1 tab1 bs1
    assume add: "add_inferred_binders lib [] sc tab bs = Inr (sc1, tab1, bs1)"
      and "extended lib tv tab \<rho> tab1 (\<lambda>\<rho>'. scope_means \<rho>' sc1 sig' (binder_context \<Gamma> bs2))"
    then obtain \<rho>1 where agree: "\<forall>k<tv_keys tv tab. \<rho>1 k = \<rho> k" and fit1: "fits lib tv sc1 tab1 \<rho>1 sig' (binder_context \<Gamma> bs2)"
      by (auto simp: extended_def fits_def)
    have B: "table_step lib tv sig tab (blank_binders bs) tab1" "binders_collected lib tv sig sc tab1 bs sc1 bs1"
      using add_inferred_binders_sound [OF doc words add] okb by (simp_all add: state_ok_def)
    note K = state_ok_step [OF ok B(1)]
    have ok1: "state_ok lib tv sig sc1 tab1 (blank_count body + 0)" "state_ok lib tv sig sc1 tab1 (blank_count body)"
      using K(1) B(2) by (simp_all add: state_ok_def binders_collected_def)
    show "explained (\<lambda>(ms, t1, tab'). extended lib tv tab \<rho> tab' (\<lambda>\<rho>'. sort_under \<rho>' ms = s))
      (bind_r (collect_term lib sc1 tab1 body) (\<lambda>(srt, body, tab). bind_r (unify_var_value lib tab Bool srt)
        (\<lambda>tab. Inr (Known Bool, Quantified q bs1 body, tab))))"
      by (rule collect_unify_explained [OF doc words ok1(1) fit1 sort_exists_Bool 8(1) [OF doc ok1(2) fit1 sorts body' srt]])
        (auto simp: s intro: extended_fits [OF agree K(2)])
  qed
next
  case (9 lib sc tab arg args x xs)
  note doc = 9(3) and fit = 9(5) and sorts = 9(6)
  from 9(7) obtain x' xs' where ts': "ts' = x' # xs'" and x': "completes x x'" and xs': "list_all2 completes xs xs'"
    by (cases ts') auto
  from 9(8,9) have srt: "term_sort sig' \<Gamma> x' = Some arg" "map (term_sort sig' \<Gamma>) xs' = map Some args"
    and ex: "sort_exists sig arg" "list_all (sort_exists sig) args" by (simp_all add: ts')
  have ok: "state_ok lib tv sig sc tab (blank_count x + sum_list (map blank_count xs))" using 9(4) by simp
  have okx: "state_ok lib tv sig sc tab (blank_count x)" by (rule state_ok_less [OF ok]) simp
  show ?case
    unfolding collect_terms.simps
  proof (rule collect_unify_explained [OF doc words ok fit ex(1) 9(1) [OF doc okx fit sorts x' srt(1)]])
    fix x1 tab2 \<rho>2
    assume ok2: "state_ok lib tv sig sc tab2 (sum_list (map blank_count xs))" and fit2: "fits lib tv sc tab2 \<rho>2 sig' \<Gamma>"
      and agree: "\<forall>k<tv_keys tv tab. \<rho>2 k = \<rho> k" and le: "tv_keys tv tab \<le> tv_keys tv tab2"
    show "explained (\<lambda>(ts1, tab'). extended lib tv tab \<rho> tab' (\<lambda>_. True))
      (bind_r (collect_terms lib sc tab2 args xs) (\<lambda>(xs, tab). Inr (x1 # xs, tab)))"
      by (rule explained_bind [OF 9(2) [OF doc ok2 fit2 sorts xs' srt(2) ex(2)]])
        (auto dest: extended_trans [OF agree le])
  qed
qed (auto simp: fits_def intro: extendedI)

end
