(* ===== verification/Fly_Sorts_Verdicts.thy ===== *)
theory Fly_Sorts_Verdicts
  imports Fly_Sorts_Complete
begin

text \<open>
  What a caller of the sort checker may rely on: accepted terms and modules are well sorted, a module
  never makes the checker panic, and reported conflicts of sorts are genuine.
\<close>

section \<open>Properties\<close>

lemma sort_check_term_result:
  assumes doc: "unification_doc lib tv" and words: "sort_words sig" and n: "int (blank_count t) \<le> 4294967296"
    and new: "scope_new sig = Some (Inr sc)"
  shows "returns (\<lambda>(s, t'). sort_exists sig s \<and> term_checked sig (sig_relations sig) Map.empty t t' s) (sort_check_term lib sig t)"
proof -
  have sc: "scope_holds sc sig (sig_relations sig)" using scope_new_returns [OF words] new by simp
  note means = scope_holds_means [OF sc, of "\<lambda>_. Bool"]
  from scope_check_result [OF doc words scope_holds_sorts [OF sc] n]
  obtain r where r: "scope_sort_check_term lib sc t = Some r" "\<And>s t'. r = Inr (s, t') \<Longrightarrow> sorted_as sig sc t t' s" by blast
  have "sort_exists sig s \<and> term_checked sig (sig_relations sig) Map.empty t t' s" if "r = Inr (s, t')" for s t'
    using r(2) [OF that] sorted_as_checked [OF r(2) [OF that] means] by (simp add: sorted_as_def)
  with r(1) show ?thesis by (auto simp: sort_check_term_def new returns_def)
qed

text \<open>C13: sort checking a term is sound: the result completes the given term, has all annotations, and has the
  reported sort, which exists in the signature, according to the sorting rules of the semantics. (As in what the
  parser delivers, sort names are words, without white space, and at most $2^{32}$ annotations are missing.)\<close>

theorem sort_check_term_sound:
  assumes "unification_doc lib tv" and "sort_words sig" and "int (blank_count t) \<le> 4294967296"
    and "sort_check_term lib sig t = Some (Inr (s, t'))"
  shows "completes t t' \<and> has_all_sort_annotations_term t' \<and> sort_exists sig s \<and> term_sort sig Map.empty t' = Some s"
proof -
  from assms(4) obtain sc where "scope_new sig = Some (Inr sc)" by (auto simp: sort_check_term_def bind_pr_Inr)
  from sort_check_term_result [OF assms(1-3) this] assms(4) show ?thesis by (simp add: term_checked_def)
qed

definition ring_sig :: signature where
  "ring_sig = \<lparr>sig_sorts = [''node''], sig_relations =
     [\<lparr>rd_mutable = True, rd_name = ''leader'', rd_args = [Uninterpreted ''node''], rd_sort = Bool\<rparr>,
      \<lparr>rd_mutable = False, rd_name = ''root'', rd_args = [], rd_sort = Uninterpreted ''node''\<rparr>]\<rparr>"

definition ring_term :: "sort \<Rightarrow> fterm" where
  "ring_term s = Quantified Forall [\<lparr>b_name = ''x'', b_sort = s\<rparr>]
     (BinOp Implies (BinOp NotEquals (Id ''x'') (Id ''root'')) (UnaryOp NotOp (App ''leader'' 0 [Id ''x''])))"

lemma ring_term_checked:
  "sort_check_term list_unification ring_sig (ring_term sort_unknown) = Some (Inr (Bool, ring_term (Uninterpreted ''node'')))"
  by code_simp

lemma ring_words: "sort_words ring_sig"
  by (simp add: sort_words_def ring_sig_def is_word_def is_whitespace_def)

lemma ring_blanks: "int (blank_count (ring_term s)) \<le> 4294967296"
  by (simp add: ring_term_def blank_binders_def)

theorem sort_check_term_sound_witness:
  "completes (ring_term sort_unknown) (ring_term (Uninterpreted ''node''))
   \<and> has_all_sort_annotations_term (ring_term (Uninterpreted ''node'')) \<and> sort_exists ring_sig Bool
   \<and> term_sort ring_sig Map.empty (ring_term (Uninterpreted ''node'')) = Some Bool"
  by (rule sort_check_term_sound [OF list_unification_doc ring_words ring_blanks ring_term_checked])

text \<open>C15: the error behaviour of inference: a mismatch of sorts, a wrong number of arguments or an undeclared
  sort is only reported for a term that no choice of the missing annotations makes well sorted.\<close>

theorem sort_errors_genuine:
  assumes doc: "unification_doc lib tv" and words: "sort_words sig" and n: "int (blank_count t) \<le> 4294967296"
    and new: "scope_new sig = Some (Inr sc)" and e: "sort_check_term lib sig t = Some (Inl e)" "sort_conflict e"
    and t': "completes t t'"
  shows "term_sort sig Map.empty t' = None"
proof (rule ccontr)
  assume "term_sort sig Map.empty t' \<noteq> None"
  then obtain s where s: "term_sort sig Map.empty t' = Some s" by auto
  have sc: "scope_holds sc sig (sig_relations sig)" using scope_new_returns [OF words] new by simp
  note N = new_tableD [OF doc]
  have ok: "state_ok lib tv sig sc (ut_new lib) (blank_count t)"
    using N(1,2) scope_holds_sorts [OF sc] n by (simp add: state_ok_def table_inv_def values_in_def)
  have fit: "fits lib tv sc (ut_new lib) (\<lambda>_. Bool) sig Map.empty"
    using N(3) scope_holds_means [OF sc] by (simp add: fits_def)
  note E = collect_explained(1) [OF words doc ok fit refl t' s]
  show False
  proof (cases "collect_term lib sc (ut_new lib) t")
    case (Inl e')
    with e(1) have "e' = e" by (simp add: sort_check_term_def new scope_sort_check_term_def context_sort_check_term_def)
    with E Inl e(2) show False by simp
  next
    case (Inr x)
    then obtain ms t1 tab where C: "collect_term lib sc (ut_new lib) t = Inr (ms, t1, tab)" by (cases x) auto
    obtain s' where "ms = Known s'" and A: "answers (\<lambda>t2. sorted_as sig sc t t2 s') (annotate_term lib tab t1)"
      by (rule collect_annotate [OF doc words scope_holds_sorts [OF sc] n C])
    then have "bind_pr (annotate_term lib tab t1) (\<lambda>t. if has_all_sort_annotations_term t then Some (Inr (s', t)) else None) = Some (Inl e)"
      using e(1) C by (simp add: sort_check_term_def new scope_sort_check_term_def context_sort_check_term_def get_maybe_unknown_sort_def)
    with A e(2) show False
      by (cases "(\<lambda>t2. sorted_as sig sc t t2 s', annotate_term lib tab t1)" rule: answers.cases) (auto split: if_splits)
  qed
qed

definition ring_conflict :: "sort \<Rightarrow> fterm" where
  "ring_conflict s = Quantified Exists [\<lparr>b_name = ''x'', b_sort = s\<rparr>]
     (NAryOp And [App ''leader'' 0 [Id ''x''], Id ''x''])"

lemma ring_conflict_facts:
  "\<exists>sc. scope_new ring_sig = Some (Inr sc)"
  "sort_check_term list_unification ring_sig (ring_conflict sort_unknown) = Some (Inl (UnificationFail (Uninterpreted ''node'') Bool))"
  "int (blank_count (ring_conflict s)) \<le> 4294967296"
proof -
  show "sort_check_term list_unification ring_sig (ring_conflict sort_unknown) = Some (Inl (UnificationFail (Uninterpreted ''node'') Bool))"
    by code_simp
  show "int (blank_count (ring_conflict s)) \<le> 4294967296" by (simp add: ring_conflict_def blank_binders_def)
  show "\<exists>sc. scope_new ring_sig = Some (Inr sc)"
    using ring_term_checked by (auto simp: sort_check_term_def bind_pr_Inr)
qed

theorem sort_errors_genuine_witness:
  "completes (ring_conflict sort_unknown) (ring_conflict (Uninterpreted ''node''))
   \<and> term_sort ring_sig Map.empty (ring_conflict (Uninterpreted ''node'')) = None"
proof -
  obtain sc where sc: "scope_new ring_sig = Some (Inr sc)" using ring_conflict_facts(1) by blast
  have "completes (ring_conflict sort_unknown) (ring_conflict (Uninterpreted ''node''))"
    by (simp add: ring_conflict_def binder_completes_def)
  with sort_errors_genuine [OF list_unification_doc ring_words ring_conflict_facts(3) sc ring_conflict_facts(2) _ this]
  show ?thesis by simp
qed

text \<open>C14: sort checking a module is sound: it keeps the signature; every definition body has the declared sort
  among the relations and the earlier definitions, in the context of its binders; every assumption,
  invariant and assertion is Boolean; and only missing annotations were filled in, all of them. (For modules
  as the parser delivers them, \<open>module_input\<close>: sort names are words, without white space, the binders of
  definitions have sorts, and at most $2^{32}$ annotations are missing in a term.)\<close>

theorem sort_check_module_sound:
  assumes "unification_doc lib tv" and "module_input m" and "sort_check_module lib m = Some (Inr m')"
  shows "module_checked m m' \<and> has_all_sort_annotations_module m'"
  using module_returns [OF assms(1,2)] module_checked_annotated assms(3) by auto

text \<open>C16: sort checking never panics on a module as the parser delivers it (\<open>module_input\<close>): when the sort names
  are words, without white space, the binders of definitions have sorts, and at most $2^{32}$ annotations are
  missing in a term, labels are always read back, the annotations asserted at the end are present, and every
  failure is a reported error. Without the first condition this is false: \<open>sort_name_with_tab\<close> below.\<close>

theorem sort_check_module_returns:
  assumes "unification_doc lib tv" and "module_input m"
  shows "\<exists>r. sort_check_module lib m = Some r"
  using module_returns [OF assms] by (auto simp: returns_def)

definition ring_module :: "sort \<Rightarrow> fmodule" where
  "ring_module s = \<lparr>mod_signature = ring_sig,
     mod_defs = [\<lparr>d_name = ''is_root'', d_binders = [\<lparr>b_name = ''x'', b_sort = Uninterpreted ''node''\<rparr>],
       d_ret_sort = Bool, d_body = BinOp Equals (Id ''x'') (Id ''root'')\<rparr>],
     mod_statements = [Assume (ring_term s), Assert \<lparr>p_assert =
       \<lparr>sp_x = Quantified Forall [\<lparr>b_name = ''y'', b_sort = s\<rparr>]
         (BinOp Implies (App ''leader'' 0 [Id ''y'']) (App ''is_root'' 0 [Id ''y''])), sp_span = None\<rparr>, p_invariants = []\<rparr>]\<rparr>"

lemma ring_module_checked:
  "sort_check_module list_unification (ring_module sort_unknown) = Some (Inr (ring_module (Uninterpreted ''node'')))"
  by code_simp

lemma ring_module_input: "module_input (ring_module sort_unknown)"
  using ring_words ring_blanks [of sort_unknown]
  by (simp add: module_input_def ring_module_def def_input_def blank_binders_def sort_unknown_def sort_uninterpreted_def)

theorem sort_check_module_sound_witness:
  "module_checked (ring_module sort_unknown) (ring_module (Uninterpreted ''node''))
   \<and> has_all_sort_annotations_module (ring_module (Uninterpreted ''node''))"
  by (rule sort_check_module_sound [OF list_unification_doc ring_module_input ring_module_checked])

theorem sort_check_module_returns_witness:
  "\<exists>r. sort_check_module list_unification (ring_module sort_unknown) = Some r"
  by (rule sort_check_module_returns [OF list_unification_doc ring_module_input])

section \<open>Sort names with white space\<close>

text \<open>The hypothesis on sort names is needed: \<open>Scope::new\<close> only rejects spaces, and a declared sort with a
  tab in its name is read back as a malformed label.\<close>

definition tab_sort :: string where
  "tab_sort = ''a'' @ [CHR 0x09] @ ''b''"

lemma sort_name_with_tab:
  "sort_check_term list_unification \<lparr>sig_sorts = [tab_sort], sig_relations = []\<rparr>
     (Quantified Forall [\<lparr>b_name = ''x'', b_sort = Uninterpreted tab_sort\<rparr>] (BinOp Equals (Id ''x'') (Id ''x''))) = None"
  by code_simp

end
