(* ===== verification/Spec2Isabelle.thy ===== *)
theory Spec2Isabelle
  imports Fly_Itertools Fly_Syntax Fly_Semantics Fly_Trace Fly_Eval Fly_Smart Fly_Prime Fly_Fo
    Fly_Subst Fly_Cnf Fly_Transitions Fly_Defs Bounded_Quant_Enum Bounded_Indices Bounded_Sat
    Bounded_System Bounded_State Bounded_Set_Search Bounded_Set_Correct
    Bounded_Set_Translate Bounded_Set_Verdicts Fly_Symmetry Bdd Bounded_Smt Bounded_Bdd Bounded_Bdd_Image
    Bounded_Bdd_Search Bounded_Bdd_Trace Bounded_Bdd_States Bounded_Bdd_Check Bounded_Bdd_Verdicts Verify_Module Verify_Lookahead Inference_Marco
    Inference_Houdini Inference_Houdini_Sound Inference_Houdini_Greatest
    Inference_Order Inference_Trie Inference_Subsume Inference_Subsume_Pair Inference_And_Map Inference_Subsume_Maps
    Inference_Quant Inference_Lemma Inference_Weakening Inference_Weaken Inference_Unsat Inference_Weaken_Sound
    Decimal Fly_Sorts Fly_Unification Fly_Sorts_Sound Fly_Sorts_Check Fly_Sorts_Module Fly_Sorts_Complete Fly_Sorts_Verdicts
begin

text \<open>
  A verification development for temporal-verifier (flyvy): a language of first-order temporal modules
  (crate \<^verbatim>\<open>fly\<close>), bounded model checkers for them (crate \<^verbatim>\<open>bounded\<close>), a deductive verifier (crate
  \<^verbatim>\<open>verify\<close>) and invariant inference (crate \<^verbatim>\<open>inference\<close>).

  \<^bold>\<open>How the program fits together.\<close> A module is parsed, its sorts are inferred and checked
  (\<^verbatim>\<open>fly/src/sorts.rs\<close>), its definitions are inlined (\<^verbatim>\<open>fly/src/defs.rs\<close>), and
  \<^verbatim>\<open>fly/src/transitions.rs\<close> extracts a transition system from its assumptions and assertions:
  initial conditions, transitions, axioms, and proofs (a safety property with its invariants). The checkers
  work on that system. \<^verbatim>\<open>verify\<close> asks an SMT solver whether the invariants of a proof are inductive;
  Houdini (\<^verbatim>\<open>inference/src/houdini.rs\<close>) drops candidates until they are. The bounded checkers search
  for executions of bounded length over a bounded universe: \<^verbatim>\<open>sat.rs\<close> by one SAT query, \<^verbatim>\<open>smt.rs\<close> by one
  SMT query, \<^verbatim>\<open>set.rs\<close> by explicit breadth-first search up to isomorphism, \<^verbatim>\<open>bdd.rs\<close> by symbolic search
  forwards or backwards; they share \<^verbatim>\<open>quant_enum.rs\<close> (quantifiers expanded over the universe) and
  \<^verbatim>\<open>indices.rs\<close> (boolean variables for relations applied to elements).

  \<^bold>\<open>Theories and sources.\<close>
  \<^item> \<open>Prelude\<close>: conventions for panics and errors, shared lemmas. \<open>Decimal\<close>: what is used of Rust's strings.
  \<^item> \<open>Fly_Syntax\<close>: \<^verbatim>\<open>fly/src/syntax.rs\<close>, its datatypes as they are; \<open>Fly_Smart\<close> proves the smart
    constructors right; \<open>Fly_Itertools\<close>: \<^verbatim>\<open>ouritertools.rs\<close>.
  \<^item> \<open>Fly_Semantics\<close>: models, tables and the evaluator of \<^verbatim>\<open>semantics.rs\<close>. \<open>Fly_Trace\<close> holds the abstract
    specification all correctness statements are about: the meaning \<open>teval\<close> of a term at a time point of an
    infinite trace, and the sort discipline \<open>term_sort\<close>. \<open>Fly_Eval\<close> proves the evaluator against it,
    \<open>Fly_Symmetry\<close> that isomorphic traces cannot be told apart.
  \<^item> \<open>Fly_Prime\<close>, \<open>Fly_Fo\<close>, \<open>Fly_Subst\<close>, \<open>Fly_Cnf\<close>: the term transformations of \<^verbatim>\<open>fly/src/term/\<close>.
  \<^item> \<open>Fly_Sorts\<close>: \<^verbatim>\<open>sorts.rs\<close>. \<open>Fly_Unification\<close> states what the unification table promises (by its
    solutions), \<open>Fly_Sorts_Sound\<close>, \<open>_Check\<close>, \<open>_Module\<close> prove the two phases, terms and modules sound,
    \<open>_Complete\<close> that reported sort conflicts are genuine, \<open>_Verdicts\<close> holds the properties.
  \<^item> \<open>Fly_Defs\<close>: \<^verbatim>\<open>defs.rs\<close>, the inlining of definitions; since the code neither renames bound variables nor looks
    into arguments, its correctness is stated for modules free of capture (\<open>all_safe\<close>).
  \<^item> \<open>Fly_Transitions\<close>: \<^verbatim>\<open>transitions.rs\<close> and its equivalence with the temporal reading of a module.
  \<^item> \<open>Bounded_Quant_Enum\<close>, \<open>Bounded_Indices\<close>: the shared parts of the bounded checkers; \<open>Bounded_System\<close>:
    their answers and the executions they are about. The SAT, SMT and BDD checkers do not require the axioms over
    mutable relations in the last state; \<open>bounded_run\<close> is what they search, a superset of the executions of the
    system, so their negative answers cover all executions while a counterexample may violate such an axiom at
    its end (\<open>sat_check_axiom_gap\<close>). The explicit-state checker searches executions proper (\<open>system_run\<close>). \<open>Bdd\<close>, \<open>Cadical\<close>: the interfaces of the libraries.
  \<^item> \<open>Bounded_Sat\<close>: \<^verbatim>\<open>sat.rs\<close>. \<open>Bounded_Smt\<close>: \<^verbatim>\<open>smt.rs\<close>.
  \<^item> \<open>Bounded_State\<close>, \<open>Bounded_Set_Search\<close>, \<open>Bounded_Set_Translate\<close>: \<^verbatim>\<open>set.rs\<close> (states and formulas, search,
    translation); \<open>_Correct\<close> (the search finds exactly the shortest violations), \<open>_Steps\<close>, \<open>_System\<close>,
    \<open>_Runs\<close> (the translated program has the runs of the transition system), \<open>_Symmetry\<close> (its states may be
    explored up to isomorphism), \<open>_Check\<close>, \<open>_Verdicts\<close> (what the answers mean).
  \<^item> \<open>Bounded_Bdd\<close>: \<^verbatim>\<open>bdd.rs\<close>; \<open>_Image\<close> (what the symbolic operations denote), \<open>_Search\<close> and \<open>_Trace\<close> (the
    locales \<open>symbolic_search\<close> and \<open>symbolic_walk\<close>, interpreted for both directions), \<open>_States\<close>, \<open>_Check\<close>,
    \<open>_Verdicts\<close>.
  \<^item> \<open>Verify_Module\<close>: \<^verbatim>\<open>verify/src/\<close>; \<open>Verify_Lookahead\<close>: how far ahead its queries look.
  \<^item> \<open>Inference_Houdini\<close>: \<^verbatim>\<open>houdini.rs\<close>, with its parallel checks as tasks that take turns (\<open>check_move\<close> is
    the step relation, the invariant of all interleavings is proved by rule induction); \<open>_Sound\<close>: what it
    accepts is safe; \<open>_Greatest\<close>: it finds the greatest inductive part and always returns.
  \<^item> \<open>Inference_Order\<close>, \<open>Inference_Trie\<close>, \<open>Inference_Subsume\<close>: \<^verbatim>\<open>subsume.rs\<close>, the orders with subsumption, the
    tries and the maps. The traits are records of operations and their contracts the locales
    \<open>order_subsumption\<close>, \<open>order_semantics\<close> and \<open>subsumption_map\<close>; \<open>_Pair\<close> and \<open>Inference_And_Map\<close> prove the contract
    for pairs and conjunctions, \<open>_Maps\<close> instantiates it for literals, clauses, cubes and normal forms.
  \<^item> \<open>Inference_Quant\<close>: \<^verbatim>\<open>quant.rs\<close>, quantifier prefixes. \<open>Inference_Lemma\<close>: the atoms of \<^verbatim>\<open>atoms.rs\<close> and the three
    domains of lemma bodies of \<^verbatim>\<open>lemma.rs\<close>, the trait \<^verbatim>\<open>LemmaQf\<close> as a record; \<open>Inference_Weakening\<close> proves what weakening
    promises in each. \<open>Inference_Weaken\<close>: the sets of lemmas with one prefix of \<^verbatim>\<open>weaken.rs\<close> (\<^verbatim>\<open>PrefixLemmaSet\<close>);
    \<open>Inference_Unsat\<close> shows that \<^verbatim>\<open>unsat\<close> answers exactly the lemmas that are false in the model (the locale
    \<open>lemma_domain\<close>, interpreted for the three domains), \<open>Inference_Weaken_Sound\<close> that after \<^verbatim>\<open>weaken\<close>, when it returns,
    none is, and that every lemma is implied by one that was there before.
  \<^item> \<open>Inference_Marco\<close>: \<^verbatim>\<open>marco.rs\<close>, an iterator as a state machine.

  \<^bold>\<open>State and effects.\<close> A struct is a record with the fields of the source, an enum a datatype, a \<open>&mut self\<close>
  method returns the changed value. \<open>None\<close> is a panic (or, for the functions defined by
  \<open>partial_function\<close>, divergence), \<open>Inl\<close> an error that is returned. No fuel is used: loops are structural,
  have a proved measure, or are partial functions about which termination is a property of its own.

  \<^bold>\<open>Parameters and bounds.\<close> Code outside the repository is a parameter, a record of the functions used
  (\<open>itertools\<close>, the SAT and SMT solvers, the BDD library, the unification table, the orders of hash maps, the
  scheduler of parallel checks), with its documented behaviour as a hypothesis (\<open>itertools_doc\<close>,
  \<open>bdd_doc\<close>, \<open>smt_doc\<close>, \<open>unification_doc\<close> and others). SMT-LIB sorts have elements, so \<open>smt_doc\<close> and the theorems
  that rest on it speak of the traces that have an element of every sort (\<open>inhabited_trace\<close>). Reference implementations show that the
  hypotheses can hold, and witnesses run the code on them. \<open>usize\<close> is \<open>nat\<close>; where the width matters it is kept:
  SAT literals wrap at 32 bits, the BDD library has fewer than $2^{16} - 2$ variables, labels of sort variables
  are below $2^{32}$.

  \<^bold>\<open>Not modelled.\<close> The parser (a grammar macro) and the printer; \<open>Model::to_term\<close>, \<open>to_diagram\<close> and displaying
  models; \<open>bdd_to_term\<close>, which nothing calls; logging, timing, progress and error rendering; processes, files
  and the SMT-LIB encoding (crates \<^verbatim>\<open>solver\<close>, \<^verbatim>\<open>smtlib\<close>), command line and benchmarking; of the crate
  \<^verbatim>\<open>inference\<close> the fixpoint search over lemma languages: \<^verbatim>\<open>InductionFrame\<close> (\<^verbatim>\<open>lemma.rs\<close>), sets of lemmas with
  several prefixes (\<^verbatim>\<open>WeakenLemmaSet\<close> and \<^verbatim>\<open>LemmaSet\<close> of \<^verbatim>\<open>weaken.rs\<close>), \<^verbatim>\<open>fixpoint.rs\<close>, \<^verbatim>\<open>updr.rs\<close>, \<^verbatim>\<open>basics.rs\<close>,
  and the choice of atoms and of a domain's bounds from the configuration. That \<^verbatim>\<open>PrefixLemmaSet::weaken\<close> returns is not
  proved: it panics when a body it inserts is there already.
\<close>

end
